(* ===== verification/Prelude.thy ===== *)
theory Prelude
  imports Main "HOL-Library.Word" "HOL-Library.Monad_Syntax"
begin

section \<open>Shared types, Go primitives and automation\<close>

text \<open>
  What every component of the development uses: bytes and machine integers, the error values of
  kkerrors, and the Go operations on slices that can panic.  A Go panic (index out of range,
  bad slice bounds, an explicit \<open>panic\<close> or \<open>kklog.PanicLog\<close>) is \<open>None\<close>, a normal return is
  \<open>Some\<close>; an \<open>error\<close> result is an ordinary value next to it.  The collection
  \<open>go_simps\<close> holds the unfolding rules of these primitives.
\<close>

named_theorems go_simps "unfolding rules of the Go slice primitives"

type_synonym byte = "8 word"

text \<open>Go's \<open>int\<close> on the 64-bit platforms the engine runs on, and its unsigned counterparts.\<close>

type_synonym goint = "64 word"
type_synonym msgid = "32 word"

text \<open>The result of a Go call that may panic.\<close>

type_synonym 'a go = "'a option"

abbreviation (input) panic :: "'a go" where
  "panic \<equiv> None"

abbreviation (input) ret :: "'a \<Rightarrow> 'a go" where
  "ret \<equiv> Some"

subsection \<open>The error values of kkerrors the model meets\<close>

datatype kkerror =
    ErrPktDataTooShortToDecode
  | ErrPktEncodeFailed
  | ErrPktInvalidMsgID
  | ErrPktMsgIDNotRegistered
  | ErrPktMsgTypeNotRegistered
  | ErrPktDataTooShortToMarshal
  | ErrPktDataTooShortToUnmarshal
  | ErrPktValueListTooShortToMarshal
  | ErrPktValueOutOfRange
  | ErrPktMsgIDAlreadyRegistered
  | ErrPktHeadPartNameNotFound
  | ErrPktNamesAndPartsLengthNotMatch
  | ErrPktHeadPartNameRepeated
  | ErrPktMaxMessageSize
  | ErrPktInvalidMessage
  | ErrPktInvalidLengthFieldByteCount
  | ErrClusterInvalidPacket
  | ErrCodecCannotUnmarshalToProtoMessage
  | ErrNetConnectionClosed
  | ErrNetSendQueueFull
  | ErrNetRecvQueueFull
  | NetErrClosed
  | IoErrClosedPipe
  | ErrRpcClosed
  | ErrRpcQueueFull
  | ErrRpcConnClosed
  | ErrRpcTimeout
  | ErrRpcInvalidRequestID
  | ErrRpcInvalidFrameType
  | ErrRpcInvalidReqResp
  | ErrRpcInvalidOneway
  | ErrRpcMethodNotRegistered
  | ErrRpcMethodAlreadyRegistered
  | ErrClusterMemberNotFound
  | ErrText string \<comment> \<open>an error made on the spot with its text: \<open>errors.New(text)\<close>, \<open>fmt.Errorf\<close>\<close>
  | ErrOther nat \<comment> \<open>an error made by code outside the repository\<close>

subsection \<open>Slices\<close>

text \<open>\<open>s[lo:hi]\<close> with the bounds check Go makes when \<open>cap(s) = len(s)\<close>.\<close>

definition sub_slice :: "'a list \<Rightarrow> nat \<Rightarrow> nat \<Rightarrow> 'a list" where
  "sub_slice xs lo hi = take (hi - lo) (drop lo xs)"

definition slice_go :: "'a list \<Rightarrow> nat \<Rightarrow> nat \<Rightarrow> 'a list go" where
  "slice_go xs lo hi = (if lo \<le> hi \<and> hi \<le> length xs then ret (sub_slice xs lo hi) else panic)"

definition index_go :: "'a list \<Rightarrow> nat \<Rightarrow> 'a go" where
  "index_go xs i = (if i < length xs then ret (xs ! i) else panic)"

definition store_go :: "'a list \<Rightarrow> nat \<Rightarrow> 'a \<Rightarrow> 'a list go" where
  "store_go xs i x = (if i < length xs then ret (xs[i := x]) else panic)"

text \<open>
  \<open>copy(dst[off:], src)\<close>: copies as many elements as fit, and never changes the length of \<open>dst\<close>.
\<close>

definition copy_at :: "'a list \<Rightarrow> nat \<Rightarrow> 'a list \<Rightarrow> 'a list" where
  "copy_at dst off src =
     take off dst @ take (length dst - off) src @ drop (off + length src) dst"

definition copy_go :: "'a list \<Rightarrow> nat \<Rightarrow> 'a list \<Rightarrow> 'a list go" where
  "copy_go dst off src = (if off \<le> length dst then ret (copy_at dst off src) else panic)"

lemma length_slice [simp]: "hi \<le> length xs \<Longrightarrow> length (sub_slice xs lo hi) = hi - lo"
  by (auto simp: sub_slice_def)

lemma slice_all [simp]: "sub_slice xs 0 (length xs) = xs"
  by (simp add: sub_slice_def)

lemma slice_same [simp]: "sub_slice xs i i = []"
  by (simp add: sub_slice_def)

lemma slice_to_end: "hi = length xs \<Longrightarrow> sub_slice xs lo hi = drop lo xs"
  by (simp add: sub_slice_def)

lemma slice_from_start: "sub_slice xs 0 hi = take hi xs"
  by (simp add: sub_slice_def)

lemma slice_append_slice:
  "lo \<le> mid \<Longrightarrow> mid \<le> hi \<Longrightarrow> sub_slice xs lo mid @ sub_slice xs mid hi = sub_slice xs lo hi"
proof -
  assume "lo \<le> mid" "mid \<le> hi"
  then have "hi - lo = (mid - lo) + (hi - mid)" "mid = (mid - lo) + lo" by auto
  then show ?thesis unfolding sub_slice_def by (metis drop_drop take_add)
qed

lemma slice_eq_Nil [simp]: "hi \<le> length xs \<Longrightarrow> sub_slice xs lo hi = [] \<longleftrightarrow> hi \<le> lo"
  by (auto simp: sub_slice_def)

lemma take_slice: "take n (sub_slice xs lo hi) = sub_slice xs lo (min hi (lo + n))"
proof -
  have "min hi (lo + n) - lo = min n (hi - lo)" by arith
  then show ?thesis by (simp add: sub_slice_def)
qed

lemma drop_slice: "drop n (sub_slice xs lo hi) = sub_slice xs (lo + n) hi"
  by (simp add: sub_slice_def drop_take add.commute)

lemma nth_slice [simp]: "hi \<le> length xs \<Longrightarrow> i < hi - lo \<Longrightarrow> sub_slice xs lo hi ! i = xs ! (lo + i)"
  by (simp add: sub_slice_def)

lemma sub_slice_cong_take: "take hi xs = take hi ys \<Longrightarrow> sub_slice xs lo hi = sub_slice ys lo hi"
  unfolding sub_slice_def by (metis drop_take)

lemma slice_go_ok [go_simps]: "lo \<le> hi \<Longrightarrow> hi \<le> length xs \<Longrightarrow> slice_go xs lo hi = ret (sub_slice xs lo hi)"
  by (simp add: slice_go_def)

lemma index_go_ok [go_simps]: "i < length xs \<Longrightarrow> index_go xs i = ret (xs ! i)"
  by (simp add: index_go_def)

lemma store_go_ok [go_simps]: "i < length xs \<Longrightarrow> store_go xs i x = ret (xs[i := x])"
  by (simp add: store_go_def)

lemma copy_go_ok [go_simps]: "off \<le> length dst \<Longrightarrow> copy_go dst off src = ret (copy_at dst off src)"
  by (simp add: copy_go_def)

lemma length_copy_at [simp]: "off \<le> length dst \<Longrightarrow> length (copy_at dst off src) = length dst"
  by (auto simp: copy_at_def)

lemma copy_at_fits:
  "off + length src \<le> length dst \<Longrightarrow>
   copy_at dst off src = take off dst @ src @ drop (off + length src) dst"
  by (simp add: copy_at_def)

lemma copy_at_Nil [simp]: "copy_at dst off [] = dst"
  by (simp add: copy_at_def)

lemma copy_at_whole: "length src = length dst \<Longrightarrow> copy_at dst 0 src = src"
  by (simp add: copy_at_def)

lemma take_copy_at_left [simp]: "n \<le> off \<Longrightarrow> off \<le> length dst \<Longrightarrow> take n (copy_at dst off src) = take n dst"
  by (simp add: copy_at_def min_absorb1)

lemma drop_copy_at_right:
  "off + length src \<le> n \<Longrightarrow> off \<le> length dst \<Longrightarrow> drop n (copy_at dst off src) = drop n dst"
  by (cases "off + length src \<le> length dst") (auto simp: copy_at_def)

lemma slice_copy_at_same:
  "off + length src \<le> length dst \<Longrightarrow> sub_slice (copy_at dst off src) off (off + length src) = src"
  by (simp add: copy_at_def sub_slice_def)

lemma slice_copy_at_before:
  "hi \<le> off \<Longrightarrow> off \<le> length dst \<Longrightarrow> sub_slice (copy_at dst off src) lo hi = sub_slice dst lo hi"
  unfolding sub_slice_def by (metis take_copy_at_left drop_take)

lemma slice_copy_at_after:
  "off + length src \<le> lo \<Longrightarrow> off \<le> length dst \<Longrightarrow> sub_slice (copy_at dst off src) lo hi = sub_slice dst lo hi"
  by (simp add: sub_slice_def drop_copy_at_right)

subsection \<open>Ring indices\<close>

lemma ring_index_inj: "(a + i) mod m = (a + j) mod m \<Longrightarrow> i < m \<Longrightarrow> j < m \<Longrightarrow> i = (j :: nat)"
proof -
  assume a: "(a + i) mod m = (a + j) mod m" and b: "i < m" "j < m"
  obtain x y where "a + i + m * x = a + j + m * y" using a unfolding nat_mod_eq_iff by blast
  then have "i + m * x = j + m * y" by simp
  then have "(i + m * x) mod m = (j + m * y) mod m" by simp
  with b show ?thesis by simp
qed

subsection \<open>Go conversions between integer types\<close>

text \<open>
  \<open>uint16(v)\<close>, \<open>uint32(v)\<close>, \<open>uint64(v)\<close> keep the low bits (\<open>ucast\<close>); widening an unsigned
  value to \<open>int\<close> zero-extends it.  A length is a nonnegative \<open>int\<close>.
\<close>

definition goint_of_nat :: "nat \<Rightarrow> goint" where
  "goint_of_nat n = of_nat n"

end
