(* ===== verification/ByteOrder.thy ===== *)
theory ByteOrder
  imports Prelude
begin

text \<open>
  The byte orders of encoding/binary (\<open>binary.BigEndian\<close>, \<open>binary.LittleEndian\<close>), which
  kkpacket uses for every length field and head part, and the global byte order of
  src/kknet/kkpacket/defaults.go.  A value is put as \<open>n\<close> bytes and read back from them; the
  locale \<open>byte_order_laws\<close> states what the clients rely on, and holds for both orders.
\<close>

datatype byte_order = BigEndian | LittleEndian

subsection \<open>Bytes of a number, least significant first\<close>

fun le_bytes :: "nat \<Rightarrow> nat \<Rightarrow> byte list" where
  "le_bytes 0 v = []"
| "le_bytes (Suc n) v = of_nat v # le_bytes n (v div 256)"

fun le_value :: "byte list \<Rightarrow> nat" where
  "le_value [] = 0"
| "le_value (b # bs) = unat b + 256 * le_value bs"

text \<open>\<open>PutUint16/32/64\<close> store \<open>put_uint e 2/4/8 v\<close>; \<open>Uint16/32/64\<close> read \<open>get_uint e\<close>.\<close>

definition put_uint :: "byte_order \<Rightarrow> nat \<Rightarrow> nat \<Rightarrow> byte list" where
  "put_uint e n v = (case e of LittleEndian \<Rightarrow> le_bytes n v | BigEndian \<Rightarrow> rev (le_bytes n v))"

definition get_uint :: "byte_order \<Rightarrow> byte list \<Rightarrow> nat" where
  "get_uint e bs = (case e of LittleEndian \<Rightarrow> le_value bs | BigEndian \<Rightarrow> le_value (rev bs))"

lemma unat_byte [simp]: "unat (b :: byte) < 256"
  using unsigned_less [of b, where ?'a = nat] by simp

lemma length_le_bytes [simp]: "length (le_bytes n v) = n"
  by (induction n arbitrary: v) auto

lemma le_value_le_bytes: "le_value (le_bytes n v) = v mod 256 ^ n"
proof (induction n arbitrary: v)
  case 0
  then show ?case by simp
next
  case (Suc n)
  have "v mod (256 * 256 ^ n) = 256 * (v div 256 mod 256 ^ n) + v mod 256"
    by (rule mod_mult2_eq)
  with Suc show ?case by (simp add: unat_of_nat)
qed

lemma byte_step_bound: "b < 256 \<Longrightarrow> v < m \<Longrightarrow> b + 256 * v < 256 * (m :: nat)"
  by arith

lemma le_value_bound: "le_value bs < 256 ^ length bs"
  by (induction bs) (simp_all add: byte_step_bound)

lemma le_bytes_le_value: "le_bytes (length bs) (le_value bs) = bs"
proof (induction bs)
  case Nil
  then show ?case by simp
next
  case (Cons b bs)
  have "unat b < 256" by simp
  then have "(unat b + 256 * le_value bs) div 256 = le_value bs" by simp
  moreover have "(of_nat (unat b + 256 * le_value bs) :: byte) = b"
    by (rule word_unat_eq_iff [THEN iffD2]) (simp add: unat_of_nat del: of_nat_add of_nat_mult)
  ultimately show ?case using Cons by simp
qed

subsection \<open>The laws of a byte order\<close>

locale byte_order_laws =
  fixes put :: "nat \<Rightarrow> nat \<Rightarrow> byte list" and get :: "byte list \<Rightarrow> nat"
  assumes length_put: "length (put n v) = n"
    and get_put: "get (put n v) = v mod 256 ^ n"
    and put_get: "put (length bs) (get bs) = bs"
begin

lemma get_bound: "get bs < 256 ^ length bs"
proof -
  have "get bs = get bs mod 256 ^ length bs"
    by (metis get_put put_get)
  then show ?thesis by (metis mod_less_divisor zero_less_numeral zero_less_power)
qed

lemma get_put_small: "v < 256 ^ n \<Longrightarrow> get (put n v) = v"
  by (simp add: get_put)

lemma put_inj: "u < 256 ^ n \<Longrightarrow> v < 256 ^ n \<Longrightarrow> put n u = put n v \<longleftrightarrow> u = v"
  by (metis get_put_small)

lemma put_mod: "put n (v mod 256 ^ n) = put n v"
  by (metis get_put length_put put_get)

lemma get_eq_iff: "length bs = n \<Longrightarrow> v < 256 ^ n \<Longrightarrow> get bs = v \<longleftrightarrow> bs = put n v"
  by (metis get_put_small put_get)

end

interpretation order: byte_order_laws "put_uint e" "get_uint e" for e
proof
  show "length (put_uint e n v) = n" for n v
    by (simp add: put_uint_def split: byte_order.split)
  show "get_uint e (put_uint e n v) = v mod 256 ^ n" for n v
    by (simp add: put_uint_def get_uint_def le_value_le_bytes split: byte_order.split)
  show "put_uint e (length bs) (get_uint e bs) = bs" for bs
    using le_bytes_le_value [of "rev bs"]
    by (simp add: put_uint_def get_uint_def le_bytes_le_value split: byte_order.split)
qed

subsection \<open>The process-wide byte order\<close>

text \<open>\<open>gByteOrder\<close> and \<open>gInitedByteOrder\<close>: it can be configured once, at start-up.\<close>

record byte_order_config =
  gByteOrder :: byte_order
  gInitedByteOrder :: bool

definition initial_config :: byte_order_config where
  "initial_config = \<lparr>gByteOrder = BigEndian, gInitedByteOrder = False\<rparr>"

datatype config_error = OrderIsNil | OrderAlreadySetted

text \<open>\<open>order\<close> is an interface value, so it can be nil (\<open>None\<close>).\<close>

definition setByteOrder :: "byte_order_config \<Rightarrow> byte_order option \<Rightarrow> byte_order_config \<times> config_error option" where
  "setByteOrder g order =
     (case order of
        None \<Rightarrow> (g, Some OrderIsNil)
      | Some ord \<Rightarrow>
          if gInitedByteOrder g then (g, Some OrderAlreadySetted)
          else (g\<lparr>gInitedByteOrder := True, gByteOrder := ord\<rparr>, None))"

definition getByteOrder :: "byte_order_config \<Rightarrow> byte_order" where
  "getByteOrder g = gByteOrder g"

text \<open>Once a call has succeeded, no later call changes the byte order.\<close>

lemma setByteOrder_once:
  "setByteOrder g order = (g', None) \<Longrightarrow> fst (setByteOrder g' order') = g'"
  by (auto simp: setByteOrder_def split: option.splits if_splits)

end
