(* ===== verification/HeadPart.thy ===== *)
theory HeadPart
  imports ByteOrder
begin

text \<open>
  The parts of a message head (src/kknet/kkpacket/head_part.go): the interface \<open>IHeadPart\<close> and
  its four implementations.  \<open>Marshal\<close> writes into the slice it is given, so it returns the new
  contents of that slice beside the error; \<open>Unmarshal\<close> returns an error or the value.  Values are
  Go \<open>int\<close>s (64-bit words): the wider parts convert them without a range check.
\<close>

datatype head_part = PartUint8 | PartUint16 | PartUint32 | PartUint64

definition PartUint8_Marshal :: "byte list \<Rightarrow> byte_order \<Rightarrow> goint \<Rightarrow> byte list \<times> kkerror option" where
  "PartUint8_Marshal data endian value =
     (if length data < 1 then (data, Some ErrPktDataTooShortToMarshal)
      else if sint value < 0 \<or> sint value > 255 then (data, Some ErrPktValueOutOfRange)
      else (data[0 := ucast value], None))"

definition PartUint8_Unmarshal :: "byte list \<Rightarrow> byte_order \<Rightarrow> kkerror + goint" where
  "PartUint8_Unmarshal data endian =
     (if length data < 1 then Inl ErrPktDataTooShortToUnmarshal else Inr (ucast (data ! 0)))"

definition PartUint16_Marshal :: "byte list \<Rightarrow> byte_order \<Rightarrow> goint \<Rightarrow> byte list \<times> kkerror option" where
  "PartUint16_Marshal data endian value =
     (if length data < 2 then (data, Some ErrPktDataTooShortToMarshal)
      else (copy_at data 0 (put_uint endian 2 (unat (ucast value :: 16 word))), None))"

definition PartUint16_Unmarshal :: "byte list \<Rightarrow> byte_order \<Rightarrow> kkerror + goint" where
  "PartUint16_Unmarshal data endian =
     (if length data < 2 then Inl ErrPktDataTooShortToUnmarshal
      else Inr (of_nat (get_uint endian (take 2 data))))"

definition PartUint32_Marshal :: "byte list \<Rightarrow> byte_order \<Rightarrow> goint \<Rightarrow> byte list \<times> kkerror option" where
  "PartUint32_Marshal data endian value =
     (if length data < 4 then (data, Some ErrPktDataTooShortToMarshal)
      else (copy_at data 0 (put_uint endian 4 (unat (ucast value :: 32 word))), None))"

definition PartUint32_Unmarshal :: "byte list \<Rightarrow> byte_order \<Rightarrow> kkerror + goint" where
  "PartUint32_Unmarshal data endian =
     (if length data < 4 then Inl ErrPktDataTooShortToUnmarshal
      else Inr (of_nat (get_uint endian (take 4 data))))"

definition PartUint64_Marshal :: "byte list \<Rightarrow> byte_order \<Rightarrow> goint \<Rightarrow> byte list \<times> kkerror option" where
  "PartUint64_Marshal data endian value =
     (if length data < 8 then (data, Some ErrPktDataTooShortToMarshal)
      else (copy_at data 0 (put_uint endian 8 (unat value)), None))"

text \<open>\<open>int(uint64)\<close> keeps the 64 bits, so the value is read back with its sign.\<close>

definition PartUint64_Unmarshal :: "byte list \<Rightarrow> byte_order \<Rightarrow> kkerror + goint" where
  "PartUint64_Unmarshal data endian =
     (if length data < 8 then Inl ErrPktDataTooShortToUnmarshal
      else Inr (of_nat (get_uint endian (take 8 data))))"

subsection \<open>Dynamic dispatch of the interface\<close>

fun part_Marshal :: "head_part \<Rightarrow> byte list \<Rightarrow> byte_order \<Rightarrow> goint \<Rightarrow> byte list \<times> kkerror option" where
  "part_Marshal PartUint8 = PartUint8_Marshal"
| "part_Marshal PartUint16 = PartUint16_Marshal"
| "part_Marshal PartUint32 = PartUint32_Marshal"
| "part_Marshal PartUint64 = PartUint64_Marshal"

fun part_Unmarshal :: "head_part \<Rightarrow> byte list \<Rightarrow> byte_order \<Rightarrow> kkerror + goint" where
  "part_Unmarshal PartUint8 = PartUint8_Unmarshal"
| "part_Unmarshal PartUint16 = PartUint16_Unmarshal"
| "part_Unmarshal PartUint32 = PartUint32_Unmarshal"
| "part_Unmarshal PartUint64 = PartUint64_Unmarshal"

fun part_GetSize :: "head_part \<Rightarrow> nat" where
  "part_GetSize PartUint8 = 1"
| "part_GetSize PartUint16 = 2"
| "part_GetSize PartUint32 = 4"
| "part_GetSize PartUint64 = 8"

text \<open>The values a part carries without loss.\<close>

fun part_fits :: "head_part \<Rightarrow> goint \<Rightarrow> bool" where
  "part_fits PartUint8 v \<longleftrightarrow> unat v < 2 ^ 8"
| "part_fits PartUint16 v \<longleftrightarrow> unat v < 2 ^ 16"
| "part_fits PartUint32 v \<longleftrightarrow> unat v < 2 ^ 32"
| "part_fits PartUint64 v \<longleftrightarrow> True"

lemmas part_ops_defs =
  PartUint8_Marshal_def PartUint16_Marshal_def PartUint32_Marshal_def PartUint64_Marshal_def
  PartUint8_Unmarshal_def PartUint16_Unmarshal_def PartUint32_Unmarshal_def
  PartUint64_Unmarshal_def

lemma part_GetSize_pos [simp]: "0 < part_GetSize p"
  by (cases p) auto

lemma sint_small:
  assumes "uint (v :: goint) < 2 ^ 63"
  shows "sint v = uint v"
proof -
  have "- (2 ^ 63) \<le> uint v" by (rule order_trans [OF _ unsigned_greater_eq]) simp
  then have "signed_take_bit 63 (uint v) = uint v"
    by (rule signed_take_bit_int_eq_self) (use assms in simp)
  then show ?thesis by (simp add: sint_uint)
qed

lemma uint_nonneg_sint:
  assumes "0 \<le> sint (v :: goint)"
  shows "uint v = sint v"
proof -
  have "sint v < 2 ^ 63" using sint_lt [of v] by simp
  then have "take_bit 64 (sint v) = sint v"
    using assms by (simp add: take_bit_int_eq_self)
  then show ?thesis by (simp add: uint_sint)
qed

text \<open>The range check of \<open>PartUint8\<close> in terms of the unsigned value.\<close>

lemma byte_range_check: "sint (v :: goint) < 0 \<or> sint v > 255 \<longleftrightarrow> 256 \<le> unat v"
proof -
  have u: "256 \<le> unat v \<longleftrightarrow> 256 \<le> uint v"
    by (simp only: unat_eq_nat_uint le_nat_iff unsigned_greater_eq) simp
  show ?thesis
  proof (cases "0 \<le> sint v")
    case True
    from uint_nonneg_sint [OF this] True show ?thesis unfolding u by linarith
  next
    case False
    with sint_small [of v] have "\<not> uint v < 2 ^ 63"
      using unsigned_greater_eq [of v, where ?'a = int] by metis
    with False show ?thesis unfolding u by simp
  qed
qed

end
