(* ===== verification/PacketHead.thy ===== *)
theory PacketHead
  imports HeadPart
begin

text \<open>
  The head of a message (src/kknet/kkpacket/packet_head.go): a list of parts, the names of the
  parts, the total size and the byte order.  The loops of \<open>Marshal\<close> and \<open>Unmarshal\<close> call the
  parts through the interface \<open>IHeadPart\<close>, so they take its methods as arguments; the locale
  \<open>head_part_laws\<close> holds what they rely on and the lemmas about the loops.
\<close>

definition maxHeadPathCount :: nat where
  "maxHeadPathCount = 8"

definition PartNameMsgID :: string where
  "PartNameMsgID = ''msgID''"

record PacketHead =
  ph_partList :: "head_part list"
  ph_nameMap :: "string \<rightharpoonup> nat"
  ph_size :: nat
  ph_endian :: byte_order

text \<open>\<open>endian\<close> is \<open>getByteOrder()\<close> at the time of the call.\<close>

definition NewPacketHead :: "byte_order \<Rightarrow> head_part list \<Rightarrow> PacketHead go" where
  "NewPacketHead endian parts =
     (if length parts > maxHeadPathCount then panic
      else ret \<lparr>ph_partList = parts,
                ph_nameMap = (if length parts > 0 then [PartNameMsgID \<mapsto> 0] else Map.empty),
                ph_size = sum_list (map part_GetSize parts),
                ph_endian = endian\<rparr>)"

fun set_names_loop :: "nat \<Rightarrow> string list \<Rightarrow> (string \<rightharpoonup> nat) \<Rightarrow> kkerror + (string \<rightharpoonup> nat)" where
  "set_names_loop idx [] nameMap = Inr nameMap"
| "set_names_loop idx (name # names) nameMap =
     (if nameMap name \<noteq> None then Inl ErrPktHeadPartNameRepeated
      else set_names_loop (Suc idx) names (nameMap(name \<mapsto> idx)))"

definition SetNames :: "PacketHead \<Rightarrow> string list \<Rightarrow> PacketHead \<times> kkerror option" where
  "SetNames h names =
     (if length names \<noteq> length (ph_partList h) then (h, Some ErrPktNamesAndPartsLengthNotMatch)
      else case set_names_loop 0 names Map.empty of
             Inl err \<Rightarrow> (h, Some err)
           | Inr nameMap \<Rightarrow> (h\<lparr>ph_nameMap := nameMap\<rparr>, None))"

definition NewPacketHeadWithNames :: "byte_order \<Rightarrow> head_part list \<Rightarrow> string list \<Rightarrow> PacketHead go" where
  "NewPacketHeadWithNames endian parts names =
     (if length parts \<noteq> length names then panic
      else if length parts > maxHeadPathCount then panic
      else do {
        h \<leftarrow> NewPacketHead endian parts;
        case SetNames h names of (h', None) \<Rightarrow> ret h' | (_, Some err) \<Rightarrow> panic
      })"

definition PacketHead_GetSize :: "PacketHead \<Rightarrow> nat" where
  "PacketHead_GetSize h = ph_size h"

definition PacketHead_GetPartCount :: "PacketHead \<Rightarrow> nat" where
  "PacketHead_GetPartCount h = length (ph_partList h)"

subsection \<open>The loops over the parts\<close>

fun marshal_loop ::
  "('p \<Rightarrow> byte list \<Rightarrow> byte_order \<Rightarrow> goint \<Rightarrow> byte list \<times> kkerror option) \<Rightarrow> ('p \<Rightarrow> nat) \<Rightarrow>
   byte_order \<Rightarrow> 'p list \<Rightarrow> byte list \<Rightarrow> nat \<Rightarrow> goint list \<Rightarrow> (byte list \<times> kkerror option) go" where
  "marshal_loop mar siz e [] hb offset vs = ret (hb, None)"
| "marshal_loop mar siz e (p # ps) hb offset vs = do {
     d \<leftarrow> slice_go hb offset (offset + siz p);
     v \<leftarrow> index_go vs 0;
     case mar p d e v of
       (d', Some err) \<Rightarrow> ret (copy_at hb offset d', Some err)
     | (d', None) \<Rightarrow> marshal_loop mar siz e ps (copy_at hb offset d') (offset + siz p) (tl vs)
   }"

text \<open>The values decoded so far, and the error that stopped the loop, if any.\<close>

fun unmarshal_loop ::
  "('p \<Rightarrow> byte list \<Rightarrow> byte_order \<Rightarrow> kkerror + goint) \<Rightarrow> ('p \<Rightarrow> nat) \<Rightarrow>
   byte_order \<Rightarrow> 'p list \<Rightarrow> byte list \<Rightarrow> nat \<Rightarrow> (goint list \<times> kkerror option) go" where
  "unmarshal_loop un siz e [] hb offset = ret ([], None)"
| "unmarshal_loop un siz e (p # ps) hb offset = do {
     d \<leftarrow> slice_go hb offset (offset + siz p);
     case un p d e of
       Inl err \<Rightarrow> ret ([], Some err)
     | Inr v \<Rightarrow> do {
         (vs, err) \<leftarrow> unmarshal_loop un siz e ps hb (offset + siz p);
         ret (v # vs, err)
       }
   }"

definition PacketHead_Marshal :: "PacketHead \<Rightarrow> byte list \<Rightarrow> goint list \<Rightarrow> (byte list \<times> kkerror option) go" where
  "PacketHead_Marshal h headBytes valueList =
     (if length headBytes < ph_size h then ret (headBytes, Some ErrPktDataTooShortToMarshal)
      else if length valueList < length (ph_partList h)
      then ret (headBytes, Some ErrPktValueListTooShortToMarshal)
      else marshal_loop part_Marshal part_GetSize (ph_endian h) (ph_partList h) headBytes 0 valueList)"

definition PacketHead_Unmarshal :: "PacketHead \<Rightarrow> byte list \<Rightarrow> (kkerror + goint list) go" where
  "PacketHead_Unmarshal h headBytes =
     (if length headBytes < ph_size h then ret (Inl ErrPktDataTooShortToUnmarshal)
      else do {
        (vs, err) \<leftarrow> unmarshal_loop part_Unmarshal part_GetSize (ph_endian h) (ph_partList h) headBytes 0;
        ret (case err of Some er \<Rightarrow> Inl er | None \<Rightarrow> Inr vs)
      })"

text \<open>
  \<open>UnmarshalTo\<close> fills the caller's \<open>valueList\<close> where it is long enough and returns the part of it
  (or of a new slice) that holds the decoded values, beside the error.
\<close>

definition PacketHead_UnmarshalTo :: "PacketHead \<Rightarrow> byte list \<Rightarrow> goint list \<Rightarrow> (goint list \<times> kkerror option) go" where
  "PacketHead_UnmarshalTo h headBytes valueList =
     (if length headBytes < ph_size h \<or> PacketHead_GetPartCount h \<le> 0
      then ret ([], Some ErrPktDataTooShortToUnmarshal)
      else unmarshal_loop part_Unmarshal part_GetSize (ph_endian h) (ph_partList h) headBytes 0)"

text \<open>
  \<open>headBytes[offset:offset+size]\<close> is checked against the capacity of the slice only: \<open>spare\<close> are
  the bytes between its length and its capacity.
\<close>

definition ReadValueByName :: "PacketHead \<Rightarrow> byte list \<Rightarrow> byte list \<Rightarrow> string \<Rightarrow> (kkerror + goint) go" where
  "ReadValueByName h headBytes spare name =
     (case ph_nameMap h name of
        None \<Rightarrow> ret (Inl ErrPktHeadPartNameNotFound)
      | Some idx \<Rightarrow> do {
          part \<leftarrow> index_go (ph_partList h) idx;
          let offset = sum_list (map part_GetSize (take idx (ph_partList h)));
          d \<leftarrow> slice_go (headBytes @ spare) offset (offset + part_GetSize part);
          ret (part_Unmarshal part d (ph_endian h))
        })"

subsection \<open>What the loops rely on\<close>

text \<open>The contract of \<open>IHeadPart\<close>, for the values a part can carry (\<open>fits\<close>).\<close>

locale head_part_laws =
  fixes mar :: "'p \<Rightarrow> byte list \<Rightarrow> byte_order \<Rightarrow> goint \<Rightarrow> byte list \<times> kkerror option"
    and un :: "'p \<Rightarrow> byte list \<Rightarrow> byte_order \<Rightarrow> kkerror + goint"
    and siz :: "'p \<Rightarrow> nat"
    and fits :: "'p \<Rightarrow> goint \<Rightarrow> bool"
  assumes length_mar: "length (fst (mar p d e v)) = length d"
    and mar_ok: "length d = siz p \<Longrightarrow> fits p v \<Longrightarrow> snd (mar p d e v) = None"
    and un_mar: "length d = siz p \<Longrightarrow> fits p v \<Longrightarrow> un p (fst (mar p d e v)) e = Inr v"
    and un_ok: "length d = siz p \<Longrightarrow> \<exists>v. un p d e = Inr v"
begin

definition total :: "'p list \<Rightarrow> nat" where
  "total ps = sum_list (map siz ps)"

lemma total_simps [simp]:
  "total [] = 0" "total (p # ps) = siz p + total ps" "total (ps @ qs) = total ps + total qs"
  by (simp_all add: total_def)

lemma marshal_loop_total:
  assumes "offset + total ps \<le> length hb" "length ps \<le> length vs"
  shows "\<exists>hb' err. marshal_loop mar siz e ps hb offset vs = ret (hb', err) \<and> length hb' = length hb \<and>
           take offset hb' = take offset hb \<and> drop (offset + total ps) hb' = drop (offset + total ps) hb"
  using assms
proof (induction ps arbitrary: hb offset vs)
  case Nil
  then show ?case by simp
next
  case (Cons p ps)
  obtain v vs' where vs: "vs = v # vs'" using Cons.prems(2) by (cases vs) auto
  define d where "d = sub_slice hb offset (offset + siz p)"
  obtain d' err where m: "mar p d e v = (d', err)" by fastforce
  have ld: "length d = siz p" using Cons.prems by (simp add: d_def)
  have ld': "length d' = siz p" using length_mar [of p d e v] m ld by simp
  have off: "offset \<le> length hb" and step: "offset \<le> offset + siz p" "offset + siz p \<le> length hb"
    using Cons.prems by auto
  define hb1 where "hb1 = copy_at hb offset d'"
  have l1: "length hb1 = length hb" using off by (simp add: hb1_def)
  have t1: "take offset hb1 = take offset hb" using off by (simp add: hb1_def)
  have r1: "drop n hb1 = drop n hb" if "offset + siz p \<le> n" for n
    using that off ld' by (simp add: hb1_def drop_copy_at_right)
  show ?case
  proof (cases err)
    case (Some er)
    then show ?thesis using m step off vs l1 t1 r1
      by (simp add: go_simps d_def [symmetric] hb1_def [symmetric])
  next
    case None
    have "\<exists>hb' err. marshal_loop mar siz e ps hb1 (offset + siz p) vs' = ret (hb', err) \<and>
        length hb' = length hb1 \<and> take (offset + siz p) hb' = take (offset + siz p) hb1 \<and>
        drop (offset + siz p + total ps) hb' = drop (offset + siz p + total ps) hb1"
      using Cons.prems l1 vs by (intro Cons.IH) auto
    then obtain hb' err' where ih: "marshal_loop mar siz e ps hb1 (offset + siz p) vs' = ret (hb', err')"
        "length hb' = length hb1" "take (offset + siz p) hb' = take (offset + siz p) hb1"
        "drop (offset + siz p + total ps) hb' = drop (offset + siz p + total ps) hb1" by blast
    have "take offset hb' = take offset hb1"
      using ih(3) by (metis min_def le_add1 take_take)
    with ih None show ?thesis using m step off vs l1 t1 r1
      by (simp add: go_simps d_def [symmetric] hb1_def [symmetric] add.assoc)
  qed
qed

lemma unmarshal_loop_frame:
  assumes "length hb' = length hb" "sub_slice hb' offset (offset + total ps) = sub_slice hb offset (offset + total ps)"
  shows "unmarshal_loop un siz e ps hb' offset = unmarshal_loop un siz e ps hb offset"
  using assms
proof (induction ps arbitrary: offset)
  case Nil
  then show ?case by simp
next
  case (Cons p ps)
  have a: "sub_slice hb' offset (offset + siz p) = sub_slice hb offset (offset + siz p)"
    using arg_cong [OF Cons.prems(2), of "take (siz p)"] by (simp add: take_slice)
  have b: "sub_slice hb' (offset + siz p) (offset + siz p + total ps) =
      sub_slice hb (offset + siz p) (offset + siz p + total ps)"
    using arg_cong [OF Cons.prems(2), of "drop (siz p)"] by (simp add: drop_slice add.assoc)
  show ?case using Cons.IH [OF Cons.prems(1) b] a Cons.prems(1)
    by (simp add: slice_go_def cong: sum.case_cong)
qed

lemma unmarshal_loop_ok:
  "offset + total ps \<le> length hb \<Longrightarrow>
   \<exists>vs. unmarshal_loop un siz e ps hb offset = ret (vs, None) \<and> length vs = length ps"
proof (induction ps arbitrary: offset)
  case Nil
  then show ?case by simp
next
  case (Cons p ps)
  then have "length (sub_slice hb offset (offset + siz p)) = siz p" by simp
  with un_ok obtain v where v: "un p (sub_slice hb offset (offset + siz p)) e = Inr v" by blast
  from Cons.prems Cons.IH [of "offset + siz p"] obtain vs where
    "unmarshal_loop un siz e ps hb (offset + siz p) = ret (vs, None)" "length vs = length ps"
    by auto
  with v Cons.prems show ?case by (simp add: go_simps)
qed

lemma unmarshal_loop_nth:
  assumes "unmarshal_loop un siz e ps hb offset = ret (vs, None)" "idx < length ps"
    and "offset + total ps \<le> length hb"
  shows "un (ps ! idx) (sub_slice hb (offset + total (take idx ps))
           (offset + total (take idx ps) + siz (ps ! idx))) e = Inr (vs ! idx)"
  using assms
proof (induction ps arbitrary: offset vs idx)
  case Nil
  then show ?case by simp
next
  case (Cons p ps)
  from Cons.prems obtain v vs' where vs: "vs = v # vs'"
    and v: "un p (sub_slice hb offset (offset + siz p)) e = Inr v"
    and rest: "unmarshal_loop un siz e ps hb (offset + siz p) = ret (vs', None)"
    by (auto simp: go_simps bind_eq_Some_conv split: sum.splits prod.splits)
  show ?case
  proof (cases idx)
    case 0
    with vs v show ?thesis by simp
  next
    case (Suc i)
    with Cons.prems Cons.IH [OF rest, of i] vs show ?thesis by (simp add: add.assoc)
  qed
qed

lemma marshal_unmarshal:
  assumes "offset + total ps \<le> length hb" "list_all2 fits ps vs"
  shows "\<exists>hb'. marshal_loop mar siz e ps hb offset (vs @ extra) = ret (hb', None) \<and>
           unmarshal_loop un siz e ps hb' offset = ret (vs, None) \<and> length hb' = length hb \<and>
           take offset hb' = take offset hb"
  using assms(2,1)
proof (induction ps vs arbitrary: hb offset rule: list_all2_induct)
  case Nil
  then show ?case by simp
next
  case (Cons p ps v vs)
  define d where "d = sub_slice hb offset (offset + siz p)"
  have ld: "length d = siz p" using Cons.prems by (simp add: d_def)
  define d' where "d' = fst (mar p d e v)"
  have m: "mar p d e v = (d', None)"
    using mar_ok [OF ld Cons.hyps(1)] by (simp add: d'_def prod_eq_iff)
  have u: "un p d' e = Inr v" using un_mar [OF ld Cons.hyps(1)] by (simp add: d'_def)
  have ld': "length d' = siz p" using length_mar [of p d e v] m ld by simp
  define hb1 where "hb1 = copy_at hb offset d'"
  have off: "offset \<le> length hb" "offset + siz p \<le> length hb" using Cons.prems by auto
  have l1: "length hb1 = length hb" using off by (simp add: hb1_def)
  from Cons.IH [of "offset + siz p" hb1] Cons.prems l1 obtain hb' where
    ih: "marshal_loop mar siz e ps hb1 (offset + siz p) (vs @ extra) = ret (hb', None)"
        "unmarshal_loop un siz e ps hb' (offset + siz p) = ret (vs, None)"
        "length hb' = length hb1" "take (offset + siz p) hb' = take (offset + siz p) hb1"
    by auto
  have "sub_slice hb' offset (offset + siz p) = sub_slice hb1 offset (offset + siz p)"
    by (rule sub_slice_cong_take) (rule ih(4))
  also have "\<dots> = d'"
    using off ld' slice_copy_at_same [of offset d' hb] by (simp add: hb1_def)
  finally have s: "sub_slice hb' offset (offset + siz p) = d'" .
  have "take offset hb' = take offset hb1"
    using ih(4) by (metis min_def le_add1 take_take)
  then have "take offset hb' = take offset hb" using off by (simp add: hb1_def)
  with ih s u m off l1 show ?case
    by (auto simp: go_simps d_def [symmetric] hb1_def [symmetric])
qed

end

subsection \<open>The four parts keep the contract\<close>

lemma part_length_Marshal [simp]: "length (fst (part_Marshal p d e v)) = length d"
  by (cases p) (auto simp: part_ops_defs)

lemma ucast_ucast_small: "unat (v :: goint) < 2 ^ LENGTH('a) \<Longrightarrow> unat (ucast v :: 'a::len word) = unat v"
  by (simp add: unsigned_ucast_eq take_bit_nat_eq_self)

interpretation parts: head_part_laws part_Marshal part_Unmarshal part_GetSize part_fits
proof
  fix p e and d :: "byte list" and v :: goint
  show "length (fst (part_Marshal p d e v)) = length d" by simp
  assume l: "length d = part_GetSize p"
  show "\<exists>v. part_Unmarshal p d e = Inr v"
    using l by (cases p) (auto simp: part_ops_defs)
  assume f: "part_fits p v"
  show "snd (part_Marshal p d e v) = None"
    using l f byte_range_check [of v] by (cases p) (auto simp: part_ops_defs)
  show "part_Unmarshal p (fst (part_Marshal p d e v)) e = Inr v"
  proof (cases p)
    case PartUint8
    then have "ucast (ucast v :: 8 word) = v"
      using f by (simp add: word_unat_eq_iff unsigned_take_bit_eq unsigned_ucast_eq take_bit_nat_eq_self)
    then show ?thesis
      using PartUint8 l f byte_range_check [of v] by (auto simp: part_ops_defs)
  next
    case PartUint16
    then show ?thesis using l f order.get_put_small [of "unat v" 2 e] ucast_ucast_small [of v, where 'a = 16]
      by (simp add: part_ops_defs copy_at_whole order.length_put)
  next
    case PartUint32
    then show ?thesis using l f order.get_put_small [of "unat v" 4 e] ucast_ucast_small [of v, where 'a = 32]
      by (simp add: part_ops_defs copy_at_whole order.length_put)
  next
    case PartUint64
    then show ?thesis using l order.get_put_small [of "unat v" 8 e] unsigned_less [of v, where ?'a = nat]
      by (simp add: part_ops_defs copy_at_whole order.length_put)
  qed
qed

subsection \<open>Well-formed heads\<close>

text \<open>What the constructors establish and no operation breaks.\<close>

definition wf_head :: "PacketHead \<Rightarrow> bool" where
  "wf_head h \<longleftrightarrow> ph_size h = sum_list (map part_GetSize (ph_partList h)) \<and>
     length (ph_partList h) \<le> maxHeadPathCount \<and>
     (\<forall>idx \<in> ran (ph_nameMap h). idx < length (ph_partList h))"

lemma NewPacketHead_wf: "NewPacketHead e parts = ret h \<Longrightarrow> wf_head h"
  by (auto simp: NewPacketHead_def wf_head_def ran_def split: if_splits)

lemma set_names_loop_Inr:
  "set_names_loop idx names m = Inr m' \<Longrightarrow>
   ran m' \<subseteq> ran m \<union> {idx ..< idx + length names} \<and> distinct names \<and> set names \<inter> dom m = {} \<and>
   (\<forall>i < length names. m' (names ! i) = Some (idx + i)) \<and> (\<forall>x. x \<notin> set names \<longrightarrow> m' x = m x)"
proof (induction idx names m arbitrary: m' rule: set_names_loop.induct)
  case (1 idx m)
  then show ?case by simp
next
  case (2 idx name names m)
  then have free: "m name = None" and
    rest: "set_names_loop (Suc idx) names (m(name \<mapsto> idx)) = Inr m'"
    by (auto split: if_splits)
  have "\<not> m name \<noteq> None" using free by simp
  note ih = "2.IH" [OF this rest]
  have r: "ran m' \<subseteq> ran (m(name \<mapsto> idx)) \<union> {Suc idx ..< Suc idx + length names}"
    and nm: "\<forall>i < length names. m' (names ! i) = Some (Suc idx + i)"
    and out: "\<forall>x. x \<notin> set names \<longrightarrow> m' x = (m(name \<mapsto> idx)) x"
    using ih by blast+
  have d: "distinct names" "name \<notin> set names" "set names \<inter> dom m = {}"
    using ih by auto
  have "ran m' \<subseteq> ran m \<union> {idx ..< idx + length (name # names)}"
  proof -
    from r have "ran m' \<subseteq> insert idx (ran m) \<union> {Suc idx ..< Suc idx + length names}"
      by (simp only: ran_map_upd [of m name, OF free])
    also have "\<dots> \<subseteq> ran m \<union> {idx ..< idx + length (name # names)}" by auto
    finally show ?thesis .
  qed
  moreover have "\<forall>i < length (name # names). m' ((name # names) ! i) = Some (idx + i)"
    using nm out d(2) by (auto simp: nth_Cons split: nat.split)
  ultimately show ?case using d out free by auto
qed

lemma SetNames_wf:
  assumes "wf_head h"
  shows "wf_head (fst (SetNames h names))"
proof (cases "length names = length (ph_partList h)")
  case False
  with assms show ?thesis by (simp add: SetNames_def)
next
  case len: True
  show ?thesis
  proof (cases "set_names_loop 0 names Map.empty")
    case (Inl er)
    with assms show ?thesis by (simp add: SetNames_def)
  next
    case (Inr m)
    from set_names_loop_Inr [OF this] have "\<forall>idx \<in> ran m. idx < length names" by auto
    with len Inr assms show ?thesis by (simp add: SetNames_def wf_head_def)
  qed
qed

lemma NewPacketHeadWithNames_wf:
  assumes "NewPacketHeadWithNames e parts names = ret h"
  shows "wf_head h"
proof -
  from assms obtain h0 where h0: "NewPacketHead e parts = ret h0"
    and "(case SetNames h0 names of (h', None) \<Rightarrow> ret h' | (_, Some err) \<Rightarrow> panic) = ret h"
    by (auto simp: NewPacketHeadWithNames_def bind_eq_Some_conv split: if_splits)
  then have "SetNames h0 names = (h, None)"
    by (cases "SetNames h0 names") (auto split: option.splits)
  with h0 have "NewPacketHead e parts = ret h0" and "SetNames h0 names = (h, None)" .
  then show ?thesis using NewPacketHead_wf SetNames_wf by (metis fst_conv)
qed

lemma Unmarshal_ok:
  assumes "wf_head h" "ph_size h \<le> length hb"
  shows "\<exists>vs. PacketHead_Unmarshal h hb = ret (Inr vs) \<and> length vs = length (ph_partList h) \<and>
    unmarshal_loop part_Unmarshal part_GetSize (ph_endian h) (ph_partList h) hb 0 = ret (vs, None)"
  using parts.unmarshal_loop_ok [of 0 "ph_partList h" hb "ph_endian h"] assms
  by (auto simp: PacketHead_Unmarshal_def wf_head_def parts.total_def)

subsection \<open>Properties of a head\<close>

text \<open>
  C1: what \<open>Marshal\<close> writes, \<open>Unmarshal\<close> reads back: for a head the constructors can build, a
  buffer of at least \<open>GetSize\<close> bytes and values that fit their parts, \<open>Marshal\<close> returns no error
  and does not panic, keeps the length of the buffer and every byte after the head, and
  \<open>Unmarshal\<close> of the result returns exactly the values, in order.
\<close>

theorem PacketHead_roundtrip:
  assumes "wf_head h" and "ph_size h \<le> length headBytes"
    and "list_all2 part_fits (ph_partList h) vs"
  shows "\<exists>hb. PacketHead_Marshal h headBytes (vs @ extra) = ret (hb, None) \<and>
           PacketHead_Unmarshal h hb = ret (Inr vs) \<and>
           length hb = length headBytes \<and> drop (ph_size h) hb = drop (ph_size h) headBytes"
proof -
  let ?ps = "ph_partList h"
  have t: "parts.total ?ps = ph_size h" using assms(1) by (simp add: wf_head_def parts.total_def)
  have l: "length vs = length ?ps" using assms(3) by (simp add: list_all2_lengthD)
  from parts.marshal_unmarshal [of 0 ?ps headBytes vs "ph_endian h" extra] assms(2,3) t
  obtain hb where hb: "marshal_loop part_Marshal part_GetSize (ph_endian h) ?ps headBytes 0 (vs @ extra) = ret (hb, None)"
    "unmarshal_loop part_Unmarshal part_GetSize (ph_endian h) ?ps hb 0 = ret (vs, None)"
    "length hb = length headBytes" by auto
  moreover have "drop (ph_size h) hb = drop (ph_size h) headBytes"
    using parts.marshal_loop_total [of 0 ?ps headBytes "vs @ extra" "ph_endian h"] assms(2) t l hb(1) by auto
  ultimately show ?thesis
    using assms(2) l by (simp add: PacketHead_Marshal_def PacketHead_Unmarshal_def)
qed

definition sample_head :: PacketHead where
  "sample_head = \<lparr>ph_partList = [PartUint16, PartUint64], ph_nameMap = [PartNameMsgID \<mapsto> 0, ''seq'' \<mapsto> 1],
     ph_size = 10, ph_endian = BigEndian\<rparr>"

lemma sample_head_wf: "wf_head sample_head"
  by (simp add: sample_head_def wf_head_def maxHeadPathCount_def PartNameMsgID_def)

lemma PacketHead_roundtrip_witness:
  "\<exists>hb. PacketHead_Marshal sample_head (replicate 12 0) ([1001, - 5] @ []) = ret (hb, None) \<and>
    PacketHead_Unmarshal sample_head hb = ret (Inr [1001, - 5]) \<and>
    length hb = length (replicate 12 (0 :: byte)) \<and>
    drop (ph_size sample_head) hb = drop (ph_size sample_head) (replicate 12 0)"
  by (rule PacketHead_roundtrip [OF sample_head_wf]) (simp_all add: sample_head_def)

text \<open>
  A part read by name is the value \<open>Unmarshal\<close> gives for it: on a buffer that holds the
  whole head, \<open>ReadValueByName\<close> neither panics nor fails for a registered name, whatever lies
  beyond the buffer in memory, and returns the value at the index the name is registered for.
\<close>

theorem ReadValueByName_agrees:
  assumes "wf_head h" and "ph_size h \<le> length headBytes" and "ph_nameMap h name = Some idx"
  shows "\<exists>vs. PacketHead_Unmarshal h headBytes = ret (Inr vs) \<and>
           ReadValueByName h headBytes spare name = ret (Inr (vs ! idx))"
proof -
  let ?ps = "ph_partList h"
  from Unmarshal_ok [OF assms(1,2)] obtain vs where
    vs: "PacketHead_Unmarshal h headBytes = ret (Inr vs)"
    "unmarshal_loop part_Unmarshal part_GetSize (ph_endian h) ?ps headBytes 0 = ret (vs, None)" by blast
  have idx: "idx < length ?ps" using assms(1,3) by (auto simp: wf_head_def ran_def)
  have t: "parts.total ?ps = ph_size h" using assms(1) by (simp add: wf_head_def parts.total_def)
  define off where "off = parts.total (take idx ?ps)"
  have "parts.total (take (Suc idx) ?ps) \<le> parts.total ?ps"
    by (metis append_take_drop_id le_add1 parts.total_simps(3))
  then have bound: "off + part_GetSize (?ps ! idx) \<le> length headBytes"
    using idx t assms(2) by (simp add: off_def take_Suc_conv_app_nth)
  have "part_Unmarshal (?ps ! idx) (sub_slice headBytes off (off + part_GetSize (?ps ! idx))) (ph_endian h) = Inr (vs ! idx)"
    using parts.unmarshal_loop_nth [OF vs(2) idx] t assms(2) by (simp add: off_def)
  moreover have "sub_slice (headBytes @ spare) off (off + part_GetSize (?ps ! idx)) =
      sub_slice headBytes off (off + part_GetSize (?ps ! idx))"
    by (rule sub_slice_cong_take) (use bound in simp)
  ultimately have "ReadValueByName h headBytes spare name = ret (Inr (vs ! idx))"
    using assms(3) idx bound
    by (simp add: ReadValueByName_def go_simps Let_def off_def [unfolded parts.total_def, symmetric])
  with vs(1) show ?thesis by blast
qed

lemma ReadValueByName_agrees_witness:
  "\<exists>vs. PacketHead_Unmarshal sample_head (replicate 10 7) = ret (Inr vs) \<and>
    ReadValueByName sample_head (replicate 10 7) [99] ''seq'' = ret (Inr (vs ! 1))"
  by (rule ReadValueByName_agrees [OF sample_head_wf]) (simp_all add: sample_head_def PartNameMsgID_def)

text \<open>
  Without that length check the call is unsafe: a message shorter than its head makes
  \<open>ReadValueByName\<close> panic when nothing follows it in memory.
\<close>

lemma ReadValueByName_short_panics:
  assumes "NewPacketHead e (p # ps) = ret h" and "length headBytes < part_GetSize p"
  shows "ReadValueByName h headBytes [] PartNameMsgID = panic"
  using assms by (auto simp: ReadValueByName_def NewPacketHead_def slice_go_def index_go_def split: if_splits)

end
