(* ===== verification/Framing.thy ===== *)
theory Framing
  imports Prelude
begin

text \<open>
  The abstract specification of stream framing: a decision \<open>nx\<close> on the bytes at the front of the
  stream says whether they start with a whole frame, need more bytes, or are bad.  \<open>frames\<close> cuts
  frames off until there is none; \<open>feed\<close> does so chunk by chunk, carrying the unread rest.
  The locale \<open>frame_laws\<close> asks that a decision, once made, stands when more bytes arrive, and
  gives that the chunking of a stream does not matter.
\<close>

datatype frame_step = Incomplete | Bad kkerror | Frame nat

function frames :: "('b list \<Rightarrow> frame_step) \<Rightarrow> 'b list \<Rightarrow> 'b list list \<times> 'b list \<times> kkerror option" where
  "frames nx d =
     (if d = [] then ([], [], None)
      else case nx d of
        Incomplete \<Rightarrow> ([], d, None)
      | Bad e \<Rightarrow> ([], d, Some e)
      | Frame n \<Rightarrow>
          if 0 < n \<and> n \<le> length d
          then (case frames nx (drop n d) of (ps, l, e) \<Rightarrow> (take n d # ps, l, e))
          else ([], d, None))"
  by pat_completeness auto
termination
  by (relation "measure (\<lambda>(nx, d). length d)") auto

declare frames.simps [simp del]

fun feed :: "('b list \<Rightarrow> frame_step) \<Rightarrow> 'b list \<Rightarrow> 'b list list \<Rightarrow> 'b list list \<times> 'b list \<times> kkerror option" where
  "feed nx l [] = ([], l, None)"
| "feed nx l (c # cs) =
     (case frames nx (l @ c) of
        (ps, l', Some e) \<Rightarrow> (ps, l', Some e)
      | (ps, l', None) \<Rightarrow> (case feed nx l' cs of (qs, l'', e) \<Rightarrow> (ps @ qs, l'', e)))"

locale frame_laws =
  fixes nx :: "'b list \<Rightarrow> frame_step"
  assumes Frame_range: "nx d = Frame n \<Longrightarrow> 0 < n \<and> n \<le> length d"
    and Frame_append: "nx d = Frame n \<Longrightarrow> nx (d @ b) = Frame n"
    and Bad_append: "d \<noteq> [] \<Longrightarrow> nx d = Bad e \<Longrightarrow> nx (d @ b) = Bad e"
begin

lemma frames_Nil [simp]: "frames nx [] = ([], [], None)"
  by (simp add: frames.simps)

lemma frames_Incomplete: "d \<noteq> [] \<Longrightarrow> nx d = Incomplete \<Longrightarrow> frames nx d = ([], d, None)"
  by (simp add: frames.simps [of nx d])

lemma frames_Bad: "d \<noteq> [] \<Longrightarrow> nx d = Bad e \<Longrightarrow> frames nx d = ([], d, Some e)"
  by (simp add: frames.simps [of nx d])

lemma frames_Frame:
  "nx d = Frame n \<Longrightarrow>
   frames nx d = (case frames nx (drop n d) of (ps, l, e) \<Rightarrow> (take n d # ps, l, e))"
  using Frame_range [of d n] by (auto simp: frames.simps [of nx d])

lemma frames_induct [case_names Nil Incomplete Bad Frame]:
  assumes "P []"
    and "\<And>d. d \<noteq> [] \<Longrightarrow> nx d = Incomplete \<Longrightarrow> P d"
    and "\<And>d e. d \<noteq> [] \<Longrightarrow> nx d = Bad e \<Longrightarrow> P d"
    and "\<And>d n. d \<noteq> [] \<Longrightarrow> nx d = Frame n \<Longrightarrow> 0 < n \<Longrightarrow> n \<le> length d \<Longrightarrow> P (drop n d) \<Longrightarrow> P d"
  shows "P d"
proof (induction d rule: length_induct)
  case (1 d)
  show ?case
  proof (cases "d = []")
    case True
    with assms(1) show ?thesis by simp
  next
    case False
    show ?thesis
    proof (cases "nx d")
      case (Frame n)
      with Frame_range [of d n] "1" False show ?thesis by (intro assms(4) [of d n]) auto
    qed (use assms(2,3) False in auto)
  qed
qed

lemma frames_lossless: "frames nx d = (ps, l, e) \<Longrightarrow> concat ps @ l = d"
proof (induction d arbitrary: ps rule: frames_induct)
  case (Frame d n)
  then show ?case by (auto simp: frames_Frame split: prod.splits)
qed (auto simp: frames_Incomplete frames_Bad)

lemma frames_left: "frames nx d = (ps, l, None) \<Longrightarrow> l = [] \<or> nx l = Incomplete"
proof (induction d arbitrary: ps rule: frames_induct)
  case (Frame d n)
  then show ?case by (auto simp: frames_Frame split: prod.splits)
qed (auto simp: frames_Incomplete frames_Bad)

lemma frames_each: "frames nx d = (ps, l, e) \<Longrightarrow> p \<in> set ps \<Longrightarrow> \<exists>r. nx (p @ r) = Frame (length p)"
proof (induction d arbitrary: ps rule: frames_induct)
  case (Frame d n)
  have first: "\<exists>r. nx (take n d @ r) = Frame (length (take n d))"
    using Frame.hyps by (intro exI [of _ "drop n d"]) simp
  from Frame.prems Frame.hyps obtain ps' where "ps = take n d # ps'" "frames nx (drop n d) = (ps', l, e)"
    by (auto simp: frames_Frame split: prod.splits)
  with Frame.prems(2) have "p = take n d \<or> p \<in> set ps'" by simp
  with first Frame.IH [OF \<open>frames nx (drop n d) = (ps', l, e)\<close>] show ?case by blast
qed (auto simp: frames_Incomplete frames_Bad)

lemma frames_append:
  "frames nx a = (ps, l, None) \<Longrightarrow>
   frames nx (a @ b) = (case frames nx (l @ b) of (qs, l', e) \<Rightarrow> (ps @ qs, l', e))"
proof (induction a arbitrary: ps rule: frames_induct)
  case (Frame d n)
  from Frame.prems Frame.hyps obtain ps' where "ps = take n d # ps'" "frames nx (drop n d) = (ps', l, None)"
    by (auto simp: frames_Frame split: prod.splits)
  with Frame.IH Frame.hyps Frame_append [of d n b] show ?case
    by (auto simp: frames_Frame split: prod.splits)
qed (auto simp: frames_Incomplete frames_Bad split: prod.splits)

lemma frames_append_bad:
  "frames nx a = (ps, l, Some er) \<Longrightarrow> frames nx (a @ b) = (ps, l @ b, Some er)"
proof (induction a arbitrary: ps rule: frames_induct)
  case (Bad d e)
  then show ?case using Bad_append [of d e b] by (simp add: frames_Bad)
next
  case (Frame d n)
  from Frame.prems Frame.hyps obtain ps' where "ps = take n d # ps'" "frames nx (drop n d) = (ps', l, Some er)"
    by (auto simp: frames_Frame split: prod.splits)
  with Frame.IH Frame.hyps Frame_append [of d n b] show ?case
    by (auto simp: frames_Frame split: prod.splits)
qed (auto simp: frames_Incomplete)

lemma frames_concat:
  assumes "\<And>p r. p \<in> set ps \<Longrightarrow> nx (p @ r) = Frame (length p)"
  shows "frames nx (concat ps @ t) = (case frames nx t of (qs, l, e) \<Rightarrow> (ps @ qs, l, e))"
  using assms
proof (induction ps)
  case Nil
  then show ?case by (simp split: prod.splits)
next
  case (Cons p ps)
  then have "nx (p @ (concat ps @ t)) = Frame (length p)" by simp
  from frames_Frame [OF this] Cons show ?case by (auto split: prod.splits)
qed

text \<open>Feeding a stream in chunks gives the frames of the whole stream.\<close>

lemma feed_frames:
  "frames nx l = ([], l, None) \<Longrightarrow> feed nx l cs = (ps, l', None) \<Longrightarrow>
   frames nx (l @ concat cs) = (ps, l', None)"
proof (induction cs arbitrary: l ps)
  case Nil
  then show ?case by simp
next
  case (Cons c cs)
  from Cons.prems(2) obtain ps1 l1 ps2 where 1: "frames nx (l @ c) = (ps1, l1, None)"
    and 2: "feed nx l1 cs = (ps2, l', None)" and ps: "ps = ps1 @ ps2"
    by (auto split: prod.splits option.splits)
  have "frames nx l1 = ([], l1, None)"
    using frames_left [OF 1] by (metis frames_Incomplete frames_Nil)
  from Cons.IH [OF this 2] frames_append [OF 1, of "concat cs"] ps show ?case
    by simp
qed

lemma feed_complete:
  "frames nx (l @ concat cs) = (ps, l', None) \<Longrightarrow> frames nx l = ([], l, None) \<Longrightarrow>
   feed nx l cs = (ps, l', None)"
proof (induction cs arbitrary: l ps)
  case Nil
  then show ?case by simp
next
  case (Cons c cs)
  obtain ps1 l1 e1 where 1: "frames nx (l @ c) = (ps1, l1, e1)" using prod_cases3 by blast
  show ?case
  proof (cases e1)
    case (Some er)
    with frames_append_bad [of "l @ c" ps1 l1 er "concat cs"] 1 Cons.prems show ?thesis by simp
  next
    case None
    note 1 = 1 [unfolded None]
    from frames_append [OF 1, of "concat cs"] Cons.prems(1) obtain ps2 where
      2: "frames nx (l1 @ concat cs) = (ps2, l', None)" "ps = ps1 @ ps2"
      by (auto split: prod.splits)
    have "frames nx l1 = ([], l1, None)"
      using frames_left [OF 1] by (metis frames_Incomplete frames_Nil)
    from Cons.IH [OF 2(1) this] 1 2(2) show ?thesis by simp
  qed
qed

end

end
