(* ===== verification/LfStream.thy ===== *)
theory LfStream
  imports ByteOrder Framing
begin

text \<open>
  The length-field stream packet (src/kknet/kkpacket/packet_lfstream.go): packets
  \<open>[length, message]\<close> on a byte stream, whose length field counts the bytes of the message.
  \<open>Split\<close> returns slices of its input, so its packets are views \<open>(start, length)\<close>; the
  specification \<open>frames\<close> cuts the same packets off a list of bytes, one at a time.
\<close>

record LengthFieldStreamPacket =
  lf_lfbCount :: nat
  lf_maxPacketSize :: nat
  lf_endian :: byte_order

text \<open>The arguments are Go \<open>int\<close>s; every rejected combination panics.\<close>

definition NewLengthFieldStreamPacket :: "byte_order \<Rightarrow> int \<Rightarrow> int \<Rightarrow> LengthFieldStreamPacket go" where
  "NewLengthFieldStreamPacket endian lfb maxPacketSize =
     (if lfb \<noteq> 2 \<and> lfb \<noteq> 4 then panic
      else if maxPacketSize \<le> 0 then panic
      else if lfb = 2 \<and> maxPacketSize > 65535 then panic
      else if lfb = 4 \<and> maxPacketSize > 4294967295 then panic
      else ret \<lparr>lf_lfbCount = nat lfb, lf_maxPacketSize = nat maxPacketSize, lf_endian = endian\<rparr>)"

definition LengthFieldBytes :: "LengthFieldStreamPacket \<Rightarrow> byte list \<Rightarrow> kkerror + byte list" where
  "LengthFieldBytes slf packet =
     (if length packet < lf_lfbCount slf then Inl ErrPktDataTooShortToDecode
      else Inr (take (lf_lfbCount slf) packet))"

definition MessageBytes :: "LengthFieldStreamPacket \<Rightarrow> byte list \<Rightarrow> kkerror + byte list" where
  "MessageBytes slf packet =
     (if length packet < lf_lfbCount slf then Inl ErrPktDataTooShortToDecode
      else Inr (drop (lf_lfbCount slf) packet))"

definition ReadMessageSize :: "LengthFieldStreamPacket \<Rightarrow> byte list \<Rightarrow> kkerror + nat" where
  "ReadMessageSize slf packet =
     (if length packet < lf_lfbCount slf then Inl ErrPktDataTooShortToDecode
      else if lf_lfbCount slf = 4 then Inr (get_uint (lf_endian slf) (take 4 packet))
      else if lf_lfbCount slf = 2 then Inr (get_uint (lf_endian slf) (take 2 packet))
      else Inl ErrPktInvalidLengthFieldByteCount)"

text \<open>\<open>uint32(size)\<close> and \<open>uint16(size)\<close> reduce the size modulo the width of the field.\<close>

definition WriteMessageSize :: "LengthFieldStreamPacket \<Rightarrow> byte list \<Rightarrow> int \<Rightarrow> byte list \<times> kkerror option" where
  "WriteMessageSize slf packet msgSize =
     (if length packet < lf_lfbCount slf then (packet, Some ErrPktDataTooShortToDecode)
      else if lf_lfbCount slf = 4
      then (copy_at packet 0 (put_uint (lf_endian slf) 4 (nat (msgSize mod 2 ^ 32))), None)
      else if lf_lfbCount slf = 2
      then (copy_at packet 0 (put_uint (lf_endian slf) 2 (nat (msgSize mod 2 ^ 16))), None)
      else (packet, None))"

definition CheckPacket :: "LengthFieldStreamPacket \<Rightarrow> byte list \<Rightarrow> kkerror option" where
  "CheckPacket slf packet =
     (if length packet < lf_lfbCount slf then Some ErrPktDataTooShortToDecode
      else if length packet > lf_maxPacketSize slf then Some ErrPktMaxMessageSize
      else case ReadMessageSize slf packet of
             Inl err \<Rightarrow> Some err
           | Inr messageLen \<Rightarrow>
               if length packet \<noteq> messageLen + lf_lfbCount slf then Some ErrClusterInvalidPacket
               else None)"

text \<open>The buffer is a pointer, so it may be nil.\<close>

definition CheckPacketBuffer :: "LengthFieldStreamPacket \<Rightarrow> byte list option \<Rightarrow> kkerror option" where
  "CheckPacketBuffer slf packetBB =
     (case packetBB of None \<Rightarrow> Some ErrClusterInvalidPacket | Some B \<Rightarrow> CheckPacket slf B)"

text \<open>
  \<open>Pack\<close> fills a buffer of the pool: \<open>pooled n\<close> is the memory \<open>kkbuffer.GetWithCapacity(n)\<close>
  hands out, with whatever an earlier user left in it.
\<close>

definition Pack :: "LengthFieldStreamPacket \<Rightarrow> (nat \<Rightarrow> byte list) \<Rightarrow> byte list \<Rightarrow> (kkerror + byte list) go" where
  "Pack slf pooled messageBytes =
     (if int (length messageBytes) > int (lf_maxPacketSize slf) - int (lf_lfbCount slf)
      then ret (Inl ErrPktMaxMessageSize)
      else let lfb = lf_lfbCount slf;
               messageLen = length messageBytes;
               totalLen = lfb + messageLen
           in do {
             B \<leftarrow> slice_go (pooled totalLen) 0 totalLen;
             l \<leftarrow> slice_go B 0 lfb;
             let B = copy_at B 0 (fst (WriteMessageSize slf l (int messageLen)));
             B \<leftarrow> copy_go B lfb messageBytes;
             ret (Inr B)
           })"

definition Unpack :: "LengthFieldStreamPacket \<Rightarrow> byte list \<Rightarrow> kkerror + byte list" where
  "Unpack slf packet =
     (case ReadMessageSize slf packet of
        Inl err \<Rightarrow> Inl err
      | Inr messageLen \<Rightarrow>
          let lfb = lf_lfbCount slf; totalLen = lfb + messageLen
          in if length packet < totalLen then Inl ErrClusterInvalidPacket
             else Inr (sub_slice packet lfb totalLen))"

subsection \<open>Splitting a batch\<close>

text \<open>A slice of a byte array, as Go keeps it: where it starts and how long it is.\<close>

type_synonym view = "nat \<times> nat"

definition view_bytes :: "'a list \<Rightarrow> view \<Rightarrow> 'a list" where
  "view_bytes xs v = sub_slice xs (fst v) (fst v + snd v)"

function (sequential) split_loop ::
  "LengthFieldStreamPacket \<Rightarrow> byte list \<Rightarrow> nat \<Rightarrow> view list \<Rightarrow> view list \<times> view option \<times> kkerror option" where
  "split_loop slf packets pos bufList =
     (let lfb = lf_lfbCount slf; dataLen = length packets; left = (pos, dataLen - pos) in
      if int dataLen - int pos < int lfb then (bufList, Some left, None)
      else case ReadMessageSize slf (drop pos packets) of
        Inl err \<Rightarrow> (bufList, Some left, Some err)
      | Inr messageLen \<Rightarrow>
          let totalLen = lfb + messageLen in
          if totalLen > lf_maxPacketSize slf then (bufList, Some left, Some ErrPktMaxMessageSize)
          else if int dataLen - int pos < int totalLen then (bufList, Some left, None)
          else let bufList = bufList @ [(pos, totalLen)]; pos = pos + totalLen in
               if pos \<ge> dataLen then (bufList, None, None)
               else split_loop slf packets pos bufList)"
  by pat_completeness auto
termination
  by (relation "measure (\<lambda>(slf, packets, pos, bufList). length packets - pos)")
    (auto simp: ReadMessageSize_def split: if_splits)

definition Split :: "LengthFieldStreamPacket \<Rightarrow> byte list \<Rightarrow> view list \<times> view option \<times> kkerror option" where
  "Split slf packets = (if length packets = 0 then ([], None, None) else split_loop slf packets 0 [])"

declare split_loop.simps [simp del]

subsection \<open>Reading one packet off a buffered connection\<close>

text \<open>
  \<open>IStreamReader\<close> is implemented by the connections of gnet.  A reader state \<open>'r\<close> has a number of
  buffered bytes, \<open>Peek\<close>, and \<open>Next\<close>, which consumes; \<open>io.ErrShortBuffer\<close> is told apart.
\<close>

datatype io_error = ErrShortBuffer | IoErr nat

record 'r stream_reader =
  sr_InboundBuffered :: "'r \<Rightarrow> nat"
  sr_Peek :: "'r \<Rightarrow> nat \<Rightarrow> io_error + byte list"
  sr_Next :: "'r \<Rightarrow> nat \<Rightarrow> 'r \<times> (io_error + byte list)"

definition SplitSR ::
  "LengthFieldStreamPacket \<Rightarrow> 'r stream_reader \<Rightarrow> 'r \<Rightarrow> 'r \<times> byte list option \<times> bool \<times> (io_error + kkerror) option" where
  "SplitSR slf rd r =
     (let lfb = lf_lfbCount slf in
      if sr_InboundBuffered rd r < lfb then (r, None, False, None)
      else case sr_Peek rd r lfb of
        Inl err \<Rightarrow> if err = ErrShortBuffer then (r, None, False, None) else (r, None, False, Some (Inl err))
      | Inr header \<Rightarrow>
          (case ReadMessageSize slf header of
             Inl err \<Rightarrow> (r, None, False, Some (Inr err))
           | Inr messageLen \<Rightarrow>
               let totalLen = lfb + messageLen in
               if totalLen > lf_maxPacketSize slf then (r, None, False, Some (Inr ErrPktMaxMessageSize))
               else if sr_InboundBuffered rd r < totalLen then (r, None, False, None)
               else case sr_Next rd r totalLen of
                      (r', Inl err) \<Rightarrow> (r', None, False, Some (Inl err))
                    | (r', Inr data) \<Rightarrow> (r', Some data, True, None)))"

subsection \<open>Streams the constructor accepts\<close>

definition valid_stream :: "LengthFieldStreamPacket \<Rightarrow> bool" where
  "valid_stream slf \<longleftrightarrow> (lf_lfbCount slf = 2 \<and> lf_maxPacketSize slf \<le> 65535 \<or>
     lf_lfbCount slf = 4 \<and> lf_maxPacketSize slf \<le> 4294967295) \<and> 0 < lf_maxPacketSize slf"

lemma New_valid: "NewLengthFieldStreamPacket e lfb m = ret slf \<Longrightarrow> valid_stream slf"
  by (auto simp: NewLengthFieldStreamPacket_def valid_stream_def split: if_splits)

lemma ReadMessageSize_append:
  "lf_lfbCount slf \<le> length d \<Longrightarrow> ReadMessageSize slf (d @ b) = ReadMessageSize slf d"
  by (auto simp: ReadMessageSize_def)

lemma ReadMessageSize_lfb:
  "ReadMessageSize slf d = Inr n \<Longrightarrow> lf_lfbCount slf \<in> {2, 4} \<and> lf_lfbCount slf \<le> length d"
  by (auto simp: ReadMessageSize_def split: if_splits)

text \<open>The decision \<open>Split\<close> and \<open>SplitSR\<close> make on the bytes at the front of the stream.\<close>

definition next_packet :: "LengthFieldStreamPacket \<Rightarrow> byte list \<Rightarrow> frame_step" where
  "next_packet slf d =
     (if length d < lf_lfbCount slf then Incomplete
      else case ReadMessageSize slf d of
        Inl err \<Rightarrow> Bad err
      | Inr n \<Rightarrow> if lf_lfbCount slf + n > lf_maxPacketSize slf then Bad ErrPktMaxMessageSize
                 else if length d < lf_lfbCount slf + n then Incomplete
                 else Frame (lf_lfbCount slf + n))"

interpretation packets: frame_laws "next_packet slf" for slf
proof
  fix d b :: "byte list" and n e
  show "next_packet slf d = Frame n \<Longrightarrow> 0 < n \<and> n \<le> length d"
    using ReadMessageSize_lfb [of slf d]
    by (fastforce simp: next_packet_def split: if_splits sum.splits)
  show "next_packet slf d = Frame n \<Longrightarrow> next_packet slf (d @ b) = Frame n"
    by (auto simp: next_packet_def ReadMessageSize_append split: if_splits sum.splits)
  show "next_packet slf d = Bad e \<Longrightarrow> next_packet slf (d @ b) = Bad e"
    by (auto simp: next_packet_def ReadMessageSize_append split: if_splits sum.splits)
qed

subsection \<open>\<open>Split\<close> refines the specification\<close>

text \<open>The result of \<open>Split\<close> by value: what the returned slices hold; nil and an empty rest agree.\<close>

definition split_values ::
  "byte list \<Rightarrow> view list \<times> view option \<times> kkerror option \<Rightarrow> byte list list \<times> byte list \<times> kkerror option" where
  "split_values packets r =
     (case r of (bufs, left, err) \<Rightarrow>
        (map (view_bytes packets) bufs,
         (case left of None \<Rightarrow> [] | Some v \<Rightarrow> view_bytes packets v), err))"

lemma split_loop_frames:
  assumes "pos < length packets"
  shows "split_values packets (split_loop slf packets pos bufs) =
    (case frames (next_packet slf) (drop pos packets) of
       (ps, l, e) \<Rightarrow> (map (view_bytes packets) bufs @ ps, l, e))"
  using assms
proof (induction slf packets pos bufs rule: split_loop.induct)
  case (1 slf packets pos bufs)
  let ?d = "drop pos packets"
  have ne: "?d \<noteq> []" and rest: "view_bytes packets (pos, length packets - pos) = ?d"
    using "1.prems" by (auto simp: view_bytes_def sub_slice_def)
  show ?case
  proof (cases "next_packet slf ?d")
    case Incomplete
    then show ?thesis using ne rest "1.prems"
      by (subst split_loop.simps)
        (auto simp: Let_def next_packet_def split_values_def packets.frames_Incomplete [OF ne Incomplete]
          split: if_splits sum.splits)
  next
    case (Bad e)
    then show ?thesis using ne rest "1.prems"
      by (subst split_loop.simps)
        (auto simp: Let_def next_packet_def split_values_def packets.frames_Bad [OF ne Bad]
          split: if_splits sum.splits)
  next
    case (Frame n)
    from Frame obtain m where m: "ReadMessageSize slf ?d = Inr m" "n = lf_lfbCount slf + m"
      "\<not> lf_lfbCount slf + m > lf_maxPacketSize slf" "\<not> length ?d < lf_lfbCount slf"
      "\<not> length ?d < lf_lfbCount slf + m"
      by (auto simp: next_packet_def split: if_splits sum.splits)
    have v: "view_bytes packets (pos, n) = take n ?d"
      by (simp add: view_bytes_def sub_slice_def)
    note unfold = split_loop.simps [of slf packets pos bufs]
    show ?thesis
    proof (cases "length packets \<le> pos + n")
      case True
      then have "drop (pos + n) packets = []" by simp
      with True m v "1.prems" show ?thesis
        unfolding unfold packets.frames_Frame [OF Frame]
        by (simp add: Let_def split_values_def add.commute)
    next
      case False
      have c1: "\<not> int (length packets) - int pos < int (lf_lfbCount slf)"
        and c2: "\<not> int (length packets) - int pos < int (lf_lfbCount slf + m)"
        using m(4,5) "1.prems" by auto
      have ih: "split_values packets (split_loop slf packets (pos + n) (bufs @ [(pos, n)])) =
          (case frames (next_packet slf) (drop (pos + n) packets) of
             (ps, l, e) \<Rightarrow> (map (view_bytes packets) (bufs @ [(pos, n)]) @ ps, l, e))"
        using "1.IH" [OF refl refl refl c1 m(1) refl m(3) c2 refl refl] False m(2) by simp
      have "split_loop slf packets pos bufs = split_loop slf packets (pos + n) (bufs @ [(pos, n)])"
        using False c1 c2 m unfolding unfold by (simp add: Let_def)
      with ih v show ?thesis
        unfolding packets.frames_Frame [OF Frame] by (auto simp: add.commute split: prod.splits)
    qed
  qed
qed

lemma Split_frames: "split_values packets (Split slf packets) = frames (next_packet slf) packets"
proof (cases "packets = []")
  case True
  then show ?thesis by (simp add: Split_def split_values_def)
next
  case False
  then show ?thesis
    using split_loop_frames [of 0 packets slf "[]"] by (simp add: Split_def split: prod.splits)
qed

subsection \<open>Properties of the stream packet\<close>

text \<open>The bytes of a packed message, by the format \<open>[length, message]\<close>.\<close>

definition wire :: "LengthFieldStreamPacket \<Rightarrow> byte list \<Rightarrow> byte list" where
  "wire slf msg = put_uint (lf_endian slf) (lf_lfbCount slf) (length msg) @ msg"

lemma length_wire [simp]: "length (wire slf msg) = lf_lfbCount slf + length msg"
  by (simp add: wire_def order.length_put)

lemma ReadMessageSize_wire:
  assumes "valid_stream slf" "lf_lfbCount slf + length msg \<le> lf_maxPacketSize slf"
  shows "ReadMessageSize slf (wire slf msg @ r) = Inr (length msg)"
proof -
  have "length msg < 256 ^ lf_lfbCount slf"
    using assms by (auto simp: valid_stream_def)
  then show ?thesis
    using assms(1) order.get_put_small [of "length msg" "lf_lfbCount slf" "lf_endian slf"]
    by (auto simp: ReadMessageSize_def wire_def valid_stream_def order.length_put)
qed

lemma next_packet_wire:
  "valid_stream slf \<Longrightarrow> lf_lfbCount slf + length msg \<le> lf_maxPacketSize slf \<Longrightarrow>
   next_packet slf (wire slf msg @ r) = Frame (length (wire slf msg))"
  by (simp add: next_packet_def ReadMessageSize_wire)

lemma Pack_eq:
  assumes "valid_stream slf" and "\<And>n. n \<le> length (pooled n)"
  shows "Pack slf pooled msg = ret (if lf_lfbCount slf + length msg > lf_maxPacketSize slf
           then Inl ErrPktMaxMessageSize else Inr (wire slf msg))"
proof (cases "lf_lfbCount slf + length msg > lf_maxPacketSize slf")
  case True
  then show ?thesis by (simp add: Pack_def)
next
  case False
  let ?t = "lf_lfbCount slf + length msg"
  define B where "B = sub_slice (pooled ?t) 0 ?t"
  have lB: "length B = ?t" using assms(2) [of ?t] by (simp add: B_def)
  have w: "fst (WriteMessageSize slf (sub_slice B 0 (lf_lfbCount slf)) (int (length msg))) =
      put_uint (lf_endian slf) (lf_lfbCount slf) (length msg)"
    using assms(1) False lB
    by (auto simp: WriteMessageSize_def valid_stream_def copy_at_whole order.length_put nat_mod_distrib)
  show ?thesis
    using False lB assms(2) [of ?t] w
    by (simp add: Pack_def Let_def go_simps B_def [symmetric] wire_def copy_at_def order.length_put)
qed

text \<open>
  C2: packing a message that fits gives a packet that is accepted and unpacks to it: for every
  stream the constructor accepts and whatever the pooled buffer held before, \<open>Pack\<close> returns the
  packet, \<open>CheckPacket\<close> accepts it, \<open>ReadMessageSize\<close> reads the length of the message, and
  \<open>Unpack\<close> returns the message, also when other bytes follow; the packet is no longer than the
  maximum. A longer message is refused with \<open>ErrPktMaxMessageSize\<close>.
\<close>

theorem Pack_Unpack:
  assumes "valid_stream slf" and "\<And>n. n \<le> length (pooled n)"
  shows "if lf_lfbCount slf + length msg \<le> lf_maxPacketSize slf
    then \<exists>p. Pack slf pooled msg = ret (Inr p) \<and> length p \<le> lf_maxPacketSize slf \<and>
           CheckPacket slf p = None \<and> ReadMessageSize slf p = Inr (length msg) \<and>
           (\<forall>r. Unpack slf (p @ r) = Inr msg)
    else Pack slf pooled msg = ret (Inl ErrPktMaxMessageSize)"
proof (cases "lf_lfbCount slf + length msg \<le> lf_maxPacketSize slf")
  case True
  note rd = ReadMessageSize_wire [OF assms(1) True]
  have "CheckPacket slf (wire slf msg) = None"
    using rd [of "[]"] True by (simp add: CheckPacket_def)
  moreover have "Unpack slf (wire slf msg @ r) = Inr msg" for r
    unfolding Unpack_def rd by (simp add: Let_def) (simp add: sub_slice_def wire_def order.length_put)
  ultimately show ?thesis
    using True rd [of "[]"] Pack_eq [OF assms, of msg] by auto
next
  case False
  then show ?thesis by (simp add: Pack_eq [OF assms])
qed

definition sample_stream :: LengthFieldStreamPacket where
  "sample_stream = \<lparr>lf_lfbCount = 2, lf_maxPacketSize = 8, lf_endian = BigEndian\<rparr>"

lemma sample_stream_valid: "valid_stream sample_stream"
  by (simp add: sample_stream_def valid_stream_def)

lemma Pack_Unpack_witness:
  "\<exists>p. Pack sample_stream (\<lambda>n. replicate (n + 1) 77) [1, 2, 3] = ret (Inr p) \<and> length p \<le> 8 \<and>
     CheckPacket sample_stream p = None \<and> ReadMessageSize sample_stream p = Inr (length [1 :: byte, 2, 3]) \<and>
     (\<forall>r. Unpack sample_stream (p @ r) = Inr [1, 2, 3])"
  using Pack_Unpack [OF sample_stream_valid, of "\<lambda>n. replicate (n + 1) 77" "[1, 2, 3]"]
  by (simp add: sample_stream_def)

lemma next_packet_Check:
  "next_packet slf (p @ r) = Frame (length p) \<Longrightarrow> CheckPacket slf p = None"
  using ReadMessageSize_append [of slf p r]
  by (auto simp: next_packet_def CheckPacket_def split: if_splits sum.splits)

text \<open>
  C3: \<open>Split\<close> loses nothing and returns only valid packets, for any input bytes: the packets and
  the rest are, one after the other, the input; \<open>CheckPacket\<close> accepts every packet; and when there
  is no error the rest is empty or too short to hold the packet it starts.
\<close>

theorem Split_lossless:
  assumes "split_values packets (Split slf packets) = (ps, left, err)"
  shows "concat ps @ left = packets \<and> (\<forall>p \<in> set ps. CheckPacket slf p = None) \<and>
    (err = None \<longrightarrow> left = [] \<or> next_packet slf left = Incomplete)"
proof -
  note f = assms [unfolded Split_frames]
  show ?thesis
    using packets.frames_lossless [OF f] packets.frames_each [OF f] packets.frames_left [of slf packets ps left] f
    by (auto dest: next_packet_Check)
qed

lemma Split_lossless_witness:
  "concat [[0, 1, 9], [0, 0]] @ [0, 2, 7] = ([0, 1, 9, 0, 0, 0, 2, 7] :: byte list) \<and>
   map (CheckPacket sample_stream) [[0, 1, 9], [0, 0]] = [None, None] \<and>
   next_packet sample_stream [0, 2, 7] = Incomplete"
proof -
  have "split_values [0, 1, 9, 0, 0, 0, 2, 7] (Split sample_stream [0, 1, 9, 0, 0, 0, 2, 7]) =
    ([[0, 1, 9], [0, 0]], [0, 2, 7], None)"
    by (simp add: Split_def split_loop.simps ReadMessageSize_def sample_stream_def get_uint_def
      split_values_def view_bytes_def sub_slice_def)
  from Split_lossless [OF this] show ?thesis by simp
qed

text \<open>
  C4: \<open>Split\<close> finds exactly the packets that were packed: a batch of packed messages followed by
  the beginning of a packet is cut into these packets, in order, with that beginning as the rest
  and no error.
\<close>

theorem Split_packed:
  assumes "valid_stream slf"
    and "\<forall>msg \<in> set msgs. lf_lfbCount slf + length msg \<le> lf_maxPacketSize slf"
    and "next_packet slf tail = Incomplete"
  shows "split_values (concat (map (wire slf) msgs) @ tail) (Split slf (concat (map (wire slf) msgs) @ tail)) =
    (map (wire slf) msgs, tail, None)"
proof -
  have "frames (next_packet slf) tail = ([], tail, None)"
    using packets.frames_Incomplete [OF _ assms(3)] packets.frames_Nil by metis
  moreover have "frames (next_packet slf) (concat (map (wire slf) msgs) @ tail) =
      (case frames (next_packet slf) tail of (qs, l, e) \<Rightarrow> (map (wire slf) msgs @ qs, l, e))"
    using assms(1,2) by (intro packets.frames_concat) (auto simp: next_packet_wire)
  ultimately show ?thesis unfolding Split_frames by simp
qed

lemma Split_packed_witness:
  "split_values (concat (map (wire sample_stream) [[5], [], [6, 7]]) @ [0, 3, 1])
     (Split sample_stream (concat (map (wire sample_stream) [[5], [], [6, 7]]) @ [0, 3, 1])) =
   (map (wire sample_stream) [[5], [], [6, 7]], [0, 3, 1], None)"
  by (rule Split_packed [OF sample_stream_valid])
    (simp_all add: sample_stream_def next_packet_def ReadMessageSize_def get_uint_def)

text \<open>What gnet documents of a connection: \<open>Peek\<close> and \<open>Next\<close> serve what is buffered.\<close>

definition buffered_reader :: "'r stream_reader \<Rightarrow> ('r \<Rightarrow> byte list) \<Rightarrow> bool" where
  "buffered_reader rd contents \<longleftrightarrow>
     (\<forall>r. sr_InboundBuffered rd r = length (contents r)) \<and>
     (\<forall>r n. n \<le> length (contents r) \<longrightarrow> sr_Peek rd r n = Inr (take n (contents r))) \<and>
     (\<forall>r n. n \<le> length (contents r) \<longrightarrow>
        snd (sr_Next rd r n) = Inr (take n (contents r)) \<and> contents (fst (sr_Next rd r n)) = drop n (contents r))"

text \<open>
  \<open>SplitSR\<close> takes the same packets off a connection that \<open>Split\<close> finds in its bytes: it
  returns the first packet and consumes exactly it; it consumes nothing, and returns no packet,
  when the packet is not complete (without error) or is too long (with \<open>ErrPktMaxMessageSize\<close>).
\<close>

theorem SplitSR_next:
  assumes "buffered_reader rd contents"
  shows "case next_packet slf (contents r) of
      Incomplete \<Rightarrow> SplitSR slf rd r = (r, None, False, None)
    | Bad e \<Rightarrow> SplitSR slf rd r = (r, None, False, Some (Inr e))
    | Frame n \<Rightarrow> (\<exists>r'. SplitSR slf rd r = (r', Some (take n (contents r)), True, None) \<and>
                      contents r' = drop n (contents r))"
proof -
  let ?c = "contents r" and ?lfb = "lf_lfbCount slf"
  have ib: "sr_InboundBuffered rd r = length ?c" using assms by (simp add: buffered_reader_def)
  show ?thesis
  proof (cases "length ?c < ?lfb")
    case True
    then show ?thesis using ib by (simp add: next_packet_def SplitSR_def)
  next
    case False
    then have pk: "sr_Peek rd r ?lfb = Inr (take ?lfb ?c)"
      using assms by (simp add: buffered_reader_def)
    have rs: "ReadMessageSize slf (take ?lfb ?c) = ReadMessageSize slf ?c"
      using False ReadMessageSize_append [of slf "take ?lfb ?c" "drop ?lfb ?c"] by simp
    have nx: "snd (sr_Next rd r n) = Inr (take n ?c)" "contents (fst (sr_Next rd r n)) = drop n ?c"
      if "n \<le> length ?c" for n using assms that by (auto simp: buffered_reader_def)
    show ?thesis
      using False ib pk rs nx
      by (auto simp: next_packet_def SplitSR_def Let_def prod_eq_iff split: sum.split prod.split)
  qed
qed

definition list_reader :: "byte list stream_reader" where
  "list_reader = \<lparr>sr_InboundBuffered = length,
     sr_Peek = (\<lambda>r n. if n \<le> length r then Inr (take n r) else Inl ErrShortBuffer),
     sr_Next = (\<lambda>r n. if n \<le> length r then (drop n r, Inr (take n r)) else (r, Inl ErrShortBuffer))\<rparr>"

lemma list_reader_buffered: "buffered_reader list_reader id"
  by (simp add: buffered_reader_def list_reader_def)

lemma SplitSR_next_witness:
  "case next_packet sample_stream (id [0, 1, 9, 0]) of
      Incomplete \<Rightarrow> SplitSR sample_stream list_reader [0, 1, 9, 0] = ([0, 1, 9, 0], None, False, None)
    | Bad e \<Rightarrow> SplitSR sample_stream list_reader [0, 1, 9, 0] = ([0, 1, 9, 0], None, False, Some (Inr e))
    | Frame n \<Rightarrow> (\<exists>r'. SplitSR sample_stream list_reader [0, 1, 9, 0] =
                          (r', Some (take n (id [0, 1, 9, 0])), True, None) \<and>
                      id r' = drop n (id [0, 1, 9, 0]))"
  by (rule SplitSR_next [OF list_reader_buffered])

end
