(* ===== verification/Router.thy ===== *)
theory Router
  imports Prelude
begin

text \<open>
  The registries of message types (src/kknet/kkpacket/router.go and the \<open>metaManager\<close> of
  src/kknet/kkpacket/meta.go).  A dynamic Go value \<open>any\<close> is nil, a pointer to a value of a named
  type, or a value that is not a pointer; \<open>reflect.TypeOf\<close> and \<open>xreflect.IsPointer\<close> look at it.
  The registration lock makes \<open>Register\<close> one step.
\<close>

datatype gotype = Named string | PtrTo gotype

datatype 'p any = AnyNil | AnyPtr gotype 'p | AnyVal gotype 'p

fun TypeOf :: "'p any \<Rightarrow> gotype option" where
  "TypeOf AnyNil = None"
| "TypeOf (AnyPtr t x) = Some (PtrTo t)"
| "TypeOf (AnyVal t x) = Some t"

fun IsPointer :: "'p any \<Rightarrow> bool" where
  "IsPointer AnyNil \<longleftrightarrow> False"
| "IsPointer (AnyPtr t x) \<longleftrightarrow> True"
| "IsPointer (AnyVal t x) \<longleftrightarrow> (case t of PtrTo _ \<Rightarrow> True | Named _ \<Rightarrow> False)"

record MsgRouter =
  typeToId :: "gotype \<rightharpoonup> msgid"
  idToType :: "msgid \<rightharpoonup> gotype"
  idToRoute :: "msgid \<rightharpoonup> string"

definition NewMsgRouter :: MsgRouter where
  "NewMsgRouter = \<lparr>typeToId = Map.empty, idToType = Map.empty, idToRoute = Map.empty\<rparr>"

definition Register :: "MsgRouter \<Rightarrow> msgid \<Rightarrow> 'p any \<Rightarrow> string \<Rightarrow> MsgRouter \<times> kkerror option" where
  "Register r i msgPtr route =
     (if i = 0 then (r, Some ErrPktInvalidMsgID)
      else if \<not> IsPointer msgPtr then (r, Some ErrPktInvalidMessage)
      else case TypeOf msgPtr of
        None \<Rightarrow> (r, Some ErrPktInvalidMessage)
      | Some msgType \<Rightarrow>
          if idToType r i \<noteq> None \<and> idToType r i \<noteq> Some msgType
          then (r, Some ErrPktMsgIDAlreadyRegistered)
          else (r\<lparr>typeToId := (typeToId r)(msgType \<mapsto> i),
                  idToType := (idToType r)(i \<mapsto> msgType),
                  idToRoute := (idToRoute r)(i \<mapsto> route)\<rparr>, None))"

text \<open>The lookups by type; \<open>GetMsgID(nil)\<close> asks for the nil type, which is never a key.\<close>

definition GetMsgID :: "MsgRouter \<Rightarrow> 'p any \<Rightarrow> msgid" where
  "GetMsgID r msgPtr =
     (case TypeOf msgPtr of
        None \<Rightarrow> 0
      | Some t \<Rightarrow> (case typeToId r t of None \<Rightarrow> 0 | Some i \<Rightarrow> i))"

definition GetMsgType :: "MsgRouter \<Rightarrow> msgid \<Rightarrow> gotype option" where
  "GetMsgType r i = idToType r i"

definition GetMsgRoute :: "MsgRouter \<Rightarrow> msgid \<Rightarrow> kkerror + string" where
  "GetMsgRoute r i = (case idToRoute r i of None \<Rightarrow> Inl ErrPktMsgIDNotRegistered | Some route \<Rightarrow> Inr route)"

subsection \<open>The table of message metas\<close>

record 'm metaManager =
  mm_typeMap :: "gotype \<rightharpoonup> 'm"
  mm_idMap :: "msgid \<rightharpoonup> 'm"

definition NewMetaManager :: "'m metaManager" where
  "NewMetaManager = \<lparr>mm_typeMap = Map.empty, mm_idMap = Map.empty\<rparr>"

definition AddMeta :: "'m metaManager \<Rightarrow> msgid \<Rightarrow> gotype option \<Rightarrow> 'm \<Rightarrow> 'm metaManager \<times> kkerror option" where
  "AddMeta m msgId msgType msgMeta =
     (if msgId = 0 then (m, Some ErrPktInvalidMsgID)
      else case msgType of
        None \<Rightarrow> (m, Some ErrPktInvalidMessage)
      | Some t \<Rightarrow> (m\<lparr>mm_typeMap := (mm_typeMap m)(t \<mapsto> msgMeta),
                       mm_idMap := (mm_idMap m)(msgId \<mapsto> msgMeta)\<rparr>, None))"

text \<open>\<open>GetMeta[T]\<close> looks up the type \<open>*T\<close>.\<close>

definition GetMeta :: "'m metaManager \<Rightarrow> gotype \<Rightarrow> 'm option" where
  "GetMeta m t = mm_typeMap m (PtrTo t)"

subsection \<open>Reachable routers\<close>

text \<open>
  The routers registration can build, from any sequence of calls, accepted or refused.  The
  payload behind the pointer plays no part in \<open>Register\<close>, so one payload type is enough.
\<close>

inductive router_reachable :: "MsgRouter \<Rightarrow> bool" where
  new: "router_reachable NewMsgRouter"
| register: "router_reachable r \<Longrightarrow> router_reachable (fst (Register r i (msgPtr :: nat any) route))"

definition router_inv :: "MsgRouter \<Rightarrow> bool" where
  "router_inv r \<longleftrightarrow>
     (\<forall>t i. typeToId r t = Some i \<longrightarrow> idToType r i = Some t) \<and>
     idToType r 0 = None \<and> dom (idToRoute r) = dom (idToType r)"

lemma Register_ok_iff:
  "snd (Register r i msgPtr route) = None \<longleftrightarrow>
     i \<noteq> 0 \<and> IsPointer msgPtr \<and> (\<exists>t. TypeOf msgPtr = Some t \<and> idToType r i \<in> {None, Some t})"
  by (cases msgPtr) (auto simp: Register_def)

lemma Register_inv:
  assumes "router_inv r"
  shows "router_inv (fst (Register r i msgPtr route))"
proof (cases "snd (Register r i msgPtr route)")
  case (Some e)
  then have "fst (Register r i msgPtr route) = r"
    by (auto simp: Register_def split: if_splits option.splits)
  with assms show ?thesis by simp
next
  case None
  then obtain t where t: "TypeOf msgPtr = Some t" "idToType r i \<in> {None, Some t}" "i \<noteq> 0" "IsPointer msgPtr"
    unfolding Register_ok_iff by blast
  then have eq: "fst (Register r i msgPtr route) =
      r\<lparr>typeToId := (typeToId r)(t \<mapsto> i), idToType := (idToType r)(i \<mapsto> t), idToRoute := (idToRoute r)(i \<mapsto> route)\<rparr>"
    by (auto simp: Register_def)
  have "idToType r j = Some u" if "typeToId r u = Some j" for u j
    using assms that by (auto simp: router_inv_def)
  with t(2,3) assms show ?thesis
    unfolding eq router_inv_def by (fastforce split: if_splits)
qed

lemma reachable_router_inv: "router_reachable r \<Longrightarrow> router_inv r"
proof (induction rule: router_reachable.induct)
  case new
  show ?case by (simp add: router_inv_def NewMsgRouter_def)
next
  case (register r i msgPtr route)
  then show ?case by (simp add: Register_inv)
qed

lemma GetMsgID_typed:
  assumes "router_inv r" "GetMsgID r v = i" "i \<noteq> 0"
  shows "GetMsgType r i = TypeOf v"
  using assms by (auto simp: GetMsgID_def GetMsgType_def router_inv_def split: option.splits)

text \<open>
  C5: whatever was registered, in whatever order, the id the router gives for a value is the id
  of the value's type: looking the type of that id up again gives the type of the value, and the
  id has a route. An id never stands for two types: a second registration for another type is
  refused with \<open>ErrPktMsgIDAlreadyRegistered\<close> and changes nothing.
\<close>

theorem router_consistent:
  assumes "router_reachable r"
  shows "(GetMsgID r v \<noteq> 0 \<longrightarrow>
            GetMsgType r (GetMsgID r v) = TypeOf v \<and> (\<exists>route. GetMsgRoute r (GetMsgID r v) = Inr route)) \<and>
         (i \<noteq> 0 \<longrightarrow> GetMsgType r i = Some (PtrTo u) \<longrightarrow> t \<noteq> u \<longrightarrow>
            Register r i (AnyPtr t x) route' = (r, Some ErrPktMsgIDAlreadyRegistered))"
proof -
  note inv = reachable_router_inv [OF assms]
  have "\<exists>route. GetMsgRoute r (GetMsgID r v) = Inr route" if "GetMsgID r v \<noteq> 0"
  proof -
    from that obtain t where "TypeOf v = Some t" by (auto simp: GetMsgID_def split: option.splits)
    with GetMsgID_typed [OF inv refl that] have "GetMsgID r v \<in> dom (idToRoute r)"
      using inv by (auto simp: router_inv_def GetMsgType_def)
    then show ?thesis by (auto simp: GetMsgRoute_def)
  qed
  with GetMsgID_typed [OF inv refl, of v] show ?thesis
    by (auto simp: Register_def GetMsgType_def)
qed

definition sample_router :: MsgRouter where
  "sample_router = fst (Register NewMsgRouter 1001 (AnyPtr (Named ''Login'') (0 :: nat)) ''game'')"

lemma sample_router_reachable: "router_reachable sample_router"
  unfolding sample_router_def by (intro router_reachable.intros)

lemma router_consistent_witness:
  "GetMsgType sample_router (GetMsgID sample_router (AnyPtr (Named ''Login'') (0 :: nat))) =
      TypeOf (AnyPtr (Named ''Login'') (0 :: nat)) \<and>
   (\<exists>route. GetMsgRoute sample_router (GetMsgID sample_router (AnyPtr (Named ''Login'') (0 :: nat))) = Inr route) \<and>
   Register sample_router 1001 (AnyPtr (Named ''Chat'') (1 :: nat)) ''chat'' =
     (sample_router, Some ErrPktMsgIDAlreadyRegistered)"
proof -
  have "GetMsgID sample_router (AnyPtr (Named ''Login'') (0 :: nat)) \<noteq> 0"
    "GetMsgType sample_router 1001 = Some (PtrTo (Named ''Login''))"
    by (simp_all add: sample_router_def Register_def NewMsgRouter_def GetMsgID_def GetMsgType_def)
  then show ?thesis
    using router_consistent [OF sample_router_reachable, of "AnyPtr (Named ''Login'') (0 :: nat)" 1001 "Named ''Login''"
      "Named ''Chat''" "1 :: nat" "''chat''"] by simp
qed

end
