(* ===== verification/Codec.thy ===== *)
theory Codec
  imports PacketHead LfStream Router
begin

text \<open>
  Messages (src/kknet/kkpacket/packet_message.go), the encoding and decoding of whole packets
  (src/kknet/kkpacket/codec.go, the \<open>msgMeta\<close> of meta.go) and the body codecs they call
  (src/utils/kkcodec/json and proto).  The serialisers themselves (sonic, protobuf) are not in
  the repository: they are arguments of the model.  \<open>pooled n\<close> is the memory
  \<open>kkbuffer.GetWithCapacity(n)\<close> hands out; releasing a buffer to the pool has no effect on the
  values the functions return and is left out.
\<close>

subsection \<open>Body codecs\<close>

text \<open>
  The destination given to \<open>Unmarshal\<close>: a pointer \<open>*T\<close>, or a pointer to an interface variable
  that holds a \<open>*T\<close> (the \<open>&v\<close> of \<open>DecodePacket\<close>, where \<open>v\<close> has type \<open>any\<close>).
\<close>

datatype dest = Direct gotype | ViaInterface gotype

record 'p body_codec =
  bc_MarshalAppend :: "'p any \<Rightarrow> nat \<Rightarrow> (kkerror + byte list) go"
  bc_Unmarshal :: "byte list \<Rightarrow> dest \<Rightarrow> kkerror + 'p"

text \<open>The JSON codec: \<open>sonic.Marshal\<close> and \<open>sonic.Unmarshal\<close> decode through an interface as well.\<close>

definition Json_MarshalAppend ::
  "('p any \<Rightarrow> kkerror + byte list) \<Rightarrow> (nat \<Rightarrow> byte list) \<Rightarrow> 'p any \<Rightarrow> nat \<Rightarrow> (kkerror + byte list) go" where
  "Json_MarshalAppend sonicMarshal pooled v offset =
     (case sonicMarshal v of
        Inl err \<Rightarrow> ret (Inl err)
      | Inr bytes \<Rightarrow> do {
          let realLen = length bytes + offset;
          B \<leftarrow> slice_go (pooled realLen) 0 realLen;
          B \<leftarrow> copy_go B offset bytes;
          ret (Inr B)
        })"

definition Json_Unmarshal :: "(byte list \<Rightarrow> gotype \<Rightarrow> kkerror + 'p) \<Rightarrow> byte list \<Rightarrow> dest \<Rightarrow> kkerror + 'p" where
  "Json_Unmarshal sonicUnmarshal data v =
     (case v of Direct t \<Rightarrow> sonicUnmarshal data t | ViaInterface t \<Rightarrow> sonicUnmarshal data t)"

definition json_codec ::
  "('p any \<Rightarrow> kkerror + byte list) \<Rightarrow> (byte list \<Rightarrow> gotype \<Rightarrow> kkerror + 'p) \<Rightarrow> (nat \<Rightarrow> byte list) \<Rightarrow> 'p body_codec" where
  "json_codec sonicMarshal sonicUnmarshal pooled =
     \<lparr>bc_MarshalAppend = Json_MarshalAppend sonicMarshal pooled,
      bc_Unmarshal = Json_Unmarshal sonicUnmarshal\<rparr>"

text \<open>
  The protobuf codec asserts that its argument is a \<open>proto.Message\<close>: generated types \<open>*T\<close> are
  (\<open>isMessage T\<close>), a pointer to an interface variable never is.  \<open>MarshalAppend\<close> appends to the
  pooled buffer in place, which has room, and the result is cut from that buffer.
\<close>

definition Proto_MarshalAppend ::
  "(gotype \<Rightarrow> bool) \<Rightarrow> ('p any \<Rightarrow> nat) \<Rightarrow> ('p any \<Rightarrow> kkerror + byte list) \<Rightarrow> (nat \<Rightarrow> byte list) \<Rightarrow>
   'p any \<Rightarrow> nat \<Rightarrow> (kkerror + byte list) go" where
  "Proto_MarshalAppend isMessage protoSize protoMarshal pooled v offset =
     (case v of
        AnyPtr t _ \<Rightarrow>
          if \<not> isMessage t then ret (Inl ErrCodecCannotUnmarshalToProtoMessage)
          else do {
            let mem = pooled (protoSize v + offset + 64);
            reserved \<leftarrow> slice_go mem 0 offset;
            case protoMarshal v of
              Inl err \<Rightarrow> ret (Inl err)
            | Inr bytes \<Rightarrow> do {
                let mem = (if offset + length bytes \<le> length mem then copy_at mem offset bytes else mem);
                B \<leftarrow> slice_go mem 0 (length (reserved @ bytes));
                ret (Inr B)
              }
          }
      | _ \<Rightarrow> ret (Inl ErrCodecCannotUnmarshalToProtoMessage))"

definition Proto_Unmarshal ::
  "(gotype \<Rightarrow> bool) \<Rightarrow> (byte list \<Rightarrow> gotype \<Rightarrow> kkerror + 'p) \<Rightarrow> byte list \<Rightarrow> dest \<Rightarrow> kkerror + 'p" where
  "Proto_Unmarshal isMessage protoUnmarshal data v =
     (case v of
        Direct t \<Rightarrow> if isMessage t then protoUnmarshal data t else Inl ErrCodecCannotUnmarshalToProtoMessage
      | ViaInterface t \<Rightarrow> Inl ErrCodecCannotUnmarshalToProtoMessage)"

definition proto_codec ::
  "(gotype \<Rightarrow> bool) \<Rightarrow> ('p any \<Rightarrow> nat) \<Rightarrow> ('p any \<Rightarrow> kkerror + byte list) \<Rightarrow>
   (byte list \<Rightarrow> gotype \<Rightarrow> kkerror + 'p) \<Rightarrow> (nat \<Rightarrow> byte list) \<Rightarrow> 'p body_codec" where
  "proto_codec isMessage protoSize protoMarshal protoUnmarshal pooled =
     \<lparr>bc_MarshalAppend = Proto_MarshalAppend isMessage protoSize protoMarshal pooled,
      bc_Unmarshal = Proto_Unmarshal isMessage protoUnmarshal\<rparr>"

subsection \<open>The message \<open>[head, body]\<close>\<close>

record 'p MessagePacket =
  mp_head :: PacketHead
  mp_bodyCodec :: "'p body_codec"
  mp_router :: MsgRouter

definition NewMessagePacket ::
  "PacketHead option \<Rightarrow> 'p body_codec option \<Rightarrow> MsgRouter option \<Rightarrow> 'p MessagePacket go" where
  "NewMessagePacket head bodyCodec router = do {
     h \<leftarrow> head; c \<leftarrow> bodyCodec; r \<leftarrow> router;
     ret \<lparr>mp_head = h, mp_bodyCodec = c, mp_router = r\<rparr>
   }"

definition HeadBytes :: "'p MessagePacket \<Rightarrow> byte list \<Rightarrow> kkerror + byte list" where
  "HeadBytes p messageBytes =
     (if length messageBytes < PacketHead_GetSize (mp_head p) then Inl ErrPktDataTooShortToDecode
      else Inr (take (PacketHead_GetSize (mp_head p)) messageBytes))"

definition BodyBytes :: "'p MessagePacket \<Rightarrow> byte list \<Rightarrow> kkerror + byte list" where
  "BodyBytes p messageBytes =
     (if length messageBytes < PacketHead_GetSize (mp_head p) then Inl ErrPktDataTooShortToDecode
      else Inr (drop (PacketHead_GetSize (mp_head p)) messageBytes))"

text \<open>\<open>MSGID(msgID)\<close> keeps the low 32 bits of the \<open>int\<close>.\<close>

definition MessagePacket_GetMsgID :: "'p MessagePacket \<Rightarrow> byte list \<Rightarrow> byte list \<Rightarrow> (kkerror + msgid) go" where
  "MessagePacket_GetMsgID p messageBytes spare = do {
     r \<leftarrow> ReadValueByName (mp_head p) messageBytes spare PartNameMsgID;
     ret (case r of Inl err \<Rightarrow> Inl err | Inr v \<Rightarrow> Inr (ucast v))
   }"

definition HeadValues :: "'p MessagePacket \<Rightarrow> byte list \<Rightarrow> goint list \<Rightarrow> (goint list \<times> kkerror option) go" where
  "HeadValues p messageBytes valueList =
     (if PacketHead_GetPartCount (mp_head p) \<le> 0 then ret ([], None)
      else case HeadBytes p messageBytes of
        Inl err \<Rightarrow> ret ([], Some err)
      | Inr headBytes \<Rightarrow> PacketHead_UnmarshalTo (mp_head p) headBytes valueList)"

subsection \<open>Whole packets\<close>

text \<open>
  \<open>stream.MessageBytes(bb.B)\<close> and \<open>HeadBytes\<close> are slices of \<open>bb.B\<close>, so marshalling the head
  writes into it after the length field.
\<close>

definition EncodeStream :: "'p any \<Rightarrow> LengthFieldStreamPacket \<Rightarrow> 'p MessagePacket \<Rightarrow> (kkerror + byte list) go" where
  "EncodeStream v stream mp =
     (let msgID = GetMsgID (mp_router mp) v in
      if msgID = 0 then ret (Inl ErrPktMsgTypeNotRegistered)
      else let lfbCount = lf_lfbCount stream; headSize = PacketHead_GetSize (mp_head mp) in do {
        m \<leftarrow> bc_MarshalAppend (mp_bodyCodec mp) v (lfbCount + headSize);
        case m of
          Inl err \<Rightarrow> ret (Inl ErrPktEncodeFailed)
        | Inr B \<Rightarrow>
            (case WriteMessageSize stream B (int (length B) - int lfbCount) of
               (B, Some err) \<Rightarrow> ret (Inl err)
             | (B, None) \<Rightarrow>
                 (case MessageBytes stream B of
                    Inl err \<Rightarrow> ret (Inl err)
                  | Inr messageBytes \<Rightarrow>
                      (case HeadBytes mp messageBytes of
                         Inl err \<Rightarrow> ret (Inl err)
                       | Inr headBytes \<Rightarrow> do {
                           (hb, err) \<leftarrow> PacketHead_Marshal (mp_head mp) headBytes [ucast msgID];
                           case err of
                             Some er \<Rightarrow> ret (Inl er)
                           | None \<Rightarrow> ret (Inr (copy_at B lfbCount hb))
                         })))
      })"

text \<open>\<open>spare\<close>: what follows the packet in its array, up to its capacity.\<close>

definition DecodePacket ::
  "byte list \<Rightarrow> byte list \<Rightarrow> LengthFieldStreamPacket \<Rightarrow> 'p MessagePacket \<Rightarrow> (kkerror + 'p any) go" where
  "DecodePacket packet spare stream mp =
     (case MessageBytes stream packet of
        Inl err \<Rightarrow> ret (Inl err)
      | Inr messageBytes \<Rightarrow>
          (case BodyBytes mp messageBytes of
             Inl err \<Rightarrow> ret (Inl err)
           | Inr bodyBytes \<Rightarrow> do {
               r \<leftarrow> MessagePacket_GetMsgID mp messageBytes spare;
               case r of
                 Inl err \<Rightarrow> ret (Inl err)
               | Inr msgId \<Rightarrow>
                   (case GetMsgType (mp_router mp) msgId of
                      None \<Rightarrow> ret (Inl ErrPktMsgTypeNotRegistered)
                    | Some (Named t) \<Rightarrow> panic \<comment> \<open>\<open>Elem\<close> of a type that is not a pointer\<close>
                    | Some (PtrTo t) \<Rightarrow>
                        ret (case bc_Unmarshal (mp_bodyCodec mp) bodyBytes (ViaInterface t) of
                               Inl err \<Rightarrow> Inl err
                             | Inr x \<Rightarrow> Inr (AnyPtr t x)))
             }))"

text \<open>\<open>msgMeta[T].DecodeStream\<close> gives the codec a \<open>*T\<close>; the buffer may be nil.\<close>

definition msgMeta_DecodeStream ::
  "byte list option \<Rightarrow> LengthFieldStreamPacket \<Rightarrow> 'p MessagePacket \<Rightarrow> gotype \<Rightarrow> kkerror + 'p" where
  "msgMeta_DecodeStream bb stream mp t =
     (case bb of
        None \<Rightarrow> Inl ErrPktInvalidMessage
      | Some B \<Rightarrow>
          (case MessageBytes stream B of
             Inl err \<Rightarrow> Inl err
           | Inr messageBytes \<Rightarrow>
               (case BodyBytes mp messageBytes of
                  Inl err \<Rightarrow> Inl err
                | Inr bodyBytes \<Rightarrow> bc_Unmarshal (mp_bodyCodec mp) bodyBytes (Direct t))))"

definition msgMeta_EncodeStream ::
  "'p any \<Rightarrow> LengthFieldStreamPacket \<Rightarrow> 'p MessagePacket \<Rightarrow> (kkerror + byte list) go" where
  "msgMeta_EncodeStream v stream mp =
     (if v = AnyNil then ret (Inl ErrPktInvalidMessage) else EncodeStream v stream mp)"

subsection \<open>What a codec must do\<close>

text \<open>
  The codec carries the value \<open>x\<close> of type \<open>t\<close> as the bytes \<open>body\<close>: \<open>MarshalAppend\<close> puts them
  after the reserved bytes, and \<open>Unmarshal\<close> into the destination \<open>d\<close> gives \<open>x\<close> back.
\<close>

definition codec_carries :: "'p body_codec \<Rightarrow> dest \<Rightarrow> gotype \<Rightarrow> 'p \<Rightarrow> byte list \<Rightarrow> bool" where
  "codec_carries c d t x body \<longleftrightarrow>
     (\<forall>off. \<exists>B. bc_MarshalAppend c (AnyPtr t x) off = ret (Inr B) \<and> off \<le> length B \<and> drop off B = body) \<and>
     bc_Unmarshal c body d = Inr x"

text \<open>
  Less than that: whatever the number of reserved bytes, \<open>MarshalAppend\<close> either fails with the
  same error or puts the same bytes after them (\<open>m\<close>).  Both codecs of the repository do.
\<close>

definition codec_writes :: "'p body_codec \<Rightarrow> 'p any \<Rightarrow> kkerror + byte list \<Rightarrow> bool" where
  "codec_writes c v m \<longleftrightarrow>
     (\<forall>off. case m of
        Inl err \<Rightarrow> bc_MarshalAppend c v off = ret (Inl err)
      | Inr body \<Rightarrow> \<exists>B. bc_MarshalAppend c v off = ret (Inr B) \<and> off \<le> length B \<and> drop off B = body)"

lemma carries_writes: "codec_carries c d t x body \<Longrightarrow> codec_writes c (AnyPtr t x) (Inr body)"
  by (simp add: codec_carries_def codec_writes_def)

lemma json_writes:
  assumes "\<And>n. n \<le> length (pooled n)"
  shows "codec_writes (json_codec sonicMarshal sonicUnmarshal pooled) v (sonicMarshal v)"
proof -
  have "drop off (copy_at (sub_slice (pooled (length body + off)) 0 (length body + off)) off body) = body" for off body
    using assms [of "length body + off"] by (simp add: copy_at_def)
  then show ?thesis
    using assms by (auto simp: codec_writes_def json_codec_def Json_MarshalAppend_def go_simps Let_def split: sum.splits)
qed

lemma json_carries:
  assumes "sonicMarshal (AnyPtr t x) = Inr body" "sonicUnmarshal body t = Inr x"
    and "\<And>n. n \<le> length (pooled n)" "d \<in> {Direct t, ViaInterface t}"
  shows "codec_carries (json_codec sonicMarshal sonicUnmarshal pooled) d t x body"
proof -
  have "drop off (copy_at (sub_slice (pooled (length body + off)) 0 (length body + off)) off body) = body" for off
    using assms(3) [of "length body + off"] by (simp add: copy_at_def)
  then show ?thesis
    using assms by (auto simp: codec_carries_def json_codec_def Json_MarshalAppend_def Json_Unmarshal_def go_simps Let_def)
qed

lemma proto_carries:
  assumes "isMessage t" "protoMarshal (AnyPtr t x) = Inr body" "protoUnmarshal body t = Inr x"
    and "\<And>n. n \<le> length (pooled n)" "length body \<le> protoSize (AnyPtr t x)"
  shows "codec_carries (proto_codec isMessage protoSize protoMarshal protoUnmarshal pooled) (Direct t) t x body"
proof -
  have "bc_MarshalAppend (proto_codec isMessage protoSize protoMarshal protoUnmarshal pooled) (AnyPtr t x) off =
      ret (Inr (take off (pooled (protoSize (AnyPtr t x) + off + 64)) @ body))" for off
    using assms(1,2,5) assms(4) [of "protoSize (AnyPtr t x) + off + 64"]
    by (simp add: proto_codec_def Proto_MarshalAppend_def go_simps Let_def slice_from_start min_absorb2 copy_at_def)
  moreover have "off \<le> length (pooled (protoSize (AnyPtr t x) + off + 64))" for off
    using assms(4) [of "protoSize (AnyPtr t x) + off + 64"] by simp
  ultimately show ?thesis
    using assms(1,3) by (auto simp: codec_carries_def proto_codec_def Proto_Unmarshal_def min_absorb2)
qed

lemma proto_writes:
  assumes "isMessage t" "\<And>n. n \<le> length (pooled n)"
    and "\<And>body. protoMarshal (AnyPtr t x) = Inr body \<Longrightarrow> length body \<le> protoSize (AnyPtr t x)"
  shows "codec_writes (proto_codec isMessage protoSize protoMarshal protoUnmarshal pooled) (AnyPtr t x) (protoMarshal (AnyPtr t x))"
proof (cases "protoMarshal (AnyPtr t x)")
  case (Inl err)
  have "off \<le> length (pooled (protoSize (AnyPtr t x) + off + 64))" for off
    using assms(2) [of "protoSize (AnyPtr t x) + off + 64"] by simp
  then show ?thesis
    using assms(1) Inl by (simp add: codec_writes_def proto_codec_def Proto_MarshalAppend_def go_simps Let_def)
next
  case (Inr body)
  then have "codec_carries (proto_codec isMessage protoSize protoMarshal (\<lambda>_ _. Inr x) pooled) (Direct t) t x body"
    using assms by (intro proto_carries) auto
  then show ?thesis
    using Inr by (simp add: codec_carries_def codec_writes_def proto_codec_def)
qed

subsection \<open>Packets with a one-part head\<close>

text \<open>A message packet whose head is the message id alone, as \<open>NewPacketHead\<close> builds it.\<close>

definition single_head :: "head_part \<Rightarrow> byte_order \<Rightarrow> PacketHead" where
  "single_head p e = \<lparr>ph_partList = [p], ph_nameMap = [PartNameMsgID \<mapsto> 0], ph_size = part_GetSize p, ph_endian = e\<rparr>"

lemma single_head_New: "NewPacketHead e [p] = ret (single_head p e)"
  by (simp add: NewPacketHead_def single_head_def maxHeadPathCount_def)

lemma ucast_msgid [simp]: "ucast (ucast (i :: msgid) :: goint) = i"
proof -
  have "unat i < 2 ^ 64" using unsigned_less [of i, where ?'a = nat] by simp
  then have "take_bit 64 (unat i) = unat i" by (rule take_bit_nat_eq_self)
  then show ?thesis by (simp add: word_unat_eq_iff unsigned_take_bit_eq unsigned_ucast_eq)
qed

text \<open>The bytes of the head that carries the id \<open>i\<close>.\<close>

definition head_bytes :: "head_part \<Rightarrow> byte_order \<Rightarrow> msgid \<Rightarrow> byte list" where
  "head_bytes p e i = fst (part_Marshal p (replicate (part_GetSize p) 0) e (ucast i))"

lemma part_Marshal_contents:
  assumes "length d = part_GetSize p"
  shows "part_Marshal p d e v = (case part_Marshal p (replicate (part_GetSize p) 0) e v of
           (d', None) \<Rightarrow> (d', None) | (_, Some er) \<Rightarrow> (d, Some er))"
proof (cases p)
  case PartUint8
  with assms obtain b where "d = [b]" by (cases d) auto
  with PartUint8 show ?thesis by (simp add: part_ops_defs)
qed (use assms in \<open>auto simp: part_ops_defs copy_at_whole order.length_put\<close>)

lemma length_head_bytes [simp]: "length (head_bytes p e i) = part_GetSize p"
  by (simp add: head_bytes_def)

lemma single_head_Marshal:
  assumes "length d = part_GetSize p" "part_fits p (ucast i)"
  shows "PacketHead_Marshal (single_head p e) d [ucast i] = ret (head_bytes p e i, None)"
proof -
  have "part_Marshal p d e (ucast i) = (head_bytes p e i, None)"
    using part_Marshal_contents [OF assms(1), of e "ucast i"] parts.mar_ok [of "replicate (part_GetSize p) 0" p "ucast i" e]
      assms(2) by (simp add: head_bytes_def split: prod.splits)
  then show ?thesis
    using assms(1) by (simp add: PacketHead_Marshal_def single_head_def go_simps copy_at_whole flip: assms(1))
qed

lemma single_head_Read:
  assumes "part_fits p (ucast i)"
  shows "ReadValueByName (single_head p e) (head_bytes p e i @ body) spare PartNameMsgID = ret (Inr (ucast i))"
  using parts.un_mar [of "replicate (part_GetSize p) 0" p "ucast i" e] assms
  by (simp add: ReadValueByName_def single_head_def go_simps Let_def slice_from_start head_bytes_def)

text \<open>
  After the codec has written the body, only the head is left to do: \<open>EncodeStream\<close> marshals
  the id into the bytes \<open>d\<close> that were reserved for it.
\<close>

lemma EncodeStream_head:
  assumes "valid_stream stream" "GetMsgID (mp_router mp) v = i" "i \<noteq> 0"
    and "codec_writes (mp_bodyCodec mp) v (Inr body)"
  obtains d where "length d = ph_size (mp_head mp)"
    and "EncodeStream v stream mp = do {
           (hb, err) \<leftarrow> PacketHead_Marshal (mp_head mp) d [ucast i];
           case err of
             Some er \<Rightarrow> ret (Inl er)
           | None \<Rightarrow> ret (Inr (copy_at (wire stream (d @ body)) (lf_lfbCount stream) hb))
         }"
proof -
  let ?lfb = "lf_lfbCount stream" and ?hs = "ph_size (mp_head mp)"
  from assms(4) obtain B where B: "bc_MarshalAppend (mp_bodyCodec mp) v (?lfb + ?hs) = ret (Inr B)"
    "?lfb + ?hs \<le> length B" "drop (?lfb + ?hs) B = body"
    by (auto simp: codec_writes_def)
  define d where "d = take ?hs (drop ?lfb B)"
  have "drop ?hs (drop ?lfb B) = body"
    using B(3) by (simp add: add.commute)
  then have "drop ?lfb B = d @ body"
    unfolding d_def by (metis append_take_drop_id)
  moreover have "length d = ?hs"
    using B(2) by (simp add: d_def)
  ultimately have d: "length d = ?hs" "drop ?lfb B = d @ body" by simp_all
  then have lB: "int (length B) - int ?lfb = int (?hs + length body)"
    using B(2) by (metis add_leD1 length_append length_drop of_nat_diff)
  have w: "WriteMessageSize stream B (int (length B) - int ?lfb) = (wire stream (d @ body), None)"
    using assms(1) B(2) d order.put_mod [of "lf_endian stream" 4 "?hs + length body"]
      order.put_mod [of "lf_endian stream" 2 "?hs + length body"]
    unfolding lB
    by (auto simp: WriteMessageSize_def valid_stream_def copy_at_def order.length_put nat_mod_distrib wire_def simp del: of_nat_add)
      (simp add: numeral_2_eq_2)
  have s: "PacketHead_GetSize (mp_head mp) = ?hs" by (simp add: PacketHead_GetSize_def)
  have m: "MessageBytes stream (wire stream (d @ body)) = Inr (d @ body)"
    by (simp add: MessageBytes_def wire_def order.length_put)
  have h: "HeadBytes mp (d @ body) = Inr d"
    using d by (simp add: HeadBytes_def s)
  show ?thesis
    by (rule that [OF d(1)]) (simp add: EncodeStream_def Let_def assms(2,3) B(1) s w m h)
qed

lemma EncodeStream_eq:
  assumes "valid_stream stream" "mp_head mp = single_head p e"
    and "GetMsgID (mp_router mp) (AnyPtr t x) = i" "i \<noteq> 0" "part_fits p (ucast i)"
    and "codec_carries (mp_bodyCodec mp) d t x body"
  shows "EncodeStream (AnyPtr t x) stream mp =
    ret (Inr (put_uint (lf_endian stream) (lf_lfbCount stream) (part_GetSize p + length body) @ head_bytes p e i @ body))"
proof -
  from EncodeStream_head [OF assms(1,3,4) carries_writes [OF assms(6)]] obtain d where
    d: "length d = part_GetSize p" and eq: "EncodeStream (AnyPtr t x) stream mp = do {
           (hb, err) \<leftarrow> PacketHead_Marshal (single_head p e) d [ucast i];
           case err of
             Some er \<Rightarrow> ret (Inl er)
           | None \<Rightarrow> ret (Inr (copy_at (wire stream (d @ body)) (lf_lfbCount stream) hb))
         }"
    unfolding assms(2) by (metis PacketHead.select_convs(3) single_head_def)
  show ?thesis
    unfolding eq by (simp add: single_head_Marshal [OF d assms(5)] wire_def copy_at_def order.length_put d)
qed

lemma decode_steps:
  assumes "mp_head mp = single_head p e" "part_fits p (ucast i)"
    and B: "B = put_uint (lf_endian stream) (lf_lfbCount stream) n @ head_bytes p e i @ body"
  shows "MessageBytes stream B = Inr (head_bytes p e i @ body)"
    and "BodyBytes mp (head_bytes p e i @ body) = Inr body"
    and "MessagePacket_GetMsgID mp (head_bytes p e i @ body) spare = ret (Inr i)"
  using assms single_head_Read [of p i e body spare]
  by (simp_all add: MessageBytes_def BodyBytes_def MessagePacket_GetMsgID_def PacketHead_GetSize_def
      single_head_def order.length_put)

subsection \<open>Properties of encoding and decoding\<close>

text \<open>
  The id a part carries when it is given the id \<open>i\<close>: one byte refuses what does not fit, two bytes
  keep the low 16 bits without a check.
\<close>

definition head_id :: "head_part \<Rightarrow> msgid \<Rightarrow> msgid option" where
  "head_id p i =
     (case p of
        PartUint8 \<Rightarrow> (if unat i < 256 then Some i else None)
      | PartUint16 \<Rightarrow> Some (take_bit 16 i)
      | _ \<Rightarrow> Some i)"

lemma unat_msgid [simp]: "unat (ucast (i :: msgid) :: goint) = unat i"
proof -
  have "unat i < 2 ^ 64" using unsigned_less [of i, where ?'a = nat] by simp
  then have "take_bit 64 (unat i) = unat i" by (rule take_bit_nat_eq_self)
  then show ?thesis by (simp add: unsigned_ucast_eq unsigned_take_bit_eq)
qed

lemma head_id_fits: "part_fits p (ucast i) \<Longrightarrow> head_id p i = Some i"
  using take_bit_nat_eq_self [of "unat i" 16]
  by (cases p) (auto simp: head_id_def word_unat_eq_iff unsigned_take_bit_eq)

lemma fits_head_id: "head_id p i = Some j \<Longrightarrow> part_fits p (ucast j)"
  using unsigned_less [of i, where ?'a = nat] take_bit_nat_less_exp [of 16 "unat i"]
  by (cases p) (auto simp: head_id_def unsigned_take_bit_eq split: if_splits)

lemma ucast16_take: "(ucast (ucast (take_bit 16 (i :: msgid) :: msgid) :: goint) :: 16 word) = ucast (ucast i :: goint)"
  by (rule bit_word_eqI) (simp add: bit_simps)

lemma head_id_Marshal:
  assumes "length d = part_GetSize p"
  shows "part_Marshal p d e (ucast (i :: msgid)) = (case head_id p i of
           None \<Rightarrow> (d, Some ErrPktValueOutOfRange) | Some j \<Rightarrow> (head_bytes p e j, None))"
proof (cases "head_id p i")
  case None
  then have "p = PartUint8" "256 \<le> unat i" by (auto simp: head_id_def split: head_part.splits if_splits)
  then show ?thesis using assms None byte_range_check [of "ucast i"] by (simp add: part_ops_defs)
next
  case (Some j)
  have "part_Marshal p d e (ucast i) = part_Marshal p d e (ucast j)"
    using Some by (cases p) (auto simp: head_id_def part_ops_defs ucast16_take split: if_splits)
  moreover have "part_Marshal p d e (ucast j) = (head_bytes p e j, None)"
    using part_Marshal_contents [OF assms(1), of e "ucast j"]
      parts.mar_ok [of "replicate (part_GetSize p) 0" p "ucast j" e] fits_head_id [OF Some]
    by (simp add: head_bytes_def split: prod.splits)
  ultimately show ?thesis using Some by simp
qed

lemma reachable_router_pointers: "router_reachable r \<Longrightarrow> idToType r i = Some u \<Longrightarrow> \<exists>t. u = PtrTo t"
proof (induction arbitrary: i u rule: router_reachable.induct)
  case (register r j msgPtr route)
  then show ?case
    by (cases msgPtr) (auto simp: Register_def split: if_splits gotype.splits)
qed (simp add: NewMsgRouter_def)

lemma one_part_head:
  assumes "wf_head h" "ph_partList h = [p]" "ph_nameMap h PartNameMsgID \<noteq> None"
  shows "ReadValueByName h (head_bytes p (ph_endian h) j @ body) spare PartNameMsgID =
         ReadValueByName (single_head p (ph_endian h)) (head_bytes p (ph_endian h) j @ body) spare PartNameMsgID"
proof -
  obtain idx where "ph_nameMap h PartNameMsgID = Some idx" using assms(3) by blast
  moreover from this have "idx = 0" using assms(1,2) by (auto simp: wf_head_def ran_def)
  ultimately show ?thesis using assms(2) by (simp add: ReadValueByName_def single_head_def)
qed

lemma decode_one_part:
  assumes "valid_stream stream" "wf_head (mp_head mp)" "ph_partList (mp_head mp) = [p]"
    and "router_reachable (mp_router mp)" "head_id p i = Some j"
    and B: "B = wire stream (head_bytes p (ph_endian (mp_head mp)) j @ body)"
  shows "DecodePacket B spare stream mp =
      ret (if ph_nameMap (mp_head mp) PartNameMsgID = None then Inl ErrPktHeadPartNameNotFound
           else case GetMsgType (mp_router mp) j of
             Some (PtrTo u) \<Rightarrow> (case bc_Unmarshal (mp_bodyCodec mp) body (ViaInterface u) of
                                 Inl err \<Rightarrow> Inl err | Inr y \<Rightarrow> Inr (AnyPtr u y))
           | _ \<Rightarrow> Inl ErrPktMsgTypeNotRegistered)" (is ?decode)
    and "msgMeta_DecodeStream (Some B) stream mp t = bc_Unmarshal (mp_bodyCodec mp) body (Direct t)" (is ?meta)
proof -
  let ?e = "ph_endian (mp_head mp)"
  have s: "ph_size (mp_head mp) = part_GetSize p"
    using assms(2,3) by (simp add: wf_head_def)
  have m: "MessageBytes stream B = Inr (head_bytes p ?e j @ body)"
    by (simp add: B MessageBytes_def wire_def order.length_put)
  have b: "BodyBytes mp (head_bytes p ?e j @ body) = Inr body"
    by (simp add: BodyBytes_def PacketHead_GetSize_def s)
  have i: "MessagePacket_GetMsgID mp (head_bytes p ?e j @ body) spare =
      ret (if ph_nameMap (mp_head mp) PartNameMsgID = None then Inl ErrPktHeadPartNameNotFound else Inr j)"
  proof (cases "ph_nameMap (mp_head mp) PartNameMsgID = None")
    case True
    then show ?thesis by (simp add: MessagePacket_GetMsgID_def ReadValueByName_def)
  next
    case False
    then show ?thesis
      by (simp add: MessagePacket_GetMsgID_def one_part_head [OF assms(2,3)] single_head_Read [OF fits_head_id [OF assms(5)]])
  qed
  show ?decode
    using reachable_router_pointers [OF assms(4), of j]
    by (cases "GetMsgType (mp_router mp) j") (auto simp: DecodePacket_def m b i GetMsgType_def)
  show ?meta by (simp add: msgMeta_DecodeStream_def m b)
qed

lemma PacketHead_Marshal_id:
  assumes "wf_head h" "length d = ph_size h"
  shows "PacketHead_Marshal h d [ucast (i :: msgid)] = ret
    (case ph_partList h of
       [] \<Rightarrow> (d, None)
     | [p] \<Rightarrow> (case head_id p i of
                None \<Rightarrow> (d, Some ErrPktValueOutOfRange) | Some j \<Rightarrow> (head_bytes p (ph_endian h) j, None))
     | _ \<Rightarrow> (d, Some ErrPktValueListTooShortToMarshal))"
proof (cases "\<exists>p. ph_partList h = [p]")
  case True
  then obtain p where p: "ph_partList h = [p]" by blast
  then have l: "length d = part_GetSize p" using assms by (simp add: wf_head_def)
  then have "sub_slice d 0 (part_GetSize p) = d" by (simp add: sub_slice_def)
  then show ?thesis
    using assms(2) p l
    by (simp add: PacketHead_Marshal_def go_simps head_id_Marshal copy_at_whole split: option.splits)
next
  case False
  then show ?thesis
    using assms(2) by (cases "ph_partList h"; cases "tl (ph_partList h)") (auto simp: PacketHead_Marshal_def)
qed

lemma EncodeStream_cases:
  assumes "valid_stream stream" "wf_head (mp_head mp)"
    and "codec_writes (mp_bodyCodec mp) v m" "GetMsgID (mp_router mp) v = i"
  shows "EncodeStream v stream mp = ret
      (if i = 0 then Inl ErrPktMsgTypeNotRegistered
       else case m of
         Inl _ \<Rightarrow> Inl ErrPktEncodeFailed
       | Inr body \<Rightarrow> (case ph_partList (mp_head mp) of
           [] \<Rightarrow> Inr (wire stream body)
         | [p] \<Rightarrow> (case head_id p i of
                    None \<Rightarrow> Inl ErrPktValueOutOfRange
                  | Some j \<Rightarrow> Inr (wire stream (head_bytes p (ph_endian (mp_head mp)) j @ body)))
         | _ \<Rightarrow> Inl ErrPktValueListTooShortToMarshal))"
proof (cases "i = 0 \<or> (\<exists>err. m = Inl err)")
  case True
  then show ?thesis using assms(3,4) by (auto simp: EncodeStream_def codec_writes_def Let_def)
next
  case False
  then obtain body where m: "m = Inr body" and i: "i \<noteq> 0" by (cases m) auto
  from EncodeStream_head [OF assms(1,4) i assms(3) [unfolded m]] obtain d where
    d: "length d = ph_size (mp_head mp)" and eq: "EncodeStream v stream mp = do {
           (hb, err) \<leftarrow> PacketHead_Marshal (mp_head mp) d [ucast i];
           case err of
             Some er \<Rightarrow> ret (Inl er)
           | None \<Rightarrow> ret (Inr (copy_at (wire stream (d @ body)) (lf_lfbCount stream) hb))
         }" by blast
  have c: "copy_at (wire stream (d @ body)) (lf_lfbCount stream) hb = wire stream (hb @ body)" if "length hb = length d" for hb
    using that by (simp add: wire_def copy_at_def order.length_put)
  have s: "ph_partList (mp_head mp) = [p] \<Longrightarrow> length d = part_GetSize p" for p
    using d assms(2) by (simp add: wf_head_def)
  have z: "ph_partList (mp_head mp) = [] \<Longrightarrow> d = []"
    using d assms(2) by (simp add: wf_head_def)
  show ?thesis
    unfolding eq PacketHead_Marshal_id [OF assms(2) d]
    using i m c s z by (auto split: list.splits option.splits)
qed

lemma DecodePacket_no_parts:
  assumes "wf_head (mp_head mp)" "ph_partList (mp_head mp) = []"
  shows "DecodePacket (wire stream body) spare stream mp = ret (Inl ErrPktHeadPartNameNotFound)"
proof -
  have "ph_nameMap (mp_head mp) PartNameMsgID = None"
    using assms by (cases "ph_nameMap (mp_head mp) PartNameMsgID") (auto simp: wf_head_def ran_def)
  moreover have "ph_size (mp_head mp) = 0" using assms by (simp add: wf_head_def)
  ultimately show ?thesis
    by (simp add: DecodePacket_def MessageBytes_def wire_def order.length_put BodyBytes_def PacketHead_GetSize_def
        MessagePacket_GetMsgID_def ReadValueByName_def)
qed

lemma CheckPacket_wire:
  assumes "valid_stream stream"
  shows "CheckPacket stream (wire stream m) =
    (if length (wire stream m) \<le> lf_maxPacketSize stream then None else Some ErrPktMaxMessageSize)"
  using ReadMessageSize_wire [OF assms, of m "[]"] by (simp add: CheckPacket_def)

text \<open>
  C6: what becomes of a message \<open>x\<close> of type \<open>T\<close>, for every stream and head the constructors
  build, every router registration builds and every body codec whose \<open>MarshalAppend\<close> fails or writes
  the same bytes wherever it is told to.  \<open>EncodeStream\<close> fails when the type is not registered,
  when the codec fails, when the head has more than one part (it passes the id alone) and when a
  one-byte head cannot carry the id; otherwise the packet is the length, the id and the body.  \<open>DecodePacket\<close>
  on a packet with a one-part head, whatever follows it in memory, unmarshals these same bytes into the type registered
  for the id that the head carries, which is \<open>T\<close> for the id of \<open>x\<close>; a two-byte
  head carries only the low 16 bits of the id.  A head without a part named msgID is refused.
  \<open>msgMeta.DecodeStream\<close> unmarshals the same bytes into a \<open>*T\<close>, and \<open>CheckPacket\<close> accepts the
  packet unless it exceeds the maximum.
\<close>

theorem Encode_Decode:
  assumes "valid_stream stream" "wf_head (mp_head mp)" "router_reachable (mp_router mp)"
    and "codec_writes (mp_bodyCodec mp) (AnyPtr t x) m" "GetMsgID (mp_router mp) (AnyPtr t x) = i"
  shows "EncodeStream (AnyPtr t x) stream mp = ret
      (if i = 0 then Inl ErrPktMsgTypeNotRegistered
       else case m of
         Inl _ \<Rightarrow> Inl ErrPktEncodeFailed
       | Inr body \<Rightarrow> (case ph_partList (mp_head mp) of
           [] \<Rightarrow> Inr (wire stream body)
         | [p] \<Rightarrow> (case head_id p i of
                    None \<Rightarrow> Inl ErrPktValueOutOfRange
                  | Some j \<Rightarrow> Inr (wire stream (head_bytes p (ph_endian (mp_head mp)) j @ body)))
         | _ \<Rightarrow> Inl ErrPktValueListTooShortToMarshal)) \<and>
    (\<forall>p j body B spare. ph_partList (mp_head mp) = [p] \<longrightarrow> head_id p i = Some j \<longrightarrow>
       B = wire stream (head_bytes p (ph_endian (mp_head mp)) j @ body) \<longrightarrow>
       DecodePacket B spare stream mp = ret
         (if ph_nameMap (mp_head mp) PartNameMsgID = None then Inl ErrPktHeadPartNameNotFound
          else case GetMsgType (mp_router mp) j of
            Some (PtrTo u) \<Rightarrow> (case bc_Unmarshal (mp_bodyCodec mp) body (ViaInterface u) of
                                Inl err \<Rightarrow> Inl err | Inr y \<Rightarrow> Inr (AnyPtr u y))
          | _ \<Rightarrow> Inl ErrPktMsgTypeNotRegistered) \<and>
       msgMeta_DecodeStream (Some B) stream mp t = bc_Unmarshal (mp_bodyCodec mp) body (Direct t) \<and>
       CheckPacket stream B = (if length B \<le> lf_maxPacketSize stream then None else Some ErrPktMaxMessageSize)) \<and>
    (i \<noteq> 0 \<longrightarrow> GetMsgType (mp_router mp) i = Some (PtrTo t)) \<and>
    (\<forall>body spare. ph_partList (mp_head mp) = [] \<longrightarrow>
       DecodePacket (wire stream body) spare stream mp = ret (Inl ErrPktHeadPartNameNotFound))"
proof (intro conjI)
  let ?h = "mp_head mp"
  show "EncodeStream (AnyPtr t x) stream mp = ret
      (if i = 0 then Inl ErrPktMsgTypeNotRegistered
       else case m of
         Inl _ \<Rightarrow> Inl ErrPktEncodeFailed
       | Inr body \<Rightarrow> (case ph_partList (mp_head mp) of
           [] \<Rightarrow> Inr (wire stream body)
         | [p] \<Rightarrow> (case head_id p i of
                    None \<Rightarrow> Inl ErrPktValueOutOfRange
                  | Some j \<Rightarrow> Inr (wire stream (head_bytes p (ph_endian (mp_head mp)) j @ body)))
         | _ \<Rightarrow> Inl ErrPktValueListTooShortToMarshal))"
    by (rule EncodeStream_cases [OF assms(1,2,4,5)])
  show "i \<noteq> 0 \<longrightarrow> GetMsgType (mp_router mp) i = Some (PtrTo t)"
    using GetMsgID_typed [OF reachable_router_inv [OF assms(3)] assms(5)] by simp
  show "\<forall>body spare. ph_partList ?h = [] \<longrightarrow>
       DecodePacket (wire stream body) spare stream mp = ret (Inl ErrPktHeadPartNameNotFound)"
    using assms(2) by (auto simp: DecodePacket_no_parts)
qed (intro allI impI conjI, simp_all only: decode_one_part [OF assms(1,2) _ assms(3)] CheckPacket_wire [OF assms(1)])

text \<open>A text codec on one-byte payloads, for the witnesses.\<close>

definition byte_codec :: "byte body_codec" where
  "byte_codec = json_codec (\<lambda>v. case v of AnyPtr _ b \<Rightarrow> Inr [b] | _ \<Rightarrow> Inl (ErrOther 0))
     (\<lambda>bs _. case bs of [b] \<Rightarrow> Inr b | _ \<Rightarrow> Inl (ErrOther 1)) (\<lambda>n. replicate n 0)"

definition sample_message :: "byte MessagePacket" where
  "sample_message = \<lparr>mp_head = single_head PartUint16 BigEndian, mp_bodyCodec = byte_codec, mp_router = sample_router\<rparr>"

lemma byte_codec_carries: "codec_carries byte_codec (ViaInterface t) t b [b]"
  unfolding byte_codec_def by (rule json_carries) auto

lemma sample_id: "GetMsgID sample_router (AnyPtr (Named ''Login'') x) = 1001"
  by (simp add: sample_router_def GetMsgID_def Register_def NewMsgRouter_def)

lemma byte_codec_writes: "codec_writes byte_codec (AnyPtr t b) (Inr [b])"
  using carries_writes [OF byte_codec_carries] .

lemma sample_message_wf: "wf_head (mp_head sample_message)"
  by (simp add: sample_message_def single_head_def wf_head_def maxHeadPathCount_def)

lemma Encode_Decode_witness:
  "EncodeStream (AnyPtr (Named ''Login'') 7) sample_stream sample_message =
     ret (Inr (wire sample_stream (head_bytes PartUint16 BigEndian 1001 @ [7]))) \<and>
   DecodePacket (wire sample_stream (head_bytes PartUint16 BigEndian 1001 @ [7])) [] sample_stream sample_message =
     ret (Inr (AnyPtr (Named ''Login'') 7))"
proof -
  have h: "head_id PartUint16 1001 = Some 1001" by (simp add: head_id_def)
  have i: "GetMsgID (mp_router sample_message) (AnyPtr (Named ''Login'') 7) = 1001"
    by (simp add: sample_message_def sample_id)
  have "codec_writes (mp_bodyCodec sample_message) (AnyPtr (Named ''Login'') 7) (Inr [7])"
    by (simp add: sample_message_def byte_codec_writes)
  from Encode_Decode [OF sample_stream_valid sample_message_wf _ this i] show ?thesis
    using byte_codec_carries [of "Named ''Login''" 7] h
    by (simp add: sample_message_def sample_router_reachable single_head_def codec_carries_def)
qed

text \<open>
  \<open>EncodeStream\<close> does not enforce the maximum packet size: where \<open>Pack\<close> would refuse the
  message, it returns a packet without error, and the receiving side rejects it: \<open>CheckPacket\<close>
  answers \<open>ErrPktMaxMessageSize\<close>.
\<close>

theorem EncodeStream_oversize:
  assumes "valid_stream stream" "mp_head mp = single_head p e"
    and "GetMsgID (mp_router mp) (AnyPtr t x) = i" "i \<noteq> 0" "part_fits p (ucast i)"
    and "codec_carries (mp_bodyCodec mp) d t x body"
    and "lf_lfbCount stream + part_GetSize p + length body > lf_maxPacketSize stream"
    and "\<And>n. n \<le> length (pooled n)"
  shows "\<exists>B. EncodeStream (AnyPtr t x) stream mp = ret (Inr B) \<and>
    CheckPacket stream B = Some ErrPktMaxMessageSize \<and>
    Pack stream pooled (drop (lf_lfbCount stream) B) = ret (Inl ErrPktMaxMessageSize)"
  using EncodeStream_eq [OF assms(1-6)] Pack_eq [OF assms(1,8)] assms(1,7)
  by (auto simp: CheckPacket_def order.length_put valid_stream_def)

lemma EncodeStream_oversize_witness:
  "\<exists>B. EncodeStream (AnyPtr (Named ''Login'') 7) (sample_stream\<lparr>lf_maxPacketSize := 4\<rparr>) sample_message = ret (Inr B) \<and>
    CheckPacket (sample_stream\<lparr>lf_maxPacketSize := 4\<rparr>) B = Some ErrPktMaxMessageSize \<and>
    Pack (sample_stream\<lparr>lf_maxPacketSize := 4\<rparr>) (\<lambda>n. replicate n 0)
      (drop (lf_lfbCount (sample_stream\<lparr>lf_maxPacketSize := 4\<rparr>)) B) = ret (Inl ErrPktMaxMessageSize)"
  by (rule EncodeStream_oversize [where p = PartUint16 and e = BigEndian and i = 1001 and body = "[7]" and t = "Named ''Login''"
        and d = "ViaInterface (Named ''Login'')"])
    (simp_all add: sample_message_def sample_id byte_codec_carries sample_stream_def valid_stream_def)

text \<open>
  With the protobuf codec \<open>DecodePacket\<close> never succeeds, since it hands the codec a pointer
  to an interface variable, while \<open>msgMeta.DecodeStream\<close> on the same packet gives the value: the
  packet of a message the codec carries is rejected with
  \<open>ErrCodecCannotUnmarshalToProtoMessage\<close> by the one and decoded by the other.
\<close>

theorem proto_DecodePacket_fails:
  assumes "valid_stream stream" "mp_head mp = single_head p e" "router_inv (mp_router mp)"
    and "mp_bodyCodec mp = proto_codec isMessage protoSize protoMarshal protoUnmarshal pooled"
    and "GetMsgID (mp_router mp) (AnyPtr t x) = i" "i \<noteq> 0" "part_fits p (ucast i)"
    and "isMessage t" "protoMarshal (AnyPtr t x) = Inr body" "protoUnmarshal body t = Inr x"
    and "\<And>n. n \<le> length (pooled n)" "length body \<le> protoSize (AnyPtr t x)"
  shows "\<exists>B. msgMeta_EncodeStream (AnyPtr t x) stream mp = ret (Inr B) \<and>
    msgMeta_DecodeStream (Some B) stream mp t = Inr x \<and>
    DecodePacket B spare stream mp = ret (Inl ErrCodecCannotUnmarshalToProtoMessage)"
proof -
  have c: "codec_carries (mp_bodyCodec mp) (Direct t) t x body"
    unfolding assms(4) using assms(8-12) by (intro proto_carries) auto
  define B where "B = put_uint (lf_endian stream) (lf_lfbCount stream) (part_GetSize p + length body) @ head_bytes p e i @ body"
  have enc: "msgMeta_EncodeStream (AnyPtr t x) stream mp = ret (Inr B)"
    using EncodeStream_eq [OF assms(1,2,5-7) c] by (simp add: msgMeta_EncodeStream_def B_def)
  have ty: "GetMsgType (mp_router mp) i = Some (PtrTo t)"
    using GetMsgID_typed [OF assms(3,5,6)] by simp
  note d = decode_steps [OF assms(2,7) B_def]
  have "msgMeta_DecodeStream (Some B) stream mp t = Inr x"
    using c by (simp add: msgMeta_DecodeStream_def d codec_carries_def)
  moreover have "DecodePacket B spare stream mp = ret (Inl ErrCodecCannotUnmarshalToProtoMessage)"
    using ty by (simp add: DecodePacket_def d assms(4) proto_codec_def Proto_Unmarshal_def)
  ultimately show ?thesis using enc by blast
qed

definition proto_byte_codec :: "byte body_codec" where
  "proto_byte_codec = proto_codec (\<lambda>_. True) (\<lambda>_. 1)
     (\<lambda>v. case v of AnyPtr _ b \<Rightarrow> Inr [b] | _ \<Rightarrow> Inl (ErrOther 0))
     (\<lambda>bs _. case bs of [b] \<Rightarrow> Inr b | _ \<Rightarrow> Inl (ErrOther 1)) (\<lambda>n. replicate n 0)"

lemma proto_DecodePacket_fails_witness:
  "\<exists>B. msgMeta_EncodeStream (AnyPtr (Named ''Login'') 7) sample_stream (sample_message\<lparr>mp_bodyCodec := proto_byte_codec\<rparr>) = ret (Inr B) \<and>
    msgMeta_DecodeStream (Some B) sample_stream (sample_message\<lparr>mp_bodyCodec := proto_byte_codec\<rparr>) (Named ''Login'') = Inr 7 \<and>
    DecodePacket B [] sample_stream (sample_message\<lparr>mp_bodyCodec := proto_byte_codec\<rparr>) =
      ret (Inl ErrCodecCannotUnmarshalToProtoMessage)"
  by (rule proto_DecodePacket_fails [OF sample_stream_valid, where p = PartUint16 and e = BigEndian and i = 1001 and body = "[7]"
        and isMessage = "\<lambda>_. True" and protoSize = "\<lambda>_. 1" and pooled = "\<lambda>n. replicate n 0"
        and protoMarshal = "\<lambda>v. case v of AnyPtr _ b \<Rightarrow> Inr [b] | _ \<Rightarrow> Inl (ErrOther 0)"
        and protoUnmarshal = "\<lambda>bs _. case bs of [b] \<Rightarrow> Inr b | _ \<Rightarrow> Inl (ErrOther 1)"])
    (simp_all add: sample_message_def sample_id reachable_router_inv sample_router_reachable proto_byte_codec_def)

end
