(* ===== verification/BytePool.thy ===== *)
theory BytePool
  imports Prelude
begin

text \<open>
  The pool of byte slices (src/utils/buffers/byteslice/byteslice.go) over an explicit store of
  arrays, because its clients depend on which slices share an array.  An array has a number, a
  size and contents; a slice from the pool starts at the beginning of its array.  A
  \<open>sync.Pool\<close> keeps the arrays put into it, most recent first; its \<open>Get\<close> returns one of them or
  nothing, as \<open>pick\<close> decides, and a garbage collection may drop any of them.
\<close>

record store =
  st_bytes :: "nat \<Rightarrow> nat \<Rightarrow> byte"
  st_size :: "nat \<Rightarrow> nat"
  st_next :: nat
  st_pools :: "nat \<Rightarrow> nat list"
  st_totals :: "nat \<Rightarrow> int"

record gslice =
  gs_arr :: nat
  gs_len :: nat
  gs_cap :: nat

type_synonym picker = "nat list \<Rightarrow> nat option"

definition valid_picker :: "picker \<Rightarrow> bool" where
  "valid_picker pick \<longleftrightarrow> (\<forall>xs a. pick xs = Some a \<longrightarrow> a \<in> set xs)"

text \<open>\<open>make([]byte, n)\<close>: a new array of zeros.\<close>

definition alloc :: "store \<Rightarrow> nat \<Rightarrow> store \<times> nat" where
  "alloc st n =
     (st\<lparr>st_bytes := (st_bytes st)(st_next st := (\<lambda>_. 0)), st_size := (st_size st)(st_next st := n),
         st_next := Suc (st_next st)\<rparr>, st_next st)"

text \<open>The bytes of a slice.\<close>

definition read_bytes :: "store \<Rightarrow> nat \<Rightarrow> nat \<Rightarrow> nat \<Rightarrow> byte list" where
  "read_bytes st a start n = map (st_bytes st a) [start ..< start + n]"

definition write_bytes :: "store \<Rightarrow> nat \<Rightarrow> nat \<Rightarrow> byte list \<Rightarrow> store" where
  "write_bytes st a start bs =
     st\<lparr>st_bytes := (st_bytes st)(a := (\<lambda>i. if start \<le> i \<and> i < start + length bs then bs ! (i - start)
                                             else st_bytes st a i))\<rparr>"

subsection \<open>Size classes\<close>

function bit_len :: "nat \<Rightarrow> nat" where
  "bit_len n = (if n = 0 then 0 else Suc (bit_len (n div 2)))"
  by pat_completeness auto
termination
  by (relation "measure id") auto

declare bit_len.simps [simp del]

text \<open>\<open>index(n) = bits.Len32(n - 1)\<close> on \<open>uint32\<close>.\<close>

definition pool_index :: "nat \<Rightarrow> nat" where
  "pool_index n = bit_len (unat ((of_nat n :: 32 word) - 1))"

definition max_size :: nat where
  "max_size = 65536"

definition max_caps :: "nat \<Rightarrow> int" where
  "max_caps idx =
     (let m = 1024 * 1024;
          caps = [m, m, m, m, m * 2, m * 4, m * 8, m * 16, m * 20, m * 20, m * 20, m * 20, m * 20,
                  m * 10, m * 8, m * 8, m * 8, m, m, m, m]
      in if idx < length caps then caps ! idx else 0)"

subsection \<open>Get and Put\<close>

definition Pool_Get :: "picker \<Rightarrow> store \<Rightarrow> int \<Rightarrow> store \<times> gslice" where
  "Pool_Get pick st sz =
     (if sz \<le> 0 then
        (case alloc st 0 of (st, a) \<Rightarrow> (st, \<lparr>gs_arr = a, gs_len = 0, gs_cap = 0\<rparr>))
      else if sz > int max_size then
        (case alloc st (nat sz) of (st, a) \<Rightarrow> (st, \<lparr>gs_arr = a, gs_len = nat sz, gs_cap = nat sz\<rparr>))
      else let idx = pool_index (nat sz) in
        case pick (st_pools st idx) of
          None \<Rightarrow>
            (case alloc st (2 ^ idx) of (st, a) \<Rightarrow> (st, \<lparr>gs_arr = a, gs_len = nat sz, gs_cap = 2 ^ idx\<rparr>))
        | Some a \<Rightarrow>
            (st\<lparr>st_pools := (st_pools st)(idx := remove1 a (st_pools st idx)),
                st_totals := (if st_totals st idx > 0
                              then (st_totals st)(idx := st_totals st idx - int (2 ^ idx))
                              else st_totals st)\<rparr>,
             \<lparr>gs_arr = a, gs_len = nat sz, gs_cap = 2 ^ idx\<rparr>))"

text \<open>The class an array of capacity \<open>sz\<close> is kept in: every array of class \<open>idx\<close> has \<open>2 ^ idx\<close> bytes.\<close>

definition put_index :: "nat \<Rightarrow> nat" where
  "put_index sz = (let idx = pool_index sz in if sz \<noteq> 2 ^ idx then idx - 1 else idx)"

definition Pool_Put :: "store \<Rightarrow> gslice \<Rightarrow> store" where
  "Pool_Put st buf =
     (let sz = gs_cap buf in
      if sz < 1 \<or> sz > max_size then st
      else let idx = put_index sz;
               st = st\<lparr>st_totals := (st_totals st)(idx := st_totals st idx + int sz)\<rparr>
           in if st_totals st idx > max_caps idx then st
              else st\<lparr>st_pools := (st_pools st)(idx := gs_arr buf # st_pools st idx)\<rparr>)"

definition GetZero :: "picker \<Rightarrow> store \<Rightarrow> int \<Rightarrow> store \<times> gslice" where
  "GetZero pick st capacity = (case Pool_Get pick st capacity of (st, s) \<Rightarrow> (st, s\<lparr>gs_len := 0\<rparr>))"

text \<open>\<open>ret[:len]\<close> panics when \<open>len\<close> exceeds the capacity.\<close>

definition GetWithLenCap :: "picker \<Rightarrow> store \<Rightarrow> nat \<Rightarrow> int \<Rightarrow> (store \<times> gslice) go" where
  "GetWithLenCap pick st len capacity =
     (case Pool_Get pick st capacity of (st, s) \<Rightarrow>
        if len \<le> gs_cap s then ret (st, s\<lparr>gs_len := len\<rparr>) else panic)"

subsection \<open>Arithmetic of the size classes\<close>

lemma bit_len_upper: "n < 2 ^ bit_len n"
proof (induction n rule: bit_len.induct)
  case (1 n)
  then show ?case by (subst bit_len.simps) auto
qed

lemma bit_len_lower: "0 < n \<Longrightarrow> 2 ^ (bit_len n - 1) \<le> n"
proof (induction n rule: bit_len.induct)
  case (1 n)
  show ?case
  proof (cases "n div 2 = 0")
    case True
    then show ?thesis using "1.prems" by (simp add: bit_len.simps [of n] bit_len.simps [of 0])
  next
    case False
    then have "2 ^ (bit_len (n div 2) - 1) \<le> n div 2" using "1.IH" "1.prems" by simp
    moreover have "0 < bit_len (n div 2)" using False by (simp add: bit_len.simps [of "n div 2"])
    ultimately have "2 ^ bit_len (n div 2) \<le> 2 * (n div 2)"
      by (metis Suc_pred mult_le_mono2 power_Suc diff_Suc_1 One_nat_def)
    then show ?thesis using "1.prems" by (simp add: bit_len.simps [of n])
  qed
qed

lemma pool_index_eq: "0 < n \<Longrightarrow> n \<le> max_size \<Longrightarrow> pool_index n = bit_len (n - 1)"
proof -
  assume "0 < n" "n \<le> max_size"
  then have "unat ((of_nat n :: 32 word) - 1) = n - 1"
    by (simp add: max_size_def unat_sub_if' unat_of_nat take_bit_nat_eq_self word_le_nat_alt unat_eq_0 word_unat_eq_iff)
  then show ?thesis by (simp add: pool_index_def)
qed

lemma pool_index_fits: "0 < n \<Longrightarrow> n \<le> max_size \<Longrightarrow> n \<le> 2 ^ pool_index n"
  using bit_len_upper [of "n - 1"] by (simp add: pool_index_eq)

lemma put_index_fits:
  assumes "0 < n" "n \<le> max_size"
  shows "2 ^ put_index n \<le> n"
proof (cases "n = 2 ^ pool_index n")
  case True
  then show ?thesis by (simp add: put_index_def Let_def)
next
  case False
  have "n \<noteq> 1" using False assms by (auto simp: pool_index_eq bit_len.simps)
  then have "2 ^ (bit_len (n - 1) - 1) \<le> n - 1" using assms by (intro bit_len_lower) auto
  then show ?thesis using assms False by (simp add: put_index_def Let_def pool_index_eq)
qed

lemma pool_index_pow2:
  assumes k: "2 ^ k \<le> max_size"
  shows "pool_index (2 ^ k) = k"
proof (cases "k = 0")
    case True
    then show ?thesis by (simp add: pool_index_eq max_size_def bit_len.simps)
  next
    case False
    have u: "2 ^ k - 1 < (2 :: nat) ^ bit_len (2 ^ k - 1)" by (rule bit_len_upper)
    then have "2 ^ k \<le> (2 :: nat) ^ bit_len (2 ^ k - 1)" by linarith
    then have ge: "k \<le> bit_len (2 ^ k - 1)" by simp
    have "(1 :: nat) < 2 ^ k" using False by (metis one_less_power one_less_numeral_iff semiring_norm(76) neq0_conv)
    then have "(2 :: nat) ^ (bit_len (2 ^ k - 1) - 1) \<le> 2 ^ k - 1" by (intro bit_len_lower) simp
    then have "(2 :: nat) ^ (bit_len (2 ^ k - 1) - 1) < 2 ^ k" using \<open>1 < 2 ^ k\<close> by linarith
    then have "bit_len (2 ^ k - 1) - 1 < k" by simp
    with ge k show ?thesis by (simp add: pool_index_eq)
qed

lemma put_index_pow2: "2 ^ k \<le> max_size \<Longrightarrow> put_index (2 ^ k) = k"
  by (simp add: put_index_def pool_index_pow2)

subsection \<open>The pool and its users\<close>

text \<open>
  A state is the store and the slices handed out and not given back.  A user gets a slice, may
  reslice it and write through it, and puts back only slices it holds; the collector may drop
  pooled arrays at any time.
\<close>

definition empty_store :: store where
  "empty_store = \<lparr>st_bytes = (\<lambda>_ _. 0), st_size = (\<lambda>_. 0), st_next = 0, st_pools = (\<lambda>_. []), st_totals = (\<lambda>_. 0)\<rparr>"

inductive pool_step :: "store \<times> gslice set \<Rightarrow> store \<times> gslice set \<Rightarrow> bool" where
  step_get: "valid_picker pick \<Longrightarrow> Pool_Get pick st sz = (st', s) \<Longrightarrow> pool_step (st, own) (st', insert s own)"
| step_put: "s \<in> own \<Longrightarrow> pool_step (st, own) (Pool_Put st s, own - {s})"
| step_reslice: "s \<in> own \<Longrightarrow> n \<le> gs_cap s \<Longrightarrow> pool_step (st, own) (st, insert (s\<lparr>gs_len := n\<rparr>) (own - {s}))"
| step_write: "s \<in> own \<Longrightarrow> start + length bs \<le> gs_len s \<Longrightarrow>
    pool_step (st, own) (write_bytes st (gs_arr s) start bs, own)"
| step_gc: "pool_step (st, own) (st\<lparr>st_pools := (st_pools st)(idx := filter keep (st_pools st idx))\<rparr>, own)"

abbreviation pool_reachable :: "store \<times> gslice set \<Rightarrow> bool" where
  "pool_reachable \<equiv> pool_step\<^sup>*\<^sup>* (empty_store, {})"

definition pool_inv :: "store \<times> gslice set \<Rightarrow> bool" where
  "pool_inv x \<longleftrightarrow> (case x of (st, own) \<Rightarrow>
     (\<forall>idx. distinct (st_pools st idx)) \<and>
     (\<forall>i j. i \<noteq> j \<longrightarrow> set (st_pools st i) \<inter> set (st_pools st j) = {}) \<and>
     (\<forall>idx. \<forall>a \<in> set (st_pools st idx). 2 ^ idx \<le> st_size st a \<and> a < st_next st) \<and>
     (\<forall>s \<in> own. gs_len s \<le> gs_cap s \<and> gs_cap s \<le> st_size st (gs_arr s) \<and> gs_arr s < st_next st) \<and>
     inj_on gs_arr own \<and>
     (\<forall>idx. set (st_pools st idx) \<inter> gs_arr ` own = {}))"

lemma pool_inv_empty: "pool_inv (empty_store, {})"
  by (simp add: pool_inv_def empty_store_def)

text \<open>A fresh array joins the owned ones.\<close>

lemma pool_inv_alloc:
  assumes "pool_inv (st, own)" "alloc st n = (st', a)" "len \<le> cap" "cap \<le> n"
  shows "pool_inv (st', insert \<lparr>gs_arr = a, gs_len = len, gs_cap = cap\<rparr> own)"
proof -
  have st': "st_pools st' = st_pools st" "st_next st' = Suc (st_next st)" "a = st_next st"
    "st_size st' = (st_size st)(a := n)"
    using assms(2) by (auto simp: alloc_def)
  have fresh: "gs_arr s \<noteq> a" if "s \<in> own" for s
    using assms(1) that st'(3) by (auto simp: pool_inv_def)
  have pooled: "b \<noteq> a" if "b \<in> set (st_pools st idx)" for b idx
    using assms(1) that st'(3) by (auto simp: pool_inv_def)
  show ?thesis
    using assms(1,3,4) fresh pooled unfolding pool_inv_def prod.case st'
    by (auto simp: inj_on_def less_Suc_eq)
qed

lemma Pool_Get_cases:
  assumes "Pool_Get pick st sz = (st', s)"
  obtains (fresh) n where "alloc st n = (st', gs_arr s)" "s = \<lparr>gs_arr = gs_arr s, gs_len = nat sz, gs_cap = n\<rparr>" "nat sz \<le> n"
  | (pooled) idx where "idx = pool_index (nat sz)" "0 < sz" "nat sz \<le> max_size"
      "pick (st_pools st idx) = Some (gs_arr s)" "gs_len s = nat sz" "gs_cap s = 2 ^ idx"
      "st_pools st' = (st_pools st)(idx := remove1 (gs_arr s) (st_pools st idx))"
      "st_size st' = st_size st" "st_next st' = st_next st" "st_bytes st' = st_bytes st"
proof (cases "sz \<le> 0 \<or> sz > int max_size")
  case True
  then show ?thesis using assms fresh [of "nat sz"] by (auto simp: Pool_Get_def split: if_splits prod.splits)
next
  case False
  then have "nat sz \<le> 2 ^ pool_index (nat sz)" by (intro pool_index_fits) auto
  with False show ?thesis
    using assms fresh [of "2 ^ pool_index (nat sz)"] pooled [of "pool_index (nat sz)"]
    by (auto simp: Pool_Get_def Let_def split: if_splits prod.splits option.splits)
qed

lemma pool_inv_get:
  assumes "pool_inv (st, own)" "valid_picker pick" "Pool_Get pick st sz = (st', s)"
  shows "pool_inv (st', insert s own)"
  using assms(3)
proof (cases rule: Pool_Get_cases)
  case (fresh n)
  with pool_inv_alloc [OF assms(1), of n st' "gs_arr s" "nat sz" n] show ?thesis by simp
next
  case (pooled idx)
  have a: "gs_arr s \<in> set (st_pools st idx)"
    using assms(2) pooled(4) by (auto simp: valid_picker_def)
  have fit: "gs_len s \<le> gs_cap s" using pooled(1-3,5,6) pool_index_fits [of "nat sz"] by simp
  have d: "\<forall>i. distinct (st_pools st i)" and dj: "\<forall>i j. i \<noteq> j \<longrightarrow> set (st_pools st i) \<inter> set (st_pools st j) = {}"
    and sz: "\<forall>i. \<forall>b \<in> set (st_pools st i). 2 ^ i \<le> st_size st b \<and> b < st_next st"
    and ow: "\<forall>s \<in> own. gs_len s \<le> gs_cap s \<and> gs_cap s \<le> st_size st (gs_arr s) \<and> gs_arr s < st_next st"
    and inj: "inj_on gs_arr own" and sep: "\<forall>i. set (st_pools st i) \<inter> gs_arr ` own = {}"
    using assms(1) by (auto simp: pool_inv_def)
  have sub: "set (st_pools st' i) \<subseteq> set (st_pools st i) - {gs_arr s}" for i
    using a d dj pooled(7) by (auto simp: set_remove1_eq)
  have "gs_arr s \<notin> gs_arr ` own" using a sep by auto
  then have "inj_on gs_arr (insert s own)" using inj by (simp add: inj_on_insert) blast
  moreover have "\<forall>i. distinct (st_pools st' i)" using d pooled(7) by simp
  moreover have "\<forall>i j. i \<noteq> j \<longrightarrow> set (st_pools st' i) \<inter> set (st_pools st' j) = {}" using dj sub by blast
  moreover have "\<forall>i. \<forall>b \<in> set (st_pools st' i). 2 ^ i \<le> st_size st' b \<and> b < st_next st'"
    using sz sub pooled(8,9) by (metis DiffD1 subsetD)
  moreover have "\<forall>s \<in> insert s own. gs_len s \<le> gs_cap s \<and> gs_cap s \<le> st_size st' (gs_arr s) \<and> gs_arr s < st_next st'"
    using ow sz a fit pooled(6,8,9) by auto
  moreover have "\<forall>i. set (st_pools st' i) \<inter> gs_arr ` insert s own = {}" using sep sub by blast
  ultimately show ?thesis unfolding pool_inv_def prod.case by blast
qed

lemma Pool_Put_cases:
  obtains (dropped) "st_pools (Pool_Put st s) = st_pools st"
  | (kept) idx where "idx = put_index (gs_cap s)" "0 < gs_cap s" "gs_cap s \<le> max_size"
      "st_pools (Pool_Put st s) = (st_pools st)(idx := gs_arr s # st_pools st idx)"
proof (cases "gs_cap s < 1 \<or> gs_cap s > max_size \<or>
    st_totals st (put_index (gs_cap s)) + int (gs_cap s) > max_caps (put_index (gs_cap s))")
  case True
  then have "st_pools (Pool_Put st s) = st_pools st" by (auto simp: Pool_Put_def Let_def)
  then show ?thesis by (rule dropped)
next
  case False
  then show ?thesis by (intro kept [OF refl]) (auto simp: Pool_Put_def Let_def)
qed

lemma Pool_Put_frame [simp]:
  "st_size (Pool_Put st s) = st_size st" "st_next (Pool_Put st s) = st_next st" "st_bytes (Pool_Put st s) = st_bytes st"
  by (auto simp: Pool_Put_def Let_def)

lemma pool_inv_put:
  assumes "pool_inv (st, own)" "s \<in> own"
  shows "pool_inv (Pool_Put st s, own - {s})"
proof (cases rule: Pool_Put_cases [of st s])
  case dropped
  have "gs_arr ` (own - {s}) \<subseteq> gs_arr ` own" by blast
  with dropped assms show ?thesis unfolding pool_inv_def prod.case Pool_Put_frame
    by (simp add: inj_on_diff) blast
next
  case (kept idx)
  have "2 ^ idx \<le> gs_cap s" using kept(1-3) put_index_fits by simp
  then have sz: "2 ^ idx \<le> st_size st (gs_arr s)" "gs_arr s < st_next st"
    using assms by (fastforce simp: pool_inv_def)+
  have new: "gs_arr s \<notin> set (st_pools st i)" for i
    using assms unfolding pool_inv_def prod.case by blast
  have off: "gs_arr s \<notin> gs_arr ` (own - {s})"
    using assms by (auto simp: pool_inv_def inj_on_def)
  have pools: "set (st_pools (Pool_Put st s) i) = (if i = idx then insert (gs_arr s) (set (st_pools st i)) else set (st_pools st i))" for i
    using kept(4) by simp
  have sub: "gs_arr ` (own - {s}) \<subseteq> gs_arr ` own" by blast
  have "\<forall>i. distinct (st_pools (Pool_Put st s) i)"
    using assms(1) kept(4) new by (simp add: pool_inv_def)
  moreover have "\<forall>i j. i \<noteq> j \<longrightarrow> set (st_pools (Pool_Put st s) i) \<inter> set (st_pools (Pool_Put st s) j) = {}"
    using assms(1) new unfolding pools pool_inv_def prod.case by simp
  moreover have "\<forall>i. set (st_pools (Pool_Put st s) i) \<inter> gs_arr ` (own - {s}) = {}"
    using assms(1) off sub unfolding pools pool_inv_def prod.case by (simp; blast)
  ultimately show ?thesis
    using assms(1) sz unfolding pool_inv_def prod.case Pool_Put_frame pools
    by (simp add: inj_on_diff)
qed

lemma pool_step_inv: "pool_step x y \<Longrightarrow> pool_inv x \<Longrightarrow> pool_inv y"
proof (induction rule: pool_step.induct)
  case (step_reslice s own n st)
  then have "gs_arr ` insert (s\<lparr>gs_len := n\<rparr>) (own - {s}) = gs_arr ` own" by (auto simp: image_iff)
  moreover have "inj_on gs_arr (insert (s\<lparr>gs_len := n\<rparr>) (own - {s}))"
    using step_reslice by (auto simp: pool_inv_def inj_on_def)
  ultimately show ?case using step_reslice unfolding pool_inv_def prod.case by auto
next
  case (step_write s own start bs st)
  then show ?case by (simp add: pool_inv_def write_bytes_def)
next
  case (step_gc st own idx keep)
  then show ?case unfolding pool_inv_def prod.case by (auto; blast)
qed (auto intro: pool_inv_get pool_inv_put)

lemma reachable_pool_inv: "pool_reachable x \<Longrightarrow> pool_inv x"
  by (induction rule: rtranclp_induct) (auto intro: pool_inv_empty pool_step_inv)

subsection \<open>Properties of the pool\<close>

text \<open>
  C7: slices handed out never alias: however gets, puts, reslicing, writes and collections
  interleave, two slices held at the same time lie in different arrays, a held array is in no
  pool, and a held slice stays within its array; so a write through one held slice changes no
  byte of another.
\<close>

theorem pool_exclusive:
  assumes "pool_reachable (st, own)" and "s \<in> own" and "s' \<in> own" and "s \<noteq> s'"
  shows "gs_arr s \<noteq> gs_arr s' \<and> gs_arr s \<notin> set (st_pools st idx) \<and>
    gs_len s \<le> gs_cap s \<and> gs_cap s \<le> st_size st (gs_arr s) \<and>
    read_bytes (write_bytes st (gs_arr s) start bs) (gs_arr s') start' n = read_bytes st (gs_arr s') start' n"
proof -
  note inv = reachable_pool_inv [OF assms(1)]
  have ne: "gs_arr s \<noteq> gs_arr s'"
    using inv assms(2-4) by (auto simp: pool_inv_def inj_on_def)
  moreover have "gs_arr s \<notin> set (st_pools st idx)"
    using inv assms(2) unfolding pool_inv_def prod.case by blast
  moreover have "gs_len s \<le> gs_cap s \<and> gs_cap s \<le> st_size st (gs_arr s)"
    using inv assms(2) unfolding pool_inv_def prod.case by blast
  ultimately show ?thesis by (simp add: read_bytes_def write_bytes_def)
qed

definition lifo :: picker where
  "lifo xs = (case xs of [] \<Rightarrow> None | a # _ \<Rightarrow> Some a)"

lemma lifo_valid: "valid_picker lifo"
  by (auto simp: valid_picker_def lifo_def split: list.splits)

lemma pool_index_5 [simp]: "pool_index 5 = 3"
  by (simp add: pool_index_eq max_size_def bit_len.simps)

lemma pool_exclusive_witness:
  "gs_arr \<lparr>gs_arr = 0, gs_len = 5, gs_cap = 8\<rparr> \<noteq> gs_arr \<lparr>gs_arr = 1, gs_len = 5, gs_cap = 8\<rparr>"
proof -
  let ?a = "\<lparr>gs_arr = 0, gs_len = 5, gs_cap = 8\<rparr>" and ?b = "\<lparr>gs_arr = 1, gs_len = 5, gs_cap = 8\<rparr>"
  obtain st1 where 1: "Pool_Get lifo empty_store 5 = (st1, ?a)" and s1: "st_pools st1 3 = []" "st_next st1 = 1"
    by (simp add: Pool_Get_def Let_def lifo_def empty_store_def alloc_def max_size_def)
  obtain st2 where 2: "Pool_Get lifo st1 5 = (st2, ?b)"
    using s1 by (simp add: Pool_Get_def Let_def lifo_def alloc_def max_size_def)
  have "pool_step (empty_store, {}) (st1, {?a})" by (rule step_get [OF lifo_valid 1])
  moreover have "pool_step (st1, {?a}) (st2, {?b, ?a})" by (rule step_get [OF lifo_valid 2])
  ultimately have "pool_reachable (st2, {?b, ?a})" by simp
  from pool_exclusive [OF this, of ?a ?b] show ?thesis by simp
qed

text \<open>
  The counter of a class never goes down when the collector empties it, nor when \<open>Put\<close> discards a
  slice: from then on the class can be full without holding anything.
\<close>

definition stuck :: "nat \<Rightarrow> store \<Rightarrow> bool" where
  "stuck idx st \<longleftrightarrow> st_pools st idx = [] \<and> max_caps idx \<le> st_totals st idx"

lemma stuck_get:
  assumes "stuck idx st" "valid_picker pick"
  shows "stuck idx (fst (Pool_Get pick st sz))"
proof -
  have "pick [] = None" using assms(2) by (auto simp: valid_picker_def) (metis empty_iff empty_set not_None_eq)
  with assms(1) show ?thesis
    by (auto simp: stuck_def Pool_Get_def Let_def alloc_def split: option.split)
qed

lemma stuck_put: "stuck idx st \<Longrightarrow> stuck idx (Pool_Put st s)"
  by (auto simp: stuck_def Pool_Put_def Let_def)

lemma stuck_step: "pool_step x y \<Longrightarrow> stuck idx (fst x) \<Longrightarrow> stuck idx (fst y)"
proof (induction rule: pool_step.induct)
  case (step_get pick st sz st' s own)
  then show ?case using stuck_get [of idx st pick sz] by simp
next
  case (step_put s own st)
  then show ?case by (simp add: stuck_put)
qed (auto simp: stuck_def write_bytes_def)

lemma stuck_forever: "pool_step\<^sup>*\<^sup>* x y \<Longrightarrow> stuck idx (fst x) \<Longrightarrow> stuck idx (fst y)"
  by (induction rule: rtranclp_induct) (auto intro: stuck_step)

text \<open>Get, put, collect: the class is empty again and its counter has grown.\<close>

lemma cycle:
  assumes "st_pools st idx = []" "2 ^ idx \<le> max_size"
  shows "\<exists>st'. pool_step\<^sup>*\<^sup>* (st, {}) (st', {}) \<and> st_pools st' idx = [] \<and>
           st_totals st' idx = st_totals st idx + 2 ^ idx"
proof -
  note i = pool_index_pow2 [OF assms(2)]
  define st1 where "st1 = fst (alloc st (2 ^ idx))"
  define s where "s = \<lparr>gs_arr = st_next st, gs_len = 2 ^ idx, gs_cap = 2 ^ idx\<rparr>"
  have "Pool_Get lifo st (2 ^ idx) = (st1, s)"
  proof -
    have "(2 :: int) ^ idx \<le> int max_size" using assms(2) by (metis of_nat_le_iff of_nat_numeral of_nat_power)
    moreover have "nat (2 ^ idx) = 2 ^ idx" by (simp add: nat_power_eq)
    moreover have "\<not> (2 :: int) ^ idx \<le> 0" by simp
    ultimately show ?thesis
      using assms(1) i by (simp only: Pool_Get_def Let_def st1_def s_def alloc_def lifo_def if_False not_less list.case option.case prod.case fst_conv)
        simp
  qed
  then have 1: "pool_step (st, {}) (st1, {s})" by (rule step_get [OF lifo_valid])
  define st2 where "st2 = Pool_Put st1 s"
  have 2: "pool_step (st1, {s}) (st2, {})" using step_put [of s "{s}" st1] by (simp add: st2_def)
  define st3 where "st3 = st2\<lparr>st_pools := (st_pools st2)(idx := filter (\<lambda>_. False) (st_pools st2 idx))\<rparr>"
  have 3: "pool_step (st2, {}) (st3, {})" unfolding st3_def by (rule step_gc)
  have "st_totals st3 idx = st_totals st idx + 2 ^ idx"
    using assms put_index_pow2 [OF assms(2)]
    by (simp add: st3_def st2_def st1_def s_def alloc_def Pool_Put_def Let_def)
  moreover have "st_pools st3 idx = []" by (simp add: st3_def)
  ultimately show ?thesis using 1 2 3 by (meson converse_rtranclp_into_rtranclp rtranclp.rtrancl_refl)
qed

lemma cycles:
  assumes "2 ^ idx \<le> max_size"
  shows "\<exists>st. pool_reachable (st, {}) \<and> st_pools st idx = [] \<and> st_totals st idx = int k * 2 ^ idx"
proof (induction k)
  case 0
  have "st_pools empty_store idx = [] \<and> st_totals empty_store idx = 0" by (simp add: empty_store_def)
  then show ?case by auto
next
  case (Suc k)
  then obtain st where st: "pool_reachable (st, {})" "st_pools st idx = []" "st_totals st idx = int k * 2 ^ idx" by blast
  from cycle [OF st(2) assms] obtain st' where "pool_step\<^sup>*\<^sup>* (st, {}) (st', {})" "st_pools st' idx = []"
    "st_totals st' idx = st_totals st idx + 2 ^ idx" by blast
  with st show ?case by (auto simp: algebra_simps intro!: exI [of _ st'])
qed

text \<open>
  A size class can die: for every class the pool serves (1 byte to 64 KB) there is a run of
  correct gets and puts, with collections in between, after which the class is empty and no
  further run ever puts a slice into it again, so that every later \<open>Get\<close> of that class allocates.
\<close>

theorem pool_class_dies:
  "\<forall>idx \<le> 16. \<exists>st own. pool_reachable (st, own) \<and>
     (\<forall>st' own'. pool_step\<^sup>*\<^sup>* (st, own) (st', own') \<longrightarrow> st_pools st' idx = [])"
proof (intro allI impI)
  fix idx :: nat assume "idx \<le> 16"
  then have "(2 :: nat) ^ idx \<le> 2 ^ 16" by (rule power_increasing) simp
  then have m: "2 ^ idx \<le> max_size" by (simp add: max_size_def)
  obtain st where st: "pool_reachable (st, {})" "st_pools st idx = []"
    "st_totals st idx = int (nat (max_caps idx)) * 2 ^ idx" using cycles [OF m] by blast
  have "int (nat (max_caps idx)) * 1 \<le> int (nat (max_caps idx)) * 2 ^ idx"
    by (rule mult_left_mono) auto
  then have "stuck idx st" using st by (auto simp: stuck_def)
  then have "st_pools st' idx = []" if "pool_step\<^sup>*\<^sup>* (st, {}) (st', own')" for st' own'
    using stuck_forever [OF that, of idx] by (simp add: stuck_def)
  with st(1) show "\<exists>st own. pool_reachable (st, own) \<and>
     (\<forall>st' own'. pool_step\<^sup>*\<^sup>* (st, own) (st', own') \<longrightarrow> st_pools st' idx = [])" by blast
qed

lemma pool_class_dies_witness:
  "\<exists>st own. pool_reachable (st, own) \<and>
     (\<lambda>s. st_pools (fst s) 10) ` {s. pool_step\<^sup>*\<^sup>* (st, own) s} = {[]}"
proof -
  obtain st own where "pool_reachable (st, own)"
    and "\<And>st' own'. pool_step\<^sup>*\<^sup>* (st, own) (st', own') \<Longrightarrow> st_pools st' 10 = []"
    using pool_class_dies by (elim allE [of _ 10]) auto
  moreover from this(2) [of st own] have "st_pools st 10 = []" by simp
  ultimately show ?thesis
    by (intro exI [of _ st] exI [of _ own] conjI equalityI) (auto intro!: image_eqI [of _ _ "(st, own)"])
qed

end
