(* ===== verification/PacketSpliter.thy ===== *)
theory PacketSpliter
  imports LfStream BytePool
begin

text \<open>
  The packet splitter of a connection (src/kknet/kkprocessor/packet_spliter.go): it appends what
  a read delivers to the rest of the last one, cuts the packets off with \<open>Split\<close>, and keeps the
  incomplete end in a pooled buffer.  The packets it returns are slices of the buffer, so the
  model keeps them as \<open>(array, start, length)\<close> in the store of \<open>BytePool\<close>.
\<close>

definition defaultRecvBufSize :: nat where
  "defaultRecvBufSize = 1024"

text \<open>\<open>splitBuf\<close> only saves allocating the list of slices and is left out.\<close>

record PacketSpliter =
  ps_streamTool :: LengthFieldStreamPacket
  ps_shrinkCap :: nat
  ps_recvBuf :: "gslice option"


text \<open>
  Go's \<open>append(s, bs...)\<close>: in place while the capacity lasts, otherwise into a new array, whose
  capacity the runtime chooses (\<open>grow old needed\<close>).
\<close>

definition go_append :: "(nat \<Rightarrow> nat \<Rightarrow> nat) \<Rightarrow> store \<Rightarrow> gslice \<Rightarrow> byte list \<Rightarrow> store \<times> gslice" where
  "go_append grow st s bs =
     (let n = gs_len s + length bs in
      if n \<le> gs_cap s then (write_bytes st (gs_arr s) (gs_len s) bs, s\<lparr>gs_len := n\<rparr>)
      else let cap = grow (gs_cap s) n in
        case alloc st cap of (st1, a) \<Rightarrow>
          (write_bytes st1 a 0 (read_bytes st (gs_arr s) 0 (gs_len s) @ bs),
           \<lparr>gs_arr = a, gs_len = n, gs_cap = cap\<rparr>))"

definition reRecvBuf :: "picker \<Rightarrow> store \<Rightarrow> PacketSpliter \<Rightarrow> nat \<Rightarrow> store \<times> PacketSpliter" where
  "reRecvBuf pick st ps capacity =
     (case ps_recvBuf ps of
        None \<Rightarrow> (case GetZero pick st (int capacity) of (st, s) \<Rightarrow> (st, ps\<lparr>ps_recvBuf := Some s\<rparr>))
      | Some s \<Rightarrow>
          let st = Pool_Put st (s\<lparr>gs_len := 0\<rparr>) in
          (case GetZero pick st (int capacity) of (st, s) \<Rightarrow> (st, ps\<lparr>ps_recvBuf := Some s\<rparr>)))"

text \<open>\<open>ps.recvBuf = ps.recvBuf[:0]\<close> where it is not nil.\<close>

definition clear_recvBuf :: "PacketSpliter \<Rightarrow> PacketSpliter" where
  "clear_recvBuf ps = ps\<lparr>ps_recvBuf := map_option (\<lambda>s. s\<lparr>gs_len := 0\<rparr>) (ps_recvBuf ps)\<rparr>"

text \<open>\<open>copy(ps.recvBuf[:leftLen], leftData)\<close>.\<close>

definition keep_left :: "store \<Rightarrow> PacketSpliter \<Rightarrow> nat \<Rightarrow> view \<Rightarrow> store \<times> PacketSpliter" where
  "keep_left st ps a left =
     (case ps_recvBuf ps of
        None \<Rightarrow> (st, ps)
      | Some s \<Rightarrow> (write_bytes st (gs_arr s) 0 (read_bytes st a (fst left) (snd left)),
                  ps\<lparr>ps_recvBuf := Some (s\<lparr>gs_len := snd left\<rparr>)\<rparr>))"

definition shrink_recvBuf :: "store \<Rightarrow> PacketSpliter \<Rightarrow> store \<times> PacketSpliter" where
  "shrink_recvBuf st ps =
     (case ps_recvBuf ps of
        None \<Rightarrow> (st, ps)
      | Some s \<Rightarrow> if gs_len s = 0 \<and> gs_cap s > ps_shrinkCap ps
                  then (Pool_Put st s, ps\<lparr>ps_recvBuf := None\<rparr>) else (st, ps))"

text \<open>The buffer to cut: the read itself, or the rest of the last read with this one appended.\<close>

definition input_buf :: "(nat \<Rightarrow> nat \<Rightarrow> nat) \<Rightarrow> store \<Rightarrow> PacketSpliter \<Rightarrow> gslice \<Rightarrow> store \<times> PacketSpliter \<times> gslice" where
  "input_buf grow st ps data =
     (case ps_recvBuf ps of
        None \<Rightarrow> (st, ps, data)
      | Some s \<Rightarrow>
          if gs_len s > 0 then
            (case go_append grow st s (read_bytes st (gs_arr data) 0 (gs_len data)) of
               (st, s) \<Rightarrow> (st, ps\<lparr>ps_recvBuf := Some s\<rparr>, s))
          else (st, ps, data))"

definition store_left :: "picker \<Rightarrow> store \<Rightarrow> PacketSpliter \<Rightarrow> nat \<Rightarrow> view option \<Rightarrow> store \<times> PacketSpliter" where
  "store_left pick st ps a left =
     (case left of
        Some l \<Rightarrow>
          if snd l > 0
          then (case reRecvBuf pick st ps (defaultRecvBufSize + snd l) of (st, ps) \<Rightarrow> keep_left st ps a l)
          else (st, clear_recvBuf ps)
      | None \<Rightarrow> (st, clear_recvBuf ps))"

text \<open>The packets returned are slices \<open>(array, start, length)\<close>.\<close>

definition PacketSpliter_Split ::
  "picker \<Rightarrow> (nat \<Rightarrow> nat \<Rightarrow> nat) \<Rightarrow> store \<Rightarrow> PacketSpliter \<Rightarrow> gslice \<Rightarrow>
   store \<times> PacketSpliter \<times> (nat \<times> nat \<times> nat) list \<times> kkerror option" where
  "PacketSpliter_Split pick grow st ps data =
     (if gs_len data = 0 then (st, ps, [], None)
      else case input_buf grow st ps data of (st, ps, buf) \<Rightarrow>
        (case Split (ps_streamTool ps) (read_bytes st (gs_arr buf) 0 (gs_len buf)) of
           (views, left, Some err) \<Rightarrow> (st, clear_recvBuf ps, [], Some err)
         | (views, left, None) \<Rightarrow>
             (case store_left pick st ps (gs_arr buf) left of (st, ps) \<Rightarrow>
                (case shrink_recvBuf st ps of (st, ps) \<Rightarrow>
                   (st, ps, map (\<lambda>(start, n). (gs_arr buf, start, n)) views, None)))))"

text \<open>What the returned slices hold when the caller reads them, and the bytes kept.\<close>

definition packets_bytes :: "store \<Rightarrow> (nat \<times> nat \<times> nat) list \<Rightarrow> byte list list" where
  "packets_bytes st pk = map (\<lambda>(a, start, n). read_bytes st a start n) pk"

definition residual :: "store \<Rightarrow> PacketSpliter \<Rightarrow> byte list" where
  "residual st ps = (case ps_recvBuf ps of None \<Rightarrow> [] | Some s \<Rightarrow> read_bytes st (gs_arr s) 0 (gs_len s))"

subsection \<open>Reading and writing the store\<close>

lemma length_read_bytes [simp]: "length (read_bytes st a i n) = n"
  by (simp add: read_bytes_def)

lemma read_bytes_0 [simp]: "read_bytes st a i 0 = []"
  by (simp add: read_bytes_def)

lemma read_bytes_cong: "(\<And>j. i \<le> j \<Longrightarrow> j < i + n \<Longrightarrow> st_bytes st a j = st_bytes st' a j) \<Longrightarrow> read_bytes st a i n = read_bytes st' a i n"
  by (simp add: read_bytes_def)

lemma read_write_other [simp]: "a \<noteq> b \<Longrightarrow> read_bytes (write_bytes st a i bs) b j n = read_bytes st b j n"
  by (simp add: read_bytes_def write_bytes_def)

lemma read_write_same: "n = length bs \<Longrightarrow> read_bytes (write_bytes st a i bs) a i n = bs"
  by (rule nth_equalityI) (auto simp: read_bytes_def write_bytes_def)

lemma read_write_before: "j + n \<le> i \<Longrightarrow> read_bytes (write_bytes st a i bs) a j n = read_bytes st a j n"
  by (rule read_bytes_cong) (auto simp: write_bytes_def)

lemma read_bytes_append: "read_bytes st a i (m + n) = read_bytes st a i m @ read_bytes st a (i + m) n"
  by (simp add: read_bytes_def upt_add_eq_append [of i "i + m" n] flip: add.assoc)

lemma read_alloc [simp]: "b < st_next st \<Longrightarrow> read_bytes (fst (alloc st n)) b i k = read_bytes st b i k"
  by (auto simp: alloc_def intro: read_bytes_cong)


lemma view_read:
  "fst v + snd v \<le> n \<Longrightarrow> view_bytes (read_bytes st a 0 n) v = read_bytes st a (fst v) (snd v)"
  by (rule nth_equalityI) (auto simp: view_bytes_def read_bytes_def)

lemma split_loop_range:
  assumes "\<forall>v \<in> set bufs. fst v + snd v \<le> length packets" "pos \<le> length packets"
    and "split_loop slf packets pos bufs = (vs, left, err)"
  shows "(\<forall>v \<in> set vs. fst v + snd v \<le> length packets) \<and> (\<forall>l. left = Some l \<longrightarrow> fst l + snd l \<le> length packets)"
  using assms
proof (induction slf packets pos bufs arbitrary: vs left err rule: split_loop.induct)
  case (1 slf packets pos bufs)
  show ?case
    using "1.prems" "1.IH" [OF refl refl refl]
    by (subst (asm) split_loop.simps) (auto simp: Let_def split: if_splits sum.splits)
qed

lemma Split_range:
  "Split slf packets = (vs, left, err) \<Longrightarrow>
   (\<forall>v \<in> set vs. fst v + snd v \<le> length packets) \<and> (\<forall>l. left = Some l \<longrightarrow> fst l + snd l \<le> length packets)"
  using split_loop_range [of "[]" packets 0 slf vs left err] by (auto simp: Split_def split: if_splits)

subsection \<open>One read\<close>

text \<open>The splitter holds its buffer, apart from the slices \<open>own\<close> of others.\<close>

definition spliter_inv :: "store \<Rightarrow> PacketSpliter \<Rightarrow> gslice set \<Rightarrow> bool" where
  "spliter_inv st ps own \<longleftrightarrow>
     (case ps_recvBuf ps of
        None \<Rightarrow> pool_inv (st, own)
      | Some s \<Rightarrow> s \<notin> own \<and> pool_inv (st, insert s own))"

lemma pool_inv_write [simp]: "pool_inv (write_bytes st a i bs, own) = pool_inv (st, own)"
  by (simp add: pool_inv_def write_bytes_def)

lemma pool_inv_own: "pool_inv (st, own) \<Longrightarrow> s \<in> own \<Longrightarrow>
    gs_len s \<le> gs_cap s \<and> gs_cap s \<le> st_size st (gs_arr s) \<and> gs_arr s < st_next st"
  unfolding pool_inv_def prod.case by (elim conjE) (erule bspec)

lemma pool_inv_sep: "pool_inv (st, own) \<Longrightarrow> set (st_pools st i) \<inter> gs_arr ` own = {}"
  unfolding pool_inv_def prod.case by (elim conjE) (erule spec)

lemma pool_inv_inj: "pool_inv (st, own) \<Longrightarrow> inj_on gs_arr own"
  unfolding pool_inv_def prod.case by (elim conjE)

lemma pool_inv_mono:
  assumes "pool_inv (st, own)" "own' \<subseteq> own"
  shows "pool_inv (st, own')"
proof -
  have "gs_arr ` own' \<subseteq> gs_arr ` own" using assms(2) by (rule image_mono)
  then have sep: "\<forall>i. set (st_pools st i) \<inter> gs_arr ` own' = {}"
    using pool_inv_sep [OF assms(1)] by (metis inf_mono order_refl subset_empty)
  have own: "\<forall>s \<in> own'. gs_len s \<le> gs_cap s \<and> gs_cap s \<le> st_size st (gs_arr s) \<and> gs_arr s < st_next st"
    using pool_inv_own [OF assms(1)] assms(2) by (metis subsetD)
  have inj: "inj_on gs_arr own'" using pool_inv_inj [OF assms(1)] assms(2) by (rule inj_on_subset)
  show ?thesis
    using assms(1) unfolding pool_inv_def prod.case
    by (elim conjE) (intro conjI own inj sep; assumption)
qed






text \<open>The slices \<open>Split\<close> returns follow one another from the start of the buffer.\<close>

fun contiguous :: "nat \<Rightarrow> view list \<Rightarrow> bool" where
  "contiguous pos [] \<longleftrightarrow> True"
| "contiguous pos (v # vs) \<longleftrightarrow> fst v = pos \<and> contiguous (pos + snd v) vs"


lemma split_loop_contiguous:
  "split_loop slf packets pos bufs = (vs, left, err) \<Longrightarrow> \<exists>ws. vs = bufs @ ws \<and> contiguous pos ws"
proof (induction slf packets pos bufs arbitrary: vs left err rule: split_loop.induct)
  case (1 slf packets pos bufs)
  show ?case
    using "1.prems" "1.IH" [OF refl refl refl]
    by (subst (asm) split_loop.simps) (fastforce simp: Let_def split: if_splits sum.splits)
qed

lemma Split_contiguous: "Split slf packets = (vs, left, err) \<Longrightarrow> contiguous 0 vs"
  using split_loop_contiguous [of slf packets 0 "[]" vs left err] by (auto simp: Split_def split: if_splits)

lemma Split_first: "Split slf packets = (v # vs, left, err) \<Longrightarrow> fst v = 0"
  by (drule Split_contiguous) simp


lemma spliter_inv_own: "spliter_inv st ps own \<Longrightarrow> pool_inv (st, own)"
proof (cases "ps_recvBuf ps")
  case (Some s)
  assume "spliter_inv st ps own"
  with Some have "pool_inv (st, insert s own)" by (simp add: spliter_inv_def)
  then show ?thesis by (rule pool_inv_mono) (rule subset_insertI)
qed (simp add: spliter_inv_def)



lemma clear_recvBuf_simps [simp]:
  "residual st (clear_recvBuf ps) = []" "ps_streamTool (clear_recvBuf ps) = ps_streamTool ps"
  by (auto simp: residual_def clear_recvBuf_def split: option.splits)














subsection \<open>A connection: many reads through one buffer\<close>








lemma spliter_inv_write [simp]: "spliter_inv (write_bytes st a i bs) ps own = spliter_inv st ps own"
  by (simp add: spliter_inv_def split: option.split)


subsection \<open>Properties of the splitter\<close>



text \<open>
  A pool that hands out the array put back last (\<open>sync.Pool\<close> does, on one processor) makes
  \<open>Split\<close> overwrite its own result: when the packets were cut from the splitter's buffer and an
  incomplete packet follows them, the buffer goes back to the pool and comes out again as the new
  buffer, and the bytes kept are copied over the start of the first packet returned.
\<close>

theorem PacketSpliter_overwrites:
  assumes "ps_recvBuf ps = Some s" and "gs_len s > 0" and "gs_len data > 0"
    and "gs_len s + gs_len data \<le> gs_cap s" and "gs_cap s \<le> max_size"
    and "frames (next_packet (ps_streamTool ps)) (residual st ps @ read_bytes st (gs_arr data) 0 (gs_len data)) =
      (q # qs, left, None)"
    and "left \<noteq> []" and "length left \<le> length q" and "defaultRecvBufSize + length left \<le> max_size"
    and "put_index (gs_cap s) = pool_index (defaultRecvBufSize + length left)"
    and "st_totals st (put_index (gs_cap s)) + int (gs_cap s) \<le> max_caps (put_index (gs_cap s))"
    and "PacketSpliter_Split lifo grow st ps data = (st', ps', pk, e)"
  shows "e = None \<and> hd (packets_bytes st' pk) = left @ drop (length left) q"
proof -
  define a where "a = gs_arr s"
  define d where "d = residual st ps @ read_bytes st (gs_arr data) 0 (gs_len data)"
  define b where "b = s\<lparr>gs_len := gs_len s + gs_len data\<rparr>"
  define st1 where "st1 = write_bytes st a (gs_len s) (read_bytes st (gs_arr data) 0 (gs_len data))"
  have ib: "input_buf grow st ps data = (st1, ps\<lparr>ps_recvBuf := Some b\<rparr>, b)"
    using assms(1,2,4) by (simp add: input_buf_def go_append_def st1_def b_def a_def)
  have rd: "read_bytes st1 a 0 (gs_len b) = d"
    using assms(1) by (simp add: d_def b_def st1_def a_def residual_def read_bytes_append read_write_before read_write_same)
  obtain vs lv er where sp: "Split (ps_streamTool ps) d = (vs, lv, er)" using prod_cases3 by blast
  have fr: "frames (next_packet (ps_streamTool ps)) d = (q # qs, left, None)"
    using assms(6) by (simp only: d_def)
  have er: "er = None" and vs: "map (view_bytes d) vs = q # qs"
    and lv: "(case lv of None \<Rightarrow> [] | Some v \<Rightarrow> view_bytes d v) = left"
    using Split_frames [of d "ps_streamTool ps"] fr sp by (auto simp: split_values_def)
  from lv assms(7) obtain l where l: "lv = Some l" "view_bytes d l = left" by (auto split: option.splits)
  from vs obtain v vs' where v: "vs = v # vs'" "view_bytes d v = q" by auto
  have len: "length d = gs_len b" using rd by (metis length_read_bytes)
  note rng = Split_range [OF sp, unfolded len]
  have left: "read_bytes st1 a (fst l) (snd l) = left" "snd l = length left"
    using view_read [of l "gs_len b" st1 a] rng l rd by auto
  have q: "read_bytes st1 a 0 (snd v) = q" "fst v = 0" "snd v = length q"
    using view_read [of v "gs_len b" st1 a] rng v rd Split_first [OF sp [unfolded v(1)]] by auto
  define N where "N = defaultRecvBufSize + length left"
  have N: "0 < N" "N \<le> max_size" "put_index (gs_cap s) = pool_index N"
    using assms(9,10) by (simp_all add: N_def defaultRecvBufSize_def)
  define st2 where "st2 = Pool_Put st1 (b\<lparr>gs_len := 0\<rparr>)"
  have pool: "st_pools st2 (pool_index N) = a # st_pools st1 (pool_index N)"
    using assms(1,2,4,5,11) N(3) by (simp add: st2_def Pool_Put_def Let_def b_def a_def st1_def write_bytes_def)
  have b2: "st_bytes st2 = st_bytes st1" by (simp add: st2_def)
  obtain st3 where gz: "GetZero lifo st2 (int N) = (st3, \<lparr>gs_arr = a, gs_len = 0, gs_cap = 2 ^ pool_index N\<rparr>)"
    and b3: "st_bytes st3 = st_bytes st1"
    using N(1,2) pool b2 by (simp add: GetZero_def Pool_Get_def Let_def lifo_def)
  have "left \<noteq> [] \<Longrightarrow> 0 < snd l" using left(2) by simp
  then obtain r where sl: "store_left lifo st1 (ps\<lparr>ps_recvBuf := Some b\<rparr>) (gs_arr b) lv =
      (write_bytes st3 a 0 (read_bytes st3 a (fst l) (snd l)), ps\<lparr>ps_recvBuf := Some r\<rparr>)" "gs_len r = length left"
    using gz left(2) assms(7)
    by (simp add: store_left_def l(1) reRecvBuf_def Let_def keep_left_def b_def a_def st2_def N_def)
  have ba: "gs_arr b = a" by (simp add: b_def a_def)
  have r3: "read_bytes st3 a i n = read_bytes st1 a i n" for i n by (rule read_bytes_cong) (simp add: b3)
  have st': "st' = write_bytes st3 a 0 left" "pk = map (\<lambda>(start, n). (a, start, n)) vs" "e = None"
    using assms(3,7,12) ib rd sp er sl left ba by (auto simp: PacketSpliter_Split_def r3 shrink_recvBuf_def)
  have "read_bytes st' a 0 (length left) = left" by (simp add: st' read_write_same)
  moreover have "read_bytes st' a (length left) (length q - length left) = read_bytes st1 a (length left) (length q - length left)"
    by (rule read_bytes_cong) (simp add: st' write_bytes_def b3)
  moreover have "read_bytes st1 a (length left) (length q - length left) = drop (length left) q"
    using q(1) read_bytes_append [of st1 a 0 "length left" "length q - length left"] assms(8)
    by (metis append_eq_conv_conj length_read_bytes add_0 le_add_diff_inverse)
  ultimately have "read_bytes st' a 0 (length q) = left @ drop (length left) q"
    using read_bytes_append [of st' a 0 "length left" "length q - length left"] assms(8) by simp
  then show ?thesis using st'(2,3) v(1) q(2,3) by (simp add: packets_bytes_def case_prod_unfold)
qed

definition reused_store :: store where
  "reused_store = write_bytes (write_bytes (fst (alloc (fst (alloc empty_store 8)) 2048)) 0 0 [2, 3, 0, 2, 9]) 1 0 [0, 3, 1]"

definition reused_spliter :: PacketSpliter where
  "reused_spliter = \<lparr>ps_streamTool = sample_stream, ps_shrinkCap = 1024, ps_recvBuf = Some \<lparr>gs_arr = 1, gs_len = 3, gs_cap = 2048\<rparr>\<rparr>"

lemma PacketSpliter_overwrites_witness:
  "case PacketSpliter_Split lifo max reused_store reused_spliter \<lparr>gs_arr = 0, gs_len = 5, gs_cap = 8\<rparr> of
    (st', ps', pk, e) \<Rightarrow> e = None \<and> hd (packets_bytes st' pk) = [0, 2, 9, 2, 3]"
proof -
  have i: "pool_index 1027 = 11" "put_index 2048 = 11"
    using put_index_pow2 [of 11] by (simp_all add: pool_index_eq max_size_def bit_len.simps)
  have r: "residual reused_store reused_spliter = [0, 3, 1]" "read_bytes reused_store 0 0 5 = [2, 3, 0, 2, 9]"
    by (simp_all add: reused_store_def reused_spliter_def residual_def read_write_same)
  have f: "frames (next_packet sample_stream) [0, 3, 1, 2, 3, 0, 2, 9] = ([[0, 3, 1, 2, 3]], [0, 2, 9], None)"
    by (simp add: frames.simps next_packet_def ReadMessageSize_def sample_stream_def get_uint_def)
  obtain st' ps' pk e where s: "PacketSpliter_Split lifo max reused_store reused_spliter \<lparr>gs_arr = 0, gs_len = 5, gs_cap = 8\<rparr> = (st', ps', pk, e)"
    by (metis prod_cases4)
  have "e = None \<and> hd (packets_bytes st' pk) = [0, 2, 9] @ drop (length [0 :: byte, 2, 9]) [0, 3, 1, 2, 3]"
    by (rule PacketSpliter_overwrites [OF _ _ _ _ _ _ _ _ _ _ _ s, where s = "\<lparr>gs_arr = 1, gs_len = 3, gs_cap = 2048\<rparr>"])
      (use r f i in \<open>simp_all add: reused_spliter_def max_size_def defaultRecvBufSize_def max_caps_def Let_def reused_store_def write_bytes_def alloc_def empty_store_def\<close>)
  then show ?thesis by (simp add: s)
qed

end
