(* ===== verification/Fifo.thy ===== *)
theory Fifo
  imports Prelude
begin

text \<open>
  The contract shared by the buffers and queues of src/utils: a state holds a sequence
  (\<open>contents\<close>); an operation may take elements in at the back and give elements out at the
  front.  An operation that panics has no result.  Whatever is put in comes out in order, and
  nothing else does.
\<close>

fun fifo_run :: "('op \<Rightarrow> 's \<Rightarrow> ('s \<times> 'a list \<times> 'a list) go) \<Rightarrow> 'op list \<Rightarrow> 's \<Rightarrow> ('s \<times> 'a list \<times> 'a list) go" where
  "fifo_run step [] s = ret (s, [], [])"
| "fifo_run step (x # xs) s =
     (case step x s of
        None \<Rightarrow> panic
      | Some (s, ins, outs) \<Rightarrow>
          (case fifo_run step xs s of
             None \<Rightarrow> panic
           | Some (s, ins', outs') \<Rightarrow> ret (s, ins @ ins', outs @ outs')))"

locale fifo =
  fixes step :: "'op \<Rightarrow> 's \<Rightarrow> ('s \<times> 'a list \<times> 'a list) go"
    and inv :: "'s \<Rightarrow> bool"
    and contents :: "'s \<Rightarrow> 'a list"
  assumes step_inv: "inv s \<Longrightarrow> step x s = Some (s', ins, outs) \<Longrightarrow> inv s'"
    and step_fifo: "inv s \<Longrightarrow> step x s = Some (s', ins, outs) \<Longrightarrow> contents s @ ins = outs @ contents s'"
begin

lemma run_inv: "inv s \<Longrightarrow> fifo_run step xs s = Some (s', ins, outs) \<Longrightarrow> inv s'"
proof (induction xs arbitrary: s ins outs)
  case (Cons x xs)
  then show ?case using step_inv [OF Cons.prems(1)] by (fastforce split: option.splits)
qed simp

lemma run_fifo:
  "inv s \<Longrightarrow> fifo_run step xs s = Some (s', ins, outs) \<Longrightarrow> contents s @ ins = outs @ contents s'"
proof (induction xs arbitrary: s ins outs)
  case (Cons x xs)
  from Cons.prems(2) obtain s1 i1 o1 i2 o2 where 1: "step x s = Some (s1, i1, o1)"
    and 2: "fifo_run step xs s1 = Some (s', i2, o2)" and io: "ins = i1 @ i2" "outs = o1 @ o2"
    by (auto split: option.splits)
  from step_fifo [OF Cons.prems(1) 1] Cons.IH [OF step_inv [OF Cons.prems(1) 1] 2] io show ?case
    by (metis append.assoc)
qed simp

text \<open>From an empty start, the output is a prefix of the input, and what is missing is still held.\<close>

lemma run_prefix:
  "inv s \<Longrightarrow> contents s = [] \<Longrightarrow> fifo_run step xs s = Some (s', ins, outs) \<Longrightarrow>
   outs = take (length outs) ins \<and> contents s' = drop (length outs) ins"
  using run_fifo [of s xs s' ins outs] by simp

lemma run_total_on:
  "inv s \<Longrightarrow> (\<And>x s. x \<in> set xs \<Longrightarrow> inv s \<Longrightarrow> \<exists>r. step x s = Some r) \<Longrightarrow> \<exists>r. fifo_run step xs s = Some r"
proof (induction xs arbitrary: s)
  case (Cons x xs)
  from Cons.prems(2) [of x s] Cons.prems(1) obtain s1 i1 o1 where 1: "step x s = Some (s1, i1, o1)"
    by (metis list.set_intros(1) prod_cases3)
  from Cons.IH [OF step_inv [OF Cons.prems(1) 1]] Cons.prems(2) obtain s2 i2 o2 where
    "fifo_run step xs s1 = Some (s2, i2, o2)"
    by (metis list.set_intros(2) prod_cases3)
  with 1 show ?case by simp
qed simp

end

text \<open>A machine none of whose operations panics in the states the invariant allows.\<close>

locale total_fifo = fifo +
  assumes step_total: "inv s \<Longrightarrow> \<exists>r. step x s = Some r"
begin

lemma run_total: "inv s \<Longrightarrow> \<exists>r. fifo_run step xs s = Some r"
  using step_total by (intro run_total_on)

end

end
