(* ===== verification/Ring.thy ===== *)
theory Ring
  imports Fifo
begin

text \<open>
  The ring buffer (src/utils/buffers/kkring/ring_buffer.go).  The underlying array is a list of
  bytes; \<open>size\<close>, \<open>r\<close> and \<open>w\<close> are natural numbers (they are never negative, and sizes stay far
  below the range of \<open>int\<close>).  \<open>bsPool.Get\<close> and \<open>math.CeilToPowerOfTwo\<close> of the gnet package are
  parameters: the first returns a slice of the length asked for, the second a size that is large
  enough.
\<close>

record gnet =
  g_Get :: "nat \<Rightarrow> byte list"
  g_CeilToPowerOfTwo :: "int \<Rightarrow> nat"

definition gnet_ok :: "gnet \<Rightarrow> bool" where
  "gnet_ok g \<longleftrightarrow> (\<forall>n. length (g_Get g n) = n) \<and> (\<forall>n. n \<noteq> 0 \<longrightarrow> 0 < g_CeilToPowerOfTwo g n \<and> n \<le> int (g_CeilToPowerOfTwo g n))"

datatype ring_error = ErrIsEmpty | EOF | ErrShortWrite | IOError nat

definition MinRead :: nat where "MinRead = 512"
definition DefaultBufferSize :: nat where "DefaultBufferSize = 1024"
definition bufferGrowThreshold :: nat where "bufferGrowThreshold = 4 * 1024"

record Buffer =
  rb_buf :: "byte list"
  rb_size :: nat
  rb_r :: nat
  rb_w :: nat
  rb_isEmpty :: bool

definition ring_New :: "gnet \<Rightarrow> int \<Rightarrow> Buffer" where
  "ring_New g sz =
     (if sz = 0 then \<lparr>rb_buf = [], rb_size = 0, rb_r = 0, rb_w = 0, rb_isEmpty = True\<rparr>
      else let n = g_CeilToPowerOfTwo g sz in
        \<lparr>rb_buf = replicate n 0, rb_size = n, rb_r = 0, rb_w = 0, rb_isEmpty = True\<rparr>)"

definition ring_Reset :: "Buffer \<Rightarrow> Buffer" where
  "ring_Reset rb = rb\<lparr>rb_isEmpty := True, rb_r := 0, rb_w := 0\<rparr>"

definition ring_peekAll :: "Buffer \<Rightarrow> (byte list \<times> byte list) go" where
  "ring_peekAll rb =
     (if rb_isEmpty rb then ret ([], [])
      else if rb_w rb > rb_r rb then do {
        head \<leftarrow> slice_go (rb_buf rb) (rb_r rb) (rb_w rb);
        ret (head, []) }
      else do {
        head \<leftarrow> slice_go (rb_buf rb) (rb_r rb) (length (rb_buf rb));
        if rb_w rb \<noteq> 0 then do {
          tail \<leftarrow> slice_go (rb_buf rb) 0 (rb_w rb);
          ret (head, tail) }
        else ret (head, []) })"

definition ring_Peek :: "Buffer \<Rightarrow> int \<Rightarrow> (byte list \<times> byte list) go" where
  "ring_Peek rb n =
     (if rb_isEmpty rb then ret ([], [])
      else if n \<le> 0 then ring_peekAll rb
      else if rb_w rb > rb_r rb then
        let m = rb_w rb - rb_r rb; m = (if int m > n then nat n else m) in do {
          head \<leftarrow> slice_go (rb_buf rb) (rb_r rb) (rb_r rb + m);
          ret (head, []) }
      else
        let m = rb_size rb - rb_r rb + rb_w rb; m = (if int m > n then nat n else m) in
        if rb_r rb + m \<le> rb_size rb then do {
          head \<leftarrow> slice_go (rb_buf rb) (rb_r rb) (rb_r rb + m);
          ret (head, []) }
        else
          let c1 = rb_size rb - rb_r rb in do {
            head \<leftarrow> slice_go (rb_buf rb) (rb_r rb) (length (rb_buf rb));
            let c2 = m - c1;
            tail \<leftarrow> slice_go (rb_buf rb) 0 c2;
            ret (head, tail) })"

definition ring_Buffered :: "Buffer \<Rightarrow> nat" where
  "ring_Buffered rb =
     (if rb_r rb = rb_w rb then (if rb_isEmpty rb then 0 else rb_size rb)
      else if rb_w rb > rb_r rb then rb_w rb - rb_r rb
      else rb_size rb - rb_r rb + rb_w rb)"

definition ring_Available :: "Buffer \<Rightarrow> nat" where
  "ring_Available rb =
     (if rb_r rb = rb_w rb then (if rb_isEmpty rb then rb_size rb else 0)
      else if rb_w rb < rb_r rb then rb_r rb - rb_w rb
      else rb_size rb - rb_w rb + rb_r rb)"

definition ring_Len :: "Buffer \<Rightarrow> nat" where
  "ring_Len rb = length (rb_buf rb)"

definition ring_Cap :: "Buffer \<Rightarrow> nat" where
  "ring_Cap rb = rb_size rb"

definition ring_IsFull :: "Buffer \<Rightarrow> bool" where
  "ring_IsFull rb \<longleftrightarrow> rb_r rb = rb_w rb \<and> \<not> rb_isEmpty rb"

definition ring_IsEmpty :: "Buffer \<Rightarrow> bool" where
  "ring_IsEmpty rb = rb_isEmpty rb"

definition ring_Discard :: "Buffer \<Rightarrow> int \<Rightarrow> nat \<times> Buffer" where
  "ring_Discard rb n =
     (if n \<le> 0 then (0, rb)
      else let discarded = ring_Buffered rb in
        if n < int discarded then (nat n, rb\<lparr>rb_r := (rb_r rb + nat n) mod rb_size rb\<rparr>)
        else (discarded, ring_Reset rb))"

text \<open>\<open>Read(p)\<close>: the count, the error, what \<open>p\<close> holds afterwards, and the buffer.\<close>

definition ring_Read :: "Buffer \<Rightarrow> byte list \<Rightarrow> (nat \<times> ring_error option \<times> byte list \<times> Buffer) go" where
  "ring_Read rb p =
     (if length p = 0 then ret (0, None, p, rb)
      else if rb_isEmpty rb then ret (0, Some ErrIsEmpty, p, rb)
      else if rb_w rb > rb_r rb then
        let n = rb_w rb - rb_r rb; n = (if n > length p then length p else n) in do {
          s \<leftarrow> slice_go (rb_buf rb) (rb_r rb) (rb_r rb + n);
          let p = copy_at p 0 s;
          let rb = rb\<lparr>rb_r := rb_r rb + n\<rparr>;
          ret (n, None, p, if rb_r rb = rb_w rb then ring_Reset rb else rb) }
      else
        let n = rb_size rb - rb_r rb + rb_w rb; n = (if n > length p then length p else n) in do {
          p \<leftarrow> (if rb_r rb + n \<le> rb_size rb then do {
                   s \<leftarrow> slice_go (rb_buf rb) (rb_r rb) (rb_r rb + n);
                   ret (copy_at p 0 s) }
                else
                  let c1 = rb_size rb - rb_r rb in do {
                    s \<leftarrow> slice_go (rb_buf rb) (rb_r rb) (length (rb_buf rb));
                    let p = copy_at p 0 s;
                    let c2 = n - c1;
                    t \<leftarrow> slice_go (rb_buf rb) 0 c2;
                    copy_go p c1 t });
          let rb = rb\<lparr>rb_r := (rb_r rb + n) mod rb_size rb\<rparr>;
          ret (n, None, p, if rb_r rb = rb_w rb then ring_Reset rb else rb) })"

definition ring_ReadByte :: "Buffer \<Rightarrow> (byte \<times> ring_error option \<times> Buffer) go" where
  "ring_ReadByte rb =
     (if rb_isEmpty rb then ret (0, Some ErrIsEmpty, rb)
      else do {
        b \<leftarrow> index_go (rb_buf rb) (rb_r rb);
        let rb = rb\<lparr>rb_r := rb_r rb + 1\<rparr>;
        let rb = (if rb_r rb = rb_size rb then rb\<lparr>rb_r := 0\<rparr> else rb);
        ret (b, None, if rb_r rb = rb_w rb then ring_Reset rb else rb) })"

text \<open>
  The loop of \<open>grow\<close>, \<open>for 0 < n && n < newCap { n += n / 4 }\<close>, which would not end for
  \<open>0 < n < 4\<close>; \<open>None\<close> is then its value.
\<close>

partial_function (option) grow_loop :: "nat \<Rightarrow> nat \<Rightarrow> nat option" where
  "grow_loop newCap n = (if 0 < n \<and> n < newCap then grow_loop newCap (n + n div 4) else Some n)"

declare grow_loop.simps [code]

definition ring_grow :: "gnet \<Rightarrow> Buffer \<Rightarrow> nat \<Rightarrow> Buffer go" where
  "ring_grow g rb newCap = do {
     newCap \<leftarrow>
       (let n = rb_size rb in
        if n = 0 then
          ret (if newCap \<le> DefaultBufferSize then DefaultBufferSize else g_CeilToPowerOfTwo g (int newCap))
        else
          let doubleCap = n + n in
          if newCap \<le> doubleCap then
            if n < bufferGrowThreshold then ret doubleCap
            else do {
              n \<leftarrow> grow_loop newCap n;
              ret (if n > 0 then n else newCap) }
          else ret newCap);
     let newBuf = g_Get g newCap;
     let oldLen = ring_Buffered rb;
     (_, _, newBuf, rb) \<leftarrow> ring_Read rb newBuf;
     let rb = rb\<lparr>rb_buf := newBuf, rb_r := 0, rb_w := oldLen, rb_size := newCap\<rparr>;
     ret (if rb_w rb > 0 then rb\<lparr>rb_isEmpty := False\<rparr> else rb) }"

definition ring_Write :: "gnet \<Rightarrow> Buffer \<Rightarrow> byte list \<Rightarrow> (nat \<times> Buffer) go" where
  "ring_Write g rb p =
     (let n = length p in
      if n = 0 then ret (0, rb)
      else
        let free = ring_Available rb in do {
          rb \<leftarrow> (if n > free then ring_grow g rb (rb_size rb + n - free) else ret rb);
          rb \<leftarrow>
            (if rb_w rb \<ge> rb_r rb then
               let c1 = rb_size rb - rb_w rb in
               if c1 \<ge> n then do {
                 buf \<leftarrow> copy_go (rb_buf rb) (rb_w rb) p;
                 ret (rb\<lparr>rb_buf := buf, rb_w := rb_w rb + n\<rparr>) }
               else do {
                 p1 \<leftarrow> slice_go p 0 c1;
                 buf \<leftarrow> copy_go (rb_buf rb) (rb_w rb) p1;
                 let c2 = n - c1;
                 p2 \<leftarrow> slice_go p c1 (length p);
                 ret (rb\<lparr>rb_buf := copy_at buf 0 p2, rb_w := c2\<rparr>) }
             else do {
               buf \<leftarrow> copy_go (rb_buf rb) (rb_w rb) p;
               ret (rb\<lparr>rb_buf := buf, rb_w := rb_w rb + n\<rparr>) });
          let rb = (if rb_w rb = rb_size rb then rb\<lparr>rb_w := 0\<rparr> else rb);
          ret (n, rb\<lparr>rb_isEmpty := False\<rparr>) })"

definition ring_WriteByte :: "gnet \<Rightarrow> Buffer \<Rightarrow> byte \<Rightarrow> Buffer go" where
  "ring_WriteByte g rb c = do {
     rb \<leftarrow> (if ring_Available rb < 1 then ring_grow g rb 1 else ret rb);
     buf \<leftarrow> store_go (rb_buf rb) (rb_w rb) c;
     let rb = rb\<lparr>rb_buf := buf, rb_w := rb_w rb + 1\<rparr>;
     let rb = (if rb_w rb = rb_size rb then rb\<lparr>rb_w := 0\<rparr> else rb);
     ret (rb\<lparr>rb_isEmpty := False\<rparr>) }"

text \<open>\<open>WriteString\<close> writes the bytes of the string.\<close>

definition ring_WriteString :: "gnet \<Rightarrow> Buffer \<Rightarrow> byte list \<Rightarrow> (nat \<times> Buffer) go" where
  "ring_WriteString g rb s = ring_Write g rb s"

definition ring_Bytes :: "Buffer \<Rightarrow> byte list go" where
  "ring_Bytes rb =
     (if rb_isEmpty rb then ret []
      else if rb_w rb = rb_r rb then do {
        a \<leftarrow> slice_go (rb_buf rb) (rb_r rb) (length (rb_buf rb));
        b \<leftarrow> slice_go (rb_buf rb) 0 (rb_w rb);
        ret (a @ b) }
      else if rb_w rb > rb_r rb then slice_go (rb_buf rb) (rb_r rb) (rb_w rb)
      else do {
        a \<leftarrow> slice_go (rb_buf rb) (rb_r rb) (length (rb_buf rb));
        if rb_w rb \<noteq> 0 then do {
          b \<leftarrow> slice_go (rb_buf rb) 0 (rb_w rb);
          ret (a @ b) }
        else ret a })"

text \<open>
  \<open>WriteTo(w)\<close>: the \<open>k\<close>-th call of the writer answers the bytes given with a count and an
  error.  The result is the total, the error and the buffer.
\<close>

type_synonym writer = "nat \<Rightarrow> byte list \<Rightarrow> nat \<times> ring_error option"

definition ring_WriteTo :: "Buffer \<Rightarrow> writer \<Rightarrow> (nat \<times> ring_error option \<times> Buffer) go" where
  "ring_WriteTo rb wr =
     (if rb_isEmpty rb then ret (0, Some ErrIsEmpty, rb)
      else if rb_w rb > rb_r rb then
        let n = rb_w rb - rb_r rb in do {
          s \<leftarrow> slice_go (rb_buf rb) (rb_r rb) (rb_r rb + n);
          let (m, err) = wr 0 s;
          if m > n then panic
          else
            let rb = rb\<lparr>rb_r := rb_r rb + m\<rparr>;
                rb = (if rb_r rb = rb_w rb then ring_Reset rb else rb)
            in ret (m, if err \<noteq> None then err else if \<not> rb_isEmpty rb then Some ErrShortWrite else None, rb) }
      else
        let n = rb_size rb - rb_r rb + rb_w rb in
        if rb_r rb + n \<le> rb_size rb then do {
          s \<leftarrow> slice_go (rb_buf rb) (rb_r rb) (rb_r rb + n);
          let (m, err) = wr 0 s;
          if m > n then panic
          else
            let rb = rb\<lparr>rb_r := (rb_r rb + m) mod rb_size rb\<rparr>;
                rb = (if rb_r rb = rb_w rb then ring_Reset rb else rb)
            in ret (m, if err \<noteq> None then err else if \<not> rb_isEmpty rb then Some ErrShortWrite else None, rb) }
        else
          let c1 = rb_size rb - rb_r rb in do {
            s \<leftarrow> slice_go (rb_buf rb) (rb_r rb) (length (rb_buf rb));
            let (m, err) = wr 0 s;
            if m > c1 then panic
            else
              let rb = rb\<lparr>rb_r := (rb_r rb + m) mod rb_size rb\<rparr> in
              if err \<noteq> None then ret (m, err, rb)
              else if m < c1 then ret (m, Some ErrShortWrite, rb)
              else
                let cum = m; c2 = n - c1 in do {
                  t \<leftarrow> slice_go (rb_buf rb) 0 c2;
                  let (m, err) = wr 1 t;
                  if m > c2 then panic
                  else
                    let rb = rb\<lparr>rb_r := m\<rparr>; cum = cum + m;
                        rb = (if rb_r rb = rb_w rb then ring_Reset rb else rb)
                    in ret (cum, if err \<noteq> None then err else if \<not> rb_isEmpty rb then Some ErrShortWrite else None, rb) } })"

text \<open>
  \<open>ReadFrom(r)\<close>: the \<open>k\<close>-th call of the reader, given a slice of some length, fills its front
  with bytes and returns a count and an error.  One round of the loop makes one or two calls; it
  ends with a result (\<open>Inl\<close>) or goes on (\<open>Inr\<close>, with the number of calls made).  Without an end
  of the input the loop does not return.
\<close>

type_synonym reader = "nat \<Rightarrow> nat \<Rightarrow> byte list \<times> int \<times> ring_error option"

definition read_into :: "reader \<Rightarrow> nat \<Rightarrow> Buffer \<Rightarrow> nat \<Rightarrow> nat \<Rightarrow> (Buffer \<times> nat \<times> ring_error option) go" where
  "read_into rd k rb lo hi = do {
     s \<leftarrow> slice_go (rb_buf rb) lo hi;
     let (bs, m, err) = rd k (hi - lo);
     let rb = rb\<lparr>rb_buf := take lo (rb_buf rb) @ copy_at s 0 bs @ drop hi (rb_buf rb)\<rparr>;
     if m < 0 then panic else ret (rb, nat m, err) }"

definition read_err :: "ring_error option \<Rightarrow> ring_error option" where
  "read_err err = (if err = Some EOF then None else err)"

definition read_round ::
  "gnet \<Rightarrow> reader \<Rightarrow> nat \<Rightarrow> Buffer \<Rightarrow> nat \<Rightarrow> (nat \<times> ring_error option \<times> Buffer + nat \<times> Buffer \<times> nat) go" where
  "read_round g rd k rb n = do {
     rb \<leftarrow> (if ring_Available rb < MinRead then ring_grow g rb (ring_Buffered rb + MinRead) else ret rb);
     if rb_w rb \<ge> rb_r rb then do {
       (rb, m, err) \<leftarrow> read_into rd k rb (rb_w rb) (length (rb_buf rb));
       let rb = rb\<lparr>rb_isEmpty := False, rb_w := (rb_w rb + m) mod rb_size rb\<rparr>;
       let n = n + m;
       if err \<noteq> None then ret (Inl (n, read_err err, rb))
       else do {
         (rb, m, err) \<leftarrow> read_into rd (k + 1) rb 0 (rb_r rb);
         let rb = rb\<lparr>rb_w := (rb_w rb + m) mod rb_size rb\<rparr>;
         let n = n + m;
         if err \<noteq> None then ret (Inl (n, read_err err, rb)) else ret (Inr (k + 2, rb, n)) } }
     else do {
       (rb, m, err) \<leftarrow> read_into rd k rb (rb_w rb) (rb_r rb);
       let rb = rb\<lparr>rb_isEmpty := False, rb_w := (rb_w rb + m) mod rb_size rb\<rparr>;
       let n = n + m;
       if err \<noteq> None then ret (Inl (n, read_err err, rb)) else ret (Inr (k + 1, rb, n)) } }"

partial_function (option) read_loop ::
  "gnet \<Rightarrow> reader \<Rightarrow> nat \<Rightarrow> Buffer \<Rightarrow> nat \<Rightarrow> (nat \<times> ring_error option \<times> Buffer) option" where
  "read_loop g rd k rb n =
     (case read_round g rd k rb n of
        None \<Rightarrow> None
      | Some (Inl x) \<Rightarrow> Some x
      | Some (Inr (k, rb, n)) \<Rightarrow> read_loop g rd k rb n)"

declare read_loop.simps [code]

definition ring_ReadFrom :: "gnet \<Rightarrow> Buffer \<Rightarrow> reader \<Rightarrow> (nat \<times> ring_error option \<times> Buffer) option" where
  "ring_ReadFrom g rb rd = read_loop g rd 0 rb 0"

subsection \<open>The contents and the invariant\<close>

definition ring_contents :: "Buffer \<Rightarrow> byte list" where
  "ring_contents rb =
     (if rb_isEmpty rb then []
      else if rb_r rb < rb_w rb then sub_slice (rb_buf rb) (rb_r rb) (rb_w rb)
      else drop (rb_r rb) (rb_buf rb) @ take (rb_w rb) (rb_buf rb))"

definition ring_inv :: "Buffer \<Rightarrow> bool" where
  "ring_inv rb \<longleftrightarrow> length (rb_buf rb) = rb_size rb \<and>
     (if rb_isEmpty rb then rb_r rb = 0 \<and> rb_w rb = 0 else rb_r rb < rb_size rb \<and> rb_w rb < rb_size rb)"

lemma ring_inv_New: "gnet_ok g \<Longrightarrow> ring_inv (ring_New g sz) \<and> ring_contents (ring_New g sz) = [] \<and> sz \<le> int (rb_size (ring_New g sz))"
  by (auto simp: ring_New_def ring_inv_def ring_contents_def gnet_ok_def Let_def)

lemma ring_Reset_simps [simp]:
  "ring_contents (ring_Reset rb) = []" "ring_inv (ring_Reset rb) = (length (rb_buf rb) = rb_size rb)"
  "rb_size (ring_Reset rb) = rb_size rb" "rb_buf (ring_Reset rb) = rb_buf rb"
  by (simp_all add: ring_Reset_def ring_contents_def ring_inv_def)

lemma ring_Buffered_contents: "ring_inv rb \<Longrightarrow> ring_Buffered rb = length (ring_contents rb)"
  by (auto simp: ring_inv_def ring_Buffered_def ring_contents_def)

lemma ring_Available_contents: "ring_inv rb \<Longrightarrow> ring_Available rb + length (ring_contents rb) = rb_size rb"
  by (auto simp: ring_inv_def ring_Available_def ring_contents_def)

lemma ring_contents_bound: "ring_inv rb \<Longrightarrow> length (ring_contents rb) \<le> rb_size rb"
  using ring_Available_contents by fastforce

lemma ring_IsEmpty_contents: "ring_inv rb \<Longrightarrow> ring_IsEmpty rb \<longleftrightarrow> ring_contents rb = []"
  by (auto simp: ring_inv_def ring_IsEmpty_def ring_contents_def)

lemma ring_Bytes_contents: "ring_inv rb \<Longrightarrow> ring_Bytes rb = ret (ring_contents rb)"
  by (auto simp: ring_inv_def ring_Bytes_def ring_contents_def go_simps slice_to_end slice_from_start)

lemma ring_Peek_contents:
  assumes "ring_inv rb"
  shows "\<exists>head tail. ring_Peek rb n = ret (head, tail) \<and>
    head @ tail = (if n \<le> 0 then ring_contents rb else take (nat n) (ring_contents rb))"
proof (cases "rb_isEmpty rb \<or> n \<le> 0")
  case True
  have all: "\<exists>head tail. ring_peekAll rb = ret (head, tail) \<and> head @ tail = ring_contents rb"
    using assms by (cases "rb_isEmpty rb")
      (simp_all add: ring_inv_def ring_peekAll_def ring_contents_def go_simps slice_to_end slice_from_start)
  show ?thesis
  proof (cases "rb_isEmpty rb")
    case True
    then show ?thesis by (simp add: ring_Peek_def ring_contents_def)
  next
    case False
    with all \<open>rb_isEmpty rb \<or> n \<le> 0\<close> show ?thesis by (simp add: ring_Peek_def)
  qed
next
  case False
  then have "0 < n" by simp
  then obtain k where k: "n = int k" "0 < k" by (rule pos_int_cases)
  have m: "(if int m > n then nat n else m) = min m k" for m by (simp add: k)
  have inv: "length (rb_buf rb) = rb_size rb" "rb_r rb < rb_size rb" "rb_w rb < rb_size rb"
    using assms False by (auto simp: ring_inv_def)
  show ?thesis
  proof (cases "rb_r rb < rb_w rb")
    case True
    then have "ring_Peek rb n = ret (sub_slice (rb_buf rb) (rb_r rb) (rb_r rb + min (rb_w rb - rb_r rb) k), [])"
      using False inv by (simp add: ring_Peek_def Let_def m go_simps)
    moreover have "rb_r rb + min (rb_w rb - rb_r rb) k = min (rb_w rb) (rb_r rb + k)" using True by simp
    ultimately show ?thesis using True False k by (simp add: ring_contents_def take_slice)
  next
    case wrap: False
    define M where "M = min (rb_size rb - rb_r rb + rb_w rb) k"
    have M: "M - (rb_size rb - rb_r rb) \<le> rb_w rb" by (simp add: M_def)
    have peek: "ring_Peek rb n =
        (if rb_r rb + M \<le> rb_size rb then ret (sub_slice (rb_buf rb) (rb_r rb) (rb_r rb + M), [])
         else ret (drop (rb_r rb) (rb_buf rb), take (M - (rb_size rb - rb_r rb)) (rb_buf rb)))"
      unfolding ring_Peek_def Let_def m M_def [symmetric]
      using False wrap inv M by (simp add: go_simps slice_to_end slice_from_start)
    have c: "ring_contents rb = drop (rb_r rb) (rb_buf rb) @ take (rb_w rb) (rb_buf rb)"
      using wrap False by (simp add: ring_contents_def)
    have "M = min (length (ring_contents rb)) k" using inv by (simp add: c M_def)
    then have "take k (ring_contents rb) = take M (ring_contents rb)" by (simp add: min_def)
    also have "\<dots> = sub_slice (rb_buf rb) (rb_r rb) (rb_r rb + M) @ take (M - (rb_size rb - rb_r rb)) (rb_buf rb)"
      using M inv(1) by (simp add: c sub_slice_def min_absorb1)
    finally have "take k (ring_contents rb) =
        sub_slice (rb_buf rb) (rb_r rb) (rb_r rb + M) @ take (M - (rb_size rb - rb_r rb)) (rb_buf rb)" .
    moreover have "sub_slice (rb_buf rb) (rb_r rb) (rb_r rb + M) = drop (rb_r rb) (rb_buf rb)" if "\<not> rb_r rb + M \<le> rb_size rb"
      using that inv(1) by (simp add: sub_slice_def)
    ultimately show ?thesis using False k(1)
      by (cases "rb_r rb + M \<le> rb_size rb") (simp_all add: peek [unfolded k(1)])
  qed
qed

subsection \<open>Reading\<close>

lemma ring_busy:
  "ring_inv rb \<Longrightarrow> \<not> rb_isEmpty rb \<Longrightarrow> length (rb_buf rb) = rb_size rb \<and> rb_r rb < rb_size rb \<and> rb_w rb < rb_size rb"
  by (simp add: ring_inv_def)

lemma ring_contents_busy: "ring_inv rb \<Longrightarrow> \<not> rb_isEmpty rb \<Longrightarrow> ring_contents rb \<noteq> []"
  using ring_IsEmpty_contents [of rb] by (simp add: ring_IsEmpty_def)

text \<open>Advancing the read position by \<open>n\<close> drops \<open>n\<close> bytes.\<close>

lemma ring_advance:
  assumes "ring_inv rb" "\<not> rb_isEmpty rb" "n < length (ring_contents rb)"
  defines "rb' \<equiv> rb\<lparr>rb_r := (rb_r rb + n) mod rb_size rb\<rparr>"
  shows "ring_inv rb' \<and> ring_contents rb' = drop n (ring_contents rb)"
proof -
  note b = ring_busy [OF assms(1,2)]
  consider (straight) "rb_r rb < rb_w rb" | (left) "rb_w rb \<le> rb_r rb" "rb_r rb + n < rb_size rb"
    | (over) "rb_w rb \<le> rb_r rb" "rb_size rb \<le> rb_r rb + n" by linarith
  then show ?thesis
  proof cases
    case straight
    with assms(2,3) b have n: "rb_r rb + n < rb_w rb" by (simp add: ring_contents_def)
    with b straight assms(2) show ?thesis
      by (simp add: ring_inv_def ring_contents_def rb'_def drop_slice)
  next
    case left
    with b assms(2) show ?thesis
      by (simp add: ring_inv_def ring_contents_def rb'_def add.commute)
  next
    case over
    with assms(2,3) b have n: "rb_r rb + n - rb_size rb < rb_w rb" "rb_r rb + n < rb_size rb + rb_size rb"
      by (auto simp: ring_contents_def)
    from over n(2) have m: "(rb_r rb + n) mod rb_size rb = rb_r rb + n - rb_size rb"
      by (simp add: mod_if)
    have "drop n (ring_contents rb) = sub_slice (rb_buf rb) (rb_r rb + n - rb_size rb) (rb_w rb)"
      using over b assms(2) by (simp add: ring_contents_def sub_slice_def drop_take add.commute)
    with n(1) b over(1) m assms(2) show ?thesis by (simp add: ring_inv_def ring_contents_def rb'_def)
  qed
qed

lemma ring_Discard_contents:
  assumes "ring_inv rb"
  shows "ring_inv (snd (ring_Discard rb n)) \<and>
    ring_contents (snd (ring_Discard rb n)) = drop (nat n) (ring_contents rb) \<and>
    fst (ring_Discard rb n) = min (nat n) (length (ring_contents rb))"
proof (cases "0 < n \<and> n < int (length (ring_contents rb))")
  case True
  then have "\<not> rb_isEmpty rb" "nat n < length (ring_contents rb)" by (auto simp: ring_contents_def)
  from ring_advance [OF assms this] True show ?thesis
    by (simp add: ring_Discard_def ring_Buffered_contents [OF assms] Let_def min_def nat_le_iff)
next
  case False
  have "length (rb_buf rb) = rb_size rb" using assms by (simp add: ring_inv_def)
  with False assms show ?thesis
    by (cases "n \<le> 0") (simp_all add: ring_Discard_def ring_Buffered_contents Let_def min_def nat_le_iff)
qed

text \<open>The bytes the two branches of \<open>Read\<close> copy.\<close>

lemma ring_front_wrap:
  assumes "ring_inv rb" "\<not> rb_isEmpty rb" "rb_w rb \<le> rb_r rb" "n \<le> length (ring_contents rb)"
  shows "take n (ring_contents rb) =
    (if rb_r rb + n \<le> rb_size rb then sub_slice (rb_buf rb) (rb_r rb) (rb_r rb + n)
     else drop (rb_r rb) (rb_buf rb) @ take (n - (rb_size rb - rb_r rb)) (rb_buf rb))"
  using ring_busy [OF assms(1,2)] assms(2-4)
  by (auto simp: ring_contents_def sub_slice_def min_def)

lemma ring_full_gap:
  assumes "ring_inv rb" "\<not> rb_isEmpty rb" "length (ring_contents rb) < rb_size rb"
  shows "rb_r rb \<noteq> rb_w rb"
  using ring_Buffered_contents [OF assms(1)] assms(2,3) by (auto simp: ring_Buffered_def)

lemma ring_after_read:
  assumes "ring_inv rb" "\<not> rb_isEmpty rb" "0 < n" "n \<le> length (ring_contents rb)"
  defines "rb' \<equiv> rb\<lparr>rb_r := (rb_r rb + n) mod rb_size rb\<rparr>"
  shows "let rb'' = (if rb_r rb' = rb_w rb' then ring_Reset rb' else rb') in
    ring_inv rb'' \<and> ring_contents rb'' = drop n (ring_contents rb) \<and> rb_size rb'' = rb_size rb"
proof (cases "n < length (ring_contents rb)")
  case True
  note a = ring_advance [OF assms(1,2) True, folded rb'_def]
  have "length (ring_contents rb') < rb_size rb'"
    using a True assms(3) ring_contents_bound [OF assms(1)] by (simp add: rb'_def)
  with a assms(2) have "rb_r rb' \<noteq> rb_w rb'" by (intro ring_full_gap) (auto simp: rb'_def)
  with a show ?thesis by (simp add: rb'_def)
next
  case False
  with assms(4) have n: "n = length (ring_contents rb)" by simp
  note b = ring_busy [OF assms(1,2)]
  have "rb_r rb + n = (if rb_r rb < rb_w rb then rb_w rb else rb_size rb + rb_w rb)"
    using b assms(2) by (auto simp: n ring_contents_def)
  then have "rb_r rb' = rb_w rb'" using b by (auto simp: rb'_def)
  with b n show ?thesis by (simp add: rb'_def)
qed

lemma ring_Read_spec:
  assumes "ring_inv rb"
  shows "\<exists>rb'. ring_Read rb p =
      ret (min (length p) (length (ring_contents rb)),
           if p \<noteq> [] \<and> ring_contents rb = [] then Some ErrIsEmpty else None,
           copy_at p 0 (take (length p) (ring_contents rb)), rb') \<and>
    ring_inv rb' \<and> ring_contents rb' = drop (length p) (ring_contents rb) \<and> rb_size rb' = rb_size rb"
proof (cases "p = [] \<or> rb_isEmpty rb")
  case True
  show ?thesis
  proof (cases "p = []")
    case True
    with assms show ?thesis by (simp add: ring_Read_def)
  next
    case False
    with True assms show ?thesis by (simp add: ring_Read_def ring_contents_def)
  qed
next
  case False
  then have busy: "\<not> rb_isEmpty rb" and p: "p \<noteq> []" by auto
  note b = ring_busy [OF assms busy]
  define n where "n = min (length p) (length (ring_contents rb))"
  have n: "0 < n" "n \<le> length (ring_contents rb)"
    using p ring_contents_busy [OF assms busy] by (auto simp: n_def)
  have tk: "take (length p) (ring_contents rb) = take n (ring_contents rb)" by (simp add: n_def min_def)
  have dr: "drop (length p) (ring_contents rb) = drop n (ring_contents rb)" by (simp add: n_def min_def)
  define rb1 where "rb1 = rb\<lparr>rb_r := (rb_r rb + n) mod rb_size rb\<rparr>"
  note after = ring_after_read [OF assms busy n, folded rb1_def, unfolded Let_def]
  have "ring_Read rb p = ret (n, None, copy_at p 0 (take n (ring_contents rb)), if rb_r rb1 = rb_w rb1 then ring_Reset rb1 else rb1)"
  proof (cases "rb_r rb < rb_w rb")
    case True
    then have len: "length (ring_contents rb) = rb_w rb - rb_r rb" using b busy by (simp add: ring_contents_def)
    have c: "(if rb_w rb - rb_r rb > length p then length p else rb_w rb - rb_r rb) = n"
      by (simp add: n_def len min_def)
    have "rb_r rb + n \<le> rb_w rb" using n(2) len True by simp
    moreover from this have "take n (ring_contents rb) = sub_slice (rb_buf rb) (rb_r rb) (rb_r rb + n)"
      using True busy by (simp add: ring_contents_def take_slice min_absorb2)
    ultimately show ?thesis
      unfolding ring_Read_def Let_def c using True b p busy by (simp add: go_simps rb1_def)
  next
    case wrap: False
    then have len: "length (ring_contents rb) = rb_size rb - rb_r rb + rb_w rb" using b busy by (simp add: ring_contents_def)
    have c: "(if rb_size rb - rb_r rb + rb_w rb > length p then length p else rb_size rb - rb_r rb + rb_w rb) = n"
      by (simp add: n_def len min_def)
    have f: "take n (ring_contents rb) =
      (if rb_r rb + n \<le> rb_size rb then sub_slice (rb_buf rb) (rb_r rb) (rb_r rb + n)
       else drop (rb_r rb) (rb_buf rb) @ take (n - (rb_size rb - rb_r rb)) (rb_buf rb))"
      using wrap by (intro ring_front_wrap [OF assms busy _ n(2)]) simp
    have le: "n \<le> length p" by (simp add: n_def)
    show ?thesis
    proof (cases "rb_r rb + n \<le> rb_size rb")
      case True
      then show ?thesis
        unfolding ring_Read_def Let_def c using wrap b p busy f by (simp add: go_simps rb1_def)
    next
      case False
      let ?c1 = "rb_size rb - rb_r rb"
      have c1: "?c1 \<le> n" "n - ?c1 \<le> rb_size rb" "?c1 \<le> length p" using False le n(2) len b by auto
      have "copy_at (copy_at p 0 (drop (rb_r rb) (rb_buf rb))) ?c1 (take (n - ?c1) (rb_buf rb)) =
          copy_at p 0 (drop (rb_r rb) (rb_buf rb) @ take (n - ?c1) (rb_buf rb))"
        using b c1 le False by (simp add: copy_at_def min_absorb1 min_absorb2)
      then show ?thesis
        unfolding ring_Read_def Let_def c using False wrap b p busy f c1
        by (simp add: go_simps rb1_def slice_to_end slice_from_start)
    qed
  qed
  with after show ?thesis
    using ring_contents_busy [OF assms busy] unfolding tk dr n_def [symmetric] by simp
qed

lemma ring_ReadByte_spec:
  assumes "ring_inv rb"
  shows "\<exists>rb'. ring_ReadByte rb =
      (case ring_contents rb of [] \<Rightarrow> ret (0, Some ErrIsEmpty, rb') | b # bs \<Rightarrow> ret (b, None, rb')) \<and>
    ring_inv rb' \<and> ring_contents rb' = tl (ring_contents rb) \<and> rb_size rb' = rb_size rb"
proof (cases "rb_isEmpty rb")
  case True
  with assms show ?thesis by (simp add: ring_ReadByte_def ring_contents_def)
next
  case False
  note b = ring_busy [OF assms False]
  have ne: "ring_contents rb \<noteq> []" using ring_contents_busy [OF assms False] .
  then have n: "0 < (1 :: nat)" "1 \<le> length (ring_contents rb)" by (simp_all add: Suc_le_eq)
  define rb1 where "rb1 = rb\<lparr>rb_r := (rb_r rb + 1) mod rb_size rb\<rparr>"
  note after = ring_after_read [OF assms False n, folded rb1_def, unfolded Let_def]
  have r1: "(if rb_r (rb\<lparr>rb_r := rb_r rb + 1\<rparr>) = rb_size (rb\<lparr>rb_r := rb_r rb + 1\<rparr>) then (rb\<lparr>rb_r := rb_r rb + 1\<rparr>)\<lparr>rb_r := 0\<rparr>
      else rb\<lparr>rb_r := rb_r rb + 1\<rparr>) = rb1"
    using b by (auto simp: rb1_def)
  have "hd (ring_contents rb) = rb_buf rb ! rb_r rb"
    using b False by (auto simp: ring_contents_def hd_drop_conv_nth sub_slice_def hd_append)
  with ne obtain bs where "ring_contents rb = rb_buf rb ! rb_r rb # bs" by (metis list.collapse)
  moreover have "ring_ReadByte rb = ret (rb_buf rb ! rb_r rb, None, if rb_r rb1 = rb_w rb1 then ring_Reset rb1 else rb1)"
    unfolding ring_ReadByte_def Let_def r1 using b False by (simp add: go_simps)
  ultimately show ?thesis using after by simp
qed

subsection \<open>Growing and writing\<close>

lemma grow_loop_stops: "4 \<le> n \<Longrightarrow> \<exists>m. grow_loop newCap n = Some m \<and> newCap \<le> m \<and> n \<le> m \<and> (newCap \<le> n \<longrightarrow> m = n)"
proof (induction "newCap - n" arbitrary: n rule: less_induct)
  case less
  show ?case
  proof (cases "n < newCap")
    case False
    then show ?thesis by (subst grow_loop.simps) simp
  next
    case True
    moreover have "0 < n div 4" using less.prems by (simp add: div_greater_zero_iff)
    ultimately show ?thesis
      using less.hyps [of "n + n div 4"] less.prems by (subst grow_loop.simps) fastforce
  qed
qed

text \<open>
  A grown buffer holds the same bytes, from its start.  It has the capacity asked for, but not
  always a larger one.
\<close>

lemma ring_grow_spec:
  assumes "ring_inv rb" "gnet_ok g" "0 < c"
  shows "\<exists>buf N. ring_grow g rb c = ret \<lparr>rb_buf = buf, rb_size = N, rb_r = 0, rb_w = length (ring_contents rb),
        rb_isEmpty = (ring_contents rb = [])\<rparr> \<and>
    length buf = N \<and> take (length (ring_contents rb)) buf = ring_contents rb \<and> rb_size rb \<le> N \<and> c \<le> N \<and>
    (rb_size rb < bufferGrowThreshold \<longrightarrow> rb_size rb < N) \<and>
    (bufferGrowThreshold \<le> rb_size rb \<and> c \<le> rb_size rb \<longrightarrow> N = rb_size rb)"
proof -
  define sized where "sized = (let n = rb_size rb in
        if n = 0 then
          ret (if c \<le> DefaultBufferSize then DefaultBufferSize else g_CeilToPowerOfTwo g (int c))
        else
          let doubleCap = n + n in
          if c \<le> doubleCap then
            if n < bufferGrowThreshold then ret doubleCap
            else do {
              n \<leftarrow> grow_loop c n;
              ret (if n > 0 then n else c) }
          else ret c)"
  have "\<exists>N. sized = ret N \<and> rb_size rb \<le> N \<and> c \<le> N \<and> (rb_size rb < bufferGrowThreshold \<longrightarrow> rb_size rb < N) \<and>
      (bufferGrowThreshold \<le> rb_size rb \<and> c \<le> rb_size rb \<longrightarrow> N = rb_size rb)"
  proof (cases "rb_size rb \<noteq> 0 \<and> c \<le> rb_size rb + rb_size rb \<and> bufferGrowThreshold \<le> rb_size rb")
    case True
    with grow_loop_stops [of "rb_size rb" c] obtain m where "grow_loop c (rb_size rb) = Some m" "c \<le> m" "rb_size rb \<le> m"
      "c \<le> rb_size rb \<longrightarrow> m = rb_size rb" by (auto simp: bufferGrowThreshold_def)
    with True show ?thesis by (simp add: sized_def Let_def)
  next
    case False
    moreover have "c \<le> g_CeilToPowerOfTwo g (int c)"
      using assms(2,3) by (metis gnet_ok_def of_nat_0_eq_iff of_nat_le_iff neq0_conv)
    ultimately show ?thesis using assms(3) by (auto simp: sized_def Let_def DefaultBufferSize_def bufferGrowThreshold_def)
  qed
  then obtain N where N: "sized = ret N" "rb_size rb \<le> N" "c \<le> N"
    "rb_size rb < bufferGrowThreshold \<longrightarrow> rb_size rb < N"
    "bufferGrowThreshold \<le> rb_size rb \<and> c \<le> rb_size rb \<longrightarrow> N = rb_size rb" by blast
  let ?C = "ring_contents rb"
  have len: "length (g_Get g N) = N" using assms(2) by (simp add: gnet_ok_def)
  have le: "length ?C \<le> N" using ring_contents_bound [OF assms(1)] N(2) by simp
  obtain rb1 where r: "ring_Read rb (g_Get g N) = ret (min N (length ?C),
      if g_Get g N \<noteq> [] \<and> ?C = [] then Some ErrIsEmpty else None, copy_at (g_Get g N) 0 ?C, rb1)"
    "ring_inv rb1" "ring_contents rb1 = []"
    using ring_Read_spec [OF assms(1), of "g_Get g N"] len le by auto
  have "rb_isEmpty rb1" using ring_IsEmpty_contents [OF r(2)] r(3) by (simp add: ring_IsEmpty_def)
  then have "ring_grow g rb c = ret \<lparr>rb_buf = copy_at (g_Get g N) 0 ?C, rb_size = N, rb_r = 0,
      rb_w = length ?C, rb_isEmpty = (?C = [])\<rparr>"
    using r(1) N(1) unfolding ring_grow_def sized_def [symmetric]
    by (simp add: ring_Buffered_contents [OF assms(1)] Let_def)
  moreover have "take (length ?C) (copy_at (g_Get g N) 0 ?C) = ?C" using len le by (simp add: copy_at_def)
  ultimately show ?thesis using N(2-) len by auto
qed

text \<open>Writing \<open>p\<close> at position \<open>w\<close> where it fits, and moving \<open>w\<close> behind it.\<close>

definition ring_put :: "Buffer \<Rightarrow> byte list \<Rightarrow> Buffer" where
  "ring_put rb p =
     (let n = length p; c1 = rb_size rb - rb_w rb in
      if rb_w rb \<ge> rb_r rb \<and> c1 < n
      then rb\<lparr>rb_buf := copy_at (copy_at (rb_buf rb) (rb_w rb) (take c1 p)) 0 (drop c1 p), rb_w := n - c1, rb_isEmpty := False\<rparr>
      else rb\<lparr>rb_buf := copy_at (rb_buf rb) (rb_w rb) p,
              rb_w := (if rb_w rb + n = rb_size rb then 0 else rb_w rb + n), rb_isEmpty := False\<rparr>)"

lemma ring_put_contents:
  assumes "ring_inv rb" "p \<noteq> []" "length (ring_contents rb) + length p \<le> rb_size rb"
  shows "ring_inv (ring_put rb p) \<and> ring_contents (ring_put rb p) = ring_contents rb @ p"
proof (cases "rb_isEmpty rb \<or> rb_r rb < rb_w rb")
  case True
  have "0 < rb_size rb" using assms(2,3) by (cases p) auto
  with True assms(1) have i: "length (rb_buf rb) = rb_size rb" "rb_r rb \<le> rb_w rb" "rb_w rb < rb_size rb"
    "rb_isEmpty rb \<longrightarrow> rb_r rb = 0 \<and> rb_w rb = 0"
    and C: "ring_contents rb = sub_slice (rb_buf rb) (rb_r rb) (rb_w rb)"
    by (auto simp: ring_inv_def ring_contents_def split: if_splits)
  have np: "0 < length p" using assms(2) by simp
  have lt: "rb_r rb < rb_w rb + length p" using i(2) np by linarith
  have fit: "rb_w rb + length p \<le> rb_size rb + rb_r rb" using assms(3) i unfolding C by simp
  consider (inside) "rb_w rb + length p < rb_size rb" | (exact) "rb_w rb + length p = rb_size rb"
    | (over) "rb_size rb < rb_w rb + length p" by linarith
  then show ?thesis
  proof cases
    case inside
    then have "\<not> rb_size rb - rb_w rb < length p" by simp
    with inside i np lt show ?thesis
      unfolding C by (simp add: ring_put_def Let_def ring_inv_def ring_contents_def)
        (simp add: copy_at_def sub_slice_def drop_take)
  next
    case exact
    then have "\<not> rb_size rb - rb_w rb < length p" by simp
    with exact i np lt show ?thesis
      unfolding C by (simp add: ring_put_def Let_def ring_inv_def ring_contents_def)
        (simp add: copy_at_def sub_slice_def drop_take)
  next
    case over
    then have "rb_size rb - rb_w rb < length p" using np by linarith
    moreover have "length p - (rb_size rb - rb_w rb) \<le> rb_r rb" using fit i by simp
    ultimately show ?thesis using over i np fit
      unfolding C by (simp add: ring_put_def Let_def ring_inv_def ring_contents_def)
        (simp add: copy_at_def sub_slice_def drop_take)
  qed
next
  case False
  note b = ring_busy [OF assms(1)]
  from False b have C: "ring_contents rb = drop (rb_r rb) (rb_buf rb) @ take (rb_w rb) (rb_buf rb)"
    by (simp add: ring_contents_def)
  have np: "0 < length p" using assms(2) by simp
  have fit: "rb_w rb + length p \<le> rb_r rb" using assms(3) b False unfolding C by simp
  with np have "rb_w rb < rb_r rb" by linarith
  moreover have "length p \<le> rb_size rb - rb_w rb" using fit b False by auto
  ultimately show ?thesis
    using False b fit np unfolding C
    by (simp add: ring_put_def Let_def ring_inv_def ring_contents_def) (simp add: copy_at_def min_absorb1)
qed

text \<open>After making room there is room, and nothing else has changed.\<close>

lemma ring_room:
  assumes "ring_inv rb" "gnet_ok g" "p \<noteq> []"
  shows "\<exists>rb'. (if length p > ring_Available rb then ring_grow g rb (rb_size rb + length p - ring_Available rb) else ret rb) = ret rb' \<and>
    ring_inv rb' \<and> ring_contents rb' = ring_contents rb \<and> length (ring_contents rb) + length p \<le> rb_size rb' \<and> rb_size rb \<le> rb_size rb'"
proof (cases "length p > ring_Available rb")
  case False
  with assms(1) ring_Available_contents [OF assms(1)] show ?thesis by auto
next
  case True
  define c where "c = rb_size rb + length p - ring_Available rb"
  have c: "c = length (ring_contents rb) + length p" using ring_Available_contents [OF assms(1)] by (simp add: c_def)
  with assms(3) have "0 < c" "length (ring_contents rb) < c" by simp_all
  with ring_grow_spec [OF assms(1,2) this(1)] obtain buf N where
    "ring_grow g rb c = ret \<lparr>rb_buf = buf, rb_size = N, rb_r = 0, rb_w = length (ring_contents rb), rb_isEmpty = (ring_contents rb = [])\<rparr>"
    "length buf = N" "take (length (ring_contents rb)) buf = ring_contents rb" "rb_size rb \<le> N" "c \<le> N" by auto
  with True c \<open>length (ring_contents rb) < c\<close> show ?thesis
    unfolding c_def [symmetric] by (auto simp: ring_inv_def ring_contents_def slice_from_start)
qed

lemma ring_Write_spec:
  assumes "ring_inv rb" "gnet_ok g"
  shows "\<exists>rb'. ring_Write g rb p = ret (length p, rb') \<and> ring_inv rb' \<and>
    ring_contents rb' = ring_contents rb @ p \<and> rb_size rb \<le> rb_size rb'"
proof (cases "p = []")
  case True
  with assms(1) show ?thesis by (simp add: ring_Write_def)
next
  case False
  from ring_room [OF assms False] obtain rb1 where
    g: "(if length p > ring_Available rb then ring_grow g rb (rb_size rb + length p - ring_Available rb) else ret rb) = ret rb1"
    and r: "ring_inv rb1" "ring_contents rb1 = ring_contents rb" "length (ring_contents rb) + length p \<le> rb_size rb1" "rb_size rb \<le> rb_size rb1"
    by blast
  have "0 < rb_size rb1" using r(3) False by (cases p) auto
  then have w: "rb_w rb1 < rb_size rb1" "length (rb_buf rb1) = rb_size rb1"
    using r(1) by (auto simp: ring_inv_def split: if_splits)
  have "ring_Write g rb p = ret (length p, ring_put rb1 p)"
    using w False r(3) unfolding ring_Write_def Let_def g
    by (auto simp: ring_put_def Let_def go_simps slice_to_end slice_from_start not_less)
  with ring_put_contents [OF r(1) False] r show ?thesis by (simp add: ring_put_def Let_def)
qed

subsection \<open>Properties of the ring buffer\<close>

datatype ring_op = OpWrite "byte list" | OpWriteByte byte | OpRead "byte list" | OpReadByte | OpDiscard int

text \<open>One operation with the bytes it takes in and gives out; a discarded byte counts as given out.\<close>

definition ring_step :: "gnet \<Rightarrow> ring_op \<Rightarrow> Buffer \<Rightarrow> (Buffer \<times> byte list \<times> byte list) go" where
  "ring_step g x rb =
     (case x of
        OpWrite p \<Rightarrow> do { (n, rb') \<leftarrow> ring_Write g rb p; ret (rb', take n p, []) }
      | OpWriteByte c \<Rightarrow> do { rb' \<leftarrow> ring_WriteByte g rb c; ret (rb', [c], []) }
      | OpRead p \<Rightarrow> do { (n, err, p, rb') \<leftarrow> ring_Read rb p; ret (rb', [], take n p) }
      | OpReadByte \<Rightarrow> do { (b, err, rb') \<leftarrow> ring_ReadByte rb; ret (rb', [], if err = None then [b] else []) }
      | OpDiscard n \<Rightarrow> (case ring_Discard rb n of (n, rb') \<Rightarrow> do {
          bs \<leftarrow> ring_Bytes rb;
          ret (rb', [], take n bs) }))"

lemma ring_WriteByte_spec:
  assumes "ring_inv rb" "gnet_ok g"
  shows "if length (ring_contents rb) = rb_size rb \<and> bufferGrowThreshold \<le> rb_size rb
    then ring_WriteByte g rb c = panic
    else \<exists>rb'. ring_WriteByte g rb c = ret rb' \<and> ring_inv rb' \<and> ring_contents rb' = ring_contents rb @ [c]"
proof -
  note av = ring_Available_contents [OF assms(1)]
  have put: "\<exists>rb'. do { buf \<leftarrow> store_go (rb_buf rb1) (rb_w rb1) c;
       let rb = rb1\<lparr>rb_buf := buf, rb_w := rb_w rb1 + 1\<rparr>;
       let rb = (if rb_w rb = rb_size rb then rb\<lparr>rb_w := 0\<rparr> else rb);
       ret (rb\<lparr>rb_isEmpty := False\<rparr>) } = ret rb' \<and> ring_inv rb' \<and> ring_contents rb' = ring_contents rb @ [c]"
    if r: "ring_inv rb1" "ring_contents rb1 = ring_contents rb" "length (ring_contents rb) < rb_size rb1" for rb1
  proof -
    have "rb_w rb1 < rb_size rb1" "length (rb_buf rb1) = rb_size rb1"
      using r(1,3) by (auto simp: ring_inv_def split: if_splits)
    moreover from this have "(rb_buf rb1)[rb_w rb1 := c] = copy_at (rb_buf rb1) (rb_w rb1) [c]"
      by (simp add: copy_at_def upd_conv_take_nth_drop)
    ultimately show ?thesis
      using ring_put_contents [of rb1 "[c]"] r by (auto simp: ring_put_def Let_def go_simps)
  qed
  show ?thesis
  proof (cases "ring_Available rb < 1")
    case False
    then have "length (ring_contents rb) < rb_size rb" using av by linarith
    with put [OF assms(1) refl] False show ?thesis by (simp add: ring_WriteByte_def)
  next
    case True
    then have full: "length (ring_contents rb) = rb_size rb" using av by linarith
    from ring_grow_spec [OF assms, of 1] obtain buf N where
      g: "ring_grow g rb 1 = ret \<lparr>rb_buf = buf, rb_size = N, rb_r = 0, rb_w = rb_size rb, rb_isEmpty = (ring_contents rb = [])\<rparr>"
      and N: "length buf = N" "take (rb_size rb) buf = ring_contents rb"
        "rb_size rb < bufferGrowThreshold \<longrightarrow> rb_size rb < N"
        "bufferGrowThreshold \<le> rb_size rb \<and> 1 \<le> rb_size rb \<longrightarrow> N = rb_size rb"
      unfolding full by auto
    show ?thesis
    proof (cases "bufferGrowThreshold \<le> rb_size rb")
      case big: True
      then have "N = rb_size rb" using N(4) by (simp add: bufferGrowThreshold_def)
      with g N(1) True big full show ?thesis
        by (simp add: ring_WriteByte_def store_go_def)
    next
      case False
      define rb1 where "rb1 = \<lparr>rb_buf = buf, rb_size = N, rb_r = 0, rb_w = rb_size rb, rb_isEmpty = (ring_contents rb = [])\<rparr>"
      have "rb_size rb = 0 \<longleftrightarrow> ring_contents rb = []" using full by auto
      then have "ring_inv rb1" "ring_contents rb1 = ring_contents rb"
        using False N by (auto simp: rb1_def ring_inv_def ring_contents_def slice_from_start)
      from put [OF this] full False N(3) g True show ?thesis
        by (simp add: ring_WriteByte_def rb1_def)
    qed
  qed
qed

interpretation ring: fifo "ring_step g" "\<lambda>rb. gnet_ok g \<and> ring_inv rb" ring_contents for g
proof
  fix rb x rb' ins outs
  assume inv: "gnet_ok g \<and> ring_inv rb" and step: "ring_step g x rb = Some (rb', ins, outs)"
  then have i: "ring_inv rb" "gnet_ok g" by simp_all
  have "ring_inv rb' \<and> ring_contents rb @ ins = outs @ ring_contents rb'"
  proof (cases x)
    case (OpWrite p)
    with step ring_Write_spec [OF i, of p] show ?thesis by (auto simp: ring_step_def)
  next
    case (OpWriteByte c)
    with step ring_WriteByte_spec [OF i, of c] show ?thesis by (auto simp: ring_step_def split: if_splits)
  next
    case (OpRead p)
    with step ring_Read_spec [OF i(1), of p] show ?thesis
      by (auto simp: ring_step_def copy_at_def min_def split: if_splits)
  next
    case OpReadByte
    with step ring_ReadByte_spec [OF i(1)] show ?thesis
      by (cases "ring_contents rb") (auto simp: ring_step_def)
  next
    case (OpDiscard n)
    with step ring_Discard_contents [OF i(1), of n] ring_Bytes_contents [OF i(1)] show ?thesis
      by (auto simp: ring_step_def min_def split: prod.splits)
  qed
  with i show "gnet_ok g \<and> ring_inv rb'" "ring_contents rb @ ins = outs @ ring_contents rb'" by simp_all
qed

lemma ring_step_total:
  assumes "gnet_ok g \<and> ring_inv rb" "\<forall>c. x \<noteq> OpWriteByte c"
  shows "\<exists>r. ring_step g x rb = Some r"
proof (cases x)
  case (OpWrite p)
  with assms ring_Write_spec [of rb g p] show ?thesis by (auto simp: ring_step_def)
next
  case (OpRead p)
  with assms ring_Read_spec [of rb p] show ?thesis by (auto simp: ring_step_def)
next
  case OpReadByte
  with assms ring_ReadByte_spec [of rb] show ?thesis by (cases "ring_contents rb") (auto simp: ring_step_def)
next
  case (OpDiscard n)
  with assms ring_Bytes_contents [of rb] show ?thesis by (auto simp: ring_step_def split: prod.split)
qed (use assms in auto)

text \<open>
  C12: the ring buffer is a faithful byte stream: over any sequence of writes, reads, discards and
  growths of a new buffer of any size, the bytes read and skipped are, in order, the first bytes
  written, \<open>Bytes\<close> shows exactly the bytes written and not yet read, and \<open>Buffered\<close> and
  \<open>IsEmpty\<close> count them; no operation but \<open>WriteByte\<close> ever panics.
\<close>

theorem ring_stream:
  assumes "gnet_ok g"
  shows "((\<forall>c. OpWriteByte c \<notin> set ops) \<longrightarrow> (\<exists>r. fifo_run (ring_step g) ops (ring_New g sz) = ret r)) \<and>
    (\<forall>rb ins outs. fifo_run (ring_step g) ops (ring_New g sz) = ret (rb, ins, outs) \<longrightarrow>
      outs = take (length outs) ins \<and> ring_Bytes rb = ret (drop (length outs) ins) \<and>
      ring_Buffered rb = length ins - length outs \<and> (ring_IsEmpty rb \<longleftrightarrow> length ins = length outs))"
proof (intro conjI impI allI)
  note new = ring_inv_New [OF assms, of sz]
  then have inv: "gnet_ok g \<and> ring_inv (ring_New g sz)" using assms by simp
  show "\<exists>r. fifo_run (ring_step g) ops (ring_New g sz) = ret r" if "\<forall>c. OpWriteByte c \<notin> set ops"
    using that by (intro ring.run_total_on [OF inv] ring_step_total) auto
  fix rb ins outs
  assume r: "fifo_run (ring_step g) ops (ring_New g sz) = ret (rb, ins, outs)"
  from ring.run_inv [OF inv r] have i: "ring_inv rb" by simp
  from ring.run_prefix [OF inv _ r] new have p: "outs = take (length outs) ins" "ring_contents rb = drop (length outs) ins"
    by blast+
  then have le: "length outs \<le> length ins" by (metis length_take min.cobounded1)
  show "outs = take (length outs) ins" by (rule p)
  show "ring_Bytes rb = ret (drop (length outs) ins)" "ring_Buffered rb = length ins - length outs"
    using i p(2) by (simp_all add: ring_Bytes_contents ring_Buffered_contents)
  show "ring_IsEmpty rb \<longleftrightarrow> length ins = length outs" using i p(2) le by (auto simp: ring_IsEmpty_contents)
qed

definition sample_gnet :: gnet where
  "sample_gnet = \<lparr>g_Get = (\<lambda>n. replicate n 7), g_CeilToPowerOfTwo = (\<lambda>n. nat \<bar>n\<bar>)\<rparr>"

lemma sample_gnet_ok: "gnet_ok sample_gnet"
  using abs_ge_self by (auto simp: gnet_ok_def sample_gnet_def)

lemma ring_stream_witness:
  "\<exists>rb. fifo_run (ring_step sample_gnet) [OpWrite [1, 2, 3, 4], OpRead [0, 0], OpWrite [5, 6, 7], OpDiscard 1, OpReadByte]
      (ring_New sample_gnet 4) = ret (rb, [1, 2, 3, 4, 5, 6, 7], [1, 2, 3, 4]) \<and>
    ring_Bytes rb = ret [5, 6, 7]"
proof -
  let ?ops = "[OpWrite [1, 2, 3, 4], OpRead [0, 0], OpWrite [5, 6, 7], OpDiscard 1, OpReadByte]"
  have run: "map_option snd (fifo_run (ring_step sample_gnet) ?ops (ring_New sample_gnet 4)) =
      Some ([1, 2, 3, 4, 5, 6, 7], [1, 2, 3, 4])"
    by code_simp
  then obtain rb where r: "fifo_run (ring_step sample_gnet) ?ops (ring_New sample_gnet 4) =
      ret (rb, [1, 2, 3, 4, 5, 6, 7], [1, 2, 3, 4])" by auto
  with ring_stream [OF sample_gnet_ok, of ?ops 4] have "ring_Bytes rb = ret [5, 6, 7]" by simp
  with r show ?thesis by blast
qed

text \<open>
  \<open>WriteByte\<close> on a full buffer of at least \<open>bufferGrowThreshold\<close> bytes panics, because
  \<open>grow(1)\<close> does not enlarge it and the store at \<open>w = size\<close> is out of range; in every other case
  it appends the byte.
\<close>

theorem WriteByte_panics_when_full:
  assumes "ring_inv rb" and "gnet_ok g"
  shows "if ring_IsFull rb \<and> bufferGrowThreshold \<le> ring_Cap rb
    then ring_WriteByte g rb c = panic
    else \<exists>rb'. ring_WriteByte g rb c = ret rb' \<and> ring_inv rb' \<and> ring_Bytes rb' = map_option (\<lambda>bs. bs @ [c]) (ring_Bytes rb)"
proof -
  have "ring_IsFull rb \<longleftrightarrow> 0 < rb_size rb \<and> length (ring_contents rb) = rb_size rb"
    using assms(1) by (auto simp: ring_inv_def ring_IsFull_def ring_contents_def split: if_splits)
  moreover have "0 < bufferGrowThreshold" by (simp add: bufferGrowThreshold_def)
  ultimately have full: "ring_IsFull rb \<and> bufferGrowThreshold \<le> ring_Cap rb \<longleftrightarrow>
      length (ring_contents rb) = rb_size rb \<and> bufferGrowThreshold \<le> rb_size rb"
    by (auto simp: ring_Cap_def)
  show ?thesis
    using ring_WriteByte_spec [OF assms, of c] ring_Bytes_contents assms(1) unfolding full
    by (auto split: if_splits)
qed

definition full_ring :: Buffer where
  "full_ring = \<lparr>rb_buf = replicate 4096 0, rb_size = 4096, rb_r = 0, rb_w = 0, rb_isEmpty = False\<rparr>"

lemma WriteByte_panics_when_full_witness: "ring_WriteByte sample_gnet full_ring 1 = panic"
proof -
  have "ring_inv full_ring" "ring_IsFull full_ring \<and> bufferGrowThreshold \<le> ring_Cap full_ring"
    by (simp_all add: ring_inv_def full_ring_def ring_IsFull_def ring_Cap_def bufferGrowThreshold_def)
  with WriteByte_panics_when_full [OF this(1) sample_gnet_ok, of 1] show ?thesis by simp
qed

lemma ring_consumed:
  assumes "ring_inv rb" "\<not> rb_isEmpty rb" "n \<le> length (ring_contents rb)" "n = 0 \<longrightarrow> rb_r rb \<noteq> rb_w rb"
  defines "rb' \<equiv> rb\<lparr>rb_r := (rb_r rb + n) mod rb_size rb\<rparr>"
  shows "ring_inv (if rb_r rb' = rb_w rb' then ring_Reset rb' else rb')"
    "ring_contents (if rb_r rb' = rb_w rb' then ring_Reset rb' else rb') = drop n (ring_contents rb)"
proof -
  let ?rb = "if rb_r rb' = rb_w rb' then ring_Reset rb' else rb'"
  have "ring_inv ?rb \<and> ring_contents ?rb = drop n (ring_contents rb)"
  proof (cases "n = 0")
    case True
    with ring_busy [OF assms(1,2)] assms(1,4) show ?thesis by (simp add: rb'_def)
  next
    case False
    then have "0 < n" by simp
    from ring_after_read [OF assms(1,2) this assms(3)] show ?thesis unfolding rb'_def Let_def by blast
  qed
  then show "ring_inv ?rb" "ring_contents ?rb = drop n (ring_contents rb)" by blast+
qed

text \<open>How \<open>WriteTo\<close> ends after its last call of the writer.\<close>

definition write_end :: "nat \<Rightarrow> ring_error option \<Rightarrow> Buffer \<Rightarrow> (nat \<times> ring_error option \<times> Buffer) go" where
  "write_end m err rb =
     (let rb = (if rb_r rb = rb_w rb then ring_Reset rb else rb)
      in ret (m, if err \<noteq> None then err else if \<not> rb_isEmpty rb then Some ErrShortWrite else None, rb))"

lemma write_end_spec:
  assumes "ring_inv rb" "\<not> rb_isEmpty rb" "n \<le> length (ring_contents rb)" "n = 0 \<longrightarrow> rb_r rb \<noteq> rb_w rb"
  shows "\<exists>err' rb'. write_end n err (rb\<lparr>rb_r := (rb_r rb + n) mod rb_size rb\<rparr>) = ret (n, err', rb') \<and> ring_inv rb' \<and>
    ring_contents rb' = drop n (ring_contents rb) \<and> (err' = None \<longrightarrow> n = length (ring_contents rb))"
proof -
  note c = ring_consumed [OF assms]
  let ?rb = "let rb' = rb\<lparr>rb_r := (rb_r rb + n) mod rb_size rb\<rparr> in if rb_r rb' = rb_w rb' then ring_Reset rb' else rb'"
  have "ring_contents ?rb = [] \<longrightarrow> n = length (ring_contents rb)" using c(2) assms(3) by (simp add: Let_def)
  moreover have "rb_isEmpty ?rb \<longrightarrow> ring_contents ?rb = []" by (simp add: ring_contents_def)
  ultimately show ?thesis using c by (auto simp: write_end_def Let_def)
qed

text \<open>
  \<open>WriteTo\<close> hands the front of the contents to the writer and keeps the rest, for any
  writer that takes no more than it is given, whether it stops short or fails; without an
  error everything has been written.  The exception is a full buffer whose data starts at
  position 0: when the writer takes nothing (a failed write), the read and write positions
  coincide, the buffer is reset, and all its data is lost.
\<close>

theorem ring_WriteTo_keeps:
  assumes "ring_inv rb" and "\<not> ring_IsEmpty rb" and "\<forall>k s. fst (wr k s) \<le> length s"
  shows "\<exists>m err rb'. ring_WriteTo rb wr = ret (m, err, rb') \<and> ring_inv rb' \<and> (err = None \<longrightarrow> ring_IsEmpty rb') \<and>
    (if rb_r rb = 0 \<and> rb_w rb = 0 \<and> fst (wr 0 (ring_contents rb)) = 0
     then m = 0 \<and> ring_contents rb' = []
     else ring_contents rb' = drop m (ring_contents rb))"
proof -
  let ?C = "ring_contents rb" and ?r = "rb_r rb" and ?w = "rb_w rb" and ?n = "rb_size rb"
  have busy: "\<not> rb_isEmpty rb" using assms(2) by (simp add: ring_IsEmpty_def)
  note b = ring_busy [OF assms(1) busy]
  consider (lost) "?r = 0" "?w = 0" "fst (wr 0 ?C) = 0"
    | (straight) "?r < ?w" | (ends) "?w = 0" "?r = 0 \<longrightarrow> fst (wr 0 ?C) \<noteq> 0" | (wraps) "0 < ?w" "?w \<le> ?r"
    by linarith
  then show ?thesis
  proof cases
    case lost
    obtain err where w0: "wr 0 ?C = (0, err)" using lost(3) by (metis prod.collapse)
    have C: "?C = rb_buf rb" using lost busy by (simp add: ring_contents_def)
    have "ring_WriteTo rb wr = ret (0, err, ring_Reset rb)"
      using lost busy b w0 [unfolded C] by (simp add: ring_WriteTo_def Let_def go_simps slice_from_start ring_Reset_def)
    with lost b show ?thesis by (simp add: ring_IsEmpty_def ring_Reset_def ring_inv_def ring_contents_def)
  next
    case straight
    have C: "?C = sub_slice (rb_buf rb) ?r ?w" using straight busy by (simp add: ring_contents_def)
    obtain m err where w0: "wr 0 ?C = (m, err)" by fastforce
    have m: "m \<le> length ?C" using assms(3) w0 by (metis fst_conv)
    then have le: "m \<le> ?w - ?r" using b by (simp add: C)
    with straight b have "?r + m < ?n" by linarith
    then have md: "(?r + m) mod ?n = ?r + m" by simp
    from le have "ring_WriteTo rb wr = write_end m err (rb\<lparr>rb_r := (?r + m) mod ?n\<rparr>)"
      using straight busy b w0 [unfolded C] unfolding md by (simp add: ring_WriteTo_def write_end_def Let_def go_simps)
    moreover from write_end_spec [OF assms(1) busy m, of err] straight obtain err' rb' where
      "write_end m err (rb\<lparr>rb_r := (?r + m) mod ?n\<rparr>) = ret (m, err', rb')" "ring_inv rb'"
      "ring_contents rb' = drop m ?C" "err' = None \<longrightarrow> m = length ?C" by auto
    ultimately show ?thesis using straight by (auto simp: ring_IsEmpty_contents)
  next
    case ends
    have C: "?C = sub_slice (rb_buf rb) ?r ?n" using ends busy b by (simp add: ring_contents_def slice_to_end)
    obtain m err where w0: "wr 0 ?C = (m, err)" by fastforce
    have m: "m \<le> length ?C" using assms(3) w0 by (metis fst_conv)
    then have "m \<le> ?n - ?r" using b by (simp add: C)
    then have "ring_WriteTo rb wr = write_end m err (rb\<lparr>rb_r := (?r + m) mod ?n\<rparr>)"
      using ends busy b w0 [unfolded C] by (simp add: ring_WriteTo_def write_end_def Let_def go_simps)
    moreover have "m = 0 \<longrightarrow> ?r \<noteq> ?w" using ends w0 by auto
    from write_end_spec [OF assms(1) busy m this, of err] obtain err' rb' where
      "write_end m err (rb\<lparr>rb_r := (?r + m) mod ?n\<rparr>) = ret (m, err', rb')" "ring_inv rb'"
      "ring_contents rb' = drop m ?C" "err' = None \<longrightarrow> m = length ?C" by auto
    ultimately show ?thesis using ends w0 by (auto simp: ring_IsEmpty_contents)
  next
    case wraps
    have C: "?C = drop ?r (rb_buf rb) @ take ?w (rb_buf rb)" using wraps busy by (simp add: ring_contents_def)
    obtain m err where w0: "wr 0 (drop ?r (rb_buf rb)) = (m, err)" by fastforce
    have m: "m \<le> ?n - ?r" using assms(3) w0 b by (metis fst_conv length_drop)
    have lC: "length ?C = ?n - ?r + ?w" using b by (simp add: C)
    show ?thesis
    proof (cases "err \<noteq> None \<or> m < ?n - ?r")
      case True
      have "m < length ?C" using m lC wraps by linarith
      note adv = ring_advance [OF assms(1) busy this]
      have "\<exists>err'. ring_WriteTo rb wr = ret (m, err', rb\<lparr>rb_r := (?r + m) mod ?n\<rparr>) \<and> err' \<noteq> None"
        using True wraps busy b w0 m by (auto simp: ring_WriteTo_def Let_def go_simps slice_to_end)
      with adv wraps show ?thesis by auto
    next
      case False
      then have m1: "m = ?n - ?r" "err = None" using m by auto
      obtain m2 err2 where w1: "wr 1 (take ?w (rb_buf rb)) = (m2, err2)" by fastforce
      have m2: "m2 \<le> ?w" using assms(3) w1 b by (metis fst_conv length_take min.bounded_iff)
      have r2: "(?r + (m + m2)) mod ?n = m2" using m1 m2 b by simp
      have "ring_WriteTo rb wr = write_end (m + m2) err2 (rb\<lparr>rb_r := (?r + (m + m2)) mod ?n\<rparr>)"
        using False wraps busy b w0 m1 w1 m2 unfolding r2
        by (simp add: ring_WriteTo_def write_end_def Let_def go_simps slice_to_end slice_from_start)
      moreover have "m + m2 \<le> length ?C" "m + m2 = 0 \<longrightarrow> ?r \<noteq> ?w" using m1 m2 lC b by auto
      from write_end_spec [OF assms(1) busy this, of err2] obtain err' rb' where
        "write_end (m + m2) err2 (rb\<lparr>rb_r := (?r + (m + m2)) mod ?n\<rparr>) = ret (m + m2, err', rb')" "ring_inv rb'"
        "ring_contents rb' = drop (m + m2) ?C" "err' = None \<longrightarrow> m + m2 = length ?C" by blast
      ultimately show ?thesis using wraps by (auto simp: ring_IsEmpty_contents)
    qed
  qed
qed

lemma ring_WriteTo_keeps_witness:
  "\<exists>m err rb'. ring_WriteTo full_ring (\<lambda>k s. (0, Some (IOError 1))) = ret (m, err, rb') \<and> ring_contents rb' = []"
proof -
  have "ring_inv full_ring" "\<not> ring_IsEmpty full_ring" "rb_r full_ring = 0 \<and> rb_w full_ring = 0"
    by (simp_all add: ring_inv_def full_ring_def ring_IsEmpty_def)
  with ring_WriteTo_keeps [of full_ring "\<lambda>k s. (0, Some (IOError 1))"] show ?thesis by auto
qed

subsection \<open>Reading from a reader\<close>

lemma read_room:
  assumes "ring_inv rb" "gnet_ok g" "rb_r rb = 0"
  shows "\<exists>rb'. (if ring_Available rb < MinRead then ring_grow g rb (ring_Buffered rb + MinRead) else ret rb) = ret rb' \<and>
    ring_inv rb' \<and> ring_contents rb' = ring_contents rb \<and> rb_r rb' = 0 \<and> rb_w rb' + MinRead \<le> rb_size rb' \<and>
    length (ring_contents rb) + MinRead \<le> rb_size rb' \<and> (rb_isEmpty rb' \<longleftrightarrow> ring_contents rb = [])"
proof (cases "ring_Available rb < MinRead")
  case False
  then have "0 < ring_Available rb" by (simp add: MinRead_def)
  then have "rb_w rb + ring_Available rb = rb_size rb"
    using assms(1,3) by (auto simp: ring_Available_def ring_inv_def split: if_splits)
  with False assms ring_IsEmpty_contents [OF assms(1)] ring_Available_contents [OF assms(1)] show ?thesis by (auto simp: ring_IsEmpty_def)
next
  case True
  have c: "ring_Buffered rb + MinRead = length (ring_contents rb) + MinRead"
    by (simp add: ring_Buffered_contents [OF assms(1)])
  have "0 < length (ring_contents rb) + MinRead" by (simp add: MinRead_def)
  from ring_grow_spec [OF assms(1,2) this] obtain buf N where
    "ring_grow g rb (length (ring_contents rb) + MinRead) = ret \<lparr>rb_buf = buf, rb_size = N, rb_r = 0, rb_w = length (ring_contents rb), rb_isEmpty = (ring_contents rb = [])\<rparr>"
    "length buf = N" "take (length (ring_contents rb)) buf = ring_contents rb" "length (ring_contents rb) + MinRead \<le> N" by blast
  with True show ?thesis
    unfolding c by (auto simp: ring_inv_def ring_contents_def slice_from_start MinRead_def)
qed

lemma read_into_end:
  assumes "rd k (length (rb_buf rb) - rb_w rb) = (xs, int (length xs), err)" "rb_w rb + length xs \<le> length (rb_buf rb)"
  shows "read_into rd k rb (rb_w rb) (length (rb_buf rb)) = ret (rb\<lparr>rb_buf := copy_at (rb_buf rb) (rb_w rb) xs\<rparr>, length xs, err)"
  using assms by (simp add: read_into_def go_simps) (simp add: slice_to_end copy_at_def add.commute)

text \<open>One round at read position 0 appends what the reader gives.\<close>

lemma read_round_append:
  assumes "ring_inv rb" "gnet_ok g" "rb_r rb = 0" "length xs \<le> MinRead" "xs \<noteq> [] \<or> ring_contents rb \<noteq> []"
    and "\<And>len. rd k len = (xs, int (length xs), err)" and "rd (k + 1) 0 = ([], 0, None)"
  shows "\<exists>rb'. read_round g rd k rb n =
      ret (if err = None then Inr (k + 2, rb', n + length xs) else Inl (n + length xs, read_err err, rb')) \<and>
    ring_inv rb' \<and> rb_r rb' = 0 \<and> ring_contents rb' = ring_contents rb @ xs"
proof -
  from read_room [OF assms(1-3)] obtain rb1 where
    g: "(if ring_Available rb < MinRead then ring_grow g rb (ring_Buffered rb + MinRead) else ret rb) = ret rb1"
    and r: "ring_inv rb1" "ring_contents rb1 = ring_contents rb" "rb_r rb1 = 0" "rb_w rb1 + MinRead \<le> rb_size rb1"
      "length (ring_contents rb) + MinRead \<le> rb_size rb1" "rb_isEmpty rb1 \<longleftrightarrow> ring_contents rb = []" by blast
  have len: "length (rb_buf rb1) = rb_size rb1" using r(1) by (simp add: ring_inv_def)
  have w: "rb_w rb1 + length xs \<le> rb_size rb1" "rb_w rb1 < rb_size rb1"
    using r(4) assms(4) by (simp_all add: MinRead_def)
  note ri = read_into_end [of rd k rb1 xs err, OF assms(6)]
  define rb2 where "rb2 = rb1\<lparr>rb_buf := copy_at (rb_buf rb1) (rb_w rb1) xs, rb_isEmpty := False,
      rb_w := (rb_w rb1 + length xs) mod rb_size rb1\<rparr>"
  have "ring_inv rb2 \<and> ring_contents rb2 = ring_contents rb @ xs"
  proof (cases "xs = []")
    case True
    then have "rb2 = rb1" using assms(5) r(6) w(2) by (simp add: rb2_def)
    with True r show ?thesis by simp
  next
    case False
    have "length (ring_contents rb1) + length xs \<le> rb_size rb1"
      using r(2,5) assms(4) by simp
    from ring_put_contents [OF r(1) False this] r(2) have "ring_inv (ring_put rb1 xs) \<and> ring_contents (ring_put rb1 xs) = ring_contents rb @ xs"
      by simp
    moreover have "\<not> rb_size rb1 - rb_w rb1 < length xs" using w(1) by linarith
    then have "ring_put rb1 xs = rb2"
      using w by (cases "rb_w rb1 + length xs = rb_size rb1") (simp_all add: rb2_def ring_put_def Let_def)
    ultimately show ?thesis by simp
  qed
  moreover have "read_round g rd k rb n = ret (if err = None then Inr (k + 2, rb2, n + length xs) else Inl (n + length xs, read_err err, rb2))"
    unfolding read_round_def g
    using ri w len assms(7) r(3) by (simp add: rb2_def read_into_def go_simps)
  moreover have "rb_r rb2 = 0" by (simp add: rb2_def r(3))
  ultimately show ?thesis by blast
qed

lemma read_loop_append:
  assumes "gnet_ok g" "\<And>j. rd (2 * j + 1) 0 = ([], 0, None)" "\<And>len. rd (2 * (i + length chunks)) len = ([], 0, Some EOF)"
  shows "ring_inv rb \<Longrightarrow> rb_r rb = 0 \<Longrightarrow> chunks \<noteq> [] \<or> ring_contents rb \<noteq> [] \<Longrightarrow>
    \<forall>c \<in> set chunks. c \<noteq> [] \<and> length c \<le> MinRead \<Longrightarrow>
    (\<And>j len. j < length chunks \<Longrightarrow> rd (2 * (i + j)) len = (chunks ! j, int (length (chunks ! j)), None)) \<Longrightarrow>
    \<exists>rb'. read_loop g rd (2 * i) rb n = Some (n + length (concat chunks), None, rb') \<and>
      ring_inv rb' \<and> ring_contents rb' = ring_contents rb @ concat chunks"
  using assms(3)
proof (induction chunks arbitrary: i rb n)
  case Nil
  then have "\<And>len. rd (2 * i) len = ([], int (length []), Some EOF)" by simp
  from read_round_append [of rb g "[]" rd "2 * i" "Some EOF" n, OF Nil(1) assms(1) Nil(2) _ _ this] Nil.prems(3) assms(2) [of i]
  show ?case by (subst read_loop.simps) (auto simp: MinRead_def read_err_def)
next
  case (Cons c cs)
  have c: "\<And>len. rd (2 * i) len = (c, int (length c), None)" using Cons.prems(5) [of 0] by simp
  from read_round_append [of rb g c rd "2 * i" None n, OF Cons.prems(1) assms(1) Cons.prems(2) _ _ c] Cons.prems(4) assms(2) [of i]
  obtain rb1 where r: "read_round g rd (2 * i) rb n = ret (Inr (2 * i + 2, rb1, n + length c))"
    "ring_inv rb1" "rb_r rb1 = 0" "ring_contents rb1 = ring_contents rb @ c" by auto
  have "rd (2 * (Suc i + j)) len = (cs ! j, int (length (cs ! j)), None)" if "j < length cs" for j len
    using Cons.prems(5) [of "Suc j" len] that by simp
  moreover have "ring_contents rb1 \<noteq> []" using r(4) Cons.prems(4) by simp
  ultimately obtain rb' where "read_loop g rd (2 * Suc i) rb1 (n + length c) = Some (n + length c + length (concat cs), None, rb')"
    "ring_inv rb'" "ring_contents rb' = ring_contents rb1 @ concat cs"
    using Cons.IH [of rb1 "Suc i" "n + length c"] r Cons.prems(4,6) by auto
  with r show ?case by (subst read_loop.simps) (simp add: add.assoc)
qed

text \<open>
  \<open>ReadFrom\<close> into a buffer whose data starts at position 0 (a new or reset buffer, or one
  just grown) returns, and appends everything the reader delivers in nonempty chunks until the end
  of the input, growing as needed; the count is the number of bytes delivered.
\<close>

theorem ring_ReadFrom_appends:
  assumes "gnet_ok g" and "ring_inv rb" and "rb_r rb = 0" and "chunks \<noteq> []"
    and "\<forall>c \<in> set chunks. c \<noteq> [] \<and> length c \<le> MinRead"
    and "\<And>j len. j < length chunks \<Longrightarrow> rd (2 * j) len = (chunks ! j, int (length (chunks ! j)), None)"
    and "\<And>len. rd (2 * length chunks) len = ([], 0, Some EOF)" and "\<And>j. rd (2 * j + 1) 0 = ([], 0, None)"
  shows "\<exists>rb'. ring_ReadFrom g rb rd = Some (length (concat chunks), None, rb') \<and>
    ring_inv rb' \<and> ring_Bytes rb' = map_option (\<lambda>bs. bs @ concat chunks) (ring_Bytes rb)"
proof -
  from read_loop_append [of g rd 0 chunks rb 0] assms obtain rb' where
    "read_loop g rd 0 rb 0 = Some (length (concat chunks), None, rb')" "ring_inv rb'"
    "ring_contents rb' = ring_contents rb @ concat chunks" by auto
  with assms(2) show ?thesis by (simp add: ring_ReadFrom_def ring_Bytes_contents)
qed

definition sample_reader :: reader where
  "sample_reader k len =
     (if k = 0 then ([1, 2, 3], 3, None) else if k = 2 then ([4], 1, None) else if k = 4 then ([], 0, Some EOF) else ([], 0, None))"

lemma ring_ReadFrom_appends_witness:
  "\<exists>rb'. ring_ReadFrom sample_gnet (ring_New sample_gnet 4) sample_reader = Some (4, None, rb') \<and> ring_Bytes rb' = ret [1, 2, 3, 4]"
proof -
  have chunks: "sample_reader (2 * j) len = ([[1, 2, 3], [4]] ! j, int (length ([[1, 2, 3], [4]] ! j)), None)"
    if "j < length [[1 :: byte, 2, 3], [4]]" for j len
    using that by (auto simp: sample_reader_def less_Suc_eq)
  have odd: "sample_reader (2 * j + 1) 0 = ([], 0, None)" for j
  proof -
    have "2 * j + 1 \<noteq> 0" "2 * j + 1 \<noteq> 2" "2 * j + 1 \<noteq> 4" by presburger+
    then show ?thesis by (simp add: sample_reader_def)
  qed
  have new: "ring_inv (ring_New sample_gnet 4)" "rb_r (ring_New sample_gnet 4) = 0" "ring_Bytes (ring_New sample_gnet 4) = ret []"
    using ring_inv_New [OF sample_gnet_ok, of 4] by (simp_all add: ring_New_def Let_def ring_Bytes_def)
  have "\<exists>rb'. ring_ReadFrom sample_gnet (ring_New sample_gnet 4) sample_reader = Some (length (concat [[1 :: byte, 2, 3], [4]]), None, rb') \<and>
    ring_inv rb' \<and> ring_Bytes rb' = map_option (\<lambda>bs. bs @ concat [[1, 2, 3], [4]]) (ring_Bytes (ring_New sample_gnet 4))"
    by (rule ring_ReadFrom_appends [OF sample_gnet_ok new(1,2) _ _ chunks])
      (use odd in \<open>simp_all add: MinRead_def sample_reader_def\<close>)
  then show ?thesis by (auto simp: new(3) eval_nat_numeral)
qed

text \<open>
  \<open>ReadFrom\<close> misplaces data when the read position is not 0 and the first call of the reader
  fills less than the end of the array: the second call fills the start of the array although the
  write position has not come round.  The count includes its bytes, but the contents show, in their
  place, old bytes of the array.
\<close>

theorem ring_ReadFrom_misplaces:
  assumes "ring_inv rb" and "0 < rb_r rb" and "rb_r rb < rb_w rb" and "MinRead \<le> ring_Available rb"
    and "rd 0 (rb_size rb - rb_w rb) = (xs, int (length xs), None)"
    and "rd 1 (rb_r rb) = (ys, int (length ys), Some EOF)" and "length ys \<le> rb_r rb"
    and "rb_w rb + length xs + length ys < rb_size rb"
  shows "\<exists>rb'. ring_ReadFrom g rb rd = Some (length xs + length ys, None, rb') \<and>
    ring_contents rb' = ring_contents rb @ xs @ sub_slice (rb_buf rb) (rb_w rb + length xs) (rb_w rb + length xs + length ys)"
proof -
  have len: "length (rb_buf rb) = rb_size rb" using assms(1) by (simp add: ring_inv_def)
  have busy: "\<not> rb_isEmpty rb" using assms(1,2) by (auto simp: ring_inv_def)
  define b1 where "b1 = copy_at (rb_buf rb) (rb_w rb) xs"
  have lb: "length b1 = rb_size rb" using len assms(8) by (simp add: b1_def)
  define rb' where "rb' = rb\<lparr>rb_buf := copy_at (take (rb_r rb) b1) 0 ys @ drop (rb_r rb) b1, rb_isEmpty := False,
      rb_w := rb_w rb + length xs + length ys\<rparr>"
  have "read_into rd 0 rb (rb_w rb) (length (rb_buf rb)) = ret (rb\<lparr>rb_buf := b1\<rparr>, length xs, None)"
    using read_into_end [of rd 0 rb xs None] assms(5,8) len by (simp add: b1_def)
  then have "read_round g rd 0 rb 0 = ret (Inl (length xs + length ys, None, rb'))"
    using assms(2-4,6-8) len lb
    by (simp add: read_round_def read_into_def go_simps read_err_def rb'_def slice_from_start)
  then have "ring_ReadFrom g rb rd = Some (length xs + length ys, None, rb')"
    unfolding ring_ReadFrom_def by (subst read_loop.simps) simp
  moreover have "ring_contents rb' = ring_contents rb @ xs @ sub_slice (rb_buf rb) (rb_w rb + length xs) (rb_w rb + length xs + length ys)"
  proof -
    have "drop (rb_r rb) (copy_at (take (rb_r rb) b1) 0 ys @ drop (rb_r rb) b1) = drop (rb_r rb) b1"
      using assms(3,8) lb by (simp add: copy_at_def min_def)
    then have "ring_contents rb' = sub_slice b1 (rb_r rb) (rb_w rb + length xs + length ys)"
      using assms(3) by (simp add: ring_contents_def rb'_def sub_slice_def)
    also have "\<dots> = sub_slice b1 (rb_r rb) (rb_w rb) @ sub_slice b1 (rb_w rb) (rb_w rb + length xs) @
        sub_slice b1 (rb_w rb + length xs) (rb_w rb + length xs + length ys)"
      using assms(3) by (simp add: slice_append_slice)
    also have "\<dots> = ring_contents rb @ xs @ sub_slice (rb_buf rb) (rb_w rb + length xs) (rb_w rb + length xs + length ys)"
      using assms(3,8) len busy
      by (simp add: b1_def slice_copy_at_before slice_copy_at_same slice_copy_at_after ring_contents_def)
    finally show ?thesis .
  qed
  ultimately show ?thesis by blast
qed

definition shifted_ring :: Buffer where
  "shifted_ring = \<lparr>rb_buf = replicate 1024 0, rb_size = 1024, rb_r = 1, rb_w = 2, rb_isEmpty = False\<rparr>"

lemma ring_ReadFrom_misplaces_witness:
  "\<exists>rb'. ring_ReadFrom sample_gnet shifted_ring (\<lambda>k len. if k = 0 then ([1, 2], 2, None) else ([3], 1, Some EOF)) =
      Some (3, None, rb') \<and> ring_contents rb' = [0, 1, 2, 0]"
proof -
  let ?rd = "\<lambda>k len. if k = 0 then ([1, 2], 2, None) else ([3 :: byte], 1, Some EOF)"
  have c: "ring_contents shifted_ring = [0]" "sub_slice (rb_buf shifted_ring) 4 5 = [0]"
    by (simp_all add: ring_contents_def shifted_ring_def sub_slice_def)
  have "\<exists>rb'. ring_ReadFrom sample_gnet shifted_ring ?rd = Some (length [1 :: byte, 2] + length [3 :: byte], None, rb') \<and>
    ring_contents rb' = ring_contents shifted_ring @ [1, 2] @ sub_slice (rb_buf shifted_ring) (rb_w shifted_ring + length [1 :: byte, 2])
      (rb_w shifted_ring + length [1 :: byte, 2] + length [3 :: byte])"
    by (rule ring_ReadFrom_misplaces)
      (simp_all add: shifted_ring_def ring_inv_def ring_Available_def MinRead_def)
  moreover have "rb_w shifted_ring = 2" by (simp add: shifted_ring_def)
  ultimately show ?thesis using c by (simp add: eval_nat_numeral)
qed

text \<open>
  \<open>ReadFrom\<close> on an empty buffer whose reader has nothing to give turns it into a full one: it
  marks the buffer as not empty whatever the reader returned, so \<open>Buffered\<close> is then the whole
  capacity, and \<open>Bytes\<close> returns the stale bytes of the array.
\<close>

theorem ring_ReadFrom_empty_fills:
  assumes "ring_inv rb" and "ring_IsEmpty rb" and "MinRead \<le> ring_Cap rb" and "rd 0 (ring_Cap rb) = ([], 0, Some EOF)"
  shows "\<exists>rb'. ring_ReadFrom g rb rd = Some (0, None, rb') \<and> ring_Buffered rb' = ring_Cap rb \<and> ring_Bytes rb' = ret (rb_buf rb)"
proof -
  have e: "rb_isEmpty rb" "rb_r rb = 0" "rb_w rb = 0" "length (rb_buf rb) = rb_size rb"
    using assms(1,2) by (simp_all add: ring_inv_def ring_IsEmpty_def)
  have "read_round g rd 0 rb 0 = ret (Inl (0, None, rb\<lparr>rb_isEmpty := False\<rparr>))"
    using e assms(3,4) by (simp add: read_round_def ring_Available_def ring_Cap_def read_into_def go_simps read_err_def slice_from_start)
  then have "ring_ReadFrom g rb rd = Some (0, None, rb\<lparr>rb_isEmpty := False\<rparr>)"
    unfolding ring_ReadFrom_def by (subst read_loop.simps) simp
  with e show ?thesis
    by (simp add: ring_Buffered_def ring_Cap_def ring_Bytes_def go_simps slice_from_start)
qed

lemma ring_ReadFrom_empty_fills_witness:
  "\<exists>rb'. ring_ReadFrom sample_gnet (ring_New sample_gnet 1024) (\<lambda>k len. ([], 0, Some EOF)) = Some (0, None, rb') \<and>
    ring_Buffered rb' = ring_Cap (ring_New sample_gnet 1024) \<and> ring_Bytes rb' = ret (rb_buf (ring_New sample_gnet 1024))"
  by (rule ring_ReadFrom_empty_fills)
    (use ring_inv_New [OF sample_gnet_ok, of 1024] in \<open>simp_all add: ring_New_def ring_IsEmpty_def ring_Cap_def MinRead_def sample_gnet_def\<close>)

end
