(* ===== verification/RbQueue.thy ===== *)
theory RbQueue
  imports Fifo
begin

text \<open>
  The multi-producer, single-consumer ring queue (src/utils/queues/rbqueue/queue.go).  The
  operations run under the queue's lock, except for the emptiness test that opens \<open>Pop\<close> and
  \<open>PopMany\<close>, which is a step of its own below.  \<open>int64\<close> counts are natural numbers (they never
  become negative and stay far below the range); the element type is a parameter with its zero
  value.
\<close>

record 'a ringBuffer =
  rq_buffer :: "'a list"
  rq_head :: nat
  rq_tail :: nat
  rq_mod :: nat

record 'a Queue =
  q_len :: nat
  q_content :: "'a ringBuffer"

definition rq_New :: "'a \<Rightarrow> nat \<Rightarrow> 'a Queue" where
  "rq_New zero initialSize =
     \<lparr>q_len = 0, q_content = \<lparr>rq_buffer = replicate initialSize zero, rq_head = 0, rq_tail = 0, rq_mod = initialSize\<rparr>\<rparr>"

text \<open>\<open>for i := 0; i < n; i++ { newBuff[i] = c.buffer[(c.tail + i) % c.mod] }\<close>.\<close>

primrec rq_copy :: "'a list \<Rightarrow> nat \<Rightarrow> nat \<Rightarrow> 'a list \<Rightarrow> nat \<Rightarrow> 'a list go" where
  "rq_copy buf tail md newBuff 0 = ret newBuff"
| "rq_copy buf tail md newBuff (Suc i) = do {
     newBuff \<leftarrow> rq_copy buf tail md newBuff i;
     x \<leftarrow> index_go buf ((tail + i) mod md);
     store_go newBuff i x }"

definition rq_Push :: "'a \<Rightarrow> 'a Queue \<Rightarrow> 'a \<Rightarrow> 'a Queue go" where
  "rq_Push zero q item =
     (let c = q_content q in
      if rq_mod c = 0 then panic
      else
        let c = c\<lparr>rq_tail := (rq_tail c + 1) mod rq_mod c\<rparr> in do {
          content \<leftarrow>
            (if rq_tail c = rq_head c then
               let newLen = rq_mod c * 2; newBuff = replicate newLen zero in do {
                 newBuff \<leftarrow> rq_copy (rq_buffer c) (rq_tail c) (rq_mod c) newBuff (rq_mod c);
                 ret \<lparr>rq_buffer = newBuff, rq_head = 0, rq_tail = rq_mod c, rq_mod = newLen\<rparr> }
             else ret c);
          buf \<leftarrow> store_go (rq_buffer content) (rq_tail content) item;
          ret (q\<lparr>q_len := q_len q + 1, q_content := content\<lparr>rq_buffer := buf\<rparr>\<rparr>) })"

definition rq_Length :: "'a Queue \<Rightarrow> nat" where
  "rq_Length q = q_len q"

definition rq_Empty :: "'a Queue \<Rightarrow> bool" where
  "rq_Empty q \<longleftrightarrow> rq_Length q = 0"

text \<open>The locked part of \<open>Pop\<close>.\<close>

definition rq_Pop_locked :: "'a \<Rightarrow> 'a Queue \<Rightarrow> ('a \<times> 'a Queue) go" where
  "rq_Pop_locked zero q =
     (let c = q_content q in
      if rq_mod c = 0 then panic
      else
        let c = c\<lparr>rq_head := (rq_head c + 1) mod rq_mod c\<rparr> in do {
          res \<leftarrow> index_go (rq_buffer c) (rq_head c);
          buf \<leftarrow> store_go (rq_buffer c) (rq_head c) zero;
          ret (res, q\<lparr>q_len := q_len q - 1, q_content := c\<lparr>rq_buffer := buf\<rparr>\<rparr>) })"

definition rq_Pop :: "'a \<Rightarrow> 'a Queue \<Rightarrow> ('a \<times> bool \<times> 'a Queue) go" where
  "rq_Pop zero q =
     (if rq_Empty q then ret (zero, False, q)
      else do { (res, q) \<leftarrow> rq_Pop_locked zero q; ret (res, True, q) })"

text \<open>\<open>for i := 0; i < n; i++ { pos := (c.head + 1 + i) % md; buffer[i] = c.buffer[pos]; c.buffer[pos] = zero }\<close>.\<close>

primrec rq_take :: "'a \<Rightarrow> nat \<Rightarrow> nat \<Rightarrow> 'a list \<Rightarrow> 'a list \<Rightarrow> nat \<Rightarrow> ('a list \<times> 'a list) go" where
  "rq_take zero head md buf out 0 = ret (buf, out)"
| "rq_take zero head md buf out (Suc i) = do {
     (buf, out) \<leftarrow> rq_take zero head md buf out i;
     let pos = (head + 1 + i) mod md;
     x \<leftarrow> index_go buf pos;
     out \<leftarrow> store_go out i x;
     buf \<leftarrow> store_go buf pos zero;
     ret (buf, out) }"

definition rq_PopMany_locked :: "'a \<Rightarrow> 'a Queue \<Rightarrow> nat \<Rightarrow> 'a list \<Rightarrow> ('a list \<times> 'a Queue) go" where
  "rq_PopMany_locked zero q count out =
     (let c = q_content q;
          count = (if count > q_len q then q_len q else count);
          out = (if count > length out then replicate count zero else take count out);
          md = rq_mod c
      in if md = 0 then panic
         else do {
           (buf, out) \<leftarrow> rq_take zero (rq_head c) md (rq_buffer c) out count;
           ret (out, q\<lparr>q_len := q_len q - count,
                       q_content := c\<lparr>rq_buffer := buf, rq_head := (rq_head c + count) mod md\<rparr>\<rparr>) })"

text \<open>\<open>None\<close> in the second component stands for the result \<open>(nil, false)\<close>.\<close>

definition rq_PopMany :: "'a \<Rightarrow> 'a Queue \<Rightarrow> int \<Rightarrow> 'a list \<Rightarrow> ('a list option \<times> 'a Queue) go" where
  "rq_PopMany zero q count out =
     (if rq_Empty q \<or> count \<le> 0 then ret (None, q)
      else do { (out, q) \<leftarrow> rq_PopMany_locked zero q (nat count) out; ret (Some out, q) })"

subsection \<open>Contents and invariant\<close>

text \<open>The slot of the \<open>i\<close>-th element from the front.\<close>

definition rq_slot :: "'a Queue \<Rightarrow> nat \<Rightarrow> nat" where
  "rq_slot q i = (rq_head (q_content q) + 1 + i) mod rq_mod (q_content q)"

definition rq_contents :: "'a Queue \<Rightarrow> 'a list" where
  "rq_contents q = map (\<lambda>i. rq_buffer (q_content q) ! rq_slot q i) [0 ..< q_len q]"

text \<open>Slots that hold no element hold the zero value, so the queue keeps no popped item alive.\<close>

definition rq_inv :: "'a \<Rightarrow> 'a Queue \<Rightarrow> bool" where
  "rq_inv zero q \<longleftrightarrow> (let c = q_content q in
     length (rq_buffer c) = rq_mod c \<and> rq_head c < rq_mod c \<and> q_len q < rq_mod c \<and>
     rq_tail c = (rq_head c + q_len q) mod rq_mod c \<and>
     (\<forall>i < rq_mod c. (\<forall>j < q_len q. rq_slot q j \<noteq> i) \<longrightarrow> rq_buffer c ! i = zero))"

lemma rq_inv_New: "0 < n \<Longrightarrow> rq_inv zero (rq_New zero n) \<and> rq_contents (rq_New zero n) = []"
  by (simp add: rq_inv_def rq_New_def rq_contents_def)

lemma length_rq_contents [simp]: "length (rq_contents q) = q_len q"
  by (simp add: rq_contents_def)

lemma slot_inj: "rq_slot q i = rq_slot q j \<Longrightarrow> i < rq_mod (q_content q) \<Longrightarrow> j < rq_mod (q_content q) \<Longrightarrow> i = j"
  unfolding rq_slot_def by (rule ring_index_inj)

lemma rq_copy_rotate:
  assumes "length buf = m" "0 < m"
  shows "n \<le> m \<Longrightarrow> n \<le> length nb \<Longrightarrow> rq_copy buf tail m nb n = ret (take n (rotate tail buf) @ drop n nb)"
proof (induction n)
  case (Suc n)
  have "buf ! ((tail + n) mod m) = rotate tail buf ! n" using assms Suc.prems by (simp add: nth_rotate)
  moreover have "(take n (rotate tail buf) @ drop n nb)[n := x] = take n (rotate tail buf) @ x # drop (Suc n) nb" for x
    using Suc.prems assms by (simp add: list_update_append Cons_nth_drop_Suc [symmetric])
  ultimately show ?case
    using Suc assms by (simp add: go_simps take_Suc_conv_app_nth)
qed simp

lemma rq_inv_facts:
  assumes "rq_inv zero q"
  shows "length (rq_buffer (q_content q)) = rq_mod (q_content q)" "rq_head (q_content q) < rq_mod (q_content q)"
    "q_len q < rq_mod (q_content q)" "rq_tail (q_content q) = (rq_head (q_content q) + q_len q) mod rq_mod (q_content q)"
    "\<And>i. i < rq_mod (q_content q) \<Longrightarrow> (\<And>j. j < q_len q \<Longrightarrow> rq_slot q j \<noteq> i) \<Longrightarrow> rq_buffer (q_content q) ! i = zero"
  using assms by (simp_all add: rq_inv_def Let_def)

lemma rq_Push_spec:
  assumes "rq_inv zero q"
  shows "\<exists>q'. rq_Push zero q x = ret q' \<and> rq_inv zero q' \<and> rq_contents q' = rq_contents q @ [x]"
proof -
  note i = rq_inv_facts [OF assms]
  define m where "m = rq_mod (q_content q)"
  define h where "h = rq_head (q_content q)"
  define b where "b = rq_buffer (q_content q)"
  define n where "n = q_len q"
  note f = m_def [symmetric] h_def [symmetric] b_def [symmetric] n_def [symmetric]
  have m: "0 < m" "length b = m" "h < m" "n < m" using i by (simp_all add: f)
  have tail: "(rq_tail (q_content q) + 1) mod m = (h + 1 + n) mod m"
    using i(4) by (simp add: f mod_simps)
  have zero: "b ! k = zero" if "k < m" "\<And>j. j < n \<Longrightarrow> (h + 1 + j) mod m \<noteq> k" for k
    using i(5) [of k] that by (simp add: f rq_slot_def)
  have C: "rq_contents q = map (\<lambda>i. b ! ((h + 1 + i) mod m)) [0 ..< n]"
    by (simp add: rq_contents_def rq_slot_def f)
  show ?thesis
  proof (cases "(h + 1 + n) mod m = h")
    case False
    define t where "t = (h + 1 + n) mod m"
    have t: "t < m" "t \<noteq> h" using m False by (simp_all add: t_def)
    define q' where "q' = q\<lparr>q_len := n + 1, q_content := q_content q\<lparr>rq_tail := t, rq_buffer := b[t := x]\<rparr>\<rparr>"
    have push: "rq_Push zero q x = ret q'"
      using m t tail by (simp add: rq_Push_def Let_def f go_simps q'_def t_def)
    have n1: "n + 1 < m"
    proof (cases "n + 1 = m")
      case True
      then have e: "h + 1 + n = h + m" by simp
      show ?thesis using False m(3) unfolding e by simp
    qed (use m in simp)
    have slot: "rq_slot q' j = (h + 1 + j) mod m" for j by (simp add: rq_slot_def q'_def f)
    have ne: "t \<noteq> (h + 1 + j) mod m" if "j < n" for j
      using ring_index_inj [of "h + 1" j m n] that m(4) by (auto simp: t_def)
    have "rq_contents q' = rq_contents q @ [x]"
      unfolding C using m t ne unfolding rq_contents_def slot by (simp add: q'_def t_def)
    moreover have "rq_inv zero q'"
      using m t n1 zero unfolding rq_inv_def Let_def slot
      by (auto simp: q'_def f t_def nth_list_update less_Suc_eq add.assoc)
    ultimately show ?thesis using push by blast
  next
    case True
    have nm: "n + 1 = m"
    proof (rule ccontr)
      assume "n + 1 \<noteq> m"
      with m(4) have "n + 1 < m" by simp
      with ring_index_inj [of h "n + 1" m 0] True m(3) show False by (simp add: add.assoc)
    qed
    define nb where "nb = rotate h b @ replicate m zero"
    have nb: "length nb = 2 * m" "\<And>j. j < m \<Longrightarrow> nb ! j = b ! ((h + j) mod m)" "\<And>j. m \<le> j \<Longrightarrow> j < 2 * m \<Longrightarrow> nb ! j = zero"
      using m by (auto simp: nb_def nth_append nth_rotate)
    have copy: "rq_copy b h m (replicate (m * 2) zero) m = ret nb"
      using rq_copy_rotate [of b m m "replicate (m * 2) zero" h] m by (simp add: nb_def)
    define q' where "q' = q\<lparr>q_len := n + 1, q_content := \<lparr>rq_buffer = nb[m := x], rq_head = 0, rq_tail = m, rq_mod = m * 2\<rparr>\<rparr>"
    have push: "rq_Push zero q x = ret q'"
      using m tail True copy nb(1) by (simp add: rq_Push_def Let_def f go_simps q'_def)
    have slot: "rq_slot q' j = j + 1" if "j < m" for j using that by (simp add: rq_slot_def q'_def)
    have C': "rq_contents q' = map (\<lambda>i. nb[m := x] ! (i + 1)) [0 ..< m]"
      using nm slot by (simp add: rq_contents_def) (simp add: q'_def)
    have "rq_contents q' = rq_contents q @ [x]"
    proof (rule nth_equalityI)
      fix j assume "j < length (rq_contents q')"
      then have j: "j < m" using nm by (simp add: q'_def)
      show "rq_contents q' ! j = (rq_contents q @ [x]) ! j"
      proof (cases "j < n")
        case True
        then show ?thesis using j nm nb unfolding C C' by (simp add: nth_append)
      next
        case False
        then have "j = n" using j nm by simp
        then show ?thesis using nm nb m unfolding C C' by (simp add: nth_append)
      qed
    qed (simp add: q'_def f)
    moreover have "nb ! 0 = zero"
    proof -
      have "(h + 1 + j) mod m \<noteq> h" if "j < n" for j
        using ring_index_inj [of h "j + 1" m 0] that nm m(3) by (auto simp: add.assoc)
      then show ?thesis using nb(2) [of 0] zero [of h] m by simp
    qed
    have "nb[m := x] ! i = zero" if "i < m * 2" "\<forall>j < m. rq_slot q' j \<noteq> i" for i
    proof -
      have "i = 0 \<or> m < i"
      proof (cases i)
        case (Suc j)
        then have "\<not> j < m" using that(2) slot [of j] by auto
        with Suc show ?thesis by simp
      qed simp
      with \<open>nb ! 0 = zero\<close> nb(3) that(1) m(1) show ?thesis by auto
    qed
    then have "rq_inv zero q'"
      using m nm nb(1) unfolding rq_inv_def Let_def by (simp add: q'_def)
    ultimately show ?thesis using push by blast
  qed
qed

text \<open>The buffer after the first \<open>k\<close> elements have been taken.\<close>

definition rq_cleared :: "'a \<Rightarrow> nat \<Rightarrow> nat \<Rightarrow> 'a list \<Rightarrow> nat \<Rightarrow> 'a list" where
  "rq_cleared zero h m b k = map (\<lambda>i. if \<exists>j < k. (h + 1 + j) mod m = i then zero else b ! i) [0 ..< length b]"

lemma rq_cleared_Suc:
  "0 < m \<Longrightarrow> length b = m \<Longrightarrow> (rq_cleared zero h m b k)[(h + 1 + k) mod m := zero] = rq_cleared zero h m b (Suc k)"
  by (rule nth_equalityI) (auto simp: rq_cleared_def nth_list_update less_Suc_eq)

lemma rq_take_spec:
  assumes "length b = m" "0 < m"
  shows "n \<le> m \<Longrightarrow> n \<le> length out \<Longrightarrow>
    rq_take zero h m b out n = ret (rq_cleared zero h m b n, map (\<lambda>i. b ! ((h + 1 + i) mod m)) [0 ..< n] @ drop n out)"
proof (induction n)
  case 0
  then show ?case by (simp add: rq_cleared_def map_nth)
next
  case (Suc n)
  let ?p = "(h + 1 + n) mod m"
  have "\<not> (\<exists>j < n. (h + 1 + j) mod m = ?p)"
    using Suc.prems ring_index_inj [of "h + 1" _ m n] by fastforce
  then have "rq_cleared zero h m b n ! ?p = b ! ?p" using assms by (auto simp: rq_cleared_def)
  moreover have "length (rq_cleared zero h m b n) = m" by (simp add: rq_cleared_def assms)
  moreover have "?p < m" using assms by simp
  moreover note rq_cleared_Suc [OF assms(2,1), of zero h n]
  ultimately show ?case
    using Suc.prems Suc.IH
    by (simp add: go_simps list_update_append Cons_nth_drop_Suc [symmetric])
qed

lemma rq_dropped:
  assumes "rq_inv zero q" "k \<le> q_len q"
  defines "c \<equiv> q_content q"
  defines "q' \<equiv> q\<lparr>q_len := q_len q - k, q_content := c\<lparr>rq_buffer := rq_cleared zero (rq_head c) (rq_mod c) (rq_buffer c) k,
      rq_head := (rq_head c + k) mod rq_mod c\<rparr>\<rparr>"
  shows "rq_inv zero q' \<and> rq_contents q' = drop k (rq_contents q)"
proof -
  note i = rq_inv_facts [OF assms(1), folded c_def]
  have slot: "rq_slot q' j = rq_slot q (k + j)" for j
    using mod_add_left_eq [of "rq_head c + k" "rq_mod c" "1 + j"] by (simp add: rq_slot_def q'_def c_def ac_simps)
  have lt: "rq_slot q j < rq_mod c" for j using i(2) by (simp add: rq_slot_def c_def)
  have buf: "rq_buffer (q_content q') ! s = (if \<exists>j < k. rq_slot q j = s then zero else rq_buffer c ! s)" if "s < rq_mod c" for s
    using that i(1) by (auto simp: q'_def rq_cleared_def rq_slot_def c_def)
  have kept: "rq_buffer (q_content q') ! rq_slot q (k + j) = rq_buffer c ! rq_slot q (k + j)" if "j < q_len q - k" for j
    using buf [OF lt, of "k + j"] slot_inj [of q _ "k + j"] that i(3) by (fastforce simp: c_def)
  have len': "q_len q' = q_len q - k" by (simp add: q'_def)
  have "rq_contents q' = drop k (rq_contents q)"
    unfolding rq_contents_def len' drop_map drop_upt using kept
    by (intro nth_equalityI) (simp_all add: slot c_def)
  moreover have "rq_inv zero q'"
    unfolding rq_inv_def Let_def
  proof (intro conjI allI impI)
    show "rq_tail (q_content q') = (rq_head (q_content q') + q_len q') mod rq_mod (q_content q')"
      using i(4) assms(2) mod_add_left_eq [of "rq_head c + k" "rq_mod c" "q_len q - k"] by (simp add: q'_def)
    fix s assume s: "s < rq_mod (q_content q')" and free: "\<forall>j < q_len q'. rq_slot q' j \<noteq> s"
    have s': "s < rq_mod c" using s by (simp add: q'_def)
    show "rq_buffer (q_content q') ! s = zero"
    proof (cases "\<exists>j < k. rq_slot q j = s")
      case False
      have "rq_slot q j \<noteq> s" if "j < q_len q" for j
        using False free that slot [of "j - k"] by (cases "j < k") (auto simp: len')
      with i(5) [OF s'] buf [OF s'] show ?thesis by simp
    qed (simp add: buf [OF s'])
  qed (use i(1-3) in \<open>simp_all add: q'_def rq_cleared_def\<close>)
  ultimately show ?thesis by blast
qed

lemma rq_PopMany_locked_spec:
  assumes "rq_inv zero q"
  shows "\<exists>out' q'. rq_PopMany_locked zero q count out = ret (out', q') \<and> rq_inv zero q' \<and>
    out' = take count (rq_contents q) \<and> rq_contents q' = drop count (rq_contents q)"
proof -
  note i = rq_inv_facts [OF assms]
  let ?c = "q_content q"
  define n where "n = min count (q_len q)"
  have m: "0 < rq_mod ?c" "n \<le> rq_mod ?c" "n \<le> q_len q" using i(3) by (simp_all add: n_def)
  define out1 where "out1 = (if n > length out then replicate n zero else take n out)"
  have o: "length out1 = n" by (simp add: out1_def)
  have cnt: "(if count > q_len q then q_len q else count) = n" by (simp add: n_def)
  have "rq_take zero (rq_head ?c) (rq_mod ?c) (rq_buffer ?c) out1 n =
      ret (rq_cleared zero (rq_head ?c) (rq_mod ?c) (rq_buffer ?c) n, map (\<lambda>i. rq_buffer ?c ! ((rq_head ?c + 1 + i) mod rq_mod ?c)) [0 ..< n])"
    using rq_take_spec [OF i(1) m(1) m(2), of out1 zero "rq_head ?c"] o by simp
  moreover have "map (\<lambda>i. rq_buffer ?c ! ((rq_head ?c + 1 + i) mod rq_mod ?c)) [0 ..< n] = take count (rq_contents q)"
    by (simp add: rq_contents_def rq_slot_def take_map n_def min_def)
  moreover have "drop count (rq_contents q) = drop n (rq_contents q)" by (simp add: n_def min_def)
  ultimately show ?thesis
    using rq_dropped [OF assms m(3)] m(1)
    unfolding rq_PopMany_locked_def Let_def cnt out1_def [symmetric] by simp
qed

lemma rq_Pop_locked_spec:
  assumes "rq_inv zero q" "0 < q_len q"
  shows "\<exists>q'. rq_Pop_locked zero q = ret (hd (rq_contents q), q') \<and> rq_inv zero q' \<and> rq_contents q' = tl (rq_contents q)"
proof -
  note i = rq_inv_facts [OF assms(1)]
  let ?c = "q_content q"
  have m: "0 < rq_mod ?c" using i(3) by simp
  have "rq_cleared zero (rq_head ?c) (rq_mod ?c) (rq_buffer ?c) 0 = rq_buffer ?c"
    by (simp add: rq_cleared_def map_nth)
  with rq_cleared_Suc [OF m i(1), of zero "rq_head ?c" 0]
  have "(rq_buffer ?c)[(rq_head ?c + 1) mod rq_mod ?c := zero] = rq_cleared zero (rq_head ?c) (rq_mod ?c) (rq_buffer ?c) 1" by simp
  moreover have "hd (rq_contents q) = rq_buffer ?c ! ((rq_head ?c + 1) mod rq_mod ?c)"
    using assms(2) by (simp add: rq_contents_def rq_slot_def hd_map)
  ultimately have "rq_Pop_locked zero q = ret (hd (rq_contents q), q\<lparr>q_len := q_len q - 1,
      q_content := ?c\<lparr>rq_buffer := rq_cleared zero (rq_head ?c) (rq_mod ?c) (rq_buffer ?c) 1, rq_head := (rq_head ?c + 1) mod rq_mod ?c\<rparr>\<rparr>)"
    using m i(1) by (simp add: rq_Pop_locked_def Let_def go_simps)
  with rq_dropped [OF assms(1), of 1] assms(2) show ?thesis by (simp add: drop_Suc)
qed

subsection \<open>Many producers, one consumer\<close>

text \<open>
  Producers push at any time; the consumer tests for emptiness without the lock and, when the
  queue was not empty, takes the lock and removes the front item later.  \<open>sent\<close> and \<open>got\<close> record
  the items pushed and received.
\<close>

record 'a mpsc =
  mp_q :: "'a Queue"
  mp_checked :: bool
  mp_sent :: "'a list"
  mp_got :: "'a list"

inductive mpsc_step :: "'a \<Rightarrow> 'a mpsc \<Rightarrow> 'a mpsc \<Rightarrow> bool" for zero :: 'a where
  produce: "rq_Push zero (mp_q s) x = ret q' \<Longrightarrow> mpsc_step zero s (s\<lparr>mp_q := q', mp_sent := mp_sent s @ [x]\<rparr>)"
| check: "\<not> mp_checked s \<Longrightarrow> \<not> rq_Empty (mp_q s) \<Longrightarrow> mpsc_step zero s (s\<lparr>mp_checked := True\<rparr>)"
| pop: "mp_checked s \<Longrightarrow> rq_Pop_locked zero (mp_q s) = ret (x, q') \<Longrightarrow>
    mpsc_step zero s (s\<lparr>mp_q := q', mp_checked := False, mp_got := mp_got s @ [x]\<rparr>)"
| pop_many: "mp_checked s \<Longrightarrow> 0 < count \<Longrightarrow> rq_PopMany_locked zero (mp_q s) count out = ret (xs, q') \<Longrightarrow>
    mpsc_step zero s (s\<lparr>mp_q := q', mp_checked := False, mp_got := mp_got s @ xs\<rparr>)"

definition mpsc_start :: "'a \<Rightarrow> nat \<Rightarrow> 'a mpsc" where
  "mpsc_start zero n = \<lparr>mp_q = rq_New zero n, mp_checked = False, mp_sent = [], mp_got = []\<rparr>"

abbreviation mpsc_reachable :: "'a \<Rightarrow> nat \<Rightarrow> 'a mpsc \<Rightarrow> bool" where
  "mpsc_reachable zero n \<equiv> (mpsc_step zero)\<^sup>*\<^sup>* (mpsc_start zero n)"

definition mpsc_inv :: "'a \<Rightarrow> 'a mpsc \<Rightarrow> bool" where
  "mpsc_inv zero s \<longleftrightarrow> rq_inv zero (mp_q s) \<and> mp_sent s = mp_got s @ rq_contents (mp_q s) \<and>
     (mp_checked s \<longrightarrow> 0 < q_len (mp_q s))"

lemma mpsc_step_inv: "mpsc_step zero s s' \<Longrightarrow> mpsc_inv zero s \<Longrightarrow> mpsc_inv zero s'"
proof (induction rule: mpsc_step.induct)
  case (produce s x q')
  then have "rq_inv zero q'" "rq_contents q' = rq_contents (mp_q s) @ [x]"
    using rq_Push_spec [of zero "mp_q s" x] by (auto simp: mpsc_inv_def)
  moreover from this(2) have "q_len q' = q_len (mp_q s) + 1" by (metis length_append_singleton length_rq_contents Suc_eq_plus1)
  ultimately show ?case using produce by (simp add: mpsc_inv_def)
next
  case (check s)
  then show ?case by (simp add: mpsc_inv_def rq_Empty_def rq_Length_def)
next
  case (pop s x q')
  then have "rq_inv zero q'" "x = hd (rq_contents (mp_q s))" "rq_contents q' = tl (rq_contents (mp_q s))" "0 < q_len (mp_q s)"
    using rq_Pop_locked_spec [of zero "mp_q s"] by (auto simp: mpsc_inv_def)
  moreover from this(4) have "rq_contents (mp_q s) \<noteq> []" by (metis length_rq_contents length_greater_0_conv)
  ultimately show ?case using pop by (simp add: mpsc_inv_def)
next
  case (pop_many s count out xs q')
  then have "rq_inv zero q'" "xs = take count (rq_contents (mp_q s))" "rq_contents q' = drop count (rq_contents (mp_q s))"
    using rq_PopMany_locked_spec [of zero "mp_q s" count out] by (auto simp: mpsc_inv_def)
  with pop_many show ?case by (simp add: mpsc_inv_def)
qed

lemma mpsc_reachable_inv:
  assumes "mpsc_reachable zero n s" "0 < n"
  shows "mpsc_inv zero s"
  using assms(1)
proof (induction rule: rtranclp_induct)
  case base
  then show ?case using rq_inv_New [of n zero] assms(2) by (simp add: mpsc_inv_def mpsc_start_def)
qed (auto intro: mpsc_step_inv)

text \<open>
  C13: with any interleaving of producers and one consumer, whose emptiness test is not under the
  lock, the consumer receives the items in the order they were pushed, none lost and none twice;
  what is not yet received is in the queue; a push never panics, and a consumer that has seen the
  queue not empty gets the oldest item when it takes the lock, whatever was pushed meanwhile.
\<close>

theorem mpsc_order:
  assumes "0 < n" and "mpsc_reachable zero n s"
  shows "mp_sent s = mp_got s @ rq_contents (mp_q s) \<and> rq_Length (mp_q s) = length (mp_sent s) - length (mp_got s) \<and>
    (\<forall>x. \<exists>q'. rq_Push zero (mp_q s) x = ret q') \<and>
    (mp_checked s \<longrightarrow> (\<exists>q'. rq_Pop_locked zero (mp_q s) = ret (mp_sent s ! length (mp_got s), q')))"
proof -
  note inv = mpsc_reachable_inv [OF assms(2,1)]
  then have i: "rq_inv zero (mp_q s)" "mp_sent s = mp_got s @ rq_contents (mp_q s)" by (simp_all add: mpsc_inv_def)
  have "\<exists>q'. rq_Pop_locked zero (mp_q s) = ret (mp_sent s ! length (mp_got s), q')" if "mp_checked s"
  proof -
    have "0 < q_len (mp_q s)" using inv that by (simp add: mpsc_inv_def)
    moreover from this have "rq_contents (mp_q s) \<noteq> []" by (metis length_rq_contents length_greater_0_conv)
    ultimately show ?thesis using rq_Pop_locked_spec [OF i(1)] i(2) by (auto simp: nth_append hd_conv_nth)
  qed
  then show ?thesis using i rq_Push_spec [OF i(1)] by (auto simp: rq_Length_def)
qed

lemma mpsc_order_witness:
  "\<exists>s. mpsc_reachable (0 :: int) 1 s \<and> mp_sent s = [7] @ rq_contents (mp_q s) \<and> rq_Length (mp_q s) = 0"
proof -
  let ?q1 = "the (rq_Push 0 (rq_New 0 1) (7 :: int))"
  have p: "rq_Push 0 (rq_New 0 1) (7 :: int) = ret ?q1" by code_simp
  let ?s0 = "mpsc_start (0 :: int) 1"
  let ?s1 = "?s0\<lparr>mp_q := ?q1, mp_sent := [7]\<rparr>"
  let ?s2 = "?s1\<lparr>mp_checked := True\<rparr>"
  let ?q2 = "snd (the (rq_Pop_locked 0 ?q1))"
  let ?s3 = "?s2\<lparr>mp_q := ?q2, mp_checked := False, mp_got := [7]\<rparr>"
  have "mpsc_step 0 ?s0 ?s1"
    using mpsc_step.produce [of 0 ?s0 7 ?q1] p by (simp add: mpsc_start_def)
  moreover have "mpsc_step 0 ?s1 ?s2"
  proof (rule mpsc_step.check)
    have "\<not> rq_Empty ?q1" by code_simp
    then show "\<not> rq_Empty (mp_q ?s1)" by simp
  qed (simp add: mpsc_start_def)
  moreover have "rq_Pop_locked 0 ?q1 = ret (7, ?q2)" by code_simp
  then have "mpsc_step 0 ?s2 ?s3"
    using mpsc_step.pop [of ?s2 0 7 ?q2] by (simp add: mpsc_start_def)
  ultimately have r: "mpsc_reachable 0 1 ?s3" by simp
  from mpsc_order [OF zero_less_one r] have "mp_sent ?s3 = mp_got ?s3 @ rq_contents (mp_q ?s3)"
    "rq_Length (mp_q ?s3) = length (mp_sent ?s3) - length (mp_got ?s3)" by blast+
  with r show ?thesis by (intro exI [of _ ?s3]) simp
qed

subsection \<open>One user\<close>

datatype 'a rq_op = RqPush 'a | RqPop | RqPopMany int "'a list"

definition rq_step :: "'a \<Rightarrow> 'a rq_op \<Rightarrow> 'a Queue \<Rightarrow> ('a Queue \<times> 'a list \<times> 'a list) go" where
  "rq_step zero x q =
     (case x of
        RqPush item \<Rightarrow> do { q \<leftarrow> rq_Push zero q item; ret (q, [item], []) }
      | RqPop \<Rightarrow> do { (res, ok, q) \<leftarrow> rq_Pop zero q; ret (q, [], if ok then [res] else []) }
      | RqPopMany count out \<Rightarrow> do {
          (res, q) \<leftarrow> rq_PopMany zero q count out;
          ret (q, [], case res of None \<Rightarrow> [] | Some xs \<Rightarrow> xs) })"

lemma rq_step_spec:
  assumes "rq_inv zero q"
  shows "\<exists>q' ins outs. rq_step zero x q = ret (q', ins, outs) \<and> rq_inv zero q' \<and> rq_contents q @ ins = outs @ rq_contents q'"
proof (cases x)
  case (RqPush item)
  with rq_Push_spec [OF assms, of item] show ?thesis by (auto simp: rq_step_def)
next
  case RqPop
  show ?thesis
  proof (cases "rq_Empty q")
    case False
    then have "0 < q_len q" by (simp add: rq_Empty_def rq_Length_def)
    moreover from this have "rq_contents q \<noteq> []" by (metis length_rq_contents length_greater_0_conv)
    ultimately show ?thesis using rq_Pop_locked_spec [OF assms] RqPop False by (auto simp: rq_step_def rq_Pop_def)
  qed (use RqPop assms in \<open>simp add: rq_step_def rq_Pop_def\<close>)
next
  case (RqPopMany count out)
  with rq_PopMany_locked_spec [OF assms, of "nat count" out] assms show ?thesis
    by (cases "rq_Empty q \<or> count \<le> 0") (auto simp: rq_step_def rq_PopMany_def)
qed

interpretation rq: total_fifo "rq_step zero" "rq_inv zero" rq_contents for zero
proof
  show "rq_inv zero q \<Longrightarrow> rq_step zero x q = Some (q', ins, outs) \<Longrightarrow> rq_inv zero q'" for q x q' ins outs
    using rq_step_spec [of zero q x] by auto
  show "rq_inv zero q \<Longrightarrow> rq_step zero x q = Some (q', ins, outs) \<Longrightarrow> rq_contents q @ ins = outs @ rq_contents q'" for q x q' ins outs
    using rq_step_spec [of zero q x] by auto
  show "rq_inv zero q \<Longrightarrow> \<exists>r. rq_step zero x q = Some r" for q x
    using rq_step_spec [of zero q x] by auto
qed

text \<open>
  Over any sequence of \<open>Push\<close>, \<open>Pop\<close> and \<open>PopMany\<close> on a queue made with a positive size,
  nothing panics, however often the queue grows, and the items popped are the first ones pushed,
  in order; \<open>Length\<close> counts the rest; and every slot without an item holds the zero value.
\<close>

theorem rq_sequential:
  assumes "0 < n"
  shows "\<exists>q ins outs. fifo_run (rq_step zero) ops (rq_New zero n) = ret (q, ins, outs) \<and>
    outs = take (length outs) ins \<and> rq_contents q = drop (length outs) ins \<and> rq_Length q = length ins - length outs \<and>
    (\<forall>i < rq_mod (q_content q). (\<forall>j < rq_Length q. rq_slot q j \<noteq> i) \<longrightarrow> rq_buffer (q_content q) ! i = zero)"
proof -
  note new = rq_inv_New [OF assms, of zero]
  from rq.run_total [of zero "rq_New zero n" ops] new obtain q ins outs where
    r: "fifo_run (rq_step zero) ops (rq_New zero n) = ret (q, ins, outs)" by (metis prod_cases3)
  from rq.run_prefix [OF _ _ r] new have p: "outs = take (length outs) ins" "rq_contents q = drop (length outs) ins" by blast+
  from rq.run_inv [OF _ r] new have "rq_inv zero q" by blast
  with r p rq_inv_facts(5) [of zero q] length_rq_contents [of q] show ?thesis by (auto simp: rq_Length_def)
qed

lemma rq_sequential_witness:
  "\<exists>q ins outs. fifo_run (rq_step (0 :: int)) [RqPush 1, RqPush 2, RqPop, RqPush 3, RqPopMany 5 []] (rq_New 0 1) = ret (q, ins, outs) \<and>
    outs = take (length outs) ins"
  using rq_sequential [of 1 0 "[RqPush 1, RqPush 2, RqPop, RqPush 3, RqPopMany 5 []]"] by auto

end
