(* ===== verification/FifoQueue.thy ===== *)
theory FifoQueue
  imports Prelude
begin

text \<open>
  The contract of \<open>IFiFoQueue\<close> (src/utils/queues/bbqueue/facade.go), the send queue of a
  connection: \<open>Push\<close>, \<open>Pop\<close> and the batched \<open>PopMany\<close>, which stops at a number of items and at a
  number of bytes.  An item is a pointer to a byte buffer, \<open>None\<close> for nil; only the length of its
  bytes matters to the queues.
\<close>

type_synonym bytebuffer = "byte list"
type_synonym item = "bytebuffer option"

definition item_len :: "item \<Rightarrow> nat" where
  "item_len x = (case x of None \<Rightarrow> 0 | Some b \<Rightarrow> length b)"

definition items_len :: "item list \<Rightarrow> nat" where
  "items_len xs = sum_list (map item_len xs)"

subsection \<open>How many items a batch takes\<close>

text \<open>
  With \<open>w\<close> items of \<open>t\<close> bytes already taken, how many of the items \<open>xs\<close> follow: at most \<open>count\<close> in
  all, the next only if it does not pass the limit (the first always), and none once the limit is
  reached.
\<close>

fun batch :: "int \<Rightarrow> nat \<Rightarrow> nat \<Rightarrow> nat \<Rightarrow> item list \<Rightarrow> nat" where
  "batch limit count w t [] = 0"
| "batch limit count w t (x # xs) =
     (if count \<le> w then 0
      else if limit > 0 \<and> w > 0 \<and> x \<noteq> None \<and> int (t + item_len x) > limit then 0
      else if limit > 0 \<and> int (t + item_len x) \<ge> limit then 1
      else Suc (batch limit count (Suc w) (t + item_len x) xs))"

definition batch_count :: "int \<Rightarrow> nat \<Rightarrow> nat" where
  "batch_count count recvLen = (let c = (if count < 1 then 1 else nat count) in if c > recvLen then recvLen else c)"

lemma batch_le: "batch limit count w t xs \<le> length xs"
  by (induction limit count w t xs rule: batch.induct) auto

lemma batch_le_count: "batch limit count w t xs \<le> count - w"
proof (induction limit count w t xs rule: batch.induct)
  case (2 limit count w t x xs)
  then show ?case by (cases "count \<le> w") (auto simp: Suc_le_eq)
qed simp

lemma batch_clamp: "batch limit (min count (w + length xs)) w t xs = batch limit count w t xs"
proof (induction limit count w t xs rule: batch.induct)
  case (2 limit count w t x xs)
  then show ?case by (cases "count \<le> w") auto
qed simp

lemma batch_pos: "xs \<noteq> [] \<Longrightarrow> w < count \<Longrightarrow> w = 0 \<Longrightarrow> 0 < batch limit count w t xs"
  by (cases xs) auto

lemma batch_count_pos: "0 < n \<Longrightarrow> 0 < batch_count c n"
  by (auto simp: batch_count_def Let_def)

lemma batch_count_le: "batch_count c n \<le> n"
  by (auto simp: batch_count_def Let_def)

text \<open>After the first item, the batch stays within the limit.\<close>

lemma batch_limit_rest:
  "0 < limit \<Longrightarrow> 0 < w \<Longrightarrow> int t < limit \<Longrightarrow> int (t + items_len (take (batch limit count w t xs) xs)) \<le> limit"
proof (induction limit count w t xs rule: batch.induct)
  case (2 limit count w t x xs)
  show ?case
  proof (cases "count \<le> w \<or> (x \<noteq> None \<and> int (t + item_len x) > limit)")
    case False
    show ?thesis
    proof (cases "int (t + item_len x) \<ge> limit")
      case True
      then have "batch limit count w t (x # xs) = 1" using False "2.prems" by auto
      moreover have "int (t + item_len x) \<le> limit" using False "2.prems" by (cases x) (auto simp: item_len_def)
      ultimately show ?thesis by (simp add: items_len_def)
    next
      case below: False
      with "2.IH" False "2.prems" have "int (t + item_len x + items_len (take (batch limit count (Suc w) (t + item_len x) xs) xs)) \<le> limit"
        by auto
      with False below "2.prems" show ?thesis by (auto simp: items_len_def add.assoc)
    qed
  qed (use "2.prems" in \<open>auto simp: items_len_def\<close>)
qed (simp add: items_len_def)

lemma batch_limit:
  assumes "0 < limit" "batch limit count 0 0 xs = k" "1 < k"
  shows "int (items_len (take k xs)) \<le> limit"
proof (cases xs)
  case (Cons x ys)
  with assms have c: "0 < count" "\<not> int (item_len x) \<ge> limit" "k = Suc (batch limit count 1 (item_len x) ys)"
    by (auto split: if_splits)
  with batch_limit_rest [of limit 1 "item_len x" count ys] assms(1) Cons show ?thesis
    by (simp add: items_len_def)
qed (use assms in auto)

lemma items_len_Nil [simp]: "items_len [] = 0"
  by (simp add: items_len_def)

lemma items_len_Cons [simp]: "items_len (x # xs) = item_len x + items_len xs"
  by (simp add: items_len_def)

text \<open>Without a limit the batch is as long as the count and the items allow.\<close>

lemma batch_unlimited: "limit \<le> 0 \<Longrightarrow> batch limit count w t xs = min (count - w) (length xs)"
  by (induction limit count w t xs rule: batch.induct) auto

text \<open>With one, exactly where it stops: no batch is shorter or longer than the conditions allow.\<close>

lemma batch_before:
  "0 < limit \<Longrightarrow> int t < limit \<Longrightarrow> j < batch limit count w t xs \<Longrightarrow> int (t + items_len (take j xs)) < limit"
proof (induction limit count w t xs arbitrary: j rule: batch.induct)
  case (2 limit count w t x xs)
  show ?case
  proof (cases j)
    case (Suc i)
    with "2.prems" have c: "\<not> count \<le> w" "\<not> (limit > 0 \<and> w > 0 \<and> x \<noteq> None \<and> int (t + item_len x) > limit)"
      "\<not> (limit > 0 \<and> int (t + item_len x) \<ge> limit)" "i < batch limit count (Suc w) (t + item_len x) xs"
      by (auto split: if_splits)
    from "2.IH" [OF c(1-3) _ _ c(4)] "2.prems"(1) c(3) Suc show ?thesis by (simp add: add.assoc)
  qed (use "2.prems" in simp)
qed simp

lemma batch_stops:
  "0 < limit \<Longrightarrow> int t < limit \<Longrightarrow> k = batch limit count w t xs \<Longrightarrow>
   k = min (count - w) (length xs) \<or> limit \<le> int (t + items_len (take k xs)) \<or>
   limit < int (t + items_len (take (Suc k) xs))"
proof (induction limit count w t xs arbitrary: k rule: batch.induct)
  case (2 limit count w t x xs)
  consider "count \<le> w" | "\<not> count \<le> w" "w > 0" "x \<noteq> None" "int (t + item_len x) > limit"
    | (last) "\<not> count \<le> w" "\<not> (limit > 0 \<and> w > 0 \<and> x \<noteq> None \<and> int (t + item_len x) > limit)" "int (t + item_len x) \<ge> limit"
    | (more) "\<not> count \<le> w" "\<not> (limit > 0 \<and> w > 0 \<and> x \<noteq> None \<and> int (t + item_len x) > limit)"
        "\<not> (limit > 0 \<and> int (t + item_len x) \<ge> limit)"
    using "2.prems"(1) by blast
  then show ?case
  proof cases
    case more
    then have k: "k = Suc (batch limit count (Suc w) (t + item_len x) xs)" using "2.prems"(3) by auto
    from "2.IH" [OF more "2.prems"(1) _ refl] more(3) "2.prems"(1) k more(1) show ?thesis
      by (auto simp: add.assoc)
  qed (use "2.prems" in \<open>auto simp: add.assoc\<close>)
qed simp

subsection \<open>The contract\<close>

locale fifo_queue =
  fixes inv :: "'q \<Rightarrow> bool" and contents :: "'q \<Rightarrow> item list"
    and Len :: "'q \<Rightarrow> nat" and IsEmpty :: "'q \<Rightarrow> bool" and IsFull :: "'q \<Rightarrow> bool"
    and Push :: "'q \<Rightarrow> item \<Rightarrow> (bool \<times> 'q) go" and Pop :: "'q \<Rightarrow> (item \<times> 'q) go"
    and PopMany :: "'q \<Rightarrow> int \<Rightarrow> item list \<Rightarrow> int \<Rightarrow> (nat \<times> item list \<times> 'q) go"
  assumes Len: "inv q \<Longrightarrow> Len q = length (contents q)"
    and IsEmpty: "inv q \<Longrightarrow> IsEmpty q \<longleftrightarrow> contents q = []"
    and Push: "inv q \<Longrightarrow> \<exists>ok q'. Push q x = ret (ok, q') \<and> inv q' \<and>
      (if ok then contents q' = contents q @ [x] else contents q' = contents q \<and> IsFull q)"
    and Pop: "inv q \<Longrightarrow> \<exists>q'. Pop q = ret (case contents q of [] \<Rightarrow> None | x # _ \<Rightarrow> x, q') \<and> inv q' \<and> contents q' = tl (contents q)"
    and PopMany_empty: "inv q \<Longrightarrow> contents q = [] \<Longrightarrow> PopMany q count recv limit = ret (0, recv, q)"
    and PopMany: "inv q \<Longrightarrow> contents q \<noteq> [] \<Longrightarrow> recv \<noteq> [] \<Longrightarrow>
      \<exists>recv' q'. PopMany q count recv limit = ret (batch limit (batch_count count (length recv)) 0 0 (contents q), recv', q') \<and>
        inv q' \<and> length recv' = length recv \<and>
        contents q' = drop (batch limit (batch_count count (length recv)) 0 0 (contents q)) (contents q) \<and>
        (\<forall>i < batch limit (batch_count count (length recv)) 0 0 (contents q). contents q ! i \<noteq> None \<longrightarrow> recv' ! i = contents q ! i)"
begin

text \<open>What a batch guarantees the caller.\<close>

lemma PopMany_batch:
  assumes "inv q" "contents q \<noteq> []" "recv \<noteq> []" "PopMany q count recv limit = ret (k, recv', q')"
  shows "0 < k \<and> k \<le> length recv \<and> k \<le> length (contents q) \<and> inv q' \<and> contents q' = drop k (contents q) \<and>
    (\<forall>i < k. contents q ! i \<noteq> None \<longrightarrow> recv' ! i = contents q ! i) \<and>
    (0 < limit \<longrightarrow> k = 1 \<or> int (items_len (take k (contents q))) \<le> limit)"
proof -
  let ?c = "batch_count count (length recv)"
  from PopMany [OF assms(1-3), of count limit] assms(4) have
    k: "k = batch limit ?c 0 0 (contents q)" "inv q'" "contents q' = drop k (contents q)"
      "\<forall>i < k. contents q ! i \<noteq> None \<longrightarrow> recv' ! i = contents q ! i" by auto
  have "0 < ?c" using assms(3) by (intro batch_count_pos) simp
  then have "0 < k" using assms(2) by (auto simp: k(1) intro: batch_pos)
  moreover have "k \<le> length (contents q)" by (simp add: k(1) batch_le)
  moreover have "k \<le> length recv" using batch_le_count [of limit ?c 0 0 "contents q"] batch_count_le [of count "length recv"]
    by (simp add: k(1))
  moreover have "0 < limit \<longrightarrow> k = 1 \<or> int (items_len (take k (contents q))) \<le> limit"
    using batch_limit [of limit ?c "contents q" k] k(1) \<open>0 < k\<close> by (cases "k = 1") auto
  ultimately show ?thesis using k(2-4) by blast
qed

text \<open>
  And exactly how long it is: \<open>m\<close> items at most, of which it takes all without a limit; with one it
  goes on while the bytes taken are below the limit and the next item does not pass it.
\<close>

lemma PopMany_length:
  assumes "inv q" "contents q \<noteq> []" "recv \<noteq> []" "PopMany q count recv limit = ret (k, recv', q')"
  defines "m \<equiv> min (nat (max 1 count)) (min (length recv) (length (contents q)))"
  shows "k \<le> m \<and> (limit \<le> 0 \<longrightarrow> k = m) \<and>
    (0 < limit \<longrightarrow> (\<forall>j < k. int (items_len (take j (contents q))) < limit) \<and>
       (k = m \<or> limit \<le> int (items_len (take k (contents q))) \<or> limit < int (items_len (take (Suc k) (contents q)))))"
proof -
  let ?c = "batch_count count (length recv)"
  from PopMany [OF assms(1-3), of count limit] assms(4) have k: "k = batch limit ?c 0 0 (contents q)" by auto
  have m: "m = min (?c - 0) (length (contents q))"
    using assms(3) by (cases recv) (auto simp: m_def batch_count_def Let_def min_def max_def)
  have "k \<le> m" using batch_le [of limit ?c 0 0 "contents q"] batch_le_count [of limit ?c 0 0 "contents q"] by (simp add: k m)
  moreover have "limit \<le> 0 \<longrightarrow> k = m" using batch_unlimited [of limit ?c 0 0 "contents q"] by (simp add: k m)
  moreover have "int (items_len (take j (contents q))) < limit" if "0 < limit" "j < k" for j
    using batch_before [of limit 0 j ?c 0 "contents q"] that by (simp add: k)
  moreover have "k = m \<or> limit \<le> int (items_len (take k (contents q))) \<or> limit < int (items_len (take (Suc k) (contents q)))"
    if "0 < limit"
    using batch_stops [of limit 0 k ?c 0 "contents q", OF that _ k] that by (simp add: m)
  ultimately show ?thesis by blast
qed

end

text \<open>
  Emptying a queue as the writer does: pop batches until one is empty.  The sequence of the items
  that arrived is returned; the fuel bounds the number of batches.
\<close>

fun drain :: "('q \<Rightarrow> int \<Rightarrow> item list \<Rightarrow> int \<Rightarrow> (nat \<times> item list \<times> 'q) go) \<Rightarrow> int \<Rightarrow> item list \<Rightarrow> int \<Rightarrow> nat \<Rightarrow> 'q \<Rightarrow> item list go" where
  "drain popMany count recv limit 0 q = panic"
| "drain popMany count recv limit (Suc n) q =
     (case popMany q count recv limit of
        None \<Rightarrow> panic
      | Some (k, recv, q) \<Rightarrow>
          if k = 0 then ret []
          else (case drain popMany count recv limit n q of None \<Rightarrow> panic | Some xs \<Rightarrow> ret (take k recv @ xs)))"

context fifo_queue
begin

text \<open>As many rounds as there are items, and one more to see the queue empty, are enough.\<close>

lemma drain_all:
  "inv q \<Longrightarrow> recv \<noteq> [] \<Longrightarrow> None \<notin> set (contents q) \<Longrightarrow> length (contents q) < n \<Longrightarrow>
   drain PopMany count recv limit n q = ret (contents q)"
proof (induction n arbitrary: q recv)
  case (Suc n)
  show ?case
  proof (cases "contents q = []")
    case True
    with PopMany_empty [OF Suc.prems(1)] show ?thesis by simp
  next
    case False
    from PopMany [OF Suc.prems(1) False Suc.prems(2), of count limit] obtain k recv' q' where
      p: "PopMany q count recv limit = ret (k, recv', q')" "length recv' = length recv" by blast
    note b = PopMany_batch [OF Suc.prems(1) False Suc.prems(2) p(1)]
    have t: "take k recv' = take k (contents q)"
    proof (rule nth_equalityI)
      fix i assume "i < length (take k recv')"
      then have "i < k" by simp
      moreover from this b have "contents q ! i \<noteq> None" using Suc.prems(3) by (metis nth_mem order_less_le_trans)
      ultimately show "take k recv' ! i = take k (contents q) ! i" using b by simp
    qed (use b p(2) in simp)
    have "drain PopMany count recv' limit n q' = ret (contents q')"
      using b p(2) Suc.prems by (intro Suc.IH) (auto dest: in_set_dropD)
    with p(1) b t show ?thesis by simp
  qed
qed simp

end

end
