(* ===== verification/BBQueue.thy ===== *)
theory BBQueue
  imports FifoQueue
begin

text \<open>
  The ring implementation of \<open>IFiFoQueue\<close> (src/utils/queues/bbqueue/bbqueue.go), strict (bounded)
  or growing.
\<close>

definition defaultSize :: nat where "defaultSize = 128"
definition shrinkMinSize :: nat where "shrinkMinSize = 2048"
definition enableShrink :: bool where "enableShrink = False"

record BBQueue =
  bb_buf :: "item list"
  bb_head :: nat
  bb_tail :: nat
  bb_count :: nat
  bb_isStrict :: bool

definition NewBBQueue :: "int \<Rightarrow> bool \<Rightarrow> BBQueue" where
  "NewBBQueue sz isStrict =
     (let n = (if sz \<le> 0 then defaultSize else nat sz)
      in \<lparr>bb_buf = replicate n None, bb_head = 0, bb_tail = 0, bb_count = 0, bb_isStrict = isStrict\<rparr>)"

definition bb_Cap :: "BBQueue \<Rightarrow> nat" where
  "bb_Cap q = length (bb_buf q)"

definition bb_Len :: "BBQueue \<Rightarrow> nat" where
  "bb_Len q = bb_count q"

definition bb_IsFull :: "BBQueue \<Rightarrow> bool" where
  "bb_IsFull q \<longleftrightarrow> bb_count q = length (bb_buf q)"

definition bb_IsEmpty :: "BBQueue \<Rightarrow> bool" where
  "bb_IsEmpty q \<longleftrightarrow> bb_count q = 0"

text \<open>\<open>copy\<close> of the live part to the front of a new array, as \<open>grow\<close> and \<open>shrink\<close> do it.\<close>

definition bb_move :: "BBQueue \<Rightarrow> nat \<Rightarrow> BBQueue go" where
  "bb_move q newSize = do {
     let newQueue = replicate newSize None;
     newQueue \<leftarrow>
       (if bb_count q > 0 then
          if bb_head q < bb_tail q then do {
            s \<leftarrow> slice_go (bb_buf q) (bb_head q) (bb_tail q);
            ret (copy_at newQueue 0 s) }
          else do {
            s \<leftarrow> slice_go (bb_buf q) (bb_head q) (length (bb_buf q));
            let n = min (length newQueue) (length s);
            let newQueue = copy_at newQueue 0 s;
            s \<leftarrow> slice_go (bb_buf q) 0 (bb_tail q);
            copy_go newQueue n s }
        else ret newQueue);
     ret (q\<lparr>bb_buf := newQueue, bb_head := 0, bb_tail := bb_count q\<rparr>) }"

definition bb_grow :: "BBQueue \<Rightarrow> BBQueue go" where
  "bb_grow q =
     (let newSize = length (bb_buf q) * 2; newSize = (if newSize = 0 then defaultSize else newSize)
      in bb_move q newSize)"

definition bb_shrink :: "BBQueue \<Rightarrow> BBQueue go" where
  "bb_shrink q =
     (if bb_isStrict q then ret q
      else let cur = length (bb_buf q) in
        if bb_count q \<ge> cur div 2 then ret q
        else if cur \<le> shrinkMinSize then ret q
        else
          let newSize = cur div 2;
              newSize = (if newSize < shrinkMinSize then shrinkMinSize else newSize);
              newSize = (if newSize < bb_count q then bb_count q else newSize)
          in if newSize \<ge> cur then ret q else bb_move q newSize)"

definition bb_Push :: "BBQueue \<Rightarrow> item \<Rightarrow> (bool \<times> BBQueue) go" where
  "bb_Push q bb =
     (if bb_count q = length (bb_buf q) \<and> bb_isStrict q then ret (False, q)
      else do {
        q \<leftarrow> (if bb_count q = length (bb_buf q) then bb_grow q else ret q);
        buf \<leftarrow> store_go (bb_buf q) (bb_tail q) bb;
        ret (True, q\<lparr>bb_buf := buf, bb_tail := (bb_tail q + 1) mod length buf, bb_count := bb_count q + 1\<rparr>) })"

definition bb_Pop :: "BBQueue \<Rightarrow> (item \<times> BBQueue) go" where
  "bb_Pop q =
     (if bb_count q = 0 then ret (None, q)
      else do {
        bb \<leftarrow> index_go (bb_buf q) (bb_head q);
        buf \<leftarrow> store_go (bb_buf q) (bb_head q) None;
        let q = q\<lparr>bb_buf := buf, bb_head := (bb_head q + 1) mod length buf, bb_count := bb_count q - 1\<rparr>;
        let q = (if bb_count q = 0 then q\<lparr>bb_head := 0, bb_tail := 0\<rparr> else q);
        q \<leftarrow> (if enableShrink \<and> \<not> bb_isStrict q then bb_shrink q else ret q);
        ret (bb, q) })"

function bb_pop_loop :: "int \<Rightarrow> nat \<Rightarrow> nat \<Rightarrow> nat \<Rightarrow> item list \<Rightarrow> BBQueue \<Rightarrow> (nat \<times> item list \<times> BBQueue) go" where
  "bb_pop_loop limitBytes count written totalBytes recv q =
     (if written < count \<and> bb_count q > 0 then do {
        stop \<leftarrow>
          (if limitBytes > 0 \<and> written > 0 then do {
             willPop \<leftarrow> index_go (bb_buf q) (bb_head q);
             ret (willPop \<noteq> None \<and> int (totalBytes + item_len willPop) > limitBytes) }
           else ret False);
        if stop then ret (written, recv, q)
        else do {
          (bb, q) \<leftarrow> bb_Pop q;
          if bb = None then bb_pop_loop limitBytes count (written + 1) totalBytes recv q
          else do {
            recv \<leftarrow> store_go recv written bb;
            let written = written + 1;
            let totalBytes = totalBytes + item_len bb;
            if limitBytes > 0 \<and> int totalBytes \<ge> limitBytes \<and> written > 0 then ret (written, recv, q)
            else bb_pop_loop limitBytes count written totalBytes recv q } } }
      else ret (written, recv, q))"
  by pat_completeness auto
termination
  by (relation "measure (\<lambda>(limitBytes, count, written, totalBytes, recv, q). count - written)") auto

declare bb_pop_loop.simps [simp del]

definition bb_PopMany :: "BBQueue \<Rightarrow> int \<Rightarrow> item list \<Rightarrow> int \<Rightarrow> (nat \<times> item list \<times> BBQueue) go" where
  "bb_PopMany q count recv limitBytes =
     (if bb_count q = 0 then ret (0, recv, q)
      else if length recv = 0 then panic
      else
        let count = (if count < 1 then 1 else nat count);
            count = (if count > length recv then length recv else count);
            count = (if count > bb_count q then bb_count q else count)
        in bb_pop_loop limitBytes count 0 0 recv q)"

subsection \<open>Contents and invariant\<close>

definition bb_contents :: "BBQueue \<Rightarrow> item list" where
  "bb_contents q = map (\<lambda>i. bb_buf q ! ((bb_head q + i) mod length (bb_buf q))) [0 ..< bb_count q]"

definition bb_inv :: "BBQueue \<Rightarrow> bool" where
  "bb_inv q \<longleftrightarrow> 0 < length (bb_buf q) \<and> bb_head q < length (bb_buf q) \<and> bb_count q \<le> length (bb_buf q) \<and>
     bb_tail q = (bb_head q + bb_count q) mod length (bb_buf q)"

lemma length_bb_contents [simp]: "length (bb_contents q) = bb_count q"
  by (simp add: bb_contents_def)

lemma bb_contents_Nil: "bb_contents q = [] \<longleftrightarrow> bb_count q = 0"
  by (metis length_bb_contents length_0_conv)

lemma bb_inv_New: "bb_inv (NewBBQueue sz strict) \<and> bb_contents (NewBBQueue sz strict) = []"
  by (simp add: bb_inv_def NewBBQueue_def bb_contents_def Let_def defaultSize_def)

text \<open>The live part as \<open>grow\<close> reads it.\<close>

lemma bb_contents_parts:
  assumes "bb_inv q" "0 < bb_count q"
  shows "bb_contents q = (if bb_head q < bb_tail q then sub_slice (bb_buf q) (bb_head q) (bb_tail q)
      else drop (bb_head q) (bb_buf q) @ take (bb_tail q) (bb_buf q))"
    and "bb_tail q \<le> length (bb_buf q)"
proof -
  let ?n = "length (bb_buf q)" and ?h = "bb_head q" and ?c = "bb_count q"
  have i: "?h < ?n" "?c \<le> ?n" "bb_tail q = (?h + ?c) mod ?n" using assms(1) by (auto simp: bb_inv_def)
  then show "bb_tail q \<le> length (bb_buf q)" using mod_less_divisor [of ?n "?h + ?c"] by linarith
  show "bb_contents q = (if bb_head q < bb_tail q then sub_slice (bb_buf q) (bb_head q) (bb_tail q)
      else drop (bb_head q) (bb_buf q) @ take (bb_tail q) (bb_buf q))"
  proof (cases "?h + ?c < ?n")
    case True
    then have "bb_tail q = ?h + ?c" using i by simp
    with True assms(2) show ?thesis by (auto simp: bb_contents_def intro!: nth_equalityI)
  next
    case False
    then have t: "bb_tail q = ?h + ?c - ?n" using i by (simp add: mod_if)
    show ?thesis
    proof (rule nth_equalityI)
      have "length (bb_contents q) = ?c" "\<not> ?h < bb_tail q" using t i by simp_all
      then show "length (bb_contents q) = length (if bb_head q < bb_tail q then sub_slice (bb_buf q) (bb_head q) (bb_tail q)
          else drop (bb_head q) (bb_buf q) @ take (bb_tail q) (bb_buf q))"
        using t i False by simp
      fix j assume "j < length (bb_contents q)"
      then have j: "j < ?c" by simp
      have "(?h + j) mod ?n = (if ?h + j < ?n then ?h + j else ?h + j - ?n)" using i j by (simp add: mod_if)
      then show "bb_contents q ! j = (if bb_head q < bb_tail q then sub_slice (bb_buf q) (bb_head q) (bb_tail q)
          else drop (bb_head q) (bb_buf q) @ take (bb_tail q) (bb_buf q)) ! j"
        using j t i False by (auto simp: bb_contents_def nth_append add.commute)
    qed
  qed
qed

lemma bb_move_spec:
  assumes "bb_inv q" "bb_count q \<le> n" "0 < n"
  shows "\<exists>q'. bb_move q n = ret q' \<and> length (bb_buf q') = n \<and> bb_head q' = 0 \<and> bb_tail q' = bb_count q \<and>
    bb_count q' = bb_count q \<and> bb_isStrict q' = bb_isStrict q \<and> bb_contents q' = bb_contents q"
proof -
  have mv: "\<exists>buf. bb_move q n = ret (q\<lparr>bb_buf := buf, bb_head := 0, bb_tail := bb_count q\<rparr>) \<and> length buf = n \<and>
      take (bb_count q) buf = bb_contents q"
  proof (cases "0 < bb_count q")
    case False
    then show ?thesis
      by (intro exI [of _ "replicate n None"]) (simp add: bb_move_def bb_contents_def)
  next
    case True
    note p = bb_contents_parts [OF assms(1) True]
    have h: "bb_head q < length (bb_buf q)" using assms(1) by (simp add: bb_inv_def)
    have len: "length (bb_contents q) \<le> n" using assms(2) by simp
    show ?thesis
    proof (cases "bb_head q < bb_tail q")
      case lt: True
      then have c: "bb_contents q = sub_slice (bb_buf q) (bb_head q) (bb_tail q)" using p by simp
      have "bb_move q n = ret (q\<lparr>bb_buf := copy_at (replicate n None) 0 (bb_contents q), bb_head := 0, bb_tail := bb_count q\<rparr>)"
        using lt True p(2) by (simp add: bb_move_def go_simps c)
      then show ?thesis using len
        by (intro exI [of _ "copy_at (replicate n None) 0 (bb_contents q)"]) (simp add: copy_at_def)
    next
      case ge: False
      then have c: "bb_contents q = drop (bb_head q) (bb_buf q) @ take (bb_tail q) (bb_buf q)" using p by simp
      have l: "length (bb_buf q) - bb_head q + bb_tail q \<le> n" using len unfolding c using p(2) by simp
      have "copy_at (copy_at (replicate n None) 0 (drop (bb_head q) (bb_buf q))) (length (bb_buf q) - bb_head q) (take (bb_tail q) (bb_buf q)) =
          copy_at (replicate n None) 0 (bb_contents q)"
        using l p(2) by (simp add: c copy_at_def min_absorb1 min_absorb2)
      moreover have "min n (length (bb_buf q) - bb_head q) = length (bb_buf q) - bb_head q" using l by simp
      ultimately have "bb_move q n = ret (q\<lparr>bb_buf := copy_at (replicate n None) 0 (bb_contents q), bb_head := 0, bb_tail := bb_count q\<rparr>)"
        using ge True p(2) h l by (simp add: bb_move_def go_simps slice_to_end slice_from_start)
      then show ?thesis using len
        by (intro exI [of _ "copy_at (replicate n None) 0 (bb_contents q)"]) (simp add: copy_at_def)
    qed
  qed
  then obtain buf where b: "bb_move q n = ret (q\<lparr>bb_buf := buf, bb_head := 0, bb_tail := bb_count q\<rparr>)" "length buf = n"
    "take (bb_count q) buf = bb_contents q" by blast
  have "map (\<lambda>i. buf ! (i mod n)) [0 ..< bb_count q] = take (bb_count q) buf"
    using b(2) assms(2) by (intro nth_equalityI) auto
  with b show ?thesis by (simp add: bb_contents_def)
qed

subsection \<open>The operations\<close>

lemma bb_inv_moved:
  "0 < length (bb_buf q) \<Longrightarrow> bb_head q = 0 \<Longrightarrow> bb_tail q = bb_count q \<Longrightarrow> bb_count q < length (bb_buf q) \<Longrightarrow> bb_inv q"
  by (simp add: bb_inv_def)

lemma bb_append:
  fixes x :: item
  assumes "bb_inv q" "bb_count q < length (bb_buf q)"
  defines "q' \<equiv> q\<lparr>bb_buf := (bb_buf q)[bb_tail q := x], bb_tail := (bb_tail q + 1) mod length (bb_buf q), bb_count := bb_count q + 1\<rparr>"
  shows "bb_inv q' \<and> bb_contents q' = bb_contents q @ [x] \<and> bb_tail q < length (bb_buf q)"
proof -
  let ?n = "length (bb_buf q)" and ?h = "bb_head q" and ?c = "bb_count q"
  have i: "0 < ?n" "?h < ?n" "?c \<le> ?n" "bb_tail q = (?h + ?c) mod ?n" using assms(1) by (auto simp: bb_inv_def)
  have ne: "(?h + j) mod ?n \<noteq> bb_tail q" if "j < ?c" for j
    using ring_index_inj [of ?h j ?n ?c] that assms(2) i(4) by auto
  have "bb_contents q' = bb_contents q @ [x]"
  proof (rule nth_equalityI)
    fix j assume "j < length (bb_contents q')"
    then have "j < ?c \<or> j = ?c" by (auto simp: q'_def)
    with ne [of j] i show "bb_contents q' ! j = (bb_contents q @ [x]) ! j"
      by (auto simp: bb_contents_def q'_def nth_append)
  qed (simp add: q'_def)
  moreover have "bb_inv q'" using i assms(2) by (simp add: bb_inv_def q'_def mod_simps)
  ultimately show ?thesis using i by simp
qed

lemma bb_Push_spec:
  assumes "bb_inv q"
  shows "\<exists>ok q'. bb_Push q x = ret (ok, q') \<and> bb_inv q' \<and> bb_isStrict q' = bb_isStrict q \<and>
    ok = (\<not> (bb_IsFull q \<and> bb_isStrict q)) \<and> bb_contents q' = (if ok then bb_contents q @ [x] else bb_contents q)"
proof (cases "bb_count q = length (bb_buf q)")
  case False
  then have "bb_count q < length (bb_buf q)" using assms by (simp add: bb_inv_def)
  from bb_append [OF assms this, of x] False show ?thesis
    by (intro exI [of _ True]) (simp add: bb_Push_def go_simps bb_IsFull_def)
next
  case full: True
  show ?thesis
  proof (cases "bb_isStrict q")
    case True
    with full assms show ?thesis by (intro exI [of _ False]) (simp add: bb_Push_def bb_IsFull_def)
  next
    case False
    have n: "0 < length (bb_buf q)" using assms by (simp add: bb_inv_def)
    from bb_move_spec [OF assms, of "length (bb_buf q) * 2"] full n obtain q1 where
      m: "bb_move q (length (bb_buf q) * 2) = ret q1" "length (bb_buf q1) = length (bb_buf q) * 2" "bb_head q1 = 0"
        "bb_tail q1 = bb_count q" "bb_count q1 = bb_count q" "bb_isStrict q1 = bb_isStrict q" "bb_contents q1 = bb_contents q" by auto
    have c: "bb_count q1 < length (bb_buf q1)" using m full n by simp
    have "bb_inv q1" using m c by (intro bb_inv_moved) auto
    from bb_append [OF this c, of x] m full False n show ?thesis
      by (intro exI [of _ True]) (simp add: bb_Push_def bb_grow_def Let_def go_simps bb_IsFull_def)
  qed
qed

lemma bb_Pop_spec:
  assumes "bb_inv q" "0 < bb_count q"
  shows "\<exists>q'. bb_Pop q = ret (hd (bb_contents q), q') \<and> bb_inv q' \<and> bb_contents q' = tl (bb_contents q) \<and>
    bb_isStrict q' = bb_isStrict q \<and> bb_count q' = bb_count q - 1"
proof -
  let ?n = "length (bb_buf q)" and ?h = "bb_head q" and ?c = "bb_count q"
  have i: "0 < ?n" "?h < ?n" "?c \<le> ?n" "bb_tail q = (?h + ?c) mod ?n" using assms(1) by (auto simp: bb_inv_def)
  define q1 where "q1 = q\<lparr>bb_buf := (bb_buf q)[?h := None], bb_head := (?h + 1) mod ?n, bb_count := ?c - 1\<rparr>"
  define q2 where "q2 = (if bb_count q1 = 0 then q1\<lparr>bb_head := 0, bb_tail := 0\<rparr> else q1)"
  have hd: "hd (bb_contents q) = bb_buf q ! ?h" using assms(2) i by (simp add: bb_contents_def hd_map)
  have "bb_Pop q = ret (hd (bb_contents q), q2)"
    using assms(2) i by (simp add: bb_Pop_def go_simps hd enableShrink_def q1_def q2_def Let_def)
  moreover have "bb_inv q2 \<and> bb_contents q2 = tl (bb_contents q) \<and> bb_isStrict q2 = bb_isStrict q \<and> bb_count q2 = ?c - 1"
  proof (cases "?c = 1")
    case True
    then have "tl (bb_contents q) = []" by (metis length_bb_contents length_tl diff_self_eq_0 length_0_conv)
    with True i show ?thesis by (simp add: q2_def q1_def bb_inv_def bb_contents_def)
  next
    case False
    then have q2: "q2 = q1" using assms(2) by (simp add: q2_def q1_def)
    have step: "((?h + 1) mod ?n + j) mod ?n = (?h + Suc j) mod ?n" for j
      by (simp add: mod_simps)
    have ne: "(?h + Suc j) mod ?n \<noteq> ?h" if "Suc j < ?c" for j
      using ring_index_inj [of ?h "Suc j" ?n 0] that i by auto
    have "bb_contents q1 = tl (bb_contents q)"
    proof (rule nth_equalityI)
      fix j assume "j < length (bb_contents q1)"
      then have "Suc j < ?c" "j < ?c - Suc 0" by (simp_all add: q1_def)
      with ne [of j] step [of j] show "bb_contents q1 ! j = tl (bb_contents q) ! j"
        by (simp add: bb_contents_def q1_def nth_tl)
    qed (simp add: q1_def)
    moreover have "bb_inv q1"
      using i assms(2) step [of "?c - 1"] by (simp add: bb_inv_def q1_def)
    ultimately show ?thesis by (simp add: q2) (simp add: q1_def)
  qed
  ultimately show ?thesis by blast
qed

lemma bb_pop_loop_spec:
  "bb_inv q \<Longrightarrow> count \<le> length recv \<Longrightarrow> 0 < limit \<longrightarrow> int t < limit \<Longrightarrow> k = batch limit count w t (bb_contents q) \<Longrightarrow>
   \<exists>recv' q'. bb_pop_loop limit count w t recv q = ret (w + k, recv', q') \<and> bb_inv q' \<and>
     bb_contents q' = drop k (bb_contents q) \<and> length recv' = length recv \<and> (\<forall>i < w. recv' ! i = recv ! i) \<and>
     (\<forall>i < k. bb_contents q ! i \<noteq> None \<longrightarrow> recv' ! (w + i) = bb_contents q ! i)"
proof (induction "count - w" arbitrary: w t recv q k)
  case 0
  then show ?case by (cases "bb_contents q") (auto simp: bb_pop_loop.simps)
next
  case (Suc d)
  note k = Suc.prems(4)
  show ?case
  proof (cases "bb_contents q")
    case Nil
    then have "bb_count q = 0" by (simp add: bb_contents_Nil)
    with Nil k Suc.prems(1) show ?thesis by (simp add: bb_pop_loop.simps)
  next
    case (Cons x xs)
    then have c: "0 < bb_count q" by (metis bb_contents_Nil list.distinct(1) neq0_conv)
    have w: "w < count" and d: "d = count - Suc w" using Suc.hyps(2) by simp_all
    have h: "bb_head q < length (bb_buf q)" "bb_buf q ! bb_head q = x"
      using Suc.prems(1) c Cons by (auto simp: bb_inv_def bb_contents_def upt_conv_Cons)
    from bb_Pop_spec [OF Suc.prems(1) c] Cons obtain q1 where
      q1: "bb_Pop q = ret (x, q1)" "bb_inv q1" "bb_contents q1 = xs" by auto
    consider (over) "limit > 0 \<and> w > 0 \<and> x \<noteq> None \<and> int (t + item_len x) > limit"
      | (nil) "x = None" | (last) "x \<noteq> None" "\<not> (limit > 0 \<and> w > 0 \<and> int (t + item_len x) > limit)" "limit > 0 \<and> int (t + item_len x) \<ge> limit"
      | (more) "x \<noteq> None" "\<not> (limit > 0 \<and> w > 0 \<and> int (t + item_len x) > limit)" "\<not> (limit > 0 \<and> int (t + item_len x) \<ge> limit)"
      by blast
    then show ?thesis
    proof cases
      case over
      then have "k = 0" using k Cons w by auto
      with over w c h Suc.prems(1) show ?thesis
        by (subst bb_pop_loop.simps) (auto simp: go_simps)
    next
      case nil
      then have k1: "k = Suc (batch limit count (Suc w) t xs)"
        using k Cons w Suc.prems(3) by (auto simp: item_len_def)
      from Suc.hyps(1) [OF d q1(2) Suc.prems(2,3) refl, unfolded q1(3)] obtain recv' q' where
        r: "bb_pop_loop limit count (Suc w) t recv q1 = ret (Suc w + batch limit count (Suc w) t xs, recv', q')"
          "bb_inv q'" "bb_contents q' = drop (batch limit count (Suc w) t xs) xs" "length recv' = length recv"
          "\<forall>i < Suc w. recv' ! i = recv ! i"
          "\<forall>i < batch limit count (Suc w) t xs. xs ! i \<noteq> None \<longrightarrow> recv' ! (Suc w + i) = xs ! i" by auto
      have "bb_pop_loop limit count w t recv q = bb_pop_loop limit count (Suc w) t recv q1"
        using nil w c h q1 by (subst bb_pop_loop.simps) (simp add: go_simps)
      moreover have "recv' ! (w + i) = bb_contents q ! i" if "i < k" "bb_contents q ! i \<noteq> None" for i
        using that r(6) k1 nil Cons by (cases i) auto
      moreover have "\<forall>i < w. recv' ! i = recv ! i" using r(5) by simp
      ultimately show ?thesis using r(1-4) k1 Cons by simp
    next
      case last
      then have "k = 1" using k Cons w by auto
      moreover have "bb_pop_loop limit count w t recv q = ret (Suc w, recv[w := x], q1)"
        using last w c h q1 Suc.prems(2) by (subst bb_pop_loop.simps) (auto simp: index_go_def store_go_def)
      ultimately show ?thesis using q1 Cons w Suc.prems(2) by simp
    next
      case more
      then have k1: "k = Suc (batch limit count (Suc w) (t + item_len x) xs)" using k Cons w by auto
      let ?b = "batch limit count (Suc w) (t + item_len x) xs" and ?r = "recv[w := x]"
      have lim: "0 < limit \<longrightarrow> int (t + item_len x) < limit" using more(3) by auto
      have len: "count \<le> length ?r" using Suc.prems(2) by simp
      from Suc.hyps(1) [OF d q1(2) len lim refl, unfolded q1(3)] obtain recv' q' where
        r: "bb_pop_loop limit count (Suc w) (t + item_len x) ?r q1 = ret (Suc w + ?b, recv', q')"
          "bb_inv q'" "bb_contents q' = drop ?b xs" "length recv' = length recv" "\<forall>i < Suc w. recv' ! i = ?r ! i"
          "\<forall>i < ?b. xs ! i \<noteq> None \<longrightarrow> recv' ! (Suc w + i) = xs ! i" by auto
      have "bb_pop_loop limit count w t recv q = bb_pop_loop limit count (Suc w) (t + item_len x) ?r q1"
        using more w c h q1 Suc.prems(2) by (subst bb_pop_loop.simps) (auto simp: index_go_def store_go_def)
      moreover have "recv' ! w = x" using r(5) w Suc.prems(2) by auto
      then have "recv' ! (w + i) = bb_contents q ! i" if "i < k" "bb_contents q ! i \<noteq> None" for i
        using that r(6) k1 Cons by (cases i) auto
      moreover have "\<forall>i < w. recv' ! i = recv ! i" using r(5) by simp
      ultimately show ?thesis using r(1-4) k1 Cons by simp
    qed
  qed
qed

lemma bb_PopMany_spec:
  fixes count limit :: int
  assumes "bb_inv q" "bb_contents q \<noteq> []" "recv \<noteq> []"
  defines "k \<equiv> batch limit (batch_count count (length recv)) 0 0 (bb_contents q)"
  shows "\<exists>recv' q'. bb_PopMany q count recv limit = ret (k, recv', q') \<and> bb_inv q' \<and> length recv' = length recv \<and>
    bb_contents q' = drop k (bb_contents q) \<and> (\<forall>i < k. bb_contents q ! i \<noteq> None \<longrightarrow> recv' ! i = bb_contents q ! i)"
proof -
  let ?b = "batch_count count (length recv)"
  define c where "c = (if ?b > bb_count q then bb_count q else ?b)"
  have c: "c = min ?b (0 + length (bb_contents q))" by (simp add: c_def)
  have k: "k = batch limit c 0 0 (bb_contents q)" unfolding k_def c by (rule batch_clamp [symmetric])
  have "c \<le> length recv" using batch_count_le [of count "length recv"] by (simp add: c_def)
  with bb_pop_loop_spec [OF assms(1) this _ k] have
    "\<exists>recv' q'. bb_pop_loop limit c 0 0 recv q = ret (k, recv', q') \<and> bb_inv q' \<and> length recv' = length recv \<and>
    bb_contents q' = drop k (bb_contents q) \<and> (\<forall>i < k. bb_contents q ! i \<noteq> None \<longrightarrow> recv' ! i = bb_contents q ! i)" by auto
  moreover have "bb_PopMany q count recv limit = bb_pop_loop limit c 0 0 recv q"
    using assms(2,3) by (simp add: bb_PopMany_def bb_contents_Nil c_def batch_count_def Let_def)
  ultimately show ?thesis by simp
qed

interpretation bb: fifo_queue bb_inv bb_contents bb_Len bb_IsEmpty bb_IsFull bb_Push bb_Pop bb_PopMany
proof
  fix q x count recv limit assume i: "bb_inv q"
  show "bb_Len q = length (bb_contents q)" by (simp add: bb_Len_def)
  show "bb_IsEmpty q \<longleftrightarrow> bb_contents q = []" by (simp add: bb_IsEmpty_def bb_contents_Nil)
  show "\<exists>ok q'. bb_Push q x = ret (ok, q') \<and> bb_inv q' \<and>
      (if ok then bb_contents q' = bb_contents q @ [x] else bb_contents q' = bb_contents q \<and> bb_IsFull q)"
  proof -
    from bb_Push_spec [OF i, of x] obtain ok q' where "bb_Push q x = ret (ok, q')" "bb_inv q'"
      "ok = (\<not> (bb_IsFull q \<and> bb_isStrict q))" "bb_contents q' = (if ok then bb_contents q @ [x] else bb_contents q)" by blast
    then show ?thesis by (intro exI [of _ ok] exI [of _ q']) auto
  qed
  show "\<exists>q'. bb_Pop q = ret (case bb_contents q of [] \<Rightarrow> None | x # _ \<Rightarrow> x, q') \<and> bb_inv q' \<and> bb_contents q' = tl (bb_contents q)"
  proof (cases "bb_contents q")
    case Nil
    then have "bb_count q = 0" by (simp add: bb_contents_Nil)
    with i Nil show ?thesis by (simp add: bb_Pop_def)
  next
    case (Cons y ys)
    then have "0 < bb_count q" by (metis bb_contents_Nil list.distinct(1) neq0_conv)
    with bb_Pop_spec [OF i] Cons show ?thesis by auto
  qed
  show "bb_PopMany q count recv limit = ret (0, recv, q)" if "bb_contents q = []"
    using that by (simp add: bb_PopMany_def bb_contents_Nil)
  show "\<exists>recv' q'. bb_PopMany q count recv limit = ret (batch limit (batch_count count (length recv)) 0 0 (bb_contents q), recv', q') \<and>
        bb_inv q' \<and> length recv' = length recv \<and>
        bb_contents q' = drop (batch limit (batch_count count (length recv)) 0 0 (bb_contents q)) (bb_contents q) \<and>
        (\<forall>i < batch limit (batch_count count (length recv)) 0 0 (bb_contents q). bb_contents q ! i \<noteq> None \<longrightarrow> recv' ! i = bb_contents q ! i)"
    if "bb_contents q \<noteq> []" "recv \<noteq> []"
    by (rule bb_PopMany_spec [OF i that])
qed

text \<open>\<open>shrink\<close>, which the constant \<open>enableShrink\<close> keeps from being called, also keeps the contents.\<close>

lemma bb_shrink_spec:
  assumes "bb_inv q"
  shows "\<exists>q'. bb_shrink q = ret q' \<and> bb_inv q' \<and> bb_contents q' = bb_contents q"
proof (cases "bb_isStrict q \<or> bb_count q \<ge> length (bb_buf q) div 2 \<or> length (bb_buf q) \<le> shrinkMinSize")
  case True
  with assms have "bb_shrink q = ret q" by (auto simp: bb_shrink_def Let_def)
  with assms show ?thesis by simp
next
  case False
  define n where "n = (let newSize = length (bb_buf q) div 2;
              newSize = (if newSize < shrinkMinSize then shrinkMinSize else newSize)
          in (if newSize < bb_count q then bb_count q else newSize))"
  have n: "bb_count q < n" "0 < n" using False by (auto simp: n_def Let_def shrinkMinSize_def)
  have s: "bb_shrink q = (if n \<ge> length (bb_buf q) then ret q else bb_move q n)"
    using False by (auto simp: bb_shrink_def n_def Let_def)
  have "bb_count q \<le> n" using n by simp
  from bb_move_spec [OF assms this n(2)] obtain q' where
    m: "bb_move q n = ret q'" "length (bb_buf q') = n" "bb_head q' = 0" "bb_tail q' = bb_count q" "bb_count q' = bb_count q"
      "bb_contents q' = bb_contents q" by blast
  then have "bb_inv q'" using n by (intro bb_inv_moved) auto
  with m s assms show ?thesis by simp
qed

subsection \<open>Properties of the ring implementation\<close>

text \<open>
  C14: \<open>PopMany\<close> of the ring queue takes exactly the batch that its limits describe.  Let \<open>m\<close> be the
  smallest of \<open>count\<close> (at least 1), the room in \<open>recv\<close> and the items there are.  On a queue that is not empty it
  takes the \<open>k\<close> oldest items, in order, and leaves the rest, with \<open>0 < k \<le> m\<close>: all \<open>m\<close> when there is no byte
  limit; with one, every shorter batch is below the limit, the batch itself is within it
  unless it is a single item, and it stops only at \<open>m\<close> items, at the limit, or before an item that would pass the
  limit, so that these conditions leave one possible \<open>k\<close>.  On an empty queue it returns 0, and it panics exactly when
  the queue is not empty and \<open>recv\<close> is.
\<close>

theorem bb_PopMany_batches:
  assumes "bb_inv q"
  shows "let C = bb_contents q; m = min (nat (max 1 count)) (min (length recv) (length C)) in
    if bb_IsEmpty q then bb_PopMany q count recv limit = ret (0, recv, q)
    else if recv = [] then bb_PopMany q count recv limit = panic
    else \<exists>k recv' q'. bb_PopMany q count recv limit = ret (k, recv', q') \<and> bb_inv q' \<and> length recv' = length recv \<and>
      C = take k C @ bb_contents q' \<and> (\<forall>i < k. C ! i \<noteq> None \<longrightarrow> recv' ! i = C ! i) \<and>
      0 < k \<and> k \<le> m \<and> (limit \<le> 0 \<longrightarrow> k = m) \<and>
      (0 < limit \<longrightarrow>
         (\<forall>j < k. int (items_len (take j C)) < limit) \<and>
         (k = 1 \<or> int (items_len (take k C)) \<le> limit) \<and>
         (k = m \<or> limit \<le> int (items_len (take k C)) \<or> limit < int (items_len (take (Suc k) C))))"
proof -
  consider (empty) "bb_contents q = []" | (none) "bb_contents q \<noteq> []" "recv = []" | (some) "bb_contents q \<noteq> []" "recv \<noteq> []" by blast
  then show ?thesis
  proof cases
    case empty
    with bb.IsEmpty [OF assms] bb.PopMany_empty [OF assms] show ?thesis by (simp add: Let_def)
  next
    case none
    with bb.IsEmpty [OF assms] show ?thesis by (simp add: bb_PopMany_def bb_contents_Nil Let_def)
  next
    case some
    from bb.PopMany [OF assms some, of count limit] obtain k recv' q' where
      p: "bb_PopMany q count recv limit = ret (k, recv', q')" "length recv' = length recv" by blast
    note b = bb.PopMany_batch [OF assms some p(1)] and l = bb.PopMany_length [OF assms some p(1)]
    have e: "\<not> bb_IsEmpty q" using some(1) bb.IsEmpty [OF assms] by simp
    show ?thesis
      unfolding Let_def if_not_P [OF e] if_not_P [OF some(2)]
      using b l p by (intro exI [of _ k] exI [of _ recv'] exI [of _ q'] conjI) simp_all
  qed
qed

definition sample_bb :: BBQueue where
  "sample_bb = \<lparr>bb_buf = [Some [1, 2], None, Some [5], Some [3, 4]], bb_head = 2, bb_tail = 1, bb_count = 3, bb_isStrict = False\<rparr>"

lemma bb_PopMany_batches_witness:
  "\<exists>k recv' q'. bb_PopMany sample_bb 9 [None, None, None] 3 = ret (k, recv', q') \<and> bb_inv q' \<and> 0 < k \<and>
     bb_contents sample_bb = take k (bb_contents sample_bb) @ bb_contents q'"
proof -
  have "bb_inv sample_bb" "\<not> bb_IsEmpty sample_bb" by (simp_all add: bb_inv_def sample_bb_def bb_IsEmpty_def)
  with bb_PopMany_batches [OF this(1), of 9 "[None, None, None]" 3] show ?thesis by (auto simp: Let_def)
qed

text \<open>
  A growing ring queue never refuses an item; a strict one refuses exactly when it holds as
  many items as its size, and then stays as it was; in both, an accepted item comes after all the
  others and \<open>Len\<close> grows by one.
\<close>

theorem bb_Push_bounds:
  assumes "bb_inv q"
  shows "\<exists>ok q'. bb_Push q x = ret (ok, q') \<and> bb_inv q' \<and>
    (ok \<longleftrightarrow> \<not> (bb_isStrict q \<and> bb_Len q = bb_Cap q)) \<and>
    bb_contents q' = (if ok then bb_contents q @ [x] else bb_contents q) \<and> bb_Len q' = (if ok then bb_Len q + 1 else bb_Len q)"
proof -
  from bb_Push_spec [OF assms, of x] obtain ok q' where p: "bb_Push q x = ret (ok, q')" "bb_inv q'"
    "ok = (\<not> (bb_IsFull q \<and> bb_isStrict q))" "bb_contents q' = (if ok then bb_contents q @ [x] else bb_contents q)" by blast
  then have "bb_Len q' = (if ok then bb_Len q + 1 else bb_Len q)"
    using bb.Len [OF assms] bb.Len [of q'] by auto
  with p show ?thesis by (intro exI [of _ ok] exI [of _ q']) (auto simp: bb_IsFull_def bb_Len_def bb_Cap_def)
qed

lemma bb_Push_bounds_witness:
  "\<exists>ok q'. bb_Push sample_bb (Some [6]) = ret (ok, q') \<and> bb_inv q' \<and> bb_contents q' = (if ok then bb_contents sample_bb @ [Some [6]] else bb_contents sample_bb)"
  using bb_Push_bounds [of sample_bb "Some [6]"] by (auto simp: bb_inv_def sample_bb_def)

text \<open>
  The writer's loop of \<open>PopMany\<close> empties a ring queue of buffers: whatever the limits, it
  delivers every item once, in the order of the pushes, in at most one call more than there are items.
\<close>

theorem bb_drained:
  assumes "bb_inv q" and "recv \<noteq> []" and "None \<notin> set (bb_contents q)"
  shows "drain bb_PopMany count recv limit (Suc (bb_Len q)) q = ret (bb_contents q)"
  using bb.drain_all [OF assms, of "Suc (bb_Len q)"] by (simp add: bb_Len_def)

lemma bb_drained_witness:
  "drain bb_PopMany 2 [None, None] 1 (Suc (bb_Len sample_bb)) sample_bb = ret [Some [5], Some [3, 4], Some [1, 2]]"
  using bb_drained [of sample_bb "[None, None]" 2 1]
  by (simp add: bb_inv_def bb_contents_def sample_bb_def upt_rec)

end
