(* ===== verification/NNQueue.thy ===== *)
theory NNQueue
  imports Fifo FifoQueue BytePool
begin

text \<open>
  The linked-list implementation of \<open>IFiFoQueue\<close> (src/utils/queues/bbqueue/nnqueue.go) over an
  explicit heap of nodes: a queue, its own list of free nodes, and the pool of nodes shared by all
  queues (a \<open>sync.Pool\<close>: \<open>Get\<close> returns one of the pooled nodes or, when \<open>pick\<close> gives none, a new
  one).  Nodes are numbers; a nil pointer is \<open>None\<close>.
\<close>

record nnNode =
  nn_next :: "nat option"
  nn_data :: item

record nnHeap =
  nh_node :: "nat \<Rightarrow> nnNode"
  nh_fresh :: nat
  nh_pool :: "nat list"

definition nilNode :: nnNode where
  "nilNode = \<lparr>nn_next = None, nn_data = None\<rparr>"

definition set_next :: "nnHeap \<Rightarrow> nat \<Rightarrow> nat option \<Rightarrow> nnHeap" where
  "set_next h a p = h\<lparr>nh_node := (nh_node h)(a := (nh_node h a)\<lparr>nn_next := p\<rparr>)\<rparr>"

definition set_data :: "nnHeap \<Rightarrow> nat \<Rightarrow> item \<Rightarrow> nnHeap" where
  "set_data h a x = h\<lparr>nh_node := (nh_node h)(a := (nh_node h a)\<lparr>nn_data := x\<rparr>)\<rparr>"

text \<open>\<open>&nnNode{}\<close>.\<close>

definition new_node :: "nnHeap \<Rightarrow> nnHeap \<times> nat" where
  "new_node h = (h\<lparr>nh_node := (nh_node h)(nh_fresh h := nilNode), nh_fresh := Suc (nh_fresh h)\<rparr>, nh_fresh h)"

definition getNNNode :: "picker \<Rightarrow> nnHeap \<Rightarrow> nnHeap \<times> nat" where
  "getNNNode pick h =
     (case pick (nh_pool h) of
        Some a \<Rightarrow> (h\<lparr>nh_pool := remove1 a (nh_pool h)\<rparr>, a)
      | None \<Rightarrow> new_node h)"

definition putNNNode :: "nnHeap \<Rightarrow> nat \<Rightarrow> nnHeap" where
  "putNNNode h a = (let h = set_next h a None; h = set_data h a None in h\<lparr>nh_pool := a # nh_pool h\<rparr>)"

record NNQueue =
  nq_head :: nat
  nq_tail :: nat
  nq_free :: "nat option"
  nq_count :: nat
  nq_maxCount :: nat
  nq_isStrict :: bool
  nq_freeCount :: nat
  nq_freeMax :: nat

text \<open>\<open>defaultSize\<close> of bbqueue.go is 128.\<close>

definition NewNNQueue :: "nnHeap \<Rightarrow> int \<Rightarrow> bool \<Rightarrow> nnHeap \<times> NNQueue" where
  "NewNNQueue h sz isStrict =
     (let n = (if sz \<le> 0 then 128 else nat sz);
          freeMax = n; freeMax = (if freeMax < 64 then 64 else freeMax); freeMax = (if freeMax > 256 then 256 else freeMax)
      in case new_node h of (h, sentinel) \<Rightarrow>
        (h, \<lparr>nq_head = sentinel, nq_tail = sentinel, nq_free = None, nq_count = 0, nq_maxCount = n,
             nq_isStrict = isStrict, nq_freeCount = 0, nq_freeMax = freeMax\<rparr>))"

type_synonym nnstate = "nnHeap \<times> NNQueue"

fun nn_Len :: "nnstate \<Rightarrow> nat" where
  "nn_Len (h, q) = nq_count q"

fun nn_IsFull :: "nnstate \<Rightarrow> bool" where
  "nn_IsFull (h, q) \<longleftrightarrow> nq_isStrict q \<and> nq_count q \<ge> nq_maxCount q"

fun nn_IsEmpty :: "nnstate \<Rightarrow> bool" where
  "nn_IsEmpty (h, q) \<longleftrightarrow> nq_count q = 0"

fun nn_acquireNode :: "picker \<Rightarrow> nnstate \<Rightarrow> nat \<times> nnstate" where
  "nn_acquireNode pick (h, q) =
     (case nq_free q of
        Some n \<Rightarrow>
          let q = q\<lparr>nq_free := nn_next (nh_node h n), nq_freeCount := nq_freeCount q - 1\<rparr>;
              h = set_next h n None
          in (n, h, q)
      | None \<Rightarrow> (case getNNNode pick h of (h, n) \<Rightarrow> (n, h, q)))"

fun nn_recycleNode :: "nnstate \<Rightarrow> nat option \<Rightarrow> nnstate" where
  "nn_recycleNode (h, q) None = (h, q)"
| "nn_recycleNode (h, q) (Some node) =
     (let h = set_data h node None in
      if nq_freeCount q < nq_freeMax q
      then (set_next h node (nq_free q), q\<lparr>nq_free := Some node, nq_freeCount := nq_freeCount q + 1\<rparr>)
      else (putNNNode h node, q))"

fun nn_Push :: "picker \<Rightarrow> nnstate \<Rightarrow> item \<Rightarrow> bool \<times> nnstate" where
  "nn_Push pick (h, q) data =
     (if nq_isStrict q \<and> nq_count q \<ge> nq_maxCount q then (False, h, q)
      else case nn_acquireNode pick (h, q) of (node, h, q) \<Rightarrow>
        let h = set_data h node data;
            h = set_next h node None;
            h = set_next h (nq_tail q) (Some node);
            q = q\<lparr>nq_tail := node, nq_count := nq_count q + 1\<rparr>
        in (True, h, q))"

fun nn_Pop :: "nnstate \<Rightarrow> item \<times> nnstate" where
  "nn_Pop (h, q) =
     (case nn_next (nh_node h (nq_head q)) of
        None \<Rightarrow> (None, h, q)
      | Some first \<Rightarrow>
          let h = set_next h (nq_head q) (nn_next (nh_node h first));
              q = (if nn_next (nh_node h (nq_head q)) = None then q\<lparr>nq_tail := nq_head q\<rparr> else q);
              q = q\<lparr>nq_count := nq_count q - 1\<rparr>;
              bb = nn_data (nh_node h first)
          in (bb, nn_recycleNode (h, q) (Some first)))"

text \<open>The loop of \<open>PopMany\<close>; it ends with the node the queue goes on from.\<close>

function nn_pop_loop ::
  "int \<Rightarrow> nat \<Rightarrow> nat \<Rightarrow> nat \<Rightarrow> item list \<Rightarrow> nat option \<Rightarrow> nnstate \<Rightarrow> (nat \<times> item list \<times> nat option \<times> nnstate) go" where
  "nn_pop_loop limitBytes count written totalBytes recv node (h, q) =
     (case node of
        None \<Rightarrow> ret (written, recv, node, h, q)
      | Some a \<Rightarrow>
          if \<not> written < count then ret (written, recv, node, h, q)
          else if limitBytes > 0 \<and> written > 0 \<and> nn_data (nh_node h a) \<noteq> None \<and>
               int (totalBytes + item_len (nn_data (nh_node h a))) > limitBytes
          then ret (written, recv, node, h, q)
          else
            let nxt = nn_next (nh_node h a); bb = nn_data (nh_node h a) in do {
              recv \<leftarrow> store_go recv written bb;
              let written = written + 1;
              let totalBytes = (if bb \<noteq> None then totalBytes + item_len bb else totalBytes);
              let q = q\<lparr>nq_count := nq_count q - 1\<rparr>;
              let s = nn_recycleNode (h, q) node;
              if limitBytes > 0 \<and> int totalBytes \<ge> limitBytes \<and> written > 0 then ret (written, recv, nxt, s)
              else nn_pop_loop limitBytes count written totalBytes recv nxt s })"
  by pat_completeness auto
termination
  by (relation "measure (\<lambda>(limitBytes, count, written, totalBytes, recv, node, s). count - written)") auto

declare nn_pop_loop.simps [simp del]

fun nn_PopMany :: "nnstate \<Rightarrow> int \<Rightarrow> item list \<Rightarrow> int \<Rightarrow> (nat \<times> item list \<times> nnstate) go" where
  "nn_PopMany (h, q) count recv limitBytes =
     (if nq_count q = 0 then ret (0, recv, h, q)
      else if length recv = 0 then panic
      else
        let count = (if count < 1 then 1 else nat count);
            count = (if count > length recv then length recv else count);
            count = (if count > nq_count q then nq_count q else count)
        in do {
          (written, recv, node, h, q) \<leftarrow> nn_pop_loop limitBytes count 0 0 recv (nn_next (nh_node h (nq_head q))) (h, q);
          let h = set_next h (nq_head q) node;
          let q = (if nn_next (nh_node h (nq_head q)) = None then q\<lparr>nq_tail := nq_head q\<rparr> else q);
          ret (written, recv, h, q) })"

subsection \<open>Lists in the heap\<close>

fun chain :: "(nat \<Rightarrow> nnNode) \<Rightarrow> nat option \<Rightarrow> nat list \<Rightarrow> bool" where
  "chain nd p [] \<longleftrightarrow> p = None"
| "chain nd p (a # as) \<longleftrightarrow> p = Some a \<and> chain nd (nn_next (nd a)) as"

primrec walk :: "(nat \<Rightarrow> nnNode) \<Rightarrow> nat \<Rightarrow> nat option \<Rightarrow> nat list" where
  "walk nd 0 p = []"
| "walk nd (Suc n) p = (case p of None \<Rightarrow> [] | Some a \<Rightarrow> a # walk nd n (nn_next (nd a)))"

lemma chain_walk: "chain nd p as \<Longrightarrow> walk nd (length as) p = as"
  by (induction as arbitrary: p) auto

lemma chain_cong: "(\<And>a. a \<in> set as \<Longrightarrow> nn_next (nd a) = nn_next (nd' a)) \<Longrightarrow> chain nd p as = chain nd' p as"
  by (induction as arbitrary: p) auto

lemma chain_upd [simp]: "b \<notin> set as \<Longrightarrow> chain (nd(b := x)) p as = chain nd p as"
  by (rule chain_cong) auto

text \<open>Appending at the end of a list that starts in \<open>h\<close>.\<close>

lemma chain_append_last:
  "chain nd (nn_next (nd h)) as \<Longrightarrow> distinct (h # as) \<Longrightarrow> b \<notin> set (h # as) \<Longrightarrow> nn_next (nd b) = None \<Longrightarrow>
   l = last (h # as) \<Longrightarrow>
   chain (nd(l := (nd l)\<lparr>nn_next := Some b\<rparr>)) (nn_next ((nd(l := (nd l)\<lparr>nn_next := Some b\<rparr>)) h)) (as @ [b])"
proof (induction as arbitrary: h)
  case (Cons a as)
  from Cons.prems have l: "l = last (a # as)" "l \<noteq> h" by (auto dest: last_in_set)
  then show ?case using Cons by (simp split del: if_split)
qed simp

subsection \<open>Ownership\<close>

text \<open>
  \<open>nn_owns s node ns fs\<close>: the nodes \<open>ns\<close> are linked from \<open>node\<close> on and hold the queue, \<open>fs\<close> is
  the free list; they, the sentinel and the pool are all different.
\<close>

fun nn_owns :: "nnstate \<Rightarrow> nat option \<Rightarrow> nat list \<Rightarrow> nat list \<Rightarrow> bool" where
  "nn_owns (h, q) node ns fs \<longleftrightarrow>
     chain (nh_node h) node ns \<and> chain (nh_node h) (nq_free q) fs \<and>
     distinct (nq_head q # ns @ fs @ nh_pool h) \<and> (\<forall>a \<in> set (nq_head q # ns @ fs @ nh_pool h). a < nh_fresh h) \<and>
     nq_count q = length ns \<and> nq_freeCount q = length fs"

fun nn_inv :: "nnstate \<Rightarrow> bool" where
  "nn_inv (h, q) \<longleftrightarrow> (\<exists>ns fs. nn_owns (h, q) (nn_next (nh_node h (nq_head q))) ns fs \<and> nq_tail q = last (nq_head q # ns))"

fun nn_contents :: "nnstate \<Rightarrow> item list" where
  "nn_contents (h, q) = map (\<lambda>a. nn_data (nh_node h a)) (walk (nh_node h) (nq_count q) (nn_next (nh_node h (nq_head q))))"

lemma nn_contents_owns:
  "nn_owns (h, q) (nn_next (nh_node h (nq_head q))) ns fs \<Longrightarrow> nn_contents (h, q) = map (\<lambda>a. nn_data (nh_node h a)) ns"
  by (simp add: chain_walk)

lemma nn_inv_New:
  assumes "\<forall>a \<in> set (nh_pool h). a < nh_fresh h" "distinct (nh_pool h)"
  shows "nn_inv (NewNNQueue h sz strict) \<and> nn_contents (NewNNQueue h sz strict) = []"
  using assms by (auto simp: NewNNQueue_def Let_def new_node_def nilNode_def intro!: exI [of _ "[]"])

text \<open>Giving a node back, and taking one.\<close>

lemma recycle_owns:
  assumes "nn_owns (h, q) node ns fs" "a \<notin> set (nq_head q # ns @ fs @ nh_pool h)" "a < nh_fresh h"
    and "nn_recycleNode (h, q) (Some a) = (h', q')"
  shows "\<exists>fs'. nn_owns (h', q') node ns fs' \<and> set fs' \<union> set (nh_pool h') = insert a (set fs \<union> set (nh_pool h)) \<and>
    nq_head q' = nq_head q \<and> nq_tail q' = nq_tail q \<and> nq_count q' = nq_count q \<and>
    (\<forall>b. b \<noteq> a \<longrightarrow> nh_node h' b = nh_node h b) \<and> nh_fresh h' = nh_fresh h"
proof (cases "nq_freeCount q < nq_freeMax q")
  case True
  with assms show ?thesis
    by (intro exI [of _ "a # fs"]) (auto simp: Let_def set_next_def set_data_def)
next
  case False
  with assms show ?thesis
    by (intro exI [of _ fs]) (auto simp: Let_def set_next_def set_data_def putNNNode_def)
qed

lemma acquire_owns:
  assumes "nn_owns (h, q) node ns fs" "valid_picker pick" "nn_acquireNode pick (h, q) = (a, h', q')"
  shows "\<exists>fs'. nn_owns (h', q') node ns fs' \<and> a \<notin> set (nq_head q # ns @ fs' @ nh_pool h') \<and> a < nh_fresh h' \<and>
    nq_head q' = nq_head q \<and> nq_tail q' = nq_tail q \<and> nq_count q' = nq_count q \<and>
    (\<forall>b \<in> set (nq_head q # ns). nh_node h' b = nh_node h b)"
proof (cases "nq_free q")
  case (Some n)
  with assms(1) obtain fs' where fs: "fs = n # fs'" "chain (nh_node h) (nn_next (nh_node h n)) fs'" by (cases fs) auto
  with Some assms show ?thesis
    by (intro exI [of _ fs']) (auto simp: Let_def set_next_def)
next
  case None
  show ?thesis
  proof (cases "pick (nh_pool h)")
    case (Some b)
    then have b: "b \<in> set (nh_pool h)" using assms(2) by (auto simp: valid_picker_def)
    with None Some assms show ?thesis
      by (intro exI [of _ fs]) (auto simp: getNNNode_def)
  next
    case none: None
    have new: "nh_fresh h \<notin> set (nq_head q # ns @ fs @ nh_pool h)" using assms(1) by auto
    have "a = nh_fresh h" "q' = q" "h' = h\<lparr>nh_node := (nh_node h)(nh_fresh h := nilNode), nh_fresh := Suc (nh_fresh h)\<rparr>"
      using None none assms(3) by (auto simp: getNNNode_def new_node_def)
    with new assms(1) show ?thesis by (intro exI [of _ fs]) (auto simp: less_Suc_eq)
  qed
qed

lemma nn_Push_spec:
  assumes "nn_inv s" "valid_picker pick"
  shows "\<exists>ok s'. nn_Push pick s x = (ok, s') \<and> nn_inv s' \<and> (ok \<longleftrightarrow> \<not> nn_IsFull s) \<and>
    nn_contents s' = (if ok then nn_contents s @ [x] else nn_contents s)"
proof -
  obtain h q where s: "s = (h, q)" by fastforce
  show ?thesis
  proof (cases "nn_IsFull s")
    case True
    with assms(1) s show ?thesis by (intro exI [of _ False] exI [of _ s]) simp
  next
    case False
    from assms(1) s obtain ns fs where o: "nn_owns (h, q) (nn_next (nh_node h (nq_head q))) ns fs"
      and t: "nq_tail q = last (nq_head q # ns)" by auto
    obtain a h1 q1 where acq: "nn_acquireNode pick (h, q) = (a, h1, q1)" using prod_cases3 by blast
    from acquire_owns [OF o assms(2) acq] obtain fs' where
      o1: "nn_owns (h1, q1) (nn_next (nh_node h (nq_head q))) ns fs'"
      and a: "a \<notin> set (nq_head q # ns @ fs' @ nh_pool h1)" "a < nh_fresh h1"
      and same: "nq_head q1 = nq_head q" "nq_tail q1 = nq_tail q" "nq_count q1 = nq_count q"
        "\<forall>b \<in> set (nq_head q # ns). nh_node h1 b = nh_node h b" by blast
    let ?hd = "nq_head q" and ?l = "last (nq_head q # ns)"
    define h2 where "h2 = set_next (set_data h1 a x) a None"
    define h3 where "h3 = set_next h2 ?l (Some a)"
    define q2 where "q2 = q1\<lparr>nq_tail := a, nq_count := nq_count q1 + 1\<rparr>"
    have l: "?l \<in> set (?hd # ns)" by (rule last_in_set) simp
    then have la: "?l \<noteq> a" using a by auto
    have push: "nn_Push pick s x = (True, h3, q2)"
      using False acq s same t by (simp add: Let_def h3_def h2_def q2_def del: last.simps)
    have n2: "nh_node h2 = (nh_node h1)(a := \<lparr>nn_next = None, nn_data = x\<rparr>)"
      by (simp add: h2_def set_next_def set_data_def fun_eq_iff)
    have n3: "nh_node h3 = (nh_node h2)(?l := (nh_node h2 ?l)\<lparr>nn_next := Some a\<rparr>)"
      by (simp add: h3_def set_next_def)
    have "chain (nh_node h1) (nn_next (nh_node h1 ?hd)) ns" using o1 same by simp
    then have "chain (nh_node h2) (nn_next (nh_node h2 ?hd)) ns" using a by (auto simp: n2)
    then have "chain (nh_node h3) (nn_next (nh_node h3 ?hd)) (ns @ [a])"
      unfolding n3 using o1 a same by (intro chain_append_last) (auto simp: n2)
    moreover have "chain (nh_node h3) (nq_free q2) fs'"
    proof -
      have "?l \<notin> set fs'" using o1 l same(1) by auto
      then show ?thesis using o1 a by (auto simp: n3 n2 q2_def)
    qed
    moreover have rest: "nh_pool h3 = nh_pool h1" "nh_fresh h3 = nh_fresh h1" by (simp_all add: h3_def h2_def set_next_def set_data_def)
    ultimately have own: "nn_owns (h3, q2) (nn_next (nh_node h3 (nq_head q2))) (ns @ [a]) fs'"
      using o1 a same by (auto simp: q2_def)
    moreover have "nq_tail q2 = last (nq_head q2 # ns @ [a])" by (simp add: q2_def)
    ultimately have inv: "nn_inv (h3, q2)" unfolding nn_inv.simps by blast
    have "nn_data (nh_node h3 b) = nn_data (nh_node h b)" if "b \<in> set ns" for b
      using that a same(4) by (auto simp: n3 n2)
    moreover have "nn_data (nh_node h3 a) = x" using la by (simp add: n3 n2 del: last.simps)
    ultimately have "nn_contents (h3, q2) = nn_contents s @ [x]"
      unfolding s nn_contents_owns [OF o] nn_contents_owns [OF own] by simp
    with push inv False show ?thesis by (intro exI [of _ True] exI [of _ "(h3, q2)"]) simp
  qed
qed

text \<open>Dropping the first node from the front.\<close>

lemma owns_tl:
  assumes "nn_owns (h, q) (Some a) (a # ns) fs"
  shows "nn_owns (h, q\<lparr>nq_count := nq_count q - 1\<rparr>) (nn_next (nh_node h a)) ns fs \<and>
    a \<notin> set (nq_head q # ns @ fs @ nh_pool h) \<and> a < nh_fresh h"
  using assms by auto

text \<open>Ownership does not depend on the link of the sentinel, nor on the tail.\<close>

lemma owns_set_head: "nn_owns (h, q) node ns fs \<Longrightarrow> nn_owns (set_next h (nq_head q) p, q) node ns fs"
  by (auto simp: set_next_def)

lemma owns_set_tail [simp]: "nn_owns (h, q\<lparr>nq_tail := t\<rparr>) node ns fs = nn_owns (h, q) node ns fs"
  by simp

text \<open>Closing the queue: link the sentinel to the remaining nodes and repair the tail.\<close>

definition nn_close :: "nnHeap \<Rightarrow> NNQueue \<Rightarrow> nat option \<Rightarrow> nnstate" where
  "nn_close h q node =
     (let h = set_next h (nq_head q) node;
          q = (if nn_next (nh_node h (nq_head q)) = None then q\<lparr>nq_tail := nq_head q\<rparr> else q)
      in (h, q))"

lemma nn_close_inv:
  assumes "nn_owns (h, q) node ns fs" "ns \<noteq> [] \<longrightarrow> nq_tail q = last ns"
  shows "nn_inv (nn_close h q node) \<and> nn_contents (nn_close h q node) = map (\<lambda>a. nn_data (nh_node h a)) ns"
proof -
  let ?h = "set_next h (nq_head q) node"
  let ?q = "if node = None then q\<lparr>nq_tail := nq_head q\<rparr> else q"
  have hd: "nn_next (nh_node ?h (nq_head q)) = node" by (simp add: set_next_def)
  then have c: "nn_close h q node = (?h, ?q)" by (simp add: nn_close_def Let_def)
  have o: "nn_owns (?h, ?q) (nn_next (nh_node ?h (nq_head ?q))) ns fs"
    using owns_set_head [OF assms(1), of node] hd by (auto simp del: nn_owns.simps)
  have "node = None \<longleftrightarrow> ns = []" using assms(1) by (cases ns) auto
  then have "nq_tail ?q = last (nq_head ?q # ns)" using assms(2) by auto
  with o have "nn_inv (?h, ?q)" unfolding nn_inv.simps by blast
  moreover have "nn_contents (?h, ?q) = map (\<lambda>a. nn_data (nh_node h a)) ns"
    unfolding nn_contents_owns [OF o] by (simp add: set_next_def)
  ultimately show ?thesis by (simp add: c)
qed

lemma nn_Pop_spec:
  assumes "nn_inv s"
  shows "\<exists>s'. nn_Pop s = (case nn_contents s of [] \<Rightarrow> None | x # _ \<Rightarrow> x, s') \<and> nn_inv s' \<and> nn_contents s' = tl (nn_contents s)"
proof -
  obtain h q where s: "s = (h, q)" by fastforce
  from assms s obtain ns fs where o: "nn_owns (h, q) (nn_next (nh_node h (nq_head q))) ns fs"
    and t: "nq_tail q = last (nq_head q # ns)" by auto
  note C = nn_contents_owns [OF o]
  show ?thesis
  proof (cases ns)
    case Nil
    with o have "nn_next (nh_node h (nq_head q)) = None" by simp
    with C Nil assms s show ?thesis by simp
  next
    case (Cons a ns')
    with o have f: "nn_next (nh_node h (nq_head q)) = Some a" by simp
    let ?h = "nq_head q" and ?p = "nn_next (nh_node h a)"
    from owns_tl [of h q a ns' fs] o f Cons have
      o1: "nn_owns (h, q\<lparr>nq_count := nq_count q - 1\<rparr>) ?p ns' fs"
      and a: "a \<notin> set (?h # ns' @ fs @ nh_pool h)" "a < nh_fresh h" by (auto simp del: nn_owns.simps)
    define h1 where "h1 = set_next h ?h ?p"
    define q1 where "q1 = (if ?p = None then q\<lparr>nq_tail := ?h\<rparr> else q)\<lparr>nq_count := nq_count q - 1\<rparr>"
    have n1: "nn_next (nh_node h1 ?h) = ?p" "\<And>b. b \<noteq> ?h \<Longrightarrow> nh_node h1 b = nh_node h b" "nh_pool h1 = nh_pool h" "nh_fresh h1 = nh_fresh h"
      by (simp_all add: h1_def set_next_def)
    have q1: "nq_head q1 = ?h" by (simp add: q1_def)
    have o2: "nn_owns (h1, q1) ?p ns' fs"
      using owns_set_head [OF o1, of ?p] by (cases ?p) (simp_all add: h1_def q1_def)
    obtain h2 q2 where r: "nn_recycleNode (h1, q1) (Some a) = (h2, q2)" by fastforce
    from recycle_owns [OF o2 _ _ r] a n1 q1 obtain fs' where
      o3: "nn_owns (h2, q2) ?p ns' fs'" and q2: "nq_head q2 = ?h" "nq_tail q2 = nq_tail q1"
      and same: "\<forall>b. b \<noteq> a \<longrightarrow> nh_node h2 b = nh_node h1 b" by (auto simp del: nn_owns.simps)
    have "?h \<noteq> a" using a by auto
    then have hd2: "nn_next (nh_node h2 (nq_head q2)) = ?p" using same q2 n1 by simp
    have "?p = None \<longleftrightarrow> ns' = []" using o1 by (cases ns') auto
    then have "nq_tail q2 = last (nq_head q2 # ns')" using q2 t Cons by (auto simp: q1_def)
    with o3 hd2 have inv: "nn_inv (h2, q2)" unfolding nn_inv.simps by metis
    have "nn_data (nh_node h2 b) = nn_data (nh_node h b)" if "b \<in> set ns'" for b
    proof -
      have "b \<noteq> a" "b \<noteq> ?h" using that a o1 by auto
      with same n1(2) show ?thesis by simp
    qed
    then have c2: "nn_contents (h2, q2) = map (\<lambda>b. nn_data (nh_node h b)) ns'"
      using nn_contents_owns [of h2 q2 ns' fs'] o3 hd2 by simp
    have "nn_Pop s = (nn_data (nh_node h a), h2, q2)"
      using f r \<open>?h \<noteq> a\<close> n1 by (simp add: s Let_def h1_def q1_def set_next_def split: if_splits)
    with inv c2 C Cons s show ?thesis by simp
  qed
qed

lemma nn_pop_loop_spec:
  "nn_owns (h, q) node ns fs \<Longrightarrow> count \<le> length recv \<Longrightarrow> 0 < limit \<longrightarrow> int t < limit \<Longrightarrow>
   k = batch limit count w t (map (\<lambda>a. nn_data (nh_node h a)) ns) \<Longrightarrow>
   \<exists>recv' node' h' q' fs'. nn_pop_loop limit count w t recv node (h, q) = ret (w + k, recv', node', h', q') \<and>
     nn_owns (h', q') node' (drop k ns) fs' \<and> nq_head q' = nq_head q \<and> nq_tail q' = nq_tail q \<and>
     (\<forall>b \<in> set (nq_head q # drop k ns). nh_node h' b = nh_node h b) \<and> length recv' = length recv \<and>
     (\<forall>i < w. recv' ! i = recv ! i) \<and> (\<forall>i < k. recv' ! (w + i) = nn_data (nh_node h (ns ! i)))"
proof (induction ns arbitrary: h q node fs w t recv k)
  case Nil
  then show ?case by (intro exI [of _ recv]) (auto simp: nn_pop_loop.simps)
next
  case (Cons a ns)
  let ?x = "nn_data (nh_node h a)" and ?p = "nn_next (nh_node h a)" and ?C = "map (\<lambda>a. nn_data (nh_node h a)) ns"
  from Cons.prems(1) have node: "node = Some a" by simp
  show ?case
  proof (cases "\<not> w < count \<or> (0 < limit \<and> 0 < w \<and> ?x \<noteq> None \<and> int (t + item_len ?x) > limit)")
    case True
    then have "k = 0" using Cons.prems(4) by auto
    moreover have "nn_pop_loop limit count w t recv node (h, q) = ret (w, recv, node, h, q)"
      using True node by (subst nn_pop_loop.simps) auto
    ultimately show ?thesis using Cons.prems(1) by (auto simp del: nn_owns.simps)
  next
    case False
    then have w: "w < count" "w < length recv" and go: "\<not> (0 < limit \<and> 0 < w \<and> ?x \<noteq> None \<and> int (t + item_len ?x) > limit)"
      using Cons.prems(2) by auto
    define q1 where "q1 = q\<lparr>nq_count := nq_count q - 1\<rparr>"
    from owns_tl [of h q a ns fs] Cons.prems(1) node have
      o1: "nn_owns (h, q1) ?p ns fs" and a: "a \<notin> set (nq_head q1 # ns @ fs @ nh_pool h)" "a < nh_fresh h"
      by (auto simp: q1_def simp del: nn_owns.simps)
    obtain h2 q2 where r: "nn_recycleNode (h, q1) (Some a) = (h2, q2)" by fastforce
    from recycle_owns [OF o1 a r] obtain fs2 where
      o2: "nn_owns (h2, q2) ?p ns fs2" and q2: "nq_head q2 = nq_head q" "nq_tail q2 = nq_tail q"
      and same: "\<forall>b. b \<noteq> a \<longrightarrow> nh_node h2 b = nh_node h b" by (auto simp: q1_def simp del: nn_owns.simps)
    have keep: "nh_node h2 b = nh_node h b" if "b \<in> set (nq_head q # ns)" for b
      using that a same by (auto simp: q1_def)
    have C: "map (\<lambda>a. nn_data (nh_node h2 a)) ns = ?C" using keep by simp
    define t2 where "t2 = t + item_len ?x"
    have t2: "(if ?x \<noteq> None then t + item_len ?x else t) = t2" by (auto simp: t2_def item_len_def)
    let ?r = "recv[w := ?x]"
    have unf: "nn_pop_loop limit count w t recv node (h, q) =
        (if 0 < limit \<and> int t2 \<ge> limit then ret (Suc w, ?r, ?p, h2, q2) else nn_pop_loop limit count (Suc w) t2 ?r ?p (h2, q2))"
      using False w node r t2 by (subst nn_pop_loop.simps) (auto simp: Let_def store_go_def q1_def simp del: nn_recycleNode.simps)
    show ?thesis
    proof (cases "0 < limit \<and> int t2 \<ge> limit")
      case True
      then have "k = 1" using Cons.prems(4) go w by (auto simp: t2_def)
      with True unf o2 q2 keep w show ?thesis by (auto simp del: nn_owns.simps)
    next
      case more: False
      then have k: "k = Suc (batch limit count (Suc w) t2 ?C)" using Cons.prems(4) go w by (auto simp: t2_def)
      have "count \<le> length ?r" "0 < limit \<longrightarrow> int t2 < limit" using Cons.prems(2) more by auto
      from Cons.IH [OF o2 this refl, unfolded C] obtain recv' node' h' q' fs' where
        l: "nn_pop_loop limit count (Suc w) t2 ?r ?p (h2, q2) = ret (Suc w + batch limit count (Suc w) t2 ?C, recv', node', h', q')"
          "nn_owns (h', q') node' (drop (batch limit count (Suc w) t2 ?C) ns) fs'" "nq_head q' = nq_head q2" "nq_tail q' = nq_tail q2"
          "\<forall>b \<in> set (nq_head q2 # drop (batch limit count (Suc w) t2 ?C) ns). nh_node h' b = nh_node h2 b"
          "length recv' = length ?r" "\<forall>i < Suc w. recv' ! i = ?r ! i"
          "\<forall>i < batch limit count (Suc w) t2 ?C. recv' ! (Suc w + i) = nn_data (nh_node h2 (ns ! i))" by blast
      have len: "batch limit count (Suc w) t2 ?C \<le> length ns" using batch_le [of limit count "Suc w" t2 ?C] by simp
      have "recv' ! (w + i) = nn_data (nh_node h ((a # ns) ! i))" if "i < k" for i
      proof (cases i)
        case 0
        then show ?thesis using l(7) w by auto
      next
        case (Suc j)
        with that k l(8) len keep show ?thesis by auto
      qed
      moreover have "\<forall>i < w. recv' ! i = recv ! i" using l(7) by simp
      moreover have "\<forall>b \<in> set (nq_head q # drop k (a # ns)). nh_node h' b = nh_node h b"
        using l(5) keep q2(1) k by (auto dest: in_set_dropD)
      ultimately show ?thesis using unf more l(1-4,6) k q2 by (simp del: nn_owns.simps) blast
    qed
  qed
qed

lemma nn_PopMany_spec:
  fixes count limit :: int
  assumes "nn_inv s" "nn_contents s \<noteq> []" "recv \<noteq> []"
  defines "k \<equiv> batch limit (batch_count count (length recv)) 0 0 (nn_contents s)"
  shows "\<exists>recv' s'. nn_PopMany s count recv limit = ret (k, recv', s') \<and> nn_inv s' \<and> length recv' = length recv \<and>
    nn_contents s' = drop k (nn_contents s) \<and> (\<forall>i < k. recv' ! i = nn_contents s ! i)"
proof -
  obtain h q where s: "s = (h, q)" by fastforce
  from assms(1) s obtain ns fs where o: "nn_owns (h, q) (nn_next (nh_node h (nq_head q))) ns fs"
    and t: "nq_tail q = last (nq_head q # ns)" by auto
  note C = nn_contents_owns [OF o]
  have n: "nq_count q = length ns" using o by simp
  let ?b = "batch_count count (length recv)"
  define c where "c = (if ?b > nq_count q then nq_count q else ?b)"
  have c: "c = min ?b (0 + length (nn_contents s))" by (simp add: c_def s C n del: nn_contents.simps)
  have "k = batch limit c 0 0 (nn_contents s)" unfolding k_def c by (rule batch_clamp [symmetric])
  then have k: "k = batch limit c 0 0 (map (\<lambda>a. nn_data (nh_node h a)) ns)" by (simp only: s C)
  have "c \<le> length recv" using batch_count_le [of count "length recv"] by (simp add: c_def)
  from nn_pop_loop_spec [OF o this _ k] obtain recv' node' h' q' fs' where
    l: "nn_pop_loop limit c 0 0 recv (nn_next (nh_node h (nq_head q))) (h, q) = ret (k, recv', node', h', q')"
      "nn_owns (h', q') node' (drop k ns) fs'" "nq_head q' = nq_head q" "nq_tail q' = nq_tail q"
      "\<forall>b \<in> set (nq_head q # drop k ns). nh_node h' b = nh_node h b" "length recv' = length recv"
      "\<forall>i < k. recv' ! i = nn_data (nh_node h (ns ! i))" by auto
  have kl: "k \<le> length ns" using batch_le [of limit c 0 0 "map (\<lambda>a. nn_data (nh_node h a)) ns"] k by simp
  have "drop k ns \<noteq> [] \<longrightarrow> nq_tail q' = last (drop k ns)" using l(4) t by auto
  from nn_close_inv [OF l(2) this] have cl: "nn_inv (nn_close h' q' node')"
    "nn_contents (nn_close h' q' node') = map (\<lambda>a. nn_data (nh_node h' a)) (drop k ns)" by simp_all
  have cc: "(let count = (if count < 1 then 1 else nat count);
            count = (if count > length recv then length recv else count)
        in (if count > nq_count q then nq_count q else count)) = c"
    by (simp add: c_def batch_count_def Let_def)
  have "nq_count q \<noteq> 0" "length recv \<noteq> 0" using assms(2,3) n by (auto simp: s C simp del: nn_contents.simps)
  then have "nn_PopMany s count recv limit = ret (k, recv', nn_close h' q' node')"
    using l(1) unfolding s nn_PopMany.simps cc [unfolded Let_def] Let_def
    by (simp add: nn_close_def Let_def)
  moreover have "map (\<lambda>a. nn_data (nh_node h' a)) (drop k ns) = drop k (nn_contents s)"
    using l(5) by (simp add: s C drop_map del: nn_contents.simps)
  moreover have "\<forall>i < k. recv' ! i = nn_contents s ! i" using l(7) kl by (simp add: s C del: nn_contents.simps)
  ultimately show ?thesis using cl l(6) by auto
qed

declare nn_contents.simps [simp del] nn_inv.simps [simp del] nn_Push.simps [simp del] nn_Pop.simps [simp del]

definition nn_ok :: "picker \<Rightarrow> nnstate \<Rightarrow> bool" where
  "nn_ok pick s \<longleftrightarrow> valid_picker pick \<and> nn_inv s"

lemma nn_count_contents: "nn_inv s \<Longrightarrow> nn_Len s = length (nn_contents s)"
proof -
  assume "nn_inv s"
  then obtain h q ns fs where s: "s = (h, q)" and o: "nn_owns (h, q) (nn_next (nh_node h (nq_head q))) ns fs"
    by (cases s) (auto simp: nn_inv.simps simp del: nn_owns.simps)
  show ?thesis using o unfolding s nn_contents_owns [OF o] by simp
qed

lemma nn_IsEmpty_Len: "nn_IsEmpty s \<longleftrightarrow> nn_Len s = 0"
  by (cases s) simp

interpretation nn: fifo_queue "nn_ok pick" nn_contents nn_Len nn_IsEmpty nn_IsFull
  "\<lambda>s x. ret (nn_Push pick s x)" "\<lambda>s. ret (nn_Pop s)" nn_PopMany for pick
proof
  fix s x count recv limit assume ok: "nn_ok pick s"
  then have i: "nn_inv s" and p: "valid_picker pick" by (simp_all add: nn_ok_def)
  show "nn_Len s = length (nn_contents s)" by (rule nn_count_contents [OF i])
  show "nn_IsEmpty s \<longleftrightarrow> nn_contents s = []" using nn_count_contents [OF i] by (simp add: nn_IsEmpty_Len)
  show "\<exists>ok s'. ret (nn_Push pick s x) = ret (ok, s') \<and> nn_ok pick s' \<and>
      (if ok then nn_contents s' = nn_contents s @ [x] else nn_contents s' = nn_contents s \<and> nn_IsFull s)"
  proof -
    from nn_Push_spec [OF i p, of x] obtain ok s' where "nn_Push pick s x = (ok, s')" "nn_inv s'" "ok \<longleftrightarrow> \<not> nn_IsFull s"
      "nn_contents s' = (if ok then nn_contents s @ [x] else nn_contents s)" by blast
    with p show ?thesis by (intro exI [of _ ok] exI [of _ s']) (simp add: nn_ok_def)
  qed
  show "\<exists>s'. ret (nn_Pop s) = ret (case nn_contents s of [] \<Rightarrow> None | x # _ \<Rightarrow> x, s') \<and> nn_ok pick s' \<and> nn_contents s' = tl (nn_contents s)"
    using nn_Pop_spec [OF i] p by (simp add: nn_ok_def)
  show "nn_PopMany s count recv limit = ret (0, recv, s)" if "nn_contents s = []"
    using nn_count_contents [OF i] that by (cases s) simp
  show "\<exists>recv' s'. nn_PopMany s count recv limit = ret (batch limit (batch_count count (length recv)) 0 0 (nn_contents s), recv', s') \<and>
        nn_ok pick s' \<and> length recv' = length recv \<and>
        nn_contents s' = drop (batch limit (batch_count count (length recv)) 0 0 (nn_contents s)) (nn_contents s) \<and>
        (\<forall>i < batch limit (batch_count count (length recv)) 0 0 (nn_contents s). nn_contents s ! i \<noteq> None \<longrightarrow> recv' ! i = nn_contents s ! i)"
    if "nn_contents s \<noteq> []" "recv \<noteq> []"
    using nn_PopMany_spec [OF i that, where count = count and limit = limit] p by (auto simp: nn_ok_def)
qed

subsection \<open>Properties of the linked implementation\<close>

text \<open>One operation with the items it accepts and delivers; a batch is received into \<open>n + 1\<close> slots.\<close>

datatype nn_op = NPush item | NPop | NPopMany int nat int

definition nn_step :: "picker \<Rightarrow> nn_op \<Rightarrow> nnstate \<Rightarrow> (nnstate \<times> item list \<times> item list) go" where
  "nn_step pick x s =
     (case x of
        NPush b \<Rightarrow> (case nn_Push pick s b of (ok, s') \<Rightarrow> ret (s', if ok then [b] else [], []))
      | NPop \<Rightarrow> (case nn_Pop s of (b, s') \<Rightarrow> ret (s', [], if nn_IsEmpty s then [] else [b]))
      | NPopMany count n limit \<Rightarrow>
          (case nn_PopMany s count (replicate (Suc n) None) limit of
             None \<Rightarrow> panic
           | Some (k, recv, s') \<Rightarrow> ret (s', [], take k recv)))"

lemma nn_step_spec:
  assumes "nn_ok pick s"
  shows "\<exists>s' ins outs. nn_step pick x s = ret (s', ins, outs) \<and> nn_ok pick s' \<and> nn_contents s @ ins = outs @ nn_contents s'"
proof (cases x)
  case (NPush b)
  from nn.Push [OF assms, of b] obtain ok s' where "nn_Push pick s b = (ok, s')" "nn_ok pick s'"
    "nn_contents s' = (if ok then nn_contents s @ [b] else nn_contents s)" by (auto split: if_splits)
  with NPush show ?thesis by (auto simp: nn_step_def)
next
  case NPop
  from nn.Pop [OF assms] obtain s' where "nn_Pop s = (case nn_contents s of [] \<Rightarrow> None | b # _ \<Rightarrow> b, s')" "nn_ok pick s'"
    "nn_contents s' = tl (nn_contents s)" by auto
  with NPop nn.IsEmpty [OF assms] show ?thesis by (cases "nn_contents s") (simp_all add: nn_step_def)
next
  case (NPopMany count n limit)
  show ?thesis
  proof (cases "nn_contents s = []")
    case True
    with nn.PopMany_empty [OF assms True] assms NPopMany show ?thesis by (simp add: nn_step_def del: replicate_Suc)
  next
    case False
    let ?r = "replicate (Suc n) None :: item list"
    from assms have i: "nn_inv s" "valid_picker pick" by (simp_all add: nn_ok_def)
    from nn_PopMany_spec [OF i(1) False, of ?r, where count = count and limit = limit] obtain k recv' s' where
      p: "nn_PopMany s count ?r limit = ret (k, recv', s')" "nn_inv s'" "length recv' = Suc n"
        "nn_contents s' = drop k (nn_contents s)" "\<forall>i < k. recv' ! i = nn_contents s ! i" by (simp del: replicate_Suc) blast
    have "nn_ok pick s'" using p(2) i(2) by (simp add: nn_ok_def)
    from nn.PopMany_batch [OF assms False _ p(1)] p(3) have "k \<le> length (nn_contents s)" "k \<le> length recv'" by simp_all
    with p(5) have "take k recv' = take k (nn_contents s)" by (intro nth_equalityI) auto
    with p \<open>nn_ok pick s'\<close> NPopMany show ?thesis by (simp add: nn_step_def del: replicate_Suc)
  qed
qed

interpretation nn: total_fifo "nn_step pick" "nn_ok pick" nn_contents for pick
proof
  show "nn_ok pick s \<Longrightarrow> nn_step pick x s = Some (s', ins, outs) \<Longrightarrow> nn_ok pick s'" for s x s' ins outs
    using nn_step_spec [of pick s x] by auto
  show "nn_ok pick s \<Longrightarrow> nn_step pick x s = Some (s', ins, outs) \<Longrightarrow> nn_contents s @ ins = outs @ nn_contents s'" for s x s' ins outs
    using nn_step_spec [of pick s x] by auto
  show "nn_ok pick s \<Longrightarrow> \<exists>r. nn_step pick x s = Some r" for s x
    using nn_step_spec [of pick s x] by auto
qed

text \<open>
  C15: the linked queue is a queue and keeps its nodes apart: from a new queue over any pool of
  nodes, and whatever the pool hands out, every sequence of pushes, pops and batches returns; what
  was delivered is, in order, the first of what was accepted, and the rest is in the queue; the
  nodes linked from the sentinel, the free nodes and the pooled nodes are all different, and the
  tail is the last linked node.
\<close>

theorem nn_sequential:
  assumes "valid_picker pick" and "distinct (nh_pool h)" and "\<forall>a \<in> set (nh_pool h). a < nh_fresh h"
  shows "\<exists>h' q ins outs ns fs. fifo_run (nn_step pick) ops (NewNNQueue h sz strict) = ret ((h', q), ins, outs) \<and>
    outs = take (length outs) ins \<and> map (\<lambda>a. nn_data (nh_node h' a)) ns = drop (length outs) ins \<and>
    chain (nh_node h') (nn_next (nh_node h' (nq_head q))) ns \<and> chain (nh_node h') (nq_free q) fs \<and>
    distinct (nq_head q # ns @ fs @ nh_pool h') \<and> nq_tail q = last (nq_head q # ns) \<and> nq_count q = length ns"
proof -
  note new = nn_inv_New [OF assms(3,2), of sz strict]
  then have ok: "nn_ok pick (NewNNQueue h sz strict)" using assms(1) by (simp add: nn_ok_def)
  from nn.run_total [OF ok, of ops] obtain s ins outs where
    "fifo_run (nn_step pick) ops (NewNNQueue h sz strict) = ret (s, ins, outs)" by (metis prod_cases3)
  moreover obtain h' q where "s = (h', q)" by fastforce
  ultimately have r: "fifo_run (nn_step pick) ops (NewNNQueue h sz strict) = ret ((h', q), ins, outs)" by simp
  from nn.run_prefix [OF ok _ r] new have p: "outs = take (length outs) ins" "nn_contents (h', q) = drop (length outs) ins" by blast+
  from nn.run_inv [OF ok r] have "nn_inv (h', q)" by (simp add: nn_ok_def)
  then obtain ns fs where o: "nn_owns (h', q) (nn_next (nh_node h' (nq_head q))) ns fs" "nq_tail q = last (nq_head q # ns)"
    unfolding nn_inv.simps by blast
  from p(2) have "map (\<lambda>a. nn_data (nh_node h' a)) ns = drop (length outs) ins" using nn_contents_owns [OF o(1)] by simp
  moreover from o(1) have "chain (nh_node h') (nn_next (nh_node h' (nq_head q))) ns" "chain (nh_node h') (nq_free q) fs"
    "distinct (nq_head q # ns @ fs @ nh_pool h')" "nq_count q = length ns" by simp_all
  ultimately show ?thesis using r p(1) o(2) by blast
qed

definition empty_nodes :: nnHeap where
  "empty_nodes = \<lparr>nh_node = (\<lambda>_. nilNode), nh_fresh = 0, nh_pool = []\<rparr>"

lemma nn_sequential_witness:
  "\<exists>s ins outs. fifo_run (nn_step lifo) [NPush (Some [1]), NPush (Some [2]), NPop, NPush (Some [3]), NPopMany 5 1 0] (NewNNQueue empty_nodes 0 True) =
     ret (s, ins, outs) \<and> outs = take (length outs) ins"
  using nn_sequential [OF lifo_valid, of empty_nodes "[NPush (Some [1]), NPush (Some [2]), NPop, NPush (Some [3]), NPopMany 5 1 0]" 0 True]
  by (auto simp: empty_nodes_def)

end
