(* ===== verification/SendQueue.thy ===== *)
theory SendQueue
  imports BBQueue NNQueue
begin

text \<open>
  \<open>NewFIFOQueue\<close> (src/utils/queues/bbqueue/facade.go) and the queue it returns: a ring queue in
  strict mode, a linked queue otherwise, called through the interface \<open>IFiFoQueue\<close>.  The state
  carries the heap of the linked queue's nodes.
\<close>

datatype FiFoQueue = Ring BBQueue | Linked NNQueue

type_synonym sqstate = "nnHeap \<times> FiFoQueue"

definition NewFIFOQueue :: "nnHeap \<Rightarrow> int \<Rightarrow> bool \<Rightarrow> sqstate" where
  "NewFIFOQueue h sz isStrict =
     (if isStrict then (h, Ring (NewBBQueue sz isStrict))
      else (case NewNNQueue h sz isStrict of (h, q) \<Rightarrow> (h, Linked q)))"

text \<open>The calls through the interface.\<close>

fun sq_Len :: "sqstate \<Rightarrow> nat" where
  "sq_Len (h, Ring q) = bb_Len q"
| "sq_Len (h, Linked q) = nn_Len (h, q)"

fun sq_IsFull :: "sqstate \<Rightarrow> bool" where
  "sq_IsFull (h, Ring q) = bb_IsFull q"
| "sq_IsFull (h, Linked q) = nn_IsFull (h, q)"

fun sq_IsEmpty :: "sqstate \<Rightarrow> bool" where
  "sq_IsEmpty (h, Ring q) = bb_IsEmpty q"
| "sq_IsEmpty (h, Linked q) = nn_IsEmpty (h, q)"

fun sq_Push :: "picker \<Rightarrow> sqstate \<Rightarrow> item \<Rightarrow> (bool \<times> sqstate) go" where
  "sq_Push pick (h, Ring q) x = do { (ok, q) \<leftarrow> bb_Push q x; ret (ok, h, Ring q) }"
| "sq_Push pick (h, Linked q) x = (case nn_Push pick (h, q) x of (ok, h, q) \<Rightarrow> ret (ok, h, Linked q))"

fun sq_Pop :: "sqstate \<Rightarrow> (item \<times> sqstate) go" where
  "sq_Pop (h, Ring q) = do { (x, q) \<leftarrow> bb_Pop q; ret (x, h, Ring q) }"
| "sq_Pop (h, Linked q) = (case nn_Pop (h, q) of (x, h, q) \<Rightarrow> ret (x, h, Linked q))"

fun sq_PopMany :: "sqstate \<Rightarrow> int \<Rightarrow> item list \<Rightarrow> int \<Rightarrow> (nat \<times> item list \<times> sqstate) go" where
  "sq_PopMany (h, Ring q) count recv limit = do { (k, recv, q) \<leftarrow> bb_PopMany q count recv limit; ret (k, recv, h, Ring q) }"
| "sq_PopMany (h, Linked q) count recv limit = do { (k, recv, h, q) \<leftarrow> nn_PopMany (h, q) count recv limit; ret (k, recv, h, Linked q) }"

fun sq_contents :: "sqstate \<Rightarrow> item list" where
  "sq_contents (h, Ring q) = bb_contents q"
| "sq_contents (h, Linked q) = nn_contents (h, q)"

fun sq_inv :: "picker \<Rightarrow> sqstate \<Rightarrow> bool" where
  "sq_inv pick (h, Ring q) = bb_inv q"
| "sq_inv pick (h, Linked q) = nn_ok pick (h, q)"

interpretation sq: fifo_queue "sq_inv pick" sq_contents sq_Len sq_IsEmpty sq_IsFull "sq_Push pick" sq_Pop sq_PopMany for pick
proof
  fix s x count recv limit assume i: "sq_inv pick s"
  obtain h q where s: "s = (h, q)" by fastforce
  show "sq_Len s = length (sq_contents s)"
  proof (cases q)
    case (Linked r)
    with nn.Len [of pick "(h, r)"] i show ?thesis by (simp add: s)
  qed (use bb.Len i s in simp)
  show "sq_IsEmpty s \<longleftrightarrow> sq_contents s = []"
  proof (cases q)
    case (Linked r)
    with nn.IsEmpty [of pick "(h, r)"] i show ?thesis by (simp add: s)
  qed (use bb.IsEmpty i s in simp)
  show "\<exists>ok s'. sq_Push pick s x = ret (ok, s') \<and> sq_inv pick s' \<and>
      (if ok then sq_contents s' = sq_contents s @ [x] else sq_contents s' = sq_contents s \<and> sq_IsFull s)"
  proof (cases q)
    case (Ring r)
    with bb.Push [of r x] i show ?thesis by (fastforce simp: s)
  next
    case (Linked r)
    with nn.Push [of pick "(h, r)" x] i show ?thesis by (fastforce simp: s)
  qed
  show "\<exists>s'. sq_Pop s = ret (case sq_contents s of [] \<Rightarrow> None | x # _ \<Rightarrow> x, s') \<and> sq_inv pick s' \<and> sq_contents s' = tl (sq_contents s)"
  proof (cases q)
    case (Ring r)
    with bb.Pop [of r] i show ?thesis by (fastforce simp: s)
  next
    case (Linked r)
    with nn.Pop [of pick "(h, r)"] i show ?thesis by (fastforce simp: s)
  qed
  show "sq_PopMany s count recv limit = ret (0, recv, s)" if "sq_contents s = []"
  proof (cases q)
    case (Linked r)
    with nn.PopMany_empty [of pick "(h, r)"] i that show ?thesis by (simp add: s)
  qed (use bb.PopMany_empty i s that in simp)
  show "\<exists>recv' s'. sq_PopMany s count recv limit = ret (batch limit (batch_count count (length recv)) 0 0 (sq_contents s), recv', s') \<and>
        sq_inv pick s' \<and> length recv' = length recv \<and>
        sq_contents s' = drop (batch limit (batch_count count (length recv)) 0 0 (sq_contents s)) (sq_contents s) \<and>
        (\<forall>i < batch limit (batch_count count (length recv)) 0 0 (sq_contents s). sq_contents s ! i \<noteq> None \<longrightarrow> recv' ! i = sq_contents s ! i)"
    if ne: "sq_contents s \<noteq> []" "recv \<noteq> []"
  proof (cases q)
    case (Ring r)
    then have "bb_inv r" "bb_contents r \<noteq> []" using i ne by (simp_all add: s)
    from bb.PopMany [OF this ne(2), of count limit] obtain recv' q' where
      "bb_PopMany r count recv limit = ret (batch limit (batch_count count (length recv)) 0 0 (bb_contents r), recv', q')"
      "bb_inv q'" "length recv' = length recv"
      "bb_contents q' = drop (batch limit (batch_count count (length recv)) 0 0 (bb_contents r)) (bb_contents r)"
      "\<forall>i < batch limit (batch_count count (length recv)) 0 0 (bb_contents r). bb_contents r ! i \<noteq> None \<longrightarrow> recv' ! i = bb_contents r ! i"
      by blast
    with Ring show ?thesis by (intro exI [of _ recv'] exI [of _ "(h, Ring q')"]) (simp add: s)
  next
    case (Linked r)
    then have "nn_ok pick (h, r)" "nn_contents (h, r) \<noteq> []" using i ne by (simp_all add: s)
    from nn.PopMany [OF this ne(2), of count limit] obtain recv' h' q' where
      "nn_PopMany (h, r) count recv limit = ret (batch limit (batch_count count (length recv)) 0 0 (nn_contents (h, r)), recv', h', q')"
      "nn_ok pick (h', q')" "length recv' = length recv"
      "nn_contents (h', q') = drop (batch limit (batch_count count (length recv)) 0 0 (nn_contents (h, r))) (nn_contents (h, r))"
      "\<forall>i < batch limit (batch_count count (length recv)) 0 0 (nn_contents (h, r)). nn_contents (h, r) ! i \<noteq> None \<longrightarrow> recv' ! i = nn_contents (h, r) ! i"
      by (metis surj_pair)
    with Linked show ?thesis by (intro exI [of _ recv'] exI [of _ "(h', Linked q')"]) (simp add: s)
  qed
qed

lemma sq_inv_New:
  assumes "valid_picker pick" "distinct (nh_pool h)" "\<forall>a \<in> set (nh_pool h). a < nh_fresh h"
  shows "sq_inv pick (NewFIFOQueue h sz strict) \<and> sq_contents (NewFIFOQueue h sz strict) = []"
  using nn_inv_New [OF assms(3,2), of sz strict] bb_inv_New [of sz strict] assms(1)
  by (auto simp: NewFIFOQueue_def nn_ok_def split: prod.split)

fun sq_push_all :: "picker \<Rightarrow> sqstate \<Rightarrow> item list \<Rightarrow> (bool list \<times> sqstate) go" where
  "sq_push_all pick s [] = ret ([], s)"
| "sq_push_all pick s (x # xs) =
     (case sq_Push pick s x of
        None \<Rightarrow> panic
      | Some (ok, s) \<Rightarrow> (case sq_push_all pick s xs of None \<Rightarrow> panic | Some (oks, s) \<Rightarrow> ret (ok # oks, s)))"

lemma bb_Push_strict:
  "bb_isStrict q \<Longrightarrow> bb_Push q x = ret (ok, q') \<Longrightarrow> bb_isStrict q' \<and> length (bb_buf q') = length (bb_buf q)"
  by (auto simp: bb_Push_def store_go_def split: if_splits)

lemma push_all_ring:
  "bb_inv q \<Longrightarrow> bb_isStrict q \<Longrightarrow> length (bb_buf q) = n \<Longrightarrow>
   \<exists>q'. sq_push_all pick (h, Ring q) xs = ret (map (\<lambda>i. bb_count q + i < n) [0 ..< length xs], h, Ring q') \<and> bb_inv q' \<and>
     bb_contents q' = bb_contents q @ take (n - bb_count q) xs"
proof (induction xs arbitrary: q)
  case (Cons x xs)
  from bb_Push_spec [OF Cons.prems(1), of x] obtain ok q1 where p: "bb_Push q x = ret (ok, q1)" "bb_inv q1"
    "ok = (\<not> (bb_IsFull q \<and> bb_isStrict q))" "bb_contents q1 = (if ok then bb_contents q @ [x] else bb_contents q)" by blast
  have s: "bb_isStrict q1" "length (bb_buf q1) = n" using bb_Push_strict [OF Cons.prems(2) p(1)] Cons.prems(3) by auto
  have le: "bb_count q \<le> n" using Cons.prems(1,3) by (simp add: bb_inv_def)
  have ok: "ok \<longleftrightarrow> bb_count q < n" using p(3) Cons.prems(2,3) le by (auto simp: bb_IsFull_def)
  have c: "bb_count q1 = (if ok then bb_count q + 1 else bb_count q)"
    using arg_cong [OF p(4), of length] by auto
  have m: "(bb_count q < n) # map (\<lambda>i. bb_count q1 + i < n) [0 ..< length xs] = map (\<lambda>i. bb_count q + i < n) [0 ..< Suc (length xs)]"
    using c ok le by (intro nth_equalityI) (auto simp: nth_Cons' simp del: upt_Suc)
  from Cons.IH [OF p(2) s] obtain q2 where
    "sq_push_all pick (h, Ring q1) xs = ret (map (\<lambda>i. bb_count q1 + i < n) [0 ..< length xs], h, Ring q2)" "bb_inv q2"
    "bb_contents q2 = bb_contents q1 @ take (n - bb_count q1) xs" by blast
  then show ?case using p(1,4) ok c m le by (simp add: take_Cons' del: upt_Suc)
qed simp

lemma nn_Push_strict: "nn_Push pick (h, q) x = (ok, h', q') \<Longrightarrow> nq_isStrict q' = nq_isStrict q"
  by (auto simp: nn_Push.simps Let_def split: if_splits option.splits prod.splits)

lemma push_all_linked:
  "nn_ok pick (h, q) \<Longrightarrow> \<not> nq_isStrict q \<Longrightarrow>
   \<exists>h' q'. sq_push_all pick (h, Linked q) xs = ret (replicate (length xs) True, h', Linked q') \<and> nn_ok pick (h', q') \<and>
     nn_contents (h', q') = nn_contents (h, q) @ xs"
proof (induction xs arbitrary: h q)
  case (Cons x xs)
  from nn.Push [OF Cons.prems(1), of x] Cons.prems(2) obtain h1 q1 where p: "nn_Push pick (h, q) x = (True, h1, q1)" "nn_ok pick (h1, q1)"
    "nn_contents (h1, q1) = nn_contents (h, q) @ [x]" by (auto split: if_splits)
  from Cons.IH [OF p(2)] nn_Push_strict [OF p(1)] Cons.prems(2) p show ?case by auto
qed simp

text \<open>How many of \<open>len\<close> items are accepted.\<close>

definition sq_room :: "bool \<Rightarrow> int \<Rightarrow> nat \<Rightarrow> nat" where
  "sq_room strict sz len = (if strict then (if sz \<le> 0 then 128 else nat sz) else len)"

text \<open>
  C16: the send queue \<open>NewFIFOQueue\<close> makes: the linked queue it chooses without strict mode accepts
  every item, the ring queue it chooses in strict mode accepts exactly as many as its size (128 for
  a size that is not positive); what is accepted comes out through \<open>PopMany\<close>, with any limits, in
  the order of the pushes.
\<close>

theorem NewFIFOQueue_delivers:
  assumes "valid_picker pick" and "distinct (nh_pool h)" and "\<forall>a \<in> set (nh_pool h). a < nh_fresh h"
    and "None \<notin> set xs" and "recv \<noteq> []"
  shows "\<exists>s. sq_push_all pick (NewFIFOQueue h sz strict) xs = ret (map (\<lambda>i. i < sq_room strict sz (length xs)) [0 ..< length xs], s) \<and>
    sq_Len s = min (sq_room strict sz (length xs)) (length xs) \<and>
    drain sq_PopMany count recv limit (Suc (sq_Len s)) s = ret (take (sq_room strict sz (length xs)) xs)"
proof -
  define n where "n = sq_room strict sz (length xs)"
  have "\<exists>s. sq_push_all pick (NewFIFOQueue h sz strict) xs = ret (map (\<lambda>i. i < n) [0 ..< length xs], s) \<and> sq_inv pick s \<and> sq_contents s = take n xs"
  proof (cases strict)
    case True
    have b: "bb_inv (NewBBQueue sz True)" "bb_isStrict (NewBBQueue sz True)" "length (bb_buf (NewBBQueue sz True)) = n"
      "bb_contents (NewBBQueue sz True) = []" "bb_count (NewBBQueue sz True) = 0"
      using bb_inv_New [of sz True] True by (simp_all add: NewBBQueue_def Let_def n_def sq_room_def defaultSize_def)
    from push_all_ring [OF b(1-3), of pick h xs] b(4,5) True show ?thesis by (auto simp: NewFIFOQueue_def)
  next
    case False
    obtain h1 q1 where n1: "NewNNQueue h sz False = (h1, q1)" by fastforce
    have "nn_ok pick (h1, q1)" "nn_contents (h1, q1) = []" "\<not> nq_isStrict q1"
      using nn_inv_New [OF assms(3,2), of sz False] assms(1) n1
      by (auto simp: nn_ok_def NewNNQueue_def Let_def split: prod.splits)
    from push_all_linked [OF this(1,3), of xs] this(2) n1 False obtain h2 q2 where
      "sq_push_all pick (NewFIFOQueue h sz strict) xs = ret (replicate (length xs) True, h2, Linked q2)" "nn_ok pick (h2, q2)"
      "nn_contents (h2, q2) = xs" by (auto simp: NewFIFOQueue_def)
    moreover have "replicate (length xs) True = map (\<lambda>i. i < n) [0 ..< length xs]"
      using False by (intro nth_equalityI) (simp_all add: n_def sq_room_def)
    ultimately show ?thesis using False by (simp add: n_def sq_room_def)
  qed
  then obtain s where s: "sq_push_all pick (NewFIFOQueue h sz strict) xs = ret (map (\<lambda>i. i < n) [0 ..< length xs], s)"
    "sq_inv pick s" "sq_contents s = take n xs" by blast
  have "None \<notin> set (sq_contents s)" using assms(4) s(3) by (auto dest: in_set_takeD)
  from sq.drain_all [OF s(2) assms(5) this, of "Suc (sq_Len s)" count limit] sq.Len [OF s(2)] s(3)
  have "drain sq_PopMany count recv limit (Suc (sq_Len s)) s = ret (take n xs)" "sq_Len s = min n (length xs)"
    by (simp_all add: min.commute del: drain.simps)
  with s(1) show ?thesis unfolding n_def by blast
qed

lemma NewFIFOQueue_delivers_witness:
  "\<exists>s. sq_push_all lifo (NewFIFOQueue empty_nodes 2 True) [Some [1], Some [2], Some [3]] = ret ([True, True, False], s) \<and>
     drain sq_PopMany 5 [None] 0 (Suc (sq_Len s)) s = ret [Some [1], Some [2]]"
  using NewFIFOQueue_delivers [OF lifo_valid, where h = empty_nodes and xs = "[Some [1], Some [2], Some [3]]" and recv = "[None]"
      and strict = True and sz = 2 and count = 5 and limit = 0]
  by (auto simp: empty_nodes_def upt_rec sq_room_def)

end
