(* ===== verification/GoValue.thy ===== *)
theory GoValue
  imports Prelude
begin

section \<open>Dynamic values of Go\<close>

text \<open>
  What a Go \<open>any\<close> can hold, as the type switches and the reflection of src/utils/xconv,
  src/utils/xvalue and src/utils/xreflect see it.  Integers keep their width; floats are their IEEE
  bits; text is a list of bytes; a \<open>time.Time\<close> is what its methods \<open>UnixNano\<close>, \<open>IsZero\<close> and
  \<open>String\<close> return; \<open>VNamed\<close> is a value of a defined type over the value (only its reflect kind is
  that of a predeclared type); \<open>VPtr\<close> is a pointer that is not nil, \<open>VNilPtr\<close> a nil one with the
  type it points to, \<open>VIface\<close> the interface variable behind a pointer.  A slice carries its static
  element type and may be nil; of maps, channels, functions and structs only what the code asks
  about is kept, with a number to tell values apart.
\<close>

datatype gty =
    TBool | TInt | TInt8 | TInt16 | TInt32 | TInt64
  | TUint | TUint8 | TUint16 | TUint32 | TUint64 | TUintptr
  | TFloat32 | TFloat64 | TComplex64 | TComplex128 | TString
  | TTime | TDuration | TAny | TSlice gty | TOther nat

datatype gval =
    VNil
  | VBool bool
  | VInt "64 word" | VInt8 "8 word" | VInt16 "16 word" | VInt32 "32 word" | VInt64 "64 word"
  | VUint "64 word" | VUint8 "8 word" | VUint16 "16 word" | VUint32 "32 word" | VUint64 "64 word"
  | VUintptr "64 word"
  | VFloat32 "32 word" | VFloat64 "64 word"
  | VComplex64 "32 word" "32 word" | VComplex128 "64 word" "64 word"
  | VString "byte list"
  | VTime "64 word" bool "byte list"
  | VDuration "64 word"
  | VUnsafePointer "64 word"
  | VSlice gty "gval list option"
  | VArray "gval list"
  | VMap "nat option" nat
  | VStruct nat
  | VChan bool nat
  | VFunc bool nat
  | VIface gval
  | VNamed nat gval
  | VPtr gval
  | VNilPtr gty

text \<open>
  \<open>xreflect.Value\<close> follows pointers; the result is the value reached, seen through its kind (so
  without the name of a defined type), and nothing for the kind \<open>Invalid\<close>.
\<close>

fun reflect_Value :: "gval \<Rightarrow> gval option" where
  "reflect_Value VNil = None"
| "reflect_Value (VNilPtr t) = None"
| "reflect_Value (VPtr v) = reflect_Value v"
| "reflect_Value (VNamed n v) = reflect_Value v"
| "reflect_Value v = Some v"

text \<open>The elements of a slice (\<open>rv.Index(i).Interface()\<close>) and the bytes of a \<open>[]byte\<close>.\<close>

definition elems :: "gval list option \<Rightarrow> gval list" where
  "elems es = (case es of None \<Rightarrow> [] | Some xs \<Rightarrow> xs)"

fun the_byte :: "gval \<Rightarrow> byte" where
  "the_byte (VUint8 b) = b"
| "the_byte _ = 0"

definition slice_bytes :: "gval list option \<Rightarrow> byte list" where
  "slice_bytes es = map the_byte (elems es)"

definition bytes_value :: "byte list \<Rightarrow> gval" where
  "bytes_value bs = VSlice TUint8 (Some (map VUint8 bs))"

lemma slice_bytes_value [simp]: "slice_bytes (Some (map VUint8 bs)) = bs"
  by (simp add: slice_bytes_def elems_def comp_def)

text \<open>
  \<open>switch v := val.(type)\<close> with the cases \<open>T\<close> and \<open>*T\<close> side by side: \<open>cs\<close> gives the result for a
  value of one of the listed types, \<open>nils\<close> for a nil pointer to one (the dereference panics unless
  the case does not read it), \<open>dflt\<close> is the default branch.
\<close>

definition type_switch :: "(gval \<Rightarrow> 'a go option) \<Rightarrow> (gty \<Rightarrow> 'a go option) \<Rightarrow> (gval \<Rightarrow> 'a go) \<Rightarrow> gval \<Rightarrow> 'a go" where
  "type_switch cs nils dflt val =
     (case (case val of VPtr v \<Rightarrow> cs v | VNilPtr t \<Rightarrow> nils t | v \<Rightarrow> cs v) of
        Some r \<Rightarrow> r
      | None \<Rightarrow> dflt val)"

lemma type_switch_simps [simp]:
  "type_switch cs nils dflt (VPtr v) = (case cs v of Some r \<Rightarrow> r | None \<Rightarrow> dflt (VPtr v))"
  "type_switch cs nils dflt (VNilPtr t) = (case nils t of Some r \<Rightarrow> r | None \<Rightarrow> dflt (VNilPtr t))"
  by (simp_all add: type_switch_def)

lemma type_switch_value:
  "\<forall>v. val \<noteq> VPtr v \<Longrightarrow> \<forall>t. val \<noteq> VNilPtr t \<Longrightarrow>
   type_switch cs nils dflt val = (case cs val of Some r \<Rightarrow> r | None \<Rightarrow> dflt val)"
  by (cases val) (auto simp: type_switch_def)

definition panics_on :: "gty list \<Rightarrow> gty \<Rightarrow> 'a go option" where
  "panics_on ts t = (if t \<in> set ts then Some panic else None)"

text \<open>The static type of a value; an element of a \<open>[]T\<close> has type \<open>T\<close>, one of a \<open>[]any\<close> any.\<close>

fun ty_of :: "gval \<Rightarrow> gty" where
  "ty_of (VBool _) = TBool"
| "ty_of (VInt _) = TInt" | "ty_of (VInt8 _) = TInt8" | "ty_of (VInt16 _) = TInt16"
| "ty_of (VInt32 _) = TInt32" | "ty_of (VInt64 _) = TInt64"
| "ty_of (VUint _) = TUint" | "ty_of (VUint8 _) = TUint8" | "ty_of (VUint16 _) = TUint16"
| "ty_of (VUint32 _) = TUint32" | "ty_of (VUint64 _) = TUint64" | "ty_of (VUintptr _) = TUintptr"
| "ty_of (VFloat32 _) = TFloat32" | "ty_of (VFloat64 _) = TFloat64"
| "ty_of (VComplex64 _ _) = TComplex64" | "ty_of (VComplex128 _ _) = TComplex128"
| "ty_of (VString _) = TString"
| "ty_of (VTime _ _ _) = TTime" | "ty_of (VDuration _) = TDuration"
| "ty_of (VSlice t _) = TSlice t"
| "ty_of _ = TOther 0"

definition typed_slice :: "gty \<Rightarrow> gval list \<Rightarrow> bool" where
  "typed_slice t es \<longleftrightarrow> t = TAny \<or> (\<forall>v \<in> set es. ty_of v = t)"

text \<open>A loop that converts every element and stores it at the same index.\<close>

fun map_go :: "('a \<Rightarrow> 'b go) \<Rightarrow> 'a list \<Rightarrow> 'b list go" where
  "map_go f [] = ret []"
| "map_go f (x # xs) = do { y \<leftarrow> f x; ys \<leftarrow> map_go f xs; ret (y # ys) }"

lemma map_go_ret: "\<forall>x \<in> set xs. f x = ret (g x) \<Longrightarrow> map_go f xs = ret (map g xs)"
  by (induction xs) auto

lemma map_go_length: "map_go f xs = ret ys \<Longrightarrow> length ys = length xs"
  by (induction xs arbitrary: ys) (auto split: bind_splits)

lemma map_go_panic: "map_go f xs = panic \<longleftrightarrow> (\<exists>x \<in> set xs. f x = panic)"
  by (induction xs) (auto split: bind_splits)

end
