(* ===== verification/Strconv.thy ===== *)
theory Strconv
  imports Prelude
begin

section \<open>Decimal numbers as text\<close>

text \<open>
  The functions of Go's strconv that src/utils/xconv uses on integers: \<open>FormatInt\<close> and
  \<open>FormatUint\<close> in base 10, \<open>ParseInt\<close> in base 10 and \<open>ParseUint\<close> in base 0 (prefixes and
  underscores as in Go literals), both for 64 bits, with the value they return beside an error
  (0 for bad syntax, the nearest bound when out of range).  Text is a list of bytes.  The lemmas
  give the round trips \<open>Parse \<circ> Format\<close>.
\<close>

datatype num_error = ErrSyntax | ErrRange

abbreviation (input) max_u64 :: nat where
  "max_u64 \<equiv> 18446744073709551615"

subsection \<open>Printing\<close>

fun dec_digits :: "nat \<Rightarrow> byte list" where
  "dec_digits n = (if n < 10 then [of_nat (48 + n)] else dec_digits (n div 10) @ [of_nat (48 + n mod 10)])"

declare dec_digits.simps [simp del]

definition FormatUint :: "64 word \<Rightarrow> byte list" where
  "FormatUint v = dec_digits (unat v)"

definition FormatInt :: "64 word \<Rightarrow> byte list" where
  "FormatInt v = (if sint v < 0 then 45 # dec_digits (nat (- sint v)) else dec_digits (nat (sint v)))"

subsection \<open>Parsing\<close>

definition lower :: "byte \<Rightarrow> byte" where
  "lower c = or c 32"

definition digit_value :: "byte \<Rightarrow> nat option" where
  "digit_value c =
     (if 48 \<le> c \<and> c \<le> 57 then Some (unat (c - 48))
      else if 97 \<le> lower c \<and> lower c \<le> 122 then Some (unat (lower c - 97) + 10)
      else None)"

fun parse_loop :: "bool \<Rightarrow> nat \<Rightarrow> nat \<Rightarrow> bool \<Rightarrow> byte list \<Rightarrow> num_error + nat \<times> bool" where
  "parse_loop base0 base n und [] = Inr (n, und)"
| "parse_loop base0 base n und (c # cs) =
     (if c = 95 \<and> base0 then parse_loop base0 base n True cs
      else case digit_value c of
        None \<Rightarrow> Inl ErrSyntax
      | Some d \<Rightarrow>
          if d \<ge> base then Inl ErrSyntax
          else if n \<ge> max_u64 div base + 1 then Inl ErrRange
          else let n1 = n * base + d in
               if n1 > max_u64 then Inl ErrRange else parse_loop base0 base n1 und cs)"

fun underscore_loop :: "bool \<Rightarrow> byte \<Rightarrow> byte list \<Rightarrow> bool" where
  "underscore_loop hex i [] = (i \<noteq> 95)"
| "underscore_loop hex i (c # cs) =
     (if 48 \<le> c \<and> c \<le> 57 \<or> hex \<and> 97 \<le> lower c \<and> lower c \<le> 102 then underscore_loop hex 48 cs
      else if c = 95 then (if i \<noteq> 48 then False else underscore_loop hex 95 cs)
      else if i = 95 then False
      else underscore_loop hex 33 cs)"

definition underscoreOK :: "byte list \<Rightarrow> bool" where
  "underscoreOK s =
     (let s = (if s \<noteq> [] \<and> (hd s = 45 \<or> hd s = 43) then tl s else s) in
      if length s \<ge> 2 \<and> s ! 0 = 48 \<and> lower (s ! 1) \<in> {98, 111, 120}
      then underscore_loop (lower (s ! 1) = 120) 48 (drop 2 s)
      else underscore_loop False 94 s)"

text \<open>\<open>ParseUint(s, 10, 64)\<close> and \<open>ParseUint(s, 0, 64)\<close>: the value and the error.\<close>

definition ParseUint10 :: "byte list \<Rightarrow> nat \<times> num_error option" where
  "ParseUint10 s =
     (if s = [] then (0, Some ErrSyntax)
      else case parse_loop False 10 0 False s of
        Inl ErrSyntax \<Rightarrow> (0, Some ErrSyntax)
      | Inl ErrRange \<Rightarrow> (max_u64, Some ErrRange)
      | Inr (n, _) \<Rightarrow> (n, None))"

definition base_prefix :: "byte list \<Rightarrow> nat \<times> byte list" where
  "base_prefix s =
     (if s ! 0 = 48
      then (if length s \<ge> 3 \<and> lower (s ! 1) = 98 then (2, drop 2 s)
            else if length s \<ge> 3 \<and> lower (s ! 1) = 111 then (8, drop 2 s)
            else if length s \<ge> 3 \<and> lower (s ! 1) = 120 then (16, drop 2 s)
            else (8, drop 1 s))
      else (10, s))"

definition ParseUint0 :: "byte list \<Rightarrow> nat \<times> num_error option" where
  "ParseUint0 s =
     (if s = [] then (0, Some ErrSyntax)
      else case base_prefix s of (base, ds) \<Rightarrow>
        (case parse_loop True base 0 False ds of
           Inl ErrSyntax \<Rightarrow> (0, Some ErrSyntax)
         | Inl ErrRange \<Rightarrow> (max_u64, Some ErrRange)
         | Inr (n, und) \<Rightarrow> if und \<and> \<not> underscoreOK s then (0, Some ErrSyntax) else (n, None)))"

definition ParseInt10 :: "byte list \<Rightarrow> 64 word \<times> num_error option" where
  "ParseInt10 s =
     (if s = [] then (0, Some ErrSyntax)
      else
        let neg = (hd s = 45); ds = (if hd s = 43 \<or> hd s = 45 then tl s else s) in
        case ParseUint10 ds of
          (un, Some ErrSyntax) \<Rightarrow> (0, Some ErrSyntax)
        | (un, _) \<Rightarrow>
            if \<not> neg \<and> un \<ge> 2 ^ 63 then (of_nat (2 ^ 63 - 1), Some ErrRange)
            else if neg \<and> un > 2 ^ 63 then (- of_nat (2 ^ 63), Some ErrRange)
            else (if neg then - of_nat un else of_nat un, None))"

subsection \<open>Round trips\<close>

lemma less_10_cases: "d < 10 \<Longrightarrow> d = 0 \<or> d = 1 \<or> d = 2 \<or> d = 3 \<or> d = 4 \<or> d = 5 \<or> d = 6 \<or> d = 7 \<or> d = 8 \<or> d = (9 :: nat)"
  by arith

lemma digit_value_dec: "d < 10 \<Longrightarrow> digit_value (of_nat (48 + d)) = Some d"
  by (drule less_10_cases) (elim disjE; simp add: digit_value_def)

lemma dec_not_underscore: "d < 10 \<Longrightarrow> (of_nat (48 + d) :: byte) \<noteq> 95"
  by (drule less_10_cases) (elim disjE; simp)

lemma dec_not_sign: "d < 10 \<Longrightarrow> (of_nat (48 + d) :: byte) \<noteq> 43 \<and> (of_nat (48 + d) :: byte) \<noteq> 45"
  by (drule less_10_cases) (elim disjE; simp)

lemma dec_not_zero: "d < 10 \<Longrightarrow> d \<noteq> 0 \<Longrightarrow> (of_nat (48 + d) :: byte) \<noteq> 48"
  by (drule less_10_cases) (elim disjE; simp)

lemma parse_dec_digits:
  "n \<le> max_u64 \<Longrightarrow> parse_loop b 10 0 und (dec_digits n @ cs) = parse_loop b 10 n und cs"
proof (induction n arbitrary: cs rule: dec_digits.induct)
  case (1 n)
  show ?case
  proof (cases "n < 10")
    case True
    then show ?thesis
      using digit_value_dec [of n] dec_not_underscore [of n] by (simp add: dec_digits.simps [of n])
  next
    case False
    have d: "digit_value (of_nat (48 + n mod 10)) = Some (n mod 10)" "(of_nat (48 + n mod 10) :: byte) \<noteq> 95"
      using digit_value_dec [of "n mod 10"] dec_not_underscore [of "n mod 10"] by simp_all
    have n: "n div 10 * 10 + n mod 10 = n" by simp
    have b: "\<not> 1844674407370955162 \<le> n div 10" "\<not> max_u64 < n" "n div 10 \<le> max_u64" "\<not> 10 \<le> n mod 10"
      using 1(2) by linarith+
    have "parse_loop b 10 0 und (dec_digits n @ cs) =
        parse_loop b 10 (n div 10) und (of_nat (48 + n mod 10) # cs)"
      using 1(1) [OF False b(3), of "of_nat (48 + n mod 10) # cs"] False by (simp add: dec_digits.simps [of n])
    also have "\<dots> = parse_loop b 10 n und cs"
      using n by (simp add: d b Let_def del: of_nat_add)
    finally show ?thesis .
  qed
qed

lemma dec_digits_not_Nil [simp]: "dec_digits n \<noteq> []"
  by (simp add: dec_digits.simps [of n])

lemma hd_dec_digits: "\<exists>d < 10. hd (dec_digits n) = of_nat (48 + d) \<and> (d = 0 \<longrightarrow> n = 0)"
proof (induction n rule: dec_digits.induct)
  case (1 n)
  show ?case
  proof (cases "n < 10")
    case True
    then show ?thesis by (intro exI [of _ n]) (simp add: dec_digits.simps [of n])
  next
    case False
    then have "n div 10 \<noteq> 0" by simp
    with 1 [OF False] show ?thesis using False by (auto simp: dec_digits.simps [of n])
  qed
qed

lemma ParseUint10_dec: "n \<le> max_u64 \<Longrightarrow> ParseUint10 (dec_digits n) = (n, None)"
  using parse_dec_digits [of n False False "[]"] by (simp add: ParseUint10_def)

lemma ParseUint0_dec: "n \<le> max_u64 \<Longrightarrow> ParseUint0 (dec_digits n) = (n, None)"
proof (cases "n = 0")
  case True
  then show ?thesis by (simp add: dec_digits.simps [of 0] ParseUint0_def base_prefix_def)
next
  case False
  assume n: "n \<le> max_u64"
  obtain d where d: "d < 10" "hd (dec_digits n) = of_nat (48 + d)" "d \<noteq> 0"
    using hd_dec_digits [of n] False by auto
  with dec_not_zero [of d] have "dec_digits n ! 0 \<noteq> 48" by (simp add: hd_conv_nth)
  with n show ?thesis
    using parse_dec_digits [of n True False "[]"] by (simp add: ParseUint0_def base_prefix_def)
qed

theorem ParseUint_FormatUint: "fst (ParseUint0 (FormatUint v)) = unat v"
  using unsigned_less [of v, where ?'a = nat] by (simp add: FormatUint_def ParseUint0_dec)

lemma ParseInt_dec: "n < 2 ^ 63 \<Longrightarrow> ParseInt10 (dec_digits n) = (of_nat n, None)"
proof -
  assume n: "n < 2 ^ 63"
  obtain d where d: "d < 10" "hd (dec_digits n) = of_nat (48 + d)" using hd_dec_digits by blast
  with dec_not_sign [of d] n show ?thesis
    by (simp add: ParseInt10_def ParseUint10_dec Let_def)
qed

lemma ParseInt_neg_dec: "n \<le> 2 ^ 63 \<Longrightarrow> ParseInt10 (45 # dec_digits n) = (- of_nat n, None)"
  by (simp add: ParseInt10_def ParseUint10_dec Let_def)

lemma word_of_nat_nat: "0 \<le> k \<Longrightarrow> of_nat (nat k) = (of_int k :: 'a :: len word)"
  by (metis of_int_of_nat_eq nat_0_le)

theorem ParseInt_FormatInt: "ParseInt10 (FormatInt v) = (v, None)"
proof (cases "sint v < 0")
  case True
  have "nat (- sint v) \<le> 2 ^ 63" using sint_ge [of v] by simp
  with True show ?thesis
    by (simp add: FormatInt_def ParseInt_neg_dec word_of_nat_nat del: of_nat_nat)
next
  case False
  have "nat (sint v) < 2 ^ 63" using sint_lt [of v] False by (simp add: nat_less_iff)
  with False show ?thesis by (simp add: FormatInt_def ParseInt_dec word_of_nat_nat del: of_nat_nat)
qed

end
