(* ===== verification/Xconv.thy ===== *)
theory Xconv
  imports GoValue Strconv ByteOrder
begin

section \<open>Conversions between dynamic values\<close>

text \<open>
  The scalar conversions of src/utils/xconv.  Each function is a type switch over the predeclared
  types and pointers to them, and a default branch over the reflect kind.  Parameters, in the record
  \<open>conv_env\<close>: the IEEE arithmetic of the processor (conversions between integers and floats, between
  the two float types, multiplication), the printing and parsing of floats, \<open>json.Marshal\<close>,
  \<open>fmt.Sprintf\<close> and the parsing of durations, whose text syntax is not modelled.
\<close>

record conv_env =
  ce_f2i :: "64 word \<Rightarrow> 64 word"
  ce_f2u :: "64 word \<Rightarrow> 64 word"
  ce_i2f :: "64 word \<Rightarrow> 64 word"
  ce_u2f :: "64 word \<Rightarrow> 64 word"
  ce_widen :: "32 word \<Rightarrow> 64 word"
  ce_narrow :: "64 word \<Rightarrow> 32 word"
  ce_mul :: "64 word \<Rightarrow> 64 word \<Rightarrow> 64 word"
  ce_FormatFloat :: "64 word \<Rightarrow> byte \<Rightarrow> nat \<Rightarrow> byte list"
  ce_ParseFloat :: "byte list \<Rightarrow> 64 word"
  ce_Marshal :: "gval \<Rightarrow> byte list option"
  ce_Sprint :: "gval \<Rightarrow> byte list"
  ce_toDuration :: "byte list \<Rightarrow> 64 word"

text \<open>The types whose pointers a type switch reads.\<close>

definition number_types :: "gty list" where
  "number_types = [TInt, TInt8, TInt16, TInt32, TInt64, TUint, TUint8, TUint16, TUint32, TUint64, TFloat32, TFloat64]"

definition real_types :: "gty list" where
  "real_types = number_types @ [TComplex64, TComplex128]"

abbreviation TBytes :: gty where
  "TBytes \<equiv> TSlice TUint8"

subsection \<open>\<open>Int64\<close>\<close>

text \<open>
  A \<open>[]byte\<close> is read as a big-endian number after it was copied to the end of eight zero bytes; the
  slice expression for that copy panics when there are more than eight.
\<close>

definition int64_of_bytes :: "byte list \<Rightarrow> 64 word go" where
  "int64_of_bytes v =
     (if length v > 8 then panic
      else ret (of_nat (get_uint BigEndian (copy_at (replicate 8 0) (8 - length v) v))))"

fun xc_Int64_cases :: "conv_env \<Rightarrow> gval \<Rightarrow> 64 word go option" where
  "xc_Int64_cases E (VInt v) = Some (ret v)"
| "xc_Int64_cases E (VInt8 v) = Some (ret (scast v))"
| "xc_Int64_cases E (VInt16 v) = Some (ret (scast v))"
| "xc_Int64_cases E (VInt32 v) = Some (ret (scast v))"
| "xc_Int64_cases E (VInt64 v) = Some (ret v)"
| "xc_Int64_cases E (VUint v) = Some (ret v)"
| "xc_Int64_cases E (VUint8 v) = Some (ret (ucast v))"
| "xc_Int64_cases E (VUint16 v) = Some (ret (ucast v))"
| "xc_Int64_cases E (VUint32 v) = Some (ret (ucast v))"
| "xc_Int64_cases E (VUint64 v) = Some (ret v)"
| "xc_Int64_cases E (VFloat32 v) = Some (ret (ce_f2i E (ce_widen E v)))"
| "xc_Int64_cases E (VFloat64 v) = Some (ret (ce_f2i E v))"
| "xc_Int64_cases E (VComplex64 r i) = Some (ret (ce_f2i E (ce_widen E r)))"
| "xc_Int64_cases E (VComplex128 r i) = Some (ret (ce_f2i E r))"
| "xc_Int64_cases E (VBool v) = Some (ret (if v then 1 else 0))"
| "xc_Int64_cases E (VTime unixNano isZero s) = Some (ret unixNano)"
| "xc_Int64_cases E (VSlice t es) = (if t = TUint8 then Some (int64_of_bytes (slice_bytes es)) else None)"
| "xc_Int64_cases E _ = None"

fun xc_Int64_kind :: "conv_env \<Rightarrow> gval \<Rightarrow> 64 word" where
  "xc_Int64_kind E (VBool v) = (if v then 1 else 0)"
| "xc_Int64_kind E (VString s) = fst (ParseInt10 s)"
| "xc_Int64_kind E (VUintptr v) = v"
| "xc_Int64_kind E (VUnsafePointer v) = v"
| "xc_Int64_kind E (VInt v) = v"
| "xc_Int64_kind E (VInt8 v) = scast v"
| "xc_Int64_kind E (VInt16 v) = scast v"
| "xc_Int64_kind E (VInt32 v) = scast v"
| "xc_Int64_kind E (VInt64 v) = v"
| "xc_Int64_kind E (VDuration v) = v"
| "xc_Int64_kind E (VUint v) = v"
| "xc_Int64_kind E (VUint8 v) = ucast v"
| "xc_Int64_kind E (VUint16 v) = ucast v"
| "xc_Int64_kind E (VUint32 v) = ucast v"
| "xc_Int64_kind E (VUint64 v) = v"
| "xc_Int64_kind E (VFloat32 v) = ce_f2i E (ce_widen E v)"
| "xc_Int64_kind E (VFloat64 v) = ce_f2i E v"
| "xc_Int64_kind E (VComplex64 r i) = ce_f2i E (ce_widen E r)"
| "xc_Int64_kind E (VComplex128 r i) = ce_f2i E r"
| "xc_Int64_kind E _ = 0"

text \<open>The default branch: \<open>f\<close> of the value reached, \<open>z\<close> for the kind \<open>Invalid\<close>.\<close>

definition by_kind :: "'a \<Rightarrow> (gval \<Rightarrow> 'a) \<Rightarrow> gval \<Rightarrow> 'a" where
  "by_kind z f val = (case reflect_Value val of None \<Rightarrow> z | Some v \<Rightarrow> f v)"

definition xc_Int64 :: "conv_env \<Rightarrow> gval \<Rightarrow> 64 word go" where
  "xc_Int64 E val =
     (if val = VNil then ret 0
      else type_switch (xc_Int64_cases E) (panics_on (real_types @ [TBool, TTime, TBytes]))
             (\<lambda>v. ret (by_kind 0 (xc_Int64_kind E) v)) val)"

subsection \<open>\<open>Uint64\<close>\<close>

fun xc_Uint64_cases :: "conv_env \<Rightarrow> gval \<Rightarrow> 64 word go option" where
  "xc_Uint64_cases E (VInt v) = Some (ret v)"
| "xc_Uint64_cases E (VInt8 v) = Some (ret (scast v))"
| "xc_Uint64_cases E (VInt16 v) = Some (ret (scast v))"
| "xc_Uint64_cases E (VInt32 v) = Some (ret (scast v))"
| "xc_Uint64_cases E (VInt64 v) = Some (ret v)"
| "xc_Uint64_cases E (VUint v) = Some (ret v)"
| "xc_Uint64_cases E (VUint8 v) = Some (ret (ucast v))"
| "xc_Uint64_cases E (VUint16 v) = Some (ret (ucast v))"
| "xc_Uint64_cases E (VUint32 v) = Some (ret (ucast v))"
| "xc_Uint64_cases E (VUint64 v) = Some (ret v)"
| "xc_Uint64_cases E (VFloat32 v) = Some (ret (ce_f2u E (ce_widen E v)))"
| "xc_Uint64_cases E (VFloat64 v) = Some (ret (ce_f2u E v))"
| "xc_Uint64_cases E (VComplex64 r i) = Some (ret (ce_f2u E (ce_widen E r)))"
| "xc_Uint64_cases E (VComplex128 r i) = Some (ret (ce_f2u E r))"
| "xc_Uint64_cases E (VBool v) = Some (ret (if v then 1 else 0))"
| "xc_Uint64_cases E (VTime unixNano isZero s) = Some (ret unixNano)"
| "xc_Uint64_cases E _ = None"

fun xc_Uint64_kind :: "conv_env \<Rightarrow> gval \<Rightarrow> 64 word" where
  "xc_Uint64_kind E (VBool v) = (if v then 1 else 0)"
| "xc_Uint64_kind E (VString s) = of_nat (fst (ParseUint0 s))"
| "xc_Uint64_kind E (VUintptr v) = v"
| "xc_Uint64_kind E (VUnsafePointer v) = v"
| "xc_Uint64_kind E (VInt v) = v"
| "xc_Uint64_kind E (VInt8 v) = scast v"
| "xc_Uint64_kind E (VInt16 v) = scast v"
| "xc_Uint64_kind E (VInt32 v) = scast v"
| "xc_Uint64_kind E (VInt64 v) = v"
| "xc_Uint64_kind E (VDuration v) = v"
| "xc_Uint64_kind E (VUint v) = v"
| "xc_Uint64_kind E (VUint8 v) = ucast v"
| "xc_Uint64_kind E (VUint16 v) = ucast v"
| "xc_Uint64_kind E (VUint32 v) = ucast v"
| "xc_Uint64_kind E (VUint64 v) = v"
| "xc_Uint64_kind E (VFloat32 v) = ce_f2u E (ce_widen E v)"
| "xc_Uint64_kind E (VFloat64 v) = ce_f2u E v"
| "xc_Uint64_kind E (VComplex64 r i) = ce_f2u E (ce_widen E r)"
| "xc_Uint64_kind E (VComplex128 r i) = ce_f2u E r"
| "xc_Uint64_kind E _ = 0"

definition xc_Uint64 :: "conv_env \<Rightarrow> gval \<Rightarrow> 64 word go" where
  "xc_Uint64 E val =
     (if val = VNil then ret 0
      else type_switch (xc_Uint64_cases E) (panics_on (real_types @ [TBool, TTime]))
             (\<lambda>v. ret (by_kind 0 (xc_Uint64_kind E) v)) val)"

subsection \<open>The narrower integers\<close>

definition xc_Int :: "conv_env \<Rightarrow> gval \<Rightarrow> 64 word go" where
  "xc_Int E val = xc_Int64 E val"

definition xc_Int8 :: "conv_env \<Rightarrow> gval \<Rightarrow> 8 word go" where
  "xc_Int8 E val = do { x \<leftarrow> xc_Int64 E val; ret (ucast x) }"

definition xc_Int16 :: "conv_env \<Rightarrow> gval \<Rightarrow> 16 word go" where
  "xc_Int16 E val = do { x \<leftarrow> xc_Int64 E val; ret (ucast x) }"

definition xc_Int32 :: "conv_env \<Rightarrow> gval \<Rightarrow> 32 word go" where
  "xc_Int32 E val = do { x \<leftarrow> xc_Int64 E val; ret (ucast x) }"

definition xc_Rune :: "conv_env \<Rightarrow> gval \<Rightarrow> 32 word go" where
  "xc_Rune E val = xc_Int32 E val"

definition xc_Uint :: "conv_env \<Rightarrow> gval \<Rightarrow> 64 word go" where
  "xc_Uint E val = xc_Uint64 E val"

definition xc_Uint8 :: "conv_env \<Rightarrow> gval \<Rightarrow> 8 word go" where
  "xc_Uint8 E val = do { x \<leftarrow> xc_Uint64 E val; ret (ucast x) }"

definition xc_Uint16 :: "conv_env \<Rightarrow> gval \<Rightarrow> 16 word go" where
  "xc_Uint16 E val = do { x \<leftarrow> xc_Uint64 E val; ret (ucast x) }"

definition xc_Uint32 :: "conv_env \<Rightarrow> gval \<Rightarrow> 32 word go" where
  "xc_Uint32 E val = do { x \<leftarrow> xc_Uint64 E val; ret (ucast x) }"

definition xc_Byte :: "conv_env \<Rightarrow> gval \<Rightarrow> 8 word go" where
  "xc_Byte E val = xc_Uint8 E val"

subsection \<open>\<open>String\<close>\<close>

text \<open>
  \<open>strconv.FormatComplex(v, fmt, -1, bits)\<close> prints both parts as floats of half the bits, with the
  sign of the imaginary part, in parentheses.
\<close>

definition FormatComplex :: "conv_env \<Rightarrow> 64 word \<Rightarrow> 64 word \<Rightarrow> byte \<Rightarrow> nat \<Rightarrow> byte list" where
  "FormatComplex E r i fm bits =
     (let re = ce_FormatFloat E r fm (bits div 2); im = ce_FormatFloat E i fm (bits div 2) in
      40 # re @ (if im \<noteq> [] \<and> (hd im = 43 \<or> hd im = 45) then im else 43 # im) @ [105, 41])"

definition FormatBool :: "bool \<Rightarrow> byte list" where
  "FormatBool v = (if v then [116, 114, 117, 101] else [102, 97, 108, 115, 101])"

text \<open>A pointer to a \<open>float32\<close> is printed with 64 bits, the value itself with 32.\<close>

fun xc_String_cases :: "conv_env \<Rightarrow> nat \<Rightarrow> gval \<Rightarrow> byte list go option" where
  "xc_String_cases E bits (VInt v) = Some (ret (FormatInt v))"
| "xc_String_cases E bits (VInt8 v) = Some (ret (FormatInt (scast v)))"
| "xc_String_cases E bits (VInt16 v) = Some (ret (FormatInt (scast v)))"
| "xc_String_cases E bits (VInt32 v) = Some (ret (FormatInt (scast v)))"
| "xc_String_cases E bits (VInt64 v) = Some (ret (FormatInt v))"
| "xc_String_cases E bits (VUint v) = Some (ret (FormatUint v))"
| "xc_String_cases E bits (VUint8 v) = Some (ret (FormatUint (ucast v)))"
| "xc_String_cases E bits (VUint16 v) = Some (ret (FormatUint (ucast v)))"
| "xc_String_cases E bits (VUint32 v) = Some (ret (FormatUint (ucast v)))"
| "xc_String_cases E bits (VUint64 v) = Some (ret (FormatUint v))"
| "xc_String_cases E bits (VFloat32 v) = Some (ret (ce_FormatFloat E (ce_widen E v) 102 bits))"
| "xc_String_cases E bits (VFloat64 v) = Some (ret (ce_FormatFloat E v 102 64))"
| "xc_String_cases E bits (VComplex64 r i) = Some (ret (FormatComplex E (ce_widen E r) (ce_widen E i) 101 64))"
| "xc_String_cases E bits (VComplex128 r i) = Some (ret (FormatComplex E r i 101 128))"
| "xc_String_cases E bits (VBool v) = Some (ret (FormatBool v))"
| "xc_String_cases E bits (VString s) = Some (ret s)"
| "xc_String_cases E bits (VSlice t es) = (if t = TUint8 then Some (ret (slice_bytes es)) else None)"
| "xc_String_cases E bits (VTime unixNano isZero s) = Some (ret (if isZero then [] else s))"
| "xc_String_cases E bits _ = None"

definition json_text :: "conv_env \<Rightarrow> gval \<Rightarrow> byte list" where
  "json_text E val = (case ce_Marshal E val of None \<Rightarrow> ce_Sprint E val | Some b \<Rightarrow> b)"

text \<open>By kind: the integers, floats and complex numbers are first widened to 64 or 128 bits.\<close>

fun xc_String_kind :: "conv_env \<Rightarrow> gval \<Rightarrow> gval \<Rightarrow> byte list" where
  "xc_String_kind E val (VBool v) = FormatBool v"
| "xc_String_kind E val (VString s) = s"
| "xc_String_kind E val (VInt v) = FormatInt v"
| "xc_String_kind E val (VInt8 v) = FormatInt (scast v)"
| "xc_String_kind E val (VInt16 v) = FormatInt (scast v)"
| "xc_String_kind E val (VInt32 v) = FormatInt (scast v)"
| "xc_String_kind E val (VInt64 v) = FormatInt v"
| "xc_String_kind E val (VDuration v) = FormatInt v"
| "xc_String_kind E val (VUint v) = FormatUint v"
| "xc_String_kind E val (VUint8 v) = FormatUint (ucast v)"
| "xc_String_kind E val (VUint16 v) = FormatUint (ucast v)"
| "xc_String_kind E val (VUint32 v) = FormatUint (ucast v)"
| "xc_String_kind E val (VUint64 v) = FormatUint v"
| "xc_String_kind E val (VFloat32 v) = ce_FormatFloat E (ce_widen E v) 102 64"
| "xc_String_kind E val (VFloat64 v) = ce_FormatFloat E v 102 64"
| "xc_String_kind E val (VComplex64 r i) = FormatComplex E (ce_widen E r) (ce_widen E i) 101 128"
| "xc_String_kind E val (VComplex128 r i) = FormatComplex E r i 101 128"
| "xc_String_kind E val _ = json_text E val"

definition xc_String :: "conv_env \<Rightarrow> gval \<Rightarrow> byte list go" where
  "xc_String E val =
     (if val = VNil then ret []
      else type_switch (xc_String_cases E (case val of VPtr _ \<Rightarrow> 64 | _ \<Rightarrow> 32))
             (panics_on (real_types @ [TBool, TString, TBytes, TTime]))
             (\<lambda>v. ret (by_kind [] (xc_String_kind E v) v)) val)"

subsection \<open>\<open>Bool\<close>\<close>

definition to_lower :: "byte \<Rightarrow> byte" where
  "to_lower c = (if 65 \<le> c \<and> c \<le> 90 then c + 32 else c)"

text \<open>
  \<open>strings.ToLower(v) != "false"\<close>: no letter outside ASCII has a lower case among these five, so
  lowering the ASCII letters decides it.
\<close>

definition toBool :: "byte list \<Rightarrow> bool" where
  "toBool v \<longleftrightarrow> v \<noteq> [] \<and> v \<noteq> [48] \<and> map to_lower v \<noteq> [102, 97, 108, 115, 101]"

definition f64_is_zero :: "64 word \<Rightarrow> bool" where
  "f64_is_zero v \<longleftrightarrow> v = 0 \<or> v = push_bit 63 1"

definition f32_is_zero :: "32 word \<Rightarrow> bool" where
  "f32_is_zero v \<longleftrightarrow> v = 0 \<or> v = push_bit 31 1"

fun xc_Bool_cases :: "conv_env \<Rightarrow> gval \<Rightarrow> bool go option" where
  "xc_Bool_cases E (VInt v) = Some (ret (v \<noteq> 0))"
| "xc_Bool_cases E (VInt8 v) = Some (ret (v \<noteq> 0))"
| "xc_Bool_cases E (VInt16 v) = Some (ret (v \<noteq> 0))"
| "xc_Bool_cases E (VInt32 v) = Some (ret (v \<noteq> 0))"
| "xc_Bool_cases E (VInt64 v) = Some (ret (v \<noteq> 0))"
| "xc_Bool_cases E (VUint v) = Some (ret (v \<noteq> 0))"
| "xc_Bool_cases E (VUint8 v) = Some (ret (v \<noteq> 0))"
| "xc_Bool_cases E (VUint16 v) = Some (ret (v \<noteq> 0))"
| "xc_Bool_cases E (VUint32 v) = Some (ret (v \<noteq> 0))"
| "xc_Bool_cases E (VUint64 v) = Some (ret (v \<noteq> 0))"
| "xc_Bool_cases E (VFloat32 v) = Some (ret (\<not> f32_is_zero v))"
| "xc_Bool_cases E (VFloat64 v) = Some (ret (\<not> f64_is_zero v))"
| "xc_Bool_cases E (VComplex64 r i) = Some (ret (toBool (FormatComplex E (ce_widen E r) (ce_widen E i) 101 64)))"
| "xc_Bool_cases E (VComplex128 r i) = Some (ret (toBool (FormatComplex E r i 101 128)))"
| "xc_Bool_cases E (VBool v) = Some (ret v)"
| "xc_Bool_cases E (VString s) = Some (ret (toBool s))"
| "xc_Bool_cases E (VSlice t es) = (if t = TUint8 then Some (ret (toBool (slice_bytes es))) else None)"
| "xc_Bool_cases E (VTime unixNano isZero s) = Some (ret isZero)"
| "xc_Bool_cases E _ = None"

fun xc_Bool_kind :: "conv_env \<Rightarrow> gval \<Rightarrow> bool" where
  "xc_Bool_kind E (VBool v) = v"
| "xc_Bool_kind E (VString s) = toBool s"
| "xc_Bool_kind E (VUintptr v) = (v \<noteq> 0)"
| "xc_Bool_kind E (VUnsafePointer v) = (v \<noteq> 0)"
| "xc_Bool_kind E (VInt v) = (v \<noteq> 0)"
| "xc_Bool_kind E (VInt8 v) = (v \<noteq> 0)"
| "xc_Bool_kind E (VInt16 v) = (v \<noteq> 0)"
| "xc_Bool_kind E (VInt32 v) = (v \<noteq> 0)"
| "xc_Bool_kind E (VInt64 v) = (v \<noteq> 0)"
| "xc_Bool_kind E (VDuration v) = (v \<noteq> 0)"
| "xc_Bool_kind E (VUint v) = (v \<noteq> 0)"
| "xc_Bool_kind E (VUint8 v) = (v \<noteq> 0)"
| "xc_Bool_kind E (VUint16 v) = (v \<noteq> 0)"
| "xc_Bool_kind E (VUint32 v) = (v \<noteq> 0)"
| "xc_Bool_kind E (VUint64 v) = (v \<noteq> 0)"
| "xc_Bool_kind E (VFloat32 v) = (\<not> f32_is_zero v)"
| "xc_Bool_kind E (VFloat64 v) = (\<not> f64_is_zero v)"
| "xc_Bool_kind E (VComplex64 r i) = toBool (FormatComplex E (ce_widen E r) (ce_widen E i) 101 128)"
| "xc_Bool_kind E (VComplex128 r i) = toBool (FormatComplex E r i 101 128)"
| "xc_Bool_kind E (VArray xs) = (xs \<noteq> [])"
| "xc_Bool_kind E (VSlice t es) = (es \<noteq> None \<and> elems es \<noteq> [])"
| "xc_Bool_kind E (VMap n m) = (n \<noteq> None \<and> n \<noteq> Some 0)"
| "xc_Bool_kind E (VStruct m) = True"
| "xc_Bool_kind E (VTime unixNano isZero s) = True"
| "xc_Bool_kind E (VChan isNil m) = (\<not> isNil)"
| "xc_Bool_kind E (VFunc isNil m) = (\<not> isNil)"
| "xc_Bool_kind E (VIface v) = (v \<noteq> VNil)"
| "xc_Bool_kind E _ = False"

definition xc_Bool :: "conv_env \<Rightarrow> gval \<Rightarrow> bool go" where
  "xc_Bool E val =
     (if val = VNil then ret False
      else type_switch (xc_Bool_cases E) (panics_on (real_types @ [TBool, TString, TBytes, TTime]))
             (\<lambda>v. ret (by_kind False (xc_Bool_kind E) v)) val)"

subsection \<open>\<open>Float64\<close> and \<open>Float32\<close>\<close>

definition f64_one :: "64 word" where
  "f64_one = 4607182418800017408"

definition complex_to_float :: "conv_env \<Rightarrow> 64 word \<Rightarrow> 64 word \<Rightarrow> 64 word" where
  "complex_to_float E r i = ce_ParseFloat E (FormatComplex E r i 102 64)"

fun xc_Float64_cases :: "conv_env \<Rightarrow> gval \<Rightarrow> 64 word go option" where
  "xc_Float64_cases E (VInt v) = Some (ret (ce_i2f E v))"
| "xc_Float64_cases E (VInt8 v) = Some (ret (ce_i2f E (scast v)))"
| "xc_Float64_cases E (VInt16 v) = Some (ret (ce_i2f E (scast v)))"
| "xc_Float64_cases E (VInt32 v) = Some (ret (ce_i2f E (scast v)))"
| "xc_Float64_cases E (VInt64 v) = Some (ret (ce_i2f E v))"
| "xc_Float64_cases E (VUint v) = Some (ret (ce_u2f E v))"
| "xc_Float64_cases E (VUint8 v) = Some (ret (ce_u2f E (ucast v)))"
| "xc_Float64_cases E (VUint16 v) = Some (ret (ce_u2f E (ucast v)))"
| "xc_Float64_cases E (VUint32 v) = Some (ret (ce_u2f E (ucast v)))"
| "xc_Float64_cases E (VUint64 v) = Some (ret (ce_u2f E v))"
| "xc_Float64_cases E (VFloat32 v) = Some (ret (ce_widen E v))"
| "xc_Float64_cases E (VFloat64 v) = Some (ret v)"
| "xc_Float64_cases E (VComplex64 r i) = Some (ret (complex_to_float E (ce_widen E r) (ce_widen E i)))"
| "xc_Float64_cases E (VComplex128 r i) = Some (ret (complex_to_float E r i))"
| "xc_Float64_cases E (VBool v) = Some (ret (if v then f64_one else 0))"
| "xc_Float64_cases E (VTime unixNano isZero s) = Some (ret (ce_i2f E unixNano))"
| "xc_Float64_cases E _ = None"

fun xc_Float64_kind :: "conv_env \<Rightarrow> gval \<Rightarrow> 64 word" where
  "xc_Float64_kind E (VBool v) = (if v then f64_one else 0)"
| "xc_Float64_kind E (VString s) = ce_ParseFloat E s"
| "xc_Float64_kind E (VUintptr v) = ce_u2f E v"
| "xc_Float64_kind E (VUnsafePointer v) = ce_u2f E v"
| "xc_Float64_kind E (VInt v) = ce_i2f E v"
| "xc_Float64_kind E (VInt8 v) = ce_i2f E (scast v)"
| "xc_Float64_kind E (VInt16 v) = ce_i2f E (scast v)"
| "xc_Float64_kind E (VInt32 v) = ce_i2f E (scast v)"
| "xc_Float64_kind E (VInt64 v) = ce_i2f E v"
| "xc_Float64_kind E (VDuration v) = ce_i2f E v"
| "xc_Float64_kind E (VUint v) = ce_u2f E v"
| "xc_Float64_kind E (VUint8 v) = ce_u2f E (ucast v)"
| "xc_Float64_kind E (VUint16 v) = ce_u2f E (ucast v)"
| "xc_Float64_kind E (VUint32 v) = ce_u2f E (ucast v)"
| "xc_Float64_kind E (VUint64 v) = ce_u2f E v"
| "xc_Float64_kind E (VFloat32 v) = ce_widen E v"
| "xc_Float64_kind E (VFloat64 v) = v"
| "xc_Float64_kind E (VComplex64 r i) = complex_to_float E (ce_widen E r) (ce_widen E i)"
| "xc_Float64_kind E (VComplex128 r i) = complex_to_float E r i"
| "xc_Float64_kind E _ = 0"

definition xc_Float64 :: "conv_env \<Rightarrow> gval \<Rightarrow> 64 word go" where
  "xc_Float64 E val =
     (if val = VNil then ret 0
      else type_switch (xc_Float64_cases E) (panics_on (real_types @ [TBool, TTime]))
             (\<lambda>v. ret (by_kind 0 (xc_Float64_kind E) v)) val)"

definition xc_Float32 :: "conv_env \<Rightarrow> gval \<Rightarrow> 32 word go" where
  "xc_Float32 E val = do { x \<leftarrow> xc_Float64 E val; ret (ce_narrow E x) }"

subsection \<open>\<open>Bytes\<close>\<close>

text \<open>\<open>binary.Write\<close> in big-endian order; a nil result and an empty one are both the empty list.\<close>

fun xc_Bytes_cases :: "gval \<Rightarrow> byte list go option" where
  "xc_Bytes_cases (VInt v) = Some (ret (put_uint BigEndian 8 (unat v)))"
| "xc_Bytes_cases (VUint v) = Some (ret (put_uint BigEndian 8 (unat v)))"
| "xc_Bytes_cases (VBool v) = Some (ret [if v then 1 else 0])"
| "xc_Bytes_cases (VInt8 v) = Some (ret (put_uint BigEndian 1 (unat v)))"
| "xc_Bytes_cases (VInt16 v) = Some (ret (put_uint BigEndian 2 (unat v)))"
| "xc_Bytes_cases (VInt32 v) = Some (ret (put_uint BigEndian 4 (unat v)))"
| "xc_Bytes_cases (VInt64 v) = Some (ret (put_uint BigEndian 8 (unat v)))"
| "xc_Bytes_cases (VUint8 v) = Some (ret (put_uint BigEndian 1 (unat v)))"
| "xc_Bytes_cases (VUint16 v) = Some (ret (put_uint BigEndian 2 (unat v)))"
| "xc_Bytes_cases (VUint32 v) = Some (ret (put_uint BigEndian 4 (unat v)))"
| "xc_Bytes_cases (VUint64 v) = Some (ret (put_uint BigEndian 8 (unat v)))"
| "xc_Bytes_cases (VFloat32 v) = Some (ret (put_uint BigEndian 4 (unat v)))"
| "xc_Bytes_cases (VFloat64 v) = Some (ret (put_uint BigEndian 8 (unat v)))"
| "xc_Bytes_cases (VUintptr v) = Some (ret (put_uint BigEndian 8 (unat v)))"
| "xc_Bytes_cases (VComplex64 r i) = Some (ret [])"
| "xc_Bytes_cases (VComplex128 r i) = Some (ret [])"
| "xc_Bytes_cases (VString s) = Some (ret s)"
| "xc_Bytes_cases (VSlice t es) = (if t = TUint8 then Some (ret (slice_bytes es)) else None)"
| "xc_Bytes_cases _ = None"

definition xc_Bytes_nils :: "gty \<Rightarrow> byte list go option" where
  "xc_Bytes_nils t =
     (if t \<in> {TComplex64, TComplex128} then Some (ret [])
      else panics_on (number_types @ [TBool, TUintptr, TString, TBytes]) t)"

fun xc_Bytes_kind :: "conv_env \<Rightarrow> gval \<Rightarrow> gval \<Rightarrow> byte list" where
  "xc_Bytes_kind E val (VBool v) = [if v then 1 else 0]"
| "xc_Bytes_kind E val (VString s) = s"
| "xc_Bytes_kind E val (VInt v) = put_uint BigEndian 8 (unat v)"
| "xc_Bytes_kind E val (VInt64 v) = put_uint BigEndian 8 (unat v)"
| "xc_Bytes_kind E val (VDuration v) = put_uint BigEndian 8 (unat v)"
| "xc_Bytes_kind E val (VInt8 v) = put_uint BigEndian 1 (unat v)"
| "xc_Bytes_kind E val (VInt16 v) = put_uint BigEndian 2 (unat v)"
| "xc_Bytes_kind E val (VInt32 v) = put_uint BigEndian 4 (unat v)"
| "xc_Bytes_kind E val (VUint v) = put_uint BigEndian 8 (unat v)"
| "xc_Bytes_kind E val (VUint64 v) = put_uint BigEndian 8 (unat v)"
| "xc_Bytes_kind E val (VUintptr v) = put_uint BigEndian 8 (unat v)"
| "xc_Bytes_kind E val (VUint8 v) = put_uint BigEndian 1 (unat v)"
| "xc_Bytes_kind E val (VUint16 v) = put_uint BigEndian 2 (unat v)"
| "xc_Bytes_kind E val (VUint32 v) = put_uint BigEndian 4 (unat v)"
| "xc_Bytes_kind E val (VFloat32 v) = put_uint BigEndian 8 (unat (ce_widen E v))"
| "xc_Bytes_kind E val (VFloat64 v) = put_uint BigEndian 8 (unat v)"
| "xc_Bytes_kind E val (VComplex64 r i) = []"
| "xc_Bytes_kind E val (VComplex128 r i) = []"
| "xc_Bytes_kind E val _ = (case ce_Marshal E val of None \<Rightarrow> [] | Some b \<Rightarrow> b)"

definition xc_Bytes :: "conv_env \<Rightarrow> gval \<Rightarrow> byte list go" where
  "xc_Bytes E val =
     (if val = VNil then ret []
      else type_switch xc_Bytes_cases xc_Bytes_nils (\<lambda>v. ret (by_kind [] (xc_Bytes_kind E v) v)) val)"

subsection \<open>\<open>B\<close>: sizes such as 10K or 3MB\<close>

text \<open>
  The regular expression takes the digits at the start and at most one letter of a unit, in either
  case: of the alternatives the one-letter ones come first, so the second letter of "kb" is never
  looked at.  The Kelvin sign also matches k, but is none of the cases below.
\<close>

definition is_digit :: "byte \<Rightarrow> bool" where
  "is_digit c \<longleftrightarrow> 48 \<le> c \<and> c \<le> 57"

definition unit_power :: "byte list \<Rightarrow> nat option" where
  "unit_power rest =
     (if rest = [] then Some 0
      else if take 3 rest = [226, 132, 170] then None
      else let c = to_lower (hd rest) in
        if c = 107 then Some 10 else if c = 109 then Some 20 else if c = 103 then Some 30
        else if c = 116 then Some 40 else if c = 112 then Some 50 else if c = 101 then Some 60
        else if c = 122 then Some 70 else Some 0)"

definition pow2_f64 :: "nat \<Rightarrow> 64 word" where
  "pow2_f64 k = push_bit 52 (of_nat (1023 + k))"

definition xc_toB :: "conv_env \<Rightarrow> byte list \<Rightarrow> 64 word go" where
  "xc_toB E val =
     (let digits = takeWhile is_digit val in
      if digits = [] then ret 0
      else case unit_power (dropWhile is_digit val) of
        None \<Rightarrow> ret 0
      | Some k \<Rightarrow> do { x \<leftarrow> xc_Float64 E (VString digits); ret (ce_mul E x (pow2_f64 k)) })"

fun xc_B_cases :: "conv_env \<Rightarrow> gval \<Rightarrow> 64 word go option" where
  "xc_B_cases E (VInt v) = Some (ret (ce_i2f E v))"
| "xc_B_cases E (VInt8 v) = Some (ret (ce_i2f E (scast v)))"
| "xc_B_cases E (VInt16 v) = Some (ret (ce_i2f E (scast v)))"
| "xc_B_cases E (VInt32 v) = Some (ret (ce_i2f E (scast v)))"
| "xc_B_cases E (VInt64 v) = Some (ret (ce_i2f E v))"
| "xc_B_cases E (VUint v) = Some (ret (ce_u2f E v))"
| "xc_B_cases E (VUint8 v) = Some (ret (ce_u2f E (ucast v)))"
| "xc_B_cases E (VUint16 v) = Some (ret (ce_u2f E (ucast v)))"
| "xc_B_cases E (VUint32 v) = Some (ret (ce_u2f E (ucast v)))"
| "xc_B_cases E (VUint64 v) = Some (ret (ce_u2f E v))"
| "xc_B_cases E (VFloat32 v) = Some (ret (ce_widen E v))"
| "xc_B_cases E (VFloat64 v) = Some (ret v)"
| "xc_B_cases E (VComplex64 r i) = Some (ret (ce_widen E r))"
| "xc_B_cases E (VComplex128 r i) = Some (ret r)"
| "xc_B_cases E (VBool v) = Some (ret 0)"
| "xc_B_cases E (VString s) = Some (xc_toB E s)"
| "xc_B_cases E (VSlice t es) = (if t = TUint8 then Some (xc_toB E (slice_bytes es)) else None)"
| "xc_B_cases E (VTime unixNano isZero s) = Some (ret 0)"
| "xc_B_cases E (VDuration v) = Some (ret 0)"
| "xc_B_cases E _ = None"

definition xc_B_nils :: "gty \<Rightarrow> 64 word go option" where
  "xc_B_nils t =
     (if t \<in> {TBool, TTime, TDuration} then Some (ret 0) else panics_on (real_types @ [TString, TBytes]) t)"

fun xc_B_kind :: "conv_env \<Rightarrow> gval \<Rightarrow> 64 word go" where
  "xc_B_kind E (VString s) = xc_toB E s"
| "xc_B_kind E (VUintptr v) = ret (ce_u2f E v)"
| "xc_B_kind E (VUnsafePointer v) = ret (ce_u2f E v)"
| "xc_B_kind E (VInt v) = ret (ce_i2f E v)"
| "xc_B_kind E (VInt8 v) = ret (ce_i2f E (scast v))"
| "xc_B_kind E (VInt16 v) = ret (ce_i2f E (scast v))"
| "xc_B_kind E (VInt32 v) = ret (ce_i2f E (scast v))"
| "xc_B_kind E (VInt64 v) = ret (ce_i2f E v)"
| "xc_B_kind E (VDuration v) = ret (ce_i2f E v)"
| "xc_B_kind E (VUint v) = ret (ce_u2f E v)"
| "xc_B_kind E (VUint8 v) = ret (ce_u2f E (ucast v))"
| "xc_B_kind E (VUint16 v) = ret (ce_u2f E (ucast v))"
| "xc_B_kind E (VUint32 v) = ret (ce_u2f E (ucast v))"
| "xc_B_kind E (VUint64 v) = ret (ce_u2f E v)"
| "xc_B_kind E (VFloat32 v) = ret (ce_widen E v)"
| "xc_B_kind E (VFloat64 v) = ret v"
| "xc_B_kind E (VComplex64 r i) = ret (ce_widen E r)"
| "xc_B_kind E (VComplex128 r i) = ret r"
| "xc_B_kind E _ = ret 0"

definition xc_B :: "conv_env \<Rightarrow> gval \<Rightarrow> 64 word go" where
  "xc_B E val = type_switch (xc_B_cases E) xc_B_nils (by_kind (ret 0) (xc_B_kind E)) val"

subsection \<open>\<open>Duration\<close>\<close>

fun xc_Duration_cases :: "conv_env \<Rightarrow> gval \<Rightarrow> 64 word go option" where
  "xc_Duration_cases E (VInt v) = Some (ret v)"
| "xc_Duration_cases E (VInt8 v) = Some (ret (scast v))"
| "xc_Duration_cases E (VInt16 v) = Some (ret (scast v))"
| "xc_Duration_cases E (VInt32 v) = Some (ret (scast v))"
| "xc_Duration_cases E (VInt64 v) = Some (ret v)"
| "xc_Duration_cases E (VUint v) = Some (ret v)"
| "xc_Duration_cases E (VUint8 v) = Some (ret (ucast v))"
| "xc_Duration_cases E (VUint16 v) = Some (ret (ucast v))"
| "xc_Duration_cases E (VUint32 v) = Some (ret (ucast v))"
| "xc_Duration_cases E (VUint64 v) = Some (ret v)"
| "xc_Duration_cases E (VFloat32 v) = Some (ret (ce_f2i E (ce_widen E v)))"
| "xc_Duration_cases E (VFloat64 v) = Some (ret (ce_f2i E v))"
| "xc_Duration_cases E (VComplex64 r i) = Some (ret (ce_f2i E (ce_widen E r)))"
| "xc_Duration_cases E (VComplex128 r i) = Some (ret (ce_f2i E r))"
| "xc_Duration_cases E (VBool v) = Some (ret 0)"
| "xc_Duration_cases E (VString s) = Some (ret (ce_toDuration E s))"
| "xc_Duration_cases E (VSlice t es) = (if t = TUint8 then Some (ret (ce_toDuration E (slice_bytes es))) else None)"
| "xc_Duration_cases E (VTime unixNano isZero s) = Some (ret unixNano)"
| "xc_Duration_cases E (VDuration v) = Some (ret v)"
| "xc_Duration_cases E _ = None"

definition xc_Duration_nils :: "gty \<Rightarrow> 64 word go option" where
  "xc_Duration_nils t =
     (if t = TBool then Some (ret 0) else panics_on (real_types @ [TString, TBytes, TTime, TDuration]) t)"

fun xc_Duration_kind :: "conv_env \<Rightarrow> gval \<Rightarrow> 64 word" where
  "xc_Duration_kind E (VString s) = ce_toDuration E s"
| "xc_Duration_kind E (VUintptr v) = v"
| "xc_Duration_kind E (VUnsafePointer v) = v"
| "xc_Duration_kind E (VInt v) = v"
| "xc_Duration_kind E (VInt8 v) = scast v"
| "xc_Duration_kind E (VInt16 v) = scast v"
| "xc_Duration_kind E (VInt32 v) = scast v"
| "xc_Duration_kind E (VInt64 v) = v"
| "xc_Duration_kind E (VDuration v) = v"
| "xc_Duration_kind E (VUint v) = v"
| "xc_Duration_kind E (VUint8 v) = ucast v"
| "xc_Duration_kind E (VUint16 v) = ucast v"
| "xc_Duration_kind E (VUint32 v) = ucast v"
| "xc_Duration_kind E (VUint64 v) = v"
| "xc_Duration_kind E (VFloat32 v) = ce_f2i E (ce_widen E v)"
| "xc_Duration_kind E (VFloat64 v) = ce_f2i E v"
| "xc_Duration_kind E (VComplex64 r i) = ce_f2i E (ce_widen E r)"
| "xc_Duration_kind E (VComplex128 r i) = ce_f2i E r"
| "xc_Duration_kind E _ = 0"

definition xc_Duration :: "conv_env \<Rightarrow> gval \<Rightarrow> 64 word go" where
  "xc_Duration E val =
     (if val = VNil then ret 0
      else type_switch (xc_Duration_cases E) xc_Duration_nils
             (\<lambda>v. ret (by_kind 0 (xc_Duration_kind E) v)) val)"

subsection \<open>\<open>Json\<close> and \<open>Anys\<close>\<close>

definition isJson :: "byte list \<Rightarrow> bool" where
  "isJson s \<longleftrightarrow> length s \<ge> 2 \<and> (hd s = 123 \<and> last s = 125 \<or> hd s = 91 \<and> last s = 93)"

fun xc_Json_cases :: "gval \<Rightarrow> byte list go option" where
  "xc_Json_cases (VString s) = Some (ret (if isJson s then s else []))"
| "xc_Json_cases (VSlice t es) =
     (if t = TUint8 then Some (ret (if isJson (slice_bytes es) then slice_bytes es else [])) else None)"
| "xc_Json_cases _ = None"

definition json_or_empty :: "conv_env \<Rightarrow> gval \<Rightarrow> byte list" where
  "json_or_empty E val = (case ce_Marshal E val of None \<Rightarrow> [] | Some b \<Rightarrow> b)"

fun xc_Json_kind :: "conv_env \<Rightarrow> gval \<Rightarrow> gval \<Rightarrow> byte list" where
  "xc_Json_kind E val (VString s) = (if isJson s then s else [])"
| "xc_Json_kind E val (VMap n m) = json_or_empty E val"
| "xc_Json_kind E val (VArray xs) = json_or_empty E val"
| "xc_Json_kind E val (VSlice t es) = json_or_empty E val"
| "xc_Json_kind E val (VStruct m) = json_or_empty E val"
| "xc_Json_kind E val (VTime unixNano isZero s) = json_or_empty E val"
| "xc_Json_kind E val _ = []"

definition xc_Json :: "conv_env \<Rightarrow> gval \<Rightarrow> byte list go" where
  "xc_Json E val =
     type_switch xc_Json_cases (panics_on [TString, TBytes]) (\<lambda>v. ret (by_kind [] (xc_Json_kind E v) v)) val"

definition xc_Anys :: "gval \<Rightarrow> gval list" where
  "xc_Anys val =
     (case reflect_Value val of Some (VSlice t es) \<Rightarrow> elems es | Some (VArray xs) \<Rightarrow> xs | _ \<Rightarrow> [])"

end
