(* ===== verification/XconvTables.thy ===== *)
theory XconvTables
  imports Xconv
begin

section \<open>The slice conversions\<close>

text \<open>
  The slice conversions of src/utils/xconv (\<open>Ints\<close>, \<open>Uint8s\<close>, \<open>Strings\<close> and so on).  Each is a type switch
  with a case for \<open>[]T\<close> and one for \<open>*[]T\<close>, for 18 element types \<open>T\<close>, and a default branch that
  converts the elements of any other slice or array by reflection.  \<open>xc_Ints_of\<close> is the table of the
  cases \<open>[]T\<close> of \<open>Ints\<close>, \<open>xc_Ints_at\<close> that of the cases \<open>*[]T\<close>, one line for each case; \<open>map_go\<close> is the
  loop of a case over the elements.  A nil slice and an empty one are the empty list; that a
  slice returned as it is shares its array with the argument is not modelled.
\<close>

text \<open>
  The switch: \<open>vals\<close> and \<open>ptrs\<close> are the tables, \<open>dflt\<close> is the default branch; a nil pointer to
  a listed slice type panics where its case reads it.
\<close>

definition slice_switch ::
  "(gty \<Rightarrow> gval list \<Rightarrow> 'a list go option) \<Rightarrow> (gty \<Rightarrow> gval list \<Rightarrow> 'a list go option) \<Rightarrow>
   (gval \<Rightarrow> 'a list go) \<Rightarrow> gval \<Rightarrow> 'a list go" where
  "slice_switch vals ptrs dflt val =
     (case (case val of
              VSlice t es \<Rightarrow> vals t (elems es)
            | VPtr (VSlice t es) \<Rightarrow> ptrs t (elems es)
            | VNilPtr (TSlice t) \<Rightarrow> map_option (\<lambda>_. panic) (ptrs t [])
            | _ \<Rightarrow> None) of
        Some r \<Rightarrow> r
      | None \<Rightarrow> dflt val)"

definition slice_kind :: "(gval \<Rightarrow> 'a go) \<Rightarrow> gval \<Rightarrow> 'a list go" where
  "slice_kind conv v =
     (case v of VSlice t es \<Rightarrow> map_go conv (elems es) | VArray xs \<Rightarrow> map_go conv xs | _ \<Rightarrow> ret [])"

text \<open>The element of a typed slice; other values do not occur in it.\<close>

fun the_VInt :: "gval \<Rightarrow> 64 word" where
  "the_VInt (VInt v) = v"
| "the_VInt _ = 0"

fun the_VInt8 :: "gval \<Rightarrow> 8 word" where
  "the_VInt8 (VInt8 v) = v"
| "the_VInt8 _ = 0"

fun the_VInt16 :: "gval \<Rightarrow> 16 word" where
  "the_VInt16 (VInt16 v) = v"
| "the_VInt16 _ = 0"

fun the_VInt32 :: "gval \<Rightarrow> 32 word" where
  "the_VInt32 (VInt32 v) = v"
| "the_VInt32 _ = 0"

fun the_VInt64 :: "gval \<Rightarrow> 64 word" where
  "the_VInt64 (VInt64 v) = v"
| "the_VInt64 _ = 0"

fun the_VUint8 :: "gval \<Rightarrow> 8 word" where
  "the_VUint8 (VUint8 v) = v"
| "the_VUint8 _ = 0"

fun the_VUint16 :: "gval \<Rightarrow> 16 word" where
  "the_VUint16 (VUint16 v) = v"
| "the_VUint16 _ = 0"

fun the_VUint32 :: "gval \<Rightarrow> 32 word" where
  "the_VUint32 (VUint32 v) = v"
| "the_VUint32 _ = 0"

fun the_VUint64 :: "gval \<Rightarrow> 64 word" where
  "the_VUint64 (VUint64 v) = v"
| "the_VUint64 _ = 0"

fun the_VFloat32 :: "gval \<Rightarrow> 32 word" where
  "the_VFloat32 (VFloat32 v) = v"
| "the_VFloat32 _ = 0"

fun the_VFloat64 :: "gval \<Rightarrow> 64 word" where
  "the_VFloat64 (VFloat64 v) = v"
| "the_VFloat64 _ = 0"

fun the_VBool :: "gval \<Rightarrow> bool" where
  "the_VBool (VBool v) = v"
| "the_VBool _ = False"

fun the_VString :: "gval \<Rightarrow> byte list" where
  "the_VString (VString v) = v"
| "the_VString _ = []"

subsection \<open>The conversions\<close>

definition xc_Ints_of :: "conv_env \<Rightarrow> gty \<Rightarrow> gval list \<Rightarrow> 64 word list go option" where
  "xc_Ints_of E t v =
     (case t of
        TInt \<Rightarrow> Some (ret (map the_VInt v))
      | TInt8 \<Rightarrow> Some (map_go (xc_Int E) v)
      | TInt16 \<Rightarrow> Some (map_go (xc_Int E) v)
      | TInt32 \<Rightarrow> Some (map_go (xc_Int E) v)
      | TInt64 \<Rightarrow> Some (map_go (xc_Int E) v)
      | TUint \<Rightarrow> Some (map_go (xc_Int E) v)
      | TUint8 \<Rightarrow> Some (map_go (xc_Int E) v)
      | TUint16 \<Rightarrow> Some (map_go (xc_Int E) v)
      | TUint32 \<Rightarrow> Some (map_go (xc_Int E) v)
      | TUint64 \<Rightarrow> Some (map_go (xc_Int E) v)
      | TFloat32 \<Rightarrow> Some (map_go (xc_Int E) v)
      | TFloat64 \<Rightarrow> Some (map_go (xc_Int E) v)
      | TComplex64 \<Rightarrow> Some (map_go (xc_Int E) v)
      | TComplex128 \<Rightarrow> Some (map_go (xc_Int E) v)
      | TString \<Rightarrow> Some (map_go (xc_Int E) v)
      | TBool \<Rightarrow> Some (map_go (xc_Int E) v)
      | TAny \<Rightarrow> Some (map_go (xc_Int E) v)
      | TSlice TUint8 \<Rightarrow> Some (map_go (xc_Int E) v)
      | _ \<Rightarrow> None)"

definition xc_Ints_at :: "conv_env \<Rightarrow> gty \<Rightarrow> gval list \<Rightarrow> 64 word list go option" where
  "xc_Ints_at E t v =
     (case t of
        TInt \<Rightarrow> Some (ret (map the_VInt v))
      | TInt8 \<Rightarrow> Some (map_go (xc_Int E) v)
      | TInt16 \<Rightarrow> Some (map_go (xc_Int E) v)
      | TInt32 \<Rightarrow> Some (map_go (xc_Int E) v)
      | TInt64 \<Rightarrow> Some (map_go (xc_Int E) v)
      | TUint \<Rightarrow> Some (map_go (xc_Int E) v)
      | TUint8 \<Rightarrow> Some (map_go (xc_Int E) v)
      | TUint16 \<Rightarrow> Some (map_go (xc_Int E) v)
      | TUint32 \<Rightarrow> Some (map_go (xc_Int E) v)
      | TUint64 \<Rightarrow> Some (map_go (xc_Int E) v)
      | TFloat32 \<Rightarrow> Some (map_go (xc_Int E) v)
      | TFloat64 \<Rightarrow> Some (map_go (xc_Int E) v)
      | TComplex64 \<Rightarrow> Some (map_go (xc_Int E) v)
      | TComplex128 \<Rightarrow> Some (map_go (xc_Int E) v)
      | TString \<Rightarrow> Some (map_go (xc_Int E) v)
      | TBool \<Rightarrow> Some (map_go (xc_Int E) v)
      | TAny \<Rightarrow> Some (map_go (xc_Int E) v)
      | TSlice TUint8 \<Rightarrow> Some (map_go (xc_Int E) v)
      | _ \<Rightarrow> None)"

definition xc_Ints :: "conv_env \<Rightarrow> gval \<Rightarrow> 64 word list go" where
  "xc_Ints E val =
     (if val = VNil then ret []
      else slice_switch (xc_Ints_of E) (xc_Ints_at E) (by_kind (ret []) (slice_kind (xc_Int E))) val)"

definition xc_Int8s_of :: "conv_env \<Rightarrow> gty \<Rightarrow> gval list \<Rightarrow> 8 word list go option" where
  "xc_Int8s_of E t v =
     (case t of
        TInt \<Rightarrow> Some (map_go (xc_Int8 E) v)
      | TInt8 \<Rightarrow> Some (ret (map the_VInt8 v))
      | TInt16 \<Rightarrow> Some (map_go (xc_Int8 E) v)
      | TInt32 \<Rightarrow> Some (map_go (xc_Int8 E) v)
      | TInt64 \<Rightarrow> Some (map_go (xc_Int8 E) v)
      | TUint \<Rightarrow> Some (map_go (xc_Int8 E) v)
      | TUint8 \<Rightarrow> Some (map_go (xc_Int8 E) v)
      | TUint16 \<Rightarrow> Some (map_go (xc_Int8 E) v)
      | TUint32 \<Rightarrow> Some (map_go (xc_Int8 E) v)
      | TUint64 \<Rightarrow> Some (map_go (xc_Int8 E) v)
      | TFloat32 \<Rightarrow> Some (map_go (xc_Int8 E) v)
      | TFloat64 \<Rightarrow> Some (map_go (xc_Int8 E) v)
      | TComplex64 \<Rightarrow> Some (map_go (xc_Int8 E) v)
      | TComplex128 \<Rightarrow> Some (map_go (xc_Int8 E) v)
      | TString \<Rightarrow> Some (map_go (xc_Int8 E) v)
      | TBool \<Rightarrow> Some (map_go (xc_Int8 E) v)
      | TAny \<Rightarrow> Some (map_go (xc_Int8 E) v)
      | TSlice TUint8 \<Rightarrow> Some (map_go (xc_Int8 E) v)
      | _ \<Rightarrow> None)"

definition xc_Int8s_at :: "conv_env \<Rightarrow> gty \<Rightarrow> gval list \<Rightarrow> 8 word list go option" where
  "xc_Int8s_at E t v =
     (case t of
        TInt \<Rightarrow> Some (map_go (xc_Int8 E) v)
      | TInt8 \<Rightarrow> Some (ret (map the_VInt8 v))
      | TInt16 \<Rightarrow> Some (map_go (xc_Int8 E) v)
      | TInt32 \<Rightarrow> Some (map_go (xc_Int8 E) v)
      | TInt64 \<Rightarrow> Some (map_go (xc_Int8 E) v)
      | TUint \<Rightarrow> Some (map_go (xc_Int8 E) v)
      | TUint8 \<Rightarrow> Some (map_go (xc_Int8 E) v)
      | TUint16 \<Rightarrow> Some (map_go (xc_Int8 E) v)
      | TUint32 \<Rightarrow> Some (map_go (xc_Int8 E) v)
      | TUint64 \<Rightarrow> Some (map_go (xc_Int8 E) v)
      | TFloat32 \<Rightarrow> Some (map_go (xc_Int8 E) v)
      | TFloat64 \<Rightarrow> Some (map_go (xc_Int8 E) v)
      | TComplex64 \<Rightarrow> Some (map_go (xc_Int8 E) v)
      | TComplex128 \<Rightarrow> Some (map_go (xc_Int8 E) v)
      | TString \<Rightarrow> Some (map_go (xc_Int8 E) v)
      | TBool \<Rightarrow> Some (map_go (xc_Int8 E) v)
      | TAny \<Rightarrow> Some (map_go (xc_Int8 E) v)
      | TSlice TUint8 \<Rightarrow> Some (map_go (xc_Int8 E) v)
      | _ \<Rightarrow> None)"

definition xc_Int8s :: "conv_env \<Rightarrow> gval \<Rightarrow> 8 word list go" where
  "xc_Int8s E val =
     (if val = VNil then ret []
      else slice_switch (xc_Int8s_of E) (xc_Int8s_at E) (by_kind (ret []) (slice_kind (xc_Int8 E))) val)"

definition xc_Int16s_of :: "conv_env \<Rightarrow> gty \<Rightarrow> gval list \<Rightarrow> 16 word list go option" where
  "xc_Int16s_of E t v =
     (case t of
        TInt \<Rightarrow> Some (map_go (xc_Int16 E) v)
      | TInt8 \<Rightarrow> Some (map_go (xc_Int16 E) v)
      | TInt16 \<Rightarrow> Some (ret (map the_VInt16 v))
      | TInt32 \<Rightarrow> Some (map_go (xc_Int16 E) v)
      | TInt64 \<Rightarrow> Some (map_go (xc_Int16 E) v)
      | TUint \<Rightarrow> Some (map_go (xc_Int16 E) v)
      | TUint8 \<Rightarrow> Some (map_go (xc_Int16 E) v)
      | TUint16 \<Rightarrow> Some (map_go (xc_Int16 E) v)
      | TUint32 \<Rightarrow> Some (map_go (xc_Int16 E) v)
      | TUint64 \<Rightarrow> Some (map_go (xc_Int16 E) v)
      | TFloat32 \<Rightarrow> Some (map_go (xc_Int16 E) v)
      | TFloat64 \<Rightarrow> Some (map_go (xc_Int16 E) v)
      | TComplex64 \<Rightarrow> Some (map_go (xc_Int16 E) v)
      | TComplex128 \<Rightarrow> Some (map_go (xc_Int16 E) v)
      | TString \<Rightarrow> Some (map_go (xc_Int16 E) v)
      | TBool \<Rightarrow> Some (map_go (xc_Int16 E) v)
      | TAny \<Rightarrow> Some (map_go (xc_Int16 E) v)
      | TSlice TUint8 \<Rightarrow> Some (map_go (xc_Int16 E) v)
      | _ \<Rightarrow> None)"

definition xc_Int16s_at :: "conv_env \<Rightarrow> gty \<Rightarrow> gval list \<Rightarrow> 16 word list go option" where
  "xc_Int16s_at E t v =
     (case t of
        TInt \<Rightarrow> Some (map_go (xc_Int16 E) v)
      | TInt8 \<Rightarrow> Some (map_go (xc_Int16 E) v)
      | TInt16 \<Rightarrow> Some (ret (map the_VInt16 v))
      | TInt32 \<Rightarrow> Some (map_go (xc_Int16 E) v)
      | TInt64 \<Rightarrow> Some (map_go (xc_Int16 E) v)
      | TUint \<Rightarrow> Some (map_go (xc_Int16 E) v)
      | TUint8 \<Rightarrow> Some (map_go (xc_Int16 E) v)
      | TUint16 \<Rightarrow> Some (map_go (xc_Int16 E) v)
      | TUint32 \<Rightarrow> Some (map_go (xc_Int16 E) v)
      | TUint64 \<Rightarrow> Some (map_go (xc_Int16 E) v)
      | TFloat32 \<Rightarrow> Some (map_go (xc_Int16 E) v)
      | TFloat64 \<Rightarrow> Some (map_go (xc_Int16 E) v)
      | TComplex64 \<Rightarrow> Some (map_go (xc_Int16 E) v)
      | TComplex128 \<Rightarrow> Some (map_go (xc_Int16 E) v)
      | TString \<Rightarrow> Some (map_go (xc_Int16 E) v)
      | TBool \<Rightarrow> Some (map_go (xc_Int16 E) v)
      | TAny \<Rightarrow> Some (map_go (xc_Int16 E) v)
      | TSlice TUint8 \<Rightarrow> Some (map_go (xc_Int16 E) v)
      | _ \<Rightarrow> None)"

definition xc_Int16s :: "conv_env \<Rightarrow> gval \<Rightarrow> 16 word list go" where
  "xc_Int16s E val =
     (if val = VNil then ret []
      else slice_switch (xc_Int16s_of E) (xc_Int16s_at E) (by_kind (ret []) (slice_kind (xc_Int16 E))) val)"

definition xc_Int32s_of :: "conv_env \<Rightarrow> gty \<Rightarrow> gval list \<Rightarrow> 32 word list go option" where
  "xc_Int32s_of E t v =
     (case t of
        TInt \<Rightarrow> Some (map_go (xc_Int32 E) v)
      | TInt8 \<Rightarrow> Some (map_go (xc_Int32 E) v)
      | TInt16 \<Rightarrow> Some (map_go (xc_Int32 E) v)
      | TInt32 \<Rightarrow> Some (ret (map the_VInt32 v))
      | TInt64 \<Rightarrow> Some (map_go (xc_Int32 E) v)
      | TUint \<Rightarrow> Some (map_go (xc_Int32 E) v)
      | TUint8 \<Rightarrow> Some (map_go (xc_Int32 E) v)
      | TUint16 \<Rightarrow> Some (map_go (xc_Int32 E) v)
      | TUint32 \<Rightarrow> Some (map_go (xc_Int32 E) v)
      | TUint64 \<Rightarrow> Some (map_go (xc_Int32 E) v)
      | TFloat32 \<Rightarrow> Some (map_go (xc_Int32 E) v)
      | TFloat64 \<Rightarrow> Some (map_go (xc_Int32 E) v)
      | TComplex64 \<Rightarrow> Some (map_go (xc_Int32 E) v)
      | TComplex128 \<Rightarrow> Some (map_go (xc_Int32 E) v)
      | TString \<Rightarrow> Some (map_go (xc_Int32 E) v)
      | TBool \<Rightarrow> Some (map_go (xc_Int32 E) v)
      | TAny \<Rightarrow> Some (map_go (xc_Int32 E) v)
      | TSlice TUint8 \<Rightarrow> Some (map_go (xc_Int32 E) v)
      | _ \<Rightarrow> None)"

definition xc_Int32s_at :: "conv_env \<Rightarrow> gty \<Rightarrow> gval list \<Rightarrow> 32 word list go option" where
  "xc_Int32s_at E t v =
     (case t of
        TInt \<Rightarrow> Some (map_go (xc_Int32 E) v)
      | TInt8 \<Rightarrow> Some (map_go (xc_Int32 E) v)
      | TInt16 \<Rightarrow> Some (map_go (xc_Int32 E) v)
      | TInt32 \<Rightarrow> Some (ret (map the_VInt32 v))
      | TInt64 \<Rightarrow> Some (map_go (xc_Int32 E) v)
      | TUint \<Rightarrow> Some (map_go (xc_Int32 E) v)
      | TUint8 \<Rightarrow> Some (map_go (xc_Int32 E) v)
      | TUint16 \<Rightarrow> Some (map_go (xc_Int32 E) v)
      | TUint32 \<Rightarrow> Some (map_go (xc_Int32 E) v)
      | TUint64 \<Rightarrow> Some (map_go (xc_Int32 E) v)
      | TFloat32 \<Rightarrow> Some (map_go (xc_Int32 E) v)
      | TFloat64 \<Rightarrow> Some (map_go (xc_Int32 E) v)
      | TComplex64 \<Rightarrow> Some (map_go (xc_Int32 E) v)
      | TComplex128 \<Rightarrow> Some (map_go (xc_Int32 E) v)
      | TString \<Rightarrow> Some (map_go (xc_Int32 E) v)
      | TBool \<Rightarrow> Some (map_go (xc_Int32 E) v)
      | TAny \<Rightarrow> Some (map_go (xc_Int32 E) v)
      | TSlice TUint8 \<Rightarrow> Some (map_go (xc_Int32 E) v)
      | _ \<Rightarrow> None)"

definition xc_Int32s :: "conv_env \<Rightarrow> gval \<Rightarrow> 32 word list go" where
  "xc_Int32s E val =
     (if val = VNil then ret []
      else slice_switch (xc_Int32s_of E) (xc_Int32s_at E) (by_kind (ret []) (slice_kind (xc_Int32 E))) val)"

definition xc_Int64s_of :: "conv_env \<Rightarrow> gty \<Rightarrow> gval list \<Rightarrow> 64 word list go option" where
  "xc_Int64s_of E t v =
     (case t of
        TInt \<Rightarrow> Some (map_go (xc_Int64 E) v)
      | TInt8 \<Rightarrow> Some (map_go (xc_Int64 E) v)
      | TInt16 \<Rightarrow> Some (map_go (xc_Int64 E) v)
      | TInt32 \<Rightarrow> Some (map_go (xc_Int64 E) v)
      | TInt64 \<Rightarrow> Some (ret (map the_VInt64 v))
      | TUint \<Rightarrow> Some (map_go (xc_Int64 E) v)
      | TUint8 \<Rightarrow> Some (map_go (xc_Int64 E) v)
      | TUint16 \<Rightarrow> Some (map_go (xc_Int64 E) v)
      | TUint32 \<Rightarrow> Some (map_go (xc_Int64 E) v)
      | TUint64 \<Rightarrow> Some (map_go (xc_Int64 E) v)
      | TFloat32 \<Rightarrow> Some (map_go (xc_Int64 E) v)
      | TFloat64 \<Rightarrow> Some (map_go (xc_Int64 E) v)
      | TComplex64 \<Rightarrow> Some (map_go (xc_Int64 E) v)
      | TComplex128 \<Rightarrow> Some (map_go (xc_Int64 E) v)
      | TString \<Rightarrow> Some (map_go (xc_Int64 E) v)
      | TBool \<Rightarrow> Some (map_go (xc_Int64 E) v)
      | TAny \<Rightarrow> Some (map_go (xc_Int64 E) v)
      | TSlice TUint8 \<Rightarrow> Some (map_go (xc_Int64 E) v)
      | _ \<Rightarrow> None)"

definition xc_Int64s_at :: "conv_env \<Rightarrow> gty \<Rightarrow> gval list \<Rightarrow> 64 word list go option" where
  "xc_Int64s_at E t v =
     (case t of
        TInt \<Rightarrow> Some (map_go (xc_Int64 E) v)
      | TInt8 \<Rightarrow> Some (map_go (xc_Int64 E) v)
      | TInt16 \<Rightarrow> Some (map_go (xc_Int64 E) v)
      | TInt32 \<Rightarrow> Some (map_go (xc_Int64 E) v)
      | TInt64 \<Rightarrow> Some (ret (map the_VInt64 v))
      | TUint \<Rightarrow> Some (map_go (xc_Int64 E) v)
      | TUint8 \<Rightarrow> Some (map_go (xc_Int64 E) v)
      | TUint16 \<Rightarrow> Some (map_go (xc_Int64 E) v)
      | TUint32 \<Rightarrow> Some (map_go (xc_Int64 E) v)
      | TUint64 \<Rightarrow> Some (map_go (xc_Int64 E) v)
      | TFloat32 \<Rightarrow> Some (map_go (xc_Int64 E) v)
      | TFloat64 \<Rightarrow> Some (map_go (xc_Int64 E) v)
      | TComplex64 \<Rightarrow> Some (map_go (xc_Int64 E) v)
      | TComplex128 \<Rightarrow> Some (map_go (xc_Int64 E) v)
      | TString \<Rightarrow> Some (map_go (xc_Int64 E) v)
      | TBool \<Rightarrow> Some (map_go (xc_Int64 E) v)
      | TAny \<Rightarrow> Some (map_go (xc_Int64 E) v)
      | TSlice TUint8 \<Rightarrow> Some (map_go (xc_Int64 E) v)
      | _ \<Rightarrow> None)"

definition xc_Int64s :: "conv_env \<Rightarrow> gval \<Rightarrow> 64 word list go" where
  "xc_Int64s E val =
     (if val = VNil then ret []
      else slice_switch (xc_Int64s_of E) (xc_Int64s_at E) (by_kind (ret []) (slice_kind (xc_Int64 E))) val)"

definition xc_Uints_of :: "conv_env \<Rightarrow> gty \<Rightarrow> gval list \<Rightarrow> 64 word list go option" where
  "xc_Uints_of E t v =
     (case t of
        TInt \<Rightarrow> Some (map_go (xc_Uint E) v)
      | TInt8 \<Rightarrow> Some (map_go (xc_Uint E) v)
      | TInt16 \<Rightarrow> Some (map_go (xc_Uint E) v)
      | TInt32 \<Rightarrow> Some (map_go (xc_Uint E) v)
      | TInt64 \<Rightarrow> Some (map_go (xc_Uint E) v)
      | TUint \<Rightarrow> Some (map_go (xc_Uint E) v)
      | TUint8 \<Rightarrow> Some (map_go (xc_Uint E) v)
      | TUint16 \<Rightarrow> Some (map_go (xc_Uint E) v)
      | TUint32 \<Rightarrow> Some (map_go (xc_Uint E) v)
      | TUint64 \<Rightarrow> Some (map_go (xc_Uint E) v)
      | TFloat32 \<Rightarrow> Some (map_go (xc_Uint E) v)
      | TFloat64 \<Rightarrow> Some (map_go (xc_Uint E) v)
      | TComplex64 \<Rightarrow> Some (map_go (xc_Uint E) v)
      | TComplex128 \<Rightarrow> Some (map_go (xc_Uint E) v)
      | TString \<Rightarrow> Some (map_go (xc_Uint E) v)
      | TBool \<Rightarrow> Some (map_go (xc_Uint E) v)
      | TAny \<Rightarrow> Some (map_go (xc_Uint E) v)
      | TSlice TUint8 \<Rightarrow> Some (map_go (xc_Uint E) v)
      | _ \<Rightarrow> None)"

definition xc_Uints_at :: "conv_env \<Rightarrow> gty \<Rightarrow> gval list \<Rightarrow> 64 word list go option" where
  "xc_Uints_at E t v =
     (case t of
        TInt \<Rightarrow> Some (map_go (xc_Uint E) v)
      | TInt8 \<Rightarrow> Some (map_go (xc_Uint E) v)
      | TInt16 \<Rightarrow> Some (map_go (xc_Uint E) v)
      | TInt32 \<Rightarrow> Some (map_go (xc_Uint E) v)
      | TInt64 \<Rightarrow> Some (map_go (xc_Uint E) v)
      | TUint \<Rightarrow> Some (map_go (xc_Uint E) v)
      | TUint8 \<Rightarrow> Some (map_go (xc_Uint E) v)
      | TUint16 \<Rightarrow> Some (map_go (xc_Uint E) v)
      | TUint32 \<Rightarrow> Some (map_go (xc_Uint E) v)
      | TUint64 \<Rightarrow> Some (map_go (xc_Uint E) v)
      | TFloat32 \<Rightarrow> Some (map_go (xc_Uint E) v)
      | TFloat64 \<Rightarrow> Some (map_go (xc_Uint E) v)
      | TComplex64 \<Rightarrow> Some (map_go (xc_Uint E) v)
      | TComplex128 \<Rightarrow> Some (map_go (xc_Uint E) v)
      | TString \<Rightarrow> Some (map_go (xc_Uint E) v)
      | TBool \<Rightarrow> Some (map_go (xc_Uint E) v)
      | TAny \<Rightarrow> Some (map_go (xc_Uint E) v)
      | TSlice TUint8 \<Rightarrow> Some (map_go (xc_Uint E) v)
      | _ \<Rightarrow> None)"

definition xc_Uints :: "conv_env \<Rightarrow> gval \<Rightarrow> 64 word list go" where
  "xc_Uints E val =
     (if val = VNil then ret []
      else slice_switch (xc_Uints_of E) (xc_Uints_at E) (by_kind (ret []) (slice_kind (xc_Uint E))) val)"

definition xc_Uint8s_of :: "conv_env \<Rightarrow> gty \<Rightarrow> gval list \<Rightarrow> 8 word list go option" where
  "xc_Uint8s_of E t v =
     (case t of
        TInt \<Rightarrow> Some (map_go (xc_Uint8 E) v)
      | TInt8 \<Rightarrow> Some (map_go (xc_Uint8 E) v)
      | TInt16 \<Rightarrow> Some (map_go (xc_Uint8 E) v)
      | TInt32 \<Rightarrow> Some (map_go (xc_Uint8 E) v)
      | TInt64 \<Rightarrow> Some (map_go (xc_Uint8 E) v)
      | TUint \<Rightarrow> Some (map_go (xc_Uint8 E) v)
      | TUint8 \<Rightarrow> Some (ret (map the_VUint8 v))
      | TUint16 \<Rightarrow> Some (map_go (xc_Uint8 E) v)
      | TUint32 \<Rightarrow> Some (map_go (xc_Uint8 E) v)
      | TUint64 \<Rightarrow> Some (map_go (xc_Uint8 E) v)
      | TFloat32 \<Rightarrow> Some (map_go (xc_Uint8 E) v)
      | TFloat64 \<Rightarrow> Some (map_go (xc_Uint8 E) v)
      | TComplex64 \<Rightarrow> Some (map_go (xc_Uint8 E) v)
      | TComplex128 \<Rightarrow> Some (map_go (xc_Uint8 E) v)
      | TString \<Rightarrow> Some (map_go (xc_Uint8 E) v)
      | TBool \<Rightarrow> Some (map_go (xc_Uint8 E) v)
      | TAny \<Rightarrow> Some (map_go (xc_Uint8 E) v)
      | TSlice TUint8 \<Rightarrow> Some (map_go (xc_Uint8 E) v)
      | _ \<Rightarrow> None)"

definition xc_Uint8s_at :: "conv_env \<Rightarrow> gty \<Rightarrow> gval list \<Rightarrow> 8 word list go option" where
  "xc_Uint8s_at E t v =
     (case t of
        TInt \<Rightarrow> Some (map_go (xc_Uint8 E) v)
      | TInt8 \<Rightarrow> Some (map_go (xc_Uint8 E) v)
      | TInt16 \<Rightarrow> Some (map_go (xc_Uint8 E) v)
      | TInt32 \<Rightarrow> Some (map_go (xc_Uint8 E) v)
      | TInt64 \<Rightarrow> Some (map_go (xc_Uint8 E) v)
      | TUint \<Rightarrow> Some (map_go (xc_Uint8 E) v)
      | TUint8 \<Rightarrow> Some (ret (map the_VUint8 v))
      | TUint16 \<Rightarrow> Some (map_go (xc_Uint8 E) v)
      | TUint32 \<Rightarrow> Some (map_go (xc_Uint8 E) v)
      | TUint64 \<Rightarrow> Some (map_go (xc_Uint8 E) v)
      | TFloat32 \<Rightarrow> Some (map_go (xc_Uint8 E) v)
      | TFloat64 \<Rightarrow> Some (map_go (xc_Uint8 E) v)
      | TComplex64 \<Rightarrow> Some (map_go (xc_Uint8 E) v)
      | TComplex128 \<Rightarrow> Some (map_go (xc_Uint8 E) v)
      | TString \<Rightarrow> Some (map_go (xc_Uint8 E) v)
      | TBool \<Rightarrow> Some (map_go (xc_Uint8 E) v)
      | TAny \<Rightarrow> Some (map_go (xc_Uint8 E) v)
      | TSlice TUint8 \<Rightarrow> Some (map_go (xc_Uint8 E) v)
      | _ \<Rightarrow> None)"

definition xc_Uint8s :: "conv_env \<Rightarrow> gval \<Rightarrow> 8 word list go" where
  "xc_Uint8s E val =
     (if val = VNil then ret []
      else slice_switch (xc_Uint8s_of E) (xc_Uint8s_at E) (by_kind (ret []) (slice_kind (xc_Uint8 E))) val)"

definition xc_Uint16s_of :: "conv_env \<Rightarrow> gty \<Rightarrow> gval list \<Rightarrow> 16 word list go option" where
  "xc_Uint16s_of E t v =
     (case t of
        TInt \<Rightarrow> Some (map_go (xc_Uint16 E) v)
      | TInt8 \<Rightarrow> Some (map_go (xc_Uint16 E) v)
      | TInt16 \<Rightarrow> Some (map_go (xc_Uint16 E) v)
      | TInt32 \<Rightarrow> Some (map_go (xc_Uint16 E) v)
      | TInt64 \<Rightarrow> Some (map_go (xc_Uint16 E) v)
      | TUint \<Rightarrow> Some (map_go (xc_Uint16 E) v)
      | TUint8 \<Rightarrow> Some (map_go (xc_Uint16 E) v)
      | TUint16 \<Rightarrow> Some (ret (map the_VUint16 v))
      | TUint32 \<Rightarrow> Some (map_go (xc_Uint16 E) v)
      | TUint64 \<Rightarrow> Some (map_go (xc_Uint16 E) v)
      | TFloat32 \<Rightarrow> Some (map_go (xc_Uint16 E) v)
      | TFloat64 \<Rightarrow> Some (map_go (xc_Uint16 E) v)
      | TComplex64 \<Rightarrow> Some (map_go (xc_Uint16 E) v)
      | TComplex128 \<Rightarrow> Some (map_go (xc_Uint16 E) v)
      | TString \<Rightarrow> Some (map_go (xc_Uint16 E) v)
      | TBool \<Rightarrow> Some (map_go (xc_Uint16 E) v)
      | TAny \<Rightarrow> Some (map_go (xc_Uint16 E) v)
      | TSlice TUint8 \<Rightarrow> Some (map_go (xc_Uint16 E) v)
      | _ \<Rightarrow> None)"

definition xc_Uint16s_at :: "conv_env \<Rightarrow> gty \<Rightarrow> gval list \<Rightarrow> 16 word list go option" where
  "xc_Uint16s_at E t v =
     (case t of
        TInt \<Rightarrow> Some (map_go (xc_Uint16 E) v)
      | TInt8 \<Rightarrow> Some (map_go (xc_Uint16 E) v)
      | TInt16 \<Rightarrow> Some (map_go (xc_Uint16 E) v)
      | TInt32 \<Rightarrow> Some (map_go (xc_Uint16 E) v)
      | TInt64 \<Rightarrow> Some (map_go (xc_Uint16 E) v)
      | TUint \<Rightarrow> Some (map_go (xc_Uint16 E) v)
      | TUint8 \<Rightarrow> Some (map_go (xc_Uint16 E) v)
      | TUint16 \<Rightarrow> Some (ret (map the_VUint16 v))
      | TUint32 \<Rightarrow> Some (map_go (xc_Uint16 E) v)
      | TUint64 \<Rightarrow> Some (map_go (xc_Uint16 E) v)
      | TFloat32 \<Rightarrow> Some (map_go (xc_Uint16 E) v)
      | TFloat64 \<Rightarrow> Some (map_go (xc_Uint16 E) v)
      | TComplex64 \<Rightarrow> Some (map_go (xc_Uint16 E) v)
      | TComplex128 \<Rightarrow> Some (map_go (xc_Uint16 E) v)
      | TString \<Rightarrow> Some (map_go (xc_Uint16 E) v)
      | TBool \<Rightarrow> Some (map_go (xc_Uint16 E) v)
      | TAny \<Rightarrow> Some (map_go (xc_Uint16 E) v)
      | TSlice TUint8 \<Rightarrow> Some (map_go (xc_Uint16 E) v)
      | _ \<Rightarrow> None)"

definition xc_Uint16s :: "conv_env \<Rightarrow> gval \<Rightarrow> 16 word list go" where
  "xc_Uint16s E val =
     (if val = VNil then ret []
      else slice_switch (xc_Uint16s_of E) (xc_Uint16s_at E) (by_kind (ret []) (slice_kind (xc_Uint16 E))) val)"

definition xc_Uint32s_of :: "conv_env \<Rightarrow> gty \<Rightarrow> gval list \<Rightarrow> 32 word list go option" where
  "xc_Uint32s_of E t v =
     (case t of
        TInt \<Rightarrow> Some (map_go (xc_Uint32 E) v)
      | TInt8 \<Rightarrow> Some (map_go (xc_Uint32 E) v)
      | TInt16 \<Rightarrow> Some (map_go (xc_Uint32 E) v)
      | TInt32 \<Rightarrow> Some (map_go (xc_Uint32 E) v)
      | TInt64 \<Rightarrow> Some (map_go (xc_Uint32 E) v)
      | TUint \<Rightarrow> Some (map_go (xc_Uint32 E) v)
      | TUint8 \<Rightarrow> Some (map_go (xc_Uint32 E) v)
      | TUint16 \<Rightarrow> Some (map_go (xc_Uint32 E) v)
      | TUint32 \<Rightarrow> Some (ret (map the_VUint32 v))
      | TUint64 \<Rightarrow> Some (map_go (xc_Uint32 E) v)
      | TFloat32 \<Rightarrow> Some (map_go (xc_Uint32 E) v)
      | TFloat64 \<Rightarrow> Some (map_go (xc_Uint32 E) v)
      | TComplex64 \<Rightarrow> Some (map_go (xc_Uint32 E) v)
      | TComplex128 \<Rightarrow> Some (map_go (xc_Uint32 E) v)
      | TString \<Rightarrow> Some (map_go (xc_Uint32 E) v)
      | TBool \<Rightarrow> Some (map_go (xc_Uint32 E) v)
      | TAny \<Rightarrow> Some (map_go (xc_Uint32 E) v)
      | TSlice TUint8 \<Rightarrow> Some (map_go (xc_Uint32 E) v)
      | _ \<Rightarrow> None)"

definition xc_Uint32s_at :: "conv_env \<Rightarrow> gty \<Rightarrow> gval list \<Rightarrow> 32 word list go option" where
  "xc_Uint32s_at E t v =
     (case t of
        TInt \<Rightarrow> Some (map_go (xc_Uint32 E) v)
      | TInt8 \<Rightarrow> Some (map_go (xc_Uint32 E) v)
      | TInt16 \<Rightarrow> Some (map_go (xc_Uint32 E) v)
      | TInt32 \<Rightarrow> Some (map_go (xc_Uint32 E) v)
      | TInt64 \<Rightarrow> Some (map_go (xc_Uint32 E) v)
      | TUint \<Rightarrow> Some (map_go (xc_Uint32 E) v)
      | TUint8 \<Rightarrow> Some (map_go (xc_Uint32 E) v)
      | TUint16 \<Rightarrow> Some (map_go (xc_Uint32 E) v)
      | TUint32 \<Rightarrow> Some (ret (map the_VUint32 v))
      | TUint64 \<Rightarrow> Some (map_go (xc_Uint32 E) v)
      | TFloat32 \<Rightarrow> Some (map_go (xc_Uint32 E) v)
      | TFloat64 \<Rightarrow> Some (map_go (xc_Uint32 E) v)
      | TComplex64 \<Rightarrow> Some (map_go (xc_Uint32 E) v)
      | TComplex128 \<Rightarrow> Some (map_go (xc_Uint32 E) v)
      | TString \<Rightarrow> Some (map_go (xc_Uint32 E) v)
      | TBool \<Rightarrow> Some (map_go (xc_Uint32 E) v)
      | TAny \<Rightarrow> Some (map_go (xc_Uint32 E) v)
      | TSlice TUint8 \<Rightarrow> Some (map_go (xc_Uint32 E) v)
      | _ \<Rightarrow> None)"

definition xc_Uint32s :: "conv_env \<Rightarrow> gval \<Rightarrow> 32 word list go" where
  "xc_Uint32s E val =
     (if val = VNil then ret []
      else slice_switch (xc_Uint32s_of E) (xc_Uint32s_at E) (by_kind (ret []) (slice_kind (xc_Uint32 E))) val)"

definition xc_Uint64s_of :: "conv_env \<Rightarrow> gty \<Rightarrow> gval list \<Rightarrow> 64 word list go option" where
  "xc_Uint64s_of E t v =
     (case t of
        TInt \<Rightarrow> Some (map_go (xc_Uint64 E) v)
      | TInt8 \<Rightarrow> Some (map_go (xc_Uint64 E) v)
      | TInt16 \<Rightarrow> Some (map_go (xc_Uint64 E) v)
      | TInt32 \<Rightarrow> Some (map_go (xc_Uint64 E) v)
      | TInt64 \<Rightarrow> Some (map_go (xc_Uint64 E) v)
      | TUint \<Rightarrow> Some (map_go (xc_Uint64 E) v)
      | TUint8 \<Rightarrow> Some (map_go (xc_Uint64 E) v)
      | TUint16 \<Rightarrow> Some (map_go (xc_Uint64 E) v)
      | TUint32 \<Rightarrow> Some (map_go (xc_Uint64 E) v)
      | TUint64 \<Rightarrow> Some (ret (map the_VUint64 v))
      | TFloat32 \<Rightarrow> Some (map_go (xc_Uint64 E) v)
      | TFloat64 \<Rightarrow> Some (map_go (xc_Uint64 E) v)
      | TComplex64 \<Rightarrow> Some (map_go (xc_Uint64 E) v)
      | TComplex128 \<Rightarrow> Some (map_go (xc_Uint64 E) v)
      | TString \<Rightarrow> Some (map_go (xc_Uint64 E) v)
      | TBool \<Rightarrow> Some (map_go (xc_Uint64 E) v)
      | TAny \<Rightarrow> Some (map_go (xc_Uint64 E) v)
      | TSlice TUint8 \<Rightarrow> Some (map_go (xc_Uint64 E) v)
      | _ \<Rightarrow> None)"

definition xc_Uint64s_at :: "conv_env \<Rightarrow> gty \<Rightarrow> gval list \<Rightarrow> 64 word list go option" where
  "xc_Uint64s_at E t v =
     (case t of
        TInt \<Rightarrow> Some (map_go (xc_Uint64 E) v)
      | TInt8 \<Rightarrow> Some (map_go (xc_Uint64 E) v)
      | TInt16 \<Rightarrow> Some (map_go (xc_Uint64 E) v)
      | TInt32 \<Rightarrow> Some (map_go (xc_Uint64 E) v)
      | TInt64 \<Rightarrow> Some (map_go (xc_Uint64 E) v)
      | TUint \<Rightarrow> Some (map_go (xc_Uint64 E) v)
      | TUint8 \<Rightarrow> Some (map_go (xc_Uint64 E) v)
      | TUint16 \<Rightarrow> Some (map_go (xc_Uint64 E) v)
      | TUint32 \<Rightarrow> Some (map_go (xc_Uint64 E) v)
      | TUint64 \<Rightarrow> Some (map_go (xc_Uint64 E) v)
      | TFloat32 \<Rightarrow> Some (map_go (xc_Uint64 E) v)
      | TFloat64 \<Rightarrow> Some (map_go (xc_Uint64 E) v)
      | TComplex64 \<Rightarrow> Some (map_go (xc_Uint64 E) v)
      | TComplex128 \<Rightarrow> Some (map_go (xc_Uint64 E) v)
      | TString \<Rightarrow> Some (map_go (xc_Uint64 E) v)
      | TBool \<Rightarrow> Some (map_go (xc_Uint64 E) v)
      | TAny \<Rightarrow> Some (map_go (xc_Uint64 E) v)
      | TSlice TUint8 \<Rightarrow> Some (map_go (xc_Uint64 E) v)
      | _ \<Rightarrow> None)"

definition xc_Uint64s :: "conv_env \<Rightarrow> gval \<Rightarrow> 64 word list go" where
  "xc_Uint64s E val =
     (if val = VNil then ret []
      else slice_switch (xc_Uint64s_of E) (xc_Uint64s_at E) (by_kind (ret []) (slice_kind (xc_Uint64 E))) val)"

definition xc_Float32s_of :: "conv_env \<Rightarrow> gty \<Rightarrow> gval list \<Rightarrow> 32 word list go option" where
  "xc_Float32s_of E t v =
     (case t of
        TInt \<Rightarrow> Some (map_go (xc_Float32 E) v)
      | TInt8 \<Rightarrow> Some (map_go (xc_Float32 E) v)
      | TInt16 \<Rightarrow> Some (map_go (xc_Float32 E) v)
      | TInt32 \<Rightarrow> Some (map_go (xc_Float32 E) v)
      | TInt64 \<Rightarrow> Some (map_go (xc_Float32 E) v)
      | TUint \<Rightarrow> Some (map_go (xc_Float32 E) v)
      | TUint8 \<Rightarrow> Some (map_go (xc_Float32 E) v)
      | TUint16 \<Rightarrow> Some (map_go (xc_Float32 E) v)
      | TUint32 \<Rightarrow> Some (map_go (xc_Float32 E) v)
      | TUint64 \<Rightarrow> Some (map_go (xc_Float32 E) v)
      | TFloat32 \<Rightarrow> Some (ret (map the_VFloat32 v))
      | TFloat64 \<Rightarrow> Some (map_go (xc_Float32 E) v)
      | TComplex64 \<Rightarrow> Some (map_go (xc_Float32 E) v)
      | TComplex128 \<Rightarrow> Some (map_go (xc_Float32 E) v)
      | TString \<Rightarrow> Some (map_go (xc_Float32 E) v)
      | TBool \<Rightarrow> Some (map_go (xc_Float32 E) v)
      | TAny \<Rightarrow> Some (map_go (xc_Float32 E) v)
      | TSlice TUint8 \<Rightarrow> Some (map_go (xc_Float32 E) v)
      | _ \<Rightarrow> None)"

definition xc_Float32s_at :: "conv_env \<Rightarrow> gty \<Rightarrow> gval list \<Rightarrow> 32 word list go option" where
  "xc_Float32s_at E t v =
     (case t of
        TInt \<Rightarrow> Some (map_go (xc_Float32 E) v)
      | TInt8 \<Rightarrow> Some (map_go (xc_Float32 E) v)
      | TInt16 \<Rightarrow> Some (map_go (xc_Float32 E) v)
      | TInt32 \<Rightarrow> Some (map_go (xc_Float32 E) v)
      | TInt64 \<Rightarrow> Some (map_go (xc_Float32 E) v)
      | TUint \<Rightarrow> Some (map_go (xc_Float32 E) v)
      | TUint8 \<Rightarrow> Some (map_go (xc_Float32 E) v)
      | TUint16 \<Rightarrow> Some (map_go (xc_Float32 E) v)
      | TUint32 \<Rightarrow> Some (map_go (xc_Float32 E) v)
      | TUint64 \<Rightarrow> Some (map_go (xc_Float32 E) v)
      | TFloat32 \<Rightarrow> Some (ret (map the_VFloat32 v))
      | TFloat64 \<Rightarrow> Some (map_go (xc_Float32 E) v)
      | TComplex64 \<Rightarrow> Some (map_go (xc_Float32 E) v)
      | TComplex128 \<Rightarrow> Some (map_go (xc_Float32 E) v)
      | TString \<Rightarrow> Some (map_go (xc_Float32 E) v)
      | TBool \<Rightarrow> Some (map_go (xc_Float32 E) v)
      | TAny \<Rightarrow> Some (map_go (xc_Float32 E) v)
      | TSlice TUint8 \<Rightarrow> Some (map_go (xc_Float32 E) v)
      | _ \<Rightarrow> None)"

definition xc_Float32s :: "conv_env \<Rightarrow> gval \<Rightarrow> 32 word list go" where
  "xc_Float32s E val =
     (if val = VNil then ret []
      else slice_switch (xc_Float32s_of E) (xc_Float32s_at E) (by_kind (ret []) (slice_kind (xc_Float32 E))) val)"

definition xc_Float64s_of :: "conv_env \<Rightarrow> gty \<Rightarrow> gval list \<Rightarrow> 64 word list go option" where
  "xc_Float64s_of E t v =
     (case t of
        TInt \<Rightarrow> Some (map_go (xc_Float64 E) v)
      | TInt8 \<Rightarrow> Some (map_go (xc_Float64 E) v)
      | TInt16 \<Rightarrow> Some (map_go (xc_Float64 E) v)
      | TInt32 \<Rightarrow> Some (map_go (xc_Float64 E) v)
      | TInt64 \<Rightarrow> Some (map_go (xc_Float64 E) v)
      | TUint \<Rightarrow> Some (map_go (xc_Float64 E) v)
      | TUint8 \<Rightarrow> Some (map_go (xc_Float64 E) v)
      | TUint16 \<Rightarrow> Some (map_go (xc_Float64 E) v)
      | TUint32 \<Rightarrow> Some (map_go (xc_Float64 E) v)
      | TUint64 \<Rightarrow> Some (map_go (xc_Float64 E) v)
      | TFloat32 \<Rightarrow> Some (map_go (xc_Float64 E) v)
      | TFloat64 \<Rightarrow> Some (ret (map the_VFloat64 v))
      | TComplex64 \<Rightarrow> Some (map_go (xc_Float64 E) v)
      | TComplex128 \<Rightarrow> Some (map_go (xc_Float64 E) v)
      | TString \<Rightarrow> Some (map_go (xc_Float64 E) v)
      | TBool \<Rightarrow> Some (map_go (xc_Float64 E) v)
      | TAny \<Rightarrow> Some (map_go (xc_Float64 E) v)
      | TSlice TUint8 \<Rightarrow> Some (map_go (xc_Float64 E) v)
      | _ \<Rightarrow> None)"

definition xc_Float64s_at :: "conv_env \<Rightarrow> gty \<Rightarrow> gval list \<Rightarrow> 64 word list go option" where
  "xc_Float64s_at E t v =
     (case t of
        TInt \<Rightarrow> Some (map_go (xc_Float64 E) v)
      | TInt8 \<Rightarrow> Some (map_go (xc_Float64 E) v)
      | TInt16 \<Rightarrow> Some (map_go (xc_Float64 E) v)
      | TInt32 \<Rightarrow> Some (map_go (xc_Float64 E) v)
      | TInt64 \<Rightarrow> Some (map_go (xc_Float64 E) v)
      | TUint \<Rightarrow> Some (map_go (xc_Float64 E) v)
      | TUint8 \<Rightarrow> Some (map_go (xc_Float64 E) v)
      | TUint16 \<Rightarrow> Some (map_go (xc_Float64 E) v)
      | TUint32 \<Rightarrow> Some (map_go (xc_Float64 E) v)
      | TUint64 \<Rightarrow> Some (map_go (xc_Float64 E) v)
      | TFloat32 \<Rightarrow> Some (map_go (xc_Float64 E) v)
      | TFloat64 \<Rightarrow> Some (ret (map the_VFloat64 v))
      | TComplex64 \<Rightarrow> Some (map_go (xc_Float64 E) v)
      | TComplex128 \<Rightarrow> Some (map_go (xc_Float64 E) v)
      | TString \<Rightarrow> Some (map_go (xc_Float64 E) v)
      | TBool \<Rightarrow> Some (map_go (xc_Float64 E) v)
      | TAny \<Rightarrow> Some (map_go (xc_Float64 E) v)
      | TSlice TUint8 \<Rightarrow> Some (map_go (xc_Float64 E) v)
      | _ \<Rightarrow> None)"

definition xc_Float64s :: "conv_env \<Rightarrow> gval \<Rightarrow> 64 word list go" where
  "xc_Float64s E val =
     (if val = VNil then ret []
      else slice_switch (xc_Float64s_of E) (xc_Float64s_at E) (by_kind (ret []) (slice_kind (xc_Float64 E))) val)"

definition xc_Bools_of :: "conv_env \<Rightarrow> gty \<Rightarrow> gval list \<Rightarrow> bool list go option" where
  "xc_Bools_of E t v =
     (case t of
        TInt \<Rightarrow> Some (map_go (xc_Bool E) v)
      | TInt8 \<Rightarrow> Some (map_go (xc_Bool E) v)
      | TInt16 \<Rightarrow> Some (map_go (xc_Bool E) v)
      | TInt32 \<Rightarrow> Some (map_go (xc_Bool E) v)
      | TInt64 \<Rightarrow> Some (map_go (xc_Bool E) v)
      | TUint \<Rightarrow> Some (map_go (xc_Bool E) v)
      | TUint8 \<Rightarrow> Some (map_go (xc_Bool E) v)
      | TUint16 \<Rightarrow> Some (map_go (xc_Bool E) v)
      | TUint32 \<Rightarrow> Some (map_go (xc_Bool E) v)
      | TUint64 \<Rightarrow> Some (map_go (xc_Bool E) v)
      | TFloat32 \<Rightarrow> Some (map_go (xc_Bool E) v)
      | TFloat64 \<Rightarrow> Some (map_go (xc_Bool E) v)
      | TComplex64 \<Rightarrow> Some (map_go (xc_Bool E) v)
      | TComplex128 \<Rightarrow> Some (map_go (xc_Bool E) v)
      | TString \<Rightarrow> Some (map_go (xc_Bool E) v)
      | TBool \<Rightarrow> Some (ret (map the_VBool v))
      | TAny \<Rightarrow> Some (map_go (xc_Bool E) v)
      | TSlice TUint8 \<Rightarrow> Some (map_go (xc_Bool E) v)
      | _ \<Rightarrow> None)"

definition xc_Bools_at :: "conv_env \<Rightarrow> gty \<Rightarrow> gval list \<Rightarrow> bool list go option" where
  "xc_Bools_at E t v =
     (case t of
        TInt \<Rightarrow> Some (map_go (xc_Bool E) v)
      | TInt8 \<Rightarrow> Some (map_go (xc_Bool E) v)
      | TInt16 \<Rightarrow> Some (map_go (xc_Bool E) v)
      | TInt32 \<Rightarrow> Some (map_go (xc_Bool E) v)
      | TInt64 \<Rightarrow> Some (map_go (xc_Bool E) v)
      | TUint \<Rightarrow> Some (map_go (xc_Bool E) v)
      | TUint8 \<Rightarrow> Some (map_go (xc_Bool E) v)
      | TUint16 \<Rightarrow> Some (map_go (xc_Bool E) v)
      | TUint32 \<Rightarrow> Some (map_go (xc_Bool E) v)
      | TUint64 \<Rightarrow> Some (map_go (xc_Bool E) v)
      | TFloat32 \<Rightarrow> Some (map_go (xc_Bool E) v)
      | TFloat64 \<Rightarrow> Some (map_go (xc_Bool E) v)
      | TComplex64 \<Rightarrow> Some (map_go (xc_Bool E) v)
      | TComplex128 \<Rightarrow> Some (map_go (xc_Bool E) v)
      | TString \<Rightarrow> Some (map_go (xc_Bool E) v)
      | TBool \<Rightarrow> Some (ret (map the_VBool v))
      | TAny \<Rightarrow> Some (map_go (xc_Bool E) v)
      | TSlice TUint8 \<Rightarrow> Some (map_go (xc_Bool E) v)
      | _ \<Rightarrow> None)"

definition xc_Bools :: "conv_env \<Rightarrow> gval \<Rightarrow> bool list go" where
  "xc_Bools E val =
     (if val = VNil then ret []
      else slice_switch (xc_Bools_of E) (xc_Bools_at E) (by_kind (ret []) (slice_kind (xc_Bool E))) val)"

definition xc_Strings_of :: "conv_env \<Rightarrow> gty \<Rightarrow> gval list \<Rightarrow> byte list list go option" where
  "xc_Strings_of E t v =
     (case t of
        TInt \<Rightarrow> Some (map_go (xc_String E) v)
      | TInt8 \<Rightarrow> Some (map_go (xc_String E) v)
      | TInt16 \<Rightarrow> Some (map_go (xc_String E) v)
      | TInt32 \<Rightarrow> Some (map_go (xc_String E) v)
      | TInt64 \<Rightarrow> Some (map_go (xc_String E) v)
      | TUint \<Rightarrow> Some (map_go (xc_String E) v)
      | TUint8 \<Rightarrow> Some (map_go (xc_String E) v)
      | TUint16 \<Rightarrow> Some (map_go (xc_String E) v)
      | TUint32 \<Rightarrow> Some (map_go (xc_String E) v)
      | TUint64 \<Rightarrow> Some (map_go (xc_String E) v)
      | TFloat32 \<Rightarrow> Some (map_go (xc_String E) v)
      | TFloat64 \<Rightarrow> Some (map_go (xc_String E) v)
      | TComplex64 \<Rightarrow> Some (map_go (xc_String E) v)
      | TComplex128 \<Rightarrow> Some (map_go (xc_String E) v)
      | TString \<Rightarrow> Some (ret (map the_VString v))
      | TBool \<Rightarrow> Some (map_go (xc_String E) v)
      | TAny \<Rightarrow> Some (map_go (xc_String E) v)
      | TSlice TUint8 \<Rightarrow> Some (map_go (xc_String E) v)
      | _ \<Rightarrow> None)"

definition xc_Strings_at :: "conv_env \<Rightarrow> gty \<Rightarrow> gval list \<Rightarrow> byte list list go option" where
  "xc_Strings_at E t v =
     (case t of
        TInt \<Rightarrow> Some (map_go (xc_String E) v)
      | TInt8 \<Rightarrow> Some (map_go (xc_String E) v)
      | TInt16 \<Rightarrow> Some (map_go (xc_String E) v)
      | TInt32 \<Rightarrow> Some (map_go (xc_String E) v)
      | TInt64 \<Rightarrow> Some (map_go (xc_String E) v)
      | TUint \<Rightarrow> Some (map_go (xc_String E) v)
      | TUint8 \<Rightarrow> Some (map_go (xc_String E) v)
      | TUint16 \<Rightarrow> Some (map_go (xc_String E) v)
      | TUint32 \<Rightarrow> Some (map_go (xc_String E) v)
      | TUint64 \<Rightarrow> Some (map_go (xc_String E) v)
      | TFloat32 \<Rightarrow> Some (map_go (xc_String E) v)
      | TFloat64 \<Rightarrow> Some (map_go (xc_String E) v)
      | TComplex64 \<Rightarrow> Some (map_go (xc_String E) v)
      | TComplex128 \<Rightarrow> Some (map_go (xc_String E) v)
      | TString \<Rightarrow> Some (ret (map the_VString v))
      | TBool \<Rightarrow> Some (map_go (xc_String E) v)
      | TAny \<Rightarrow> Some (map_go (xc_String E) v)
      | TSlice TUint8 \<Rightarrow> Some (map_go (xc_String E) v)
      | _ \<Rightarrow> None)"

definition xc_Strings :: "conv_env \<Rightarrow> gval \<Rightarrow> byte list list go" where
  "xc_Strings E val =
     (if val = VNil then ret []
      else slice_switch (xc_Strings_of E) (xc_Strings_at E) (by_kind (ret []) (slice_kind (xc_String E))) val)"

definition xc_Durations_of :: "conv_env \<Rightarrow> gty \<Rightarrow> gval list \<Rightarrow> 64 word list go option" where
  "xc_Durations_of E t v =
     (case t of
        TInt \<Rightarrow> Some (map_go (xc_Duration E) v)
      | TInt8 \<Rightarrow> Some (map_go (xc_Duration E) v)
      | TInt16 \<Rightarrow> Some (map_go (xc_Duration E) v)
      | TInt32 \<Rightarrow> Some (map_go (xc_Duration E) v)
      | TInt64 \<Rightarrow> Some (map_go (xc_Duration E) v)
      | TUint \<Rightarrow> Some (map_go (xc_Duration E) v)
      | TUint8 \<Rightarrow> Some (map_go (xc_Duration E) v)
      | TUint16 \<Rightarrow> Some (map_go (xc_Duration E) v)
      | TUint32 \<Rightarrow> Some (map_go (xc_Duration E) v)
      | TUint64 \<Rightarrow> Some (map_go (xc_Duration E) v)
      | TFloat32 \<Rightarrow> Some (map_go (xc_Duration E) v)
      | TFloat64 \<Rightarrow> Some (map_go (xc_Duration E) v)
      | TComplex64 \<Rightarrow> Some (map_go (xc_Duration E) v)
      | TComplex128 \<Rightarrow> Some (map_go (xc_Duration E) v)
      | TString \<Rightarrow> Some (map_go (xc_Duration E) v)
      | TBool \<Rightarrow> Some (map_go (xc_Duration E) v)
      | TAny \<Rightarrow> Some (map_go (xc_Duration E) v)
      | TSlice TUint8 \<Rightarrow> Some (map_go (xc_Duration E) v)
      | _ \<Rightarrow> None)"

definition xc_Durations_at :: "conv_env \<Rightarrow> gty \<Rightarrow> gval list \<Rightarrow> 64 word list go option" where
  "xc_Durations_at E t v =
     (case t of
        TInt \<Rightarrow> Some (map_go (xc_Duration E) v)
      | TInt8 \<Rightarrow> Some (map_go (xc_Duration E) v)
      | TInt16 \<Rightarrow> Some (map_go (xc_Duration E) v)
      | TInt32 \<Rightarrow> Some (map_go (xc_Duration E) v)
      | TInt64 \<Rightarrow> Some (map_go (xc_Duration E) v)
      | TUint \<Rightarrow> Some (map_go (xc_Duration E) v)
      | TUint8 \<Rightarrow> Some (map_go (xc_Duration E) v)
      | TUint16 \<Rightarrow> Some (map_go (xc_Duration E) v)
      | TUint32 \<Rightarrow> Some (map_go (xc_Duration E) v)
      | TUint64 \<Rightarrow> Some (map_go (xc_Duration E) v)
      | TFloat32 \<Rightarrow> Some (map_go (xc_Duration E) v)
      | TFloat64 \<Rightarrow> Some (map_go (xc_Duration E) v)
      | TComplex64 \<Rightarrow> Some (map_go (xc_Duration E) v)
      | TComplex128 \<Rightarrow> Some (map_go (xc_Duration E) v)
      | TString \<Rightarrow> Some (map_go (xc_Duration E) v)
      | TBool \<Rightarrow> Some (map_go (xc_Duration E) v)
      | TAny \<Rightarrow> Some (map_go (xc_Duration E) v)
      | TSlice TUint8 \<Rightarrow> Some (map_go (xc_Duration E) v)
      | _ \<Rightarrow> None)"

definition xc_Durations :: "conv_env \<Rightarrow> gval \<Rightarrow> 64 word list go" where
  "xc_Durations E val =
     (if val = VNil then ret []
      else slice_switch (xc_Durations_of E) (xc_Durations_at E) (by_kind (ret []) (slice_kind (xc_Duration E))) val)"

definition xc_Bs_of :: "conv_env \<Rightarrow> gty \<Rightarrow> gval list \<Rightarrow> 64 word list go option" where
  "xc_Bs_of E t v =
     (case t of
        TInt \<Rightarrow> Some (map_go (xc_B E) v)
      | TInt8 \<Rightarrow> Some (map_go (xc_B E) v)
      | TInt16 \<Rightarrow> Some (map_go (xc_B E) v)
      | TInt32 \<Rightarrow> Some (map_go (xc_B E) v)
      | TInt64 \<Rightarrow> Some (map_go (xc_B E) v)
      | TUint \<Rightarrow> Some (map_go (xc_B E) v)
      | TUint8 \<Rightarrow> Some (map_go (xc_B E) v)
      | TUint16 \<Rightarrow> Some (map_go (xc_B E) v)
      | TUint32 \<Rightarrow> Some (map_go (xc_B E) v)
      | TUint64 \<Rightarrow> Some (map_go (xc_B E) v)
      | TFloat32 \<Rightarrow> Some (map_go (xc_B E) v)
      | TFloat64 \<Rightarrow> Some (ret (map the_VFloat64 v))
      | TComplex64 \<Rightarrow> Some (map_go (xc_B E) v)
      | TComplex128 \<Rightarrow> Some (map_go (xc_B E) v)
      | TString \<Rightarrow> Some (map_go (xc_B E) v)
      | TBool \<Rightarrow> Some (ret (replicate (length v) 0))
      | TAny \<Rightarrow> Some (map_go (xc_B E) v)
      | TSlice TUint8 \<Rightarrow> Some (map_go (xc_B E) v)
      | _ \<Rightarrow> None)"

definition xc_Bs_at :: "conv_env \<Rightarrow> gty \<Rightarrow> gval list \<Rightarrow> 64 word list go option" where
  "xc_Bs_at E t v =
     (case t of
        TInt \<Rightarrow> Some (map_go (xc_B E) v)
      | TInt8 \<Rightarrow> Some (map_go (xc_B E) v)
      | TInt16 \<Rightarrow> Some (map_go (xc_B E) v)
      | TInt32 \<Rightarrow> Some (map_go (xc_B E) v)
      | TInt64 \<Rightarrow> Some (map_go (xc_B E) v)
      | TUint \<Rightarrow> Some (map_go (xc_B E) v)
      | TUint8 \<Rightarrow> Some (map_go (xc_B E) v)
      | TUint16 \<Rightarrow> Some (map_go (xc_B E) v)
      | TUint32 \<Rightarrow> Some (map_go (xc_B E) v)
      | TUint64 \<Rightarrow> Some (map_go (xc_B E) v)
      | TFloat32 \<Rightarrow> Some (map_go (xc_B E) v)
      | TFloat64 \<Rightarrow> Some (ret (map the_VFloat64 v))
      | TComplex64 \<Rightarrow> Some (map_go (xc_B E) v)
      | TComplex128 \<Rightarrow> Some (map_go (xc_B E) v)
      | TString \<Rightarrow> Some (map_go (xc_B E) v)
      | TBool \<Rightarrow> Some (ret (replicate (length v) 0))
      | TAny \<Rightarrow> Some (map_go (xc_B E) v)
      | TSlice TUint8 \<Rightarrow> Some (map_go (xc_B E) v)
      | _ \<Rightarrow> None)"

definition xc_Bs :: "conv_env \<Rightarrow> gval \<Rightarrow> 64 word list go" where
  "xc_Bs E val =
     (if val = VNil then ret []
      else slice_switch (xc_Bs_of E) (xc_Bs_at E) (by_kind (ret []) (slice_kind (xc_B E))) val)"

definition xc_Runes :: "conv_env \<Rightarrow> gval \<Rightarrow> 32 word list go" where
  "xc_Runes E = xc_Int32s E"

end
