(* ===== verification/XconvProps.thy ===== *)
theory XconvProps
  imports Xconv
begin

section \<open>What the conversions guarantee\<close>

text \<open>
  The type switch and the default branch agree on every value that is not a time or a slice, so a
  conversion depends only on the value a pointer or a defined type leads to
  (\<open>Int64_reached\<close> and its companions); the properties rest on that.
\<close>

subsection \<open>Widening conversions\<close>

lemma sint_widen:
  "sint (scast (v :: 8 word) :: 64 word) = sint v" "sint (scast (w :: 16 word) :: 64 word) = sint w"
  "sint (scast (x :: 32 word) :: 64 word) = sint x"
  by (transfer; simp add: signed_take_bit_signed_take_bit)+

lemma unat_widen:
  "unat (ucast (v :: 8 word) :: 64 word) = unat v" "unat (ucast (w :: 16 word) :: 64 word) = unat w"
  "unat (ucast (x :: 32 word) :: 64 word) = unat x"
  by (transfer; simp)+

lemma of_int_sint_widen: "(of_int (sint (v :: 8 word)) :: 64 word) = scast v" "(of_int (sint (w :: 16 word)) :: 64 word) = scast w" "(of_int (sint (x :: 32 word)) :: 64 word) = scast x"
  by (transfer; simp)+

lemma of_int_uint_widen: "(of_int (uint (v :: 8 word)) :: 64 word) = ucast v" "(of_int (uint (w :: 16 word)) :: 64 word) = ucast w" "(of_int (uint (x :: 32 word)) :: 64 word) = ucast x"
  by (transfer; simp)+

subsection \<open>Values reached through pointers\<close>

fun plain :: "gval \<Rightarrow> bool" where
  "plain (VTime _ _ _) = False"
| "plain (VSlice _ _) = False"
| "plain _ = True"

lemma type_switch_reached:
  assumes v: "reflect_Value val = Some v"
    and cs: "\<And>u r. cs u = Some r \<Longrightarrow> reflect_Value u = Some u" "\<And>r. cs v = Some r \<Longrightarrow> r = k"
    and d: "dflt val = k"
  shows "type_switch cs nils dflt val = k"
proof (cases "\<exists>u. val = VPtr u")
  case True
  then obtain u where u: "val = VPtr u" by blast
  show ?thesis
  proof (cases "cs u")
    case None
    with d u show ?thesis by simp
  next
    case (Some r)
    with cs(1) [OF this] v u have "u = v" by simp
    with Some cs(2) [of r] u show ?thesis by simp
  qed
next
  case False
  moreover have "val \<noteq> VNilPtr t" for t using v by auto
  ultimately have t: "type_switch cs nils dflt val = (case cs val of Some r \<Rightarrow> r | None \<Rightarrow> dflt val)"
    by (simp add: type_switch_value)
  show ?thesis
  proof (cases "cs val")
    case None
    with d t show ?thesis by simp
  next
    case (Some r)
    with cs(1) [OF this] v have "val = v" by simp
    with Some cs(2) [of r] t show ?thesis by simp
  qed
qed

lemma cases_base:
  "xc_Int64_cases E u = Some r \<Longrightarrow> reflect_Value u = Some u"
  "xc_Uint64_cases E u = Some r \<Longrightarrow> reflect_Value u = Some u"
  "xc_Float64_cases E u = Some r \<Longrightarrow> reflect_Value u = Some u"
  "xc_Bool_cases E u = Some t \<Longrightarrow> reflect_Value u = Some u"
  "xc_String_cases E b u = Some bs \<Longrightarrow> reflect_Value u = Some u"
  "xc_Bytes_cases u = Some bs \<Longrightarrow> reflect_Value u = Some u"
  by (cases u; simp)+

lemma reflect_not_VNil: "reflect_Value val = Some v \<Longrightarrow> val \<noteq> VNil"
  by auto

lemma Int64_reached:
  assumes "reflect_Value val = Some v" "plain v"
  shows "xc_Int64 E val = ret (xc_Int64_kind E v)"
  unfolding xc_Int64_def if_not_P [OF reflect_not_VNil [OF assms(1)]]
  by (rule type_switch_reached [OF assms(1) cases_base(1)])
    (use assms in \<open>auto simp: by_kind_def elim: xc_Int64_cases.elims\<close>)

lemma Uint64_reached:
  assumes "reflect_Value val = Some v" "plain v"
  shows "xc_Uint64 E val = ret (xc_Uint64_kind E v)"
  unfolding xc_Uint64_def if_not_P [OF reflect_not_VNil [OF assms(1)]]
  by (rule type_switch_reached [OF assms(1) cases_base(2)])
    (use assms in \<open>auto simp: by_kind_def elim: xc_Uint64_cases.elims\<close>)

lemma Float64_reached:
  assumes "reflect_Value val = Some v" "plain v"
  shows "xc_Float64 E val = ret (xc_Float64_kind E v)"
  unfolding xc_Float64_def if_not_P [OF reflect_not_VNil [OF assms(1)]]
  by (rule type_switch_reached [OF assms(1) cases_base(3)])
    (use assms in \<open>auto simp: by_kind_def elim: xc_Float64_cases.elims\<close>)

lemma toBool_paren [simp]: "toBool (FormatComplex E r i fm bits)"
  by (simp add: toBool_def FormatComplex_def Let_def to_lower_def)

lemma Bool_reached:
  assumes "reflect_Value val = Some v" "plain v"
  shows "xc_Bool E val = ret (xc_Bool_kind E v)"
  unfolding xc_Bool_def if_not_P [OF reflect_not_VNil [OF assms(1)]]
  by (rule type_switch_reached [OF assms(1) cases_base(4)])
    (use assms in \<open>auto simp: by_kind_def elim: xc_Bool_cases.elims\<close>)

text \<open>
  \<open>String\<close> is the exception to this: a \<open>float32\<close> is printed with 32 bits, one behind a pointer or of
  a defined type with 64.
\<close>

fun same_text :: "gval \<Rightarrow> bool" where
  "same_text (VFloat32 _) = False"
| "same_text (VComplex64 _ _) = False"
| "same_text (VTime _ _ _) = False"
| "same_text (VSlice _ _) = False"
| "same_text v = True"

lemma String_reached:
  assumes "reflect_Value val = Some v" "same_text v"
  shows "xc_String E val = ret (xc_String_kind E val v)"
  unfolding xc_String_def if_not_P [OF reflect_not_VNil [OF assms(1)]]
  by (rule type_switch_reached [OF assms(1) cases_base(5)])
    (use assms in \<open>auto simp: by_kind_def elim: xc_String_cases.elims\<close>)

lemma Bytes_reached:
  assumes "reflect_Value val = Some v" "plain v" "\<forall>x. v \<noteq> VFloat32 x"
  shows "xc_Bytes E val = ret (xc_Bytes_kind E val v)"
  unfolding xc_Bytes_def if_not_P [OF reflect_not_VNil [OF assms(1)]]
  by (rule type_switch_reached [OF assms(1) cases_base(6)])
    (use assms in \<open>auto simp: by_kind_def elim: xc_Bytes_cases.elims\<close>)

fun integer_value :: "gval \<Rightarrow> int option" where
  "integer_value (VInt v) = Some (sint v)"
| "integer_value (VInt8 v) = Some (sint v)"
| "integer_value (VInt16 v) = Some (sint v)"
| "integer_value (VInt32 v) = Some (sint v)"
| "integer_value (VInt64 v) = Some (sint v)"
| "integer_value (VDuration v) = Some (sint v)"
| "integer_value (VUint v) = Some (uint v)"
| "integer_value (VUint8 v) = Some (uint v)"
| "integer_value (VUint16 v) = Some (uint v)"
| "integer_value (VUint32 v) = Some (uint v)"
| "integer_value (VUint64 v) = Some (uint v)"
| "integer_value _ = None"

lemma integer_plain: "integer_value v = Some n \<Longrightarrow> plain v \<and> same_text v \<and> reflect_Value v = Some v"
  by (cases v) auto

lemma integer_String:
  assumes "reflect_Value val = Some v" "integer_value v = Some n"
  shows "xc_String E val = ret (if n < 0 then 45 # dec_digits (nat (- n)) else dec_digits (nat n))"
proof -
  have "xc_String_kind E val v = (if n < 0 then 45 # dec_digits (nat (- n)) else dec_digits (nat n))"
    using assms(2) by (cases v) (auto simp: FormatInt_def FormatUint_def sint_widen unat_widen)
  with String_reached [OF assms(1)] integer_plain [OF assms(2)] show ?thesis by simp
qed

lemma integer_kinds:
  "integer_value v = Some n \<Longrightarrow> xc_Int64_kind E v = of_int n"
  "integer_value v = Some n \<Longrightarrow> xc_Uint64_kind E v = of_int n"
  by (cases v; auto simp flip: of_int_sint_widen of_int_uint_widen)+

lemma integer_bounds:
  assumes "integer_value v = Some n"
  shows "- (2 ^ 63) \<le> n" "n < 2 ^ 64"
proof -
  have s: "- (2 ^ 63) \<le> sint (a :: 64 word) \<and> sint a < 2 ^ 64 \<and> - (2 ^ 63) \<le> uint a \<and> uint a < 2 ^ 64" for a
    using sint_ge [of a] sint_lt [of a] uint_lt2p [of a] by (auto intro: order_trans [OF _ uint_ge_0])
  have s8: "- (2 ^ 63) \<le> sint (a :: 8 word) \<and> sint a < 2 ^ 64 \<and> - (2 ^ 63) \<le> uint a \<and> uint a < 2 ^ 64" for a
    using sint_ge [of a] sint_lt [of a] uint_lt2p [of a] by (auto intro: order_trans [OF _ uint_ge_0])
  have s16: "- (2 ^ 63) \<le> sint (a :: 16 word) \<and> sint a < 2 ^ 64 \<and> - (2 ^ 63) \<le> uint a \<and> uint a < 2 ^ 64" for a
    using sint_ge [of a] sint_lt [of a] uint_lt2p [of a] by (auto intro: order_trans [OF _ uint_ge_0])
  have s32: "- (2 ^ 63) \<le> sint (a :: 32 word) \<and> sint a < 2 ^ 64 \<and> - (2 ^ 63) \<le> uint a \<and> uint a < 2 ^ 64" for a
    using sint_ge [of a] sint_lt [of a] uint_lt2p [of a] by (auto intro: order_trans [OF _ uint_ge_0])
  have "- (2 ^ 63) \<le> n \<and> n < 2 ^ 64"
    using assms s s8 s16 s32 by (cases v) auto
  then show "- (2 ^ 63) \<le> n" "n < 2 ^ 64" by blast+
qed

text \<open>
  C17: integers survive being printed and read back: for every integer value, itself, behind any
  pointers or of a defined type, \<open>String\<close> gives its decimal text, and \<open>Int64\<close> of that text is
  \<open>Int64\<close> of the value when it is signed or fits, \<open>Uint64\<close> of it is \<open>Uint64\<close> of the value when it is
  not negative.
\<close>

theorem int_text_roundtrip:
  assumes "reflect_Value val = Some v" "integer_value v = Some n"
  shows "\<exists>s. xc_String E val = ret s \<and>
    (n < 2 ^ 63 \<longrightarrow> xc_Int64 E (VString s) = xc_Int64 E val \<and> xc_Int64 E val = ret (of_int n)) \<and>
    (0 \<le> n \<longrightarrow> xc_Uint64 E (VString s) = xc_Uint64 E val \<and> xc_Uint64 E val = ret (of_int n))"
proof -
  note R = assms(1) conjunct1 [OF integer_plain [OF assms(2)]]
  note i = integer_kinds [OF assms(2)] and b = integer_bounds [OF assms(2)]
  show ?thesis
  proof (cases "n < 0")
    case True
    have t: "ParseInt10 (45 # dec_digits (nat (- n))) = (- of_nat (nat (- n)), None)"
      using b(1) by (intro ParseInt_neg_dec) simp
    have "- (of_nat (nat (- n)) :: 64 word) = of_int n"
      using True word_of_nat_nat [of "- n", where ?'a = 64] by simp
    with True t show ?thesis
      using integer_String [OF assms, of E] Int64_reached [OF R, of E]
      by (simp add: i xc_Int64_def type_switch_def by_kind_def)
  next
    case False
    then have n: "nat n \<le> max_u64" using b(2) by (simp add: nat_le_iff)
    have w: "(of_nat (nat n) :: 64 word) = of_int n" using False by (intro word_of_nat_nat) simp
    have "ParseInt10 (dec_digits (nat n)) = (of_int n, None)" if "n < 2 ^ 63"
      using ParseInt_dec [of "nat n"] that False w by (simp add: nat_less_iff)
    with False show ?thesis
      using integer_String [OF assms, of E] Int64_reached [OF R, of E] Uint64_reached [OF R, of E]
        ParseUint0_dec [OF n] w
      by (simp add: i xc_Int64_def xc_Uint64_def type_switch_def by_kind_def)
  qed
qed

text \<open>An instance of the parameters for the witnesses: floats stand for the integer of their bits.\<close>

definition sample_env :: conv_env where
  "sample_env = \<lparr>ce_f2i = id, ce_f2u = id, ce_i2f = id, ce_u2f = id, ce_widen = ucast, ce_narrow = ucast,
     ce_mul = (*), ce_FormatFloat = (\<lambda>v fm bits. FormatInt v), ce_ParseFloat = (\<lambda>s. fst (ParseInt10 s)),
     ce_Marshal = (\<lambda>_. None), ce_Sprint = (\<lambda>_. []), ce_toDuration = (\<lambda>s. fst (ParseInt10 s))\<rparr>"

lemma int_text_roundtrip_witness:
  "\<exists>s. xc_String sample_env (VPtr (VNamed 3 (VInt16 (- 1200)))) = ret s \<and>
     xc_Int64 sample_env (VString s) = ret (- 1200)"
  using int_text_roundtrip [of "VPtr (VNamed 3 (VInt16 (- 1200)))" "VInt16 (- 1200)" "- 1200" sample_env]
  by auto

lemma sint_narrow:
  "sint (ucast x :: 8 word) = signed_take_bit 7 (sint (x :: 64 word))"
  "sint (ucast x :: 16 word) = signed_take_bit 15 (sint (x :: 64 word))"
  "sint (ucast x :: 32 word) = signed_take_bit 31 (sint (x :: 64 word))"
  by (transfer; simp add: signed_take_bit_signed_take_bit signed_take_bit_take_bit)+

text \<open>
  A conversion to a narrower integer keeps the low bits of the 64-bit result, so it gives the
  value itself exactly when that fits, and it panics exactly when the 64-bit conversion panics.
\<close>

theorem narrow_conversions:
  "(xc_Int64 E val = ret x \<longrightarrow>
      (\<exists>a b c. xc_Int8 E val = ret a \<and> (sint a = sint x \<longleftrightarrow> - 128 \<le> sint x \<and> sint x < 128) \<and>
               xc_Int16 E val = ret b \<and> (sint b = sint x \<longleftrightarrow> - 32768 \<le> sint x \<and> sint x < 32768) \<and>
               xc_Int32 E val = ret c \<and> (sint c = sint x \<longleftrightarrow> - 2147483648 \<le> sint x \<and> sint x < 2147483648))) \<and>
   (xc_Uint64 E val = ret y \<longrightarrow>
      (\<exists>a b c. xc_Uint8 E val = ret a \<and> uint a = uint y mod 256 \<and>
               xc_Uint16 E val = ret b \<and> uint b = uint y mod 65536 \<and>
               xc_Uint32 E val = ret c \<and> uint c = uint y mod 4294967296)) \<and>
   (xc_Int8 E val = panic \<longleftrightarrow> xc_Int64 E val = panic) \<and> (xc_Uint8 E val = panic \<longleftrightarrow> xc_Uint64 E val = panic)"
proof -
  have s: "sint (ucast x :: 8 word) = sint x \<longleftrightarrow> - 128 \<le> sint x \<and> sint x < 128"
    "sint (ucast x :: 16 word) = sint x \<longleftrightarrow> - 32768 \<le> sint x \<and> sint x < 32768"
    "sint (ucast x :: 32 word) = sint x \<longleftrightarrow> - 2147483648 \<le> sint x \<and> sint x < 2147483648"
    by (simp_all add: sint_narrow signed_take_bit_int_eq_self_iff)
  have u: "uint (ucast y :: 8 word) = uint y mod 256" "uint (ucast y :: 16 word) = uint y mod 65536"
    "uint (ucast y :: 32 word) = uint y mod 4294967296"
    by (transfer; simp add: take_bit_eq_mod mod_mod_cancel)+
  show ?thesis using s u
    by (auto simp: xc_Int8_def xc_Int16_def xc_Int32_def xc_Uint8_def xc_Uint16_def xc_Uint32_def split: bind_splits)
qed

lemma narrow_conversions_witness:
  "\<exists>a. xc_Int8 sample_env (VInt 300) = ret a \<and> sint a \<noteq> 300"
  using narrow_conversions [of sample_env "VInt 300" 300 300]
  by (auto simp: xc_Int64_def type_switch_def)

text \<open>
  \<open>Int64\<close> panics exactly on a nil pointer to one of the types it reads through and on a
  \<open>[]byte\<close> of more than eight bytes; on every other value it returns.
\<close>

theorem Int64_panics:
  "xc_Int64 E val = panic \<longleftrightarrow>
     (\<exists>t \<in> set (real_types @ [TBool, TTime, TBytes]). val = VNilPtr t) \<or>
     (\<exists>es. (val = VSlice TUint8 es \<or> val = VPtr (VSlice TUint8 es)) \<and> length (elems es) > 8)"
proof -
  have c: "xc_Int64_cases E u = Some panic \<longleftrightarrow> (\<exists>es. u = VSlice TUint8 es \<and> length (elems es) > 8)" for u
    by (cases u) (auto simp: int64_of_bytes_def slice_bytes_def)
  show ?thesis
  proof (cases "\<exists>u. val = VPtr u")
    case True
    then obtain u where u: "val = VPtr u" by blast
    then show ?thesis using c [of u]
      by (cases "xc_Int64_cases E u") (auto simp: xc_Int64_def)
  next
    case False
    then show ?thesis using c [of val]
      by (cases "\<exists>t. val = VNilPtr t"; cases "xc_Int64_cases E val")
        (auto simp: xc_Int64_def type_switch_value panics_on_def)
  qed
qed

lemma Int64_panics_witness:
  "xc_Int64 sample_env (VPtr (bytes_value [1, 2, 3, 4, 5, 6, 7, 8, 9])) = panic \<and>
   xc_Int64 sample_env (VNilPtr TDuration) \<noteq> panic"
  using Int64_panics [of sample_env "VPtr (bytes_value [1, 2, 3, 4, 5, 6, 7, 8, 9])"]
    Int64_panics [of sample_env "VNilPtr TDuration"]
  by (simp add: bytes_value_def elems_def real_types_def number_types_def)

subsection \<open>Numbers as bytes\<close>

lemma le_value_zeros: "le_value (bs @ replicate k 0) = le_value bs"
  by (induction bs) (induction k, auto)

lemma int64_of_bytes_value:
  "length bs \<le> 8 \<Longrightarrow> int64_of_bytes bs = ret (of_nat (get_uint BigEndian bs))"
  by (simp add: int64_of_bytes_def copy_at_def get_uint_def le_value_zeros)

lemma unat_sint_mod: "nat (sint (a :: 'b :: len word) mod 2 ^ LENGTH('b)) = unat a"
  by (metis unat_eq_nat_uint uint_sint take_bit_eq_mod)

lemma sint_below: "sint (a :: 'b :: len word) < 2 ^ LENGTH('b)"
  by (rule less_le_trans [OF sint_lt]) (simp add: power_increasing)

lemmas unat_mods = unat_sint_mod [where 'b = 8, simplified] unat_sint_mod [where 'b = 16, simplified]
  unat_sint_mod [where 'b = 32, simplified] unat_sint_mod [where 'b = 64, simplified]

lemmas int_bounds = uint_lt2p [where 'a = 8, simplified] uint_lt2p [where 'a = 16, simplified]
  uint_lt2p [where 'a = 32, simplified] uint_lt2p [where 'a = 64, simplified]
  sint_below [where 'b = 8, simplified] sint_below [where 'b = 16, simplified]
  sint_below [where 'b = 32, simplified] sint_below [where 'b = 64, simplified]

fun int_width :: "gval \<Rightarrow> nat" where
  "int_width (VInt8 _) = 1" | "int_width (VUint8 _) = 1"
| "int_width (VInt16 _) = 2" | "int_width (VUint16 _) = 2"
| "int_width (VInt32 _) = 4" | "int_width (VUint32 _) = 4"
| "int_width _ = 8"

lemma integer_Bytes:
  assumes "reflect_Value val = Some v" "integer_value v = Some n"
  shows "\<exists>k. k \<le> 8 \<and> xc_Bytes E val = ret (put_uint BigEndian k (nat (n mod 2 ^ (8 * k)))) \<and> n < 2 ^ (8 * k)"
proof -
  let ?k = "int_width v"
  have "xc_Bytes_kind E val v = put_uint BigEndian ?k (nat (n mod 2 ^ (8 * ?k)))"
    using assms(2) by (cases v) (auto simp: unat_mods int_bounds)
  moreover have "n < 2 ^ (8 * ?k)"
    using assms(2) by (cases v) (auto simp: int_bounds)
  moreover have "?k \<le> 8" by (cases v) auto
  moreover have "\<forall>x. v \<noteq> VFloat32 x" using assms(2) by auto
  ultimately show ?thesis using Bytes_reached [OF assms(1)] integer_plain [OF assms(2)]
    by (intro exI [of _ ?k]) simp
qed

text \<open>
  A number written by \<open>Bytes\<close> and read back by \<open>Int64\<close>: the bytes are the two's complement of
  the number in the width of its type, and \<open>Int64\<close> reads them as an unsigned number, so the number
  comes back when it is not negative or its type has 64 bits, and a negative number of a narrower
  type comes back increased by the size of that type.
\<close>

theorem Bytes_roundtrip:
  assumes "reflect_Value val = Some v" "integer_value v = Some n"
  shows "\<exists>bs. xc_Bytes E val = ret bs \<and>
    xc_Int64 E (bytes_value bs) = ret (of_int (n mod 2 ^ (8 * length bs))) \<and>
    (0 \<le> n \<or> length bs = 8 \<longrightarrow> xc_Int64 E (bytes_value bs) = xc_Int64 E val)"
proof -
  obtain k where k: "k \<le> 8" "n < 2 ^ (8 * k)"
    "xc_Bytes E val = ret (put_uint BigEndian k (nat (n mod 2 ^ (8 * k))))"
    using integer_Bytes [OF assms, of E] by blast
  let ?bs = "put_uint BigEndian k (nat (n mod 2 ^ (8 * k)))"
  have l: "length ?bs = k" by (simp add: order.length_put)
  have "nat (n mod 2 ^ (8 * k)) < 2 ^ (8 * k)" by (simp add: nat_less_iff)
  then have "nat (n mod 2 ^ (8 * k)) < 256 ^ k" by (simp add: power_mult)
  then have g: "get_uint BigEndian ?bs = nat (n mod 2 ^ (8 * k))" by (simp add: order.get_put_small)
  have "xc_Int64 E (bytes_value ?bs) = int64_of_bytes ?bs"
    by (simp add: xc_Int64_def bytes_value_def type_switch_def slice_bytes_def elems_def comp_def)
  moreover have "length ?bs \<le> 8" using k(1) l by simp
  ultimately have i: "xc_Int64 E (bytes_value ?bs) = ret (of_int (n mod 2 ^ (8 * k)))"
    by (simp add: int64_of_bytes_value g word_of_nat_nat del: of_nat_nat)
  have "(of_int (n mod 2 ^ (8 * k)) :: 64 word) = of_int n" if "0 \<le> n \<or> k = 8"
  proof (cases "k = 8")
    case True
    then show ?thesis by (transfer, simp) (simp add: take_bit_eq_mod)
  next
    case False
    with that k(2) show ?thesis by simp
  qed
  then have "xc_Int64 E (bytes_value ?bs) = xc_Int64 E val" if "0 \<le> n \<or> length ?bs = 8"
    using that i l Int64_reached [OF assms(1) conjunct1 [OF integer_plain [OF assms(2)]], of E] integer_kinds [OF assms(2)]
    by simp
  with k(3) i l show ?thesis by (intro exI [of _ ?bs]) simp
qed

lemma Bytes_roundtrip_witness:
  "\<exists>bs. xc_Bytes sample_env (VInt8 (- 1)) = ret bs \<and> xc_Int64 sample_env (bytes_value bs) = ret 255"
proof -
  have "xc_Bytes sample_env (VInt8 (- 1)) = ret [- 1]"
    by (simp add: xc_Bytes_def type_switch_def put_uint_def)
  then show ?thesis
    using Bytes_roundtrip [of "VInt8 (- 1)" "VInt8 (- 1)" "- 1" sample_env] by auto
qed

subsection \<open>Truth values\<close>

lemma toBool_dec: "toBool (dec_digits m) \<longleftrightarrow> m \<noteq> 0"
proof -
  obtain d where d: "d < 10" "hd (dec_digits m) = of_nat (48 + d)" "d = 0 \<longrightarrow> m = 0"
    using hd_dec_digits by blast
  have "dec_digits m = [48] \<longleftrightarrow> m = 0"
    using d dec_not_zero [of d] by (cases "d = 0") (auto simp: dec_digits.simps [of 0])
  moreover have "to_lower (hd (dec_digits m)) \<noteq> 102"
    using d(2) less_10_cases [OF d(1)] by (elim disjE) (simp_all add: to_lower_def)
  then have "map to_lower (dec_digits m) \<noteq> [102, 97, 108, 115, 101]"
    by (cases "dec_digits m") auto
  ultimately show ?thesis by (auto simp: toBool_def)
qed

lemma toBool_neg [simp]: "toBool (45 # s)"
  by (simp add: toBool_def to_lower_def)

lemma sint_eq_0: "sint (a :: 'b :: len word) = 0 \<longleftrightarrow> a = 0"
proof
  assume "sint a = 0"
  then have "(of_int (sint a) :: 'b word) = of_int 0" by (rule arg_cong)
  then show "a = 0" by simp
qed simp

lemma integer_Bool: "integer_value v = Some n \<Longrightarrow> xc_Bool_kind E v \<longleftrightarrow> n \<noteq> 0"
  by (cases v) (auto simp: sint_eq_0 uint_0_iff)

text \<open>
  The truth value of a number, a bool or a text is that of its text; a number is true exactly
  when it is not zero. For a time it is the other way round: the zero time counts as true and every
  other one as false, while the text of the zero time, being empty, is false.
\<close>

theorem Bool_of_text:
  assumes "reflect_Value val = Some v"
  shows "(\<forall>n. integer_value v = Some n \<longrightarrow> xc_Bool E val = ret (n \<noteq> 0)) \<and>
    (integer_value v \<noteq> None \<or> (\<exists>b. v = VBool b) \<or> (\<exists>t. v = VString t) \<longrightarrow>
      (\<exists>s. xc_String E val = ret s \<and> xc_Bool E (VString s) = xc_Bool E val)) \<and>
    (val = VTime unixNano isZero t \<longrightarrow> xc_Bool E val = ret isZero \<and>
      (\<exists>s. xc_String E val = ret s \<and> (isZero \<or> toBool t \<longrightarrow> xc_Bool E (VString s) = ret (\<not> isZero))))"
proof -
  have str: "xc_Bool E (VString s) = ret (toBool s)" for s
    by (simp add: xc_Bool_def type_switch_def)
  have n: "xc_Bool E val = ret (n \<noteq> 0)" "\<exists>s. xc_String E val = ret s \<and> toBool s = (n \<noteq> 0)"
    if "integer_value v = Some n" for n
  proof -
    show "xc_Bool E val = ret (n \<noteq> 0)"
      using Bool_reached [OF assms] integer_plain [OF that] integer_Bool [OF that] by simp
    show "\<exists>s. xc_String E val = ret s \<and> toBool s = (n \<noteq> 0)"
      using integer_String [OF assms that, of E] by (auto simp: toBool_dec)
  qed
  have b: "\<exists>s. xc_String E val = ret s \<and> xc_Bool E (VString s) = xc_Bool E val" if "v = VBool b \<or> v = VString t" for b t
    using that String_reached [OF assms, of E] Bool_reached [OF assms, of E]
    by (auto simp: str FormatBool_def toBool_def to_lower_def)
  have "xc_Bool E val = ret isZero \<and>
      (\<exists>s. xc_String E val = ret s \<and> (isZero \<or> toBool t \<longrightarrow> xc_Bool E (VString s) = ret (\<not> isZero)))"
    if "val = VTime unixNano isZero t"
    using that by (simp add: xc_Bool_def xc_String_def type_switch_def toBool_def to_lower_def)
  with n b str show ?thesis by (auto simp: option.distinct(1) not_None_eq)
qed

lemma Bool_of_text_witness:
  "xc_Bool sample_env (VPtr (VInt8 0)) = ret False \<and> xc_Bool sample_env (VTime 0 True []) = ret True"
  using Bool_of_text [of "VPtr (VInt8 0)" "VInt8 0" sample_env] Bool_of_text [of "VTime 0 True []" "VTime 0 True []" sample_env]
  by simp

subsection \<open>Pointers and defined types\<close>

lemma type_switch_deep:
  assumes "reflect_Value val = Some v" "val \<noteq> v" "val \<noteq> VPtr v"
    and "\<And>u r. cs u = Some r \<Longrightarrow> reflect_Value u = Some u"
  shows "type_switch cs nils dflt val = dflt val"
proof (cases "\<exists>u. val = VPtr u")
  case True
  then obtain u where u: "val = VPtr u" by blast
  with assms have "cs u = None" by (cases "cs u") auto
  with u show ?thesis by simp
next
  case False
  moreover have "val \<noteq> VNilPtr t" for t using assms(1) by auto
  moreover have "cs val = None" using assms by (cases "cs val") auto
  ultimately show ?thesis by (simp add: type_switch_value)
qed

lemma switches_deep:
  assumes "reflect_Value val = Some v" "val \<noteq> v" "val \<noteq> VPtr v"
  shows "type_switch (xc_Int64_cases E) nils di val = di val"
    "type_switch (xc_Uint64_cases E) nils di val = di val"
    "type_switch (xc_Float64_cases E) nils di val = di val"
    "type_switch (xc_Bool_cases E) nilb db val = db val"
    "type_switch (xc_String_cases E b) nilt dt val = dt val"
  by (rule type_switch_deep [OF assms]; erule cases_base)+

lemma reflect_idem: "reflect_Value val = Some v \<Longrightarrow> reflect_Value v = Some v"
  by (induction val rule: reflect_Value.induct) auto

text \<open>What the default branch does with a time or a slice that the switch does not see.\<close>

lemma conversions_deep:
  assumes "reflect_Value val = Some v" "\<not> plain v" "val \<noteq> v" "val \<noteq> VPtr v"
  shows "xc_Int64 E val = ret 0" "xc_Uint64 E val = ret 0" "xc_Float64 E val = ret 0"
    "xc_Bool E val = ret (case v of VSlice t es \<Rightarrow> elems es \<noteq> [] | _ \<Rightarrow> True)"
    "xc_String E val = ret (json_text E val)"
  unfolding xc_Int64_def xc_Uint64_def xc_Float64_def xc_Bool_def xc_String_def if_not_P [OF reflect_not_VNil [OF assms(1)]]
    switches_deep [OF assms(1,3,4)]
  using assms(1,2) by (cases v; auto simp: by_kind_def elems_def split: option.splits)+

lemma conversions_direct:
  "\<not> plain v \<Longrightarrow> xc_Int64 E (VPtr v) = xc_Int64 E v"
  "\<not> plain v \<Longrightarrow> xc_Uint64 E (VPtr v) = xc_Uint64 E v"
  "\<not> plain v \<Longrightarrow> xc_Float64 E (VPtr v) = xc_Float64 E v"
  "\<not> plain v \<Longrightarrow> xc_Bool E (VPtr v) = xc_Bool E v"
  by (cases v; simp add: xc_Int64_def xc_Uint64_def xc_Float64_def xc_Bool_def type_switch_def by_kind_def split: option.splits)+

text \<open>The text of a number that is neither a \<open>float32\<close> nor a \<open>complex64\<close>, of a bool or of a string.\<close>

fun scalar_text :: "gval \<Rightarrow> bool" where
  "scalar_text (VFloat64 _) = True"
| "scalar_text (VComplex128 _ _) = True"
| "scalar_text (VBool _) = True"
| "scalar_text (VString _) = True"
| "scalar_text v = (integer_value v \<noteq> None)"

lemma scalar_text_kind: "scalar_text v \<Longrightarrow> same_text v \<and> xc_String_kind E val v = xc_String_kind E v v"
  by (cases v) auto

text \<open>The text of every value, by the value that pointers and defined types lead to.\<close>

lemma String_by_reached:
  assumes "reflect_Value val = Some v"
  shows "xc_String E val = ret (case v of
      VFloat32 x \<Rightarrow> ce_FormatFloat E (ce_widen E x) 102 (if val = v then 32 else 64)
    | VComplex64 r i \<Rightarrow> FormatComplex E (ce_widen E r) (ce_widen E i) 101 (if val = v \<or> val = VPtr v then 64 else 128)
    | VTime u z s \<Rightarrow> if val = v \<or> val = VPtr v then if z then [] else s else json_text E val
    | VSlice t es \<Rightarrow> if t = TUint8 \<and> (val = v \<or> val = VPtr v) then slice_bytes es else json_text E val
    | _ \<Rightarrow> xc_String_kind E val v)"
proof (cases "same_text v")
  case True
  with String_reached [OF assms True] show ?thesis by (cases v) simp_all
next
  case False
  note V = reflect_not_VNil [OF assms] and r = reflect_idem [OF assms]
  consider "val = v" | "val = VPtr v" | (deep) "val \<noteq> v" "val \<noteq> VPtr v" by blast
  then show ?thesis
  proof cases
    case deep
    then show ?thesis
      using False assms
      unfolding xc_String_def if_not_P [OF V] switches_deep [OF assms deep]
      by (cases v) (auto simp: by_kind_def)
  qed (use False r in \<open>cases v; simp add: xc_String_def type_switch_def by_kind_def\<close>)+
qed

text \<open>
  C19: how far the conversions see through pointers and defined types, for every value that leads to
  a value \<open>v\<close>.  Numbers and truth: a pointer to \<open>v\<close> converts like \<open>v\<close>; so does anything that leads to \<open>v\<close>
  unless \<open>v\<close> is a time or a slice, for the type switch and the reflective default agree on all
  other values; a time or a slice behind two pointers or of a defined type is 0, and true unless it is an empty
  slice, whatever it is itself.  Text: the same holds for integers, \<open>float64\<close>, \<open>complex128\<close>, bools and strings; a \<open>float32\<close> is printed with 32
  bits only as itself and a \<open>complex64\<close> with 64 only as itself or behind one pointer; times and byte slices
  keep their text behind one pointer, and everything else is printed as JSON.
\<close>

theorem conversions_see_through:
  assumes "reflect_Value val = Some v"
  shows "(plain v \<or> val = VPtr v \<longrightarrow>
      xc_Int64 E val = xc_Int64 E v \<and> xc_Uint64 E val = xc_Uint64 E v \<and>
      xc_Float64 E val = xc_Float64 E v \<and> xc_Bool E val = xc_Bool E v) \<and>
    (\<not> plain v \<and> val \<noteq> v \<and> val \<noteq> VPtr v \<longrightarrow>
      xc_Int64 E val = ret 0 \<and> xc_Uint64 E val = ret 0 \<and> xc_Float64 E val = ret 0 \<and>
      xc_Bool E val = ret (case v of VSlice t es \<Rightarrow> elems es \<noteq> [] | _ \<Rightarrow> True)) \<and>
    (scalar_text v \<longrightarrow> xc_String E val = xc_String E v) \<and>
    xc_String E val = ret (case v of
        VFloat32 x \<Rightarrow> ce_FormatFloat E (ce_widen E x) 102 (if val = v then 32 else 64)
      | VComplex64 r i \<Rightarrow> FormatComplex E (ce_widen E r) (ce_widen E i) 101 (if val = v \<or> val = VPtr v then 64 else 128)
      | VTime u z s \<Rightarrow> if val = v \<or> val = VPtr v then if z then [] else s else json_text E val
      | VSlice t es \<Rightarrow> if t = TUint8 \<and> (val = v \<or> val = VPtr v) then slice_bytes es else json_text E val
      | _ \<Rightarrow> xc_String_kind E val v)"
proof (intro conjI impI)
  note r = reflect_idem [OF assms]
  have p: "xc_Int64 E val = xc_Int64 E v \<and> xc_Uint64 E val = xc_Uint64 E v \<and>
      xc_Float64 E val = xc_Float64 E v \<and> xc_Bool E val = xc_Bool E v" if "plain v"
    using Int64_reached [OF assms that] Int64_reached [OF r that] Uint64_reached [OF assms that]
      Uint64_reached [OF r that] Float64_reached [OF assms that] Float64_reached [OF r that]
      Bool_reached [OF assms that] Bool_reached [OF r that] by simp
  have "xc_Int64 E val = xc_Int64 E v \<and> xc_Uint64 E val = xc_Uint64 E v \<and>
      xc_Float64 E val = xc_Float64 E v \<and> xc_Bool E val = xc_Bool E v" if "plain v \<or> val = VPtr v"
    using p that conversions_direct [of v E] by (cases "plain v") auto
  then show "xc_Int64 E val = xc_Int64 E v" "xc_Uint64 E val = xc_Uint64 E v"
    "xc_Float64 E val = xc_Float64 E v" "xc_Bool E val = xc_Bool E v" if "plain v \<or> val = VPtr v"
    using that by blast+
  show "xc_String E val = xc_String E v" if "scalar_text v"
    using String_reached [OF assms] String_reached [OF r] scalar_text_kind [OF that] by metis
qed (use conversions_deep [OF assms] String_by_reached [OF assms] in \<open>simp_all\<close>)

lemma conversions_see_through_witness:
  "xc_Int64 sample_env (VPtr (VPtr (VNamed 1 (VString [52, 50])))) = xc_Int64 sample_env (VString [52, 50]) \<and>
   xc_Bool sample_env (VPtr (VNamed 2 (VTime 5 False []))) = ret True"
  using conversions_see_through [of "VPtr (VPtr (VNamed 1 (VString [52, 50])))" "VString [52, 50]" sample_env]
    conversions_see_through [of "VPtr (VNamed 2 (VTime 5 False []))" "VTime 5 False []" sample_env] by simp

end
