(* ===== verification/XconvSlice.thy ===== *)
theory XconvSlice
  imports XconvTables XconvProps
begin

section \<open>Converting a slice is converting its elements\<close>

text \<open>
  Every table of \<open>XconvTables\<close> agrees with the scalar conversion (the lemmas \<open>tables_of\<close> and
  \<open>tables_at\<close>), and so does the default branch; \<open>slice_switch_elementwise\<close> puts the three together.
\<close>

text \<open>The element types that have cases.\<close>

definition slice_types :: "gty list" where
  "slice_types = real_types @ [TString, TBool, TAny, TBytes]"

text \<open>The elements of the slice or array that pointers and defined types lead to.\<close>

definition slice_elems :: "gval \<Rightarrow> gval list" where
  "slice_elems val =
     (case reflect_Value val of Some (VSlice t es) \<Rightarrow> elems es | Some (VArray xs) \<Rightarrow> xs | _ \<Rightarrow> [])"

definition well_typed :: "gval \<Rightarrow> bool" where
  "well_typed val \<longleftrightarrow> (case reflect_Value val of Some (VSlice t es) \<Rightarrow> typed_slice t (elems es) | _ \<Rightarrow> True)"

text \<open>A nil pointer to one of the listed slice types, which the cases dereference.\<close>

definition nil_slice_pointer :: "gval \<Rightarrow> bool" where
  "nil_slice_pointer val \<longleftrightarrow> (case val of VNilPtr (TSlice t) \<Rightarrow> t \<in> set slice_types | _ \<Rightarrow> False)"

lemma slice_switch_elementwise:
  assumes "well_typed val"
    and vals: "\<And>t r. vals t (slice_elems val) = Some r \<Longrightarrow> typed_slice t (slice_elems val) \<Longrightarrow> r = map_go conv (slice_elems val)"
    and ptrs: "\<And>t r. ptrs t (slice_elems val) = Some r \<Longrightarrow> typed_slice t (slice_elems val) \<Longrightarrow> r = map_go conv (slice_elems val)"
    and listed: "\<And>t. ptrs t [] = None \<longleftrightarrow> t \<notin> set slice_types"
  shows "(if val = VNil then ret [] else slice_switch vals ptrs (by_kind (ret []) (slice_kind conv)) val) =
    (if nil_slice_pointer val then panic else map_go conv (slice_elems val))"
proof -
  have d: "by_kind (ret []) (slice_kind conv) val = map_go conv (slice_elems val)"
    by (cases "reflect_Value val") (auto simp: by_kind_def slice_elems_def slice_kind_def split: gval.splits)
  show ?thesis
  proof (cases val)
    case (VSlice t es)
    with assms(1) vals [of t] d show ?thesis
      by (auto simp: slice_switch_def slice_elems_def well_typed_def nil_slice_pointer_def split: option.splits)
  next
    case (VPtr u)
    with assms(1) ptrs d show ?thesis
      by (cases u) (auto simp: slice_switch_def slice_elems_def well_typed_def nil_slice_pointer_def split: option.splits)
  next
    case (VNilPtr t)
    with d listed [of "case t of TSlice u \<Rightarrow> u | _ \<Rightarrow> TAny"] show ?thesis
      by (cases t) (auto simp: slice_switch_def slice_elems_def nil_slice_pointer_def split: option.splits)
  next
    case VNil
    then show ?thesis by (simp add: slice_elems_def nil_slice_pointer_def)
  qed (use d in \<open>simp_all add: slice_switch_def nil_slice_pointer_def\<close>)
qed

subsection \<open>The elements of a typed slice\<close>

lemma narrow_widen:
  "ucast (scast (v :: 8 word) :: 64 word) = v" "ucast (scast (w :: 16 word) :: 64 word) = w"
  "ucast (scast (x :: 32 word) :: 64 word) = x"
  "ucast (ucast (v :: 8 word) :: 64 word) = v" "ucast (ucast (w :: 16 word) :: 64 word) = w"
  "ucast (ucast (x :: 32 word) :: 64 word) = x"
  by (transfer; simp add: take_bit_signed_take_bit)+

lemmas conv_defs = xc_Int_def xc_Int8_def xc_Int16_def xc_Int32_def xc_Int64_def xc_Uint_def
  xc_Uint8_def xc_Uint16_def xc_Uint32_def xc_Uint64_def xc_Float64_def xc_Bool_def xc_String_def
  xc_B_def type_switch_def

text \<open>What the cases that return the slice as it is give is what converting its elements gives.\<close>

lemma own_case:
  assumes "typed_slice t v" "t \<noteq> TAny" "\<And>x. x \<in> set v \<Longrightarrow> ty_of x = t \<Longrightarrow> conv x = ret (f x)"
  shows "map_go conv v = ret (map f v)"
  using assms by (intro map_go_ret) (auto simp: typed_slice_def)

lemma typed_value:
  "ty_of v = TInt \<Longrightarrow> \<exists>x. v = VInt x"
  "ty_of v = TInt8 \<Longrightarrow> \<exists>x. v = VInt8 x"
  "ty_of v = TInt16 \<Longrightarrow> \<exists>x. v = VInt16 x"
  "ty_of v = TInt32 \<Longrightarrow> \<exists>x. v = VInt32 x"
  "ty_of v = TInt64 \<Longrightarrow> \<exists>x. v = VInt64 x"
  "ty_of v = TUint8 \<Longrightarrow> \<exists>x. v = VUint8 x"
  "ty_of v = TUint16 \<Longrightarrow> \<exists>x. v = VUint16 x"
  "ty_of v = TUint32 \<Longrightarrow> \<exists>x. v = VUint32 x"
  "ty_of v = TUint64 \<Longrightarrow> \<exists>x. v = VUint64 x"
  "ty_of v = TFloat32 \<Longrightarrow> \<exists>x. v = VFloat32 x"
  "ty_of v = TFloat64 \<Longrightarrow> \<exists>x. v = VFloat64 x"
  "ty_of v = TBool \<Longrightarrow> \<exists>x. v = VBool x"
  "ty_of v = TString \<Longrightarrow> \<exists>x. v = VString x"
  by (cases v; simp)+

lemma own_cases:
  "typed_slice TInt v \<Longrightarrow> map_go (xc_Int E) v = ret (map the_VInt v)"
  "typed_slice TInt8 v \<Longrightarrow> map_go (xc_Int8 E) v = ret (map the_VInt8 v)"
  "typed_slice TInt16 v \<Longrightarrow> map_go (xc_Int16 E) v = ret (map the_VInt16 v)"
  "typed_slice TInt32 v \<Longrightarrow> map_go (xc_Int32 E) v = ret (map the_VInt32 v)"
  "typed_slice TInt64 v \<Longrightarrow> map_go (xc_Int64 E) v = ret (map the_VInt64 v)"
  "typed_slice TUint8 v \<Longrightarrow> map_go (xc_Uint8 E) v = ret (map the_VUint8 v)"
  "typed_slice TUint16 v \<Longrightarrow> map_go (xc_Uint16 E) v = ret (map the_VUint16 v)"
  "typed_slice TUint32 v \<Longrightarrow> map_go (xc_Uint32 E) v = ret (map the_VUint32 v)"
  "typed_slice TUint64 v \<Longrightarrow> map_go (xc_Uint64 E) v = ret (map the_VUint64 v)"
  "typed_slice TFloat64 v \<Longrightarrow> map_go (xc_Float64 E) v = ret (map the_VFloat64 v)"
  "typed_slice TBool v \<Longrightarrow> map_go (xc_Bool E) v = ret (map the_VBool v)"
  "typed_slice TString v \<Longrightarrow> map_go (xc_String E) v = ret (map the_VString v)"
  "typed_slice TFloat64 v \<Longrightarrow> map_go (xc_B E) v = ret (map the_VFloat64 v)"
  by (erule own_case; auto simp: conv_defs narrow_widen dest!: typed_value)+

lemma own_case_bools: "typed_slice TBool v \<Longrightarrow> map_go (xc_B E) v = ret (replicate (length v) 0)"
  unfolding map_replicate_const [symmetric]
  by (erule own_case; auto simp: conv_defs dest!: typed_value)

lemma own_case_Float32:
  assumes "typed_slice TFloat32 v" "\<And>w. VFloat32 w \<in> set v \<Longrightarrow> ce_narrow E (ce_widen E w) = w"
  shows "map_go (xc_Float32 E) v = ret (map the_VFloat32 v)"
  using assms by (intro own_case [of TFloat32]) (auto simp: conv_defs xc_Float32_def dest!: typed_value)

subsection \<open>The tables\<close>

lemma tables_of:
  "xc_Ints_of E t v = Some r \<Longrightarrow> typed_slice t v \<Longrightarrow> r = map_go (xc_Int E) v"
  "xc_Int8s_of E t v = Some r8 \<Longrightarrow> typed_slice t v \<Longrightarrow> r8 = map_go (xc_Int8 E) v"
  "xc_Int16s_of E t v = Some r16 \<Longrightarrow> typed_slice t v \<Longrightarrow> r16 = map_go (xc_Int16 E) v"
  "xc_Int32s_of E t v = Some r32 \<Longrightarrow> typed_slice t v \<Longrightarrow> r32 = map_go (xc_Int32 E) v"
  "xc_Int64s_of E t v = Some r \<Longrightarrow> typed_slice t v \<Longrightarrow> r = map_go (xc_Int64 E) v"
  "xc_Uints_of E t v = Some r \<Longrightarrow> typed_slice t v \<Longrightarrow> r = map_go (xc_Uint E) v"
  "xc_Uint8s_of E t v = Some r8 \<Longrightarrow> typed_slice t v \<Longrightarrow> r8 = map_go (xc_Uint8 E) v"
  "xc_Uint16s_of E t v = Some r16 \<Longrightarrow> typed_slice t v \<Longrightarrow> r16 = map_go (xc_Uint16 E) v"
  "xc_Uint32s_of E t v = Some r32 \<Longrightarrow> typed_slice t v \<Longrightarrow> r32 = map_go (xc_Uint32 E) v"
  "xc_Uint64s_of E t v = Some r \<Longrightarrow> typed_slice t v \<Longrightarrow> r = map_go (xc_Uint64 E) v"
  "xc_Float64s_of E t v = Some r \<Longrightarrow> typed_slice t v \<Longrightarrow> r = map_go (xc_Float64 E) v"
  "xc_Bools_of E t v = Some rb \<Longrightarrow> typed_slice t v \<Longrightarrow> rb = map_go (xc_Bool E) v"
  "xc_Strings_of E t v = Some rs \<Longrightarrow> typed_slice t v \<Longrightarrow> rs = map_go (xc_String E) v"
  "xc_Durations_of E t v = Some r \<Longrightarrow> typed_slice t v \<Longrightarrow> r = map_go (xc_Duration E) v"
  "xc_Bs_of E t v = Some r \<Longrightarrow> typed_slice t v \<Longrightarrow> r = map_go (xc_B E) v"
  unfolding xc_Ints_of_def xc_Int8s_of_def xc_Int16s_of_def xc_Int32s_of_def xc_Int64s_of_def xc_Uints_of_def xc_Uint8s_of_def xc_Uint16s_of_def xc_Uint32s_of_def xc_Uint64s_of_def xc_Float64s_of_def xc_Bools_of_def xc_Strings_of_def xc_Durations_of_def xc_Bs_of_def
  by (simp add: own_cases own_case_bools split: gty.split_asm)+

lemma tables_at:
  "xc_Ints_at E t v = Some r \<Longrightarrow> typed_slice t v \<Longrightarrow> r = map_go (xc_Int E) v"
  "xc_Int8s_at E t v = Some r8 \<Longrightarrow> typed_slice t v \<Longrightarrow> r8 = map_go (xc_Int8 E) v"
  "xc_Int16s_at E t v = Some r16 \<Longrightarrow> typed_slice t v \<Longrightarrow> r16 = map_go (xc_Int16 E) v"
  "xc_Int32s_at E t v = Some r32 \<Longrightarrow> typed_slice t v \<Longrightarrow> r32 = map_go (xc_Int32 E) v"
  "xc_Int64s_at E t v = Some r \<Longrightarrow> typed_slice t v \<Longrightarrow> r = map_go (xc_Int64 E) v"
  "xc_Uints_at E t v = Some r \<Longrightarrow> typed_slice t v \<Longrightarrow> r = map_go (xc_Uint E) v"
  "xc_Uint8s_at E t v = Some r8 \<Longrightarrow> typed_slice t v \<Longrightarrow> r8 = map_go (xc_Uint8 E) v"
  "xc_Uint16s_at E t v = Some r16 \<Longrightarrow> typed_slice t v \<Longrightarrow> r16 = map_go (xc_Uint16 E) v"
  "xc_Uint32s_at E t v = Some r32 \<Longrightarrow> typed_slice t v \<Longrightarrow> r32 = map_go (xc_Uint32 E) v"
  "xc_Uint64s_at E t v = Some r \<Longrightarrow> typed_slice t v \<Longrightarrow> r = map_go (xc_Uint64 E) v"
  "xc_Float64s_at E t v = Some r \<Longrightarrow> typed_slice t v \<Longrightarrow> r = map_go (xc_Float64 E) v"
  "xc_Bools_at E t v = Some rb \<Longrightarrow> typed_slice t v \<Longrightarrow> rb = map_go (xc_Bool E) v"
  "xc_Strings_at E t v = Some rs \<Longrightarrow> typed_slice t v \<Longrightarrow> rs = map_go (xc_String E) v"
  "xc_Durations_at E t v = Some r \<Longrightarrow> typed_slice t v \<Longrightarrow> r = map_go (xc_Duration E) v"
  "xc_Bs_at E t v = Some r \<Longrightarrow> typed_slice t v \<Longrightarrow> r = map_go (xc_B E) v"
  unfolding xc_Ints_at_def xc_Int8s_at_def xc_Int16s_at_def xc_Int32s_at_def xc_Int64s_at_def xc_Uints_at_def xc_Uint8s_at_def xc_Uint16s_at_def xc_Uint32s_at_def xc_Uint64s_at_def xc_Float64s_at_def xc_Bools_at_def xc_Strings_at_def xc_Durations_at_def xc_Bs_at_def
  by (simp add: own_cases own_case_bools split: gty.split_asm)+

lemma table_Float32s_of:
  assumes "xc_Float32s_of E t v = Some r" "typed_slice t v" "\<And>w. VFloat32 w \<in> set v \<Longrightarrow> ce_narrow E (ce_widen E w) = w"
  shows "r = map_go (xc_Float32 E) v"
  using assms own_case_Float32 [of v E] by (cases t) (simp_all add: xc_Float32s_of_def split: gty.split_asm)

lemma table_Float32s_at:
  assumes "xc_Float32s_at E t v = Some r" "typed_slice t v" "\<And>w. VFloat32 w \<in> set v \<Longrightarrow> ce_narrow E (ce_widen E w) = w"
  shows "r = map_go (xc_Float32 E) v"
  using assms own_case_Float32 [of v E] by (cases t) (simp_all add: xc_Float32s_at_def split: gty.split_asm)

text \<open>Every table lists the same types.\<close>

lemma tables_listed:
  "xc_Ints_at E t [] = None \<longleftrightarrow> t \<notin> set slice_types"
  "xc_Int8s_at E t [] = None \<longleftrightarrow> t \<notin> set slice_types"
  "xc_Int16s_at E t [] = None \<longleftrightarrow> t \<notin> set slice_types"
  "xc_Int32s_at E t [] = None \<longleftrightarrow> t \<notin> set slice_types"
  "xc_Int64s_at E t [] = None \<longleftrightarrow> t \<notin> set slice_types"
  "xc_Uints_at E t [] = None \<longleftrightarrow> t \<notin> set slice_types"
  "xc_Uint8s_at E t [] = None \<longleftrightarrow> t \<notin> set slice_types"
  "xc_Uint16s_at E t [] = None \<longleftrightarrow> t \<notin> set slice_types"
  "xc_Uint32s_at E t [] = None \<longleftrightarrow> t \<notin> set slice_types"
  "xc_Uint64s_at E t [] = None \<longleftrightarrow> t \<notin> set slice_types"
  "xc_Float64s_at E t [] = None \<longleftrightarrow> t \<notin> set slice_types"
  "xc_Bools_at E t [] = None \<longleftrightarrow> t \<notin> set slice_types"
  "xc_Strings_at E t [] = None \<longleftrightarrow> t \<notin> set slice_types"
  "xc_Durations_at E t [] = None \<longleftrightarrow> t \<notin> set slice_types"
  "xc_Bs_at E t [] = None \<longleftrightarrow> t \<notin> set slice_types"
  "xc_Float32s_at E t [] = None \<longleftrightarrow> t \<notin> set slice_types"
  unfolding slice_types_def real_types_def number_types_def xc_Ints_at_def xc_Int8s_at_def xc_Int16s_at_def xc_Int32s_at_def xc_Int64s_at_def xc_Uints_at_def xc_Uint8s_at_def xc_Uint16s_at_def xc_Uint32s_at_def xc_Uint64s_at_def xc_Float64s_at_def xc_Bools_at_def xc_Strings_at_def xc_Durations_at_def xc_Bs_at_def xc_Float32s_at_def
  by (cases t; simp split: gty.split)+

lemma elementwise:
  assumes "well_typed val"
  shows "xc_Ints E val = (if nil_slice_pointer val then panic else map_go (xc_Int E) (slice_elems val))"
    "xc_Int8s E val = (if nil_slice_pointer val then panic else map_go (xc_Int8 E) (slice_elems val))"
    "xc_Int16s E val = (if nil_slice_pointer val then panic else map_go (xc_Int16 E) (slice_elems val))"
    "xc_Int32s E val = (if nil_slice_pointer val then panic else map_go (xc_Int32 E) (slice_elems val))"
    "xc_Int64s E val = (if nil_slice_pointer val then panic else map_go (xc_Int64 E) (slice_elems val))"
    "xc_Uints E val = (if nil_slice_pointer val then panic else map_go (xc_Uint E) (slice_elems val))"
    "xc_Uint8s E val = (if nil_slice_pointer val then panic else map_go (xc_Uint8 E) (slice_elems val))"
    "xc_Uint16s E val = (if nil_slice_pointer val then panic else map_go (xc_Uint16 E) (slice_elems val))"
    "xc_Uint32s E val = (if nil_slice_pointer val then panic else map_go (xc_Uint32 E) (slice_elems val))"
    "xc_Uint64s E val = (if nil_slice_pointer val then panic else map_go (xc_Uint64 E) (slice_elems val))"
    "xc_Float64s E val = (if nil_slice_pointer val then panic else map_go (xc_Float64 E) (slice_elems val))"
    "xc_Bools E val = (if nil_slice_pointer val then panic else map_go (xc_Bool E) (slice_elems val))"
    "xc_Strings E val = (if nil_slice_pointer val then panic else map_go (xc_String E) (slice_elems val))"
    "xc_Durations E val = (if nil_slice_pointer val then panic else map_go (xc_Duration E) (slice_elems val))"
    "xc_Bs E val = (if nil_slice_pointer val then panic else map_go (xc_B E) (slice_elems val))"
  unfolding xc_Ints_def xc_Int8s_def xc_Int16s_def xc_Int32s_def xc_Int64s_def xc_Uints_def xc_Uint8s_def xc_Uint16s_def xc_Uint32s_def xc_Uint64s_def xc_Float64s_def xc_Bools_def xc_Strings_def xc_Durations_def xc_Bs_def
  by (rule slice_switch_elementwise [OF assms]; (rule tables_listed | erule (1) tables_of | erule (1) tables_at))+

text \<open>
  C18: converting a slice is converting its elements, for every value whose slices hold elements of
  their element type: each slice conversion follows pointers and defined types to a slice or array and gives what the
  scalar conversion gives on its elements, in order; it panics exactly when that panics on one of them, or on a
  nil pointer to one of the 18 slice types of its switch; anything that leads to no slice or array gives the empty list.
  So the 36 cases of each type switch, the slices returned unconverted (and the zeros of \<open>Bs\<close> for bools)
  and the reflective default agree.  \<open>Float32s\<close> returns a \<open>[]float32\<close> unconverted, where converting the elements widens and narrows them:
  it agrees for the elements that this leaves as they are.
\<close>

theorem slices_elementwise:
  assumes "well_typed val"
  shows "xc_Ints E val = (if nil_slice_pointer val then panic else map_go (xc_Int E) (slice_elems val)) \<and>
    xc_Int8s E val = (if nil_slice_pointer val then panic else map_go (xc_Int8 E) (slice_elems val)) \<and>
    xc_Int16s E val = (if nil_slice_pointer val then panic else map_go (xc_Int16 E) (slice_elems val)) \<and>
    xc_Int32s E val = (if nil_slice_pointer val then panic else map_go (xc_Int32 E) (slice_elems val)) \<and>
    xc_Int64s E val = (if nil_slice_pointer val then panic else map_go (xc_Int64 E) (slice_elems val)) \<and>
    xc_Uints E val = (if nil_slice_pointer val then panic else map_go (xc_Uint E) (slice_elems val)) \<and>
    xc_Uint8s E val = (if nil_slice_pointer val then panic else map_go (xc_Uint8 E) (slice_elems val)) \<and>
    xc_Uint16s E val = (if nil_slice_pointer val then panic else map_go (xc_Uint16 E) (slice_elems val)) \<and>
    xc_Uint32s E val = (if nil_slice_pointer val then panic else map_go (xc_Uint32 E) (slice_elems val)) \<and>
    xc_Uint64s E val = (if nil_slice_pointer val then panic else map_go (xc_Uint64 E) (slice_elems val)) \<and>
    xc_Float64s E val = (if nil_slice_pointer val then panic else map_go (xc_Float64 E) (slice_elems val)) \<and>
    xc_Bools E val = (if nil_slice_pointer val then panic else map_go (xc_Bool E) (slice_elems val)) \<and>
    xc_Strings E val = (if nil_slice_pointer val then panic else map_go (xc_String E) (slice_elems val)) \<and>
    xc_Durations E val = (if nil_slice_pointer val then panic else map_go (xc_Duration E) (slice_elems val)) \<and>
    xc_Bs E val = (if nil_slice_pointer val then panic else map_go (xc_B E) (slice_elems val)) \<and>
    xc_Runes E val = (if nil_slice_pointer val then panic else map_go (xc_Rune E) (slice_elems val)) \<and>
    ((\<forall>w. VFloat32 w \<in> set (slice_elems val) \<longrightarrow> ce_narrow E (ce_widen E w) = w) \<longrightarrow>
       xc_Float32s E val = (if nil_slice_pointer val then panic else map_go (xc_Float32 E) (slice_elems val)))"
proof -
  have r: "xc_Rune E = xc_Int32 E" by (simp add: xc_Rune_def fun_eq_iff)
  have f: "xc_Float32s E val = (if nil_slice_pointer val then panic else map_go (xc_Float32 E) (slice_elems val))"
    if "\<forall>w. VFloat32 w \<in> set (slice_elems val) \<longrightarrow> ce_narrow E (ce_widen E w) = w"
    unfolding xc_Float32s_def using that
    by (intro slice_switch_elementwise [OF assms] tables_listed) (auto dest: table_Float32s_of table_Float32s_at)
  show ?thesis
    unfolding r xc_Runes_def by (intro conjI impI elementwise [OF assms] f)
qed

lemma slices_elementwise_witness:
  "xc_Int64s sample_env (VPtr (VSlice TAny (Some [VInt8 (- 3), VNil, VString [49, 50]]))) = ret [- 3, 0, 12] \<and>
   xc_Strings sample_env (VPtr (VSlice TAny (Some [VInt8 (- 3), VNil, VString [49, 50]]))) = ret [[45, 51], [], [49, 50]]"
  using slices_elementwise [of "VPtr (VSlice TAny (Some [VInt8 (- 3), VNil, VString [49, 50]]))" sample_env]
  by (simp add: well_typed_def slice_elems_def nil_slice_pointer_def typed_slice_def elems_def conv_defs by_kind_def
      ParseInt10_def ParseUint10_def digit_value_def FormatInt_def dec_digits.simps)

end
