(* ===== verification/Xvalue.thy ===== *)
theory Xvalue
  imports XconvSlice
begin

section \<open>The dynamic value wrapper\<close>

text \<open>
  src/utils/xvalue: a value of any type with a method for each conversion of xconv, predicates on
  its kind, and \<open>Scan\<close>, which stores the value converted to the type of the pointer it is given, or
  goes through JSON when that type is not one of the predeclared ones.  \<open>json.Unmarshal\<close> is a
  parameter: on bytes and the type of the target it gives an error or the new contents.
\<close>

record xvalue =
  v_any :: gval

definition NewValue :: "gval list \<Rightarrow> xvalue" where
  "NewValue vs = (case vs of [] \<Rightarrow> \<lparr>v_any = VNil\<rparr> | v # _ \<Rightarrow> \<lparr>v_any = v\<rparr>)"

definition val_Value :: "xvalue \<Rightarrow> gval" where
  "val_Value v = v_any v"

subsection \<open>Conversions\<close>

definition val_Int :: "conv_env \<Rightarrow> xvalue \<Rightarrow> 64 word go" where
  "val_Int E v = xc_Int E (val_Value v)"

definition val_Int8 :: "conv_env \<Rightarrow> xvalue \<Rightarrow> 8 word go" where
  "val_Int8 E v = xc_Int8 E (val_Value v)"

definition val_Int16 :: "conv_env \<Rightarrow> xvalue \<Rightarrow> 16 word go" where
  "val_Int16 E v = xc_Int16 E (val_Value v)"

definition val_Int32 :: "conv_env \<Rightarrow> xvalue \<Rightarrow> 32 word go" where
  "val_Int32 E v = xc_Int32 E (val_Value v)"

definition val_Int64 :: "conv_env \<Rightarrow> xvalue \<Rightarrow> 64 word go" where
  "val_Int64 E v = xc_Int64 E (val_Value v)"

definition val_Uint :: "conv_env \<Rightarrow> xvalue \<Rightarrow> 64 word go" where
  "val_Uint E v = xc_Uint E (val_Value v)"

definition val_Uint8 :: "conv_env \<Rightarrow> xvalue \<Rightarrow> 8 word go" where
  "val_Uint8 E v = xc_Uint8 E (val_Value v)"

definition val_Uint16 :: "conv_env \<Rightarrow> xvalue \<Rightarrow> 16 word go" where
  "val_Uint16 E v = xc_Uint16 E (val_Value v)"

definition val_Uint32 :: "conv_env \<Rightarrow> xvalue \<Rightarrow> 32 word go" where
  "val_Uint32 E v = xc_Uint32 E (val_Value v)"

definition val_Uint64 :: "conv_env \<Rightarrow> xvalue \<Rightarrow> 64 word go" where
  "val_Uint64 E v = xc_Uint64 E (val_Value v)"

definition val_Float32 :: "conv_env \<Rightarrow> xvalue \<Rightarrow> 32 word go" where
  "val_Float32 E v = xc_Float32 E (val_Value v)"

definition val_Float64 :: "conv_env \<Rightarrow> xvalue \<Rightarrow> 64 word go" where
  "val_Float64 E v = xc_Float64 E (val_Value v)"

definition val_Rune :: "conv_env \<Rightarrow> xvalue \<Rightarrow> 32 word go" where
  "val_Rune E v = xc_Rune E (val_Value v)"

definition val_Bool :: "conv_env \<Rightarrow> xvalue \<Rightarrow> bool go" where
  "val_Bool E v = xc_Bool E (val_Value v)"

definition val_String :: "conv_env \<Rightarrow> xvalue \<Rightarrow> byte list go" where
  "val_String E v = xc_String E (val_Value v)"

definition val_B :: "conv_env \<Rightarrow> xvalue \<Rightarrow> 64 word go" where
  "val_B E v = xc_B E (val_Value v)"

definition val_Duration :: "conv_env \<Rightarrow> xvalue \<Rightarrow> 64 word go" where
  "val_Duration E v = xc_Duration E (val_Value v)"

definition val_Ints :: "conv_env \<Rightarrow> xvalue \<Rightarrow> 64 word list go" where
  "val_Ints E v = xc_Ints E (val_Value v)"

definition val_Int8s :: "conv_env \<Rightarrow> xvalue \<Rightarrow> 8 word list go" where
  "val_Int8s E v = xc_Int8s E (val_Value v)"

definition val_Int16s :: "conv_env \<Rightarrow> xvalue \<Rightarrow> 16 word list go" where
  "val_Int16s E v = xc_Int16s E (val_Value v)"

definition val_Int32s :: "conv_env \<Rightarrow> xvalue \<Rightarrow> 32 word list go" where
  "val_Int32s E v = xc_Int32s E (val_Value v)"

definition val_Int64s :: "conv_env \<Rightarrow> xvalue \<Rightarrow> 64 word list go" where
  "val_Int64s E v = xc_Int64s E (val_Value v)"

definition val_Uints :: "conv_env \<Rightarrow> xvalue \<Rightarrow> 64 word list go" where
  "val_Uints E v = xc_Uints E (val_Value v)"

definition val_Uint8s :: "conv_env \<Rightarrow> xvalue \<Rightarrow> 8 word list go" where
  "val_Uint8s E v = xc_Uint8s E (val_Value v)"

definition val_Uint16s :: "conv_env \<Rightarrow> xvalue \<Rightarrow> 16 word list go" where
  "val_Uint16s E v = xc_Uint16s E (val_Value v)"

definition val_Uint32s :: "conv_env \<Rightarrow> xvalue \<Rightarrow> 32 word list go" where
  "val_Uint32s E v = xc_Uint32s E (val_Value v)"

definition val_Uint64s :: "conv_env \<Rightarrow> xvalue \<Rightarrow> 64 word list go" where
  "val_Uint64s E v = xc_Uint64s E (val_Value v)"

definition val_Float32s :: "conv_env \<Rightarrow> xvalue \<Rightarrow> 32 word list go" where
  "val_Float32s E v = xc_Float32s E (val_Value v)"

definition val_Float64s :: "conv_env \<Rightarrow> xvalue \<Rightarrow> 64 word list go" where
  "val_Float64s E v = xc_Float64s E (val_Value v)"

definition val_Runes :: "conv_env \<Rightarrow> xvalue \<Rightarrow> 32 word list go" where
  "val_Runes E v = xc_Runes E (val_Value v)"

definition val_Bools :: "conv_env \<Rightarrow> xvalue \<Rightarrow> bool list go" where
  "val_Bools E v = xc_Bools E (val_Value v)"

definition val_Strings :: "conv_env \<Rightarrow> xvalue \<Rightarrow> byte list list go" where
  "val_Strings E v = xc_Strings E (val_Value v)"

definition val_Bs :: "conv_env \<Rightarrow> xvalue \<Rightarrow> 64 word list go" where
  "val_Bs E v = xc_Bs E (val_Value v)"

definition val_Durations :: "conv_env \<Rightarrow> xvalue \<Rightarrow> 64 word list go" where
  "val_Durations E v = xc_Durations E (val_Value v)"

definition val_Bytes :: "conv_env \<Rightarrow> xvalue \<Rightarrow> byte list go" where
  "val_Bytes E v = xc_Bytes E (val_Value v)"

definition val_Slice :: "xvalue \<Rightarrow> gval list" where
  "val_Slice v = xc_Anys (val_Value v)"

subsection \<open>Scan\<close>

definition scan_json ::
  "conv_env \<Rightarrow> (byte list \<Rightarrow> gty \<Rightarrow> 'e + gval) \<Rightarrow> 'e \<Rightarrow> xvalue \<Rightarrow> gty \<Rightarrow> ('e + gval) go" where
  "scan_json E unmarshal marshal_err v t =
     (case val_Value v of
        VString _ \<Rightarrow> do { b \<leftarrow> val_Bytes E v; ret (unmarshal b t) }
      | VPtr (VString _) \<Rightarrow> do { b \<leftarrow> val_Bytes E v; ret (unmarshal b t) }
      | VNilPtr TString \<Rightarrow> do { b \<leftarrow> val_Bytes E v; ret (unmarshal b t) }
      | VSlice TUint8 _ \<Rightarrow> do { b \<leftarrow> val_Bytes E v; ret (unmarshal b t) }
      | VPtr (VSlice TUint8 _) \<Rightarrow> do { b \<leftarrow> val_Bytes E v; ret (unmarshal b t) }
      | VNilPtr (TSlice TUint8) \<Rightarrow> do { b \<leftarrow> val_Bytes E v; ret (unmarshal b t) }
      | val \<Rightarrow> ret (case ce_Marshal E val of None \<Rightarrow> Inl marshal_err | Some b \<Rightarrow> unmarshal b t))"

definition val_Scan ::
  "conv_env \<Rightarrow> (byte list \<Rightarrow> gty \<Rightarrow> 'e + gval) \<Rightarrow> 'e \<Rightarrow> xvalue \<Rightarrow> gty \<Rightarrow> ('e + gval) go" where
  "val_Scan E unmarshal marshal_err v t =
     (case t of
        TInt \<Rightarrow> do { x \<leftarrow> val_Int E v; ret (Inr (VInt x)) }
      | TInt8 \<Rightarrow> do { x \<leftarrow> val_Int8 E v; ret (Inr (VInt8 x)) }
      | TInt16 \<Rightarrow> do { x \<leftarrow> val_Int16 E v; ret (Inr (VInt16 x)) }
      | TInt32 \<Rightarrow> do { x \<leftarrow> val_Int32 E v; ret (Inr (VInt32 x)) }
      | TInt64 \<Rightarrow> do { x \<leftarrow> val_Int64 E v; ret (Inr (VInt64 x)) }
      | TUint \<Rightarrow> do { x \<leftarrow> val_Uint E v; ret (Inr (VUint x)) }
      | TUint8 \<Rightarrow> do { x \<leftarrow> val_Uint8 E v; ret (Inr (VUint8 x)) }
      | TUint16 \<Rightarrow> do { x \<leftarrow> val_Uint16 E v; ret (Inr (VUint16 x)) }
      | TUint32 \<Rightarrow> do { x \<leftarrow> val_Uint32 E v; ret (Inr (VUint32 x)) }
      | TUint64 \<Rightarrow> do { x \<leftarrow> val_Uint64 E v; ret (Inr (VUint64 x)) }
      | TFloat32 \<Rightarrow> do { x \<leftarrow> val_Float32 E v; ret (Inr (VFloat32 x)) }
      | TFloat64 \<Rightarrow> do { x \<leftarrow> val_Float64 E v; ret (Inr (VFloat64 x)) }
      | TBool \<Rightarrow> do { x \<leftarrow> val_Bool E v; ret (Inr (VBool x)) }
      | TString \<Rightarrow> do { x \<leftarrow> val_String E v; ret (Inr (VString x)) }
      | TDuration \<Rightarrow> do { x \<leftarrow> val_Duration E v; ret (Inr (VDuration x)) }
      | _ \<Rightarrow> scan_json E unmarshal marshal_err v t)"

subsection \<open>Kinds\<close>

datatype gkind =
    KInvalid | KBool | KInt | KInt8 | KInt16 | KInt32 | KInt64 | KUint | KUint8 | KUint16 | KUint32
  | KUint64 | KUintptr | KFloat32 | KFloat64 | KComplex64 | KComplex128 | KArray | KChan | KFunc
  | KInterface | KMap | KSlice | KString | KStruct | KUnsafePointer

fun kind_of :: "gval \<Rightarrow> gkind" where
  "kind_of (VBool x) = KBool"
| "kind_of (VInt x) = KInt"
| "kind_of (VInt8 x) = KInt8"
| "kind_of (VInt16 x) = KInt16"
| "kind_of (VInt32 x) = KInt32"
| "kind_of (VInt64 x) = KInt64"
| "kind_of (VDuration x) = KInt64"
| "kind_of (VUint x) = KUint"
| "kind_of (VUint8 x) = KUint8"
| "kind_of (VUint16 x) = KUint16"
| "kind_of (VUint32 x) = KUint32"
| "kind_of (VUint64 x) = KUint64"
| "kind_of (VUintptr x) = KUintptr"
| "kind_of (VFloat32 x) = KFloat32"
| "kind_of (VFloat64 x) = KFloat64"
| "kind_of (VComplex64 r i) = KComplex64"
| "kind_of (VComplex128 r i) = KComplex128"
| "kind_of (VArray xs) = KArray"
| "kind_of (VChan n m) = KChan"
| "kind_of (VFunc n m) = KFunc"
| "kind_of (VIface v) = KInterface"
| "kind_of (VMap n m) = KMap"
| "kind_of (VSlice t es) = KSlice"
| "kind_of (VString s) = KString"
| "kind_of (VStruct m) = KStruct"
| "kind_of (VTime u z s) = KStruct"
| "kind_of (VUnsafePointer x) = KUnsafePointer"
| "kind_of _ = KInvalid"

definition val_Kind :: "xvalue \<Rightarrow> gkind" where
  "val_Kind v = by_kind KInvalid kind_of (v_any v)"

definition val_IsBool :: "xvalue \<Rightarrow> bool" where
  "val_IsBool v \<longleftrightarrow> by_kind KInvalid kind_of (v_any v) = KBool"

definition val_IsString :: "xvalue \<Rightarrow> bool" where
  "val_IsString v \<longleftrightarrow> by_kind KInvalid kind_of (v_any v) = KString"

definition val_IsNumber :: "xvalue \<Rightarrow> bool" where
  "val_IsNumber v \<longleftrightarrow> by_kind KInvalid kind_of (v_any v) \<in>
     {KInt, KInt8, KInt16, KInt32, KInt64, KUint, KUint8, KUint16, KUint32, KUint64, KFloat32, KFloat64}"

definition val_IsComplex :: "xvalue \<Rightarrow> bool" where
  "val_IsComplex v \<longleftrightarrow> by_kind KInvalid kind_of (v_any v) \<in> {KComplex64, KComplex128}"

definition val_IsMap :: "xvalue \<Rightarrow> bool" where
  "val_IsMap v \<longleftrightarrow> by_kind KInvalid kind_of (v_any v) = KMap"

definition val_IsSlice :: "xvalue \<Rightarrow> bool" where
  "val_IsSlice v \<longleftrightarrow> by_kind KInvalid kind_of (v_any v) = KSlice"

definition val_IsArray :: "xvalue \<Rightarrow> bool" where
  "val_IsArray v \<longleftrightarrow> by_kind KInvalid kind_of (v_any v) = KArray"

definition val_IsStruct :: "xvalue \<Rightarrow> bool" where
  "val_IsStruct v \<longleftrightarrow> by_kind KInvalid kind_of (v_any v) = KStruct"

definition val_IsInterface :: "xvalue \<Rightarrow> bool" where
  "val_IsInterface v \<longleftrightarrow> by_kind KInvalid kind_of (v_any v) = KInterface"

lemma number_reached:
  "val_IsNumber v \<Longrightarrow> \<exists>u. reflect_Value (v_any v) = Some u \<and> plain u"
  by (cases "reflect_Value (v_any v)") (auto simp: val_IsNumber_def by_kind_def elim: kind_of.elims)

lemma scan_again:
  "xc_Int64 E (VInt i) = ret i" "xc_Int64 E (VInt64 i) = ret i" "xc_Uint64 E (VUint i) = ret i" "xc_Uint64 E (VUint64 i) = ret i"
  "xc_Int64 E (VInt8 (a :: 8 word)) = ret (scast a)" "xc_Int64 E (VInt16 (b :: 16 word)) = ret (scast b)"
  "xc_Int64 E (VInt32 (c :: 32 word)) = ret (scast c)"
  "xc_Uint64 E (VUint8 a) = ret (ucast a)" "xc_Uint64 E (VUint16 b) = ret (ucast b)" "xc_Uint64 E (VUint32 c) = ret (ucast c)"
  "xc_Float64 E (VFloat64 i) = ret i" "xc_Bool E (VBool d) = ret d"
  by (simp_all add: xc_Int64_def xc_Uint64_def xc_Float64_def xc_Bool_def type_switch_def)

text \<open>
  C20: a value that calls itself a number, itself, behind pointers or of a defined type, converts to
  every number type and to bool without a panic: the signed conversions are the low bits of one 64-bit number, the unsigned
  ones those of another, and \<open>Float32\<close> is the narrowed \<open>Float64\<close>.  \<open>Scan\<close> into each of these types
  never fails and stores exactly what the conversion gives; and what it stored in an integer, a \<open>float64\<close> or a bool
  is stored again unchanged by a second \<open>Scan\<close>.
\<close>

theorem number_conversions_total:
  assumes "val_IsNumber v"
  shows "\<exists>i u f b.
    val_Int E v = ret i \<and> val_Scan E unmarshal err v TInt = ret (Inr (VInt i)) \<and>
    val_Int8 E v = ret (ucast i) \<and> val_Scan E unmarshal err v TInt8 = ret (Inr (VInt8 (ucast i))) \<and>
    val_Int16 E v = ret (ucast i) \<and> val_Scan E unmarshal err v TInt16 = ret (Inr (VInt16 (ucast i))) \<and>
    val_Int32 E v = ret (ucast i) \<and> val_Scan E unmarshal err v TInt32 = ret (Inr (VInt32 (ucast i))) \<and>
    val_Int64 E v = ret i \<and> val_Scan E unmarshal err v TInt64 = ret (Inr (VInt64 i)) \<and>
    val_Uint E v = ret u \<and> val_Scan E unmarshal err v TUint = ret (Inr (VUint u)) \<and>
    val_Uint8 E v = ret (ucast u) \<and> val_Scan E unmarshal err v TUint8 = ret (Inr (VUint8 (ucast u))) \<and>
    val_Uint16 E v = ret (ucast u) \<and> val_Scan E unmarshal err v TUint16 = ret (Inr (VUint16 (ucast u))) \<and>
    val_Uint32 E v = ret (ucast u) \<and> val_Scan E unmarshal err v TUint32 = ret (Inr (VUint32 (ucast u))) \<and>
    val_Uint64 E v = ret u \<and> val_Scan E unmarshal err v TUint64 = ret (Inr (VUint64 u)) \<and>
    val_Float32 E v = ret (ce_narrow E f) \<and> val_Scan E unmarshal err v TFloat32 = ret (Inr (VFloat32 (ce_narrow E f))) \<and>
    val_Float64 E v = ret f \<and> val_Scan E unmarshal err v TFloat64 = ret (Inr (VFloat64 f)) \<and>
    val_Bool E v = ret b \<and> val_Scan E unmarshal err v TBool = ret (Inr (VBool b)) \<and>
    val_Scan E unmarshal err (NewValue [VInt i]) TInt = ret (Inr (VInt i)) \<and>
    val_Scan E unmarshal err (NewValue [VInt8 (ucast i)]) TInt8 = ret (Inr (VInt8 (ucast i))) \<and>
    val_Scan E unmarshal err (NewValue [VInt16 (ucast i)]) TInt16 = ret (Inr (VInt16 (ucast i))) \<and>
    val_Scan E unmarshal err (NewValue [VInt32 (ucast i)]) TInt32 = ret (Inr (VInt32 (ucast i))) \<and>
    val_Scan E unmarshal err (NewValue [VInt64 i]) TInt64 = ret (Inr (VInt64 i)) \<and>
    val_Scan E unmarshal err (NewValue [VUint u]) TUint = ret (Inr (VUint u)) \<and>
    val_Scan E unmarshal err (NewValue [VUint8 (ucast u)]) TUint8 = ret (Inr (VUint8 (ucast u))) \<and>
    val_Scan E unmarshal err (NewValue [VUint16 (ucast u)]) TUint16 = ret (Inr (VUint16 (ucast u))) \<and>
    val_Scan E unmarshal err (NewValue [VUint32 (ucast u)]) TUint32 = ret (Inr (VUint32 (ucast u))) \<and>
    val_Scan E unmarshal err (NewValue [VUint64 u]) TUint64 = ret (Inr (VUint64 u)) \<and>
    val_Scan E unmarshal err (NewValue [VFloat64 f]) TFloat64 = ret (Inr (VFloat64 f)) \<and>
    val_Scan E unmarshal err (NewValue [VBool b]) TBool = ret (Inr (VBool b))"
proof -
  obtain x where x: "reflect_Value (v_any v) = Some x" "plain x" using number_reached [OF assms] by blast
  note r = Int64_reached [OF x] Uint64_reached [OF x] Float64_reached [OF x] Bool_reached [OF x]
  show ?thesis
    by (rule exI [of _ "xc_Int64_kind E x"], rule exI [of _ "xc_Uint64_kind E x"], rule exI [of _ "xc_Float64_kind E x"],
        rule exI [of _ "xc_Bool_kind E x"])
      (simp add: val_Scan_def val_Int_def val_Int8_def val_Int16_def val_Int32_def val_Int64_def val_Uint_def val_Uint8_def val_Uint16_def val_Uint32_def val_Uint64_def val_Float32_def val_Float64_def val_Bool_def xc_Int_def xc_Int8_def xc_Int16_def xc_Int32_def xc_Uint_def xc_Uint8_def xc_Uint16_def xc_Uint32_def xc_Float32_def val_Value_def NewValue_def r scan_again narrow_widen)
qed

lemma number_conversions_total_witness:
  "val_IsNumber (NewValue [VPtr (VUint64 7)]) \<and> val_Scan sample_env (\<lambda>_ _. Inl ()) () (NewValue [VPtr (VUint64 7)]) TInt8 = ret (Inr (VInt8 7))"
proof -
  have n: "val_IsNumber (NewValue [VPtr (VUint64 7)])"
    by (simp add: val_IsNumber_def NewValue_def by_kind_def)
  have "val_Int64 sample_env (NewValue [VPtr (VUint64 7)]) = ret 7"
    by (simp add: val_Int64_def val_Value_def NewValue_def xc_Int64_def)
  with number_conversions_total [OF n, of sample_env "\<lambda>_ _. Inl ()" "()"] n show ?thesis by auto
qed

end
