(* ===== verification/NetOptions.thy ===== *)
theory NetOptions
  imports LfStream "HOL-Library.AList" "HOL-Library.Signed_Division"
begin

section \<open>Network options, statistics, connection status and manager\<close>

text \<open>
  src/kknet: options_net.go, options_wp.go, options_rp.go, stats.go, status.go and conn_mgr.go.
  Durations are nanoseconds. A callback, handler, provider or other value the options only store is
  opaque: \<open>None\<close> for nil or some token. Log output is left out.
\<close>

type_synonym opaque = "nat option"

abbreviation (input) millisecond :: int where "millisecond \<equiv> 1000000"
abbreviation (input) second :: int where "second \<equiv> 1000000000"

definition defaultStreamPacket :: LengthFieldStreamPacket where
  "defaultStreamPacket = \<lparr>lf_lfbCount = 4, lf_maxPacketSize = 4 * 1024, lf_endian = BigEndian\<rparr>"

subsection \<open>Write processor options\<close>

definition BatchPacketSize :: nat where "BatchPacketSize = 32"

record WriteOptions =
  wo_StreamTool :: "LengthFieldStreamPacket option"
  wo_MsgPacket :: opaque
  wo_SendQueueStrict :: bool
  wo_SendQueueSize :: int
  wo_SendQueueFullAction :: int
  wo_SendQueueRetryInterval :: int
  wo_SendQueueRetryMaxCount :: int
  wo_WriteFnRetryMaxCount :: int
  wo_WriteFnRetryInterval :: int
  wo_WriteFnIsRetryable :: "(kkerror list \<Rightarrow> bool) option"
  wo_SendQueueNeedFlushOver :: bool
  wo_SendQueueTimeoutFlushOver :: int
  wo_SendQueueFlushTimeoutCallback :: opaque
  wo_BatchWriteLimitBytes :: int

definition DefaultWriteOptions :: WriteOptions where
  "DefaultWriteOptions =
     \<lparr>wo_StreamTool = Some defaultStreamPacket, wo_MsgPacket = None, wo_SendQueueStrict = False,
      wo_SendQueueSize = 128, wo_SendQueueFullAction = 0, wo_SendQueueRetryInterval = 1 * millisecond,
      wo_SendQueueRetryMaxCount = 100, wo_WriteFnRetryMaxCount = 0, wo_WriteFnRetryInterval = 5 * millisecond,
      wo_WriteFnIsRetryable = None, wo_SendQueueNeedFlushOver = True, wo_SendQueueTimeoutFlushOver = 5 * second,
      wo_SendQueueFlushTimeoutCallback = None, wo_BatchWriteLimitBytes = 1024\<rparr>"

definition CheckWriteOptions :: "WriteOptions \<Rightarrow> WriteOptions" where
  "CheckWriteOptions opts =
     (let opts = opts\<lparr>wo_StreamTool := (if wo_StreamTool opts = None then Some defaultStreamPacket else wo_StreamTool opts)\<rparr>;
          opts = opts\<lparr>wo_SendQueueSize := (if wo_SendQueueSize opts \<le> 0 then 128 else wo_SendQueueSize opts)\<rparr>;
          opts = opts\<lparr>wo_SendQueueFullAction := (if wo_SendQueueFullAction opts < 0 \<or> wo_SendQueueFullAction opts > 1 then 0 else wo_SendQueueFullAction opts)\<rparr>;
          opts = opts\<lparr>wo_BatchWriteLimitBytes := (if wo_BatchWriteLimitBytes opts < 512 then 512 else wo_BatchWriteLimitBytes opts)\<rparr>;
          opts = opts\<lparr>wo_BatchWriteLimitBytes := (if wo_BatchWriteLimitBytes opts > 2048 then 2048 else wo_BatchWriteLimitBytes opts)\<rparr>;
          opts = opts\<lparr>wo_SendQueueRetryInterval := (if wo_SendQueueRetryInterval opts \<le> 0 then 1 * millisecond else wo_SendQueueRetryInterval opts)\<rparr>;
          opts = opts\<lparr>wo_SendQueueRetryMaxCount := (if wo_SendQueueRetryMaxCount opts < 0 then 0 else wo_SendQueueRetryMaxCount opts)\<rparr>;
          opts = opts\<lparr>wo_WriteFnRetryMaxCount := (if wo_WriteFnRetryMaxCount opts < 0 then 0 else wo_WriteFnRetryMaxCount opts)\<rparr>;
          opts = opts\<lparr>wo_WriteFnRetryInterval := (if wo_WriteFnRetryInterval opts \<le> 0 then 5 * millisecond else wo_WriteFnRetryInterval opts)\<rparr>;
          opts = opts\<lparr>wo_SendQueueTimeoutFlushOver := (if wo_SendQueueTimeoutFlushOver opts > 0 \<and> wo_SendQueueTimeoutFlushOver opts < 500 * millisecond then 500 * millisecond else wo_SendQueueTimeoutFlushOver opts)\<rparr>
      in opts)"

subsection \<open>Read processor options\<close>

record ReadOptions =
  ro_StreamTool :: "LengthFieldStreamPacket option"
  ro_RawHandler :: opaque
  ro_NoneCopyHandler :: opaque
  ro_RecvQueueStrict :: bool
  ro_RecvQueueSize :: int
  ro_RecvQueueFullCallback :: opaque
  ro_RecvBufShrinkCap :: int
  ro_WorkerQueueMaxConcurrency :: int

definition DefaultReadOptions :: ReadOptions where
  "DefaultReadOptions =
     \<lparr>ro_StreamTool = Some defaultStreamPacket, ro_RawHandler = None, ro_NoneCopyHandler = None,
      ro_RecvQueueStrict = False, ro_RecvQueueSize = 256, ro_RecvQueueFullCallback = None,
      ro_RecvBufShrinkCap = 2 * 1024, ro_WorkerQueueMaxConcurrency = 1\<rparr>"

definition CheckReadOptions :: "ReadOptions \<Rightarrow> ReadOptions" where
  "CheckReadOptions opts =
     (let opts = opts\<lparr>ro_StreamTool := (if ro_StreamTool opts = None then Some defaultStreamPacket else ro_StreamTool opts)\<rparr>;
          opts = opts\<lparr>ro_RecvQueueSize := (if ro_RecvQueueSize opts \<le> 0 then 256 else ro_RecvQueueSize opts)\<rparr>;
          opts = opts\<lparr>ro_RecvBufShrinkCap := (if ro_RecvBufShrinkCap opts \<le> 0 \<or> ro_RecvBufShrinkCap opts > 2 * 1024 then 2 * 1024 else ro_RecvBufShrinkCap opts)\<rparr>;
          opts = opts\<lparr>ro_WorkerQueueMaxConcurrency := (if ro_WorkerQueueMaxConcurrency opts \<le> 0 then 1 else ro_WorkerQueueMaxConcurrency opts)\<rparr>;
          opts = opts\<lparr>ro_WorkerQueueMaxConcurrency := (if ro_WorkerQueueMaxConcurrency opts > 64 then 64 else ro_WorkerQueueMaxConcurrency opts)\<rparr>
      in opts)"

subsection \<open>Common options\<close>

record Options =
  o_StreamTool :: "LengthFieldStreamPacket option"
  o_Logger :: opaque
  o_ReadBufferSize :: int
  o_WriteBufferSize :: int
  o_ShutdownTimeout :: int
  o_IsNeedReconnect :: bool
  o_ReconnectInterval :: int
  o_ReconnectMaxInterval :: int
  o_ReconnectMaxRetries :: int
  o_ReconnectCallback :: opaque
  o_ReadTimeout :: int
  o_WriteTimeout :: int
  o_PingInterval :: int
  o_TLSConfig :: opaque
  o_WpOptions :: WriteOptions
  o_RpOptions :: ReadOptions
  o_WpProvider :: opaque
  o_RpProvider :: opaque
  o_WsOriginChecker :: opaque

text \<open>The console logger and the default origin checker are the tokens 0.\<close>

definition DefaultOptions :: Options where
  "DefaultOptions =
     \<lparr>o_StreamTool = Some defaultStreamPacket, o_Logger = Some 0, o_ReadBufferSize = 4 * 1024,
      o_WriteBufferSize = 4 * 1024, o_ShutdownTimeout = 10 * second, o_IsNeedReconnect = True,
      o_ReconnectInterval = 1 * second, o_ReconnectMaxInterval = 30 * second, o_ReconnectMaxRetries = 5,
      o_ReconnectCallback = None, o_ReadTimeout = 15 * second, o_WriteTimeout = 5 * second,
      o_PingInterval = 5 * second, o_TLSConfig = None, o_WpOptions = DefaultWriteOptions,
      o_RpOptions = DefaultReadOptions, o_WpProvider = None, o_RpProvider = None, o_WsOriginChecker = Some 0\<rparr>"

text \<open>The fields of its own, then the processors' options, which get the same stream tool.\<close>

definition check_net :: "Options \<Rightarrow> Options" where
  "check_net opts =
     (let opts = opts\<lparr>o_StreamTool := (if o_StreamTool opts = None then Some defaultStreamPacket else o_StreamTool opts)\<rparr>;
          opts = opts\<lparr>o_ReadBufferSize := (if o_ReadBufferSize opts < 1024 then 1024 else o_ReadBufferSize opts)\<rparr>;
          opts = opts\<lparr>o_ReadBufferSize := (if o_ReadBufferSize opts > 32 * 1024 then 32 * 1024 else o_ReadBufferSize opts)\<rparr>;
          opts = opts\<lparr>o_WriteBufferSize := (if o_WriteBufferSize opts < 1024 then 1024 else o_WriteBufferSize opts)\<rparr>;
          opts = opts\<lparr>o_WriteBufferSize := (if o_WriteBufferSize opts > 32 * 1024 then 32 * 1024 else o_WriteBufferSize opts)\<rparr>;
          opts = opts\<lparr>o_ReadTimeout := (if o_ReadTimeout opts > 0 \<and> o_ReadTimeout opts < 1 * second then 1 * second else o_ReadTimeout opts)\<rparr>;
          opts = opts\<lparr>o_WriteTimeout := (if o_WriteTimeout opts > 0 \<and> o_WriteTimeout opts < 1 * second then 1 * second else o_WriteTimeout opts)\<rparr>;
          opts = opts\<lparr>o_PingInterval := (if o_PingInterval opts > 0 \<and> o_PingInterval opts < 3 * second then 3 * second else o_PingInterval opts)\<rparr>;
          opts = opts\<lparr>o_ShutdownTimeout := (if o_ShutdownTimeout opts > 0 \<and> o_ShutdownTimeout opts < 500 * millisecond then 500 * millisecond else o_ShutdownTimeout opts)\<rparr>
      in opts)"

definition check_reconnect :: "Options \<Rightarrow> Options" where
  "check_reconnect opts =
     (let opts = opts\<lparr>o_ReconnectInterval := (if o_ReconnectInterval opts > 0 \<and> o_ReconnectInterval opts < 500 * millisecond then 500 * millisecond else o_ReconnectInterval opts)\<rparr>;
          opts = opts\<lparr>o_ReconnectMaxInterval := (if o_ReconnectMaxInterval opts \<le> 0 then 30 * second else o_ReconnectMaxInterval opts)\<rparr>;
          opts = opts\<lparr>o_ReconnectMaxInterval := (if o_ReconnectMaxInterval opts < o_ReconnectInterval opts then o_ReconnectInterval opts else o_ReconnectMaxInterval opts)\<rparr>
      in opts)"

definition CheckOptions :: "Options \<Rightarrow> Options" where
  "CheckOptions opts =
     (let opts = check_reconnect (check_net opts);
          opts = opts\<lparr>o_WpOptions := (o_WpOptions opts)\<lparr>wo_StreamTool := o_StreamTool opts\<rparr>,
                      o_RpOptions := (o_RpOptions opts)\<lparr>ro_StreamTool := o_StreamTool opts\<rparr>\<rparr>
      in opts\<lparr>o_WpOptions := CheckWriteOptions (o_WpOptions opts), o_RpOptions := CheckReadOptions (o_RpOptions opts)\<rparr>)"

type_synonym Option = "Options \<Rightarrow> Options"

definition ApplyOptions :: "Option option list \<Rightarrow> Options" where
  "ApplyOptions opts =
     (let cfg = foldl (\<lambda>cfg opt. case opt of None \<Rightarrow> cfg | Some f \<Rightarrow> f cfg) DefaultOptions opts
      in CheckOptions cfg)"

subsection \<open>Setters\<close>

definition WithSendQueueSize :: "int \<Rightarrow> Option" where
  "WithSendQueueSize sz opt =
     (if sz > 0 then opt\<lparr>o_WpOptions := (o_WpOptions opt)\<lparr>wo_SendQueueSize := sz\<rparr>\<rparr> else opt)"

definition WithSendQueueStrict :: "bool \<Rightarrow> Option" where
  "WithSendQueueStrict strict opt =
     opt\<lparr>o_WpOptions := (o_WpOptions opt)\<lparr>wo_SendQueueStrict := strict\<rparr>\<rparr>"

definition WithSendQueueNeedFlushOver :: "bool \<Rightarrow> Option" where
  "WithSendQueueNeedFlushOver need opt =
     opt\<lparr>o_WpOptions := (o_WpOptions opt)\<lparr>wo_SendQueueNeedFlushOver := need\<rparr>\<rparr>"

definition WithSendQueueTimeoutFlushOver :: "int \<Rightarrow> Option" where
  "WithSendQueueTimeoutFlushOver timeout opt =
     opt\<lparr>o_WpOptions := (o_WpOptions opt)\<lparr>wo_SendQueueTimeoutFlushOver := timeout\<rparr>\<rparr>"

definition WithSendQueueFlushTimeoutCallback :: "opaque \<Rightarrow> Option" where
  "WithSendQueueFlushTimeoutCallback cb opt =
     opt\<lparr>o_WpOptions := (o_WpOptions opt)\<lparr>wo_SendQueueFlushTimeoutCallback := cb\<rparr>\<rparr>"

definition WithBatchWriteLimitBytes :: "int \<Rightarrow> Option" where
  "WithBatchWriteLimitBytes limit opt =
     opt\<lparr>o_WpOptions := (o_WpOptions opt)\<lparr>wo_BatchWriteLimitBytes := limit\<rparr>\<rparr>"

definition WithMsgPacket :: "opaque \<Rightarrow> Option" where
  "WithMsgPacket packet opt =
     opt\<lparr>o_WpOptions := (o_WpOptions opt)\<lparr>wo_MsgPacket := packet\<rparr>\<rparr>"

definition WithSendQueueFullAction :: "int \<Rightarrow> Option" where
  "WithSendQueueFullAction action opt =
     opt\<lparr>o_WpOptions := (o_WpOptions opt)\<lparr>wo_SendQueueFullAction := action\<rparr>\<rparr>"

definition WithSendQueueRetryInterval :: "int \<Rightarrow> Option" where
  "WithSendQueueRetryInterval interval opt =
     (if interval > 0 then opt\<lparr>o_WpOptions := (o_WpOptions opt)\<lparr>wo_SendQueueRetryInterval := interval\<rparr>\<rparr> else opt)"

definition WithSendQueueRetryMaxCount :: "int \<Rightarrow> Option" where
  "WithSendQueueRetryMaxCount mx opt =
     (if mx \<ge> 0 then opt\<lparr>o_WpOptions := (o_WpOptions opt)\<lparr>wo_SendQueueRetryMaxCount := mx\<rparr>\<rparr> else opt)"

definition WithWriteFnRetryMaxCount :: "int \<Rightarrow> Option" where
  "WithWriteFnRetryMaxCount mx opt =
     (if mx \<ge> 0 then opt\<lparr>o_WpOptions := (o_WpOptions opt)\<lparr>wo_WriteFnRetryMaxCount := mx\<rparr>\<rparr> else opt)"

definition WithWriteFnRetryInterval :: "int \<Rightarrow> Option" where
  "WithWriteFnRetryInterval interval opt =
     (if interval > 0 then opt\<lparr>o_WpOptions := (o_WpOptions opt)\<lparr>wo_WriteFnRetryInterval := interval\<rparr>\<rparr> else opt)"

definition WithWriteFnIsRetryable :: "(kkerror list \<Rightarrow> bool) option \<Rightarrow> Option" where
  "WithWriteFnIsRetryable fn opt =
     opt\<lparr>o_WpOptions := (o_WpOptions opt)\<lparr>wo_WriteFnIsRetryable := fn\<rparr>\<rparr>"

definition WithRawHandler :: "opaque \<Rightarrow> Option" where
  "WithRawHandler handler opt =
     opt\<lparr>o_RpOptions := (o_RpOptions opt)\<lparr>ro_RawHandler := handler\<rparr>\<rparr>"

definition WithNoneCopyHandler :: "opaque \<Rightarrow> Option" where
  "WithNoneCopyHandler handler opt =
     opt\<lparr>o_RpOptions := (o_RpOptions opt)\<lparr>ro_NoneCopyHandler := handler\<rparr>\<rparr>"

definition WithRecvQueueStrict :: "bool \<Rightarrow> Option" where
  "WithRecvQueueStrict strict opt =
     opt\<lparr>o_RpOptions := (o_RpOptions opt)\<lparr>ro_RecvQueueStrict := strict\<rparr>\<rparr>"

definition WithRecvQueueSize :: "int \<Rightarrow> Option" where
  "WithRecvQueueSize sz opt =
     (if sz > 0 then opt\<lparr>o_RpOptions := (o_RpOptions opt)\<lparr>ro_RecvQueueSize := sz\<rparr>\<rparr> else opt)"

definition WithRecvQueueFullCallback :: "opaque \<Rightarrow> Option" where
  "WithRecvQueueFullCallback cb opt =
     opt\<lparr>o_RpOptions := (o_RpOptions opt)\<lparr>ro_RecvQueueFullCallback := cb\<rparr>\<rparr>"

definition WithRecvBufShrinkCap :: "int \<Rightarrow> Option" where
  "WithRecvBufShrinkCap c opt =
     opt\<lparr>o_RpOptions := (o_RpOptions opt)\<lparr>ro_RecvBufShrinkCap := c\<rparr>\<rparr>"

definition WithWorkerQueueMaxConcurrency :: "int \<Rightarrow> Option" where
  "WithWorkerQueueMaxConcurrency c opt =
     opt\<lparr>o_RpOptions := (o_RpOptions opt)\<lparr>ro_WorkerQueueMaxConcurrency := c\<rparr>\<rparr>"

definition WithLogger :: "opaque \<Rightarrow> Option" where
  "WithLogger l opt =
     (if l \<noteq> None then opt\<lparr>o_Logger := l\<rparr> else opt)"

definition WithStreamTool :: "LengthFieldStreamPacket option \<Rightarrow> Option" where
  "WithStreamTool t opt =
     (if t \<noteq> None
      then opt\<lparr>o_StreamTool := t, o_WpOptions := (o_WpOptions opt)\<lparr>wo_StreamTool := t\<rparr>,
             o_RpOptions := (o_RpOptions opt)\<lparr>ro_StreamTool := t\<rparr>\<rparr>
      else opt)"

definition WithBufferSizes :: "int \<Rightarrow> int \<Rightarrow> Option" where
  "WithBufferSizes readSize writeSize opt =
     (let opt = (if readSize > 0 then opt\<lparr>o_ReadBufferSize := readSize\<rparr> else opt)
      in if writeSize > 0 then opt\<lparr>o_WriteBufferSize := writeSize\<rparr> else opt)"

definition WithTLSConfig :: "opaque \<Rightarrow> Option" where
  "WithTLSConfig cfg opt =
     opt\<lparr>o_TLSConfig := cfg\<rparr>"

definition WithShutdownTimeout :: "int \<Rightarrow> Option" where
  "WithShutdownTimeout t opt =
     (if t > 0 then opt\<lparr>o_ShutdownTimeout := t\<rparr> else opt)"

definition WithReadTimeout :: "int \<Rightarrow> Option" where
  "WithReadTimeout t opt =
     (if t \<ge> 0 then opt\<lparr>o_ReadTimeout := t\<rparr> else opt)"

definition WithWriteTimeout :: "int \<Rightarrow> Option" where
  "WithWriteTimeout t opt =
     (if t \<ge> 0 then opt\<lparr>o_WriteTimeout := t\<rparr> else opt)"

definition WithPingInterval :: "int \<Rightarrow> Option" where
  "WithPingInterval t opt =
     (if t \<ge> 0 then opt\<lparr>o_PingInterval := t\<rparr> else opt)"

definition WithIsNeedReconnect :: "bool \<Rightarrow> Option" where
  "WithIsNeedReconnect b opt =
     opt\<lparr>o_IsNeedReconnect := b\<rparr>"

definition WithReconnectInterval :: "int \<Rightarrow> int \<Rightarrow> Option" where
  "WithReconnectInterval interval maxRetries opt =
     (let opt = (if interval > 0 then opt\<lparr>o_ReconnectInterval := interval\<rparr> else opt)
      in opt\<lparr>o_ReconnectMaxRetries := maxRetries\<rparr>)"

definition WithReconnectMaxInterval :: "int \<Rightarrow> Option" where
  "WithReconnectMaxInterval t opt =
     (if t > 0 then opt\<lparr>o_ReconnectMaxInterval := t\<rparr> else opt)"

definition WithReconnectCallback :: "opaque \<Rightarrow> Option" where
  "WithReconnectCallback cb opt =
     opt\<lparr>o_ReconnectCallback := cb\<rparr>"

definition WithWsOriginChecker :: "opaque \<Rightarrow> Option" where
  "WithWsOriginChecker c opt =
     (if c \<noteq> None then opt\<lparr>o_WsOriginChecker := c\<rparr> else opt)"

definition WithWpProvider :: "opaque \<Rightarrow> Option" where
  "WithWpProvider p opt =
     opt\<lparr>o_WpProvider := p\<rparr>"

definition WithRpProvider :: "opaque \<Rightarrow> Option" where
  "WithRpProvider p opt =
     opt\<lparr>o_RpProvider := p\<rparr>"

subsection \<open>What a check guarantees\<close>

text \<open>The lower bound of a timeout that is set.\<close>

definition off_or_at_least :: "int \<Rightarrow> int \<Rightarrow> bool" where
  "off_or_at_least lo t \<longleftrightarrow> t \<le> 0 \<or> lo \<le> t"

definition write_options_ok :: "WriteOptions \<Rightarrow> bool" where
  "write_options_ok opt \<longleftrightarrow> wo_StreamTool opt \<noteq> None \<and> 0 < wo_SendQueueSize opt \<and>
     wo_SendQueueFullAction opt \<in> {0, 1} \<and> 512 \<le> wo_BatchWriteLimitBytes opt \<and> wo_BatchWriteLimitBytes opt \<le> 2048 \<and>
     0 < wo_SendQueueRetryInterval opt \<and> 0 \<le> wo_SendQueueRetryMaxCount opt \<and> 0 \<le> wo_WriteFnRetryMaxCount opt \<and>
     0 < wo_WriteFnRetryInterval opt \<and> off_or_at_least (500 * millisecond) (wo_SendQueueTimeoutFlushOver opt)"

definition read_options_ok :: "ReadOptions \<Rightarrow> bool" where
  "read_options_ok opt \<longleftrightarrow> ro_StreamTool opt \<noteq> None \<and> 0 < ro_RecvQueueSize opt \<and>
     0 < ro_RecvBufShrinkCap opt \<and> ro_RecvBufShrinkCap opt \<le> 2048 \<and>
     0 < ro_WorkerQueueMaxConcurrency opt \<and> ro_WorkerQueueMaxConcurrency opt \<le> 64"

definition options_ok :: "Options \<Rightarrow> bool" where
  "options_ok opt \<longleftrightarrow> o_StreamTool opt \<noteq> None \<and>
     1024 \<le> o_ReadBufferSize opt \<and> o_ReadBufferSize opt \<le> 32768 \<and> 1024 \<le> o_WriteBufferSize opt \<and> o_WriteBufferSize opt \<le> 32768 \<and>
     off_or_at_least second (o_ReadTimeout opt) \<and> off_or_at_least second (o_WriteTimeout opt) \<and>
     off_or_at_least (3 * second) (o_PingInterval opt) \<and> off_or_at_least (500 * millisecond) (o_ReconnectInterval opt) \<and>
     0 < o_ReconnectMaxInterval opt \<and> o_ReconnectInterval opt \<le> o_ReconnectMaxInterval opt \<and>
     off_or_at_least (500 * millisecond) (o_ShutdownTimeout opt) \<and>
     wo_StreamTool (o_WpOptions opt) = o_StreamTool opt \<and> ro_StreamTool (o_RpOptions opt) = o_StreamTool opt \<and>
     write_options_ok (o_WpOptions opt) \<and> read_options_ok (o_RpOptions opt)"

lemmas options_ok_defs = options_ok_def write_options_ok_def read_options_ok_def off_or_at_least_def

text \<open>Field by field.\<close>

lemma CheckWriteOptions_sel [simp]:
  "wo_StreamTool (CheckWriteOptions opt) = (if wo_StreamTool opt = None then Some defaultStreamPacket else wo_StreamTool opt)"
  "wo_MsgPacket (CheckWriteOptions opt) = wo_MsgPacket opt"
  "wo_SendQueueStrict (CheckWriteOptions opt) = wo_SendQueueStrict opt"
  "wo_SendQueueSize (CheckWriteOptions opt) = (if wo_SendQueueSize opt \<le> 0 then 128 else wo_SendQueueSize opt)"
  "wo_SendQueueFullAction (CheckWriteOptions opt) =
     (if wo_SendQueueFullAction opt < 0 \<or> wo_SendQueueFullAction opt > 1 then 0 else wo_SendQueueFullAction opt)"
  "wo_SendQueueRetryInterval (CheckWriteOptions opt) =
     (if wo_SendQueueRetryInterval opt \<le> 0 then 1 * millisecond else wo_SendQueueRetryInterval opt)"
  "wo_SendQueueRetryMaxCount (CheckWriteOptions opt) = max 0 (wo_SendQueueRetryMaxCount opt)"
  "wo_WriteFnRetryMaxCount (CheckWriteOptions opt) = max 0 (wo_WriteFnRetryMaxCount opt)"
  "wo_WriteFnRetryInterval (CheckWriteOptions opt) =
     (if wo_WriteFnRetryInterval opt \<le> 0 then 5 * millisecond else wo_WriteFnRetryInterval opt)"
  "wo_WriteFnIsRetryable (CheckWriteOptions opt) = wo_WriteFnIsRetryable opt"
  "wo_SendQueueNeedFlushOver (CheckWriteOptions opt) = wo_SendQueueNeedFlushOver opt"
  "wo_SendQueueTimeoutFlushOver (CheckWriteOptions opt) =
     (if wo_SendQueueTimeoutFlushOver opt > 0 \<and> wo_SendQueueTimeoutFlushOver opt < 500 * millisecond
      then 500 * millisecond else wo_SendQueueTimeoutFlushOver opt)"
  "wo_SendQueueFlushTimeoutCallback (CheckWriteOptions opt) = wo_SendQueueFlushTimeoutCallback opt"
  "wo_BatchWriteLimitBytes (CheckWriteOptions opt) = min 2048 (max 512 (wo_BatchWriteLimitBytes opt))"
  by (simp_all add: CheckWriteOptions_def Let_def)

lemma CheckReadOptions_sel [simp]:
  "ro_StreamTool (CheckReadOptions opt) = (if ro_StreamTool opt = None then Some defaultStreamPacket else ro_StreamTool opt)"
  "ro_RawHandler (CheckReadOptions opt) = ro_RawHandler opt"
  "ro_NoneCopyHandler (CheckReadOptions opt) = ro_NoneCopyHandler opt"
  "ro_RecvQueueStrict (CheckReadOptions opt) = ro_RecvQueueStrict opt"
  "ro_RecvQueueSize (CheckReadOptions opt) = (if ro_RecvQueueSize opt \<le> 0 then 256 else ro_RecvQueueSize opt)"
  "ro_RecvQueueFullCallback (CheckReadOptions opt) = ro_RecvQueueFullCallback opt"
  "ro_RecvBufShrinkCap (CheckReadOptions opt) =
     (if ro_RecvBufShrinkCap opt \<le> 0 \<or> ro_RecvBufShrinkCap opt > 2 * 1024 then 2 * 1024 else ro_RecvBufShrinkCap opt)"
  "ro_WorkerQueueMaxConcurrency (CheckReadOptions opt) =
     (if ro_WorkerQueueMaxConcurrency opt \<le> 0 then 1 else min 64 (ro_WorkerQueueMaxConcurrency opt))"
  by (simp_all add: CheckReadOptions_def Let_def)

lemma check_reconnect_sel:
  "o_StreamTool (check_reconnect opt) = o_StreamTool opt"
  "o_Logger (check_reconnect opt) = o_Logger opt"
  "o_ReadBufferSize (check_reconnect opt) = o_ReadBufferSize opt"
  "o_WriteBufferSize (check_reconnect opt) = o_WriteBufferSize opt"
  "o_ShutdownTimeout (check_reconnect opt) = o_ShutdownTimeout opt"
  "o_IsNeedReconnect (check_reconnect opt) = o_IsNeedReconnect opt"
  "o_ReconnectInterval (check_reconnect opt) = (if o_ReconnectInterval opt > 0 then max (500 * millisecond) (o_ReconnectInterval opt) else o_ReconnectInterval opt)"
  "o_ReconnectMaxInterval (check_reconnect opt) = max (if o_ReconnectMaxInterval opt \<le> 0 then 30 * second else o_ReconnectMaxInterval opt)
         (if o_ReconnectInterval opt > 0 then max (500 * millisecond) (o_ReconnectInterval opt) else o_ReconnectInterval opt)"
  "o_ReconnectMaxRetries (check_reconnect opt) = o_ReconnectMaxRetries opt"
  "o_ReconnectCallback (check_reconnect opt) = o_ReconnectCallback opt"
  "o_ReadTimeout (check_reconnect opt) = o_ReadTimeout opt"
  "o_WriteTimeout (check_reconnect opt) = o_WriteTimeout opt"
  "o_PingInterval (check_reconnect opt) = o_PingInterval opt"
  "o_TLSConfig (check_reconnect opt) = o_TLSConfig opt"
  "o_WpOptions (check_reconnect opt) = o_WpOptions opt"
  "o_RpOptions (check_reconnect opt) = o_RpOptions opt"
  "o_WpProvider (check_reconnect opt) = o_WpProvider opt"
  "o_RpProvider (check_reconnect opt) = o_RpProvider opt"
  "o_WsOriginChecker (check_reconnect opt) = o_WsOriginChecker opt"
  by (simp_all add: check_reconnect_def Let_def max_def)

lemma check_net_sel:
  "o_StreamTool (check_net opt) = (if o_StreamTool opt = None then Some defaultStreamPacket else o_StreamTool opt)"
  "o_Logger (check_net opt) = o_Logger opt"
  "o_ReadBufferSize (check_net opt) = min 32768 (max 1024 (o_ReadBufferSize opt))"
  "o_WriteBufferSize (check_net opt) = min 32768 (max 1024 (o_WriteBufferSize opt))"
  "o_ShutdownTimeout (check_net opt) = (if o_ShutdownTimeout opt > 0 then max (500 * millisecond) (o_ShutdownTimeout opt) else o_ShutdownTimeout opt)"
  "o_IsNeedReconnect (check_net opt) = o_IsNeedReconnect opt"
  "o_ReconnectInterval (check_net opt) = o_ReconnectInterval opt"
  "o_ReconnectMaxInterval (check_net opt) = o_ReconnectMaxInterval opt"
  "o_ReconnectMaxRetries (check_net opt) = o_ReconnectMaxRetries opt"
  "o_ReconnectCallback (check_net opt) = o_ReconnectCallback opt"
  "o_ReadTimeout (check_net opt) = (if o_ReadTimeout opt > 0 then max second (o_ReadTimeout opt) else o_ReadTimeout opt)"
  "o_WriteTimeout (check_net opt) = (if o_WriteTimeout opt > 0 then max second (o_WriteTimeout opt) else o_WriteTimeout opt)"
  "o_PingInterval (check_net opt) = (if o_PingInterval opt > 0 then max (3 * second) (o_PingInterval opt) else o_PingInterval opt)"
  "o_TLSConfig (check_net opt) = o_TLSConfig opt"
  "o_WpOptions (check_net opt) = o_WpOptions opt"
  "o_RpOptions (check_net opt) = o_RpOptions opt"
  "o_WpProvider (check_net opt) = o_WpProvider opt"
  "o_RpProvider (check_net opt) = o_RpProvider opt"
  "o_WsOriginChecker (check_net opt) = o_WsOriginChecker opt"
  by (simp_all add: check_net_def Let_def)

lemma CheckOptions_sel [simp]:
  "o_StreamTool (CheckOptions opt) = (if o_StreamTool opt = None then Some defaultStreamPacket else o_StreamTool opt)"
  "o_Logger (CheckOptions opt) = o_Logger opt"
  "o_ReadBufferSize (CheckOptions opt) = min 32768 (max 1024 (o_ReadBufferSize opt))"
  "o_WriteBufferSize (CheckOptions opt) = min 32768 (max 1024 (o_WriteBufferSize opt))"
  "o_ShutdownTimeout (CheckOptions opt) = (if o_ShutdownTimeout opt > 0 then max (500 * millisecond) (o_ShutdownTimeout opt) else o_ShutdownTimeout opt)"
  "o_IsNeedReconnect (CheckOptions opt) = o_IsNeedReconnect opt"
  "o_ReconnectInterval (CheckOptions opt) =
     (if o_ReconnectInterval opt > 0 then max (500 * millisecond) (o_ReconnectInterval opt) else o_ReconnectInterval opt)"
  "o_ReconnectMaxInterval (CheckOptions opt) =
     max (if o_ReconnectMaxInterval opt \<le> 0 then 30 * second else o_ReconnectMaxInterval opt)
         (if o_ReconnectInterval opt > 0 then max (500 * millisecond) (o_ReconnectInterval opt) else o_ReconnectInterval opt)"
  "o_ReconnectMaxRetries (CheckOptions opt) = o_ReconnectMaxRetries opt"
  "o_ReconnectCallback (CheckOptions opt) = o_ReconnectCallback opt"
  "o_ReadTimeout (CheckOptions opt) = (if o_ReadTimeout opt > 0 then max second (o_ReadTimeout opt) else o_ReadTimeout opt)"
  "o_WriteTimeout (CheckOptions opt) = (if o_WriteTimeout opt > 0 then max second (o_WriteTimeout opt) else o_WriteTimeout opt)"
  "o_PingInterval (CheckOptions opt) = (if o_PingInterval opt > 0 then max (3 * second) (o_PingInterval opt) else o_PingInterval opt)"
  "o_TLSConfig (CheckOptions opt) = o_TLSConfig opt"
  "o_WpOptions (CheckOptions opt) =
     CheckWriteOptions ((o_WpOptions opt)\<lparr>wo_StreamTool := (if o_StreamTool opt = None then Some defaultStreamPacket else o_StreamTool opt)\<rparr>)"
  "o_RpOptions (CheckOptions opt) =
     CheckReadOptions ((o_RpOptions opt)\<lparr>ro_StreamTool := (if o_StreamTool opt = None then Some defaultStreamPacket else o_StreamTool opt)\<rparr>)"
  "o_WpProvider (CheckOptions opt) = o_WpProvider opt"
  "o_RpProvider (CheckOptions opt) = o_RpProvider opt"
  "o_WsOriginChecker (CheckOptions opt) = o_WsOriginChecker opt"
  by (simp_all add: CheckOptions_def Let_def check_reconnect_sel check_net_sel)

lemma CheckWriteOptions_ok: "write_options_ok (CheckWriteOptions opt)"
  unfolding options_ok_defs by (intro conjI) auto

lemma CheckReadOptions_ok: "read_options_ok (CheckReadOptions opt)"
  unfolding options_ok_defs by (intro conjI) auto

lemma CheckWriteOptions_id: "write_options_ok opt \<Longrightarrow> CheckWriteOptions opt = opt"
  unfolding options_ok_defs by (rule WriteOptions.equality) auto

lemma CheckReadOptions_id: "read_options_ok opt \<Longrightarrow> CheckReadOptions opt = opt"
  unfolding options_ok_defs by (rule ReadOptions.equality) auto

lemma DefaultOptions_ok: "options_ok DefaultOptions"
  by (simp add: DefaultOptions_def DefaultWriteOptions_def DefaultReadOptions_def options_ok_defs)

lemma CheckOptions_ok: "options_ok (CheckOptions opt)"
  unfolding options_ok_def off_or_at_least_def
  by (intro conjI) (auto simp: CheckWriteOptions_ok CheckReadOptions_ok)

lemma CheckOptions_id:
  assumes "options_ok opt"
  shows "CheckOptions opt = opt"
proof -
  have p: "CheckWriteOptions (o_WpOptions opt) = o_WpOptions opt" "CheckReadOptions (o_RpOptions opt) = o_RpOptions opt"
    "(o_WpOptions opt)\<lparr>wo_StreamTool := o_StreamTool opt\<rparr> = o_WpOptions opt"
    "(o_RpOptions opt)\<lparr>ro_StreamTool := o_StreamTool opt\<rparr> = o_RpOptions opt" "o_StreamTool opt \<noteq> None"
    using assms by (auto simp: options_ok_def CheckWriteOptions_id CheckReadOptions_id)
  have b: "1024 \<le> o_ReadBufferSize opt" "o_ReadBufferSize opt \<le> 32768" "1024 \<le> o_WriteBufferSize opt"
    "o_WriteBufferSize opt \<le> 32768" "\<not> o_ReconnectMaxInterval opt \<le> 0" "o_ReconnectInterval opt \<le> o_ReconnectMaxInterval opt"
    using assms by (simp_all add: options_ok_def)
  have t: "0 < o_ReadTimeout opt \<Longrightarrow> second \<le> o_ReadTimeout opt" "0 < o_WriteTimeout opt \<Longrightarrow> second \<le> o_WriteTimeout opt"
    "0 < o_PingInterval opt \<Longrightarrow> max 3000000000 (o_PingInterval opt) = o_PingInterval opt"
    "0 < o_ReconnectInterval opt \<Longrightarrow> max 500000000 (o_ReconnectInterval opt) = o_ReconnectInterval opt"
    "0 < o_ShutdownTimeout opt \<Longrightarrow> max 500000000 (o_ShutdownTimeout opt) = o_ShutdownTimeout opt"
    using assms by (auto simp: options_ok_def off_or_at_least_def)
  show ?thesis
    by (rule Options.equality) (simp_all add: p b t max_absorb2 min_absorb2 max_absorb1)
qed

text \<open>
  The options a component works with are in range: whatever options \<open>ApplyOptions\<close> is given,
  and in whatever order, the result satisfies every bound the checks impose (sizes, intervals,
  timeouts, one stream tool for all three), and checking options in range again changes nothing.
\<close>

theorem ApplyOptions_in_range:
  "options_ok (ApplyOptions opts) \<and> CheckOptions (ApplyOptions opts) = ApplyOptions opts"
  by (simp add: ApplyOptions_def CheckOptions_ok CheckOptions_id)

text \<open>Options out of range do not pass: a stream tool given last is the one all parts use.\<close>

lemma ApplyOptions_tool:
  "o_StreamTool (ApplyOptions (opts @ [Some (WithStreamTool (Some t))])) = Some t"
  by (simp add: ApplyOptions_def WithStreamTool_def Let_def)

subsection \<open>Statistics\<close>

text \<open>Counters are int64, changed by atomic additions.\<close>

record Stats =
  st_activeConns :: "64 word"
  st_totalConns :: "64 word"
  st_closedConns :: "64 word"
  st_recvMsgs :: "64 word"
  st_sentMsgs :: "64 word"
  st_errors :: "64 word"

definition zero_Stats :: Stats where
  "zero_Stats = \<lparr>st_activeConns = 0, st_totalConns = 0, st_closedConns = 0, st_recvMsgs = 0, st_sentMsgs = 0, st_errors = 0\<rparr>"

definition st_OnConnect :: "Stats \<Rightarrow> Stats" where
  "st_OnConnect s = s\<lparr>st_activeConns := st_activeConns s + 1, st_totalConns := st_totalConns s + 1\<rparr>"

definition st_OnClose :: "Stats \<Rightarrow> Stats" where
  "st_OnClose s = s\<lparr>st_activeConns := st_activeConns s + (- 1), st_closedConns := st_closedConns s + 1\<rparr>"

definition st_AddRecv :: "int \<Rightarrow> Stats \<Rightarrow> Stats" where
  "st_AddRecv n s = (if n \<le> 0 then s else s\<lparr>st_recvMsgs := st_recvMsgs s + 1\<rparr>)"

definition st_AddSent :: "int \<Rightarrow> Stats \<Rightarrow> Stats" where
  "st_AddSent n s = (if n \<le> 0 then s else s\<lparr>st_sentMsgs := st_sentMsgs s + 1\<rparr>)"

definition st_AddError :: "Stats \<Rightarrow> Stats" where
  "st_AddError s = s\<lparr>st_errors := st_errors s + 1\<rparr>"

text \<open>A snapshot reads the six counters one after the other; taken alone it is a copy.\<close>

definition st_Snapshot :: "Stats \<Rightarrow> Stats" where
  "st_Snapshot s = \<lparr>st_activeConns = st_activeConns s, st_totalConns = st_totalConns s, st_closedConns = st_closedConns s,
     st_recvMsgs = st_recvMsgs s, st_sentMsgs = st_sentMsgs s, st_errors = st_errors s\<rparr>"

definition MetricsFromSnapshot :: "(int \<Rightarrow> 'f) \<Rightarrow> string \<Rightarrow> Stats \<Rightarrow> string \<Rightarrow> 'f option" where
  "MetricsFromSnapshot float64 namespace snap =
     (let prefix = (if namespace \<noteq> [] then namespace @ ''.'' else [])
      in map_of
           [(prefix @ ''kknet_active_conns'', float64 (sint (st_activeConns snap))),
            (prefix @ ''kknet_total_conns'', float64 (sint (st_totalConns snap))),
            (prefix @ ''kknet_closed_conns'', float64 (sint (st_closedConns snap))),
            (prefix @ ''kknet_recv_msgs_total'', float64 (sint (st_recvMsgs snap))),
            (prefix @ ''kknet_sent_msgs_total'', float64 (sint (st_sentMsgs snap))),
            (prefix @ ''kknet_errors_total'', float64 (sint (st_errors snap)))])"

lemma Metrics_six: "card (dom (MetricsFromSnapshot f namespace snap)) = 6"
  by (simp add: MetricsFromSnapshot_def Let_def)

text \<open>Active connections are those opened and not closed, over any updates and with any wrap-around.\<close>

datatype stats_op = Connect | Close | Recv int | Sent int | Error

fun stats_step :: "stats_op \<Rightarrow> Stats \<Rightarrow> Stats" where
  "stats_step Connect s = st_OnConnect s"
| "stats_step Close s = st_OnClose s"
| "stats_step (Recv n) s = st_AddRecv n s"
| "stats_step (Sent n) s = st_AddSent n s"
| "stats_step Error s = st_AddError s"

lemma stats_balance:
  "st_activeConns (fold stats_step ops zero_Stats) =
   st_totalConns (fold stats_step ops zero_Stats) - st_closedConns (fold stats_step ops zero_Stats)"
proof -
  have "st_activeConns s = st_totalConns s - st_closedConns s \<Longrightarrow>
    st_activeConns (fold stats_step ops s) = st_totalConns (fold stats_step ops s) - st_closedConns (fold stats_step ops s)" for s
  proof (induction ops arbitrary: s)
    case (Cons x ops)
    show ?case by (simp, rule Cons.IH, cases x)
      (use Cons.prems in \<open>simp_all add: st_OnConnect_def st_OnClose_def st_AddRecv_def st_AddSent_def st_AddError_def\<close>)
  qed simp
  then show ?thesis by (simp add: zero_Stats_def)
qed

subsection \<open>Connection status\<close>

type_synonym ConnStatus = int

definition ConnStatusInit :: ConnStatus where "ConnStatusInit = 0"
definition ConnStatusConnecting :: ConnStatus where "ConnStatusConnecting = 1"
definition ConnStatusConnected :: ConnStatus where "ConnStatusConnected = 2"
definition ConnStatusReconnecting :: ConnStatus where "ConnStatusReconnecting = 3"
definition ConnStatusReconnected :: ConnStatus where "ConnStatusReconnected = 4"
definition ConnStatusClosing :: ConnStatus where "ConnStatusClosing = 5"
definition ConnStatusClosed :: ConnStatus where "ConnStatusClosed = 6"

lemmas status_defs = ConnStatusInit_def ConnStatusConnecting_def ConnStatusConnected_def
  ConnStatusReconnecting_def ConnStatusReconnected_def ConnStatusClosing_def ConnStatusClosed_def

definition ChangeConnStatus :: "ConnStatus \<Rightarrow> ConnStatus \<Rightarrow> ConnStatus" where
  "ChangeConnStatus status newStatus = newStatus"

definition LoadConnStatus :: "ConnStatus \<Rightarrow> ConnStatus" where
  "LoadConnStatus status = status"

definition CASConnStatus :: "ConnStatus \<Rightarrow> ConnStatus \<Rightarrow> ConnStatus \<Rightarrow> bool \<times> ConnStatus" where
  "CASConnStatus status old new = (if status = old then (True, new) else (False, status))"

definition IsConnected :: "ConnStatus \<Rightarrow> bool" where
  "IsConnected status \<longleftrightarrow> status = ConnStatusConnected \<or> status = ConnStatusReconnected"

definition IsClosingOrClosed :: "ConnStatus \<Rightarrow> bool" where
  "IsClosingOrClosed status \<longleftrightarrow> status \<ge> ConnStatusClosing"

lemma connected_not_closing: "IsConnected status \<Longrightarrow> \<not> IsClosingOrClosed status"
  by (auto simp: IsConnected_def IsClosingOrClosed_def status_defs)

subsection \<open>The delay before a reconnect\<close>

text \<open>
  \<open>time.Duration\<close> is an int64 and \<open>delay *= 2\<close> wraps. \<open>int63n\<close> is \<open>rand.Int63n\<close>, which panics on an
  argument that is not positive and otherwise returns a number from 0 to one less than it.
\<close>

fun backoff_loop :: "nat \<Rightarrow> 64 word \<Rightarrow> 64 word \<Rightarrow> 64 word" where
  "backoff_loop 0 maxInterval delay = delay"
| "backoff_loop (Suc n) maxInterval delay =
     (let delay = delay * 2
      in if maxInterval <=s delay then maxInterval else backoff_loop n maxInterval delay)"

definition ReconnectBackoff :: "(64 word \<Rightarrow> 64 word) \<Rightarrow> 64 word \<Rightarrow> 64 word \<Rightarrow> int \<Rightarrow> 64 word" where
  "ReconnectBackoff int63n base maxInterval consecutiveFails =
     (let delay = backoff_loop (nat (consecutiveFails - 1)) maxInterval base;
          jitterRange = word_of_int (sint delay sdiv 4)
      in if 0 <s jitterRange then delay + int63n jitterRange else delay)"

lemma sint_add_small: "0 \<le> sint x \<Longrightarrow> 0 \<le> sint y \<Longrightarrow> sint x + sint y < 2 ^ 63 \<Longrightarrow> sint (x + y) = sint x + sint (y :: 64 word)"
  by (simp add: sint_word_ariths signed_take_bit_int_eq_self)

lemma sint_double: "0 \<le> sint x \<Longrightarrow> sint x < 2 ^ 62 \<Longrightarrow> sint (x * 2) = 2 * sint (x :: 64 word)"
  using sint_add_small [of x x] by (simp add: mult_2_right [symmetric] mult.commute)

lemma backoff_loop_min:
  "0 < sint delay \<Longrightarrow> sint delay \<le> sint mx \<Longrightarrow> sint mx < 2 ^ 62 \<Longrightarrow>
   sint (backoff_loop n mx delay) = min (sint delay * 2 ^ n) (sint mx)"
proof (induction n arbitrary: delay)
  case (Suc n)
  have d: "sint (delay * 2) = 2 * sint delay" using Suc.prems by (intro sint_double) auto
  show ?case
  proof (cases "sint mx \<le> 2 * sint delay")
    case True
    have "2 * sint delay * 1 \<le> 2 * sint delay * 2 ^ n" using Suc.prems by (intro mult_left_mono) auto
    with True have "sint mx \<le> sint delay * 2 ^ Suc n" by (simp add: mult.assoc mult.left_commute)
    with True d show ?thesis by (simp add: Let_def word_sle_eq)
  next
    case False
    with d Suc.IH [of "delay * 2"] Suc.prems show ?thesis
      by (simp add: Let_def word_sle_eq mult.assoc mult.left_commute)
  qed
qed simp

lemma sint_sdiv4: "0 \<le> sint x \<Longrightarrow> sint (word_of_int (sint x sdiv 4) :: 64 word) = sint (x :: 64 word) div 4"
proof -
  assume x: "0 \<le> sint x"
  have s: "sint x sdiv 4 = sint x div 4" using x by (simp add: signed_divide_int_def sgn_if)
  have "sint x < 2 ^ 63" using sint_lt [of x] by simp
  then have "sint x div 4 < 2 ^ 63" "- (2 ^ 63) \<le> sint x div 4" using x by auto
  then show ?thesis by (simp add: s signed_take_bit_int_eq_self sint_sbintrunc')
qed

text \<open>
  C24: the delay before a reconnect doubles with every failure after the first up to the maximum,
  plus a jitter of less than a quarter of it, for intervals that are positive, in order, and below
  \<open>2 ^ 62\<close> nanoseconds; nothing overflows, however many failures there are.
\<close>

theorem ReconnectBackoff_bounds:
  assumes "0 < sint base" and "sint base \<le> sint mx" and "sint mx < 2 ^ 62" and "1 \<le> fails"
    and rand: "\<And>n. 0 < sint n \<Longrightarrow> 0 \<le> sint (int63n n) \<and> sint (int63n n) < sint n"
  shows "\<exists>j. 0 \<le> j \<and> (j = 0 \<or> 4 * j < min (sint base * 2 ^ nat (fails - 1)) (sint mx)) \<and>
    sint (ReconnectBackoff int63n base mx fails) = min (sint base * 2 ^ nat (fails - 1)) (sint mx) + j"
proof -
  let ?d = "backoff_loop (nat (fails - 1)) mx base"
  have d: "sint ?d = min (sint base * 2 ^ nat (fails - 1)) (sint mx)" using assms by (intro backoff_loop_min)
  have "0 < sint base * 2 ^ nat (fails - 1)" using assms(1) by simp
  then have pos: "0 < sint ?d" "sint ?d < 2 ^ 62" using d assms(1-3) by linarith+
  define J where "J = (word_of_int (sint ?d sdiv 4) :: 64 word)"
  have j: "sint J = sint ?d div 4" unfolding J_def using pos by (intro sint_sdiv4) simp
  have rb: "ReconnectBackoff int63n base mx fails = (if 0 < sint J then ?d + int63n J else ?d)"
    by (simp only: ReconnectBackoff_def Let_def J_def word_sless_alt sint_0)
  show ?thesis
  proof (cases "0 < sint J")
    case True
    have r: "0 \<le> sint (int63n J)" "sint (int63n J) < sint ?d div 4" using rand [OF True] j by simp_all
    then have "sint (?d + int63n J) = sint ?d + sint (int63n J)" 
    proof (intro sint_add_small)
      show "sint ?d + sint (int63n J) < 2 ^ 63" using r pos by simp
    qed (use r pos in simp_all)
    then have "sint (ReconnectBackoff int63n base mx fails) = sint ?d + sint (int63n J)" using True rb by simp
    moreover have "4 * sint (int63n J) < sint ?d" using r by linarith
    ultimately show ?thesis using r(1) d by (intro exI [of _ "sint (int63n J)"]) simp
  next
    case False
    with rb d show ?thesis by (intro exI [of _ 0]) simp
  qed
qed

lemma ReconnectBackoff_bounds_witness:
  "\<exists>j. 0 \<le> j \<and> sint (ReconnectBackoff (\<lambda>n. 0) 1000 30000 9) = 30000 + j"
proof -
  have s: "sint (1000 :: 64 word) = 1000" "sint (30000 :: 64 word) = 30000" by simp_all
  have "\<exists>j. 0 \<le> j \<and> (j = 0 \<or> 4 * j < min (sint (1000 :: 64 word) * 2 ^ nat (9 - 1)) (sint (30000 :: 64 word))) \<and>
    sint (ReconnectBackoff (\<lambda>n. 0) 1000 30000 9) = min (sint (1000 :: 64 word) * 2 ^ nat (9 - 1)) (sint (30000 :: 64 word)) + j"
    by (rule ReconnectBackoff_bounds) (simp_all add: s)
  then show ?thesis unfolding s by auto
qed

text \<open>A base above the maximum is not cut: the first delay is the base.\<close>

lemma backoff_first_uncapped: "backoff_loop 0 mx base = base"
  by simp

subsection \<open>The connection manager\<close>

text \<open>
  The map of connections by id, as a list of entries with distinct ids (\<open>len\<close> of the map is its
  length). Reads and writes of the map run under the lock. \<open>nil\<close> and \<open>ID\<close> stand for
  \<open>xreflect.IsNil\<close> and the method of the connection.
\<close>

type_synonym 'c ConnManager = "(64 word \<times> 'c) list"

definition NewConnManager :: "'c ConnManager" where
  "NewConnManager = []"

definition AddConn :: "('c \<Rightarrow> bool) \<Rightarrow> ('c \<Rightarrow> 64 word) \<Rightarrow> 'c \<Rightarrow> 'c ConnManager \<Rightarrow> 'c ConnManager" where
  "AddConn nil ID c m = (if nil c then m else AList.update (ID c) c m)"

definition RemoveConn :: "64 word \<Rightarrow> 'c ConnManager \<Rightarrow> 'c ConnManager" where
  "RemoveConn i m = AList.delete i m"

definition GetConn :: "64 word \<Rightarrow> 'c ConnManager \<Rightarrow> 'c option" where
  "GetConn i m = map_of m i"

text \<open>The connections \<open>Close\<close> is called on, and the map afterwards.\<close>

definition KickConn :: "64 word \<Rightarrow> 'c ConnManager \<Rightarrow> 'c list \<times> 'c ConnManager" where
  "KickConn i m = ((case GetConn i m of None \<Rightarrow> [] | Some c \<Rightarrow> [c]), RemoveConn i m)"

definition GetCount :: "'c ConnManager \<Rightarrow> nat" where
  "GetCount m = length m"

text \<open>Go ranges over a map in any order: \<open>order\<close> is the order of this call.\<close>

fun RangeAllConns :: "('s \<Rightarrow> 64 word \<Rightarrow> 'c \<Rightarrow> 's \<times> bool) \<Rightarrow> 's \<Rightarrow> 'c ConnManager \<Rightarrow> 's" where
  "RangeAllConns fn s [] = s"
| "RangeAllConns fn s ((i, c) # order) =
     (case fn s i c of (s, go_on) \<Rightarrow> if go_on then RangeAllConns fn s order else s)"

datatype 'c cm_op = Add 'c | Remove "64 word" | Kick "64 word"

fun cm_step :: "('c \<Rightarrow> bool) \<Rightarrow> ('c \<Rightarrow> 64 word) \<Rightarrow> 'c cm_op \<Rightarrow> 'c ConnManager \<Rightarrow> 'c ConnManager" where
  "cm_step nil ID (Add c) m = AddConn nil ID c m"
| "cm_step nil ID (Remove i) m = RemoveConn i m"
| "cm_step nil ID (Kick i) m = snd (KickConn i m)"

definition cm_ok :: "('c \<Rightarrow> bool) \<Rightarrow> ('c \<Rightarrow> 64 word) \<Rightarrow> 'c ConnManager \<Rightarrow> bool" where
  "cm_ok nil ID m \<longleftrightarrow> distinct (map fst m) \<and> (\<forall>i c. map_of m i = Some c \<longrightarrow> ID c = i \<and> \<not> nil c)"

lemma cm_step_ok: "cm_ok nil ID m \<Longrightarrow> cm_ok nil ID (cm_step nil ID x m)"
  by (cases x) (auto simp: cm_ok_def AddConn_def RemoveConn_def KickConn_def distinct_update distinct_delete
    update_conv delete_conv simp del: map_of_eq_Some_iff split: if_splits)

text \<open>
  A manager only ever holds connections that are not nil, under their own ids; its count is the
  number of ids that \<open>GetConn\<close> finds, and a range that never stops visits each of them once.
\<close>

lemma cm_reachable_ok: "cm_ok nil ID (fold (cm_step nil ID) ops NewConnManager)"
proof -
  have "cm_ok nil ID n \<Longrightarrow> cm_ok nil ID (fold (cm_step nil ID) ops n)" for n
    by (induction ops arbitrary: n) (simp, simp only: fold_simps cm_step_ok)
  moreover have "cm_ok nil ID NewConnManager" by (simp add: NewConnManager_def cm_ok_def)
  ultimately show ?thesis by blast
qed

lemma cm_count:
  assumes "cm_ok nil ID m"
  shows "GetCount m = card {i. GetConn i m \<noteq> None}"
proof -
  have d: "distinct (map fst m)" using assms by (simp add: cm_ok_def)
  have "{i. GetConn i m \<noteq> None} = set (map fst m)"
    unfolding GetConn_def by (auto simp: map_of_eq_None_iff)
  then show ?thesis using distinct_card [OF d] by (simp only: GetCount_def length_map)
qed

lemma cm_range_all: "RangeAllConns (\<lambda>s i c. (s @ [(i, c)], True)) s m = s @ m"
  by (induction m arbitrary: s) auto

end
