(* ===== verification/WriteCore.thy ===== *)
theory WriteCore
  imports NetOptions SendQueue "HOL-Library.Multiset" "HOL-Library.Sublist"
begin

section \<open>What the two write processors share\<close>

text \<open>
  src/kknet/kkprocessor: the send queue with its lock, the batch buffer, the write callback and the
  retries, which write_thread.go and write_worker.go have in the same words, and task.go. A buffer
  handed to \<open>kkbuffer.Put\<close> is recorded as refused (it never entered the queue) or released (it did,
  and was not written). Sleeping takes no part in the model: between two attempts anything may happen.
\<close>

text \<open>An error is the chain of errors that \<open>errors.Unwrap\<close> walks through.\<close>

type_synonym werror = "kkerror list"

definition errors_Is :: "werror \<Rightarrow> kkerror \<Rightarrow> bool" where
  "errors_Is err target \<longleftrightarrow> target \<in> set err"

definition defaultIsWriteFnRetryable :: "werror option \<Rightarrow> bool" where
  "defaultIsWriteFnRetryable err =
     (case err of
        None \<Rightarrow> True
      | Some err \<Rightarrow>
          if errors_Is err ErrNetConnectionClosed \<or> errors_Is err ErrClusterInvalidPacket \<or>
             errors_Is err ErrNetSendQueueFull \<or> errors_Is err NetErrClosed \<or> errors_Is err IoErrClosedPipe
          then False
          else True)"

definition isWriteFnRetryable :: "WriteOptions \<Rightarrow> werror \<Rightarrow> bool" where
  "isWriteFnRetryable opts err =
     (case wo_WriteFnIsRetryable opts of
        Some f \<Rightarrow> f err
      | None \<Rightarrow> defaultIsWriteFnRetryable (Some err))"

text \<open>
  The fields of the processors. \<open>w_conn\<close> is the state of the connection that \<open>writeFn\<close> works on,
  \<open>w_errors\<close> counts \<open>stats.AddError\<close> and \<open>w_notified\<close> holds the calls of \<open>onWriteError\<close>; the last three
  fields are history.
\<close>

record 'c writer =
  w_queue :: sqstate
  w_batch :: "item list"
  w_closing :: bool
  w_conn :: 'c
  w_errors :: nat
  w_notified :: "werror list"
  w_accepted :: "bytebuffer list"
  w_refused :: "bytebuffer list"
  w_released :: "bytebuffer list"

type_synonym 'c write_fn = "'c \<Rightarrow> item list \<Rightarrow> werror option \<times> item list \<times> 'c"

primrec live :: "item list \<Rightarrow> bytebuffer list" where
  "live [] = []"
| "live (x # xs) = (case x of None \<Rightarrow> live xs | Some b \<Rightarrow> b # live xs)"

definition accept :: "bytebuffer \<Rightarrow> ('c, 'm) writer_scheme \<Rightarrow> ('c, 'm) writer_scheme" where
  "accept b s = s\<lparr>w_accepted := w_accepted s @ [b]\<rparr>"

definition refuse :: "bytebuffer \<Rightarrow> ('c, 'm) writer_scheme \<Rightarrow> ('c, 'm) writer_scheme" where
  "refuse b s = s\<lparr>w_refused := w_refused s @ [b]\<rparr>"

text \<open>
  \<open>sendBufferDrop\<close> up to the call of \<open>wakeWriter\<close>: the part under the lock and what is decided by it.
  The flag says whether the caller goes on to wake the writer.
\<close>

definition sendBufferDrop :: "picker \<Rightarrow> bytebuffer \<Rightarrow> ('c, 'm) writer_scheme \<Rightarrow>
    (kkerror option \<times> bool \<times> ('c, 'm) writer_scheme) go" where
  "sendBufferDrop pick b s =
     (if w_closing s then ret (Some ErrNetConnectionClosed, False, refuse b s)
      else do {
        let wasEmpty = sq_IsEmpty (w_queue s);
        (ok, q) \<leftarrow> sq_Push pick (w_queue s) (Some b);
        let nowEmpty = sq_IsEmpty q;
        let s = s\<lparr>w_queue := q\<rparr>;
        if \<not> ok then ret (None, False, refuse b s)
        else ret (None, wasEmpty \<and> \<not> nowEmpty, accept b s) })"

text \<open>The \<open>i\<close>-th turn of \<open>sendBufferRetry\<close>; \<open>Again\<close> is followed by a sleep and the next turn.\<close>

datatype attempt = Return "kkerror option" | Again

definition sendBufferRetry :: "WriteOptions \<Rightarrow> picker \<Rightarrow> int \<Rightarrow> bytebuffer \<Rightarrow> ('c, 'm) writer_scheme \<Rightarrow>
    (attempt \<times> bool \<times> ('c, 'm) writer_scheme) go" where
  "sendBufferRetry opts pick i b s =
     (if w_closing s then ret (Return (Some ErrNetConnectionClosed), False, refuse b s)
      else do {
        let maxCount = wo_SendQueueRetryMaxCount opts;
        let wasEmpty = sq_IsEmpty (w_queue s);
        (ok, q) \<leftarrow> sq_Push pick (w_queue s) (Some b);
        let s = s\<lparr>w_queue := q\<rparr>;
        if ok then ret (Return None, wasEmpty, accept b s)
        else if maxCount > 0 \<and> i \<ge> maxCount - 1 then ret (Return (Some ErrNetSendQueueFull), False, refuse b s)
        else ret (Again, False, s) })"

definition drainRelease :: "nat \<Rightarrow> ('c, 'm) writer_scheme \<Rightarrow> ('c, 'm) writer_scheme" where
  "drainRelease n s =
     s\<lparr>w_batch := replicate n None @ drop n (w_batch s), w_released := w_released s @ live (take n (w_batch s))\<rparr>"

fun compact_loop :: "nat \<Rightarrow> nat \<Rightarrow> nat \<Rightarrow> item list \<Rightarrow> nat \<times> item list" where
  "compact_loop 0 i j bs = (j, bs)"
| "compact_loop (Suc m) i j bs =
     (if bs ! i \<noteq> None then
        compact_loop m (Suc i) (Suc j) (if j \<noteq> i then bs[j := bs ! i, i := None] else bs)
      else compact_loop m (Suc i) j bs)"

definition compactBatch :: "nat \<Rightarrow> item list \<Rightarrow> nat \<times> item list" where
  "compactBatch n bs = compact_loop n 0 0 bs"

text \<open>\<open>writeFn(wp.sendBatchBuffer[:n], n)\<close>: the callback works on the slice in place.\<close>

definition call_writeFn :: "'c write_fn \<Rightarrow> nat \<Rightarrow> ('c, 'm) writer_scheme \<Rightarrow> werror option \<times> ('c, 'm) writer_scheme" where
  "call_writeFn wfn n s =
     (case wfn (w_conn s) (take n (w_batch s)) of
        (err, b, c) \<Rightarrow> (err, s\<lparr>w_batch := b @ drop n (w_batch s), w_conn := c\<rparr>))"

text \<open>Giving up a batch: release, count, notify.\<close>

definition fail_batch :: "nat \<Rightarrow> werror \<Rightarrow> ('c, 'm) writer_scheme \<Rightarrow> ('c, 'm) writer_scheme" where
  "fail_batch n err s =
     (let s = drainRelease n s in s\<lparr>w_errors := w_errors s + 1, w_notified := w_notified s @ [err]\<rparr>)"

definition wp_Pending :: "('c, 'm) writer_scheme \<Rightarrow> nat" where
  "wp_Pending s = sq_Len (w_queue s)"

subsection \<open>Facts\<close>

lemma live_append [simp]: "live (xs @ ys) = live xs @ live ys"
  by (induction xs) (auto split: option.splits)

lemma live_replicate [simp]: "live (replicate n None) = []"
  by (induction n) auto

lemma live_map_Some [simp]: "live (map Some xs) = xs"
  by (induction xs) auto

lemma live_eq_map: "None \<notin> set xs \<Longrightarrow> map Some (live xs) = xs"
  by (induction xs) (auto split: option.splits simp: neq_commute [of None])

lemma length_live: "length (live xs) \<le> length xs"
  by (induction xs) (auto split: option.splits)

lemma replicate_shift: "replicate r x @ x # zs = x # replicate r x @ zs"
  by (simp add: replicate_app_Cons_same)

lemma compact_loop_spec:
  "length xs = m \<Longrightarrow> i = length A + r \<Longrightarrow>
   compact_loop m i (length A) (A @ replicate r None @ xs @ Z) =
     (length A + length (live xs), A @ map Some (live xs) @ replicate (r + m - length (live xs)) None @ Z)"
proof (induction m arbitrary: i A r xs)
  case (Suc m)
  then obtain x ys where xs: "xs = x # ys" "length ys = m" by (cases xs) auto
  have i: "(A @ replicate r None @ xs @ Z) ! i = x" using Suc.prems(2) xs by (simp add: nth_append)
  show ?case
  proof (cases x)
    case None
    have "A @ replicate r None @ xs @ Z = A @ replicate (Suc r) None @ ys @ Z"
      using xs None by (simp add: replicate_shift)
    with Suc.IH [of ys "Suc i" A "Suc r"] i None xs Suc.prems(2) show ?thesis by (simp add: replicate_shift)
  next
    case (Some b)
    have l: "length (live ys) \<le> m" using length_live [of ys] xs by simp
    show ?thesis
    proof (cases r)
      case 0
      with Suc.IH [of ys "Suc i" "A @ [Some b]" 0] i Some xs Suc.prems(2) l show ?thesis
        by (simp add: Suc_diff_le)
    next
      case (Suc k)
      have "(A @ replicate r None @ xs @ Z)[length A := Some b, i := None] = (A @ [Some b]) @ replicate r None @ ys @ Z"
        using Suc Suc.prems(2) xs by (simp add: list_update_append replicate_shift)
      with Suc.IH [of ys "Suc i" "A @ [Some b]" r] i Some xs Suc.prems(2) l Suc show ?thesis
        by (simp add: Suc_diff_le)
    qed
  qed
qed simp

text \<open>Compacting keeps the live buffers, in order, at the front.\<close>

lemma compactBatch_spec:
  assumes "n \<le> length bs"
  shows "compactBatch n bs =
    (length (live (take n bs)),
     map Some (live (take n bs)) @ replicate (n - length (live (take n bs))) None @ drop n bs)"
  using compact_loop_spec [of "take n bs" n 0 "[]" 0 "drop n bs"] assms by (simp add: compactBatch_def)

lemma Again_bounded:
  "wo_SendQueueRetryMaxCount opts > 0 \<Longrightarrow> i \<ge> wo_SendQueueRetryMaxCount opts - 1 \<Longrightarrow>
   sendBufferRetry opts pick i b s = ret (Again, w, s') \<Longrightarrow> False"
  by (auto simp: sendBufferRetry_def Let_def bind_eq_Some_conv split: if_splits)

text \<open>What the two ways to send do: at most one buffer joins the queue, and only before a stop.\<close>

definition pushes :: "picker \<Rightarrow> bytebuffer \<Rightarrow> bool \<Rightarrow> bool \<Rightarrow> ('c, 'm) writer_scheme \<Rightarrow> ('c, 'm) writer_scheme \<Rightarrow> bool" where
  "pushes pick b ok wake s s' \<longleftrightarrow>
     (\<exists>q r. s' = s\<lparr>w_queue := q, w_accepted := w_accepted s @ (if ok then [b] else []), w_refused := r\<rparr> \<and>
        sq_inv pick q \<and> sq_contents q = sq_contents (w_queue s) @ (if ok then [Some b] else []) \<and>
        (wake \<longleftrightarrow> ok \<and> sq_contents (w_queue s) = []) \<and> (ok \<longrightarrow> \<not> w_closing s))"

lemma pushesI:
  "sq_inv pick q \<Longrightarrow> sq_contents q = sq_contents (w_queue s) @ (if ok then [Some b] else []) \<Longrightarrow>
   wake = (ok \<and> sq_contents (w_queue s) = []) \<Longrightarrow> ok \<longrightarrow> \<not> w_closing s \<Longrightarrow>
   s' = s\<lparr>w_queue := q, w_accepted := w_accepted s @ (if ok then [b] else []), w_refused := r\<rparr> \<Longrightarrow>
   pushes pick b ok wake s s'"
  unfolding pushes_def by (rule exI [of _ q], rule exI [of _ r]) simp

lemma refuse_pushes: "sq_inv pick (w_queue s) \<Longrightarrow> pushes pick b False False s (refuse b s)"
  by (rule pushesI [where q = "w_queue s" and r = "w_refused s @ [b]"]) (simp_all add: refuse_def)

lemma push_cases:
  assumes "sq_inv pick (w_queue s)" and "\<not> w_closing s"
  obtains ok q where "sq_Push pick (w_queue s) (Some b) = ret (ok, q)"
    "sq_IsEmpty (w_queue s) \<longleftrightarrow> sq_contents (w_queue s) = []" "ok \<Longrightarrow> \<not> sq_IsEmpty q"
    "ok \<Longrightarrow> pushes pick b True (sq_contents (w_queue s) = []) s (accept b (s\<lparr>w_queue := q\<rparr>))"
    "\<not> ok \<Longrightarrow> pushes pick b False False s (refuse b (s\<lparr>w_queue := q\<rparr>)) \<and> pushes pick b False False s (s\<lparr>w_queue := q\<rparr>)"
proof -
  obtain ok q where p: "sq_Push pick (w_queue s) (Some b) = ret (ok, q)" "sq_inv pick q"
    "sq_contents q = sq_contents (w_queue s) @ (if ok then [Some b] else [])"
    using sq.Push [OF assms(1), of "Some b"] by (metis append_Nil2)
  show thesis
  proof (rule that [OF p(1)])
    show "sq_IsEmpty (w_queue s) \<longleftrightarrow> sq_contents (w_queue s) = []" by (rule sq.IsEmpty [OF assms(1)])
    show "\<not> sq_IsEmpty q" if ok using sq.IsEmpty [OF p(2)] p(3) that by simp
    show "pushes pick b True (sq_contents (w_queue s) = []) s (accept b (s\<lparr>w_queue := q\<rparr>))" if ok
      by (rule pushesI [where q = q and r = "w_refused s"]) (use p assms(2) that in \<open>simp_all add: accept_def\<close>)
    show "pushes pick b False False s (refuse b (s\<lparr>w_queue := q\<rparr>)) \<and> pushes pick b False False s (s\<lparr>w_queue := q\<rparr>)" if "\<not> ok"
    proof
      show "pushes pick b False False s (refuse b (s\<lparr>w_queue := q\<rparr>))"
        by (rule pushesI [where q = q and r = "w_refused s @ [b]"]) (use p that in \<open>simp_all add: refuse_def\<close>)
      show "pushes pick b False False s (s\<lparr>w_queue := q\<rparr>)"
        by (rule pushesI [where q = q and r = "w_refused s"]) (use p that in simp_all)
    qed
  qed
qed

lemma sendBufferDrop_spec:
  assumes inv: "sq_inv pick (w_queue s)"
  shows "\<exists>err ok wake s'. sendBufferDrop pick b s = ret (err, wake, s') \<and> pushes pick b ok wake s s'"
proof (cases "w_closing s")
  case True
  then show ?thesis using refuse_pushes [OF inv] by (auto simp: sendBufferDrop_def)
next
  case False
  show ?thesis
  proof (rule push_cases [OF inv False, of b])
    fix ok q
    assume c: "sq_Push pick (w_queue s) (Some b) = ret (ok, q)"
      "sq_IsEmpty (w_queue s) \<longleftrightarrow> sq_contents (w_queue s) = []" "ok \<Longrightarrow> \<not> sq_IsEmpty q"
      "ok \<Longrightarrow> pushes pick b True (sq_contents (w_queue s) = []) s (accept b (s\<lparr>w_queue := q\<rparr>))"
      "\<not> ok \<Longrightarrow> pushes pick b False False s (refuse b (s\<lparr>w_queue := q\<rparr>)) \<and> pushes pick b False False s (s\<lparr>w_queue := q\<rparr>)"
    show ?thesis by (cases ok) (use c False in \<open>auto simp: sendBufferDrop_def Let_def\<close>)
  qed
qed

lemma sendBufferRetry_spec:
  assumes inv: "sq_inv pick (w_queue s)"
  shows "\<exists>r ok wake s'. sendBufferRetry opts pick i b s = ret (r, wake, s') \<and> pushes pick b ok wake s s'"
proof (cases "w_closing s")
  case True
  then show ?thesis using refuse_pushes [OF inv] by (auto simp: sendBufferRetry_def)
next
  case False
  show ?thesis
  proof (rule push_cases [OF inv False, of b])
    fix ok q
    assume c: "sq_Push pick (w_queue s) (Some b) = ret (ok, q)"
      "sq_IsEmpty (w_queue s) \<longleftrightarrow> sq_contents (w_queue s) = []" "ok \<Longrightarrow> \<not> sq_IsEmpty q"
      "ok \<Longrightarrow> pushes pick b True (sq_contents (w_queue s) = []) s (accept b (s\<lparr>w_queue := q\<rparr>))"
      "\<not> ok \<Longrightarrow> pushes pick b False False s (refuse b (s\<lparr>w_queue := q\<rparr>)) \<and> pushes pick b False False s (s\<lparr>w_queue := q\<rparr>)"
    show ?thesis by (cases ok) (use c False in \<open>auto simp: sendBufferRetry_def Let_def\<close>)
  qed
qed

text \<open>What a pop of the writer does: it takes a batch off the front unless the queue is empty.\<close>

lemma pop_spec:
  assumes inv: "sq_inv pick q" and some: "None \<notin> set (sq_contents q)" and b: "b \<noteq> []"
  shows "\<exists>n b' q'. sq_PopMany q (int (length b)) b limit = ret (n, b', q') \<and> sq_inv pick q' \<and> length b' = length b \<and>
    n \<le> length b \<and> (n = 0 \<longleftrightarrow> sq_contents q = []) \<and> take n b' @ sq_contents q' = sq_contents q \<and>
    None \<notin> set (sq_contents q') \<and> sq_Len q' = length (sq_contents q')"
proof (cases "sq_contents q = []")
  case True
  with sq.PopMany_empty [OF inv True] sq.Len [OF inv] inv show ?thesis by simp
next
  case False
  from sq.PopMany [OF inv False b, of "int (length b)" limit] obtain n b' q' where
    p: "sq_PopMany q (int (length b)) b limit = ret (n, b', q')" "length b' = length b" by blast
  note pb = sq.PopMany_batch [OF inv False b p(1)]
  have "take n b' = take n (sq_contents q)"
  proof (rule nth_equalityI)
    show "length (take n b') = length (take n (sq_contents q))" using pb p(2) by simp
    fix j assume "j < length (take n b')"
    then have "j < n" by simp
    then have "j < length (sq_contents q)" using pb by simp
    then have "sq_contents q ! j \<noteq> None" using some by (metis nth_mem)
    then show "take n b' ! j = take n (sq_contents q) ! j" using pb \<open>j < n\<close> by simp
  qed
  with pb p some sq.Len [of pick q'] False show ?thesis by (auto dest: in_set_dropD)
qed

subsection \<open>The contract of the write callback\<close>

text \<open>
  \<open>WriteFunc\<close> (src/kknet/facade_processor.go): a call sends some of the buffers, from the front, clears
  them in the bs and leaves the others, in order, for the caller; without an error it has sent all.
  \<open>sent\<close> is what a connection has sent so far.
\<close>

locale write_func =
  fixes wfn :: "'c write_fn" and sent :: "'c \<Rightarrow> bytebuffer list"
  assumes writes: "wfn c b = (err, b', c') \<Longrightarrow>
    length b' = length b \<and> (\<exists>d. live b = d @ live b' \<and> sent c' = sent c @ d) \<and> (err = None \<longrightarrow> live b' = [])"
begin

lemma call_writeFn_spec:
  assumes "call_writeFn wfn n s = (err, s')" and "n \<le> length (w_batch s)"
  obtains d b c where "s' = s\<lparr>w_batch := b @ drop n (w_batch s), w_conn := c\<rparr>" "length b = n"
    "live (take n (w_batch s)) = d @ live b" "sent c = sent (w_conn s) @ d" "err = None \<Longrightarrow> live b = []"
proof -
  obtain b c where w: "wfn (w_conn s) (take n (w_batch s)) = (err, b, c)" "s' = s\<lparr>w_batch := b @ drop n (w_batch s), w_conn := c\<rparr>"
    using assms(1) by (auto simp: call_writeFn_def split: prod.splits)
  with writes [OF w(1)] assms(2) show thesis by (auto intro: that)
qed

end

end
