(* ===== verification/WriteProc.thy ===== *)
theory WriteProc
  imports WriteCore
begin

section \<open>The write processor with its own goroutine\<close>

text \<open>
  src/kknet/kkprocessor/write_thread.go: senders push on the queue and wake the writer goroutine,
  which pops batches and writes them; \<open>Stop\<close> ends it, after what is queued has been written or at
  once. The model is a step relation of the senders, the writer and one \<open>Stop\<close> (\<open>closeOnce\<close>); each
  step is the code between two points where another goroutine can be seen. Closing a closed channel
  is a panic.
\<close>

text \<open>Where the writer is in \<open>writeLoop\<close>; \<open>Retrying\<close> holds the first error and the next attempt.\<close>

datatype writer_pc = Select | Stopping | Popping | Writing nat | Retrying nat werror nat | Exited

text \<open>Where \<open>Stop\<close> is: \<open>Marked\<close> and \<open>Flushing\<close> are before and after its first signal.\<close>

datatype stop_pc = NotStopped | Marked bool | Flushing | WaitDone | Stopped

record 'c wproc = "'c writer" +
  p_wakeCh :: bool
  p_closeCh :: bool
  p_drainedCh :: bool
  p_doneCh :: bool
  p_pc :: writer_pc
  p_wakers :: nat
  p_stop :: stop_pc

definition NewWriteProcessor :: "WriteOptions \<Rightarrow> nnHeap \<Rightarrow> 'c \<Rightarrow> WriteOptions \<times> 'c wproc" where
  "NewWriteProcessor opts h c =
     (let opts = CheckWriteOptions opts
      in (opts, \<lparr>w_queue = NewFIFOQueue h (wo_SendQueueSize opts) (wo_SendQueueStrict opts),
                 w_batch = replicate BatchPacketSize None, w_closing = False, w_conn = c, w_errors = 0, w_notified = [],
                 w_accepted = [], w_refused = [], w_released = [],
                 p_wakeCh = False, p_closeCh = False, p_drainedCh = False, p_doneCh = False,
                 p_pc = Select, p_wakers = 0, p_stop = NotStopped\<rparr>))"

definition close_ch :: "bool \<Rightarrow> bool go" where
  "close_ch closed = (if closed then panic else ret True)"

subsection \<open>Senders\<close>

text \<open>The two ways to send; the woken senders are those that are about to call \<open>wakeWriter\<close>.\<close>

definition wp_sendDrop :: "picker \<Rightarrow> bytebuffer \<Rightarrow> 'c wproc \<Rightarrow> (kkerror option \<times> 'c wproc) go" where
  "wp_sendDrop pick b s = do {
     (err, wake, s) \<leftarrow> sendBufferDrop pick b s;
     ret (err, s\<lparr>p_wakers := p_wakers s + (if wake then 1 else 0)\<rparr>) }"

definition wp_sendRetry :: "WriteOptions \<Rightarrow> picker \<Rightarrow> int \<Rightarrow> bytebuffer \<Rightarrow> 'c wproc \<Rightarrow> (attempt \<times> 'c wproc) go" where
  "wp_sendRetry opts pick i b s = do {
     (r, wake, s) \<leftarrow> sendBufferRetry opts pick i b s;
     ret (r, s\<lparr>p_wakers := p_wakers s + (if wake then 1 else 0)\<rparr>) }"

definition wakeWriter :: "'c wproc \<Rightarrow> 'c wproc" where
  "wakeWriter s = s\<lparr>p_wakeCh := True\<rparr>"

subsection \<open>The writer\<close>

definition wp_exit :: "'c wproc \<Rightarrow> 'c wproc go" where
  "wp_exit s = do { d \<leftarrow> close_ch (p_doneCh s); ret (s\<lparr>p_doneCh := d, p_pc := Exited\<rparr>) }"

text \<open>The channels the \<open>select\<close> finds ready; with both ready either is taken.\<close>

definition wp_ready :: "bool \<Rightarrow> 'c wproc \<Rightarrow> bool" where
  "wp_ready stop s \<longleftrightarrow>
     (case p_pc s of Select \<Rightarrow> (if stop then p_closeCh s else p_wakeCh s) | Exited \<Rightarrow> False | _ \<Rightarrow> True)"

definition wp_retry :: "WriteOptions \<Rightarrow> 'c write_fn \<Rightarrow> nat \<Rightarrow> werror \<Rightarrow> nat \<Rightarrow> 'c wproc \<Rightarrow> 'c wproc go" where
  "wp_retry opts wfn n err k s =
     (if w_closing s then wp_exit (fail_batch n err s)
      else
        let (remaining, b) = compactBatch n (w_batch s); s = s\<lparr>w_batch := b\<rparr>
        in if remaining = 0 then ret (s\<lparr>p_pc := Popping\<rparr>)
           else (case call_writeFn wfn remaining s of
                   (None, s) \<Rightarrow> ret (s\<lparr>p_pc := Popping\<rparr>)
                 | (Some e, s) \<Rightarrow>
                     if \<not> isWriteFnRetryable opts e then wp_exit (fail_batch n err s)
                     else if int k < wo_WriteFnRetryMaxCount opts then ret (s\<lparr>p_pc := Retrying n err (k + 1)\<rparr>)
                     else wp_exit (fail_batch n err s)))"

definition wp_write :: "WriteOptions \<Rightarrow> 'c write_fn \<Rightarrow> nat \<Rightarrow> 'c wproc \<Rightarrow> 'c wproc go" where
  "wp_write opts wfn n s =
     (case call_writeFn wfn n s of
        (None, s) \<Rightarrow> ret (s\<lparr>p_pc := Popping\<rparr>)
      | (Some err, s) \<Rightarrow>
          if \<not> isWriteFnRetryable opts err then wp_exit (fail_batch n err s)
          else if wo_WriteFnRetryMaxCount opts \<le> 0 then wp_exit (fail_batch n err s)
          else ret (s\<lparr>p_pc := Retrying n err 1\<rparr>))"

definition wp_pop :: "WriteOptions \<Rightarrow> 'c wproc \<Rightarrow> 'c wproc go" where
  "wp_pop opts s = do {
     (n, b, q) \<leftarrow> sq_PopMany (w_queue s) (int (length (w_batch s))) (w_batch s) (wo_BatchWriteLimitBytes opts);
     let remain = sq_Len q;
     let s = s\<lparr>w_batch := b, w_queue := q\<rparr>;
     if n = 0 then
       if w_closing s \<and> remain = 0 then do {
         d \<leftarrow> (if p_drainedCh s then ret True else close_ch (p_drainedCh s));
         wp_exit (s\<lparr>p_drainedCh := d\<rparr>) }
       else ret (s\<lparr>p_pc := Select\<rparr>)
     else ret (s\<lparr>p_pc := Writing n\<rparr>) }"

definition wp_release :: "'c wproc \<Rightarrow> 'c wproc go" where
  "wp_release s = do {
     (n, b, q) \<leftarrow> sq_PopMany (w_queue s) (int (length (w_batch s))) (w_batch s) 0;
     let s = s\<lparr>w_batch := b, w_queue := q\<rparr>;
     if n = 0 then wp_exit s else ret (drainRelease n s) }"

definition writeLoop :: "WriteOptions \<Rightarrow> 'c write_fn \<Rightarrow> bool \<Rightarrow> 'c wproc \<Rightarrow> 'c wproc go" where
  "writeLoop opts wfn stop s =
     (case p_pc s of
        Select \<Rightarrow> ret (if stop then s\<lparr>p_pc := Stopping\<rparr> else s\<lparr>p_wakeCh := False, p_pc := Popping\<rparr>)
      | Stopping \<Rightarrow> wp_release s
      | Popping \<Rightarrow> wp_pop opts s
      | Writing n \<Rightarrow> wp_write opts wfn n s
      | Retrying n err k \<Rightarrow> wp_retry opts wfn n err k s
      | Exited \<Rightarrow> ret s)"

subsection \<open>Stop\<close>

text \<open>
  \<open>Stop(err)\<close>: it marks the processor closing; it wakes the writer and waits for it to drain, to end or
  for a timeout, or closes \<open>closeCh\<close>; and it waits for the writer to end.
\<close>

definition stop_mark :: "WriteOptions \<Rightarrow> werror option \<Rightarrow> 'c wproc \<Rightarrow> 'c wproc" where
  "stop_mark opts err s =
     s\<lparr>w_closing := True, p_stop := Marked (wo_SendQueueNeedFlushOver opts \<and> err = None)\<rparr>"

definition stop_signal :: "bool \<Rightarrow> 'c wproc \<Rightarrow> 'c wproc go" where
  "stop_signal flush s =
     (if flush then ret ((wakeWriter s)\<lparr>p_stop := Flushing\<rparr>)
      else do { d \<leftarrow> close_ch (p_closeCh s); ret (s\<lparr>p_closeCh := d, p_stop := WaitDone\<rparr>) })"

definition stop_timeout :: "'c wproc \<Rightarrow> 'c wproc go" where
  "stop_timeout s = do { d \<leftarrow> close_ch (p_closeCh s); ret (s\<lparr>p_closeCh := d, p_stop := WaitDone\<rparr>) }"

subsection \<open>The step relation\<close>

text \<open>A step of any goroutine, with its result: \<open>None\<close> is a panic.\<close>

inductive wp_step :: "WriteOptions \<Rightarrow> 'c write_fn \<Rightarrow> picker \<Rightarrow> 'c wproc \<Rightarrow> 'c wproc go \<Rightarrow> bool" for opts wfn pick where
  send_drop: "wp_step opts wfn pick s (map_option snd (wp_sendDrop pick b s))"
| send_retry: "wp_step opts wfn pick s (map_option snd (wp_sendRetry opts pick i b s))"
| wake: "p_wakers s > 0 \<Longrightarrow> wp_step opts wfn pick s (ret (wakeWriter (s\<lparr>p_wakers := p_wakers s - 1\<rparr>)))"
| loop: "wp_ready stop s \<Longrightarrow> wp_step opts wfn pick s (writeLoop opts wfn stop s)"
| mark: "p_stop s = NotStopped \<Longrightarrow> wp_step opts wfn pick s (ret (stop_mark opts err s))"
| signal: "p_stop s = Marked flush \<Longrightarrow> wp_step opts wfn pick s (stop_signal flush s)"
| flushed: "p_stop s = Flushing \<Longrightarrow> p_drainedCh s \<or> p_doneCh s \<Longrightarrow> wp_step opts wfn pick s (ret (s\<lparr>p_stop := WaitDone\<rparr>))"
| timeout: "p_stop s = Flushing \<Longrightarrow> wp_step opts wfn pick s (stop_timeout s)"
| finish: "p_stop s = WaitDone \<Longrightarrow> p_doneCh s \<Longrightarrow> wp_step opts wfn pick s (ret (s\<lparr>p_stop := Stopped\<rparr>))"

inductive wp_reachable :: "WriteOptions \<Rightarrow> 'c write_fn \<Rightarrow> picker \<Rightarrow> 'c wproc \<Rightarrow> 'c wproc \<Rightarrow> bool" for opts wfn pick s0 where
  start: "wp_reachable opts wfn pick s0 s0"
| step: "wp_reachable opts wfn pick s0 s \<Longrightarrow> wp_step opts wfn pick s (ret s') \<Longrightarrow> wp_reachable opts wfn pick s0 s'"

subsection \<open>The invariant\<close>

text \<open>The buffers the writer has popped and not yet written or released.\<close>

definition in_flight :: "'c wproc \<Rightarrow> bytebuffer list" where
  "in_flight s = (case p_pc s of Writing n \<Rightarrow> live (take n (w_batch s)) | Retrying n e k \<Rightarrow> live (take n (w_batch s)) | _ \<Rightarrow> [])"

definition queued :: "('c, 'm) writer_scheme \<Rightarrow> bytebuffer list" where
  "queued s = live (sq_contents (w_queue s))"

text \<open>Where the accepted buffers are, in order, given those in flight.\<close>

definition accounted :: "('c \<Rightarrow> bytebuffer list) \<Rightarrow> bytebuffer list \<Rightarrow> ('c, 'm) writer_scheme \<Rightarrow> bool" where
  "accounted sent flight s \<longleftrightarrow>
     subseq (sent (w_conn s) @ flight @ queued s) (w_accepted s) \<and>
     mset (w_accepted s) = mset (sent (w_conn s)) + mset (w_released s) + mset flight + mset (queued s)"

definition wp_data :: "picker \<Rightarrow> ('c \<Rightarrow> bytebuffer list) \<Rightarrow> 'c wproc \<Rightarrow> bool" where
  "wp_data pick sent s \<longleftrightarrow>
     sq_inv pick (w_queue s) \<and> None \<notin> set (sq_contents (w_queue s)) \<and> length (w_batch s) = BatchPacketSize \<and>
     (case p_pc s of Writing n \<Rightarrow> n \<le> BatchPacketSize | Retrying n e k \<Rightarrow> n \<le> BatchPacketSize | _ \<Rightarrow> True) \<and>
     accounted sent (in_flight s) s"

definition wp_control :: "'c wproc \<Rightarrow> bool" where
  "wp_control s \<longleftrightarrow>
     (w_closing s \<longleftrightarrow> p_stop s \<noteq> NotStopped) \<and>
     (p_closeCh s \<longrightarrow> p_stop s = WaitDone \<or> p_stop s = Stopped) \<and>
     (p_doneCh s \<longleftrightarrow> p_pc s = Exited) \<and> (p_drainedCh s \<longrightarrow> p_pc s = Exited) \<and>
     (p_stop s = Stopped \<longrightarrow> p_pc s = Exited) \<and> (p_stop s = WaitDone \<longrightarrow> p_closeCh s \<or> p_pc s = Exited) \<and>
     (p_pc s = Stopping \<longrightarrow> p_closeCh s) \<and>
     (p_pc s = Select \<and> queued s \<noteq> [] \<longrightarrow> p_wakeCh s \<or> p_wakers s > 0) \<and>
     (p_pc s = Select \<and> p_stop s = Flushing \<longrightarrow> p_wakeCh s) \<and>
     (p_pc s = Exited \<and> w_errors s = 0 \<longrightarrow> w_closing s \<and> queued s = []) \<and>
     (w_released s \<noteq> [] \<longrightarrow> w_errors s > 0 \<or> p_closeCh s)"

definition wp_inv :: "picker \<Rightarrow> ('c \<Rightarrow> bytebuffer list) \<Rightarrow> 'c wproc \<Rightarrow> bool" where
  "wp_inv pick sent s \<longleftrightarrow> wp_data pick sent s \<and> wp_control s"

lemma wp_invD:
  assumes "wp_inv pick sent s"
  shows "accounted sent (in_flight s) s" and "w_closing s \<longleftrightarrow> p_stop s \<noteq> NotStopped" and "p_doneCh s \<longleftrightarrow> p_pc s = Exited"
    and "p_stop s = Stopped \<Longrightarrow> p_pc s = Exited" and "p_pc s = Exited \<Longrightarrow> w_errors s = 0 \<Longrightarrow> w_closing s \<and> queued s = []"
    and "w_released s = [] \<or> w_errors s > 0 \<or> p_closeCh s"
    and "p_pc s = Select \<Longrightarrow> queued s \<noteq> [] \<Longrightarrow> p_wakeCh s \<or> p_wakers s > 0"
    and "sq_inv pick (w_queue s)"
proof -
  have d: "wp_data pick sent s" and c: "wp_control s" using assms by (simp_all add: wp_inv_def)
  from d show "accounted sent (in_flight s) s" "sq_inv pick (w_queue s)" by (simp_all add: wp_data_def)
  note c = c [unfolded wp_control_def]
  from c show "w_closing s \<longleftrightarrow> p_stop s \<noteq> NotStopped" "p_doneCh s \<longleftrightarrow> p_pc s = Exited" by - (elim conjE, assumption)+
  have i: "p_stop s = Stopped \<longrightarrow> p_pc s = Exited" "p_pc s = Exited \<and> w_errors s = 0 \<longrightarrow> w_closing s \<and> queued s = []"
    "w_released s \<noteq> [] \<longrightarrow> w_errors s > 0 \<or> p_closeCh s" "p_pc s = Select \<and> queued s \<noteq> [] \<longrightarrow> p_wakeCh s \<or> p_wakers s > 0"
    using c by - (elim conjE, assumption)+
  show "p_pc s = Exited" if "p_stop s = Stopped" using i(1) that by blast
  show "w_closing s \<and> queued s = []" if "p_pc s = Exited" "w_errors s = 0" using i(2) that by blast
  show "w_released s = [] \<or> w_errors s > 0 \<or> p_closeCh s" using i(3) by blast
  show "p_wakeCh s \<or> p_wakers s > 0" if "p_pc s = Select" "queued s \<noteq> []" using i(4) that by simp
qed

lemmas wp_inv_defs = wp_inv_def wp_data_def wp_control_def

lemma accounted_drop_flight: "accounted sent fl s \<Longrightarrow> subseq (sent (w_conn s) @ queued s) (w_accepted s)"
  unfolding accounted_def by (metis subseq_append' suffix_imp_subseq suffix_appendI suffix_order.order_refl subseq_order.order_trans)

subsection \<open>The senders and \<open>Stop\<close> keep the invariant\<close>

lemma send_inv:
  assumes inv: "wp_inv pick sent s" and p: "pushes pick b ok wake s s1"
  shows "wp_inv pick sent (s1\<lparr>p_wakers := p_wakers s1 + (if wake then 1 else 0)\<rparr>)"
proof -
  from p obtain q r where s1: "s1 = s\<lparr>w_queue := q, w_accepted := w_accepted s @ (if ok then [b] else []), w_refused := r\<rparr>"
    and q: "sq_inv pick q" "sq_contents q = sq_contents (w_queue s) @ (if ok then [Some b] else [])"
    and w: "wake \<longleftrightarrow> ok \<and> sq_contents (w_queue s) = []" "ok \<longrightarrow> \<not> w_closing s"
    unfolding pushes_def by blast
  let ?s = "s1\<lparr>p_wakers := p_wakers s1 + (if wake then 1 else 0)\<rparr>"
  have qd: "queued ?s = queued s @ (if ok then [b] else [])" using q by (simp add: queued_def s1)
  have fl: "in_flight ?s = in_flight s" by (simp add: in_flight_def s1 split: writer_pc.split)
  have data: "wp_data pick sent s" and ctl: "wp_control s" using inv by (simp_all add: wp_inv_def)
  have "accounted sent (in_flight s) s" using data by (simp add: wp_data_def)
  then have acc: "accounted sent (in_flight ?s) ?s"
    unfolding fl accounted_def qd by (auto simp: s1 intro: list_emb_append_mono simp flip: append_assoc)
  have "wp_data pick sent ?s" using data q acc unfolding wp_data_def by (auto simp: s1 split: writer_pc.splits)
  moreover have "wp_control ?s"
  proof -
    have "queued s = [] \<longleftrightarrow> sq_contents (w_queue s) = []"
      using data live_eq_map [of "sq_contents (w_queue s)"] by (auto simp: queued_def wp_data_def)
    with w(1) have wk: "wake \<longleftrightarrow> ok \<and> queued s = []" by simp
    show ?thesis
    proof (cases ok)
      case True
      with w(2) ctl have "p_stop s = NotStopped" "\<not> w_closing s" by (simp_all add: wp_control_def)
      with ctl True show ?thesis unfolding wp_control_def qd by (auto simp: s1 wk)
    next
      case False
      with ctl show ?thesis unfolding wp_control_def qd by (auto simp: s1 wk)
    qed
  qed
  ultimately show ?thesis by (simp add: wp_inv_def)
qed

lemma wp_sendDrop_inv:
  assumes "wp_inv pick sent s"
  shows "\<exists>err s'. wp_sendDrop pick b s = ret (err, s') \<and> wp_inv pick sent s'"
proof -
  have "sq_inv pick (w_queue s)" using assms by (simp add: wp_inv_def wp_data_def)
  from sendBufferDrop_spec [OF this, of b] obtain err ok wake s1 where
    "sendBufferDrop pick b s = ret (err, wake, s1)" "pushes pick b ok wake s s1" by blast
  with send_inv [OF assms this(2)] show ?thesis by (simp add: wp_sendDrop_def)
qed

lemma wp_sendRetry_inv:
  assumes "wp_inv pick sent s"
  shows "\<exists>r s'. wp_sendRetry opts pick i b s = ret (r, s') \<and> wp_inv pick sent s'"
proof -
  have "sq_inv pick (w_queue s)" using assms by (simp add: wp_inv_def wp_data_def)
  from sendBufferRetry_spec [OF this, of opts i b] obtain r ok wake s1 where
    "sendBufferRetry opts pick i b s = ret (r, wake, s1)" "pushes pick b ok wake s s1" by blast
  with send_inv [OF assms this(2)] show ?thesis by (simp add: wp_sendRetry_def)
qed

lemma control_step_inv:
  assumes "wp_inv pick sent s"
  shows "p_wakers s > 0 \<Longrightarrow> wp_inv pick sent (wakeWriter (s\<lparr>p_wakers := p_wakers s - 1\<rparr>))"
    and "p_stop s = NotStopped \<Longrightarrow> wp_inv pick sent (stop_mark opts err s)"
    and "p_stop s = Marked flush \<Longrightarrow> \<exists>s'. stop_signal flush s = ret s' \<and> wp_inv pick sent s'"
    and "p_stop s = Flushing \<Longrightarrow> p_drainedCh s \<or> p_doneCh s \<Longrightarrow> wp_inv pick sent (s\<lparr>p_stop := WaitDone\<rparr>)"
    and "p_stop s = Flushing \<Longrightarrow> \<exists>s'. stop_timeout s = ret s' \<and> wp_inv pick sent s'"
    and "p_stop s = WaitDone \<Longrightarrow> p_doneCh s \<Longrightarrow> wp_inv pick sent (s\<lparr>p_stop := Stopped\<rparr>)"
  using assms unfolding wp_inv_defs
  by (auto simp: wakeWriter_def stop_mark_def stop_signal_def stop_timeout_def close_ch_def in_flight_def accounted_def queued_def
      split: writer_pc.splits)

subsection \<open>The writer keeps the invariant\<close>

lemma exit_inv:
  assumes "wp_data pick sent (s\<lparr>p_pc := Exited\<rparr>)" and "wp_control (s\<lparr>p_pc := Exited, p_doneCh := True\<rparr>)" and "\<not> p_doneCh s"
  shows "\<exists>s'. wp_exit s = ret s' \<and> wp_inv pick sent s' \<and> p_pc s' = Exited"
  using assms by (auto simp: wp_exit_def close_ch_def wp_inv_def wp_data_def in_flight_def accounted_def queued_def wp_control_def)

lemma fail_batch_sel [simp]:
  "w_queue (fail_batch n err s) = w_queue s" "w_conn (fail_batch n err s) = w_conn s"
  "w_closing (fail_batch n err s) = w_closing s" "w_accepted (fail_batch n err s) = w_accepted s"
  "w_errors (fail_batch n err s) = w_errors s + 1" "queued (fail_batch n err s) = queued s"
  "w_batch (fail_batch n err s) = replicate n None @ drop n (w_batch s)"
  "w_released (fail_batch n err s) = w_released s @ live (take n (w_batch s))"
  by (simp_all add: fail_batch_def drainRelease_def queued_def Let_def)

lemma fail_batch_wsel [simp]:
  "p_wakeCh (fail_batch n err s) = p_wakeCh s" "p_closeCh (fail_batch n err s) = p_closeCh s"
  "p_drainedCh (fail_batch n err s) = p_drainedCh s" "p_doneCh (fail_batch n err s) = p_doneCh s"
  "p_pc (fail_batch n err s) = p_pc s" "p_wakers (fail_batch n err s) = p_wakers s" "p_stop (fail_batch n err s) = p_stop s"
  by (simp_all add: fail_batch_def drainRelease_def Let_def)

text \<open>Giving up the batch in flight ends the writer.\<close>

lemma fail_inv:
  assumes acc: "accounted sent (live (take n (w_batch s))) s"
    and d: "sq_inv pick (w_queue s)" "None \<notin> set (sq_contents (w_queue s))" "length (w_batch s) = BatchPacketSize" "n \<le> BatchPacketSize"
    and ctl: "wp_control s" and pc: "p_pc s = Writing n \<or> p_pc s = Retrying n e k"
  shows "\<exists>s'. wp_exit (fail_batch n err s) = ret s' \<and> wp_inv pick sent s' \<and> p_pc s' = Exited"
proof (rule exit_inv)
  have "subseq (sent (w_conn s) @ queued s) (w_accepted s)" by (rule accounted_drop_flight [OF acc])
  then have "accounted sent [] (fail_batch n err s)" using acc by (simp add: accounted_def)
  then show "wp_data pick sent (fail_batch n err s\<lparr>p_pc := Exited\<rparr>)"
    using d by (simp add: wp_data_def in_flight_def accounted_def) (simp add: queued_def)
  have pc': "p_pc s \<noteq> Exited" "p_pc s \<noteq> Stopping" "p_pc s \<noteq> Select" using pc by auto
  with ctl show "wp_control (fail_batch n err s\<lparr>p_pc := Exited, p_doneCh := True\<rparr>)" "\<not> p_doneCh (fail_batch n err s)"
    by (simp_all add: wp_control_def) (auto simp: queued_def)
qed

text \<open>An upper bound on the steps the writer still takes once the processor is closing.\<close>

definition wp_left :: "'c wproc \<Rightarrow> nat" where
  "wp_left s = (case p_pc s of Exited \<Rightarrow> 0 | Select \<Rightarrow> 2 + 2 * length (sq_contents (w_queue s))
     | Writing n \<Rightarrow> 2 + 2 * length (sq_contents (w_queue s)) | _ \<Rightarrow> 1 + 2 * length (sq_contents (w_queue s)))"

lemma release_inv:
  assumes inv: "wp_inv pick sent s" and pc: "p_pc s = Stopping"
  shows "\<exists>s'. wp_release s = ret s' \<and> wp_inv pick sent s' \<and> wp_left s' < wp_left s"
proof -
  have d: "sq_inv pick (w_queue s)" "None \<notin> set (sq_contents (w_queue s))" "length (w_batch s) = BatchPacketSize"
    and acc: "accounted sent [] s" and ctl: "wp_control s"
    using inv pc by (simp_all add: wp_inv_def wp_data_def in_flight_def)
  have "w_batch s \<noteq> []" using d(3) by (auto simp: BatchPacketSize_def)
  from pop_spec [OF d(1,2) this, of 0] obtain n b q where
    p: "sq_PopMany (w_queue s) (int (length (w_batch s))) (w_batch s) 0 = ret (n, b, q)" "sq_inv pick q" "length b = BatchPacketSize"
      "n \<le> BatchPacketSize" "n = 0 \<longleftrightarrow> sq_contents (w_queue s) = []" "take n b @ sq_contents q = sq_contents (w_queue s)"
      "None \<notin> set (sq_contents q)" using d(3) by auto
  let ?s = "s\<lparr>w_batch := b, w_queue := q\<rparr>"
  have qd: "queued s = live (take n b) @ queued ?s" using p(6) by (simp add: queued_def flip: live_append)
  show ?thesis
  proof (cases "n = 0")
    case True
    then have c: "sq_contents q = []" "sq_contents (w_queue s) = []" using p(5,6) by simp_all
    have "\<exists>s'. wp_exit ?s = ret s' \<and> wp_inv pick sent s' \<and> p_pc s' = Exited"
    proof (rule exit_inv)
      show "wp_data pick sent (?s\<lparr>p_pc := Exited\<rparr>)"
        using acc p(2,3,7) c by (simp add: wp_data_def in_flight_def accounted_def queued_def)
      show "wp_control (?s\<lparr>p_pc := Exited, p_doneCh := True\<rparr>)" using ctl pc c by (auto simp: wp_control_def queued_def)
      show "\<not> p_doneCh ?s" using ctl pc by (simp add: wp_control_def)
    qed
    with True p(1) pc show ?thesis by (auto simp: wp_release_def Let_def wp_left_def)
  next
    case False
    let ?t = "drainRelease n ?s"
    have t: "w_conn ?t = w_conn s" "w_accepted ?t = w_accepted s" "w_released ?t = w_released s @ live (take n b)"
      "queued ?t = queued ?s" "p_pc ?t = Stopping"
      using pc by (simp_all add: drainRelease_def queued_def)
    have "subseq (sent (w_conn s) @ queued ?s) (w_accepted s)"
      using acc accounted_drop_flight [of sent "live (take n b)" ?s] qd by (simp add: accounted_def queued_def)
    then have "accounted sent [] ?t" using acc qd by (simp add: accounted_def t)
    moreover have "wp_control ?t" using ctl pc unfolding wp_control_def by (auto simp: drainRelease_def)
    moreover have "length (sq_contents q) < length (sq_contents (w_queue s))"
      using p(6) False p(3,4) by (metis length_append length_take less_add_same_cancel2 min_absorb2 neq0_conv)
    moreover have "wp_inv pick sent ?t"
      using calculation(1,2) p by (simp add: wp_inv_def wp_data_def in_flight_def t) (simp add: drainRelease_def)
    ultimately show ?thesis using False p(1) t(5) pc by (auto simp: wp_release_def Let_def drainRelease_def wp_left_def)
  qed
qed

lemma pop_inv:
  assumes inv: "wp_inv pick sent s" and pc: "p_pc s = Popping"
  shows "\<exists>s'. wp_pop opts s = ret s' \<and> wp_inv pick sent s' \<and> (w_closing s \<longrightarrow> wp_left s' < wp_left s)"
proof -
  have d: "sq_inv pick (w_queue s)" "None \<notin> set (sq_contents (w_queue s))" "length (w_batch s) = BatchPacketSize"
    and acc: "accounted sent [] s" and ctl: "wp_control s"
    using inv pc by (simp_all add: wp_inv_def wp_data_def in_flight_def)
  have "w_batch s \<noteq> []" using d(3) by (auto simp: BatchPacketSize_def)
  from pop_spec [OF d(1,2) this, of "wo_BatchWriteLimitBytes opts"] obtain n b q where
    p: "sq_PopMany (w_queue s) (int (length (w_batch s))) (w_batch s) (wo_BatchWriteLimitBytes opts) = ret (n, b, q)"
      "sq_inv pick q" "length b = BatchPacketSize"
      "n \<le> BatchPacketSize" "n = 0 \<longleftrightarrow> sq_contents (w_queue s) = []" "take n b @ sq_contents q = sq_contents (w_queue s)"
      "None \<notin> set (sq_contents q)" "sq_Len q = length (sq_contents q)" using d(3) by auto
  let ?s = "s\<lparr>w_batch := b, w_queue := q\<rparr>"
  have qd: "queued s = live (take n b) @ queued ?s" using p(6) by (simp add: queued_def flip: live_append)
  consider (drained) "n = 0" "w_closing s" | (idle) "n = 0" "\<not> w_closing s" | (batch) "n \<noteq> 0" by blast
  then show ?thesis
  proof cases
    case drained
    then have c: "sq_contents q = []" "sq_contents (w_queue s) = []" using p(5,6) by simp_all
    let ?t = "?s\<lparr>p_drainedCh := True\<rparr>"
    have "\<exists>s'. wp_exit ?t = ret s' \<and> wp_inv pick sent s' \<and> p_pc s' = Exited"
    proof (rule exit_inv)
      show "wp_data pick sent (?t\<lparr>p_pc := Exited\<rparr>)"
        using acc p(2,3,7) c by (simp add: wp_data_def in_flight_def accounted_def queued_def)
      show "wp_control (?t\<lparr>p_pc := Exited, p_doneCh := True\<rparr>)"
        using ctl pc c drained by (auto simp: wp_control_def queued_def)
      show "\<not> p_doneCh ?t" using ctl pc by (simp add: wp_control_def)
    qed
    moreover have "\<not> p_drainedCh s" using ctl pc by (auto simp: wp_control_def)
    ultimately show ?thesis using drained p(1,8) c pc by (auto simp: wp_pop_def Let_def close_ch_def wp_left_def)
  next
    case idle
    then have c: "sq_contents q = []" "sq_contents (w_queue s) = []" using p(5,6) by simp_all
    have "wp_data pick sent (?s\<lparr>p_pc := Select\<rparr>)"
      using acc p(2,3,7) c by (simp add: wp_data_def in_flight_def accounted_def queued_def)
    moreover have "wp_control (?s\<lparr>p_pc := Select\<rparr>)" using ctl pc c idle by (auto simp: wp_control_def queued_def)
    ultimately show ?thesis using idle p(1,8) by (simp add: wp_pop_def Let_def wp_inv_def)
  next
    case batch
    let ?t = "?s\<lparr>p_pc := Writing n\<rparr>"
    have "in_flight ?t = live (take n b)" by (simp add: in_flight_def)
    then have "accounted sent (in_flight ?t) ?t" using acc qd by (simp add: accounted_def queued_def)
    then have "wp_data pick sent ?t" using p by (simp add: wp_data_def)
    moreover have "wp_control ?t" using ctl pc by (auto simp: wp_control_def queued_def)
    moreover have "length (sq_contents q) < length (sq_contents (w_queue s))"
      using p(6) batch p(3,4) by (metis length_append length_take less_add_same_cancel2 min_absorb2 neq0_conv)
    ultimately show ?thesis using batch p(1) pc by (simp add: wp_pop_def Let_def wp_inv_def wp_left_def)
  qed
qed

context write_func
begin

text \<open>The state after a call of \<open>writeFn\<close> on the first \<open>m\<close> entries, of the \<open>n\<close> that are in flight.\<close>

lemma call_accounted:
  assumes acc: "accounted sent (live (take n (w_batch s))) s" and n: "n \<le> length (w_batch s)" "m \<le> n"
    and rest: "live (take (n - m) (drop m (w_batch s))) = []"
    and c: "call_writeFn wfn m s = (err, s')"
  shows "accounted sent (live (take n (w_batch s'))) s'" "err = None \<Longrightarrow> live (take n (w_batch s')) = []"
    "\<exists>b c. length b = length (w_batch s) \<and> s' = s\<lparr>w_batch := b, w_conn := c\<rparr>"
proof -
  have m: "m \<le> length (w_batch s)" using n by simp
  obtain d b c where w: "s' = s\<lparr>w_batch := b @ drop m (w_batch s), w_conn := c\<rparr>" "length b = m"
    "live (take m (w_batch s)) = d @ live b" "sent c = sent (w_conn s) @ d" "err = None \<Longrightarrow> live b = []"
    by (rule call_writeFn_spec [OF c m]) (rule that)
  have t: "live (take n (b @ drop m xs)) = live b @ live (take (n - m) (drop m xs))" for xs
    using w(2) n(2) by simp
  have "take n (w_batch s) = take m (w_batch s) @ take (n - m) (drop m (w_batch s))"
    using n(2) by (metis le_add_diff_inverse take_add)
  then have f: "live (take n (w_batch s)) = d @ live b" using rest w(3) by simp
  have b': "live (take n (w_batch s')) = live b" using t rest by (simp add: w(1))
  show "accounted sent (live (take n (w_batch s'))) s'"
    using acc w(4) unfolding b' f accounted_def by (simp add: w(1) queued_def ac_simps)
  show "err = None \<Longrightarrow> live (take n (w_batch s')) = []" using b' w(5) by simp
  show "\<exists>b c. length b = length (w_batch s) \<and> s' = s\<lparr>w_batch := b, w_conn := c\<rparr>"
    using w(1,2) n by (intro exI [of _ "b @ drop m (w_batch s)"]) auto
qed

text \<open>A call made while the batch of \<open>n\<close> is in flight, and the state it leads to.\<close>

lemma after_call:
  assumes inv: "wp_inv pick sent s" and pc: "p_pc s = Writing n \<or> p_pc s = Retrying n e k"
    and s1: "s1 = s\<lparr>w_batch := b1\<rparr>" "length b1 = BatchPacketSize" "live (take n b1) = live (take n (w_batch s))"
    and m: "m \<le> n" "live (take (n - m) (drop m b1)) = []"
    and c: "call_writeFn wfn m s1 = (err, s')"
  shows "err = None \<Longrightarrow> wp_inv pick sent (s'\<lparr>p_pc := Popping\<rparr>)"
    and "wp_inv pick sent (s'\<lparr>p_pc := Retrying n e' k'\<rparr>)"
    and "\<exists>t. wp_exit (fail_batch n e'' s') = ret t \<and> wp_inv pick sent t \<and> p_pc t = Exited"
    and "w_queue s' = w_queue s"
proof -
  have d: "sq_inv pick (w_queue s)" "None \<notin> set (sq_contents (w_queue s))" "length (w_batch s) = BatchPacketSize"
    and nB: "n \<le> BatchPacketSize" and acc: "accounted sent (live (take n (w_batch s))) s" and ctl: "wp_control s"
    using inv pc by (auto simp: wp_inv_def wp_data_def in_flight_def)
  have acc1: "accounted sent (live (take n (w_batch s1))) s1" using acc s1 by (simp add: accounted_def queued_def)
  note ca = call_accounted [OF acc1 _ m(1) _ c]
  have n1: "n \<le> length (w_batch s1)" "live (take (n - m) (drop m (w_batch s1))) = []" using s1 nB m by simp_all
  obtain b c where s': "s' = s\<lparr>w_batch := b, w_conn := c\<rparr>" "length b = BatchPacketSize"
    using ca(3) [OF n1] s1 by auto
  note acc' = ca(1) [OF n1] and none = ca(2) [OF n1]
  have pc': "p_pc s \<noteq> Exited" "p_pc s \<noteq> Stopping" "p_pc s \<noteq> Select" using pc by auto
  have ctl': "wp_control (s'\<lparr>p_pc := x\<rparr>)" if "x = Popping \<or> x = Retrying n e' k'" for x e' k'
    using ctl pc' that by (auto simp: wp_control_def s'(1) queued_def)
  show "wp_inv pick sent (s'\<lparr>p_pc := Popping\<rparr>)" if "err = None"
    using none [OF that] acc' d s' ctl' [of Popping]
    by (simp add: wp_inv_def wp_data_def in_flight_def accounted_def) (simp add: queued_def)
  show "wp_inv pick sent (s'\<lparr>p_pc := Retrying n e' k'\<rparr>)"
    using acc' d s' nB ctl' [of "Retrying n e' k'"]
    by (simp add: wp_inv_def wp_data_def in_flight_def accounted_def) (simp add: queued_def)
  have "wp_control s'" using ctl by (auto simp: wp_control_def s'(1) queued_def)
  then show "\<exists>t. wp_exit (fail_batch n e'' s') = ret t \<and> wp_inv pick sent t \<and> p_pc t = Exited"
    using acc' d s' nB pc by (intro fail_inv [where e = e and k = k]) auto
  show "w_queue s' = w_queue s" by (simp add: s'(1))
qed

lemma write_inv:
  assumes inv: "wp_inv pick sent s" and pc: "p_pc s = Writing n"
  shows "\<exists>s'. wp_write opts wfn n s = ret s' \<and> wp_inv pick sent s' \<and> wp_left s' < wp_left s"
proof -
  obtain err s1 where c: "call_writeFn wfn n s = (err, s1)" by fastforce
  have b: "length (w_batch s) = BatchPacketSize" using inv by (simp add: wp_inv_def wp_data_def)
  have r: "live (take (n - n) (drop n (w_batch s))) = []" "s = s\<lparr>w_batch := w_batch s\<rparr>" by simp_all
  note a = after_call [OF inv disjI1 [OF pc] r(2) b refl order_refl r(1) c]
  show ?thesis
  proof (cases err)
    case None
    with a(1) a(4) c pc show ?thesis by (simp add: wp_write_def wp_left_def)
  next
    case (Some e)
    obtain t where t: "wp_exit (fail_batch n e s1) = ret t" "wp_inv pick sent t" "p_pc t = Exited" using a(3) by blast
    show ?thesis
    proof (cases "\<not> isWriteFnRetryable opts e \<or> wo_WriteFnRetryMaxCount opts \<le> 0")
      case True
      with t c Some pc show ?thesis by (auto simp: wp_write_def wp_left_def)
    next
      case False
      with a(2) [of e 1] a(4) c Some pc show ?thesis by (simp add: wp_write_def wp_left_def)
    qed
  qed
qed

lemma retry_inv:
  assumes inv: "wp_inv pick sent s" and pc: "p_pc s = Retrying n err k"
  shows "\<exists>s'. wp_retry opts wfn n err k s = ret s' \<and> wp_inv pick sent s' \<and> (w_closing s \<longrightarrow> wp_left s' < wp_left s)"
proof -
  let ?l = "live (take n (w_batch s))"
  have b: "length (w_batch s) = BatchPacketSize" "n \<le> BatchPacketSize" and d: "wp_data pick sent s" and ctl: "wp_control s"
    using inv pc by (simp_all add: wp_inv_def wp_data_def)
  define b1 where "b1 = map Some ?l @ replicate (n - length ?l) None @ drop n (w_batch s)"
  have le: "length ?l \<le> n" using length_live [of "take n (w_batch s)"] by simp
  have cb: "compactBatch n (w_batch s) = (length ?l, b1)" using compactBatch_spec b by (simp add: b1_def)
  have b1: "length b1 = BatchPacketSize" "live (take n b1) = ?l" "live (take (n - length ?l) (drop (length ?l) b1)) = []"
    using b le by (simp_all add: b1_def)
  show ?thesis
  proof (cases "w_closing s")
    case True
    have "\<exists>t. wp_exit (fail_batch n err s) = ret t \<and> wp_inv pick sent t \<and> p_pc t = Exited"
      using d ctl pc by (intro fail_inv [where e = err and k = k]) (auto simp: wp_data_def in_flight_def)
    with True pc show ?thesis by (auto simp: wp_retry_def wp_left_def)
  next
    case False
    let ?s = "s\<lparr>w_batch := b1\<rparr>"
    obtain e s1 where c: "call_writeFn wfn (length ?l) ?s = (e, s1)" by fastforce
    note a = after_call [OF inv disjI2 [OF pc] refl b1(1,2) le b1(3) c]
    show ?thesis
    proof (cases "length ?l = 0")
      case True
      have "wp_data pick sent (?s\<lparr>p_pc := Popping\<rparr>)"
        using d pc True b1(1) by (simp add: wp_data_def in_flight_def accounted_def queued_def)
      moreover have "wp_control (?s\<lparr>p_pc := Popping\<rparr>)" using ctl pc by (auto simp: wp_control_def queued_def)
      ultimately show ?thesis using False cb True by (simp add: wp_retry_def wp_inv_def)
    next
      case live: False
      show ?thesis
      proof (cases e)
        case None
        with a(1) c cb False live show ?thesis by (simp add: wp_retry_def)
      next
        case (Some e')
        obtain t where t: "wp_exit (fail_batch n err s1) = ret t" "wp_inv pick sent t" using a(3) by blast
        show ?thesis
        proof (cases "isWriteFnRetryable opts e' \<and> int k < wo_WriteFnRetryMaxCount opts")
          case True
          with a(2) [of err "k + 1"] c cb False live Some show ?thesis by (simp add: wp_retry_def)
        next
          case no: False
          with t c cb False live Some show ?thesis by (auto simp: wp_retry_def)
        qed
      qed
    qed
  qed
qed

lemma writeLoop_inv:
  assumes inv: "wp_inv pick sent s" and ready: "wp_ready stop s"
  shows "\<exists>s'. writeLoop opts wfn stop s = ret s' \<and> wp_inv pick sent s' \<and> (w_closing s \<longrightarrow> wp_left s' < wp_left s)"
proof (cases "p_pc s")
  case Select
  have "wp_inv pick sent (s\<lparr>p_pc := Stopping\<rparr>)" if "p_closeCh s"
    using inv Select that by (auto simp: wp_inv_defs in_flight_def accounted_def queued_def)
  moreover have "wp_inv pick sent (s\<lparr>p_wakeCh := False, p_pc := Popping\<rparr>)"
    using inv Select by (auto simp: wp_inv_defs in_flight_def accounted_def queued_def)
  ultimately show ?thesis using ready Select by (auto simp: writeLoop_def wp_ready_def wp_left_def split: if_splits)
next
  case Stopping
  with release_inv [OF inv] show ?thesis by (auto simp: writeLoop_def)
next
  case Popping
  with pop_inv [OF inv, of opts] show ?thesis by (auto simp: writeLoop_def)
next
  case (Writing n)
  with write_inv [OF inv Writing, of opts] show ?thesis by (auto simp: writeLoop_def)
next
  case (Retrying n err k)
  with retry_inv [OF inv Retrying, of opts] show ?thesis by (auto simp: writeLoop_def)
next
  case Exited
  with ready show ?thesis by (simp add: wp_ready_def)
qed

lemma wp_step_inv:
  assumes "wp_step opts wfn pick s r" and "wp_inv pick sent s"
  shows "\<exists>s'. r = ret s' \<and> wp_inv pick sent s'"
  using assms
proof (induction rule: wp_step.induct)
  case (send_drop s b)
  with wp_sendDrop_inv [of pick sent s b] show ?case by auto
next
  case (send_retry s i b)
  with wp_sendRetry_inv [of pick sent s opts i b] show ?case by auto
next
  case (loop stop s)
  with writeLoop_inv [of pick s stop opts] show ?case by auto
next
  case (wake s)
  with control_step_inv(1) [of pick sent s] show ?case by simp
next
  case (mark s err)
  with control_step_inv(2) [of pick sent s opts err] show ?case by simp
next
  case (signal s flush)
  with control_step_inv(3) [of pick sent s flush] show ?case by simp
next
  case (flushed s)
  with control_step_inv(4) [of pick sent s] show ?case by simp
next
  case (timeout s)
  with control_step_inv(5) [of pick sent s] show ?case by simp
next
  case (finish s)
  with control_step_inv(6) [of pick sent s] show ?case by simp
qed

lemma wp_reachable_inv: "wp_reachable opts wfn pick s0 s \<Longrightarrow> wp_inv pick sent s0 \<Longrightarrow> wp_inv pick sent s"
proof (induction rule: wp_reachable.induct)
  case (step s s')
  then show ?case using wp_step_inv by fastforce
qed

text \<open>Once \<open>Stop\<close> has signalled, the writer always finds a channel ready, until it ends.\<close>

lemma signalled_ready:
  assumes "wp_inv pick sent s" and "p_stop s = Flushing \<or> p_stop s = WaitDone" and "p_pc s \<noteq> Exited"
  shows "\<exists>stop. wp_ready stop s"
proof (cases "p_pc s = Select")
  case True
  with assms have "p_wakeCh s \<or> p_closeCh s" by (auto simp: wp_inv_def wp_control_def)
  then show ?thesis using True by (auto simp: wp_ready_def intro: exI [of _ True] exI [of _ False])
next
  case False
  then have "wp_ready True s" using assms(3) by (cases "p_pc s") (auto simp: wp_ready_def)
  then show ?thesis by blast
qed

lemma clean_exit_sent_all:
  assumes "wp_inv pick sent s" and "p_pc s = Exited" and "w_errors s = 0" and "\<not> p_closeCh s"
  shows "sent (w_conn s) = w_accepted s"
proof -
  have acc: "accounted sent [] s" and c: "queued s = []" "w_released s = []"
    using assms by (auto simp: wp_inv_def wp_data_def wp_control_def in_flight_def)
  then have "subseq (sent (w_conn s)) (w_accepted s)" "mset (w_accepted s) = mset (sent (w_conn s))"
    by (simp_all add: accounted_def)
  then show ?thesis by (metis size_mset subseq_same_length)
qed

end

lemma NewWriteProcessor_inv:
  assumes "valid_picker pick" and "distinct (nh_pool h)" and "\<forall>a \<in> set (nh_pool h). a < nh_fresh h"
    and "sent c = []" and "NewWriteProcessor opts h c = (opts', s)"
  shows "wp_inv pick sent s"
  using sq_inv_New [OF assms(1-3), of "wo_SendQueueSize opts'" "wo_SendQueueStrict opts'"] assms(4,5)
  by (auto simp: NewWriteProcessor_def Let_def wp_inv_defs in_flight_def accounted_def queued_def)

subsection \<open>The writer running on its own\<close>

text \<open>
  The steps the writer takes when the others pause; \<open>choices\<close> says which channel each \<open>select\<close> prefers
  when both are ready.
\<close>

fun wp_run :: "WriteOptions \<Rightarrow> 'c write_fn \<Rightarrow> bool list \<Rightarrow> 'c wproc \<Rightarrow> 'c wproc go" where
  "wp_run opts wfn [] s = ret s"
| "wp_run opts wfn (stop # choices) s =
     (if p_pc s = Exited then ret s
      else do { s \<leftarrow> writeLoop opts wfn (if wp_ready stop s then stop else \<not> stop) s; wp_run opts wfn choices s })"

text \<open>What the writer leaves alone, and its error count when the callback never fails.\<close>

definition kept :: "'c wproc \<Rightarrow> 'c wproc \<Rightarrow> bool" where
  "kept s s' \<longleftrightarrow> p_stop s' = p_stop s \<and> w_closing s' = w_closing s \<and> p_closeCh s' = p_closeCh s \<and> w_accepted s' = w_accepted s"

lemma wp_exit_kept: "wp_exit s = ret s' \<Longrightarrow> kept s s' \<and> w_errors s' = w_errors s"
  by (auto simp: wp_exit_def close_ch_def kept_def split: if_splits)

lemma call_kept: "call_writeFn wfn n s = (err, s') \<Longrightarrow> kept s s' \<and> w_errors s' = w_errors s"
  by (auto simp: call_writeFn_def kept_def split: prod.splits)

lemma writeLoop_stop:
  assumes "writeLoop opts wfn stop s = ret s'"
  shows "kept s s' \<and> ((\<forall>c b. fst (wfn c b) = None) \<longrightarrow> (\<forall>n e k. p_pc s \<noteq> Retrying n e k) \<longrightarrow>
    w_errors s' = w_errors s \<and> (\<forall>n e k. p_pc s' \<noteq> Retrying n e k))"
proof (cases "p_pc s")
  case Stopping
  with assms show ?thesis
    by (auto simp: writeLoop_def wp_release_def Let_def drainRelease_def kept_def bind_eq_Some_conv wp_exit_def close_ch_def split: if_splits)
next
  case Popping
  then obtain n b q where pm: "sq_PopMany (w_queue s) (int (length (w_batch s))) (w_batch s) (wo_BatchWriteLimitBytes opts) = ret (n, b, q)"
    using assms by (auto simp: writeLoop_def wp_pop_def bind_eq_Some_conv)
  show ?thesis
  proof (cases "n = 0 \<and> w_closing s \<and> sq_Len q = 0")
    case True
    with assms Popping pm obtain d where e: "wp_exit (s\<lparr>w_batch := b, w_queue := q, p_drainedCh := d\<rparr>) = ret s'"
      by (auto simp: writeLoop_def wp_pop_def Let_def bind_eq_Some_conv)
    then have "p_pc s' = Exited" by (auto simp: wp_exit_def close_ch_def split: if_splits)
    with wp_exit_kept [OF e] show ?thesis by (simp add: kept_def)
  next
    case False
    with assms Popping pm show ?thesis by (auto simp: writeLoop_def wp_pop_def Let_def kept_def split: if_splits)
  qed
next
  case (Writing n)
  obtain err s1 where c: "call_writeFn wfn n s = (err, s1)" by fastforce
  have n: "err = None" if "\<forall>c b. fst (wfn c b) = None"
    using c that by (auto simp: call_writeFn_def split: prod.splits) (metis fst_conv)
  have "kept s s'" using assms Writing c call_kept [OF c]
    by (auto simp: writeLoop_def wp_write_def kept_def split: option.splits if_splits dest!: wp_exit_kept)
  moreover have "w_errors s' = w_errors s \<and> p_pc s' = Popping" if "\<forall>c b. fst (wfn c b) = None"
    using assms Writing c call_kept [OF c] n [OF that] by (auto simp: writeLoop_def wp_write_def)
  ultimately show ?thesis by auto
next
  case (Retrying n e k)
  obtain r b where cb: "compactBatch n (w_batch s) = (r, b)" by fastforce
  obtain err s1 where c: "call_writeFn wfn r (s\<lparr>w_batch := b\<rparr>) = (err, s1)" by fastforce
  with assms Retrying cb call_kept [OF c] show ?thesis
    by (auto simp: writeLoop_def wp_retry_def kept_def Let_def split: option.splits if_splits dest!: wp_exit_kept)
qed (use assms in \<open>auto simp: writeLoop_def kept_def split: if_splits\<close>)

lemma wp_run_kept:
  "wp_run opts wfn choices s = ret s' \<Longrightarrow>
   kept s s' \<and> ((\<forall>c b. fst (wfn c b) = None) \<longrightarrow> (\<forall>n e k. p_pc s \<noteq> Retrying n e k) \<longrightarrow> w_errors s' = w_errors s)"
proof (induction choices arbitrary: s)
  case (Cons stop choices)
  show ?case
  proof (cases "p_pc s = Exited")
    case False
    with Cons.prems obtain s1 where s1: "writeLoop opts wfn (if wp_ready stop s then stop else \<not> stop) s = ret s1"
      "wp_run opts wfn choices s1 = ret s'" by (auto simp: bind_eq_Some_conv)
    with writeLoop_stop [OF s1(1)] Cons.IH [OF s1(2)] show ?thesis by (simp add: kept_def)
  qed (use Cons.prems in \<open>simp add: kept_def\<close>)
qed (simp add: kept_def)

context write_func
begin

lemma wp_run_exits:
  assumes "wp_inv pick sent s" and "p_stop s = Flushing \<or> p_stop s = WaitDone" and "wp_left s \<le> length choices"
  shows "\<exists>s'. wp_run opts wfn choices s = ret s' \<and> wp_inv pick sent s' \<and> p_pc s' = Exited"
  using assms
proof (induction choices arbitrary: s)
  case Nil
  then have "p_pc s = Exited" by (auto simp: wp_left_def split: writer_pc.splits)
  with Nil show ?case by simp
next
  case (Cons stop choices)
  show ?case
  proof (cases "p_pc s = Exited")
    case False
    have ready: "wp_ready (if wp_ready stop s then stop else \<not> stop) s"
    proof -
      obtain x where "wp_ready x s" using signalled_ready [OF Cons.prems(1,2) False] by blast
      then show ?thesis by (cases stop; cases x) auto
    qed
    have "w_closing s \<longleftrightarrow> p_stop s \<noteq> NotStopped" using Cons.prems(1) by (simp add: wp_inv_def wp_control_def)
    then have closing: "w_closing s" using Cons.prems(2) by auto
    obtain s1 where s1: "writeLoop opts wfn (if wp_ready stop s then stop else \<not> stop) s = ret s1"
      "wp_inv pick sent s1" "wp_left s1 < wp_left s"
      using writeLoop_inv [OF Cons.prems(1) ready, of opts] closing by blast
    have "\<exists>s'. wp_run opts wfn choices s1 = ret s' \<and> wp_inv pick sent s' \<and> p_pc s' = Exited"
      using writeLoop_stop [OF s1(1)] Cons.prems(2,3) s1(3) by (intro Cons.IH [OF s1(2)]) (simp_all add: kept_def)
    with s1(1) False show ?thesis by simp
  qed (use Cons.prems in simp)
qed

lemma wp_run_reachable:
  assumes "wp_reachable opts wfn pick s0 s" and "wp_inv pick sent s" and "p_stop s = Flushing \<or> p_stop s = WaitDone"
    and "wp_run opts wfn choices s = ret s'"
  shows "wp_reachable opts wfn pick s0 s'"
  using assms
proof (induction choices arbitrary: s)
  case (Cons stop choices)
  show ?case
  proof (cases "p_pc s = Exited")
    case False
    obtain x where "wp_ready x s" using signalled_ready [OF Cons.prems(2,3) False] by blast
    then have ready: "wp_ready (if wp_ready stop s then stop else \<not> stop) s" by (cases stop; cases x) auto
    from Cons.prems(4) False obtain s1 where s1: "writeLoop opts wfn (if wp_ready stop s then stop else \<not> stop) s = ret s1"
      "wp_run opts wfn choices s1 = ret s'" by (auto simp: bind_eq_Some_conv)
    have "wp_step opts wfn pick s (ret s1)" using wp_step.loop [OF ready, of opts wfn pick] s1(1) by simp
    then have "wp_reachable opts wfn pick s0 s1" "wp_inv pick sent s1"
      using wp_reachable.step [OF Cons.prems(1)] wp_step_inv [OF _ Cons.prems(2)] by auto
    with Cons.IH [of s1] writeLoop_stop [OF s1(1)] Cons.prems(3) s1(2) show ?thesis by (simp add: kept_def)
  qed (use Cons.prems in simp)
qed simp

end

end
