(* ===== verification/TlsConn.thy ===== *)
theory TlsConn
  imports WriteProc
begin

section \<open>Writing a batch to a TLS connection\<close>

text \<open>
  \<open>writeBatch\<close> and \<open>writeAll\<close> of src/kknet/kktcptls/conn.go, the callback the connection hands to its
  write processor. The network connection is a parameter, \<open>Write\<close>, \<open>SetWriteDeadline\<close> and its state;
  \<open>io_Write\<close> is any such \<open>Write\<close> that keeps the documented contract of \<open>io.Writer\<close>: it takes at most the
  bytes it is given and returns an error when it takes fewer. The pooled array of the batch is a
  list of bytes here.
\<close>

record 's net_conn =
  nc_Write :: "'s \<Rightarrow> byte list \<Rightarrow> nat \<times> werror option \<times> 's"
  nc_SetWriteDeadline :: "'s \<Rightarrow> werror option \<times> 's"

definition io_Write :: "'s net_conn \<Rightarrow> 's \<Rightarrow> byte list \<Rightarrow> nat \<times> werror option \<times> 's" where
  "io_Write E net data =
     (case nc_Write E net data of
        (n, err, net) \<Rightarrow>
          let n = min n (length data)
          in (n, if n < length data \<and> err = None then Some [ErrOther 0] else err, net))"

text \<open>The last two fields are history: the bytes \<open>Write\<close> took and the buffers \<open>writeBatch\<close> put back as sent.\<close>

record 's tlsConn =
  tc_net :: 's
  tc_stats :: Stats
  tc_written :: "byte list"
  tc_sent :: "bytebuffer list"

function tls_writeAll :: "'s net_conn \<Rightarrow> byte list \<Rightarrow> 's tlsConn \<Rightarrow> werror option \<times> 's tlsConn" where
  "tls_writeAll E data c =
     (if length data > 0 then
        (case io_Write E (tc_net c) data of
           (n, err, net) \<Rightarrow>
             let c = c\<lparr>tc_net := net, tc_written := tc_written c @ take n data\<rparr>;
                 c = (if n > 0 then c\<lparr>tc_stats := st_AddSent (int n) (tc_stats c)\<rparr> else c)
             in if err \<noteq> None then (err, c) else tls_writeAll E (drop n data) c)
      else (None, c))"
  by pat_completeness auto
termination
  by (relation "measure (\<lambda>(E, data, c). length data)")
    (auto simp: io_Write_def Let_def split: prod.splits if_splits)

declare tls_writeAll.simps [simp del]

text \<open>Putting the entries from \<open>lo\<close> up to \<open>hi\<close> back after they have been written.\<close>

definition tls_put :: "nat \<Rightarrow> nat \<Rightarrow> item list \<Rightarrow> 's tlsConn \<Rightarrow> item list \<times> 's tlsConn" where
  "tls_put lo hi b c =
     (take lo b @ replicate (hi - lo) None @ drop hi b, c\<lparr>tc_sent := tc_sent c @ live (sub_slice b lo hi)\<rparr>)"

text \<open>The loop over the batch: \<open>m\<close> entries are left, from \<open>i\<close>; those from \<open>start\<close> are collected in \<open>bytes\<close>.\<close>

fun tls_batch_loop :: "'s net_conn \<Rightarrow> int \<Rightarrow> nat \<Rightarrow> nat \<Rightarrow> nat \<Rightarrow> byte list \<Rightarrow> item list \<Rightarrow> 's tlsConn \<Rightarrow>
    werror option \<times> nat \<times> byte list \<times> item list \<times> 's tlsConn" where
  "tls_batch_loop E limit 0 i start bytes b c = (None, start, bytes, b, c)"
| "tls_batch_loop E limit (Suc m) i start bytes b c =
     (case b ! i of
        None \<Rightarrow> tls_batch_loop E limit m (Suc i) start bytes b c
      | Some bb \<Rightarrow>
          let bytes = bytes @ bb
          in if int (length bytes) \<ge> limit then
               (case tls_writeAll E bytes c of
                  (Some err, c) \<Rightarrow> (Some err, start, bytes, b, c)
                | (None, c) \<Rightarrow>
                    let (b, c) = tls_put start (Suc i) b c
                    in tls_batch_loop E limit m (Suc i) (Suc i) [] b c)
             else tls_batch_loop E limit m (Suc i) start bytes b c)"

definition tls_writeBatch :: "'s net_conn \<Rightarrow> int \<Rightarrow> int \<Rightarrow> 's tlsConn \<Rightarrow> item list \<Rightarrow> werror option \<times> item list \<times> 's tlsConn" where
  "tls_writeBatch E writeTimeout limit c b =
     (let n = length b
      in if n \<le> 0 then (None, b, c)
         else
           let (err, net) = (if writeTimeout > 0 then nc_SetWriteDeadline E (tc_net c) else (None, tc_net c));
               c = c\<lparr>tc_net := net\<rparr>
           in if err \<noteq> None then (err, b, c)
              else if n > 1 then
                (case tls_batch_loop E limit n 0 0 [] b c of
                   (Some err, start, bytes, b, c) \<Rightarrow> (Some err, b, c)
                 | (None, start, bytes, b, c) \<Rightarrow>
                     let (err, c) = (if length bytes > 0 then tls_writeAll E bytes c else (None, c))
                     in if err \<noteq> None then (err, b, c)
                        else let (b, c) = tls_put start n b c in (None, b, c))
              else
                (case b ! 0 of
                   None \<Rightarrow> (None, b, c)
                 | Some bb \<Rightarrow>
                     let (err, c) = tls_writeAll E bb c
                     in if err \<noteq> None then (err, b, c)
                        else let (b, c) = tls_put 0 1 b c in (None, b, c)))"

subsection \<open>What is written\<close>

lemma io_Write_ok: "io_Write E net data = (n, None, net') \<Longrightarrow> n = length data"
  by (auto simp: io_Write_def Let_def split: prod.splits if_splits)

lemma writeAll_spec:
  "tls_writeAll E data c = (err, c') \<Longrightarrow>
   tc_sent c' = tc_sent c \<and> (\<exists>k. tc_written c' = tc_written c @ take k data) \<and>
   (err = None \<longrightarrow> tc_written c' = tc_written c @ data)"
proof (cases "data = []")
  case True
  then show "tls_writeAll E data c = (err, c') \<Longrightarrow> ?thesis" by (simp add: tls_writeAll.simps)
next
  case False
  assume a: "tls_writeAll E data c = (err, c')"
  obtain n e net where w: "io_Write E (tc_net c) data = (n, e, net)" by (metis prod_cases3)
  show ?thesis
  proof (cases e)
    case None
    then have "n = length data" using io_Write_ok w by metis
    with a w None False show ?thesis
      by (subst (asm) tls_writeAll.simps) (auto simp: Let_def tls_writeAll.simps intro: exI [of _ n])
  next
    case (Some x)
    with a w False show ?thesis
      by (subst (asm) tls_writeAll.simps) (auto simp: Let_def split: if_splits)
  qed
qed

text \<open>
  What the loop keeps: the entries before \<open>start\<close> are cleared and their buffers sent, those from
  \<open>start\<close> are as they were; the bytes written since the call are those of the buffers sent, followed,
  after an error, by a part of the next ones.
\<close>

definition tls_progress :: "item list \<Rightarrow> 's tlsConn \<Rightarrow> nat \<Rightarrow> item list \<Rightarrow> 's tlsConn \<Rightarrow> bool" where
  "tls_progress b0 c0 start b c \<longleftrightarrow>
     start \<le> length b0 \<and> b = replicate start None @ drop start b0 \<and> tc_sent c = tc_sent c0 @ live (take start b0)"

lemma put_progress:
  assumes "tls_progress b0 c0 start b c" and "start \<le> hi" and "hi \<le> length b0"
  shows "tls_put start hi b c = (replicate hi None @ drop hi b0, c\<lparr>tc_sent := tc_sent c0 @ live (take hi b0)\<rparr>)"
proof -
  have b: "b = replicate start None @ drop start b0" "start \<le> length b0" using assms(1) by (simp_all add: tls_progress_def)
  have "take hi b0 = take start b0 @ sub_slice b0 start hi"
    using assms(2) by (simp add: sub_slice_def) (metis le_add_diff_inverse take_add)
  moreover have "sub_slice b start hi = sub_slice b0 start hi" using b by (simp add: sub_slice_def)
  moreover have "replicate start None @ replicate (hi - start) None = (replicate hi None :: item list)"
    using assms(2) by (simp flip: replicate_add)
  ultimately show ?thesis
    using assms b by (simp add: tls_put_def tls_progress_def flip: append_assoc)
qed

lemma batch_loop_spec:
  "tls_batch_loop E limit m i start bytes b c = (err, start', bytes', b', c') \<Longrightarrow>
   i + m = length b0 \<Longrightarrow> start \<le> i \<Longrightarrow> tls_progress b0 c0 start b c \<Longrightarrow>
   bytes = concat (live (sub_slice b0 start i)) \<Longrightarrow>
   tc_written c = tc_written c0 @ concat (live (take start b0)) \<Longrightarrow>
   tls_progress b0 c0 start' b' c' \<and>
   (err = None \<longrightarrow> bytes' = concat (live (drop start' b0)) \<and>
     tc_written c' = tc_written c0 @ concat (live (take start' b0)))"
proof (induction m arbitrary: i start bytes b c)
  case 0
  then show ?case by (auto simp: slice_to_end)
next
  case (Suc m)
  have i: "i < length b0" using Suc.prems(2) by simp
  have bi: "b ! i = b0 ! i" using Suc.prems(3,4) i by (auto simp: tls_progress_def nth_append)
  have snoc: "sub_slice b0 start (Suc i) = sub_slice b0 start i @ [b0 ! i]"
    using Suc.prems(3) i by (simp add: sub_slice_def Suc_diff_le take_Suc_conv_app_nth)
  show ?case
  proof (cases "b0 ! i")
    case None
    with Suc.prems bi snoc show ?thesis by (intro Suc.IH [of "Suc i" start bytes b c]) simp_all
  next
    case (Some bb)
    let ?bytes = "bytes @ bb"
    have bytes: "?bytes = concat (live (sub_slice b0 start (Suc i)))" using Suc.prems(5) snoc Some by simp
    show ?thesis
    proof (cases "int (length ?bytes) \<ge> limit")
      case False
      then have "tls_batch_loop E limit m (Suc i) start ?bytes b c = (err, start', bytes', b', c')"
        using Suc.prems(1) bi Some by (simp add: Let_def)
      from Suc.IH [OF this _ _ Suc.prems(4) bytes Suc.prems(6)] Suc.prems(2,3) show ?thesis by simp
    next
      case True
      obtain e c1 where w: "tls_writeAll E ?bytes c = (e, c1)" by fastforce
      have c1: "tls_progress b0 c0 start b c1" using Suc.prems(4) writeAll_spec [OF w] by (simp add: tls_progress_def)
      show ?thesis
      proof (cases e)
        case (Some x)
        with Suc.prems(1) w True bi \<open>b0 ! i = Some bb\<close> c1 show ?thesis by auto
      next
        case None
        let ?b = "replicate (Suc i) None @ drop (Suc i) b0" and ?c = "c1\<lparr>tc_sent := tc_sent c0 @ live (take (Suc i) b0)\<rparr>"
        have p: "tls_put start (Suc i) b c1 = (?b, ?c)" using c1 Suc.prems(3) i by (intro put_progress) simp_all
        have t: "take (Suc i) b0 = take start b0 @ sub_slice b0 start (Suc i)"
          using Suc.prems(3) by (simp add: sub_slice_def) (metis le_SucI le_add_diff_inverse take_add)
        have wr: "tc_written ?c = tc_written c0 @ concat (live (take (Suc i) b0))"
          using writeAll_spec [OF w] None Suc.prems(6) bytes t by simp
        have pr: "tls_progress b0 c0 (Suc i) ?b ?c" using i by (simp add: tls_progress_def)
        from Suc.prems(1,2) w True bi \<open>b0 ! i = Some bb\<close> None p wr pr show ?thesis
          by (intro Suc.IH [of "Suc i" "Suc i" "[]" ?b ?c]) (simp_all add: Let_def)
      qed
    qed
  qed
qed

lemma progress_sent:
  assumes "tls_progress b0 c0 start b c"
  shows "length b = length b0" "live b0 = live (take start b0) @ live b" "tc_sent c = tc_sent c0 @ live (take start b0)"
proof -
  have b: "b = replicate start None @ drop start b0" "start \<le> length b0" using assms by (simp_all add: tls_progress_def)
  show "length b = length b0" using b by simp
  have "live b0 = live (take start b0 @ drop start b0)" by simp
  then show "live b0 = live (take start b0) @ live b" unfolding live_append by (simp add: b(1))
  show "tc_sent c = tc_sent c0 @ live (take start b0)" using assms by (simp add: tls_progress_def)
qed

text \<open>The result of \<open>writeBatch\<close>: how far it got, and what has been written when it got to the end.\<close>

lemma writeBatch_spec:
  assumes "tls_writeBatch E writeTimeout limit c b = (err, b', c')"
  shows "\<exists>start. tls_progress b c start b' c' \<and>
    (err = None \<longrightarrow> live b' = [] \<and> tc_written c' = tc_written c @ concat (live b))"
proof (cases "b = []")
  case True
  with assms show ?thesis by (auto simp: tls_writeBatch_def tls_progress_def)
next
  case ne: False
  obtain e net where d: "(if writeTimeout > 0 then nc_SetWriteDeadline E (tc_net c) else (None, tc_net c)) = (e, net)" by fastforce
  let ?c = "c\<lparr>tc_net := net\<rparr>"
  have p0: "tls_progress b c 0 b ?c" by (simp add: tls_progress_def)
  show ?thesis
  proof (cases e)
    case (Some x)
    with assms d ne p0 show ?thesis by (auto simp: tls_writeBatch_def Let_def)
  next
    case no_err: None
    show ?thesis
    proof (cases "length b > 1")
      case True
      obtain e1 start bytes b1 c1 where l: "tls_batch_loop E limit (length b) 0 0 [] b ?c = (e1, start, bytes, b1, c1)" by (metis prod_cases5)
      have ls: "tls_progress b c start b1 c1"
        "e1 = None \<Longrightarrow> bytes = concat (live (drop start b)) \<and> tc_written c1 = tc_written c @ concat (live (take start b))"
        using batch_loop_spec [OF l, of b c] p0 by simp_all
      show ?thesis
      proof (cases e1)
        case (Some x)
        with assms d ne no_err True l ls(1) show ?thesis by (auto simp: tls_writeBatch_def Let_def)
      next
        case None
        obtain e2 c2 where w: "(if length bytes > 0 then tls_writeAll E bytes c1 else (None, c1)) = (e2, c2)" by fastforce
        have w2: "tc_sent c2 = tc_sent c1" "e2 = None \<Longrightarrow> tc_written c2 = tc_written c1 @ bytes"
          using w writeAll_spec [of E bytes c1 e2 c2] by (auto split: if_splits)
        have p2: "tls_progress b c start b1 c2" using ls(1) w2(1) by (simp add: tls_progress_def)
        show ?thesis
        proof (cases e2)
          case (Some x)
          with assms d ne no_err True l None w p2 show ?thesis by (auto simp: tls_writeBatch_def Let_def)
        next
          case none2: None
          have st: "start \<le> length b" using ls(1) by (simp add: tls_progress_def)
          note put = put_progress [OF p2 st order_refl]
          have "tc_written c2 = tc_written c @ concat (live (take start b @ drop start b))"
            using w2(2) [OF none2] ls(2) [OF None] by (simp only: live_append concat_append append_assoc)
          moreover have "b' = replicate (length b) None" "c' = c2\<lparr>tc_sent := tc_sent c @ live b\<rparr>" "err = None"
            using assms d ne no_err True l None w none2 put by (simp_all add: tls_writeBatch_def Let_def)
          ultimately show ?thesis by (intro exI [of _ "length b"]) (simp add: tls_progress_def)
        qed
      qed
    next
      case False
      with ne obtain x where b: "b = [x]" by (cases b) auto
      show ?thesis
      proof (cases x)
        case None
        with assms d no_err b p0 show ?thesis by (auto simp: tls_writeBatch_def Let_def)
      next
        case (Some bb)
        obtain e2 c2 where w: "tls_writeAll E bb ?c = (e2, c2)" by fastforce
        have w2: "tc_sent c2 = tc_sent c" "e2 = None \<Longrightarrow> tc_written c2 = tc_written c @ bb"
          using writeAll_spec [OF w] by auto
        show ?thesis
        proof (cases e2)
          case (Some y)
          with assms d no_err b \<open>x = Some bb\<close> w w2 show ?thesis
            by (auto simp: tls_writeBatch_def Let_def tls_progress_def intro!: exI [of _ 0])
        next
          case None
          with assms d no_err b Some w w2 show ?thesis
            by (auto simp: tls_writeBatch_def Let_def tls_progress_def tls_put_def sub_slice_def intro!: exI [of _ 1])
        qed
      qed
    qed
  qed
qed

interpretation tls: write_func "tls_writeBatch E writeTimeout limit" tc_sent for E :: "'s net_conn" and writeTimeout limit
proof
  fix c :: "'s tlsConn" and b err b' c'
  assume "tls_writeBatch E writeTimeout limit c b = (err, b', c')"
  from writeBatch_spec [OF this] obtain start where p: "tls_progress b c start b' c'" and n: "err = None \<longrightarrow> live b' = []" by blast
  show "length b' = length b \<and> (\<exists>d. live b = d @ live b' \<and> tc_sent c' = tc_sent c @ d) \<and> (err = None \<longrightarrow> live b' = [])"
    using progress_sent [OF p] n by blast
qed

end
