(* ===== verification/WriteProps.thy ===== *)
theory WriteProps
  imports TlsConn
begin

section \<open>Properties of the write processor\<close>

text \<open>
  For any callback that keeps the contract of \<open>WriteFunc\<close>, and in every interleaving of the senders,
  the writer and \<open>Stop\<close>; \<open>writeBatch\<close> of the TLS connection is such a callback.
\<close>

text \<open>
  C25: the write processor loses and reorders nothing, in every reachable state: no step of any
  goroutine panics (no channel is closed twice, no index is out of range); every accepted buffer is
  exactly one of sent, released after an error or an abrupt stop, in the batch being written, or
  queued; those sent, being written and queued are in the order of acceptance; buffers are released
  only after a write error or an abrupt stop.
\<close>

theorem write_processor_conserves:
  assumes "write_func wfn sent" and "sent c = []" and "valid_picker pick"
    and "distinct (nh_pool h)" and "\<forall>a \<in> set (nh_pool h). a < nh_fresh h"
    and "NewWriteProcessor opts h c = (opts', s0)" and "wp_reachable opts' wfn pick s0 s" and "wp_step opts' wfn pick s r"
  shows "r \<noteq> panic \<and>
    subseq (sent (w_conn s) @ in_flight s @ queued s) (w_accepted s) \<and>
    mset (w_accepted s) = mset (sent (w_conn s)) + mset (w_released s) + mset (in_flight s) + mset (queued s) \<and>
    (w_released s = [] \<or> w_errors s > 0 \<or> p_closeCh s)"
proof -
  note inv = write_func.wp_reachable_inv [OF assms(1,7) NewWriteProcessor_inv [where sent = sent and c = c, OF assms(3-5,2,6)]]
  obtain s' where "r = ret s'" using write_func.wp_step_inv [OF assms(1,8) inv] by blast
  with wp_invD(1,6) [OF inv] show ?thesis unfolding accounted_def by simp
qed

text \<open>
  C26: no wake-up is lost and \<open>Stop\<close> ends: in every reachable state in which buffers are queued, the
  writer that has not ended is at work or woken, or a sender is about to wake it; and once \<open>Stop\<close> has
  given its signal, the writer ends within a bounded number of its own steps, whichever ready channel
  its selects take, without a panic.
\<close>

theorem write_processor_progress:
  assumes "write_func wfn sent" and "sent c = []" and "valid_picker pick"
    and "distinct (nh_pool h)" and "\<forall>a \<in> set (nh_pool h). a < nh_fresh h"
    and "NewWriteProcessor opts h c = (opts', s0)" and "wp_reachable opts' wfn pick s0 s"
  shows "(queued s = [] \<or> p_pc s = Exited \<or> (\<exists>stop. wp_ready stop s) \<or> p_wakers s > 0) \<and>
    (p_stop s = Flushing \<or> p_stop s = WaitDone \<longrightarrow> wp_left s \<le> length choices \<longrightarrow>
      (\<exists>s'. wp_run opts' wfn choices s = ret s' \<and> p_doneCh s'))"
proof -
  note inv = write_func.wp_reachable_inv [OF assms(1,7) NewWriteProcessor_inv [where sent = sent and c = c, OF assms(3-5,2,6)]]
  have "\<exists>stop. wp_ready stop s" if "queued s \<noteq> []" "p_pc s \<noteq> Exited" "p_wakers s = 0"
  proof (cases "p_pc s = Select")
    case True
    with wp_invD(7) [OF inv True] that have "wp_ready False s" by (simp add: wp_ready_def)
    then show ?thesis by blast
  next
    case False
    with that(2) have "wp_ready True s" by (cases "p_pc s") (simp_all add: wp_ready_def)
    then show ?thesis by blast
  qed
  moreover have "\<exists>s'. wp_run opts' wfn choices s = ret s' \<and> p_doneCh s'"
    if "p_stop s = Flushing \<or> p_stop s = WaitDone" "wp_left s \<le> length choices"
    using write_func.wp_run_exits [OF assms(1) inv that, of opts'] wp_invD(3) by blast
  ultimately show ?thesis by blast
qed

text \<open>
  C27: a graceful stop sends everything: when \<open>Stop\<close> has returned, or the writer has ended, without a
  write error and without a timeout or abrupt stop, the buffers sent are exactly the accepted ones in
  order, and none is accepted any more.
\<close>

theorem graceful_stop_sends_all:
  assumes "write_func wfn sent" and "sent c = []" and "valid_picker pick"
    and "distinct (nh_pool h)" and "\<forall>a \<in> set (nh_pool h). a < nh_fresh h"
    and "NewWriteProcessor opts h c = (opts', s0)" and "wp_reachable opts' wfn pick s0 s"
    and "p_stop s = Stopped \<or> p_doneCh s" and "w_errors s = 0" and "\<not> p_closeCh s"
  shows "sent (w_conn s) = w_accepted s \<and> w_closing s \<and>
    (\<exists>s'. wp_sendDrop pick b s = ret (Some ErrNetConnectionClosed, s') \<and> w_accepted s' = w_accepted s)"
proof -
  note inv = write_func.wp_reachable_inv [OF assms(1,7) NewWriteProcessor_inv [where sent = sent and c = c, OF assms(3-5,2,6)]]
  have pc: "p_pc s = Exited" using wp_invD(3,4) [OF inv] assms(8) by blast
  have "w_closing s" using wp_invD(5) [OF inv pc assms(9)] by simp
  with write_func.clean_exit_sent_all [OF assms(1) inv pc assms(9,10)] show ?thesis
    by (simp add: wp_sendDrop_def sendBufferDrop_def refuse_def)
qed

subsection \<open>A stop with the TLS connection\<close>

text \<open>A connection that takes every write, and a run: one message is sent, then \<open>Stop(nil)\<close>.\<close>

definition reliable :: "unit net_conn" where
  "reliable = \<lparr>nc_Write = (\<lambda>s data. (length data, None, s)), nc_SetWriteDeadline = (\<lambda>s. (None, s))\<rparr>"

definition fresh_conn :: "unit tlsConn" where
  "fresh_conn = \<lparr>tc_net = (), tc_stats = zero_Stats, tc_written = [], tc_sent = []\<rparr>"

abbreviation (input) "run_opts \<equiv> CheckWriteOptions (DefaultWriteOptions\<lparr>wo_SendQueueStrict := True, wo_SendQueueSize := 4\<rparr>)"
abbreviation (input) "run_write \<equiv> tls_writeBatch reliable 0 1024"

definition run_start :: "unit tlsConn wproc" where
  "run_start = snd (NewWriteProcessor (DefaultWriteOptions\<lparr>wo_SendQueueStrict := True, wo_SendQueueSize := 4\<rparr>) empty_nodes fresh_conn)"

definition run_stopping :: "unit tlsConn wproc" where
  "run_stopping = the (do { (e, s) \<leftarrow> wp_sendDrop lifo [7, 8] run_start; stop_signal True (stop_mark run_opts None s) })"

definition run_end :: "unit tlsConn wproc" where
  "run_end = the (wp_run run_opts run_write (replicate 8 False) run_stopping)"

lemma run_New: "NewWriteProcessor (DefaultWriteOptions\<lparr>wo_SendQueueStrict := True, wo_SendQueueSize := 4\<rparr>) empty_nodes fresh_conn =
    (run_opts, run_start)"
  by (simp add: run_start_def NewWriteProcessor_def Let_def)

lemma empty_nodes_ok: "distinct (nh_pool empty_nodes)" "\<forall>a \<in> set (nh_pool empty_nodes). a < nh_fresh empty_nodes"
  by (simp_all add: empty_nodes_def)

lemmas run_setup = tls.write_func_axioms [of reliable 0 1024] _ lifo_valid empty_nodes_ok run_New

lemma run_stopping_reachable: "wp_reachable run_opts run_write lifo run_start run_stopping"
proof -
  have inv: "wp_inv lifo tc_sent run_start"
    by (rule NewWriteProcessor_inv [OF lifo_valid empty_nodes_ok _ run_New]) (simp add: fresh_conn_def)
  obtain e s1 where s1: "wp_sendDrop lifo [7, 8] run_start = ret (e, s1)" using wp_sendDrop_inv [OF inv] by blast
  have r1: "wp_reachable run_opts run_write lifo run_start s1"
    using wp_step.send_drop [of run_opts run_write lifo run_start "[7, 8]"] s1 by (auto intro: wp_reachable.step [OF wp_reachable.start])
  have st: "p_stop s1 = NotStopped"
    using s1 by (auto simp: wp_sendDrop_def sendBufferDrop_def Let_def accept_def refuse_def run_start_def NewWriteProcessor_def
        bind_eq_Some_conv split: if_splits)
  have r2: "wp_reachable run_opts run_write lifo run_start (stop_mark run_opts None s1)"
    by (rule wp_reachable.step [OF r1 wp_step.mark [OF st]])
  have m: "p_stop (stop_mark run_opts None s1) = Marked True" by (simp add: stop_mark_def DefaultWriteOptions_def)
  have "run_stopping = (wakeWriter (stop_mark run_opts None s1))\<lparr>p_stop := Flushing\<rparr>"
    using s1 by (simp add: run_stopping_def stop_signal_def)
  then show ?thesis
    using wp_step.signal [OF m, of run_opts run_write lifo] by (auto simp: stop_signal_def intro: wp_reachable.step [OF r2])
qed

lemma write_processor_conserves_witness:
  "map_option snd (wp_sendDrop lifo [9] run_stopping) \<noteq> panic \<and>
   mset (w_accepted run_stopping) = mset (tc_sent (w_conn run_stopping)) + mset (w_released run_stopping) +
     mset (in_flight run_stopping) + mset (queued run_stopping)"
  using write_processor_conserves [OF tls.write_func_axioms [of reliable 0 1024] _ lifo_valid empty_nodes_ok run_New run_stopping_reachable
      wp_step.send_drop] by (simp add: fresh_conn_def)

lemma run_stopping_left: "p_stop run_stopping = Flushing" "wp_left run_stopping \<le> 8"
  by code_simp+

lemma run_stopping_clean: "w_errors run_stopping = 0" "\<not> p_closeCh run_stopping"
  by code_simp+

lemma run_stopping_pc: "p_pc run_stopping = Select"
  by code_simp

lemma run_stopping_accepted: "w_accepted run_stopping = [[7, 8]]"
  by code_simp

lemma write_processor_progress_witness: "\<exists>s'. wp_run run_opts run_write (replicate 8 False) run_stopping = ret s' \<and> p_doneCh s'"
  using write_processor_progress [OF tls.write_func_axioms [of reliable 0 1024] _ lifo_valid empty_nodes_ok run_New run_stopping_reachable,
      of "replicate 8 False"] run_stopping_left by (simp add: fresh_conn_def)

lemma reliable_writeAll: "fst (tls_writeAll reliable data c) = None"
  by (induction "reliable" data c rule: tls_writeAll.induct)
    (subst tls_writeAll.simps, simp add: io_Write_def reliable_def Let_def tls_writeAll.simps)

lemma reliable_loop: "fst (tls_batch_loop reliable limit m i start bytes b c) = None"
  by (induction m arbitrary: i start bytes b c)
    (auto simp: Let_def split: option.splits prod.splits dest: arg_cong [of _ _ fst] simp: reliable_writeAll)

lemma reliable_writeBatch: "fst (run_write c b) = None"
  using reliable_loop [of 1024 "length b" 0 0 "[]" b "c\<lparr>tc_net := tc_net c\<rparr>"] reliable_writeAll
  by (auto simp: tls_writeBatch_def Let_def split: option.splits prod.splits) (metis fst_conv option.distinct(1))+

lemma run_end_reachable: "wp_reachable run_opts run_write lifo run_start run_end"
  and run_end_clean: "p_doneCh run_end" "w_errors run_end = 0" "\<not> p_closeCh run_end" "w_accepted run_end = [[7, 8]]"
proof -
  have "wp_inv lifo tc_sent run_start"
    by (rule NewWriteProcessor_inv [OF lifo_valid empty_nodes_ok _ run_New]) (simp add: fresh_conn_def)
  then have inv: "wp_inv lifo tc_sent run_stopping" by (rule tls.wp_reachable_inv [OF run_stopping_reachable])
  from tls.wp_run_exits [OF inv, of "replicate 8 False" run_opts reliable 0 1024] run_stopping_left
  obtain s' where s': "wp_run run_opts run_write (replicate 8 False) run_stopping = ret s'" "p_pc s' = Exited" "wp_inv lifo tc_sent s'" by auto
  then have r: "s' = run_end" by (simp only: run_end_def option.sel)
  show "wp_reachable run_opts run_write lifo run_start run_end"
    using tls.wp_run_reachable [OF run_stopping_reachable inv _ s'(1)] run_stopping_left(1) r by blast
  show "p_doneCh run_end" using wp_invD(3) [OF s'(3)] s'(2) r by simp
  from wp_run_kept [OF s'(1)] run_stopping_clean run_stopping_pc run_stopping_accepted reliable_writeBatch r
  show "w_errors run_end = 0" "\<not> p_closeCh run_end" "w_accepted run_end = [[7, 8]]" by (simp_all add: kept_def)
qed

lemma graceful_stop_sends_all_witness: "tc_sent (w_conn run_end) = [[7, 8]]"
  using graceful_stop_sends_all [OF tls.write_func_axioms [of reliable 0 1024] _ lifo_valid empty_nodes_ok run_New run_end_reachable _ run_end_clean(2,3)]
    run_end_clean by (simp add: fresh_conn_def)

subsection \<open>A retry after a partial write\<close>

text \<open>A network that takes \<open>k\<close> bytes of the first write, reports an error, and takes everything afterwards.\<close>

definition flaky :: "nat \<Rightarrow> bool net_conn" where
  "flaky k = \<lparr>nc_Write = (\<lambda>again data. if again then (length data, None, True) else (k, Some [ErrOther 1], True)),
     nc_SetWriteDeadline = (\<lambda>s. (None, s))\<rparr>"

text \<open>
  \<open>writeBatch\<close> keeps the whole buffer when a part of it has been written, and the retry writes all of
  it again: the bytes taken the first time stand twice on the stream, in front of the packet.
\<close>

lemma retry_repeats_bytes:
  assumes "0 < k" and "k < length bb" and "tc_net c = False"
  shows "\<exists>c1 c2. tls_writeBatch (flaky k) 0 limit c [Some bb] = (Some [ErrOther 1], [Some bb], c1) \<and>
    isWriteFnRetryable DefaultWriteOptions [ErrOther 1] \<and>
    tls_writeBatch (flaky k) 0 limit c1 [Some bb] = (None, [None], c2) \<and>
    tc_written c2 = tc_written c @ take k bb @ bb"
proof -
  have bb: "bb \<noteq> []" using assms by auto
  have w1: "io_Write (flaky k) False bb = (k, Some [ErrOther 1], True)"
    and w2: "io_Write (flaky k) True bb = (length bb, None, True)" using assms by (auto simp: io_Write_def flaky_def Let_def)
  show ?thesis
    using assms bb w1 w2 by (auto simp: tls_writeBatch_def tls_writeAll.simps Let_def tls_put_def isWriteFnRetryable_def
        DefaultWriteOptions_def defaultIsWriteFnRetryable_def errors_Is_def)
qed

end
