(* ===== verification/Deque.thy ===== *)
theory Deque
  imports Fifo
begin

section \<open>A double-ended queue in an array\<close>

text \<open>
  src/utils/queues/dqueue/deque.go: a doubly linked list whose elements live in one slice and point
  to each other by index, index 0 being nil; freed positions are kept on a stack.  A Go pointer to an
  element is its index, so it stays what it is when the slice grows, as the code takes care of.
  Reading or writing outside the slice is a panic; positions are natural numbers, so a deque of
  \<open>2^32\<close> elements, where \<open>Pointer\<close> wraps, is outside the model.
\<close>

record 'a Element =
  e_prev :: nat
  e_addr :: nat
  e_next :: nat
  e_value :: 'a

record 'a Deque =
  dq_head :: nat
  dq_tail :: nat
  dq_length :: int
  dq_stack :: "nat list"
  dq_elements :: "'a Element list"
  dq_template :: "'a Element"

definition zero_element :: "'a \<Rightarrow> 'a Element" where
  "zero_element z = \<lparr>e_prev = 0, e_addr = 0, e_next = 0, e_value = z\<rparr>"

text \<open>The zero value of a \<open>Deque\<close>, which the worker queue uses, and the one \<open>New\<close> makes.\<close>

definition zero_Deque :: "'a \<Rightarrow> 'a Deque" where
  "zero_Deque z = \<lparr>dq_head = 0, dq_tail = 0, dq_length = 0, dq_stack = [], dq_elements = [],
     dq_template = zero_element z\<rparr>"

definition dq_New :: "'a \<Rightarrow> nat \<Rightarrow> 'a Deque" where
  "dq_New z capacity = (zero_Deque z)\<lparr>dq_elements := [zero_element z]\<rparr>"

subsection \<open>Elements and the free positions\<close>

definition dq_Get :: "'a Deque \<Rightarrow> nat \<Rightarrow> nat option go" where
  "dq_Get c addr = (if addr > 0 then if addr < length (dq_elements c) then ret (Some addr) else panic else ret None)"

definition at_elem :: "'a Deque \<Rightarrow> nat \<Rightarrow> 'a Element" where
  "at_elem c a = dq_elements c ! a"

definition upd_elem :: "nat \<Rightarrow> ('a Element \<Rightarrow> 'a Element) \<Rightarrow> 'a Deque \<Rightarrow> 'a Deque" where
  "upd_elem a f c = c\<lparr>dq_elements := (dq_elements c)[a := f (dq_elements c ! a)]\<rparr>"

definition stack_Push :: "nat list \<Rightarrow> nat \<Rightarrow> nat list" where
  "stack_Push s v = s @ [v]"

definition stack_Pop :: "nat list \<Rightarrow> (nat \<times> nat list) go" where
  "stack_Pop s = (if s = [] then panic else ret (last s, butlast s))"

definition dq_getElement :: "'a Deque \<Rightarrow> (nat \<times> 'a Deque) go" where
  "dq_getElement c =
     (let c = (if dq_elements c = [] then c\<lparr>dq_elements := [dq_template c]\<rparr> else c) in
      if length (dq_stack c) > 0 then do {
        (addr, stack) \<leftarrow> stack_Pop (dq_stack c);
        let c = c\<lparr>dq_stack := stack\<rparr>;
        p \<leftarrow> dq_Get c addr;
        v \<leftarrow> p;
        ret (v, upd_elem v (\<lambda>e. e\<lparr>e_addr := addr\<rparr>) c) }
      else do {
        let addr = length (dq_elements c);
        let c = c\<lparr>dq_elements := dq_elements c @ [dq_template c]\<rparr>;
        p \<leftarrow> dq_Get c addr;
        v \<leftarrow> p;
        ret (v, upd_elem v (\<lambda>e. e\<lparr>e_addr := addr\<rparr>) c) })"

definition dq_putElement :: "'a Deque \<Rightarrow> nat \<Rightarrow> 'a Deque" where
  "dq_putElement c ele =
     upd_elem ele (\<lambda>_. dq_template c) (c\<lparr>dq_stack := stack_Push (dq_stack c) (e_addr (at_elem c ele))\<rparr>)"

definition dq_autoReset :: "'a Deque \<Rightarrow> 'a Deque go" where
  "dq_autoReset c =
     (if dq_elements c = [] then panic
      else ret (c\<lparr>dq_head := 0, dq_tail := 0, dq_length := 0, dq_stack := [], dq_elements := take 1 (dq_elements c)\<rparr>))"

definition dq_Reset :: "'a Deque \<Rightarrow> 'a Deque go" where
  "dq_Reset c = dq_autoReset c"

definition dq_Len :: "'a Deque \<Rightarrow> int" where
  "dq_Len c = dq_length c"

definition dq_Front :: "'a Deque \<Rightarrow> nat option go" where
  "dq_Front c = dq_Get c (dq_head c)"

definition dq_Back :: "'a Deque \<Rightarrow> nat option go" where
  "dq_Back c = dq_Get c (dq_tail c)"

subsection \<open>Linking and unlinking\<close>

definition dq_doPushFront :: "'a Deque \<Rightarrow> nat \<Rightarrow> 'a Deque go" where
  "dq_doPushFront c ele =
     (let c = c\<lparr>dq_length := dq_length c + 1\<rparr>; a = e_addr (at_elem c ele) in
      if dq_head c = 0 then ret (c\<lparr>dq_head := a, dq_tail := a\<rparr>)
      else do {
        p \<leftarrow> dq_Get c (dq_head c);
        h \<leftarrow> p;
        let c = upd_elem h (\<lambda>e. e\<lparr>e_prev := a\<rparr>) c;
        let c = upd_elem ele (\<lambda>e. e\<lparr>e_next := e_addr (at_elem c h)\<rparr>) c;
        ret (c\<lparr>dq_head := a\<rparr>) })"

definition dq_doPushBack :: "'a Deque \<Rightarrow> nat \<Rightarrow> 'a Deque go" where
  "dq_doPushBack c ele =
     (let c = c\<lparr>dq_length := dq_length c + 1\<rparr>; a = e_addr (at_elem c ele) in
      if dq_tail c = 0 then ret (c\<lparr>dq_head := a, dq_tail := a\<rparr>)
      else do {
        p \<leftarrow> dq_Get c (dq_tail c);
        t \<leftarrow> p;
        let c = upd_elem t (\<lambda>e. e\<lparr>e_next := a\<rparr>) c;
        let c = upd_elem ele (\<lambda>e. e\<lparr>e_prev := e_addr (at_elem c t)\<rparr>) c;
        ret (c\<lparr>dq_tail := a\<rparr>) })"

definition dq_doRemove :: "'a Deque \<Rightarrow> nat \<Rightarrow> 'a Deque go" where
  "dq_doRemove c ele = do {
     prev \<leftarrow> dq_Get c (e_prev (at_elem c ele));
     next \<leftarrow> dq_Get c (e_next (at_elem c ele));
     let c = c\<lparr>dq_length := dq_length c - 1\<rparr>;
     ret (case (prev, next) of
        (Some p, Some n) \<Rightarrow>
          let c = upd_elem p (\<lambda>e. e\<lparr>e_next := e_addr (at_elem c n)\<rparr>) c
          in upd_elem n (\<lambda>e. e\<lparr>e_prev := e_addr (at_elem c p)\<rparr>) c
      | (None, Some n) \<Rightarrow> (let c = upd_elem n (\<lambda>e. e\<lparr>e_prev := 0\<rparr>) c in c\<lparr>dq_head := e_addr (at_elem c n)\<rparr>)
      | (Some p, None) \<Rightarrow> (let c = upd_elem p (\<lambda>e. e\<lparr>e_next := 0\<rparr>) c in c\<lparr>dq_tail := e_addr (at_elem c p)\<rparr>)
      | (None, None) \<Rightarrow> c\<lparr>dq_head := 0, dq_tail := 0\<rparr>) }"

subsection \<open>Operations\<close>

definition dq_PushFront :: "'a Deque \<Rightarrow> 'a \<Rightarrow> (nat \<times> 'a Deque) go" where
  "dq_PushFront c value = do {
     (ele, c) \<leftarrow> dq_getElement c;
     c \<leftarrow> dq_doPushFront (upd_elem ele (\<lambda>e. e\<lparr>e_value := value\<rparr>) c) ele;
     ret (ele, c) }"

definition dq_PushBack :: "'a Deque \<Rightarrow> 'a \<Rightarrow> (nat \<times> 'a Deque) go" where
  "dq_PushBack c value = do {
     (ele, c) \<leftarrow> dq_getElement c;
     c \<leftarrow> dq_doPushBack (upd_elem ele (\<lambda>e. e\<lparr>e_value := value\<rparr>) c) ele;
     ret (ele, c) }"

text \<open>The common end of the pops and of \<open>Remove\<close>.\<close>

definition dq_free :: "'a Deque \<Rightarrow> nat \<Rightarrow> 'a Deque go" where
  "dq_free c ele = do {
     c \<leftarrow> dq_doRemove c ele;
     let c = dq_putElement c ele;
     if dq_length c = 0 then dq_autoReset c else ret c }"

definition dq_PopFront :: "'a \<Rightarrow> 'a Deque \<Rightarrow> ('a \<times> 'a Deque) go" where
  "dq_PopFront z c = do {
     front \<leftarrow> dq_Front c;
     case front of
       None \<Rightarrow> ret (z, c)
     | Some ele \<Rightarrow> do { let value = e_value (at_elem c ele); c \<leftarrow> dq_free c ele; ret (value, c) } }"

definition dq_PopBack :: "'a \<Rightarrow> 'a Deque \<Rightarrow> ('a \<times> 'a Deque) go" where
  "dq_PopBack z c = do {
     back \<leftarrow> dq_Back c;
     case back of
       None \<Rightarrow> ret (z, c)
     | Some ele \<Rightarrow> do { let value = e_value (at_elem c ele); c \<leftarrow> dq_free c ele; ret (value, c) } }"

definition dq_InsertAfter :: "'a Deque \<Rightarrow> 'a \<Rightarrow> nat \<Rightarrow> (nat option \<times> 'a Deque) go" where
  "dq_InsertAfter c value mark =
     (if mark = 0 then ret (None, c)
      else do {
        let c = c\<lparr>dq_length := dq_length c + 1\<rparr>;
        (e1, c) \<leftarrow> dq_getElement c;
        p0 \<leftarrow> dq_Get c mark;
        e0 \<leftarrow> p0;
        e2 \<leftarrow> dq_Get c (e_next (at_elem c e0));
        let c = upd_elem e1 (\<lambda>e. e\<lparr>e_prev := e_addr (at_elem c e0), e_next := e_next (at_elem c e0), e_value := value\<rparr>) c;
        let c = (case e2 of None \<Rightarrow> c | Some n \<Rightarrow> upd_elem n (\<lambda>e. e\<lparr>e_prev := e_addr (at_elem c e1)\<rparr>) c);
        let c = upd_elem e0 (\<lambda>e. e\<lparr>e_next := e_addr (at_elem c e1)\<rparr>) c;
        let c = (if e_next (at_elem c e1) = 0 then c\<lparr>dq_tail := e_addr (at_elem c e1)\<rparr> else c);
        ret (Some e1, c) })"

definition dq_InsertBefore :: "'a Deque \<Rightarrow> 'a \<Rightarrow> nat \<Rightarrow> (nat option \<times> 'a Deque) go" where
  "dq_InsertBefore c value mark =
     (if mark = 0 then ret (None, c)
      else do {
        let c = c\<lparr>dq_length := dq_length c + 1\<rparr>;
        (e1, c) \<leftarrow> dq_getElement c;
        p2 \<leftarrow> dq_Get c mark;
        e2 \<leftarrow> p2;
        e0 \<leftarrow> dq_Get c (e_prev (at_elem c e2));
        let c = upd_elem e1 (\<lambda>e. e\<lparr>e_prev := e_prev (at_elem c e2), e_next := e_addr (at_elem c e2), e_value := value\<rparr>) c;
        let c = (case e0 of None \<Rightarrow> c | Some p \<Rightarrow> upd_elem p (\<lambda>e. e\<lparr>e_next := e_addr (at_elem c e1)\<rparr>) c);
        let c = upd_elem e2 (\<lambda>e. e\<lparr>e_prev := e_addr (at_elem c e1)\<rparr>) c;
        let c = (if e_prev (at_elem c e1) = 0 then c\<lparr>dq_head := e_addr (at_elem c e1)\<rparr> else c);
        ret (Some e1, c) })"

definition dq_MoveToBack :: "'a Deque \<Rightarrow> nat \<Rightarrow> 'a Deque go" where
  "dq_MoveToBack c addr = do {
     p \<leftarrow> dq_Get c addr;
     case p of
       None \<Rightarrow> ret c
     | Some ele \<Rightarrow> do {
         c \<leftarrow> dq_doRemove c ele;
         dq_doPushBack (upd_elem ele (\<lambda>e. e\<lparr>e_prev := 0, e_next := 0\<rparr>) c) ele } }"

definition dq_MoveToFront :: "'a Deque \<Rightarrow> nat \<Rightarrow> 'a Deque go" where
  "dq_MoveToFront c addr = do {
     p \<leftarrow> dq_Get c addr;
     case p of
       None \<Rightarrow> ret c
     | Some ele \<Rightarrow> do {
         c \<leftarrow> dq_doRemove c ele;
         dq_doPushFront (upd_elem ele (\<lambda>e. e\<lparr>e_prev := 0, e_next := 0\<rparr>) c) ele } }"

definition dq_Update :: "'a Deque \<Rightarrow> nat \<Rightarrow> 'a \<Rightarrow> 'a Deque go" where
  "dq_Update c addr value = do {
     p \<leftarrow> dq_Get c addr;
     ret (case p of None \<Rightarrow> c | Some ele \<Rightarrow> upd_elem ele (\<lambda>e. e\<lparr>e_value := value\<rparr>) c) }"

definition dq_Remove :: "'a Deque \<Rightarrow> nat \<Rightarrow> 'a Deque go" where
  "dq_Remove c addr = do {
     p \<leftarrow> dq_Get c addr;
     case p of None \<Rightarrow> ret c | Some ele \<Rightarrow> dq_free c ele }"

text \<open>\<open>Range\<close>: the callback keeps a state and says whether to go on; the list could be cyclic.\<close>

partial_function (option) dq_range_loop ::
  "('s \<Rightarrow> 'a Element \<Rightarrow> 's \<times> bool) \<Rightarrow> 'a Deque \<Rightarrow> nat option \<Rightarrow> 's \<Rightarrow> 's go" where
  "dq_range_loop f c i s =
     (case i of
        None \<Rightarrow> ret s
      | Some a \<Rightarrow>
          (case f s (at_elem c a) of
             (s, go_on) \<Rightarrow>
               if \<not> go_on then ret s
               else do { i \<leftarrow> dq_Get c (e_next (at_elem c a)); dq_range_loop f c i s }))"

definition dq_Range :: "('s \<Rightarrow> 'a Element \<Rightarrow> 's \<times> bool) \<Rightarrow> 'a Deque \<Rightarrow> 's \<Rightarrow> 's go" where
  "dq_Range f c s = do { i \<leftarrow> dq_Get c (dq_head c); dq_range_loop f c i s }"

definition dq_Clone :: "'a Deque \<Rightarrow> 'a Deque" where
  "dq_Clone c = c\<lparr>dq_elements := copy_at (replicate (length (dq_elements c)) (dq_template c)) 0 (dq_elements c),
     dq_stack := copy_at (replicate (length (dq_stack c)) 0) 0 (dq_stack c)\<rparr>"

lemma Clone_same: "dq_Clone c = c"
  by (simp add: dq_Clone_def copy_at_whole)

subsection \<open>Linked segments\<close>

text \<open>
  \<open>dll els p L n\<close>: the positions and values of \<open>L\<close> are linked in this order in \<open>els\<close>, between the
  positions \<open>p\<close> and \<open>n\<close> outside it.
\<close>

fun dll :: "'a Element list \<Rightarrow> nat \<Rightarrow> (nat \<times> 'a) list \<Rightarrow> nat \<Rightarrow> bool" where
  "dll els p [] n \<longleftrightarrow> True"
| "dll els p ((a, v) # L) n \<longleftrightarrow> 0 < a \<and> a < length els \<and>
     els ! a = \<lparr>e_prev = p, e_addr = a, e_next = hd (map fst L @ [n]), e_value = v\<rparr> \<and> dll els a L n"

lemma dll_append: "dll els p (X @ Y) n \<longleftrightarrow> dll els p X (hd (map fst Y @ [n])) \<and> dll els (last (p # map fst X)) Y n"
proof (induction X arbitrary: p)
  case (Cons x X)
  then show ?case by (cases x; cases X) auto
qed simp

lemma dll_cong:
  "length els' = length els \<Longrightarrow> \<forall>a \<in> fst ` set L. els' ! a = els ! a \<Longrightarrow> dll els' p L n = dll els p L n"
  by (induction els p L n rule: dll.induct) auto

lemma dll_upd [simp]: "a \<notin> fst ` set L \<Longrightarrow> dll (els[a := e]) p L n = dll els p L n"
  by (rule dll_cong) (auto intro!: nth_list_update_neq)

lemma dll_bounds: "dll els p L n \<Longrightarrow> a \<in> fst ` set L \<Longrightarrow> 0 < a \<and> a < length els"
  by (induction els p L n rule: dll.induct) auto

lemma dll_addr: "dll els p L n \<Longrightarrow> a \<in> fst ` set L \<Longrightarrow> e_addr (els ! a) = a"
  by (induction els p L n rule: dll.induct) auto

text \<open>Unlinking what stands between \<open>X\<close> and \<open>Y\<close>, and linking \<open>e\<close> between them.\<close>

definition last_pos :: "(nat \<times> 'a) list \<Rightarrow> nat" where
  "last_pos X = last (0 # map fst X)"

definition first_pos :: "(nat \<times> 'a) list \<Rightarrow> nat" where
  "first_pos Y = hd (map fst Y @ [0])"

lemma pos_simps [simp]:
  "last_pos [] = 0" "last_pos (X @ [(a, v)]) = a" "first_pos [] = 0" "first_pos ((a, v) # Y) = a"
  by (simp_all add: last_pos_def first_pos_def)

lemma dll_relink_last:
  assumes "dll els 0 X m" "distinct (map fst X)" "length els' = length els"
    and "\<forall>a \<in> fst ` set X. els' ! a = (if a = last_pos X then (els ! a)\<lparr>e_next := n\<rparr> else els ! a)"
  shows "dll els' 0 X n"
proof (cases X rule: rev_cases)
  case (snoc X' x)
  obtain a v where x: "x = (a, v)" by (cases x)
  have "dll els' 0 X' a = dll els 0 X' a"
    by (rule dll_cong [OF assms(3)]) (use assms(2,4) snoc x in auto)
  with assms snoc x show ?thesis by (auto simp: dll_append)
qed simp

lemma dll_relink_first:
  assumes "dll els p Y 0" "distinct (map fst Y)" "length els' = length els"
    and "\<forall>a \<in> fst ` set Y. els' ! a = (if a = first_pos Y then (els ! a)\<lparr>e_prev := q\<rparr> else els ! a)"
  shows "dll els' q Y 0"
proof (cases Y)
  case (Cons y Y')
  obtain a v where y: "y = (a, v)" by (cases y)
  have "dll els' a Y' 0 = dll els a Y' 0"
    by (rule dll_cong [OF assms(3)]) (use assms(2,4) Cons y in auto)
  with assms Cons y show ?thesis by auto
qed simp

lemma pos_apart:
  assumes "dll els p X n" "dll els q Y m" "distinct (map fst (X @ Y))"
  shows "b \<in> fst ` set X \<Longrightarrow> b \<noteq> first_pos Y" and "b \<in> fst ` set Y \<Longrightarrow> b \<noteq> last_pos X"
proof -
  assume b: "b \<in> fst ` set X"
  then have "0 < b" using dll_bounds [OF assms(1)] by blast
  with b assms(3) show "b \<noteq> first_pos Y" by (cases Y) force+
next
  assume b: "b \<in> fst ` set Y"
  then have "0 < b" using dll_bounds [OF assms(2)] by blast
  with b assms(3) show "b \<noteq> last_pos X" by (cases X rule: rev_cases) force+
qed

lemma dll_unlink:
  assumes "dll els 0 (X @ (a, v) # Y) 0" "distinct (map fst (X @ Y))" "length els' = length els"
    and "\<forall>b \<in> fst ` set (X @ Y). els' ! b =
      (if b = last_pos X then (els ! b)\<lparr>e_next := first_pos Y\<rparr>
       else if b = first_pos Y then (els ! b)\<lparr>e_prev := last_pos X\<rparr> else els ! b)"
  shows "dll els' 0 (X @ Y) 0"
proof -
  have X: "dll els 0 X a" and Y: "dll els a Y 0" using assms(1) by (simp_all add: dll_append)
  note apart = pos_apart [OF X Y assms(2)]
  have "\<forall>b \<in> fst ` set X. els' ! b = (if b = last_pos X then (els ! b)\<lparr>e_next := first_pos Y\<rparr> else els ! b)"
  proof
    fix b assume b: "b \<in> fst ` set X"
    then have "b \<in> fst ` set (X @ Y)" by (simp add: image_Un)
    from bspec [OF assms(4) this] apart(1) [OF b] show "els' ! b = (if b = last_pos X then (els ! b)\<lparr>e_next := first_pos Y\<rparr> else els ! b)" by simp
  qed
  then have "dll els' 0 X (first_pos Y)" using assms(2) by (intro dll_relink_last [OF X _ assms(3)]) simp_all
  moreover have "\<forall>b \<in> fst ` set Y. els' ! b = (if b = first_pos Y then (els ! b)\<lparr>e_prev := last_pos X\<rparr> else els ! b)"
  proof
    fix b assume b: "b \<in> fst ` set Y"
    then have "b \<in> fst ` set (X @ Y)" by (simp add: image_Un)
    from bspec [OF assms(4) this] apart(2) [OF b] show "els' ! b = (if b = first_pos Y then (els ! b)\<lparr>e_prev := last_pos X\<rparr> else els ! b)" by simp
  qed
  then have "dll els' (last_pos X) Y 0" using assms(2) by (intro dll_relink_first [OF Y _ assms(3)]) simp_all
  ultimately show ?thesis by (simp add: dll_append last_pos_def first_pos_def)
qed

lemma dll_link:
  assumes "dll els 0 (X @ Y) 0" "distinct (map fst (X @ Y))" "length els' = length els"
    and "0 < e" "e < length els" "els' ! e = \<lparr>e_prev = last_pos X, e_addr = e, e_next = first_pos Y, e_value = v\<rparr>"
    and "\<forall>b \<in> fst ` set (X @ Y). els' ! b =
      (if b = last_pos X then (els ! b)\<lparr>e_next := e\<rparr>
       else if b = first_pos Y then (els ! b)\<lparr>e_prev := e\<rparr> else els ! b)"
  shows "dll els' 0 (X @ (e, v) # Y) 0"
proof -
  have X: "dll els 0 X (first_pos Y)" and Y: "dll els (last_pos X) Y 0"
    using assms(1) by (simp_all add: dll_append last_pos_def first_pos_def)
  note apart = pos_apart [OF X Y assms(2)]
  have "\<forall>b \<in> fst ` set X. els' ! b = (if b = last_pos X then (els ! b)\<lparr>e_next := e\<rparr> else els ! b)"
  proof
    fix b assume b: "b \<in> fst ` set X"
    then have "b \<in> fst ` set (X @ Y)" by (simp add: image_Un)
    from bspec [OF assms(7) this] apart(1) [OF b] show "els' ! b = (if b = last_pos X then (els ! b)\<lparr>e_next := e\<rparr> else els ! b)" by simp
  qed
  then have "dll els' 0 X e" using assms(2) by (intro dll_relink_last [OF X _ assms(3)]) simp_all
  moreover have "\<forall>b \<in> fst ` set Y. els' ! b = (if b = first_pos Y then (els ! b)\<lparr>e_prev := e\<rparr> else els ! b)"
  proof
    fix b assume b: "b \<in> fst ` set Y"
    then have "b \<in> fst ` set (X @ Y)" by (simp add: image_Un)
    from bspec [OF assms(7) this] apart(2) [OF b] show "els' ! b = (if b = first_pos Y then (els ! b)\<lparr>e_prev := e\<rparr> else els ! b)" by simp
  qed
  then have "dll els' e Y 0" using assms(2) by (intro dll_relink_first [OF Y _ assms(3)]) simp_all
  ultimately show ?thesis using assms(3-6) by (simp add: dll_append last_pos_def first_pos_def)
qed

text \<open>
  \<open>dq_abs c L\<close>: the deque holds the values of \<open>L\<close> at the positions of \<open>L\<close>, in this order; every
  position is linked or free but not both, and free ones are blank.
\<close>

definition dq_frame :: "'a \<Rightarrow> 'a Deque \<Rightarrow> nat list \<Rightarrow> bool" where
  "dq_frame z c live \<longleftrightarrow> dq_template c = zero_element z \<and> distinct (live @ dq_stack c) \<and>
     set (live @ dq_stack c) = {1 ..< length (dq_elements c)} \<and>
     (\<forall>a \<in> set (dq_stack c). dq_elements c ! a = zero_element z)"

definition dq_abs :: "'a \<Rightarrow> 'a Deque \<Rightarrow> (nat \<times> 'a) list \<Rightarrow> bool" where
  "dq_abs z c L \<longleftrightarrow> dq_frame z c (map fst L) \<and> dll (dq_elements c) 0 L 0 \<and>
     dq_head c = hd (map fst L @ [0]) \<and> dq_tail c = last (0 # map fst L) \<and> dq_length c = int (length L)"

lemma dq_abs_zero: "dq_abs z (zero_Deque z) []" and dq_abs_New: "dq_abs z (dq_New z n) []"
  by (simp_all add: dq_abs_def dq_frame_def zero_Deque_def dq_New_def)

lemma Get_simps [simp]:
  "dq_Get c 0 = ret None" "0 < a \<Longrightarrow> a < length (dq_elements c) \<Longrightarrow> dq_Get c a = ret (Some a)"
  by (simp_all add: dq_Get_def)

lemma upd_elem_simps [simp]:
  "dq_head (upd_elem a f c) = dq_head c" "dq_tail (upd_elem a f c) = dq_tail c"
  "dq_length (upd_elem a f c) = dq_length c" "dq_stack (upd_elem a f c) = dq_stack c"
  "dq_template (upd_elem a f c) = dq_template c"
  "dq_elements (upd_elem a f c) = (dq_elements c)[a := f (dq_elements c ! a)]"
  by (simp_all add: upd_elem_def)

text \<open>The frame does not look at the live elements.\<close>

lemma frame_cong:
  assumes "dq_frame z c live" "dq_template c' = dq_template c" "dq_stack c' = dq_stack c"
    "length (dq_elements c') = length (dq_elements c)"
    "\<And>b. b \<notin> set live \<Longrightarrow> dq_elements c' ! b = dq_elements c ! b"
  shows "dq_frame z c' live"
proof -
  have "b \<notin> set live" if "b \<in> set (dq_stack c)" for b using assms(1) that by (auto simp: dq_frame_def)
  with assms show ?thesis by (auto simp: dq_frame_def)
qed

lemma frame_upd: "dq_frame z c live \<Longrightarrow> a \<in> set live \<Longrightarrow> dq_frame z (upd_elem a f c) live"
  by (erule frame_cong) (auto intro!: nth_list_update_neq)

lemma frame_fields [simp]:
  "dq_frame z (c\<lparr>dq_head := h\<rparr>) live = dq_frame z c live"
  "dq_frame z (c\<lparr>dq_tail := h\<rparr>) live = dq_frame z c live"
  "dq_frame z (c\<lparr>dq_length := n\<rparr>) live = dq_frame z c live"
  by (simp_all add: dq_frame_def)

lemma frame_perm: "set live' = set live \<Longrightarrow> distinct live' \<Longrightarrow> dq_frame z c live \<Longrightarrow> dq_frame z c live'"
  by (auto simp: dq_frame_def)

lemma frame_bounds: "dq_frame z c live \<Longrightarrow> a \<in> set live \<Longrightarrow> 0 < a \<and> a < length (dq_elements c)"
  by (fastforce simp: dq_frame_def)

lemma pos_in: "X \<noteq> [] \<Longrightarrow> last_pos X \<in> fst ` set X" "Y \<noteq> [] \<Longrightarrow> first_pos Y \<in> fst ` set Y"
  by (cases X rule: rev_cases; force) (cases Y; force)

lemma pos_append: "first_pos (X @ Y) = (if X = [] then first_pos Y else first_pos X)"
  "last_pos (X @ Y) = (if Y = [] then last_pos X else last_pos Y)"
  by (cases X; simp add: first_pos_def) (simp add: last_pos_def)

lemma last_pos_Cons [simp]: "last_pos ((a, v) # Y) = (if Y = [] then a else last_pos Y)"
  using pos_append(2) [of "[(a, v)]" Y] pos_simps(2) [of "[]" a v] by simp

lemma dq_abs_pos:
  "dq_abs z c L \<longleftrightarrow> dq_frame z c (map fst L) \<and> dll (dq_elements c) 0 L 0 \<and>
     dq_head c = first_pos L \<and> dq_tail c = last_pos L \<and> dq_length c = int (length L)"
  by (simp add: dq_abs_def first_pos_def last_pos_def)

lemma frame_live_distinct: "dq_frame z c live \<Longrightarrow> distinct live"
  by (simp add: dq_frame_def)

text \<open>Unlinking an element.\<close>

lemma doRemove_spec:
  assumes "dq_abs z c (X @ (a, v) # Y)"
  shows "\<exists>c'. dq_doRemove c a = ret c' \<and> dq_frame z c' (a # map fst (X @ Y)) \<and> dll (dq_elements c') 0 (X @ Y) 0 \<and>
    dq_head c' = first_pos (X @ Y) \<and> dq_tail c' = last_pos (X @ Y) \<and> dq_length c' = int (length (X @ Y)) \<and>
    dq_elements c' ! a = dq_elements c ! a"
proof -
  let ?els = "dq_elements c"
  have f: "dq_frame z c (map fst (X @ (a, v) # Y))" and d: "dll ?els 0 (X @ (a, v) # Y) 0"
    and p: "dq_head c = first_pos (X @ (a, v) # Y)" "dq_tail c = last_pos (X @ (a, v) # Y)"
    "dq_length c = int (length (X @ (a, v) # Y))" using assms by (simp_all add: dq_abs_pos)
  have D: "distinct (map fst (X @ (a, v) # Y))" using f by (rule frame_live_distinct)
  have f': "dq_frame z c (a # map fst (X @ Y))" by (rule frame_perm [OF _ _ f]) (use D in auto)
  have e: "?els ! a = \<lparr>e_prev = last_pos X, e_addr = a, e_next = first_pos Y, e_value = v\<rparr>"
    using d by (simp add: dll_append last_pos_def first_pos_def)
  have bx: "0 < last_pos X" "last_pos X < length ?els" "e_addr (?els ! last_pos X) = last_pos X"
      "last_pos X \<noteq> a" "last_pos X \<in> set (a # map fst (X @ Y))" if "X \<noteq> []"
    using dll_bounds [OF d, of "last_pos X"] dll_addr [OF d, of "last_pos X"] pos_in(1) [OF that] D by auto
  have bY: "0 < first_pos Y" "first_pos Y < length ?els" "e_addr (?els ! first_pos Y) = first_pos Y"
      "first_pos Y \<noteq> a" "first_pos Y \<in> set (a # map fst (X @ Y))" if "Y \<noteq> []"
    using dll_bounds [OF d, of "first_pos Y"] dll_addr [OF d, of "first_pos Y"] pos_in(2) [OF that] D by auto
  have xy: "last_pos X \<noteq> first_pos Y" if "X \<noteq> []" "Y \<noteq> []"
  proof -
    have "fst ` set X \<inter> fst ` set Y = {}" using D by auto
    with pos_in(1) [OF that(1)] pos_in(2) [OF that(2)] show ?thesis by (metis disjoint_iff)
  qed
  let ?c = "c\<lparr>dq_length := dq_length c - 1\<rparr>"
  define els' where "els' =
    (let els = (if X = [] then ?els else ?els[last_pos X := (?els ! last_pos X)\<lparr>e_next := first_pos Y\<rparr>]) in
     if Y = [] then els else els[first_pos Y := (els ! first_pos Y)\<lparr>e_prev := last_pos X\<rparr>])"
  have els': "length els' = length ?els" "els' ! a = ?els ! a"
    "dll els' 0 (X @ Y) 0"
  proof -
    show "length els' = length ?els" by (simp add: els'_def Let_def)
    show "els' ! a = ?els ! a" using bx(4) bY(4) by (auto simp: els'_def Let_def)
    have "\<forall>b \<in> fst ` set (X @ Y). els' ! b =
      (if b = last_pos X then (?els ! b)\<lparr>e_next := first_pos Y\<rparr>
       else if b = first_pos Y then (?els ! b)\<lparr>e_prev := last_pos X\<rparr> else ?els ! b)"
    proof
      fix b assume b: "b \<in> fst ` set (X @ Y)"
      then have "0 < b \<and> b < length ?els" using dll_bounds [OF d, of b] by auto
      then show "els' ! b = (if b = last_pos X then (?els ! b)\<lparr>e_next := first_pos Y\<rparr>
         else if b = first_pos Y then (?els ! b)\<lparr>e_prev := last_pos X\<rparr> else ?els ! b)"
        using bx bY xy by (cases "X = []"; cases "Y = []") (auto simp: els'_def Let_def nth_list_update)
    qed
    then show "dll els' 0 (X @ Y) 0" using D \<open>length els' = length ?els\<close> by (intro dll_unlink [OF d]) auto
  qed
  have "\<exists>c'. dq_doRemove c a = ret c' \<and> dq_elements c' = els' \<and> dq_head c' = first_pos (X @ Y) \<and>
      dq_tail c' = last_pos (X @ Y) \<and> dq_length c' = dq_length c - 1 \<and> dq_stack c' = dq_stack c \<and>
      dq_template c' = dq_template c"
    using e bx bY xy p els'_def
    by (cases "X = []"; cases "Y = []")
      (auto simp: dq_doRemove_def at_elem_def upd_elem_def Let_def pos_append)
  then obtain c' where c': "dq_doRemove c a = ret c'" "dq_elements c' = els'" "dq_head c' = first_pos (X @ Y)"
    "dq_tail c' = last_pos (X @ Y)" "dq_length c' = dq_length c - 1" "dq_stack c' = dq_stack c"
    "dq_template c' = dq_template c" by blast
  have "dq_frame z c' (a # map fst (X @ Y))"
  proof (rule frame_cong [OF f'])
    fix b assume "b \<notin> set (a # map fst (X @ Y))"
    then have "X \<noteq> [] \<Longrightarrow> last_pos X \<noteq> b" "Y \<noteq> [] \<Longrightarrow> first_pos Y \<noteq> b" using bx(5) bY(5) by metis+
    then show "dq_elements c' ! b = ?els ! b" by (simp add: c' els'_def Let_def)
  qed (simp_all add: c' els'(1))
  with c' els' p show ?thesis by (intro exI [of _ c']) simp
qed

text \<open>
  A free position, or a new one: its element is blank but for its address, and everything else
  stays as it was.
\<close>

definition fresh_elem :: "'a \<Rightarrow> nat \<Rightarrow> 'a Element" where
  "fresh_elem z e = (zero_element z)\<lparr>e_addr := e\<rparr>"

lemma getElement_spec:
  assumes f: "dq_frame z c (map fst L)" and d: "dll (dq_elements c) 0 L 0"
  shows "\<exists>e c'. dq_getElement c = ret (e, c') \<and> dq_frame z c' (e # map fst L) \<and> e \<notin> fst ` set L \<and>
    dll (dq_elements c') 0 L 0 \<and> dq_elements c' ! e = fresh_elem z e \<and>
    dq_head c' = dq_head c \<and> dq_tail c' = dq_tail c \<and> dq_length c' = dq_length c"
proof (cases "dq_stack c = []")
  case False
  then obtain st e where s: "dq_stack c = st @ [e]" by (cases "dq_stack c" rule: rev_cases) auto
  have F: "dq_template c = zero_element z" "distinct (e # map fst L @ st)"
    "set (e # map fst L @ st) = {1 ..< length (dq_elements c)}"
    "\<forall>a \<in> set (e # st). dq_elements c ! a = zero_element z"
    using f s by (auto simp: dq_frame_def)
  have "e \<in> {1 ..< length (dq_elements c)}" using F(3) by auto
  then have b: "0 < e" "e < length (dq_elements c)" by auto
  let ?c = "upd_elem e (\<lambda>x. x\<lparr>e_addr := e\<rparr>) (c\<lparr>dq_stack := st\<rparr>)"
  have g: "dq_getElement c = ret (e, ?c)"
  proof -
    have "dq_elements c \<noteq> []" using b by auto
    with b s show ?thesis by (simp add: dq_getElement_def stack_Pop_def Let_def)
  qed
  have "dq_elements ?c ! a = zero_element z" if a: "a \<in> set st" for a
  proof -
    have "a \<noteq> e" using a F(2) by auto
    with a F(4) show ?thesis by simp
  qed
  with F have "dq_frame z ?c (e # map fst L)" by (simp add: dq_frame_def)
  moreover have "e \<notin> fst ` set L" using F(2) by simp
  ultimately show ?thesis using g b d F(4)
    by (intro exI [of _ e] exI [of _ ?c]) (simp add: fresh_elem_def)
next
  case True
  define els where "els = (if dq_elements c = [] then [zero_element z] else dq_elements c)"
  let ?e = "length els"
  let ?c = "c\<lparr>dq_elements := els @ [fresh_elem z ?e]\<rparr>"
  have t: "dq_template c = zero_element z" using f by (simp add: dq_frame_def)
  have "els \<noteq> []" by (simp add: els_def)
  then have g: "dq_getElement c = ret (?e, ?c)"
    using True t by (simp add: dq_getElement_def Let_def upd_elem_def fresh_elem_def els_def)
  have S: "set (map fst L) = {1 ..< ?e}" and D: "distinct (map fst L)"
    using f True by (auto simp: dq_frame_def els_def)
  then have "?e \<notin> fst ` set L" by auto
  moreover have "dq_frame z ?c (?e # map fst L)"
    using S D t True \<open>els \<noteq> []\<close> by (auto simp: dq_frame_def atLeastLessThanSuc Suc_le_eq)
  moreover have "dll (els @ [fresh_elem z ?e]) 0 L 0"
  proof (cases "dq_elements c = []")
    case True
    then have "L = []" using S by (simp add: els_def)
    then show ?thesis by simp
  next
    case False
    have "dll (els @ [fresh_elem z ?e]) 0 L 0 = dll els 0 L 0"
    proof -
      have "dll (els @ xs) p M n" if "dll els p M n" for xs p n and M :: "(nat \<times> 'a) list"
        using that by (induction els p M n rule: dll.induct) (auto simp: nth_append)
      with d False show ?thesis by (simp add: els_def)
    qed
    with d False show ?thesis by (simp add: els_def)
  qed
  ultimately show ?thesis using g by (intro exI [of _ ?e] exI [of _ ?c]) simp
qed

text \<open>
  Linking the fresh position between \<open>X\<close> and \<open>Y\<close>: every insertion ends in such a deque, whatever
  the order of its assignments.
\<close>

definition linked :: "'a Deque \<Rightarrow> 'a Deque \<Rightarrow> (nat \<times> 'a) list \<Rightarrow> nat \<Rightarrow> 'a \<Rightarrow> (nat \<times> 'a) list \<Rightarrow> bool" where
  "linked c c' X e v Y \<longleftrightarrow>
     dq_template c' = dq_template c \<and> dq_stack c' = dq_stack c \<and>
     length (dq_elements c') = length (dq_elements c) \<and>
     dq_elements c' ! e = \<lparr>e_prev = last_pos X, e_addr = e, e_next = first_pos Y, e_value = v\<rparr> \<and>
     (\<forall>b. b \<noteq> e \<longrightarrow> dq_elements c' ! b =
        (if X \<noteq> [] \<and> b = last_pos X then (dq_elements c ! b)\<lparr>e_next := e\<rparr>
         else if Y \<noteq> [] \<and> b = first_pos Y then (dq_elements c ! b)\<lparr>e_prev := e\<rparr>
         else dq_elements c ! b)) \<and>
     dq_head c' = first_pos (X @ (e, v) # Y) \<and> dq_tail c' = last_pos (X @ (e, v) # Y) \<and>
     dq_length c' = int (length (X @ (e, v) # Y))"

lemma linked_abs:
  assumes "dq_frame z c (e # map fst (X @ Y))" "dll (dq_elements c) 0 (X @ Y) 0" "linked c c' X e v Y"
  shows "dq_abs z c' (X @ (e, v) # Y)"
proof -
  note l = assms(3) [unfolded linked_def]
  have D: "distinct (e # map fst (X @ Y))" using assms(1) by (rule frame_live_distinct)
  have e: "0 < e" "e < length (dq_elements c)" using frame_bounds [OF assms(1), of e] by simp_all
  have "\<forall>b \<in> fst ` set (X @ Y). dq_elements c' ! b =
      (if b = last_pos X then (dq_elements c ! b)\<lparr>e_next := e\<rparr>
       else if b = first_pos Y then (dq_elements c ! b)\<lparr>e_prev := e\<rparr> else dq_elements c ! b)"
  proof
    fix b assume b: "b \<in> fst ` set (X @ Y)"
    then have "b \<noteq> e" using D by auto
    moreover have "0 < b" using dll_bounds [OF assms(2) b] by simp
    ultimately show "dq_elements c' ! b = (if b = last_pos X then (dq_elements c ! b)\<lparr>e_next := e\<rparr>
       else if b = first_pos Y then (dq_elements c ! b)\<lparr>e_prev := e\<rparr> else dq_elements c ! b)"
      using l by auto
  qed
  then have "dll (dq_elements c') 0 (X @ (e, v) # Y) 0"
    using l e D by (intro dll_link [OF assms(2)]) auto
  moreover have "dq_frame z c' (map fst (X @ (e, v) # Y))"
  proof (rule frame_perm [OF _ _ frame_cong [OF assms(1)]])
    fix b assume b: "b \<notin> set (e # map fst (X @ Y))"
    then have "b \<noteq> e" "X \<noteq> [] \<Longrightarrow> b \<noteq> last_pos X" "Y \<noteq> [] \<Longrightarrow> b \<noteq> first_pos Y"
      using pos_in(1) [of X] pos_in(2) [of Y] by auto
    with l show "dq_elements c' ! b = dq_elements c ! b" by auto
  qed (use l D in auto)
  ultimately show ?thesis using l by (simp add: dq_abs_pos)
qed

lemma doPushBack_linked:
  assumes "dq_frame z c (e # map fst X)" "dll (dq_elements c) 0 X 0"
    and "dq_elements c ! e = \<lparr>e_prev = 0, e_addr = e, e_next = 0, e_value = v\<rparr>"
    and "dq_head c = first_pos X" "dq_tail c = last_pos X" "dq_length c = int (length X)"
  shows "\<exists>c'. dq_doPushBack c e = ret c' \<and> linked c c' X e v []"
proof -
  have b: "0 < e" "e < length (dq_elements c)" using frame_bounds [OF assms(1), of e] by simp_all
  have D: "e \<notin> fst ` set X" using frame_live_distinct [OF assms(1)] by simp
  have t: "0 < last_pos X" "last_pos X < length (dq_elements c)" "e_addr (dq_elements c ! last_pos X) = last_pos X"
    "last_pos X \<noteq> e" if "X \<noteq> []"
    using pos_in(1) [OF that] dll_bounds [OF assms(2)] dll_addr [OF assms(2)] D by auto
  show ?thesis
  proof (cases "X = []")
    case True
    with assms b show ?thesis by (simp add: dq_doPushBack_def linked_def at_elem_def)
  next
    case False
    with assms b t show ?thesis
      by (auto simp: dq_doPushBack_def linked_def at_elem_def Let_def nth_list_update pos_append)
  qed
qed

lemma doPushFront_linked:
  assumes "dq_frame z c (e # map fst Y)" "dll (dq_elements c) 0 Y 0"
    and "dq_elements c ! e = \<lparr>e_prev = 0, e_addr = e, e_next = 0, e_value = v\<rparr>"
    and "dq_head c = first_pos Y" "dq_tail c = last_pos Y" "dq_length c = int (length Y)"
  shows "\<exists>c'. dq_doPushFront c e = ret c' \<and> linked c c' [] e v Y"
proof -
  have b: "0 < e" "e < length (dq_elements c)" using frame_bounds [OF assms(1), of e] by simp_all
  have D: "e \<notin> fst ` set Y" using frame_live_distinct [OF assms(1)] by simp
  have t: "0 < first_pos Y" "first_pos Y < length (dq_elements c)" "e_addr (dq_elements c ! first_pos Y) = first_pos Y"
    "first_pos Y \<noteq> e" if "Y \<noteq> []"
    using pos_in(2) [OF that] dll_bounds [OF assms(2)] dll_addr [OF assms(2)] D by auto
  show ?thesis
  proof (cases "Y = []")
    case True
    with assms b show ?thesis by (simp add: dq_doPushFront_def linked_def at_elem_def)
  next
    case False
    with assms b t show ?thesis
      by (auto simp: dq_doPushFront_def linked_def at_elem_def Let_def nth_list_update pos_append)
  qed
qed

subsection \<open>The operations on the sequence\<close>

lemma PushBack_abs:
  assumes "dq_abs z c L"
  shows "\<exists>e c'. dq_PushBack c v = ret (e, c') \<and> e \<notin> fst ` set L \<and> dq_abs z c' (L @ [(e, v)])"
proof -
  note A = assms [unfolded dq_abs_pos]
  obtain e c1 where g: "dq_getElement c = ret (e, c1)" "dq_frame z c1 (e # map fst L)" "e \<notin> fst ` set L"
    "dll (dq_elements c1) 0 L 0" "dq_elements c1 ! e = fresh_elem z e"
    "dq_head c1 = dq_head c" "dq_tail c1 = dq_tail c" "dq_length c1 = dq_length c"
    using getElement_spec [of z c L] A by blast
  let ?c = "upd_elem e (\<lambda>x. x\<lparr>e_value := v\<rparr>) c1"
  have f: "dq_frame z ?c (e # map fst L)" using g(2) by (rule frame_upd) simp
  have d: "dll (dq_elements ?c) 0 L 0" using g(3,4) by simp
  obtain c' where "dq_doPushBack ?c e = ret c'" "linked ?c c' L e v []"
    using doPushBack_linked [OF f d, of v] g A frame_bounds [OF g(2), of e]
    by (auto simp: fresh_elem_def zero_element_def)
  with linked_abs [of z ?c e L "[]" c' v] f d g(1,3) show ?thesis
    by (auto simp: dq_PushBack_def)
qed

lemma PushFront_abs:
  assumes "dq_abs z c L"
  shows "\<exists>e c'. dq_PushFront c v = ret (e, c') \<and> e \<notin> fst ` set L \<and> dq_abs z c' ((e, v) # L)"
proof -
  note A = assms [unfolded dq_abs_pos]
  obtain e c1 where g: "dq_getElement c = ret (e, c1)" "dq_frame z c1 (e # map fst L)" "e \<notin> fst ` set L"
    "dll (dq_elements c1) 0 L 0" "dq_elements c1 ! e = fresh_elem z e"
    "dq_head c1 = dq_head c" "dq_tail c1 = dq_tail c" "dq_length c1 = dq_length c"
    using getElement_spec [of z c L] A by blast
  let ?c = "upd_elem e (\<lambda>x. x\<lparr>e_value := v\<rparr>) c1"
  have f: "dq_frame z ?c (e # map fst L)" using g(2) by (rule frame_upd) simp
  have d: "dll (dq_elements ?c) 0 L 0" using g(3,4) by simp
  obtain c' where "dq_doPushFront ?c e = ret c'" "linked ?c c' [] e v L"
    using doPushFront_linked [OF f d, of v] g A frame_bounds [OF g(2), of e]
    by (auto simp: fresh_elem_def zero_element_def)
  with linked_abs [of z ?c e "[]" L c' v] f d g(1,3) show ?thesis
    by (auto simp: dq_PushFront_def)
qed

lemma free_abs:
  assumes "dq_abs z c (X @ (a, v) # Y)"
  shows "\<exists>c'. dq_free c a = ret c' \<and> dq_abs z c' (X @ Y)"
proof -
  obtain c1 where r: "dq_doRemove c a = ret c1" "dq_frame z c1 (a # map fst (X @ Y))" "dll (dq_elements c1) 0 (X @ Y) 0"
    "dq_head c1 = first_pos (X @ Y)" "dq_tail c1 = last_pos (X @ Y)" "dq_length c1 = int (length (X @ Y))"
    "dq_elements c1 ! a = dq_elements c ! a"
    using doRemove_spec [OF assms] by blast
  have "e_addr (dq_elements c ! a) = a" using assms by (simp add: dq_abs_pos dll_append)
  with r(7) have put: "dq_putElement c1 a = upd_elem a (\<lambda>_. dq_template c1) (c1\<lparr>dq_stack := dq_stack c1 @ [a]\<rparr>)"
    by (simp add: dq_putElement_def at_elem_def stack_Push_def)
  let ?c = "dq_putElement c1 a"
  have b: "0 < a" "a < length (dq_elements c1)" using frame_bounds [OF r(2), of a] by simp_all
  have "a \<notin> fst ` set (X @ Y)" using frame_live_distinct [OF r(2)] by auto
  then have d: "dll (dq_elements ?c) 0 (X @ Y) 0" using r(3) by (simp add: put)
  have "dq_frame z ?c (map fst (X @ Y))"
    using r(2) b by (auto simp: dq_frame_def put nth_list_update)
  with d r(4-6) have abs: "dq_abs z ?c (X @ Y)" by (simp add: dq_abs_pos put)
  show ?thesis
  proof (cases "X @ Y = []")
    case True
    have "dq_elements ?c \<noteq> []" using b by (auto simp: put)
    moreover have "dq_length ?c = 0" using True r(6) by (simp add: put)
    moreover have "dq_template ?c = zero_element z" using abs by (simp add: dq_abs_def dq_frame_def)
    ultimately show ?thesis using r(1) True
      by (auto simp: dq_free_def dq_autoReset_def dq_abs_def dq_frame_def Let_def)
  next
    case False
    then have "dq_length ?c \<noteq> 0" using r(6) by (cases X; cases Y) (auto simp: put)
    with r(1) abs show ?thesis by (simp add: dq_free_def Let_def)
  qed
qed

lemma abs_elem:
  "dq_abs z c (X @ (a, v) # Y) \<Longrightarrow> 0 < a \<and> a < length (dq_elements c) \<and>
     dq_elements c ! a = \<lparr>e_prev = last_pos X, e_addr = a, e_next = first_pos Y, e_value = v\<rparr>"
  by (simp add: dq_abs_pos dll_append last_pos_def first_pos_def)

lemma PopFront_abs:
  assumes "dq_abs z c L"
  shows "case L of [] \<Rightarrow> dq_PopFront z c = ret (z, c) | (a, v) # L' \<Rightarrow> \<exists>c'. dq_PopFront z c = ret (v, c') \<and> dq_abs z c' L'"
proof (cases L)
  case Nil
  with assms show ?thesis by (simp add: dq_PopFront_def dq_Front_def dq_abs_pos)
next
  case (Cons x L')
  obtain a v where x: "x = (a, v)" by (cases x)
  note e = abs_elem [of z c "[]" a v L'] and f = free_abs [of z c "[]" a v L']
  from assms Cons x have "dq_abs z c ((a, v) # L')" by simp
  with e f show ?thesis using Cons x
    by (auto simp: dq_PopFront_def dq_Front_def at_elem_def dq_abs_pos)
qed

lemma PopBack_abs:
  assumes "dq_abs z c L"
  shows "(L = [] \<longrightarrow> dq_PopBack z c = ret (z, c)) \<and>
    (\<forall>L' a v. L = L' @ [(a, v)] \<longrightarrow> (\<exists>c'. dq_PopBack z c = ret (v, c') \<and> dq_abs z c' L'))"
proof (intro conjI impI allI)
  assume "L = []"
  with assms show "dq_PopBack z c = ret (z, c)" by (simp add: dq_PopBack_def dq_Back_def dq_abs_pos)
next
  fix L' a v assume "L = L' @ [(a, v)]"
  with assms have "dq_abs z c (L' @ (a, v) # [])" by simp
  with abs_elem [OF this] free_abs [OF this] show "\<exists>c'. dq_PopBack z c = ret (v, c') \<and> dq_abs z c' L'"
    by (auto simp: dq_PopBack_def dq_Back_def at_elem_def dq_abs_pos)
qed

lemma Remove_abs:
  "dq_abs z c (X @ (a, v) # Y) \<Longrightarrow> \<exists>c'. dq_Remove c a = ret c' \<and> dq_abs z c' (X @ Y)"
  using abs_elem [of z c X a v Y] free_abs [of z c X a v Y] by (auto simp: dq_Remove_def)

lemma Update_abs:
  assumes "dq_abs z c (X @ (a, v) # Y)"
  shows "\<exists>c'. dq_Update c a w = ret c' \<and> dq_abs z c' (X @ (a, w) # Y)"
proof -
  let ?c = "upd_elem a (\<lambda>e. e\<lparr>e_value := w\<rparr>) c"
  have f: "dq_frame z c (map fst (X @ (a, v) # Y))" and d: "dll (dq_elements c) 0 (X @ (a, v) # Y) 0"
    using assms by (simp_all add: dq_abs_pos)
  have "a \<notin> fst ` set X" "a \<notin> fst ` set Y" using frame_live_distinct [OF f] by auto
  then have "dll (dq_elements ?c) 0 (X @ (a, w) # Y) 0" using d by (simp add: dll_append)
  moreover have "dq_frame z ?c (map fst (X @ (a, w) # Y))" using frame_upd [OF f, of a] by simp
  ultimately have "dq_abs z ?c (X @ (a, w) # Y)"
    using assms by (simp add: dq_abs_pos pos_append first_pos_def)
  then show ?thesis using abs_elem [OF assms] by (auto simp: dq_Update_def)
qed

lemma unlinked_blank:
  assumes "dq_abs z c (X @ (a, v) # Y)"
  shows "\<exists>c1. dq_doRemove c a = ret c1 \<and>
    (let c2 = upd_elem a (\<lambda>e. e\<lparr>e_prev := 0, e_next := 0\<rparr>) c1 in
      dq_frame z c2 (a # map fst (X @ Y)) \<and> dll (dq_elements c2) 0 (X @ Y) 0 \<and>
      dq_elements c2 ! a = \<lparr>e_prev = 0, e_addr = a, e_next = 0, e_value = v\<rparr> \<and>
      dq_head c2 = first_pos (X @ Y) \<and> dq_tail c2 = last_pos (X @ Y) \<and> dq_length c2 = int (length (X @ Y)))"
proof -
  obtain c1 where r: "dq_doRemove c a = ret c1" "dq_frame z c1 (a # map fst (X @ Y))" "dll (dq_elements c1) 0 (X @ Y) 0"
    "dq_head c1 = first_pos (X @ Y)" "dq_tail c1 = last_pos (X @ Y)" "dq_length c1 = int (length (X @ Y))"
    "dq_elements c1 ! a = dq_elements c ! a"
    using doRemove_spec [OF assms] by blast
  have "a \<notin> fst ` set (X @ Y)" using frame_live_distinct [OF r(2)] by auto
  moreover have "a < length (dq_elements c1)" using frame_bounds [OF r(2), of a] by simp
  ultimately show ?thesis
    using r abs_elem [OF assms] frame_upd [OF r(2), of a] by (auto simp: Let_def)
qed

lemma MoveToBack_abs:
  assumes "dq_abs z c (X @ (a, v) # Y)"
  shows "\<exists>c'. dq_MoveToBack c a = ret c' \<and> dq_abs z c' (X @ Y @ [(a, v)])"
proof -
  obtain c1 c2 where u: "dq_doRemove c a = ret c1" "c2 = upd_elem a (\<lambda>e. e\<lparr>e_prev := 0, e_next := 0\<rparr>) c1"
    "dq_frame z c2 (a # map fst (X @ Y))" "dll (dq_elements c2) 0 (X @ Y) 0"
    "dq_elements c2 ! a = \<lparr>e_prev = 0, e_addr = a, e_next = 0, e_value = v\<rparr>"
    "dq_head c2 = first_pos (X @ Y)" "dq_tail c2 = last_pos (X @ Y)" "dq_length c2 = int (length (X @ Y))"
    using unlinked_blank [OF assms] by (auto simp: Let_def)
  obtain c' where "dq_doPushBack c2 a = ret c'" "linked c2 c' (X @ Y) a v []"
    using doPushBack_linked [OF u(3-8)] by blast
  with linked_abs [of z c2 a "X @ Y" "[]" c' v] u(3,4) abs_elem [OF assms] u(1,2) show ?thesis
    by (auto simp: dq_MoveToBack_def)
qed

lemma MoveToFront_abs:
  assumes "dq_abs z c (X @ (a, v) # Y)"
  shows "\<exists>c'. dq_MoveToFront c a = ret c' \<and> dq_abs z c' ((a, v) # X @ Y)"
proof -
  obtain c1 c2 where u: "dq_doRemove c a = ret c1" "c2 = upd_elem a (\<lambda>e. e\<lparr>e_prev := 0, e_next := 0\<rparr>) c1"
    "dq_frame z c2 (a # map fst (X @ Y))" "dll (dq_elements c2) 0 (X @ Y) 0"
    "dq_elements c2 ! a = \<lparr>e_prev = 0, e_addr = a, e_next = 0, e_value = v\<rparr>"
    "dq_head c2 = first_pos (X @ Y)" "dq_tail c2 = last_pos (X @ Y)" "dq_length c2 = int (length (X @ Y))"
    using unlinked_blank [OF assms] by (auto simp: Let_def)
  obtain c' where "dq_doPushFront c2 a = ret c'" "linked c2 c' [] a v (X @ Y)"
    using doPushFront_linked [OF u(3-8)] by blast
  with linked_abs [of z c2 a "[]" "X @ Y" c' v] u(3,4) abs_elem [OF assms] u(1,2) show ?thesis
    by (auto simp: dq_MoveToFront_def)
qed

lemma InsertAfter_abs:
  assumes "dq_abs z c (X @ (a, u) # Y)"
  shows "\<exists>e c'. dq_InsertAfter c v a = ret (Some e, c') \<and> e \<notin> fst ` set (X @ (a, u) # Y) \<and>
    dq_abs z c' (X @ (a, u) # (e, v) # Y)"
proof -
  let ?L = "X @ (a, u) # Y"
  note A = assms [unfolded dq_abs_pos] and E = abs_elem [OF assms]
  let ?c = "c\<lparr>dq_length := dq_length c + 1\<rparr>"
  obtain e c1 where g: "dq_getElement ?c = ret (e, c1)" "dq_frame z c1 (e # map fst ?L)" "e \<notin> fst ` set ?L"
    "dll (dq_elements c1) 0 ?L 0" "dq_elements c1 ! e = fresh_elem z e"
    "dq_head c1 = dq_head c" "dq_tail c1 = dq_tail c" "dq_length c1 = dq_length c + 1"
    using getElement_spec [of z ?c ?L] A by auto
  have b: "0 < e" "e < length (dq_elements c1)" using frame_bounds [OF g(2), of e] by simp_all
  have a: "0 < a" "a < length (dq_elements c1)" "a \<noteq> e"
    "dq_elements c1 ! a = \<lparr>e_prev = last_pos X, e_addr = a, e_next = first_pos Y, e_value = u\<rparr>"
    using g(3,4) by (auto simp: dll_append last_pos_def first_pos_def)
  have D: "distinct (map fst ?L)" using frame_live_distinct [OF g(2)] by simp
  have y: "0 < first_pos Y" "first_pos Y < length (dq_elements c1)" "first_pos Y \<noteq> e" "first_pos Y \<noteq> a" if "Y \<noteq> []"
    using pos_in(2) [OF that] dll_bounds [OF g(4), of "first_pos Y"] g(3) D by auto
  have "\<exists>c'. dq_InsertAfter c v a = ret (Some e, c') \<and> linked c1 c' (X @ [(a, u)]) e v Y"
    using a b y g A
    by (cases "Y = []")
      (auto simp: dq_InsertAfter_def at_elem_def Let_def linked_def nth_list_update pos_append fresh_elem_def)
  moreover have "dll (dq_elements c1) 0 ((X @ [(a, u)]) @ Y) 0" "dq_frame z c1 (e # map fst ((X @ [(a, u)]) @ Y))"
    using g(2,4) by simp_all
  ultimately show ?thesis using linked_abs [of z c1 e "X @ [(a, u)]" Y _ v] g(3) by fastforce
qed

lemma InsertBefore_abs:
  assumes "dq_abs z c (X @ (a, u) # Y)"
  shows "\<exists>e c'. dq_InsertBefore c v a = ret (Some e, c') \<and> e \<notin> fst ` set (X @ (a, u) # Y) \<and>
    dq_abs z c' (X @ (e, v) # (a, u) # Y)"
proof -
  let ?L = "X @ (a, u) # Y"
  note A = assms [unfolded dq_abs_pos] and E = abs_elem [OF assms]
  let ?c = "c\<lparr>dq_length := dq_length c + 1\<rparr>"
  obtain e c1 where g: "dq_getElement ?c = ret (e, c1)" "dq_frame z c1 (e # map fst ?L)" "e \<notin> fst ` set ?L"
    "dll (dq_elements c1) 0 ?L 0" "dq_elements c1 ! e = fresh_elem z e"
    "dq_head c1 = dq_head c" "dq_tail c1 = dq_tail c" "dq_length c1 = dq_length c + 1"
    using getElement_spec [of z ?c ?L] A by auto
  have b: "0 < e" "e < length (dq_elements c1)" using frame_bounds [OF g(2), of e] by simp_all
  have a: "0 < a" "a < length (dq_elements c1)" "a \<noteq> e"
    "dq_elements c1 ! a = \<lparr>e_prev = last_pos X, e_addr = a, e_next = first_pos Y, e_value = u\<rparr>"
    using g(3,4) by (auto simp: dll_append last_pos_def first_pos_def)
  have D: "distinct (map fst ?L)" using frame_live_distinct [OF g(2)] by simp
  have x: "0 < last_pos X" "last_pos X < length (dq_elements c1)" "last_pos X \<noteq> e" "last_pos X \<noteq> a" if "X \<noteq> []"
    using pos_in(1) [OF that] dll_bounds [OF g(4), of "last_pos X"] g(3) D by auto
  have "\<exists>c'. dq_InsertBefore c v a = ret (Some e, c') \<and> linked c1 c' X e v ((a, u) # Y)"
    using a b x g A
    by (cases "X = []")
      (auto simp: dq_InsertBefore_def at_elem_def Let_def linked_def nth_list_update pos_append fresh_elem_def)
  with linked_abs [of z c1 e X "(a, u) # Y" _ v] g(2-4) show ?thesis by fastforce
qed

text \<open>\<open>Range\<close> visits the elements in order until the callback stops it.\<close>

fun visit :: "('s \<Rightarrow> 'a Element \<Rightarrow> 's \<times> bool) \<Rightarrow> 's \<Rightarrow> 'a Element list \<Rightarrow> 's" where
  "visit f s [] = s"
| "visit f s (x # xs) = (case f s x of (s, go_on) \<Rightarrow> if go_on then visit f s xs else s)"

lemma range_loop_visit:
  "dll (dq_elements c) p L 0 \<Longrightarrow> L \<noteq> [] \<Longrightarrow>
   dq_range_loop f c (Some (first_pos L)) s = ret (visit f s (map (\<lambda>(a, v). dq_elements c ! a) L))"
proof (induction L arbitrary: p s)
  case (Cons x L)
  obtain a v where x: "x = (a, v)" by (cases x)
  show ?case
  proof (cases L)
    case Nil
    with Cons.prems x show ?thesis
      by (auto simp: dq_range_loop.simps [of f c "Some a"] dq_range_loop.simps [of f c None] at_elem_def split: prod.split)
  next
    case c: (Cons y L')
    obtain b w where y: "y = (b, w)" by (cases y)
    from Cons.prems x c y have "dll (dq_elements c) a L 0" "0 < b" "b < length (dq_elements c)"
      "e_next (dq_elements c ! a) = b" by auto
    with Cons.IH [of a] x c y show ?thesis
      by (auto simp: dq_range_loop.simps [of f c "Some a"] at_elem_def split: prod.split)
  qed
qed simp

lemma Range_abs:
  assumes "dq_abs z c L"
  shows "dq_Range f c s = ret (visit f s (map (\<lambda>(a, v). dq_elements c ! a) L))"
proof (cases L)
  case Nil
  with assms show ?thesis by (simp add: dq_Range_def dq_abs_pos dq_range_loop.simps)
next
  case (Cons x L')
  obtain a v where x: "x = (a, v)" by (cases x)
  from assms Cons x have "0 < a" "a < length (dq_elements c)" "dq_head c = a" by (auto simp: dq_abs_pos)
  with range_loop_visit [of c 0 L f s] assms Cons x show ?thesis by (simp add: dq_Range_def dq_abs_pos)
qed

subsection \<open>The deque as a queue\<close>

text \<open>
  What a client that only appends and takes from the front relies on: values come out in order, and
  taking from an empty queue gives \<open>z\<close>.
\<close>

locale plain_queue =
  fixes inv :: "'q \<Rightarrow> bool" and contents :: "'q \<Rightarrow> 'a list" and push :: "'q \<Rightarrow> 'a \<Rightarrow> (nat \<times> 'q) go"
    and pop :: "'q \<Rightarrow> ('a \<times> 'q) go" and size :: "'q \<Rightarrow> int" and z :: 'a
  assumes push: "inv q \<Longrightarrow> \<exists>e q'. push q v = ret (e, q') \<and> inv q' \<and> contents q' = contents q @ [v]"
    and pop: "inv q \<Longrightarrow> contents q = v # vs \<Longrightarrow> \<exists>q'. pop q = ret (v, q') \<and> inv q' \<and> contents q' = vs"
    and pop_empty: "inv q \<Longrightarrow> contents q = [] \<Longrightarrow> pop q = ret (z, q)"
    and size: "inv q \<Longrightarrow> size q = int (length (contents q))"
begin

lemma push_result: "inv q \<Longrightarrow> push q v = ret (e, q') \<Longrightarrow> inv q' \<and> contents q' = contents q @ [v]"
  using push [of q v] by auto

lemma pop_result:
  "inv q \<Longrightarrow> pop q = ret (v, q') \<Longrightarrow>
   inv q' \<and> (case contents q of [] \<Rightarrow> v = z \<and> q' = q | w # ws \<Rightarrow> v = w \<and> contents q' = ws)"
  using pop [of q] pop_empty [of q] by (cases "contents q") auto

end

definition dq_values :: "'a Deque \<Rightarrow> 'a list" where
  "dq_values c = (case dq_Range (\<lambda>s e. (s @ [e_value e], True)) c [] of None \<Rightarrow> [] | Some vs \<Rightarrow> vs)"

lemma visit_all: "visit (\<lambda>s e. (s @ [e_value e], True)) s es = s @ map e_value es"
  by (induction es arbitrary: s) auto

lemma dll_values: "dll els p L n \<Longrightarrow> map (\<lambda>(a, v). e_value (els ! a)) L = map snd L"
  by (induction els p L n rule: dll.induct) auto

lemma values_abs:
  assumes "dq_abs z c L"
  shows "dq_values c = map snd L"
proof -
  have "dll (dq_elements c) 0 L 0" using assms by (simp add: dq_abs_def)
  then have "map (\<lambda>(a, v). e_value (dq_elements c ! a)) L = map snd L" by (rule dll_values)
  then show ?thesis
    unfolding dq_values_def Range_abs [OF assms] by (simp add: visit_all comp_def case_prod_unfold)
qed

definition dq_ok :: "'a \<Rightarrow> 'a Deque \<Rightarrow> bool" where
  "dq_ok z c \<longleftrightarrow> (\<exists>L. dq_abs z c L)"

interpretation dq: plain_queue "dq_ok z" dq_values dq_PushBack "dq_PopFront z" dq_Len z for z
proof
  fix q :: "'a Deque" and v :: 'a and vs
  assume "dq_ok z q"
  then obtain L where L: "dq_abs z q L" by (auto simp: dq_ok_def)
  show "\<exists>e q'. dq_PushBack q v = ret (e, q') \<and> dq_ok z q' \<and> dq_values q' = dq_values q @ [v]"
    using PushBack_abs [OF L, of v] values_abs [OF L] by (fastforce simp: dq_ok_def dest: values_abs)
  show "\<exists>q'. dq_PopFront z q = ret (v, q') \<and> dq_ok z q' \<and> dq_values q' = vs" if "dq_values q = v # vs"
    using PopFront_abs [OF L] that values_abs [OF L]
    by (auto simp: dq_ok_def split: list.splits dest: values_abs)
  show "dq_PopFront z q = ret (z, q)" if "dq_values q = []"
    using PopFront_abs [OF L] that values_abs [OF L] by auto
  show "dq_Len q = int (length (dq_values q))"
    using L values_abs [OF L] by (simp add: dq_Len_def dq_abs_def)
qed

subsection \<open>Refinement of a sequence with stable positions\<close>

datatype 'a dq_op = PushF 'a | PushB 'a | PopF | PopB | InsA 'a nat | InsB 'a nat
  | MoveB nat | MoveF nat | Upd nat 'a | Rem nat

fun dq_step :: "'a \<Rightarrow> 'a dq_op \<Rightarrow> 'a Deque \<Rightarrow> ('a \<times> 'a Deque) go" where
  "dq_step z (PushF v) c = do { (e, c) \<leftarrow> dq_PushFront c v; ret (z, c) }"
| "dq_step z (PushB v) c = do { (e, c) \<leftarrow> dq_PushBack c v; ret (z, c) }"
| "dq_step z PopF c = dq_PopFront z c"
| "dq_step z PopB c = dq_PopBack z c"
| "dq_step z (InsA v a) c = do { (e, c) \<leftarrow> dq_InsertAfter c v a; ret (z, c) }"
| "dq_step z (InsB v a) c = do { (e, c) \<leftarrow> dq_InsertBefore c v a; ret (z, c) }"
| "dq_step z (MoveB a) c = do { c \<leftarrow> dq_MoveToBack c a; ret (z, c) }"
| "dq_step z (MoveF a) c = do { c \<leftarrow> dq_MoveToFront c a; ret (z, c) }"
| "dq_step z (Upd a v) c = do { c \<leftarrow> dq_Update c a v; ret (z, c) }"
| "dq_step z (Rem a) c = do { c \<leftarrow> dq_Remove c a; ret (z, c) }"

fun dq_mark :: "'a dq_op \<Rightarrow> nat" where
  "dq_mark (InsA v a) = a" | "dq_mark (InsB v a) = a" | "dq_mark (MoveB a) = a" | "dq_mark (MoveF a) = a"
| "dq_mark (Upd a v) = a" | "dq_mark (Rem a) = a" | "dq_mark _ = 0"

text \<open>
  The sequence an operation leaves, and the value it returns (\<open>z\<close> when it returns none): new
  positions are not in use, positions of other elements never change.
\<close>

inductive dq_spec :: "'a \<Rightarrow> 'a dq_op \<Rightarrow> (nat \<times> 'a) list \<Rightarrow> 'a \<Rightarrow> (nat \<times> 'a) list \<Rightarrow> bool" for z :: 'a where
  push_front: "e \<notin> fst ` set L \<Longrightarrow> dq_spec z (PushF v) L z ((e, v) # L)"
| push_back: "e \<notin> fst ` set L \<Longrightarrow> dq_spec z (PushB v) L z (L @ [(e, v)])"
| pop_front: "dq_spec z PopF ((a, v) # L) v L"
| pop_front_empty: "dq_spec z PopF [] z []"
| pop_back: "dq_spec z PopB (L @ [(a, v)]) v L"
| pop_back_empty: "dq_spec z PopB [] z []"
| insert_after: "e \<notin> fst ` set (X @ (a, u) # Y) \<Longrightarrow> dq_spec z (InsA v a) (X @ (a, u) # Y) z (X @ (a, u) # (e, v) # Y)"
| insert_before: "e \<notin> fst ` set (X @ (a, u) # Y) \<Longrightarrow> dq_spec z (InsB v a) (X @ (a, u) # Y) z (X @ (e, v) # (a, u) # Y)"
| move_back: "dq_spec z (MoveB a) (X @ (a, v) # Y) z (X @ Y @ [(a, v)])"
| move_front: "dq_spec z (MoveF a) (X @ (a, v) # Y) z ((a, v) # X @ Y)"
| update: "dq_spec z (Upd a v) (X @ (a, u) # Y) z (X @ (a, v) # Y)"
| remove: "dq_spec z (Rem a) (X @ (a, v) # Y) z (X @ Y)"
| no_mark: "op \<notin> range PushF \<union> range PushB \<union> {PopF, PopB} \<Longrightarrow> dq_mark op = 0 \<Longrightarrow> dq_spec z op L z L"

inductive_simps dq_spec_PopF: "dq_spec z PopF L r L'"

text \<open>
  C21: the deque is a sequence with stable positions: it starts empty, whether made by \<open>New\<close> or the
  zero value, and every operation whose mark is an element of it (or nil) returns without a panic,
  gives the right value and leaves the sequence the operation describes, every other element at its
  position; the links, the free positions and the length stay consistent.
\<close>

theorem deque_refines:
  "dq_abs z (zero_Deque z) [] \<and> dq_abs z (dq_New z n) [] \<and>
   (dq_abs z c L \<and> dq_mark op \<in> insert 0 (fst ` set L) \<longrightarrow>
     (\<exists>r c' L'. dq_step z op c = ret (r, c') \<and> dq_spec z op L r L' \<and> dq_abs z c' L'))"
proof (intro conjI impI dq_abs_zero dq_abs_New)
  assume *: "dq_abs z c L \<and> dq_mark op \<in> insert 0 (fst ` set L)"
  then have a: "dq_abs z c L" by simp
  have split: "\<exists>X v Y. L = X @ (dq_mark op, v) # Y" if "dq_mark op \<noteq> 0"
    using * that by (auto dest!: split_list) blast
  show "\<exists>r c' L'. dq_step z op c = ret (r, c') \<and> dq_spec z op L r L' \<and> dq_abs z c' L'"
  proof (cases "dq_mark op = 0")
    case True
    note empty = dq_spec.no_mark [OF _ True, of z L]
    show ?thesis
    proof (cases op)
      case (PushF v)
      then show ?thesis using PushFront_abs [OF a, of v] by (fastforce intro: dq_spec.push_front)
    next
      case (PushB v)
      then show ?thesis using PushBack_abs [OF a, of v] by (fastforce intro: dq_spec.push_back)
    next
      case PopF
      then show ?thesis using PopFront_abs [OF a] a
        by (auto split: list.splits intro: dq_spec.pop_front dq_spec.pop_front_empty)
    next
      case PopB
      then show ?thesis using PopBack_abs [OF a] a
        by (cases L rule: rev_cases) (fastforce intro: dq_spec.pop_back dq_spec.pop_back_empty)+
    qed (use True a empty in \<open>auto simp: dq_InsertAfter_def dq_InsertBefore_def dq_MoveToBack_def
      dq_MoveToFront_def dq_Update_def dq_Remove_def\<close>)
  next
    case False
    then obtain X v Y where L: "L = X @ (dq_mark op, v) # Y" using split by blast
    note b = a [unfolded L]
    show ?thesis
    proof (cases op)
      case (InsA w m)
      then show ?thesis using InsertAfter_abs [OF b, of w] L by (fastforce intro: dq_spec.insert_after)
    next
      case (InsB w m)
      then show ?thesis using InsertBefore_abs [OF b, of w] L by (fastforce intro: dq_spec.insert_before)
    next
      case (MoveB m)
      then show ?thesis using MoveToBack_abs [OF b] L by (fastforce intro: dq_spec.move_back)
    next
      case (MoveF m)
      then show ?thesis using MoveToFront_abs [OF b] L by (fastforce intro: dq_spec.move_front)
    next
      case (Upd m w)
      then show ?thesis using Update_abs [OF b, of w] L by (fastforce intro: dq_spec.update)
    next
      case (Rem m)
      then show ?thesis using Remove_abs [OF b] L by (fastforce intro: dq_spec.remove)
    qed (use False in auto)
  qed
qed

lemma deque_refines_witness:
  "\<exists>r c'. dq_step (0 :: nat) PopF (dq_New 0 4) = ret (r, c') \<and> r = 0"
  using deque_refines [of "0 :: nat" 4 "dq_New 0 4" "[]" PopF]
  by (auto simp: dq_spec_PopF)

subsection \<open>Misuse\<close>

text \<open>
  \<open>Reset\<close> of a zero value panics. A position that was already freed is not refused: removing it
  again makes the deque forget every element it holds.
\<close>

lemma Reset_zero_panics: "dq_Reset (zero_Deque z) = panic"
  by (simp add: dq_Reset_def dq_autoReset_def zero_Deque_def)

lemma Remove_freed_forgets:
  assumes "dq_abs z c L" "f \<in> set (dq_stack c)"
  shows "\<exists>c'. dq_doRemove c f = ret c' \<and> dq_head c' = 0 \<and> dq_tail c' = 0 \<and> dq_length c' = int (length L) - 1"
proof -
  have "dq_elements c ! f = zero_element z" using assms by (auto simp: dq_abs_def dq_frame_def)
  then show ?thesis using assms(1)
    by (simp add: dq_doRemove_def at_elem_def zero_element_def dq_abs_def)
qed

end
