(* ===== verification/WorkerQueue.thy ===== *)
theory WorkerQueue
  imports Deque "HOL-Library.Multiset"
begin

section \<open>A queue of jobs with bounded concurrency\<close>

text \<open>
  src/utils/queues/taskqueue/workerqueue.go over the deque it uses. A job is what a Go closure is
  here, an opaque value; a nil job is \<open>None\<close>. \<open>getJob\<close> runs under the mutex, so it is one step; a
  goroutine started by \<open>Push\<close> runs its job, then asks for the next one with \<open>getJob(nil, -1)\<close> and
  ends when there is none. The step relation interleaves any pushes with the completions of the
  running jobs in any order. A job that panics ends the process and is not modelled. The two int32
  counters are integers here: the invariant keeps \<open>0 \<le> curConcurrency \<le> maxConcurrency\<close> between steps,
  and \<open>getJob\<close> moves the count by one, so no int32 overflows.
\<close>

record 'j WorkerQueue =
  wq_q :: "'j option Deque"
  wq_maxConcurrency :: int
  wq_curConcurrency :: int

definition NewWorkerQueue :: "int \<Rightarrow> 'j WorkerQueue" where
  "NewWorkerQueue maxConcurrency =
     \<lparr>wq_q = zero_Deque None, wq_maxConcurrency = (if maxConcurrency < 1 then 1 else maxConcurrency),
      wq_curConcurrency = 0\<rparr>"

definition getJob :: "'j WorkerQueue \<Rightarrow> 'j option \<Rightarrow> int \<Rightarrow> ('j option \<times> 'j WorkerQueue) go" where
  "getJob c newJob delta = do {
     c \<leftarrow> (if newJob \<noteq> None then do { (e, q) \<leftarrow> dq_PushBack (wq_q c) newJob; ret (c\<lparr>wq_q := q\<rparr>) } else ret c);
     let c = c\<lparr>wq_curConcurrency := wq_curConcurrency c + delta\<rparr>;
     if wq_curConcurrency c \<ge> wq_maxConcurrency c then ret (None, c)
     else do {
       (job, q) \<leftarrow> dq_PopFront None (wq_q c);
       let c = c\<lparr>wq_q := q\<rparr>;
       if job = None then ret (None, c)
       else ret (job, c\<lparr>wq_curConcurrency := wq_curConcurrency c + 1\<rparr>) } }"

definition wq_Len :: "'j WorkerQueue \<Rightarrow> int" where
  "wq_Len c = dq_Len (wq_q c)"

subsection \<open>Runs\<close>

text \<open>
  \<open>wr_running\<close> are the jobs the goroutines are executing; the other lists record what was pushed,
  started and finished, in order.
\<close>

record 'j wq_run =
  wr_queue :: "'j WorkerQueue"
  wr_running :: "'j list"
  wr_pushed :: "'j list"
  wr_started :: "'j list"
  wr_finished :: "'j list"

text \<open>\<open>Push(job)\<close>: a goroutine is started when \<open>getJob\<close> returns a job.\<close>

definition wq_Push :: "'j wq_run \<Rightarrow> 'j \<Rightarrow> 'j wq_run go" where
  "wq_Push s j = do {
     (nextJob, q) \<leftarrow> getJob (wr_queue s) (Some j) 0;
     let s = s\<lparr>wr_queue := q, wr_pushed := wr_pushed s @ [j]\<rparr>;
     ret (case nextJob of
        None \<Rightarrow> s
      | Some k \<Rightarrow> s\<lparr>wr_running := wr_running s @ [k], wr_started := wr_started s @ [k]\<rparr>) }"

text \<open>One turn of the loop \<open>do\<close>: the \<open>i\<close>-th goroutine has finished its job and takes the next one.\<close>

definition wq_do :: "'j wq_run \<Rightarrow> nat \<Rightarrow> 'j wq_run go" where
  "wq_do s i = do {
     k \<leftarrow> index_go (wr_running s) i;
     (job, q) \<leftarrow> getJob (wr_queue s) None (- 1);
     let s = s\<lparr>wr_queue := q, wr_finished := wr_finished s @ [k]\<rparr>;
     ret (case job of
        None \<Rightarrow> s\<lparr>wr_running := take i (wr_running s) @ drop (Suc i) (wr_running s)\<rparr>
      | Some n \<Rightarrow> s\<lparr>wr_running := (wr_running s)[i := n], wr_started := wr_started s @ [n]\<rparr>) }"

definition wq_start :: "int \<Rightarrow> 'j wq_run" where
  "wq_start m = \<lparr>wr_queue = NewWorkerQueue m, wr_running = [], wr_pushed = [], wr_started = [], wr_finished = []\<rparr>"

inductive wq_reachable :: "int \<Rightarrow> 'j wq_run \<Rightarrow> bool" for m where
  start: "wq_reachable m (wq_start m)"
| push: "wq_reachable m s \<Longrightarrow> wq_Push s j = ret s' \<Longrightarrow> wq_reachable m s'"
| finish: "wq_reachable m s \<Longrightarrow> i < length (wr_running s) \<Longrightarrow> wq_do s i = ret s' \<Longrightarrow> wq_reachable m s'"

definition wq_waiting :: "'j wq_run \<Rightarrow> 'j option list" where
  "wq_waiting s = dq_values (wq_q (wr_queue s))"

definition wq_inv :: "int \<Rightarrow> 'j wq_run \<Rightarrow> bool" where
  "wq_inv m s \<longleftrightarrow>
     (let c = wr_queue s in
      dq_ok None (wq_q c) \<and> wq_maxConcurrency c = max 1 m \<and> wq_curConcurrency c = int (length (wr_running s)) \<and>
      wq_curConcurrency c \<le> max 1 m \<and> (wq_waiting s \<noteq> [] \<longrightarrow> wq_curConcurrency c = max 1 m) \<and>
      map Some (wr_pushed s) = map Some (wr_started s) @ wq_waiting s \<and>
      mset (wr_started s) = mset (wr_running s) + mset (wr_finished s))"

subsection \<open>One call of \<open>getJob\<close>\<close>

text \<open>What \<open>getJob\<close> does to the waiting jobs, whatever the count was before.\<close>

lemma getJob_spec:
  assumes ok: "dq_ok None (wq_q c)" and n: "w = dq_values (wq_q c) @ (case j of None \<Rightarrow> [] | Some x \<Rightarrow> [Some x])"
    and some: "None \<notin> set w"
  shows "\<exists>job c'. getJob c j d = ret (job, c') \<and> dq_ok None (wq_q c') \<and> wq_maxConcurrency c' = wq_maxConcurrency c \<and>
    (if wq_curConcurrency c + d \<ge> wq_maxConcurrency c \<or> w = []
     then job = None \<and> dq_values (wq_q c') = w \<and> wq_curConcurrency c' = wq_curConcurrency c + d
     else job = hd w \<and> job \<noteq> None \<and> dq_values (wq_q c') = tl w \<and> wq_curConcurrency c' = wq_curConcurrency c + d + 1)"
proof -
  obtain q where q: "(if j \<noteq> None then do { (e, q) \<leftarrow> dq_PushBack (wq_q c) j; ret (c\<lparr>wq_q := q\<rparr>) } else ret c) = ret (c\<lparr>wq_q := q\<rparr>)"
    "dq_ok None q" "dq_values q = w"
  proof (cases j)
    case None
    with ok n that [of "wq_q c"] show ?thesis by simp
  next
    case (Some x)
    with dq.push [OF ok, of j] n that show ?thesis by (auto split: option.splits)
  qed
  show ?thesis
  proof (cases "wq_curConcurrency c + d \<ge> wq_maxConcurrency c")
    case True
    with q show ?thesis unfolding getJob_def q(1) by simp
  next
    case False
    show ?thesis
    proof (cases w)
      case Nil
      with dq.pop_empty [OF q(2)] q False show ?thesis unfolding getJob_def q(1) by simp
    next
      case (Cons x xs)
      with dq.pop [OF q(2), of x xs] q(3) obtain q' where
        "dq_PopFront None q = ret (x, q')" "dq_ok None q'" "dq_values q' = xs" by auto
      moreover obtain y where "x = Some y" using some Cons by (cases x) auto
      ultimately show ?thesis using False Cons unfolding getJob_def q(1) by (auto simp: Let_def)
    qed
  qed
qed

lemma wq_inv_start: "wq_inv m (wq_start m)"
  using values_abs [OF dq_abs_zero [of None]] dq_abs_zero [of None]
  by (auto simp: wq_inv_def wq_start_def NewWorkerQueue_def wq_waiting_def dq_ok_def)

lemma waiting_some: "wq_inv m s \<Longrightarrow> None \<notin> set (wq_waiting s)"
proof -
  assume "wq_inv m s"
  then have "map Some (wr_pushed s) = map Some (wr_started s) @ wq_waiting s" by (simp add: wq_inv_def Let_def)
  then have "set (wq_waiting s) \<subseteq> range Some" by (metis Un_upper2 image_set set_append subset_trans subset_image_iff subset_UNIV)
  then show ?thesis by auto
qed

text \<open>The same in terms of the invariant of a run.\<close>

lemma getJob_inv:
  assumes "wq_inv m s" and w: "w = wq_waiting s @ (case j of None \<Rightarrow> [] | Some x \<Rightarrow> [Some x])"
  obtains job c where "getJob (wr_queue s) j d = ret (job, c)" "dq_ok None (wq_q c)" "wq_maxConcurrency c = max 1 m"
    "int (length (wr_running s)) + d \<ge> max 1 m \<or> w = [] \<Longrightarrow>
       job = None \<and> dq_values (wq_q c) = w \<and> wq_curConcurrency c = int (length (wr_running s)) + d"
    "\<not> (int (length (wr_running s)) + d \<ge> max 1 m \<or> w = []) \<Longrightarrow>
       job = hd w \<and> job \<noteq> None \<and> dq_values (wq_q c) = tl w \<and> wq_curConcurrency c = int (length (wr_running s)) + d + 1"
proof -
  have I: "dq_ok None (wq_q (wr_queue s))" "wq_maxConcurrency (wr_queue s) = max 1 m"
    "wq_curConcurrency (wr_queue s) = int (length (wr_running s))"
    using assms(1) by (simp_all add: wq_inv_def Let_def)
  have n: "None \<notin> set w" using waiting_some [OF assms(1)] w by (auto split: option.splits)
  from getJob_spec [OF I(1) w [unfolded wq_waiting_def] n, of d] that show thesis
    unfolding I(2,3) by (force split: if_splits)
qed

lemma wq_Push_inv:
  assumes "wq_inv m s"
  shows "\<exists>s'. wq_Push s j = ret s' \<and> wq_inv m s' \<and> wr_pushed s' = wr_pushed s @ [j] \<and> wr_finished s' = wr_finished s"
proof -
  note I = assms [unfolded wq_inv_def Let_def]
  obtain job c where g: "getJob (wr_queue s) (Some j) 0 = ret (job, c)" "dq_ok None (wq_q c)" "wq_maxConcurrency c = max 1 m"
    "int (length (wr_running s)) \<ge> max 1 m \<Longrightarrow>
       job = None \<and> dq_values (wq_q c) = wq_waiting s @ [Some j] \<and> wq_curConcurrency c = int (length (wr_running s))"
    "\<not> int (length (wr_running s)) \<ge> max 1 m \<Longrightarrow>
       job = hd (wq_waiting s @ [Some j]) \<and> dq_values (wq_q c) = tl (wq_waiting s @ [Some j]) \<and>
       wq_curConcurrency c = int (length (wr_running s)) + 1"
    using getJob_inv [OF assms, of "wq_waiting s @ [Some j]" "Some j" 0] by simp blast
  show ?thesis
  proof (cases "int (length (wr_running s)) \<ge> max 1 m")
    case True
    then have "int (length (wr_running s)) = max 1 m" using I by linarith
    with g(1-3) g(4) [OF True] I show ?thesis
      by (intro exI [of _ "s\<lparr>wr_queue := c, wr_pushed := wr_pushed s @ [j]\<rparr>"])
        (simp add: wq_Push_def wq_inv_def Let_def wq_waiting_def)
  next
    case False
    then have "wq_waiting s = []" "int (length (wr_running s)) + 1 \<le> max 1 m" using I by (force, linarith)
    with g(1-3) g(5) [OF False] I show ?thesis
      by (intro exI [of _ "s\<lparr>wr_queue := c, wr_pushed := wr_pushed s @ [j], wr_running := wr_running s @ [j], wr_started := wr_started s @ [j]\<rparr>"])
        (simp add: wq_Push_def wq_inv_def Let_def wq_waiting_def)
  qed
qed

lemma mset_remove_nth: "i < length xs \<Longrightarrow> mset (take i xs @ drop (Suc i) xs) + {#xs ! i#} = mset xs"
  by (metis id_take_nth_drop mset.simps(2) mset_append union_mset_add_mset_right add_mset_add_single union_assoc union_commute)

lemma wq_do_inv:
  assumes "wq_inv m s" and i: "i < length (wr_running s)"
  shows "\<exists>s'. wq_do s i = ret s' \<and> wq_inv m s' \<and> wr_pushed s' = wr_pushed s \<and>
    wr_finished s' = wr_finished s @ [wr_running s ! i] \<and>
    (if wq_waiting s = []
     then wr_running s' = take i (wr_running s) @ drop (Suc i) (wr_running s) \<and> wr_started s' = wr_started s
     else \<exists>n. hd (wq_waiting s) = Some n \<and> wr_running s' = (wr_running s)[i := n] \<and> wr_started s' = wr_started s @ [n])"
proof -
  let ?k = "wr_running s ! i"
  note I = assms(1) [unfolded wq_inv_def Let_def]
  have le: "\<not> max 1 m \<le> int (length (wr_running s)) + - 1" using I by linarith
  obtain job c where
    g: "getJob (wr_queue s) None (- 1) = ret (job, c)" "dq_ok None (wq_q c)" "wq_maxConcurrency c = max 1 m"
    "wq_waiting s = [] \<Longrightarrow> job = None \<and> dq_values (wq_q c) = [] \<and> wq_curConcurrency c = int (length (wr_running s)) - 1"
    "wq_waiting s \<noteq> [] \<Longrightarrow> job = hd (wq_waiting s) \<and> job \<noteq> None \<and> dq_values (wq_q c) = tl (wq_waiting s) \<and>
       wq_curConcurrency c = int (length (wr_running s))"
  proof (rule getJob_inv [OF assms(1), of "wq_waiting s" None "- 1"])
    fix job c
    assume *: "getJob (wr_queue s) None (- 1) = ret (job, c)" "dq_ok None (wq_q c)" "wq_maxConcurrency c = max 1 m"
    assume a: "max 1 m \<le> int (length (wr_running s)) + - 1 \<or> wq_waiting s = [] \<Longrightarrow>
      job = None \<and> dq_values (wq_q c) = wq_waiting s \<and> wq_curConcurrency c = int (length (wr_running s)) + - 1"
    assume b: "\<not> (max 1 m \<le> int (length (wr_running s)) + - 1 \<or> wq_waiting s = []) \<Longrightarrow>
      job = hd (wq_waiting s) \<and> job \<noteq> None \<and> dq_values (wq_q c) = tl (wq_waiting s) \<and>
      wq_curConcurrency c = int (length (wr_running s)) + - 1 + 1"
    show thesis
    proof (rule that [OF *])
      show "job = None \<and> dq_values (wq_q c) = [] \<and> wq_curConcurrency c = int (length (wr_running s)) - 1"
        if "wq_waiting s = []" using a that by simp
      show "job = hd (wq_waiting s) \<and> job \<noteq> None \<and> dq_values (wq_q c) = tl (wq_waiting s) \<and>
        wq_curConcurrency c = int (length (wr_running s))"
        if "wq_waiting s \<noteq> []"
      proof -
        have "job = hd (wq_waiting s) \<and> job \<noteq> None \<and> dq_values (wq_q c) = tl (wq_waiting s) \<and>
          wq_curConcurrency c = int (length (wr_running s)) + - 1 + 1" using b le that by blast
        then show ?thesis by auto
      qed
    qed
  qed simp
  have m: "add_mset ?k (mset (take i (wr_running s)) + mset (drop (Suc i) (wr_running s))) = mset (wr_running s)"
    using mset_remove_nth [OF i] by simp
  show ?thesis
  proof (cases "wq_waiting s = []")
    case True
    let ?s = "s\<lparr>wr_queue := c, wr_finished := wr_finished s @ [?k],
      wr_running := take i (wr_running s) @ drop (Suc i) (wr_running s)\<rparr>"
    have "wq_do s i = ret ?s" using g(1) g(4) [OF True] i by (simp add: wq_do_def index_go_def)
    moreover have "wq_waiting ?s = []" using g(4) [OF True] by (simp add: wq_waiting_def)
    moreover have "int (length (take i (wr_running s) @ drop (Suc i) (wr_running s))) = int (length (wr_running s)) - 1"
      using i by simp
    moreover have "mset (wr_running s) + mset (wr_finished s) =
      mset (take i (wr_running s) @ drop (Suc i) (wr_running s)) + mset (wr_finished s @ [?k])"
      using m by simp
    ultimately show ?thesis using g(2,3) g(4) [OF True] True I
      by (simp add: wq_inv_def Let_def del: mset_append length_append)
  next
    case False
    with g(5) obtain n ws where w: "wq_waiting s = Some n # ws" "job = Some n"
      by (cases "wq_waiting s") auto
    let ?s = "s\<lparr>wr_queue := c, wr_finished := wr_finished s @ [?k], wr_running := (wr_running s)[i := n],
      wr_started := wr_started s @ [n]\<rparr>"
    have "wq_do s i = ret ?s" using g(1) w(2) i by (simp add: wq_do_def index_go_def)
    moreover have c: "dq_values (wq_q c) = ws" "wq_curConcurrency c = int (length (wr_running s))" using g(5) w by simp_all
    moreover have "mset (wr_started s @ [n]) = mset ((wr_running s)[i := n]) + mset (wr_finished s @ [?k])"
      using i I by (simp add: mset_update)
    moreover have "map Some (wr_pushed s) = map Some (wr_started s @ [n]) @ ws" using I w by simp
    moreover have "int (length (wr_running s)) = max 1 m" using I w by simp
    ultimately have "wq_do s i = ret ?s \<and> wq_inv m ?s"
      using g(2,3) by (simp add: wq_inv_def Let_def wq_waiting_def del: mset_append)
    then show ?thesis using w by auto
  qed
qed

lemma reachable_inv: "wq_reachable m s \<Longrightarrow> wq_inv m s"
proof (induction rule: wq_reachable.induct)
  case (push s j s')
  then show ?case using wq_Push_inv [OF push.IH, of j] by auto
next
  case (finish s i s')
  then show ?case using wq_do_inv [OF finish.IH finish.hyps(2)] by auto
qed (rule wq_inv_start)

subsection \<open>The properties\<close>

text \<open>
  C22: at most \<open>maxConcurrency\<close> jobs run at a time, jobs wait only while that many run, jobs are
  started in the order they were pushed and each exactly once, no started job is lost: it is
  running or it has finished; \<open>Len\<close> is the number of waiting jobs, and a push never panics.
\<close>

theorem worker_queue_safe:
  assumes "wq_reachable m s"
  shows "int (length (wr_running s)) \<le> max 1 m \<and>
    (wq_waiting s = [] \<or> int (length (wr_running s)) = max 1 m) \<and>
    map Some (wr_pushed s) = map Some (wr_started s) @ wq_waiting s \<and>
    mset (wr_started s) = mset (wr_running s) + mset (wr_finished s) \<and>
    wq_Len (wr_queue s) = int (length (wq_waiting s)) \<and>
    (\<exists>s'. wq_Push s j = ret s')"
proof -
  note inv = reachable_inv [OF assms]
  note I = inv [unfolded wq_inv_def Let_def]
  have "wq_Len (wr_queue s) = int (length (wq_waiting s))"
    using dq.size [of None "wq_q (wr_queue s)"] I unfolding wq_Len_def wq_waiting_def by blast
  moreover have "wq_waiting s = [] \<or> int (length (wr_running s)) = max 1 m" using I by force
  ultimately show ?thesis using I wq_Push_inv [OF inv, of j] by force
qed

text \<open>With one worker the jobs run one after the other, in the order of the pushes.\<close>

lemma serial_order:
  assumes "wq_reachable m s" and m: "m \<le> 1"
  shows "wr_started s = wr_finished s @ wr_running s"
  using assms(1)
proof (induction rule: wq_reachable.induct)
  case (push s j s')
  note I = reachable_inv [OF push.hyps(1), unfolded wq_inv_def Let_def]
  from push.hyps(2) push.IH show ?case
    by (auto simp: wq_Push_def Let_def bind_eq_Some_conv split: option.splits)
next
  case (finish s i s')
  note inv = reachable_inv [OF finish.hyps(1)]
  have "length (wr_running s) \<le> 1" using inv m by (simp add: wq_inv_def Let_def)
  then obtain k where k: "wr_running s = [k]" "i = 0" using finish.hyps(2) by (cases "wr_running s") auto
  from wq_do_inv [OF inv finish.hyps(2)] finish.hyps(3) finish.IH k show ?case
    by (auto split: if_splits)
qed (simp add: wq_start_def)

text \<open>
  With \<open>maxConcurrency\<close> at most 1 the queue is serial: at most one job runs, and the finished
  jobs followed by the running and the waiting ones are the pushed ones in order.
\<close>

theorem worker_queue_serial:
  assumes "wq_reachable m s" and "m \<le> 1"
  shows "length (wr_running s) \<le> 1 \<and>
    map Some (wr_pushed s) = map Some (wr_finished s) @ map Some (wr_running s) @ wq_waiting s"
  using serial_order [OF assms] reachable_inv [OF assms(1)] assms(2) by (simp add: wq_inv_def Let_def)

text \<open>Completions chosen by a scheduler \<open>pick\<close>, with no further push.\<close>

fun wq_drain :: "('j wq_run \<Rightarrow> nat) \<Rightarrow> nat \<Rightarrow> 'j wq_run \<Rightarrow> 'j wq_run go" where
  "wq_drain pick 0 s = ret s"
| "wq_drain pick (Suc n) s = do { s \<leftarrow> wq_do s (pick s mod length (wr_running s)); wq_drain pick n s }"

lemma unfinished_running:
  assumes "wq_inv m s" and "length (wr_finished s) < length (wr_pushed s)"
  shows "wr_running s \<noteq> []"
proof
  assume r: "wr_running s = []"
  with assms(1) have w: "wq_waiting s = []" by (force simp: wq_inv_def Let_def)
  with assms(1) r have "map Some (wr_pushed s) = map Some (wr_started s)" "mset (wr_started s) = mset (wr_finished s)"
    by (simp_all add: wq_inv_def Let_def)
  then show False using assms(2) by (metis length_map size_mset less_irrefl)
qed

lemma inv_lengths:
  assumes "wq_inv m s"
  shows "length (wr_pushed s) = length (wr_running s) + length (wr_finished s) + length (wq_waiting s)"
proof -
  have "map Some (wr_pushed s) = map Some (wr_started s) @ wq_waiting s"
    and "mset (wr_started s) = mset (wr_running s) + mset (wr_finished s)"
    using assms by (simp_all add: wq_inv_def Let_def)
  then have "length (wr_pushed s) = length (wr_started s) + length (wq_waiting s)"
    and "length (wr_started s) = length (wr_running s) + length (wr_finished s)"
    by (metis length_map length_append, metis size_mset size_union)
  then show ?thesis by simp
qed

lemma drained_empty:
  assumes "wq_inv m s" and "length (wr_finished s) = length (wr_pushed s)"
  shows "wr_running s = [] \<and> wq_waiting s = [] \<and> mset (wr_finished s) = mset (wr_pushed s)"
  using assms inv_lengths [OF assms(1)] by (simp add: wq_inv_def Let_def inj_map_eq_map)

lemma drain_inv:
  assumes "wq_inv m s" and "n + length (wr_finished s) = length (wr_pushed s)"
  shows "\<exists>s'. wq_drain pick n s = ret s' \<and> wq_inv m s' \<and> wr_pushed s' = wr_pushed s \<and>
    length (wr_finished s') = length (wr_pushed s)"
  using assms
proof (induction n arbitrary: s)
  case (Suc n)
  then have "wr_running s \<noteq> []" using unfinished_running [of m s] by simp
  then have "pick s mod length (wr_running s) < length (wr_running s)" by simp
  from wq_do_inv [OF Suc.prems(1) this] obtain s1 where s1: "wq_do s (pick s mod length (wr_running s)) = ret s1"
    "wq_inv m s1" "wr_pushed s1 = wr_pushed s" "length (wr_finished s1) = Suc (length (wr_finished s))" by auto
  with Suc.IH [of s1] Suc.prems(2) show ?case by simp
qed simp

text \<open>
  C23: no job is left behind: whatever order the running jobs finish in, as many completions as there
  are unfinished jobs are possible, and after them every pushed job has run exactly once and no
  worker and no waiting job is left.
\<close>

theorem worker_queue_drains:
  assumes "wq_reachable m s"
  shows "\<exists>s'. wq_drain pick (length (wr_pushed s) - length (wr_finished s)) s = ret s' \<and>
    mset (wr_finished s') = mset (wr_pushed s) \<and> wr_running s' = [] \<and> wq_waiting s' = []"
proof -
  note inv = reachable_inv [OF assms]
  have "length (wr_finished s) \<le> length (wr_pushed s)" using inv_lengths [OF inv] by simp
  with drain_inv [OF inv, of "length (wr_pushed s) - length (wr_finished s)" pick] obtain s' where
    "wq_drain pick (length (wr_pushed s) - length (wr_finished s)) s = ret s'" "wq_inv m s'"
    "wr_pushed s' = wr_pushed s" "length (wr_finished s') = length (wr_pushed s')" by auto
  with drained_empty [of m s'] show ?thesis by auto
qed

text \<open>Witnesses: three jobs pushed on a queue of one worker.\<close>

definition wq_three :: "nat wq_run" where
  "wq_three = the (do { s \<leftarrow> wq_Push (wq_start 1) 7; s \<leftarrow> wq_Push s 8; wq_Push s 9 })"

lemma push_reachable: "wq_reachable m s \<Longrightarrow> \<exists>s'. wq_Push s j = ret s' \<and> wq_reachable m s'"
  using wq_Push_inv [OF reachable_inv, of m s j] wq_reachable.push [of m s j] by auto

lemma wq_three_reachable: "wq_reachable 1 wq_three"
proof -
  obtain s1 where s1: "wq_Push (wq_start 1) (7 :: nat) = ret s1" "wq_reachable 1 s1"
    using push_reachable [OF wq_reachable.start, of 1 7] by auto
  obtain s2 where s2: "wq_Push s1 8 = ret s2" "wq_reachable 1 s2"
    using push_reachable [OF s1(2), of 8] by auto
  obtain s3 where s3: "wq_Push s2 9 = ret s3" "wq_reachable 1 s3"
    using push_reachable [OF s2(2), of 9] by auto
  show ?thesis unfolding wq_three_def using s1 s2 s3 by simp
qed

lemma worker_queue_safe_witness:
  "map Some (wr_pushed wq_three) = map Some (wr_started wq_three) @ wq_waiting wq_three"
  using worker_queue_safe [OF wq_three_reachable] by blast

lemma worker_queue_serial_witness: "length (wr_running wq_three) \<le> 1"
  using worker_queue_serial [OF wq_three_reachable] by simp

lemma worker_queue_drains_witness:
  "\<exists>s'. wq_drain (\<lambda>s. 0) (length (wr_pushed wq_three) - length (wr_finished wq_three)) wq_three = ret s' \<and>
    mset (wr_finished s') = mset (wr_pushed wq_three)"
  using worker_queue_drains [OF wq_three_reachable] by blast

end
