(* ===== verification/WorkerWrite.thy ===== *)
theory WorkerWrite
  imports WriteProc WorkerQueue
begin

section \<open>The write processor on a worker queue\<close>

text \<open>
  src/kknet/kkprocessor/write_worker.go: the variant that has no goroutine of its own. A sender that
  finds the queue empty pushes a \<open>drainJob\<close> on a worker queue of one worker, a \<open>drainJob\<close> writes one
  batch and pushes the next one, \<open>Stop\<close> pushes the \<open>shutdownJob\<close> and waits for it. The worker queue is
  the modelled one (\<open>wq_Push\<close>, \<open>wq_do\<close>); a step is the code between two points where another goroutine
  can be seen, and a sleep between two attempts takes no part. The callbacks are history.
\<close>

datatype wjob = DrainJob | ShutdownJob

text \<open>
  Where the running job is. \<open>DrainWrite n remain closing\<close> and \<open>DrainRetry n err attempt remain closing\<close> hold
  the local variables of \<open>drainJob\<close>, the others those of \<open>shutdownJob\<close>; \<open>ShutRest\<close> is its second loop.
\<close>

datatype worker_pc = Begin | DrainWrite nat nat bool | DrainRetry nat werror nat nat bool
  | ShutPop bool | ShutWrite nat | ShutRetry nat werror nat | ShutRest

record 'c wworker = "'c writer" +
  j_work :: "wjob wq_run"
  j_pc :: worker_pc
  j_abort :: bool
  j_stopErr :: "werror option"
  j_drainedCh :: bool
  j_doneCh :: bool
  j_wakers :: nat
  j_stop :: stop_pc

definition NewWorkerWriteProcessor :: "WriteOptions \<Rightarrow> nnHeap \<Rightarrow> 'c \<Rightarrow> WriteOptions \<times> 'c wworker" where
  "NewWorkerWriteProcessor opts h c =
     (let opts = CheckWriteOptions opts
      in (opts, \<lparr>w_queue = NewFIFOQueue h (wo_SendQueueSize opts) (wo_SendQueueStrict opts),
                 w_batch = replicate BatchPacketSize None, w_closing = False, w_conn = c, w_errors = 0, w_notified = [],
                 w_accepted = [], w_refused = [], w_released = [],
                 j_work = wq_start 1, j_pc = Begin, j_abort = False, j_stopErr = None,
                 j_drainedCh = False, j_doneCh = False, j_wakers = 0, j_stop = NotStopped\<rparr>))"

subsection \<open>Senders\<close>

definition ww_sendDrop :: "picker \<Rightarrow> bytebuffer \<Rightarrow> 'c wworker \<Rightarrow> (kkerror option \<times> 'c wworker) go" where
  "ww_sendDrop pick b s = do {
     (err, wake, s) \<leftarrow> sendBufferDrop pick b s;
     ret (err, s\<lparr>j_wakers := j_wakers s + (if wake then 1 else 0)\<rparr>) }"

definition ww_sendRetry :: "WriteOptions \<Rightarrow> picker \<Rightarrow> int \<Rightarrow> bytebuffer \<Rightarrow> 'c wworker \<Rightarrow> (attempt \<times> 'c wworker) go" where
  "ww_sendRetry opts pick i b s = do {
     (r, wake, s) \<leftarrow> sendBufferRetry opts pick i b s;
     ret (r, s\<lparr>j_wakers := j_wakers s + (if wake then 1 else 0)\<rparr>) }"

definition ww_push :: "wjob \<Rightarrow> 'c wworker \<Rightarrow> 'c wworker go" where
  "ww_push j s = do { w \<leftarrow> wq_Push (j_work s) j; ret (s\<lparr>j_work := w\<rparr>) }"

definition ww_wakeWriter :: "'c wworker \<Rightarrow> 'c wworker go" where
  "ww_wakeWriter s = ww_push DrainJob s"

subsection \<open>The jobs\<close>

text \<open>A job returns: the worker asks the queue for the next one.\<close>

definition ww_end :: "'c wworker \<Rightarrow> 'c wworker go" where
  "ww_end s = do { w \<leftarrow> wq_do (j_work s) 0; ret (s\<lparr>j_work := w, j_pc := Begin\<rparr>) }"

text \<open>One attempt of \<open>retryWriteFn\<close>: its result, or \<open>None\<close> when it goes on with the next attempt.\<close>

definition ww_retryWriteFn :: "WriteOptions \<Rightarrow> 'c write_fn \<Rightarrow> nat \<Rightarrow> nat \<Rightarrow> 'c wworker \<Rightarrow> bool option \<times> 'c wworker" where
  "ww_retryWriteFn opts wfn n attempt s =
     (if w_closing s \<or> j_abort s then (Some False, s)
      else
        let (remaining, b) = compactBatch n (w_batch s); s = s\<lparr>w_batch := b\<rparr>
        in if remaining = 0 then (Some True, s)
           else (case call_writeFn wfn remaining s of
                   (None, s) \<Rightarrow> (Some True, s)
                 | (Some e, s) \<Rightarrow>
                     if \<not> isWriteFnRetryable opts e then (Some False, s)
                     else if int attempt < wo_WriteFnRetryMaxCount opts then (None, s)
                     else (Some False, s)))"

definition drain_more :: "nat \<Rightarrow> bool \<Rightarrow> 'c wworker \<Rightarrow> 'c wworker go" where
  "drain_more remain closing s = do {
     s \<leftarrow> (if remain > 0 \<and> \<not> closing then ww_push DrainJob s else ret s);
     ww_end s }"

definition drain_pop :: "WriteOptions \<Rightarrow> 'c wworker \<Rightarrow> 'c wworker go" where
  "drain_pop opts s = do {
     (n, b, q) \<leftarrow> sq_PopMany (w_queue s) (int (length (w_batch s))) (w_batch s) (wo_BatchWriteLimitBytes opts);
     let remain = sq_Len q;
     let s = s\<lparr>w_batch := b, w_queue := q\<rparr>;
     if n = 0 then ww_end s else ret (s\<lparr>j_pc := DrainWrite n remain (w_closing s)\<rparr>) }"

definition drain_write :: "WriteOptions \<Rightarrow> 'c write_fn \<Rightarrow> nat \<Rightarrow> nat \<Rightarrow> bool \<Rightarrow> 'c wworker \<Rightarrow> 'c wworker go" where
  "drain_write opts wfn n remain closing s =
     (case call_writeFn wfn n s of
        (None, s) \<Rightarrow> drain_more remain closing s
      | (Some err, s) \<Rightarrow>
          if \<not> isWriteFnRetryable opts err then ww_end (fail_batch n err s)
          else if wo_WriteFnRetryMaxCount opts \<le> 0 then ww_end (fail_batch n err s)
          else ret (s\<lparr>j_pc := DrainRetry n err 1 remain closing\<rparr>))"

definition drain_retry :: "WriteOptions \<Rightarrow> 'c write_fn \<Rightarrow> nat \<Rightarrow> werror \<Rightarrow> nat \<Rightarrow> nat \<Rightarrow> bool \<Rightarrow> 'c wworker \<Rightarrow> 'c wworker go" where
  "drain_retry opts wfn n err attempt remain closing s =
     (case ww_retryWriteFn opts wfn n attempt s of
        (Some True, s) \<Rightarrow> drain_more remain closing s
      | (Some False, s) \<Rightarrow> ww_end (fail_batch n err s)
      | (None, s) \<Rightarrow> ret (s\<lparr>j_pc := DrainRetry n err (attempt + 1) remain closing\<rparr>))"

definition ww_flush :: "WriteOptions \<Rightarrow> 'c wworker \<Rightarrow> bool" where
  "ww_flush opts s \<longleftrightarrow> wo_SendQueueNeedFlushOver opts \<and> (case j_stopErr s of None \<Rightarrow> True | Some _ \<Rightarrow> False)"

definition shut_pop :: "WriteOptions \<Rightarrow> bool \<Rightarrow> 'c wworker \<Rightarrow> 'c wworker go" where
  "shut_pop opts flush s = do {
     (n, b, q) \<leftarrow> sq_PopMany (w_queue s) (int (length (w_batch s))) (w_batch s) (wo_BatchWriteLimitBytes opts);
     let s = s\<lparr>w_batch := b, w_queue := q\<rparr>;
     if n = 0 then ret (s\<lparr>j_pc := ShutRest\<rparr>)
     else
       let flush = (if j_abort s then False else flush)
       in if flush then ret (s\<lparr>j_pc := ShutWrite n\<rparr>)
          else ret ((drainRelease n s)\<lparr>j_pc := ShutPop flush\<rparr>) }"

definition shut_write :: "WriteOptions \<Rightarrow> 'c write_fn \<Rightarrow> nat \<Rightarrow> 'c wworker \<Rightarrow> 'c wworker go" where
  "shut_write opts wfn n s =
     (case call_writeFn wfn n s of
        (None, s) \<Rightarrow> ret (s\<lparr>j_pc := ShutPop True\<rparr>)
      | (Some err, s) \<Rightarrow>
          if \<not> isWriteFnRetryable opts err then ret ((fail_batch n err s)\<lparr>j_pc := ShutRest\<rparr>)
          else if wo_WriteFnRetryMaxCount opts \<le> 0 then ret ((fail_batch n err s)\<lparr>j_pc := ShutRest\<rparr>)
          else ret (s\<lparr>j_pc := ShutRetry n err 1\<rparr>))"

definition shut_retry :: "WriteOptions \<Rightarrow> 'c write_fn \<Rightarrow> nat \<Rightarrow> werror \<Rightarrow> nat \<Rightarrow> 'c wworker \<Rightarrow> 'c wworker go" where
  "shut_retry opts wfn n err attempt s =
     (case ww_retryWriteFn opts wfn n attempt s of
        (Some True, s) \<Rightarrow> ret (s\<lparr>j_pc := ShutPop True\<rparr>)
      | (Some False, s) \<Rightarrow> ret ((fail_batch n err s)\<lparr>j_pc := ShutRest\<rparr>)
      | (None, s) \<Rightarrow> ret (s\<lparr>j_pc := ShutRetry n err (attempt + 1)\<rparr>))"

text \<open>The rest of the queue is released; then \<open>drainedCh\<close> and, on return, \<open>doneCh\<close> are closed.\<close>

definition shut_rest :: "'c wworker \<Rightarrow> 'c wworker go" where
  "shut_rest s = do {
     (n, b, q) \<leftarrow> sq_PopMany (w_queue s) (int (length (w_batch s))) (w_batch s) 0;
     let s = s\<lparr>w_batch := b, w_queue := q\<rparr>;
     if n = 0 then do {
       d \<leftarrow> (if j_drainedCh s then ret True else close_ch (j_drainedCh s));
       e \<leftarrow> close_ch (j_doneCh s);
       ww_end (s\<lparr>j_drainedCh := d, j_doneCh := e\<rparr>) }
     else ret (drainRelease n s) }"

text \<open>A step of the worker, which runs as long as there is a job.\<close>

definition ww_worker :: "WriteOptions \<Rightarrow> 'c write_fn \<Rightarrow> 'c wworker \<Rightarrow> 'c wworker go" where
  "ww_worker opts wfn s =
     (case wr_running (j_work s) of
        [] \<Rightarrow> ret s
      | job # _ \<Rightarrow>
          (case j_pc s of
             Begin \<Rightarrow> (case job of DrainJob \<Rightarrow> drain_pop opts s | ShutdownJob \<Rightarrow> ret (s\<lparr>j_pc := ShutPop (ww_flush opts s)\<rparr>))
           | DrainWrite n r c \<Rightarrow> drain_write opts wfn n r c s
           | DrainRetry n err k r c \<Rightarrow> drain_retry opts wfn n err k r c s
           | ShutPop flush \<Rightarrow> shut_pop opts flush s
           | ShutWrite n \<Rightarrow> shut_write opts wfn n s
           | ShutRetry n err k \<Rightarrow> shut_retry opts wfn n err k s
           | ShutRest \<Rightarrow> shut_rest s))"

subsection \<open>Stop\<close>

definition ww_stop_mark :: "WriteOptions \<Rightarrow> werror option \<Rightarrow> 'c wworker \<Rightarrow> 'c wworker" where
  "ww_stop_mark opts err s =
     s\<lparr>w_closing := True, j_stopErr := err,
       j_stop := Marked (wo_SendQueueNeedFlushOver opts \<and> (case err of None \<Rightarrow> True | Some _ \<Rightarrow> False))\<rparr>"

definition ww_stop_signal :: "bool \<Rightarrow> 'c wworker \<Rightarrow> 'c wworker go" where
  "ww_stop_signal flush s = do {
     s \<leftarrow> ww_push ShutdownJob s;
     ret (s\<lparr>j_stop := (if flush then Flushing else WaitDone)\<rparr>) }"

definition ww_stop_timeout :: "'c wworker \<Rightarrow> 'c wworker" where
  "ww_stop_timeout s = s\<lparr>j_abort := True, w_notified := w_notified s @ [[ErrNetConnectionClosed]], j_stop := WaitDone\<rparr>"

subsection \<open>The step relation\<close>

inductive ww_step :: "WriteOptions \<Rightarrow> 'c write_fn \<Rightarrow> picker \<Rightarrow> 'c wworker \<Rightarrow> 'c wworker go \<Rightarrow> bool" for opts wfn pick where
  send_drop: "ww_step opts wfn pick s (map_option snd (ww_sendDrop pick b s))"
| send_retry: "ww_step opts wfn pick s (map_option snd (ww_sendRetry opts pick i b s))"
| wake: "j_wakers s > 0 \<Longrightarrow> ww_step opts wfn pick s (ww_wakeWriter (s\<lparr>j_wakers := j_wakers s - 1\<rparr>))"
| work: "ww_step opts wfn pick s (ww_worker opts wfn s)"
| mark: "j_stop s = NotStopped \<Longrightarrow> ww_step opts wfn pick s (ret (ww_stop_mark opts err s))"
| signal: "j_stop s = Marked flush \<Longrightarrow> ww_step opts wfn pick s (ww_stop_signal flush s)"
| flushed: "j_stop s = Flushing \<Longrightarrow> j_drainedCh s \<or> j_doneCh s \<Longrightarrow> ww_step opts wfn pick s (ret (s\<lparr>j_stop := WaitDone\<rparr>))"
| timeout: "j_stop s = Flushing \<Longrightarrow> ww_step opts wfn pick s (ret (ww_stop_timeout s))"
| finish: "j_stop s = WaitDone \<Longrightarrow> j_doneCh s \<Longrightarrow> ww_step opts wfn pick s (ret (s\<lparr>j_stop := Stopped\<rparr>))"

inductive ww_reachable :: "WriteOptions \<Rightarrow> 'c write_fn \<Rightarrow> picker \<Rightarrow> 'c wworker \<Rightarrow> 'c wworker \<Rightarrow> bool" for opts wfn pick s0 where
  start: "ww_reachable opts wfn pick s0 s0"
| step: "ww_reachable opts wfn pick s0 s \<Longrightarrow> ww_step opts wfn pick s (ret s') \<Longrightarrow> ww_reachable opts wfn pick s0 s'"

subsection \<open>The jobs of a worker queue of one worker\<close>

text \<open>The jobs pushed and not yet finished, in order; the first one is running.\<close>

definition wq_jobs :: "'j wq_run \<Rightarrow> 'j list" where
  "wq_jobs w = drop (length (wr_finished w)) (wr_pushed w)"

lemma jobs_running:
  assumes "wq_reachable 1 w"
  shows "map Some (wq_jobs w) = map Some (wr_running w) @ wq_waiting w" "length (wr_finished w) \<le> length (wr_pushed w)"
    "wr_running w = (case wq_jobs w of [] \<Rightarrow> [] | j # _ \<Rightarrow> [j])"
proof -
  note I = reachable_inv [OF assms, unfolded wq_inv_def Let_def]
  have p: "map Some (wr_pushed w) = map Some (wr_finished w) @ map Some (wr_running w) @ wq_waiting w"
    using I serial_order [OF assms] by simp
  from arg_cong [OF p, of length] show "length (wr_finished w) \<le> length (wr_pushed w)" by simp
  from arg_cong [OF p, of "drop (length (wr_finished w))"]
  show j: "map Some (wq_jobs w) = map Some (wr_running w) @ wq_waiting w" by (simp add: wq_jobs_def drop_map)
  have l: "length (wr_running w) \<le> 1" "wq_waiting w \<noteq> [] \<longrightarrow> length (wr_running w) = 1" using I by auto
  show "wr_running w = (case wq_jobs w of [] \<Rightarrow> [] | j # _ \<Rightarrow> [j])"
    using j l by (cases "wr_running w"; cases "wq_jobs w") auto
qed

lemma jobs_start: "wq_reachable 1 (wq_start 1)" "wq_jobs (wq_start 1) = []"
  by (rule wq_reachable.start) (simp add: wq_jobs_def wq_start_def)

lemma jobs_Push:
  assumes "wq_reachable 1 w"
  obtains w' where "wq_Push w j = ret w'" "wq_reachable 1 w'" "wq_jobs w' = wq_jobs w @ [j]"
proof -
  from wq_Push_inv [OF reachable_inv [OF assms], of j] obtain w' where
    w: "wq_Push w j = ret w'" "wr_pushed w' = wr_pushed w @ [j]" "wr_finished w' = wr_finished w" by blast
  with jobs_running(2) [OF assms] show thesis
    by (intro that [OF w(1) wq_reachable.push [OF assms w(1)]]) (simp add: wq_jobs_def)
qed

lemma jobs_do:
  assumes "wq_reachable 1 w" and "wq_jobs w = k # r"
  obtains w' where "wq_do w 0 = ret w'" "wq_reachable 1 w'" "wq_jobs w' = r"
proof -
  have i: "0 < length (wr_running w)" using jobs_running(3) [OF assms(1)] assms(2) by simp
  from wq_do_inv [OF reachable_inv [OF assms(1)] i] obtain w' where
    w: "wq_do w 0 = ret w'" "wr_pushed w' = wr_pushed w" "length (wr_finished w') = Suc (length (wr_finished w))" by auto
  moreover have "drop (Suc (length (wr_finished w))) (wr_pushed w) = r"
    using arg_cong [OF assms(2), of tl] by (simp add: wq_jobs_def drop_Suc tl_drop)
  ultimately show thesis by (intro that [OF w(1) wq_reachable.finish [OF assms(1) i w(1)]]) (simp add: wq_jobs_def)
qed

subsection \<open>The invariant\<close>

primrec in_drain :: "worker_pc \<Rightarrow> bool" where
  "in_drain Begin = False"
| "in_drain (DrainWrite n r c) = True"
| "in_drain (DrainRetry n e k r c) = True"
| "in_drain (ShutPop f) = False"
| "in_drain (ShutWrite n) = False"
| "in_drain (ShutRetry n e k) = False"
| "in_drain ShutRest = False"

definition in_shut :: "worker_pc \<Rightarrow> bool" where
  "in_shut pc \<longleftrightarrow> pc \<noteq> Begin \<and> \<not> in_drain pc"

text \<open>How many buffers of the batch the running job holds.\<close>

primrec held :: "worker_pc \<Rightarrow> nat" where
  "held Begin = 0"
| "held (DrainWrite n r c) = n"
| "held (DrainRetry n e k r c) = n"
| "held (ShutPop f) = 0"
| "held (ShutWrite n) = n"
| "held (ShutRetry n e k) = n"
| "held ShutRest = 0"

definition ww_flight :: "'c wworker \<Rightarrow> bytebuffer list" where
  "ww_flight s = live (take (held (j_pc s)) (w_batch s))"

text \<open>The running job pops again, or pushes a job that does.\<close>

primrec will_pop :: "worker_pc \<Rightarrow> bool" where
  "will_pop Begin = True"
| "will_pop (DrainWrite n r c) = (r > 0 \<and> \<not> c)"
| "will_pop (DrainRetry n e k r c) = (r > 0 \<and> \<not> c)"
| "will_pop (ShutPop f) = True"
| "will_pop (ShutWrite n) = True"
| "will_pop (ShutRetry n e k) = True"
| "will_pop ShutRest = True"

definition signalled :: "stop_pc \<Rightarrow> bool" where
  "signalled p \<longleftrightarrow> p = Flushing \<or> p = WaitDone \<or> p = Stopped"

definition ww_data :: "picker \<Rightarrow> ('c \<Rightarrow> bytebuffer list) \<Rightarrow> 'c wworker \<Rightarrow> bool" where
  "ww_data pick sent s \<longleftrightarrow>
     sq_inv pick (w_queue s) \<and> None \<notin> set (sq_contents (w_queue s)) \<and> length (w_batch s) = BatchPacketSize \<and>
     held (j_pc s) \<le> BatchPacketSize \<and> accounted sent (ww_flight s) s"

definition ww_jobs :: "'c wworker \<Rightarrow> bool" where
  "ww_jobs s \<longleftrightarrow>
     (let js = wq_jobs (j_work s) in
      wq_reachable 1 (j_work s) \<and>
      (in_drain (j_pc s) \<longrightarrow> js \<noteq> [] \<and> hd js = DrainJob) \<and> (in_shut (j_pc s) \<longrightarrow> js \<noteq> [] \<and> hd js = ShutdownJob) \<and>
      count_list js ShutdownJob + (if j_doneCh s then 1 else 0) = (if signalled (j_stop s) then 1 else 0))"

definition ww_control :: "WriteOptions \<Rightarrow> 'c wworker \<Rightarrow> bool" where
  "ww_control opts s \<longleftrightarrow>
     (w_closing s \<longleftrightarrow> j_stop s \<noteq> NotStopped) \<and> j_drainedCh s = j_doneCh s \<and>
     (j_doneCh s \<longrightarrow> queued s = [] \<and> j_pc s = Begin) \<and> (j_stop s = Stopped \<longrightarrow> j_doneCh s) \<and>
     (j_pc s = ShutPop False \<longrightarrow> w_errors s > 0 \<or> j_abort s \<or> \<not> ww_flush opts s) \<and>
     (j_pc s = ShutRest \<longrightarrow> w_errors s > 0 \<or> queued s = []) \<and>
     (w_released s \<noteq> [] \<longrightarrow> w_errors s > 0 \<or> j_abort s \<or> (w_closing s \<and> \<not> ww_flush opts s)) \<and>
     (w_errors s = 0 \<and> \<not> w_closing s \<and> queued s \<noteq> [] \<longrightarrow>
        j_wakers s > 0 \<or> (wq_jobs (j_work s) \<noteq> [] \<and> (will_pop (j_pc s) \<or> tl (wq_jobs (j_work s)) \<noteq> [])))"

definition ww_inv :: "WriteOptions \<Rightarrow> picker \<Rightarrow> ('c \<Rightarrow> bytebuffer list) \<Rightarrow> 'c wworker \<Rightarrow> bool" where
  "ww_inv opts pick sent s \<longleftrightarrow> ww_data pick sent s \<and> ww_jobs s \<and> ww_control opts s"

lemma ww_dataD:
  assumes "ww_data pick sent s"
  shows "sq_inv pick (w_queue s)" "None \<notin> set (sq_contents (w_queue s))" "length (w_batch s) = BatchPacketSize"
    "held (j_pc s) \<le> BatchPacketSize" "accounted sent (ww_flight s) s"
  using assms by (simp_all add: ww_data_def)

lemma ww_jobsD:
  assumes "ww_jobs s"
  shows "wq_reachable 1 (j_work s)"
    "in_drain (j_pc s) \<Longrightarrow> \<exists>r. wq_jobs (j_work s) = DrainJob # r" "in_shut (j_pc s) \<Longrightarrow> \<exists>r. wq_jobs (j_work s) = ShutdownJob # r"
    "count_list (wq_jobs (j_work s)) ShutdownJob + (if j_doneCh s then 1 else 0) = (if signalled (j_stop s) then 1 else 0)"
proof -
  note J = assms [unfolded ww_jobs_def Let_def]
  show "wq_reachable 1 (j_work s)"
    "count_list (wq_jobs (j_work s)) ShutdownJob + (if j_doneCh s then 1 else 0) = (if signalled (j_stop s) then 1 else 0)"
    using J by - (elim conjE, assumption)+
  have i: "in_drain (j_pc s) \<longrightarrow> wq_jobs (j_work s) \<noteq> [] \<and> hd (wq_jobs (j_work s)) = DrainJob"
    "in_shut (j_pc s) \<longrightarrow> wq_jobs (j_work s) \<noteq> [] \<and> hd (wq_jobs (j_work s)) = ShutdownJob" using J by - (elim conjE, assumption)+
  show "\<exists>r. wq_jobs (j_work s) = DrainJob # r" if "in_drain (j_pc s)"
    using i(1) that by (cases "wq_jobs (j_work s)") simp_all
  show "\<exists>r. wq_jobs (j_work s) = ShutdownJob # r" if "in_shut (j_pc s)"
    using i(2) that by (cases "wq_jobs (j_work s)") simp_all
qed

text \<open>While \<open>shutdownJob\<close> is running or waiting the processor is closing and not done.\<close>

lemma shut_closing:
  assumes "ww_jobs s" and "ww_control opts s" and "ShutdownJob \<in> set (wq_jobs (j_work s))"
  shows "w_closing s" "\<not> j_doneCh s" "signalled (j_stop s)" "count_list (wq_jobs (j_work s)) ShutdownJob = 1"
proof -
  have "count_list (wq_jobs (j_work s)) ShutdownJob > 0" using assms(3) by (metis count_list_0_iff gr0I)
  with ww_jobsD(4) [OF assms(1)] show d: "\<not> j_doneCh s" "signalled (j_stop s)" "count_list (wq_jobs (j_work s)) ShutdownJob = 1"
    by (simp_all split: if_splits)
  have "w_closing s \<longleftrightarrow> j_stop s \<noteq> NotStopped" using assms(2) by (simp add: ww_control_def)
  with d(2) show "w_closing s" by (auto simp: signalled_def)
qed

lemma NewWorkerWriteProcessor_inv:
  assumes "valid_picker pick" and "distinct (nh_pool h)" and "\<forall>a \<in> set (nh_pool h). a < nh_fresh h"
    and "sent c = []" and "NewWorkerWriteProcessor opts h c = (opts', s)"
  shows "ww_inv opts' pick sent s"
proof -
  note q = sq_inv_New [OF assms(1-3), of "wo_SendQueueSize opts'" "wo_SendQueueStrict opts'"]
  have s: "w_queue s = NewFIFOQueue h (wo_SendQueueSize opts') (wo_SendQueueStrict opts')" "j_work s = wq_start 1" "j_pc s = Begin"
    "w_batch s = replicate BatchPacketSize None" "\<not> w_closing s" "w_conn s = c" "w_released s = []" "w_accepted s = []"
    "\<not> j_doneCh s" "\<not> j_drainedCh s" "j_stop s = NotStopped"
    using assms(5) by (auto simp: NewWorkerWriteProcessor_def Let_def)
  have "queued s = []" using q by (simp add: queued_def s)
  then have "ww_data pick sent s" "ww_control opts' s"
    using q assms(4) by (simp_all add: ww_data_def ww_control_def ww_flight_def accounted_def s)
  moreover have "ww_jobs s" by (simp add: ww_jobs_def s jobs_start in_shut_def signalled_def)
  ultimately show ?thesis by (simp add: ww_inv_def)
qed

subsection \<open>The senders and \<open>Stop\<close> keep the invariant\<close>

lemma ww_send_inv:
  assumes inv: "ww_inv opts pick sent s" and p: "pushes pick b ok wake s s1"
  shows "ww_inv opts pick sent (s1\<lparr>j_wakers := j_wakers s1 + (if wake then 1 else 0)\<rparr>)"
proof -
  from p obtain q r where s1: "s1 = s\<lparr>w_queue := q, w_accepted := w_accepted s @ (if ok then [b] else []), w_refused := r\<rparr>"
    and q: "sq_inv pick q" "sq_contents q = sq_contents (w_queue s) @ (if ok then [Some b] else [])"
    and w: "wake \<longleftrightarrow> ok \<and> sq_contents (w_queue s) = []" "ok \<longrightarrow> \<not> w_closing s"
    unfolding pushes_def by blast
  let ?s = "s1\<lparr>j_wakers := j_wakers s1 + (if wake then 1 else 0)\<rparr>"
  have qd: "queued ?s = queued s @ (if ok then [b] else [])" using q by (simp add: queued_def s1)
  have fl: "ww_flight ?s = ww_flight s" by (simp add: ww_flight_def s1)
  have data: "ww_data pick sent s" and jobs: "ww_jobs s" and ctl: "ww_control opts s" using inv by (simp_all add: ww_inv_def)
  have acc: "accounted sent (ww_flight ?s) ?s"
    using ww_dataD(5) [OF data] unfolding fl accounted_def qd by (auto simp: s1 intro: list_emb_append_mono simp flip: append_assoc)
  have "ww_data pick sent ?s" using data q acc unfolding ww_data_def by (auto simp: s1)
  moreover have "ww_jobs ?s" using jobs by (simp add: ww_jobs_def s1)
  moreover have "ww_control opts ?s"
  proof -
    have "queued s = [] \<longleftrightarrow> sq_contents (w_queue s) = []"
      using ww_dataD(2) [OF data] live_eq_map [of "sq_contents (w_queue s)"] by (auto simp: queued_def)
    with w(1) have wk: "wake \<longleftrightarrow> ok \<and> queued s = []" by simp
    have undone: "\<not> j_doneCh s" if ok
      using ww_jobsD(4) [OF jobs] ctl w(2) that by (auto simp: ww_control_def signalled_def split: if_splits)
    have rest: "j_pc s \<noteq> ShutRest" if ok
      using ww_jobsD(3) [OF jobs] shut_closing(1) [OF jobs ctl] w(2) that by (auto simp: in_shut_def)
    have "ww_flush opts (s1\<lparr>j_wakers := k\<rparr>) = ww_flush opts s" for k by (simp add: ww_flush_def s1)
    moreover have "w_closing ?s = w_closing s" "j_pc ?s = j_pc s" "j_work ?s = j_work s" "j_doneCh ?s = j_doneCh s"
      "j_drainedCh ?s = j_drainedCh s" "j_stop ?s = j_stop s" "w_errors ?s = w_errors s" "j_abort ?s = j_abort s"
      "w_released ?s = w_released s" "j_wakers ?s = j_wakers s + (if wake then 1 else 0)" by (simp_all add: s1)
    ultimately show ?thesis using ctl w(2) undone rest unfolding ww_control_def qd by (cases ok) (simp_all add: wk, blast)
  qed
  ultimately show ?thesis by (simp add: ww_inv_def)
qed

lemma ww_sendDrop_inv:
  assumes "ww_inv opts pick sent s"
  shows "\<exists>err s'. ww_sendDrop pick b s = ret (err, s') \<and> ww_inv opts pick sent s'"
proof -
  have "sq_inv pick (w_queue s)" using assms by (simp add: ww_inv_def ww_data_def)
  from sendBufferDrop_spec [OF this, of b] obtain err ok wake s1 where
    "sendBufferDrop pick b s = ret (err, wake, s1)" "pushes pick b ok wake s s1" by blast
  with ww_send_inv [OF assms this(2)] show ?thesis by (simp add: ww_sendDrop_def)
qed

lemma ww_sendRetry_inv:
  assumes "ww_inv opts pick sent s"
  shows "\<exists>r s'. ww_sendRetry opts pick i b s = ret (r, s') \<and> ww_inv opts pick sent s'"
proof -
  have "sq_inv pick (w_queue s)" using assms by (simp add: ww_inv_def ww_data_def)
  from sendBufferRetry_spec [OF this, of opts i b] obtain r ok wake s1 where
    "sendBufferRetry opts pick i b s = ret (r, wake, s1)" "pushes pick b ok wake s s1" by blast
  with ww_send_inv [OF assms this(2)] show ?thesis by (simp add: ww_sendRetry_def)
qed

text \<open>Pushing a job.\<close>

lemma push_spec:
  assumes "ww_jobs s"
  obtains w where "ww_push j s = ret (s\<lparr>j_work := w\<rparr>)" "wq_reachable 1 w" "wq_jobs w = wq_jobs (j_work s) @ [j]"
proof -
  obtain w where "wq_Push (j_work s) j = ret w" "wq_reachable 1 w" "wq_jobs w = wq_jobs (j_work s) @ [j]"
    by (rule jobs_Push [OF ww_jobsD(1) [OF assms]])
  then show thesis by (intro that [of w]) (simp_all add: ww_push_def)
qed

lemma push_drain_inv:
  assumes inv: "ww_inv opts pick sent s"
  shows "\<exists>w. ww_push DrainJob s = ret (s\<lparr>j_work := w\<rparr>) \<and> wq_jobs w = wq_jobs (j_work s) @ [DrainJob] \<and>
    (\<forall>k. ww_inv opts pick sent (s\<lparr>j_work := w, j_wakers := k\<rparr>))"
proof -
  have jobs: "ww_jobs s" using inv by (simp add: ww_inv_def)
  obtain w where w: "ww_push DrainJob s = ret (s\<lparr>j_work := w\<rparr>)" "wq_reachable 1 w" "wq_jobs w = wq_jobs (j_work s) @ [DrainJob]"
    by (rule push_spec [OF jobs])
  have "ww_inv opts pick sent (s\<lparr>j_work := w, j_wakers := k\<rparr>)" for k
  proof -
    let ?s = "s\<lparr>j_work := w, j_wakers := k\<rparr>"
    have "ww_data pick sent ?s" using inv by (simp add: ww_inv_def ww_data_def ww_flight_def accounted_def queued_def)
    moreover have "ww_jobs ?s" using jobs w(2,3) by (auto simp: ww_jobs_def Let_def hd_append)
    moreover have "will_pop (j_pc s) \<or> wq_jobs (j_work s) \<noteq> []"
      using ww_jobsD(2) [OF jobs] by (cases "j_pc s") auto
    then have "ww_control opts ?s" using inv w(3) by (auto simp: ww_inv_def ww_control_def queued_def ww_flush_def)
    ultimately show ?thesis by (simp add: ww_inv_def)
  qed
  with w(1,3) show ?thesis by blast
qed

lemma ww_wake_inv:
  assumes inv: "ww_inv opts pick sent s"
  shows "\<exists>s'. ww_wakeWriter (s\<lparr>j_wakers := k\<rparr>) = ret s' \<and> ww_inv opts pick sent s'"
proof -
  obtain w where w: "ww_push DrainJob s = ret (s\<lparr>j_work := w\<rparr>)" "ww_inv opts pick sent (s\<lparr>j_work := w, j_wakers := k\<rparr>)"
    using push_drain_inv [OF inv] by blast
  have "ww_wakeWriter (s\<lparr>j_wakers := k\<rparr>) = ret (s\<lparr>j_work := w, j_wakers := k\<rparr>)"
    using w(1) by (auto simp: ww_wakeWriter_def ww_push_def bind_eq_Some_conv dest: arg_cong [of _ _ j_work])
  with w(2) show ?thesis by blast
qed

lemma stop_change:
  assumes inv: "ww_inv opts pick sent s" and "j_stop s \<noteq> NotStopped" "x \<noteq> NotStopped" "signalled x = signalled (j_stop s)"
    and "x = Stopped \<Longrightarrow> j_doneCh s"
  shows "ww_inv opts pick sent (s\<lparr>j_stop := x\<rparr>)"
proof -
  have "ww_data pick sent (s\<lparr>j_stop := x\<rparr>)" using inv by (simp add: ww_inv_def ww_data_def ww_flight_def accounted_def queued_def)
  moreover have "ww_jobs (s\<lparr>j_stop := x\<rparr>)" using inv assms(4) by (simp add: ww_inv_def ww_jobs_def)
  moreover have "queued (s\<lparr>j_stop := x\<rparr>) = queued s" "ww_flush opts (s\<lparr>j_stop := x\<rparr>) = ww_flush opts s"
    by (simp_all add: queued_def ww_flush_def)
  then have "ww_control opts (s\<lparr>j_stop := x\<rparr>)" using inv assms(2,3,5) unfolding ww_inv_def ww_control_def by auto
  ultimately show ?thesis by (simp add: ww_inv_def)
qed

lemma abort_inv:
  assumes inv: "ww_inv opts pick sent s"
  shows "ww_inv opts pick sent (s\<lparr>j_abort := True, w_notified := x\<rparr>)"
proof -
  let ?s = "s\<lparr>j_abort := True, w_notified := x\<rparr>"
  have "ww_data pick sent ?s" using inv by (simp add: ww_inv_def ww_data_def ww_flight_def accounted_def queued_def)
  moreover have "ww_jobs ?s" using inv by (simp add: ww_inv_def ww_jobs_def)
  moreover have "queued ?s = queued s" by (simp add: queued_def)
  then have "ww_control opts ?s" using inv unfolding ww_inv_def ww_control_def by auto
  ultimately show ?thesis by (simp add: ww_inv_def)
qed

lemma ww_stop_inv:
  assumes inv: "ww_inv opts pick sent s"
  shows "j_stop s = NotStopped \<Longrightarrow> ww_inv opts pick sent (ww_stop_mark opts err s)"
    and "j_stop s = Flushing \<Longrightarrow> ww_inv opts pick sent (s\<lparr>j_stop := WaitDone\<rparr>)"
    and "j_stop s = Flushing \<Longrightarrow> ww_inv opts pick sent (ww_stop_timeout s)"
    and "j_stop s = WaitDone \<Longrightarrow> j_doneCh s \<Longrightarrow> ww_inv opts pick sent (s\<lparr>j_stop := Stopped\<rparr>)"
    and "j_stop s = Marked f \<Longrightarrow> \<exists>s'. ww_stop_signal f s = ret s' \<and> ww_inv opts pick sent s'"
proof -
  have jobs: "ww_jobs s" and ctl: "ww_control opts s" and data: "ww_data pick sent s" using inv by (simp_all add: ww_inv_def)
  show "ww_inv opts pick sent (s\<lparr>j_stop := WaitDone\<rparr>)" if "j_stop s = Flushing"
    by (rule stop_change [OF inv]) (simp_all add: that signalled_def)
  show "ww_inv opts pick sent (ww_stop_timeout s)" if "j_stop s = Flushing"
    using stop_change [OF abort_inv [OF inv, where x = "w_notified s @ [[ErrNetConnectionClosed]]"], where x = WaitDone] that
    by (simp add: ww_stop_timeout_def signalled_def)
  show "ww_inv opts pick sent (s\<lparr>j_stop := Stopped\<rparr>)" if "j_stop s = WaitDone" "j_doneCh s"
    by (rule stop_change [OF inv]) (simp_all add: that signalled_def)
  show "ww_inv opts pick sent (ww_stop_mark opts err s)" if n: "j_stop s = NotStopped"
  proof -
    have z: "count_list (wq_jobs (j_work s)) ShutdownJob = 0" "\<not> j_doneCh s" using ww_jobsD(4) [OF jobs] n by (auto simp: signalled_def split: if_splits)
    then have "\<not> in_shut (j_pc s)" using ww_jobsD(3) [OF jobs] by auto
    then have "j_pc s \<noteq> ShutPop False" "j_pc s \<noteq> ShutRest" by (auto simp: in_shut_def)
    moreover have "\<not> w_closing s" using ctl n by (simp add: ww_control_def)
    ultimately have "ww_control opts (ww_stop_mark opts err s)"
      using ctl z(2) unfolding ww_control_def by (auto simp: ww_stop_mark_def queued_def)
    then show ?thesis using data jobs n
      by (simp add: ww_inv_def ww_data_def ww_jobs_def ww_flight_def accounted_def queued_def ww_stop_mark_def signalled_def Let_def)
  qed
  show "\<exists>s'. ww_stop_signal f s = ret s' \<and> ww_inv opts pick sent s'" if m: "j_stop s = Marked f"
  proof -
    obtain w where w: "ww_push ShutdownJob s = ret (s\<lparr>j_work := w\<rparr>)" "wq_reachable 1 w" "wq_jobs w = wq_jobs (j_work s) @ [ShutdownJob]"
      by (rule push_spec [OF jobs])
    let ?s = "s\<lparr>j_work := w, j_stop := (if f then Flushing else WaitDone)\<rparr>"
    have z: "count_list (wq_jobs (j_work s)) ShutdownJob = 0" "\<not> j_doneCh s" using ww_jobsD(4) [OF jobs] m by (auto simp: signalled_def split: if_splits)
    have "ww_data pick sent ?s" using data by (simp add: ww_data_def ww_flight_def accounted_def queued_def)
    moreover have "ww_jobs ?s" using jobs w(2,3) z by (auto simp: ww_jobs_def Let_def hd_append signalled_def)
    moreover have "w_closing s" "queued ?s = queued s" "ww_flush opts ?s = ww_flush opts s"
      using ctl m by (simp_all add: ww_control_def queued_def ww_flush_def)
    then have "ww_control opts ?s" using ctl m z unfolding ww_control_def by auto
    ultimately show ?thesis using w(1) by (simp add: ww_stop_signal_def ww_inv_def)
  qed
qed

subsection \<open>The jobs keep the invariant\<close>

text \<open>What a step of a job may change.\<close>

lemma control_step:
  assumes ctl: "ww_control opts s"
    and same: "w_closing s' = w_closing s" "j_stop s' = j_stop s" "j_drainedCh s' = j_drainedCh s" "j_doneCh s' = j_doneCh s"
      "j_stopErr s' = j_stopErr s" "j_abort s' = j_abort s" "w_errors s \<le> w_errors s'"
    and q: "queued s = [] \<Longrightarrow> queued s' = []"
    and r: "w_released s' = w_released s \<or> w_errors s' > 0 \<or> j_abort s \<or> (w_closing s \<and> \<not> ww_flush opts s)"
    and p: "j_pc s' = ShutPop False \<Longrightarrow> w_errors s' > 0 \<or> j_abort s \<or> \<not> ww_flush opts s"
      "j_pc s' = ShutRest \<Longrightarrow> w_errors s' > 0 \<or> queued s' = []"
    and b: "j_doneCh s \<Longrightarrow> queued s = [] \<Longrightarrow> j_pc s = Begin \<Longrightarrow> j_pc s' = Begin"
    and w: "w_errors s' = 0 \<Longrightarrow> \<not> w_closing s \<Longrightarrow> queued s' \<noteq> [] \<Longrightarrow>
      j_wakers s' > 0 \<or> (wq_jobs (j_work s') \<noteq> [] \<and> (will_pop (j_pc s') \<or> tl (wq_jobs (j_work s')) \<noteq> []))"
  shows "ww_control opts s'"
proof -
  have fl: "ww_flush opts s' = ww_flush opts s" using same by (simp add: ww_flush_def)
  note C = ctl [unfolded ww_control_def]
  have c: "w_closing s \<longleftrightarrow> j_stop s \<noteq> NotStopped" "j_drainedCh s = j_doneCh s" "j_doneCh s \<longrightarrow> queued s = [] \<and> j_pc s = Begin"
    "j_stop s = Stopped \<longrightarrow> j_doneCh s"
    "w_released s \<noteq> [] \<longrightarrow> w_errors s > 0 \<or> j_abort s \<or> (w_closing s \<and> \<not> ww_flush opts s)"
    using C by - (elim conjE, assumption)+
  have "w_released s' \<noteq> [] \<longrightarrow> w_errors s' > 0 \<or> j_abort s \<or> (w_closing s \<and> \<not> ww_flush opts s)"
    using c(5) r same(7) by (metis gr0I le_zero_eq)
  moreover have "j_doneCh s \<longrightarrow> queued s' = [] \<and> j_pc s' = Begin" using c(3) q b by blast
  ultimately show ?thesis unfolding ww_control_def same fl using c(1,2,4) p w by blast
qed

lemma end_job:
  assumes "wq_reachable 1 (j_work s)" and "wq_jobs (j_work s) = k # r"
  obtains w where "ww_end s = ret (s\<lparr>j_work := w, j_pc := Begin\<rparr>)" "wq_reachable 1 w" "wq_jobs w = r"
proof -
  obtain w where "wq_do (j_work s) 0 = ret w" "wq_reachable 1 w" "wq_jobs w = r" by (rule jobs_do [OF assms])
  then show thesis by (intro that [of w]) (simp_all add: ww_end_def)
qed

lemma fail_batch_jsel [simp]:
  "j_work (fail_batch n err s) = j_work s" "j_pc (fail_batch n err s) = j_pc s" "j_abort (fail_batch n err s) = j_abort s"
  "j_stopErr (fail_batch n err s) = j_stopErr s" "j_drainedCh (fail_batch n err s) = j_drainedCh s"
  "j_doneCh (fail_batch n err s) = j_doneCh s" "j_wakers (fail_batch n err s) = j_wakers s" "j_stop (fail_batch n err s) = j_stop s"
  by (simp_all add: fail_batch_def drainRelease_def Let_def)

lemma drainRelease_jsel [simp]:
  "j_work (drainRelease n s) = j_work s" "j_pc (drainRelease n s) = j_pc s" "j_abort (drainRelease n s) = j_abort s"
  "j_stopErr (drainRelease n s) = j_stopErr s" "j_drainedCh (drainRelease n s) = j_drainedCh s"
  "j_doneCh (drainRelease n s) = j_doneCh s" "j_wakers (drainRelease n s) = j_wakers s" "j_stop (drainRelease n s) = j_stop s"
  by (simp_all add: drainRelease_def)

lemma drainRelease_wsel [simp]:
  "w_queue (drainRelease n s) = w_queue s" "w_conn (drainRelease n s) = w_conn s" "w_closing (drainRelease n s) = w_closing s"
  "w_accepted (drainRelease n s) = w_accepted s" "w_errors (drainRelease n s) = w_errors s" "queued (drainRelease n s) = queued s"
  "w_batch (drainRelease n s) = replicate n None @ drop n (w_batch s)"
  "w_released (drainRelease n s) = w_released s @ live (take n (w_batch s))"
  by (simp_all add: drainRelease_def queued_def)

text \<open>What \<open>ww_data\<close> and the account say about a state that differs in other fields.\<close>

lemma accounted_sel:
  "w_conn s' = w_conn s \<Longrightarrow> w_accepted s' = w_accepted s \<Longrightarrow> w_released s' = w_released s \<Longrightarrow> queued s' = queued s \<Longrightarrow>
   accounted sent fl s' = accounted sent fl s"
  by (simp add: accounted_def)

text \<open>Giving the batch up.\<close>

lemma accounted_released:
  assumes "accounted sent fl s" and "w_conn s' = w_conn s" "w_accepted s' = w_accepted s" "w_released s' = w_released s @ fl"
    "queued s' = queued s"
  shows "accounted sent [] s'"
  using assms accounted_drop_flight [OF assms(1)] by (simp add: accounted_def)

text \<open>A pop of a job: the batch, the rest of the queue and the account.\<close>

lemma ww_pop:
  assumes data: "ww_data pick sent s" and h: "held (j_pc s) = 0"
  obtains n b q where "sq_PopMany (w_queue s) (int (length (w_batch s))) (w_batch s) limit = ret (n, b, q)"
    "sq_inv pick q" "None \<notin> set (sq_contents q)" "length b = BatchPacketSize" "n \<le> BatchPacketSize" "sq_Len q = length (sq_contents q)"
    "accounted sent (live (take n b)) (s\<lparr>w_batch := b, w_queue := q\<rparr>)"
    "n = 0 \<longrightarrow> sq_contents q = [] \<and> queued s = []"
    "n \<noteq> 0 \<longrightarrow> length (sq_contents q) < length (sq_contents (w_queue s)) \<and> queued s \<noteq> []"
    "n = 0 \<longrightarrow> length (sq_contents q) = length (sq_contents (w_queue s))"
proof -
  note d = ww_dataD [OF data]
  have "w_batch s \<noteq> []" using d(3) by (auto simp: BatchPacketSize_def)
  from pop_spec [OF d(1,2) this, of limit] obtain n b q where
    p: "sq_PopMany (w_queue s) (int (length (w_batch s))) (w_batch s) limit = ret (n, b, q)"
      "sq_inv pick q" "length b = BatchPacketSize"
      "n \<le> BatchPacketSize" "n = 0 \<longleftrightarrow> sq_contents (w_queue s) = []" "take n b @ sq_contents q = sq_contents (w_queue s)"
      "None \<notin> set (sq_contents q)" "sq_Len q = length (sq_contents q)" using d(3) by auto
  have qd: "queued s = live (take n b) @ live (sq_contents q)" using p(6) by (simp add: queued_def flip: live_append)
  have e: "queued s = [] \<longleftrightarrow> sq_contents (w_queue s) = []"
    using d(2) live_eq_map [of "sq_contents (w_queue s)"] by (auto simp: queued_def)
  show thesis
  proof (rule that [OF p(1,2,7,3,4,8)])
    show "accounted sent (live (take n b)) (s\<lparr>w_batch := b, w_queue := q\<rparr>)"
      using d(5) h qd by (simp add: ww_flight_def accounted_def queued_def ac_simps)
    show "n = 0 \<longrightarrow> sq_contents q = [] \<and> queued s = []" using p(5,6) e by auto
    show "n \<noteq> 0 \<longrightarrow> length (sq_contents q) < length (sq_contents (w_queue s)) \<and> queued s \<noteq> []"
      using p(3,4,5,6) e by (metis length_append length_take less_add_same_cancel2 min_absorb2 neq0_conv)
    show "n = 0 \<longrightarrow> length (sq_contents q) = length (sq_contents (w_queue s))" using p(5,6) by auto
  qed
qed

text \<open>An upper bound on the steps until \<open>doneCh\<close> is closed, once \<open>shutdownJob\<close> has been pushed.\<close>

definition before_shutdown :: "'c wworker \<Rightarrow> nat" where
  "before_shutdown s = length (takeWhile (\<lambda>j. j \<noteq> ShutdownJob) (wq_jobs (j_work s)))"

primrec pc_left :: "worker_pc \<Rightarrow> nat" where
  "pc_left Begin = 5"
| "pc_left (DrainWrite n r c) = 4"
| "pc_left (DrainRetry n e k r c) = 3"
| "pc_left (ShutPop f) = 3"
| "pc_left (ShutWrite n) = 4"
| "pc_left (ShutRetry n e k) = 3"
| "pc_left ShutRest = 2"

definition ww_left :: "'c wworker \<Rightarrow> nat" where
  "ww_left s = (if j_doneCh s then 0
     else 2 * length (sq_contents (w_queue s)) + 3 * before_shutdown s + pc_left (j_pc s))"

text \<open>What a step of the worker establishes.\<close>

definition ww_good :: "WriteOptions \<Rightarrow> picker \<Rightarrow> ('c \<Rightarrow> bytebuffer list) \<Rightarrow> 'c wworker \<Rightarrow> 'c wworker go \<Rightarrow> bool" where
  "ww_good opts pick sent s r \<longleftrightarrow> (\<exists>s'. r = ret s' \<and> ww_inv opts pick sent s' \<and> j_stop s' = j_stop s \<and>
     (signalled (j_stop s) \<and> \<not> j_doneCh s \<longrightarrow> ww_left s' < ww_left s))"

lemma ww_goodI: "r = ret s' \<Longrightarrow> ww_data pick sent s' \<Longrightarrow> ww_jobs s' \<Longrightarrow> ww_control opts s' \<Longrightarrow> j_stop s' = j_stop s \<Longrightarrow>
   (signalled (j_stop s) \<Longrightarrow> \<not> j_doneCh s \<Longrightarrow> ww_left s' < ww_left s) \<Longrightarrow> ww_good opts pick sent s r"
  by (auto simp: ww_good_def ww_inv_def)

text \<open>
  The end of a \<open>drainJob\<close> from a state that differs from the last one in the batch, the queue, the
  connection and what a failure changes.
\<close>

lemma drain_end:
  assumes jobs: "ww_jobs s" and ctl: "ww_control opts s" and hd: "wq_jobs (j_work s) = DrainJob # r"
    and work: "wq_reachable 1 (j_work s1)" "wq_jobs (j_work s1) = DrainJob # r @ xs" "set xs \<subseteq> {DrainJob}"
    and s1: "w_closing s1 = w_closing s" "j_stop s1 = j_stop s" "j_drainedCh s1 = j_drainedCh s"
      "j_doneCh s1 = j_doneCh s" "j_stopErr s1 = j_stopErr s" "j_abort s1 = j_abort s" "j_wakers s1 = j_wakers s" "w_errors s \<le> w_errors s1"
    and d: "sq_inv pick (w_queue s1)" "None \<notin> set (sq_contents (w_queue s1))" "length (w_batch s1) = BatchPacketSize"
      "accounted sent [] s1"
    and q: "queued s = [] \<Longrightarrow> queued s1 = []" and rel: "w_released s1 = w_released s \<or> w_errors s1 > 0"
    and l: "length (sq_contents (w_queue s1)) \<le> length (sq_contents (w_queue s))"
    and w: "w_errors s1 = 0 \<Longrightarrow> \<not> w_closing s \<Longrightarrow> queued s1 \<noteq> [] \<Longrightarrow> j_wakers s > 0 \<or> r @ xs \<noteq> []"
  shows "ww_good opts pick sent s (ww_end s1)"
proof -
  obtain w where w': "ww_end s1 = ret (s1\<lparr>j_work := w, j_pc := Begin\<rparr>)" "wq_reachable 1 w" "wq_jobs w = r @ xs"
    by (rule end_job [OF work(1,2)])
  let ?s = "s1\<lparr>j_work := w, j_pc := Begin\<rparr>"
  have qd: "queued ?s = queued s1" by (simp add: queued_def)
  have xs: "count_list xs ShutdownJob = 0" "takeWhile (\<lambda>j. j \<noteq> ShutdownJob) xs = xs"
    using work(3) by (auto simp: count_list_0_iff takeWhile_eq_all_conv)
  note C = ww_jobsD(4) [OF jobs]
  show ?thesis
  proof (rule ww_goodI [OF w'(1)])
    show "ww_data pick sent ?s" using d accounted_sel [of ?s s1] qd by (simp add: ww_data_def ww_flight_def)
    show "ww_jobs ?s" using C w'(2,3) hd s1 xs(1) by (simp add: ww_jobs_def in_shut_def Let_def)
    show "ww_control opts ?s"
      by (rule control_step [OF ctl]) (use s1 q rel w w'(3) qd in auto)
    show "j_stop ?s = j_stop s" by (simp add: s1(2))
    show "ww_left ?s < ww_left s" if "\<not> j_doneCh s" "signalled (j_stop s)"
    proof -
      have "ShutdownJob \<in> set r" using C that hd by (auto simp: count_list_0_iff intro: ccontr)
      then have "takeWhile (\<lambda>j. j \<noteq> ShutdownJob) (r @ xs) = takeWhile (\<lambda>j. j \<noteq> ShutdownJob) r" by (simp add: takeWhile_append1)
      moreover have "pc_left (j_pc s) \<ge> 3"
        using ww_jobsD(3) [OF jobs] hd by (cases "j_pc s") (auto simp: in_shut_def)
      ultimately show ?thesis using l hd w'(3) s1(4) that by (simp add: ww_left_def before_shutdown_def)
    qed
  qed
qed

text \<open>The same without a push.\<close>

lemma drain_end_same:
  assumes jobs: "ww_jobs s" and ctl: "ww_control opts s" and hd: "wq_jobs (j_work s) = DrainJob # r" and work: "j_work s1 = j_work s"
    and s1: "w_closing s1 = w_closing s" "j_stop s1 = j_stop s" "j_drainedCh s1 = j_drainedCh s"
      "j_doneCh s1 = j_doneCh s" "j_stopErr s1 = j_stopErr s" "j_abort s1 = j_abort s" "j_wakers s1 = j_wakers s" "w_errors s \<le> w_errors s1"
    and d: "sq_inv pick (w_queue s1)" "None \<notin> set (sq_contents (w_queue s1))" "length (w_batch s1) = BatchPacketSize"
      "accounted sent [] s1"
    and q: "queued s = [] \<Longrightarrow> queued s1 = []" and rel: "w_released s1 = w_released s \<or> w_errors s1 > 0"
    and l: "length (sq_contents (w_queue s1)) \<le> length (sq_contents (w_queue s))"
    and w: "w_errors s1 = 0 \<Longrightarrow> \<not> w_closing s \<Longrightarrow> queued s1 \<noteq> [] \<Longrightarrow> j_wakers s > 0 \<or> r \<noteq> []"
  shows "ww_good opts pick sent s (ww_end s1)"
  by (rule drain_end [OF jobs ctl hd, where xs = "[]"])
    (use ww_jobsD(1) [OF jobs] hd work s1 d q rel l w in simp_all)

lemma drain_pop_inv:
  assumes inv: "ww_inv opts pick sent s" and pc: "j_pc s = Begin" and hd: "wq_jobs (j_work s) = DrainJob # r"
  shows "ww_good opts pick sent s (drain_pop opts s)"
proof -
  have data: "ww_data pick sent s" and jobs: "ww_jobs s" and ctl: "ww_control opts s" using inv by (simp_all add: ww_inv_def)
  have h: "held (j_pc s) = 0" using pc by simp
  obtain n b q where p: "sq_PopMany (w_queue s) (int (length (w_batch s))) (w_batch s) (wo_BatchWriteLimitBytes opts) = ret (n, b, q)"
    "sq_inv pick q" "None \<notin> set (sq_contents q)" "length b = BatchPacketSize" "n \<le> BatchPacketSize" "sq_Len q = length (sq_contents q)"
    and acc: "accounted sent (live (take n b)) (s\<lparr>w_batch := b, w_queue := q\<rparr>)"
    and e': "n = 0 \<longrightarrow> sq_contents q = [] \<and> queued s = []"
      "n \<noteq> 0 \<longrightarrow> length (sq_contents q) < length (sq_contents (w_queue s)) \<and> queued s \<noteq> []"
      "n = 0 \<longrightarrow> length (sq_contents q) = length (sq_contents (w_queue s))"
    by (rule ww_pop [OF data h, where limit = "wo_BatchWriteLimitBytes opts"])
  note e = e' [rule_format]
  let ?s = "s\<lparr>w_batch := b, w_queue := q\<rparr>"
  have qd: "queued ?s = live (sq_contents q)" by (simp add: queued_def)
  show ?thesis
  proof (cases "n = 0")
    case True
    have "ww_good opts pick sent s (ww_end ?s)"
      by (rule drain_end_same [OF jobs ctl hd]) (use p acc e True qd in simp_all)
    with True p(1) show ?thesis by (simp add: drain_pop_def Let_def)
  next
    case False
    let ?t = "?s\<lparr>j_pc := DrainWrite n (length (sq_contents q)) (w_closing s)\<rparr>"
    have qt: "queued (?s\<lparr>j_pc := x\<rparr>) = live (sq_contents q)" for x by (simp add: queued_def)
    show ?thesis
    proof (rule ww_goodI)
      show "drain_pop opts s = ret ?t" using False p(1,6) by (simp add: drain_pop_def Let_def)
      show "ww_data pick sent ?t" using p acc by (simp add: ww_data_def ww_flight_def accounted_def queued_def)
      show "ww_jobs ?t" using jobs hd pc by (simp add: ww_jobs_def in_shut_def Let_def)
      show "ww_control opts ?t"
        by (rule control_step [OF ctl]) (use e(2) [OF False] hd in \<open>auto simp: qt\<close>)
      show "j_stop ?t = j_stop s" by simp
      show "ww_left ?t < ww_left s" if "\<not> j_doneCh s"
        using e(2) [OF False] that pc by (simp add: ww_left_def before_shutdown_def)
    qed
  qed
qed

lemma shut_begin_inv:
  assumes inv: "ww_inv opts pick sent s" and pc: "j_pc s = Begin" and hd: "wq_jobs (j_work s) = ShutdownJob # r"
  shows "ww_good opts pick sent s (ret (s\<lparr>j_pc := ShutPop (ww_flush opts s)\<rparr>))"
proof -
  have data: "ww_data pick sent s" and jobs: "ww_jobs s" and ctl: "ww_control opts s" using inv by (simp_all add: ww_inv_def)
  let ?t = "s\<lparr>j_pc := ShutPop (ww_flush opts s)\<rparr>"
  show ?thesis
  proof (rule ww_goodI [OF refl])
    show "ww_data pick sent ?t" using data pc by (simp add: ww_data_def ww_flight_def accounted_def queued_def)
    show "ww_jobs ?t" using jobs hd by (simp add: ww_jobs_def in_shut_def Let_def)
    show "ww_control opts ?t" by (rule control_step [OF ctl]) (use hd shut_closing(2) [OF jobs ctl] in \<open>simp_all add: queued_def\<close>)
    show "j_stop ?t = j_stop s" by simp
    show "ww_left ?t < ww_left s" if "\<not> j_doneCh s" using that pc by (simp add: ww_left_def before_shutdown_def)
  qed
qed

lemma shut_pop_inv:
  assumes inv: "ww_inv opts pick sent s" and pc: "j_pc s = ShutPop flush"
  shows "ww_good opts pick sent s (shut_pop opts flush s)"
proof -
  have data: "ww_data pick sent s" and jobs: "ww_jobs s" and ctl: "ww_control opts s" using inv by (simp_all add: ww_inv_def)
  obtain r where hd: "wq_jobs (j_work s) = ShutdownJob # r" using ww_jobsD(3) [OF jobs] pc by (auto simp: in_shut_def)
  have closing: "w_closing s" "\<not> j_doneCh s" using shut_closing [OF jobs ctl] hd by simp_all
  have nofl: "flush \<or> w_errors s > 0 \<or> j_abort s \<or> \<not> ww_flush opts s" using ctl pc by (cases flush) (simp_all add: ww_control_def)
  have h: "held (j_pc s) = 0" using pc by simp
  obtain n b q where p: "sq_PopMany (w_queue s) (int (length (w_batch s))) (w_batch s) (wo_BatchWriteLimitBytes opts) = ret (n, b, q)"
    "sq_inv pick q" "None \<notin> set (sq_contents q)" "length b = BatchPacketSize" "n \<le> BatchPacketSize" "sq_Len q = length (sq_contents q)"
    and acc: "accounted sent (live (take n b)) (s\<lparr>w_batch := b, w_queue := q\<rparr>)"
    and e': "n = 0 \<longrightarrow> sq_contents q = [] \<and> queued s = []"
      "n \<noteq> 0 \<longrightarrow> length (sq_contents q) < length (sq_contents (w_queue s)) \<and> queued s \<noteq> []"
      "n = 0 \<longrightarrow> length (sq_contents q) = length (sq_contents (w_queue s))"
    by (rule ww_pop [OF data h, where limit = "wo_BatchWriteLimitBytes opts"])
  note e = e' [rule_format]
  let ?s = "s\<lparr>w_batch := b, w_queue := q\<rparr>"
  have J: "ww_jobs (?s\<lparr>j_pc := x\<rparr>)" if "in_shut x" for x using jobs hd that by (simp add: ww_jobs_def in_shut_def Let_def)
  have qd: "queued (?s\<lparr>j_pc := x\<rparr>) = live (sq_contents q)" for x by (simp add: queued_def)
  consider (empty) "n = 0" | (writes) "n \<noteq> 0" "flush" "\<not> j_abort s" | (drop) "n \<noteq> 0" "\<not> flush \<or> j_abort s" by blast
  then show ?thesis
  proof cases
    case empty
    show ?thesis
    proof (rule ww_goodI)
      show "shut_pop opts flush s = ret (?s\<lparr>j_pc := ShutRest\<rparr>)" using empty p(1) by (simp add: shut_pop_def Let_def)
      show "ww_data pick sent (?s\<lparr>j_pc := ShutRest\<rparr>)" using p acc empty by (simp add: ww_data_def ww_flight_def accounted_def queued_def)
      show "ww_jobs (?s\<lparr>j_pc := ShutRest\<rparr>)" by (rule J) (simp add: in_shut_def)
      show "ww_control opts (?s\<lparr>j_pc := ShutRest\<rparr>)"
        by (rule control_step [OF ctl]) (use e(1) [OF empty] closing in \<open>simp_all add: qd\<close>)
      show "j_stop (?s\<lparr>j_pc := ShutRest\<rparr>) = j_stop s" by simp
      show "ww_left (?s\<lparr>j_pc := ShutRest\<rparr>) < ww_left s"
        using e(3) [OF empty] closing pc by (simp add: ww_left_def before_shutdown_def)
    qed
  next
    case writes
    show ?thesis
    proof (rule ww_goodI)
      show "shut_pop opts flush s = ret (?s\<lparr>j_pc := ShutWrite n\<rparr>)" using writes p(1) by (simp add: shut_pop_def Let_def)
      show "ww_data pick sent (?s\<lparr>j_pc := ShutWrite n\<rparr>)" using p acc by (simp add: ww_data_def ww_flight_def accounted_def queued_def)
      show "ww_jobs (?s\<lparr>j_pc := ShutWrite n\<rparr>)" by (rule J) (simp add: in_shut_def)
      show "ww_control opts (?s\<lparr>j_pc := ShutWrite n\<rparr>)"
        by (rule control_step [OF ctl]) (use e(2) [OF writes(1)] closing in \<open>simp_all add: qd\<close>)
      show "j_stop (?s\<lparr>j_pc := ShutWrite n\<rparr>) = j_stop s" by simp
      show "ww_left (?s\<lparr>j_pc := ShutWrite n\<rparr>) < ww_left s"
        using e(2) [OF writes(1)] closing pc by (simp add: ww_left_def before_shutdown_def)
    qed
  next
    case drop
    let ?f = "if j_abort s then False else flush"
    let ?t = "(drainRelease n ?s)\<lparr>j_pc := ShutPop ?f\<rparr>"
    have qt: "queued ?t = live (sq_contents q)" by (simp add: queued_def)
    show ?thesis
    proof (rule ww_goodI)
      show "shut_pop opts flush s = ret ?t" using drop p(1) by (auto simp: shut_pop_def Let_def)
      have "accounted sent [] ?t" by (rule accounted_released [OF acc]) (simp_all add: queued_def)
      then show "ww_data pick sent ?t" using p by (simp add: ww_data_def ww_flight_def)
      show "ww_jobs ?t" using jobs hd by (simp add: ww_jobs_def in_shut_def Let_def)
      show "ww_control opts ?t"
        by (rule control_step [OF ctl]) (use e(2) [OF drop(1)] closing nofl drop(2) in \<open>auto simp: qt\<close>)
      show "j_stop ?t = j_stop s" by simp
      show "ww_left ?t < ww_left s"
        using e(2) [OF drop(1)] closing pc by (simp add: ww_left_def before_shutdown_def)
    qed
  qed
qed

lemma shut_rest_inv:
  assumes inv: "ww_inv opts pick sent s" and pc: "j_pc s = ShutRest"
  shows "ww_good opts pick sent s (shut_rest s)"
proof -
  have data: "ww_data pick sent s" and jobs: "ww_jobs s" and ctl: "ww_control opts s" using inv by (simp_all add: ww_inv_def)
  obtain r where hd: "wq_jobs (j_work s) = ShutdownJob # r" using ww_jobsD(3) [OF jobs] pc by (auto simp: in_shut_def)
  note C = shut_closing [OF jobs ctl]
  have closing: "w_closing s" "\<not> j_doneCh s" "signalled (j_stop s)" "count_list r ShutdownJob = 0" using C hd by simp_all
  have drained: "\<not> j_drainedCh s" using ctl closing(2) by (simp add: ww_control_def)
  have errs: "w_errors s > 0 \<or> queued s = []" using ctl pc by (simp add: ww_control_def)
  have h: "held (j_pc s) = 0" using pc by simp
  obtain n b q where p: "sq_PopMany (w_queue s) (int (length (w_batch s))) (w_batch s) 0 = ret (n, b, q)"
    "sq_inv pick q" "None \<notin> set (sq_contents q)" "length b = BatchPacketSize" "n \<le> BatchPacketSize" "sq_Len q = length (sq_contents q)"
    and acc: "accounted sent (live (take n b)) (s\<lparr>w_batch := b, w_queue := q\<rparr>)"
    and e': "n = 0 \<longrightarrow> sq_contents q = [] \<and> queued s = []"
      "n \<noteq> 0 \<longrightarrow> length (sq_contents q) < length (sq_contents (w_queue s)) \<and> queued s \<noteq> []"
      "n = 0 \<longrightarrow> length (sq_contents q) = length (sq_contents (w_queue s))"
    by (rule ww_pop [OF data h, where limit = 0])
  note e = e' [rule_format]
  let ?s = "s\<lparr>w_batch := b, w_queue := q\<rparr>"
  show ?thesis
  proof (cases "n = 0")
    case True
    let ?d = "?s\<lparr>j_drainedCh := True, j_doneCh := True\<rparr>"
    have "wq_reachable 1 (j_work ?d)" "wq_jobs (j_work ?d) = ShutdownJob # r" using ww_jobsD(1) [OF jobs] hd by simp_all
    then obtain w where w: "ww_end ?d = ret (?d\<lparr>j_work := w, j_pc := Begin\<rparr>)" "wq_reachable 1 w" "wq_jobs w = r" by (rule end_job)
    let ?t = "?d\<lparr>j_work := w, j_pc := Begin\<rparr>"
    show ?thesis
    proof (rule ww_goodI)
      show "shut_rest s = ret ?t" using True p(1) w(1) closing(2) drained by (simp add: shut_rest_def Let_def close_ch_def)
      show "ww_data pick sent ?t" using p acc True by (simp add: ww_data_def ww_flight_def accounted_def queued_def)
      show "ww_jobs ?t" using w(2,3) closing by (simp add: ww_jobs_def in_shut_def Let_def)
      show "ww_control opts ?t" using ctl e(1) [OF True] closing(1) by (simp add: ww_control_def queued_def ww_flush_def)
      show "j_stop ?t = j_stop s" by simp
      show "ww_left ?t < ww_left s" using closing(2) pc by (simp add: ww_left_def)
    qed
  next
    case False
    let ?t = "drainRelease n ?s"
    have qt: "queued ?t = live (sq_contents q)" by (simp add: queued_def)
    show ?thesis
    proof (rule ww_goodI)
      show "shut_rest s = ret ?t" using False p(1) by (simp add: shut_rest_def Let_def)
      have "accounted sent [] ?t" by (rule accounted_released [OF acc]) (simp_all add: queued_def)
      then show "ww_data pick sent ?t" using p pc by (simp add: ww_data_def ww_flight_def)
      show "ww_jobs ?t" using jobs hd pc by (simp add: ww_jobs_def in_shut_def Let_def)
      show "ww_control opts ?t"
        by (rule control_step [OF ctl]) (use e(2) [OF False] closing errs pc in \<open>auto simp: qt\<close>)
      show "j_stop ?t = j_stop s" by simp
      show "ww_left ?t < ww_left s" using e(2) [OF False] closing pc by (simp add: ww_left_def before_shutdown_def)
    qed
  qed
qed

text \<open>A batch that is given up, in a job that drains and in the shutdown.\<close>

lemma drain_fail:
  assumes inv: "ww_inv opts pick sent s" and pc: "in_drain (j_pc s)" "held (j_pc s) = n"
    and s': "s' = s\<lparr>w_batch := b, w_conn := c\<rparr>" "length b = BatchPacketSize" "accounted sent (live (take n b)) s'"
  shows "ww_good opts pick sent s (ww_end (fail_batch n err s'))"
proof -
  have data: "ww_data pick sent s" and jobs: "ww_jobs s" and ctl: "ww_control opts s" using inv by (simp_all add: ww_inv_def)
  obtain r where hd: "wq_jobs (j_work s) = DrainJob # r" using ww_jobsD(2) [OF jobs pc(1)] by blast
  note d = ww_dataD [OF data]
  have "accounted sent [] (fail_batch n err s')" by (rule accounted_released [OF s'(3)]) (simp_all add: s'(1))
  moreover have "queued s' = queued s" by (simp add: s'(1) queued_def)
  ultimately show ?thesis
    by (intro drain_end_same [OF jobs ctl hd]) (use d pc(2) s'(2) in \<open>simp_all add: s'(1)\<close>)
qed

lemma shut_fail:
  assumes inv: "ww_inv opts pick sent s" and pc: "j_pc s = ShutWrite n \<or> j_pc s = ShutRetry n e k"
    and s': "s' = s\<lparr>w_batch := b, w_conn := c\<rparr>" "length b = BatchPacketSize" "accounted sent (live (take n b)) s'"
  shows "ww_good opts pick sent s (ret ((fail_batch n err s')\<lparr>j_pc := ShutRest\<rparr>))"
proof -
  let ?t = "(fail_batch n err s')\<lparr>j_pc := ShutRest\<rparr>"
  have data: "ww_data pick sent s" and jobs: "ww_jobs s" and ctl: "ww_control opts s" using inv by (simp_all add: ww_inv_def)
  note d = ww_dataD [OF data]
  have qd: "queued ?t = queued s" by (simp add: s'(1) queued_def)
  have n: "n \<le> BatchPacketSize" and sh: "in_shut (j_pc s)" using d(4) pc by (auto simp: in_shut_def)
  show ?thesis
  proof (rule ww_goodI [OF refl])
    have "accounted sent [] ?t" by (rule accounted_released [OF s'(3)]) (simp_all add: s'(1) queued_def)
    then show "ww_data pick sent ?t" using d n s'(2) by (simp add: ww_data_def ww_flight_def s'(1))
    show "ww_jobs ?t" using jobs sh by (simp add: ww_jobs_def Let_def s'(1) in_shut_def)
    have "j_pc s \<noteq> Begin" using pc by auto
    then show "ww_control opts ?t" by (intro control_step [OF ctl]) (simp_all add: qd, simp_all add: s'(1))
    show "j_stop ?t = j_stop s" by (simp add: s'(1))
    show "ww_left ?t < ww_left s" if "\<not> j_doneCh s" using that pc by (auto simp: ww_left_def before_shutdown_def s'(1))
  qed
qed

text \<open>A batch that has been written.\<close>

lemma drain_more_inv:
  assumes inv: "ww_inv opts pick sent s" and pc: "j_pc s = DrainWrite n remain closing \<or> j_pc s = DrainRetry n e k remain closing"
    and s': "s' = s\<lparr>w_batch := b, w_conn := c\<rparr>" "length b = BatchPacketSize" "accounted sent [] s'"
  shows "ww_good opts pick sent s (drain_more remain closing s')"
proof -
  have data: "ww_data pick sent s" and jobs: "ww_jobs s" and ctl: "ww_control opts s" using inv by (simp_all add: ww_inv_def)
  have "in_drain (j_pc s)" using pc by auto
  then obtain r where hd: "wq_jobs (j_work s) = DrainJob # r" using ww_jobsD(2) [OF jobs] by blast
  note d = ww_dataD [OF data]
  have qd: "queued s' = queued s" by (simp add: s'(1) queued_def)
  show ?thesis
  proof (cases "remain > 0 \<and> \<not> closing")
    case True
    have "wq_reachable 1 (j_work s')" using ww_jobsD(1) [OF jobs] by (simp add: s'(1))
    then obtain w where w: "wq_Push (j_work s') DrainJob = ret w" "wq_reachable 1 w" "wq_jobs w = wq_jobs (j_work s') @ [DrainJob]"
      by (rule jobs_Push)
    let ?t = "s'\<lparr>j_work := w\<rparr>"
    have q: "queued ?t = queued s" using qd by (simp add: queued_def)
    have "accounted sent [] ?t" using s'(3) accounted_sel [of ?t s'] q qd by simp
    then have "ww_good opts pick sent s (ww_end ?t)"
      by (intro drain_end [OF jobs ctl hd, where xs = "[DrainJob]"]) (use w hd d s' q in \<open>simp_all add: s'(1)\<close>)
    with True w(1) show ?thesis by (simp add: drain_more_def ww_push_def)
  next
    case False
    have wk: "w_errors s = 0 \<and> \<not> w_closing s \<and> queued s \<noteq> [] \<longrightarrow>
        j_wakers s > 0 \<or> (wq_jobs (j_work s) \<noteq> [] \<and> (will_pop (j_pc s) \<or> tl (wq_jobs (j_work s)) \<noteq> []))"
      using ctl unfolding ww_control_def by (elim conjE)
    have "\<not> will_pop (j_pc s)" using False pc by auto
    with wk hd have "w_errors s = 0 \<Longrightarrow> \<not> w_closing s \<Longrightarrow> queued s \<noteq> [] \<Longrightarrow> j_wakers s > 0 \<or> r \<noteq> []" by auto
    then have "ww_good opts pick sent s (ww_end s')"
      by (intro drain_end_same [OF jobs ctl hd]) (use d s' qd in \<open>simp_all add: s'(1)\<close>)
    with False show ?thesis by (auto simp: drain_more_def)
  qed
qed

lemma shut_more_inv:
  assumes inv: "ww_inv opts pick sent s" and pc: "j_pc s = ShutWrite n"
    and s': "s' = s\<lparr>w_batch := b, w_conn := c\<rparr>" "length b = BatchPacketSize" "accounted sent [] s'"
  shows "ww_good opts pick sent s (ret (s'\<lparr>j_pc := ShutPop True\<rparr>))"
proof -
  let ?t = "s'\<lparr>j_pc := ShutPop True\<rparr>"
  have data: "ww_data pick sent s" and jobs: "ww_jobs s" and ctl: "ww_control opts s" using inv by (simp_all add: ww_inv_def)
  note d = ww_dataD [OF data]
  have sh: "in_shut (j_pc s)" using pc by (simp add: in_shut_def)
  have closing: "w_closing s" using ww_jobsD(3) [OF jobs sh] by (intro shut_closing(1) [OF jobs ctl]) auto
  have qd: "queued ?t = queued s" by (simp add: s'(1) queued_def)
  show ?thesis
  proof (rule ww_goodI [OF refl])
    have "accounted sent [] ?t" using s'(3) accounted_sel [of ?t s'] by (simp add: queued_def)
    then show "ww_data pick sent ?t" using d s'(2) by (simp add: ww_data_def ww_flight_def s'(1))
    show "ww_jobs ?t" using jobs sh by (simp add: ww_jobs_def Let_def s'(1) in_shut_def)
    show "ww_control opts ?t" by (rule control_step [OF ctl]) (simp_all add: qd closing pc, simp_all add: s'(1) closing)
    show "j_stop ?t = j_stop s" by (simp add: s'(1))
    show "ww_left ?t < ww_left s" if "\<not> j_doneCh s" using that pc by (auto simp: ww_left_def before_shutdown_def s'(1))
  qed
qed

text \<open>A failed attempt after which another one follows.\<close>

lemma again_inv:
  assumes inv: "ww_inv opts pick sent s" and pc: "held (j_pc s) = n" "held x = n" "will_pop x = will_pop (j_pc s)"
      "in_drain (j_pc s) \<and> in_drain x \<or> in_shut (j_pc s) \<and> in_shut x \<and> x \<noteq> ShutPop False \<and> x \<noteq> ShutRest"
    and l: "signalled (j_stop s) \<Longrightarrow> \<not> j_doneCh s \<Longrightarrow> pc_left x < pc_left (j_pc s)"
    and s': "s' = s\<lparr>w_batch := b, w_conn := c\<rparr>" "length b = BatchPacketSize" "accounted sent (live (take n b)) s'"
  shows "ww_good opts pick sent s (ret (s'\<lparr>j_pc := x\<rparr>))"
proof -
  let ?t = "s'\<lparr>j_pc := x\<rparr>"
  have data: "ww_data pick sent s" and jobs: "ww_jobs s" and ctl: "ww_control opts s" using inv by (simp_all add: ww_inv_def)
  note d = ww_dataD [OF data]
  have qd: "queued ?t = queued s" by (simp add: s'(1) queued_def)
  have wk: "w_errors s = 0 \<and> \<not> w_closing s \<and> queued s \<noteq> [] \<longrightarrow>
      j_wakers s > 0 \<or> (wq_jobs (j_work s) \<noteq> [] \<and> (will_pop (j_pc s) \<or> tl (wq_jobs (j_work s)) \<noteq> []))"
    using ctl unfolding ww_control_def by (elim conjE)
  have x: "x \<noteq> ShutPop False" "x \<noteq> ShutRest" "j_pc s \<noteq> Begin" using pc(4) by (auto simp: in_shut_def)
  show ?thesis
  proof (rule ww_goodI [OF refl])
    have "accounted sent (ww_flight ?t) ?t" using s'(3) accounted_sel [of ?t s'] pc(2) by (simp add: queued_def ww_flight_def s'(1))
    then show "ww_data pick sent ?t" using d s'(2) pc by (simp add: ww_data_def s'(1))
    show "ww_jobs ?t" using jobs pc(4) by (auto simp: ww_jobs_def Let_def s'(1) in_shut_def)
    show "ww_control opts ?t"
      by (rule control_step [OF ctl]) (use wk pc(3) x in \<open>simp_all add: qd\<close>, simp_all add: s'(1))
    show "j_stop ?t = j_stop s" by (simp add: s'(1))
    show "ww_left ?t < ww_left s" if "signalled (j_stop s)" "\<not> j_doneCh s"
      using l [OF that] that by (simp add: ww_left_def before_shutdown_def s'(1))
  qed
qed

context write_func
begin

lemma ww_call:
  assumes data: "ww_data pick sent s" and n: "held (j_pc s) = n"
    and b1: "length b1 = BatchPacketSize" "live (take n b1) = live (take n (w_batch s))"
    and m: "m \<le> n" "live (take (n - m) (drop m b1)) = []"
    and c: "call_writeFn wfn m (s\<lparr>w_batch := b1\<rparr>) = (err, s')"
  shows "\<exists>b c. s' = s\<lparr>w_batch := b, w_conn := c\<rparr> \<and> length b = BatchPacketSize \<and> accounted sent (live (take n b)) s' \<and>
    (err = None \<longrightarrow> live (take n b) = [])"
proof -
  note d = ww_dataD [OF data]
  let ?s = "s\<lparr>w_batch := b1\<rparr>"
  have acc1: "accounted sent (live (take n (w_batch ?s))) ?s"
    using d(5) n b1(2) accounted_sel [of ?s s] by (simp add: ww_flight_def queued_def)
  have n1: "n \<le> length (w_batch ?s)" "live (take (n - m) (drop m (w_batch ?s))) = []" using d(4) n b1(1) m by simp_all
  note ca = call_accounted [OF acc1 n1(1) m(1) n1(2) c]
  obtain b c where s': "s' = s\<lparr>w_batch := b, w_conn := c\<rparr>" "length b = BatchPacketSize" using ca(3) b1(1) by auto
  with ca(1,2) show ?thesis by (intro exI [of _ b] exI [of _ c]) simp
qed

lemma ww_retry_spec:
  assumes data: "ww_data pick sent s" and n: "held (j_pc s) = n" and r: "ww_retryWriteFn opts wfn n k s = (res, s')"
  shows "\<exists>b c. s' = s\<lparr>w_batch := b, w_conn := c\<rparr> \<and> length b = BatchPacketSize \<and> accounted sent (live (take n b)) s' \<and>
    (res = Some True \<longrightarrow> live (take n b) = []) \<and> (w_closing s \<longrightarrow> res = Some False)"
proof -
  let ?l = "live (take n (w_batch s))"
  note d = ww_dataD [OF data]
  define b1 where "b1 = map Some ?l @ replicate (n - length ?l) None @ drop n (w_batch s)"
  have le: "length ?l \<le> n" using length_live [of "take n (w_batch s)"] by simp
  have cb: "compactBatch n (w_batch s) = (length ?l, b1)" using compactBatch_spec d(3,4) n by (simp add: b1_def)
  have b1: "length b1 = BatchPacketSize" "live (take n b1) = ?l" "live (take (n - length ?l) (drop (length ?l) b1)) = []"
    using d(3,4) n le by (simp_all add: b1_def)
  have acc: "accounted sent ?l s" using d(5) n by (simp add: ww_flight_def)
  have same: "s = s\<lparr>w_batch := w_batch s, w_conn := w_conn s\<rparr>" by simp
  show ?thesis
  proof (cases "w_closing s \<or> j_abort s")
    case True
    then have "res = Some False" "s' = s" using r by (auto simp: ww_retryWriteFn_def)
    with same d(3) acc show ?thesis by (intro exI [of _ "w_batch s"] exI [of _ "w_conn s"]) simp
  next
    case False
    show ?thesis
    proof (cases "length ?l = 0")
      case True
      then have "res = Some True" "s' = s\<lparr>w_batch := b1, w_conn := w_conn s\<rparr>" using r False cb by (auto simp: ww_retryWriteFn_def)
      moreover have "accounted sent [] (s\<lparr>w_batch := b1, w_conn := w_conn s\<rparr>)"
        using acc True accounted_sel [of "s\<lparr>w_batch := b1, w_conn := w_conn s\<rparr>" s] by (simp add: queued_def)
      ultimately show ?thesis using b1(1,2) True False by (intro exI [of _ b1] exI [of _ "w_conn s"]) simp
    next
      case live: False
      obtain e s1 where c: "call_writeFn wfn (length ?l) (s\<lparr>w_batch := b1\<rparr>) = (e, s1)" by fastforce
      have "s' = s1" "res = Some True \<longrightarrow> e = None"
        using r False cb live c by (auto simp: ww_retryWriteFn_def split: option.splits if_splits)
      with ww_call [OF data n b1(1,2) le b1(3) c] False show ?thesis by auto
    qed
  qed
qed

lemma drain_write_inv:
  assumes inv: "ww_inv opts pick sent s" and pc: "j_pc s = DrainWrite n remain closing"
  shows "ww_good opts pick sent s (drain_write opts wfn n remain closing s)"
proof -
  have data: "ww_data pick sent s" using inv by (simp add: ww_inv_def)
  have n: "held (j_pc s) = n" using pc by simp
  obtain err s1 where c: "call_writeFn wfn n s = (err, s1)" by fastforce
  then have c': "call_writeFn wfn n (s\<lparr>w_batch := w_batch s\<rparr>) = (err, s1)" by simp
  obtain b c2 where s1: "s1 = s\<lparr>w_batch := b, w_conn := c2\<rparr>" "length b = BatchPacketSize" "accounted sent (live (take n b)) s1"
      "err = None \<longrightarrow> live (take n b) = []"
    using ww_call [OF data n ww_dataD(3) [OF data] refl order_refl _ c'] by auto
  show ?thesis
  proof (cases err)
    case None
    with drain_more_inv [OF inv disjI1 [OF pc] s1(1,2)] s1(3,4) c show ?thesis by (simp add: drain_write_def)
  next
    case (Some e)
    have f: "ww_good opts pick sent s (ww_end (fail_batch n e s1))" using drain_fail [OF inv _ n s1(1-3)] pc by simp
    have "ww_good opts pick sent s (ret (s1\<lparr>j_pc := DrainRetry n e 1 remain closing\<rparr>))"
      by (rule again_inv [OF inv n _ _ _ _ s1(1-3)]) (simp_all add: pc)
    with f Some c show ?thesis by (simp add: drain_write_def)
  qed
qed

lemma drain_retry_inv:
  assumes inv: "ww_inv opts pick sent s" and pc: "j_pc s = DrainRetry n err k remain closing"
  shows "ww_good opts pick sent s (drain_retry opts wfn n err k remain closing s)"
proof -
  have data: "ww_data pick sent s" and jobs: "ww_jobs s" and ctl: "ww_control opts s" using inv by (simp_all add: ww_inv_def)
  have n: "held (j_pc s) = n" using pc by simp
  obtain res s1 where c: "ww_retryWriteFn opts wfn n k s = (res, s1)" by fastforce
  obtain b c2 where s1: "s1 = s\<lparr>w_batch := b, w_conn := c2\<rparr>" "length b = BatchPacketSize" "accounted sent (live (take n b)) s1"
      "res = Some True \<longrightarrow> live (take n b) = []" "w_closing s \<longrightarrow> res = Some False"
    using ww_retry_spec [OF data n c] by blast
  consider "res = Some True" | "res = Some False" | "res = None" by (cases res) auto
  then show ?thesis
  proof cases
    case 1
    with drain_more_inv [OF inv disjI2 [OF pc] s1(1,2)] s1(3,4) c show ?thesis by (simp add: drain_retry_def)
  next
    case 2
    have "ww_good opts pick sent s (ww_end (fail_batch n err s1))" using drain_fail [OF inv _ n s1(1-3)] pc by simp
    with 2 c show ?thesis by (simp add: drain_retry_def)
  next
    case 3
    then have "\<not> w_closing s" using s1(5) by auto
    then have ns: "\<not> signalled (j_stop s)" using ctl by (auto simp: ww_control_def signalled_def)
    have "ww_good opts pick sent s (ret (s1\<lparr>j_pc := DrainRetry n err (k + 1) remain closing\<rparr>))"
      by (rule again_inv [OF inv n _ _ _ _ s1(1-3)]) (use ns in \<open>simp_all add: pc\<close>)
    with 3 c show ?thesis by (simp add: drain_retry_def)
  qed
qed

lemma shut_write_inv:
  assumes inv: "ww_inv opts pick sent s" and pc: "j_pc s = ShutWrite n"
  shows "ww_good opts pick sent s (shut_write opts wfn n s)"
proof -
  have data: "ww_data pick sent s" using inv by (simp add: ww_inv_def)
  have n: "held (j_pc s) = n" using pc by simp
  obtain err s1 where c: "call_writeFn wfn n s = (err, s1)" by fastforce
  then have c': "call_writeFn wfn n (s\<lparr>w_batch := w_batch s\<rparr>) = (err, s1)" by simp
  obtain b c2 where s1: "s1 = s\<lparr>w_batch := b, w_conn := c2\<rparr>" "length b = BatchPacketSize" "accounted sent (live (take n b)) s1"
      "err = None \<longrightarrow> live (take n b) = []"
    using ww_call [OF data n ww_dataD(3) [OF data] refl order_refl _ c'] by auto
  show ?thesis
  proof (cases err)
    case None
    with shut_more_inv [OF inv pc s1(1,2)] s1(3,4) c show ?thesis by (simp add: shut_write_def)
  next
    case (Some e)
    have f: "ww_good opts pick sent s (ret ((fail_batch n e s1)\<lparr>j_pc := ShutRest\<rparr>))" by (rule shut_fail [OF inv disjI1 [OF pc] s1(1-3)])
    have "ww_good opts pick sent s (ret (s1\<lparr>j_pc := ShutRetry n e 1\<rparr>))"
      by (rule again_inv [OF inv n _ _ _ _ s1(1-3)]) (simp_all add: pc in_shut_def)
    with f Some c show ?thesis by (simp add: shut_write_def)
  qed
qed

lemma shut_retry_inv:
  assumes inv: "ww_inv opts pick sent s" and pc: "j_pc s = ShutRetry n err k"
  shows "ww_good opts pick sent s (shut_retry opts wfn n err k s)"
proof -
  have data: "ww_data pick sent s" and jobs: "ww_jobs s" and ctl: "ww_control opts s" using inv by (simp_all add: ww_inv_def)
  have n: "held (j_pc s) = n" using pc by simp
  have sh: "in_shut (j_pc s)" using pc by (simp add: in_shut_def)
  have closing: "w_closing s" using ww_jobsD(3) [OF jobs sh] by (intro shut_closing(1) [OF jobs ctl]) auto
  obtain res s1 where c: "ww_retryWriteFn opts wfn n k s = (res, s1)" by fastforce
  obtain b c2 where s1: "s1 = s\<lparr>w_batch := b, w_conn := c2\<rparr>" "length b = BatchPacketSize" "accounted sent (live (take n b)) s1"
      "w_closing s \<longrightarrow> res = Some False"
    using ww_retry_spec [OF data n c] by blast
  have "ww_good opts pick sent s (ret ((fail_batch n err s1)\<lparr>j_pc := ShutRest\<rparr>))" by (rule shut_fail [OF inv disjI2 [OF pc] s1(1-3)])
  with c closing s1(4) show ?thesis by (simp add: shut_retry_def)
qed

lemma ww_worker_inv:
  assumes inv: "ww_inv opts pick sent s"
  shows "ww_good opts pick sent s (ww_worker opts wfn s) \<or> (wq_jobs (j_work s) = [] \<and> ww_worker opts wfn s = ret s)"
proof (cases "wq_jobs (j_work s)")
  case Nil
  have "ww_jobs s" using inv by (simp add: ww_inv_def)
  from jobs_running(3) [OF ww_jobsD(1) [OF this]] Nil show ?thesis by (simp add: ww_worker_def)
next
  case (Cons j r)
  have "ww_jobs s" using inv by (simp add: ww_inv_def)
  from jobs_running(3) [OF ww_jobsD(1) [OF this]] Cons have run: "wr_running (j_work s) = [j]" by simp
  have "ww_good opts pick sent s (ww_worker opts wfn s)"
  proof (cases "j_pc s")
    case Begin
    then show ?thesis
      using drain_pop_inv [OF inv Begin, of r] shut_begin_inv [OF inv Begin, of r] run Cons
      by (cases j) (simp_all add: ww_worker_def)
  next
    case (DrainWrite n r c)
    with drain_write_inv [OF inv DrainWrite] run show ?thesis by (simp add: ww_worker_def)
  next
    case (DrainRetry n e k r c)
    with drain_retry_inv [OF inv DrainRetry] run show ?thesis by (simp add: ww_worker_def)
  next
    case (ShutPop flush)
    with shut_pop_inv [OF inv ShutPop] run show ?thesis by (simp add: ww_worker_def)
  next
    case (ShutWrite n)
    with shut_write_inv [OF inv ShutWrite] run show ?thesis by (simp add: ww_worker_def)
  next
    case (ShutRetry n e k)
    with shut_retry_inv [OF inv ShutRetry] run show ?thesis by (simp add: ww_worker_def)
  next
    case ShutRest
    with shut_rest_inv [OF inv ShutRest] run show ?thesis by (simp add: ww_worker_def)
  qed
  then show ?thesis ..
qed

lemma ww_step_inv:
  assumes "ww_step opts wfn pick s r" and inv: "ww_inv opts pick sent s"
  shows "\<exists>s'. r = ret s' \<and> ww_inv opts pick sent s'"
  using assms(1)
proof cases
  case (send_drop b)
  with ww_sendDrop_inv [OF inv, of b] show ?thesis by auto
next
  case (send_retry i b)
  with ww_sendRetry_inv [OF inv, of i b] show ?thesis by auto
next
  case wake
  with ww_wake_inv [OF inv] show ?thesis by blast
next
  case work
  with ww_worker_inv [OF inv] inv show ?thesis by (auto simp: ww_good_def)
next
  case (signal flush)
  with ww_stop_inv(5) [OF inv] show ?thesis by blast
qed (use ww_stop_inv(1-4) [OF inv] in blast)+

lemma ww_reachable_inv:
  assumes "ww_reachable opts wfn pick s0 s" and "ww_inv opts pick sent s0"
  shows "ww_inv opts pick sent s"
  using assms(1)
proof (induction rule: ww_reachable.induct)
  case (step s s')
  then show ?case using ww_step_inv [OF step.hyps(2) step.IH] by auto
qed (rule assms(2))

end

end
