(* ===== verification/WorkerWriteProps.thy ===== *)
theory WorkerWriteProps
  imports WorkerWrite WriteProps
begin

section \<open>Properties of the write processor on a worker queue\<close>

text \<open>
  For any callback that keeps the contract of \<open>WriteFunc\<close>, and in every interleaving of the senders,
  the worker and \<open>Stop\<close>, over the modelled worker queue.
\<close>

text \<open>
  C28: like its sibling the processor loses and reorders nothing in any reachable state: no step panics,
  no channel is closed twice; every accepted buffer is exactly one of sent, released, in the batch
  of the running job, or queued; those sent, in the batch and queued are in the order of acceptance; and
  buffers are released only after a write error, after a timeout of \<open>Stop\<close> or by a stop that does not flush.
\<close>

theorem worker_write_conserves:
  assumes "write_func wfn sent" and "sent c = []" and "valid_picker pick"
    and "distinct (nh_pool h)" and "\<forall>a \<in> set (nh_pool h). a < nh_fresh h"
    and "NewWorkerWriteProcessor opts h c = (opts', s0)" and "ww_reachable opts' wfn pick s0 s" and "ww_step opts' wfn pick s r"
  shows "r \<noteq> panic \<and>
    subseq (sent (w_conn s) @ ww_flight s @ queued s) (w_accepted s) \<and>
    mset (w_accepted s) = mset (sent (w_conn s)) + mset (w_released s) + mset (ww_flight s) + mset (queued s) \<and>
    (w_released s = [] \<or> w_errors s > 0 \<or> j_abort s \<or> (w_closing s \<and> \<not> ww_flush opts' s))"
proof -
  note inv = write_func.ww_reachable_inv [OF assms(1,7) NewWorkerWriteProcessor_inv [where sent = sent and c = c, OF assms(3-5,2,6)]]
  have a: "accounted sent (ww_flight s) s" using inv by (simp add: ww_inv_def ww_data_def)
  have "ww_control opts' s" using inv by (simp add: ww_inv_def)
  then have "w_released s \<noteq> [] \<longrightarrow> w_errors s > 0 \<or> j_abort s \<or> (w_closing s \<and> \<not> ww_flush opts' s)"
    unfolding ww_control_def by (elim conjE)
  moreover obtain s' where "r = ret s'" using write_func.ww_step_inv [OF assms(1,8) inv] by blast
  ultimately show ?thesis using a unfolding accounted_def by auto
qed

subsection \<open>Progress\<close>

text \<open>The worker on its own, until \<open>doneCh\<close> is closed.\<close>

fun ww_run :: "WriteOptions \<Rightarrow> 'c write_fn \<Rightarrow> nat \<Rightarrow> 'c wworker \<Rightarrow> 'c wworker go" where
  "ww_run opts wfn 0 s = ret s"
| "ww_run opts wfn (Suc n) s = (if j_doneCh s then ret s else do { s \<leftarrow> ww_worker opts wfn s; ww_run opts wfn n s })"

context write_func
begin

lemma ww_worker_good:
  assumes inv: "ww_inv opts pick sent s" and "signalled (j_stop s)" "\<not> j_doneCh s"
  shows "\<exists>s'. ww_worker opts wfn s = ret s' \<and> ww_inv opts pick sent s' \<and> j_stop s' = j_stop s \<and> ww_left s' < ww_left s"
proof -
  have "ww_jobs s" using inv by (simp add: ww_inv_def)
  then have "wq_jobs (j_work s) \<noteq> []" using ww_jobsD(4) assms(2,3) by fastforce
  with ww_worker_inv [OF inv] assms(2,3) show ?thesis by (auto simp: ww_good_def)
qed

lemma ww_run_ends:
  assumes "ww_inv opts pick sent s" and "signalled (j_stop s)" and "ww_left s \<le> n"
  shows "\<exists>s'. ww_run opts wfn n s = ret s' \<and> ww_inv opts pick sent s' \<and> j_doneCh s'"
  using assms
proof (induction n arbitrary: s)
  case 0
  have "pc_left (j_pc s) > 0" by (cases "j_pc s") auto
  with 0 have "j_doneCh s" by (auto simp: ww_left_def split: if_splits)
  with 0 show ?case by simp
next
  case (Suc n)
  show ?case
  proof (cases "j_doneCh s")
    case False
    from ww_worker_good [OF Suc.prems(1,2) False] obtain s' where
      s': "ww_worker opts wfn s = ret s'" "ww_inv opts pick sent s'" "j_stop s' = j_stop s" "ww_left s' < ww_left s" by blast
    with Suc.IH [OF s'(2)] Suc.prems(2,3) False show ?thesis by simp
  qed (use Suc.prems in simp)
qed

lemma ww_run_reachable:
  assumes "ww_reachable opts wfn pick s0 s" and "ww_run opts wfn n s = ret s'"
  shows "ww_reachable opts wfn pick s0 s'"
  using assms
proof (induction n arbitrary: s)
  case (Suc n)
  show ?case
  proof (cases "j_doneCh s")
    case False
    from Suc.prems(2) False obtain s1 where s1: "ww_worker opts wfn s = ret s1" "ww_run opts wfn n s1 = ret s'"
      by (auto simp: bind_eq_Some_conv)
    have "ww_step opts wfn pick s (ret s1)" using ww_step.work [of opts wfn pick s] s1(1) by simp
    with Suc.IH [OF ww_reachable.step [OF Suc.prems(1)] s1(2)] show ?thesis by blast
  qed (use Suc.prems in simp)
qed simp

end

text \<open>
  C29: no job is missing while nothing has failed, and \<open>Stop\<close> ends: in every reachable state before a stop
  and without a write error in which buffers are queued, a sender is about to push a job, or the running
  job will pop or push one that does, or one is waiting behind it; and once \<open>Stop\<close> has pushed its
  \<open>shutdownJob\<close>, the worker closes \<open>doneCh\<close> within a bounded number of its own steps, without a panic.
\<close>

theorem worker_write_progress:
  assumes "write_func wfn sent" and "sent c = []" and "valid_picker pick"
    and "distinct (nh_pool h)" and "\<forall>a \<in> set (nh_pool h). a < nh_fresh h"
    and "NewWorkerWriteProcessor opts h c = (opts', s0)" and "ww_reachable opts' wfn pick s0 s"
  shows "(queued s = [] \<or> w_errors s > 0 \<or> w_closing s \<or> j_wakers s > 0 \<or>
      (wr_running (j_work s) \<noteq> [] \<and> (will_pop (j_pc s) \<or> wq_waiting (j_work s) \<noteq> []))) \<and>
    (signalled (j_stop s) \<longrightarrow> ww_left s \<le> n \<longrightarrow> (\<exists>s'. ww_run opts' wfn n s = ret s' \<and> j_doneCh s'))"
proof -
  note inv = write_func.ww_reachable_inv [OF assms(1,7) NewWorkerWriteProcessor_inv [where sent = sent and c = c, OF assms(3-5,2,6)]]
  have jobs: "ww_jobs s" and ctl: "ww_control opts' s" using inv by (simp_all add: ww_inv_def)
  have "w_errors s = 0 \<and> \<not> w_closing s \<and> queued s \<noteq> [] \<longrightarrow>
      j_wakers s > 0 \<or> (wq_jobs (j_work s) \<noteq> [] \<and> (will_pop (j_pc s) \<or> tl (wq_jobs (j_work s)) \<noteq> []))"
    using ctl unfolding ww_control_def by (elim conjE)
  moreover have "wr_running (j_work s) \<noteq> [] \<longleftrightarrow> wq_jobs (j_work s) \<noteq> []" "wq_waiting (j_work s) = map Some (tl (wq_jobs (j_work s)))"
    using jobs_running(1,3) [OF ww_jobsD(1) [OF jobs]] by (cases "wq_jobs (j_work s)"; simp)+
  moreover have "\<exists>s'. ww_run opts' wfn n s = ret s' \<and> j_doneCh s'" if "signalled (j_stop s)" "ww_left s \<le> n"
    using write_func.ww_run_ends [OF assms(1) inv that] by blast
  ultimately show ?thesis by auto
qed

text \<open>
  A stop that flushes sends everything: when it has returned, or \<open>doneCh\<close> is closed, without a write
  error and without a timeout, the buffers sent are exactly the accepted ones, in order, and none is
  accepted any more.
\<close>

theorem worker_stop_delivers:
  assumes "write_func wfn sent" and "sent c = []" and "valid_picker pick"
    and "distinct (nh_pool h)" and "\<forall>a \<in> set (nh_pool h). a < nh_fresh h"
    and "NewWorkerWriteProcessor opts h c = (opts', s0)" and "ww_reachable opts' wfn pick s0 s"
    and "j_stop s = Stopped \<or> j_doneCh s" and "w_errors s = 0" and "\<not> j_abort s" and "ww_flush opts' s"
  shows "sent (w_conn s) = w_accepted s \<and> w_closing s \<and>
    (\<exists>s'. ww_sendDrop pick b s = ret (Some ErrNetConnectionClosed, s') \<and> w_accepted s' = w_accepted s)"
proof -
  note inv = write_func.ww_reachable_inv [OF assms(1,7) NewWorkerWriteProcessor_inv [where sent = sent and c = c, OF assms(3-5,2,6)]]
  have jobs: "ww_jobs s" and ctl: "ww_control opts' s" and data: "ww_data pick sent s" using inv by (simp_all add: ww_inv_def)
  note C = ctl [unfolded ww_control_def]
  have c: "w_closing s \<longleftrightarrow> j_stop s \<noteq> NotStopped" "j_doneCh s \<longrightarrow> queued s = [] \<and> j_pc s = Begin" "j_stop s = Stopped \<longrightarrow> j_doneCh s"
    "w_released s \<noteq> [] \<longrightarrow> w_errors s > 0 \<or> j_abort s \<or> (w_closing s \<and> \<not> ww_flush opts' s)"
    using C by - (elim conjE, assumption)+
  have fin: "j_doneCh s" using assms(8) c(3) by blast
  have closing: "w_closing s" using ww_jobsD(4) [OF jobs] fin c(1) by (auto simp: signalled_def split: if_splits)
  have z: "queued s = []" "w_released s = []" "ww_flight s = []" using c(2,4) fin assms(9-11) by (auto simp: ww_flight_def)
  have "subseq (sent (w_conn s)) (w_accepted s)" "mset (w_accepted s) = mset (sent (w_conn s))"
    using ww_dataD(5) [OF data] z by (simp_all add: accounted_def)
  then have "sent (w_conn s) = w_accepted s" by (metis size_mset subseq_same_length)
  with closing show ?thesis by (simp add: ww_sendDrop_def sendBufferDrop_def refuse_def)
qed

subsection \<open>After a write error\<close>

text \<open>Buffers are queued, and there is no job and nobody about to push one.\<close>

definition ww_stalled :: "'c wworker \<Rightarrow> bool" where
  "ww_stalled s \<longleftrightarrow> wr_running (j_work s) = [] \<and> j_wakers s = 0 \<and> queued s \<noteq> []"

text \<open>Since \<open>s0\<close> nothing was written or released, and what was accepted is queued behind the rest.\<close>

definition ww_kept :: "'c wworker \<Rightarrow> 'c wworker \<Rightarrow> bool" where
  "ww_kept s0 s \<longleftrightarrow> ww_stalled s \<and> w_conn s = w_conn s0 \<and> w_released s = w_released s0 \<and>
     (\<exists>late. w_accepted s = w_accepted s0 @ late \<and> queued s = queued s0 @ late)"

lemma pushes_kept:
  assumes "pushes pick b ok wake s s1" and "ww_kept s0 s"
  shows "j_stop s1 = j_stop s \<and> ww_kept s0 (s1\<lparr>j_wakers := j_wakers s1 + (if wake then 1 else 0)\<rparr>)"
proof -
  obtain q r where s1: "s1 = s\<lparr>w_queue := q, w_accepted := w_accepted s @ (if ok then [b] else []), w_refused := r\<rparr>"
    and q: "sq_contents q = sq_contents (w_queue s) @ (if ok then [Some b] else [])" "wake \<longleftrightarrow> ok \<and> sq_contents (w_queue s) = []"
    using assms(1) unfolding pushes_def by blast
  have st: "ww_stalled s" and k: "w_conn s = w_conn s0" "w_released s = w_released s0"
    using assms(2) by (simp_all add: ww_kept_def)
  obtain late where l: "w_accepted s = w_accepted s0 @ late" "queued s = queued s0 @ late"
    using assms(2) by (auto simp: ww_kept_def)
  have "sq_contents (w_queue s) \<noteq> []" using st by (auto simp: ww_stalled_def queued_def)
  then have w: "\<not> wake" using q(2) by simp
  have "queued s1 = queued s0 @ late @ (if ok then [b] else [])"
    using l(2) q(1) by (simp add: queued_def s1)
  moreover have "w_accepted s1 = w_accepted s0 @ late @ (if ok then [b] else [])" using l(1) by (simp add: s1)
  ultimately have "\<exists>late. w_accepted s1 = w_accepted s0 @ late \<and> queued s1 = queued s0 @ late" by blast
  moreover have "ww_stalled s1" using st q(1) by (auto simp: ww_stalled_def queued_def s1)
  ultimately show ?thesis using k w by (simp add: ww_kept_def s1)
qed

lemma pushes_stop: "pushes pick b ok wake s s1 \<Longrightarrow> j_stop s1 = j_stop s"
  by (auto simp: pushes_def)

context write_func
begin

lemma stalled_step:
  assumes inv: "ww_inv opts pick sent s" and step: "ww_step opts wfn pick s (ret s')"
    and st: "j_stop s \<noteq> NotStopped \<or> ww_kept s0 s"
  shows "j_stop s' \<noteq> NotStopped \<or> ww_kept s0 s'"
proof -
  have q: "sq_inv pick (w_queue s)" and jobs: "ww_jobs s" using inv by (simp_all add: ww_inv_def ww_data_def)
  have sends: "j_stop s' \<noteq> NotStopped \<or> ww_kept s0 s'"
    if "pushes pick b ok wake s s1" "s' = s1\<lparr>j_wakers := j_wakers s1 + (if wake then 1 else 0)\<rparr>" for b ok wake s1
    using pushes_kept [OF that(1)] pushes_stop [OF that(1)] that(2) st by auto
  from step show ?thesis
  proof cases
    case (send_drop b)
    from sendBufferDrop_spec [OF q, of b] obtain err ok wake s1 where
      "sendBufferDrop pick b s = ret (err, wake, s1)" "pushes pick b ok wake s s1" by blast
    with send_drop sends show ?thesis by (auto simp: ww_sendDrop_def)
  next
    case (send_retry i b)
    from sendBufferRetry_spec [OF q, of opts i b] obtain err ok wake s1 where
      "sendBufferRetry opts pick i b s = ret (err, wake, s1)" "pushes pick b ok wake s s1" by blast
    with send_retry sends show ?thesis by (auto simp: ww_sendRetry_def)
  next
    case wake
    then show ?thesis
      using st by (cases "wq_Push (j_work s) DrainJob") (auto simp: ww_kept_def ww_stalled_def ww_wakeWriter_def ww_push_def)
  next
    case work
    have "j_stop s' = j_stop s" using ww_worker_inv [OF inv] work by (auto simp: ww_good_def)
    moreover have "s' = s" if "ww_kept s0 s" using work that by (simp add: ww_kept_def ww_stalled_def ww_worker_def)
    ultimately show ?thesis using st by auto
  next
    case (signal flush)
    then show ?thesis by (cases "ww_push ShutdownJob s") (auto simp: ww_stop_signal_def)
  qed (use st in \<open>auto simp: ww_stop_mark_def ww_stop_timeout_def\<close>)
qed

lemma stalled_reachable:
  assumes "ww_reachable opts wfn pick s s'" and "ww_inv opts pick sent s" and "ww_stalled s"
  shows "j_stop s' \<noteq> NotStopped \<or> ww_kept s s'"
  using assms(1)
proof (induction rule: ww_reachable.induct)
  case start
  then show ?case using assms(3) by (simp add: ww_kept_def)
next
  case (step t t')
  from stalled_step [OF ww_reachable_inv [OF step.hyps(1) assms(2)] step.hyps(2) step.IH] show ?case .
qed

end

text \<open>A send of either kind while the queue is not empty: no job is pushed.\<close>

lemma stalled_send:
  assumes inv: "ww_inv opts pick sent s" and "ww_stalled s" and "j_stop s = NotStopped"
  shows "\<exists>s1 r s2. ww_sendDrop pick b s = ret (None, s1) \<and> ww_sendRetry opts pick k b s = ret (r, s2) \<and>
    j_wakers s1 = 0 \<and> j_wakers s2 = 0 \<and>
    (if queued s1 = queued s
     then sq_IsFull (w_queue s) \<and> w_refused s1 = w_refused s @ [b] \<and> w_accepted s1 = w_accepted s \<and>
       queued s2 = queued s \<and> r \<noteq> Return None
     else queued s1 = queued s @ [b] \<and> w_accepted s1 = w_accepted s @ [b] \<and>
       queued s2 = queued s @ [b] \<and> w_accepted s2 = w_accepted s @ [b] \<and> r = Return None)"
proof -
  have q: "sq_inv pick (w_queue s)" using inv by (simp add: ww_inv_def ww_data_def)
  have "ww_control opts s" using inv by (simp add: ww_inv_def)
  then have c: "\<not> w_closing s" using assms(3) by (simp add: ww_control_def)
  obtain ok q' where p: "sq_Push pick (w_queue s) (Some b) = ret (ok, q')"
    "if ok then sq_contents q' = sq_contents (w_queue s) @ [Some b] else sq_contents q' = sq_contents (w_queue s) \<and> sq_IsFull (w_queue s)"
    using sq.Push [OF q, of "Some b"] by blast
  have ne: "\<not> sq_IsEmpty (w_queue s)"
    using sq.IsEmpty [OF q] assms(2) by (auto simp: ww_stalled_def queued_def)
  have w: "j_wakers s = 0" using assms(2) by (simp add: ww_stalled_def)
  show ?thesis
  proof (cases ok)
    case True
    then show ?thesis
      using p c ne w
      by (simp add: ww_sendDrop_def ww_sendRetry_def sendBufferDrop_def sendBufferRetry_def Let_def accept_def queued_def)
  next
    case False
    then show ?thesis
      using p c ne w
      by (simp add: ww_sendDrop_def ww_sendRetry_def sendBufferDrop_def sendBufferRetry_def Let_def refuse_def queued_def)
  qed
qed

text \<open>
  C30: after a batch failed with an error that is not retried, while other buffers were queued and no
  other job was waiting, nothing is written any more until \<open>Stop\<close>, in any interleaving: the connection stays as it was, no job
  runs or waits, nothing is released, and every buffer accepted since is in the queue, in order, behind those that were.
  The processor goes on accepting: a send of either kind in such a state pushes no job, because only a sender that finds
  the queue empty does; it queues the buffer without an error, or, where the queue is full (a strict one), refuses it.
\<close>

theorem worker_write_stalls:
  assumes "write_func wfn sent" and "sent c = []" and "valid_picker pick"
    and "distinct (nh_pool h)" and "\<forall>a \<in> set (nh_pool h). a < nh_fresh h"
    and "NewWorkerWriteProcessor opts h c = (opts', s0)" and "ww_reachable opts' wfn pick s0 s"
    and "j_pc s = DrainWrite n remain closing" and "wq_waiting (j_work s) = []" and "j_wakers s = 0" and "queued s \<noteq> []"
    and "wfn (w_conn s) (take n (w_batch s)) = (Some e, b, c')" and "\<not> isWriteFnRetryable opts' e"
    and "ww_worker opts' wfn s = ret s'" and "ww_reachable opts' wfn pick s' s''" and "j_stop s'' = NotStopped"
  shows "w_conn s'' = c' \<and> wr_running (j_work s'') = [] \<and> wq_waiting (j_work s'') = [] \<and> j_wakers s'' = 0 \<and>
    w_released s'' = w_released s' \<and>
    (\<exists>late. w_accepted s'' = w_accepted s @ late \<and> queued s'' = queued s @ late) \<and>
    (\<exists>s1 r s2. ww_sendDrop pick x s'' = ret (None, s1) \<and> ww_sendRetry opts' pick k x s'' = ret (r, s2) \<and>
      j_wakers s1 = 0 \<and> j_wakers s2 = 0 \<and>
      (if queued s1 = queued s''
       then sq_IsFull (w_queue s'') \<and> w_refused s1 = w_refused s'' @ [x] \<and> w_accepted s1 = w_accepted s'' \<and>
         queued s2 = queued s'' \<and> r \<noteq> Return None
       else queued s1 = queued s'' @ [x] \<and> w_accepted s1 = w_accepted s'' @ [x] \<and>
         queued s2 = queued s'' @ [x] \<and> w_accepted s2 = w_accepted s'' @ [x] \<and> r = Return None))"
proof -
  note inv = write_func.ww_reachable_inv [OF assms(1,7) NewWorkerWriteProcessor_inv [where sent = sent and c = c, OF assms(3-5,2,6)]]
  have jobs: "ww_jobs s" using inv by (simp add: ww_inv_def)
  obtain r where hd: "wq_jobs (j_work s) = DrainJob # r" using ww_jobsD(2) [OF jobs] assms(8) by auto
  have run: "wr_running (j_work s) = [DrainJob]" and "r = []"
    using jobs_running(1,3) [OF ww_jobsD(1) [OF jobs]] hd assms(9) by auto
  let ?s = "fail_batch n e (s\<lparr>w_batch := b @ drop n (w_batch s), w_conn := c'\<rparr>)"
  have "wq_reachable 1 (j_work ?s)" "wq_jobs (j_work ?s) = [DrainJob]" using ww_jobsD(1) [OF jobs] hd \<open>r = []\<close> by simp_all
  then obtain w where w: "ww_end ?s = ret (?s\<lparr>j_work := w, j_pc := Begin\<rparr>)" "wq_reachable 1 w" "wq_jobs w = []" by (rule end_job)
  have s': "s' = ?s\<lparr>j_work := w, j_pc := Begin\<rparr>"
    using assms(8,12-14) run w(1) by (simp add: ww_worker_def drain_write_def call_writeFn_def)
  moreover have "wr_running w = []" using jobs_running(3) [OF w(2)] w(3) by simp
  ultimately have st: "ww_stalled s'" "w_conn s' = c'" "w_accepted s' = w_accepted s" "queued s' = queued s"
    using assms(10,11) by (simp_all add: ww_stalled_def queued_def)
  have inv': "ww_inv opts' pick sent s'"
    using write_func.ww_step_inv [OF assms(1) ww_step.work inv] assms(14) by auto
  have k: "ww_kept s' s''" using write_func.stalled_reachable [OF assms(1,15) inv' st(1)] assms(16) by blast
  have inv'': "ww_inv opts' pick sent s''" by (rule write_func.ww_reachable_inv [OF assms(1,15) inv'])
  have s'': "ww_stalled s''" using k by (simp add: ww_kept_def)
  have "wq_waiting (j_work s'') = []"
  proof -
    have "ww_jobs s''" using inv'' by (simp add: ww_inv_def)
    note j = jobs_running(1,3) [OF ww_jobsD(1) [OF this]]
    have "wq_jobs (j_work s'') = []" using j(2) s'' by (auto simp: ww_stalled_def split: list.splits)
    with j(1) show ?thesis by simp
  qed
  with k st s'' stalled_send [OF inv'' s'' assms(16), of x k] show ?thesis
    by (simp add: ww_kept_def ww_stalled_def)
qed

subsection \<open>Runs\<close>

text \<open>A callback that sends everything and one for a closed connection; both keep the contract.\<close>

definition all_fn :: "bytebuffer list write_fn" where
  "all_fn c b = (None, map (\<lambda>x. None) b, c @ live b)"

definition closed_fn :: "bytebuffer list write_fn" where
  "closed_fn c b = (Some [NetErrClosed], b, c)"

lemma live_nones: "live (map (\<lambda>x. None) b) = []"
  by (induction b) auto

lemma all_fn_ok: "write_func all_fn (\<lambda>c. c)"
  by unfold_locales (auto simp: all_fn_def live_nones)

lemma closed_fn_ok: "write_func closed_fn (\<lambda>c. c)"
  by unfold_locales (auto simp: closed_fn_def)

abbreviation (input) "job_opts0 \<equiv> DefaultWriteOptions\<lparr>wo_SendQueueStrict := True, wo_SendQueueSize := 4, wo_BatchWriteLimitBytes := 512\<rparr>"
abbreviation (input) "job_opts \<equiv> CheckWriteOptions job_opts0"

definition job_start :: "bytebuffer list wworker" where
  "job_start = snd (NewWorkerWriteProcessor job_opts0 empty_nodes [])"

lemma job_New: "NewWorkerWriteProcessor job_opts0 empty_nodes [] = (job_opts, job_start)"
  by (simp add: job_start_def NewWorkerWriteProcessor_def Let_def)

text \<open>Steps of a run: a buffer is sent, the woken sender pushes its job, the worker takes a step, \<open>Stop\<close>.\<close>

datatype job_act = Send bytebuffer | Wake | Work | Mark | Signal

fun job_do :: "bytebuffer list write_fn \<Rightarrow> bytebuffer list wworker \<Rightarrow> job_act \<Rightarrow> bytebuffer list wworker go" where
  "job_do wfn s (Send b) = map_option snd (ww_sendDrop lifo b s)"
| "job_do wfn s Wake = (if j_wakers s > 0 then ww_wakeWriter (s\<lparr>j_wakers := j_wakers s - 1\<rparr>) else panic)"
| "job_do wfn s Work = ww_worker job_opts wfn s"
| "job_do wfn s Mark = (if j_stop s = NotStopped then ret (ww_stop_mark job_opts None s) else panic)"
| "job_do wfn s Signal = (case j_stop s of Marked f \<Rightarrow> ww_stop_signal f s | _ \<Rightarrow> panic)"

primrec job_run :: "bytebuffer list write_fn \<Rightarrow> job_act list \<Rightarrow> bytebuffer list wworker \<Rightarrow> bytebuffer list wworker go" where
  "job_run wfn [] s = ret s"
| "job_run wfn (a # as) s = do { s \<leftarrow> job_do wfn s a; job_run wfn as s }"

lemma job_do_step: "job_do wfn s a = ret s' \<Longrightarrow> ww_step job_opts wfn lifo s (ret s')"
proof (cases a)
  case (Send b)
  then show "job_do wfn s a = ret s' \<Longrightarrow> ?thesis" using ww_step.send_drop [of job_opts wfn lifo s b] by (metis job_do.simps(1))
next
  case Wake
  then show "job_do wfn s a = ret s' \<Longrightarrow> ?thesis" using ww_step.wake [of s job_opts wfn lifo] by (simp split: if_splits)
next
  case Work
  then show "job_do wfn s a = ret s' \<Longrightarrow> ?thesis" using ww_step.work [of job_opts wfn lifo s] by simp
next
  case Mark
  then show "job_do wfn s a = ret s' \<Longrightarrow> ?thesis" using ww_step.mark [of s job_opts wfn lifo None] by (simp split: if_splits)
next
  case Signal
  then show "job_do wfn s a = ret s' \<Longrightarrow> ?thesis"
    using ww_step.signal [of s _ job_opts wfn lifo] by (auto split: stop_pc.splits)
qed

lemma job_run_reachable: "job_run wfn as s = ret s' \<Longrightarrow> ww_reachable job_opts wfn lifo s s'"
proof -
  have "ww_reachable job_opts wfn lifo s0 s'" if "ww_reachable job_opts wfn lifo s0 s" "job_run wfn as s = ret s'" for s0
    using that
    by (induction as arbitrary: s) (auto simp: bind_eq_Some_conv intro: ww_reachable.step dest: job_do_step)
  then show "job_run wfn as s = ret s' \<Longrightarrow> ?thesis" using ww_reachable.start by blast
qed

definition job_check :: "(bytebuffer list wworker \<Rightarrow> bool) \<Rightarrow> bytebuffer list wworker go \<Rightarrow> bool" where
  "job_check P r = (case r of None \<Rightarrow> False | Some s \<Rightarrow> P s)"

lemma job_checkE:
  assumes "job_check P (job_run wfn as s)"
  obtains s' where "job_run wfn as s = ret s'" "P s'" "ww_reachable job_opts wfn lifo s s'"
  using assms job_run_reachable by (auto simp: job_check_def split: option.splits)

text \<open>Two buffers are sent and the first job has popped the first one.\<close>

lemma job_writing:
  "job_check (\<lambda>s. j_pc s = DrainWrite 1 1 False \<and> wq_jobs (j_work s) = [DrainJob] \<and> j_wakers s = 0 \<and> queued s = [[2]] \<and>
     j_stop s = NotStopped \<and> w_conn s = []) (job_run closed_fn [Send (replicate 512 0), Send [2], Wake, Work] job_start)"
  by code_simp

text \<open>A buffer is sent and \<open>Stop(nil)\<close> has pushed its job.\<close>

lemma job_stopping:
  "job_check (\<lambda>s. j_pc s = Begin \<and> signalled (j_stop s) \<and> ww_left s \<le> 12 \<and> w_errors s = 0 \<and> \<not> j_abort s \<and> ww_flush job_opts s \<and>
     w_accepted s = [[1]]) (job_run all_fn [Send [1], Mark, Signal] job_start)"
  by code_simp

text \<open>The worker with a callback that never fails.\<close>

definition smooth :: "'c wworker \<Rightarrow> 'c wworker \<Rightarrow> bool" where
  "smooth s s' \<longleftrightarrow> w_errors s' = w_errors s \<and> j_abort s' = j_abort s \<and> j_stopErr s' = j_stopErr s \<and> w_accepted s' = w_accepted s \<and>
     (case j_pc s' of DrainRetry n e k r c \<Rightarrow> False | ShutRetry n e k \<Rightarrow> False | _ \<Rightarrow> True)"

lemma ww_end_smooth: "ww_end s = ret s' \<Longrightarrow> smooth s s'"
  by (auto simp: ww_end_def smooth_def bind_eq_Some_conv)

lemma all_fn_call: "call_writeFn all_fn n s = (err, s') \<Longrightarrow> err = None \<and> (\<exists>b c. s' = s\<lparr>w_batch := b, w_conn := c\<rparr>)"
  by (auto simp: call_writeFn_def all_fn_def)

lemma smooth_upd [simp]:
  "smooth (s\<lparr>w_batch := b, w_conn := c\<rparr>) t = smooth s t" "smooth (s\<lparr>w_batch := b, w_queue := q\<rparr>) t = smooth s t"
  "smooth (s\<lparr>j_work := w\<rparr>) t = smooth s t" "smooth (s\<lparr>j_drainedCh := d, j_doneCh := e\<rparr>) t = smooth s t"
  by (simp_all add: smooth_def)

lemma sendDrop_stop:
  assumes "sq_inv pick (w_queue s)" and "ww_sendDrop pick b s = ret (e, s')"
  shows "j_stop s' = j_stop s"
proof -
  from sendBufferDrop_spec [OF assms(1), of b] obtain err ok wake s1 where
    "sendBufferDrop pick b s = ret (err, wake, s1)" "pushes pick b ok wake s s1" by blast
  with assms(2) pushes_stop [OF this(2)] show ?thesis by (auto simp: ww_sendDrop_def)
qed

lemma smooth_pc: "smooth s s \<Longrightarrow> (case x of DrainRetry n e k r c \<Rightarrow> False | ShutRetry n e k \<Rightarrow> False | _ \<Rightarrow> True) \<Longrightarrow> smooth s (s\<lparr>j_pc := x\<rparr>)"
  by (simp add: smooth_def)

lemma drain_pop_smooth:
  assumes "drain_pop opts s = ret s'" and "smooth s s"
  shows "smooth s s'"
proof (cases "sq_PopMany (w_queue s) (int (length (w_batch s))) (w_batch s) (wo_BatchWriteLimitBytes opts)")
  case (Some p)
  obtain n b q where p: "p = (n, b, q)" by (cases p)
  show ?thesis
  proof (cases "n = 0")
    case True
    then have "ww_end (s\<lparr>w_batch := b, w_queue := q\<rparr>) = ret s'" using assms(1) Some p by (simp add: drain_pop_def Let_def)
    from ww_end_smooth [OF this] show ?thesis by simp
  next
    case False
    then have "s' = s\<lparr>w_batch := b, w_queue := q, j_pc := DrainWrite n (sq_Len q) (w_closing s)\<rparr>"
      using assms(1) Some p by (simp add: drain_pop_def Let_def)
    then show ?thesis by (simp add: smooth_def)
  qed
qed (use assms(1) in \<open>simp add: drain_pop_def\<close>)

lemma shut_pop_smooth:
  assumes "shut_pop opts f s = ret s'" and "smooth s s"
  shows "smooth s s'"
proof (cases "sq_PopMany (w_queue s) (int (length (w_batch s))) (w_batch s) (wo_BatchWriteLimitBytes opts)")
  case (Some p)
  obtain n b q where p: "p = (n, b, q)" by (cases p)
  have "s' = s\<lparr>w_batch := b, w_queue := q, j_pc := ShutRest\<rparr> \<or> s' = s\<lparr>w_batch := b, w_queue := q, j_pc := ShutWrite n\<rparr> \<or>
    (\<exists>f. s' = (drainRelease n (s\<lparr>w_batch := b, w_queue := q\<rparr>))\<lparr>j_pc := ShutPop f\<rparr>)"
    using assms(1) Some p by (auto simp: shut_pop_def Let_def split: if_split_asm)
  with assms(2) show ?thesis by (elim disjE exE) (simp_all add: smooth_def)
qed (use assms(1) in \<open>simp add: shut_pop_def\<close>)

lemma shut_rest_smooth:
  assumes "shut_rest s = ret s'" and "smooth s s"
  shows "smooth s s'"
proof (cases "sq_PopMany (w_queue s) (int (length (w_batch s))) (w_batch s) 0")
  case (Some p)
  obtain n b q where p: "p = (n, b, q)" by (cases p)
  show ?thesis
  proof (cases "n = 0")
    case True
    then obtain d e where "ww_end (s\<lparr>w_batch := b, w_queue := q, j_drainedCh := d, j_doneCh := e\<rparr>) = ret s'"
      using assms(1) Some p by (auto simp: shut_rest_def Let_def close_ch_def split: if_split_asm)
    from ww_end_smooth [OF this] show ?thesis by (simp add: smooth_def)
  next
    case False
    then have "s' = drainRelease n (s\<lparr>w_batch := b, w_queue := q\<rparr>)" using assms(1) Some p by (simp add: shut_rest_def Let_def)
    with assms(2) show ?thesis by (simp add: smooth_def)
  qed
qed (use assms(1) in \<open>simp add: shut_rest_def\<close>)

lemma drain_more_smooth: "drain_more r c s = ret s' \<Longrightarrow> smooth s s'"
proof (cases "r > 0 \<and> \<not> c")
  case True
  assume m: "drain_more r c s = ret s'"
  show ?thesis
  proof (cases "wq_Push (j_work s) DrainJob")
    case (Some w)
    with m True have "ww_end (s\<lparr>j_work := w\<rparr>) = ret s'" by (simp add: drain_more_def ww_push_def)
    from ww_end_smooth [OF this] show ?thesis by simp
  qed (use m True in \<open>simp add: drain_more_def ww_push_def\<close>)
next
  case False
  assume "drain_more r c s = ret s'"
  with False have "ww_end s = ret s'" by (auto simp: drain_more_def)
  then show ?thesis by (rule ww_end_smooth)
qed

lemma ww_worker_smooth:
  assumes "ww_worker opts all_fn s = ret s'" and sm: "smooth s s"
  shows "smooth s s'"
proof (cases "wr_running (j_work s)")
  case (Cons j js)
  note W = assms(1) [unfolded ww_worker_def Cons list.case]
  show ?thesis
  proof (cases "j_pc s")
    case Begin
    with W have "drain_pop opts s = ret s' \<or> s' = s\<lparr>j_pc := ShutPop (ww_flush opts s)\<rparr>" by (cases j) simp_all
    then show ?thesis using drain_pop_smooth sm smooth_pc [OF sm] by auto
  next
    case (DrainWrite n r c)
    obtain err s1 where w: "call_writeFn all_fn n s = (err, s1)" by fastforce
    then have "drain_more r c s1 = ret s'" "smooth s1 s' = smooth s s'"
      using all_fn_call [OF w] W DrainWrite by (auto simp: drain_write_def)
    then show ?thesis using drain_more_smooth by blast
  next
    case (ShutWrite n)
    obtain err s1 where w: "call_writeFn all_fn n s = (err, s1)" by fastforce
    then obtain b c where "s' = s\<lparr>w_batch := b, w_conn := c, j_pc := ShutPop True\<rparr>"
      using all_fn_call [OF w] W ShutWrite by (auto simp: shut_write_def)
    then show ?thesis by (simp add: smooth_def)
  next
    case (ShutPop f)
    with W shut_pop_smooth [OF _ sm] show ?thesis by simp
  next
    case ShutRest
    with W shut_rest_smooth [OF _ sm] show ?thesis by simp
  qed (use sm in \<open>auto simp: smooth_def\<close>)
qed (use assms in \<open>simp add: ww_worker_def\<close>)

lemma smooth_trans: "smooth s t \<Longrightarrow> smooth t u \<Longrightarrow> smooth s u"
  by (auto simp: smooth_def)

lemma ww_run_smooth: "ww_run opts all_fn n s = ret s' \<Longrightarrow> smooth s s \<Longrightarrow> smooth s s'"
proof (induction n arbitrary: s)
  case (Suc n)
  show ?case
  proof (cases "j_doneCh s")
    case False
    with Suc.prems(1) obtain s1 where s1: "ww_worker opts all_fn s = ret s1" "ww_run opts all_fn n s1 = ret s'"
      by (auto simp: bind_eq_Some_conv)
    have "smooth s s1" using ww_worker_smooth [OF s1(1) Suc.prems(2)] .
    moreover have "smooth s1 s1" using calculation by (simp add: smooth_def)
    ultimately show ?thesis using Suc.IH [OF s1(2)] smooth_trans by blast
  qed (use Suc.prems in simp)
qed simp

text \<open>The runs as witnesses.\<close>

lemma job_setup: "valid_picker lifo" "distinct (nh_pool empty_nodes)" "\<forall>a \<in> set (nh_pool empty_nodes). a < nh_fresh empty_nodes"
  using lifo_valid empty_nodes_ok by simp_all

lemma worker_write_conserves_witness:
  "\<exists>s. w_accepted s = [[1]] \<and> mset (w_accepted s) = mset (w_conn s) + mset (w_released s) + mset (ww_flight s) + mset (queued s)"
proof -
  obtain s where s: "w_accepted s = [[1]]" "ww_reachable job_opts all_fn lifo job_start s"
    by (rule job_checkE [OF job_stopping]) blast
  have "mset (w_accepted s) = mset (w_conn s) + mset (w_released s) + mset (ww_flight s) + mset (queued s)"
    using worker_write_conserves [OF all_fn_ok refl job_setup job_New s(2) ww_step.work] by blast
  with s(1) show ?thesis by blast
qed

lemma worker_write_progress_witness:
  "\<exists>s s'. ww_reachable job_opts all_fn lifo job_start s \<and> ww_run job_opts all_fn 12 s = ret s' \<and> j_doneCh s'"
proof -
  obtain s where s: "signalled (j_stop s)" "ww_left s \<le> 12" "ww_reachable job_opts all_fn lifo job_start s"
    by (rule job_checkE [OF job_stopping]) blast
  from worker_write_progress [OF all_fn_ok refl job_setup job_New s(3), of 12] s show ?thesis by blast
qed

lemma worker_stop_delivers_witness: "\<exists>s. ww_reachable job_opts all_fn lifo job_start s \<and> j_doneCh s \<and> w_conn s = [[1]]"
proof -
  obtain s where s: "j_pc s = Begin" "signalled (j_stop s)" "ww_left s \<le> 12" "w_errors s = 0" "\<not> j_abort s" "ww_flush job_opts s"
    "w_accepted s = [[1]]" "ww_reachable job_opts all_fn lifo job_start s"
    by (rule job_checkE [OF job_stopping]) blast
  have "ww_inv job_opts lifo (\<lambda>c. c) s"
    by (rule write_func.ww_reachable_inv [OF all_fn_ok s(8)]) (rule NewWorkerWriteProcessor_inv [where c = "[]", OF job_setup _ job_New], rule refl)
  from write_func.ww_run_ends [OF all_fn_ok this s(2,3)] obtain s' where
    s': "ww_run job_opts all_fn 12 s = ret s'" "j_doneCh s'" by blast
  have r: "ww_reachable job_opts all_fn lifo job_start s'" by (rule write_func.ww_run_reachable [OF all_fn_ok s(8) s'(1)])
  have "smooth s s'" by (rule ww_run_smooth [OF s'(1)]) (simp add: smooth_def s(1))
  then have k: "w_errors s' = 0" "\<not> j_abort s'" "ww_flush job_opts s'" "w_accepted s' = [[1]]"
    using s(4-7) by (simp_all add: smooth_def ww_flush_def)
  from worker_stop_delivers [OF all_fn_ok refl job_setup job_New r disjI2 [OF s'(2)] k(1-3)] k(4) r s'(2) show ?thesis by auto
qed

lemma worker_write_stalls_witness:
  "\<exists>s. ww_reachable job_opts closed_fn lifo job_start s \<and> j_stop s = NotStopped \<and> w_conn s = [] \<and> queued s \<noteq> [] \<and>
     wr_running (j_work s) = []"
proof -
  obtain s where s: "j_pc s = DrainWrite 1 1 False" "wq_jobs (j_work s) = [DrainJob]" "j_wakers s = 0" "queued s = [[2]]"
    "j_stop s = NotStopped" "ww_reachable job_opts closed_fn lifo job_start s" "w_conn s = []"
    by (rule job_checkE [OF job_writing]) blast
  have inv: "ww_inv job_opts lifo (\<lambda>c. c) s"
    by (rule write_func.ww_reachable_inv [OF closed_fn_ok s(6)]) (rule NewWorkerWriteProcessor_inv [where c = "[]", OF job_setup _ job_New], rule refl)
  then have "wq_reachable 1 (j_work s)" using ww_jobsD(1) by (auto simp: ww_inv_def)
  from jobs_running(1,3) [OF this] s(2) have w: "wq_waiting (j_work s) = []" by simp
  obtain s1 where s1: "ww_worker job_opts closed_fn s = ret s1" using write_func.ww_step_inv [OF closed_fn_ok ww_step.work inv] by blast
  have r1: "ww_reachable job_opts closed_fn lifo job_start s1" using ww_step.work [of job_opts closed_fn lifo s] s1 ww_reachable.step [OF s(6)] by auto
  have inv1: "ww_inv job_opts lifo (\<lambda>c. c) s1" using write_func.ww_step_inv [OF closed_fn_ok ww_step.work inv] s1 by auto
  from ww_sendDrop_inv [OF inv1, of "[3]"] obtain e s2 where s2: "ww_sendDrop lifo [3] s1 = ret (e, s2)" by blast
  have step: "ww_step job_opts closed_fn lifo s1 (ret s2)" using ww_step.send_drop [of job_opts closed_fn lifo s1 "[3]"] s2 by simp
  have "j_stop s1 = NotStopped" using write_func.ww_worker_inv [OF closed_fn_ok inv] s1 s(2,5) by (auto simp: ww_good_def)
  then have st: "j_stop s2 = NotStopped"
    using sendDrop_stop [OF _ s2] inv1 by (simp add: ww_inv_def ww_data_def)
  have retry: "\<not> isWriteFnRetryable job_opts [NetErrClosed]"
    by (simp add: isWriteFnRetryable_def DefaultWriteOptions_def CheckWriteOptions_def Let_def defaultIsWriteFnRetryable_def errors_Is_def)
  from worker_write_stalls [OF closed_fn_ok refl job_setup job_New s(6,1) w s(3) _ _ retry s1 ww_reachable.step [OF ww_reachable.start step] st, of _ _ "[4]" 1]
  show ?thesis using ww_reachable.step [OF r1 step] st s(4,7) by (auto simp: closed_fn_def)
qed

end
