(* ===== verification/ReadProc.thy ===== *)
theory ReadProc
  imports WriteCore
begin

section \<open>The read processor with its own goroutine\<close>

text \<open>
  src/kknet/kkprocessor/read_thread.go: the goroutine of the connection cuts what it reads into packets
  (\<open>PacketSpliter\<close>), copies them into the receive queue and wakes the consumer goroutine, which pops
  batches and calls \<open>OnRaw\<close> for each packet; \<open>Stop\<close> lets it deliver the rest. The result of the splitter
  is an argument of \<open>OnRecvBytes\<close>. A step is the code between two points where another goroutine can be
  seen: the section under the lock, a channel operation, one call of the handler. \<open>Start\<close> is called once;
  the handler and the callback for a full queue are history.
\<close>

text \<open>
  Where the consumer is; the flag says whether \<open>closeCh\<close> was seen, so that it ends after this drain, and
  \<open>Delivering\<close> holds the packets of the batch not yet handed over.
\<close>

datatype consumer_pc = NotRunning | Waiting | Draining bool | Delivering bool "bytebuffer list" | Ended

datatype rstop_pc = RNotStopped | RMarked | RWaiting | RStopped

record rproc =
  r_queue :: sqstate
  r_closing :: bool
  r_started :: bool
  r_wakeCh :: bool
  r_closeCh :: bool
  r_doneCh :: bool
  r_pc :: consumer_pc
  r_wakers :: nat
  r_stop :: rstop_pc
  r_early :: bool
  r_callbacks :: nat
  r_arrived :: "bytebuffer list"
  r_accepted :: "bytebuffer list"
  r_delivered :: "bytebuffer list"

definition batchBufSize :: nat where "batchBufSize = 32"

definition NewReadProcessor :: "ReadOptions \<Rightarrow> nnHeap \<Rightarrow> (ReadOptions \<times> rproc) go" where
  "NewReadProcessor opts h =
     (let opts = CheckReadOptions opts
      in if ro_RawHandler opts = None then panic
         else ret (opts, \<lparr>r_queue = NewFIFOQueue h (ro_RecvQueueSize opts) (ro_RecvQueueStrict opts), r_closing = False,
                         r_started = False, r_wakeCh = False, r_closeCh = False, r_doneCh = False, r_pc = NotRunning, r_wakers = 0,
                         r_stop = RNotStopped, r_early = False, r_callbacks = 0, r_arrived = [], r_accepted = [], r_delivered = []\<rparr>))"

definition rp_Pending :: "rproc \<Rightarrow> nat" where
  "rp_Pending s = sq_Len (r_queue s)"

subsection \<open>The producer\<close>

text \<open>
  The pushes under the lock, up to the first one that is refused; the number of packets that joined.
  The packets behind a refused one go back to the pool.
\<close>

fun push_loop :: "picker \<Rightarrow> sqstate \<Rightarrow> bytebuffer list \<Rightarrow> (nat \<times> sqstate) go" where
  "push_loop pick q [] = ret (0, q)"
| "push_loop pick q (p # ps) = do {
     (ok, q) \<leftarrow> sq_Push pick q (Some p);
     if \<not> ok then ret (0, q)
     else do { (k, q) \<leftarrow> push_loop pick q ps; ret (Suc k, q) } }"

definition rp_enqueue :: "ReadOptions \<Rightarrow> picker \<Rightarrow> bytebuffer list \<Rightarrow> rproc \<Rightarrow> (kkerror option \<times> rproc) go" where
  "rp_enqueue opts pick packets s =
     (let s = s\<lparr>r_arrived := r_arrived s @ packets\<rparr>
      in if r_closing s then ret (None, s)
         else do {
           let wasEmpty = sq_IsEmpty (r_queue s);
           (k, q) \<leftarrow> push_loop pick (r_queue s) packets;
           let nowEmpty = sq_IsEmpty q;
           let isFull = k < length packets;
           let s = s\<lparr>r_queue := q, r_accepted := r_accepted s @ take k packets,
                     r_callbacks := r_callbacks s + (if isFull \<and> ro_RecvQueueFullCallback opts \<noteq> None then 1 else 0),
                     r_wakers := r_wakers s + (if wasEmpty \<and> \<not> nowEmpty then 1 else 0)\<rparr>;
           ret (if isFull then Some ErrNetRecvQueueFull else None, s) })"

definition rp_EnqueuePacket :: "ReadOptions \<Rightarrow> picker \<Rightarrow> bytebuffer \<Rightarrow> rproc \<Rightarrow> (kkerror option \<times> rproc) go" where
  "rp_EnqueuePacket opts pick packet s =
     (if packet = [] then ret (None, s) else rp_enqueue opts pick [packet] s)"

text \<open>\<open>split\<close> is what \<open>packetSpliter.Split(data)\<close> returns: the packets and the error.\<close>

definition rp_OnRecvBytes :: "ReadOptions \<Rightarrow> picker \<Rightarrow> byte list \<Rightarrow> bytebuffer list \<times> kkerror option \<Rightarrow> rproc \<Rightarrow>
    (kkerror option \<times> rproc) go" where
  "rp_OnRecvBytes opts pick data split s =
     (if data = [] then ret (None, s)
      else case split of
        (packets, Some err) \<Rightarrow> ret (if r_closing s then None else Some err, s)
      | (packets, None) \<Rightarrow> if packets = [] then ret (None, s) else rp_enqueue opts pick packets s)"

definition wakeConsumer :: "rproc \<Rightarrow> rproc" where
  "wakeConsumer s = s\<lparr>r_wakeCh := True\<rparr>"

subsection \<open>The consumer\<close>

definition closeDone :: "rproc \<Rightarrow> rproc" where
  "closeDone s = s\<lparr>r_doneCh := True\<rparr>"

text \<open>The channels the \<open>select\<close> finds ready; with both ready either is taken.\<close>

definition rp_ready :: "bool \<Rightarrow> rproc \<Rightarrow> bool" where
  "rp_ready stop s \<longleftrightarrow>
     (case r_pc s of NotRunning \<Rightarrow> False | Waiting \<Rightarrow> (if stop then r_closeCh s else r_wakeCh s) | Ended \<Rightarrow> False | _ \<Rightarrow> True)"

definition drainOnce :: "bool \<Rightarrow> rproc \<Rightarrow> rproc go" where
  "drainOnce final s = do {
     (n, b, q) \<leftarrow> sq_PopMany (r_queue s) (int batchBufSize) (replicate batchBufSize None) 0;
     let s = s\<lparr>r_queue := q\<rparr>;
     if n = 0 then ret (if final then closeDone (s\<lparr>r_pc := Ended\<rparr>) else s\<lparr>r_pc := Waiting\<rparr>)
     else ret (s\<lparr>r_pc := Delivering final (live (take n b))\<rparr>) }"

definition consumeRecvQueue :: "bool \<Rightarrow> rproc \<Rightarrow> rproc go" where
  "consumeRecvQueue stop s =
     (case r_pc s of
        NotRunning \<Rightarrow> ret s
      | Waiting \<Rightarrow> ret (if stop then s\<lparr>r_pc := Draining True\<rparr> else s\<lparr>r_wakeCh := False, r_pc := Draining False\<rparr>)
      | Draining final \<Rightarrow> drainOnce final s
      | Delivering final [] \<Rightarrow> ret (s\<lparr>r_pc := Draining final\<rparr>)
      | Delivering final (p # ps) \<Rightarrow> ret (s\<lparr>r_delivered := r_delivered s @ [p], r_pc := Delivering final ps\<rparr>)
      | Ended \<Rightarrow> ret s)"

subsection \<open>Start and Stop\<close>

definition rp_Start :: "bool \<Rightarrow> rproc \<Rightarrow> rproc" where
  "rp_Start conn s = (if \<not> conn then s else s\<lparr>r_started := True, r_pc := Waiting\<rparr>)"

definition rp_stop_mark :: "rproc \<Rightarrow> rproc" where
  "rp_stop_mark s = s\<lparr>r_closing := True, r_stop := RMarked\<rparr>"

definition rp_stop_signal :: "rproc \<Rightarrow> rproc go" where
  "rp_stop_signal s =
     (if r_closeCh s then panic
      else
        let s = s\<lparr>r_closeCh := True, r_stop := RWaiting\<rparr>
        in ret (if \<not> r_started s then (closeDone s)\<lparr>r_early := True\<rparr> else s))"

subsection \<open>The step relation\<close>

inductive rp_step :: "ReadOptions \<Rightarrow> picker \<Rightarrow> rproc \<Rightarrow> rproc go \<Rightarrow> bool" for opts pick where
  packet: "rp_step opts pick s (map_option snd (rp_EnqueuePacket opts pick p s))"
| recv: "rp_step opts pick s (map_option snd (rp_OnRecvBytes opts pick data split s))"
| wake: "r_wakers s > 0 \<Longrightarrow> rp_step opts pick s (ret (wakeConsumer (s\<lparr>r_wakers := r_wakers s - 1\<rparr>)))"
| start: "r_pc s = NotRunning \<Longrightarrow> rp_step opts pick s (ret (rp_Start conn s))"
| consume: "rp_ready stop s \<Longrightarrow> rp_step opts pick s (consumeRecvQueue stop s)"
| mark: "r_stop s = RNotStopped \<Longrightarrow> rp_step opts pick s (ret (rp_stop_mark s))"
| signal: "r_stop s = RMarked \<Longrightarrow> rp_step opts pick s (rp_stop_signal s)"
| finish: "r_stop s = RWaiting \<Longrightarrow> r_doneCh s \<Longrightarrow> rp_step opts pick s (ret (s\<lparr>r_stop := RStopped\<rparr>))"

inductive rp_reachable :: "ReadOptions \<Rightarrow> picker \<Rightarrow> rproc \<Rightarrow> rproc \<Rightarrow> bool" for opts pick s0 where
  init: "rp_reachable opts pick s0 s0"
| step: "rp_reachable opts pick s0 s \<Longrightarrow> rp_step opts pick s (ret s') \<Longrightarrow> rp_reachable opts pick s0 s'"

subsection \<open>Queues without strict mode accept everything\<close>

definition sq_free :: "sqstate \<Rightarrow> bool" where
  "sq_free s = (case snd s of Ring q \<Rightarrow> False | Linked q \<Rightarrow> \<not> nq_isStrict q)"

lemma sq_free_New: "sq_free (NewFIFOQueue h sz False)"
  by (auto simp: sq_free_def NewFIFOQueue_def NewNNQueue_def Let_def split: prod.splits)

lemma sq_free_Push:
  assumes "sq_inv pick s" and "sq_free s" and "sq_Push pick s x = ret (ok, s')"
  shows "ok \<and> sq_free s'"
proof -
  obtain h q where s: "s = (h, Linked q)" using assms(2) by (cases s; cases "snd s") (auto simp: sq_free_def)
  have "nn_ok pick (h, q)" using assms(1) by (simp add: s)
  from nn.Push [OF this, of x] assms(2) obtain h1 q1 where p: "nn_Push pick (h, q) x = (True, h1, q1)"
    by (auto simp: s sq_free_def split: if_splits)
  have "nq_isStrict q1 = nq_isStrict q" by (rule nn_Push_strict [OF p])
  with assms(2,3) p show ?thesis by (auto simp: s sq_free_def)
qed

lemma push_loop_spec:
  assumes "sq_inv pick q"
  shows "\<exists>k q'. push_loop pick q ps = ret (k, q') \<and> sq_inv pick q' \<and> k \<le> length ps \<and>
    sq_contents q' = sq_contents q @ map Some (take k ps) \<and> (sq_free q \<longrightarrow> sq_free q' \<and> k = length ps)"
  using assms
proof (induction ps arbitrary: q)
  case (Cons p ps)
  from sq.Push [OF Cons.prems, of "Some p"] obtain ok q1 where a: "sq_Push pick q (Some p) = ret (ok, q1)" "sq_inv pick q1"
    "if ok then sq_contents q1 = sq_contents q @ [Some p] else sq_contents q1 = sq_contents q \<and> sq_IsFull q" by blast
  have p: "sq_Push pick q (Some p) = ret (ok, q1)" "sq_inv pick q1"
    "sq_contents q1 = sq_contents q @ (if ok then [Some p] else [])" using a by (simp_all split: if_splits)
  have f: "sq_free q \<Longrightarrow> ok \<and> sq_free q1" using sq_free_Push [OF Cons.prems _ p(1)] by blast
  show ?case
  proof (cases ok)
    case False
    with p f show ?thesis by auto
  next
    case True
    from Cons.IH [OF p(2)] obtain k q' where "push_loop pick q1 ps = ret (k, q')" "sq_inv pick q'" "k \<le> length ps"
      "sq_contents q' = sq_contents q1 @ map Some (take k ps)" "sq_free q1 \<longrightarrow> sq_free q' \<and> k = length ps" by blast
    with p True f show ?thesis by (intro exI [of _ "Suc k"] exI [of _ q']) auto
  qed
qed simp

lemma recycle_strict: "nq_isStrict (snd (nn_recycleNode (h, q) node)) = nq_isStrict q"
  by (cases node) (simp_all add: Let_def)

lemma pop_loop_strict:
  "nn_pop_loop limit cnt w t recv node s = ret (w', recv', node', s') \<Longrightarrow> nq_isStrict (snd s') = nq_isStrict (snd s)"
proof (induction "cnt - w" arbitrary: w t recv node s rule: less_induct)
  case less
  obtain h q where s: "s = (h, q)" by fastforce
  show ?case
  proof (cases node)
    case None
    with less.prems show ?thesis by (simp add: s nn_pop_loop.simps)
  next
    case (Some a)
    obtain h1 q1 where r: "nn_recycleNode (h, q\<lparr>nq_count := nq_count q - Suc 0\<rparr>) (Some a) = (h1, q1)" by fastforce
    have q1: "nq_isStrict q1 = nq_isStrict q" using recycle_strict [of h "q\<lparr>nq_count := nq_count q - Suc 0\<rparr>" "Some a"] r by simp
    have ih: "nn_pop_loop limit cnt (Suc w) t2 recv2 node2 (h1, q1) = ret (w', recv', node', s') \<Longrightarrow>
        nq_isStrict (snd s') = nq_isStrict q" if "w < cnt" for t2 recv2 node2
      using less.hyps [of "Suc w" t2 recv2 node2 "(h1, q1)"] that q1 by simp
    from less.prems show ?thesis
      by (auto simp: nn_pop_loop.simps [of limit cnt w t recv "Some a" h q] s Some r q1 ih Let_def bind_eq_Some_conv
          simp del: nn_recycleNode.simps split: if_splits)
  qed
qed

lemma sq_PopMany_free:
  assumes "sq_PopMany q c b l = ret (n, b', q')" and "sq_free q"
  shows "sq_free q'"
proof -
  obtain h r where "q = (h, Linked r)" using assms(2) by (cases q; cases "snd q") (auto simp: sq_free_def)
  with assms show ?thesis
    by (auto simp: sq_free_def bind_eq_Some_conv Let_def split: prod.splits if_splits dest!: pop_loop_strict)
qed

subsection \<open>The invariant\<close>

definition r_flight :: "rproc \<Rightarrow> bytebuffer list" where
  "r_flight s = (case r_pc s of Delivering final ps \<Rightarrow> ps | _ \<Rightarrow> [])"

definition r_queued :: "rproc \<Rightarrow> bytebuffer list" where
  "r_queued s = live (sq_contents (r_queue s))"

definition rp_data :: "ReadOptions \<Rightarrow> picker \<Rightarrow> rproc \<Rightarrow> bool" where
  "rp_data opts pick s \<longleftrightarrow>
     sq_inv pick (r_queue s) \<and> None \<notin> set (sq_contents (r_queue s)) \<and>
     r_accepted s = r_delivered s @ r_flight s @ r_queued s \<and> subseq (r_accepted s) (r_arrived s) \<and>
     (\<not> ro_RecvQueueStrict opts \<longrightarrow> sq_free (r_queue s)) \<and>
     (\<not> ro_RecvQueueStrict opts \<and> \<not> r_closing s \<longrightarrow> r_accepted s = r_arrived s)"

primrec consumer_ok :: "consumer_pc \<Rightarrow> bool \<Rightarrow> bool \<Rightarrow> bool \<Rightarrow> bool" where
  "consumer_ok NotRunning closed fin none = True"
| "consumer_ok Waiting closed fin none = True"
| "consumer_ok (Draining final) closed fin none = (final \<longrightarrow> closed)"
| "consumer_ok (Delivering final ps) closed fin none = (final \<longrightarrow> closed)"
| "consumer_ok Ended closed fin none = (closed \<and> fin \<and> none)"

lemma consumer_ok_mono: "consumer_ok p c d e \<Longrightarrow> (c \<Longrightarrow> c') \<Longrightarrow> consumer_ok p c' d e"
  by (cases p) auto

definition rp_control :: "rproc \<Rightarrow> bool" where
  "rp_control s \<longleftrightarrow>
     (r_closing s \<longleftrightarrow> r_stop s \<noteq> RNotStopped) \<and> (r_closeCh s \<longleftrightarrow> r_stop s = RWaiting \<or> r_stop s = RStopped) \<and>
     (r_started s \<longleftrightarrow> r_pc s \<noteq> NotRunning) \<and>
     consumer_ok (r_pc s) (r_closeCh s) (r_doneCh s) (r_queued s = []) \<and>
     (r_doneCh s \<longrightarrow> r_pc s = Ended \<or> r_early s) \<and> (r_early s \<longrightarrow> r_doneCh s) \<and>
     (r_closeCh s \<and> r_pc s = NotRunning \<longrightarrow> r_early s) \<and> (r_stop s = RStopped \<longrightarrow> r_doneCh s) \<and>
     ((r_pc s = Waiting \<or> r_pc s = NotRunning) \<and> r_queued s \<noteq> [] \<longrightarrow> r_wakeCh s \<or> r_wakers s > 0 \<or> r_closeCh s)"

definition rp_inv :: "ReadOptions \<Rightarrow> picker \<Rightarrow> rproc \<Rightarrow> bool" where
  "rp_inv opts pick s \<longleftrightarrow> rp_data opts pick s \<and> rp_control s"

lemma rp_dataD:
  assumes "rp_data opts pick s"
  shows "sq_inv pick (r_queue s)" "None \<notin> set (sq_contents (r_queue s))" "r_accepted s = r_delivered s @ r_flight s @ r_queued s"
    "subseq (r_accepted s) (r_arrived s)" "\<not> ro_RecvQueueStrict opts \<Longrightarrow> sq_free (r_queue s)"
    "\<not> ro_RecvQueueStrict opts \<Longrightarrow> \<not> r_closing s \<Longrightarrow> r_accepted s = r_arrived s"
proof -
  note D = assms [unfolded rp_data_def]
  show "sq_inv pick (r_queue s)" "None \<notin> set (sq_contents (r_queue s))" "r_accepted s = r_delivered s @ r_flight s @ r_queued s"
    "subseq (r_accepted s) (r_arrived s)" using D by - (elim conjE, assumption)+
  show "\<not> ro_RecvQueueStrict opts \<Longrightarrow> sq_free (r_queue s)"
    "\<not> ro_RecvQueueStrict opts \<Longrightarrow> \<not> r_closing s \<Longrightarrow> r_accepted s = r_arrived s" using D by blast+
qed

lemma rp_controlD:
  assumes "rp_control s"
  shows "r_closing s \<longleftrightarrow> r_stop s \<noteq> RNotStopped" "r_closeCh s \<longleftrightarrow> r_stop s = RWaiting \<or> r_stop s = RStopped"
    "r_started s \<longleftrightarrow> r_pc s \<noteq> NotRunning"
    "consumer_ok (r_pc s) (r_closeCh s) (r_doneCh s) (r_queued s = [])"
    "r_doneCh s \<Longrightarrow> r_pc s = Ended \<or> r_early s" "r_early s \<Longrightarrow> r_doneCh s" "r_closeCh s \<Longrightarrow> r_pc s = NotRunning \<Longrightarrow> r_early s"
    "r_stop s = RStopped \<Longrightarrow> r_doneCh s"
    "r_pc s = Waiting \<or> r_pc s = NotRunning \<Longrightarrow> r_queued s \<noteq> [] \<Longrightarrow> r_wakeCh s \<or> r_wakers s > 0 \<or> r_closeCh s"
proof -
  note C = assms [unfolded rp_control_def]
  show "r_closing s \<longleftrightarrow> r_stop s \<noteq> RNotStopped" "r_closeCh s \<longleftrightarrow> r_stop s = RWaiting \<or> r_stop s = RStopped"
    "r_started s \<longleftrightarrow> r_pc s \<noteq> NotRunning"
    "consumer_ok (r_pc s) (r_closeCh s) (r_doneCh s) (r_queued s = [])"
    using C by - (elim conjE, assumption)+
  have i: "r_doneCh s \<longrightarrow> r_pc s = Ended \<or> r_early s" "r_early s \<longrightarrow> r_doneCh s" "r_closeCh s \<and> r_pc s = NotRunning \<longrightarrow> r_early s"
    "r_stop s = RStopped \<longrightarrow> r_doneCh s"
    "(r_pc s = Waiting \<or> r_pc s = NotRunning) \<and> r_queued s \<noteq> [] \<longrightarrow> r_wakeCh s \<or> r_wakers s > 0 \<or> r_closeCh s"
    using C by - (elim conjE, assumption)+
  show "r_doneCh s \<Longrightarrow> r_pc s = Ended \<or> r_early s" using i(1) by blast
  show "r_early s \<Longrightarrow> r_doneCh s" using i(2) by blast
  show "r_closeCh s \<Longrightarrow> r_pc s = NotRunning \<Longrightarrow> r_early s" using i(3) by blast
  show "r_stop s = RStopped \<Longrightarrow> r_doneCh s" using i(4) by blast
  show "r_pc s = Waiting \<or> r_pc s = NotRunning \<Longrightarrow> r_queued s \<noteq> [] \<Longrightarrow> r_wakeCh s \<or> r_wakers s > 0 \<or> r_closeCh s" using i(5) by blast
qed

lemma NewReadProcessor_inv:
  assumes "valid_picker pick" and "distinct (nh_pool h)" and "\<forall>a \<in> set (nh_pool h). a < nh_fresh h"
    and "NewReadProcessor opts h = ret (opts', s)"
  shows "rp_inv opts' pick s"
  using sq_inv_New [OF assms(1-3), of "ro_RecvQueueSize opts'" "ro_RecvQueueStrict opts'"] sq_free_New [of h "ro_RecvQueueSize opts'"] assms(4)
  by (auto simp: NewReadProcessor_def Let_def rp_inv_def rp_data_def rp_control_def r_flight_def r_queued_def split: if_splits)

subsection \<open>The producer keeps the invariant\<close>

lemma queued_empty: "rp_data opts pick s \<Longrightarrow> r_queued s = [] \<longleftrightarrow> sq_contents (r_queue s) = []"
  using rp_dataD(2) [of opts pick s] live_eq_map [of "sq_contents (r_queue s)"] by (auto simp: r_queued_def)

lemma enqueue_inv:
  assumes inv: "rp_inv opts pick s"
  shows "\<exists>e s'. rp_enqueue opts pick packets s = ret (e, s') \<and> rp_inv opts pick s'"
proof -
  have data: "rp_data opts pick s" and ctl: "rp_control s" using inv by (simp_all add: rp_inv_def)
  note d = rp_dataD [OF data] and c = rp_controlD [OF ctl]
  show ?thesis
  proof (cases "r_closing s")
    case True
    let ?s = "s\<lparr>r_arrived := r_arrived s @ packets\<rparr>"
    have "subseq (r_accepted s) (r_arrived s @ packets)" using list_emb_append_mono [OF d(4), of "[]" packets] by simp
    moreover have "r_flight ?s = r_flight s" "r_queued ?s = r_queued s" by (simp_all add: r_flight_def r_queued_def)
    ultimately have "rp_data opts pick ?s"
      unfolding rp_data_def using d(1,2,3,5) True by simp
    moreover have "rp_control ?s" unfolding rp_control_def using c \<open>r_queued ?s = r_queued s\<close> by simp
    ultimately show ?thesis using True by (simp add: rp_enqueue_def Let_def rp_inv_def)
  next
    case False
    from push_loop_spec [OF d(1), of packets] obtain k q where
      p: "push_loop pick (r_queue s) packets = ret (k, q)" "sq_inv pick q" "k \<le> length packets"
        "sq_contents q = sq_contents (r_queue s) @ map Some (take k packets)"
        "sq_free (r_queue s) \<longrightarrow> sq_free q \<and> k = length packets" by blast
    let ?b = "r_callbacks s + (if k < length packets \<and> ro_RecvQueueFullCallback opts \<noteq> None then 1 else 0)"
    let ?w = "sq_IsEmpty (r_queue s) \<and> \<not> sq_IsEmpty q"
    let ?s = "s\<lparr>r_arrived := r_arrived s @ packets, r_queue := q, r_accepted := r_accepted s @ take k packets, r_callbacks := ?b,
      r_wakers := r_wakers s + (if ?w then 1 else 0)\<rparr>"
    have w: "?w \<longleftrightarrow> r_queued s = [] \<and> take k packets \<noteq> []"
      using sq.IsEmpty [OF d(1)] sq.IsEmpty [OF p(2)] queued_empty [OF data] p(4) by auto
    have qd: "r_queued ?s = r_queued s @ take k packets" using p(4) by (simp add: r_queued_def)
    have fl: "r_flight ?s = r_flight s" by (simp add: r_flight_def)
    have "subseq (r_accepted s @ take k packets) (r_arrived s @ packets)"
      using d(4) list_emb_append_mono [OF d(4), of "take k packets" packets] by (simp add: prefix_imp_subseq take_is_prefix)
    then have "rp_data opts pick ?s"
      unfolding rp_data_def fl qd using d p(2,4,5) False by (simp add: image_iff)
    moreover have "rp_control ?s"
    proof -
      have n: "r_stop s = RNotStopped" "\<not> r_closeCh s" using c(1,2) False by auto
      then have "r_pc s \<noteq> Ended" using c(4) by auto
      then have ok: "consumer_ok (r_pc s) (r_closeCh s) (r_doneCh s) (r_queued s @ take k packets = [])" using c(4) by (cases "r_pc s") simp_all
      have wk: "r_wakeCh s \<or> r_wakers s + (if ?w then 1 else 0) > 0 \<or> r_closeCh s"
        if "r_pc s = Waiting \<or> r_pc s = NotRunning" "r_queued s @ take k packets \<noteq> []"
        using c(9) [OF that(1)] that(2) unfolding w by (cases "r_queued s = []") simp_all
      show ?thesis unfolding rp_control_def qd using c(1-3,5-8) ok wk by (simp del: append_is_Nil_conv)
    qed
    moreover have "\<exists>e. rp_enqueue opts pick packets s = ret (e, ?s)" using False p(1) by (simp add: rp_enqueue_def Let_def)
    ultimately show ?thesis by (auto simp: rp_inv_def)
  qed
qed

lemma producer_inv:
  assumes "rp_inv opts pick s"
  shows "\<exists>e s'. rp_EnqueuePacket opts pick p s = ret (e, s') \<and> rp_inv opts pick s'"
    and "\<exists>e s'. rp_OnRecvBytes opts pick data split s = ret (e, s') \<and> rp_inv opts pick s'"
  using enqueue_inv [OF assms] assms by (auto simp: rp_EnqueuePacket_def rp_OnRecvBytes_def split: prod.splits option.splits)

subsection \<open>The consumer, \<open>Start\<close> and \<open>Stop\<close> keep the invariant\<close>

text \<open>A step that leaves the queue and the packets alone.\<close>

lemma control_only:
  assumes inv: "rp_inv opts pick s" and same: "r_queue s' = r_queue s" "r_accepted s' = r_accepted s" "r_delivered s' = r_delivered s"
      "r_arrived s' = r_arrived s" "r_flight s' = r_flight s" "r_closing s \<Longrightarrow> r_closing s'"
    and c: "r_queued s' = r_queued s \<Longrightarrow> rp_control s'"
  shows "rp_inv opts pick s'"
proof -
  have q: "r_queued s' = r_queued s" using same(1) by (simp add: r_queued_def)
  have "rp_data opts pick s" using inv by (simp add: rp_inv_def)
  note d = rp_dataD [OF this]
  have "rp_data opts pick s'" unfolding rp_data_def same q using d same(6) by blast
  with c [OF q] show ?thesis by (simp add: rp_inv_def)
qed

lemma other_inv:
  assumes inv: "rp_inv opts pick s"
  shows "r_wakers s > 0 \<Longrightarrow> rp_inv opts pick (wakeConsumer (s\<lparr>r_wakers := r_wakers s - 1\<rparr>))"
    and "r_pc s = NotRunning \<Longrightarrow> rp_inv opts pick (rp_Start conn s)"
    and "r_stop s = RNotStopped \<Longrightarrow> rp_inv opts pick (rp_stop_mark s)"
    and "r_stop s = RMarked \<Longrightarrow> \<exists>s'. rp_stop_signal s = ret s' \<and> rp_inv opts pick s'"
    and "r_stop s = RWaiting \<Longrightarrow> r_doneCh s \<Longrightarrow> rp_inv opts pick (s\<lparr>r_stop := RStopped\<rparr>)"
proof -
  have ctl: "rp_control s" using inv by (simp add: rp_inv_def)
  note c = rp_controlD [OF ctl]
  show "rp_inv opts pick (wakeConsumer (s\<lparr>r_wakers := r_wakers s - 1\<rparr>))" if "r_wakers s > 0"
    by (rule control_only [OF inv]) (use c in \<open>simp_all add: wakeConsumer_def r_flight_def rp_control_def\<close>)
  show "rp_inv opts pick (rp_Start conn s)" if "r_pc s = NotRunning"
    by (rule control_only [OF inv]) (use c that in \<open>auto simp: rp_Start_def r_flight_def rp_control_def\<close>)
  show "rp_inv opts pick (rp_stop_mark s)" if "r_stop s = RNotStopped"
    by (rule control_only [OF inv]) (use c that in \<open>simp_all add: rp_stop_mark_def r_flight_def rp_control_def\<close>)
  show "rp_inv opts pick (s\<lparr>r_stop := RStopped\<rparr>)" if "r_stop s = RWaiting" "r_doneCh s"
    by (rule control_only [OF inv]) (use c that in \<open>simp_all add: r_flight_def rp_control_def\<close>)
  show "\<exists>s'. rp_stop_signal s = ret s' \<and> rp_inv opts pick s'" if m: "r_stop s = RMarked"
  proof -
    have n: "\<not> r_closeCh s" using c(2) m by simp
    let ?s = "s\<lparr>r_closeCh := True, r_stop := RWaiting\<rparr>"
    show ?thesis
    proof (cases "r_started s")
      case True
      have "rp_inv opts pick ?s"
        by (rule control_only [OF inv])
          (use c(1,3,5-7) consumer_ok_mono [OF c(4), of True] m True in \<open>simp_all add: r_flight_def rp_control_def\<close>)
      with n True show ?thesis by (simp add: rp_stop_signal_def Let_def)
    next
      case False
      then have pc: "r_pc s = NotRunning" using c(3) by simp
      have "rp_inv opts pick ((closeDone ?s)\<lparr>r_early := True\<rparr>)"
        by (rule control_only [OF inv]) (use c m False pc in \<open>simp_all add: r_flight_def rp_control_def closeDone_def\<close>)
      with n False show ?thesis by (simp add: rp_stop_signal_def Let_def)
    qed
  qed
qed

text \<open>A bound on the steps of the consumer once \<open>closeCh\<close> is closed.\<close>

definition rp_left :: "rproc \<Rightarrow> nat" where
  "rp_left s = 3 * length (sq_contents (r_queue s)) + (if r_wakeCh s then 2 else 0) +
     (case r_pc s of NotRunning \<Rightarrow> 3 | Waiting \<Rightarrow> 2 | Draining final \<Rightarrow> if final then 1 else 3
       | Delivering final ps \<Rightarrow> length ps + (if final then 2 else 4) | Ended \<Rightarrow> 0)"

definition rp_good :: "ReadOptions \<Rightarrow> picker \<Rightarrow> rproc \<Rightarrow> rproc go \<Rightarrow> bool" where
  "rp_good opts pick s r \<longleftrightarrow> (\<exists>s'. r = ret s' \<and> rp_inv opts pick s' \<and> r_closeCh s' = r_closeCh s \<and> rp_left s' < rp_left s)"

lemma drainOnce_inv:
  assumes inv: "rp_inv opts pick s" and pc: "r_pc s = Draining final"
  shows "rp_good opts pick s (drainOnce final s)"
proof -
  have data: "rp_data opts pick s" and ctl: "rp_control s" using inv by (simp_all add: rp_inv_def)
  note d = rp_dataD [OF data] and c = rp_controlD [OF ctl]
  have cl: "final \<longrightarrow> r_closeCh s" using c(4) pc by simp
  have ne: "replicate batchBufSize None \<noteq> ([] :: item list)" by (simp add: batchBufSize_def)
  from pop_spec [OF d(1,2) ne, of 0] obtain n b q where
    p: "sq_PopMany (r_queue s) (int batchBufSize) (replicate batchBufSize None) 0 = ret (n, b, q)" "sq_inv pick q"
      "length b = batchBufSize" "n \<le> batchBufSize" "n = 0 \<longleftrightarrow> sq_contents (r_queue s) = []" "take n b @ sq_contents q = sq_contents (r_queue s)"
      "None \<notin> set (sq_contents q)" by (auto simp only: length_replicate)
  have fr: "sq_free (r_queue s) \<Longrightarrow> sq_free q" by (rule sq_PopMany_free [OF p(1)])
  have qd: "r_queued s = live (take n b) @ live (sq_contents q)" using p(6) by (simp add: r_queued_def flip: live_append)
  have fl: "r_flight s = []" using pc by (simp add: r_flight_def)
  show ?thesis
  proof (cases "n = 0")
    case True
    then have e: "sq_contents q = []" "r_queued s = []" using p(5,6) qd by simp_all
    let ?s = "s\<lparr>r_queue := q, r_pc := (if final then Ended else Waiting), r_doneCh := r_doneCh s \<or> final\<rparr>"
    have s: "drainOnce final s = ret ?s" using True p(1) by (simp add: drainOnce_def Let_def closeDone_def)
    have q': "r_queued ?s = []" "r_flight ?s = []" using e(1) by (simp_all add: r_queued_def r_flight_def)
    have "rp_data opts pick ?s" unfolding rp_data_def q' using d p(2,7) fl e(2) fr by simp
    moreover have "rp_control ?s" unfolding rp_control_def q' using c cl pc by auto
    moreover have "rp_left ?s < rp_left s" using e(1) pc p(5) True by (simp add: rp_left_def)
    ultimately show ?thesis using s by (simp add: rp_good_def rp_inv_def)
  next
    case False
    let ?l = "live (take n b)"
    let ?s = "s\<lparr>r_queue := q, r_pc := Delivering final ?l\<rparr>"
    have s: "drainOnce final s = ret ?s" using False p(1) by (simp add: drainOnce_def Let_def)
    have q': "r_queued ?s = live (sq_contents q)" "r_flight ?s = ?l" by (simp_all add: r_queued_def r_flight_def)
    have "rp_data opts pick ?s" unfolding rp_data_def q' using d p(2,7) fl qd fr by simp
    moreover have "rp_control ?s" unfolding rp_control_def q' using c cl pc by auto
    moreover have "rp_left ?s < rp_left s"
    proof -
      have "length ?l \<le> n" using length_live [of "take n b"] by simp
      moreover have "length (sq_contents (r_queue s)) = n + length (sq_contents q)"
        using arg_cong [OF p(6), of length] p(3,4) by simp
      ultimately show ?thesis using False pc by (simp add: rp_left_def)
    qed
    ultimately show ?thesis using s by (simp add: rp_good_def rp_inv_def)
  qed
qed

lemma consume_inv:
  assumes inv: "rp_inv opts pick s" and ready: "rp_ready stop s"
  shows "rp_good opts pick s (consumeRecvQueue stop s)"
proof -
  have data: "rp_data opts pick s" and ctl: "rp_control s" using inv by (simp_all add: rp_inv_def)
  note d = rp_dataD [OF data] and c = rp_controlD [OF ctl]
  show ?thesis
  proof (cases "r_pc s")
    case Waiting
    let ?s = "if stop then s\<lparr>r_pc := Draining True\<rparr> else s\<lparr>r_wakeCh := False, r_pc := Draining False\<rparr>"
    have "rp_inv opts pick ?s"
      by (rule control_only [OF inv]) (use c ready Waiting in \<open>auto simp: r_flight_def rp_control_def rp_ready_def\<close>)
    moreover have "rp_left ?s < rp_left s" using ready Waiting by (auto simp: rp_left_def rp_ready_def)
    ultimately show ?thesis using Waiting by (simp add: rp_good_def consumeRecvQueue_def)
  next
    case (Draining final)
    with drainOnce_inv [OF inv Draining] show ?thesis by (simp add: consumeRecvQueue_def)
  next
    case (Delivering final ps)
    show ?thesis
    proof (cases ps)
      case Nil
      let ?s = "s\<lparr>r_pc := Draining final\<rparr>"
      have "rp_inv opts pick ?s"
        by (rule control_only [OF inv]) (use c Delivering Nil in \<open>auto simp: r_flight_def rp_control_def\<close>)
      moreover have "rp_left ?s < rp_left s" using Delivering Nil by (simp add: rp_left_def)
      ultimately show ?thesis using Delivering Nil by (simp add: rp_good_def consumeRecvQueue_def)
    next
      case (Cons p rest)
      let ?s = "s\<lparr>r_delivered := r_delivered s @ [p], r_pc := Delivering final rest\<rparr>"
      have q': "r_queued ?s = r_queued s" "r_flight ?s = rest" by (simp_all add: r_queued_def r_flight_def)
      have "r_flight s = p # rest" using Delivering Cons by (simp add: r_flight_def)
      then have "rp_data opts pick ?s" unfolding rp_data_def q' using d by simp
      moreover have "rp_control ?s" unfolding rp_control_def q' using c Delivering by auto
      moreover have "rp_left ?s < rp_left s" using Delivering Cons by (simp add: rp_left_def)
      ultimately show ?thesis using Delivering Cons by (simp add: rp_good_def rp_inv_def consumeRecvQueue_def)
    qed
  qed (use ready in \<open>simp_all add: rp_ready_def\<close>)
qed

lemma rp_step_inv:
  assumes "rp_step opts pick s r" and inv: "rp_inv opts pick s"
  shows "\<exists>s'. r = ret s' \<and> rp_inv opts pick s'"
  using assms(1)
proof cases
  case (packet p)
  with producer_inv(1) [OF inv, of p] show ?thesis by auto
next
  case (recv data split)
  with producer_inv(2) [OF inv, of data split] show ?thesis by auto
next
  case (consume stop)
  with consume_inv [OF inv, of stop] show ?thesis by (auto simp: rp_good_def)
next
  case signal
  with other_inv(4) [OF inv] show ?thesis by blast
qed (use other_inv(1,2,3,5) [OF inv] in blast)+

lemma rp_reachable_inv:
  assumes "rp_reachable opts pick s0 s" and "rp_inv opts pick s0"
  shows "rp_inv opts pick s"
  using assms(1)
proof (induction rule: rp_reachable.induct)
  case (step s s')
  then show ?case using rp_step_inv [OF step.hyps(2) step.IH] by auto
qed (rule assms(2))

subsection \<open>The consumer on its own\<close>

fun rp_run :: "bool list \<Rightarrow> rproc \<Rightarrow> rproc go" where
  "rp_run [] s = ret s"
| "rp_run (stop # choices) s =
     (if r_pc s = Ended then ret s
      else do { s \<leftarrow> consumeRecvQueue (if rp_ready stop s then stop else \<not> stop) s; rp_run choices s })"

lemma closed_ready:
  assumes "r_closeCh s" "r_pc s \<noteq> NotRunning" "r_pc s \<noteq> Ended"
  shows "rp_ready (if rp_ready stop s then stop else \<not> stop) s"
  using assms by (cases stop) (auto simp: rp_ready_def split: consumer_pc.splits)

lemma running_kept: "consumeRecvQueue stop s = ret s' \<Longrightarrow> r_pc s \<noteq> NotRunning \<Longrightarrow> r_pc s' \<noteq> NotRunning"
  by (auto simp: consumeRecvQueue_def drainOnce_def closeDone_def Let_def bind_eq_Some_conv
      split: consumer_pc.splits list.splits if_splits)

lemma rp_run_ends:
  assumes "rp_inv opts pick s" and "r_closeCh s" and "r_pc s \<noteq> NotRunning" and "rp_left s \<le> length choices"
  shows "\<exists>s'. rp_run choices s = ret s' \<and> rp_inv opts pick s' \<and> r_pc s' = Ended"
  using assms
proof (induction choices arbitrary: s)
  case Nil
  then have "r_pc s = Ended" by (cases "r_pc s") (auto simp: rp_left_def split: if_splits)
  with Nil show ?case by simp
next
  case (Cons stop choices)
  show ?case
  proof (cases "r_pc s = Ended")
    case False
    note ready = closed_ready [OF Cons.prems(2,3) False, of stop]
    obtain s1 where s1: "consumeRecvQueue (if rp_ready stop s then stop else \<not> stop) s = ret s1" "rp_inv opts pick s1"
      "r_closeCh s1" "rp_left s1 < rp_left s"
      using consume_inv [OF Cons.prems(1) ready] Cons.prems(2) by (auto simp: rp_good_def)
    from Cons.IH [OF s1(2,3) running_kept [OF s1(1) Cons.prems(3)]] s1(1,4) Cons.prems(4) False show ?thesis by simp
  qed (use Cons.prems in simp)
qed

end
