(* ===== verification/ReadProps.thy ===== *)
theory ReadProps
  imports ReadProc WorkerQueue
begin

section \<open>The other read processors, and properties\<close>

subsection \<open>Reading without a queue\<close>

text \<open>
  src/kknet/kkprocessor/read_sync.go: the goroutine that reads calls the handler itself, under the mutex
  that \<open>Stop\<close> takes; each operation is one step. \<open>tryAcquireRecvSlot\<close> is always true.
\<close>

record sproc =
  y_conn :: bool
  y_closing :: bool
  y_delivered :: "bytebuffer list"

definition NewSyncReadProcessor :: "ReadOptions \<Rightarrow> (ReadOptions \<times> sproc) go" where
  "NewSyncReadProcessor opts =
     (let opts = CheckReadOptions opts
      in if ro_NoneCopyHandler opts = None then panic
         else ret (opts, \<lparr>y_conn = False, y_closing = False, y_delivered = []\<rparr>))"

definition sr_Start :: "bool \<Rightarrow> sproc \<Rightarrow> sproc" where
  "sr_Start conn s = (let s = s\<lparr>y_conn := conn\<rparr> in if \<not> conn then s else s\<lparr>y_closing := False\<rparr>)"

definition sr_Stop :: "sproc \<Rightarrow> sproc" where
  "sr_Stop s = s\<lparr>y_closing := True, y_conn := False\<rparr>"

definition sr_EnqueuePacket :: "bytebuffer \<Rightarrow> sproc \<Rightarrow> kkerror option \<times> sproc" where
  "sr_EnqueuePacket packet s =
     (if packet = [] then (None, s)
      else if y_closing s then (None, s)
      else (None, s\<lparr>y_delivered := y_delivered s @ [packet]\<rparr>))"

definition sr_OnRecvBytes :: "byte list \<Rightarrow> bytebuffer list \<times> kkerror option \<Rightarrow> sproc \<Rightarrow> kkerror option \<times> sproc" where
  "sr_OnRecvBytes data split s =
     (if data = [] then (None, s)
      else if y_closing s then (None, s)
      else case split of
        (packets, Some err) \<Rightarrow> (Some err, s)
      | (packets, None) \<Rightarrow>
          if packets = [] then (None, s)
          else (None, s\<lparr>y_delivered := y_delivered s @ packets\<rparr>))"

subsection \<open>Reading through a worker queue\<close>

text \<open>
  src/kknet/kkprocessor/read_worker.go: every packet becomes a job of a worker queue, the modelled one;
  the job is the packet the handler is called with. The check for a free slot and the push are one step:
  there is one producer, so between them jobs can only end.
\<close>

record vproc =
  v_work :: "bytebuffer wq_run"
  v_closing :: bool
  v_callbacks :: nat
  v_accepted :: "bytebuffer list"

definition NewWorkerReadProcessor :: "ReadOptions \<Rightarrow> (ReadOptions \<times> vproc) go" where
  "NewWorkerReadProcessor opts =
     (let opts = CheckReadOptions opts
      in if ro_RawHandler opts = None then panic
         else
           let maxConc = ro_WorkerQueueMaxConcurrency opts;
               maxConc = (if maxConc \<le> 0 then 1 else maxConc)
           in ret (opts, \<lparr>v_work = wq_start maxConc, v_closing = False, v_callbacks = 0, v_accepted = []\<rparr>))"

definition vr_Pending :: "vproc \<Rightarrow> int" where
  "vr_Pending s = wq_Len (wr_queue (v_work s))"

definition vr_Stop :: "vproc \<Rightarrow> vproc" where
  "vr_Stop s = s\<lparr>v_closing := True\<rparr>"

definition vr_tryAcquireRecvSlot :: "ReadOptions \<Rightarrow> vproc \<Rightarrow> bool \<times> vproc" where
  "vr_tryAcquireRecvSlot opts s =
     (if \<not> ro_RecvQueueStrict opts then (True, s)
      else if vr_Pending s \<ge> ro_RecvQueueSize opts
      then (False, s\<lparr>v_callbacks := v_callbacks s + (if ro_RecvQueueFullCallback opts \<noteq> None then 1 else 0)\<rparr>)
      else (True, s))"

definition vr_submitTask :: "bytebuffer \<Rightarrow> vproc \<Rightarrow> vproc go" where
  "vr_submitTask bb s =
     (if v_closing s then ret s
      else do { w \<leftarrow> wq_Push (v_work s) bb; ret (s\<lparr>v_work := w, v_accepted := v_accepted s @ [bb]\<rparr>) })"

definition vr_EnqueuePacket :: "ReadOptions \<Rightarrow> bytebuffer \<Rightarrow> vproc \<Rightarrow> (kkerror option \<times> vproc) go" where
  "vr_EnqueuePacket opts packet s =
     (if packet = [] then ret (None, s)
      else if v_closing s then ret (None, s)
      else case vr_tryAcquireRecvSlot opts s of
        (False, s) \<Rightarrow> ret (Some ErrNetRecvQueueFull, s)
      | (True, s) \<Rightarrow> do { s \<leftarrow> vr_submitTask packet s; ret (None, s) })"

fun vr_loop :: "ReadOptions \<Rightarrow> bytebuffer list \<Rightarrow> vproc \<Rightarrow> (kkerror option \<times> vproc) go" where
  "vr_loop opts [] s = ret (None, s)"
| "vr_loop opts (packet # packets) s =
     (if packet = [] then vr_loop opts packets s
      else case vr_tryAcquireRecvSlot opts s of
        (False, s) \<Rightarrow> ret (Some ErrNetRecvQueueFull, s)
      | (True, s) \<Rightarrow> do { s \<leftarrow> vr_submitTask packet s; vr_loop opts packets s })"

definition vr_OnRecvBytes :: "ReadOptions \<Rightarrow> byte list \<Rightarrow> bytebuffer list \<times> kkerror option \<Rightarrow> vproc \<Rightarrow> (kkerror option \<times> vproc) go" where
  "vr_OnRecvBytes opts data split s =
     (if data = [] then ret (None, s)
      else if v_closing s then ret (None, s)
      else case split of
        (packets, Some err) \<Rightarrow> ret (Some err, s)
      | (packets, None) \<Rightarrow> vr_loop opts packets s)"

text \<open>
  The producer goes through its packets one at a time while jobs end; \<open>vr_OnRecvBytes\<close> without such an
  interruption is a sequence of these steps.
\<close>

inductive vr_reachable :: "ReadOptions \<Rightarrow> vproc \<Rightarrow> vproc \<Rightarrow> bool" for opts s0 where
  init: "vr_reachable opts s0 s0"
| packet: "vr_reachable opts s0 s \<Longrightarrow> vr_EnqueuePacket opts p s = ret (e, s') \<Longrightarrow> vr_reachable opts s0 s'"
| recv: "vr_reachable opts s0 s \<Longrightarrow> vr_OnRecvBytes opts data split s = ret (e, s') \<Longrightarrow> vr_reachable opts s0 s'"
| job: "vr_reachable opts s0 s \<Longrightarrow> i < length (wr_running (v_work s)) \<Longrightarrow> wq_do (v_work s) i = ret w \<Longrightarrow>
    vr_reachable opts s0 (s\<lparr>v_work := w\<rparr>)"
| stop: "vr_reachable opts s0 s \<Longrightarrow> vr_reachable opts s0 (vr_Stop s)"

definition vr_inv :: "int \<Rightarrow> vproc \<Rightarrow> bool" where
  "vr_inv m s \<longleftrightarrow> wq_reachable m (v_work s) \<and> wr_pushed (v_work s) = v_accepted s"

lemma tryAcquire_same: "vr_tryAcquireRecvSlot opts s = (ok, s') \<Longrightarrow> v_work s' = v_work s \<and> v_accepted s' = v_accepted s \<and> v_closing s' = v_closing s"
  by (auto simp: vr_tryAcquireRecvSlot_def split: if_splits)

lemma submit_inv:
  assumes "vr_inv m s"
  shows "\<exists>s'. vr_submitTask bb s = ret s' \<and> vr_inv m s' \<and> v_accepted s' = v_accepted s @ (if v_closing s then [] else [bb]) \<and>
    v_closing s' = v_closing s"
proof (cases "v_closing s")
  case False
  have r: "wq_reachable m (v_work s)" using assms by (simp add: vr_inv_def)
  from wq_Push_inv [OF reachable_inv [OF r], of bb] obtain w where
    w: "wq_Push (v_work s) bb = ret w" "wr_pushed w = wr_pushed (v_work s) @ [bb]" by blast
  with assms False wq_reachable.push [OF r w(1)] show ?thesis by (simp add: vr_submitTask_def vr_inv_def)
qed (use assms in \<open>simp add: vr_submitTask_def\<close>)

lemma vr_loop_inv: "vr_inv m s \<Longrightarrow> \<exists>e s'. vr_loop opts packets s = ret (e, s') \<and> vr_inv m s'"
proof (induction packets arbitrary: s)
  case (Cons p ps)
  obtain ok s1 where t: "vr_tryAcquireRecvSlot opts s = (ok, s1)" by fastforce
  have i: "vr_inv m s1" using Cons.prems tryAcquire_same [OF t] by (simp add: vr_inv_def)
  from submit_inv [OF i, of p] obtain s2 where s2: "vr_submitTask p s1 = ret s2" "vr_inv m s2" by blast
  from Cons.IH [OF s2(2)] Cons.IH [OF Cons.prems] t i s2(1) show ?case by (cases ok) auto
qed simp

lemma vr_ops_inv:
  assumes "vr_inv m s"
  shows "\<exists>e s'. vr_EnqueuePacket opts p s = ret (e, s') \<and> vr_inv m s'"
    and "\<exists>e s'. vr_OnRecvBytes opts data split s = ret (e, s') \<and> vr_inv m s'"
proof -
  obtain ok s1 where t: "vr_tryAcquireRecvSlot opts s = (ok, s1)" by fastforce
  have i: "vr_inv m s1" using assms tryAcquire_same [OF t] by (simp add: vr_inv_def)
  from submit_inv [OF i, of p] obtain s2 where s2: "vr_submitTask p s1 = ret s2" "vr_inv m s2" by blast
  with assms t i show "\<exists>e s'. vr_EnqueuePacket opts p s = ret (e, s') \<and> vr_inv m s'"
    by (cases ok) (auto simp: vr_EnqueuePacket_def)
  show "\<exists>e s'. vr_OnRecvBytes opts data split s = ret (e, s') \<and> vr_inv m s'"
    using assms vr_loop_inv [OF assms] by (auto simp: vr_OnRecvBytes_def split: prod.splits option.splits)
qed

lemma vr_reachable_inv: "vr_reachable opts s0 s \<Longrightarrow> vr_inv m s0 \<Longrightarrow> vr_inv m s"
proof (induction rule: vr_reachable.induct)
  case (packet s p e s')
  from vr_ops_inv(1) [OF packet.IH [OF packet.prems], of opts p] packet.hyps show ?case by auto
next
  case (recv s data split e s')
  from vr_ops_inv(2) [OF recv.IH [OF recv.prems], of opts data split] recv.hyps show ?case by auto
next
  case (job s i w)
  have inv: "vr_inv m s" using job.IH job.prems by blast
  then have r: "wq_reachable m (v_work s)" by (simp add: vr_inv_def)
  from wq_do_inv [OF reachable_inv [OF r] job.hyps(2)] job.hyps(3) have "wr_pushed w = wr_pushed (v_work s)" by auto
  with inv wq_reachable.finish [OF r job.hyps(2,3)] show ?case by (simp add: vr_inv_def)
qed (simp_all add: vr_inv_def vr_Stop_def)

text \<open>One worker that has nothing left has run every accepted packet, in order.\<close>

lemma vr_idle:
  assumes "vr_inv 1 s" and "wr_running (v_work s) = []"
  shows "wr_finished (v_work s) = v_accepted s"
proof -
  have r: "wq_reachable 1 (v_work s)" and p: "wr_pushed (v_work s) = v_accepted s" using assms(1) by (simp_all add: vr_inv_def)
  note I = reachable_inv [OF r, unfolded wq_inv_def Let_def]
  have "wq_waiting (v_work s) = []" using I assms(2) by force
  then have "map Some (wr_pushed (v_work s)) = map Some (wr_started (v_work s))" using I by simp
  then have "wr_pushed (v_work s) = wr_started (v_work s)" by (simp add: inj_map_eq_map)
  with serial_order [OF r] assms(2) p show ?thesis by simp
qed

subsection \<open>Properties of the read processors\<close>

text \<open>
  C9: in every interleaving of the reading goroutine, the consumer, \<open>Start\<close> and \<open>Stop\<close> no step panics, and
  the packets handed to the handler, those of the batch being handed over and the queued ones are, in this
  order, exactly the accepted ones, each once; these are a subsequence of what arrived, and without strict
  mode, as long as the processor is not closing, all of it.
\<close>

theorem read_processor_delivers:
  assumes "valid_picker pick" and "distinct (nh_pool h)" and "\<forall>a \<in> set (nh_pool h). a < nh_fresh h"
    and "NewReadProcessor opts h = ret (opts', s0)" and "rp_reachable opts' pick s0 s" and "rp_step opts' pick s r"
  shows "r \<noteq> panic \<and> r_delivered s @ r_flight s @ r_queued s = r_accepted s \<and> subseq (r_accepted s) (r_arrived s) \<and>
    (ro_RecvQueueStrict opts' \<or> r_closing s \<or> r_accepted s = r_arrived s)"
proof -
  note inv = rp_reachable_inv [OF assms(5) NewReadProcessor_inv [OF assms(1-4)]]
  obtain s' where "r = ret s'" using rp_step_inv [OF assms(6) inv] by blast
  with rp_dataD [of opts' pick s] inv show ?thesis by (auto simp: rp_inv_def)
qed

text \<open>
  C10: while packets are queued a running consumer is at work or woken, or the reading goroutine is about
  to wake it; once \<open>Stop\<close> has closed \<open>closeCh\<close> a consumer that was started ends within a bounded number of its
  own steps, whichever ready channel its selects take; and when it has ended, or \<open>doneCh\<close> was closed and not
  by a \<open>Stop\<close> that found no consumer, everything accepted has been delivered, in order.
\<close>

theorem read_processor_progress:
  assumes "valid_picker pick" and "distinct (nh_pool h)" and "\<forall>a \<in> set (nh_pool h). a < nh_fresh h"
    and "NewReadProcessor opts h = ret (opts', s0)" and "rp_reachable opts' pick s0 s"
  shows "(r_queued s = [] \<or> r_pc s = NotRunning \<or> (\<exists>stop. rp_ready stop s) \<or> r_wakers s > 0) \<and>
    (r_closeCh s \<longrightarrow> r_pc s \<noteq> NotRunning \<longrightarrow> rp_left s \<le> length choices \<longrightarrow>
       (\<exists>s'. rp_run choices s = ret s' \<and> r_doneCh s' \<and> r_pc s' = Ended)) \<and>
    (r_pc s = Ended \<or> (r_doneCh s \<and> \<not> r_early s) \<longrightarrow> r_delivered s = r_accepted s)"
proof -
  note inv = rp_reachable_inv [OF assms(5) NewReadProcessor_inv [OF assms(1-4)]]
  then have data: "rp_data opts' pick s" and ctl: "rp_control s" by (simp_all add: rp_inv_def)
  note d = rp_dataD [OF data] and c = rp_controlD [OF ctl]
  have "\<exists>stop. rp_ready stop s" if "r_queued s \<noteq> []" "r_pc s \<noteq> NotRunning" "r_wakers s = 0"
  proof -
    have "rp_ready True s \<or> rp_ready False s"
      using c(4,9) that by (cases "r_pc s") (auto simp: rp_ready_def)
    then show ?thesis by blast
  qed
  moreover have "\<exists>s'. rp_run choices s = ret s' \<and> r_doneCh s' \<and> r_pc s' = Ended"
    if "r_closeCh s" "r_pc s \<noteq> NotRunning" "rp_left s \<le> length choices"
    using rp_run_ends [OF inv that] rp_controlD(4) by (fastforce simp: rp_inv_def)
  moreover have "r_delivered s = r_accepted s" if e: "r_pc s = Ended"
    using d(3) c(4) e by (simp add: r_flight_def)
  ultimately show ?thesis using c(5) by blast
qed

text \<open>
  The three processors call their handlers on the same packets in the same order: when the thread
  processor's consumer has ended, the worker processor's only worker is idle (a maximum concurrency of 1,
  which the order needs) and the synchronous one has
  gone through the chunks, and all of them have accepted the packets of the chunks \<open>css\<close>, each has
  handled exactly the packets of \<open>css\<close> in order.
\<close>

theorem read_processors_agree:
  assumes "valid_picker pick" and "distinct (nh_pool h)" and "\<forall>a \<in> set (nh_pool h). a < nh_fresh h"
    and "NewReadProcessor opts h = ret (o1, t0)" and "rp_reachable o1 pick t0 t" and "r_pc t = Ended" and "r_accepted t = concat css"
    and "NewWorkerReadProcessor opts = ret (o2, v0)" and "ro_WorkerQueueMaxConcurrency opts \<le> 1"
    and "vr_reachable o2 v0 v" and "wr_running (v_work v) = []" and "v_accepted v = concat css"
    and "NewSyncReadProcessor opts' = ret (o3, y0)" and "\<forall>(data, ps) \<in> set (zip ds css). data \<noteq> []" and "length ds = length css"
  shows "r_delivered t = concat css \<and> wr_finished (v_work v) = concat css \<and>
    y_delivered (fold (\<lambda>(data, ps) s. snd (sr_OnRecvBytes data (ps, None) s)) (zip ds css) y0) = concat css"
proof -
  note inv = rp_reachable_inv [OF assms(5) NewReadProcessor_inv [OF assms(1-4)]]
  then have data: "rp_data o1 pick t" and ctl: "rp_control t" by (simp_all add: rp_inv_def)
  have "r_delivered t = concat css"
    using rp_dataD(3) [OF data] rp_controlD(4) [OF ctl] assms(6,7) by (simp add: r_flight_def)
  moreover have m: "ro_WorkerQueueMaxConcurrency (CheckReadOptions opts) = 1"
    using assms(9) by (simp add: CheckReadOptions_def Let_def)
  have v0: "v_work v0 = wq_start 1" "v_accepted v0 = []"
    using assms(8) unfolding NewWorkerReadProcessor_def Let_def m by (auto split: if_splits)
  then have "vr_inv 1 v0" by (simp add: vr_inv_def wq_reachable.start) (simp add: wq_start_def)
  from vr_idle [OF vr_reachable_inv [OF assms(10) this] assms(11)] have "wr_finished (v_work v) = concat css" using assms(12) by simp
  moreover have "y_delivered (fold (\<lambda>(data, ps) s. snd (sr_OnRecvBytes data (ps, None) s)) (zip ds css) s) = y_delivered s @ concat css"
    if "\<not> y_closing s" "length ds = length css" "\<forall>(data, ps) \<in> set (zip ds css). data \<noteq> []" for s
    using that(2,1,3)
    by (induction ds css arbitrary: s rule: list_induct2) (auto simp: sr_OnRecvBytes_def)
  moreover have "\<not> y_closing y0" "y_delivered y0 = []" using assms(13) by (auto simp: NewSyncReadProcessor_def Let_def split: if_splits)
  ultimately show ?thesis using assms(14,15) by simp
qed

text \<open>
  \<open>Stop\<close> before \<open>Start\<close> closes \<open>doneCh\<close> although accepted packets wait: nothing has been delivered, and a
  consumer started later delivers them after \<open>Stop\<close> has returned.
\<close>

lemma stop_before_start:
  assumes "r_pc s = NotRunning" and "\<not> r_started s" and "\<not> r_closeCh s"
  shows "\<exists>s'. rp_stop_signal (rp_stop_mark s) = ret s' \<and> r_doneCh s' \<and> r_queued s' = r_queued s \<and> r_delivered s' = r_delivered s"
  using assms by (simp add: rp_stop_signal_def rp_stop_mark_def closeDone_def r_queued_def Let_def)

subsection \<open>Runs\<close>

definition read_opts :: ReadOptions where
  "read_opts = DefaultReadOptions\<lparr>ro_RecvQueueStrict := True, ro_RecvQueueSize := 4, ro_RawHandler := Some 0, ro_NoneCopyHandler := Some 0\<rparr>"

definition read_start :: "ReadOptions \<times> rproc" where
  "read_start = the (NewReadProcessor read_opts empty_nodes)"

datatype read_act = RStart | RRecv "bytebuffer list" | RWake | RStop | RSignal | RConsume bool

fun read_do :: "rproc \<Rightarrow> read_act \<Rightarrow> rproc go" where
  "read_do s RStart = (if r_pc s = NotRunning then ret (rp_Start True s) else panic)"
| "read_do s (RRecv ps) = map_option snd (rp_OnRecvBytes (fst read_start) lifo [1] (ps, None) s)"
| "read_do s RWake = (if r_wakers s > 0 then ret (wakeConsumer (s\<lparr>r_wakers := r_wakers s - 1\<rparr>)) else panic)"
| "read_do s RStop = (if r_stop s = RNotStopped then ret (rp_stop_mark s) else panic)"
| "read_do s RSignal = (if r_stop s = RMarked then rp_stop_signal s else panic)"
| "read_do s (RConsume stop) = (if rp_ready stop s then consumeRecvQueue stop s else panic)"

primrec read_run :: "read_act list \<Rightarrow> rproc \<Rightarrow> rproc go" where
  "read_run [] s = ret s"
| "read_run (a # as) s = do { s \<leftarrow> read_do s a; read_run as s }"

lemma read_do_step: "read_do s a = ret s' \<Longrightarrow> rp_step (fst read_start) lifo s (ret s')"
proof (cases a)
  case RStart
  then show "read_do s a = ret s' \<Longrightarrow> ?thesis" using rp_step.start [of s "fst read_start" lifo True] by (simp split: if_splits)
next
  case (RRecv ps)
  then show "read_do s a = ret s' \<Longrightarrow> ?thesis" using rp_step.recv [of "fst read_start" lifo s "[1]" "(ps, None)"] by (metis read_do.simps(2))
next
  case RWake
  then show "read_do s a = ret s' \<Longrightarrow> ?thesis" using rp_step.wake [of s "fst read_start" lifo] by (simp split: if_splits)
next
  case RStop
  then show "read_do s a = ret s' \<Longrightarrow> ?thesis" using rp_step.mark [of s "fst read_start" lifo] by (simp split: if_splits)
next
  case RSignal
  then show "read_do s a = ret s' \<Longrightarrow> ?thesis" using rp_step.signal [of s "fst read_start" lifo] by (simp split: if_splits)
next
  case (RConsume stop)
  then show "read_do s a = ret s' \<Longrightarrow> ?thesis" using rp_step.consume [of stop s "fst read_start" lifo] by (simp split: if_splits)
qed

lemma read_run_reachable: "rp_reachable (fst read_start) lifo s0 s \<Longrightarrow> read_run as s = ret s' \<Longrightarrow> rp_reachable (fst read_start) lifo s0 s'"
  by (induction as arbitrary: s) (auto simp: bind_eq_Some_conv intro: rp_reachable.step dest: read_do_step)

definition read_check :: "(rproc \<Rightarrow> bool) \<Rightarrow> rproc go \<Rightarrow> bool" where
  "read_check P r = (case r of None \<Rightarrow> False | Some s \<Rightarrow> P s)"

lemma read_checkE:
  assumes "read_check P (read_run as (snd read_start))"
  obtains s' where "P s'" "rp_reachable (fst read_start) lifo (snd read_start) s'"
  using assms read_run_reachable [OF rp_reachable.init] by (auto simp: read_check_def split: option.splits)

text \<open>Three packets arrive in two chunks and \<open>Stop\<close> closes the channel; and the end of the run.\<close>

lemma read_stopping:
  "read_check (\<lambda>s. r_closeCh s \<and> r_pc s = Waiting \<and> rp_left s \<le> 20 \<and> r_accepted s = [[1], [2], [3]])
     (read_run [RStart, RRecv [[1], [2]], RRecv [[3]], RStop, RSignal] (snd read_start))"
  by code_simp

lemma read_ended:
  "read_check (\<lambda>s. r_pc s = Ended \<and> r_accepted s = [[1], [2], [3]])
     (read_run ([RStart, RRecv [[1], [2]], RRecv [[3]], RStop, RSignal] @ replicate 7 (RConsume True)) (snd read_start))"
  by code_simp

lemma read_New: "NewReadProcessor read_opts empty_nodes = ret (fst read_start, snd read_start)"
  by (simp add: read_start_def NewReadProcessor_def read_opts_def Let_def)

lemma read_setup: "valid_picker lifo" "distinct (nh_pool empty_nodes)" "\<forall>a \<in> set (nh_pool empty_nodes). a < nh_fresh empty_nodes"
  by (rule lifo_valid) (simp_all add: empty_nodes_def)

lemma read_processor_delivers_witness:
  "\<exists>s. r_accepted s = [[1], [2], [3]] \<and> r_delivered s @ r_flight s @ r_queued s = [[1], [2], [3]]"
proof -
  obtain s where s: "r_accepted s = [[1], [2], [3]]" "rp_reachable (fst read_start) lifo (snd read_start) s"
    by (rule read_checkE [OF read_stopping]) blast
  from read_processor_delivers [OF read_setup read_New s(2) rp_step.recv] s(1) show ?thesis by metis
qed

lemma read_processor_progress_witness:
  "\<exists>s s'. rp_reachable (fst read_start) lifo (snd read_start) s \<and> rp_run (replicate 20 False) s = ret s' \<and> r_doneCh s'"
proof -
  obtain s where s: "r_closeCh s" "r_pc s = Waiting" "rp_left s \<le> 20" "rp_reachable (fst read_start) lifo (snd read_start) s"
    by (rule read_checkE [OF read_stopping]) blast
  from read_processor_progress [OF read_setup read_New s(4), of "replicate 20 False"] s show ?thesis by auto
qed

text \<open>The same chunks through the worker processor.\<close>

definition vread_start :: "ReadOptions \<times> vproc" where
  "vread_start = the (NewWorkerReadProcessor read_opts)"

definition vread_end :: "vproc go" where
  "vread_end = do {
     (e, s) \<leftarrow> vr_OnRecvBytes (fst vread_start) [1] ([[1], [2]], None) (snd vread_start);
     (e, s) \<leftarrow> vr_OnRecvBytes (fst vread_start) [1] ([[3]], None) s;
     w \<leftarrow> wq_do (v_work s) 0; w \<leftarrow> wq_do w 0; w \<leftarrow> wq_do w 0;
     ret (s\<lparr>v_work := w\<rparr>) }"

lemma vread_end_state:
  "case vread_end of None \<Rightarrow> False | Some s \<Rightarrow> wr_running (v_work s) = [] \<and> v_accepted s = [[1], [2], [3]]"
  by code_simp

lemma vr_job: "vr_reachable opts s0 s \<Longrightarrow> wq_do (v_work s) i = ret w \<Longrightarrow> vr_reachable opts s0 (s\<lparr>v_work := w\<rparr>)"
proof -
  assume "vr_reachable opts s0 s" and d: "wq_do (v_work s) i = ret w"
  moreover have "i < length (wr_running (v_work s))"
    using d by (cases "i < length (wr_running (v_work s))") (simp_all add: wq_do_def index_go_def)
  ultimately show ?thesis by (intro vr_reachable.job)
qed

lemma vread_reachable:
  assumes "vread_end = ret s"
  shows "vr_reachable (fst vread_start) (snd vread_start) s"
proof -
  from assms obtain e1 s1 e2 s2 w1 w2 w3 where r: "vr_OnRecvBytes (fst vread_start) [1] ([[1], [2]], None) (snd vread_start) = ret (e1, s1)"
    "vr_OnRecvBytes (fst vread_start) [1] ([[3]], None) s1 = ret (e2, s2)"
    "wq_do (v_work s2) 0 = ret w1" "wq_do w1 0 = ret w2" "wq_do w2 0 = ret w3" "s = s2\<lparr>v_work := w3\<rparr>"
    by (auto simp: vread_end_def bind_eq_Some_conv)
  have "vr_reachable (fst vread_start) (snd vread_start) s2"
    by (rule vr_reachable.recv [OF vr_reachable.recv [OF vr_reachable.init r(1)] r(2)])
  from vr_job [OF this r(3)] have "vr_reachable (fst vread_start) (snd vread_start) (s2\<lparr>v_work := w1\<rparr>)" .
  from vr_job [OF this, of 0 w2] r(4) have "vr_reachable (fst vread_start) (snd vread_start) (s2\<lparr>v_work := w2\<rparr>)" by simp
  from vr_job [OF this, of 0 w3] r(5,6) show ?thesis by simp
qed

lemma read_processors_agree_witness:
  "\<exists>(t :: rproc) (v :: vproc) (y0 :: sproc). r_delivered t = [[1], [2], [3]] \<and> wr_finished (v_work v) = [[1], [2], [3]] \<and>
     y_delivered (fold (\<lambda>(data, ps) s. snd (sr_OnRecvBytes data (ps, None) s)) [([7], [[1], [2]]), ([8], [[3]])] y0) = [[1], [2], [3]]"
proof -
  obtain t where t: "r_pc t = Ended" "r_accepted t = [[1], [2], [3]]" "rp_reachable (fst read_start) lifo (snd read_start) t"
    by (rule read_checkE [OF read_ended]) blast
  obtain v where v: "vread_end = ret v" "wr_running (v_work v) = []" "v_accepted v = [[1], [2], [3]]"
    using vread_end_state by (auto split: option.splits)
  have vn: "NewWorkerReadProcessor read_opts = ret (fst vread_start, snd vread_start)" "ro_WorkerQueueMaxConcurrency read_opts \<le> 1"
    by (simp_all add: vread_start_def NewWorkerReadProcessor_def read_opts_def Let_def DefaultReadOptions_def)
  obtain o3 y0 where y: "NewSyncReadProcessor read_opts = ret (o3, y0)"
    by (simp add: NewSyncReadProcessor_def read_opts_def Let_def)
  have "r_delivered t = [[1], [2], [3]] \<and> wr_finished (v_work v) = [[1], [2], [3]] \<and>
     y_delivered (fold (\<lambda>(data, ps) s. snd (sr_OnRecvBytes data (ps, None) s)) [([7], [[1], [2]]), ([8], [[3]])] y0) = [[1], [2], [3]]"
    using read_processors_agree [OF read_setup read_New t(3,1) _ vn vread_reachable [OF v(1)] v(2) _ y, of "[[[1], [2]], [[3]]]" "[[7], [8]]"]
      t(2) v(3) by simp
  then show ?thesis by blast
qed

end
