(* ===== verification/DelayHeap.thy ===== *)
theory DelayHeap
  imports Prelude "HOL-Library.Multiset"
begin

section \<open>Delay queue: the priority queue (utils/timingwheel/delayqueue)\<close>

text \<open>
  \<open>priorityQueue\<close> and the operations of container/heap it is used with.  An item carries its
  position (\<open>Index\<close>), which \<open>Swap\<close>, \<open>Push\<close> and \<open>Pop\<close> keep up to date; \<open>Push\<close> doubles the
  capacity of a full slice, and panics when that capacity is 0.  Priorities are the code's int64
  milliseconds, an \<open>int\<close> whose additions and subtractions are wrapped by \<open>i64\<close>.

  The lemmas: \<open>up\<close> and \<open>down\<close> repair a heap that is wrong in one place and permute its items, so
  that \<open>Offer\<close> adds an item to a bag and \<open>PeekAndShift\<close> takes a least one out of it.
\<close>

definition i64 :: "int \<Rightarrow> int" where
  "i64 x = signed_take_bit 63 x"

lemma i64_id [simp]: "- (2 ^ 63) \<le> x \<Longrightarrow> x < 2 ^ 63 \<Longrightarrow> i64 x = x"
  unfolding i64_def by (rule signed_take_bit_int_eq_self) simp_all

subsection \<open>Items, and \<open>Less\<close> and \<open>Swap\<close>\<close>

record 'v pqitem =
  Value :: 'v
  Priority :: int
  Index :: int

record 'v pqueue =
  slots :: "'v pqitem list"
  room :: nat  \<comment> \<open>the capacity of the slice\<close>

definition newPriorityQueue :: "nat \<Rightarrow> 'v pqueue" where
  "newPriorityQueue n = \<lparr>slots = [], room = n\<rparr>"

definition pq_Less :: "'v pqitem list \<Rightarrow> nat \<Rightarrow> nat \<Rightarrow> bool" where
  "pq_Less h i j \<longleftrightarrow> Priority (h ! i) < Priority (h ! j)"

definition pq_Swap :: "'v pqitem list \<Rightarrow> nat \<Rightarrow> nat \<Rightarrow> 'v pqitem list" where
  "pq_Swap h i j = h[i := (h ! j)\<lparr>Index := int i\<rparr>, j := (h ! i)\<lparr>Index := int j\<rparr>]"

subsection \<open>container/heap\<close>

text \<open>
  \<open>up\<close> and \<open>down\<close> give the slice and the place where the moved item has come to rest; that of \<open>up\<close>
  is how the model follows the pointer \<open>Offer\<close> reads the index from.
\<close>

fun heap_up :: "'v pqitem list \<Rightarrow> nat \<Rightarrow> 'v pqitem list \<times> nat" where
  "heap_up h j = (let i = (j - 1) div 2 in
     if i = j \<or> \<not> pq_Less h j i then (h, j) else heap_up (pq_Swap h i j) i)"

declare heap_up.simps [simp del]

text \<open>The child \<open>down\<close> compares with: the right one when it exists and is less than the left one.\<close>

definition least_child :: "'v pqitem list \<Rightarrow> nat \<Rightarrow> nat \<Rightarrow> nat" where
  "least_child h i n = (let j1 = 2 * i + 1; j2 = j1 + 1 in if j2 < n \<and> pq_Less h j2 j1 then j2 else j1)"

function heap_down :: "'v pqitem list \<Rightarrow> nat \<Rightarrow> nat \<Rightarrow> 'v pqitem list \<times> nat" where
  "heap_down h i n =
     (if n \<le> 2 * i + 1 then (h, i)
      else let j = least_child h i n in
        if \<not> pq_Less h j i then (h, i) else heap_down (pq_Swap h i j) j n)"
  by pat_completeness auto
termination
  by (relation "measure (\<lambda>(h, i, n). n - i)") (auto simp: least_child_def Let_def split: if_splits)

declare heap_down.simps [simp del]

subsection \<open>\<open>Push\<close>, \<open>Pop\<close> and the operations of the delay queue on it\<close>

definition pq_Push :: "'v pqueue \<Rightarrow> 'v pqitem \<Rightarrow> 'v pqueue go" where
  "pq_Push q x = (let n = length (slots q);
      c = (if room q < n + 1 then room q * 2 else room q) in
      if c < n + 1 then panic
      else ret \<lparr>slots = slots q @ [x\<lparr>Index := int n\<rparr>], room = c\<rparr>)"

definition pq_Pop :: "'v pqueue \<Rightarrow> ('v pqitem \<times> 'v pqueue) go" where
  "pq_Pop q = (let n = length (slots q);
      c = (if n < room q div 2 \<and> 25 < room q then room q div 2 else room q) in
      if n = 0 then panic
      else ret ((slots q ! (n - 1))\<lparr>Index := - 1\<rparr>, \<lparr>slots = take (n - 1) (slots q), room = c\<rparr>))"

definition heap_Push :: "'v pqueue \<Rightarrow> 'v pqitem \<Rightarrow> ('v pqueue \<times> nat) go" where
  "heap_Push q x = do {
     q \<leftarrow> pq_Push q x;
     let (h, at) = heap_up (slots q) (length (slots q) - 1);
     ret (q\<lparr>slots := h\<rparr>, at)}"

definition heap_Remove :: "'v pqueue \<Rightarrow> nat \<Rightarrow> ('v pqitem \<times> 'v pqueue) go" where
  "heap_Remove q i = (if slots q = [] then panic
     else let n = length (slots q) - 1;
       h = (if n \<noteq> i
            then let (h, j) = heap_down (pq_Swap (slots q) i n) i n in if i < j then h else fst (heap_up h i)
            else slots q)
     in pq_Pop (q\<lparr>slots := h\<rparr>))"

text \<open>\<open>Offer\<close> under its lock: the queue, and the index of the new item (\<open>index := item.Index\<close>).\<close>

definition pq_offer :: "'v pqueue \<Rightarrow> 'v \<Rightarrow> int \<Rightarrow> ('v pqueue \<times> int) go" where
  "pq_offer q v p = do {
     (q, at) \<leftarrow> heap_Push q \<lparr>Value = v, Priority = p, Index = 0\<rparr>;
     ret (q, Index (slots q ! at))}"

definition PeekAndShift :: "'v pqueue \<Rightarrow> int \<Rightarrow> ('v pqitem option \<times> int \<times> 'v pqueue) go" where
  "PeekAndShift q mx =
     (if slots q = [] then ret (None, 0, q)
      else let it = slots q ! 0 in
        if mx < Priority it then ret (None, i64 (Priority it - mx), q)
        else do {
          (it, q) \<leftarrow> heap_Remove q 0;
          ret (Some it, 0, q)})"

subsection \<open>The heap order and the bag of a queue\<close>

abbreviation parent :: "nat \<Rightarrow> nat" where "parent k \<equiv> (k - 1) div 2"

definition heap_ordered :: "'v pqitem list \<Rightarrow> nat \<Rightarrow> bool" where
  "heap_ordered h n \<longleftrightarrow> (\<forall>k<n. 0 < k \<longrightarrow> Priority (h ! parent k) \<le> Priority (h ! k))"

definition indexed :: "'v pqitem list \<Rightarrow> bool" where
  "indexed h \<longleftrightarrow> (\<forall>k<length h. Index (h ! k) = int k)"

definition entry :: "'v pqitem \<Rightarrow> 'v \<times> int" where
  "entry it = (Value it, Priority it)"

definition bag :: "'v pqitem list \<Rightarrow> ('v \<times> int) multiset" where
  "bag h = mset (map entry h)"

definition pq_inv :: "'v pqueue \<Rightarrow> bool" where
  "pq_inv q \<longleftrightarrow> heap_ordered (slots q) (length (slots q)) \<and> indexed (slots q) \<and>
     0 < room q \<and> length (slots q) \<le> room q"

lemma Swap_length [simp]: "length (pq_Swap h i j) = length h"
  by (simp add: pq_Swap_def)

lemma Swap_Priority:
  "i < length h \<Longrightarrow> j < length h \<Longrightarrow>
   Priority (pq_Swap h i j ! k) = (if k = j then Priority (h ! i) else if k = i then Priority (h ! j) else Priority (h ! k))"
  by (auto simp: pq_Swap_def nth_list_update)

lemma Swap_entry: "j < length h \<Longrightarrow> i < length h \<Longrightarrow> entry (pq_Swap h i j ! i) = entry (h ! j)"
  by (auto simp: pq_Swap_def nth_list_update entry_def)

lemma Swap_indexed: "indexed h \<Longrightarrow> i < length h \<Longrightarrow> j < length h \<Longrightarrow> indexed (pq_Swap h i j)"
  by (auto simp: indexed_def pq_Swap_def nth_list_update)

lemma Swap_bag [simp]:
  assumes "i < length h" "j < length h"
  shows "bag (pq_Swap h i j) = bag h"
proof -
  have "map entry (pq_Swap h i j) = (map entry h)[i := map entry h ! j, j := map entry h ! i]"
    using assms by (simp add: pq_Swap_def map_update entry_def)
  moreover have "mset ((map entry h)[i := map entry h ! j, j := map entry h ! i]) = mset (map entry h)"
    using assms by (intro mset_swap) simp_all
  ultimately show ?thesis unfolding bag_def by simp
qed

lemma parent_less: "0 < k \<Longrightarrow> parent k < k"
  by arith

lemma parent_cases: "parent k = i \<Longrightarrow> 0 < k \<Longrightarrow> k = 2 * i + 1 \<or> k = 2 * i + 2"
  by arith

subsection \<open>\<open>up\<close> and \<open>down\<close>\<close>

lemma up_spec:
  assumes "j < length h"
  shows "case heap_up h j of (h', at) \<Rightarrow> length h' = length h \<and> at < length h \<and> bag h' = bag h \<and>
         entry (h' ! at) = entry (h ! j) \<and> (indexed h \<longrightarrow> indexed h')"
  using assms
proof (induction h j rule: heap_up.induct)
  case (1 h j)
  show ?case
  proof (cases "parent j = j \<or> \<not> pq_Less h j (parent j)")
    case True
    then show ?thesis using 1(2) by (subst heap_up.simps) (simp add: Let_def)
  next
    case False
    then have "parent j < length h" using 1(2) by arith
    with False 1 show ?thesis
      by (subst heap_up.simps) (auto simp: Let_def Swap_indexed Swap_entry split: prod.splits)
  qed
qed

lemma up_root:
  "heap_up h j = (h', 0) \<Longrightarrow> j < length h \<Longrightarrow> j = 0 \<or> Priority (h ! j) < Priority (h ! 0)"
proof (induction h j arbitrary: h' rule: heap_up.induct)
  case (1 h j)
  show ?case
  proof (cases "parent j = j \<or> \<not> pq_Less h j (parent j)")
    case True
    with 1(2) show ?thesis by (subst (asm) heap_up.simps) (auto simp: Let_def)
  next
    case False
    with 1(2) have up: "heap_up (pq_Swap h (parent j) j) (parent j) = (h', 0)"
      by (subst (asm) heap_up.simps) (auto simp: Let_def)
    have len: "parent j < length h" "parent j < j" using False 1(3) by arith+
    have "parent j = 0 \<or> Priority (h ! j) < Priority (h ! 0)"
      using 1(1) [OF refl False up] len 1(3) by (auto simp: Swap_Priority split: if_splits)
    then show ?thesis using False by (auto simp: pq_Less_def)
  qed
qed

text \<open>A heap whose only fault is that the item at \<open>j\<close> may be smaller than its parent.\<close>

definition up_fault :: "'v pqitem list \<Rightarrow> nat \<Rightarrow> nat \<Rightarrow> bool" where
  "up_fault h n j \<longleftrightarrow>
     (\<forall>k<n. 0 < k \<longrightarrow> k \<noteq> j \<longrightarrow> Priority (h ! parent k) \<le> Priority (h ! k)) \<and>
     (\<forall>k<n. 0 < k \<longrightarrow> 0 < j \<longrightarrow> parent k = j \<longrightarrow> Priority (h ! parent j) \<le> Priority (h ! k))"

lemma up_ordered:
  assumes "up_fault h (length h) j" "j < length h"
  shows "heap_ordered (fst (heap_up h j)) (length h)"
  using assms
proof (induction h j rule: heap_up.induct)
  case (1 h j)
  let ?n = "length h" and ?i = "parent j"
  show ?case
  proof (cases "?i = j \<or> \<not> pq_Less h j ?i")
    case True
    have "heap_ordered h ?n"
      unfolding heap_ordered_def
    proof (intro allI impI)
      fix k assume "k < ?n" "0 < k"
      show "Priority (h ! parent k) \<le> Priority (h ! k)"
      proof (cases "k = j")
        case True
        with \<open>0 < k\<close> have "parent j \<noteq> j" by arith
        with \<open>?i = j \<or> \<not> pq_Less h j ?i\<close> True show ?thesis by (simp add: pq_Less_def)
      qed (use 1(2) \<open>k < ?n\<close> \<open>0 < k\<close> in \<open>auto simp: up_fault_def\<close>)
    qed
    with True show ?thesis by (subst heap_up.simps) (simp add: Let_def)
  next
    case False
    then have i: "?i < j" "?i < ?n" and less: "Priority (h ! j) < Priority (h ! ?i)"
      using 1(3) by (auto simp: pq_Less_def)
    have "up_fault (pq_Swap h ?i j) ?n ?i"
      unfolding up_fault_def
    proof (intro conjI allI impI)
      fix k assume k: "k < ?n" "0 < k" "k \<noteq> ?i"
      show "Priority (pq_Swap h ?i j ! parent k) \<le> Priority (pq_Swap h ?i j ! k)"
      proof (cases "k = j")
        case True
        then show ?thesis using less i 1(3) by (auto simp: Swap_Priority)
      next
        case False
        then have le: "Priority (h ! parent k) \<le> Priority (h ! k)"
          using 1(2) k by (auto simp: up_fault_def)
        have "parent k = j \<Longrightarrow> Priority (h ! ?i) \<le> Priority (h ! k)"
          using 1(2) k i by (auto simp: up_fault_def)
        with le less False k(3) i 1(3) show ?thesis by (auto simp: Swap_Priority)
      qed
    next
      fix k assume k: "k < ?n" "0 < k" "0 < ?i" "parent k = ?i"
      have pp: "parent ?i \<noteq> j" "parent ?i \<noteq> ?i" using i k(3) by arith+
      have up: "Priority (h ! parent ?i) \<le> Priority (h ! ?i)"
        using 1(2) i k(3) by (auto simp: up_fault_def)
      show "Priority (pq_Swap h ?i j ! parent ?i) \<le> Priority (pq_Swap h ?i j ! k)"
      proof (cases "k = j")
        case True
        then show ?thesis using up pp i 1(3) by (simp add: Swap_Priority)
      next
        case False
        then have "Priority (h ! ?i) \<le> Priority (h ! k)"
          using 1(2) k by (auto simp: up_fault_def)
        moreover have "k \<noteq> ?i" using k(2,4) by arith
        ultimately show ?thesis using False up pp i 1(3) by (simp add: Swap_Priority)
      qed
    qed
    with 1 False i show ?thesis by (subst heap_up.simps) (simp add: Let_def)
  qed
qed

lemma least_child_cases:
  assumes "\<not> n \<le> 2 * i + 1"
  shows "least_child h i n < n \<and> 0 < least_child h i n \<and> i < least_child h i n \<and>
     parent (least_child h i n) = i \<and>
     (\<forall>k<n. 0 < k \<longrightarrow> parent k = i \<longrightarrow> Priority (h ! least_child h i n) \<le> Priority (h ! k))"
proof -
  have "Priority (h ! least_child h i n) \<le> Priority (h ! k)"
    if "k < n" "0 < k" "parent k = i" for k
    using parent_cases [OF that(3,2)] that(1) by (auto simp: least_child_def Let_def pq_Less_def)
  moreover have "least_child h i n = 2 * i + 1 \<or> least_child h i n = 2 * i + 2 \<and> 2 * i + 2 < n"
    by (auto simp: least_child_def Let_def)
  ultimately show ?thesis using assms by auto
qed

lemma down_spec:
  assumes "n \<le> length h"
  shows "case heap_down h i n of (h', j) \<Rightarrow>
     length h' = length h \<and> i \<le> j \<and> (j = i \<longrightarrow> h' = h) \<and>
     (\<forall>k\<ge>n. h' ! k = h ! k) \<and> bag h' = bag h \<and> (indexed h \<longrightarrow> indexed h')"
  using assms
proof (induction h i n rule: heap_down.induct)
  case (1 h i n)
  let ?j = "least_child h i n"
  show ?case
  proof (cases "n \<le> 2 * i + 1 \<or> \<not> pq_Less h ?j i")
    case True
    then show ?thesis by (subst heap_down.simps) (auto simp: Let_def)
  next
    case False
    note lc = least_child_cases [of n i h]
    from False lc have j: "i < ?j" "?j < n" by auto
    have keep: "\<forall>k\<ge>n. pq_Swap h i ?j ! k = h ! k" using j by (simp add: pq_Swap_def)
    from False 1 j have "case heap_down (pq_Swap h i ?j) ?j n of (h', j') \<Rightarrow>
       length h' = length h \<and> ?j \<le> j' \<and> (\<forall>k\<ge>n. h' ! k = h ! k) \<and> bag h' = bag h \<and> (indexed h \<longrightarrow> indexed h')"
      using keep by (fastforce simp: Swap_indexed split: prod.splits)
    with j False show ?thesis
      by (subst heap_down.simps) (auto simp: Let_def split: prod.splits)
  qed
qed

text \<open>A heap whose only fault is that the item at \<open>i\<close> may be larger than its children.\<close>

definition down_fault :: "'v pqitem list \<Rightarrow> nat \<Rightarrow> nat \<Rightarrow> bool" where
  "down_fault h n i \<longleftrightarrow>
     (\<forall>k<n. 0 < k \<longrightarrow> parent k \<noteq> i \<longrightarrow> Priority (h ! parent k) \<le> Priority (h ! k)) \<and>
     (\<forall>k<n. 0 < k \<longrightarrow> 0 < i \<longrightarrow> parent k = i \<longrightarrow> Priority (h ! parent i) \<le> Priority (h ! k))"

lemma down_ordered:
  assumes "down_fault h n i" "n \<le> length h"
  shows "heap_ordered (fst (heap_down h i n)) n"
  using assms
proof (induction h i n rule: heap_down.induct)
  case (1 h i n)
  let ?j = "least_child h i n"
  show ?case
  proof (cases "n \<le> 2 * i + 1")
    case True
    have "heap_ordered h n"
      unfolding heap_ordered_def
    proof (intro allI impI)
      fix k assume "k < n" "0 < k"
      then have "parent k \<noteq> i" using True by arith
      with \<open>k < n\<close> \<open>0 < k\<close> 1(2) show "Priority (h ! parent k) \<le> Priority (h ! k)"
        by (simp add: down_fault_def)
    qed
    with True show ?thesis by (subst heap_down.simps) simp
  next
    case inner: False
    note lc = least_child_cases [OF inner, of h]
    show ?thesis
    proof (cases "pq_Less h ?j i")
      case False
      have "heap_ordered h n"
        unfolding heap_ordered_def
      proof (intro allI impI)
        fix k assume k: "k < n" "0 < k"
        show "Priority (h ! parent k) \<le> Priority (h ! k)"
        proof (cases "parent k = i")
          case True
          with lc k have "Priority (h ! ?j) \<le> Priority (h ! k)" by blast
          with False True show ?thesis by (simp add: pq_Less_def)
        qed (use 1(2) k in \<open>simp add: down_fault_def\<close>)
      qed
      with inner False show ?thesis by (subst heap_down.simps) (simp add: Let_def)
    next
      case less: True
      from lc have j: "i < ?j" "?j < n" "parent ?j = i" "0 < ?j" by auto
      have len: "i < length h" "?j < length h" using j 1(3) by auto
      have "down_fault (pq_Swap h i ?j) n ?j"
        unfolding down_fault_def
      proof (intro conjI allI impI)
        fix k assume k: "k < n" "0 < k" "parent k \<noteq> ?j"
        show "Priority (pq_Swap h i ?j ! parent k) \<le> Priority (pq_Swap h i ?j ! k)"
        proof (cases "parent k = i")
          case True
          with lc k have "Priority (h ! ?j) \<le> Priority (h ! k)" by blast
          moreover have "k \<noteq> i" using True k(2) by arith
          ultimately show ?thesis using True j(1) less len by (auto simp: Swap_Priority pq_Less_def)
        next
          case False
          then have le: "Priority (h ! parent k) \<le> Priority (h ! k)"
            using 1(2) k by (simp add: down_fault_def)
          have kj: "k \<noteq> ?j" using False j by auto
          show ?thesis
          proof (cases "k = i")
            case True
            have "0 < i" using True k by simp
            then have "Priority (h ! parent i) \<le> Priority (h ! ?j)"
              using 1(2) j by (simp add: down_fault_def)
            then show ?thesis using True False k(3) kj len by (simp add: Swap_Priority)
          qed (use le False k(3) kj len in \<open>simp add: Swap_Priority\<close>)
        qed
      next
        fix k assume k: "k < n" "0 < k" "0 < ?j" "parent k = ?j"
        have "parent k \<noteq> i" using k(4) j(1) by simp
        then have "Priority (h ! ?j) \<le> Priority (h ! k)"
          using 1(2) k by (metis down_fault_def)
        moreover have "k \<noteq> i" "k \<noteq> ?j" using k j(1) by arith+
        ultimately show "Priority (pq_Swap h i ?j ! parent ?j) \<le> Priority (pq_Swap h i ?j ! k)"
          using j len by (simp add: Swap_Priority)
      qed
      with 1 inner less j show ?thesis by (subst heap_down.simps) (simp add: Let_def)
    qed
  qed
qed

text \<open>The root of a heap is least.\<close>

lemma heap_root_least:
  assumes "heap_ordered h n" "k < n"
  shows "Priority (h ! 0) \<le> Priority (h ! k)"
  using assms(2)
proof (induction k rule: less_induct)
  case (less k)
  show ?case
  proof (cases "k = 0")
    case False
    then have "parent k < k" by arith
    with less have "Priority (h ! 0) \<le> Priority (h ! parent k)" by simp
    also have "\<dots> \<le> Priority (h ! k)" using assms(1) less.prems False by (simp add: heap_ordered_def)
    finally show ?thesis .
  qed simp
qed

subsection \<open>The queue is a bag of which \<open>PeekAndShift\<close> takes a least item\<close>

abbreviation pq_bag :: "'v pqueue \<Rightarrow> ('v \<times> int) multiset" where
  "pq_bag q \<equiv> bag (slots q)"

lemma bag_append [simp]: "bag (h @ g) = bag h + bag g"
  by (simp add: bag_def)

lemma bag_Nil [simp]: "bag [] = {#}"
  by (simp add: bag_def)

lemma bag_sel: "k < length h \<Longrightarrow> entry (h ! k) \<in># bag h"
  by (simp add: bag_def)

lemma bag_nth: "x \<in># bag h \<Longrightarrow> \<exists>k<length h. x = entry (h ! k)"
  by (auto simp: bag_def in_set_conv_nth)

lemma bag_other:
  assumes "k < length h" "at < length h" "k \<noteq> at"
  shows "entry (h ! k) \<in># bag h - {#entry (h ! at)#}"
proof -
  have "h = take at h @ h ! at # drop (Suc at) h" using assms(2) by (rule id_take_nth_drop)
  then have "bag h = bag (take at h) + bag (h ! at # drop (Suc at) h)" by (metis bag_append)
  then have "bag h - {#entry (h ! at)#} = bag (take at h) + bag (drop (Suc at) h)"
    by (simp add: bag_def)
  moreover have "entry (h ! k) \<in># bag (take at h)" if "k < at"
    using bag_sel [of k "take at h"] that assms by simp
  moreover have "entry (h ! k) \<in># bag (drop (Suc at) h)" if "at < k"
    using bag_sel [of "k - Suc at" "drop (Suc at) h"] that assms by simp
  ultimately show ?thesis using assms(3) by (auto simp: nat_neq_iff)
qed

lemma pq_root_least: "pq_inv q \<Longrightarrow> \<forall>x\<in>#pq_bag q. Priority (slots q ! 0) \<le> snd x"
  using heap_root_least [of "slots q" "length (slots q)"]
  by (auto simp: pq_inv_def entry_def dest!: bag_nth)

lemma newPriorityQueue_inv: "0 < n \<Longrightarrow> pq_inv (newPriorityQueue n) \<and> pq_bag (newPriorityQueue n) = {#}"
  by (simp add: pq_inv_def newPriorityQueue_def heap_ordered_def indexed_def)

lemma heap_Push_spec:
  assumes "pq_inv q"
  shows "\<exists>q' at. heap_Push q it = Some (q', at) \<and> pq_inv q' \<and> at < length (slots q') \<and>
     pq_bag q' = pq_bag q + {#entry it#} \<and> entry (slots q' ! at) = entry it \<and>
     (at = 0 \<longrightarrow> slots q = [] \<or> Priority it < Priority (slots q ! 0)) \<and> Index (slots q' ! at) = int at"
proof -
  let ?n = "length (slots q)"
  let ?h = "slots q @ [it\<lparr>Index := int ?n\<rparr>]"
  obtain c where push: "pq_Push q it = Some \<lparr>slots = ?h, room = c\<rparr>" "?n + 1 \<le> c"
    using assms by (cases "room q < ?n + 1") (auto simp: pq_inv_def pq_Push_def Let_def)
  obtain g at where up: "heap_up ?h ?n = (g, at)" by fastforce
  have ord: "\<And>k. k < ?n \<Longrightarrow> 0 < k \<Longrightarrow> Priority (slots q ! parent k) \<le> Priority (slots q ! k)"
    using assms by (simp add: pq_inv_def heap_ordered_def)
  have "up_fault ?h (length ?h) ?n"
    unfolding up_fault_def
  proof (intro conjI allI impI)
    fix k assume "k < length ?h" "0 < k" "k \<noteq> ?n"
    then have "k < ?n" "parent k < ?n" by auto
    then show "Priority (?h ! parent k) \<le> Priority (?h ! k)" using ord \<open>0 < k\<close> by (simp add: nth_append)
  next
    fix k assume "k < length ?h" "0 < k" "parent k = ?n"
    then show "Priority (?h ! parent ?n) \<le> Priority (?h ! k)" by simp
  qed
  from up_ordered [OF this] up have "heap_ordered g (length ?h)" by simp
  moreover have "indexed ?h" using assms by (auto simp: pq_inv_def indexed_def nth_append less_Suc_eq)
  then have g: "length g = length ?h" "at < length ?h" "bag g = bag ?h" "indexed g"
      "entry (g ! at) = entry it"
    using up_spec [of ?n ?h] up by (auto simp: entry_def)
  moreover have "Index (g ! at) = int at" using g by (simp add: indexed_def)
  moreover have "at = 0 \<longrightarrow> slots q = [] \<or> Priority it < Priority (slots q ! 0)"
    using up_root [of ?h ?n g] up by (auto simp: nth_append split: if_splits)
  ultimately show ?thesis using push up
    by (simp add: heap_Push_def pq_inv_def bag_def entry_def)
qed

lemma heap_Remove_spec:
  assumes "pq_inv q" "slots q \<noteq> []"
  shows "\<exists>it q'. heap_Remove q 0 = Some (it, q') \<and> pq_inv q' \<and> entry it = entry (slots q ! 0) \<and>
     pq_bag q = add_mset (entry it) (pq_bag q')"
proof -
  let ?s = "slots q"
  define n where "n = length ?s - 1"
  have len: "length ?s = n + 1" using assms(2) by (cases ?s) (simp_all add: n_def)
  have ord: "\<And>k. k < length ?s \<Longrightarrow> 0 < k \<Longrightarrow> Priority (?s ! parent k) \<le> Priority (?s ! k)"
    and ix: "indexed ?s" and rm: "0 < room q" "n + 1 \<le> room q"
    using assms len by (simp_all add: pq_inv_def heap_ordered_def)
  obtain h where h: "(if n \<noteq> 0 then let (h, j) = heap_down (pq_Swap ?s 0 n) 0 n
        in if 0 < j then h else fst (heap_up h 0) else ?s) = h"
      and hl: "length h = n + 1" and hb: "bag h = bag ?s" and hi: "indexed h"
      and hn: "entry (h ! n) = entry (?s ! 0)" and ho: "heap_ordered h n"
  proof (cases "n = 0")
    case True
    have "heap_ordered ?s 0" by (simp add: heap_ordered_def)
    with True that [of ?s] len ix show ?thesis by auto
  next
    case False
    let ?g = "pq_Swap ?s 0 n"
    obtain g j where g: "heap_down ?g 0 n = (g, j)" by fastforce
    have up0: "fst (heap_up g 0) = g" by (subst heap_up.simps) (simp add: Let_def)
    have "down_fault ?g n 0"
      unfolding down_fault_def
    proof (intro conjI allI impI)
      fix k assume "k < n" "0 < k" "parent k \<noteq> 0"
      then show "Priority (?g ! parent k) \<le> Priority (?g ! k)"
        using ord [of k] len by (auto simp: Swap_Priority)
    qed simp
    from down_ordered [OF this] g len have "heap_ordered g n" by simp
    moreover have "indexed ?g" using Swap_indexed [OF ix, of 0 n] len by simp
    moreover have "entry (?g ! n) = entry (?s ! 0)"
      using len by (simp add: pq_Swap_def entry_def)
    ultimately show ?thesis
      using that [of g] down_spec [of n ?g 0] g False len up0 by auto
  qed
  have it: "entry ((h ! n)\<lparr>Index := - 1\<rparr>) = entry (?s ! 0)" using hn by (simp add: entry_def)
  have "h = take n h @ [h ! n]" using hl by (metis Suc_eq_plus1 lessI take_Suc_conv_app_nth take_all_iff order_refl)
  then have "bag h = bag (take n h) + bag [h ! n]" by (metis bag_append)
  then have bag: "bag ?s = add_mset (entry (?s ! 0)) (bag (take n h))"
    using hb hn by (simp add: bag_def)
  have ordt: "heap_ordered (take n h) n" using ho by (auto simp: heap_ordered_def)
  have ixt: "indexed (take n h)" using hi by (auto simp: indexed_def)
  have rem: "heap_Remove q 0 = pq_Pop (q\<lparr>slots := h\<rparr>)"
    by (simp only: heap_Remove_def Let_def n_def [symmetric] h [unfolded Let_def] assms(2) if_False)
  obtain c where pop: "pq_Pop (q\<lparr>slots := h\<rparr>) =
      Some ((h ! n)\<lparr>Index := - 1\<rparr>, \<lparr>slots = take n h, room = c\<rparr>)" and c: "0 < c" "n \<le> c"
  proof (cases "n + 1 < room q div 2 \<and> 25 < room q")
    case True
    then have "pq_Pop (q\<lparr>slots := h\<rparr>) =
      Some ((h ! n)\<lparr>Index := - 1\<rparr>, \<lparr>slots = take n h, room = room q div 2\<rparr>)"
      using hl by (simp add: pq_Pop_def Let_def)
    with True that show ?thesis by simp
  next
    case False
    then have "pq_Pop (q\<lparr>slots := h\<rparr>) =
      Some ((h ! n)\<lparr>Index := - 1\<rparr>, \<lparr>slots = take n h, room = room q\<rparr>)"
      using hl by (auto simp: pq_Pop_def Let_def)
    with rm that show ?thesis by simp
  qed
  show ?thesis
    using rem pop c it bag ordt ixt hl by (simp add: pq_inv_def)
qed

text \<open>What an offer and a poll do to the bag; neither can panic.\<close>

lemma pq_offer_spec:
  assumes "pq_inv q"
  shows "\<exists>q' i. pq_offer q v p = Some (q', i) \<and> pq_inv q' \<and> pq_bag q' = pq_bag q + {#(v, p)#} \<and>
     (i = 0 \<longleftrightarrow> (\<forall>x\<in>#pq_bag q. p < snd x))"
proof -
  obtain q' at where q': "heap_Push q \<lparr>Value = v, Priority = p, Index = 0\<rparr> = Some (q', at)" "pq_inv q'"
      "at < length (slots q')" "pq_bag q' = pq_bag q + {#(v, p)#}" "entry (slots q' ! at) = (v, p)"
      "at = 0 \<longrightarrow> slots q = [] \<or> p < Priority (slots q ! 0)"
      "Index (slots q' ! at) = int at"
    using heap_Push_spec [OF assms, of "\<lparr>Value = v, Priority = p, Index = 0\<rparr>"] by (auto simp: entry_def)
  have "at = 0 \<longleftrightarrow> (\<forall>x\<in>#pq_bag q. p < snd x)"
  proof
    assume "at = 0"
    with q'(6) show "\<forall>x\<in>#pq_bag q. p < snd x" using pq_root_least [OF assms] by fastforce
  next
    assume less: "\<forall>x\<in>#pq_bag q. p < snd x"
    show "at = 0"
    proof (rule ccontr)
      assume "at \<noteq> 0"
      then have "entry (slots q' ! 0) \<in># pq_bag q"
        using bag_other [of 0 "slots q'" at] q'(3,4,5) by fastforce
      then have "p < Priority (slots q' ! 0)" using less by (auto simp: entry_def)
      moreover have "Priority (slots q' ! 0) \<le> p"
        using pq_root_least [OF q'(2)] q'(4) by fastforce
      ultimately show False by simp
    qed
  qed
  with q' show ?thesis by (simp add: pq_offer_def)
qed

lemma PeekAndShift_spec:
  assumes "pq_inv q"
  shows "if pq_bag q = {#} then PeekAndShift q mx = Some (None, 0, q)
     else if \<forall>x\<in>#pq_bag q. mx < snd x then
       \<exists>x\<in>#pq_bag q. (\<forall>y\<in>#pq_bag q. snd x \<le> snd y) \<and> PeekAndShift q mx = Some (None, i64 (snd x - mx), q)
     else \<exists>it q'. PeekAndShift q mx = Some (Some it, 0, q') \<and> pq_inv q' \<and> Priority it \<le> mx \<and>
       (\<forall>y\<in>#pq_bag q. Priority it \<le> snd y) \<and> pq_bag q = add_mset (Value it, Priority it) (pq_bag q')"
proof (cases "slots q = []")
  case True
  then show ?thesis by (simp add: PeekAndShift_def)
next
  case False
  let ?r = "slots q ! 0"
  have r: "entry ?r \<in># pq_bag q" using False by (intro bag_sel) simp
  then have ne: "pq_bag q \<noteq> {#}" by auto
  note least = pq_root_least [OF assms]
  have r': "snd (entry ?r) = Priority ?r" by (simp add: entry_def)
  show ?thesis
  proof (cases "mx < Priority ?r")
    case True
    then have "\<forall>x\<in>#pq_bag q. mx < snd x" using least by fastforce
    with True False ne least show ?thesis
      by (auto simp: PeekAndShift_def Let_def r' intro!: bexI [OF _ r])
  next
    case due: False
    then have "\<not> (\<forall>x\<in>#pq_bag q. mx < snd x)" using r r' by metis
    moreover obtain it q' where "heap_Remove q 0 = Some (it, q')" "pq_inv q'" "entry it = entry ?r"
        "pq_bag q = add_mset (entry it) (pq_bag q')"
      using heap_Remove_spec [OF assms False] by blast
    ultimately show ?thesis using ne due False least
      by (simp add: PeekAndShift_def Let_def entry_def)
  qed
qed

end
