(* ===== verification/DelayQueue.thy ===== *)
theory DelayQueue
  imports DelayHeap
begin

section \<open>Delay queue: \<open>Offer\<close> and \<open>Poll\<close> (utils/timingwheel/delayqueue)\<close>

text \<open>
  \<open>DelayQueue\<close> as a transition system: one polling goroutine, and any number of goroutines that
  call \<open>Offer\<close>.  What each does between two points where another may run is one step: the section
  under \<open>mu\<close>, the compare-and-swap of \<open>sleeping\<close>, the rendezvous on \<open>wakeupC\<close>, the wait of
  \<open>Poll\<close> that ends by a wake-up, by the timer, or by \<open>exitC\<close>, and the rendezvous on \<open>C\<close>.

  The lemmas: the flag \<open>sleeping\<close> and the number of goroutines that have set it back agree in every
  reachable state, so that no wake-up is lost and no \<open>Offer\<close> blocks while the poller runs; and once
  the poller has left, an \<open>Offer\<close> that has set the flag back blocks for ever.
\<close>

subsection \<open>State\<close>

datatype 'v poller =
    PTop                \<comment> \<open>at the head of the loop, about to call \<open>nowF\<close>\<close>
  | PIdle               \<comment> \<open>waits for \<open>wakeupC\<close> or \<open>exitC\<close>: the queue was empty\<close>
  | PTimed int          \<comment> \<open>waits for \<open>wakeupC\<close>, \<open>exitC\<close> or the timer, due at this nanosecond\<close>
  | PDrain              \<comment> \<open>the timer ended the wait, and a caller of \<open>Offer\<close> is to be released\<close>
  | PSend 'v            \<comment> \<open>blocked in \<open>dq.C <- item.Value\<close>\<close>
  | PDone               \<comment> \<open>behind the label \<open>exit\<close>\<close>
  | PPanic

datatype 'v offer =
    OPush 'v int        \<comment> \<open>called, before the lock\<close>
  | OCheck int          \<comment> \<open>behind the lock, with \<open>index\<close>\<close>
  | OWake               \<comment> \<open>blocked in \<open>dq.wakeupC <- struct{}{}\<close>\<close>
  | ODone
  | OPanic

record 'v delayq =
  pq :: "'v pqueue"
  sleeping :: bool
  poller :: "'v poller"
  exitC :: bool               \<comment> \<open>\<open>exitC\<close> is closed\<close>
  offers :: "'v offer list"   \<comment> \<open>the goroutines inside \<open>Offer\<close>\<close>
  received :: "'v list"       \<comment> \<open>what has been received from \<open>C\<close>\<close>
  offered :: "'v list"        \<comment> \<open>ghost: what \<open>Offer\<close> has inserted\<close>

definition newDelayQueue :: "nat \<Rightarrow> 'v delayq" where
  "newDelayQueue n = \<lparr>pq = newPriorityQueue n, sleeping = False, poller = PTop, exitC = False,
     offers = [], received = [], offered = []\<rparr>"

subsection \<open>Steps\<close>

definition put_offer :: "nat \<Rightarrow> 'v offer \<Rightarrow> 'v delayq \<Rightarrow> 'v delayq" where
  "put_offer i s d = d\<lparr>offers := (offers d)[i := s]\<rparr>"

definition Offer_step :: "nat \<Rightarrow> 'v delayq \<Rightarrow> 'v delayq" where
  "Offer_step i d = (if length (offers d) \<le> i then d else case offers d ! i of
     OPush v p \<Rightarrow> (case pq_offer (pq d) v p of
         None \<Rightarrow> put_offer i OPanic d
       | Some (q, index) \<Rightarrow> put_offer i (OCheck index) (d\<lparr>pq := q, offered := offered d @ [v]\<rparr>))
   | OCheck index \<Rightarrow>
       if index = 0 \<and> sleeping d then put_offer i OWake (d\<lparr>sleeping := False\<rparr>)
       else put_offer i ODone d
   | OWake \<Rightarrow> (case poller d of
         PIdle \<Rightarrow> put_offer i ODone (d\<lparr>poller := PTop\<rparr>)
       | PTimed due \<Rightarrow> put_offer i ODone (d\<lparr>poller := PTop\<rparr>)
       | PDrain \<Rightarrow> put_offer i ODone (d\<lparr>poller := PTop\<rparr>)
       | _ \<Rightarrow> d)
   | _ \<Rightarrow> d)"

text \<open>
  \<open>time.Duration(delta) * time.Millisecond\<close> wraps; a wait of no item and a negative \<open>delta\<close> would
  fall through to \<open>item.Value\<close> with a nil item.
\<close>

definition Poll_step :: "int \<Rightarrow> 'v delayq \<Rightarrow> 'v delayq" where
  "Poll_step now d = (case poller d of
     PTop \<Rightarrow> (case PeekAndShift (pq d) now of
         None \<Rightarrow> d\<lparr>poller := PPanic\<rparr>
       | Some (Some it, _, q) \<Rightarrow> d\<lparr>pq := q, poller := PSend (Value it)\<rparr>
       | Some (None, delta, q) \<Rightarrow> d\<lparr>pq := q, sleeping := True, poller :=
            (if delta = 0 then PIdle
             else if 0 < delta then PTimed (now * 1000000 + i64 (delta * 1000000))
             else PPanic)\<rparr>)
   | PTimed due \<Rightarrow>
       if now * 1000000 < due then d
       else if sleeping d then d\<lparr>sleeping := False, poller := PTop\<rparr>
       else d\<lparr>poller := PDrain\<rparr>
   | PSend v \<Rightarrow> d\<lparr>received := received d @ [v], poller := PTop\<rparr>
   | _ \<Rightarrow> d)"

definition Poll_exit :: "'v delayq \<Rightarrow> 'v delayq" where
  "Poll_exit d = (if exitC d then (case poller d of
       PIdle \<Rightarrow> d\<lparr>sleeping := False, poller := PDone\<rparr>
     | PTimed due \<Rightarrow> d\<lparr>sleeping := False, poller := PDone\<rparr>
     | PSend v \<Rightarrow> d\<lparr>sleeping := False, poller := PDone\<rparr>
     | _ \<Rightarrow> d) else d)"

datatype 'v dq_event =
    DCall 'v int     \<comment> \<open>a goroutine calls \<open>Offer\<close>\<close>
  | DOffer nat       \<comment> \<open>it runs on\<close>
  | DPoll int        \<comment> \<open>the poller runs on, at this time\<close>
  | DClose           \<comment> \<open>\<open>close(exitC)\<close>\<close>
  | DLeave           \<comment> \<open>the poller takes the case of \<open>exitC\<close>\<close>

primrec dq_do :: "'v dq_event \<Rightarrow> 'v delayq \<Rightarrow> 'v delayq" where
  "dq_do (DCall v p) d = d\<lparr>offers := offers d @ [OPush v p]\<rparr>"
| "dq_do (DOffer i) d = Offer_step i d"
| "dq_do (DPoll now) d = Poll_step now d"
| "dq_do DClose d = d\<lparr>exitC := True\<rparr>"
| "dq_do DLeave d = Poll_exit d"

text \<open>Times are milliseconds since 1970: nonnegative int64 values.\<close>

definition is_time :: "int \<Rightarrow> bool" where
  "is_time t \<longleftrightarrow> 0 \<le> t \<and> t < 2 ^ 63"

primrec dq_times :: "'v dq_event \<Rightarrow> bool" where
  "dq_times (DCall v p) \<longleftrightarrow> is_time p"
| "dq_times (DOffer i) \<longleftrightarrow> True"
| "dq_times (DPoll now) \<longleftrightarrow> is_time now"
| "dq_times DClose \<longleftrightarrow> True"
| "dq_times DLeave \<longleftrightarrow> True"

inductive dq_reachable :: "nat \<Rightarrow> 'v delayq \<Rightarrow> bool" for n where
  dq_new: "dq_reachable n (newDelayQueue n)"
| dq_event: "dq_reachable n d \<Longrightarrow> dq_times ev \<Longrightarrow> dq_reachable n (dq_do ev d)"

definition dq_run :: "nat \<Rightarrow> 'v dq_event list \<Rightarrow> 'v delayq" where
  "dq_run n evs = fold dq_do evs (newDelayQueue n)"

subsection \<open>The invariant\<close>

primrec waking :: "'v offer \<Rightarrow> nat" where
  "waking (OPush v p) = 0"
| "waking (OCheck i) = 0"
| "waking OWake = 1"
| "waking ODone = 0"
| "waking OPanic = 0"

definition wakers :: "'v delayq \<Rightarrow> nat" where
  "wakers d = sum_list (map waking (offers d))"

definition calls :: "'v delayq \<Rightarrow> bool" where
  "calls d \<longleftrightarrow> wakers d = 1 \<or> OCheck 0 \<in> set (offers d)"

primrec flag_ok :: "'v poller \<Rightarrow> bool \<Rightarrow> nat \<Rightarrow> bool" where
  "flag_ok PTop s w \<longleftrightarrow> \<not> s \<and> w = 0"
| "flag_ok PIdle s w \<longleftrightarrow> w = (if s then 0 else 1)"
| "flag_ok (PTimed due) s w \<longleftrightarrow> w = (if s then 0 else 1)"
| "flag_ok PDrain s w \<longleftrightarrow> \<not> s \<and> w = 1"
| "flag_ok (PSend v) s w \<longleftrightarrow> \<not> s \<and> w = 0"
| "flag_ok PDone s w \<longleftrightarrow> \<not> s \<and> w \<le> 1"
| "flag_ok PPanic s w \<longleftrightarrow> False"

primrec wait_ok :: "'v poller \<Rightarrow> ('v \<times> int) multiset \<Rightarrow> bool" where
  "wait_ok PTop b \<longleftrightarrow> True"
| "wait_ok PIdle b \<longleftrightarrow> b = {#}"
| "wait_ok (PTimed due) b \<longleftrightarrow> (\<forall>x\<in>#b. due \<le> snd x * 1000000)"
| "wait_ok PDrain b \<longleftrightarrow> True"
| "wait_ok (PSend v) b \<longleftrightarrow> True"
| "wait_ok PDone b \<longleftrightarrow> True"
| "wait_ok PPanic b \<longleftrightarrow> True"

primrec kept :: "'v poller \<Rightarrow> 'v multiset \<Rightarrow> 'v multiset \<Rightarrow> bool" where
  "kept PTop all rest \<longleftrightarrow> all = rest"
| "kept PIdle all rest \<longleftrightarrow> all = rest"
| "kept (PTimed due) all rest \<longleftrightarrow> all = rest"
| "kept PDrain all rest \<longleftrightarrow> all = rest"
| "kept (PSend v) all rest \<longleftrightarrow> all = add_mset v rest"
| "kept PDone all rest \<longleftrightarrow> rest \<subseteq># all"
| "kept PPanic all rest \<longleftrightarrow> False"

definition queued :: "'v delayq \<Rightarrow> 'v multiset" where
  "queued d = image_mset fst (pq_bag (pq d))"

definition dq_inv :: "'v delayq \<Rightarrow> bool" where
  "dq_inv d \<longleftrightarrow> pq_inv (pq d) \<and> (\<forall>x\<in>#pq_bag (pq d). is_time (snd x)) \<and>
     (\<forall>v p. OPush v p \<in> set (offers d) \<longrightarrow> is_time p) \<and> OPanic \<notin> set (offers d) \<and>
     flag_ok (poller d) (sleeping d) (wakers d) \<and>
     (wait_ok (poller d) (pq_bag (pq d)) \<or> calls d) \<and>
     kept (poller d) (mset (offered d)) (mset (received d) + queued d)"

lemma wakers_fields [simp]:
  "wakers (d\<lparr>poller := s\<rparr>) = wakers d" "wakers (d\<lparr>sleeping := b\<rparr>) = wakers d"
  by (simp_all add: wakers_def)

lemma wakers_upd:
  "i < length (offers d) \<Longrightarrow>
   sum_list (map waking ((offers d)[i := s])) + waking (offers d ! i) = wakers d + waking s"
  unfolding wakers_def
  by (subst (2) id_take_nth_drop [of i "offers d"]) (simp_all add: upd_conv_take_nth_drop)

lemma offer_same:
  assumes "i < length (offers d)" "waking s = waking (offers d ! i)"
  shows "wakers (put_offer i s d) = wakers d"
  using wakers_upd [OF assms(1), of s] assms(2) by (simp add: wakers_def put_offer_def)

lemma i64_below: "0 \<le> x \<Longrightarrow> i64 x \<le> x"
  unfolding i64_def by (metis signed_take_bit_int_less_eq_self_iff le_minus_one_simps(1) order_trans
      zero_le_numeral zero_le_power neg_le_0_iff_le)

lemma set_list_update_other:
  "y \<in> set (xs[i := x]) \<Longrightarrow> y \<noteq> x \<Longrightarrow> y \<in> set xs"
  by (meson insertE set_update_subset_insert subsetD)

lemma set_list_update_kept:
  "y \<in> set xs \<Longrightarrow> y \<noteq> xs ! i \<Longrightarrow> y \<in> set (xs[i := x])"
  by (metis in_set_conv_nth length_list_update nth_list_update_neq)

lemma kept_add: "kept s all rest \<Longrightarrow> kept s (add_mset v all) (add_mset v rest)"
  by (cases s) auto

text \<open>Who waits has a flag that is up, or one goroutine that has set it back.\<close>

lemma flag_sleeping: "flag_ok s True w \<Longrightarrow> w = 0 \<and> flag_ok s False 1"
  by (cases s) auto

lemma flag_awake: "flag_ok s False w \<Longrightarrow> wait_ok s b \<or> w = 1"
  by (cases s) auto

lemma dq_new_inv: "0 < n \<Longrightarrow> dq_inv (newDelayQueue n)"
  by (simp add: dq_inv_def newDelayQueue_def wakers_def queued_def newPriorityQueue_inv)

subsection \<open>Every step keeps it\<close>

lemma dq_invD:
  assumes "dq_inv d"
  shows "pq_inv (pq d)" "\<forall>x\<in>#pq_bag (pq d). is_time (snd x)"
    "\<forall>v p. OPush v p \<in> set (offers d) \<longrightarrow> is_time p" "OPanic \<notin> set (offers d)"
    "flag_ok (poller d) (sleeping d) (wakers d)" "wait_ok (poller d) (pq_bag (pq d)) \<or> calls d"
    "kept (poller d) (mset (offered d)) (mset (received d) + queued d)"
  using assms by (simp_all add: dq_inv_def)

lemma push_keeps:
  assumes inv: "dq_inv d" and i: "i < length (offers d)" and at: "offers d ! i = OPush v p"
  shows "dq_inv (Offer_step i d)"
proof -
  note inv = dq_invD [OF inv]
  obtain q ix where q: "pq_offer (pq d) v p = Some (q, ix)" "pq_inv q" "pq_bag q = pq_bag (pq d) + {#(v, p)#}"
      "ix = 0 \<longleftrightarrow> (\<forall>x\<in>#pq_bag (pq d). p < snd x)"
    using pq_offer_spec [OF inv(1)] by blast
  let ?o = "(offers d)[i := OCheck ix]"
  let ?d = "put_offer i (OCheck ix) (d\<lparr>pq := q, offered := offered d @ [v]\<rparr>)"
  have d: "Offer_step i d = ?d" using i at q by (simp add: Offer_step_def)
  have w: "wakers ?d = wakers d" using wakers_upd [OF i, of "OCheck ix"] at by (simp add: wakers_def put_offer_def)
  have p: "is_time p" using inv(3) at i nth_mem by metis
  have old: "calls d \<Longrightarrow> calls ?d"
    using w set_list_update_kept [of "OCheck 0" "offers d" i "OCheck ix"] at
    by (auto simp: calls_def put_offer_def)
  have new: "ix = 0 \<Longrightarrow> calls ?d" using i by (auto simp: calls_def put_offer_def set_update_memI)
  have "wait_ok (poller d) (pq_bag q) \<or> calls ?d"
  proof (cases "ix = 0 \<or> calls d")
    case False
    then obtain x where x: "x \<in># pq_bag (pq d)" "snd x \<le> p" using q(4) by fastforce
    from False inv(6) have "wait_ok (poller d) (pq_bag (pq d))" by simp
    with x q(3) have "wait_ok (poller d) (pq_bag q)" by (cases "poller d") auto
    then show ?thesis by simp
  qed (use old new in blast)
  moreover have "kept (poller d) (mset (offered d @ [v])) (mset (received d) + image_mset fst (pq_bag q))"
    using kept_add [OF inv(7), of v] q(3) by (simp add: queued_def)
  moreover have "\<forall>v p. OPush v p \<in> set ?o \<longrightarrow> is_time p" "OPanic \<notin> set ?o"
    using inv(3,4) set_list_update_other [of _ "offers d" i "OCheck ix"] by blast+
  ultimately show ?thesis
    using inv(2,5) q p w unfolding d dq_inv_def by (simp add: put_offer_def queued_def)
qed

lemma check_keeps:
  assumes inv: "dq_inv d" and i: "i < length (offers d)" and at: "offers d ! i = OCheck ix"
  shows "dq_inv (Offer_step i d)"
proof -
  note inv = dq_invD [OF inv]
  have sub: "\<forall>v p. OPush v p \<in> set ((offers d)[i := s]) \<longrightarrow> is_time p" "OPanic \<notin> set ((offers d)[i := s])"
    if "s = OWake \<or> s = ODone" for s
    using inv(3,4) that set_list_update_other [of _ "offers d" i s] by blast+
  show ?thesis
  proof (cases "ix = 0 \<and> sleeping d")
    case True
    let ?d = "put_offer i OWake (d\<lparr>sleeping := False\<rparr>)"
    have d: "Offer_step i d = ?d" using i at True by (simp add: Offer_step_def)
    have "wakers ?d = 1" using wakers_upd [OF i, of OWake] at inv(5) True flag_sleeping [of "poller d" "wakers d"]
      by (simp add: wakers_def put_offer_def)
    with flag_sleeping [of "poller d" "wakers d"] True inv sub [of OWake] show ?thesis
      unfolding d dq_inv_def by (simp add: put_offer_def calls_def queued_def)
  next
    case False
    let ?d = "put_offer i ODone d"
    have d: "Offer_step i d = ?d" using i at False by (auto simp: Offer_step_def)
    have w: "wakers ?d = wakers d" using offer_same [OF i, of ODone] at by simp
    have "wait_ok (poller d) (pq_bag (pq d)) \<or> calls ?d"
    proof (cases "ix = 0")
      case True
      with False inv(5) flag_awake [of "poller d" "wakers d" "pq_bag (pq d)"] w
      show ?thesis by (auto simp: calls_def)
    next
      case False
      then have "calls d \<Longrightarrow> calls ?d"
        using w set_list_update_kept [of "OCheck 0" "offers d" i ODone] at
        by (auto simp: calls_def put_offer_def)
      with inv(6) show ?thesis by blast
    qed
    with inv sub [of ODone] w show ?thesis unfolding d dq_inv_def by (simp add: put_offer_def queued_def)
  qed
qed

lemma waking_counted: "i < length (offers d) \<Longrightarrow> offers d ! i = OWake \<Longrightarrow> 0 < wakers d"
  using wakers_upd [of i d ODone] by simp

lemma wake_keeps:
  assumes inv: "dq_inv d" and i: "i < length (offers d)" and at: "offers d ! i = OWake"
  shows "dq_inv (Offer_step i d) \<and> (poller d \<noteq> PDone \<longrightarrow> offers (Offer_step i d) ! i = ODone)"
proof -
  note inv' = dq_invD [OF inv]
  have w: "0 < wakers d" by (rule waking_counted [OF i at])
  show ?thesis
  proof (cases "poller d = PDone")
    case True
    then show ?thesis using inv i at by (simp add: Offer_step_def)
  next
    case False
    let ?d = "put_offer i ODone (d\<lparr>poller := PTop\<rparr>)"
    have d: "Offer_step i d = ?d" and one: "wakers d = 1" and s: "\<not> sleeping d"
      and k: "kept PTop (mset (offered d)) (mset (received d) + queued d)"
      using False inv'(5,7) w i at by (cases "poller d"; auto simp: Offer_step_def split: if_splits)+
    have "wakers ?d = 0" using wakers_upd [OF i, of ODone] at one by (simp add: wakers_def put_offer_def)
    moreover have "\<forall>v p. OPush v p \<in> set ((offers d)[i := ODone]) \<longrightarrow> is_time p"
      "OPanic \<notin> set ((offers d)[i := ODone])"
      using inv'(3,4) set_list_update_other [of _ "offers d" i ODone] by blast+
    ultimately show ?thesis using inv' s k i unfolding d dq_inv_def
      by (simp add: put_offer_def queued_def)
  qed
qed

lemma offer_keeps:
  assumes "dq_inv d"
  shows "dq_inv (Offer_step i d)"
proof (cases "i < length (offers d)")
  case True
  then show ?thesis
    using push_keeps [OF assms True] check_keeps [OF assms True] wake_keeps [OF assms True]
      dq_invD(4) [OF assms] assms
    by (cases "offers d ! i") (auto simp: Offer_step_def)
qed (use assms in \<open>simp add: Offer_step_def\<close>)

lemma top_keeps:
  assumes inv: "dq_inv d" and at: "poller d = PTop" and now: "is_time now"
  shows "dq_inv (Poll_step now d)"
proof -
  note inv = dq_invD [OF inv]
  let ?b = "pq_bag (pq d)"
  have awake: "\<not> sleeping d" "wakers d = 0" using inv(5) at by simp_all
  consider (empty) "?b = {#}" "PeekAndShift (pq d) now = Some (None, 0, pq d)"
    | (later) x where "x \<in># ?b" "now < snd x" "\<forall>y\<in>#?b. snd x \<le> snd y"
        "PeekAndShift (pq d) now = Some (None, i64 (snd x - now), pq d)"
    | (due) it q where "PeekAndShift (pq d) now = Some (Some it, 0, q)" "pq_inv q"
        "?b = add_mset (Value it, Priority it) (pq_bag q)"
    using PeekAndShift_spec [OF inv(1), of now] by (auto split: if_splits)
  then show ?thesis
  proof cases
    case empty
    then show ?thesis using inv at awake by (simp add: Poll_step_def dq_inv_def wakers_def queued_def)
  next
    case later
    have "is_time (snd x)" using inv(2) later(1) by blast
    then have delta: "i64 (snd x - now) = snd x - now" using now later(2) by (simp add: is_time_def)
    have "now * 1000000 + i64 ((snd x - now) * 1000000) \<le> snd x * 1000000"
      using i64_below [of "(snd x - now) * 1000000"] later(2) by simp
    then have "\<forall>y\<in>#?b. now * 1000000 + i64 ((snd x - now) * 1000000) \<le> snd y * 1000000"
      using later(3) by fastforce
    with inv at awake later delta show ?thesis
      by (simp add: Poll_step_def dq_inv_def wakers_def queued_def)
  next
    case due
    then show ?thesis using inv at awake by (simp add: Poll_step_def dq_inv_def wakers_def queued_def)
  qed
qed

lemma poll_keeps:
  assumes "dq_inv d" "is_time now"
  shows "dq_inv (Poll_step now d)"
proof (cases "poller d")
  case PTop
  then show ?thesis by (rule top_keeps [OF assms(1) _ assms(2)])
next
  case (PTimed due)
  then show ?thesis using dq_invD [OF assms(1)] assms(1)
    by (auto simp: Poll_step_def dq_inv_def wakers_def queued_def)
next
  case (PSend v)
  then show ?thesis using dq_invD [OF assms(1)]
    by (auto simp: Poll_step_def dq_inv_def wakers_def queued_def)
qed (use assms in \<open>simp_all add: Poll_step_def\<close>)

lemma exit_keeps:
  assumes "dq_inv d"
  shows "dq_inv (Poll_exit d)"
  using dq_invD [OF assms] assms
  by (cases "poller d") (auto simp: Poll_exit_def dq_inv_def queued_def split: if_splits)

lemma dq_do_inv: "dq_inv d \<Longrightarrow> dq_times ev \<Longrightarrow> dq_inv (dq_do ev d)"
proof (induction ev)
  case (DCall v p)
  then show ?case by (auto simp: dq_inv_def wakers_def calls_def queued_def)
next
  case DClose
  then show ?case by (simp add: dq_inv_def wakers_def calls_def queued_def)
qed (simp_all add: offer_keeps poll_keeps exit_keeps)

lemma dq_reachable_inv: "dq_reachable n d \<Longrightarrow> 0 < n \<Longrightarrow> dq_inv d"
  by (induction rule: dq_reachable.induct) (auto intro: dq_do_inv dq_new_inv)

text \<open>Behind \<open>exit\<close> the poller takes no wake-up.\<close>

lemma done_stays:
  assumes "poller d = PDone" "offers d \<noteq> []" "offers d ! 0 = OWake"
  shows "poller (dq_do ev d) = PDone \<and> offers (dq_do ev d) \<noteq> [] \<and> offers (dq_do ev d) ! 0 = OWake"
proof (cases ev)
  case (DOffer i)
  with assms show ?thesis
    by (cases "i = 0") (auto simp: Offer_step_def put_offer_def split: offer.splits option.splits)
qed (use assms in \<open>auto simp: Poll_step_def Poll_exit_def nth_append\<close>)

subsection \<open>What the delay queue promises\<close>

lemma dq_run_reachable: "list_all dq_times evs \<Longrightarrow> dq_reachable n (dq_run n evs)"
proof (induction evs rule: rev_induct)
  case Nil
  then show ?case by (simp add: dq_run_def dq_new)
next
  case (snoc ev evs)
  then show ?case using dq_event [of n "dq_run n evs" ev] by (simp add: dq_run_def)
qed

text \<open>
  \<open>Offer\<close> inserts an element and reports index 0 exactly when it is earlier than every element
  of the queue; \<open>PeekAndShift(max)\<close> takes out an element of least priority when one is due at \<open>max\<close>,
  reports the distance of the earliest one when none is due, and reports 0 for an empty queue.
  Neither panics, nor do they lose or repeat an element or leave the heap order.
\<close>

theorem delay_queue_least:
  assumes "pq_inv q"
  shows "(\<forall>v p. \<exists>q' i. pq_offer q v p = Some (q', i) \<and> pq_inv q' \<and>
       pq_bag q' = add_mset (v, p) (pq_bag q) \<and> (i = 0 \<longleftrightarrow> (\<forall>x\<in>#pq_bag q. p < snd x))) \<and>
     (\<forall>mx. if pq_bag q = {#} then PeekAndShift q mx = Some (None, 0, q)
       else if \<forall>x\<in>#pq_bag q. mx < snd x then
         \<exists>x\<in>#pq_bag q. (\<forall>y\<in>#pq_bag q. snd x \<le> snd y) \<and>
           PeekAndShift q mx = Some (None, i64 (snd x - mx), q)
       else \<exists>it q'. PeekAndShift q mx = Some (Some it, 0, q') \<and> pq_inv q' \<and> Priority it \<le> mx \<and>
         (\<forall>y\<in>#pq_bag q. Priority it \<le> snd y) \<and>
         pq_bag q = add_mset (Value it, Priority it) (pq_bag q'))"
proof (intro conjI allI)
  fix v p
  show "\<exists>q' i. pq_offer q v p = Some (q', i) \<and> pq_inv q' \<and>
       pq_bag q' = add_mset (v, p) (pq_bag q) \<and> (i = 0 \<longleftrightarrow> (\<forall>x\<in>#pq_bag q. p < snd x))"
    using pq_offer_spec [OF assms, of v p] by auto
qed (rule PeekAndShift_spec [OF assms])

text \<open>Three elements, offered in the order 30, 10, 20, of a queue made with room for one.\<close>

definition three_offers :: "nat pqueue" where
  "three_offers = \<lparr>slots = [\<lparr>Value = 1, Priority = 10, Index = 0\<rparr>, \<lparr>Value = 0, Priority = 30, Index = 1\<rparr>,
     \<lparr>Value = 2, Priority = 20, Index = 2\<rparr>], room = 4\<rparr>"

lemma three_offers_made:
  "do {(q, i) \<leftarrow> pq_offer (newPriorityQueue 1) 0 30; (q, j) \<leftarrow> pq_offer q 1 10;
       (q, k) \<leftarrow> pq_offer q 2 20; Some (q, [i, j, k])} = Some (three_offers, [0, 0, 2])"
  by code_simp

lemma three_offers_inv: "pq_inv three_offers"
  by (simp add: pq_inv_def three_offers_def heap_ordered_def indexed_def less_Suc_eq nth_Cons')

theorem delay_queue_least_witness:
  "\<exists>it q'. PeekAndShift three_offers 25 = Some (Some it, 0, q') \<and> Value it = 1 \<and> pq_inv q' \<and>
     pq_bag q' = {#(0, 30), (2, 20)#}"
proof -
  have bag: "pq_bag three_offers = {#(1, 10), (0, 30), (2, 20)#}"
    by (simp add: three_offers_def bag_def entry_def)
  have "\<not> (\<forall>x\<in>#pq_bag three_offers. 25 < snd x)" "pq_bag three_offers \<noteq> {#}" by (simp_all add: bag)
  with delay_queue_least [OF three_offers_inv, THEN conjunct2, rule_format, of 25]
  obtain it q' where it: "PeekAndShift three_offers 25 = Some (Some it, 0, q')" "pq_inv q'"
      "\<forall>y\<in>#pq_bag three_offers. Priority it \<le> snd y"
      "pq_bag three_offers = add_mset (Value it, Priority it) (pq_bag q')"
    by (auto split: if_splits)
  have "(Value it, Priority it) \<in># pq_bag three_offers" using it(4) by simp
  with it(3) bag have "Value it = 1" "Priority it = 10" by auto
  with it bag show ?thesis by (auto simp: add_mset_commute)
qed

text \<open>
  No wake-up is lost and no caller is left behind while the poller runs.  When no \<open>Offer\<close> is under
  way, a poller that waits without a timer waits at an empty queue, and one that waits with a timer
  wakes no later than the earliest element is due.  A goroutine that blocks in \<open>Offer\<close> is
  released by its next step unless the poller has left.  Every element that was offered has been
  received, is in the poller's hand, or is queued; nothing panics.
\<close>

theorem delay_queue_wakes:
  assumes "dq_reachable n d" "0 < n"
  shows "(list_all (\<lambda>s. s = ODone \<or> (\<exists>v p. s = OPush v p)) (offers d) \<longrightarrow>
       wait_ok (poller d) (pq_bag (pq d))) \<and>
     (\<forall>i<length (offers d). offers d ! i = OWake \<longrightarrow> poller d \<noteq> PDone \<longrightarrow>
       offers (Offer_step i d) ! i = ODone) \<and>
     kept (poller d) (mset (offered d)) (mset (received d) + queued d) \<and>
     poller d \<noteq> PPanic \<and> OPanic \<notin> set (offers d)"
proof -
  have inv: "dq_inv d" by (rule dq_reachable_inv [OF assms])
  note parts = dq_invD [OF inv]
  have "\<not> calls d" if "list_all (\<lambda>s. s = ODone \<or> (\<exists>v p. s = OPush v p)) (offers d)"
  proof -
    have "wakers d = 0" using that by (auto simp: wakers_def list_all_iff)
    with that show ?thesis by (auto simp: calls_def list_all_iff)
  qed
  moreover have "poller d \<noteq> PPanic" using parts(5) by auto
  ultimately show ?thesis using parts wake_keeps [OF inv] by blast
qed

text \<open>A timed wait for 5000, and an offer at 4500 that interrupts it.\<close>

definition interrupted :: "nat dq_event list" where
  "interrupted = [DCall 7 5000, DOffer 0, DOffer 0, DPoll 4000, DCall 8 4500, DOffer 1, DOffer 1]"

lemma interrupted_run:
  "poller (dq_run 1 interrupted) = PTimed 5000000000 \<and> offers (dq_run 1 interrupted) = [ODone, OWake]"
  by code_simp

theorem delay_queue_wakes_witness:
  "offers (Offer_step 1 (dq_run 1 interrupted)) ! 1 = (ODone :: nat offer) \<and>
   mset (offered (dq_run 1 interrupted)) = {#7, 8#}"
proof -
  have r: "dq_reachable 1 (dq_run 1 interrupted)"
    by (rule dq_run_reachable) (simp add: interrupted_def is_time_def)
  have "offers (Offer_step 1 (dq_run 1 interrupted)) ! 1 = (ODone :: nat offer)"
    using delay_queue_wakes [OF r zero_less_one] interrupted_run by simp
  moreover have "offered (dq_run 1 interrupted) = [7, 8]" by code_simp
  ultimately show ?thesis by simp
qed

text \<open>
  \<open>Stop\<close> can leave a goroutine behind.  When the poller leaves by \<open>exitC\<close> after an \<open>Offer\<close> has set
  \<open>sleeping\<close> back and before it has delivered its wake-up, that \<open>Offer\<close> blocks in every later state,
  whatever happens: nobody receives from \<open>wakeupC\<close> any more.
\<close>

theorem stopped_offer_blocks:
  "\<exists>evs :: nat dq_event list. list_all dq_times evs \<and>
     (\<forall>more. poller (dq_run 1 (evs @ more)) = PDone \<and> offers (dq_run 1 (evs @ more)) ! 0 = OWake)"
proof (intro exI conjI allI)
  let ?evs = "[DPoll 4000, DCall 7 5000, DOffer 0, DOffer 0, DClose, DLeave] :: nat dq_event list"
  show "list_all dq_times ?evs" by (simp add: is_time_def)
  have start: "poller (dq_run 1 ?evs) = PDone \<and> offers (dq_run 1 ?evs) = [OWake]" by code_simp
  fix more
  have "poller (dq_run 1 (?evs @ more)) = PDone \<and> offers (dq_run 1 (?evs @ more)) \<noteq> [] \<and>
      offers (dq_run 1 (?evs @ more)) ! 0 = OWake"
  proof (induction more rule: rev_induct)
    case Nil
    then show ?case using start by simp
  next
    case (snoc ev more)
    let ?d = "dq_run 1 (?evs @ more)"
    have run: "dq_run 1 (?evs @ more @ [ev]) = dq_do ev ?d" by (simp add: dq_run_def)
    have stuck: "poller (dq_do ev d) = PDone \<and> offers (dq_do ev d) \<noteq> [] \<and> offers (dq_do ev d) ! 0 = OWake"
      if "poller d = PDone" "offers d \<noteq> []" "offers d ! 0 = OWake" for d :: "nat delayq"
      by (rule done_stays [OF that])
    show ?case unfolding run using snoc stuck by blast
  qed
  then show "poller (dq_run 1 (?evs @ more)) = PDone" "offers (dq_run 1 (?evs @ more)) ! 0 = OWake" by simp_all
qed

end
