(* ===== verification/TimingWheel.thy ===== *)
theory TimingWheel
  imports DelayHeap "HOL-Library.Signed_Division"
begin

section \<open>Hierarchical timing wheel (utils/timingwheel)\<close>

text \<open>
  \<open>TimingWheel\<close>, its overflow wheels, \<open>bucket\<close> and \<open>Timer\<close>.  The wheel and the chain behind
  \<open>overflowWheel\<close> are the list \<open>levels\<close>; a \<open>*bucket\<close> is an address, the level and the place in
  \<open>buckets\<close>; a \<open>*Timer\<close> is its id.  Times are nanoseconds (\<open>time.Time\<close>) or milliseconds
  (\<open>int64\<close>), with the wrap-around of every product and sum of the code written out by \<open>i64\<close>.

  A call gives \<open>None\<close> when it never returns (an endless recursion, or a lock that is held), \<open>Some\<close> of
  a panic, or \<open>Some\<close> of a normal return.
\<close>

subsection \<open>Times\<close>

definition timeToMs :: "int \<Rightarrow> int" where
  "timeToMs t = t sdiv 1000000"

definition msToTime :: "int \<Rightarrow> int" where
  "msToTime t = i64 (t * 1000000)"

definition truncate_to :: "int \<Rightarrow> int \<Rightarrow> int" where
  "truncate_to x m = (if m \<le> 0 then x else x - x smod m)"

subsection \<open>State\<close>

type_synonym tid = nat
type_synonym baddr = "nat \<times> nat"

text \<open>
  The task of a timer: the function given to \<open>AfterFunc\<close>, or the one \<open>ScheduleFunc\<close> makes, which
  asks the scheduler first (\<open>Next\<close>, in nanoseconds; \<open>None\<close> is the zero time).
\<close>

datatype plan = Once | Plan "int \<Rightarrow> int option"

record timer =
  expiration :: int
  task :: plan
  inBucket :: "baddr option"   \<comment> \<open>the field \<open>b\<close>\<close>

record bucket =
  Expiration :: int
  timers :: "tid list"

record wheel =
  tick :: int
  interval :: int
  currentTime :: int

record tw =
  wheelSize :: int
  levels :: "wheel list"
  buckets :: "baddr \<Rightarrow> bucket"
  queue :: "baddr pqueue"
  held :: "baddr option"              \<comment> \<open>the bucket whose \<open>mu\<close> is held by \<open>Flush\<close>\<close>
  store :: "tid \<Rightarrow> timer"
  autoId :: nat
  clock :: int                        \<comment> \<open>what \<open>time.Now()\<close> gives, in nanoseconds\<close>
  hand :: "baddr option"              \<comment> \<open>taken by \<open>Poll\<close>, not yet received from \<open>C\<close>\<close>
  turn :: "baddr option"              \<comment> \<open>received by the goroutine of \<open>Start\<close>, not yet handled\<close>
  tasks :: "tid list"                 \<comment> \<open>started by \<open>go t.task()\<close>, not yet run\<close>
  fired :: "(tid \<times> int \<times> int) list"   \<comment> \<open>ghost: id, expiration and time of every \<open>go t.task()\<close>\<close>
  runs :: "tid list"                  \<comment> \<open>ghost: the calls of the user's functions\<close>

definition newBucket :: bucket where
  "newBucket = \<lparr>Expiration = - 1, timers = []\<rparr>"

definition newWheel :: "int \<Rightarrow> int \<Rightarrow> int \<Rightarrow> wheel" where
  "newWheel tickMs n startMs =
     \<lparr>tick = tickMs, interval = i64 (tickMs * n), currentTime = truncate_to startMs tickMs\<rparr>"

text \<open>\<open>make([]*bucket, wheelSize)\<close> and the slice of the queue panic for a negative size.\<close>

definition NewTimingWheel :: "int \<Rightarrow> int \<Rightarrow> int \<Rightarrow> tw go" where
  "NewTimingWheel tickNs n now =
     (let tickMs = tickNs sdiv 1000000 in
      if tickMs \<le> 0 \<or> n < 0 then panic
      else ret \<lparr>wheelSize = n, levels = [newWheel tickMs n (timeToMs now)],
        buckets = (\<lambda>_. newBucket), queue = newPriorityQueue (nat n), held = None,
        store = (\<lambda>_. \<lparr>expiration = 0, task = Once, inBucket = None\<rparr>), autoId = 0, clock = now,
        hand = None, turn = None, tasks = [], fired = [], runs = []\<rparr>)"

subsection \<open>Buckets\<close>

definition upd_timer :: "tid \<Rightarrow> (timer \<Rightarrow> timer) \<Rightarrow> tw \<Rightarrow> tw" where
  "upd_timer t f s = s\<lparr>store := (store s)(t := f (store s t))\<rparr>"

definition upd_bucket :: "baddr \<Rightarrow> (bucket \<Rightarrow> bucket) \<Rightarrow> tw \<Rightarrow> tw" where
  "upd_bucket b f s = s\<lparr>buckets := (buckets s)(b := f (buckets s b))\<rparr>"

definition bucket_Add :: "baddr \<Rightarrow> tid \<Rightarrow> tw \<Rightarrow> tw" where
  "bucket_Add b t s = upd_timer t (\<lambda>x. x\<lparr>inBucket := Some b\<rparr>)
     (upd_bucket b (\<lambda>k. k\<lparr>timers := timers k @ [t]\<rparr>) s)"

definition SetExpiration :: "baddr \<Rightarrow> int \<Rightarrow> tw \<Rightarrow> bool \<times> tw" where
  "SetExpiration b e s = (Expiration (buckets s b) \<noteq> e, upd_bucket b (\<lambda>k. k\<lparr>Expiration := e\<rparr>) s)"

definition bucket_remove :: "baddr \<Rightarrow> tid \<Rightarrow> tw \<Rightarrow> bool \<times> tw" where
  "bucket_remove b t s =
     (if inBucket (store s t) \<noteq> Some b then (False, s)
      else (True, upd_timer t (\<lambda>x. x\<lparr>inBucket := None\<rparr>)
             (upd_bucket b (\<lambda>k. k\<lparr>timers := remove1 t (timers k)\<rparr>) s)))"

text \<open>
  \<open>Timer.Stop\<close>.  \<open>b.Remove\<close> waits for the lock of the bucket; the loop goes on until the timer is
  in no bucket.
\<close>

partial_function (option) Stop_loop :: "tid \<Rightarrow> bool \<Rightarrow> tw \<Rightarrow> (bool \<times> tw) option" where
  "Stop_loop t stopped s = (case inBucket (store s t) of
       None \<Rightarrow> Some (stopped, s)
     | Some b \<Rightarrow> (if held s = Some b then None
         else let r = bucket_remove b t s in Stop_loop t (fst r) (snd r)))"

definition Timer_Stop :: "tid \<Rightarrow> tw \<Rightarrow> (bool \<times> tw) option" where
  "Timer_Stop t s = Stop_loop t False s"

subsection \<open>\<open>add\<close>, \<open>addOrRun\<close> and \<open>advanceClock\<close>\<close>

text \<open>The middle branch of \<open>add\<close>: put the timer into its bucket at level \<open>i\<close>.\<close>

definition add_bucket :: "nat \<Rightarrow> tid \<Rightarrow> tw \<Rightarrow> tw go option" where
  "add_bucket i t s =
     (let w = levels s ! i; n = wheelSize s in
      if tick w = 0 \<or> n = 0 then Some panic
      else let virtualID = expiration (store s t) sdiv tick w; j = virtualID smod n in
        if j < 0 then Some panic
        else let b = (i, nat j) in
          if held s = Some b then None
          else let (changed, s) = SetExpiration b (i64 (virtualID * tick w)) (bucket_Add b t s) in
            if changed then (case pq_offer (queue s) b (Expiration (buckets s b)) of
                None \<Rightarrow> Some panic
              | Some (q, _) \<Rightarrow> Some (ret (s\<lparr>queue := q\<rparr>)))
            else Some (ret s))"

definition add_overflow :: "nat \<Rightarrow> tw \<Rightarrow> tw" where
  "add_overflow i s = (if Suc i < length (levels s) then s
     else let w = levels s ! i in
       s\<lparr>levels := levels s @ [newWheel (interval w) (wheelSize s) (currentTime w)]\<rparr>)"

partial_function (option) tw_add :: "nat \<Rightarrow> tid \<Rightarrow> tw \<Rightarrow> (bool \<times> tw) go option" where
  "tw_add i t s =
     (let w = levels s ! i; e = expiration (store s t) in
      if e < i64 (currentTime w + tick w) then Some (ret (False, s))
      else if e < i64 (currentTime w + interval w) then
        map_option (map_option (Pair True)) (add_bucket i t s)
      else tw_add (Suc i) t (add_overflow i s))"

declare Stop_loop.simps [code] tw_add.simps [code]

definition start_task :: "tid \<Rightarrow> tw \<Rightarrow> tw" where
  "start_task t s = s\<lparr>tasks := tasks s @ [t],
     fired := fired s @ [(t, expiration (store s t), timeToMs (clock s))]\<rparr>"

definition addOrRun :: "tid \<Rightarrow> tw \<Rightarrow> tw go option" where
  "addOrRun t s = map_option (map_option
     (\<lambda>(ok, s). if ok then s else start_task t s)) (tw_add 0 t s)"

primrec advance :: "int \<Rightarrow> wheel list \<Rightarrow> wheel list" where
  "advance e [] = []"
| "advance e (w # ws) =
     (if i64 (currentTime w + tick w) \<le> e
      then let c = truncate_to e (tick w) in w\<lparr>currentTime := c\<rparr> # advance c ws
      else w # ws)"

definition advanceClock :: "int \<Rightarrow> tw \<Rightarrow> tw" where
  "advanceClock e s = s\<lparr>levels := advance e (levels s)\<rparr>"

subsection \<open>\<open>Flush\<close> and the two goroutines of \<open>Start\<close>\<close>

primrec flush_loop :: "tid list \<Rightarrow> baddr \<Rightarrow> tw \<Rightarrow> tw go option" where
  "flush_loop [] b s = Some (ret s)"
| "flush_loop (t # ts) b s = (case addOrRun t (snd (bucket_remove b t s)) of
       None \<Rightarrow> None
     | Some None \<Rightarrow> Some panic
     | Some (Some s) \<Rightarrow> flush_loop ts b s)"

definition Flush :: "baddr \<Rightarrow> tw \<Rightarrow> tw go option" where
  "Flush b s = map_option (map_option (\<lambda>s. (snd (SetExpiration b (- 1) s))\<lparr>held := None\<rparr>))
     (flush_loop (timers (buckets s b)) b (s\<lparr>held := Some b\<rparr>))"

text \<open>
  \<open>Poll\<close> takes a due bucket and offers it on \<open>C\<close>; the other goroutine receives it, advances the
  clock and flushes.  Nothing orders the flush before the poller's next look at the queue.
\<close>

definition tw_poll :: "tw \<Rightarrow> tw go option" where
  "tw_poll s = (if hand s \<noteq> None then Some (ret s)
     else case PeekAndShift (queue s) (timeToMs (clock s)) of
         None \<Rightarrow> Some panic
       | Some (None, _, q) \<Rightarrow> Some (ret (s\<lparr>queue := q\<rparr>))
       | Some (Some it, _, q) \<Rightarrow> Some (ret (s\<lparr>queue := q, hand := Some (Value it)\<rparr>)))"

definition tw_receive :: "tw \<Rightarrow> tw" where
  "tw_receive s = (if turn s = None then s\<lparr>turn := hand s, hand := None\<rparr> else s)"

definition tw_handle :: "tw \<Rightarrow> tw go option" where
  "tw_handle s = (case turn s of
       None \<Rightarrow> Some (ret s)
     | Some b \<Rightarrow> Flush b (advanceClock (Expiration (buckets s b)) (s\<lparr>turn := None\<rparr>)))"

subsection \<open>\<open>AfterFunc\<close>, \<open>ScheduleFunc\<close> and the tasks\<close>

definition new_timer :: "int \<Rightarrow> plan \<Rightarrow> tw \<Rightarrow> tid \<times> tw" where
  "new_timer e p s = (let t = autoId s + 1 in
     (t, s\<lparr>autoId := t, store := (store s)(t := \<lparr>expiration = e, task = p, inBucket = None\<rparr>)\<rparr>))"

definition AfterFunc :: "int \<Rightarrow> tw \<Rightarrow> tw go option" where
  "AfterFunc d s = (let (t, s) = new_timer (timeToMs (clock s + d)) Once s in addOrRun t s)"

definition ScheduleFunc :: "(int \<Rightarrow> int option) \<Rightarrow> tw \<Rightarrow> tw go option" where
  "ScheduleFunc next s = (case next (clock s) of
       None \<Rightarrow> Some (ret s)
     | Some e \<Rightarrow> (let (t, s) = new_timer (timeToMs e) (Plan next) s in addOrRun t s))"

definition run_task :: "tid \<Rightarrow> tw \<Rightarrow> tw go option" where
  "run_task t s = (if t \<notin> set (tasks s) then Some (ret s)
     else let s = s\<lparr>tasks := remove1 t (tasks s)\<rparr> in
       map_option (map_option (\<lambda>s. s\<lparr>runs := runs s @ [t]\<rparr>))
         (case task (store s t) of
            Once \<Rightarrow> Some (ret s)
          | Plan next \<Rightarrow> (case next (msToTime (expiration (store s t))) of
              None \<Rightarrow> Some (ret s)
            | Some e \<Rightarrow> addOrRun t (upd_timer t (\<lambda>x. x\<lparr>expiration := timeToMs e\<rparr>) s))))"

datatype tw_event =
    EAfter int                        \<comment> \<open>\<open>AfterFunc\<close> with this duration\<close>
  | ESchedule "int \<Rightarrow> int option"     \<comment> \<open>\<open>ScheduleFunc\<close> with this scheduler\<close>
  | EStop tid
  | ETask tid                         \<comment> \<open>a started task runs\<close>
  | EPass int                         \<comment> \<open>time goes by\<close>
  | EPoll | EReceive | EHandle

primrec tw_do :: "tw_event \<Rightarrow> tw \<Rightarrow> tw go option" where
  "tw_do (EAfter d) s = AfterFunc d s"
| "tw_do (ESchedule next) s = ScheduleFunc next s"
| "tw_do (EStop t) s = map_option (\<lambda>r. ret (snd r)) (Timer_Stop t s)"
| "tw_do (ETask t) s = run_task t s"
| "tw_do (EPass n) s = Some (ret (s\<lparr>clock := clock s + n\<rparr>))"
| "tw_do EPoll s = tw_poll s"
| "tw_do EReceive s = Some (ret (tw_receive s))"
| "tw_do EHandle s = tw_handle s"

primrec tw_run :: "tw_event list \<Rightarrow> tw \<Rightarrow> tw go option" where
  "tw_run [] s = Some (ret s)"
| "tw_run (ev # evs) s = (case tw_do ev s of
       None \<Rightarrow> None
     | Some None \<Rightarrow> Some panic
     | Some (Some s) \<Rightarrow> tw_run evs s)"

definition cycle :: "tw_event list" where
  "cycle = [EPoll, EReceive, EHandle]"

end
