(* ===== verification/TimingInv.thy ===== *)
theory TimingInv
  imports TimingWheel
begin

section \<open>Timing wheel: the invariant and what every operation keeps of it\<close>

text \<open>
  The levels of a wheel that is used within the range of \<open>time.Time\<close> (nanoseconds below \<open>2^63\<close>, so
  milliseconds below \<open>2^44\<close>) and has 2 to \<open>2^18\<close> buckets never wrap around: each level's tick is the
  interval of the level below, and its clock is that of the level below, truncated.  A bucket that
  is in use holds timers of one tick, lies in its level's window, and is queued once, with its own
  expiration as priority.  \<open>tw_ok X\<close> says so of every bucket but \<open>X\<close>, the one that is being handled.
\<close>

subsection \<open>Arithmetic\<close>

definition is_ms :: "int \<Rightarrow> bool" where
  "is_ms t \<longleftrightarrow> 0 \<le> t \<and> t < 2 ^ 44"

definition is_ns :: "int \<Rightarrow> bool" where
  "is_ns t \<longleftrightarrow> 0 \<le> t \<and> t < 2 ^ 63"

lemma sdiv_nonneg: "0 \<le> x \<Longrightarrow> 0 < y \<Longrightarrow> (x :: int) sdiv y = x div y"
  by (cases "x = 0") (simp_all add: signed_divide_int_def)

lemma smod_nonneg: "0 \<le> x \<Longrightarrow> 0 < y \<Longrightarrow> (x :: int) smod y = x mod y"
  by (cases "x = 0") (simp_all add: signed_modulo_int_def)

lemma timeToMs_is_ms: "is_ns t \<Longrightarrow> is_ms (timeToMs t)"
  by (auto simp: is_ns_def is_ms_def timeToMs_def sdiv_nonneg)

lemma timeToMs_mono: "is_ns t \<Longrightarrow> is_ns u \<Longrightarrow> t \<le> u \<Longrightarrow> timeToMs t \<le> timeToMs u"
  by (simp add: is_ns_def timeToMs_def sdiv_nonneg zdiv_mono1)

lemma truncate_nonneg: "0 \<le> x \<Longrightarrow> 0 < m \<Longrightarrow> truncate_to x m = x - x mod m"
  by (simp add: truncate_to_def smod_nonneg)

lemma truncate_facts:
  assumes "0 \<le> x" "0 < m"
  shows "m dvd truncate_to x m" "truncate_to x m \<le> x" "x < truncate_to x m + m" "0 \<le> truncate_to x m"
proof -
  have m: "0 \<le> x mod m" "x mod m < m" using assms by simp_all
  show "m dvd truncate_to x m" "truncate_to x m \<le> x" "x < truncate_to x m + m"
    using assms m by (simp_all add: truncate_nonneg)
  have "0 \<le> m * (x div m)" using assms by (simp add: pos_imp_zdiv_nonneg_iff)
  then show "0 \<le> truncate_to x m" using assms by (simp add: truncate_nonneg minus_mod_eq_mult_div)
qed

lemma truncate_dvd: "0 \<le> x \<Longrightarrow> 0 < m \<Longrightarrow> m dvd x \<Longrightarrow> truncate_to x m = x"
  by (simp add: truncate_nonneg)

lemma dvd_step: "0 < (u :: int) \<Longrightarrow> u dvd a \<Longrightarrow> u dvd b \<Longrightarrow> a < b + u \<Longrightarrow> a \<le> b"
  by (metis add_less_cancel_left dvd_diff diff_add_cancel linorder_not_le zdvd_not_zless
      add.commute diff_gt_0_iff_gt less_diff_eq)

text \<open>Two multiples of a tick in one window that share a place are the same.\<close>

lemma window_unique:
  assumes "0 < (u :: int)" "0 < n" "u dvd c" "u dvd a" "u dvd b"
    "c \<le> a" "a < c + u * n" "c \<le> b" "b < c + u * n" "(a div u) mod n = (b div u) mod n"
  shows "a = b"
proof -
  obtain c' a' b' where [simp]: "c = u * c'" "a = u * a'" "b = u * b'" using assms(3-5) by (auto elim!: dvdE)
  have "c' \<le> a'" "a' < c' + n" "c' \<le> b'" "b' < c' + n"
    using assms(1,6-9) by (simp_all flip: distrib_left)
  then have "\<bar>a' - b'\<bar> < n" by linarith
  moreover have "n dvd a' - b'" using assms(1,10) by (simp add: mod_eq_dvd_iff)
  ultimately have "a' = b'" using assms(2) zdvd_not_zless [of "\<bar>a' - b'\<bar>" n] by fastforce
  then show ?thesis by simp
qed

subsection \<open>Levels\<close>

definition level_ok :: "int \<Rightarrow> wheel \<Rightarrow> bool" where
  "level_ok n w \<longleftrightarrow> 1 \<le> tick w \<and> tick w < 2 ^ 44 \<and> interval w = tick w * n \<and>
     is_ms (currentTime w) \<and> tick w dvd currentTime w"

definition overflow_of :: "int \<Rightarrow> wheel \<Rightarrow> wheel \<Rightarrow> bool" where
  "overflow_of n w v \<longleftrightarrow> tick v = tick w * n \<and> currentTime v \<le> currentTime w \<and>
     currentTime w < currentTime v + tick v"

primrec chain :: "int \<Rightarrow> wheel list \<Rightarrow> bool" where
  "chain n [] \<longleftrightarrow> True"
| "chain n (w # ls) \<longleftrightarrow> level_ok n w \<and> (ls \<noteq> [] \<longrightarrow> overflow_of n w (hd ls)) \<and> chain n ls"

lemma chain_level: "chain n ls \<Longrightarrow> i < length ls \<Longrightarrow> level_ok n (ls ! i)"
  by (induction ls arbitrary: i) (auto simp: nth_Cons split: nat.splits)

lemma chain_overflow: "chain n ls \<Longrightarrow> Suc i < length ls \<Longrightarrow> overflow_of n (ls ! i) (ls ! Suc i)"
  by (induction ls arbitrary: i) (auto simp: nth_Cons hd_conv_nth split: nat.splits)

lemma chain_append: "chain n ls \<Longrightarrow> ls \<noteq> [] \<Longrightarrow> level_ok n v \<Longrightarrow> overflow_of n (last ls) v \<Longrightarrow> chain n (ls @ [v])"
  by (induction ls) (auto simp: hd_append)

text \<open>No sum of \<open>add\<close> and \<open>advanceClock\<close> wraps.\<close>

definition few :: "int \<Rightarrow> bool" where
  "few n \<longleftrightarrow> 2 \<le> n \<and> n \<le> 2 ^ 18"

lemma level_sums:
  assumes "level_ok n w" "few n"
  shows "i64 (currentTime w + tick w) = currentTime w + tick w"
    "i64 (currentTime w + interval w) = currentTime w + interval w" "tick w < interval w"
    "i64 (interval w * n) = interval w * n \<or> 2 ^ 44 \<le> interval w"
proof -
  have t: "0 < tick w" "tick w \<le> 2 ^ 44" "2 \<le> n" "n \<le> 2 ^ 18" "0 \<le> currentTime w" "currentTime w < 2 ^ 44"
    using assms by (auto simp: level_ok_def few_def is_ms_def)
  then have "tick w * n \<le> 2 ^ 44 * 2 ^ 18" by (intro mult_mono) simp_all
  then have i: "interval w \<le> 2 ^ 62" using assms(1) by (simp add: level_ok_def)
  have "tick w * 2 \<le> tick w * n" using t by (intro mult_left_mono) simp_all
  then show less: "tick w < interval w" using t assms(1) by (simp add: level_ok_def)
  show "i64 (currentTime w + tick w) = currentTime w + tick w"
    "i64 (currentTime w + interval w) = currentTime w + interval w"
    using t i less by (intro i64_id; simp)+
  have "interval w * n \<le> 2 ^ 44 * 2 ^ 18" if "interval w < 2 ^ 44"
    using that t less by (intro mult_mono) simp_all
  then show "i64 (interval w * n) = interval w * n \<or> 2 ^ 44 \<le> interval w"
  proof (cases "interval w < 2 ^ 44")
    case True
    then have "interval w * n \<le> 2 ^ 62" using \<open>interval w < 2 ^ 44 \<Longrightarrow> interval w * n \<le> 2 ^ 44 * 2 ^ 18\<close> by simp
    moreover have "0 \<le> interval w * n" using t less by simp
    ultimately show ?thesis by (intro disjI1 i64_id) simp_all
  qed simp
qed

lemma newWheel_ok:
  assumes "level_ok n w" "few n" "interval w < 2 ^ 44"
  shows "level_ok n (newWheel (interval w) n (currentTime w))"
    "overflow_of n w (newWheel (interval w) n (currentTime w))"
proof -
  have i: "0 < interval w" and c: "0 \<le> currentTime w" "currentTime w < 2 ^ 44"
    using level_sums(3) [OF assms(1,2)] assms(1) by (auto simp: level_ok_def is_ms_def)
  note tr = truncate_facts [OF c(1) i]
  have iv: "interval w = tick w * n" using assms(1) by (simp add: level_ok_def)
  show "level_ok n (newWheel (interval w) n (currentTime w))"
    using tr i c assms(3) level_sums(4) [OF assms(1,2)] by (auto simp: level_ok_def newWheel_def is_ms_def)
  show "overflow_of n w (newWheel (interval w) n (currentTime w))"
    using tr iv by (simp add: overflow_of_def newWheel_def)
qed

subsection \<open>\<open>advanceClock\<close>\<close>

lemma advance_length [simp]: "length (advance e ls) = length ls"
  by (induction ls arbitrary: e) (simp_all add: Let_def)

lemma advance_spec:
  "chain n ls \<Longrightarrow> few n \<Longrightarrow> is_ms e \<Longrightarrow>
   chain n (advance e ls) \<and>
   (\<forall>i<length ls. tick (advance e ls ! i) = tick (ls ! i) \<and> interval (advance e ls ! i) = interval (ls ! i) \<and>
      currentTime (ls ! i) \<le> currentTime (advance e ls ! i) \<and>
      (currentTime (advance e ls ! i) = currentTime (ls ! i) \<or> currentTime (advance e ls ! i) \<le> e))"
proof (induction ls arbitrary: e)
  case (Cons w ls)
  have w: "level_ok n w" and ls: "chain n ls" and ab: "ls \<noteq> [] \<Longrightarrow> overflow_of n w (hd ls)"
    using Cons.prems by simp_all
  note sums = level_sums [OF w Cons.prems(2)]
  show ?case
  proof (cases "currentTime w + tick w \<le> e")
    case False
    then show ?thesis using Cons.prems sums(1) by (simp add: nth_Cons split: nat.splits)
  next
    case True
    let ?c = "truncate_to e (tick w)"
    have t: "0 < tick w" "0 \<le> e" "e < 2 ^ 44" using w Cons.prems(3) by (auto simp: level_ok_def is_ms_def)
    note tr = truncate_facts [OF t(2,1)]
    have c: "is_ms ?c" "currentTime w \<le> ?c" using tr t True by (auto simp: is_ms_def)
    note IH = Cons.IH [OF ls Cons.prems(2) c(1)]
    have w': "level_ok n (w\<lparr>currentTime := ?c\<rparr>)" using w tr(1) c(1) by (simp add: level_ok_def)
    have ab': "ls \<noteq> [] \<Longrightarrow> overflow_of n (w\<lparr>currentTime := ?c\<rparr>) (hd (advance ?c ls))"
    proof -
      assume "ls \<noteq> []"
      then obtain v r where v: "ls = v # r" by (cases ls) auto
      have vok: "level_ok n v" using ls v by simp
      have t0: "0 < tick v" using vok by (simp add: level_ok_def)
      note trv = truncate_facts [OF tr(4) t0]
      show ?thesis
        using ab v trv c(2) level_sums(1) [OF vok Cons.prems(2)] by (auto simp: overflow_of_def Let_def)
    qed
    show ?thesis
      using True sums(1) IH w' ab' tr(2) c(2)
      by (fastforce simp: Let_def nth_Cons split: nat.splits)
  qed
qed simp

text \<open>After it every level up to that of a bucket is at the bucket's expiration or beyond.\<close>

lemma advance_reaches:
  assumes "chain n (w # ls)" "few n" "is_ms e" "tick w dvd e"
  shows "e \<le> currentTime (hd (advance e (w # ls)))"
proof -
  have w: "level_ok n w" "0 < tick w" "0 \<le> e" using assms by (auto simp: level_ok_def is_ms_def)
  show ?thesis
  proof (cases "currentTime w + tick w \<le> e")
    case True
    then show ?thesis using w level_sums(1) [OF w(1) assms(2)] assms(4) by (simp add: Let_def truncate_dvd)
  next
    case False
    then have "e \<le> currentTime w" using w assms(4) by (intro dvd_step [of "tick w"]) (auto simp: level_ok_def)
    then show ?thesis using False level_sums(1) [OF w(1) assms(2)] by simp
  qed
qed

lemma chain_tick_dvd: "chain n ls \<Longrightarrow> i \<le> k \<Longrightarrow> k < length ls \<Longrightarrow> tick (ls ! i) dvd tick (ls ! k)"
proof (induction k)
  case (Suc k)
  then show ?case using chain_overflow [of n ls k] by (auto simp: overflow_of_def le_Suc_eq)
qed simp

lemma chain_reaches:
  assumes "chain n ls" "e \<le> currentTime (ls ! 0)" "i \<le> k" "k < length ls" "tick (ls ! k) dvd e"
  shows "e \<le> currentTime (ls ! i)"
  using assms(3)
proof (induction i)
  case (Suc i)
  then have i: "Suc i < length ls" using assms(4) by simp
  have lv: "0 < tick (ls ! Suc i)" "tick (ls ! Suc i) dvd currentTime (ls ! Suc i)"
    using chain_level [OF assms(1) i] by (auto simp: level_ok_def)
  have "tick (ls ! Suc i) dvd e" using chain_tick_dvd [OF assms(1) Suc.prems assms(4)] assms(5) by (rule dvd_trans)
  then show ?case using lv Suc chain_overflow [OF assms(1) i] by (intro dvd_step [of "tick (ls ! Suc i)"]) (auto simp: overflow_of_def)
qed (use assms(2) in simp)

subsection \<open>The invariant of a wheel\<close>

definition bucket_ok :: "tw \<Rightarrow> baddr option \<Rightarrow> baddr \<Rightarrow> bool" where
  "bucket_ok s X b \<longleftrightarrow> (let k = buckets s b; e = Expiration k; w = levels s ! fst b in
     if e = - 1 then timers k = []
     else fst b < length (levels s) \<and> is_ms e \<and> tick w dvd e \<and>
       (e div tick w) mod wheelSize s = int (snd b) \<and>
       (\<forall>t\<in>set (timers k). e \<le> expiration (store s t) \<and> expiration (store s t) < e + tick w) \<and>
       (X \<noteq> Some b \<longrightarrow> currentTime w \<le> e \<and> e < currentTime w + interval w))"

lemma bucket_timer:
  "bucket_ok s X b \<Longrightarrow> t \<in> set (timers (buckets s b)) \<Longrightarrow>
   Expiration (buckets s b) \<noteq> - 1 \<and> Expiration (buckets s b) \<le> expiration (store s t) \<and>
   expiration (store s t) < Expiration (buckets s b) + tick (levels s ! fst b)"
  by (auto simp: bucket_ok_def Let_def split: if_splits)

definition timers_ok :: "tw \<Rightarrow> bool" where
  "timers_ok s \<longleftrightarrow> (\<forall>b. distinct (timers (buckets s b))) \<and>
     (\<forall>t b. t \<in> set (timers (buckets s b)) \<longleftrightarrow> inBucket (store s t) = Some b) \<and>
     (\<forall>t. is_ms (expiration (store s t))) \<and> (\<forall>t. inBucket (store s t) \<noteq> None \<longrightarrow> t \<le> autoId s)"

lemma timers_mem: "timers_ok s \<Longrightarrow> t \<in> set (timers (buckets s c)) \<longleftrightarrow> inBucket (store s t) = Some c"
  by (cases c) (simp add: timers_ok_def)

definition in_use :: "tw \<Rightarrow> baddr option \<Rightarrow> baddr \<times> int \<Rightarrow> bool" where
  "in_use s X x \<longleftrightarrow> Expiration (buckets s (fst x)) = snd x \<and> snd x \<noteq> - 1 \<and> X \<noteq> Some (fst x)"

definition queue_ok :: "tw \<Rightarrow> baddr option \<Rightarrow> bool" where
  "queue_ok s X \<longleftrightarrow> pq_inv (queue s) \<and>
     (\<forall>x. count (pq_bag (queue s)) x = (if in_use s X x then 1 else 0))"

lemma queue_count: "queue_ok s X \<Longrightarrow> count (pq_bag (queue s)) x = (if in_use s X x then 1 else 0)"
  by (cases x, cases "fst x") (simp add: queue_ok_def)

definition tw_ok :: "baddr option \<Rightarrow> tw \<Rightarrow> bool" where
  "tw_ok X s \<longleftrightarrow> few (wheelSize s) \<and> levels s \<noteq> [] \<and> chain (wheelSize s) (levels s) \<and>
     (\<forall>b. bucket_ok s X b) \<and> timers_ok s \<and> queue_ok s X \<and>
     is_ns (clock s) \<and> currentTime (levels s ! 0) \<le> timeToMs (clock s)"

lemma tw_okD:
  assumes "tw_ok X s"
  shows "few (wheelSize s)" "levels s \<noteq> []" "chain (wheelSize s) (levels s)" "bucket_ok s X b"
    "timers_ok s" "queue_ok s X" "is_ns (clock s)" "currentTime (levels s ! 0) \<le> timeToMs (clock s)"
  using assms by (cases b; simp add: tw_ok_def)+

text \<open>Only the fields the invariant speaks of matter.\<close>

lemma ok_fields [simp]:
  "bucket_ok (s\<lparr>queue := q\<rparr>) X b = bucket_ok s X b" "timers_ok (s\<lparr>queue := q\<rparr>) = timers_ok s"
  "in_use (s\<lparr>queue := q\<rparr>) X x = in_use s X x"
  by (simp_all add: bucket_ok_def timers_ok_def in_use_def)

lemma tw_okI:
  assumes "tw_ok Y s" "wheelSize s' = wheelSize s" "levels s' = levels s" "clock s' = clock s"
    "\<And>b. bucket_ok s' X b" "timers_ok s'" "queue_ok s' X"
  shows "tw_ok X s'"
  using tw_okD [OF assms(1)] assms(2-) by (simp add: tw_ok_def)

text \<open>New overflow wheels change nothing for the others.\<close>

lemma bucket_ok_levels:
  "bucket_ok s X b \<Longrightarrow> levels s' = levels s @ ups \<Longrightarrow> buckets s' = buckets s \<Longrightarrow> store s' = store s \<Longrightarrow>
   wheelSize s' = wheelSize s \<Longrightarrow> bucket_ok s' X b"
  by (auto simp: bucket_ok_def Let_def nth_append)

lemma tw_ok_levels:
  assumes "tw_ok X s" "chain (wheelSize s) (levels s @ ups)"
  shows "tw_ok X (s\<lparr>levels := levels s @ ups\<rparr>)"
proof -
  let ?s = "s\<lparr>levels := levels s @ ups\<rparr>"
  have "\<forall>b. bucket_ok ?s X b"
    using tw_okD(4) [OF assms(1)] bucket_ok_levels [of s X _ ?s ups] by simp
  then show ?thesis using assms tw_okD [OF assms(1)]
    by (auto simp: tw_ok_def timers_ok_def queue_ok_def in_use_def nth_append)
qed

subsection \<open>\<open>add\<close> finds a level\<close>

definition goes_to :: "int \<Rightarrow> wheel list \<Rightarrow> nat \<Rightarrow> bool" where
  "goes_to e ls l \<longleftrightarrow> l < length ls \<and> currentTime (ls ! l) + tick (ls ! l) \<le> e \<and>
     e < currentTime (ls ! l) + interval (ls ! l) \<and>
     (\<forall>m<l. currentTime (ls ! m) + interval (ls ! m) \<le> e)"

lemma tw_add_expired:
  assumes "chain (wheelSize s) (levels s)" "few (wheelSize s)" "i < length (levels s)"
    "expiration (store s t) < currentTime (levels s ! i) + tick (levels s ! i)"
  shows "tw_add i t s = Some (ret (False, s))"
  using level_sums(1) [OF chain_level [OF assms(1,3)] assms(2)] assms(4)
  by (subst tw_add.simps) (simp add: Let_def)

lemma tw_add_finds:
  assumes "chain (wheelSize s) (levels s)" "few (wheelSize s)" "i < length (levels s)"
    "is_ms (expiration (store s t))"
    "currentTime (levels s ! i) + tick (levels s ! i) \<le> expiration (store s t)"
    "\<forall>m<i. currentTime (levels s ! m) + interval (levels s ! m) \<le> expiration (store s t)"
  shows "\<exists>l ups. tw_add i t s =
      map_option (map_option (Pair True)) (add_bucket l t (s\<lparr>levels := levels s @ ups\<rparr>)) \<and>
    chain (wheelSize s) (levels s @ ups) \<and> goes_to (expiration (store s t)) (levels s @ ups) l"
  using assms
proof (induction "nat (expiration (store s t) - tick (levels s ! i))" arbitrary: i s rule: less_induct)
  case less
  let ?w = "levels s ! i" and ?e = "expiration (store s t)" and ?n = "wheelSize s"
  have w: "level_ok ?n ?w" by (rule chain_level [OF less.prems(1,3)])
  note sums = level_sums [OF w less.prems(2)]
  show ?case
  proof (cases "?e < currentTime ?w + interval ?w")
    case True
    have "tw_add i t s = map_option (map_option (Pair True)) (add_bucket i t s)"
      using True sums(1,2) less.prems(5) by (subst tw_add.simps) (simp add: Let_def)
    moreover have "goes_to ?e (levels s) i" using True less.prems by (simp add: goes_to_def)
    ultimately show ?thesis using less.prems(1)
      by (intro exI [of _ i] exI [of _ "[]"]) simp
  next
    case False
    let ?s = "add_overflow i s"
    have step: "tw_add i t s = tw_add (Suc i) t ?s"
      using False sums(1,2) less.prems(5) by (subst tw_add.simps) (simp add: Let_def)
    have iv: "0 < tick ?w" "interval ?w = tick ?w * ?n" "0 \<le> currentTime ?w" using w by (auto simp: level_ok_def is_ms_def)
    have small: "interval ?w < 2 ^ 44" using False iv less.prems(4) by (auto simp: is_ms_def)
    obtain new where new: "?s = s\<lparr>levels := levels s @ new\<rparr>" "chain ?n (levels s @ new)"
        "Suc i < length (levels s @ new)"
    proof (cases "Suc i < length (levels s)")
      case True
      with less.prems(1) that [of "[]"] show ?thesis by (simp add: add_overflow_def)
    next
      case False
      then have "last (levels s) = ?w" using less.prems(3) by (metis Suc_lessI diff_Suc_1 last_conv_nth list.size(3) not_less_zero)
      then have "chain ?n (levels s @ [newWheel (interval ?w) ?n (currentTime ?w)])"
        using newWheel_ok [OF w less.prems(2) small] less.prems(1,3) by (intro chain_append) auto
      with False less.prems(3) that [of "[newWheel (interval ?w) ?n (currentTime ?w)]"] show ?thesis
        by (simp add: add_overflow_def Let_def)
    qed
    have up: "overflow_of ?n ?w (levels ?s ! Suc i)"
      using chain_overflow [OF new(2,3)] less.prems(3) by (simp add: new(1) nth_append)
    have te: "tick ?w < ?e" using False sums(3) iv(3) by linarith
    have pre: "levels ?s ! m = levels s ! m" if "m \<le> i" for m
      using that less.prems(3) by (simp add: new(1) nth_append)
    have "\<exists>l ups. tw_add (Suc i) t ?s =
        map_option (map_option (Pair True)) (add_bucket l t (?s\<lparr>levels := levels ?s @ ups\<rparr>)) \<and>
      chain (wheelSize ?s) (levels ?s @ ups) \<and> goes_to (expiration (store ?s t)) (levels ?s @ ups) l"
    proof (rule less.hyps)
      show "nat (expiration (store ?s t) - tick (levels ?s ! Suc i)) < nat (?e - tick ?w)"
        using up iv sums(3) te by (simp add: new(1) overflow_of_def)
      show "currentTime (levels ?s ! Suc i) + tick (levels ?s ! Suc i) \<le> expiration (store ?s t)"
        using up iv False by (simp add: new(1) overflow_of_def)
      show "\<forall>m<Suc i. currentTime (levels ?s ! m) + interval (levels ?s ! m) \<le> expiration (store ?s t)"
        using less.prems(6) False pre by (auto simp: new(1) less_Suc_eq)
    qed (use less.prems new in simp_all)
    then obtain l ups where "tw_add (Suc i) t ?s =
        map_option (map_option (Pair True)) (add_bucket l t (?s\<lparr>levels := levels ?s @ ups\<rparr>))"
      "chain (wheelSize ?s) (levels ?s @ ups)" "goes_to (expiration (store ?s t)) (levels ?s @ ups) l"
      by blast
    with step show ?thesis by (intro exI [of _ l] exI [of _ "new @ ups"]) (simp add: new(1))
  qed
qed

subsection \<open>\<open>add\<close> puts the timer into a bucket of that level\<close>

definition weight :: "baddr option \<Rightarrow> nat" where
  "weight p = (case p of None \<Rightarrow> 0 | Some b \<Rightarrow> 2 * (fst b + 1))"

definition load :: "tw \<Rightarrow> nat" where
  "load s = (\<Sum>t\<le>autoId s. weight (inBucket (store s t))) + size (pq_bag (queue s))"

text \<open>What stays when timers move: the levels that are there, the ids, the times, the history.\<close>

definition same_frame :: "tw \<Rightarrow> tw \<Rightarrow> bool" where
  "same_frame s s' \<longleftrightarrow> wheelSize s' = wheelSize s \<and> autoId s' = autoId s \<and> clock s' = clock s \<and>
     held s' = held s \<and> hand s' = hand s \<and> turn s' = turn s \<and> take (length (levels s)) (levels s') = levels s \<and>
     (\<forall>t. expiration (store s' t) = expiration (store s t) \<and> task (store s' t) = task (store s t))"

lemma load_upd:
  assumes "t \<le> autoId s" "autoId s' = autoId s" "store s' = (store s)(t := x)"
  shows "(\<Sum>t\<le>autoId s'. weight (inBucket (store s' t))) + weight (inBucket (store s t)) =
     (\<Sum>t\<le>autoId s. weight (inBucket (store s t))) + weight (inBucket x)"
proof -
  let ?A = "{..autoId s}"
  have "(\<Sum>u\<in>?A. weight (inBucket (store s' u))) =
      weight (inBucket x) + (\<Sum>u\<in>?A - {t}. weight (inBucket (store s' u)))"
    using assms by (subst sum.remove [of _ t]) auto
  also have "(\<Sum>u\<in>?A - {t}. weight (inBucket (store s' u))) = (\<Sum>u\<in>?A - {t}. weight (inBucket (store s u)))"
    using assms(3) by (intro sum.cong) auto
  finally show ?thesis using assms(1,2) by (simp add: sum.remove [of ?A t])
qed

lemma add_bucket_spec:
  assumes ok: "tw_ok X s" and t: "inBucket (store s t) = None" "t \<le> autoId s"
    and to: "goes_to (expiration (store s t)) (levels s) l"
    and X: "\<And>j. X \<noteq> Some (l, j)" and held: "\<And>j. held s \<noteq> Some (l, j)"
  shows "\<exists>s' b. add_bucket l t s = Some (ret s') \<and> fst b = l \<and> tw_ok X s' \<and> same_frame s s' \<and>
     fired s' = fired s \<and> tasks s' = tasks s \<and> runs s' = runs s \<and>
     store s' = (store s)(t := (store s t)\<lparr>inBucket := Some b\<rparr>) \<and> (\<forall>c. c \<noteq> b \<longrightarrow> buckets s' c = buckets s c) \<and>
     levels s' = levels s \<and> load s' \<le> load s + 2 * (l + 1) + 1"
proof -
  let ?w = "levels s ! l" and ?n = "wheelSize s" and ?e = "expiration (store s t)"
  define u where "u = tick ?w"
  define j where "j = nat ((?e div u) mod ?n)"
  define E where "E = ?e div u * u"
  define b where "b = (l, j)"
  note ok' = tw_okD [OF ok]
  have l: "l < length (levels s)" "currentTime ?w + u \<le> ?e" "?e < currentTime ?w + interval ?w"
    using to by (auto simp: goes_to_def u_def)
  have w: "level_ok ?n ?w" by (rule chain_level [OF ok'(3) l(1)])
  have u: "0 < u" "interval ?w = u * ?n" "u dvd currentTime ?w" "0 \<le> currentTime ?w" and n: "0 < ?n"
    using w ok'(1) by (auto simp: level_ok_def u_def is_ms_def few_def)
  have e: "is_ms ?e" using ok'(5) by (simp add: timers_ok_def)
  have E: "E \<le> ?e" "?e < E + u" "u dvd E"
    using u(1) pos_mod_bound [of u ?e] pos_mod_sign [of u ?e] by (simp_all add: E_def minus_mod_eq_div_mult [symmetric])
  have cE: "currentTime ?w \<le> E" using dvd_step [OF u(1,3) E(3)] l(2) E(2) by simp
  have Ems: "is_ms E" using cE u(4) E(1) e by (auto simp: is_ms_def)
  then have iE: "i64 (?e div u * u) = E" by (simp add: E_def is_ms_def)
  have jE: "(E div u) mod ?n = int j" using n u(1) by (simp add: E_def j_def)
  define f where "f = (\<lambda>k :: bucket. k\<lparr>timers := timers k @ [t], Expiration := E\<rparr>)"
  define x where "x = (store s t)\<lparr>inBucket := Some b\<rparr>"
  define s1 where "s1 = s\<lparr>buckets := (buckets s)(b := f (buckets s b)), store := (store s)(t := x)\<rparr>"
  have old: "Expiration (buckets s b) = - 1 \<and> timers (buckets s b) = [] \<or> Expiration (buckets s b) = E"
  proof (cases "Expiration (buckets s b) = - 1")
    case False
    then have "u dvd Expiration (buckets s b)" "(Expiration (buckets s b) div u) mod ?n = int j"
        "currentTime ?w \<le> Expiration (buckets s b)" "Expiration (buckets s b) < currentTime ?w + u * ?n"
      using ok'(4) [of b] X u(2) by (auto simp: bucket_ok_def Let_def b_def u_def)
    then have "Expiration (buckets s b) = E"
      using window_unique [OF u(1) n u(3) _ E(3), of "Expiration (buckets s b)"] cE jE l(3) E(1) u(2) by simp
    then show ?thesis by simp
  qed (use ok'(4) [of b] in \<open>simp add: bucket_ok_def Let_def\<close>)
  have notin: "t \<notin> set (timers (buckets s c))" for c
    using ok'(5) t(1) by (cases c) (auto simp: timers_ok_def)
  have "0 \<le> ?e" using e by (simp add: is_ms_def)
  then have vid: "?e sdiv u = ?e div u" "(?e div u) smod ?n = (?e div u) mod ?n" "\<not> (?e div u) mod ?n < 0"
    using u(1) n by (simp_all add: sdiv_nonneg smod_nonneg pos_imp_zdiv_nonneg_iff not_less)
  have at: "nat ((?e div u) mod ?n) = j" "(l, j) = b" by (simp_all add: j_def b_def)
  have set: "SetExpiration b E (bucket_Add b t s) = (Expiration (buckets s b) \<noteq> E, s1)"
    by (simp add: SetExpiration_def bucket_Add_def upd_timer_def upd_bucket_def s1_def f_def x_def)
  have same: "wheelSize s1 = wheelSize s" "levels s1 = levels s" "clock s1 = clock s"
    by (simp_all add: s1_def)
  have sel: "Expiration (buckets s1 b) = E" "queue s1 = queue s" by (simp_all add: s1_def f_def)
  have step: "add_bucket l t s =
      (if Expiration (buckets s b) \<noteq> E then (case pq_offer (queue s) b E of
          None \<Rightarrow> Some panic | Some (q, _) \<Rightarrow> Some (ret (s1\<lparr>queue := q\<rparr>)))
       else Some (ret s1))"
    using n u(1) held [of j] sel iE
    by (simp add: add_bucket_def u_def [symmetric] vid at Let_def set)
  have bok: "bucket_ok s1 X c" for c
  proof (cases "c = b")
    case True
    have "\<forall>t\<in>set (timers (buckets s b)). E \<le> expiration (store s t) \<and> expiration (store s t) < E + u"
      using old bucket_timer [OF ok'(4) [of b]] by (auto simp: b_def u_def)
    then show ?thesis using True l E cE jE Ems u(2)
      by (auto simp: bucket_ok_def Let_def s1_def f_def x_def b_def u_def [symmetric] is_ms_def)
  next
    case False
    then show ?thesis using ok'(4) [of c] notin [of c]
      by (auto simp: bucket_ok_def Let_def s1_def x_def)
  qed
  have tok: "timers_ok s1"
    using ok'(5) notin t by (auto simp: timers_ok_def s1_def f_def x_def)
  have frame: "same_frame s s1" by (simp add: same_frame_def s1_def x_def)
  have ld: "(\<Sum>t\<le>autoId s1. weight (inBucket (store s1 t))) =
      (\<Sum>t\<le>autoId s. weight (inBucket (store s t))) + 2 * (l + 1)"
    using load_upd [OF t(2), of s1 x] t(1) by (simp add: s1_def x_def weight_def b_def)
  show ?thesis
  proof (cases "Expiration (buckets s b) = E")
    case True
    have "in_use s1 X c \<longleftrightarrow> in_use s X c" for c using True by (auto simp: in_use_def s1_def f_def)
    then have "queue_ok s1 X" using ok'(6) sel(2) by (simp add: queue_ok_def)
    then have "tw_ok X s1" using bok tok by (intro tw_okI [OF ok]) (simp_all add: same)
    then show ?thesis using step True frame ld
      by (intro exI [of _ s1] exI [of _ b]) (simp add: s1_def b_def x_def load_def)
  next
    case False
    then have free: "Expiration (buckets s b) = - 1" using old by simp
    obtain q i where q: "pq_offer (queue s) b E = Some (q, i)" "pq_inv q"
        "pq_bag q = pq_bag (queue s) + {#(b, E)#}"
      using pq_offer_spec [of "queue s" b E] ok'(6) by (auto simp: queue_ok_def)
    have "count (pq_bag q) c = (if in_use (s1\<lparr>queue := q\<rparr>) X c then 1 else 0)" for c
    proof -
      have "E \<noteq> - 1" using cE u(4) by simp
      then have "in_use (s1\<lparr>queue := q\<rparr>) X c \<longleftrightarrow> in_use s X c \<or> c = (b, E)" "\<not> in_use s X (b, E)"
        using free X by (cases c; auto simp: in_use_def s1_def f_def b_def)+
      then show ?thesis using queue_count [OF ok'(6), of c] q(3) by auto
    qed
    then have "queue_ok (s1\<lparr>queue := q\<rparr>) X" using q(2) by (simp add: queue_ok_def)
    then have "tw_ok X (s1\<lparr>queue := q\<rparr>)" using bok tok
      by (intro tw_okI [OF ok]) (simp_all add: same)
    then show ?thesis using step False frame ld q
      by (intro exI [of _ "s1\<lparr>queue := q\<rparr>"] exI [of _ b]) (simp add: s1_def b_def x_def load_def same_frame_def)
  qed
qed

subsection \<open>\<open>addOrRun\<close> and \<open>remove\<close>\<close>

lemma tw_ok_cong:
  assumes "wheelSize s' = wheelSize s" "levels s' = levels s" "buckets s' = buckets s"
    "queue s' = queue s" "store s' = store s" "autoId s' = autoId s" "clock s' = clock s"
  shows "tw_ok X s' = tw_ok X s"
  using assms by (simp add: tw_ok_def bucket_ok_def timers_ok_def queue_ok_def in_use_def)

definition pending :: "tw \<Rightarrow> tid \<Rightarrow> bool" where
  "pending s t \<longleftrightarrow> inBucket (store s t) \<noteq> None"

text \<open>How often a timer has been started or is about to be.\<close>

definition uses :: "tw \<Rightarrow> tid \<Rightarrow> nat" where
  "uses s t = length (filter (\<lambda>x. fst x = t) (fired s)) + (if pending s t then 1 else 0)"

text \<open>A started task is no longer in a bucket, and is started once.\<close>

definition tasks_ok :: "tw \<Rightarrow> bool" where
  "tasks_ok s \<longleftrightarrow> distinct (tasks s) \<and> (\<forall>t\<in>set (tasks s). \<not> pending s t \<and> t \<le> autoId s)"

definition moves :: "tw \<Rightarrow> tw \<Rightarrow> bool" where
  "moves s s' \<longleftrightarrow>
     (\<exists>new. fired s' = fired s @ new \<and> (\<forall>x\<in>set new. fst (snd x) < snd (snd x) + tick (levels s ! 0))) \<and>
     (\<forall>t. uses s' t = uses s t) \<and>
     (\<forall>t. pending s t \<longrightarrow> pending s' t \<or> (t, expiration (store s t), timeToMs (clock s)) \<in> set (fired s')) \<and>
     (\<forall>t. pending s' t \<longrightarrow> pending s t) \<and> (tasks_ok s \<longrightarrow> tasks_ok s')"

lemma moves_refl:
  "fired s' = fired s \<Longrightarrow> store s' = store s \<Longrightarrow> tasks s' = tasks s \<Longrightarrow> autoId s' = autoId s \<Longrightarrow> moves s s'"
  by (simp add: moves_def uses_def pending_def tasks_ok_def)

lemma same_frame_tick: "same_frame s s' \<Longrightarrow> levels s \<noteq> [] \<Longrightarrow> i < length (levels s) \<Longrightarrow> levels s' ! i = levels s ! i"
  by (metis same_frame_def nth_take)

lemma same_frame_trans: "same_frame s s' \<Longrightarrow> same_frame s' s'' \<Longrightarrow> same_frame s s''"
  unfolding same_frame_def by (metis min.absorb1 min.absorb2 nat_le_linear take_all_iff take_take)

lemma movesD:
  assumes "moves s s'"
  shows "\<exists>new. fired s' = fired s @ new \<and> (\<forall>x\<in>set new. fst (snd x) < snd (snd x) + tick (levels s ! 0))"
    "uses s' t = uses s t"
    "pending s t \<Longrightarrow> pending s' t \<or> (t, expiration (store s t), timeToMs (clock s)) \<in> set (fired s')"
    "pending s' t \<Longrightarrow> pending s t" "tasks_ok s \<Longrightarrow> tasks_ok s'"
  using assms unfolding moves_def by blast+

lemma moves_trans:
  assumes m: "moves s s'" "moves s' s''" and frame: "same_frame s s'" "levels s \<noteq> []"
  shows "moves s s''"
proof -
  have same: "levels s' ! 0 = levels s ! 0" using same_frame_tick [OF frame, of 0] frame(2) by simp
  have now: "clock s' = clock s" "\<And>t. expiration (store s' t) = expiration (store s t)"
    using frame(1) by (simp_all add: same_frame_def)
  obtain new where new: "fired s' = fired s @ new" "\<forall>x\<in>set new. fst (snd x) < snd (snd x) + tick (levels s ! 0)"
    using movesD(1) [OF m(1)] by blast
  obtain new' where new': "fired s'' = fired s' @ new'" "\<forall>x\<in>set new'. fst (snd x) < snd (snd x) + tick (levels s ! 0)"
    using movesD(1) [OF m(2)] same by auto
  have "\<exists>new. fired s'' = fired s @ new \<and> (\<forall>x\<in>set new. fst (snd x) < snd (snd x) + tick (levels s ! 0))"
    using new new' by (intro exI [of _ "new @ new'"]) auto
  moreover have "pending s'' t \<or> (t, expiration (store s t), timeToMs (clock s)) \<in> set (fired s'')" if "pending s t" for t
    using movesD(3) [OF m(1) that] movesD(3) [OF m(2), of t] now new'(1) by auto
  ultimately show ?thesis
    unfolding moves_def using movesD(2,4,5) [OF m(1)] movesD(2,4,5) [OF m(2)] by metis
qed

text \<open>The timer cannot come back to the bucket that is being flushed.\<close>

definition falls :: "tw \<Rightarrow> baddr option \<Rightarrow> int \<Rightarrow> bool" where
  "falls s X e \<longleftrightarrow> (\<forall>k j. X = Some (k, j) \<longrightarrow>
     (if k = 0 then e < currentTime (levels s ! 0) + tick (levels s ! 0)
      else k \<le> length (levels s) \<and> e < currentTime (levels s ! (k - 1)) + interval (levels s ! (k - 1))))"

lemma falls_levels: "levels s' = levels s \<Longrightarrow> falls s' X e = falls s X e"
  by (simp add: falls_def)

lemma addOrRun_spec:
  assumes ok: "tw_ok X s" and t: "inBucket (store s t) = None" "t \<le> autoId s"
    and held: "held s = None \<or> held s = X" and X: "falls s X (expiration (store s t))"
  shows "\<exists>s'. addOrRun t s = Some (ret s') \<and> tw_ok X s' \<and> same_frame s s' \<and> runs s' = runs s \<and>
     (expiration (store s t) < currentTime (levels s ! 0) + tick (levels s ! 0) \<and> s' = start_task t s \<or>
      (\<exists>b. currentTime (levels s ! 0) + tick (levels s ! 0) \<le> expiration (store s t) \<and>
         fired s' = fired s \<and> tasks s' = tasks s \<and>
         store s' = (store s)(t := (store s t)\<lparr>inBucket := Some b\<rparr>) \<and> (\<forall>c. c \<noteq> b \<longrightarrow> buckets s' c = buckets s c) \<and>
         X \<noteq> Some b \<and> load s' \<le> load s + 2 * (fst b + 1) + 1 \<and> (\<forall>k j. X = Some (k, j) \<longrightarrow> fst b < k)))"
proof -
  let ?e = "expiration (store s t)" and ?w = "levels s ! 0"
  note ok' = tw_okD [OF ok]
  have len: "0 < length (levels s)" using ok'(2) by simp
  show ?thesis
  proof (cases "?e < currentTime ?w + tick ?w")
    case True
    have "tw_add 0 t s = Some (ret (False, s))" by (rule tw_add_expired [OF ok'(3,1) len True])
    moreover have "tw_ok X (start_task t s)" using ok by (subst tw_ok_cong [of _ s]) (simp_all add: start_task_def)
    ultimately show ?thesis using True
      by (intro exI [of _ "start_task t s"]) (simp add: addOrRun_def same_frame_def start_task_def)
  next
    case False
    have ms: "is_ms ?e" using ok'(5) by (simp add: timers_ok_def)
    obtain l ups where add: "tw_add 0 t s =
        map_option (map_option (Pair True)) (add_bucket l t (s\<lparr>levels := levels s @ ups\<rparr>))"
      "chain (wheelSize s) (levels s @ ups)" "goes_to ?e (levels s @ ups) l"
      using tw_add_finds [OF ok'(3,1) len ms] False by auto
    let ?s = "s\<lparr>levels := levels s @ ups\<rparr>"
    have lower: "l < k" if "X = Some (k, j)" for k j
    proof (rule ccontr)
      assume "\<not> l < k"
      show False
      proof (cases "k = 0")
        case True
        then show False using X that False by (auto simp: falls_def)
      next
        case nz: False
        then have k1: "k - 1 < l" "k - 1 < length (levels s)" using \<open>\<not> l < k\<close> X that by (auto simp: falls_def)
        then have "currentTime (levels s ! (k - 1)) + interval (levels s ! (k - 1)) \<le> ?e"
          using add(3) by (auto simp: goes_to_def nth_append)
        then show False using X that nz by (auto simp: falls_def)
      qed
    qed
    have ok1: "tw_ok X ?s" by (rule tw_ok_levels [OF ok add(2)])
    have "\<exists>s' b. add_bucket l t ?s = Some (ret s') \<and> fst b = l \<and> tw_ok X s' \<and> same_frame ?s s' \<and>
       fired s' = fired ?s \<and> tasks s' = tasks ?s \<and> runs s' = runs ?s \<and>
       store s' = (store ?s)(t := (store ?s t)\<lparr>inBucket := Some b\<rparr>) \<and> (\<forall>c. c \<noteq> b \<longrightarrow> buckets s' c = buckets ?s c) \<and>
       levels s' = levels ?s \<and> load s' \<le> load ?s + 2 * (l + 1) + 1"
      using lower held t add(3) by (intro add_bucket_spec [OF ok1]) fastforce+
    then obtain s' b where s': "add_bucket l t ?s = Some (ret s')" "fst b = l" "tw_ok X s'" "same_frame ?s s'"
       "fired s' = fired s" "tasks s' = tasks s" "runs s' = runs s"
       "store s' = (store s)(t := (store s t)\<lparr>inBucket := Some b\<rparr>)" "\<forall>c. c \<noteq> b \<longrightarrow> buckets s' c = buckets s c"
       "levels s' = levels s @ ups" "load s' \<le> load s + 2 * (l + 1) + 1"
      by (auto simp: load_def)
    have "same_frame s s'" using s'(4,10) by (simp add: same_frame_def)
    moreover have "X \<noteq> Some b" using lower s'(2) by (cases b) auto
    ultimately show ?thesis using s' add(1) False lower
      by (intro exI [of _ s'] conjI disjI2 exI [of _ b]) (simp_all add: addOrRun_def)
  qed
qed

lemma take_out_spec:
  assumes ok: "tw_ok X s" and t: "inBucket (store s t) = Some b"
  shows "\<exists>s'. bucket_remove b t s = (True, s') \<and> tw_ok X s' \<and> same_frame s s' \<and> levels s' = levels s \<and>
     fired s' = fired s \<and> tasks s' = tasks s \<and> runs s' = runs s \<and>
     store s' = (store s)(t := (store s t)\<lparr>inBucket := None\<rparr>) \<and>
     buckets s' = (buckets s)(b := (buckets s b)\<lparr>timers := remove1 t (timers (buckets s b))\<rparr>) \<and>
     load s' + 2 * (fst b + 1) = load s"
proof -
  define x where "x = (store s t)\<lparr>inBucket := None\<rparr>"
  define s1 where "s1 = s\<lparr>buckets := (buckets s)(b := (buckets s b)\<lparr>timers := remove1 t (timers (buckets s b))\<rparr>),
    store := (store s)(t := x)\<rparr>"
  note ok' = tw_okD [OF ok]
  have rem: "bucket_remove b t s = (True, s1)"
    using t by (simp add: bucket_remove_def upd_timer_def upd_bucket_def s1_def x_def)
  have dist: "distinct (timers (buckets s c))" for c using ok'(5) by (cases c) (simp add: timers_ok_def)
  have mem: "u \<in> set (timers (buckets s c)) \<longleftrightarrow> inBucket (store s u) = Some c" for u c
    using ok'(5) by (cases c) (simp add: timers_ok_def)
  have bok: "bucket_ok s1 X c" for c
    using ok'(4) [of c] set_remove1_subset [of t "timers (buckets s b)"]
    by (cases "c = b") (auto simp: bucket_ok_def Let_def s1_def x_def)
  have tok: "timers_ok s1"
    unfolding timers_ok_def
  proof (intro conjI allI)
    fix u c show "u \<in> set (timers (buckets s1 c)) \<longleftrightarrow> inBucket (store s1 u) = Some c"
      using mem [of u c] t dist [of b] by (auto simp: s1_def x_def)
  qed (use ok'(5) dist in \<open>auto simp: timers_ok_def s1_def x_def\<close>)
  have "in_use s1 X c \<longleftrightarrow> in_use s X c" for c by (auto simp: in_use_def s1_def)
  then have "queue_ok s1 X" using ok'(6) by (simp add: queue_ok_def) (simp add: s1_def)
  then have "tw_ok X s1" using bok tok by (intro tw_okI [OF ok]) (simp_all add: s1_def)
  moreover have "t \<le> autoId s" using ok'(5) t by (cases b) (auto simp: timers_ok_def)
  then have "load s1 + 2 * (fst b + 1) = load s"
    using load_upd [of t s s1 x] t by (simp add: s1_def x_def weight_def load_def)
  ultimately show ?thesis using rem
    by (intro exI [of _ s1]) (simp add: same_frame_def s1_def x_def)
qed

subsection \<open>\<open>Flush\<close>\<close>

lemma level_ticks:
  assumes "tw_ok X s" "i < length (levels s)"
  shows "0 < tick (levels s ! i)" "interval (levels s ! i) = tick (levels s ! i) * wheelSize s"
  using chain_level [OF tw_okD(3) [OF assms(1)] assms(2)] by (simp_all add: level_ok_def)

text \<open>A timer of a bucket whose level and those below have reached the bucket's expiration.\<close>

lemma timer_falls:
  assumes ok: "tw_ok X s" and t: "t \<in> set (timers (buckets s b))"
    and reached: "\<forall>i\<le>fst b. Expiration (buckets s b) \<le> currentTime (levels s ! i)"
  shows "falls s (Some b) (expiration (store s t))"
proof -
  note tm = bucket_timer [OF tw_okD(4) [OF ok] t]
  have len: "fst b < length (levels s)"
    using tw_okD(4) [OF ok, of b] tm by (auto simp: bucket_ok_def Let_def)
  show ?thesis
  proof (cases "fst b")
    case 0
    then show ?thesis using tm reached by (auto simp: falls_def)
  next
    case (Suc k)
    then have "tick (levels s ! Suc k) = interval (levels s ! k)"
      using chain_overflow [OF tw_okD(3) [OF ok], of k] len level_ticks(2) [OF ok, of k] by (simp add: overflow_of_def)
    moreover have "Expiration (buckets s b) \<le> currentTime (levels s ! k)" using reached Suc by simp
    ultimately show ?thesis using tm Suc len by (auto simp: falls_def)
  qed
qed

lemma flush_step:
  assumes ok: "tw_ok (Some b) s" and held: "held s = Some b" and ts: "timers (buckets s b) = t # ts"
    and reached: "\<forall>i\<le>fst b. Expiration (buckets s b) \<le> currentTime (levels s ! i)"
  shows "\<exists>s'. addOrRun t (snd (bucket_remove b t s)) = Some (ret s') \<and> tw_ok (Some b) s' \<and> same_frame s s' \<and>
     runs s' = runs s \<and> timers (buckets s' b) = ts \<and> Expiration (buckets s' b) = Expiration (buckets s b) \<and>
     moves s s' \<and> load s' \<le> load s"
proof -
  have at: "inBucket (store s t) = Some b" and len: "t \<le> autoId s"
    using tw_okD(5) [OF ok] ts by (cases b; auto simp: timers_ok_def; metis list.set_intros(1))+
  obtain s1 where s1: "bucket_remove b t s = (True, s1)" "tw_ok (Some b) s1" "same_frame s s1" "levels s1 = levels s"
      "fired s1 = fired s" "tasks s1 = tasks s" "runs s1 = runs s"
      "store s1 = (store s)(t := (store s t)\<lparr>inBucket := None\<rparr>)"
      "buckets s1 = (buckets s)(b := (buckets s b)\<lparr>timers := remove1 t (timers (buckets s b))\<rparr>)"
      "load s1 + 2 * (fst b + 1) = load s"
    using take_out_spec [OF ok at] by blast
  let ?e = "expiration (store s t)"
  have e1: "expiration (store s1 t) = ?e" by (simp add: s1(8))
  have f1: "falls s1 (Some b) (expiration (store s1 t))"
    using timer_falls [OF ok _ reached, of t] ts by (simp add: falls_levels [OF s1(4)] e1)
  have a1: "autoId s1 = autoId s" "held s1 = Some b" "clock s1 = clock s" using s1(3) held by (simp_all add: same_frame_def)
  obtain s2 where s2: "addOrRun t s1 = Some (ret s2)" "tw_ok (Some b) s2" "same_frame s1 s2" "runs s2 = runs s1"
    and alt: "?e < currentTime (levels s ! 0) + tick (levels s ! 0) \<and> s2 = start_task t s1 \<or>
      (\<exists>c. fired s2 = fired s1 \<and> tasks s2 = tasks s1 \<and>
         store s2 = (store s1)(t := (store s1 t)\<lparr>inBucket := Some c\<rparr>) \<and>
         (\<forall>d. d \<noteq> c \<longrightarrow> buckets s2 d = buckets s1 d) \<and> b \<noteq> c \<and>
         load s2 \<le> load s1 + 2 * (fst c + 1) + 1 \<and> fst c < fst b)"
    using addOrRun_spec [OF s1(2) _ _ _ f1] a1 len s1(4,8) e1 by (cases b) auto
  have frame: "same_frame s s2" by (rule same_frame_trans [OF s1(3) s2(3)])
  from alt show ?thesis
  proof
    assume early: "?e < currentTime (levels s ! 0) + tick (levels s ! 0) \<and> s2 = start_task t s1"
    have "currentTime (levels s ! 0) \<le> timeToMs (clock s)" by (rule tw_okD(8) [OF ok])
    then have "moves s s2" using early s1(5,6,8) a1 at e1 len
      unfolding moves_def by (cases b) (auto simp: start_task_def uses_def pending_def tasks_ok_def)
    moreover have "load s2 \<le> load s" using early s1(10) by (simp add: start_task_def load_def)
    ultimately show ?thesis using early s1 s2(1,2,4) frame ts at
      by (intro exI [of _ s2]) (simp add: start_task_def pending_def)
  next
    assume "\<exists>c. fired s2 = fired s1 \<and> tasks s2 = tasks s1 \<and>
         store s2 = (store s1)(t := (store s1 t)\<lparr>inBucket := Some c\<rparr>) \<and>
         (\<forall>d. d \<noteq> c \<longrightarrow> buckets s2 d = buckets s1 d) \<and> b \<noteq> c \<and>
         load s2 \<le> load s1 + 2 * (fst c + 1) + 1 \<and> fst c < fst b"
    then obtain c where c: "fired s2 = fired s1" "tasks s2 = tasks s1"
         "store s2 = (store s1)(t := (store s1 t)\<lparr>inBucket := Some c\<rparr>)"
         "\<forall>d. d \<noteq> c \<longrightarrow> buckets s2 d = buckets s1 d" "b \<noteq> c"
         "load s2 \<le> load s1 + 2 * (fst c + 1) + 1" "fst c < fst b" by blast
    have "moves s s2" using c(1-3) s1(5,6,8) at frame
      unfolding moves_def by (cases b, cases c) (auto simp: uses_def pending_def tasks_ok_def same_frame_def)
    moreover have "load s2 \<le> load s" using c(6,7) s1(10) by simp
    moreover have "buckets s2 b = (buckets s b)\<lparr>timers := ts\<rparr>"
      using c(4)[rule_format, of b] c(5) s1(9) ts by simp
    ultimately show ?thesis using c(1,2) s1 s2(1,2,4) frame ts by (intro exI [of _ s2]) simp
  qed
qed

lemma flush_loop_spec:
  assumes "tw_ok (Some b) s" "held s = Some b" "timers (buckets s b) = ts"
    "\<forall>i\<le>fst b. Expiration (buckets s b) \<le> currentTime (levels s ! i)" "fst b < length (levels s)"
  shows "\<exists>s'. flush_loop ts b s = Some (ret s') \<and> tw_ok (Some b) s' \<and> same_frame s s' \<and>
     runs s' = runs s \<and> timers (buckets s' b) = [] \<and> Expiration (buckets s' b) = Expiration (buckets s b) \<and>
     moves s s' \<and> load s' \<le> load s"
  using assms
proof (induction ts arbitrary: s)
  case Nil
  then show ?case by (intro exI [of _ s]) (simp add: same_frame_def moves_refl)
next
  case (Cons t ts)
  obtain s1 where s1: "addOrRun t (snd (bucket_remove b t s)) = Some (ret s1)" "tw_ok (Some b) s1" "same_frame s s1"
      "runs s1 = runs s" "timers (buckets s1 b) = ts" "Expiration (buckets s1 b) = Expiration (buckets s b)"
      "moves s s1" "load s1 \<le> load s"
    using flush_step [OF Cons.prems(1-4)] by blast
  have lv: "levels s1 ! i = levels s ! i" if "i \<le> fst b" for i
    using same_frame_tick [OF s1(3) tw_okD(2) [OF Cons.prems(1)]] that Cons.prems(5) by simp
  have "length (levels s) \<le> length (levels s1)"
    using s1(3) by (metis same_frame_def length_take min.cobounded1)
  then have "\<exists>s'. flush_loop ts b s1 = Some (ret s') \<and> tw_ok (Some b) s' \<and> same_frame s1 s' \<and>
     runs s' = runs s1 \<and> timers (buckets s' b) = [] \<and> Expiration (buckets s' b) = Expiration (buckets s1 b) \<and>
     moves s1 s' \<and> load s' \<le> load s1"
    using Cons.prems(2,4,5) s1 lv by (intro Cons.IH) (auto simp: same_frame_def)
  then obtain s' where "flush_loop ts b s1 = Some (ret s')" "tw_ok (Some b) s'" "same_frame s1 s'"
     "runs s' = runs s1" "timers (buckets s' b) = []" "Expiration (buckets s' b) = Expiration (buckets s1 b)"
     "moves s1 s'" "load s' \<le> load s1" by blast
  then show ?case using s1 same_frame_trans [OF s1(3)] moves_trans [OF s1(7) _ s1(3) tw_okD(2) [OF Cons.prems(1)]]
    by (intro exI [of _ s']) auto
qed

text \<open>Resetting the expiration ends the exemption of the bucket.\<close>

lemma release_spec:
  assumes ok: "tw_ok (Some b) s" and empty: "timers (buckets s b) = []"
  defines "s' \<equiv> (snd (SetExpiration b (- 1) s))\<lparr>held := None\<rparr>"
  shows "tw_ok None s' \<and> same_frame (s\<lparr>held := None\<rparr>) s' \<and> moves s s' \<and> load s' = load s \<and>
    levels s' = levels s \<and> runs s' = runs s"
proof -
  note ok' = tw_okD [OF ok]
  have s': "s' = s\<lparr>buckets := (buckets s)(b := (buckets s b)\<lparr>Expiration := - 1\<rparr>), held := None\<rparr>"
    by (simp add: s'_def SetExpiration_def upd_bucket_def)
  have "bucket_ok s' None c" for c using ok'(4) [of c] empty
    by (cases "c = b") (auto simp: bucket_ok_def Let_def s')
  moreover have "timers_ok s'"
    unfolding timers_ok_def
  proof (intro conjI allI)
    fix t c show "t \<in> set (timers (buckets s' c)) \<longleftrightarrow> inBucket (store s' t) = Some c"
      using timers_mem [OF ok'(5), of t c] by (cases "c = b") (simp_all add: s')
  qed (use ok'(5) in \<open>auto simp: timers_ok_def s'\<close>)
  moreover have "in_use s' None c \<longleftrightarrow> in_use s (Some b) c" for c by (auto simp: in_use_def s')
  then have "queue_ok s' None" using ok'(6) by (simp add: queue_ok_def) (simp add: s')
  ultimately have "tw_ok None s'" by (intro tw_okI [OF ok]) (simp_all add: s')
  then show ?thesis by (simp add: s' same_frame_def load_def moves_refl)
qed

end
