(* ===== verification/TimingProps.thy ===== *)
theory TimingProps
  imports TimingInv
begin

section \<open>Timing wheel: calm runs\<close>

text \<open>
  The runs in which the wheel's goroutine has handled a bucket before the poller takes the next one
  and before anyone adds a timer: a poll, a receive and a handling are then one cycle.  In them
  the invariant of \<open>TimingInv\<close> holds between cycles (\<open>tw_idle\<close>), and with it no timer is started more than one tick
  early.  Outside them a timer can be started a whole interval early, as the run at the end shows; what
  still holds there is the subject of \<open>TimingAny\<close> and \<open>TimingRuns\<close>.
\<close>

subsection \<open>Between two cycles\<close>

definition sched_ok :: "(int \<Rightarrow> int option) \<Rightarrow> bool" where
  "sched_ok next \<longleftrightarrow> (\<forall>t e. next t = Some e \<longrightarrow> is_ns e)"

definition early_ok :: "tw \<Rightarrow> bool" where
  "early_ok s \<longleftrightarrow> (\<forall>x\<in>set (fired s). fst (snd x) < snd (snd x) + tick (levels s ! 0))"

definition once_ok :: "tw \<Rightarrow> bool" where
  "once_ok s \<longleftrightarrow> (\<forall>t. (task (store s t) = Once \<longrightarrow> uses s t \<le> 1) \<and> (autoId s < t \<longrightarrow> uses s t = 0))"

definition tw_idle :: "tw \<Rightarrow> bool" where
  "tw_idle s \<longleftrightarrow> tw_ok None s \<and> held s = None \<and> hand s = None \<and> turn s = None \<and> tasks_ok s \<and>
     early_ok s \<and> once_ok s \<and> (\<forall>t next. task (store s t) = Plan next \<longrightarrow> sched_ok next)"

lemma tw_idleD:
  assumes "tw_idle s"
  shows "tw_ok None s" "held s = None" "hand s = None" "turn s = None" "tasks_ok s" "early_ok s" "once_ok s"
    "task (store s t) = Plan next \<Longrightarrow> sched_ok next"
  using assms by (auto simp: tw_idle_def)

text \<open>How a state goes on from another: nothing is forgotten, and a timer of \<open>AfterFunc\<close> keeps its time.\<close>

definition later :: "tw \<Rightarrow> tw \<Rightarrow> bool" where
  "later s s' \<longleftrightarrow> autoId s \<le> autoId s' \<and> tick (levels s' ! 0) = tick (levels s ! 0) \<and>
     (\<exists>new. fired s' = fired s @ new) \<and>
     (\<forall>t\<le>autoId s. task (store s' t) = task (store s t) \<and>
        (task (store s t) = Once \<longrightarrow> expiration (store s' t) = expiration (store s t) \<and> uses s' t \<le> uses s t))"

lemma later_refl [simp]: "later s s"
  by (simp add: later_def)

lemma later_trans:
  assumes "later s s'" "later s' s''"
  shows "later s s''"
proof -
  have ids: "autoId s \<le> autoId s'" using assms(1) by (simp add: later_def)
  have "task (store s'' t) = task (store s t) \<and>
      (task (store s t) = Once \<longrightarrow> expiration (store s'' t) = expiration (store s t) \<and> uses s'' t \<le> uses s t)"
    if "t \<le> autoId s" for t
  proof -
    have "t \<le> autoId s'" using that ids by simp
    with assms that show ?thesis unfolding later_def by (metis le_trans)
  qed
  with assms show ?thesis by (auto simp: later_def)
qed

lemma once_later:
  assumes "once_ok s" "autoId s' = autoId s" "\<And>t. task (store s' t) = task (store s t)" "\<And>t. uses s' t \<le> uses s t"
  shows "once_ok s'"
  using assms unfolding once_ok_def by (metis le_trans le_zero_eq)

lemma early_later:
  assumes "early_ok s" "tick (levels s' ! 0) = tick (levels s ! 0)"
    "\<exists>new. fired s' = fired s @ new \<and> (\<forall>x\<in>set new. fst (snd x) < snd (snd x) + tick (levels s ! 0))"
  shows "early_ok s'"
  using assms unfolding early_ok_def by (metis UnE set_append)

subsection \<open>A cycle\<close>

definition due :: "tw \<Rightarrow> bool" where
  "due s \<longleftrightarrow> (\<exists>x\<in>#pq_bag (queue s). snd x \<le> timeToMs (clock s))"

lemma advanced_ok:
  assumes ok: "tw_ok None s" and q: "pq_inv q" "pq_bag (queue s) = add_mset (b, e) (pq_bag q)"
    and least: "\<forall>x\<in>#pq_bag (queue s). e \<le> snd x" and due: "e \<le> timeToMs (clock s)"
  defines "s' \<equiv> advanceClock e (s\<lparr>queue := q\<rparr>)"
  shows "tw_ok (Some b) s' \<and> Expiration (buckets s b) = e \<and> fst b < length (levels s') \<and>
     (\<forall>i\<le>fst b. e \<le> currentTime (levels s' ! i)) \<and> load s = load s' + 1 \<and>
     tick (levels s' ! 0) = tick (levels s ! 0)"
proof -
  note ok' = tw_okD [OF ok]
  let ?n = "wheelSize s" and ?ls = "advance e (levels s)"
  have "count (pq_bag (queue s)) (b, e) \<noteq> 0" using q(2) by simp
  then have "in_use s None (b, e)" using queue_count [OF ok'(6), of "(b, e)"] by (simp split: if_splits)
  then have e: "Expiration (buckets s b) = e" "e \<noteq> - 1" by (simp_all add: in_use_def)
  then have b: "fst b < length (levels s)" "is_ms e" "tick (levels s ! fst b) dvd e"
    using ok'(4) [of b] by (auto simp: bucket_ok_def Let_def)
  note adv = advance_spec [OF ok'(3,1) b(2)]
  have lv: "level_ok ?n (levels s ! fst b)" by (rule chain_level [OF ok'(3) b(1)])
  have tick0: "tick (?ls ! 0) = tick (levels s ! 0)" using adv ok'(2) by simp
  have s': "s' = s\<lparr>queue := q, levels := ?ls\<rparr>" by (simp add: s'_def advanceClock_def)
  have bok: "bucket_ok s' (Some b) c" for c
  proof (cases "Expiration (buckets s c) = - 1 \<or> c = b")
    case True
    then show ?thesis using ok'(4) [of c] adv by (auto simp: bucket_ok_def Let_def s')
  next
    case False
    let ?E = "Expiration (buckets s c)"
    have c: "fst c < length (levels s)" "is_ms ?E" "currentTime (levels s ! fst c) \<le> ?E"
        "?E < currentTime (levels s ! fst c) + interval (levels s ! fst c)"
      using ok'(4) [of c] False by (auto simp: bucket_ok_def Let_def)
    have "count (pq_bag (queue s)) (c, ?E) = 1" using queue_count [OF ok'(6), of "(c, ?E)"] False by (simp add: in_use_def)
    then have "(c, ?E) \<in># pq_bag (queue s)" by (metis count_greater_zero_iff zero_less_one)
    then have "e \<le> ?E" using least by fastforce
    then have "currentTime (?ls ! fst c) \<le> ?E" using adv c(1,3) by fastforce
    moreover have "?E < currentTime (?ls ! fst c) + interval (?ls ! fst c)"
      using adv c(1,4) by fastforce
    ultimately show ?thesis using ok'(4) [of c] False adv c(1) by (auto simp: bucket_ok_def Let_def s')
  qed
  have "in_use s' (Some b) x \<longleftrightarrow> in_use s None x \<and> x \<noteq> (b, e)" for x
    using e by (cases x) (auto simp: in_use_def s')
  moreover have "in_use s None (b, e)" using e by (simp add: in_use_def)
  ultimately have "count (pq_bag q) x = (if in_use s' (Some b) x then 1 else 0)" for x
    using queue_count [OF ok'(6), of x] q(2) by (cases "x = (b, e)") (auto split: if_splits)
  then have "queue_ok s' (Some b)" using q(1) by (simp add: queue_ok_def) (simp add: s')
  moreover have "timers_ok s'" using ok'(5) by (simp add: timers_ok_def s')
  moreover have "currentTime (?ls ! 0) \<le> timeToMs (clock s)" using adv ok'(2,8) due by fastforce
  moreover have "?ls \<noteq> []" using ok'(2) by (metis advance_length length_0_conv)
  ultimately have fine: "tw_ok (Some b) s'" using ok' adv bok by (simp add: tw_ok_def) (simp add: s')
  have "tick (levels s ! 0) dvd e"
    using chain_tick_dvd [OF ok'(3) _ b(1), of 0] b(3) by (meson dvd_trans zero_le)
  moreover obtain w r where ws: "levels s = w # r" using ok'(2) by (cases "levels s") auto
  ultimately have first: "e \<le> currentTime (?ls ! 0)"
    using advance_reaches [of ?n w r e] ok'(1,3) b(2) \<open>?ls \<noteq> []\<close> by (simp add: hd_conv_nth)
  have "e \<le> currentTime (?ls ! i)" if "i \<le> fst b" for i
    using chain_reaches [of ?n ?ls e i "fst b"] adv first that b(1,3) by simp
  then show ?thesis using fine e b(1) tick0 q(2) by (simp add: s' load_def)
qed

lemma cycle_spec:
  assumes idle: "tw_idle s"
  shows "\<exists>s'. tw_run cycle s = Some (ret s') \<and> tw_idle s' \<and> later s s' \<and> moves s s' \<and> clock s' = clock s \<and>
     (\<forall>t. expiration (store s' t) = expiration (store s t)) \<and> (if due s then load s' < load s else s' = s)"
proof -
  note idle' = tw_idleD [OF idle]
  note ok' = tw_okD [OF idle'(1)]
  have q: "pq_inv (queue s)" using ok'(6) by (simp add: queue_ok_def)
  show ?thesis
  proof (cases "due s")
    case False
    have same: "s\<lparr>queue := queue s\<rparr> = s" "s\<lparr>turn := None, hand := None\<rparr> = s" using idle'(3,4) by simp_all
    have "\<exists>delta. PeekAndShift (queue s) (timeToMs (clock s)) = Some (None, delta, queue s)"
      using PeekAndShift_spec [OF q, of "timeToMs (clock s)"] False
      by (auto simp: due_def not_le split: if_splits)
    then have "tw_run cycle s = Some (ret s)"
      using idle'(3,4) same by (auto simp: cycle_def tw_poll_def tw_receive_def tw_handle_def)
    then show ?thesis using False idle by (intro exI [of _ s]) (simp add: moves_refl)
  next
    case True
    then obtain it q' where it: "PeekAndShift (queue s) (timeToMs (clock s)) = Some (Some it, 0, q')" "pq_inv q'"
        "Priority it \<le> timeToMs (clock s)" "\<forall>x\<in>#pq_bag (queue s). Priority it \<le> snd x"
        "pq_bag (queue s) = add_mset (Value it, Priority it) (pq_bag q')"
      using PeekAndShift_spec [OF q, of "timeToMs (clock s)"]
      by (auto simp: due_def split: if_splits)
    let ?b = "Value it" and ?e = "Priority it"
    let ?s1 = "advanceClock ?e (s\<lparr>queue := q'\<rparr>)"
    have adv: "tw_ok (Some ?b) ?s1" "Expiration (buckets s ?b) = ?e" "fst ?b < length (levels ?s1)"
        "\<forall>i\<le>fst ?b. ?e \<le> currentTime (levels ?s1 ! i)" "load s = load ?s1 + 1"
        "tick (levels ?s1 ! 0) = tick (levels s ! 0)"
      using advanced_ok [OF idle'(1) it(2,5,4,3)] by simp_all
    let ?s2 = "?s1\<lparr>held := Some ?b\<rparr>"
    have s1: "buckets ?s1 = buckets s" "store ?s1 = store s" "fired ?s1 = fired s" "clock ?s1 = clock s"
        "autoId ?s1 = autoId s" "hand ?s1 = hand s" "turn ?s1 = turn s" "tasks ?s1 = tasks s" "runs ?s1 = runs s"
      by (simp_all add: advanceClock_def)
    have ok2: "tw_ok (Some ?b) ?s2" using adv(1) by (subst tw_ok_cong [of _ ?s1]) simp_all
    have ld2: "load ?s2 = load ?s1" by (simp add: load_def)
    obtain s3 where s3: "flush_loop (timers (buckets ?s1 ?b)) ?b ?s2 = Some (ret s3)" "tw_ok (Some ?b) s3"
        "same_frame ?s2 s3" "runs s3 = runs ?s2" "timers (buckets s3 ?b) = []" "moves ?s2 s3" "load s3 \<le> load ?s2"
      using flush_loop_spec [OF ok2, of "timers (buckets ?s1 ?b)"] adv(2-4) s1(1) by auto
    define s4 where "s4 = (snd (SetExpiration ?b (- 1) s3))\<lparr>held := None\<rparr>"
    have rel: "tw_ok None s4" "same_frame (s3\<lparr>held := None\<rparr>) s4" "moves s3 s4" "load s4 = load s3"
        "levels s4 = levels s3" "runs s4 = runs s3"
      using release_spec [OF s3(2,5)] by (simp_all add: s4_def)
    have same: "s\<lparr>queue := q', hand := None, turn := None, levels := ls, held := h\<rparr> =
        s\<lparr>queue := q', levels := ls, held := h\<rparr>" for ls h
      using idle'(3,4) by simp
    have run: "tw_run cycle s = Some (ret s4)"
      using idle'(3,4) it(1) s3(1) adv(2)
      by (simp add: same cycle_def tw_poll_def tw_receive_def tw_handle_def Flush_def advanceClock_def s4_def)
    have lv: "levels s3 ! 0 = levels ?s1 ! 0"
      using same_frame_tick [OF s3(3) tw_okD(2) [OF ok2], of 0] tw_okD(2) [OF ok2] by simp
    have sm: "moves s ?s2"
      by (rule moves_refl) (simp_all add: s1)
    have m: "moves s s4"
    proof -
      have "moves ?s2 s4"
        by (rule moves_trans [OF s3(6) rel(3) s3(3) tw_okD(2) [OF ok2]])
      then show ?thesis using sm adv(6) unfolding moves_def
        by (simp add: uses_def pending_def tasks_ok_def s1)
    qed
    have fr: "autoId s4 = autoId s" "clock s4 = clock s" "hand s4 = None" "turn s4 = None"
        "\<And>t. expiration (store s4 t) = expiration (store s t)" "\<And>t. task (store s4 t) = task (store s t)"
      using rel s3(3) s1 idle'(3,4) by (simp_all add: same_frame_def)
    have t0: "tick (levels s4 ! 0) = tick (levels s ! 0)" using rel lv adv(6) by simp
    note new = movesD(1) [OF m]
    have "early_ok s4" using early_later [OF idle'(6) t0 new] .
    moreover have us: "uses s4 t \<le> uses s t" for t using movesD(2) [OF m, of t] by (rule eq_refl)
    have "once_ok s4" by (rule once_later [OF idle'(7) fr(1,6) us])
    moreover have "tasks_ok s4" by (rule movesD(5) [OF m idle'(5)])
    moreover have "held s4 = None" by (simp add: s4_def)
    moreover have "sched_ok f" if "task (store s4 t) = Plan f" for t f
      using that fr(6) idle'(8) by simp
    ultimately have "tw_idle s4" using rel(1) fr(3,4) by (simp add: tw_idle_def)
    moreover have "later s s4"
      using fr(1,5,6) t0 us new unfolding later_def by (metis order_refl)
    moreover have "load s4 < load s" using rel(4) s3(7) ld2 adv(5) by simp
    ultimately show ?thesis using run m fr True by (intro exI [of _ s4]) simp
  qed
qed

subsection \<open>\<open>AfterFunc\<close>, \<open>ScheduleFunc\<close>, \<open>Stop\<close> and the tasks\<close>

text \<open>\<open>addOrRun\<close> of a timer that is in no bucket, seen from outside.\<close>

lemma addOrRun_idle:
  assumes ok: "tw_ok None s" "held s = None" and t: "\<not> pending s t" "t \<le> autoId s" "t \<notin> set (tasks s)"
  shows "\<exists>s'. addOrRun t s = Some (ret s') \<and> tw_ok None s' \<and> same_frame s s' \<and>
     tick (levels s' ! 0) = tick (levels s ! 0) \<and> uses s' t = Suc (uses s t) \<and> (\<forall>u. u \<noteq> t \<longrightarrow> uses s' u = uses s u) \<and>
     (\<exists>new. fired s' = fired s @ new \<and> (\<forall>x\<in>set new. fst (snd x) < snd (snd x) + tick (levels s ! 0))) \<and>
     (tasks_ok s \<longrightarrow> tasks_ok s')"
proof -
  have none: "inBucket (store s t) = None" using t(1) by (simp only: pending_def not_not)
  have falls: "falls s None (expiration (store s t))" by (simp add: falls_def)
  obtain s' where s': "addOrRun t s = Some (ret s')" "tw_ok None s'" "same_frame s s'"
    and alt: "expiration (store s t) < currentTime (levels s ! 0) + tick (levels s ! 0) \<and> s' = start_task t s \<or>
      (\<exists>b. fired s' = fired s \<and> tasks s' = tasks s \<and>
         store s' = (store s)(t := (store s t)\<lparr>inBucket := Some b\<rparr>))"
    using addOrRun_spec [OF ok(1) none t(2) _ falls] ok(2) by blast
  have tick: "tick (levels s' ! 0) = tick (levels s ! 0)"
    using same_frame_tick [OF s'(3) tw_okD(2) [OF ok(1)], of 0] tw_okD(2) [OF ok(1)] by simp
  have now: "currentTime (levels s ! 0) \<le> timeToMs (clock s)" by (rule tw_okD(8) [OF ok(1)])
  have ids: "autoId s' = autoId s" using s'(3) by (simp add: same_frame_def)
  from alt show ?thesis
  proof
    assume "expiration (store s t) < currentTime (levels s ! 0) + tick (levels s ! 0) \<and> s' = start_task t s"
    then show ?thesis using s' tick t now
      by (intro exI [of _ s']) (simp add: start_task_def uses_def pending_def tasks_ok_def)
  next
    assume "\<exists>b. fired s' = fired s \<and> tasks s' = tasks s \<and> store s' = (store s)(t := (store s t)\<lparr>inBucket := Some b\<rparr>)"
    then obtain b where b: "fired s' = fired s" "tasks s' = tasks s" "store s' = (store s)(t := (store s t)\<lparr>inBucket := Some b\<rparr>)"
      by blast
    have p: "pending s' u \<longleftrightarrow> u = t \<or> pending s u" for u by (simp add: pending_def b(3))
    have "tasks_ok s \<longrightarrow> tasks_ok s'" using t(3) p ids by (auto simp: tasks_ok_def b(2))
    then show ?thesis using s' tick t p b(1) by (intro exI [of _ s']) (simp add: uses_def)
  qed
qed

lemma new_timer_spec:
  assumes idle: "tw_idle s" and e: "is_ms e" and p: "\<And>next. p = Plan next \<Longrightarrow> sched_ok next"
  shows "case new_timer e p s of (t, s1) \<Rightarrow> t = Suc (autoId s) \<and> \<not> pending s1 t \<and> t \<le> autoId s1 \<and> t \<notin> set (tasks s1) \<and>
     tw_idle s1 \<and> later s s1 \<and> uses s1 t = 0 \<and> clock s1 = clock s"
proof -
  let ?t = "Suc (autoId s)"
  define s1 where "s1 = s\<lparr>autoId := ?t, store := (store s)(?t := \<lparr>expiration = e, task = p, inBucket = None\<rparr>)\<rparr>"
  note idle' = tw_idleD [OF idle]
  note ok' = tw_okD [OF idle'(1)]
  have fresh: "inBucket (store s ?t) = None"
    using ok'(5) by (cases "inBucket (store s ?t)") (fastforce simp: timers_ok_def)+
  have out: "?t \<notin> set (timers (buckets s c))" for c using timers_mem [OF ok'(5), of ?t c] fresh by simp
  have bok: "bucket_ok s1 None c" for c using ok'(4) [of c] out [of c]
    by (auto simp: bucket_ok_def Let_def s1_def)
  have tok: "timers_ok s1"
    unfolding timers_ok_def
  proof (intro conjI allI)
    fix u c show "u \<in> set (timers (buckets s1 c)) \<longleftrightarrow> inBucket (store s1 u) = Some c"
      using timers_mem [OF ok'(5), of u c] fresh by (simp add: s1_def)
  next
    fix u show "inBucket (store s1 u) \<noteq> None \<longrightarrow> u \<le> autoId s1"
      using ok'(5) by (auto simp: s1_def timers_ok_def intro!: le_SucI)
  qed (use ok'(5) e in \<open>auto simp: timers_ok_def s1_def\<close>)
  have "queue_ok s1 None" using ok'(6) by (simp add: queue_ok_def in_use_def s1_def)
  with bok tok have tw: "tw_ok None s1" by (intro tw_okI [OF idle'(1)]) (simp_all add: s1_def)
  have pend: "pending s1 u \<longleftrightarrow> pending s u" for u using fresh by (simp add: pending_def s1_def)
  have us: "uses s1 u = uses s u" for u by (simp add: uses_def pend) (simp add: s1_def)
  have tk: "tasks s1 = tasks s" "fired s1 = fired s" "autoId s1 = ?t" "levels s1 = levels s" "clock s1 = clock s"
    by (simp_all add: s1_def)
  have "tasks_ok s1" using idle'(5) tk(1,3) pend by (auto simp: tasks_ok_def)
  moreover have "early_ok s1" using idle'(6) tk by (simp add: early_ok_def)
  moreover have u0: "uses s ?t = 0" using idle'(7) by (simp add: once_ok_def)
  then have "once_ok s1" using idle'(7) us by (auto simp: once_ok_def s1_def)
  ultimately have "tw_idle s1" using tw idle' p by (auto simp: tw_idle_def s1_def)
  moreover have "later s s1" using us tk by (auto simp: later_def s1_def)
  moreover have "?t \<notin> set (tasks s1)" using idle'(5) tk by (auto simp: tasks_ok_def)
  moreover have "\<not> pending s1 ?t" unfolding pending_def s1_def by simp
  moreover have "new_timer e p s = (?t, s1)" by (simp add: new_timer_def Let_def s1_def)
  moreover have "uses s1 ?t = 0" using us u0 by simp
  ultimately show ?thesis by (simp add: tk)
qed

lemma addOrRun_keeps:
  assumes idle: "tw_idle s" and t: "\<not> pending s t" "t \<le> autoId s" "t \<notin> set (tasks s)"
    and new: "task (store s t) = Once \<Longrightarrow> uses s t = 0"
  shows "\<exists>s'. addOrRun t s = Some (ret s') \<and> tw_idle s' \<and> same_frame s s' \<and>
     tick (levels s' ! 0) = tick (levels s ! 0) \<and> (\<forall>u. u \<noteq> t \<longrightarrow> uses s' u = uses s u) \<and>
     (\<exists>new. fired s' = fired s @ new)"
proof -
  note idle' = tw_idleD [OF idle]
  obtain s' where s': "addOrRun t s = Some (ret s')" "tw_ok None s'" "same_frame s s'"
      "tick (levels s' ! 0) = tick (levels s ! 0)" "uses s' t = Suc (uses s t)" "\<forall>u. u \<noteq> t \<longrightarrow> uses s' u = uses s u"
      "\<exists>new. fired s' = fired s @ new \<and> (\<forall>x\<in>set new. fst (snd x) < snd (snd x) + tick (levels s ! 0))"
      "tasks_ok s \<longrightarrow> tasks_ok s'"
    using addOrRun_idle [OF idle'(1,2) t] by blast
  have fr: "autoId s' = autoId s" "held s' = None" "hand s' = None" "turn s' = None"
      "\<And>u. task (store s' u) = task (store s u)"
    using s'(3) idle'(2-4) by (simp_all add: same_frame_def)
  have "uses s' u \<le> 1" if "task (store s u) = Once" for u
    using s'(5,6) new idle'(7) that by (cases "u = t") (auto simp: once_ok_def)
  moreover have "uses s' u = 0" if "autoId s < u" for u
    using s'(6) t(2) idle'(7) that by (auto simp: once_ok_def)
  ultimately have "once_ok s'" using fr by (simp add: once_ok_def)
  moreover have "early_ok s'" by (rule early_later [OF idle'(6) s'(4,7)])
  ultimately have "tw_idle s'" using s'(2,8) fr idle'(5,8) by (simp add: tw_idle_def)
  with s' show ?thesis by blast
qed

lemma add_new_spec:
  assumes idle: "tw_idle s" and e: "is_ms e" and p: "\<And>next. p = Plan next \<Longrightarrow> sched_ok next"
  shows "\<exists>s'. (case new_timer e p s of (t, s1) \<Rightarrow> addOrRun t s1) = Some (ret s') \<and> tw_idle s' \<and> later s s' \<and> clock s' = clock s"
proof -
  let ?t = "Suc (autoId s)"
  obtain s1 where s1: "new_timer e p s = (?t, s1)" "\<not> pending s1 ?t" "?t \<le> autoId s1" "?t \<notin> set (tasks s1)"
      "tw_idle s1" "later s s1" "uses s1 ?t = 0" "clock s1 = clock s"
    using new_timer_spec [OF idle e p] by (auto split: prod.splits)
  obtain s' where s': "addOrRun ?t s1 = Some (ret s')" "tw_idle s'" "same_frame s1 s'"
      "tick (levels s' ! 0) = tick (levels s1 ! 0)" "\<forall>u. u \<noteq> ?t \<longrightarrow> uses s' u = uses s1 u"
      "\<exists>new. fired s' = fired s1 @ new"
    using addOrRun_keeps [OF s1(5,2-4,7)] by blast
  have fr: "autoId s' = autoId s1" "clock s' = clock s"
      "\<And>u. task (store s' u) = task (store s1 u)" "\<And>u. expiration (store s' u) = expiration (store s1 u)"
    using s'(3) s1(8) by (simp_all add: same_frame_def)
  have "uses s' u \<le> uses s u" "task (store s' u) = task (store s u)" "expiration (store s' u) = expiration (store s u)"
    if "u \<le> autoId s" "task (store s u) = Once" for u
    using s1(6) s'(5) fr that by (auto simp: later_def)
  moreover have "task (store s' u) = task (store s u)" if "u \<le> autoId s" for u
    using s1(6) fr that by (auto simp: later_def)
  ultimately have "later s s'" using s1(6) s'(4,6) fr(1) by (auto simp: later_def)
  then show ?thesis using s1(1) s'(1,2) fr(2) by simp
qed

lemma idle_fields [simp]: "tw_idle (s\<lparr>runs := r\<rparr>) = tw_idle s" "later s0 (s\<lparr>runs := r\<rparr>) = later s0 s"
  by (simp_all add: tw_idle_def later_def tasks_ok_def early_ok_def once_ok_def uses_def pending_def
      tw_ok_cong [of "s\<lparr>runs := r\<rparr>" s])

text \<open>A task that leaves the started ones, and its timer with a new time.\<close>

lemma task_taken:
  assumes idle: "tw_idle s" and t: "t \<in> set (tasks s)"
  defines "s1 \<equiv> s\<lparr>tasks := remove1 t (tasks s)\<rparr>"
  shows "tw_idle s1" "later s s1" "t \<notin> set (tasks s1)"
proof -
  note idle' = tw_idleD [OF idle]
  have "tw_ok None s1" using idle'(1) unfolding s1_def by (subst tw_ok_cong [of _ s]) simp_all
  moreover have "tasks_ok s1" using idle'(5) set_remove1_subset [of t "tasks s"]
    by (auto simp: tasks_ok_def pending_def s1_def)
  moreover have "uses s1 u = uses s u" for u by (simp add: uses_def pending_def s1_def)
  then have "once_ok s1" using idle'(7) by (simp add: once_ok_def) (simp add: s1_def)
  ultimately show "tw_idle s1" using idle' by (simp add: tw_idle_def early_ok_def) (simp add: s1_def)
  show "later s s1" by (simp add: later_def uses_def pending_def s1_def)
  show "t \<notin> set (tasks s1)" using idle'(5) by (simp add: tasks_ok_def s1_def)
qed

lemma new_time:
  assumes idle: "tw_idle s" and t: "\<not> pending s t" "t \<le> autoId s" "task (store s t) = Plan f" and e: "is_ms e"
  defines "s1 \<equiv> upd_timer t (\<lambda>x. x\<lparr>expiration := e\<rparr>) s"
  shows "tw_idle s1 \<and> later s s1 \<and> tasks s1 = tasks s \<and> autoId s1 = autoId s \<and> \<not> pending s1 t \<and>
    task (store s1 t) = Plan f \<and> clock s1 = clock s"
proof -
  note idle' = tw_idleD [OF idle]
  note ok' = tw_okD [OF idle'(1)]
  have s1: "s1 = s\<lparr>store := (store s)(t := (store s t)\<lparr>expiration := e\<rparr>)\<rparr>" by (simp add: s1_def upd_timer_def)
  have ib: "inBucket (store s1 u) = inBucket (store s u)" for u by (simp add: s1)
  have out: "t \<notin> set (timers (buckets s c))" for c
    using timers_mem [OF ok'(5), of t c] t(1) unfolding pending_def by (metis option.distinct(1))
  have bok: "bucket_ok s1 None c" for c using ok'(4) [of c] out [of c] by (auto simp: bucket_ok_def Let_def s1)
  have tok: "timers_ok s1" using ok'(5) e ib by (simp add: timers_ok_def) (simp add: s1)
  have "queue_ok s1 None" using ok'(6) by (simp add: queue_ok_def in_use_def s1)
  with bok tok have tw: "tw_ok None s1" by (intro tw_okI [OF idle'(1)]) (simp_all add: s1)
  have p: "pending s1 u = pending s u" for u unfolding pending_def ib ..
  have tk: "task (store s1 u) = task (store s u)" for u by (simp add: s1)
  have fr: "fired s1 = fired s" "tasks s1 = tasks s" "autoId s1 = autoId s" "levels s1 = levels s" "clock s1 = clock s"
      "held s1 = held s" "hand s1 = hand s" "turn s1 = turn s"
    by (simp_all add: s1)
  have us: "uses s1 u = uses s u" for u by (simp add: uses_def p fr)
  have "tw_idle s1" using tw idle' by (simp add: tw_idle_def tasks_ok_def early_ok_def once_ok_def us p tk fr)
  moreover have "later s s1" using t(3) us fr tk by (auto simp: later_def s1)
  ultimately show ?thesis using fr p t tk by simp
qed

lemma run_task_spec:
  assumes idle: "tw_idle s"
  shows "\<exists>s'. run_task t s = Some (ret s') \<and> tw_idle s' \<and> later s s' \<and> clock s' = clock s"
proof (cases "t \<in> set (tasks s)")
  case False
  then show ?thesis using idle by (simp add: run_task_def)
next
  case True
  define s1 where "s1 = s\<lparr>tasks := remove1 t (tasks s)\<rparr>"
  have s1: "tw_idle s1" "later s s1" "t \<notin> set (tasks s1)" using task_taken [OF idle True] by (simp_all add: s1_def)
  have old: "store s1 = store s" "autoId s1 = autoId s" "clock s1 = clock s" by (simp_all add: s1_def)
  have t: "\<not> pending s1 t" "t \<le> autoId s1"
    using tw_idleD(5) [OF idle] True by (auto simp: tasks_ok_def pending_def old)
  have run: "run_task t s = map_option (map_option (\<lambda>s. s\<lparr>runs := runs s @ [t]\<rparr>))
      (case task (store s1 t) of Once \<Rightarrow> Some (ret s1)
       | Plan f \<Rightarrow> (case f (msToTime (expiration (store s1 t))) of
            None \<Rightarrow> Some (ret s1)
          | Some e \<Rightarrow> addOrRun t (upd_timer t (\<lambda>x. x\<lparr>expiration := timeToMs e\<rparr>) s1)))"
    using True by (simp add: run_task_def s1_def Let_def cong: plan.case_cong option.case_cong)
  show ?thesis
  proof (cases "\<exists>f e. task (store s1 t) = Plan f \<and> f (msToTime (expiration (store s1 t))) = Some e")
    case False
    then have "run_task t s = Some (ret (s1\<lparr>runs := runs s1 @ [t]\<rparr>))"
      unfolding run by (auto split: plan.splits option.splits)
    then show ?thesis using s1(1,2) old(3) by simp
  next
    case True
    then obtain f e where f: "task (store s1 t) = Plan f" "f (msToTime (expiration (store s1 t))) = Some e" by blast
    then have e: "is_ms (timeToMs e)" using tw_idleD(8) [OF s1(1) f(1)] timeToMs_is_ms by (auto simp: sched_ok_def)
    define s2 where "s2 = upd_timer t (\<lambda>x. x\<lparr>expiration := timeToMs e\<rparr>) s1"
    have s2: "tw_idle s2" "later s1 s2" "tasks s2 = tasks s1" "autoId s2 = autoId s1" "\<not> pending s2 t"
        "task (store s2 t) = Plan f" "clock s2 = clock s1"
      using new_time [OF s1(1) t f(1) e] by (simp_all add: s2_def)
    obtain s' where s': "addOrRun t s2 = Some (ret s')" "tw_idle s'" "same_frame s2 s'"
        "tick (levels s' ! 0) = tick (levels s2 ! 0)" "\<forall>u. u \<noteq> t \<longrightarrow> uses s' u = uses s2 u" "\<exists>new. fired s' = fired s2 @ new"
      using addOrRun_keeps [OF s2(1,5)] t(2) s1(3) s2(3,4,6) by auto
    have "uses s' u \<le> uses s2 u" if "task (store s2 u) = Once" for u
      using s'(5) s2(6) that by (cases "u = t") simp_all
    then have "later s2 s'" using s'(3,4,6) by (simp add: later_def same_frame_def)
    then have "later s s'" using s1(2) s2(2) later_trans by blast
    moreover have "clock s' = clock s" using s'(3) s2(7) old(3) by (simp add: same_frame_def)
    moreover have "run_task t s = Some (ret (s'\<lparr>runs := runs s' @ [t]\<rparr>))"
      unfolding run using f s'(1) by (simp add: s2_def)
    ultimately show ?thesis using s'(2) by simp
  qed
qed

lemma Timer_Stop_spec:
  assumes idle: "tw_idle s"
  shows "\<exists>s'. Timer_Stop t s = Some (pending s t, s') \<and> tw_idle s' \<and> later s s' \<and> clock s' = clock s \<and>
     \<not> pending s' t \<and> fired s' = fired s"
proof (cases "inBucket (store s t)")
  case None
  then have "Timer_Stop t s = Some (pending s t, s)"
    by (simp add: Timer_Stop_def pending_def) (subst Stop_loop.simps, simp)
  then show ?thesis using idle None by (intro exI [of _ s]) (simp add: pending_def)
next
  case (Some b)
  note idle' = tw_idleD [OF idle]
  obtain s' where s': "bucket_remove b t s = (True, s')" "tw_ok None s'" "same_frame s s'" "levels s' = levels s"
      "fired s' = fired s" "tasks s' = tasks s" "store s' = (store s)(t := (store s t)\<lparr>inBucket := None\<rparr>)"
    using take_out_spec [OF idle'(1) Some] by blast
  have "Stop_loop t True s' = Some (True, s')" using s'(7) by (subst Stop_loop.simps) simp
  then have stop: "Timer_Stop t s = Some (pending s t, s')"
    using Some s'(1) idle'(2) by (simp add: Timer_Stop_def pending_def) (subst Stop_loop.simps, simp)
  have fr: "autoId s' = autoId s" "held s' = None" "hand s' = None" "turn s' = None" "clock s' = clock s"
      "\<And>u. task (store s' u) = task (store s u)" "\<And>u. expiration (store s' u) = expiration (store s u)"
    using s'(3) idle'(2-4) by (simp_all add: same_frame_def)
  have pend: "pending s' u \<longleftrightarrow> pending s u \<and> u \<noteq> t" for u by (simp add: pending_def s'(7))
  have us: "uses s' u \<le> uses s u" for u by (simp add: uses_def pend s'(5))
  have "once_ok s'" by (rule once_later [OF idle'(7) fr(1) fr(6) us])
  moreover have "tasks_ok s'" using idle'(5) s'(6) fr(1) pend by (auto simp: tasks_ok_def)
  moreover have "early_ok s'" using idle'(6) s'(4,5) by (simp add: early_ok_def)
  ultimately have "tw_idle s'" using s'(2) fr idle'(8) by (auto simp: tw_idle_def)
  moreover have "later s s'" using fr s'(4,5) us by (simp add: later_def)
  ultimately show ?thesis using stop fr(5) pend s'(5) by (intro exI [of _ s']) simp
qed

subsection \<open>What can go wrong\<close>

text \<open>
  A run that is not calm: the poller takes the bucket of timer 1 while the wheel's goroutine has
  still to handle the bucket of timer 2, which puts timer 3 into the bucket in hand.
  Timer 3 is due at 117 and fired at 112.
\<close>

definition early_run :: "tw_event list" where
  "early_run = [EAfter 9000000, EAfter 12000000, EPass 12000000, EPoll, EReceive, EPoll, EHandle, EReceive, EHandle,
     EAfter 5000000, EPoll, EReceive, EHandle]"

lemma wheel_fires_early:
  "\<exists>s s'. NewTimingWheel 1000000 8 100000000 = ret s \<and> tw_run early_run s = Some (ret s') \<and>
     (3, 117, 112) \<in> set (fired s')"
proof -
  have "map_option (\<lambda>s. map_option (map_option fired) (tw_run early_run s)) (NewTimingWheel 1000000 8 100000000) =
     Some (Some (Some [(2, 112, 112), (1, 109, 112), (3, 117, 112)]))" by code_simp
  then show ?thesis by auto
qed

text \<open>
  In a wheel of size 1 each overflow wheel has the tick of the wheel below it, so that \<open>add\<close> of a
  timer that is not due never returns.
\<close>

lemma add_diverges:
  assumes "tw_add i t s = Some r" "wheelSize s = 1" "i < length (levels s)" "\<forall>v\<in>set (levels s). v = w"
    "interval w = tick w" "i64 (tick w) = tick w" "truncate_to (currentTime w) (tick w) = currentTime w"
    "i64 (currentTime w + tick w) \<le> expiration (store s t)"
  shows False
  using assms
proof (induction i t s r rule: tw_add.raw_induct [rotated 1, consumes 1, case_names step])
  case (step add i t s r)
  note h = step(2) step.prems
  let ?s = "add_overflow i s"
  have w: "levels s ! i = w" using h(3,4) by simp
  have s: "?s = s \<or> ?s = s\<lparr>levels := levels s @ [w]\<rparr>"
    using h(2,5-7) by (simp add: add_overflow_def Let_def w newWheel_def)
  have "wheelSize ?s = 1" "\<forall>v\<in>set (levels ?s). v = w" "expiration (store ?s t) = expiration (store s t)"
    using s h(2,4) by auto
  moreover have "Suc i < length (levels ?s)"
    using h(3) by (simp add: add_overflow_def Let_def)
  moreover have "add (Suc i) t ?s = Some r"
    using step(2) h(5,8) by (simp add: w Let_def)
  ultimately show False using step(1) [of "Suc i" t ?s r] h(5-8) by simp
qed

lemma wheel_of_one_diverges:
  "\<exists>s. NewTimingWheel 1000000 1 100000000 = ret s \<and> AfterFunc 1000000 s = None"
proof -
  obtain s where s: "NewTimingWheel 1000000 1 100000000 = ret s" by (simp add: NewTimingWheel_def signed_divide_int_def)
  have "tw_add 0 1 (snd (new_timer (timeToMs (clock s + 1000000)) Once s)) = None"
  proof (rule ccontr)
    assume "tw_add 0 1 (snd (new_timer (timeToMs (clock s + 1000000)) Once s)) \<noteq> None"
    then obtain r where "tw_add 0 1 (snd (new_timer (timeToMs (clock s + 1000000)) Once s)) = Some r" by blast
    then show False
      by (rule add_diverges [where w = "newWheel 1 1 100"])
        (use s in \<open>auto simp: NewTimingWheel_def new_timer_def newWheel_def timeToMs_def signed_divide_int_def
           truncate_to_def signed_modulo_int_def Let_def\<close>)
  qed
  then show ?thesis using s by (auto simp: AfterFunc_def new_timer_def addOrRun_def NewTimingWheel_def Let_def)
qed

end
