(* ===== verification/TimingAny.thy ===== *)
theory TimingAny
  imports TimingProps
begin

section \<open>Timing wheel: what holds in every interleaving\<close>

text \<open>
  Without the order of the calm runs the windows of \<open>TimingInv\<close> do not hold: a bucket in hand can get
  timers of a later round and be queued twice.  What holds is less and enough: the timers of a bucket
  in use expire before its expiration is a tick ago, its expiration is less than one round ahead, and
  each timer is \<open>carried\<close>: its bucket is in hand, or queued with a priority that is not above the
  timer's expiration.
\<close>

subsection \<open>The invariant\<close>

text \<open>Of two multiples of a tick that share a place, one is not later if it is less than a round ahead.\<close>

lemma round_le:
  assumes "0 < (u :: int)" "0 < n" "u dvd a" "u dvd b" "a < c + u * n" "c \<le> b" "(a div u) mod n = (b div u) mod n"
  shows "a \<le> b"
proof (rule ccontr)
  assume "\<not> a \<le> b"
  obtain a' b' where [simp]: "a = u * a'" "b = u * b'" using assms(3,4) by (auto elim!: dvdE)
  have "n dvd a' - b'" using assms(1,7) by (simp add: mod_eq_dvd_iff)
  moreover have "0 < a' - b'" using \<open>\<not> a \<le> b\<close> assms(1) by simp
  ultimately have "n \<le> a' - b'" by (rule zdvd_imp_le)
  then have "u * n \<le> u * (a' - b')" using assms(1) by (intro mult_left_mono) simp_all
  then show False using assms(5,6) by (simp add: right_diff_distrib)
qed

definition carried :: "tw \<Rightarrow> baddr \<Rightarrow> int \<Rightarrow> bool" where
  "carried s b e \<longleftrightarrow> (\<exists>p. (b, p) \<in># pq_bag (queue s) \<and> p \<le> e) \<or> hand s = Some b \<or> turn s = Some b"

definition bucket_any :: "tw \<Rightarrow> baddr option \<Rightarrow> baddr \<Rightarrow> bool" where
  "bucket_any s X b \<longleftrightarrow> (let k = buckets s b; e = Expiration k; w = levels s ! fst b in
     if e = - 1 then timers k = []
     else fst b < length (levels s) \<and> is_ms e \<and> tick w dvd e \<and> (e div tick w) mod wheelSize s = int (snd b) \<and>
       e < currentTime w + interval w \<and> (\<forall>t\<in>set (timers k). expiration (store s t) < e + tick w) \<and>
       (X \<noteq> Some b \<longrightarrow> carried s b e \<and> (\<forall>t\<in>set (timers k). carried s b (expiration (store s t)))))"

definition tw_any :: "baddr option \<Rightarrow> tw \<Rightarrow> bool" where
  "tw_any X s \<longleftrightarrow> few (wheelSize s) \<and> levels s \<noteq> [] \<and> chain (wheelSize s) (levels s) \<and>
     (\<forall>b. bucket_any s X b) \<and> timers_ok s \<and> pq_inv (queue s) \<and> is_ns (clock s)"

lemma tw_anyD:
  assumes "tw_any X s"
  shows "few (wheelSize s)" "levels s \<noteq> []" "chain (wheelSize s) (levels s)" "bucket_any s X b"
    "timers_ok s" "pq_inv (queue s)" "is_ns (clock s)"
  using assms by (cases b; simp add: tw_any_def)+

lemma tw_anyI:
  assumes "tw_any Y s" "wheelSize s' = wheelSize s" "levels s' = levels s" "clock s' = clock s"
    "\<And>b. bucket_any s' X b" "timers_ok s'" "pq_inv (queue s')"
  shows "tw_any X s'"
  using tw_anyD [OF assms(1)] assms(2-) by (simp add: tw_any_def)

lemma tw_any_cong:
  assumes "wheelSize s' = wheelSize s" "levels s' = levels s" "buckets s' = buckets s" "queue s' = queue s"
    "store s' = store s" "autoId s' = autoId s" "clock s' = clock s" "hand s' = hand s" "turn s' = turn s"
  shows "tw_any X s' = tw_any X s"
  using assms by (simp add: tw_any_def bucket_any_def timers_ok_def carried_def)

lemma carried_mono: "carried s b e \<Longrightarrow> e \<le> e' \<Longrightarrow> carried s b e'"
  unfolding carried_def by (meson order_trans)

lemma carried_more:
  assumes "carried s b e" "\<And>x. x \<in># pq_bag (queue s) \<Longrightarrow> x \<in># pq_bag (queue s')" "hand s' = hand s" "turn s' = turn s"
  shows "carried s' b e"
  using assms(1,3,4) assms(2) [of "(b, _)"] unfolding carried_def by metis

lemma carried_fields [simp]:
  "carried (s\<lparr>levels := ls\<rparr>) = carried s" "carried (s\<lparr>buckets := bs\<rparr>) = carried s"
  "carried (s\<lparr>store := st\<rparr>) = carried s" "carried (s\<lparr>held := h\<rparr>) = carried s"
  "carried (s\<lparr>clock := n\<rparr>) = carried s" "carried (s\<lparr>tasks := ts\<rparr>) = carried s"
  "carried (s\<lparr>autoId := i\<rparr>) = carried s"
  by (simp_all add: carried_def fun_eq_iff)

lemma tw_any_levels:
  assumes "tw_any X s" "chain (wheelSize s) (levels s @ ups)"
  shows "tw_any X (s\<lparr>levels := levels s @ ups\<rparr>)"
proof -
  have "bucket_any (s\<lparr>levels := levels s @ ups\<rparr>) X b" for b
    using tw_anyD(4) [OF assms(1), of b] by (auto simp: bucket_any_def Let_def nth_append)
  then show ?thesis using assms tw_anyD [OF assms(1)] by (auto simp: tw_any_def timers_ok_def)
qed

subsection \<open>\<open>add\<close> and \<open>addOrRun\<close>\<close>

lemma add_bucket_any:
  assumes ok: "tw_any X s" and t: "inBucket (store s t) = None" "t \<le> autoId s"
    and to: "goes_to (expiration (store s t)) (levels s) l"
    and X: "\<And>j. X \<noteq> Some (l, j)" and held: "\<And>j. held s \<noteq> Some (l, j)"
  shows "\<exists>s' b. add_bucket l t s = Some (ret s') \<and> fst b = l \<and> tw_any X s' \<and> same_frame s s' \<and>
     fired s' = fired s \<and> tasks s' = tasks s \<and> runs s' = runs s \<and>
     store s' = (store s)(t := (store s t)\<lparr>inBucket := Some b\<rparr>) \<and> (\<forall>c. c \<noteq> b \<longrightarrow> buckets s' c = buckets s c) \<and>
     levels s' = levels s \<and> load s' \<le> load s + 2 * (l + 1) + 1"
proof -
  let ?w = "levels s ! l" and ?n = "wheelSize s" and ?e = "expiration (store s t)"
  define u where "u = tick ?w"
  define j where "j = nat ((?e div u) mod ?n)"
  define E where "E = ?e div u * u"
  define b where "b = (l, j)"
  note ok' = tw_anyD [OF ok]
  have l: "l < length (levels s)" "currentTime ?w + u \<le> ?e" "?e < currentTime ?w + interval ?w"
    using to by (auto simp: goes_to_def u_def)
  have w: "level_ok ?n ?w" by (rule chain_level [OF ok'(3) l(1)])
  have u: "0 < u" "interval ?w = u * ?n" "u dvd currentTime ?w" "0 \<le> currentTime ?w" and n: "0 < ?n"
    using w ok'(1) by (auto simp: level_ok_def u_def is_ms_def few_def)
  have e: "is_ms ?e" using ok'(5) by (simp add: timers_ok_def)
  have E: "E \<le> ?e" "?e < E + u" "u dvd E"
    using u(1) pos_mod_bound [of u ?e] pos_mod_sign [of u ?e] by (simp_all add: E_def minus_mod_eq_div_mult [symmetric])
  have cE: "currentTime ?w \<le> E" using dvd_step [OF u(1,3) E(3)] l(2) E(2) by simp
  have Ems: "is_ms E" "E \<noteq> - 1" using cE u(4) E(1) e by (auto simp: is_ms_def)
  then have iE: "i64 (?e div u * u) = E" by (simp add: E_def is_ms_def)
  define f where "f = (\<lambda>k :: bucket. k\<lparr>timers := timers k @ [t], Expiration := E\<rparr>)"
  define x where "x = (store s t)\<lparr>inBucket := Some b\<rparr>"
  define s1 where "s1 = s\<lparr>buckets := (buckets s)(b := f (buckets s b)), store := (store s)(t := x)\<rparr>"
  have notin: "t \<notin> set (timers (buckets s c))" for c
    using ok'(5) t(1) by (cases c) (auto simp: timers_ok_def)
  have "0 \<le> ?e" using e by (simp add: is_ms_def)
  then have vid: "?e sdiv u = ?e div u" "(?e div u) smod ?n = (?e div u) mod ?n" "\<not> (?e div u) mod ?n < 0"
    using u(1) n by (simp_all add: sdiv_nonneg smod_nonneg pos_imp_zdiv_nonneg_iff not_less)
  have at: "nat ((?e div u) mod ?n) = j" "(l, j) = b" by (simp_all add: j_def b_def)
  have set: "SetExpiration b E (bucket_Add b t s) = (Expiration (buckets s b) \<noteq> E, s1)"
    by (simp add: SetExpiration_def bucket_Add_def upd_timer_def upd_bucket_def s1_def f_def x_def)
  have sel: "Expiration (buckets s1 b) = E" "queue s1 = queue s" by (simp_all add: s1_def f_def)
  have step: "add_bucket l t s =
      (if Expiration (buckets s b) \<noteq> E then (case pq_offer (queue s) b E of
          None \<Rightarrow> Some panic | Some (q, _) \<Rightarrow> Some (ret (s1\<lparr>queue := q\<rparr>)))
       else Some (ret s1))"
    using n u(1) held [of j] sel iE
    by (simp add: add_bucket_def u_def [symmetric] vid at Let_def set)
  have tok: "timers_ok s1"
    using ok'(5) notin t by (auto simp: timers_ok_def s1_def f_def x_def)
  have frame: "same_frame s s1" by (simp add: same_frame_def s1_def x_def)
  have ld: "(\<Sum>t\<le>autoId s1. weight (inBucket (store s1 t))) =
      (\<Sum>t\<le>autoId s. weight (inBucket (store s t))) + 2 * (l + 1)"
    using load_upd [OF t(2), of s1 x] t(1) by (simp add: s1_def x_def weight_def b_def)
  have Xb: "X \<noteq> Some b" using X by (simp add: b_def)
  have jE: "(E div u) mod ?n = int j" using n u(1) by (simp add: E_def j_def)
  have old: "Expiration (buckets s b) = - 1 \<and> timers (buckets s b) = [] \<or>
      Expiration (buckets s b) \<le> E \<and> (\<forall>r\<in>set (timers (buckets s b)). expiration (store s r) < E + u \<and>
        carried s b (expiration (store s r))) \<and> carried s b (Expiration (buckets s b))"
  proof (cases "Expiration (buckets s b) = - 1")
    case True
    then show ?thesis using ok'(4) [of b] by (simp add: bucket_any_def)
  next
    case False
    let ?E = "Expiration (buckets s b)"
    have b: "u dvd ?E" "(?E div u) mod ?n = int j" "?E < currentTime ?w + u * ?n"
        "\<forall>r\<in>set (timers (buckets s b)). expiration (store s r) < ?E + u \<and> carried s b (expiration (store s r))"
        "carried s b ?E"
      using ok'(4) [of b] False Xb u(2) by (simp_all add: bucket_any_def Let_def b_def u_def)
    have "?E \<le> E" by (rule round_le [OF u(1) n b(1) E(3) b(3) cE]) (simp add: b(2) jE)
    with b(4,5) show ?thesis by fastforce
  qed
  text \<open>A queue that has lost nothing and carries \<open>b\<close> from its new expiration on.\<close>
  have bok: "bucket_any (s1\<lparr>queue := q\<rparr>) X c"
    if q: "\<And>x. x \<in># pq_bag (queue s) \<Longrightarrow> x \<in># pq_bag q" and new: "carried (s1\<lparr>queue := q\<rparr>) b E" for q c
  proof -
    have more: "carried s d e \<Longrightarrow> carried (s1\<lparr>queue := q\<rparr>) d e" for d e
      by (erule carried_more) (simp_all add: q s1_def)
    have x: "expiration x = ?e" by (simp add: x_def)
    show ?thesis
    proof (cases "c = b")
      case False
      then show ?thesis using ok'(4) [of c] notin [of c] more x
        by (auto simp: bucket_any_def Let_def s1_def)
    next
      case True
      have "\<forall>r\<in>set (timers (buckets s b)). expiration (store s r) < E + u \<and>
          carried (s1\<lparr>queue := q\<rparr>) b (expiration (store s r))"
        using old by (metis Ems(2) empty_iff list.set(1) more)
      moreover have "carried (s1\<lparr>queue := q\<rparr>) b ?e" by (rule carried_mono [OF new E(1)])
      ultimately show ?thesis using True new l E Ems jE u(2)
        by (simp add: bucket_any_def Let_def s1_def f_def x b_def u_def [symmetric])
    qed
  qed
  show ?thesis
  proof (cases "Expiration (buckets s b) = E")
    case True
    have "carried s b E" using old True Ems(2) by auto
    then have c: "carried (s1\<lparr>queue := queue s\<rparr>) b E" by (simp add: carried_def s1_def)
    have "s1\<lparr>queue := queue s\<rparr> = s1" by (simp add: s1_def)
    then have "tw_any X s1" using bok [OF _ c] tok ok'(6) sel(2)
      by (intro tw_anyI [OF ok]) (simp_all add: s1_def)
    then show ?thesis using step True frame ld
      by (intro exI [of _ s1] exI [of _ b]) (simp add: s1_def b_def x_def load_def)
  next
    case False
    obtain q i where q: "pq_offer (queue s) b E = Some (q, i)" "pq_inv q"
        "pq_bag q = pq_bag (queue s) + {#(b, E)#}"
      using pq_offer_spec [of "queue s" b E] ok'(6) by auto
    have c: "carried (s1\<lparr>queue := q\<rparr>) b E" using q(3) by (auto simp: carried_def)
    have b: "bucket_any (s1\<lparr>queue := q\<rparr>) X d" for d by (rule bok [OF _ c]) (simp add: q(3))
    have "timers_ok (s1\<lparr>queue := q\<rparr>)" using tok by simp
    then have "tw_any X (s1\<lparr>queue := q\<rparr>)" using b q(2)
      by (intro tw_anyI [OF ok]) (simp_all add: s1_def)
    then show ?thesis using step False frame ld q
      by (intro exI [of _ "s1\<lparr>queue := q\<rparr>"] exI [of _ b]) (simp add: s1_def b_def x_def load_def same_frame_def)
  qed
qed

lemma addOrRun_any:
  assumes ok: "tw_any X s" and t: "inBucket (store s t) = None" "t \<le> autoId s"
    and held: "held s = None \<or> held s = X" and X: "falls s X (expiration (store s t))"
  shows "\<exists>s'. addOrRun t s = Some (ret s') \<and> tw_any X s' \<and> same_frame s s' \<and> runs s' = runs s \<and>
     (expiration (store s t) < currentTime (levels s ! 0) + tick (levels s ! 0) \<and> s' = start_task t s \<or>
      (\<exists>b. currentTime (levels s ! 0) + tick (levels s ! 0) \<le> expiration (store s t) \<and>
         fired s' = fired s \<and> tasks s' = tasks s \<and>
         store s' = (store s)(t := (store s t)\<lparr>inBucket := Some b\<rparr>) \<and> (\<forall>c. c \<noteq> b \<longrightarrow> buckets s' c = buckets s c) \<and>
         X \<noteq> Some b \<and> load s' \<le> load s + 2 * (fst b + 1) + 1 \<and> (\<forall>k j. X = Some (k, j) \<longrightarrow> fst b < k)))"
proof -
  let ?e = "expiration (store s t)" and ?w = "levels s ! 0"
  note ok' = tw_anyD [OF ok]
  have len: "0 < length (levels s)" using ok'(2) by simp
  show ?thesis
  proof (cases "?e < currentTime ?w + tick ?w")
    case True
    have "tw_add 0 t s = Some (ret (False, s))" by (rule tw_add_expired [OF ok'(3,1) len True])
    moreover have "tw_any X (start_task t s)" using ok by (subst tw_any_cong [of _ s]) (simp_all add: start_task_def)
    ultimately show ?thesis using True
      by (intro exI [of _ "start_task t s"]) (simp add: addOrRun_def same_frame_def start_task_def)
  next
    case False
    have ms: "is_ms ?e" using ok'(5) by (simp add: timers_ok_def)
    obtain l ups where add: "tw_add 0 t s =
        map_option (map_option (Pair True)) (add_bucket l t (s\<lparr>levels := levels s @ ups\<rparr>))"
      "chain (wheelSize s) (levels s @ ups)" "goes_to ?e (levels s @ ups) l"
      using tw_add_finds [OF ok'(3,1) len ms] False by auto
    let ?s = "s\<lparr>levels := levels s @ ups\<rparr>"
    have lower: "l < k" if "X = Some (k, j)" for k j
    proof (rule ccontr)
      assume "\<not> l < k"
      show False
      proof (cases "k = 0")
        case True
        then show False using X that False by (auto simp: falls_def)
      next
        case nz: False
        then have k1: "k - 1 < l" "k - 1 < length (levels s)" using \<open>\<not> l < k\<close> X that by (auto simp: falls_def)
        then have "currentTime (levels s ! (k - 1)) + interval (levels s ! (k - 1)) \<le> ?e"
          using add(3) by (auto simp: goes_to_def nth_append)
        then show False using X that nz by (auto simp: falls_def)
      qed
    qed
    have ok1: "tw_any X ?s" by (rule tw_any_levels [OF ok add(2)])
    have "\<exists>s' b. add_bucket l t ?s = Some (ret s') \<and> fst b = l \<and> tw_any X s' \<and> same_frame ?s s' \<and>
       fired s' = fired ?s \<and> tasks s' = tasks ?s \<and> runs s' = runs ?s \<and>
       store s' = (store ?s)(t := (store ?s t)\<lparr>inBucket := Some b\<rparr>) \<and> (\<forall>c. c \<noteq> b \<longrightarrow> buckets s' c = buckets ?s c) \<and>
       levels s' = levels ?s \<and> load s' \<le> load ?s + 2 * (l + 1) + 1"
      using lower held t add(3) by (intro add_bucket_any [OF ok1]) fastforce+
    then obtain s' b where s': "add_bucket l t ?s = Some (ret s')" "fst b = l" "tw_any X s'" "same_frame ?s s'"
       "fired s' = fired s" "tasks s' = tasks s" "runs s' = runs s"
       "store s' = (store s)(t := (store s t)\<lparr>inBucket := Some b\<rparr>)" "\<forall>c. c \<noteq> b \<longrightarrow> buckets s' c = buckets s c"
       "levels s' = levels s @ ups" "load s' \<le> load s + 2 * (l + 1) + 1"
      by (auto simp: load_def)
    have "same_frame s s'" using s'(4,10) by (simp add: same_frame_def)
    moreover have "X \<noteq> Some b" using lower s'(2) by (cases b) auto
    ultimately show ?thesis using s' add(1) False lower
      by (intro exI [of _ s'] conjI disjI2 exI [of _ b]) (simp_all add: addOrRun_def)
  qed
qed


lemma take_out_any:
  assumes ok: "tw_any X s" and t: "inBucket (store s t) = Some b"
  shows "\<exists>s'. bucket_remove b t s = (True, s') \<and> tw_any X s' \<and> same_frame s s' \<and> levels s' = levels s \<and>
     fired s' = fired s \<and> tasks s' = tasks s \<and> runs s' = runs s \<and>
     store s' = (store s)(t := (store s t)\<lparr>inBucket := None\<rparr>) \<and>
     buckets s' = (buckets s)(b := (buckets s b)\<lparr>timers := remove1 t (timers (buckets s b))\<rparr>) \<and>
     load s' + 2 * (fst b + 1) = load s"
proof -
  define x where "x = (store s t)\<lparr>inBucket := None\<rparr>"
  define s1 where "s1 = s\<lparr>buckets := (buckets s)(b := (buckets s b)\<lparr>timers := remove1 t (timers (buckets s b))\<rparr>),
    store := (store s)(t := x)\<rparr>"
  note ok' = tw_anyD [OF ok]
  have rem: "bucket_remove b t s = (True, s1)"
    using t by (simp add: bucket_remove_def upd_timer_def upd_bucket_def s1_def x_def)
  have dist: "distinct (timers (buckets s c))" for c using ok'(5) by (cases c) (simp add: timers_ok_def)
  have mem: "u \<in> set (timers (buckets s c)) \<longleftrightarrow> inBucket (store s u) = Some c" for u c
    using ok'(5) by (cases c) (simp add: timers_ok_def)
  have bok: "bucket_any s1 X c" for c
    using ok'(4) [of c] set_remove1_subset [of t "timers (buckets s b)"]
    by (cases "c = b") (auto simp: bucket_any_def Let_def s1_def x_def)
  have tok: "timers_ok s1"
    unfolding timers_ok_def
  proof (intro conjI allI)
    fix u c show "u \<in> set (timers (buckets s1 c)) \<longleftrightarrow> inBucket (store s1 u) = Some c"
      using mem [of u c] t dist [of b] by (auto simp: s1_def x_def)
  qed (use ok'(5) dist in \<open>auto simp: timers_ok_def s1_def x_def\<close>)
  have "tw_any X s1" using bok tok ok'(6) by (intro tw_anyI [OF ok]) (simp_all add: s1_def)
  moreover have "t \<le> autoId s" using ok'(5) t by (cases b) (auto simp: timers_ok_def)
  then have "load s1 + 2 * (fst b + 1) = load s"
    using load_upd [of t s s1 x] t by (simp add: s1_def x_def weight_def load_def)
  ultimately show ?thesis using rem
    by (intro exI [of _ s1]) (simp add: same_frame_def s1_def x_def)
qed


subsection \<open>How timers move\<close>

definition moved :: "tw \<Rightarrow> tw \<Rightarrow> bool" where
  "moved s s' \<longleftrightarrow> (\<exists>new. fired s' = fired s @ new) \<and> (\<forall>t. uses s' t = uses s t) \<and>
     (\<forall>t. pending s t \<longrightarrow> pending s' t \<or> (t, expiration (store s t), timeToMs (clock s)) \<in> set (fired s')) \<and>
     (\<forall>t. pending s' t \<longrightarrow> pending s t) \<and> (tasks_ok s \<longrightarrow> tasks_ok s')"

lemma moved_refl:
  "fired s' = fired s \<Longrightarrow> store s' = store s \<Longrightarrow> tasks s' = tasks s \<Longrightarrow> autoId s' = autoId s \<Longrightarrow> moved s s'"
  by (simp add: moved_def uses_def pending_def tasks_ok_def)

lemma movedD:
  assumes "moved s s'"
  shows "\<exists>new. fired s' = fired s @ new" "uses s' t = uses s t"
    "pending s t \<Longrightarrow> pending s' t \<or> (t, expiration (store s t), timeToMs (clock s)) \<in> set (fired s')"
    "pending s' t \<Longrightarrow> pending s t" "tasks_ok s \<Longrightarrow> tasks_ok s'"
  using assms unfolding moved_def by blast+

lemma moved_trans:
  assumes m: "moved s s'" "moved s' s''"
    and same: "clock s' = clock s" "\<And>t. expiration (store s' t) = expiration (store s t)"
  shows "moved s s''"
proof -
  obtain new where new: "fired s'' = fired s' @ new" using movedD(1) [OF m(2)] by blast
  have "pending s'' t \<or> (t, expiration (store s t), timeToMs (clock s)) \<in> set (fired s'')" if "pending s t" for t
    using movedD(3) [OF m(1) that] movedD(3) [OF m(2), of t] same new by auto
  moreover have "\<exists>new. fired s'' = fired s @ new" using movedD(1) [OF m(1)] new by fastforce
  ultimately show ?thesis
    unfolding moved_def using movedD(2,4,5) [OF m(1)] movedD(2,4,5) [OF m(2)] by metis
qed

subsection \<open>\<open>Flush\<close>\<close>

lemma level_ticks_any:
  assumes "tw_any X s" "i < length (levels s)"
  shows "0 < tick (levels s ! i)" "interval (levels s ! i) = tick (levels s ! i) * wheelSize s"
  using chain_level [OF tw_anyD(3) [OF assms(1)] assms(2)] by (simp_all add: level_ok_def)


lemma timer_falls_any:
  assumes ok: "tw_any X s" and t: "t \<in> set (timers (buckets s b))"
    and reached: "\<forall>i\<le>fst b. Expiration (buckets s b) \<le> currentTime (levels s ! i)"
  shows "falls s (Some b) (expiration (store s t))"
proof -
  have tm: "expiration (store s t) < Expiration (buckets s b) + tick (levels s ! fst b)" and len: "fst b < length (levels s)"
    using tw_anyD(4) [OF ok, of b] t by (auto simp: bucket_any_def Let_def split: if_splits)
  show ?thesis
  proof (cases "fst b")
    case 0
    then show ?thesis using tm reached by (auto simp: falls_def)
  next
    case (Suc k)
    then have "tick (levels s ! Suc k) = interval (levels s ! k)"
      using chain_overflow [OF tw_anyD(3) [OF ok], of k] len level_ticks_any(2) [OF ok, of k] by (simp add: overflow_of_def)
    moreover have "Expiration (buckets s b) \<le> currentTime (levels s ! k)" using reached Suc by simp
    ultimately show ?thesis using tm Suc len by (auto simp: falls_def)
  qed
qed


lemma flush_step_any:
  assumes ok: "tw_any (Some b) s" and held: "held s = Some b" and ts: "timers (buckets s b) = t # ts"
    and reached: "\<forall>i\<le>fst b. Expiration (buckets s b) \<le> currentTime (levels s ! i)"
  shows "\<exists>s'. addOrRun t (snd (bucket_remove b t s)) = Some (ret s') \<and> tw_any (Some b) s' \<and> same_frame s s' \<and>
     runs s' = runs s \<and> timers (buckets s' b) = ts \<and> Expiration (buckets s' b) = Expiration (buckets s b) \<and>
     moved s s' \<and> load s' \<le> load s"
proof -
  have at: "inBucket (store s t) = Some b" and len: "t \<le> autoId s"
    using tw_anyD(5) [OF ok] ts by (cases b; auto simp: timers_ok_def; metis list.set_intros(1))+
  obtain s1 where s1: "bucket_remove b t s = (True, s1)" "tw_any (Some b) s1" "same_frame s s1" "levels s1 = levels s"
      "fired s1 = fired s" "tasks s1 = tasks s" "runs s1 = runs s"
      "store s1 = (store s)(t := (store s t)\<lparr>inBucket := None\<rparr>)"
      "buckets s1 = (buckets s)(b := (buckets s b)\<lparr>timers := remove1 t (timers (buckets s b))\<rparr>)"
      "load s1 + 2 * (fst b + 1) = load s"
    using take_out_any [OF ok at] by blast
  let ?e = "expiration (store s t)"
  have e1: "expiration (store s1 t) = ?e" by (simp add: s1(8))
  have f1: "falls s1 (Some b) (expiration (store s1 t))"
    using timer_falls_any [OF ok _ reached, of t] ts by (simp add: falls_levels [OF s1(4)] e1)
  have a1: "autoId s1 = autoId s" "held s1 = Some b" "clock s1 = clock s" using s1(3) held by (simp_all add: same_frame_def)
  obtain s2 where s2: "addOrRun t s1 = Some (ret s2)" "tw_any (Some b) s2" "same_frame s1 s2" "runs s2 = runs s1"
    and alt: "?e < currentTime (levels s ! 0) + tick (levels s ! 0) \<and> s2 = start_task t s1 \<or>
      (\<exists>c. fired s2 = fired s1 \<and> tasks s2 = tasks s1 \<and>
         store s2 = (store s1)(t := (store s1 t)\<lparr>inBucket := Some c\<rparr>) \<and>
         (\<forall>d. d \<noteq> c \<longrightarrow> buckets s2 d = buckets s1 d) \<and> b \<noteq> c \<and>
         load s2 \<le> load s1 + 2 * (fst c + 1) + 1 \<and> fst c < fst b)"
    using addOrRun_any [OF s1(2) _ _ _ f1] a1 len s1(4,8) e1 by (cases b) auto
  have frame: "same_frame s s2" by (rule same_frame_trans [OF s1(3) s2(3)])
  from alt show ?thesis
  proof
    assume early: "?e < currentTime (levels s ! 0) + tick (levels s ! 0) \<and> s2 = start_task t s1"
    have "moved s s2" using early s1(5,6,8) a1 at e1 len
      unfolding moved_def by (cases b) (auto simp: start_task_def uses_def pending_def tasks_ok_def)
    moreover have "load s2 \<le> load s" using early s1(10) by (simp add: start_task_def load_def)
    ultimately show ?thesis using early s1 s2(1,2,4) frame ts at
      by (intro exI [of _ s2]) (simp add: start_task_def pending_def)
  next
    assume "\<exists>c. fired s2 = fired s1 \<and> tasks s2 = tasks s1 \<and>
         store s2 = (store s1)(t := (store s1 t)\<lparr>inBucket := Some c\<rparr>) \<and>
         (\<forall>d. d \<noteq> c \<longrightarrow> buckets s2 d = buckets s1 d) \<and> b \<noteq> c \<and>
         load s2 \<le> load s1 + 2 * (fst c + 1) + 1 \<and> fst c < fst b"
    then obtain c where c: "fired s2 = fired s1" "tasks s2 = tasks s1"
         "store s2 = (store s1)(t := (store s1 t)\<lparr>inBucket := Some c\<rparr>)"
         "\<forall>d. d \<noteq> c \<longrightarrow> buckets s2 d = buckets s1 d" "b \<noteq> c"
         "load s2 \<le> load s1 + 2 * (fst c + 1) + 1" "fst c < fst b" by blast
    have "moved s s2" using c(1-3) s1(5,6,8) at frame
      unfolding moved_def by (cases b, cases c) (auto simp: uses_def pending_def tasks_ok_def same_frame_def)
    moreover have "load s2 \<le> load s" using c(6,7) s1(10) by simp
    moreover have "buckets s2 b = (buckets s b)\<lparr>timers := ts\<rparr>"
      using c(4)[rule_format, of b] c(5) s1(9) ts by simp
    ultimately show ?thesis using c(1,2) s1 s2(1,2,4) frame ts by (intro exI [of _ s2]) simp
  qed
qed


lemma flush_loop_any:
  assumes "tw_any (Some b) s" "held s = Some b" "timers (buckets s b) = ts"
    "\<forall>i\<le>fst b. Expiration (buckets s b) \<le> currentTime (levels s ! i)" "fst b < length (levels s)"
  shows "\<exists>s'. flush_loop ts b s = Some (ret s') \<and> tw_any (Some b) s' \<and> same_frame s s' \<and>
     runs s' = runs s \<and> timers (buckets s' b) = [] \<and> Expiration (buckets s' b) = Expiration (buckets s b) \<and>
     moved s s' \<and> load s' \<le> load s"
  using assms
proof (induction ts arbitrary: s)
  case Nil
  then show ?case by (intro exI [of _ s]) (simp add: same_frame_def moved_refl)
next
  case (Cons t ts)
  obtain s1 where s1: "addOrRun t (snd (bucket_remove b t s)) = Some (ret s1)" "tw_any (Some b) s1" "same_frame s s1"
      "runs s1 = runs s" "timers (buckets s1 b) = ts" "Expiration (buckets s1 b) = Expiration (buckets s b)"
      "moved s s1" "load s1 \<le> load s"
    using flush_step_any [OF Cons.prems(1-4)] by blast
  have lv: "levels s1 ! i = levels s ! i" if "i \<le> fst b" for i
    using same_frame_tick [OF s1(3) tw_anyD(2) [OF Cons.prems(1)]] that Cons.prems(5) by simp
  have "length (levels s) \<le> length (levels s1)"
    using s1(3) by (metis same_frame_def length_take min.cobounded1)
  then have "\<exists>s'. flush_loop ts b s1 = Some (ret s') \<and> tw_any (Some b) s' \<and> same_frame s1 s' \<and>
     runs s' = runs s1 \<and> timers (buckets s' b) = [] \<and> Expiration (buckets s' b) = Expiration (buckets s1 b) \<and>
     moved s1 s' \<and> load s' \<le> load s1"
    using Cons.prems(2,4,5) s1 lv by (intro Cons.IH) (auto simp: same_frame_def)
  then obtain s' where "flush_loop ts b s1 = Some (ret s')" "tw_any (Some b) s'" "same_frame s1 s'"
     "runs s' = runs s1" "timers (buckets s' b) = []" "Expiration (buckets s' b) = Expiration (buckets s1 b)"
     "moved s1 s'" "load s' \<le> load s1" by blast
  moreover have "moved s s'" by (rule moved_trans [OF s1(7) \<open>moved s1 s'\<close>]) (use s1(3) in \<open>simp_all add: same_frame_def\<close>)
  ultimately show ?case using s1 same_frame_trans [OF s1(3)] by (intro exI [of _ s']) auto
qed


lemma release_any:
  assumes ok: "tw_any (Some b) s" and empty: "timers (buckets s b) = []"
  defines "s' \<equiv> (snd (SetExpiration b (- 1) s))\<lparr>held := None\<rparr>"
  shows "tw_any None s' \<and> same_frame (s\<lparr>held := None\<rparr>) s' \<and> moved s s' \<and> load s' = load s \<and>
    levels s' = levels s \<and> runs s' = runs s"
proof -
  note ok' = tw_anyD [OF ok]
  have s': "s' = s\<lparr>buckets := (buckets s)(b := (buckets s b)\<lparr>Expiration := - 1\<rparr>), held := None\<rparr>"
    by (simp add: s'_def SetExpiration_def upd_bucket_def)
  have "bucket_any s' None c" for c using ok'(4) [of c] empty
    by (cases "c = b") (auto simp: bucket_any_def Let_def s')
  moreover have "timers_ok s'"
    unfolding timers_ok_def
  proof (intro conjI allI)
    fix t c show "t \<in> set (timers (buckets s' c)) \<longleftrightarrow> inBucket (store s' t) = Some c"
      using timers_mem [OF ok'(5), of t c] by (cases "c = b") (simp_all add: s')
  qed (use ok'(5) in \<open>auto simp: timers_ok_def s'\<close>)
  moreover have "pq_inv (queue s')" using ok'(6) by (simp add: s')
  ultimately have "tw_any None s'" by (intro tw_anyI [OF ok]) (simp_all add: s')
  then show ?thesis by (simp add: s' same_frame_def load_def moved_refl)
qed

subsection \<open>The goroutines of \<open>Start\<close>\<close>

definition tw_live :: "tw \<Rightarrow> bool" where
  "tw_live s \<longleftrightarrow> tw_any None s \<and> held s = None \<and> tasks_ok s \<and> once_ok s \<and>
     (\<forall>t f. task (store s t) = Plan f \<longrightarrow> sched_ok f)"

lemma tw_liveD:
  assumes "tw_live s"
  shows "tw_any None s" "held s = None" "tasks_ok s" "once_ok s" "task (store s t) = Plan f \<Longrightarrow> sched_ok f"
  using assms by (auto simp: tw_live_def)

text \<open>What is left to do when time stands still.\<close>

definition work :: "tw \<Rightarrow> nat" where
  "work s = load s + (if hand s = None then 0 else 1) + (if turn s = None then 0 else 1)"

text \<open>A step that moves timers on: same times, same tasks.\<close>

definition onward :: "tw \<Rightarrow> tw \<Rightarrow> bool" where
  "onward s s' \<longleftrightarrow> moved s s' \<and> clock s' = clock s \<and> autoId s' = autoId s \<and>
     (\<forall>t. expiration (store s' t) = expiration (store s t) \<and> task (store s' t) = task (store s t)) \<and>
     tick (levels s' ! 0) = tick (levels s ! 0)"

lemma onward_trans: "onward s s' \<Longrightarrow> onward s' s'' \<Longrightarrow> onward s s''"
  unfolding onward_def using moved_trans by metis

lemma onward_refl [simp]: "onward s s"
  by (simp add: onward_def moved_refl)

lemma onward_live:
  assumes "tw_live s" "onward s s'" "tw_any None s'" "held s' = None"
  shows "tw_live s' \<and> later s s'"
proof -
  note live = tw_liveD [OF assms(1)]
  have m: "moved s s'" and same: "autoId s' = autoId s" "\<And>t. task (store s' t) = task (store s t)"
      "\<And>t. expiration (store s' t) = expiration (store s t)" "tick (levels s' ! 0) = tick (levels s ! 0)"
    using assms(2) by (simp_all add: onward_def)
  have us: "uses s' t \<le> uses s t" for t using movedD(2) [OF m, of t] by (rule eq_refl)
  have "once_ok s'" by (rule once_later [OF live(4) same(1,2) us])
  moreover have "tasks_ok s'" by (rule movedD(5) [OF m live(3)])
  ultimately have "tw_live s'" using assms(3,4) live(5) by (simp add: tw_live_def same(2))
  moreover have "later s s'" using same us movedD(1) [OF m] unfolding later_def by (metis order_refl)
  ultimately show ?thesis ..
qed

lemma poll_spec:
  assumes live: "tw_live s"
  shows "\<exists>s'. tw_poll s = Some (ret s') \<and> tw_live s' \<and> onward s s' \<and> work s' = work s \<and>
    turn s' = turn s \<and> (hand s \<noteq> None \<or> due s \<longrightarrow> hand s' \<noteq> None) \<and> (hand s = None \<and> \<not> due s \<longrightarrow> s' = s)"
proof (cases "hand s = None")
  case False
  then show ?thesis using live by (intro exI [of _ s]) (simp add: tw_poll_def)
next
  case True
  note live' = tw_liveD [OF live]
  note ok' = tw_anyD [OF live'(1)]
  show ?thesis
  proof (cases "due s")
    case False
    have "\<exists>delta. PeekAndShift (queue s) (timeToMs (clock s)) = Some (None, delta, queue s)"
      using PeekAndShift_spec [OF ok'(6), of "timeToMs (clock s)"] False
      by (auto simp: due_def not_le split: if_splits)
    moreover have "s\<lparr>queue := queue s\<rparr> = s" by simp
    ultimately have "tw_poll s = Some (ret s)" using True by (auto simp: tw_poll_def)
    then show ?thesis using True False live by (intro exI [of _ s]) simp
  next
    case d: True
    then obtain it q where it: "PeekAndShift (queue s) (timeToMs (clock s)) = Some (Some it, 0, q)" "pq_inv q"
        "pq_bag (queue s) = add_mset (Value it, Priority it) (pq_bag q)"
      using PeekAndShift_spec [OF ok'(6), of "timeToMs (clock s)"]
      by (auto simp: due_def split: if_splits)
    define s' where "s' = s\<lparr>queue := q, hand := Some (Value it)\<rparr>"
    have run: "tw_poll s = Some (ret s')" using True it(1) by (simp add: tw_poll_def s'_def)
    have car: "carried s b e \<Longrightarrow> carried s' b e" for b e
      using it(3) True by (auto simp: carried_def s'_def)
    have b: "bucket_any s' None b" for b
      using ok'(4) [of b] car by (auto simp: bucket_any_def Let_def s'_def)
    have "timers_ok s'" using ok'(5) by (simp add: timers_ok_def s'_def)
    with b it(2) have "tw_any None s'" by (intro tw_anyI [OF live'(1)]) (simp_all add: s'_def)
    moreover have on: "onward s s'" by (simp add: onward_def s'_def moved_refl)
    ultimately have "tw_live s'" using onward_live [OF live on] live'(2) by (simp add: s'_def)
    then show ?thesis using run on it(3) True d
      by (intro exI [of _ s']) (simp add: s'_def work_def load_def)
  qed
qed

lemma receive_spec:
  assumes live: "tw_live s"
  shows "tw_live (tw_receive s) \<and> onward s (tw_receive s) \<and> work (tw_receive s) = work s \<and>
    (hand s \<noteq> None \<or> turn s \<noteq> None \<longrightarrow> turn (tw_receive s) \<noteq> None) \<and>
    (hand s = None \<and> turn s = None \<longrightarrow> tw_receive s = s)"
proof (cases "turn s")
  case (Some b)
  then show ?thesis using live by (simp add: tw_receive_def)
next
  case None
  then have True: "turn s = None" .
  note live' = tw_liveD [OF live]
  note ok' = tw_anyD [OF live'(1)]
  define s' where "s' = tw_receive s"
  have s': "s' = s\<lparr>turn := hand s, hand := None\<rparr>" using True by (simp add: s'_def tw_receive_def)
  have car: "carried s' = carried s" using True by (auto simp: carried_def s' fun_eq_iff)
  have b: "bucket_any s' None b" for b using ok'(4) [of b] car by (simp add: bucket_any_def Let_def) (simp add: s')
  have "timers_ok s'" using ok'(5) by (simp add: timers_ok_def s')
  with b have "tw_any None s'" using ok'(6) by (intro tw_anyI [OF live'(1)]) (simp_all add: s')
  moreover have on: "onward s s'" by (simp add: onward_def s' moved_refl)
  ultimately have "tw_live s'" using onward_live [OF live on] live'(2) by (simp add: s')
  moreover have "work s' = work s" using True by (simp add: s' work_def load_def)
  moreover have "hand s = None \<longrightarrow> s' = s" using True by (simp add: s')
  moreover have "hand s \<noteq> None \<longrightarrow> turn s' \<noteq> None" by (simp add: s')
  ultimately show ?thesis using on True unfolding s'_def [symmetric] by blast
qed

text \<open>The clock of the levels, for the bucket that is handled.\<close>

lemma advanced_any:
  assumes ok: "tw_any None s" and b: "turn s = Some b" and e: "Expiration (buckets s b) = e"
  defines "s' \<equiv> (advanceClock e (s\<lparr>turn := None\<rparr>))\<lparr>held := Some b\<rparr>"
  shows "tw_any (Some b) s' \<and> tick (levels s' ! 0) = tick (levels s ! 0) \<and>
    (e \<noteq> - 1 \<longrightarrow> fst b < length (levels s') \<and> (\<forall>i\<le>fst b. e \<le> currentTime (levels s' ! i)))"
proof -
  note ok' = tw_anyD [OF ok]
  let ?n = "wheelSize s" and ?ls = "advance e (levels s)"
  have s': "s' = s\<lparr>turn := None, levels := ?ls, held := Some b\<rparr>" by (simp add: s'_def advanceClock_def)
  have at: "fst b < length (levels s) \<and> is_ms e \<and> tick (levels s ! fst b) dvd e" if "e \<noteq> - 1"
    using ok'(4) [of b] that e by (auto simp: bucket_any_def Let_def)
  have adv: "chain ?n ?ls \<and> (\<forall>i<length (levels s). tick (?ls ! i) = tick (levels s ! i) \<and>
      interval (?ls ! i) = interval (levels s ! i) \<and> currentTime (levels s ! i) \<le> currentTime (?ls ! i))"
  proof (cases "e = - 1")
    case True
    obtain w r where w: "levels s = w # r" using ok'(2) by (cases "levels s") auto
    have "level_ok ?n w" using ok'(3) w by simp
    then have "\<not> i64 (currentTime w + tick w) \<le> e"
      using level_sums(1) [of ?n w] ok'(1) True by (simp add: level_ok_def is_ms_def)
    then have "?ls = levels s" by (simp add: w)
    then show ?thesis using ok'(3) by simp
  next
    case False
    then show ?thesis using advance_spec [OF ok'(3,1), of e] at by blast
  qed
  have car: "c \<noteq> b \<Longrightarrow> carried s c x \<Longrightarrow> carried s' c x" for c x using b by (auto simp: carried_def s')
  have bok: "bucket_any s' (Some b) c" for c
  proof (cases "Expiration (buckets s c) = - 1")
    case True
    then show ?thesis using ok'(4) [of c] by (simp add: bucket_any_def Let_def s')
  next
    case False
    then have "fst c < length (levels s)" using ok'(4) [of c] by (simp add: bucket_any_def Let_def)
    then show ?thesis using ok'(4) [of c] False adv car [of c]
      by (fastforce simp: bucket_any_def Let_def s')
  qed
  have "?ls \<noteq> []" using ok'(2) by (metis advance_length length_0_conv)
  moreover have "timers_ok s'" using ok'(5) by (simp add: timers_ok_def s')
  ultimately have fine: "tw_any (Some b) s'" using ok' adv bok by (simp add: tw_any_def) (simp add: s')
  have "fst b < length (levels s') \<and> (\<forall>i\<le>fst b. e \<le> currentTime (levels s' ! i))" if "e \<noteq> - 1"
  proof -
    note at = at [OF that]
    have "tick (levels s ! 0) dvd e" using chain_tick_dvd [OF ok'(3), of 0 "fst b"] at by (meson dvd_trans zero_le)
    moreover obtain w r where ws: "levels s = w # r" using ok'(2) by (cases "levels s") auto
    ultimately have first: "e \<le> currentTime (?ls ! 0)"
      using advance_reaches [of ?n w r e] ok'(1,3) at \<open>?ls \<noteq> []\<close> by (simp add: hd_conv_nth)
    have "e \<le> currentTime (?ls ! i)" if "i \<le> fst b" for i
      using chain_reaches [of ?n ?ls e i "fst b"] adv first that at by simp
    then show ?thesis using at by (simp add: s')
  qed
  then show ?thesis using fine adv ok'(2) by (simp add: s')
qed

lemma handle_spec:
  assumes live: "tw_live s"
  shows "\<exists>s'. tw_handle s = Some (ret s') \<and> tw_live s' \<and> onward s s' \<and>
    (if turn s = None then s' = s else work s' < work s)"
proof (cases "turn s")
  case None
  then show ?thesis using live by (simp add: tw_handle_def)
next
  case (Some b)
  note live' = tw_liveD [OF live]
  define e where "e = Expiration (buckets s b)"
  define s1 where "s1 = (advanceClock e (s\<lparr>turn := None\<rparr>))\<lparr>held := Some b\<rparr>"
  have s1: "tw_any (Some b) s1" "tick (levels s1 ! 0) = tick (levels s ! 0)"
      "e \<noteq> - 1 \<Longrightarrow> fst b < length (levels s1) \<and> (\<forall>i\<le>fst b. e \<le> currentTime (levels s1 ! i))"
    using advanced_any [OF live'(1) Some, of e] by (simp_all add: e_def s1_def)
  have same: "buckets s1 = buckets s" "store s1 = store s" "fired s1 = fired s" "clock s1 = clock s" "held s1 = Some b"
      "autoId s1 = autoId s" "hand s1 = hand s" "turn s1 = None" "tasks s1 = tasks s" "load s1 = load s"
    by (simp_all add: s1_def advanceClock_def load_def)
  have "\<exists>s2. flush_loop (timers (buckets s1 b)) b s1 = Some (ret s2) \<and> tw_any (Some b) s2 \<and> same_frame s1 s2 \<and>
     runs s2 = runs s1 \<and> timers (buckets s2 b) = [] \<and> Expiration (buckets s2 b) = Expiration (buckets s1 b) \<and>
     moved s1 s2 \<and> load s2 \<le> load s1"
  proof (cases "e = - 1")
    case True
    then have "timers (buckets s1 b) = []" using tw_anyD(4) [OF s1(1), of b] by (simp add: bucket_any_def same(1) e_def)
    then show ?thesis using s1(1) by (intro exI [of _ s1]) (simp add: same_frame_def moved_refl)
  next
    case False
    then show ?thesis using s1(3) by (intro flush_loop_any [OF s1(1) same(5) refl]) (simp_all add: same(1) e_def)
  qed
  then obtain s2 where s2: "flush_loop (timers (buckets s1 b)) b s1 = Some (ret s2)" "tw_any (Some b) s2"
     "same_frame s1 s2" "timers (buckets s2 b) = []" "moved s1 s2" "load s2 \<le> load s1" by blast
  define s3 where "s3 = (snd (SetExpiration b (- 1) s2))\<lparr>held := None\<rparr>"
  have rel: "tw_any None s3" "same_frame (s2\<lparr>held := None\<rparr>) s3" "moved s2 s3" "load s3 = load s2" "levels s3 = levels s2"
    using release_any [OF s2(2,4)] by (simp_all add: s3_def)
  have run: "tw_handle s = Some (ret s3)"
    using Some s2(1) by (simp add: tw_handle_def Flush_def e_def [symmetric] s1_def [symmetric] same(1) s3_def)
      (simp add: s1_def advanceClock_def)
  have lv: "levels s2 ! 0 = levels s1 ! 0"
    using same_frame_tick [OF s2(3) tw_anyD(2) [OF s1(1)], of 0] tw_anyD(2) [OF s1(1)] by simp
  have fr: "autoId s3 = autoId s" "clock s3 = clock s" "hand s3 = hand s" "turn s3 = None"
      "\<And>t. expiration (store s3 t) = expiration (store s t)" "\<And>t. task (store s3 t) = task (store s t)"
    using rel(2) s2(3) same by (simp_all add: same_frame_def)
  have "moved s s1" by (rule moved_refl) (simp_all add: same)
  moreover have "moved s1 s3" by (rule moved_trans [OF s2(5) rel(3)]) (use s2(3) in \<open>simp_all add: same_frame_def\<close>)
  ultimately have "moved s s3" by (rule moved_trans) (simp_all add: same)
  then have on: "onward s s3" using fr rel(5) lv s1(2) by (simp add: onward_def)
  have "held s3 = None" by (simp add: s3_def)
  with onward_live [OF live on rel(1)] have "tw_live s3" by simp
  moreover have "work s3 < work s" using fr rel(4) s2(6) same(10) Some by (simp add: work_def)
  ultimately show ?thesis using run on Some by (intro exI [of _ s3]) simp
qed

lemma cycle_any:
  assumes live: "tw_live s"
  shows "\<exists>s'. tw_run cycle s = Some (ret s') \<and> tw_live s' \<and> onward s s' \<and>
    (if hand s = None \<and> turn s = None \<and> \<not> due s then s' = s else work s' < work s)"
proof -
  obtain s1 where s1: "tw_poll s = Some (ret s1)" "tw_live s1" "onward s s1" "work s1 = work s" "turn s1 = turn s"
      "hand s \<noteq> None \<or> due s \<longrightarrow> hand s1 \<noteq> None" "hand s = None \<and> \<not> due s \<longrightarrow> s1 = s"
    using poll_spec [OF live] by blast
  note r = receive_spec [OF s1(2)]
  obtain s3 where s3: "tw_handle (tw_receive s1) = Some (ret s3)" "tw_live s3" "onward (tw_receive s1) s3"
      "if turn (tw_receive s1) = None then s3 = tw_receive s1 else work s3 < work (tw_receive s1)"
    using handle_spec r by blast
  have "tw_run cycle s = Some (ret s3)" using s1(1) s3(1) by (simp add: cycle_def)
  moreover have "onward s s3" using s1(3) r s3(3) onward_trans by blast
  moreover have "if hand s = None \<and> turn s = None \<and> \<not> due s then s3 = s else work s3 < work s"
    using s1(4-7) r s3(4) by (auto split: if_splits)
  ultimately show ?thesis using s3(2) by blast
qed

subsection \<open>Adding timers, stopping them, running their tasks\<close>

definition done_or_pending :: "tw \<Rightarrow> tw \<Rightarrow> tid \<Rightarrow> bool" where
  "done_or_pending s s' t \<longleftrightarrow> pending s' t \<or> (t, expiration (store s t), timeToMs (clock s)) \<in> set (fired s')"

lemma addOrRun_live:
  assumes live: "tw_live s" and t: "\<not> pending s t" "t \<le> autoId s" "t \<notin> set (tasks s)"
    and new: "task (store s t) = Once \<Longrightarrow> uses s t = 0"
  shows "\<exists>s'. addOrRun t s = Some (ret s') \<and> tw_live s' \<and> same_frame s s' \<and>
     tick (levels s' ! 0) = tick (levels s ! 0) \<and> (\<forall>u. u \<noteq> t \<longrightarrow> uses s' u = uses s u \<and> pending s' u = pending s u) \<and>
     (\<exists>new. fired s' = fired s @ new) \<and> done_or_pending s s' t"
proof -
  note live' = tw_liveD [OF live]
  have none: "inBucket (store s t) = None" using t(1) by (simp only: pending_def not_not)
  have falls: "falls s None (expiration (store s t))" by (simp add: falls_def)
  obtain s' where s': "addOrRun t s = Some (ret s')" "tw_any None s'" "same_frame s s'"
    and alt: "s' = start_task t s \<or>
      (\<exists>b. fired s' = fired s \<and> tasks s' = tasks s \<and> store s' = (store s)(t := (store s t)\<lparr>inBucket := Some b\<rparr>))"
    using addOrRun_any [OF live'(1) none t(2) _ falls] live'(2) by blast
  have tick: "tick (levels s' ! 0) = tick (levels s ! 0)"
    using same_frame_tick [OF s'(3) tw_anyD(2) [OF live'(1)], of 0] tw_anyD(2) [OF live'(1)] by simp
  have fr: "autoId s' = autoId s" "held s' = None" "\<And>u. task (store s' u) = task (store s u)"
    using s'(3) live'(2) by (simp_all add: same_frame_def)
  have facts: "uses s' t = Suc (uses s t) \<and> (\<forall>u. u \<noteq> t \<longrightarrow> uses s' u = uses s u \<and> pending s' u = pending s u) \<and>
     (\<exists>new. fired s' = fired s @ new) \<and> tasks_ok s' \<and> done_or_pending s s' t"
    using alt
  proof
    assume "s' = start_task t s"
    then show ?thesis using t live'(3)
      by (simp add: start_task_def uses_def pending_def tasks_ok_def done_or_pending_def)
  next
    assume "\<exists>b. fired s' = fired s \<and> tasks s' = tasks s \<and> store s' = (store s)(t := (store s t)\<lparr>inBucket := Some b\<rparr>)"
    then obtain b where b: "fired s' = fired s" "tasks s' = tasks s" "store s' = (store s)(t := (store s t)\<lparr>inBucket := Some b\<rparr>)"
      by blast
    have p: "pending s' u \<longleftrightarrow> u = t \<or> pending s u" for u by (simp add: pending_def b(3))
    have "tasks_ok s'" using t(3) p fr(1) live'(3) by (auto simp: tasks_ok_def b(2))
    then show ?thesis using t p b(1) by (simp add: uses_def done_or_pending_def)
  qed
  have "uses s' u \<le> 1" if "task (store s u) = Once" for u
    using facts new live'(4) that by (cases "u = t") (auto simp: once_ok_def)
  moreover have "uses s' u = 0" if "autoId s < u" for u
    using facts t(2) live'(4) that by (auto simp: once_ok_def)
  ultimately have "once_ok s'" using fr by (simp add: once_ok_def)
  then have "tw_live s'" using s'(2) fr facts live'(5) by (simp add: tw_live_def)
  with s' tick facts show ?thesis by blast
qed

text \<open>A step on the outside: the timers that were there stay, or are fired.\<close>

definition stays :: "tw \<Rightarrow> tw \<Rightarrow> bool" where
  "stays s s' \<longleftrightarrow> (\<forall>t. pending s t \<longrightarrow> done_or_pending s s' t)"

lemma onward_stays: "onward s s' \<Longrightarrow> stays s s'"
  by (simp add: onward_def moved_def stays_def done_or_pending_def)

lemma new_timer_live:
  assumes live: "tw_live s" and e: "is_ms e" and p: "\<And>f. p = Plan f \<Longrightarrow> sched_ok f"
  shows "case new_timer e p s of (t, s1) \<Rightarrow> t = Suc (autoId s) \<and> \<not> pending s1 t \<and> t \<le> autoId s1 \<and> t \<notin> set (tasks s1) \<and>
     tw_live s1 \<and> later s s1 \<and> uses s1 t = 0 \<and> clock s1 = clock s \<and> store s1 t = \<lparr>expiration = e, task = p, inBucket = None\<rparr> \<and>
     autoId s1 = t \<and> (\<forall>u. pending s1 u = pending s u) \<and> (\<forall>u. pending s u \<longrightarrow> expiration (store s1 u) = expiration (store s u))"
proof -
  let ?t = "Suc (autoId s)"
  define s1 where "s1 = s\<lparr>autoId := ?t, store := (store s)(?t := \<lparr>expiration = e, task = p, inBucket = None\<rparr>)\<rparr>"
  note live' = tw_liveD [OF live]
  note ok' = tw_anyD [OF live'(1)]
  have fresh: "inBucket (store s ?t) = None"
    using ok'(5) by (cases "inBucket (store s ?t)") (fastforce simp: timers_ok_def)+
  have out: "?t \<notin> set (timers (buckets s c))" for c using timers_mem [OF ok'(5), of ?t c] fresh by simp
  have bok: "bucket_any s1 None c" for c using ok'(4) [of c] out [of c]
    by (auto simp: bucket_any_def Let_def s1_def)
  have tok: "timers_ok s1"
    unfolding timers_ok_def
  proof (intro conjI allI)
    fix u c show "u \<in> set (timers (buckets s1 c)) \<longleftrightarrow> inBucket (store s1 u) = Some c"
      using timers_mem [OF ok'(5), of u c] fresh by (simp add: s1_def)
  next
    fix u show "inBucket (store s1 u) \<noteq> None \<longrightarrow> u \<le> autoId s1"
      using ok'(5) by (auto simp: s1_def timers_ok_def intro!: le_SucI)
  qed (use ok'(5) e in \<open>auto simp: timers_ok_def s1_def\<close>)
  have tw: "tw_any None s1" using bok tok ok'(6) by (intro tw_anyI [OF live'(1)]) (simp_all add: s1_def)
  have pend: "pending s1 u \<longleftrightarrow> pending s u" for u using fresh by (simp add: pending_def s1_def)
  have us: "uses s1 u = uses s u" for u by (simp add: uses_def pend) (simp add: s1_def)
  have tk: "tasks s1 = tasks s" "fired s1 = fired s" "autoId s1 = ?t" "levels s1 = levels s" "clock s1 = clock s"
    "store s1 ?t = \<lparr>expiration = e, task = p, inBucket = None\<rparr>"
    by (simp_all add: s1_def)
  have "tasks_ok s1" using live'(3) tk(1,3) pend by (auto simp: tasks_ok_def)
  moreover have u0: "uses s ?t = 0" using live'(4) by (simp add: once_ok_def)
  then have "once_ok s1" using live'(4) us by (auto simp: once_ok_def s1_def)
  ultimately have "tw_live s1" using tw live' p by (auto simp: tw_live_def s1_def)
  moreover have "later s s1" using us tk by (auto simp: later_def s1_def)
  moreover have "?t \<notin> set (tasks s1)" using live'(3) tk by (auto simp: tasks_ok_def)
  moreover have "\<not> pending s1 ?t" unfolding pending_def s1_def by simp
  moreover have "new_timer e p s = (?t, s1)" by (simp add: new_timer_def Let_def s1_def)
  moreover have "uses s1 ?t = 0" using us u0 by simp
  moreover have "pending s u \<longrightarrow> expiration (store s1 u) = expiration (store s u)" for u
    using fresh by (auto simp: s1_def pending_def)
  ultimately show ?thesis by (simp add: tk pend)
qed

lemma add_new_live:
  assumes live: "tw_live s" and e: "is_ms e" and p: "\<And>f. p = Plan f \<Longrightarrow> sched_ok f"
  shows "\<exists>s'. (case new_timer e p s of (t, s1) \<Rightarrow> addOrRun t s1) = Some (ret s') \<and> tw_live s' \<and> later s s' \<and>
     clock s' = clock s \<and> stays s s' \<and> autoId s' = Suc (autoId s) \<and> expiration (store s' (autoId s')) = e \<and>
     task (store s' (autoId s')) = p \<and> (pending s' (autoId s') \<or> (autoId s', e, timeToMs (clock s)) \<in> set (fired s'))"
proof -
  let ?t = "Suc (autoId s)"
  obtain s1 where nt: "new_timer e p s = (?t, s1)" by (simp add: new_timer_def Let_def)
  have "case new_timer e p s of (t, s1) \<Rightarrow> t = ?t \<and> \<not> pending s1 t \<and> t \<le> autoId s1 \<and> t \<notin> set (tasks s1) \<and>
     tw_live s1 \<and> later s s1 \<and> uses s1 t = 0 \<and> clock s1 = clock s \<and> store s1 t = \<lparr>expiration = e, task = p, inBucket = None\<rparr> \<and>
     autoId s1 = t \<and> (\<forall>u. pending s1 u = pending s u) \<and> (\<forall>u. pending s u \<longrightarrow> expiration (store s1 u) = expiration (store s u))"
    by (rule new_timer_live [OF live e p])
  then have s1: "new_timer e p s = (?t, s1)" "\<not> pending s1 ?t" "?t \<le> autoId s1" "?t \<notin> set (tasks s1)"
      "tw_live s1" "later s s1" "uses s1 ?t = 0" "clock s1 = clock s" "store s1 ?t = \<lparr>expiration = e, task = p, inBucket = None\<rparr>"
      "autoId s1 = ?t" "\<forall>u. pending s1 u = pending s u" "\<forall>u. pending s u \<longrightarrow> expiration (store s1 u) = expiration (store s u)"
    unfolding nt prod.case by blast+
  obtain s' where s': "addOrRun ?t s1 = Some (ret s')" "tw_live s'" "same_frame s1 s'"
      "tick (levels s' ! 0) = tick (levels s1 ! 0)" "\<forall>u. u \<noteq> ?t \<longrightarrow> uses s' u = uses s1 u \<and> pending s' u = pending s1 u"
      "\<exists>new. fired s' = fired s1 @ new" "done_or_pending s1 s' ?t"
    using addOrRun_live [OF s1(5,2-4,7)] by blast
  have fr: "autoId s' = autoId s1" "clock s' = clock s"
      "\<And>u. task (store s' u) = task (store s1 u)" "\<And>u. expiration (store s' u) = expiration (store s1 u)"
    using s'(3) s1(8) by (simp_all add: same_frame_def)
  have "uses s' u \<le> uses s u" "task (store s' u) = task (store s u)" "expiration (store s' u) = expiration (store s u)"
    if "u \<le> autoId s" "task (store s u) = Once" for u
    using s1(6) s'(5) fr that by (auto simp: later_def)
  moreover have "task (store s' u) = task (store s u)" if "u \<le> autoId s" for u
    using s1(6) fr that by (auto simp: later_def)
  ultimately have "later s s'" using s1(6) s'(4,6) fr(1) by (auto simp: later_def)
  moreover have "stays s s'" using s'(5) s1(2,11) unfolding stays_def done_or_pending_def by metis
  moreover have "pending s' ?t \<or> (?t, e, timeToMs (clock s)) \<in> set (fired s')"
    using s'(7) s1(8,9) by (simp add: done_or_pending_def)
  ultimately show ?thesis using s1(1,9,10) s'(1,2) fr by simp
qed

lemma live_fields [simp]: "tw_live (s\<lparr>runs := r\<rparr>) = tw_live s" "stays s0 (s\<lparr>runs := r\<rparr>) = stays s0 s"
  by (simp_all add: tw_live_def tasks_ok_def once_ok_def uses_def pending_def stays_def done_or_pending_def
      tw_any_cong [of "s\<lparr>runs := r\<rparr>" s])

lemma task_taken_live:
  assumes live: "tw_live s" and t: "t \<in> set (tasks s)"
  defines "s1 \<equiv> s\<lparr>tasks := remove1 t (tasks s)\<rparr>"
  shows "tw_live s1" "later s s1" "t \<notin> set (tasks s1)"
proof -
  note live' = tw_liveD [OF live]
  have "tw_any None s1" using live'(1) unfolding s1_def by (subst tw_any_cong [of _ s]) simp_all
  moreover have "tasks_ok s1" using live'(3) set_remove1_subset [of t "tasks s"]
    by (auto simp: tasks_ok_def pending_def s1_def)
  moreover have "uses s1 u = uses s u" for u by (simp add: uses_def pending_def s1_def)
  then have "once_ok s1" using live'(4) by (simp add: once_ok_def) (simp add: s1_def)
  ultimately show "tw_live s1" using live' by (simp add: tw_live_def) (simp add: s1_def)
  show "later s s1" by (simp add: later_def uses_def pending_def s1_def)
  show "t \<notin> set (tasks s1)" using live'(3) by (simp add: tasks_ok_def s1_def)
qed

lemma new_time_live:
  assumes live: "tw_live s" and t: "\<not> pending s t" "t \<le> autoId s" "task (store s t) = Plan f" and e: "is_ms e"
  defines "s1 \<equiv> upd_timer t (\<lambda>x. x\<lparr>expiration := e\<rparr>) s"
  shows "tw_live s1 \<and> later s s1 \<and> tasks s1 = tasks s \<and> autoId s1 = autoId s \<and>
    task (store s1 t) = Plan f \<and> clock s1 = clock s \<and> (\<forall>u. pending s1 u = pending s u) \<and>
    (\<forall>u. u \<noteq> t \<longrightarrow> expiration (store s1 u) = expiration (store s u))"
proof -
  note live' = tw_liveD [OF live]
  note ok' = tw_anyD [OF live'(1)]
  have s1: "s1 = s\<lparr>store := (store s)(t := (store s t)\<lparr>expiration := e\<rparr>)\<rparr>" by (simp add: s1_def upd_timer_def)
  have ib: "inBucket (store s1 u) = inBucket (store s u)" for u by (simp add: s1)
  have out: "t \<notin> set (timers (buckets s c))" for c
    using timers_mem [OF ok'(5), of t c] t(1) unfolding pending_def by (metis option.distinct(1))
  have bok: "bucket_any s1 None c" for c using ok'(4) [of c] out [of c] by (auto simp: bucket_any_def Let_def s1)
  have tok: "timers_ok s1" using ok'(5) e ib by (simp add: timers_ok_def) (simp add: s1)
  have tw: "tw_any None s1" using bok tok ok'(6) by (intro tw_anyI [OF live'(1)]) (simp_all add: s1)
  have p: "pending s1 u = pending s u" for u unfolding pending_def ib ..
  have tk: "task (store s1 u) = task (store s u)" for u by (simp add: s1)
  have fr: "fired s1 = fired s" "tasks s1 = tasks s" "autoId s1 = autoId s" "levels s1 = levels s" "clock s1 = clock s"
      "held s1 = held s"
    by (simp_all add: s1)
  have us: "uses s1 u = uses s u" for u by (simp add: uses_def p fr)
  have "tw_live s1" using tw live' by (simp add: tw_live_def tasks_ok_def once_ok_def us p tk fr)
  moreover have "later s s1" using t(3) us fr tk by (auto simp: later_def s1)
  ultimately show ?thesis using fr p t tk by (simp add: s1)
qed

lemma run_task_live:
  assumes live: "tw_live s"
  shows "\<exists>s'. run_task t s = Some (ret s') \<and> tw_live s' \<and> later s s' \<and> clock s' = clock s \<and> stays s s'"
proof (cases "t \<in> set (tasks s)")
  case False
  then show ?thesis using live by (simp add: run_task_def stays_def done_or_pending_def)
next
  case True
  define s1 where "s1 = s\<lparr>tasks := remove1 t (tasks s)\<rparr>"
  have s1: "tw_live s1" "later s s1" "t \<notin> set (tasks s1)" using task_taken_live [OF live True] by (simp_all add: s1_def)
  have old: "store s1 = store s" "autoId s1 = autoId s" "clock s1 = clock s" by (simp_all add: s1_def)
  have p1: "pending s1 u = pending s u" for u by (simp add: pending_def old)
  have t: "\<not> pending s1 t" "t \<le> autoId s1"
    using tw_liveD(3) [OF live] True by (auto simp: tasks_ok_def p1 old)
  have run: "run_task t s = map_option (map_option (\<lambda>s. s\<lparr>runs := runs s @ [t]\<rparr>))
      (case task (store s1 t) of Once \<Rightarrow> Some (ret s1)
       | Plan f \<Rightarrow> (case f (msToTime (expiration (store s1 t))) of
            None \<Rightarrow> Some (ret s1)
          | Some e \<Rightarrow> addOrRun t (upd_timer t (\<lambda>x. x\<lparr>expiration := timeToMs e\<rparr>) s1)))"
    using True by (simp add: run_task_def s1_def Let_def cong: plan.case_cong option.case_cong)
  show ?thesis
  proof (cases "\<exists>f e. task (store s1 t) = Plan f \<and> f (msToTime (expiration (store s1 t))) = Some e")
    case False
    then have "run_task t s = Some (ret (s1\<lparr>runs := runs s1 @ [t]\<rparr>))"
      unfolding run by (auto split: plan.splits option.splits)
    moreover have "stays s s1" using p1 by (simp add: stays_def done_or_pending_def)
    ultimately show ?thesis using s1(1,2) old(3) by simp
  next
    case True
    then obtain f e where f: "task (store s1 t) = Plan f" "f (msToTime (expiration (store s1 t))) = Some e" by blast
    then have e: "is_ms (timeToMs e)" using tw_liveD(5) [OF s1(1) f(1)] timeToMs_is_ms by (auto simp: sched_ok_def)
    define s2 where "s2 = upd_timer t (\<lambda>x. x\<lparr>expiration := timeToMs e\<rparr>) s1"
    have s2: "tw_live s2" "later s1 s2" "tasks s2 = tasks s1" "autoId s2 = autoId s1"
        "task (store s2 t) = Plan f" "clock s2 = clock s1" "\<And>u. pending s2 u = pending s1 u"
      using new_time_live [OF s1(1) t f(1) e] by (simp_all add: s2_def)
    obtain s' where s': "addOrRun t s2 = Some (ret s')" "tw_live s'" "same_frame s2 s'"
        "tick (levels s' ! 0) = tick (levels s2 ! 0)" "\<forall>u. u \<noteq> t \<longrightarrow> uses s' u = uses s2 u \<and> pending s' u = pending s2 u"
        "\<exists>new. fired s' = fired s2 @ new"
      using addOrRun_live [OF s2(1), of t] t s1(3) s2(3-5,7) by auto
    have "uses s' u \<le> uses s2 u" if "task (store s2 u) = Once" for u
      using s'(5) s2(5) that by (cases "u = t") simp_all
    then have "later s2 s'" using s'(3,4,6) by (simp add: later_def same_frame_def)
    then have "later s s'" using s1(2) s2(2) later_trans by blast
    moreover have "clock s' = clock s" using s'(3) s2(6) old(3) by (simp add: same_frame_def)
    moreover have "stays s s'" using s'(5) s2(7) p1 t(1) unfolding stays_def done_or_pending_def by metis
    moreover have "run_task t s = Some (ret (s'\<lparr>runs := runs s' @ [t]\<rparr>))"
      unfolding run using f s'(1) by (simp add: s2_def)
    ultimately show ?thesis using s'(2) by simp
  qed
qed

lemma Timer_Stop_live:
  assumes live: "tw_live s"
  shows "\<exists>s'. Timer_Stop t s = Some (pending s t, s') \<and> tw_live s' \<and> later s s' \<and> clock s' = clock s \<and>
     \<not> pending s' t \<and> fired s' = fired s \<and> (\<forall>u. u \<noteq> t \<longrightarrow> pending s' u = pending s u)"
proof (cases "inBucket (store s t)")
  case None
  then have "Timer_Stop t s = Some (pending s t, s)"
    by (simp add: Timer_Stop_def pending_def) (subst Stop_loop.simps, simp)
  then show ?thesis using live None by (intro exI [of _ s]) (simp add: pending_def)
next
  case (Some b)
  note live' = tw_liveD [OF live]
  obtain s' where s': "bucket_remove b t s = (True, s')" "tw_any None s'" "same_frame s s'" "levels s' = levels s"
      "fired s' = fired s" "tasks s' = tasks s" "store s' = (store s)(t := (store s t)\<lparr>inBucket := None\<rparr>)"
    using take_out_any [OF live'(1) Some] by blast
  have "Stop_loop t True s' = Some (True, s')" using s'(7) by (subst Stop_loop.simps) simp
  then have stop: "Timer_Stop t s = Some (pending s t, s')"
    using Some s'(1) live'(2) by (simp add: Timer_Stop_def pending_def) (subst Stop_loop.simps, simp)
  have fr: "autoId s' = autoId s" "held s' = None" "clock s' = clock s"
      "\<And>u. task (store s' u) = task (store s u)" "\<And>u. expiration (store s' u) = expiration (store s u)"
    using s'(3) live'(2) by (simp_all add: same_frame_def)
  have pend: "pending s' u \<longleftrightarrow> pending s u \<and> u \<noteq> t" for u by (simp add: pending_def s'(7))
  have us: "uses s' u \<le> uses s u" for u by (simp add: uses_def pend s'(5))
  have "once_ok s'" by (rule once_later [OF live'(4) fr(1) fr(4) us])
  moreover have "tasks_ok s'" using live'(3) s'(6) fr(1) pend by (auto simp: tasks_ok_def)
  ultimately have "tw_live s'" using s'(2) fr live'(5) by (simp add: tw_live_def)
  moreover have "later s s'" using fr s'(4,5) us by (simp add: later_def)
  ultimately show ?thesis using stop fr(3) pend s'(5) by (intro exI [of _ s']) simp
qed

end
