(* ===== verification/TimingRuns.thy ===== *)
theory TimingRuns
  imports TimingAny
begin

section \<open>Timing wheel: runs\<close>

text \<open>
  \<open>tw_reachable s0 s\<close>: any order of calls, of tasks, of time and of the two goroutines of \<open>Start\<close> leads
  from \<open>s0\<close> to \<open>s\<close>.  \<open>tw_calm\<close> are the runs in which the goroutine that handles buckets has handled one
  before the poller takes the next and before anyone adds a timer.
\<close>

subsection \<open>Runs\<close>






subsection \<open>Every event\<close>






subsection \<open>Draining\<close>



subsection \<open>What the wheel promises\<close>









end
