(* ===== verification/RpcFrame.thy ===== *)
theory RpcFrame
  imports Codec Strconv
begin

section \<open>Remote calls: frames, errors, options and statistics\<close>

text \<open>
  src/remotes/kkrpc: protocol.go (the frame), err.go, options.go, facade.go (call options), ctx.go
  (deadlines), stats.go and codec.go. Times and durations are integers in nanoseconds, deadlines in
  milliseconds; a context is known by its deadline. The counters of the statistics are integers. A
  frame codec is a \<open>body_codec\<close> for the Go type of frames; a payload codec marshals the arguments
  and results of the calls.
\<close>

subsection \<open>Frames and their error part\<close>

type_synonym FrameType = "32 word"

definition FrameTypeUnknown :: FrameType where "FrameTypeUnknown = 0"
definition FrameTypeRequest :: FrameType where "FrameTypeRequest = 1"
definition FrameTypeResponse :: FrameType where "FrameTypeResponse = 2"
definition FrameTypeOneway :: FrameType where "FrameTypeOneway = 3"

lemmas frame_types = FrameTypeUnknown_def FrameTypeRequest_def FrameTypeResponse_def FrameTypeOneway_def

record Frame =
  fr_T :: FrameType
  fr_ID :: "64 word"
  fr_DL :: int
  fr_M :: string
  fr_P :: "byte list"
  fr_Code :: int
  fr_Err :: string

definition zero_Frame :: Frame where
  "zero_Frame = \<lparr>fr_T = 0, fr_ID = 0, fr_DL = 0, fr_M = [], fr_P = [], fr_Code = 0, fr_Err = []\<rparr>"

definition ErrorCodeSuccess :: int where "ErrorCodeSuccess = 0"
definition ErrorCodeFailed :: int where "ErrorCodeFailed = 1"
definition ErrorCodeMethodNotFound :: int where "ErrorCodeMethodNotFound = 2"
definition ErrorCodeMethodRetErr :: int where "ErrorCodeMethodRetErr = 3"
definition ErrorCodeInvalidResponse :: int where "ErrorCodeInvalidResponse = 6"
definition ErrorCodeConnClosed :: int where "ErrorCodeConnClosed = 11"

lemmas error_codes = ErrorCodeSuccess_def ErrorCodeFailed_def ErrorCodeMethodNotFound_def ErrorCodeMethodRetErr_def
  ErrorCodeInvalidResponse_def ErrorCodeConnClosed_def

definition decimal :: "int \<Rightarrow> string" where
  "decimal i = map (\<lambda>b. char_of (unat b)) (FormatInt (word_of_int i))"

definition ErrorFromErrorMsg :: "int \<Rightarrow> string \<Rightarrow> kkerror option" where
  "ErrorFromErrorMsg code msg =
     (if code = ErrorCodeSuccess then None
      else if code = ErrorCodeConnClosed then Some ErrRpcConnClosed
      else if msg = [] then Some (ErrText (''rpc error: code='' @ decimal code))
      else Some (ErrText msg))"

definition ErrorMsg :: "Frame \<Rightarrow> int \<Rightarrow> string \<Rightarrow> Frame" where
  "ErrorMsg fr code msg =
     (let code = (if code = ErrorCodeSuccess then ErrorCodeFailed else code);
          msg = (if msg = [] then ''unknown error'' else msg)
      in fr\<lparr>fr_Code := code, fr_Err := msg\<rparr>)"

text \<open>A frame marked with an error is never read back as a success, whatever code and text are given.\<close>

lemma ErrorMsg_not_success:
  "ErrorFromErrorMsg (fr_Code (ErrorMsg fr code msg)) (fr_Err (ErrorMsg fr code msg)) \<noteq> None"
  by (simp add: ErrorFromErrorMsg_def ErrorMsg_def error_codes Let_def)

lemma ErrorMsg_sel [simp]:
  "fr_T (ErrorMsg fr code msg) = fr_T fr" "fr_ID (ErrorMsg fr code msg) = fr_ID fr"
  "fr_M (ErrorMsg fr code msg) = fr_M fr" "fr_P (ErrorMsg fr code msg) = fr_P fr"
  "fr_DL (ErrorMsg fr code msg) = fr_DL fr"
  by (simp_all add: ErrorMsg_def Let_def)

subsection \<open>Options and deadlines\<close>

definition Millisecond :: int where "Millisecond = 1000000"
definition Second :: int where "Second = 1000000000"

record CallConfig =
  cc_ConnId :: nat
  cc_Timeout :: int

definition DefaultCallConfig :: CallConfig where
  "DefaultCallConfig = \<lparr>cc_ConnId = 0, cc_Timeout = 1 * Second\<rparr>"

definition fixCallConfig :: "CallConfig \<Rightarrow> CallConfig" where
  "fixCallConfig opts =
     (let opts = (if cc_Timeout opts \<le> 0 then opts\<lparr>cc_Timeout := 1 * Second\<rparr> else opts)
      in if cc_Timeout opts > 0 \<and> cc_Timeout opts < 1 * Millisecond then opts\<lparr>cc_Timeout := 1 * Millisecond\<rparr> else opts)"

record RpcOption =
  ro_MaxPendingCount :: int

definition DefaultRpcOption :: RpcOption where
  "DefaultRpcOption = \<lparr>ro_MaxPendingCount = 1024 * 8\<rparr>"

definition CheckRpcOption :: "RpcOption \<Rightarrow> RpcOption" where
  "CheckRpcOption opt = (if ro_MaxPendingCount opt \<le> 0 then opt\<lparr>ro_MaxPendingCount := 8192\<rparr> else opt)"

fun apply_loop :: "(RpcOption \<Rightarrow> RpcOption) option list \<Rightarrow> RpcOption \<Rightarrow> RpcOption" where
  "apply_loop [] cfg = cfg"
| "apply_loop (opt # opts) cfg = apply_loop opts (case opt of None \<Rightarrow> cfg | Some f \<Rightarrow> f cfg)"

definition RpcApplyOptions :: "(RpcOption \<Rightarrow> RpcOption) option list \<Rightarrow> RpcOption" where
  "RpcApplyOptions opts = apply_loop opts DefaultRpcOption"

definition WithMaxPendingCount :: "int \<Rightarrow> RpcOption \<Rightarrow> RpcOption" where
  "WithMaxPendingCount maxPendingCount opt = opt\<lparr>ro_MaxPendingCount := maxPendingCount\<rparr>"

text \<open>\<open>time.Time.UnixMilli\<close> rounds down.\<close>

definition UnixMilli :: "int \<Rightarrow> int" where
  "UnixMilli t = t div Millisecond"

definition ctxDeadlineUnixMs :: "int option option \<Rightarrow> int" where
  "ctxDeadlineUnixMs ctx = (case ctx of None \<Rightarrow> 0 | Some None \<Rightarrow> 0 | Some (Some dl) \<Rightarrow> UnixMilli dl)"

definition deadlineCtx :: "int \<Rightarrow> int option" where
  "deadlineCtx deadlineUnixMs = (if deadlineUnixMs \<le> 0 then None else Some (deadlineUnixMs * Millisecond))"

definition maybeApplyTimeout :: "int \<Rightarrow> int option option \<Rightarrow> int \<Rightarrow> int option" where
  "maybeApplyTimeout now ctx d =
     (let ctx = (case ctx of None \<Rightarrow> None | Some c \<Rightarrow> c)
      in if ctx \<noteq> None \<or> d \<le> 0 then ctx else Some (now + d))"

text \<open>
  The timeout of a call and the deadline it sends, as \<open>Invoke\<close> and \<open>InvokeAsync\<close> compute them;
  \<open>now\<close> is the clock at \<open>time.Until\<close> and \<open>later\<close> at \<open>time.Now\<close>.
\<close>

definition call_timeout :: "int \<Rightarrow> CallConfig \<Rightarrow> int option option \<Rightarrow> int" where
  "call_timeout now opts ctx =
     (let timeout = cc_Timeout (fixCallConfig opts) in
      case ctx of
        Some (Some dl) \<Rightarrow> let d = dl - now in if d > 0 \<and> (timeout \<le> 0 \<or> d < timeout) then d else timeout
      | _ \<Rightarrow> timeout)"

definition call_deadlineMs :: "int \<Rightarrow> int \<Rightarrow> int" where
  "call_deadlineMs later timeout = (if timeout > 0 then UnixMilli (later + timeout) else 0)"

lemma fixCallConfig_pos: "cc_Timeout (fixCallConfig opts) \<ge> 1 * Millisecond"
  by (simp add: fixCallConfig_def Let_def Millisecond_def Second_def)

lemma call_timeout_bounds: "call_timeout now opts ctx > 0" "call_timeout now opts ctx \<le> cc_Timeout (fixCallConfig opts)"
  using fixCallConfig_pos [of opts] by (auto simp: call_timeout_def Let_def Millisecond_def split: option.splits)

lemma CheckRpcOption_pos: "ro_MaxPendingCount (CheckRpcOption opt) > 0"
  by (simp add: CheckRpcOption_def)

subsection \<open>Statistics\<close>

record RpcStats =
  rs_requestsTotal :: int
  rs_requestsSuccess :: int
  rs_requestsError :: int
  rs_requestsTimeout :: int
  rs_requestsCanceled :: int
  rs_onewayTotal :: int
  rs_onewayError :: int
  rs_internalErrors :: int

definition rs_Reset :: "RpcStats \<Rightarrow> RpcStats" where
  "rs_Reset s = s\<lparr>rs_requestsTotal := 0, rs_requestsSuccess := 0, rs_requestsError := 0, rs_requestsTimeout := 0,
     rs_requestsCanceled := 0, rs_onewayTotal := 0, rs_onewayError := 0, rs_internalErrors := 0\<rparr>"

definition AddRequestStart :: "RpcStats \<Rightarrow> RpcStats" where
  "AddRequestStart s = s\<lparr>rs_requestsTotal := rs_requestsTotal s + 1\<rparr>"

definition AddRequestSuccess :: "RpcStats \<Rightarrow> RpcStats" where
  "AddRequestSuccess s = s\<lparr>rs_requestsSuccess := rs_requestsSuccess s + 1\<rparr>"

definition AddRequestError :: "RpcStats \<Rightarrow> RpcStats" where
  "AddRequestError s = s\<lparr>rs_requestsError := rs_requestsError s + 1\<rparr>"

definition AddRequestTimeout :: "RpcStats \<Rightarrow> RpcStats" where
  "AddRequestTimeout s = s\<lparr>rs_requestsTimeout := rs_requestsTimeout s + 1\<rparr>"

definition AddRequestCanceled :: "RpcStats \<Rightarrow> RpcStats" where
  "AddRequestCanceled s = s\<lparr>rs_requestsCanceled := rs_requestsCanceled s + 1\<rparr>"

definition AddOnewayStart :: "RpcStats \<Rightarrow> RpcStats" where
  "AddOnewayStart s = s\<lparr>rs_onewayTotal := rs_onewayTotal s + 1\<rparr>"

definition AddOnewayError :: "RpcStats \<Rightarrow> RpcStats" where
  "AddOnewayError s = s\<lparr>rs_onewayError := rs_onewayError s + 1\<rparr>"

definition AddInternalError :: "RpcStats \<Rightarrow> RpcStats" where
  "AddInternalError s = s\<lparr>rs_internalErrors := rs_internalErrors s + 1\<rparr>"

lemmas rs_adds = AddRequestStart_def AddRequestSuccess_def AddRequestError_def AddRequestTimeout_def
  AddRequestCanceled_def AddOnewayStart_def AddOnewayError_def AddInternalError_def

record RpcStatsSnapshot = RpcStats +
  rs_PendingCurrent :: int
  rs_PendingMax :: int

definition rs_Snapshot :: "RpcStats \<Rightarrow> int \<Rightarrow> int \<Rightarrow> RpcStatsSnapshot" where
  "rs_Snapshot s pendingCurrent pendingMax =
     RpcStats.extend s \<lparr>rs_PendingCurrent = pendingCurrent, rs_PendingMax = pendingMax\<rparr>"

definition RpcMetricsFromSnapshot :: "(int \<Rightarrow> 'f) \<Rightarrow> string \<Rightarrow> RpcStatsSnapshot \<Rightarrow> string \<Rightarrow> 'f option" where
  "RpcMetricsFromSnapshot float64 namespace snap =
     (let prefix = (if namespace \<noteq> [] then namespace @ ''.'' else [])
      in map_of
           [(prefix @ ''kkrpc_requests_total'', float64 (rs_requestsTotal snap)),
            (prefix @ ''kkrpc_requests_success_total'', float64 (rs_requestsSuccess snap)),
            (prefix @ ''kkrpc_requests_error_total'', float64 (rs_requestsError snap)),
            (prefix @ ''kkrpc_requests_timeout_total'', float64 (rs_requestsTimeout snap)),
            (prefix @ ''kkrpc_requests_canceled_total'', float64 (rs_requestsCanceled snap)),
            (prefix @ ''kkrpc_oneway_total'', float64 (rs_onewayTotal snap)),
            (prefix @ ''kkrpc_oneway_error_total'', float64 (rs_onewayError snap)),
            (prefix @ ''kkrpc_internal_errors_total'', float64 (rs_internalErrors snap)),
            (prefix @ ''kkrpc_pending_current'', float64 (rs_PendingCurrent snap)),
            (prefix @ ''kkrpc_pending_max'', float64 (rs_PendingMax snap))])"

lemma RpcMetrics_ten: "card (dom (RpcMetricsFromSnapshot f namespace snap)) = 10"
  by (simp add: RpcMetricsFromSnapshot_def Let_def)

end
