(* ===== verification/RpcReceiver.thy ===== *)
theory RpcReceiver
  imports RpcFrame
begin

section \<open>Remote calls: methods, frame encoding and the receiver\<close>

text \<open>
  src/remotes/kkrpc/method_mgr.go, regist.go, codec.go, receiver.go and the constructors of the
  invokers. The serialisers are the codecs of \<open>Codec\<close>; a type parameter of a Go function is a
  \<open>gotype\<close> argument. The functions users register are arguments too: a handler maps the deadline
  of its context, the decoded request and the connection to a response or an error. Buffers go back
  to the pool after the values are taken from them, which the model does not show.
\<close>

record 'v icodec = "'v body_codec" +
  ic_Marshal :: "'v any \<Rightarrow> kkerror + byte list"

subsection \<open>The method manager\<close>

text \<open>\<open>reflect.Type.Name\<close>: the name without its package, of a type that is not generic.\<close>

definition unqualified :: "string \<Rightarrow> string" where
  "unqualified s = rev (takeWhile (\<lambda>c. c \<noteq> CHR ''.'') (rev s))"

fun type_Name :: "gotype \<Rightarrow> string" where
  "type_Name (Named n) = unqualified n"
| "type_Name (PtrTo t) = []"

fun GetStructName :: "gotype option \<Rightarrow> string" where
  "GetStructName None = []"
| "GetStructName (Some (PtrTo t)) = type_Name t"
| "GetStructName (Some t) = type_Name t"

record methodReqRsp =
  mr_reqType :: gotype
  mr_rspType :: gotype
  mr_selfDefineName :: string

record methodOneWay =
  mo_reqType :: gotype
  mo_selfDefineName :: string

record 'v MethodManager =
  mm_streamTool :: LengthFieldStreamPacket
  mm_frameCodec :: "Frame body_codec"
  mm_payloadCodec :: "'v icodec"
  method2typeReqRsp :: "string \<rightharpoonup> methodReqRsp"
  method2typeOneWay :: "string \<rightharpoonup> methodOneWay"

text \<open>A nil argument is replaced by the default, which is the last argument of its kind.\<close>

definition NewMethodManager ::
  "LengthFieldStreamPacket option \<Rightarrow> Frame body_codec option \<Rightarrow> 'v icodec option \<Rightarrow>
   LengthFieldStreamPacket \<Rightarrow> Frame body_codec \<Rightarrow> 'v icodec \<Rightarrow> 'v MethodManager" where
  "NewMethodManager streamTool frameCodec payloadCodec defaultStream jsonFrame jsonPayload =
     \<lparr>mm_streamTool = (case streamTool of None \<Rightarrow> defaultStream | Some s \<Rightarrow> s),
      mm_frameCodec = (case frameCodec of None \<Rightarrow> jsonFrame | Some c \<Rightarrow> c),
      mm_payloadCodec = (case payloadCodec of None \<Rightarrow> jsonPayload | Some c \<Rightarrow> c),
      method2typeReqRsp = Map.empty, method2typeOneWay = Map.empty\<rparr>"

fun autoMethodName_loop :: "gotype option list \<Rightarrow> string" where
  "autoMethodName_loop [] = []"
| "autoMethodName_loop (m # ms) = ''_'' @ GetStructName m @ autoMethodName_loop ms"

fun autoMethodName :: "gotype option list \<Rightarrow> string" where
  "autoMethodName [] = []"
| "autoMethodName (m # ms) = GetStructName m @ autoMethodName_loop ms"

definition getMethodReqRsp :: "'v MethodManager \<Rightarrow> gotype \<Rightarrow> gotype \<Rightarrow> string \<times> string" where
  "getMethodReqRsp rm req rsp =
     (let fullName = autoMethodName [Some req, Some rsp] in
      case method2typeReqRsp rm fullName of
        Some info \<Rightarrow> (fullName, mr_selfDefineName info)
      | None \<Rightarrow> ([], []))"

definition getMethodOneway :: "'v MethodManager \<Rightarrow> gotype \<Rightarrow> string \<times> string" where
  "getMethodOneway rm msg =
     (let fullName = autoMethodName [Some msg] in
      case method2typeOneWay rm fullName of
        Some info \<Rightarrow> (fullName, mo_selfDefineName info)
      | None \<Rightarrow> ([], []))"

definition newReqResp :: "'v MethodManager \<Rightarrow> gotype \<Rightarrow> gotype \<Rightarrow> string \<Rightarrow> kkerror option \<times> 'v MethodManager" where
  "newReqResp mgr REQ RSP method =
     (let fullName1 = autoMethodName [Some REQ, Some RSP];
          fullName2 = autoMethodName [Some (PtrTo REQ), Some (PtrTo RSP)];
          fullName3 = autoMethodName [Some REQ, Some (PtrTo RSP)];
          fullName4 = autoMethodName [Some (PtrTo REQ), Some RSP];
          m = method2typeReqRsp mgr
      in if m fullName1 \<noteq> None then (Some ErrRpcMethodAlreadyRegistered, mgr)
         else if m fullName2 \<noteq> None then (Some ErrRpcMethodAlreadyRegistered, mgr)
         else if m fullName3 \<noteq> None then (Some ErrRpcMethodAlreadyRegistered, mgr)
         else if m fullName4 \<noteq> None then (Some ErrRpcMethodAlreadyRegistered, mgr)
         else
           let selfDefineName = (if method \<noteq> [] \<and> method \<notin> {fullName1, fullName2, fullName3, fullName4} then method else []);
               m = m(fullName2 \<mapsto> \<lparr>mr_reqType = REQ, mr_rspType = RSP, mr_selfDefineName = selfDefineName\<rparr>);
               m = m(fullName3 \<mapsto> \<lparr>mr_reqType = PtrTo REQ, mr_rspType = RSP, mr_selfDefineName = selfDefineName\<rparr>);
               m = m(fullName4 \<mapsto> \<lparr>mr_reqType = REQ, mr_rspType = PtrTo RSP, mr_selfDefineName = selfDefineName\<rparr>);
               m = m(fullName1 \<mapsto> \<lparr>mr_reqType = PtrTo REQ, mr_rspType = PtrTo RSP, mr_selfDefineName = selfDefineName\<rparr>);
               m = (if selfDefineName \<noteq> []
                    then m(selfDefineName \<mapsto> \<lparr>mr_reqType = PtrTo REQ, mr_rspType = PtrTo RSP, mr_selfDefineName = selfDefineName\<rparr>)
                    else m)
           in (None, mgr\<lparr>method2typeReqRsp := m\<rparr>))"

definition newOneWay :: "'v MethodManager \<Rightarrow> gotype \<Rightarrow> string \<Rightarrow> kkerror option \<times> 'v MethodManager" where
  "newOneWay mgr REQ method =
     (let fullName1 = autoMethodName [Some REQ];
          fullName2 = autoMethodName [Some (PtrTo REQ)];
          m = method2typeOneWay mgr
      in if m fullName1 \<noteq> None then (Some ErrRpcMethodAlreadyRegistered, mgr)
         else if m fullName2 \<noteq> None then (Some ErrRpcMethodAlreadyRegistered, mgr)
         else
           let selfDefineName = (if method \<noteq> [] \<and> method \<notin> {fullName1, fullName2} then method else []);
               m = m(fullName2 \<mapsto> \<lparr>mo_reqType = REQ, mo_selfDefineName = selfDefineName\<rparr>);
               m = m(fullName1 \<mapsto> \<lparr>mo_reqType = PtrTo REQ, mo_selfDefineName = selfDefineName\<rparr>);
               m = (if selfDefineName \<noteq> [] then m(selfDefineName \<mapsto> \<lparr>mo_reqType = PtrTo REQ, mo_selfDefineName = selfDefineName\<rparr>) else m)
           in (None, mgr\<lparr>method2typeOneWay := m\<rparr>))"

definition verifyReqRespMethod :: "'v MethodManager \<Rightarrow> gotype \<Rightarrow> gotype \<Rightarrow> string \<times> bool" where
  "verifyReqRespMethod mgr REQ RSP =
     (let fullName = fst (getMethodReqRsp mgr (PtrTo REQ) (PtrTo RSP))
      in if fullName \<noteq> [] then (fullName, True) else ([], False))"

definition verifyOneWayMethod :: "'v MethodManager \<Rightarrow> gotype \<Rightarrow> string \<times> bool" where
  "verifyOneWayMethod mgr REQ =
     (let fullName = fst (getMethodOneway mgr (PtrTo REQ))
      in if fullName \<noteq> [] then (fullName, True) else ([], False))"

definition RegisterReqRspMethod :: "'v MethodManager \<Rightarrow> gotype \<Rightarrow> gotype \<Rightarrow> kkerror option \<times> 'v MethodManager" where
  "RegisterReqRspMethod mgr REQ RSP = newReqResp mgr REQ RSP []"

definition RegisterOneWayMethod :: "'v MethodManager \<Rightarrow> gotype \<Rightarrow> kkerror option \<times> 'v MethodManager" where
  "RegisterOneWayMethod mgr REQ = newOneWay mgr REQ []"

text \<open>The constructors of the invokers give the method name, or refuse.\<close>

definition NewReqRspInvoker :: "'v MethodManager \<Rightarrow> gotype \<Rightarrow> gotype \<Rightarrow> kkerror + string" where
  "NewReqRspInvoker mgr T R =
     (case verifyReqRespMethod mgr T R of (method, ok) \<Rightarrow> if \<not> ok then Inl ErrRpcMethodNotRegistered else Inr method)"

definition NewOneWayInvoker :: "'v MethodManager \<Rightarrow> gotype \<Rightarrow> kkerror + string" where
  "NewOneWayInvoker mgr T =
     (case verifyOneWayMethod mgr T of (method, ok) \<Rightarrow> if \<not> ok then Inl ErrRpcMethodNotRegistered else Inr method)"

subsection \<open>Encoding frames\<close>

definition frame_type :: gotype where "frame_type = Named ''kkrpc.Frame''"

text \<open>The length field is written into the buffer; the error of \<open>WriteMessageSize\<close> is not looked at.\<close>

definition put_frame :: "'v MethodManager \<Rightarrow> Frame \<Rightarrow> (kkerror + byte list) go" where
  "put_frame mgr fr =
     (let lfbCount = lf_lfbCount (mm_streamTool mgr) in do {
        m \<leftarrow> bc_MarshalAppend (mm_frameCodec mgr) (AnyPtr frame_type fr) lfbCount;
        ret (case m of
               Inl err \<Rightarrow> Inl err
             | Inr B \<Rightarrow> Inr (fst (WriteMessageSize (mm_streamTool mgr) B (int (length B) - int lfbCount)))) })"

definition EncodeFailedResponse :: "'v MethodManager \<Rightarrow> Frame \<Rightarrow> (kkerror + byte list) go" where
  "EncodeFailedResponse mgr frame =
     (let frame = (if fr_Code frame = ErrorCodeSuccess then frame\<lparr>fr_Code := ErrorCodeFailed\<rparr> else frame);
          frame = (if fr_Err frame = [] then frame\<lparr>fr_Err := ''unknown error''\<rparr> else frame)
      in put_frame mgr frame)"

definition EncodeRpcFrameWithPayload ::
  "'v MethodManager \<Rightarrow> FrameType \<Rightarrow> 64 word \<Rightarrow> string \<Rightarrow> byte list \<Rightarrow> int \<Rightarrow> (kkerror + byte list) go" where
  "EncodeRpcFrameWithPayload mgr ft reqId method payload deadlineMs =
     (if ft \<in> {FrameTypeRequest, FrameTypeResponse} \<and> reqId = 0 then ret (Inl ErrRpcInvalidRequestID)
      else let reqId = (if ft = FrameTypeOneway then 0 else reqId)
           in put_frame mgr (zero_Frame\<lparr>fr_T := ft, fr_ID := reqId, fr_DL := deadlineMs, fr_M := method, fr_P := payload\<rparr>))"

definition EncodeRpcFrame ::
  "'v MethodManager \<Rightarrow> FrameType \<Rightarrow> 64 word \<Rightarrow> string \<Rightarrow> 'v any \<Rightarrow> int \<Rightarrow> (kkerror + byte list) go" where
  "EncodeRpcFrame mgr ft reqId method msg deadlineMs =
     (case ic_Marshal (mm_payloadCodec mgr) msg of
        Inl err \<Rightarrow> ret (Inl err)
      | Inr payloadBytes \<Rightarrow>
          if ft \<in> {FrameTypeRequest, FrameTypeResponse} \<and> reqId = 0 then ret (Inl ErrRpcInvalidRequestID)
          else let reqId = (if ft = FrameTypeOneway then 0 else reqId)
               in put_frame mgr (zero_Frame\<lparr>fr_T := ft, fr_ID := reqId, fr_DL := deadlineMs, fr_M := method, fr_P := payloadBytes\<rparr>))"

definition read_frame :: "'v MethodManager \<Rightarrow> byte list \<Rightarrow> kkerror + Frame" where
  "read_frame mgr data =
     (case Unpack (mm_streamTool mgr) data of
        Inl err \<Rightarrow> Inl err
      | Inr frameBytes \<Rightarrow> bc_Unmarshal (mm_frameCodec mgr) frameBytes (Direct frame_type))"

definition DecodeRpcPayload :: "'v MethodManager \<Rightarrow> gotype \<Rightarrow> byte list \<Rightarrow> kkerror + 'v" where
  "DecodeRpcPayload mgr T bb =
     (case read_frame mgr bb of
        Inl err \<Rightarrow> Inl err
      | Inr frame \<Rightarrow> bc_Unmarshal (mm_payloadCodec mgr) (fr_P frame) (Direct T))"

subsection \<open>Handlers and the receiver\<close>

record 'v ReqRspHandler =
  rh_call :: "int option \<Rightarrow> 'v \<Rightarrow> nat \<Rightarrow> kkerror + 'v"
  rh_T :: gotype
  rh_R :: gotype
  rh_method :: string
  rh_payloadCodec :: "'v icodec"

definition ReqRsp_OnMsg :: "'v ReqRspHandler \<Rightarrow> int option \<Rightarrow> byte list \<Rightarrow> nat \<Rightarrow> kkerror + byte list" where
  "ReqRsp_OnMsg h ctx payload connId =
     (case bc_Unmarshal (rh_payloadCodec h) payload (Direct (rh_T h)) of
        Inl err \<Rightarrow> Inl err
      | Inr data \<Rightarrow>
          (case rh_call h ctx data connId of
             Inl err \<Rightarrow> Inl err
           | Inr resp \<Rightarrow> ic_Marshal (rh_payloadCodec h) (AnyPtr (rh_R h) resp)))"

text \<open>A one-way handler is known by what it was called with; it may return an error.\<close>

record 'v OneWayHandler =
  oh_call :: "int option \<Rightarrow> 'v \<Rightarrow> nat \<Rightarrow> kkerror option"
  oh_T :: gotype
  oh_method :: string
  oh_payloadCodec :: "'v icodec"

definition OneWay_OnMsg ::
  "'v OneWayHandler \<Rightarrow> int option \<Rightarrow> byte list \<Rightarrow> nat \<Rightarrow> (int option \<times> 'v \<times> nat) list \<times> kkerror option" where
  "OneWay_OnMsg h ctx payload connId =
     (case bc_Unmarshal (oh_payloadCodec h) payload (Direct (oh_T h)) of
        Inl err \<Rightarrow> ([], Some err)
      | Inr data \<Rightarrow> ([(ctx, data, connId)], oh_call h ctx data connId))"

record 'v RpcReceiver =
  rr_reqrspMap :: "string \<rightharpoonup> 'v ReqRspHandler"
  rr_onewayMap :: "string \<rightharpoonup> 'v OneWayHandler"
  rr_rpcOpts :: RpcOption
  rr_methodMgr :: "'v MethodManager"

definition NewRpcReceiver :: "RpcOption \<Rightarrow> 'v MethodManager \<Rightarrow> 'v RpcReceiver" where
  "NewRpcReceiver rpcOpts mgr =
     \<lparr>rr_reqrspMap = Map.empty, rr_onewayMap = Map.empty, rr_rpcOpts = CheckRpcOption rpcOpts, rr_methodMgr = mgr\<rparr>"

definition RegistReqRspHandler ::
  "'v RpcReceiver \<Rightarrow> gotype \<Rightarrow> gotype \<Rightarrow> (int option \<Rightarrow> 'v \<Rightarrow> nat \<Rightarrow> kkerror + 'v) \<Rightarrow> kkerror option \<times> 'v RpcReceiver" where
  "RegistReqRspHandler r T R call =
     (case getMethodReqRsp (rr_methodMgr r) (PtrTo T) (PtrTo R) of (fullName, selfDefineName) \<Rightarrow>
        if fullName = [] then (Some ErrRpcInvalidReqResp, r)
        else let h = \<lparr>rh_call = call, rh_T = T, rh_R = R, rh_method = fullName,
                      rh_payloadCodec = mm_payloadCodec (rr_methodMgr r)\<rparr>;
                 m = (rr_reqrspMap r)(fullName \<mapsto> h);
                 m = (if selfDefineName \<noteq> [] then m(selfDefineName \<mapsto> h) else m)
             in (None, r\<lparr>rr_reqrspMap := m\<rparr>))"

definition RegistOneWayHandler ::
  "'v RpcReceiver \<Rightarrow> gotype \<Rightarrow> (int option \<Rightarrow> 'v \<Rightarrow> nat \<Rightarrow> kkerror option) \<Rightarrow> kkerror option \<times> 'v RpcReceiver" where
  "RegistOneWayHandler r T call =
     (case getMethodOneway (rr_methodMgr r) (PtrTo T) of (fullName, selfDefineName) \<Rightarrow>
        if fullName = [] then (Some ErrRpcInvalidOneway, r)
        else let h = \<lparr>oh_call = call, oh_T = T, oh_method = fullName,
                      oh_payloadCodec = mm_payloadCodec (rr_methodMgr r)\<rparr>;
                 m = (rr_onewayMap r)(fullName \<mapsto> h);
                 m = (if selfDefineName \<noteq> [] then m(selfDefineName \<mapsto> h) else m)
             in (None, r\<lparr>rr_onewayMap := m\<rparr>))"

text \<open>The texts of the error responses, in the bytes of UTF-8.\<close>

definition text_bytes :: "nat list \<Rightarrow> string" where
  "text_bytes = map char_of"

definition notFoundText :: string where
  "notFoundText = text_bytes
     [230, 156, 170, 230, 137, 190, 229, 136, 176, 232, 191, 156, 231, 168, 139, 230, 150, 185, 230, 179, 149, 58, 32]"

definition callFailedText :: string where
  "callFailedText = text_bytes
     [232, 191, 156, 231, 168, 139, 230, 150, 185, 230, 179, 149, 230, 137, 167, 232, 161, 140, 229, 164, 177, 232, 180, 165, 58, 32]"

definition encodeFailedText :: string where
  "encodeFailedText = text_bytes
     [229, 147, 141, 229, 186, 148, 231, 188, 150, 231, 160, 129, 229, 164, 177, 232, 180, 165]"

text \<open>\<open>errText\<close> is the method \<open>Error\<close> of error values.\<close>

definition dealReqResp :: "(kkerror \<Rightarrow> string) \<Rightarrow> 'v RpcReceiver \<Rightarrow> Frame \<Rightarrow> nat \<Rightarrow> byte list option go" where
  "dealReqResp errText r fr connId =
     (let mgr = rr_methodMgr r;
          rspFrame = zero_Frame\<lparr>fr_T := FrameTypeResponse, fr_ID := fr_ID fr, fr_M := fr_M fr, fr_Code := ErrorCodeSuccess, fr_Err := []\<rparr>;
          failed = (\<lambda>code msg. do {
             e \<leftarrow> EncodeFailedResponse mgr (ErrorMsg rspFrame code msg);
             ret (case e of Inl err \<Rightarrow> None | Inr rspBB \<Rightarrow> Some rspBB) })
      in case rr_reqrspMap r (fr_M fr) of
           None \<Rightarrow> failed ErrorCodeMethodNotFound (notFoundText @ fr_M fr)
         | Some h \<Rightarrow>
             (case ReqRsp_OnMsg h (deadlineCtx (fr_DL fr)) (fr_P fr) connId of
                Inl err \<Rightarrow> failed ErrorCodeMethodRetErr (callFailedText @ errText err)
              | Inr respBytes \<Rightarrow> do {
                  e \<leftarrow> EncodeRpcFrameWithPayload mgr FrameTypeResponse (fr_ID fr) (fr_M fr) respBytes 0;
                  case e of
                    Inl err \<Rightarrow> failed ErrorCodeInvalidResponse encodeFailedText
                  | Inr rspBB \<Rightarrow> ret (Some rspBB) }))"

definition dealOneWay :: "'v RpcReceiver \<Rightarrow> Frame \<Rightarrow> nat \<Rightarrow> (int option \<times> 'v \<times> nat) list" where
  "dealOneWay r fr connId =
     (case rr_onewayMap r (fr_M fr) of
        None \<Rightarrow> []
      | Some h \<Rightarrow> fst (OneWay_OnMsg h (deadlineCtx (fr_DL fr)) (fr_P fr) connId))"

text \<open>
  What receiving a packet leads to: a packet to send back, a response given to \<open>pending.deliver\<close>,
  the one-way calls made, and the statistics of the table of pending calls, when there is one.
\<close>

record 'v received =
  rx_reply :: "byte list option"
  rx_deliver :: "Frame option"
  rx_oneway :: "(int option \<times> 'v \<times> nat) list"
  rx_stats :: "RpcStats option"

definition OnRaw :: "(kkerror \<Rightarrow> string) \<Rightarrow> 'v RpcReceiver \<Rightarrow> nat \<Rightarrow> byte list \<Rightarrow> RpcStats option \<Rightarrow> 'v received go" where
  "OnRaw errText r connId data stats =
     (let nothing = \<lparr>rx_reply = None, rx_deliver = None, rx_oneway = [], rx_stats = stats\<rparr>;
          internal = nothing\<lparr>rx_stats := map_option AddInternalError stats\<rparr>
      in case read_frame (rr_methodMgr r) data of
           Inl err \<Rightarrow> ret internal
         | Inr fr \<Rightarrow>
             if fr_T fr = FrameTypeOneway then ret (nothing\<lparr>rx_oneway := dealOneWay r fr connId\<rparr>)
             else if fr_T fr = FrameTypeRequest then do {
               bb \<leftarrow> dealReqResp errText r fr connId;
               ret (nothing\<lparr>rx_reply := bb\<rparr>) }
             else if fr_T fr = FrameTypeResponse then
               ret (nothing\<lparr>rx_deliver := (case stats of None \<Rightarrow> None | Some _ \<Rightarrow> Some fr)\<rparr>)
             else ret internal)"

text \<open>
  \<open>doReturn\<close> of a synchronous call: what the caller gets for the frame on its channel.
\<close>

definition doReturn :: "'v MethodManager \<Rightarrow> gotype \<Rightarrow> Frame \<Rightarrow> RpcStats \<Rightarrow> (kkerror + 'v) \<times> RpcStats" where
  "doReturn mgr R fr stats =
     (if fr_T fr \<noteq> FrameTypeResponse then (Inl ErrRpcInvalidFrameType, AddInternalError stats)
      else case ErrorFromErrorMsg (fr_Code fr) (fr_Err fr) of
        Some err \<Rightarrow> (Inl err, AddRequestError stats)
      | None \<Rightarrow>
          (case bc_Unmarshal (mm_payloadCodec mgr) (fr_P fr) (Direct R) of
             Inl err \<Rightarrow> (Inl err, AddInternalError stats)
           | Inr rsp \<Rightarrow> (Inr rsp, AddRequestSuccess stats)))"

text \<open>\<open>InvokeNR\<close>: the packet handed to the sender, whose result is \<open>send\<close>.\<close>

definition InvokeNR ::
  "'v MethodManager \<Rightarrow> bool \<Rightarrow> string \<Rightarrow> (byte list \<Rightarrow> kkerror option) \<Rightarrow> int option option \<Rightarrow> 'v any \<Rightarrow> RpcStats \<Rightarrow>
   (kkerror option \<times> byte list list \<times> RpcStats) go" where
  "InvokeNR mgr closed method send ctx req stats =
     (if closed then ret (Some ErrRpcConnClosed, [], stats)
      else let stats = AddOnewayStart stats in do {
        e \<leftarrow> EncodeRpcFrame mgr FrameTypeOneway 0 method req (ctxDeadlineUnixMs ctx);
        ret (case e of
               Inl err \<Rightarrow> (Some err, [], AddInternalError (AddOnewayError stats))
             | Inr bb \<Rightarrow>
                 (case send bb of
                    Some err \<Rightarrow> (Some err, [bb], AddInternalError (AddOnewayError stats))
                  | None \<Rightarrow> (None, [bb], stats))) })"

end
