(* ===== verification/RpcCall.thy ===== *)
theory RpcCall
  imports RpcReceiver
begin

section \<open>Remote calls, from the request to the result\<close>

text \<open>
  What the functions of \<open>RpcReceiver\<close> do together: a request encoded by the caller, handled by the
  receiver of the other side, and its response given back to the caller. The serialisers only have
  to carry the frames and payloads of the call at hand.
\<close>

definition request_frame :: "64 word \<Rightarrow> int \<Rightarrow> string \<Rightarrow> byte list \<Rightarrow> Frame" where
  "request_frame i dl mth pb = zero_Frame\<lparr>fr_T := FrameTypeRequest, fr_ID := i, fr_DL := dl, fr_M := mth, fr_P := pb\<rparr>"

definition response_frame :: "64 word \<Rightarrow> string \<Rightarrow> byte list \<Rightarrow> Frame" where
  "response_frame i mth pb = zero_Frame\<lparr>fr_T := FrameTypeResponse, fr_ID := i, fr_M := mth, fr_P := pb\<rparr>"

definition failed_frame :: "64 word \<Rightarrow> string \<Rightarrow> int \<Rightarrow> string \<Rightarrow> Frame" where
  "failed_frame i mth code msg = (response_frame i mth [])\<lparr>fr_Code := code, fr_Err := msg\<rparr>"

definition frame_ok :: "'v MethodManager \<Rightarrow> Frame \<Rightarrow> bool" where
  "frame_ok mgr fr \<longleftrightarrow>
     (\<exists>body. codec_carries (mm_frameCodec mgr) (Direct frame_type) frame_type fr body \<and>
        lf_lfbCount (mm_streamTool mgr) + length body \<le> lf_maxPacketSize (mm_streamTool mgr))"

definition payload_carries :: "'v MethodManager \<Rightarrow> gotype \<Rightarrow> 'v \<Rightarrow> byte list \<Rightarrow> bool" where
  "payload_carries mgr t x pb \<longleftrightarrow>
     ic_Marshal (mm_payloadCodec mgr) (AnyPtr t x) = Inr pb \<and> bc_Unmarshal (mm_payloadCodec mgr) pb (Direct t) = Inr x"

lemma WriteMessageSize_put:
  assumes "valid_stream st" "lf_lfbCount st \<le> length B"
  shows "fst (WriteMessageSize st B (int n)) = put_uint (lf_endian st) (lf_lfbCount st) n @ drop (lf_lfbCount st) B"
  using assms order.put_mod [of "lf_endian st" 4 n] order.put_mod [of "lf_endian st" 2 n]
  by (auto simp: WriteMessageSize_def valid_stream_def copy_at_def order.length_put nat_mod_distrib simp flip: numeral_2_eq_2)

lemma WriteMessageSize_wire:
  assumes "valid_stream st" "lf_lfbCount st \<le> length B"
  shows "fst (WriteMessageSize st B (int (length B) - int (lf_lfbCount st))) = wire st (drop (lf_lfbCount st) B)"
proof -
  have "int (length B) - int (lf_lfbCount st) = int (length (drop (lf_lfbCount st) B))" using assms(2) by simp
  then show ?thesis using WriteMessageSize_put [OF assms] by (simp only: wire_def)
qed

lemma Unpack_wire:
  assumes "valid_stream st" "lf_lfbCount st + length msg \<le> lf_maxPacketSize st"
  shows "Unpack st (wire st msg) = Inr msg"
  using ReadMessageSize_wire [OF assms, of "[]"]
  by (simp add: Unpack_def Let_def) (simp add: sub_slice_def wire_def order.length_put)

text \<open>A frame the codec carries goes through the stream unchanged.\<close>

lemma put_read_frame:
  assumes "valid_stream (mm_streamTool mgr)" "frame_ok mgr fr"
  shows "\<exists>packet. put_frame mgr fr = ret (Inr packet) \<and> read_frame mgr packet = Inr fr"
proof -
  let ?st = "mm_streamTool mgr"
  obtain body where c: "codec_carries (mm_frameCodec mgr) (Direct frame_type) frame_type fr body"
    and len: "lf_lfbCount ?st + length body \<le> lf_maxPacketSize ?st"
    using assms(2) unfolding frame_ok_def by blast
  obtain B where B: "bc_MarshalAppend (mm_frameCodec mgr) (AnyPtr frame_type fr) (lf_lfbCount ?st) = ret (Inr B)"
    "lf_lfbCount ?st \<le> length B" "drop (lf_lfbCount ?st) B = body"
    using c unfolding codec_carries_def by blast
  have "put_frame mgr fr = ret (Inr (wire ?st body))"
    using WriteMessageSize_wire [OF assms(1) B(2)] B by (simp add: put_frame_def Let_def)
  moreover have "read_frame mgr (wire ?st body) = Inr fr"
    using Unpack_wire [OF assms(1) len] c by (simp add: read_frame_def codec_carries_def)
  ultimately show ?thesis by blast
qed

lemma response_delivered:
  assumes "read_frame (rr_methodMgr r) packet = Inr fr" "fr_T fr = FrameTypeResponse"
  shows "OnRaw errText r conn packet (Some st) =
    ret \<lparr>rx_reply = None, rx_deliver = Some fr, rx_oneway = [], rx_stats = Some st\<rparr>"
  using assms by (simp add: OnRaw_def Let_def frame_types)

lemma request_dealt:
  assumes "read_frame (rr_methodMgr r) packet = Inr fr" "fr_T fr = FrameTypeRequest"
    and "dealReqResp errText r fr conn = ret (Some reply)"
  shows "OnRaw errText r conn packet st = ret \<lparr>rx_reply = Some reply, rx_deliver = None, rx_oneway = [], rx_stats = st\<rparr>"
  using assms by (simp add: OnRaw_def Let_def frame_types)

lemma request_encoded:
  assumes "valid_stream (mm_streamTool mgr)" "i \<noteq> 0" "payload_carries mgr T req pb"
    and "frame_ok mgr (request_frame i dl mth pb)"
  shows "\<exists>packet. EncodeRpcFrame mgr FrameTypeRequest i mth (AnyPtr T req) dl = ret (Inr packet) \<and>
    read_frame mgr packet = Inr (request_frame i dl mth pb)"
  using put_read_frame [OF assms(1,4)] assms(2,3)
  by (simp add: EncodeRpcFrame_def payload_carries_def frame_types request_frame_def)

text \<open>The error responses of \<open>dealReqResp\<close>, for a code and a text that are not empty.\<close>

lemma failed_encoded:
  assumes "valid_stream (mm_streamTool mgr)" "frame_ok mgr (failed_frame i mth code msg)"
    and "code \<noteq> ErrorCodeSuccess" "msg \<noteq> []"
  shows "\<exists>reply. EncodeFailedResponse mgr
      (ErrorMsg (zero_Frame\<lparr>fr_T := FrameTypeResponse, fr_ID := i, fr_M := mth, fr_Code := ErrorCodeSuccess, fr_Err := []\<rparr>) code msg) =
      ret (Inr reply) \<and> read_frame mgr reply = Inr (failed_frame i mth code msg)"
proof -
  have "ErrorMsg (zero_Frame\<lparr>fr_T := FrameTypeResponse, fr_ID := i, fr_M := mth, fr_Code := ErrorCodeSuccess, fr_Err := []\<rparr>) code msg =
      failed_frame i mth code msg"
    using assms(3,4) by (simp add: ErrorMsg_def failed_frame_def response_frame_def zero_Frame_def)
  with put_read_frame [OF assms(1,2)] assms(3,4) show ?thesis
    by (simp add: EncodeFailedResponse_def failed_frame_def)
qed

lemma texts_not_empty: "callFailedText \<noteq> []" "notFoundText \<noteq> []"
  by (simp_all add: callFailedText_def notFoundText_def text_bytes_def)

lemma doReturn_failed:
  assumes "code \<notin> {ErrorCodeSuccess, ErrorCodeConnClosed}" "msg \<noteq> []"
  shows "doReturn mgr R (failed_frame i mth code msg) st = (Inl (ErrText msg), AddRequestError st)"
  using assms by (simp add: doReturn_def failed_frame_def response_frame_def ErrorFromErrorMsg_def)

lemma doReturn_response:
  "payload_carries mgr R resp pb \<Longrightarrow> doReturn mgr R (response_frame i mth pb) st = (Inr resp, AddRequestSuccess st)"
  by (simp add: doReturn_def response_frame_def zero_Frame_def ErrorFromErrorMsg_def error_codes payload_carries_def)

text \<open>What the receiver makes of a request for a registered method, and of one for an unknown method.\<close>

lemma answer_call:
  assumes "valid_stream (mm_streamTool mgr)" "rr_methodMgr r = mgr" "i \<noteq> 0"
    and h: "rr_reqrspMap r mth = Some h" "rh_payloadCodec h = mm_payloadCodec mgr" "rh_T h = T" "rh_R h = R"
    and "payload_carries mgr T req pb"
    and answer: "case rh_call h (deadlineCtx dl) req conn of
        Inr resp \<Rightarrow> payload_carries mgr R resp rb \<and> frame_ok mgr (response_frame i mth rb)
      | Inl err \<Rightarrow> frame_ok mgr (failed_frame i mth ErrorCodeMethodRetErr (callFailedText @ errText err))"
  shows "\<exists>reply. dealReqResp errText r (request_frame i dl mth pb) conn = ret (Some reply) \<and>
    read_frame mgr reply = Inr (case rh_call h (deadlineCtx dl) req conn of
        Inr resp \<Rightarrow> response_frame i mth rb
      | Inl err \<Rightarrow> failed_frame i mth ErrorCodeMethodRetErr (callFailedText @ errText err))"
proof (cases "rh_call h (deadlineCtx dl) req conn")
  case (Inl err)
  with answer failed_encoded [OF assms(1), of i mth ErrorCodeMethodRetErr "callFailedText @ errText err"] texts_not_empty
  show ?thesis using assms
    by (auto simp: dealReqResp_def Let_def ReqRsp_OnMsg_def payload_carries_def request_frame_def error_codes)
next
  case (Inr resp)
  with answer put_read_frame [OF assms(1), of "response_frame i mth rb"] show ?thesis using assms
    by (auto simp: dealReqResp_def Let_def ReqRsp_OnMsg_def payload_carries_def request_frame_def
        EncodeRpcFrameWithPayload_def response_frame_def frame_types zero_Frame_def)
qed

lemma answer_unknown:
  assumes "valid_stream (mm_streamTool mgr)" "rr_methodMgr r = mgr" "rr_reqrspMap r mth = None"
    and "frame_ok mgr (failed_frame i mth ErrorCodeMethodNotFound (notFoundText @ mth))"
  shows "\<exists>reply. dealReqResp errText r (request_frame i dl mth pb) conn = ret (Some reply) \<and>
    read_frame mgr reply = Inr (failed_frame i mth ErrorCodeMethodNotFound (notFoundText @ mth))"
  using failed_encoded [OF assms(1,4)] texts_not_empty assms(2,3)
  by (auto simp: dealReqResp_def Let_def request_frame_def error_codes)

subsection \<open>Registration\<close>

lemma registered_handler:
  assumes "RegistReqRspHandler r T R call = (None, r')" "NewReqRspInvoker (rr_methodMgr r) T R = Inr mth"
  shows "\<exists>h. rr_reqrspMap r' mth = Some h \<and> rh_payloadCodec h = mm_payloadCodec (rr_methodMgr r) \<and>
    rh_T h = T \<and> rh_R h = R \<and> rh_call h = call \<and> rr_methodMgr r' = rr_methodMgr r"
  using assms
  by (auto simp: RegistReqRspHandler_def NewReqRspInvoker_def verifyReqRespMethod_def Let_def
      split: prod.splits if_splits)

lemma method_name_not_empty: "autoMethodName [Some T, Some R] \<noteq> []"
  by simp

text \<open>Registering a method makes its invoker and handler possible, and cannot be repeated.\<close>

lemma RegisterReqRspMethod_enables:
  assumes "RegisterReqRspMethod mgr T R = (None, mgr')"
  shows "NewReqRspInvoker mgr' T R = Inr (autoMethodName [Some (PtrTo T), Some (PtrTo R)])"
    and "rr_methodMgr r = mgr' \<Longrightarrow> fst (RegistReqRspHandler r T R call) = None"
    and "RegisterReqRspMethod mgr' T R = (Some ErrRpcMethodAlreadyRegistered, mgr')"
proof -
  let ?n2 = "autoMethodName [Some (PtrTo T), Some (PtrTo R)]" and ?n1 = "autoMethodName [Some T, Some R]"
  have m: "method2typeReqRsp mgr' ?n2 \<noteq> None" "method2typeReqRsp mgr' ?n1 \<noteq> None"
    using assms by (auto simp: RegisterReqRspMethod_def newReqResp_def Let_def split: if_splits)
  show "NewReqRspInvoker mgr' T R = Inr ?n2"
    using m(1) method_name_not_empty [of "PtrTo T" "PtrTo R"]
    by (auto simp: NewReqRspInvoker_def verifyReqRespMethod_def getMethodReqRsp_def Let_def)
  show "rr_methodMgr r = mgr' \<Longrightarrow> fst (RegistReqRspHandler r T R call) = None"
    using m(1) method_name_not_empty [of "PtrTo T" "PtrTo R"]
    by (auto simp: RegistReqRspHandler_def getMethodReqRsp_def Let_def)
  show "RegisterReqRspMethod mgr' T R = (Some ErrRpcMethodAlreadyRegistered, mgr')"
    using m(2) by (simp add: RegisterReqRspMethod_def newReqResp_def)
qed

text \<open>
  Only the names count: types of other packages with the same names pass for the registered ones,
  for the invoker and, since the handler maps are keyed by the name too, for the handler.
\<close>

lemma NewReqRspInvoker_namesakes:
  assumes "unqualified T = unqualified T'" "unqualified R = unqualified R'"
  shows "NewReqRspInvoker mgr (Named T) (Named R) = NewReqRspInvoker mgr (Named T') (Named R')"
  using assms by (simp add: NewReqRspInvoker_def verifyReqRespMethod_def getMethodReqRsp_def)

subsection \<open>The round trip of a call\<close>

text \<open>
  C31: a remote call gives what the handler gives. For methods registered on both sides, any stream
  the constructor accepts and codecs that carry the request and the answer within the maximum packet
  size: the packet \<open>EncodeRpcFrame\<close> makes is answered by \<open>OnRaw\<close> of the receiver with one packet;
  \<open>OnRaw\<close> of the caller's side delivers that packet under the id of the request, and \<open>doReturn\<close> turns it
  into the response the handler computed from the decoded request, the deadline and the connection,
  or, when the handler failed, into an error with the text of the handler's error. Neither side
  counts an internal error.
\<close>

theorem rpc_call_returns:
  assumes valid: "valid_stream (mm_streamTool mgr)" and i: "i \<noteq> 0"
    and inv: "NewReqRspInvoker mgr T R = Inr mth"
    and server: "rr_methodMgr r = mgr" "RegistReqRspHandler r T R call = (None, r')"
    and client: "rr_methodMgr c = mgr"
    and req: "payload_carries mgr T req pb" "frame_ok mgr (request_frame i dl mth pb)"
    and answer: "case call (deadlineCtx dl) req conn of
        Inr resp \<Rightarrow> payload_carries mgr R resp rb \<and> frame_ok mgr (response_frame i mth rb)
      | Inl err \<Rightarrow> frame_ok mgr (failed_frame i mth ErrorCodeMethodRetErr (callFailedText @ errText err))"
  shows "\<exists>packet reply fr.
    EncodeRpcFrame mgr FrameTypeRequest i mth (AnyPtr T req) dl = ret (Inr packet) \<and>
    OnRaw errText r' conn packet sst = ret \<lparr>rx_reply = Some reply, rx_deliver = None, rx_oneway = [], rx_stats = sst\<rparr> \<and>
    OnRaw errText c conn' reply (Some cst) =
      ret \<lparr>rx_reply = None, rx_deliver = Some fr, rx_oneway = [], rx_stats = Some cst\<rparr> \<and>
    fr_ID fr = i \<and>
    doReturn mgr R fr cst = (case call (deadlineCtx dl) req conn of
        Inr resp \<Rightarrow> (Inr resp, AddRequestSuccess cst)
      | Inl err \<Rightarrow> (Inl (ErrText (callFailedText @ errText err)), AddRequestError cst))"
proof -
  obtain h where h: "rr_reqrspMap r' mth = Some h" "rh_payloadCodec h = mm_payloadCodec mgr" "rh_T h = T" "rh_R h = R"
    "rh_call h = call" "rr_methodMgr r' = mgr"
    using registered_handler [OF server(2)] inv server(1) by auto
  obtain packet where p: "EncodeRpcFrame mgr FrameTypeRequest i mth (AnyPtr T req) dl = ret (Inr packet)"
    "read_frame mgr packet = Inr (request_frame i dl mth pb)"
    using request_encoded [OF valid i req] by blast
  define fr where "fr = (case call (deadlineCtx dl) req conn of
        Inr resp \<Rightarrow> response_frame i mth rb
      | Inl err \<Rightarrow> failed_frame i mth ErrorCodeMethodRetErr (callFailedText @ errText err))"
  obtain reply where q: "dealReqResp errText r' (request_frame i dl mth pb) conn = ret (Some reply)"
    "read_frame mgr reply = Inr fr"
    using answer_call [OF valid h(6) i h(1-4) req(1), where dl = dl and conn = conn and rb = rb and errText = errText] answer h(5) unfolding fr_def by auto
  have fr: "fr_T fr = FrameTypeResponse" "fr_ID fr = i"
    by (auto simp: fr_def response_frame_def failed_frame_def split: sum.splits)
  have "OnRaw errText r' conn packet sst = ret \<lparr>rx_reply = Some reply, rx_deliver = None, rx_oneway = [], rx_stats = sst\<rparr>"
    using p(2) h(6) q(1) by (intro request_dealt) (auto simp: request_frame_def)
  moreover have "OnRaw errText c conn' reply (Some cst) =
      ret \<lparr>rx_reply = None, rx_deliver = Some fr, rx_oneway = [], rx_stats = Some cst\<rparr>"
    using q(2) client fr(1) by (intro response_delivered) auto
  moreover have "doReturn mgr R fr cst = (case call (deadlineCtx dl) req conn of
        Inr resp \<Rightarrow> (Inr resp, AddRequestSuccess cst)
      | Inl err \<Rightarrow> (Inl (ErrText (callFailedText @ errText err)), AddRequestError cst))"
    using answer doReturn_failed [of ErrorCodeMethodRetErr "callFailedText @ errText err" for err] texts_not_empty
    by (auto simp: fr_def doReturn_response error_codes split: sum.splits)
  ultimately show ?thesis using p(1) fr(2) by blast
qed

text \<open>A concrete manager: numbers as payloads, with codecs for the frames of one call.\<close>

definition number_codec :: "nat icodec" where
  "number_codec = \<lparr>bc_MarshalAppend = (\<lambda>v off. ret (Inr (replicate off 0))), bc_Unmarshal = (\<lambda>b d. Inr (unat (hd b))),
     ic_Marshal = (\<lambda>v. case v of AnyPtr t n \<Rightarrow> Inr [of_nat n] | _ \<Rightarrow> Inl ErrPktEncodeFailed)\<rparr>"

definition two_frames_codec :: "Frame \<Rightarrow> Frame \<Rightarrow> Frame body_codec" where
  "two_frames_codec f g =
     \<lparr>bc_MarshalAppend = (\<lambda>v off. ret (Inr (replicate off 0 @ [if v = AnyPtr frame_type f then 1 else 2]))),
      bc_Unmarshal = (\<lambda>b d. Inr (if b = [1] then f else g))\<rparr>"

definition sample_mgr :: "nat MethodManager" where
  "sample_mgr = snd (RegisterReqRspMethod
     (NewMethodManager (Some sample_stream)
       (Some (two_frames_codec (request_frame 7 0 ''Add_Sum'' [5]) (response_frame 7 ''Add_Sum'' [6])))
       (Some number_codec) sample_stream (two_frames_codec zero_Frame zero_Frame) number_codec)
     (Named ''calc.Add'') (Named ''calc.Sum''))"

definition sample_server :: "nat RpcReceiver" where
  "sample_server = snd (RegistReqRspHandler (NewRpcReceiver DefaultRpcOption sample_mgr)
     (Named ''calc.Add'') (Named ''calc.Sum'') (\<lambda>dl n conn. Inr (n + 1)))"

definition zero_RpcStats :: RpcStats where
  "zero_RpcStats = \<lparr>rs_requestsTotal = 0, rs_requestsSuccess = 0, rs_requestsError = 0, rs_requestsTimeout = 0,
     rs_requestsCanceled = 0, rs_onewayTotal = 0, rs_onewayError = 0, rs_internalErrors = 0\<rparr>"

lemma sample_mgr_sel:
  "mm_streamTool sample_mgr = sample_stream" "mm_payloadCodec sample_mgr = number_codec"
  "mm_frameCodec sample_mgr = two_frames_codec (request_frame 7 0 ''Add_Sum'' [5]) (response_frame 7 ''Add_Sum'' [6])"
  "NewReqRspInvoker sample_mgr (Named ''calc.Add'') (Named ''calc.Sum'') = Inr ''Add_Sum''"
  by (simp_all add: sample_mgr_def RegisterReqRspMethod_def newReqResp_def NewMethodManager_def Let_def unqualified_def
      NewReqRspInvoker_def verifyReqRespMethod_def getMethodReqRsp_def)

lemma sample_frames:
  "frame_ok sample_mgr (request_frame 7 0 ''Add_Sum'' [5])" "frame_ok sample_mgr (response_frame 7 ''Add_Sum'' [6])"
  by (auto simp: frame_ok_def sample_mgr_sel codec_carries_def two_frames_codec_def sample_stream_def request_frame_def
      response_frame_def frame_types intro!: exI [of _ "[1]"] exI [of _ "[2]"])

lemma sample_server_registered:
  "RegistReqRspHandler (NewRpcReceiver DefaultRpcOption sample_mgr) (Named ''calc.Add'') (Named ''calc.Sum'')
     (\<lambda>dl n conn. Inr (n + 1)) = (None, sample_server)"
proof -
  obtain x where "getMethodReqRsp sample_mgr (PtrTo (Named ''calc.Add'')) (PtrTo (Named ''calc.Sum'')) = (''Add_Sum'', x)"
    using sample_mgr_sel(4)
    by (cases "getMethodReqRsp sample_mgr (PtrTo (Named ''calc.Add'')) (PtrTo (Named ''calc.Sum''))")
      (auto simp: NewReqRspInvoker_def verifyReqRespMethod_def Let_def split: if_splits)
  then show ?thesis
    by (simp add: sample_server_def RegistReqRspHandler_def NewRpcReceiver_def Let_def)
qed

lemma rpc_call_returns_witness:
  "\<exists>packet reply fr.
    EncodeRpcFrame sample_mgr FrameTypeRequest 7 ''Add_Sum'' (AnyPtr (Named ''calc.Add'') 5) 0 = ret (Inr packet) \<and>
    OnRaw (\<lambda>e. ''error'') sample_server 3 packet None =
      ret \<lparr>rx_reply = Some reply, rx_deliver = None, rx_oneway = [], rx_stats = None\<rparr> \<and>
    OnRaw (\<lambda>e. ''error'') (NewRpcReceiver DefaultRpcOption sample_mgr) 0 reply (Some zero_RpcStats) =
      ret \<lparr>rx_reply = None, rx_deliver = Some fr, rx_oneway = [], rx_stats = Some zero_RpcStats\<rparr> \<and>
    fr_ID fr = 7 \<and>
    doReturn sample_mgr (Named ''calc.Sum'') fr zero_RpcStats = (Inr 6, AddRequestSuccess zero_RpcStats)"
proof -
  have v: "valid_stream (mm_streamTool sample_mgr)" using sample_stream_valid sample_mgr_sel(1) by simp
  have r: "rr_methodMgr (NewRpcReceiver DefaultRpcOption sample_mgr) = sample_mgr" by (simp add: NewRpcReceiver_def)
  have p: "payload_carries sample_mgr (Named ''calc.Add'') 5 [5]" "payload_carries sample_mgr (Named ''calc.Sum'') 6 [6]"
    by (simp_all add: payload_carries_def sample_mgr_sel number_codec_def)
  show ?thesis
    using rpc_call_returns [OF v _ sample_mgr_sel(4) r sample_server_registered r p(1), where i = 7 and dl = 0 and conn = 3
        and rb = "[6]" and errText = "\<lambda>e. ''error''" and sst = None and conn' = 0 and cst = zero_RpcStats]
      p(2) sample_frames by simp
qed

end
