(* ===== verification/RpcPending.thy ===== *)
theory RpcPending
  imports RpcFrame "HOL-Library.AList"
begin

section \<open>Pending calls\<close>

text \<open>
  src/remotes/kkrpc/pending.go and the way \<open>Invoke\<close> and \<open>InvokeAsync\<close> (invoker_reqrsp.go) use it, as
  a system of interleaved threads: callers, the goroutines of their timers, the receivers that deliver
  responses, and \<open>closeAll\<close>. One step is one atomic operation, one section under the lock of a shard,
  or one channel operation. Channels have capacity 1 and are recycled through \<open>chanFramePool\<close>: a
  channel is an address of \<open>rs_cells\<close>, a table an association list, the pool a list from which any element may be taken, or none.
  What the network and the clock decide is the \<open>choice\<close> of a step. A callback is known by the thread
  whose call it belongs to; running it is one step, as the entry of its id has left the table.
\<close>

type_synonym reqid = "64 word"
type_synonym chan = nat

record pendingShard =
  chMap :: "(reqid \<times> chan) list"
  cbMap :: "(reqid \<times> nat) list"

definition newPendingShard :: pendingShard where
  "newPendingShard = \<lparr>chMap = [], cbMap = []\<rparr>"

definition pendingShardCount :: nat where "pendingShardCount = 64"

record pendingMap =
  maxPendingCount :: int
  curPendingCount :: int
  pm_closed :: bool
  shards :: "nat \<Rightarrow> pendingShard"

definition newPendingMap :: "int \<Rightarrow> pendingMap" where
  "newPendingMap m = \<lparr>maxPendingCount = m, curPendingCount = 0, pm_closed = False, shards = (\<lambda>i. newPendingShard)\<rparr>"

definition shard_of :: "reqid \<Rightarrow> nat" where
  "shard_of i = unat i mod pendingShardCount"

definition IsClosed :: "pendingMap \<Rightarrow> bool" where
  "IsClosed p = pm_closed p"

definition add_cur :: "int \<Rightarrow> pendingMap \<Rightarrow> pendingMap" where
  "add_cur d p = p\<lparr>curPendingCount := curPendingCount p + d\<rparr>"

definition upd_shard :: "reqid \<Rightarrow> (pendingShard \<Rightarrow> pendingShard) \<Rightarrow> pendingMap \<Rightarrow> pendingMap" where
  "upd_shard i f p = p\<lparr>shards := (shards p)(shard_of i := f (shards p (shard_of i)))\<rparr>"

definition ch_at :: "pendingMap \<Rightarrow> reqid \<Rightarrow> chan option" where
  "ch_at p i = map_of (chMap (shards p (shard_of i))) i"

definition cb_at :: "pendingMap \<Rightarrow> reqid \<Rightarrow> nat option" where
  "cb_at p i = map_of (cbMap (shards p (shard_of i))) i"

subsection \<open>The sections under the lock\<close>

definition set_ch :: "reqid \<Rightarrow> chan \<Rightarrow> pendingMap \<Rightarrow> pendingMap" where
  "set_ch i c = upd_shard i (\<lambda>s. s\<lparr>chMap := AList.update i c (chMap s)\<rparr>)"

definition drop_ch :: "reqid \<Rightarrow> pendingMap \<Rightarrow> pendingMap" where
  "drop_ch i = upd_shard i (\<lambda>s. s\<lparr>chMap := AList.delete i (chMap s)\<rparr>)"

definition set_cb :: "reqid \<Rightarrow> nat \<Rightarrow> pendingMap \<Rightarrow> pendingMap" where
  "set_cb i t = upd_shard i (\<lambda>s. s\<lparr>cbMap := AList.update i t (cbMap s)\<rparr>)"

definition drop_cb :: "reqid \<Rightarrow> pendingMap \<Rightarrow> pendingMap" where
  "drop_cb i = upd_shard i (\<lambda>s. s\<lparr>cbMap := AList.delete i (cbMap s)\<rparr>)"

subsection \<open>Threads\<close>

text \<open>\<open>TimedOut\<close> is \<open>ErrRpcTimeout\<close>, \<open>Canceled\<close> the error of the context.\<close>

datatype outcome = Reply Frame | Fail kkerror | Canceled | TimedOut

text \<open>
  A synchronous call: \<open>addCh\<close> is \<open>SOpen\<close> to \<open>SUndo\<close>; \<open>SWait\<close> is the select; the deferred function is
  \<open>SDel\<close> (the locked part of \<open>delCh\<close>), then \<open>SDrain\<close> and \<open>SDec\<close> (its rest, when the entry was there) or
  \<open>SSel\<close> (the select over a channel someone else removed).
\<close>

datatype sync_pc =
    SEnter | SOpen reqid | SCount reqid | SInc reqid | SLock reqid | SUndo reqid
  | SSend reqid chan | SWait reqid chan
  | SDel reqid chan outcome | SDrain reqid chan outcome | SDec reqid outcome | SSel reqid chan outcome
  | SDone "reqid option" outcome

text \<open>
  An asynchronous call: \<open>addCallback\<close> is \<open>AOpen\<close> to \<open>AUndo\<close>; a refusal is told to the callback
  (\<open>ARefuse\<close>), and so is a failed send (\<open>AFail\<close>, then \<open>delCallback\<close>); \<open>AWatch\<close> is the goroutine of the
  timer, \<open>ATake\<close> and \<open>ATimeout\<close> its branch when the time is over.
\<close>

datatype async_pc =
    AEnter | AEncode reqid | AOpen reqid | ACount reqid | AInc reqid | ALock reqid | AUndo reqid
  | ARefuse reqid kkerror | ASend reqid | AFail reqid kkerror | AUnput reqid | AUndec reqid | AFailed reqid
  | AWatch reqid | ATake reqid | ATimeout reqid | ADone "reqid option"

datatype deliver_pc = DEnter Frame | DDec Frame "chan option" "nat option" | DSend Frame "chan option" "nat option" | DDone

datatype close_pc = CEnter | CShard nat "(reqid \<times> nat) list" | CStore "(reqid \<times> nat) list" | CCall "(reqid \<times> nat) list" | CDone

datatype thread = Idle | Sync sync_pc | Async async_pc | Deliver deliver_pc | Closer close_pc | Panicked

datatype choice = Go | Err kkerror | Cancel | Timer | Pick nat | Call reqid

record cell =
  buf :: "Frame option"
  shut :: bool

definition new_cell :: cell where
  "new_cell = \<lparr>buf = None, shut = False\<rparr>"

record rpc_sys =
  rs_pend :: pendingMap
  rs_cells :: "chan \<Rightarrow> cell"
  rs_fresh :: nat
  rs_pool :: "chan list"
  rs_gen :: nat
  rs_threads :: "nat \<Rightarrow> thread"
  rs_done :: "nat \<Rightarrow> bool"
  rs_notes :: "(nat \<times> outcome) list"

definition rpc_init :: "int \<Rightarrow> rpc_sys" where
  "rpc_init m = \<lparr>rs_pend = newPendingMap m, rs_cells = (\<lambda>c. new_cell), rs_fresh = 0, rs_pool = [], rs_gen = 0,
     rs_threads = (\<lambda>t. Idle), rs_done = (\<lambda>t. False), rs_notes = []\<rparr>"

definition goto :: "nat \<Rightarrow> thread \<Rightarrow> rpc_sys \<Rightarrow> rpc_sys" where
  "goto t x s = s\<lparr>rs_threads := (rs_threads s)(t := x)\<rparr>"

definition on_pend :: "(pendingMap \<Rightarrow> pendingMap) \<Rightarrow> rpc_sys \<Rightarrow> rpc_sys" where
  "on_pend f s = s\<lparr>rs_pend := f (rs_pend s)\<rparr>"

definition set_buf :: "chan \<Rightarrow> Frame option \<Rightarrow> rpc_sys \<Rightarrow> rpc_sys" where
  "set_buf c b s = s\<lparr>rs_cells := (rs_cells s)(c := (rs_cells s c)\<lparr>buf := b\<rparr>)\<rparr>"

definition pool_put :: "chan \<Rightarrow> rpc_sys \<Rightarrow> rpc_sys" where
  "pool_put c s = s\<lparr>rs_pool := rs_pool s @ [c]\<rparr>"

text \<open>\<open>chanFramePool.Get\<close>: the \<open>k\<close>-th of the pooled channels, or a new one.\<close>

definition pool_get :: "nat \<Rightarrow> rpc_sys \<Rightarrow> chan \<times> rpc_sys" where
  "pool_get k s =
     (if k < length (rs_pool s) then (rs_pool s ! k, s\<lparr>rs_pool := take k (rs_pool s) @ drop (Suc k) (rs_pool s)\<rparr>)
      else (rs_fresh s, s\<lparr>rs_fresh := Suc (rs_fresh s), rs_cells := (rs_cells s)(rs_fresh s := new_cell)\<rparr>))"

definition genReqId :: "rpc_sys \<Rightarrow> reqid \<times> rpc_sys" where
  "genReqId s = (word_of_nat (Suc (rs_gen s)), s\<lparr>rs_gen := Suc (rs_gen s)\<rparr>)"

definition notify :: "nat \<Rightarrow> outcome \<Rightarrow> rpc_sys \<Rightarrow> rpc_sys" where
  "notify t r s = s\<lparr>rs_notes := rs_notes s @ [(t, r)]\<rparr>"

subsection \<open>Steps\<close>

text \<open>A synchronous call. The send is its own step, with the result \<open>Err\<close> of encoding or sending.\<close>

definition addCh_do :: "nat \<Rightarrow> sync_pc \<Rightarrow> choice \<Rightarrow> rpc_sys \<Rightarrow> rpc_sys option" where
  "addCh_do t pc ch s =
     (let p = rs_pend s; go = (\<lambda>x. goto t (Sync x)) in
      case pc of
        SOpen i \<Rightarrow> Some (go (if pm_closed p then SDone (Some i) (Fail ErrRpcClosed) else SCount i) s)
      | SCount i \<Rightarrow> Some (go (if curPendingCount p \<ge> maxPendingCount p then SDone (Some i) (Fail ErrRpcQueueFull) else SInc i) s)
      | SInc i \<Rightarrow> Some (go (SLock i) (on_pend (add_cur 1) s))
      | SLock i \<Rightarrow>
          if pm_closed p then Some (go (SUndo i) s)
          else (case ch of
                  Pick k \<Rightarrow> (case pool_get k s of (c, s) \<Rightarrow> Some (go (SSend i c) (on_pend (set_ch i c) s)))
                | _ \<Rightarrow> None)
      | SUndo i \<Rightarrow> Some (go (SDone (Some i) (Fail ErrRpcClosed)) (on_pend (add_cur (- 1)) s))
      | _ \<Rightarrow> None)"

definition delCh_do :: "nat \<Rightarrow> sync_pc \<Rightarrow> rpc_sys \<Rightarrow> rpc_sys option" where
  "delCh_do t pc s =
     (let p = rs_pend s; go = (\<lambda>x. goto t (Sync x)) in
      case pc of
        SDel i c r \<Rightarrow>
          (case ch_at p i of
             Some removed \<Rightarrow> Some (go (SDrain i removed r) (on_pend (drop_ch i) s))
           | None \<Rightarrow> Some (go (SSel i c r) (on_pend (drop_ch i) s)))
      | SDrain i c r \<Rightarrow> Some (go (SDec i r) (pool_put c (set_buf c None s)))
      | SDec i r \<Rightarrow> Some (go (SDone (Some i) r) (on_pend (add_cur (- 1)) s))
      | _ \<Rightarrow> None)"

text \<open>What the deferred function does with a channel that \<open>delCh\<close> did not find.\<close>

definition give_back :: "nat \<Rightarrow> reqid \<Rightarrow> chan \<Rightarrow> outcome \<Rightarrow> rpc_sys \<Rightarrow> rpc_sys" where
  "give_back t i c r s =
     (if buf (rs_cells s c) \<noteq> None then goto t (Sync (SDone (Some i) r)) (pool_put c (set_buf c None s))
      else if shut (rs_cells s c) then goto t (Sync (SDone (Some i) r)) s
      else goto t (Sync (SDone (Some i) r)) (pool_put c s))"

text \<open>The select of a synchronous call.\<close>

definition await :: "nat \<Rightarrow> reqid \<Rightarrow> chan \<Rightarrow> choice \<Rightarrow> rpc_sys \<Rightarrow> rpc_sys option" where
  "await t i c ch s =
     (let go = (\<lambda>x. goto t (Sync x)) in
      case ch of
        Go \<Rightarrow> (case buf (rs_cells s c) of
                 Some fr \<Rightarrow> Some (go (SDel i c (Reply fr)) (set_buf c None s))
               | None \<Rightarrow> if shut (rs_cells s c) then Some (go (SDel i c (Fail ErrRpcConnClosed)) s) else None)
      | Cancel \<Rightarrow> Some (go (SDel i c Canceled) s)
      | Timer \<Rightarrow> Some (go (SDel i c TimedOut) s)
      | _ \<Rightarrow> None)"

definition sync_do :: "nat \<Rightarrow> sync_pc \<Rightarrow> choice \<Rightarrow> rpc_sys \<Rightarrow> rpc_sys option" where
  "sync_do t pc ch s =
     (let go = (\<lambda>x. goto t (Sync x)) in
      case pc of
        SEnter \<Rightarrow>
          if IsClosed (rs_pend s) then Some (go (SDone None (Fail ErrRpcConnClosed)) s)
          else (case genReqId s of (i, s) \<Rightarrow> Some (go (SOpen i) s))
      | SSend i c \<Rightarrow> (case ch of Go \<Rightarrow> Some (go (SWait i c) s) | Err e \<Rightarrow> Some (go (SDel i c (Fail e)) s) | _ \<Rightarrow> None)
      | SWait i c \<Rightarrow> await t i c ch s
      | SDel i c r \<Rightarrow> delCh_do t pc s
      | SDrain i c r \<Rightarrow> delCh_do t pc s
      | SDec i r \<Rightarrow> delCh_do t pc s
      | SSel i c r \<Rightarrow> Some (give_back t i c r s)
      | SDone i r \<Rightarrow> None
      | _ \<Rightarrow> addCh_do t pc ch s)"

text \<open>All the steps of a synchronous call in one equation.\<close>

lemma sync_do_eq:
  "sync_do t pc ch s =
     (let p = rs_pend s; go = (\<lambda>x. goto t (Sync x)) in
      case pc of
        SEnter \<Rightarrow>
          if IsClosed p then Some (go (SDone None (Fail ErrRpcConnClosed)) s)
          else (case genReqId s of (i, s) \<Rightarrow> Some (go (SOpen i) s))
      | SOpen i \<Rightarrow> Some (go (if pm_closed p then SDone (Some i) (Fail ErrRpcClosed) else SCount i) s)
      | SCount i \<Rightarrow> Some (go (if curPendingCount p \<ge> maxPendingCount p then SDone (Some i) (Fail ErrRpcQueueFull) else SInc i) s)
      | SInc i \<Rightarrow> Some (go (SLock i) (on_pend (add_cur 1) s))
      | SLock i \<Rightarrow>
          if pm_closed p then Some (go (SUndo i) s)
          else (case ch of
                  Pick k \<Rightarrow> (case pool_get k s of (c, s) \<Rightarrow> Some (go (SSend i c) (on_pend (set_ch i c) s)))
                | _ \<Rightarrow> None)
      | SUndo i \<Rightarrow> Some (go (SDone (Some i) (Fail ErrRpcClosed)) (on_pend (add_cur (- 1)) s))
      | SSend i c \<Rightarrow> (case ch of Go \<Rightarrow> Some (go (SWait i c) s) | Err e \<Rightarrow> Some (go (SDel i c (Fail e)) s) | _ \<Rightarrow> None)
      | SWait i c \<Rightarrow>
          (case ch of
             Go \<Rightarrow> (case buf (rs_cells s c) of
                      Some fr \<Rightarrow> Some (go (SDel i c (Reply fr)) (set_buf c None s))
                    | None \<Rightarrow> if shut (rs_cells s c) then Some (go (SDel i c (Fail ErrRpcConnClosed)) s) else None)
           | Cancel \<Rightarrow> Some (go (SDel i c Canceled) s)
           | Timer \<Rightarrow> Some (go (SDel i c TimedOut) s)
           | _ \<Rightarrow> None)
      | SDel i c r \<Rightarrow>
          (case ch_at p i of
             Some removed \<Rightarrow> Some (go (SDrain i removed r) (on_pend (drop_ch i) s))
           | None \<Rightarrow> Some (go (SSel i c r) (on_pend (drop_ch i) s)))
      | SDrain i c r \<Rightarrow> Some (go (SDec i r) (pool_put c (set_buf c None s)))
      | SDec i r \<Rightarrow> Some (go (SDone (Some i) r) (on_pend (add_cur (- 1)) s))
      | SSel i c r \<Rightarrow>
          if buf (rs_cells s c) \<noteq> None then Some (go (SDone (Some i) r) (pool_put c (set_buf c None s)))
          else if shut (rs_cells s c) then Some (go (SDone (Some i) r) s)
          else Some (go (SDone (Some i) r) (pool_put c s))
      | SDone i r \<Rightarrow> None)"
  by (cases pc) (simp_all add: sync_do_def addCh_do_def delCh_do_def give_back_def await_def Let_def)

text \<open>
  An asynchronous call. \<open>AWatch\<close> goes on when the time is over (\<open>Timer\<close>) or \<open>doneCh\<close> is closed (\<open>Go\<close>).
  \<open>takeCallback\<close> does not touch the count.
\<close>

definition addCallback_do :: "nat \<Rightarrow> async_pc \<Rightarrow> rpc_sys \<Rightarrow> rpc_sys option" where
  "addCallback_do t pc s =
     (let p = rs_pend s; go = (\<lambda>x. goto t (Async x)) in
      case pc of
        AOpen i \<Rightarrow> Some (go (if pm_closed p then ARefuse i ErrRpcClosed else ACount i) s)
      | ACount i \<Rightarrow> Some (go (if curPendingCount p \<ge> maxPendingCount p then ARefuse i ErrRpcQueueFull else AInc i) s)
      | AInc i \<Rightarrow> Some (go (ALock i) (on_pend (add_cur 1) s))
      | ALock i \<Rightarrow> if pm_closed p then Some (go (AUndo i) s) else Some (go (ASend i) (on_pend (set_cb i t) s))
      | AUndo i \<Rightarrow> Some (go (ARefuse i ErrRpcClosed) (on_pend (add_cur (- 1)) s))
      | _ \<Rightarrow> None)"

definition delCallback_do :: "nat \<Rightarrow> async_pc \<Rightarrow> rpc_sys \<Rightarrow> rpc_sys option" where
  "delCallback_do t pc s =
     (let go = (\<lambda>x. goto t (Async x)) in
      case pc of
        AUnput i \<Rightarrow> Some (go (if cb_at (rs_pend s) i \<noteq> None then AUndec i else AFailed i) (on_pend (drop_cb i) s))
      | AUndec i \<Rightarrow> Some (go (AFailed i) (on_pend (add_cur (- 1)) s))
      | _ \<Rightarrow> None)"

definition takeCallback_do :: "nat \<Rightarrow> reqid \<Rightarrow> rpc_sys \<Rightarrow> rpc_sys" where
  "takeCallback_do t i s =
     goto t (Async (if cb_at (rs_pend s) i \<noteq> None then ATimeout i else ADone (Some i))) (on_pend (drop_cb i) s)"

text \<open>The goroutine of the timer.\<close>

definition watch :: "nat \<Rightarrow> async_pc \<Rightarrow> choice \<Rightarrow> rpc_sys \<Rightarrow> rpc_sys option" where
  "watch t pc ch s =
     (let go = (\<lambda>x. goto t (Async x)) in
      case pc of
        AWatch i \<Rightarrow>
          (case ch of
             Timer \<Rightarrow> Some (go (ATake i) s)
           | Go \<Rightarrow> if rs_done s t then Some (go (ADone (Some i)) s) else None
           | _ \<Rightarrow> None)
      | ATake i \<Rightarrow> Some (takeCallback_do t i s)
      | ATimeout i \<Rightarrow> Some (go (ADone (Some i)) (notify t TimedOut s))
      | _ \<Rightarrow> None)"

definition async_do :: "nat \<Rightarrow> async_pc \<Rightarrow> choice \<Rightarrow> rpc_sys \<Rightarrow> rpc_sys option" where
  "async_do t pc ch s =
     (let go = (\<lambda>x. goto t (Async x)) in
      case pc of
        AEnter \<Rightarrow>
          if IsClosed (rs_pend s) then Some (go (ADone None) s)
          else (case genReqId s of (i, s) \<Rightarrow> Some (go (AEncode i) s))
      | AEncode i \<Rightarrow> (case ch of Go \<Rightarrow> Some (go (AOpen i) s) | Err e \<Rightarrow> Some (go (ADone (Some i)) s) | _ \<Rightarrow> None)
      | ARefuse i e \<Rightarrow> Some (go (ADone (Some i)) (notify t (Fail e) s))
      | ASend i \<Rightarrow> (case ch of Go \<Rightarrow> Some (go (AWatch i) s) | Err e \<Rightarrow> Some (go (AFail i e) s) | _ \<Rightarrow> None)
      | AFail i e \<Rightarrow> Some (go (AUnput i) (notify t (Fail e) s))
      | AUnput i \<Rightarrow> delCallback_do t pc s
      | AUndec i \<Rightarrow> delCallback_do t pc s
      | AWatch i \<Rightarrow> watch t pc ch s
      | ATake i \<Rightarrow> watch t pc ch s
      | ATimeout i \<Rightarrow> watch t pc ch s
      | AFailed i \<Rightarrow> None
      | ADone i \<Rightarrow> None
      | _ \<Rightarrow> addCallback_do t pc s)"

text \<open>All the steps of an asynchronous call in one equation.\<close>

lemma async_do_eq:
  "async_do t pc ch s =
     (let p = rs_pend s; go = (\<lambda>x. goto t (Async x)) in
      case pc of
        AEnter \<Rightarrow> if IsClosed p then Some (go (ADone None) s) else (case genReqId s of (i, s) \<Rightarrow> Some (go (AEncode i) s))
      | AEncode i \<Rightarrow> (case ch of Go \<Rightarrow> Some (go (AOpen i) s) | Err e \<Rightarrow> Some (go (ADone (Some i)) s) | _ \<Rightarrow> None)
      | AOpen i \<Rightarrow> Some (go (if pm_closed p then ARefuse i ErrRpcClosed else ACount i) s)
      | ACount i \<Rightarrow> Some (go (if curPendingCount p \<ge> maxPendingCount p then ARefuse i ErrRpcQueueFull else AInc i) s)
      | AInc i \<Rightarrow> Some (go (ALock i) (on_pend (add_cur 1) s))
      | ALock i \<Rightarrow> if pm_closed p then Some (go (AUndo i) s) else Some (go (ASend i) (on_pend (set_cb i t) s))
      | AUndo i \<Rightarrow> Some (go (ARefuse i ErrRpcClosed) (on_pend (add_cur (- 1)) s))
      | ARefuse i e \<Rightarrow> Some (go (ADone (Some i)) (notify t (Fail e) s))
      | ASend i \<Rightarrow> (case ch of Go \<Rightarrow> Some (go (AWatch i) s) | Err e \<Rightarrow> Some (go (AFail i e) s) | _ \<Rightarrow> None)
      | AFail i e \<Rightarrow> Some (go (AUnput i) (notify t (Fail e) s))
      | AUnput i \<Rightarrow> Some (go (if cb_at p i \<noteq> None then AUndec i else AFailed i) (on_pend (drop_cb i) s))
      | AUndec i \<Rightarrow> Some (go (AFailed i) (on_pend (add_cur (- 1)) s))
      | AFailed i \<Rightarrow> None
      | AWatch i \<Rightarrow>
          (case ch of
             Timer \<Rightarrow> Some (go (ATake i) s)
           | Go \<Rightarrow> if rs_done s t then Some (go (ADone (Some i)) s) else None
           | _ \<Rightarrow> None)
      | ATake i \<Rightarrow> Some (go (if cb_at p i \<noteq> None then ATimeout i else ADone (Some i)) (on_pend (drop_cb i) s))
      | ATimeout i \<Rightarrow> Some (go (ADone (Some i)) (notify t TimedOut s))
      | ADone i \<Rightarrow> None)"
  by (cases pc) (simp_all add: async_do_def addCallback_do_def delCallback_do_def takeCallback_do_def watch_def Let_def)

text \<open>
  The closure given to \<open>addCallback\<close> by the call \<open>u\<close> with id \<open>i\<close>, run by the thread \<open>t\<close>, which then goes
  to \<open>x\<close>. Closing \<open>doneCh\<close> twice would panic.
\<close>

definition run_callback :: "nat \<Rightarrow> thread \<Rightarrow> nat \<Rightarrow> reqid \<Rightarrow> Frame \<Rightarrow> rpc_sys \<Rightarrow> rpc_sys" where
  "run_callback t x u i fr s =
     (if fr_ID fr \<noteq> i \<or> fr_T fr \<noteq> FrameTypeResponse then goto t x s
      else let found = cb_at (rs_pend s) i \<noteq> None;
               s = on_pend (drop_cb i) s;
               s = (if found then on_pend (add_cur (- 1)) s else s)
           in if rs_done s u then goto t Panicked s
              else goto t x (notify u (Reply fr) (s\<lparr>rs_done := (rs_done s)(u := True)\<rparr>)))"

fun async_id :: "async_pc \<Rightarrow> reqid option" where
  "async_id AEnter = None"
| "async_id (AEncode i) = Some i"
| "async_id (AOpen i) = Some i"
| "async_id (ACount i) = Some i"
| "async_id (AInc i) = Some i"
| "async_id (ALock i) = Some i"
| "async_id (AUndo i) = Some i"
| "async_id (ARefuse i e) = Some i"
| "async_id (ASend i) = Some i"
| "async_id (AFail i e) = Some i"
| "async_id (AUnput i) = Some i"
| "async_id (AUndec i) = Some i"
| "async_id (AFailed i) = Some i"
| "async_id (AWatch i) = Some i"
| "async_id (ATake i) = Some i"
| "async_id (ATimeout i) = Some i"
| "async_id (ADone i) = i"

definition own_id :: "rpc_sys \<Rightarrow> nat \<Rightarrow> reqid" where
  "own_id s u = (case rs_threads s u of Async pc \<Rightarrow> the (async_id pc) | _ \<Rightarrow> 0)"

text \<open>\<open>deliver\<close>: the locked part, the count, then the channel or the callback.\<close>

definition deliver_do :: "nat \<Rightarrow> deliver_pc \<Rightarrow> choice \<Rightarrow> rpc_sys \<Rightarrow> rpc_sys option" where
  "deliver_do t pc ch s =
     (let p = rs_pend s; go = (\<lambda>x. goto t (Deliver x)) in
      case pc of
        DEnter fr \<Rightarrow>
          let i = fr_ID fr; c = ch_at p i; fn = cb_at p i
          in Some (go (if c \<noteq> None \<or> fn \<noteq> None then DDec fr c fn else DDone) (on_pend (drop_cb i) (on_pend (drop_ch i) s)))
      | DDec fr c fn \<Rightarrow> Some (go (DSend fr c fn) (on_pend (add_cur (- 1)) s))
      | DSend fr (Some c) fn \<Rightarrow>
          if shut (rs_cells s c) then Some (goto t Panicked s)
          else if buf (rs_cells s c) \<noteq> None then None
          else Some (go DDone (set_buf c (Some fr) s))
      | DSend fr None (Some u) \<Rightarrow> Some (run_callback t (Deliver DDone) u (own_id s u) fr s)
      | DSend fr None None \<Rightarrow> Some (go DDone s)
      | DDone \<Rightarrow> None)"

text \<open>\<open>closeAll\<close>: one step per shard; the callbacks collected are called in any order.\<close>

definition closed_frame :: "reqid \<Rightarrow> Frame" where
  "closed_frame i = (ErrorMsg (zero_Frame\<lparr>fr_T := FrameTypeResponse\<rparr>) ErrorCodeConnClosed ''connection closed'')\<lparr>fr_ID := i\<rparr>"

definition shut_shard :: "nat \<Rightarrow> rpc_sys \<Rightarrow> rpc_sys" where
  "shut_shard k s = s\<lparr>rs_cells := (\<lambda>c. if c \<in> snd ` set (chMap (shards (rs_pend s) k)) then (rs_cells s c)\<lparr>shut := True\<rparr> else rs_cells s c),
     rs_pend := (rs_pend s)\<lparr>shards := (shards (rs_pend s))(k := newPendingShard)\<rparr>\<rparr>"

definition close_do :: "nat \<Rightarrow> close_pc \<Rightarrow> choice \<Rightarrow> rpc_sys \<Rightarrow> rpc_sys option" where
  "close_do t pc ch s =
     (let p = rs_pend s; go = (\<lambda>x. goto t (Closer x)) in
      case pc of
        CEnter \<Rightarrow>
          if pm_closed p then Some (go CDone s)
          else Some (go (CShard 0 []) (s\<lparr>rs_pend := p\<lparr>pm_closed := True\<rparr>\<rparr>))
      | CShard k cbs \<Rightarrow>
          if k \<ge> pendingShardCount then Some (go (CStore cbs) s)
          else if \<exists>c \<in> snd ` set (chMap (shards p k)). shut (rs_cells s c) then Some (goto t Panicked s)
          else Some (go (CShard (Suc k) (cbs @ cbMap (shards p k))) (shut_shard k s))
      | CStore cbs \<Rightarrow> Some (go (CCall cbs) (s\<lparr>rs_pend := p\<lparr>curPendingCount := 0\<rparr>\<rparr>))
      | CCall cbs \<Rightarrow>
          (case ch of
             Call i \<Rightarrow> (case map_of cbs i of
                None \<Rightarrow> None
              | Some u \<Rightarrow> Some (run_callback t (Closer (CCall (AList.delete i cbs))) u (own_id s u) (closed_frame i) s))
           | _ \<Rightarrow> if cbs = [] then Some (go CDone s) else None)
      | CDone \<Rightarrow> None)"

definition rpc_do :: "nat \<Rightarrow> choice \<Rightarrow> rpc_sys \<Rightarrow> rpc_sys option" where
  "rpc_do t ch s =
     (case rs_threads s t of
        Sync pc \<Rightarrow> sync_do t pc ch s
      | Async pc \<Rightarrow> async_do t pc ch s
      | Deliver pc \<Rightarrow> deliver_do t pc ch s
      | Closer pc \<Rightarrow> close_do t pc ch s
      | _ \<Rightarrow> None)"

text \<open>What starts a thread: a call, a response that arrives, or \<open>Stop\<close>.\<close>

definition entry :: "thread \<Rightarrow> bool" where
  "entry x \<longleftrightarrow> (case x of Sync SEnter \<Rightarrow> True | Async AEnter \<Rightarrow> True | Deliver (DEnter fr) \<Rightarrow> True | Closer CEnter \<Rightarrow> True | _ \<Rightarrow> False)"

inductive rpc_reachable :: "int \<Rightarrow> rpc_sys \<Rightarrow> bool" for m where
  init: "rpc_reachable m (rpc_init m)"
| spawn: "rpc_reachable m s \<Longrightarrow> rs_threads s t = Idle \<Longrightarrow> entry x \<Longrightarrow> rpc_reachable m (goto t x s)"
| step: "rpc_reachable m s \<Longrightarrow> rpc_do t ch s = Some s' \<Longrightarrow> rpc_reachable m s'"

end
