(* ===== verification/RpcChans.thy ===== *)
theory RpcChans
  imports RpcPending
begin

section \<open>Pending calls: the channels and who holds them\<close>

text \<open>
  A synchronous call holds its channel until its deferred function ends: while its entry may be in the
  table (\<open>live\<close>), after someone else removed it (\<open>sel\<close>), or after it removed it itself (\<open>drn\<close>). A
  receiver carries a channel between removing the entry and sending the response. The invariant says
  that a channel has one holder, that pooled channels are open, empty and nobody's, and that a
  carried or buffered response belongs to the call that holds the channel. It is kept by every step
  but one: a call that gives up and returns to the pool a channel a receiver still carries
  (\<open>overtakes\<close>).
\<close>

fun live :: "thread \<Rightarrow> (reqid \<times> chan) option" where
  "live (Sync (SSend i c)) = Some (i, c)"
| "live (Sync (SWait i c)) = Some (i, c)"
| "live (Sync (SDel i c r)) = Some (i, c)"
| "live _ = None"

fun sel :: "thread \<Rightarrow> (reqid \<times> chan) option" where
  "sel (Sync (SSel i c r)) = Some (i, c)"
| "sel _ = None"

fun drn :: "thread \<Rightarrow> (reqid \<times> chan) option" where
  "drn (Sync (SDrain i c r)) = Some (i, c)"
| "drn _ = None"

fun carry :: "thread \<Rightarrow> (Frame \<times> chan) option" where
  "carry (Deliver (DDec fr (Some c) fn)) = Some (fr, c)"
| "carry (Deliver (DSend fr (Some c) fn)) = Some (fr, c)"
| "carry _ = None"

fun reply_of :: "thread \<Rightarrow> (reqid \<times> Frame) option" where
  "reply_of (Sync (SDel i c (Reply fr))) = Some (i, fr)"
| "reply_of (Sync (SDrain i c (Reply fr))) = Some (i, fr)"
| "reply_of (Sync (SSel i c (Reply fr))) = Some (i, fr)"
| "reply_of (Sync (SDec i (Reply fr))) = Some (i, fr)"
| "reply_of (Sync (SDone (Some i) (Reply fr))) = Some (i, fr)"
| "reply_of _ = None"

definition waits :: "thread \<Rightarrow> (reqid \<times> chan) option" where
  "waits x = (if live x \<noteq> None then live x else sel x)"

definition hold :: "thread \<Rightarrow> (reqid \<times> chan) option" where
  "hold x = (if waits x \<noteq> None then waits x else drn x)"

definition uncarried :: "(nat \<Rightarrow> thread) \<Rightarrow> chan \<Rightarrow> bool" where
  "uncarried th c \<longleftrightarrow> (\<forall>x fr. carry (th x) \<noteq> Some (fr, c))"

definition chan_ok ::
  "(reqid \<Rightarrow> chan option) \<Rightarrow> (chan \<Rightarrow> cell) \<Rightarrow> nat \<Rightarrow> chan list \<Rightarrow> (nat \<Rightarrow> thread) \<Rightarrow> chan \<Rightarrow> bool" where
  "chan_ok ct cells fresh pool th c \<longleftrightarrow>
     (c \<in> set pool \<longrightarrow> c < fresh \<and> cells c = new_cell) \<and>
     (\<forall>t i. hold (th t) = Some (i, c) \<longrightarrow>
        c < fresh \<and> c \<notin> set pool \<and> (\<forall>u j. hold (th u) = Some (j, c) \<longrightarrow> u = t)) \<and>
     (\<forall>i. ct i = Some c \<longrightarrow> cells c = new_cell \<and> uncarried th c \<and> (\<exists>t. live (th t) = Some (i, c))) \<and>
     (\<forall>x fr. carry (th x) = Some (fr, c) \<longrightarrow> cells c = new_cell \<and> (\<exists>t. waits (th t) = Some (fr_ID fr, c)) \<and>
        (\<forall>y fr'. carry (th y) = Some (fr', c) \<longrightarrow> y = x)) \<and>
     (\<forall>fr. buf (cells c) = Some fr \<longrightarrow> \<not> shut (cells c) \<and> uncarried th c \<and> (\<exists>t. waits (th t) = Some (fr_ID fr, c))) \<and>
     (\<forall>t i. drn (th t) = Some (i, c) \<longrightarrow> cells c = new_cell \<and> uncarried th c)"

definition replies_ok :: "(nat \<Rightarrow> thread) \<Rightarrow> bool" where
  "replies_ok th \<longleftrightarrow> (\<forall>t i fr. reply_of (th t) = Some (i, fr) \<longrightarrow> fr_ID fr = i)"

definition chan_inv ::
  "(reqid \<Rightarrow> chan option) \<Rightarrow> (chan \<Rightarrow> cell) \<Rightarrow> nat \<Rightarrow> chan list \<Rightarrow> (nat \<Rightarrow> thread) \<Rightarrow> bool" where
  "chan_inv ct cells fresh pool th \<longleftrightarrow>
     (\<forall>c. chan_ok ct cells fresh pool th c) \<and> distinct pool \<and> replies_ok th"

lemma new_cell_sel [simp]: "buf new_cell = None" "shut new_cell = False" "new_cell\<lparr>buf := None\<rparr> = new_cell"
  by (simp_all add: new_cell_def)

lemma waits_hold: "waits x = Some y \<Longrightarrow> hold x = Some y"
  by (simp add: hold_def)

lemma live_hold: "live x = Some y \<Longrightarrow> waits x = Some y" "live x = Some y \<Longrightarrow> hold x = Some y"
  by (simp_all add: hold_def waits_def)

lemma no_hold: "hold x = None \<Longrightarrow> waits x = None \<and> live x = None \<and> sel x = None \<and> drn x = None"
  by (cases "live x"; cases "sel x") (simp_all add: hold_def waits_def)

text \<open>What is known of one channel.\<close>

lemma chan_okD:
  assumes "chan_ok ct cells fresh pool th c"
  shows "hold (th t) = Some (i, c) \<Longrightarrow> c < fresh" "hold (th t) = Some (i, c) \<Longrightarrow> c \<notin> set pool"
    and "hold (th t) = Some (i, c) \<Longrightarrow> hold (th u) = Some (j, c) \<Longrightarrow> u = t"
    and "c \<in> set pool \<Longrightarrow> c < fresh" "c \<in> set pool \<Longrightarrow> cells c = new_cell"
    and "ct i = Some c \<Longrightarrow> cells c = new_cell" "ct i = Some c \<Longrightarrow> \<exists>t. live (th t) = Some (i, c)"
    and "ct i = Some c \<Longrightarrow> uncarried th c"
    and "carry (th x) = Some (fr, c) \<Longrightarrow> cells c = new_cell"
    and "carry (th x) = Some (fr, c) \<Longrightarrow> \<exists>t. waits (th t) = Some (fr_ID fr, c)"
    and "carry (th x) = Some (fr, c) \<Longrightarrow> carry (th y) = Some (fr', c) \<Longrightarrow> y = x"
    and "buf (cells c) = Some fr \<Longrightarrow> \<not> shut (cells c)"
    and "buf (cells c) = Some fr \<Longrightarrow> \<exists>t. waits (th t) = Some (fr_ID fr, c)"
    and "buf (cells c) = Some fr \<Longrightarrow> uncarried th c"
    and "drn (th t) = Some (i, c) \<Longrightarrow> cells c = new_cell" "drn (th t) = Some (i, c) \<Longrightarrow> uncarried th c"
  using assms unfolding chan_ok_def by - (elim conjE, blast)+

lemma view_exclusive: "live x \<noteq> None \<Longrightarrow> sel x = None \<and> drn x = None" "sel x \<noteq> None \<Longrightarrow> drn x = None"
  by (cases x rule: live.cases; simp)+

text \<open>A channel that a step of the thread \<open>t\<close> does not touch stays as it is.\<close>

definition untouched :: "thread \<Rightarrow> thread \<Rightarrow> chan \<Rightarrow> bool" where
  "untouched x y c \<longleftrightarrow>
     (\<forall>i. (live x = Some (i, c) \<longleftrightarrow> live y = Some (i, c)) \<and> (sel x = Some (i, c) \<longleftrightarrow> sel y = Some (i, c)) \<and>
          (drn x = Some (i, c) \<longleftrightarrow> drn y = Some (i, c))) \<and>
     (\<forall>fr. carry x = Some (fr, c) \<longleftrightarrow> carry y = Some (fr, c))"

lemma untouched_waits: "untouched x y c \<Longrightarrow> waits x = Some (i, c) \<longleftrightarrow> waits y = Some (i, c)"
  using view_exclusive [of x] view_exclusive [of y]
  by (cases "live x"; cases "live y") (auto simp: waits_def untouched_def)

lemma untouched_hold: "untouched x y c \<Longrightarrow> hold x = Some (i, c) \<longleftrightarrow> hold y = Some (i, c)"
  using untouched_waits [of x y c] view_exclusive [of x] view_exclusive [of y]
  by (cases "live x"; cases "live y"; cases "sel x"; cases "sel y") (auto simp: waits_def hold_def untouched_def)

lemma chan_ok_frame:
  assumes ok: "chan_ok ct cells fresh pool th c" and x: "untouched x (th t) c"
    and same: "\<And>i. ct' i = Some c \<longleftrightarrow> ct i = Some c" "cells' c = cells c" "c \<in> set pool' \<longleftrightarrow> c \<in> set pool" "fresh \<le> fresh'"
  shows "chan_ok ct' cells' fresh' pool' (th(t := x)) c"
proof -
  let ?th = "th(t := x)"
  have "live (?th u) = Some (i, c) \<longleftrightarrow> live (th u) = Some (i, c)" "drn (?th u) = Some (i, c) \<longleftrightarrow> drn (th u) = Some (i, c)"
    "waits (?th u) = Some (i, c) \<longleftrightarrow> waits (th u) = Some (i, c)" "hold (?th u) = Some (i, c) \<longleftrightarrow> hold (th u) = Some (i, c)" for u i
    using x untouched_waits [OF x] untouched_hold [OF x] by (auto simp: untouched_def)
  moreover have "carry (?th u) = Some (fr, c) \<longleftrightarrow> carry (th u) = Some (fr, c)" for u fr
    using x by (auto simp: untouched_def)
  ultimately show ?thesis
    using ok same unfolding chan_ok_def uncarried_def by (auto intro: less_le_trans)
qed

lemma replies_upd:
  "replies_ok th \<Longrightarrow> (\<And>i fr. reply_of x = Some (i, fr) \<Longrightarrow> fr_ID fr = i) \<Longrightarrow> replies_ok (th(t := x))"
  unfolding replies_ok_def by auto

lemma uncarried_upd:
  "uncarried (th(t := x)) c \<longleftrightarrow> (\<forall>fr. carry x \<noteq> Some (fr, c)) \<and> (\<forall>u fr. u \<noteq> t \<longrightarrow> carry (th u) \<noteq> Some (fr, c))"
  unfolding uncarried_def by auto

text \<open>
  The steps, by what they do to the one channel they touch. First those that touch none.
\<close>

definition chans_at :: "rpc_sys \<Rightarrow> bool" where
  "chans_at s \<longleftrightarrow> chan_inv (ch_at (rs_pend s)) (rs_cells s) (rs_fresh s) (rs_pool s) (rs_threads s)"

lemma chan_move:
  assumes "chan_inv ct cells fresh pool th" "\<And>c. untouched x (th t) c"
    and "\<And>i fr. reply_of x = Some (i, fr) \<Longrightarrow> reply_of (th t) = Some (i, fr)"
  shows "chan_inv ct cells fresh pool (th(t := x))"
  unfolding chan_inv_def
proof (intro conjI allI)
  show "chan_ok ct cells fresh pool (th(t := x)) c" for c
    by (rule chan_ok_frame [where th = th and t = t and fresh = fresh, OF _ assms(2)]) (use assms(1) in \<open>simp_all add: chan_inv_def\<close>)
  show "replies_ok (th(t := x))"
    by (rule replies_upd) (use assms(1,3) in \<open>auto simp: chan_inv_def replies_ok_def\<close>)
qed (use assms(1) in \<open>simp add: chan_inv_def\<close>)

text \<open>One touched channel: the others are framed.\<close>

lemma chan_touch:
  assumes inv: "chan_inv ct cells fresh pool th"
    and ok: "chan_ok ct' cells' fresh' pool' (th(t := x)) c" and d: "distinct pool'" and r: "replies_ok (th(t := x))"
    and other: "\<And>e. e \<noteq> c \<Longrightarrow> untouched x (th t) e" "\<And>i e. e \<noteq> c \<Longrightarrow> ct' i = Some e \<longleftrightarrow> ct i = Some e"
      "\<And>e. e \<noteq> c \<Longrightarrow> cells' e = cells e" "\<And>e. e \<noteq> c \<Longrightarrow> e \<in> set pool' \<longleftrightarrow> e \<in> set pool" "fresh \<le> fresh'"
  shows "chan_inv ct' cells' fresh' pool' (th(t := x))"
  unfolding chan_inv_def
proof (intro conjI allI)
  fix e show "chan_ok ct' cells' fresh' pool' (th(t := x)) e"
  proof (cases "e = c")
    case True with ok show ?thesis by simp
  next
    case False
    with inv have "chan_ok ct cells fresh pool th e" by (simp add: chan_inv_def)
    then show ?thesis by (rule chan_ok_frame) (use False other in blast)+
  qed
qed (use d r in auto)

lemma chan_invD:
  assumes "chan_inv ct cells fresh pool th"
  shows "chan_ok ct cells fresh pool th c" "distinct pool" "reply_of (th t) = Some (i, fr) \<Longrightarrow> fr_ID fr = i" "replies_ok th"
  using assms by (auto simp: chan_inv_def replies_ok_def)

lemma pc_views [simp]:
  "hold (Sync (SSend i c)) = Some (i, c)" "hold (Sync (SWait i c)) = Some (i, c)" "hold (Sync (SDel i c r)) = Some (i, c)"
  "hold (Sync (SDrain i c r)) = Some (i, c)" "hold (Sync (SSel i c r)) = Some (i, c)" "hold (Sync (SLock i)) = None"
  "hold (Sync (SDec i r)) = None" "hold (Sync (SDone j r)) = None" "hold (Deliver d) = None"
  "waits (Sync (SSend i c)) = Some (i, c)" "waits (Sync (SWait i c)) = Some (i, c)" "waits (Sync (SDel i c r)) = Some (i, c)"
  "waits (Sync (SDrain i c r)) = None" "waits (Sync (SSel i c r)) = Some (i, c)" "waits (Sync (SLock i)) = None"
  "waits (Sync (SDec i r)) = None" "waits (Sync (SDone j r)) = None" "waits (Deliver d) = None"
  by (simp_all add: waits_def hold_def)

lemma drn_hold: "drn x = Some y \<Longrightarrow> hold x = Some y"
  using view_exclusive [of x] by (cases "live x"; cases "sel x") (auto simp: waits_def hold_def)

text \<open>The call enters the table with a channel nobody holds, from the pool or new.\<close>

lemma chan_acquire:
  assumes inv: "chan_inv ct cells fresh pool th" and t: "th t = Sync (SLock i)" and i: "ct i = None"
    and c: "cells' c = new_cell" "c < fresh'" "c \<notin> set pool'" "\<And>u j. hold (th u) \<noteq> Some (j, c)"
    and other: "distinct pool'" "\<And>e. e \<noteq> c \<Longrightarrow> cells' e = cells e" "\<And>e. e \<noteq> c \<Longrightarrow> e \<in> set pool' \<longleftrightarrow> e \<in> set pool" "fresh \<le> fresh'"
  shows "chan_inv (ct(i \<mapsto> c)) cells' fresh' pool' (th(t := Sync (SSend i c)))"
proof (rule chan_touch [OF inv, of _ _ _ _ t _ c])
  note D = chan_okD [OF chan_invD(1) [OF inv, of c]]
  have un: "uncarried th c" using D(10) c(4) waits_hold unfolding uncarried_def by metis
  have ct: "ct j \<noteq> Some c" for j using D(7) c(4) live_hold(2) by metis
  have nd: "drn (th u) \<noteq> Some (j, c)" for u j using drn_hold c(4) by metis
  have l: "live ((th(t := Sync (SSend i c))) t) = Some (i, c)" by simp
  show "chan_ok (ct(i \<mapsto> c)) cells' fresh' pool' (th(t := Sync (SSend i c))) c"
    unfolding chan_ok_def
    using c un ct nd l by (auto simp: uncarried_def split: if_splits)
  show "replies_ok (th(t := Sync (SSend i c)))" using chan_invD(4) [OF inv] by (rule replies_upd) simp
qed (use t i other in \<open>auto simp: untouched_def\<close>)

text \<open>The deferred function removes the entry itself: it must be the entry of this call.\<close>

lemma chan_found:
  assumes inv: "chan_inv ct cells fresh pool th" and t: "th t = Sync (SDel i c r)" and i: "ct i = Some d"
    and own: "\<And>u e. live (th u) = Some (i, e) \<Longrightarrow> u = t"
  shows "d = c" "chan_inv (ct(i := None)) cells fresh pool (th(t := Sync (SDrain i d r)))"
proof -
  show dc: "d = c"
    using chan_okD(7) [OF chan_invD(1) [OF inv] i] own t by auto
  note D = chan_okD [OF chan_invD(1) [OF inv, of c]]
  have nc: "cells c = new_cell" "uncarried th c" "c < fresh" "c \<notin> set pool"
    using D(1,2) [of t i] D(6,8) [of i] i dc t by auto
  have u: "u = t" if "hold (th u) = Some (j, c)" for u j using D(3) [of t i u j] that t by simp
  have j: "j = i" if j: "ct j = Some c" for j
  proof -
    obtain w where w: "live (th w) = Some (j, c)" using D(7) [OF j] by blast
    with u [OF live_hold(2) [OF w]] t show ?thesis by simp
  qed
  show "chan_inv (ct(i := None)) cells fresh pool (th(t := Sync (SDrain i d r)))"
  proof (rule chan_touch [OF inv, of _ _ _ _ t _ c])
    show "chan_ok (ct(i := None)) cells fresh pool (th(t := Sync (SDrain i d r))) c"
      unfolding chan_ok_def using nc u j dc by (auto simp: uncarried_def split: if_splits)
    show "replies_ok (th(t := Sync (SDrain i d r)))"
      using chan_invD(4) [OF inv] by (rule replies_upd) (use chan_invD(3) [OF inv, of t] t in \<open>cases r; simp\<close>)
  qed (use t dc i chan_invD(2) [OF inv] in \<open>auto simp: untouched_def\<close>)
qed

lemma chan_missed:
  assumes inv: "chan_inv ct cells fresh pool th" and t: "th t = Sync (SDel i c r)" and i: "ct i = None"
  shows "chan_inv (ct(i := None)) cells fresh pool (th(t := Sync (SSel i c r)))"
proof (rule chan_touch [OF inv, of _ _ _ _ t _ c])
  note D = chan_okD [OF chan_invD(1) [OF inv, of c]]
  have u: "u = t" if "hold (th u) = Some (j, c)" for u j using D(3) [of t i u j] that t by simp
  have j: "ct j \<noteq> Some c" for j
  proof
    assume j: "ct j = Some c"
    obtain w where w: "live (th w) = Some (j, c)" using D(7) [OF j] by blast
    with u [OF live_hold(2) [OF w]] t i j show False by simp
  qed
  have w: "waits ((th(t := Sync (SSel i c r))) v) = waits (th v)" "hold ((th(t := Sync (SSel i c r))) v) = hold (th v)"
    "carry ((th(t := Sync (SSel i c r))) v) = carry (th v)" "drn ((th(t := Sync (SSel i c r))) v) = drn (th v)" for v
    using t by auto
  show "chan_ok (ct(i := None)) cells fresh pool (th(t := Sync (SSel i c r))) c"
    unfolding chan_ok_def w uncarried_def
    using chan_invD(1) [OF inv, of c] j unfolding chan_ok_def uncarried_def by auto
  show "replies_ok (th(t := Sync (SSel i c r)))"
    using chan_invD(4) [OF inv] by (rule replies_upd) (use chan_invD(3) [OF inv, of t] t in \<open>cases r; simp\<close>)
qed (use t i chan_invD(2) [OF inv] in \<open>auto simp: untouched_def\<close>)

text \<open>The channel goes to the pool: it must be open, and nobody may carry it.\<close>

lemma chan_pooled:
  assumes inv: "chan_inv ct cells fresh pool th" and t: "hold (th t) = Some (i, c)"
    and c: "\<not> shut (cells c)" "uncarried th c" and nt: "live (th t) = None"
    and x: "hold x = None" "carry x = None" "carry (th t) = None"
      "\<And>j fr. reply_of x = Some (j, fr) \<Longrightarrow> reply_of (th t) = Some (j, fr)"
  shows "chan_inv ct (cells(c := (cells c)\<lparr>buf := None\<rparr>)) fresh (pool @ [c]) (th(t := x))"
proof (rule chan_touch [OF inv, of _ _ _ _ t _ c])
  note D = chan_okD [OF chan_invD(1) [OF inv, of c]]
  have nc: "(cells c)\<lparr>buf := None\<rparr> = new_cell" using c(1) by (simp add: new_cell_def)
  have u: "u = t" if "hold (th u) = Some (j, c)" for u j using D(3) [OF t that] .
  have j: "ct j \<noteq> Some c" for j
    using D(7) [of j] u live_hold(2) nt by (metis option.distinct(1))
  have h: "hold ((th(t := x)) v) \<noteq> Some (j, c)" "waits ((th(t := x)) v) \<noteq> Some (j, c)" "drn ((th(t := x)) v) \<noteq> Some (j, c)" for v j
    using u x(1) waits_hold drn_hold by (metis fun_upd_apply option.distinct(1))+
  show "chan_ok ct (cells(c := (cells c)\<lparr>buf := None\<rparr>)) fresh (pool @ [c]) (th(t := x)) c"
    unfolding chan_ok_def nc using D(1) [OF t] h j c(2) x(2) by (auto simp: uncarried_def split: if_splits)
  show "distinct (pool @ [c])" using chan_invD(2) [OF inv] D(2) [OF t] by simp
  show "replies_ok (th(t := x))"
    using chan_invD(4) [OF inv] by (rule replies_upd) (use chan_invD(3) [OF inv, of t] x(4) in blast)
  show "untouched x (th t) e" if "e \<noteq> c" for e
    using that t x(1-3) no_hold [OF x(1)] view_exclusive [of "th t"]
    by (cases "live (th t)"; cases "sel (th t)") (auto simp: untouched_def hold_def waits_def)
qed auto

text \<open>A closed channel is forgotten.\<close>

lemma chan_forgotten:
  assumes inv: "chan_inv ct cells fresh pool th" and t: "th t = Sync (SSel i c r)"
    and c: "shut (cells c)"
  shows "chan_inv ct cells fresh pool (th(t := Sync (SDone (Some i) r)))"
proof (rule chan_touch [OF inv, of _ _ _ _ t _ c])
  note D = chan_okD [OF chan_invD(1) [OF inv, of c]]
  have u: "u = t" if "hold (th u) = Some (j, c)" for u j using D(3) [of t i u j] that t by simp
  have n: "cells c \<noteq> new_cell" "buf (cells c) = None" "c \<notin> set pool"
    using c D(5) D(12) [of "the (buf (cells c))"] by (cases "buf (cells c)"; auto simp: new_cell_def)+
  have h: "hold ((th(t := Sync (SDone (Some i) r))) v) \<noteq> Some (j, c)" for v j using u by auto
  show "chan_ok ct cells fresh pool (th(t := Sync (SDone (Some i) r))) c"
    unfolding chan_ok_def using n D(6,9,15) h waits_hold by (auto split: if_splits)
  show "replies_ok (th(t := Sync (SDone (Some i) r)))"
    using chan_invD(4) [OF inv] by (rule replies_upd) (use chan_invD(3) [OF inv, of t] t in \<open>cases r; simp\<close>)
qed (use t chan_invD(2) [OF inv] in \<open>auto simp: untouched_def\<close>)

text \<open>The response is taken off the channel: it is the response to this call.\<close>

lemma chan_receive:
  assumes inv: "chan_inv ct cells fresh pool th" and t: "th t = Sync (SWait i c)" and b: "buf (cells c) = Some fr"
  shows "fr_ID fr = i" "chan_inv ct (cells(c := (cells c)\<lparr>buf := None\<rparr>)) fresh pool (th(t := Sync (SDel i c (Reply fr))))"
proof -
  note D = chan_okD [OF chan_invD(1) [OF inv, of c]]
  have u: "u = t" if "hold (th u) = Some (j, c)" for u j using D(3) [of t i u j] that t by simp
  obtain v where "waits (th v) = Some (fr_ID fr, c)" using D(13) [OF b] by blast
  with u [OF waits_hold [OF this]] t show i: "fr_ID fr = i" by simp
  have n: "(cells c)\<lparr>buf := None\<rparr> = new_cell" "uncarried th c" "c < fresh" "c \<notin> set pool" "cells c \<noteq> new_cell"
    using D(1,2) [of t i] D(12,14) [OF b] b t by (auto simp: new_cell_def)
  have w: "waits ((th(t := Sync (SDel i c (Reply fr)))) v) = waits (th v)" "hold ((th(t := Sync (SDel i c (Reply fr)))) v) = hold (th v)"
    "carry ((th(t := Sync (SDel i c (Reply fr)))) v) = carry (th v)" "drn ((th(t := Sync (SDel i c (Reply fr)))) v) = drn (th v)" for v
    using t by auto
  show "chan_inv ct (cells(c := (cells c)\<lparr>buf := None\<rparr>)) fresh pool (th(t := Sync (SDel i c (Reply fr))))"
  proof (rule chan_touch [OF inv, of _ _ _ _ t _ c])
    show "chan_ok ct (cells(c := (cells c)\<lparr>buf := None\<rparr>)) fresh pool (th(t := Sync (SDel i c (Reply fr)))) c"
      unfolding chan_ok_def w uncarried_def n(1)
      using chan_invD(1) [OF inv, of c] n D(6) unfolding chan_ok_def uncarried_def by auto
    show "replies_ok (th(t := Sync (SDel i c (Reply fr))))"
      using chan_invD(4) [OF inv] by (rule replies_upd) (use i in simp)
  qed (use t chan_invD(2) [OF inv] in \<open>auto simp: untouched_def\<close>)
qed

text \<open>A receiver removes the entry and carries the channel, then sends: the channel is open and empty.\<close>

lemma chan_take:
  assumes inv: "chan_inv ct cells fresh pool th" and t: "th t = Deliver (DEnter fr)" and i: "ct (fr_ID fr) = Some c"
  shows "chan_inv (ct(fr_ID fr := None)) cells fresh pool (th(t := Deliver (DDec fr (Some c) fn)))"
proof (rule chan_touch [OF inv, of _ _ _ _ t _ c])
  let ?th = "th(t := Deliver (DDec fr (Some c) fn))"
  note D = chan_okD [OF chan_invD(1) [OF inv, of c]]
  obtain v where v: "live (th v) = Some (fr_ID fr, c)" using D(7) [OF i] by blast
  have vt: "v \<noteq> t" using v t by auto
  have j: "j = fr_ID fr" if j: "ct j = Some c" for j
  proof -
    obtain w where w: "live (th w) = Some (j, c)" using D(7) [OF j] by blast
    with D(3) [OF live_hold(2) [OF v] live_hold(2) [OF w]] v show ?thesis by simp
  qed
  have w: "waits (?th v) = Some (fr_ID fr, c)" using live_hold(1) [OF v] vt by simp
  have h: "hold (?th u) = hold (th u)" "drn (?th u) = drn (th u)" for u using t by auto
  have n: "cells c = new_cell" "uncarried th c" using D(6,8) [OF i] .
  have dr: "drn (th u) \<noteq> Some (l, c)" for u l
    using D(3) [OF live_hold(2) [OF v], of u l] drn_hold [of "th u" "(l, c)"] view_exclusive(1) [of "th v"] v by auto
  show "chan_ok (ct(fr_ID fr := None)) cells fresh pool ?th c"
    unfolding chan_ok_def h
    using D(1,2,3,4,5) n j w dr
    by (auto simp: uncarried_def split: if_splits)
  show "replies_ok ?th" using chan_invD(4) [OF inv] by (rule replies_upd) simp
qed (use t i chan_invD(2) [OF inv] in \<open>auto simp: untouched_def\<close>)

lemma chan_send:
  assumes inv: "chan_inv ct cells fresh pool th" and t: "th t = Deliver (DSend fr (Some c) fn)"
  shows "cells c = new_cell" "chan_inv ct (cells(c := (cells c)\<lparr>buf := Some fr\<rparr>)) fresh pool (th(t := Deliver DDone))"
proof -
  note D = chan_okD [OF chan_invD(1) [OF inv, of c]]
  have k: "carry (th t) = Some (fr, c)" using t by simp
  show n: "cells c = new_cell" using D(9) [OF k] .
  have j: "ct j \<noteq> Some c" for j using D(8) [of j] k unfolding uncarried_def by blast
  have un: "uncarried (th(t := Deliver DDone)) c" using D(11) [OF k] by (auto simp: uncarried_def split: if_splits)
  obtain v where v: "waits (th v) = Some (fr_ID fr, c)" using D(10) [OF k] by blast
  then have w: "waits ((th(t := Deliver DDone)) v) = Some (fr_ID fr, c)" using t by auto
  have dr: "drn (th u) \<noteq> Some (l, c)" for u l using D(16) k unfolding uncarried_def by blast
  have h: "hold ((th(t := Deliver DDone)) u) = hold (th u)" "drn ((th(t := Deliver DDone)) u) = drn (th u)" for u using t by auto
  have p: "c \<notin> set pool" using D(2) waits_hold [OF v] by blast
  show "chan_inv ct (cells(c := (cells c)\<lparr>buf := Some fr\<rparr>)) fresh pool (th(t := Deliver DDone))"
  proof (rule chan_touch [OF inv, of _ _ _ _ t _ c])
    show "chan_ok ct (cells(c := (cells c)\<lparr>buf := Some fr\<rparr>)) fresh pool (th(t := Deliver DDone)) c"
      unfolding chan_ok_def h using D(1,2,3) n j un w dr p by (auto simp: uncarried_def split: if_splits)
    show "replies_ok (th(t := Deliver DDone))" using chan_invD(4) [OF inv] by (rule replies_upd) simp
  qed (use t chan_invD(2) [OF inv] in \<open>auto simp: untouched_def\<close>)
qed

text \<open>Closing the channels of some entries.\<close>

lemma chan_shut:
  assumes inv: "chan_inv ct cells fresh pool th" and t: "th t = Closer x" and y: "y = Closer z"
    and ct': "\<And>i. ct' i = (if S i then None else ct i)"
    and cells': "\<And>c. cells' c = (if \<exists>i. S i \<and> ct i = Some c then (cells c)\<lparr>shut := True\<rparr> else cells c)"
  shows "chan_inv ct' cells' fresh pool (th(t := y))"
  unfolding chan_inv_def
proof (intro conjI allI)
  fix c
  note ok = chan_invD(1) [OF inv, of c]
  note D = chan_okD [OF ok]
  have un: "untouched y (th t) c" using t y by (simp add: untouched_def)
  have th: "hold ((th(t := y)) u) = hold (th u)" "waits ((th(t := y)) u) = waits (th u)" "live ((th(t := y)) u) = live (th u)"
    "drn ((th(t := y)) u) = drn (th u)" "carry ((th(t := y)) u) = carry (th u)" for u
    using t y by (auto simp: hold_def waits_def)
  show "chan_ok ct' cells' fresh pool (th(t := y)) c"
  proof (cases "\<exists>i. S i \<and> ct i = Some c")
    case False
    then show ?thesis by (intro chan_ok_frame [OF ok un]) (auto simp: ct' cells')
  next
    case True
    then obtain i where i: "S i" "ct i = Some c" by blast
    obtain v where v: "live (th v) = Some (i, c)" using D(7) [OF i(2)] by blast
    note h = live_hold(2) [OF v]
    have j: "ct' j \<noteq> Some c" for j
    proof
      assume "ct' j = Some c"
      then have j: "ct j = Some c" "\<not> S j" by (auto simp: ct' split: if_splits)
      then obtain w where w: "live (th w) = Some (j, c)" using D(7) by blast
      with D(3) [OF h live_hold(2) [OF w]] v i j show False by simp
    qed
    have dr: "drn (th u) \<noteq> Some (l, c)" for u l
      using D(3) [OF h, of u l] drn_hold [of "th u" "(l, c)"] view_exclusive(1) [of "th v"] v by auto
    have "buf (cells' c) = None" using D(6) [OF i(2)] True by (simp add: cells')
    then show ?thesis
      unfolding chan_ok_def th using D(1,2,3) h dr j D(8) [OF i(2)] by (auto simp: uncarried_def)
  qed
  show "replies_ok (th(t := y))" using chan_invD(4) [OF inv] by (rule replies_upd) (simp add: y)
qed (rule chan_invD(2) [OF inv])

end
