(* ===== verification/RpcIds.thy ===== *)
theory RpcIds
  imports RpcChans
begin

section \<open>Pending calls: tables and ids\<close>

subsection \<open>The tables\<close>

lemma ch_at_upd [simp]:
  "ch_at (set_ch i c p) j = (if j = i then Some c else ch_at p j)" "ch_at (drop_ch i p) j = (if j = i then None else ch_at p j)"
  "ch_at (set_cb i t p) j = ch_at p j" "ch_at (drop_cb i p) j = ch_at p j" "ch_at (add_cur d p) j = ch_at p j"
  "cb_at (set_cb i t p) j = (if j = i then Some t else cb_at p j)" "cb_at (drop_cb i p) j = (if j = i then None else cb_at p j)"
  "cb_at (set_ch i c p) j = cb_at p j" "cb_at (drop_ch i p) j = cb_at p j" "cb_at (add_cur d p) j = cb_at p j"
  by (auto simp: ch_at_def cb_at_def set_ch_def drop_ch_def set_cb_def drop_cb_def add_cur_def upd_shard_def
      update_conv' delete_conv')

definition tab_ok :: "pendingMap \<Rightarrow> bool" where
  "tab_ok p \<longleftrightarrow> (\<forall>k. distinct (map fst (chMap (shards p k))) \<and> distinct (map fst (cbMap (shards p k))) \<and>
     (\<forall>i c. map_of (chMap (shards p k)) i = Some c \<longrightarrow> shard_of i = k) \<and>
     (\<forall>i u. map_of (cbMap (shards p k)) i = Some u \<longrightarrow> shard_of i = k))"

lemma tab_ok_new: "tab_ok (newPendingMap m)"
  by (simp add: tab_ok_def newPendingMap_def newPendingShard_def)

lemma tab_ok_upd [simp]:
  "tab_ok p \<Longrightarrow> tab_ok (set_ch i c p)" "tab_ok p \<Longrightarrow> tab_ok (drop_ch i p)" "tab_ok p \<Longrightarrow> tab_ok (set_cb i t p)"
  "tab_ok p \<Longrightarrow> tab_ok (drop_cb i p)" "tab_ok p \<Longrightarrow> tab_ok (add_cur d p)"
  unfolding tab_ok_def set_ch_def drop_ch_def set_cb_def drop_cb_def add_cur_def upd_shard_def
  by (auto simp: distinct_update distinct_delete update_conv' delete_conv' simp del: map_of_eq_Some_iff split: if_splits)

lemma tab_ok_fields [simp]:
  "tab_ok (p\<lparr>pm_closed := b\<rparr>) = tab_ok p" "tab_ok (p\<lparr>curPendingCount := n\<rparr>) = tab_ok p"
  "tab_ok p \<Longrightarrow> tab_ok (p\<lparr>shards := (shards p)(k := newPendingShard)\<rparr>)"
  by (auto simp: tab_ok_def newPendingShard_def)

lemma tab_entries:
  assumes "tab_ok p"
  shows "(i, c) \<in> set (chMap (shards p k)) \<longleftrightarrow> shard_of i = k \<and> ch_at p i = Some c"
    and "(i, u) \<in> set (cbMap (shards p k)) \<longleftrightarrow> shard_of i = k \<and> cb_at p i = Some u"
  using assms unfolding tab_ok_def ch_at_def cb_at_def by (metis map_of_SomeD map_of_is_SomeI)+

lemma at_fields [simp]:
  "ch_at (p\<lparr>pm_closed := b\<rparr>) = ch_at p" "ch_at (p\<lparr>curPendingCount := n\<rparr>) = ch_at p"
  "cb_at (p\<lparr>pm_closed := b\<rparr>) = cb_at p" "cb_at (p\<lparr>curPendingCount := n\<rparr>) = cb_at p"
  "ch_at (p\<lparr>shards := (shards p)(k := newPendingShard)\<rparr>) i = (if shard_of i = k then None else ch_at p i)"
  "cb_at (p\<lparr>shards := (shards p)(k := newPendingShard)\<rparr>) i = (if shard_of i = k then None else cb_at p i)"
  by (auto simp: ch_at_def cb_at_def newPendingShard_def)

subsection \<open>Ids\<close>

fun sync_id :: "sync_pc \<Rightarrow> reqid option" where
  "sync_id SEnter = None"
| "sync_id (SOpen i) = Some i"
| "sync_id (SCount i) = Some i"
| "sync_id (SInc i) = Some i"
| "sync_id (SLock i) = Some i"
| "sync_id (SUndo i) = Some i"
| "sync_id (SSend i c) = Some i"
| "sync_id (SWait i c) = Some i"
| "sync_id (SDel i c r) = Some i"
| "sync_id (SDrain i c r) = Some i"
| "sync_id (SDec i r) = Some i"
| "sync_id (SSel i c r) = Some i"
| "sync_id (SDone i r) = i"

fun thr_id :: "thread \<Rightarrow> reqid option" where
  "thr_id (Sync pc) = sync_id pc"
| "thr_id (Async pc) = async_id pc"
| "thr_id _ = None"

text \<open>Fewer than \<open>2\<^sup>6\<^sup>4\<close> ids were drawn: then every call has an id of its own.\<close>

definition ids_ok :: "rpc_sys \<Rightarrow> bool" where
  "ids_ok s \<longleftrightarrow>
     (\<forall>t i. thr_id (rs_threads s t) = Some i \<longrightarrow> 0 < unat i \<and> unat i \<le> rs_gen s) \<and>
     (\<forall>t u i. thr_id (rs_threads s t) = Some i \<longrightarrow> thr_id (rs_threads s u) = Some i \<longrightarrow> t = u)"

lemma sys_sel [simp]:
  "rs_threads (goto t x s) = (rs_threads s)(t := x)" "rs_gen (goto t x s) = rs_gen s" "rs_pend (goto t x s) = rs_pend s"
  "rs_cells (goto t x s) = rs_cells s" "rs_fresh (goto t x s) = rs_fresh s" "rs_pool (goto t x s) = rs_pool s"
  "rs_done (goto t x s) = rs_done s" "rs_notes (goto t x s) = rs_notes s"
  "rs_threads (on_pend f s) = rs_threads s" "rs_gen (on_pend f s) = rs_gen s" "rs_pend (on_pend f s) = f (rs_pend s)"
  "rs_cells (on_pend f s) = rs_cells s" "rs_fresh (on_pend f s) = rs_fresh s" "rs_pool (on_pend f s) = rs_pool s"
  "rs_done (on_pend f s) = rs_done s" "rs_notes (on_pend f s) = rs_notes s"
  "rs_threads (set_buf c b s) = rs_threads s" "rs_gen (set_buf c b s) = rs_gen s" "rs_pend (set_buf c b s) = rs_pend s"
  "rs_cells (set_buf c b s) = (rs_cells s)(c := (rs_cells s c)\<lparr>buf := b\<rparr>)" "rs_fresh (set_buf c b s) = rs_fresh s"
  "rs_pool (set_buf c b s) = rs_pool s" "rs_done (set_buf c b s) = rs_done s" "rs_notes (set_buf c b s) = rs_notes s"
  "rs_threads (pool_put c s) = rs_threads s" "rs_gen (pool_put c s) = rs_gen s" "rs_pend (pool_put c s) = rs_pend s"
  "rs_cells (pool_put c s) = rs_cells s" "rs_fresh (pool_put c s) = rs_fresh s" "rs_pool (pool_put c s) = rs_pool s @ [c]"
  "rs_done (pool_put c s) = rs_done s" "rs_notes (pool_put c s) = rs_notes s"
  "rs_threads (notify u r s) = rs_threads s" "rs_gen (notify u r s) = rs_gen s" "rs_pend (notify u r s) = rs_pend s"
  "rs_cells (notify u r s) = rs_cells s" "rs_fresh (notify u r s) = rs_fresh s" "rs_pool (notify u r s) = rs_pool s"
  "rs_done (notify u r s) = rs_done s" "rs_notes (notify u r s) = rs_notes s @ [(u, r)]"
  by (simp_all add: goto_def on_pend_def set_buf_def pool_put_def notify_def)

lemma genReqId_sel: "genReqId s = (word_of_nat (Suc (rs_gen s)), s\<lparr>rs_gen := Suc (rs_gen s)\<rparr>)"
  by (simp add: genReqId_def)

lemma pool_get_sel:
  assumes "pool_get k s = (c, s')"
  shows "rs_threads s' = rs_threads s" "rs_gen s' = rs_gen s" "rs_pend s' = rs_pend s" "rs_done s' = rs_done s" "rs_notes s' = rs_notes s"
  using assms by (auto simp: pool_get_def split: if_splits)

lemma run_callback_sel [simp]:
  "rs_gen (run_callback t x u i fr s) = rs_gen s" "rs_cells (run_callback t x u i fr s) = rs_cells s"
  "rs_fresh (run_callback t x u i fr s) = rs_fresh s" "rs_pool (run_callback t x u i fr s) = rs_pool s"
  "ch_at (rs_pend (run_callback t x u i fr s)) j = ch_at (rs_pend s) j"
  "pm_closed (rs_pend (run_callback t x u i fr s)) = pm_closed (rs_pend s)"
  by (auto simp: run_callback_def Let_def drop_cb_def add_cur_def upd_shard_def ch_at_def)

lemma run_callback_threads:
  "\<exists>y. (y = x \<or> y = Panicked) \<and> rs_threads (run_callback t x u i fr s) = (rs_threads s)(t := y)"
  by (auto simp: run_callback_def Let_def)

text \<open>A step moves one thread, which keeps its id, draws a new one, or ends the process.\<close>

definition id_step :: "rpc_sys \<Rightarrow> nat \<Rightarrow> thread \<Rightarrow> rpc_sys \<Rightarrow> bool" where
  "id_step s t x s' \<longleftrightarrow> rs_threads s' = (rs_threads s)(t := x) \<and>
     (rs_gen s' = rs_gen s \<and> (thr_id x = None \<or> thr_id x = thr_id (rs_threads s t)) \<or>
      rs_gen s' = Suc (rs_gen s) \<and> thr_id x = Some (word_of_nat (Suc (rs_gen s))))"

lemma sync_id_step:
  assumes "sync_do t pc ch s = Some s'" "rs_threads s t = Sync pc"
  shows "\<exists>x. id_step s t x s'"
  using assms unfolding sync_do_eq id_step_def Let_def
  by (cases pc; cases ch) (auto simp: genReqId_sel pool_get_sel split: if_splits option.splits prod.splits)

lemma async_id_step:
  assumes "async_do t pc ch s = Some s'" "rs_threads s t = Async pc"
  shows "\<exists>x. id_step s t x s'"
  using assms unfolding async_do_eq id_step_def Let_def
  by (cases pc; cases ch) (auto simp: genReqId_sel split: if_splits option.splits prod.splits)

lemma callback_id_step: "thr_id x = None \<Longrightarrow> \<exists>y. id_step s t y (run_callback t x u i fr s)"
  using run_callback_threads [of x t u i fr s] by (auto simp: id_step_def)

lemma goto_id_step: "thr_id x = None \<Longrightarrow> rs_threads s' = rs_threads s \<Longrightarrow> rs_gen s' = rs_gen s \<Longrightarrow> \<exists>y. id_step s t y (goto t x s')"
  by (auto simp: id_step_def)

lemma deliver_id_step:
  assumes "deliver_do t pc ch s = Some s'" "rs_threads s t = Deliver pc"
  shows "\<exists>x. id_step s t x s'"
  using assms(1) unfolding deliver_do_def Let_def
  by (auto split: deliver_pc.splits option.splits if_splits intro!: callback_id_step goto_id_step)

lemma close_id_step:
  assumes "close_do t pc ch s = Some s'" "rs_threads s t = Closer pc"
  shows "\<exists>x. id_step s t x s'"
  using assms(1) unfolding close_do_def Let_def shut_shard_def
  by (auto split: close_pc.splits choice.splits option.splits if_splits intro!: callback_id_step goto_id_step)

lemma rpc_id_step: "rpc_do t ch s = Some s' \<Longrightarrow> \<exists>x. id_step s t x s'"
  unfolding rpc_do_def
  by (auto split: thread.splits intro: sync_id_step async_id_step deliver_id_step close_id_step)

lemma unat_new_id: "Suc n < 2 ^ 64 \<Longrightarrow> unat (word_of_nat (Suc n) :: reqid) = Suc n"
  by (simp only: unat_of_nat take_bit_nat_eq_self len_of_numeral_defs) (simp add: take_bit_nat_eq_self)

lemma ids_ok_step:
  assumes "ids_ok s" "id_step s t x s'" "rs_gen s' < 2 ^ 64"
  shows "ids_ok s'"
proof (cases "rs_gen s' = rs_gen s")
  case True
  with assms(2) have x: "rs_threads s' = (rs_threads s)(t := x)" "thr_id x = None \<or> thr_id x = thr_id (rs_threads s t)"
    by (auto simp: id_step_def)
  have v: "thr_id (rs_threads s' v) = Some i \<Longrightarrow> thr_id (rs_threads s v) = Some i" for v i
    using x by (auto split: if_splits)
  show ?thesis using assms(1) v True unfolding ids_ok_def by metis
next
  case False
  with assms(2) have x: "rs_gen s' = Suc (rs_gen s)" "thr_id x = Some (word_of_nat (Suc (rs_gen s)))" "rs_threads s' = (rs_threads s)(t := x)"
    by (auto simp: id_step_def)
  have u: "unat (word_of_nat (Suc (rs_gen s)) :: reqid) = Suc (rs_gen s)" using unat_new_id x(1) assms(3) by simp
  have new: "thr_id (rs_threads s v) \<noteq> Some (word_of_nat (Suc (rs_gen s)))" for v
  proof
    assume "thr_id (rs_threads s v) = Some (word_of_nat (Suc (rs_gen s)))"
    with assms(1) u show False unfolding ids_ok_def by (metis not_less_eq_eq order_refl)
  qed
  show ?thesis
    unfolding ids_ok_def x(1,3)
    using assms(1) x(2) u new unfolding ids_ok_def by (auto simp: le_Suc_eq split: if_splits)
qed

lemma rpc_gen_mono: "rpc_do t ch s = Some s' \<Longrightarrow> rs_gen s \<le> rs_gen s'"
  using rpc_id_step by (fastforce simp: id_step_def)

end
