(* ===== verification/RpcCalm.thy ===== *)
theory RpcCalm
  imports RpcIds
begin

section \<open>Pending calls: every response reaches its own call\<close>

text \<open>
  A run is calm when no call returns to the pool a channel that a receiver still carries. In calm
  runs the invariant of \<open>RpcChans\<close> holds in every state.
\<close>

definition overtakes :: "rpc_sys \<Rightarrow> nat \<Rightarrow> bool" where
  "overtakes s t \<longleftrightarrow> (\<exists>i c r. rs_threads s t = Sync (SSel i c r) \<and> \<not> uncarried (rs_threads s) c)"

inductive calm_reachable :: "int \<Rightarrow> rpc_sys \<Rightarrow> bool" for m where
  init: "calm_reachable m (rpc_init m)"
| spawn: "calm_reachable m s \<Longrightarrow> rs_threads s t = Idle \<Longrightarrow> entry x \<Longrightarrow> calm_reachable m (goto t x s)"
| step: "calm_reachable m s \<Longrightarrow> \<not> overtakes s t \<Longrightarrow> rpc_do t ch s = Some s' \<Longrightarrow> calm_reachable m s'"

lemma ch_at_fun [simp]:
  "ch_at (set_ch i c p) = (ch_at p)(i \<mapsto> c)" "ch_at (drop_ch i p) = (ch_at p)(i := None)"
  "ch_at (set_cb i t p) = ch_at p" "ch_at (drop_cb i p) = ch_at p" "ch_at (add_cur d p) = ch_at p"
  by (rule ext; simp)+

lemma chans_move:
  assumes "chans_at s" "\<And>c. untouched x (rs_threads s t) c" "\<And>i fr. reply_of x = Some (i, fr) \<Longrightarrow> reply_of (rs_threads s t) = Some (i, fr)"
    and "rs_threads s' = (rs_threads s)(t := x)" "ch_at (rs_pend s') = ch_at (rs_pend s)" "rs_cells s' = rs_cells s"
    "rs_fresh s' = rs_fresh s" "rs_pool s' = rs_pool s"
  shows "chans_at s'"
  unfolding chans_at_def assms(4-8) by (rule chan_move [OF assms(1) [unfolded chans_at_def] assms(2,3)])

lemma chans_goto:
  assumes "chans_at s" "\<And>c. untouched x (rs_threads s t) c" "\<And>i fr. reply_of x = Some (i, fr) \<Longrightarrow> reply_of (rs_threads s t) = Some (i, fr)"
    and "rs_threads s1 = rs_threads s" "ch_at (rs_pend s1) = ch_at (rs_pend s)" "rs_cells s1 = rs_cells s"
    "rs_fresh s1 = rs_fresh s" "rs_pool s1 = rs_pool s"
  shows "chans_at (goto t x s1)"
  by (rule chans_move [OF assms(1-3)]) (simp_all only: sys_sel assms(4-8))

lemma chans_callback:
  assumes "chans_at s" "rs_threads s t = y" "\<And>c. untouched x y c" "\<And>c. untouched Panicked y c" "reply_of x = None"
  shows "chans_at (run_callback t x u i fr s)"
proof -
  obtain z where z: "z = x \<or> z = Panicked" "rs_threads (run_callback t x u i fr s) = (rs_threads s)(t := z)"
    using run_callback_threads [of x t u i fr s] by (elim exE conjE)
  have p: "ch_at (rs_pend (run_callback t x u i fr s)) = ch_at (rs_pend s)" by (rule ext) simp
  have v: "untouched z (rs_threads s t) c" for c
    unfolding assms(2) using z(1) by (elim disjE) (simp_all only: assms(3,4))
  have r: "reply_of z = None" using z(1) by (elim disjE) (simp_all add: assms(5))
  show ?thesis by (rule chans_move [OF assms(1) v _ z(2) p]) (simp_all add: r)
qed

lemma pool_get_new:
  assumes inv: "chans_at s" and g: "pool_get k s = (c, s')"
  shows "rs_cells s' c = new_cell" "c < rs_fresh s'" "c \<notin> set (rs_pool s')" "hold (rs_threads s u) \<noteq> Some (j, c)"
    "distinct (rs_pool s')" "e \<noteq> c \<Longrightarrow> rs_cells s' e = rs_cells s e" "e \<noteq> c \<Longrightarrow> e \<in> set (rs_pool s') \<longleftrightarrow> e \<in> set (rs_pool s)"
    "rs_fresh s \<le> rs_fresh s'"
proof -
  note I = chan_invD [OF inv [unfolded chans_at_def]]
  note D = chan_okD [OF I(1)]
  have split: "rs_pool s = take k (rs_pool s) @ rs_pool s ! k # drop (Suc k) (rs_pool s)" if "k < length (rs_pool s)"
    using that by (rule id_take_nth_drop)
  have p: "rs_cells s' c = new_cell \<and> c < rs_fresh s' \<and> c \<notin> set (rs_pool s') \<and> hold (rs_threads s u) \<noteq> Some (j, c) \<and>
    distinct (rs_pool s') \<and> (\<forall>e. e \<noteq> c \<longrightarrow> rs_cells s' e = rs_cells s e \<and> (e \<in> set (rs_pool s') \<longleftrightarrow> e \<in> set (rs_pool s))) \<and>
    rs_fresh s \<le> rs_fresh s'"
  proof (cases "k < length (rs_pool s)")
    case True
    then have c: "c = rs_pool s ! k" "s' = s\<lparr>rs_pool := take k (rs_pool s) @ drop (Suc k) (rs_pool s)\<rparr>"
      using g by (auto simp: pool_get_def)
    have m: "c \<in> set (rs_pool s)" using c(1) True by simp
    have d: "c \<notin> set (take k (rs_pool s) @ drop (Suc k) (rs_pool s))" "distinct (take k (rs_pool s) @ drop (Suc k) (rs_pool s))"
      using I(2) c(1) by (subst (asm) split [OF True], auto)+
    have e: "e \<in> set (rs_pool s) \<longleftrightarrow> e = c \<or> e \<in> set (take k (rs_pool s) @ drop (Suc k) (rs_pool s))" for e
      using c(1) by (subst (1) split [OF True]) auto
    show ?thesis using D(2,4,5) m d e c(2) by auto
  next
    case False
    then have c: "c = rs_fresh s" "s' = s\<lparr>rs_fresh := Suc (rs_fresh s), rs_cells := (rs_cells s)(rs_fresh s := new_cell)\<rparr>"
      using g by (auto simp: pool_get_def)
    show ?thesis using D(1,4) I(2) c by fastforce
  qed
  then show "rs_cells s' c = new_cell" "c < rs_fresh s'" "c \<notin> set (rs_pool s')" "hold (rs_threads s u) \<noteq> Some (j, c)"
    "distinct (rs_pool s')" "e \<noteq> c \<Longrightarrow> rs_cells s' e = rs_cells s e" "e \<noteq> c \<Longrightarrow> e \<in> set (rs_pool s') \<longleftrightarrow> e \<in> set (rs_pool s)"
    "rs_fresh s \<le> rs_fresh s'" by blast+
qed

lemma live_id: "live x = Some (i, c) \<Longrightarrow> thr_id x = Some i"
  by (cases x rule: live.cases) auto

lemma live_owner: "ids_ok s \<Longrightarrow> thr_id (rs_threads s t) = Some i \<Longrightarrow> live (rs_threads s u) = Some (i, c) \<Longrightarrow> u = t"
  using live_id unfolding ids_ok_def by blast

lemma sync_chans:
  assumes step: "sync_do t pc ch s = Some s'" and t: "rs_threads s t = Sync pc"
    and inv: "chans_at s" and ids: "ids_ok s" and calm: "\<not> overtakes s t"
  shows "chans_at s'"
proof -
  note I = inv [unfolded chans_at_def]
  note own = live_owner [OF ids, of t]
  note move = chans_goto [OF inv, where t = t]
  show ?thesis
  proof (cases pc)
    case (SLock i)
    show ?thesis
    proof (cases "pm_closed (rs_pend s)")
      case True
      then show ?thesis using step t SLock by (simp add: sync_do_eq, elim subst, intro move) (auto simp: sync_do_eq untouched_def)
    next
      case False
      then obtain k c s1 where k: "ch = Pick k" "pool_get k s = (c, s1)"
        "s' = goto t (Sync (SSend i c)) (on_pend (set_ch i c) s1)"
        using step SLock by (auto simp: sync_do_eq Let_def split: choice.splits prod.splits)
      have n: "ch_at (rs_pend s) i = None"
      proof (rule ccontr)
        assume "ch_at (rs_pend s) i \<noteq> None"
        then obtain d where d: "ch_at (rs_pend s) i = Some d" by blast
        obtain u where "live (rs_threads s u) = Some (i, d)" using chan_okD(7) [OF chan_invD(1) [OF I] d] by blast
        with own [of i u d] t SLock show False by auto
      qed
      show ?thesis
        unfolding chans_at_def k(3)
        using chan_acquire [OF I, of t i "rs_cells s1" c "rs_fresh s1" "rs_pool s1"] n t SLock
          pool_get_new [OF inv k(2)] pool_get_sel [OF k(2)] by simp
    qed
  next
    case (SWait i c)
    show ?thesis
    proof (cases "ch = Go \<and> buf (rs_cells s c) \<noteq> None")
      case True
      then obtain fr where fr: "buf (rs_cells s c) = Some fr" by blast
      with True step SWait have "s' = goto t (Sync (SDel i c (Reply fr))) (set_buf c None s)" by (simp add: sync_do_eq)
      with chan_receive(2) [OF I, of t i c fr] t SWait fr show ?thesis unfolding chans_at_def by simp
    next
      case False
      then obtain r where r: "s' = goto t (Sync (SDel i c r)) s" "\<And>fr. r \<noteq> Reply fr"
        using step SWait by (auto simp: sync_do_eq split: choice.splits option.splits if_splits)
      have "reply_of (Sync (SDel i c r)) = None" using r(2) by (cases r) auto
      then show ?thesis using r(1) t SWait
        by (simp only:, intro move) (auto simp: untouched_def)
    qed
  next
    case (SDel i c r)
    show ?thesis
    proof (cases "ch_at (rs_pend s) i")
      case None
      with step SDel have "s' = goto t (Sync (SSel i c r)) (on_pend (drop_ch i) s)" by (simp add: sync_do_eq)
      with chan_missed [OF I, of t i c r] None t SDel show ?thesis unfolding chans_at_def by simp
    next
      case (Some d)
      with step SDel have "s' = goto t (Sync (SDrain i d r)) (on_pend (drop_ch i) s)" by (simp add: sync_do_eq)
      with chan_found(2) [OF I, of t i c r d] Some own [of i] t SDel show ?thesis unfolding chans_at_def by simp
    qed
  next
    case (SDec i r)
    then show ?thesis using step t by (cases r) (auto simp: sync_do_eq untouched_def intro!: move)
  next
    case (SDrain i c r)
    then have s': "s' = goto t (Sync (SDec i r)) (pool_put c (set_buf c None s))" using step by (simp add: sync_do_eq)
    have c: "rs_cells s c = new_cell" "uncarried (rs_threads s) c"
      using chan_okD(15,16) [OF chan_invD(1) [OF I], of t i c] t SDrain by auto
    have "chan_inv (ch_at (rs_pend s)) ((rs_cells s)(c := (rs_cells s c)\<lparr>buf := None\<rparr>)) (rs_fresh s) (rs_pool s @ [c])
        ((rs_threads s)(t := Sync (SDec i r)))"
      by (rule chan_pooled [OF I]) (use c t SDrain in \<open>cases r; auto\<close>)+
    then show ?thesis unfolding chans_at_def s' by simp
  next
    case (SSel i c r)
    have un: "uncarried (rs_threads s) c" using calm t SSel unfolding overtakes_def by blast
    have pooled: "chan_inv (ch_at (rs_pend s)) ((rs_cells s)(c := (rs_cells s c)\<lparr>buf := None\<rparr>)) (rs_fresh s) (rs_pool s @ [c])
        ((rs_threads s)(t := Sync (SDone (Some i) r)))" if "\<not> shut (rs_cells s c)"
      by (rule chan_pooled [OF I]) (use that un t SSel in \<open>cases r; auto\<close>)+
    show ?thesis
    proof (cases "shut (rs_cells s c)")
      case True
      then have "buf (rs_cells s c) = None" using chan_okD(12) [OF chan_invD(1) [OF I], of c] by (cases "buf (rs_cells s c)") auto
      with True step SSel have "s' = goto t (Sync (SDone (Some i) r)) s" by (simp add: sync_do_eq)
      with chan_forgotten [OF I, of t i c r] True t SSel show ?thesis unfolding chans_at_def by simp
    next
      case False
      then have "rs_cells s c = (rs_cells s c)\<lparr>buf := None\<rparr>" if "buf (rs_cells s c) = None" using that by simp
      then show ?thesis using pooled [OF False] step SSel False unfolding chans_at_def
        by (auto simp: sync_do_eq fun_upd_idem split: if_splits)
    qed
  qed (use step t in \<open>auto simp: sync_do_eq Let_def genReqId_sel untouched_def split: if_splits choice.splits outcome.splits intro!: move\<close>)
qed

lemma async_chans:
  assumes step: "async_do t pc ch s = Some s'" and t: "rs_threads s t = Async pc" and inv: "chans_at s"
  shows "chans_at s'"
  using step t
  by (cases pc)
    (auto simp: async_do_eq Let_def genReqId_sel untouched_def split: if_splits choice.splits intro!: chans_goto [OF inv, where t = t])

lemma deliver_chans:
  assumes step: "deliver_do t pc ch s = Some s'" and t: "rs_threads s t = Deliver pc" and inv: "chans_at s"
  shows "chans_at s'"
proof -
  note I = inv [unfolded chans_at_def]
  note move = chans_goto [OF inv, where t = t]
  show ?thesis
  proof (cases pc)
    case (DEnter fr)
    show ?thesis
    proof (cases "ch_at (rs_pend s) (fr_ID fr)")
      case None
      then have "(ch_at (rs_pend s))(fr_ID fr := None) = ch_at (rs_pend s)" by auto
      with None show ?thesis using step t DEnter
        by (auto simp: deliver_do_def Let_def untouched_def split: if_splits intro!: move)
    next
      case (Some c)
      then have "s' = goto t (Deliver (DDec fr (Some c) (cb_at (rs_pend s) (fr_ID fr))))
          (on_pend (drop_cb (fr_ID fr)) (on_pend (drop_ch (fr_ID fr)) s))"
        using step DEnter by (simp add: deliver_do_def Let_def)
      with chan_take [OF I, of t fr c] Some t DEnter show ?thesis unfolding chans_at_def by simp
    qed
  next
    case (DDec fr c fn)
    then show ?thesis using step t by (cases c) (auto simp: deliver_do_def untouched_def intro!: move)
  next
    case (DSend fr c fn)
    show ?thesis
    proof (cases c)
      case (Some d)
      have new: "rs_cells s d = new_cell"
        using chan_send(1) [OF I, of t fr d fn] t DSend Some by simp
      then have "s' = goto t (Deliver DDone) (set_buf d (Some fr) s)"
        using step DSend Some by (simp add: deliver_do_def)
      with chan_send(2) [OF I, of t fr d fn] t DSend Some show ?thesis unfolding chans_at_def by simp
    next
      case None
      show ?thesis
      proof (cases fn)
        case None
        with \<open>c = None\<close> DSend step t show ?thesis by (auto simp: deliver_do_def untouched_def intro!: move)
      next
        case (Some u)
        with \<open>c = None\<close> DSend step have s': "s' = run_callback t (Deliver DDone) u (own_id s u) fr s"
          by (simp add: deliver_do_def)
        show ?thesis unfolding s' by (rule chans_callback [OF inv t]) (simp_all add: untouched_def DSend \<open>c = None\<close>)
      qed
    qed
  next
    case DDone
    with step show ?thesis by (simp add: deliver_do_def)
  qed
qed

lemma close_chans:
  assumes step: "close_do t pc ch s = Some s'" and t: "rs_threads s t = Closer pc" and inv: "chans_at s" and tab: "tab_ok (rs_pend s)"
  shows "chans_at s'"
proof -
  note I = inv [unfolded chans_at_def]
  note move = chans_goto [OF inv, where t = t]
  show ?thesis
  proof (cases pc)
    case (CShard k cbs)
    have mem: "c \<in> snd ` set (chMap (shards (rs_pend s) k)) \<longleftrightarrow> (\<exists>i. shard_of i = k \<and> ch_at (rs_pend s) i = Some c)" for c
      using tab_entries(1) [OF tab, of _ c k] by force
    have open_: "\<not> shut (rs_cells s c)" if m: "c \<in> snd ` set (chMap (shards (rs_pend s) k))" for c
    proof -
      obtain i where "ch_at (rs_pend s) i = Some c" using iffD1 [OF mem m] by blast
      then have "rs_cells s c = new_cell" by (rule chan_okD(6) [OF chan_invD(1) [OF I]])
      then show ?thesis by simp
    qed
    show ?thesis
    proof (cases "k \<ge> pendingShardCount")
      case True
      with CShard step t show ?thesis by (auto simp: close_do_def untouched_def intro!: move)
    next
      case False
      with CShard step open_ have s': "s' = goto t (Closer (CShard (Suc k) (cbs @ cbMap (shards (rs_pend s) k)))) (shut_shard k s)"
        by (auto simp: close_do_def Let_def split: if_splits)
      have "chan_inv (ch_at (rs_pend s')) (rs_cells s') (rs_fresh s) (rs_pool s) ((rs_threads s)(t := Closer (CShard (Suc k) (cbs @ cbMap (shards (rs_pend s) k)))))"
        by (rule chan_shut [OF I, where S = "\<lambda>i. shard_of i = k"]) (use t s' mem in \<open>auto simp: shut_shard_def\<close>)
      then show ?thesis unfolding chans_at_def by (simp add: s' shut_shard_def)
    qed
  next
    case (CCall cbs)
    show ?thesis
    proof (cases "\<exists>i. ch = Call i")
      case True
      then obtain i u where "s' = run_callback t (Closer (CCall (AList.delete i cbs))) u (own_id s u) (closed_frame i) s"
        using CCall step by (auto simp: close_do_def split: option.splits)
      then show ?thesis using t by (simp only:, intro chans_callback [OF inv t]) (simp_all add: untouched_def)
    next
      case False
      with CCall step t show ?thesis by (auto simp: close_do_def untouched_def split: choice.splits if_splits intro!: move)
    qed
  qed (use step t in \<open>auto simp: close_do_def Let_def untouched_def split: if_splits intro!: move\<close>)
qed

lemma run_callback_tab: "tab_ok (rs_pend s) \<Longrightarrow> tab_ok (rs_pend (run_callback t x u i fr s))"
  by (auto simp: run_callback_def Let_def)

lemma tab_step: "rpc_do t ch s = Some s' \<Longrightarrow> tab_ok (rs_pend s) \<Longrightarrow> tab_ok (rs_pend s')"
  unfolding rpc_do_def
  by (cases "rs_threads s t")
    (auto simp: sync_do_eq async_do_eq deliver_do_def close_do_def Let_def genReqId_sel pool_get_sel shut_shard_def run_callback_tab
      split: sync_pc.splits async_pc.splits deliver_pc.splits close_pc.splits choice.splits if_splits option.splits prod.splits)

lemma rpc_chans:
  assumes "rpc_do t ch s = Some s'" "chans_at s" "ids_ok s" "tab_ok (rs_pend s)" "\<not> overtakes s t"
  shows "chans_at s'"
  using assms sync_chans async_chans deliver_chans close_chans unfolding rpc_do_def
  by (cases "rs_threads s t") auto

lemma chans_init: "chans_at (rpc_init m)"
  by (auto simp: chans_at_def rpc_init_def chan_inv_def chan_ok_def replies_ok_def hold_def waits_def uncarried_def
      ch_at_def newPendingMap_def newPendingShard_def)

lemma entry_views: "entry x \<Longrightarrow> live x = None \<and> sel x = None \<and> drn x = None \<and> carry x = None \<and> reply_of x = None \<and> thr_id x = None"
  by (auto simp: entry_def split: thread.splits sync_pc.splits async_pc.splits deliver_pc.splits close_pc.splits)

lemma ids_spawn: "ids_ok s \<Longrightarrow> entry x \<Longrightarrow> ids_ok (goto t x s)"
  using entry_views [of x] unfolding ids_ok_def by (auto split: if_splits)

lemma ids_init: "ids_ok (rpc_init m)"
  by (simp add: ids_ok_def rpc_init_def)

lemma tab_init: "tab_ok (rs_pend (rpc_init m))"
  by (simp add: rpc_init_def tab_ok_new)

lemma calm_inv:
  assumes "calm_reachable m s" "rs_gen s < 2 ^ 64"
  shows "chans_at s \<and> ids_ok s \<and> tab_ok (rs_pend s)"
  using assms
proof induction
  case init
  then show ?case by (simp add: chans_init ids_init tab_init)
next
  case (spawn s t x)
  then have s: "chans_at s" "ids_ok s" "tab_ok (rs_pend s)" by auto
  have "chans_at (goto t x s)"
    using entry_views [OF spawn.hyps(3)] spawn.hyps(2) by (intro chans_goto [OF s(1)]) (auto simp: untouched_def)
  then show ?case using s ids_spawn [OF s(2) spawn.hyps(3)] by simp
next
  case (step s t ch s')
  have g: "rs_gen s < 2 ^ 64" using rpc_gen_mono [OF step.hyps(3)] step.prems by linarith
  obtain x where "id_step s t x s'" using rpc_id_step [OF step.hyps(3)] by blast
  then show ?case
    using step.IH [OF g] rpc_chans [OF step.hyps(3)] step.hyps(2) tab_step [OF step.hyps(3)] ids_ok_step step.prems by blast
qed

end
