(* ===== verification/RpcOnce.thy ===== *)
theory RpcOnce
  imports RpcCalm
begin

section \<open>Pending calls: callbacks run at most once\<close>

text \<open>
  The right to run the callback of an asynchronous call is a token: the entry of the table, or a pair
  in the hands of a receiver or of \<open>closeAll\<close>. The invariant: a token is in one place only, its call
  has entered the table and is not told anything yet; a call whose send did not fail is told at most
  one result.
\<close>

fun tokens :: "thread \<Rightarrow> (reqid \<times> nat) list" where
  "tokens (Deliver (DDec fr c (Some u))) = [(fr_ID fr, u)]"
| "tokens (Deliver (DSend fr None (Some u))) = [(fr_ID fr, u)]"
| "tokens (Deliver (DSend fr (Some c) (Some u))) = [(fr_ID fr, u)]"
| "tokens (Closer (CShard k cbs)) = cbs"
| "tokens (Closer (CStore cbs)) = cbs"
| "tokens (Closer (CCall cbs)) = cbs"
| "tokens _ = []"

fun failed :: "thread \<Rightarrow> bool" where
  "failed (Async (AFail i e)) \<longleftrightarrow> True"
| "failed (Async (AUnput i)) \<longleftrightarrow> True"
| "failed (Async (AUndec i)) \<longleftrightarrow> True"
| "failed (Async (AFailed i)) \<longleftrightarrow> True"
| "failed _ \<longleftrightarrow> False"

fun posted :: "thread \<Rightarrow> bool" where
  "posted (Async (ASend i)) \<longleftrightarrow> True"
| "posted (Async (AWatch i)) \<longleftrightarrow> True"
| "posted (Async (ATake i)) \<longleftrightarrow> True"
| "posted (Async (ADone (Some i))) \<longleftrightarrow> True"
| "posted x \<longleftrightarrow> failed x"

definition told :: "(nat \<times> outcome) list \<Rightarrow> nat \<Rightarrow> nat" where
  "told notes u = length (filter (\<lambda>n. fst n = u) notes)"

definition held :: "(nat \<Rightarrow> thread) \<Rightarrow> nat \<Rightarrow> bool" where
  "held th u \<longleftrightarrow> (\<exists>x i. (i, u) \<in> set (tokens (th x)))"

definition tabled_ok :: "(reqid \<Rightarrow> nat option) \<Rightarrow> (nat \<Rightarrow> thread) \<Rightarrow> (nat \<Rightarrow> bool) \<Rightarrow> bool" where
  "tabled_ok cb th dn \<longleftrightarrow> (\<forall>i u. cb i = Some u \<longrightarrow> thr_id (th u) = Some i \<and> posted (th u) \<and> \<not> dn u \<and> \<not> held th u)"

definition tokens_ok :: "(nat \<Rightarrow> thread) \<Rightarrow> (nat \<Rightarrow> bool) \<Rightarrow> bool" where
  "tokens_ok th dn \<longleftrightarrow> (\<forall>x i u. (i, u) \<in> set (tokens (th x)) \<longrightarrow> thr_id (th u) = Some i \<and> posted (th u) \<and> \<not> dn u \<and>
     (\<forall>y j. (j, u) \<in> set (tokens (th y)) \<longrightarrow> y = x))"

definition told_ok :: "(reqid \<Rightarrow> nat option) \<Rightarrow> (nat \<Rightarrow> thread) \<Rightarrow> (nat \<times> outcome) list \<Rightarrow> bool" where
  "told_ok cb th notes \<longleftrightarrow> (\<forall>u. \<not> failed (th u) \<longrightarrow> told notes u \<le> 1 \<and>
     (held th u \<or> \<not> posted (th u) \<or> (\<exists>i. cb i = Some u) \<longrightarrow> told notes u = 0))"

definition done_ok :: "(nat \<Rightarrow> thread) \<Rightarrow> (nat \<Rightarrow> bool) \<Rightarrow> bool" where
  "done_ok th dn \<longleftrightarrow> (\<forall>u. dn u \<longrightarrow> posted (th u))"

definition cb_inv :: "(reqid \<Rightarrow> nat option) \<Rightarrow> (nat \<Rightarrow> thread) \<Rightarrow> (nat \<Rightarrow> bool) \<Rightarrow> (nat \<times> outcome) list \<Rightarrow> bool" where
  "cb_inv cb th dn notes \<longleftrightarrow> tabled_ok cb th dn \<and> tokens_ok th dn \<and> done_ok th dn \<and> told_ok cb th notes"

lemma cb_invD:
  assumes "cb_inv cb th dn notes"
  shows "cb i = Some u \<Longrightarrow> thr_id (th u) = Some i" "cb i = Some u \<Longrightarrow> posted (th u)" "cb i = Some u \<Longrightarrow> \<not> dn u"
    "cb i = Some u \<Longrightarrow> \<not> held th u"
    "(i, u) \<in> set (tokens (th x)) \<Longrightarrow> thr_id (th u) = Some i" "(i, u) \<in> set (tokens (th x)) \<Longrightarrow> posted (th u)"
    "(i, u) \<in> set (tokens (th x)) \<Longrightarrow> \<not> dn u" "(i, u) \<in> set (tokens (th x)) \<Longrightarrow> (j, u) \<in> set (tokens (th y)) \<Longrightarrow> y = x"
    "dn u \<Longrightarrow> posted (th u)" "\<not> failed (th u) \<Longrightarrow> told notes u \<le> 1"
    "\<not> failed (th u) \<Longrightarrow> held th u \<or> \<not> posted (th u) \<or> cb i = Some u \<Longrightarrow> told notes u = 0"
  using assms unfolding cb_inv_def tabled_ok_def tokens_ok_def done_ok_def told_ok_def by blast+

lemma cb_invI:
  assumes "\<And>i u. cb i = Some u \<Longrightarrow> thr_id (th u) = Some i \<and> posted (th u) \<and> \<not> dn u \<and> \<not> held th u"
    and "\<And>x i u. (i, u) \<in> set (tokens (th x)) \<Longrightarrow> thr_id (th u) = Some i \<and> posted (th u) \<and> \<not> dn u"
    and "\<And>x y i j u. (i, u) \<in> set (tokens (th x)) \<Longrightarrow> (j, u) \<in> set (tokens (th y)) \<Longrightarrow> y = x"
    and "\<And>u. dn u \<Longrightarrow> posted (th u)"
    and "\<And>u. \<not> failed (th u) \<Longrightarrow> told notes u \<le> 1"
    and "\<And>u i. \<not> failed (th u) \<Longrightarrow> held th u \<or> \<not> posted (th u) \<or> cb i = Some u \<Longrightarrow> told notes u = 0"
  shows "cb_inv cb th dn notes"
proof -
  have "tabled_ok cb th dn" using assms(1) unfolding tabled_ok_def by blast
  moreover have "tokens_ok th dn" using assms(2,3) unfolding tokens_ok_def by blast
  moreover have "done_ok th dn" using assms(4) unfolding done_ok_def by blast
  moreover have "told_ok cb th notes" using assms(5,6) unfolding told_ok_def by blast
  ultimately show ?thesis unfolding cb_inv_def by blast
qed

lemma told_simps [simp]: "told [] u = 0" "told (notes @ [(v, r)]) u = told notes u + (if v = u then 1 else 0)"
  by (simp_all add: told_def)

lemma held_upd: "held (th(t := x)) u \<longleftrightarrow> (\<exists>i. (i, u) \<in> set (tokens x)) \<or> (\<exists>y i. y \<noteq> t \<and> (i, u) \<in> set (tokens (th y)))"
  unfolding held_def by (metis fun_upd_apply)

lemma held_same: "set (tokens x) = set (tokens (th t)) \<Longrightarrow> held (th(t := x)) = held th"
  unfolding held_def by (rule ext) (metis fun_upd_apply)

lemma tokens_same: "set (tokens x) = set (tokens (th t)) \<Longrightarrow> set (tokens ((th(t := x)) y)) = set (tokens (th y))"
  by simp

lemma tokens_held: "(i, u) \<in> set (tokens (th x)) \<Longrightarrow> held th u"
  unfolding held_def by blast

text \<open>
  A step of the thread \<open>t\<close> that leaves the tokens of all threads alone. The table may lose entries or
  gain the one of \<open>t\<close>; \<open>t\<close> may be told something.
\<close>

lemma cb_self:
  assumes inv: "cb_inv cb th dn notes" and x: "set (tokens x) = set (tokens (th t))"
    and pid: "posted (th t) \<and> (held th t \<or> (\<exists>i. cb' i = Some t)) \<Longrightarrow> posted x \<and> thr_id x = thr_id (th t)"
    and keep: "posted (th t) \<Longrightarrow> \<not> posted x \<Longrightarrow> \<not> dn t \<and> \<not> held th t" "failed (th t) \<Longrightarrow> failed x"
    and cb': "\<And>i u. cb' i = Some u \<Longrightarrow> cb i = Some u \<or> u = t \<and> thr_id x = Some i \<and> posted x \<and> \<not> posted (th t)"
      "\<not> posted x \<Longrightarrow> cb' i \<noteq> Some t"
    and n: "notes' = notes \<or> (\<exists>r. notes' = notes @ [(t, r)] \<and> (\<not> failed x \<longrightarrow> told notes t = 0 \<and> posted x \<and> \<not> held th t \<and> (\<forall>i. cb' i \<noteq> Some t)))"
    and z: "\<not> failed x \<Longrightarrow> \<not> posted x \<Longrightarrow> told notes t = 0"
  shows "cb_inv cb' (th(t := x)) dn notes'"
proof -
  note D = cb_invD [OF inv]
  note h = held_same [of x th t, OF x]
  note tk = tokens_same [of x th t, OF x]
  have nh: "\<not> held th t" if "\<not> posted (th t)" using that D(6) unfolding held_def by blast
  have nd: "\<not> dn t" if "\<not> posted (th t)" using that D(9) by blast
  have other: "told notes' u = told notes u" if "u \<noteq> t" for u using n that by auto
  show ?thesis
  proof (rule cb_invI, unfold h tk)
    fix i u assume a: "cb' i = Some u"
    show "thr_id ((th(t := x)) u) = Some i \<and> posted ((th(t := x)) u) \<and> \<not> dn u \<and> \<not> held th u"
    proof (cases "cb i = Some u")
      case True
      note c = D(1-4) [OF True]
      show ?thesis
      proof (cases "u = t")
        case True
        with pid c a have "posted x \<and> thr_id x = thr_id (th t)" by blast
        with c True show ?thesis by simp
      qed (use c in simp)
    next
      case False
      with cb'(1) [OF a] have "u = t" "thr_id x = Some i" "posted x" "\<not> posted (th t)" by auto
      with nh nd show ?thesis by simp
    qed
  next
    fix y i u assume a: "(i, u) \<in> set (tokens (th y))"
    note c = D(5-7) [OF a]
    show "thr_id ((th(t := x)) u) = Some i \<and> posted ((th(t := x)) u) \<and> \<not> dn u"
    proof (cases "u = t")
      case True
      with pid c tokens_held [of i u th y, OF a] have "posted x \<and> thr_id x = thr_id (th t)" by blast
      with c True show ?thesis by simp
    qed (use c in simp)
  next
    fix y w i j u assume "(i, u) \<in> set (tokens (th y))" "(j, u) \<in> set (tokens (th w))"
    then show "w = y" by (rule D(8))
  next
    fix u assume a: "dn u"
    then have p: "posted (th u)" by (rule D(9))
    show "posted ((th(t := x)) u)" using keep(1) a p by (cases "u = t") auto
  next
    fix u assume a: "\<not> failed ((th(t := x)) u)"
    show "told notes' u \<le> 1"
    proof (cases "u = t")
      case True
      with a keep(2) have f: "\<not> failed (th t)" "\<not> failed x" by auto
      from n show ?thesis using D(10) [OF f(1)] f(2) True by auto
    next
      case False
      with a D(10) other show ?thesis by simp
    qed
  next
    fix u i assume a: "\<not> failed ((th(t := x)) u)" and b: "held th u \<or> \<not> posted ((th(t := x)) u) \<or> cb' i = Some u"
    show "told notes' u = 0"
    proof (cases "u = t")
      case False
      with b cb'(1) [of i u] have "held th u \<or> \<not> posted (th u) \<or> cb i = Some u" by auto
      with D(11) a False other show ?thesis by simp
    next
      case True
      with a keep(2) have f: "\<not> failed (th t)" "\<not> failed x" by auto
      have "told notes t = 0"
      proof (cases "posted x")
        case False with z f show ?thesis by blast
      next
        case p: True
        with b True consider "held th t" | "cb' i = Some t" by auto
        then show ?thesis
        proof cases
          case 1 with D(11) f show ?thesis by blast
        next
          case 2 with cb'(1) [OF 2] D(11) [OF f(1)] show ?thesis by blast
        qed
      qed
      moreover have "notes' = notes" using n b f True by auto
      ultimately show ?thesis using True by simp
    qed
  qed
qed

text \<open>
  Steps that move tokens to the thread \<open>t\<close>, which is no caller: from the table (a receiver, a shard
  that is closed).
\<close>

lemma cb_collect:
  assumes inv: "cb_inv cb th dn notes" and t: "\<not> posted (th t)" "\<not> posted x" "\<not> failed x" "\<not> failed (th t)"
    and x: "\<And>i u. (i, u) \<in> set (tokens x) \<longleftrightarrow> (i, u) \<in> set (tokens (th t)) \<or> S i \<and> cb i = Some u"
    and cb': "\<And>i. cb' i = (if S i then None else cb i)"
  shows "cb_inv cb' (th(t := x)) dn notes"
proof -
  note D = cb_invD [OF inv]
  have ne: "posted (th u) \<Longrightarrow> u \<noteq> t" for u using t(1) by auto
  have tok: "(i, u) \<in> set (tokens ((th(t := x)) y)) \<longleftrightarrow> (i, u) \<in> set (tokens (th y)) \<or> y = t \<and> S i \<and> cb i = Some u" for i u y
    using x by auto
  have h: "held (th(t := x)) u \<longleftrightarrow> held th u \<or> (\<exists>i. S i \<and> cb i = Some u)" for u
    unfolding held_def tok by blast
  show ?thesis
  proof (rule cb_invI, unfold h tok)
    fix i u assume a: "cb' i = Some u"
    then have b: "cb i = Some u" "\<not> S i" using cb' by (auto split: if_splits)
    note c = D(1-4) [OF b(1)]
    have "\<not> S j" if "cb j = Some u" for j using D(1) [OF that] c(1) b(2) by simp
    then have n: "\<not> (\<exists>i. S i \<and> cb i = Some u)" by blast
    show "thr_id ((th(t := x)) u) = Some i \<and> posted ((th(t := x)) u) \<and> \<not> dn u \<and> \<not> (held th u \<or> (\<exists>i. S i \<and> cb i = Some u))"
      using c n ne [OF c(2)] by simp
  next
    fix y i u assume "(i, u) \<in> set (tokens (th y)) \<or> y = t \<and> S i \<and> cb i = Some u"
    then have "thr_id (th u) = Some i" "posted (th u)" "\<not> dn u" using D(1-3,5-7) by blast+
    with ne show "thr_id ((th(t := x)) u) = Some i \<and> posted ((th(t := x)) u) \<and> \<not> dn u" by simp
  next
    fix y w i j u
    assume "(i, u) \<in> set (tokens (th y)) \<or> y = t \<and> S i \<and> cb i = Some u" "(j, u) \<in> set (tokens (th w)) \<or> w = t \<and> S j \<and> cb j = Some u"
    then show "w = y" using D(4,8) tokens_held by blast
  next
    fix u assume "dn u" with D(9) ne show "posted ((th(t := x)) u)" by fastforce
  next
    fix u assume "\<not> failed ((th(t := x)) u)"
    then show "told notes u \<le> 1" using D(10) t by (cases "u = t") auto
  next
    fix u i assume a: "\<not> failed ((th(t := x)) u)" and b: "(held th u \<or> (\<exists>i. S i \<and> cb i = Some u)) \<or> \<not> posted ((th(t := x)) u) \<or> cb' i = Some u"
    have f: "\<not> failed (th u)" using a t by (cases "u = t") auto
    have "held th u \<or> \<not> posted (th u) \<or> (\<exists>j. cb j = Some u)" using b cb' t(1) by (cases "u = t") (auto split: if_splits)
    with D(11) [OF f] show "told notes u = 0" by blast
  qed
qed

text \<open>A token is used up: its call is told the result, or the closure returns at once.\<close>

lemma cb_call:
  assumes inv: "cb_inv cb th dn notes" and t: "\<not> posted (th t)" "\<not> posted x" "\<not> failed x" "\<not> failed (th t)"
    and tk: "(i, u) \<in> set (tokens (th t))"
    and x: "\<And>j v. (j, v) \<in> set (tokens x) \<longleftrightarrow> (j, v) \<in> set (tokens (th t)) \<and> j \<noteq> i"
    and uniq: "\<And>v. thr_id (th v) = Some i \<Longrightarrow> v = u"
    and n: "dn' = dn \<and> notes' = notes \<or> dn' = dn(u := True) \<and> notes' = notes @ [(u, r)]"
  shows "cb_inv cb (th(t := x)) dn' notes'" "cb i = None" "\<not> dn u"
proof -
  note D = cb_invD [OF inv]
  have ut: "u \<noteq> t" using D(6) [OF tk] t(1) by auto
  have ne: "posted (th v) \<Longrightarrow> v \<noteq> t" for v using t(1) by auto
  show dnu: "\<not> dn u" using D(7) [OF tk] .
  have id_u: "thr_id (th u) = Some i" "posted (th u)" using D(5,6) [OF tk] .
  have held_u: "held th u" using tk unfolding held_def by blast
  show ci: "cb i = None"
  proof (rule ccontr)
    assume "cb i \<noteq> None"
    then obtain v where v: "cb i = Some v" by blast
    with uniq D(1) [OF v] have "v = u" by blast
    with D(4) [OF v] held_u show False by simp
  qed
  have tok: "(j, v) \<in> set (tokens ((th(t := x)) y)) \<longleftrightarrow> (j, v) \<in> set (tokens (th y)) \<and> v \<noteq> u" for j v y
  proof (cases "y = t")
    case True
    have "j \<noteq> i \<longleftrightarrow> v \<noteq> u" if m: "(j, v) \<in> set (tokens (th t))"
    proof
      assume "j \<noteq> i" with D(5) [OF m] id_u show "v \<noteq> u" by auto
    next
      assume "v \<noteq> u" with uniq D(5) [OF m] show "j \<noteq> i" by auto
    qed
    with x True show ?thesis by auto
  next
    case False
    then show ?thesis using D(8) [OF tk] by auto
  qed
  have h: "held (th(t := x)) v \<longleftrightarrow> held th v \<and> v \<noteq> u" for v
    unfolding held_def tok by blast
  have told': "told notes' v = told notes v" if "v \<noteq> u" for v using n that by auto
  have dn': "dn' v = dn v" if "v \<noteq> u" for v using n that by auto
  show "cb_inv cb (th(t := x)) dn' notes'"
  proof (rule cb_invI, unfold h tok)
    fix j v assume a: "cb j = Some v"
    note c = D(1-4) [OF a]
    have "v \<noteq> u" using c(4) held_u by auto
    with c ne [OF c(2)] dn' show "thr_id ((th(t := x)) v) = Some j \<and> posted ((th(t := x)) v) \<and> \<not> dn' v \<and> \<not> (held th v \<and> v \<noteq> u)" by simp
  next
    fix y j v assume "(j, v) \<in> set (tokens (th y)) \<and> v \<noteq> u"
    then have a: "(j, v) \<in> set (tokens (th y))" and v: "v \<noteq> u" by auto
    show "thr_id ((th(t := x)) v) = Some j \<and> posted ((th(t := x)) v) \<and> \<not> dn' v"
      using D(5-7) [OF a] v dn' ne by simp
  next
    fix y w j k v
    assume "(j, v) \<in> set (tokens (th y)) \<and> v \<noteq> u" "(k, v) \<in> set (tokens (th w)) \<and> v \<noteq> u"
    then show "w = y" using D(8) by blast
  next
    fix v assume "dn' v"
    then have p: "posted (th v)" using D(9) [of v] id_u(2) dn' [of v] by (cases "v = u") auto
    with ne [OF p] show "posted ((th(t := x)) v)" by simp
  next
    fix v assume a: "\<not> failed ((th(t := x)) v)"
    have f: "\<not> failed (th v)" using a t by (cases "v = t") auto
    show "told notes' v \<le> 1"
      using D(10) [OF f] D(11) [OF f] held_u told' [of v] n by (cases "v = u") auto
  next
    fix v j assume a: "\<not> failed ((th(t := x)) v)" and b: "(held th v \<and> v \<noteq> u) \<or> \<not> posted ((th(t := x)) v) \<or> cb j = Some v"
    have f: "\<not> failed (th v)" using a t by (cases "v = t") auto
    have vu: "v \<noteq> u" using b ut id_u(2) D(4) [of j u] held_u by auto
    have "held th v \<or> \<not> posted (th v) \<or> cb j = Some v" using b t(1) by (cases "v = t") auto
    with D(11) [OF f] told' [OF vu] show "told notes' v = 0" by simp
  qed
qed

text \<open>Steps of a thread outside the table; it may drop tokens.\<close>

lemma cb_quiet:
  assumes inv: "cb_inv cb th dn notes" and t: "\<not> posted (th t)" "\<not> posted x" "\<not> failed x" "\<not> failed (th t)"
    and x: "set (tokens x) \<subseteq> set (tokens (th t))"
  shows "cb_inv cb (th(t := x)) dn notes"
proof -
  note D = cb_invD [OF inv]
  have ne: "posted (th v) \<Longrightarrow> v \<noteq> t" for v using t(1) by auto
  have tok: "(j, v) \<in> set (tokens ((th(t := x)) y)) \<Longrightarrow> (j, v) \<in> set (tokens (th y))" for j v y
    using x by (auto split: if_splits)
  have h: "held (th(t := x)) v \<Longrightarrow> held th v" for v
    unfolding held_def using tok by blast
  show ?thesis
  proof (rule cb_invI)
    fix i u assume a: "cb i = Some u"
    show "thr_id ((th(t := x)) u) = Some i \<and> posted ((th(t := x)) u) \<and> \<not> dn u \<and> \<not> held (th(t := x)) u"
      using D(1-4) [OF a] ne [OF D(2) [OF a]] h by auto
  next
    fix y i u assume "(i, u) \<in> set (tokens ((th(t := x)) y))"
    note a = tok [OF this]
    show "thr_id ((th(t := x)) u) = Some i \<and> posted ((th(t := x)) u) \<and> \<not> dn u"
      using D(5-7) [OF a] ne [OF D(6) [OF a]] by simp
  next
    fix y w i j u assume "(i, u) \<in> set (tokens ((th(t := x)) y))" "(j, u) \<in> set (tokens ((th(t := x)) w))"
    then show "w = y" by (rule D(8) [OF tok tok])
  next
    fix u assume a: "dn u"
    show "posted ((th(t := x)) u)" using D(9) [OF a] ne [OF D(9) [OF a]] by simp
  next
    fix u assume a: "\<not> failed ((th(t := x)) u)"
    have f: "\<not> failed (th u)" using a t by (cases "u = t") auto
    then show "told notes u \<le> 1" by (rule D(10))
  next
    fix u i assume a: "\<not> failed ((th(t := x)) u)" and b: "held (th(t := x)) u \<or> \<not> posted ((th(t := x)) u) \<or> cb i = Some u"
    have f: "\<not> failed (th u)" using a t by (cases "u = t") auto
    show "told notes u = 0" by (rule D(11) [OF f, of i]) (use b h t(1) in \<open>cases "u = t"; auto\<close>)
  qed
qed

subsection \<open>The steps of the system\<close>

definition cbs_at :: "rpc_sys \<Rightarrow> bool" where
  "cbs_at s \<longleftrightarrow> cb_inv (cb_at (rs_pend s)) (rs_threads s) (rs_done s) (rs_notes s)"

lemma cb_at_fun [simp]:
  "cb_at (set_ch i c p) = cb_at p" "cb_at (drop_ch i p) = cb_at p" "cb_at (set_cb i t p) = (cb_at p)(i \<mapsto> t)"
  "cb_at (drop_cb i p) = (cb_at p)(i := None)" "cb_at (add_cur d p) = cb_at p"
  by (rule ext; simp)+

text \<open>A step that leaves table, results and \<open>doneCh\<close> alone.\<close>

lemma cbs_quiet:
  assumes "cbs_at s" "\<not> posted (rs_threads s t)" "\<not> posted x" "\<not> failed x" "\<not> failed (rs_threads s t)"
    and "set (tokens x) \<subseteq> set (tokens (rs_threads s t))"
    and "rs_threads s1 = rs_threads s" "cb_at (rs_pend s1) = cb_at (rs_pend s)" "rs_done s1 = rs_done s" "rs_notes s1 = rs_notes s"
  shows "cbs_at (goto t x s1)"
  unfolding cbs_at_def sys_sel assms(7-10) by (rule cb_quiet [OF assms(1) [unfolded cbs_at_def] assms(2-6)])

lemma sync_cbs:
  assumes step: "sync_do t pc ch s = Some s'" and t: "rs_threads s t = Sync pc" and inv: "cbs_at s"
  shows "cbs_at s'"
proof -
  note q = cbs_quiet [OF inv, where t = t]
  show ?thesis
    using step t
    by (auto simp: sync_do_eq Let_def genReqId_sel pool_get_sel
        split: sync_pc.splits if_splits choice.splits option.splits prod.splits intro!: q)
qed

text \<open>A step of an asynchronous call on its own account.\<close>

lemma cbs_self:
  assumes "cbs_at s" "set (tokens x) = set (tokens (rs_threads s t))"
    and "posted (rs_threads s t) \<and> (held (rs_threads s) t \<or> (\<exists>i. cb_at (rs_pend s1) i = Some t)) \<Longrightarrow> posted x \<and> thr_id x = thr_id (rs_threads s t)"
    and "posted (rs_threads s t) \<Longrightarrow> \<not> posted x \<Longrightarrow> \<not> rs_done s t \<and> \<not> held (rs_threads s) t" "failed (rs_threads s t) \<Longrightarrow> failed x"
    and "\<And>i u. cb_at (rs_pend s1) i = Some u \<Longrightarrow> cb_at (rs_pend s) i = Some u \<or> u = t \<and> thr_id x = Some i \<and> posted x \<and> \<not> posted (rs_threads s t)"
      "\<And>i. \<not> posted x \<Longrightarrow> cb_at (rs_pend s1) i \<noteq> Some t"
    and "rs_notes s1 = rs_notes s \<or> (\<exists>r. rs_notes s1 = rs_notes s @ [(t, r)] \<and>
        (\<not> failed x \<longrightarrow> told (rs_notes s) t = 0 \<and> posted x \<and> \<not> held (rs_threads s) t \<and> (\<forall>i. cb_at (rs_pend s1) i \<noteq> Some t)))"
    and "\<not> failed x \<Longrightarrow> \<not> posted x \<Longrightarrow> told (rs_notes s) t = 0"
    and "rs_threads s1 = rs_threads s" "rs_done s1 = rs_done s"
  shows "cbs_at (goto t x s1)"
  unfolding cbs_at_def sys_sel assms(10,11) by (rule cb_self [OF assms(1) [unfolded cbs_at_def] assms(2-9)]) auto

lemma async_cbs:
  assumes step: "async_do t pc ch s = Some s'" and t: "rs_threads s t = Async pc" and inv: "cbs_at s" and ids: "ids_ok s"
  shows "cbs_at s'"
proof -
  note D = cb_invD [OF inv [unfolded cbs_at_def]]
  note q = cbs_quiet [OF inv, where t = t]
  note self = cbs_self [OF inv, where t = t]
  have nh: "\<not> held (rs_threads s) t" if "\<not> posted (rs_threads s t)" using D(6) that unfolding held_def by blast
  have nc: "cb_at (rs_pend s) j \<noteq> Some t" if "\<not> posted (rs_threads s t)" for j using D(2) that by blast
  have mine: "u = t" if "cb_at (rs_pend s) i = Some u" "async_id pc = Some i" for i u
    using ids D(1) [OF that(1)] that(2) t unfolding ids_ok_def by auto
  have own: "j = i" if "cb_at (rs_pend s) j = Some t" "async_id pc = Some i" for i j
    using D(1) [OF that(1)] that(2) t by simp
  show ?thesis
  proof (cases pc)
    case (AEncode i)
    then consider "s' = goto t (Async (AOpen i)) s" | "s' = goto t (Async (ADone (Some i))) s"
      using step by (auto simp: async_do_eq split: choice.splits)
    then show ?thesis
    proof cases
      case 1 with t AEncode show ?thesis by (auto intro!: q)
    next
      case 2 with t AEncode nh nc D(11) [of t] show ?thesis by (auto intro!: self)
    qed
  next
    case (ALock i)
    have none: "cb_at (rs_pend s) i = None"
    proof (rule ccontr)
      assume "cb_at (rs_pend s) i \<noteq> None"
      then obtain u where "cb_at (rs_pend s) i = Some u" by blast
      with mine [OF this] nc t ALock show False by auto
    qed
    show ?thesis
    proof (cases "pm_closed (rs_pend s)")
      case True with step t ALock show ?thesis by (auto simp: async_do_eq intro!: q)
    next
      case False with step t ALock nh nc none show ?thesis by (auto simp: async_do_eq intro!: self split: if_splits)
    qed
  next
    case (ARefuse i e)
    with step nh nc t D(11) [of t] show ?thesis by (auto simp: async_do_eq intro!: self)
  next
    case (ASend i)
    with step t show ?thesis by (auto simp: async_do_eq split: choice.splits intro!: self)
  next
    case (AFail i e)
    with step t show ?thesis by (auto simp: async_do_eq intro!: self)
  next
    case (AUnput i)
    with step t show ?thesis by (auto simp: async_do_eq intro!: self split: if_splits)
  next
    case (AUndec i)
    with step t show ?thesis by (auto simp: async_do_eq intro!: self)
  next
    case (AWatch i)
    with step t show ?thesis by (auto simp: async_do_eq split: choice.splits if_splits intro!: self)
  next
    case (ATake i)
    show ?thesis
    proof (cases "cb_at (rs_pend s) i")
      case None
      with step t ATake show ?thesis by (auto simp: async_do_eq intro!: self split: if_splits)
    next
      case (Some u)
      with mine [OF Some] ATake have u: "cb_at (rs_pend s) i = Some t" by simp
      have s': "s' = goto t (Async (ATimeout i)) (on_pend (drop_cb i) s)" using step ATake Some by (simp add: async_do_eq)
      have z: "told (rs_notes s) t = 0" by (rule D(11) [of t i]) (use t ATake u in simp_all)
      have o: "((cb_at (rs_pend s))(i := None)) j \<noteq> Some t" for j using own [of j i] ATake by auto
      have c: "((cb_at (rs_pend s))(i := None)) j = Some v \<Longrightarrow> cb_at (rs_pend s) j = Some v" for j v by (simp split: if_splits)
      show ?thesis unfolding s'
        by (intro self) (use t ATake D(3,4) [OF u] z o c in \<open>simp_all del: fun_upd_apply\<close>)
    qed
  next
    case (ATimeout i)
    with step nh nc t D(11) [of t] show ?thesis by (auto simp: async_do_eq intro!: self)
  qed (use step t in \<open>auto simp: async_do_eq Let_def genReqId_sel split: if_splits intro!: q\<close>)
qed

lemma posted_async: "posted x \<Longrightarrow> \<exists>pc. x = Async pc"
  by (cases x rule: posted.cases) auto

text \<open>Running a callback whose token the thread holds: no panic, and the token is used up.\<close>

lemma callback_cbs:
  assumes inv: "cbs_at s" and ids: "ids_ok s" and t: "\<not> posted (rs_threads s t)" "\<not> posted x" "\<not> failed x" "\<not> failed (rs_threads s t)"
    and tk: "(i, u) \<in> set (tokens (rs_threads s t))"
    and x: "\<And>j v. (j, v) \<in> set (tokens x) \<longleftrightarrow> (j, v) \<in> set (tokens (rs_threads s t)) \<and> j \<noteq> i"
  shows "own_id s u = i" "cbs_at (run_callback t x u i fr s)" "rs_threads (run_callback t x u i fr s) = (rs_threads s)(t := x)"
proof -
  note I = inv [unfolded cbs_at_def]
  note D = cb_invD [OF I]
  obtain pc where "rs_threads s u = Async pc" using posted_async [OF D(6) [OF tk]] by blast
  then show "own_id s u = i" using D(5) [OF tk] by (simp add: own_id_def)
  have uniq: "v = u" if "thr_id (rs_threads s v) = Some i" for v
    using ids D(5) [OF tk] that unfolding ids_ok_def by blast
  note call = cb_call [OF I t tk x uniq]
  have none: "cb_at (rs_pend s) i = None" "\<not> rs_done s u" using call(2,3) by blast+
  then have same: "(cb_at (rs_pend s))(i := None) = cb_at (rs_pend s)" by auto
  show "rs_threads (run_callback t x u i fr s) = (rs_threads s)(t := x)"
    using none by (simp add: run_callback_def Let_def)
  show "cbs_at (run_callback t x u i fr s)"
  proof (cases "fr_ID fr \<noteq> i \<or> fr_T fr \<noteq> FrameTypeResponse")
    case True
    then show ?thesis using call(1) [of "rs_done s" "rs_notes s"] by (simp add: run_callback_def cbs_at_def)
  next
    case False
    then show ?thesis using none same call(1) [of "(rs_done s)(u := True)" "rs_notes s @ [(u, Reply fr)]" "Reply fr"]
      by (simp add: run_callback_def Let_def cbs_at_def)
  qed
qed

lemma deliver_cbs:
  assumes step: "deliver_do t pc ch s = Some s'" and t: "rs_threads s t = Deliver pc" and inv: "cbs_at s" and ids: "ids_ok s"
  shows "cbs_at s'"
proof -
  note q = cbs_quiet [OF inv, where t = t]
  show ?thesis
  proof (cases pc)
    case (DEnter fr)
    define x where "x = Deliver (if ch_at (rs_pend s) (fr_ID fr) \<noteq> None \<or> cb_at (rs_pend s) (fr_ID fr) \<noteq> None
        then DDec fr (ch_at (rs_pend s) (fr_ID fr)) (cb_at (rs_pend s) (fr_ID fr)) else DDone)"
    have s': "s' = goto t x (on_pend (drop_cb (fr_ID fr)) (on_pend (drop_ch (fr_ID fr)) s))"
      using step DEnter by (simp add: deliver_do_def Let_def x_def)
    have tk: "(i, u) \<in> set (tokens x) \<longleftrightarrow> i = fr_ID fr \<and> cb_at (rs_pend s) i = Some u" for i u
      by (cases "cb_at (rs_pend s) (fr_ID fr)") (auto simp: x_def)
    have "cb_inv ((cb_at (rs_pend s))(fr_ID fr := None)) ((rs_threads s)(t := x)) (rs_done s) (rs_notes s)"
      by (rule cb_collect [OF inv [unfolded cbs_at_def], where S = "\<lambda>i. i = fr_ID fr"]) (use t DEnter tk in \<open>auto simp: x_def\<close>)
    then show ?thesis by (simp add: s' cbs_at_def)
  next
    case (DDec fr c fn)
    with step t show ?thesis by (cases c; cases fn) (auto simp: deliver_do_def intro!: q)
  next
    case (DSend fr c fn)
    consider d where "c = Some d" | u where "c = None" "fn = Some u" | "c = None" "fn = None" by (cases c; cases fn) auto
    then show ?thesis
    proof cases
      case 1
      with step t DSend show ?thesis by (cases fn) (auto simp: deliver_do_def split: if_splits intro!: q)
    next
      case 2
      have tk: "tokens (rs_threads s t) = [(fr_ID fr, u)]" using t DSend 2 by simp
      have c: "own_id s u = fr_ID fr" "cbs_at (run_callback t (Deliver DDone) u (fr_ID fr) fr s)"
        by (rule callback_cbs(1,2) [OF inv ids, of t "Deliver DDone" "fr_ID fr" u]; use t DSend tk in simp)+
      have "s' = run_callback t (Deliver DDone) u (own_id s u) fr s" using step DSend 2 by (simp add: deliver_do_def)
      with c show ?thesis by simp
    next
      case 3
      with step t DSend show ?thesis by (auto simp: deliver_do_def intro!: q)
    qed
  next
    case DDone
    with step show ?thesis by (simp add: deliver_do_def)
  qed
qed

lemma delete_mem: "(j, v) \<in> set (AList.delete i xs) \<longleftrightarrow> (j, v) \<in> set xs \<and> j \<noteq> i"
  by (auto simp: AList.delete_eq)

lemma close_cbs:
  assumes step: "close_do t pc ch s = Some s'" and t: "rs_threads s t = Closer pc" and inv: "cbs_at s" and ids: "ids_ok s"
    and tab: "tab_ok (rs_pend s)"
  shows "cbs_at s'"
proof -
  note q = cbs_quiet [OF inv, where t = t]
  show ?thesis
  proof (cases pc)
    case (CShard k cbs)
    have m: "(i, u) \<in> set (cbMap (shards (rs_pend s) k)) \<longleftrightarrow> shard_of i = k \<and> cb_at (rs_pend s) i = Some u" for i u
      by (rule tab_entries(2) [OF tab])
    have c: "cb_inv (cb_at (rs_pend (shut_shard k s))) ((rs_threads s)(t := Closer (CShard (Suc k) (cbs @ cbMap (shards (rs_pend s) k)))))
        (rs_done s) (rs_notes s)"
      by (rule cb_collect [OF inv [unfolded cbs_at_def], where S = "\<lambda>i. shard_of i = k"]) (use t CShard m in \<open>auto simp: shut_shard_def\<close>)
    show ?thesis
      using step CShard t c
      by (auto simp: close_do_def Let_def shut_shard_def cbs_at_def split: if_splits)
        (use q [where x = "Closer (CStore cbs)" and ?s1.0 = s] q [where x = Panicked and ?s1.0 = s] in \<open>auto simp: cbs_at_def\<close>)
  next
    case (CCall cbs)
    show ?thesis
    proof (cases "\<exists>i. ch = Call i")
      case True
      then obtain i u where u: "map_of cbs i = Some u"
        "s' = run_callback t (Closer (CCall (AList.delete i cbs))) u (own_id s u) (closed_frame i) s"
        using CCall step by (auto simp: close_do_def split: option.splits)
      have "(i, u) \<in> set (tokens (rs_threads s t))" using map_of_SomeD [OF u(1)] t CCall by simp
      then have "own_id s u = i" "cbs_at (run_callback t (Closer (CCall (AList.delete i cbs))) u i (closed_frame i) s)"
        by (rule callback_cbs(1,2) [OF inv ids, of t "Closer (CCall (AList.delete i cbs))" i u, rotated 4];
          use t CCall in \<open>simp add: delete_mem\<close>)+
      then show ?thesis using u(2) by simp
    next
      case False
      with CCall step t show ?thesis by (auto simp: close_do_def split: choice.splits if_splits intro!: q)
    qed
  qed (use step t in \<open>auto simp: close_do_def Let_def split: if_splits intro!: q\<close>)
qed

lemma rpc_cbs:
  assumes "rpc_do t ch s = Some s'" "cbs_at s" "ids_ok s" "tab_ok (rs_pend s)"
  shows "cbs_at s'"
  using assms sync_cbs async_cbs deliver_cbs close_cbs unfolding rpc_do_def
  by (cases "rs_threads s t") auto

lemma cbs_init: "cbs_at (rpc_init m)"
  by (auto simp: cbs_at_def rpc_init_def cb_inv_def tabled_ok_def tokens_ok_def done_ok_def told_ok_def
      cb_at_def newPendingMap_def newPendingShard_def)

lemma entry_quiet: "entry x \<Longrightarrow> \<not> posted x \<and> \<not> failed x \<and> tokens x = []"
  by (auto simp: entry_def split: thread.splits sync_pc.splits async_pc.splits deliver_pc.splits close_pc.splits)

lemma rpc_inv:
  assumes "rpc_reachable m s" "rs_gen s < 2 ^ 64"
  shows "cbs_at s \<and> ids_ok s \<and> tab_ok (rs_pend s)"
  using assms
proof induction
  case init
  then show ?case by (simp add: cbs_init ids_init tab_init)
next
  case (spawn s t x)
  then have s: "cbs_at s" "ids_ok s" "tab_ok (rs_pend s)" by auto
  have "cbs_at (goto t x s)"
    using entry_quiet [OF spawn.hyps(3)] spawn.hyps(2) by (intro cbs_quiet [OF s(1)]) auto
  then show ?case using s ids_spawn [OF s(2) spawn.hyps(3)] by simp
next
  case (step s t ch s')
  have g: "rs_gen s < 2 ^ 64" using rpc_gen_mono [OF step.hyps(2)] step.prems by linarith
  obtain x where "id_step s t x s'" using rpc_id_step [OF step.hyps(2)] by blast
  then show ?case
    using step.IH [OF g] rpc_cbs [OF step.hyps(2)] tab_step [OF step.hyps(2)] ids_ok_step step.prems by blast
qed

end
