(* ===== verification/RpcPendingProps.thy ===== *)
theory RpcPendingProps
  imports RpcOnce
begin

section \<open>Pending calls: the properties\<close>

subsection \<open>No panic in calm runs\<close>

lemma panic_step:
  assumes step: "rpc_do t ch s = Some s'" and inv: "chans_at s" "cbs_at s" "ids_ok s" "tab_ok (rs_pend s)"
    and p: "rs_threads s u \<noteq> Panicked"
  shows "rs_threads s' u \<noteq> Panicked"
proof (cases "u = t")
  case False
  obtain x where "id_step s t x s'" using rpc_id_step [OF step] by blast
  with False p show ?thesis by (simp add: id_step_def)
next
  case True
  note I = inv(1) [unfolded chans_at_def]
  show ?thesis
  proof (cases "rs_threads s t")
    case (Sync pc)
    with step True show ?thesis
      by (auto simp: rpc_do_def sync_do_eq Let_def genReqId_sel pool_get_sel
          split: sync_pc.splits if_splits choice.splits option.splits prod.splits)
  next
    case (Async pc)
    with step True show ?thesis
      by (auto simp: rpc_do_def async_do_eq Let_def genReqId_sel split: async_pc.splits if_splits choice.splits option.splits prod.splits)
  next
    case (Deliver pc)
    show ?thesis
    proof (cases "\<exists>fr c fn. pc = DSend fr c fn")
      case False
      with step True Deliver show ?thesis
        by (auto simp: rpc_do_def deliver_do_def Let_def split: deliver_pc.splits if_splits)
    next
      case f: True
      then obtain fr c fn where pc: "pc = DSend fr c fn" by blast
      consider d where "c = Some d" | v where "c = None" "fn = Some v" | "c = None" "fn = None" by (cases c; cases fn) auto
      then show ?thesis
      proof cases
        case 1
        with chan_send(1) [OF I, of t fr d fn] Deliver pc have "rs_cells s d = new_cell" by simp
        with step True Deliver pc 1 show ?thesis by (auto simp: rpc_do_def deliver_do_def)
      next
        case 2
        have "rs_threads (run_callback t (Deliver DDone) v (own_id s v) fr s) = (rs_threads s)(t := Deliver DDone)"
          "own_id s v = fr_ID fr" if "i = fr_ID fr" for i
          using callback_cbs(1,3) [OF inv(2,3), where t = t and x = "Deliver DDone" and i = i and u = v] that Deliver pc 2 by auto
        with step True Deliver pc 2 show ?thesis by (auto simp: rpc_do_def deliver_do_def)
      next
        case 3
        with step True Deliver pc show ?thesis by (auto simp: rpc_do_def deliver_do_def)
      qed
    qed
  next
    case (Closer pc)
    show ?thesis
    proof (cases pc)
      case (CShard k cbs)
      have "\<not> shut (rs_cells s c)" if m: "c \<in> snd ` set (chMap (shards (rs_pend s) k))" for c
      proof -
        obtain i where "(i, c) \<in> set (chMap (shards (rs_pend s) k))" using m by auto
        then have "ch_at (rs_pend s) i = Some c" using tab_entries(1) [OF inv(4)] by simp
        then have "rs_cells s c = new_cell" by (rule chan_okD(6) [OF chan_invD(1) [OF I]])
        then show ?thesis by simp
      qed
      with step True Closer CShard show ?thesis by (auto simp: rpc_do_def close_do_def Let_def shut_shard_def split: if_splits)
    next
      case (CCall cbs)
      show ?thesis
      proof (cases "\<exists>i v. ch = Call i \<and> map_of cbs i = Some v")
        case True
        then obtain i v where v: "ch = Call i" "map_of cbs i = Some v" by blast
        have "(i, v) \<in> set (tokens (rs_threads s t))" using map_of_SomeD [OF v(2)] Closer CCall by simp
        then have "rs_threads (run_callback t (Closer (CCall (AList.delete i cbs))) v i (closed_frame i) s) =
            (rs_threads s)(t := Closer (CCall (AList.delete i cbs)))" "own_id s v = i"
          by (rule callback_cbs(1,3) [OF inv(2,3), of t "Closer (CCall (AList.delete i cbs))" i v, rotated 4];
            use Closer CCall in \<open>simp add: delete_mem\<close>)+
        with step \<open>u = t\<close> Closer CCall v show ?thesis by (auto simp: rpc_do_def close_do_def)
      next
        case False
        with step True Closer CCall show ?thesis
          by (auto simp: rpc_do_def close_do_def split: choice.splits option.splits if_splits)
      qed
    qed (use step True Closer in \<open>auto simp: rpc_do_def close_do_def Let_def split: if_splits\<close>)
  qed (use step p True in \<open>auto simp: rpc_do_def\<close>)
qed

lemma calm_is_reachable: "calm_reachable m s \<Longrightarrow> rpc_reachable m s"
  by (induction rule: calm_reachable.induct) (auto intro: rpc_reachable.intros)

lemma calm_no_panic: "calm_reachable m s \<Longrightarrow> rs_gen s < 2 ^ 64 \<Longrightarrow> rs_threads s u \<noteq> Panicked"
proof (induction rule: calm_reachable.induct)
  case init
  show ?case by (simp add: rpc_init_def)
next
  case (spawn s t x)
  then show ?case by (auto simp: entry_def)
next
  case (step s t ch s')
  have g: "rs_gen s < 2 ^ 64" using rpc_gen_mono [OF step.hyps(3)] step.prems by linarith
  show ?case
    by (rule panic_step [OF step.hyps(3)])
      (use calm_inv [OF step.hyps(1) g] rpc_inv [OF calm_is_reachable [OF step.hyps(1)] g] step.IH [OF g] in blast)+
qed

subsection \<open>Runs as lists of actions\<close>

datatype action = Spawn nat thread | Do nat choice

fun rpc_exec :: "action list \<Rightarrow> rpc_sys \<Rightarrow> rpc_sys option" where
  "rpc_exec [] s = Some s"
| "rpc_exec (Spawn t x # as) s = (if rs_threads s t = Idle \<and> entry x then rpc_exec as (goto t x s) else None)"
| "rpc_exec (Do t ch # as) s = (case rpc_do t ch s of None \<Rightarrow> None | Some s' \<Rightarrow> rpc_exec as s')"

lemma reachable_exec: "rpc_exec as s = Some s' \<Longrightarrow> rpc_reachable m s \<Longrightarrow> rpc_reachable m s'"
  by (induction as s rule: rpc_exec.induct)
    (auto split: if_splits option.splits intro: rpc_reachable.intros)

lemma exec_view:
  assumes "map_option f (rpc_exec as (rpc_init m)) = Some v"
  shows "\<exists>s. rpc_reachable m s \<and> f s = v"
  using assms reachable_exec [OF _ rpc_reachable.init] by auto

text \<open>Calm runs of the threads below \<open>N\<close>.\<close>

definition calm_at :: "nat \<Rightarrow> rpc_sys \<Rightarrow> nat \<Rightarrow> bool" where
  "calm_at N s t \<longleftrightarrow> (case sel (rs_threads s t) of None \<Rightarrow> True
     | Some (i, c) \<Rightarrow> list_all (\<lambda>x. case carry (rs_threads s x) of None \<Rightarrow> True | Some (fr, d) \<Rightarrow> d \<noteq> c) [0..<N])"

fun calm_exec :: "nat \<Rightarrow> action list \<Rightarrow> rpc_sys \<Rightarrow> rpc_sys option" where
  "calm_exec N [] s = Some s"
| "calm_exec N (Spawn t x # as) s = (if t < N \<and> rs_threads s t = Idle \<and> entry x then calm_exec N as (goto t x s) else None)"
| "calm_exec N (Do t ch # as) s =
     (if t < N \<and> calm_at N s t then case rpc_do t ch s of None \<Rightarrow> None | Some s' \<Rightarrow> calm_exec N as s' else None)"

lemma calm_at_calm:
  assumes "calm_at N s t" "\<And>x. N \<le> x \<Longrightarrow> rs_threads s x = Idle"
  shows "\<not> overtakes s t"
proof
  assume "overtakes s t"
  then obtain i c r x fr where c: "rs_threads s t = Sync (SSel i c r)" "carry (rs_threads s x) = Some (fr, c)"
    unfolding overtakes_def uncarried_def by blast
  then have "x < N" using assms(2) [of x] by (cases "x < N") auto
  then have "case carry (rs_threads s x) of None \<Rightarrow> True | Some (fr, d) \<Rightarrow> d \<noteq> c"
    using assms(1) c(1) by (simp add: calm_at_def list_all_iff)
  with c(2) show False by simp
qed

lemma reachable_calm_exec:
  assumes "calm_exec N as s = Some s'" "calm_reachable m s" "\<And>x. N \<le> x \<Longrightarrow> rs_threads s x = Idle"
  shows "calm_reachable m s'"
  using assms
proof (induction N as s rule: calm_exec.induct)
  case (2 N t x as s)
  then show ?case by (auto split: if_splits intro: calm_reachable.spawn)
next
  case (3 N t ch as s)
  then obtain s1 where d: "t < N" "calm_at N s t" "rpc_do t ch s = Some s1" "calm_exec N as s1 = Some s'"
    by (auto split: if_splits option.splits)
  obtain x where x: "id_step s t x s1" using rpc_id_step [OF d(3)] by blast
  have "calm_reachable m s1" using calm_reachable.step [OF 3(3) calm_at_calm [OF d(2) 3(4)] d(3)] .
  moreover have "rs_threads s1 y = Idle" if "N \<le> y" for y using x 3(4) [OF that] d(1) that by (simp add: id_step_def)
  ultimately show ?case using 3(1) d by auto
qed auto

lemma calm_view:
  assumes "map_option f (calm_exec N as (rpc_init m)) = Some v"
  shows "\<exists>s. calm_reachable m s \<and> f s = v"
proof -
  obtain s where s: "calm_exec N as (rpc_init m) = Some s" "f s = v" using assms by auto
  have "calm_reachable m s" using reachable_calm_exec [OF s(1) calm_reachable.init] by (simp add: rpc_init_def)
  with s(2) show ?thesis by blast
qed

definition reply_to :: "reqid \<Rightarrow> Frame" where
  "reply_to i = zero_Frame\<lparr>fr_T := FrameTypeResponse, fr_ID := i\<rparr>"

definition call_steps :: "nat \<Rightarrow> action list" where
  "call_steps t = Spawn t (Sync SEnter) # replicate 4 (Do t Go) @ [Do t (Pick 0), Do t Go]"

definition post_steps :: "nat \<Rightarrow> action list" where
  "post_steps t = Spawn t (Async AEnter) # replicate 6 (Do t Go)"

text \<open>
  C32: every response reaches its own call, unless a call gives up while its response is on the way.
  In calm runs of any number of calls, receivers and \<open>closeAll\<close>, in any interleaving: a synchronous
  call that returns a response returns one with its own id, and no thread panics (no send on, and no
  second close of, a closed channel, no second close of \<open>doneCh\<close>), as long as fewer than \<open>2\<^sup>6\<^sup>4\<close> ids
  were drawn.
\<close>

theorem rpc_reply_matches:
  assumes "calm_reachable m s" "rs_gen s < 2 ^ 64"
  shows "(\<forall>t i fr. rs_threads s t = Sync (SDone (Some i) (Reply fr)) \<longrightarrow> fr_ID fr = i) \<and> (\<forall>t. rs_threads s t \<noteq> Panicked)"
proof (intro conjI allI impI)
  fix t i fr
  have "chans_at s" using calm_inv [OF assms] by blast
  then show "rs_threads s t = Sync (SDone (Some i) (Reply fr)) \<Longrightarrow> fr_ID fr = i"
    using chan_invD(3) [of _ _ _ _ "rs_threads s" t i fr] unfolding chans_at_def by simp
  show "rs_threads s t \<noteq> Panicked" using calm_no_panic [OF assms] .
qed

text \<open>Two calls that share the channel one after the other, each with its response.\<close>

definition two_calls :: "action list" where
  "two_calls = call_steps 0 @ [Spawn 1 (Deliver (DEnter (reply_to 1))), Do 1 Go, Do 1 Go, Do 1 Go] @ replicate 3 (Do 0 Go) @
     call_steps 2 @ [Spawn 3 (Deliver (DEnter (reply_to 2))), Do 3 Go, Do 3 Go, Do 3 Go] @ replicate 3 (Do 2 Go)"

lemma two_calls_run:
  "map_option (\<lambda>s. (rs_threads s 2, rs_gen s, rs_pool s)) (calm_exec 4 two_calls (rpc_init 8)) =
   Some (Sync (SDone (Some 2) (Reply (reply_to 2))), 2, [0])"
  by code_simp

lemma rpc_reply_matches_witness:
  "\<exists>s fr. calm_reachable 8 s \<and> rs_threads s 2 = Sync (SDone (Some 2) (Reply fr)) \<and> fr_ID fr = 2 \<and> rs_threads s 2 \<noteq> Panicked"
proof -
  obtain s where s: "calm_reachable 8 s" "rs_threads s 2 = Sync (SDone (Some 2) (Reply (reply_to 2)))" "rs_gen s = 2"
    using calm_view [OF two_calls_run] by auto
  have "rs_gen s < 2 ^ 64" using s(3) by simp
  from rpc_reply_matches [OF s(1) this] s(1,2) show ?thesis by blast
qed

text \<open>Runs in which a receiver sends late.\<close>

definition late_send :: "action list" where
  "late_send = call_steps 0 @ [Spawn 1 (Deliver (DEnter (reply_to 1))), Do 1 Go, Do 1 Go, Do 0 Timer, Do 0 Go, Do 0 Go] @ call_steps 2"

lemma reply_to_ID: "fr_ID (reply_to i) = i"
  by (simp add: reply_to_def)

text \<open>
  The point where it goes wrong: the call \<open>t\<close> with id \<open>i\<close> waits on the channel \<open>c\<close>, the receiver \<open>d\<close>
  has taken its entry out of the table and is about to send its response \<open>fr\<close> into \<open>c\<close>.
\<close>

definition reply_on_the_way :: "rpc_sys \<Rightarrow> nat \<Rightarrow> reqid \<Rightarrow> chan \<Rightarrow> nat \<Rightarrow> Frame \<Rightarrow> bool" where
  "reply_on_the_way s t i c d fr \<longleftrightarrow>
     rs_threads s t = Sync (SWait i c) \<and> rs_threads s d = Deliver (DSend fr (Some c) None) \<and> fr_ID fr = i \<and>
     ch_at (rs_pend s) i = None \<and> buf (rs_cells s c) = None \<and> \<not> shut (rs_cells s c)"

lemma ch_at_set_ch: "ch_at (set_ch j c p) j = Some c"
  by (simp add: ch_at_def set_ch_def upd_shard_def update_Some_unfold)

lemma gives_up:
  assumes "reply_on_the_way s t i c d fr" "g = Timer \<and> r = TimedOut \<or> g = Cancel \<and> r = Canceled"
  shows "rpc_exec [Do t g, Do t Go, Do t Go] s =
    Some (goto t (Sync (SDone (Some i) r)) (s\<lparr>rs_pend := drop_ch i (rs_pend s), rs_pool := rs_pool s @ [c]\<rparr>))"
  using assms
  by (auto simp: reply_on_the_way_def rpc_do_def sync_do_def await_def delCh_do_def give_back_def goto_def on_pend_def
      pool_put_def Let_def)

text \<open>The next call takes the channel and waits on it, and the receiver is still there.\<close>

lemma takes_over:
  assumes "rs_threads s u = Sync (SLock j)" "\<not> pm_closed (rs_pend s)" "rs_pool s = cs @ [c]"
  shows "rpc_exec [Do u (Pick (length cs)), Do u Go] s =
    Some (goto u (Sync (SWait j c)) (s\<lparr>rs_pend := set_ch j c (rs_pend s), rs_pool := cs\<rparr>))"
  using assms
  by (auto simp: rpc_do_def sync_do_def addCh_do_def pool_get_def goto_def on_pend_def Let_def)

lemma gets_the_wrong_reply:
  assumes "rs_threads s u = Sync (SWait j c)" "rs_threads s d = Deliver (DSend fr (Some c) fn)" "u \<noteq> d"
    and "ch_at (rs_pend s) j = Some c" "buf (rs_cells s c) = None" "\<not> shut (rs_cells s c)"
  shows "\<exists>s'. rpc_exec [Do d Go, Do u Go, Do u Go, Do u Go, Do u Go] s = Some s' \<and>
    rs_threads s' u = Sync (SDone (Some j) (Reply fr))"
  using assms
  by (auto simp: rpc_do_def deliver_do_def sync_do_def await_def delCh_do_def goto_def on_pend_def set_buf_def
      pool_put_def Let_def)

text \<open>The step of \<open>closeAll\<close> that reaches the shard of the call shuts the channel the receiver is about to use.\<close>

lemma panics_when_closed:
  assumes "rs_threads s x = Closer (CShard (shard_of j) cbs)" "rs_threads s d = Deliver (DSend fr (Some c) fn)" "x \<noteq> d"
    and "ch_at (rs_pend s) j = Some c" "\<forall>c \<in> snd ` set (chMap (shards (rs_pend s) (shard_of j))). \<not> shut (rs_cells s c)"
  shows "\<exists>s'. rpc_exec [Do x Go, Do d Go] s = Some s' \<and> rs_threads s' d = Panicked"
proof -
  have "(j, c) \<in> set (chMap (shards (rs_pend s) (shard_of j)))"
    using assms(4) by (simp add: ch_at_def map_of_SomeD)
  then have m: "c \<in> snd ` set (chMap (shards (rs_pend s) (shard_of j)))" by force
  have k: "\<not> pendingShardCount \<le> shard_of j" by (simp add: shard_of_def pendingShardCount_def)
  show ?thesis
    using assms(1-3,5) m k
    by (auto simp: rpc_do_def close_do_def deliver_do_def shut_shard_def goto_def Let_def)
qed

text \<open>
  C33: a call that gives up while its response is on the way can hand the response to another call,
  or make the receiver panic.  Take any reachable state in which the call \<open>t\<close> (id \<open>i\<close>) waits on a
  channel \<open>c\<close> and a receiver \<open>d\<close>, which has removed its entry, is about to send its response into
  \<open>c\<close>, while another call \<open>u\<close> (id \<open>j\<close>) is about to take a channel from the pool.  If \<open>t\<close> now times
  out or is cancelled, it returns and puts \<open>c\<close> into the pool, although \<open>d\<close> still holds it; \<open>u\<close> takes \<open>c\<close> and waits
  on it.  Then, when \<open>d\<close> sends, \<open>u\<close> returns the response to the call \<open>i\<close> as its own; and in any later
  state in which \<open>d\<close> has not sent yet, \<open>c\<close> is still the channel of \<open>u\<close>'s entry and \<open>closeAll\<close> comes to its
  shard, that step closes \<open>c\<close>, and the receiver panics when it sends.
\<close>

theorem rpc_timeout_crosstalk:
  assumes "rpc_reachable m s" "reply_on_the_way s t i c d fr"
    and "rs_threads s u = Sync (SLock j)" "\<not> pm_closed (rs_pend s)" "j \<noteq> i"
    and "g = Timer \<and> r = TimedOut \<or> g = Cancel \<and> r = Canceled"
  shows "\<exists>s1 s2. rpc_exec [Do t g, Do t Go, Do t Go] s = Some s1 \<and> rpc_reachable m s1 \<and>
      rs_threads s1 t = Sync (SDone (Some i) r) \<and> rs_pool s1 = rs_pool s @ [c] \<and>
      rs_threads s1 d = Deliver (DSend fr (Some c) None) \<and>
    rpc_exec [Do u (Pick (length (rs_pool s))), Do u Go] s1 = Some s2 \<and> rpc_reachable m s2 \<and>
      rs_threads s2 u = Sync (SWait j c) \<and> ch_at (rs_pend s2) j = Some c \<and>
      rs_threads s2 d = Deliver (DSend fr (Some c) None) \<and>
    (\<exists>s3. rpc_exec [Do d Go, Do u Go, Do u Go, Do u Go, Do u Go] s2 = Some s3 \<and> rpc_reachable m s3 \<and>
      rs_threads s3 u = Sync (SDone (Some j) (Reply fr)) \<and> fr_ID fr \<noteq> j) \<and>
    (\<forall>s3 x cbs. rpc_reachable m s3 \<longrightarrow> rs_threads s3 d = Deliver (DSend fr (Some c) None) \<longrightarrow>
      ch_at (rs_pend s3) j = Some c \<longrightarrow> rs_threads s3 x = Closer (CShard (shard_of j) cbs) \<longrightarrow>
      (\<forall>c' \<in> snd ` set (chMap (shards (rs_pend s3) (shard_of j))). \<not> shut (rs_cells s3 c')) \<longrightarrow>
      (\<exists>s4. rpc_exec [Do x Go, Do d Go] s3 = Some s4 \<and> rpc_reachable m s4 \<and> rs_threads s4 d = Panicked))"
proof -
  note A = assms(2) [unfolded reply_on_the_way_def]
  let ?s1 = "goto t (Sync (SDone (Some i) r)) (s\<lparr>rs_pend := drop_ch i (rs_pend s), rs_pool := rs_pool s @ [c]\<rparr>)"
  let ?s2 = "goto u (Sync (SWait j c)) (?s1\<lparr>rs_pend := set_ch j c (rs_pend ?s1), rs_pool := rs_pool s\<rparr>)"
  have ne: "t \<noteq> d" "u \<noteq> t" "u \<noteq> d" using A assms(3) by auto
  have 1: "rpc_exec [Do t g, Do t Go, Do t Go] s = Some ?s1" by (rule gives_up [OF assms(2,6)])
  have "rs_threads ?s1 u = Sync (SLock j)" "\<not> pm_closed (rs_pend ?s1)" "rs_pool ?s1 = rs_pool s @ [c]"
    using assms(3,4) ne by (simp_all add: goto_def drop_ch_def upd_shard_def)
  then have 2: "rpc_exec [Do u (Pick (length (rs_pool s))), Do u Go] ?s1 = Some ?s2" by (rule takes_over)
  have r1: "rpc_reachable m ?s1" by (rule reachable_exec [OF 1 assms(1)])
  have r2: "rpc_reachable m ?s2" by (rule reachable_exec [OF 2 r1])
  have s2: "rs_threads ?s2 u = Sync (SWait j c)" "rs_threads ?s2 d = Deliver (DSend fr (Some c) None)"
    "ch_at (rs_pend ?s2) j = Some c" "buf (rs_cells ?s2 c) = None" "\<not> shut (rs_cells ?s2 c)"
    using A ne by (simp_all add: goto_def ch_at_set_ch)
  from gets_the_wrong_reply [OF s2(1,2) ne(3) s2(3-5)] obtain s3 where
    s3: "rpc_exec [Do d Go, Do u Go, Do u Go, Do u Go, Do u Go] ?s2 = Some s3" "rs_threads s3 u = Sync (SDone (Some j) (Reply fr))" by blast
  have r3: "rpc_reachable m s3" by (rule reachable_exec [OF s3(1) r2])
  have closed: "\<exists>s4. rpc_exec [Do x Go, Do d Go] s3 = Some s4 \<and> rpc_reachable m s4 \<and> rs_threads s4 d = Panicked"
    if "rpc_reachable m s3" "rs_threads s3 d = Deliver (DSend fr (Some c) None)" "ch_at (rs_pend s3) j = Some c"
      "rs_threads s3 x = Closer (CShard (shard_of j) cbs)"
      "\<forall>c' \<in> snd ` set (chMap (shards (rs_pend s3) (shard_of j))). \<not> shut (rs_cells s3 c')" for s3 x cbs
  proof -
    have "x \<noteq> d" using that(2,4) by auto
    from panics_when_closed [OF that(4,2) this that(3,5)] show ?thesis using reachable_exec [OF _ that(1)] by blast
  qed
  have s1: "rs_threads ?s1 t = Sync (SDone (Some i) r)" "rs_pool ?s1 = rs_pool s @ [c]" "rs_threads ?s1 d = Deliver (DSend fr (Some c) None)"
    using A ne by (simp_all add: goto_def)
  have "fr_ID fr \<noteq> j" using A assms(5) by simp
  with 1 2 r1 r2 r3 s1 s2(1-3) s3 closed show ?thesis
    by (intro exI [of _ ?s1] exI [of _ ?s2] conjI exI [of _ s3]) (assumption | blast)+
qed

text \<open>A reachable state of this kind, and one in which \<open>closeAll\<close> has come to the shard of the second call.\<close>

definition late_reply :: "action list" where
  "late_reply = call_steps 0 @ [Spawn 1 (Deliver (DEnter (reply_to 1))), Do 1 Go, Do 1 Go] @
     Spawn 2 (Sync SEnter) # replicate 4 (Do 2 Go)"

lemma late_reply_run:
  "map_option (\<lambda>s. (rs_threads s 0, rs_threads s 1, rs_threads s 2, ch_at (rs_pend s) 1, rs_cells s 0, pm_closed (rs_pend s)))
     (rpc_exec late_reply (rpc_init 8)) =
   Some (Sync (SWait 1 0), Deliver (DSend (reply_to 1) (Some 0) None), Sync (SLock 2), None, new_cell, False)"
  by code_simp

lemma late_close_run:
  "map_option (\<lambda>s. (rs_threads s 1, rs_threads s 3, ch_at (rs_pend s) 2, shut (rs_cells s 0), chMap (shards (rs_pend s) 2)))
     (rpc_exec (late_send @ Spawn 3 (Closer CEnter) # replicate 3 (Do 3 Go)) (rpc_init 8)) =
   Some (Deliver (DSend (reply_to 1) (Some 0) None), Closer (CShard 2 []), Some 0, False, [(2, 0)])"
  by code_simp

lemma rpc_timeout_crosstalk_witness:
  "(\<exists>s1 k s2 s3. rpc_reachable 8 s1 \<and> rs_threads s1 0 = Sync (SDone (Some 1) TimedOut) \<and>
      rpc_exec [Do 2 (Pick k), Do 2 Go] s1 = Some s2 \<and> rpc_exec [Do 1 Go, Do 2 Go, Do 2 Go, Do 2 Go, Do 2 Go] s2 = Some s3 \<and>
      rs_threads s3 2 = Sync (SDone (Some 2) (Reply (reply_to 1)))) \<and>
   (\<exists>s4. rpc_reachable 8 s4 \<and> rs_threads s4 1 = Panicked)"
proof -
  obtain s where s: "rpc_reachable 8 s" "rs_threads s 0 = Sync (SWait 1 0)" "rs_threads s 2 = Sync (SLock 2)"
    "rs_threads s 1 = Deliver (DSend (reply_to 1) (Some 0) None)" "ch_at (rs_pend s) 1 = None" "rs_cells s 0 = new_cell"
    "\<not> pm_closed (rs_pend s)"
    using exec_view [OF late_reply_run] by auto
  have w: "reply_on_the_way s 0 1 0 1 (reply_to 1)"
    using s by (simp add: reply_on_the_way_def new_cell_def reply_to_ID)
  obtain s' where s': "rpc_reachable 8 s'" "rs_threads s' 1 = Deliver (DSend (reply_to 1) (Some 0) None)"
    "rs_threads s' 3 = Closer (CShard 2 [])" "ch_at (rs_pend s') 2 = Some 0" "\<not> shut (rs_cells s' 0)"
    "chMap (shards (rs_pend s') 2) = [(2, 0)]"
    using exec_view [OF late_close_run] by auto
  have h: "shard_of 2 = 2" by (simp add: shard_of_def pendingShardCount_def)
  have n: "(2 :: reqid) \<noteq> 1" by simp
  have g: "Timer = Timer \<and> TimedOut = TimedOut \<or> Timer = Cancel \<and> TimedOut = Canceled" by simp
  have "\<exists>s4. rpc_exec [Do 3 Go, Do 1 Go] s' = Some s4 \<and> rpc_reachable 8 s4 \<and> rs_threads s4 1 = Panicked"
    using rpc_timeout_crosstalk [OF s(1) w s(3,7) n g] s' h by auto
  moreover have "\<exists>s1 k s2 s3. rpc_reachable 8 s1 \<and> rs_threads s1 0 = Sync (SDone (Some 1) TimedOut) \<and>
      rpc_exec [Do 2 (Pick k), Do 2 Go] s1 = Some s2 \<and> rpc_exec [Do 1 Go, Do 2 Go, Do 2 Go, Do 2 Go, Do 2 Go] s2 = Some s3 \<and>
      rs_threads s3 2 = Sync (SDone (Some 2) (Reply (reply_to 1)))"
    using rpc_timeout_crosstalk [OF s(1) w s(3,7) n g] by blast
  ultimately show ?thesis by blast
qed

text \<open>
  C34: the callback of an asynchronous call is told at most one result. In every reachable state, in any
  interleaving with the receivers, the timer and \<open>closeAll\<close>, each asynchronous call whose send did not
  fail was told at most once. (One whose send failed can be told twice: \<open>failed_send_told_twice\<close>.)
\<close>

theorem rpc_callback_once:
  assumes "rpc_reachable m s" "rs_gen s < 2 ^ 64" "\<not> failed (rs_threads s u)"
  shows "told (rs_notes s) u \<le> 1"
proof -
  have "cbs_at s" using rpc_inv [OF assms(1,2)] by blast
  from cb_invD(10) [OF this [unfolded cbs_at_def] assms(3)] show ?thesis .
qed

definition timed_out_late :: "action list" where
  "timed_out_late = post_steps 0 @ [Do 0 Go, Do 0 Timer, Spawn 1 (Deliver (DEnter (reply_to 1))), Do 1 Go, Do 0 Go, Do 1 Go, Do 1 Go]"

lemma timed_out_late_run:
  "map_option (\<lambda>s. (rs_threads s 0, rs_gen s, rs_notes s)) (rpc_exec timed_out_late (rpc_init 8)) =
   Some (Async (ADone (Some 1)), 1, [(0, Reply (reply_to 1))])"
  by code_simp

lemma rpc_callback_once_witness:
  "\<exists>s. rpc_reachable 8 s \<and> rs_notes s = [(0, Reply (reply_to 1))] \<and> told (rs_notes s) 0 \<le> 1"
proof -
  obtain s where s: "rpc_reachable 8 s" "rs_threads s 0 = Async (ADone (Some 1))" "rs_gen s = 1" "rs_notes s = [(0, Reply (reply_to 1))]"
    using exec_view [OF timed_out_late_run] by auto
  then have "rs_gen s < 2 ^ 64" "\<not> failed (rs_threads s 0)" by simp_all
  from rpc_callback_once [OF s(1) this] s(1,4) show ?thesis by blast
qed

definition failed_send :: "action list" where
  "failed_send = post_steps 0 @ [Do 0 (Err NetErrClosed), Do 0 Go, Spawn 1 (Closer CEnter)] @ replicate 67 (Do 1 Go) @ [Do 1 (Call 1)]"

lemma failed_send_run:
  "map_option (\<lambda>s. rs_notes s) (rpc_exec failed_send (rpc_init 8)) =
   Some [(0, Fail NetErrClosed), (0, Reply (closed_frame 1))]"
  by code_simp

lemma failed_send_told_twice: "\<exists>s. rpc_reachable 8 s \<and> told (rs_notes s) 0 = 2"
  using exec_view [OF failed_send_run] by (auto simp: told_def)

end
