(* ===== verification/RpcCount.thy ===== *)
theory RpcCount
  imports RpcPendingProps
begin

section \<open>Pending calls: the count\<close>

text \<open>
  While the table is open, \<open>curPendingCount\<close> is the number of its entries, plus the threads that are
  between an entry and the count, plus the asynchronous calls that timed out: \<open>takeCallback\<close> removes
  their entry and never takes them off the count.
\<close>

fun counting :: "thread \<Rightarrow> bool" where
  "counting (Sync (SLock i)) \<longleftrightarrow> True"
| "counting (Sync (SUndo i)) \<longleftrightarrow> True"
| "counting (Sync (SDrain i c r)) \<longleftrightarrow> True"
| "counting (Sync (SDec i r)) \<longleftrightarrow> True"
| "counting (Async (ALock i)) \<longleftrightarrow> True"
| "counting (Async (AUndo i)) \<longleftrightarrow> True"
| "counting (Async (AUndec i)) \<longleftrightarrow> True"
| "counting (Async (ATimeout i)) \<longleftrightarrow> True"
| "counting (Deliver (DDec fr c fn)) \<longleftrightarrow> True"
| "counting _ \<longleftrightarrow> False"

definition entries :: "(reqid \<Rightarrow> 'a option) \<Rightarrow> int" where
  "entries m = int (card (dom m))"

definition counters :: "(nat \<Rightarrow> thread) \<Rightarrow> int" where
  "counters th = int (card {t. counting (th t)})"

definition timeouts :: "(nat \<times> outcome) list \<Rightarrow> int" where
  "timeouts notes = int (length (filter (\<lambda>n. snd n = TimedOut) notes))"

definition count_ok :: "rpc_sys \<Rightarrow> bool" where
  "count_ok s \<longleftrightarrow> finite (dom (ch_at (rs_pend s))) \<and> finite (dom (cb_at (rs_pend s))) \<and> finite {t. counting (rs_threads s t)} \<and>
     curPendingCount (rs_pend s) =
       entries (ch_at (rs_pend s)) + entries (cb_at (rs_pend s)) + counters (rs_threads s) + timeouts (rs_notes s)"

text \<open>Entries belong to synchronous calls in the table; \<open>closeAll\<close> runs on a closed table.\<close>

definition owned :: "rpc_sys \<Rightarrow> bool" where
  "owned s \<longleftrightarrow> (\<forall>i c. ch_at (rs_pend s) i = Some c \<longrightarrow> (\<exists>t d. live (rs_threads s t) = Some (i, d)))"

fun closing :: "thread \<Rightarrow> bool" where
  "closing (Closer (CShard k cbs)) \<longleftrightarrow> True"
| "closing (Closer (CStore cbs)) \<longleftrightarrow> True"
| "closing (Closer (CCall cbs)) \<longleftrightarrow> True"
| "closing _ \<longleftrightarrow> False"

lemma entries_upd:
  "finite (dom m) \<Longrightarrow> entries (m(i \<mapsto> c)) = entries m + of_bool (m i = None)"
  "finite (dom m) \<Longrightarrow> entries (m(i := None)) = entries m - of_bool (m i \<noteq> None)"
proof -
  assume f: "finite (dom m)"
  show "entries (m(i \<mapsto> c)) = entries m + of_bool (m i = None)"
    using f by (cases "m i") (auto simp: entries_def card_insert_if domIff)
  show "entries (m(i := None)) = entries m - of_bool (m i \<noteq> None)"
  proof (cases "m i")
    case None
    then show ?thesis by (simp add: entries_def fun_upd_idem)
  next
    case (Some c)
    then have "i \<in> dom m" by blast
    then have "0 < card (dom m)" using f card_gt_0_iff by blast
    with \<open>i \<in> dom m\<close> Some f show ?thesis by (simp add: entries_def card_Diff_singleton of_nat_diff)
  qed
qed

lemma counters_upd:
  assumes "finite {t. counting (th t)}"
  shows "counters (th(t := x)) = counters th + of_bool (counting x) - of_bool (counting (th t))"
    and "finite {u. counting ((th(t := x)) u)}"
proof -
  let ?A = "{u. counting (th u)}"
  have e: "{u. counting ((th(t := x)) u)} = (if counting x then insert t ?A else ?A - {t})" by auto
  show "finite {u. counting ((th(t := x)) u)}" unfolding e using assms by simp
  have "0 < card ?A" if "counting (th t)" using that assms by (intro card_gt_0_iff [THEN iffD2]) auto
  then show "counters (th(t := x)) = counters th + of_bool (counting x) - of_bool (counting (th t))"
    unfolding counters_def e using assms
    by (auto simp: card_insert_if card_Diff_singleton of_nat_diff insert_absorb)
qed

lemma timeouts_simps [simp]:
  "timeouts [] = 0" "timeouts (notes @ [(u, r)]) = timeouts notes + of_bool (r = TimedOut)"
  by (simp_all add: timeouts_def)

lemma timeouts_nonneg: "timeouts notes \<ge> 0" "entries m \<ge> 0" "counters th \<ge> 0"
  by (simp_all add: timeouts_def entries_def counters_def)

text \<open>The balance of one step.\<close>

lemma count_step:
  assumes ok: "count_ok s" and th: "rs_threads s' = (rs_threads s)(t := x)"
    and ch: "ch_at (rs_pend s') = ch_at (rs_pend s) \<or> ch_at (rs_pend s') = (ch_at (rs_pend s))(i := None) \<or>
      (\<exists>c. ch_at (rs_pend s') = (ch_at (rs_pend s))(i \<mapsto> c))"
    and cb: "cb_at (rs_pend s') = cb_at (rs_pend s) \<or> cb_at (rs_pend s') = (cb_at (rs_pend s))(i := None) \<or>
      (\<exists>c. cb_at (rs_pend s') = (cb_at (rs_pend s))(i \<mapsto> c))"
    and bal: "curPendingCount (rs_pend s') - curPendingCount (rs_pend s) =
        (of_bool (ch_at (rs_pend s') i \<noteq> None) - of_bool (ch_at (rs_pend s) i \<noteq> None)) +
        (of_bool (cb_at (rs_pend s') i \<noteq> None) - of_bool (cb_at (rs_pend s) i \<noteq> None)) +
        (of_bool (counting x) - of_bool (counting (rs_threads s t))) + (timeouts (rs_notes s') - timeouts (rs_notes s))"
  shows "count_ok s'"
proof -
  note ok' = ok [unfolded count_ok_def]
  have f: "finite (dom (ch_at (rs_pend s')))" "finite (dom (cb_at (rs_pend s')))" using ok' ch cb by auto
  have "entries (ch_at (rs_pend s')) - entries (ch_at (rs_pend s)) =
      of_bool (ch_at (rs_pend s') i \<noteq> None) - of_bool (ch_at (rs_pend s) i \<noteq> None)"
    using ch entries_upd [of "ch_at (rs_pend s)" i] ok' by (cases "ch_at (rs_pend s) i") auto
  moreover have "entries (cb_at (rs_pend s')) - entries (cb_at (rs_pend s)) =
      of_bool (cb_at (rs_pend s') i \<noteq> None) - of_bool (cb_at (rs_pend s) i \<noteq> None)"
    using cb entries_upd [of "cb_at (rs_pend s)" i] ok' by (cases "cb_at (rs_pend s) i") auto
  moreover have "counters (rs_threads s') = counters (rs_threads s) + of_bool (counting x) - of_bool (counting (rs_threads s t))"
    "finite {u. counting (rs_threads s' u)}"
    unfolding th using counters_upd [of "rs_threads s" t x] ok' by blast+
  ultimately show ?thesis unfolding count_ok_def using f ok' bal by linarith
qed

lemma count_goto:
  assumes "count_ok s" "rs_threads s1 = rs_threads s"
    and "ch_at (rs_pend s1) = ch_at (rs_pend s) \<or> ch_at (rs_pend s1) = (ch_at (rs_pend s))(i := None) \<or>
      (\<exists>c. ch_at (rs_pend s1) = (ch_at (rs_pend s))(i \<mapsto> c))"
    and "cb_at (rs_pend s1) = cb_at (rs_pend s) \<or> cb_at (rs_pend s1) = (cb_at (rs_pend s))(i := None) \<or>
      (\<exists>c. cb_at (rs_pend s1) = (cb_at (rs_pend s))(i \<mapsto> c))"
    and "curPendingCount (rs_pend s1) - curPendingCount (rs_pend s) =
        (of_bool (ch_at (rs_pend s1) i \<noteq> None) - of_bool (ch_at (rs_pend s) i \<noteq> None)) +
        (of_bool (cb_at (rs_pend s1) i \<noteq> None) - of_bool (cb_at (rs_pend s) i \<noteq> None)) +
        (of_bool (counting x) - of_bool (counting (rs_threads s t))) + (timeouts (rs_notes s1) - timeouts (rs_notes s))"
  shows "count_ok (goto t x s1)"
  by (rule count_step [OF assms(1), of _ t x i]) (use assms(2-5) in simp_all)

lemma cur_upd [simp]:
  "curPendingCount (set_ch i c p) = curPendingCount p" "curPendingCount (drop_ch i p) = curPendingCount p"
  "curPendingCount (set_cb i t p) = curPendingCount p" "curPendingCount (drop_cb i p) = curPendingCount p"
  "curPendingCount (add_cur d p) = curPendingCount p + d"
  "pm_closed (set_ch i c p) = pm_closed p" "pm_closed (drop_ch i p) = pm_closed p"
  "pm_closed (set_cb i t p) = pm_closed p" "pm_closed (drop_cb i p) = pm_closed p" "pm_closed (add_cur d p) = pm_closed p"
  by (simp_all add: set_ch_def drop_ch_def set_cb_def drop_cb_def add_cur_def upd_shard_def)

lemma sync_count:
  assumes step: "sync_do t pc ch s = Some s'" and t: "rs_threads s t = Sync pc"
    and ok: "count_ok s" and own: "owned s" and ids: "ids_ok s"
  shows "count_ok s'"
proof -
  have none: "ch_at (rs_pend s) i = None" if "pc = SLock i" for i
  proof (rule ccontr)
    assume "ch_at (rs_pend s) i \<noteq> None"
    then obtain u d where "live (rs_threads s u) = Some (i, d)" using own unfolding owned_def by blast
    with live_owner [OF ids _ this, of t] t that show False by auto
  qed
  have g: "ch_at (rs_pend s1) = ch_at (rs_pend s)" if "pool_get k s = (c, s1)" for k c s1 using pool_get_sel [OF that] by simp
  show ?thesis
  proof (cases "sync_id pc")
    case None
    with step t show ?thesis
      by (cases pc) (auto simp: sync_do_eq Let_def genReqId_sel split: if_splits intro!: count_goto [OF ok, where i = 0])
  next
    case (Some i)
    with step t none show ?thesis
      by (cases pc)
        (auto simp: sync_do_eq Let_def pool_get_sel split: if_splits choice.splits option.splits prod.splits
          intro!: count_goto [OF ok, where i = i])
  qed
qed

lemma async_count:
  assumes step: "async_do t pc ch s = Some s'" and t: "rs_threads s t = Async pc"
    and ok: "count_ok s" and inv: "cbs_at s" and ids: "ids_ok s"
  shows "count_ok s'"
proof -
  note D = cb_invD [OF inv [unfolded cbs_at_def]]
  have none: "cb_at (rs_pend s) i = None" if "pc = ALock i" for i
  proof (rule ccontr)
    assume "cb_at (rs_pend s) i \<noteq> None"
    then obtain u where u: "cb_at (rs_pend s) i = Some u" by blast
    have "u = t" using ids D(1) [OF u] that t unfolding ids_ok_def by auto
    with D(2) [OF u] t that show False by simp
  qed
  show ?thesis
  proof (cases "async_id pc")
    case None
    with step t show ?thesis
      by (cases pc) (auto simp: async_do_eq Let_def genReqId_sel split: if_splits intro!: count_goto [OF ok, where i = 0])
  next
    case (Some i)
    with step t none show ?thesis
      by (cases pc)
        (auto simp: async_do_eq Let_def split: if_splits choice.splits option.splits prod.splits intro!: count_goto [OF ok, where i = i])
  qed
qed

lemma deliver_count:
  assumes step: "deliver_do t pc ch s = Some s'" and t: "rs_threads s t = Deliver pc"
    and ok: "count_ok s" and inv: "cbs_at s" and ids: "ids_ok s" and own: "owned s"
  shows "count_ok s'"
proof (cases pc)
  case (DEnter fr)
  note D = cb_invD [OF inv [unfolded cbs_at_def]]
  have "ch_at (rs_pend s) (fr_ID fr) = None \<or> cb_at (rs_pend s) (fr_ID fr) = None"
  proof (rule ccontr)
    assume "\<not> (ch_at (rs_pend s) (fr_ID fr) = None \<or> cb_at (rs_pend s) (fr_ID fr) = None)"
    then obtain c u where cu: "ch_at (rs_pend s) (fr_ID fr) = Some c" "cb_at (rs_pend s) (fr_ID fr) = Some u" by auto
    obtain v d where v: "live (rs_threads s v) = Some (fr_ID fr, d)" using own cu(1) unfolding owned_def by blast
    have "v = u" using ids live_id [OF v] D(1) [OF cu(2)] unfolding ids_ok_def by blast
    with posted_async [OF D(2) [OF cu(2)]] v show False by auto
  qed
  with step t DEnter show ?thesis
    by (auto simp: deliver_do_def Let_def split: if_splits intro!: count_goto [OF ok, where i = "fr_ID fr"])
next
  case (DDec fr c fn)
  with step t show ?thesis by (auto simp: deliver_do_def intro!: count_goto [OF ok, where i = 0])
next
  case (DSend fr c fn)
  consider d where "c = Some d" | u where "c = None" "fn = Some u" | "c = None" "fn = None" by (cases c; cases fn) auto
  then show ?thesis
  proof cases
    case 1
    with step t DSend show ?thesis by (auto simp: deliver_do_def split: if_splits intro!: count_goto [OF ok, where i = 0])
  next
    case 2
    note I = inv [unfolded cbs_at_def]
    have tk: "(fr_ID fr, u) \<in> set (tokens (rs_threads s t))" using t DSend 2 by simp
    have none: "cb_at (rs_pend s) (fr_ID fr) = None"
      by (rule cb_call(2) [OF I _ _ _ _ tk, of "Deliver DDone"])
        (use t DSend 2 ids cb_invD(5) [OF I tk] in \<open>auto simp: ids_ok_def\<close>)
    have o: "own_id s u = fr_ID fr"
      by (rule callback_cbs(1) [OF inv ids, of t "Deliver DDone" "fr_ID fr" u]) (use t DSend 2 in auto)
    have "s' = run_callback t (Deliver DDone) u (own_id s u) fr s" using step DSend 2 by (simp add: deliver_do_def)
    then have s': "s' = run_callback t (Deliver DDone) u (fr_ID fr) fr s" by (simp only: o)
    show ?thesis
      unfolding s' run_callback_def Let_def
      using none t DSend by (auto intro!: count_goto [OF ok, where i = "fr_ID fr"])
  next
    case 3
    with step t DSend show ?thesis by (auto simp: deliver_do_def intro!: count_goto [OF ok, where i = 0])
  qed
next
  case DDone
  with step show ?thesis by (simp add: deliver_do_def)
qed

subsection \<open>The other two invariants\<close>

lemma table_shrinks:
  assumes "rpc_do t ch s = Some s'" "\<And>pc. rs_threads s t \<noteq> Sync pc" "ch_at (rs_pend s') i = Some c"
  shows "ch_at (rs_pend s) i = Some c"
  using assms unfolding rpc_do_def
  by (cases "rs_threads s t")
    (auto simp: async_do_eq deliver_do_def close_do_def Let_def genReqId_sel shut_shard_def
      split: async_pc.splits deliver_pc.splits close_pc.splits choice.splits if_splits option.splits prod.splits)

lemma owned_sync:
  assumes step: "sync_do t pc ch s = Some s'" and t: "rs_threads s t = Sync pc" and own: "owned s" and ids: "ids_ok s"
  shows "owned s'"
proof -
  have other: "\<exists>u d. live (((rs_threads s)(t := x)) u) = Some (j, d)"
    if m: "ch_at (rs_pend s) j = Some c" and k: "\<And>d. live (rs_threads s t) = Some (j, d) \<Longrightarrow> \<exists>e. live x = Some (j, e)" for j c x
  proof -
    obtain u d where u: "live (rs_threads s u) = Some (j, d)" using own m unfolding owned_def by blast
    show ?thesis using k u by (cases "u = t") (metis fun_upd_same, metis fun_upd_other)
  qed
  show ?thesis
    unfolding owned_def
  proof (intro allI impI)
    fix j c assume j: "ch_at (rs_pend s') j = Some c"
    show "\<exists>u d. live (rs_threads s' u) = Some (j, d)"
    proof (cases "\<exists>i. pc = SLock i")
      case True
      then obtain i where i: "pc = SLock i" by blast
      show ?thesis
      proof (cases "pm_closed (rs_pend s)")
        case True
        with step i j t other [of j c "Sync (SUndo i)"] show ?thesis by (auto simp: sync_do_eq)
      next
        case False
        then obtain k d s1 where k: "pool_get k s = (d, s1)" "s' = goto t (Sync (SSend i d)) (on_pend (set_ch i d) s1)"
          using step i by (auto simp: sync_do_eq Let_def split: choice.splits prod.splits)
        show ?thesis
        proof (cases "j = i")
          case True
          then have "live (rs_threads s' t) = Some (j, d)" by (simp add: k(2))
          then show ?thesis by blast
        next
          case False
          with j k have "ch_at (rs_pend s) j = Some c" by (simp add: pool_get_sel [OF k(1)])
          from other [OF this, of "Sync (SSend i d)"] t i show ?thesis by (simp add: k(2) pool_get_sel [OF k(1)])
        qed
      qed
    next
      case False
      with step t j have m: "ch_at (rs_pend s) j = Some c" "\<And>i d r. pc = SDel i d r \<Longrightarrow> j \<noteq> i"
        by (auto simp: sync_do_eq Let_def genReqId_sel split: sync_pc.splits if_splits choice.splits option.splits prod.splits)
      have x: "\<exists>x. rs_threads s' = (rs_threads s)(t := x) \<and> (\<forall>d. live (Sync pc) = Some (j, d) \<longrightarrow> (\<exists>e. live x = Some (j, e)))"
        using step t m(2) False
        by (cases pc) (auto simp: sync_do_eq Let_def genReqId_sel split: if_splits choice.splits option.splits prod.splits)
      then show ?thesis using other [OF m(1)] t by auto
    qed
  qed
qed

lemma live_sync: "live x = Some y \<Longrightarrow> \<exists>pc. x = Sync pc"
  by (cases x rule: live.cases) auto

lemma owned_step:
  assumes step: "rpc_do t ch s = Some s'" and own: "owned s" and ids: "ids_ok s"
  shows "owned s'"
proof (cases "\<exists>pc. rs_threads s t = Sync pc")
  case True
  with step own ids owned_sync show ?thesis by (auto simp: rpc_do_def)
next
  case False
  obtain x where x: "rs_threads s' = (rs_threads s)(t := x)" using rpc_id_step [OF step] unfolding id_step_def by blast
  show ?thesis
    unfolding owned_def
  proof (intro allI impI)
    fix i c assume "ch_at (rs_pend s') i = Some c"
    then have "ch_at (rs_pend s) i = Some c" using table_shrinks [OF step] False by blast
    then obtain u d where u: "live (rs_threads s u) = Some (i, d)" using own unfolding owned_def by blast
    then have "u \<noteq> t" using False live_sync by metis
    with u x show "\<exists>t d. live (rs_threads s' t) = Some (i, d)" by auto
  qed
qed

definition closing_ok :: "rpc_sys \<Rightarrow> bool" where
  "closing_ok s \<longleftrightarrow> (\<forall>t. closing (rs_threads s t) \<longrightarrow> pm_closed (rs_pend s))"

lemma closed_mono: "rpc_do t ch s = Some s' \<Longrightarrow> pm_closed (rs_pend s) \<Longrightarrow> pm_closed (rs_pend s')"
  unfolding rpc_do_def
  by (cases "rs_threads s t")
    (auto simp: sync_do_eq async_do_eq deliver_do_def close_do_def Let_def genReqId_sel pool_get_sel shut_shard_def
      split: sync_pc.splits async_pc.splits deliver_pc.splits close_pc.splits choice.splits if_splits option.splits prod.splits)

lemma sync_kind: "sync_do t pc ch s = Some s' \<Longrightarrow> \<exists>pc'. rs_threads s' t = Sync pc'"
  by (auto simp: sync_do_eq Let_def genReqId_sel pool_get_sel
      split: sync_pc.splits if_splits choice.splits option.splits prod.splits)

lemma async_kind: "async_do t pc ch s = Some s' \<Longrightarrow> \<exists>pc'. rs_threads s' t = Async pc'"
  by (auto simp: async_do_eq Let_def genReqId_sel split: async_pc.splits if_splits choice.splits option.splits prod.splits)

lemma deliver_kind:
  assumes "deliver_do t pc ch s = Some s'"
  shows "(\<exists>pc'. rs_threads s' t = Deliver pc') \<or> rs_threads s' t = Panicked"
proof -
  have "rs_threads (run_callback t (Deliver DDone) u i fr s) t \<in> {Deliver DDone, Panicked}" for u i fr
    using run_callback_threads [of "Deliver DDone" t u i fr s] by auto
  with assms show ?thesis
    by (auto simp: deliver_do_def Let_def split: deliver_pc.splits option.splits if_splits)
qed

lemma close_opens: "close_do t pc ch s = Some s' \<Longrightarrow> \<not> closing (Closer pc) \<Longrightarrow> closing (rs_threads s' t) \<Longrightarrow> pm_closed (rs_pend s')"
  by (cases pc) (auto simp: close_do_def Let_def split: if_splits)

lemma closing_step:
  assumes step: "rpc_do t ch s = Some s'" and ok: "closing_ok s"
  shows "closing_ok s'"
  unfolding closing_ok_def
proof (intro allI impI)
  fix u assume u: "closing (rs_threads s' u)"
  obtain x where x: "rs_threads s' = (rs_threads s)(t := x)" using rpc_id_step [OF step] unfolding id_step_def by blast
  show "pm_closed (rs_pend s')"
  proof (cases "u = t \<and> \<not> closing (rs_threads s t)")
    case False
    with u x have "closing (rs_threads s u) \<or> closing (rs_threads s t)" by (auto split: if_splits)
    with ok closed_mono [OF step] show ?thesis unfolding closing_ok_def by blast
  next
    case True
    show ?thesis
    proof (cases "rs_threads s t")
      case (Closer pc)
      with True step u close_opens [of t pc ch s s'] show ?thesis by (simp add: rpc_do_def)
    next
      case (Sync pc)
      with step True u sync_kind [of t pc ch s s'] show ?thesis by (auto simp: rpc_do_def)
    next
      case (Async pc)
      with step True u async_kind [of t pc ch s s'] show ?thesis by (auto simp: rpc_do_def)
    next
      case (Deliver pc)
      with step True u deliver_kind [of t pc ch s s'] show ?thesis by (auto simp: rpc_do_def)
    qed (use step in \<open>auto simp: rpc_do_def\<close>)
  qed
qed

lemma close_count:
  assumes "close_do t pc ch s = Some s'" "rs_threads s t = Closer pc" "closing_ok s" "\<not> pm_closed (rs_pend s')" "\<not> pm_closed (rs_pend s)"
    and ok: "count_ok s"
  shows "count_ok s'"
proof -
  have "\<not> closing (Closer pc)" using assms(2,3,5) unfolding closing_ok_def by metis
  with assms show ?thesis
    by (cases pc) (auto simp: close_do_def Let_def split: if_splits intro!: count_goto [OF ok, where i = 0])
qed

definition full_inv :: "rpc_sys \<Rightarrow> bool" where
  "full_inv s \<longleftrightarrow> cbs_at s \<and> ids_ok s \<and> tab_ok (rs_pend s) \<and> owned s \<and> closing_ok s \<and> (\<not> pm_closed (rs_pend s) \<longrightarrow> count_ok s)"

lemma full_inv_step:
  assumes step: "rpc_do t ch s = Some s'" and inv: "full_inv s" and g: "rs_gen s' < 2 ^ 64"
  shows "full_inv s'"
proof -
  have I: "cbs_at s" "ids_ok s" "tab_ok (rs_pend s)" "owned s" "closing_ok s" "\<not> pm_closed (rs_pend s) \<Longrightarrow> count_ok s"
    using inv by (auto simp: full_inv_def)
  have "count_ok s'" if c: "\<not> pm_closed (rs_pend s')"
  proof -
    have o: "\<not> pm_closed (rs_pend s)" using closed_mono [OF step] c by blast
    note ok = I(6) [OF o]
    show ?thesis
    proof (cases "rs_threads s t")
      case (Sync pc) with step sync_count [OF _ Sync ok I(4,2)] show ?thesis by (simp add: rpc_do_def)
    next
      case (Async pc) with step async_count [OF _ Async ok I(1,2)] show ?thesis by (simp add: rpc_do_def)
    next
      case (Deliver pc) with step deliver_count [OF _ Deliver ok I(1,2,4)] show ?thesis by (simp add: rpc_do_def)
    next
      case (Closer pc) with step close_count [OF _ Closer I(5) c o ok] show ?thesis by (simp add: rpc_do_def)
    qed (use step in \<open>auto simp: rpc_do_def\<close>)
  qed
  moreover obtain x where "id_step s t x s'" using rpc_id_step [OF step] by blast
  ultimately show ?thesis
    unfolding full_inv_def
    using rpc_cbs [OF step I(1-3)] ids_ok_step [OF I(2) _ g] tab_step [OF step I(3)] owned_step [OF step I(4,2)] closing_step [OF step I(5)] by blast
qed

lemma entry_count: "entry x \<Longrightarrow> \<not> counting x \<and> \<not> closing x"
  by (auto simp: entry_def split: thread.splits sync_pc.splits async_pc.splits deliver_pc.splits close_pc.splits)

lemma full_inv_reachable: "rpc_reachable m s \<Longrightarrow> rs_gen s < 2 ^ 64 \<Longrightarrow> full_inv s"
proof (induction rule: rpc_reachable.induct)
  case init
  have "count_ok (rpc_init m)"
    by (simp add: count_ok_def rpc_init_def newPendingMap_def newPendingShard_def ch_at_def cb_at_def entries_def counters_def dom_def)
  then show ?case
    using rpc_inv [OF rpc_reachable.init [of m]]
    by (simp add: full_inv_def owned_def closing_ok_def rpc_init_def newPendingMap_def newPendingShard_def ch_at_def)
next
  case (spawn s t x)
  have s: "full_inv s" using spawn.IH spawn.prems by simp
  have "owned (goto t x s)"
    unfolding owned_def
  proof (intro allI impI)
    fix i c assume "ch_at (rs_pend (goto t x s)) i = Some c"
    then have "ch_at (rs_pend s) i = Some c" by simp
    moreover have "owned s" using s by (simp add: full_inv_def)
    ultimately obtain u d where u: "live (rs_threads s u) = Some (i, d)" unfolding owned_def by blast
    with spawn.hyps(2) have "u \<noteq> t" by auto
    with u show "\<exists>t' d. live (rs_threads (goto t x s) t') = Some (i, d)" by auto
  qed
  moreover have "count_ok (goto t x s)" if "count_ok s"
    by (rule count_goto [OF that, where i = 0]) (use entry_count [OF spawn.hyps(3)] spawn.hyps(2) in simp_all)
  moreover have "closing_ok (goto t x s)"
    using s entry_count [OF spawn.hyps(3)] by (auto simp: full_inv_def closing_ok_def)
  ultimately show ?case
    using s rpc_inv [OF rpc_reachable.spawn [OF spawn.hyps(1,2,3)]] spawn.prems by (simp add: full_inv_def)
next
  case (step s t ch s')
  have "rs_gen s < 2 ^ 64" using rpc_gen_mono [OF step.hyps(2)] step.prems by linarith
  then show ?case using full_inv_step [OF step.hyps(2)] step.IH step.prems by blast
qed

text \<open>
  C35: asynchronous calls that time out stay on the count for ever. While the table is open,
  \<open>curPendingCount\<close> is the number of entries of the table, plus the threads between an entry and the
  count, plus the calls that timed out. So once as many calls have timed out as may be pending, every
  later call, synchronous or not, is refused with \<open>ErrRpcQueueFull\<close>, however empty the table is.
\<close>

theorem rpc_timeouts_exhaust:
  assumes "rpc_reachable m s" "rs_gen s < 2 ^ 64" "\<not> pm_closed (rs_pend s)"
  shows "curPendingCount (rs_pend s) =
      entries (ch_at (rs_pend s)) + entries (cb_at (rs_pend s)) + counters (rs_threads s) + timeouts (rs_notes s) \<and>
    (maxPendingCount (rs_pend s) \<le> timeouts (rs_notes s) \<longrightarrow>
      (\<forall>t i ch. rs_threads s t = Sync (SCount i) \<longrightarrow> rpc_do t ch s = Some (goto t (Sync (SDone (Some i) (Fail ErrRpcQueueFull))) s)) \<and>
      (\<forall>t i ch. rs_threads s t = Async (ACount i) \<longrightarrow> rpc_do t ch s = Some (goto t (Async (ARefuse i ErrRpcQueueFull)) s)))"
proof -
  have c: "count_ok s" using full_inv_reachable [OF assms(1,2)] assms(3) by (simp add: full_inv_def)
  then have eq: "curPendingCount (rs_pend s) =
      entries (ch_at (rs_pend s)) + entries (cb_at (rs_pend s)) + counters (rs_threads s) + timeouts (rs_notes s)"
    by (simp add: count_ok_def)
  have "maxPendingCount (rs_pend s) \<le> curPendingCount (rs_pend s)" if "maxPendingCount (rs_pend s) \<le> timeouts (rs_notes s)"
    using that eq timeouts_nonneg(2) [of "ch_at (rs_pend s)"] timeouts_nonneg(2) [of "cb_at (rs_pend s)"]
      timeouts_nonneg(3) [of "rs_threads s"] by linarith
  with eq show ?thesis by (simp add: rpc_do_def sync_do_eq async_do_eq)
qed

text \<open>With room for one call: it times out, the table is empty, and the next call finds no room.\<close>

definition one_timeout :: "action list" where
  "one_timeout = post_steps 0 @ [Do 0 Go, Do 0 Timer, Do 0 Go, Do 0 Go, Spawn 1 (Sync SEnter), Do 1 Go, Do 1 Go]"

lemma one_timeout_run:
  "map_option (\<lambda>s. (rs_threads s 1, rs_gen s, pm_closed (rs_pend s), maxPendingCount (rs_pend s), timeouts (rs_notes s),
      (ch_at (rs_pend s) 1, cb_at (rs_pend s) 1))) (rpc_exec one_timeout (rpc_init 1)) =
   Some (Sync (SCount 2), 2, False, 1, 1, (None, None))"
  by code_simp

lemma rpc_timeouts_exhaust_witness:
  "\<exists>s. rpc_reachable 1 s \<and> cb_at (rs_pend s) 1 = None \<and>
     rpc_do 1 Go s = Some (goto 1 (Sync (SDone (Some 2) (Fail ErrRpcQueueFull))) s)"
proof -
  obtain s where s: "rpc_reachable 1 s" "rs_threads s 1 = Sync (SCount 2)" "rs_gen s = 2" "\<not> pm_closed (rs_pend s)"
    "maxPendingCount (rs_pend s) = 1" "timeouts (rs_notes s) = 1" "cb_at (rs_pend s) 1 = None"
    using exec_view [OF one_timeout_run] by auto
  have g: "rs_gen s < 2 ^ 64" using s(3) by simp
  show ?thesis using rpc_timeouts_exhaust [OF s(1) g s(4)] s by auto
qed

end
