(* ===== verification/EventMgr.thy ===== *)
theory EventMgr
  imports Prelude
begin

section \<open>Event managers\<close>

text \<open>
  The two event managers of utils/kkevent, which have the same code up to the type of the data, with the
  calls of utils/xcall they make. Each operation holds the lock of the manager for all it does with the
  table, so it is one step; the listeners are called after the lock is released, on the slice that was in
  the table then. A listener is a function value: the code it runs and the variables it captured.
\<close>

subsection \<open>Functions as values\<close>

record 'e closure =
  fn_code :: nat
  fn_env :: 'e

text \<open>\<open>IsSameFunc\<close> of two functions of one type: \<open>reflect.Value.Pointer\<close> of a function is its code.\<close>

definition IsSameFunc :: "'e closure option \<Rightarrow> 'e closure option \<Rightarrow> bool" where
  "IsSameFunc fn1 fn2 = (map_option fn_code fn1 = map_option fn_code fn2)"

text \<open>
  What calling a listener does with the state of the program, and whether it panics. \<open>SafeCall\<close> keeps
  what was done before the panic and returns.
\<close>

type_synonym 'w run = "'w \<Rightarrow> 'w \<times> bool"

definition SafeCall :: "'w run option \<Rightarrow> 'w \<Rightarrow> 'w" where
  "SafeCall fn w = (case fn of None \<Rightarrow> w | Some f \<Rightarrow> fst (f w))"

definition SafeCallEx :: "'w run option \<Rightarrow> ('w \<Rightarrow> 'w) option \<Rightarrow> 'w \<Rightarrow> 'w" where
  "SafeCallEx fn errDealer w =
     (case fn of
        None \<Rightarrow> w
      | Some f \<Rightarrow> (case f w of (w', panicked) \<Rightarrow>
          if panicked then (case errDealer of Some d \<Rightarrow> d w' | None \<Rightarrow> w') else w'))"

subsection \<open>The manager of typed events\<close>

record 'e SpecListenerInfo =
  li_gid :: "64 word"
  li_callback :: "'e closure"

record ('k, 'e) SpecEventManager =
  em_listeners :: "'k \<rightharpoonup> 'e SpecListenerInfo list"
  em_autoID :: "64 word"

definition NewSpecEventManager :: "('k, 'e) SpecEventManager" where
  "NewSpecEventManager = \<lparr>em_listeners = Map.empty, em_autoID = 0\<rparr>"

text \<open>A key that is not in the Go map has the nil slice.\<close>

definition listeners_of :: "('k, 'e) SpecEventManager \<Rightarrow> 'k \<Rightarrow> 'e SpecListenerInfo list" where
  "listeners_of m key = (case em_listeners m key of None \<Rightarrow> [] | Some ls \<Rightarrow> ls)"

text \<open>The loops of \<open>getHandlerIdx\<close> and \<open>UnsubscribeByID\<close>: the first index, or none.\<close>

fun handler_loop :: "'e closure \<Rightarrow> nat \<Rightarrow> 'e SpecListenerInfo list \<Rightarrow> (64 word \<times> nat) option" where
  "handler_loop listener i [] = None"
| "handler_loop listener i (l # ls) =
     (if IsSameFunc (Some (li_callback l)) (Some listener) then Some (li_gid l, i) else handler_loop listener (Suc i) ls)"

definition getHandlerIdx :: "('k, 'e) SpecEventManager \<Rightarrow> 'k \<Rightarrow> 'e closure \<Rightarrow> (64 word \<times> nat) option" where
  "getHandlerIdx m key listener = handler_loop listener 0 (listeners_of m key)"

fun gid_loop :: "64 word \<Rightarrow> nat \<Rightarrow> 'e SpecListenerInfo list \<Rightarrow> nat option" where
  "gid_loop gid i [] = None"
| "gid_loop gid i (l # ls) = (if li_gid l = gid then Some i else gid_loop gid (Suc i) ls)"

definition Subscribe ::
  "('k, 'e) SpecEventManager \<Rightarrow> 'k \<Rightarrow> 'e closure option \<Rightarrow> ('k, 'e) SpecEventManager \<times> 64 word" where
  "Subscribe m key listener =
     (case listener of
        None \<Rightarrow> (m, 0)
      | Some f \<Rightarrow>
          (case getHandlerIdx m key f of
             Some (gid, idx) \<Rightarrow> (m, gid)
           | None \<Rightarrow>
               let current = listeners_of m key;
                   gid = em_autoID m + 1;
                   newList = current @ [\<lparr>li_gid = gid, li_callback = f\<rparr>]
               in (m\<lparr>em_listeners := (em_listeners m)(key \<mapsto> newList), em_autoID := gid\<rparr>, gid)))"

text \<open>The copy of a slice without the element at \<open>idx\<close>; the key goes with the last element.\<close>

definition remove_at :: "('k, 'e) SpecEventManager \<Rightarrow> 'k \<Rightarrow> nat \<Rightarrow> ('k, 'e) SpecEventManager" where
  "remove_at m key idx =
     (let current = listeners_of m key;
          newLen = length current - 1
      in if newLen > 0 then m\<lparr>em_listeners := (em_listeners m)(key \<mapsto> take idx current @ drop (idx + 1) current)\<rparr>
         else m\<lparr>em_listeners := (em_listeners m)(key := None)\<rparr>)"

definition Unsubscribe :: "('k, 'e) SpecEventManager \<Rightarrow> 'k \<Rightarrow> 'e closure option \<Rightarrow> ('k, 'e) SpecEventManager" where
  "Unsubscribe m key listener =
     (case listener of
        None \<Rightarrow> m
      | Some f \<Rightarrow> (case getHandlerIdx m key f of None \<Rightarrow> m | Some (gid, idx) \<Rightarrow> remove_at m key idx))"

definition UnsubscribeByID :: "('k, 'e) SpecEventManager \<Rightarrow> 'k \<Rightarrow> 64 word \<Rightarrow> ('k, 'e) SpecEventManager" where
  "UnsubscribeByID m key gid =
     (case gid_loop gid 0 (listeners_of m key) of None \<Rightarrow> m | Some idx \<Rightarrow> remove_at m key idx)"

definition UnsubscribeAll :: "('k, 'e) SpecEventManager \<Rightarrow> 'k \<Rightarrow> ('k, 'e) SpecEventManager" where
  "UnsubscribeAll m key = m\<lparr>em_listeners := (em_listeners m)(key := None)\<rparr>"

text \<open>
  Publishing: \<open>mgr\<close> reads the manager out of the state of the program, \<open>call\<close> runs a listener.
\<close>

fun publish_loop :: "('e closure \<Rightarrow> 'd \<Rightarrow> 'w run) \<Rightarrow> 'd \<Rightarrow> 'e SpecListenerInfo list \<Rightarrow> 'w \<Rightarrow> 'w" where
  "publish_loop call data [] w = w"
| "publish_loop call data (l # ls) w = publish_loop call data ls (SafeCall (Some (call (li_callback l) data)) w)"

definition Publish ::
  "('w \<Rightarrow> ('k, 'e) SpecEventManager) \<Rightarrow> ('e closure \<Rightarrow> 'd \<Rightarrow> 'w run) \<Rightarrow> 'k \<Rightarrow> 'd \<Rightarrow> 'w \<Rightarrow> 'w" where
  "Publish mgr call key data w = publish_loop call data (listeners_of (mgr w) key) w"

fun unsafe_loop :: "('e closure \<Rightarrow> 'd \<Rightarrow> 'w run) \<Rightarrow> 'd \<Rightarrow> 'e SpecListenerInfo list \<Rightarrow> 'w run" where
  "unsafe_loop call data [] w = (w, False)"
| "unsafe_loop call data (l # ls) w =
     (case call (li_callback l) data w of (w', panicked) \<Rightarrow> if panicked then (w', True) else unsafe_loop call data ls w')"

definition UnsafePublish ::
  "('w \<Rightarrow> ('k, 'e) SpecEventManager) \<Rightarrow> ('e closure \<Rightarrow> 'd \<Rightarrow> 'w run) \<Rightarrow> 'k \<Rightarrow> 'd \<Rightarrow> 'w run" where
  "UnsafePublish mgr call key data w = unsafe_loop call data (listeners_of (mgr w) key) w"

subsection \<open>The manager of untyped events\<close>

text \<open>The same operations over data of any type.\<close>

type_synonym 'e ListenerInfo = "'e SpecListenerInfo"
type_synonym ('k, 'e) EventManager = "('k, 'e) SpecEventManager"

definition NewEventManager :: "('k, 'e) EventManager" where
  "NewEventManager = \<lparr>em_listeners = Map.empty, em_autoID = 0\<rparr>"

definition em_getHandlerIdx :: "('k, 'e) EventManager \<Rightarrow> 'k \<Rightarrow> 'e closure \<Rightarrow> (64 word \<times> nat) option" where
  "em_getHandlerIdx m key listener = handler_loop listener 0 (listeners_of m key)"

definition em_Subscribe :: "('k, 'e) EventManager \<Rightarrow> 'k \<Rightarrow> 'e closure option \<Rightarrow> ('k, 'e) EventManager \<times> 64 word" where
  "em_Subscribe m key listener =
     (case listener of
        None \<Rightarrow> (m, 0)
      | Some f \<Rightarrow>
          (case em_getHandlerIdx m key f of
             Some (gid, idx) \<Rightarrow> (m, gid)
           | None \<Rightarrow>
               let gid = em_autoID m + 1
               in (m\<lparr>em_listeners := (em_listeners m)(key \<mapsto> listeners_of m key @ [\<lparr>li_gid = gid, li_callback = f\<rparr>]),
                     em_autoID := gid\<rparr>, gid)))"

definition em_Unsubscribe :: "('k, 'e) EventManager \<Rightarrow> 'k \<Rightarrow> 'e closure option \<Rightarrow> ('k, 'e) EventManager" where
  "em_Unsubscribe m key listener =
     (case listener of
        None \<Rightarrow> m
      | Some f \<Rightarrow> (case em_getHandlerIdx m key f of None \<Rightarrow> m | Some (gid, idx) \<Rightarrow> remove_at m key idx))"

definition em_UnsubscribeByID :: "('k, 'e) EventManager \<Rightarrow> 'k \<Rightarrow> 64 word \<Rightarrow> ('k, 'e) EventManager" where
  "em_UnsubscribeByID m key gid =
     (case gid_loop gid 0 (listeners_of m key) of None \<Rightarrow> m | Some idx \<Rightarrow> remove_at m key idx)"

definition em_UnsubscribeAll :: "('k, 'e) EventManager \<Rightarrow> 'k \<Rightarrow> ('k, 'e) EventManager" where
  "em_UnsubscribeAll m key = m\<lparr>em_listeners := (em_listeners m)(key := None)\<rparr>"

definition em_Publish ::
  "('w \<Rightarrow> ('k, 'e) EventManager) \<Rightarrow> ('e closure \<Rightarrow> 'd \<Rightarrow> 'w run) \<Rightarrow> 'k \<Rightarrow> 'd \<Rightarrow> 'w \<Rightarrow> 'w" where
  "em_Publish mgr call key data w = publish_loop call data (listeners_of (mgr w) key) w"

definition em_UnsafePublish ::
  "('w \<Rightarrow> ('k, 'e) EventManager) \<Rightarrow> ('e closure \<Rightarrow> 'd \<Rightarrow> 'w run) \<Rightarrow> 'k \<Rightarrow> 'd \<Rightarrow> 'w run" where
  "em_UnsafePublish mgr call key data w = unsafe_loop call data (listeners_of (mgr w) key) w"

lemmas untyped_defs = NewEventManager_def em_Subscribe_def em_Unsubscribe_def em_UnsubscribeByID_def
  em_UnsubscribeAll_def em_Publish_def em_UnsafePublish_def
lemmas typed_defs = NewSpecEventManager_def Subscribe_def Unsubscribe_def UnsubscribeByID_def
  UnsubscribeAll_def Publish_def UnsafePublish_def

lemma untyped_getHandlerIdx: "em_getHandlerIdx = getHandlerIdx"
  by (intro ext) (simp add: em_getHandlerIdx_def getHandlerIdx_def)

lemma untyped_same:
  "NewEventManager = NewSpecEventManager" "em_Subscribe = Subscribe" "em_Unsubscribe = Unsubscribe"
  "em_UnsubscribeByID = UnsubscribeByID" "em_UnsubscribeAll = UnsubscribeAll" "em_Publish = Publish" "em_UnsafePublish = UnsafePublish"
  by ((intro ext)?, simp add: untyped_defs untyped_getHandlerIdx typed_defs Let_def split: option.split)+

subsection \<open>Operations, and what they promise\<close>

datatype ('k, 'e) event_op = OpSubscribe 'k "'e closure option" | OpUnsubscribe 'k "'e closure option" | OpByID 'k "64 word" | OpAll 'k

fun event_do :: "('k, 'e) event_op \<Rightarrow> ('k, 'e) SpecEventManager \<Rightarrow> ('k, 'e) SpecEventManager" where
  "event_do (OpSubscribe key f) m = fst (Subscribe m key f)"
| "event_do (OpUnsubscribe key f) m = Unsubscribe m key f"
| "event_do (OpByID key gid) m = UnsubscribeByID m key gid"
| "event_do (OpAll key) m = UnsubscribeAll m key"

text \<open>
  The specification: the subscriptions of one key, a list of ids and functions, and how many ids were
  given out. Nothing is said of positions.
\<close>

type_synonym 'e subs = "(nat \<times> 'e closure) list"

fun spec_do :: "('k, 'e) event_op \<Rightarrow> ('k \<Rightarrow> 'e subs) \<times> nat \<Rightarrow> ('k \<Rightarrow> 'e subs) \<times> nat" where
  "spec_do (OpSubscribe key None) (S, n) = (S, n)"
| "spec_do (OpSubscribe key (Some f)) (S, n) =
     (if fn_code f \<in> (fn_code \<circ> snd) ` set (S key) then (S, n) else (S(key := S key @ [(Suc n, f)]), Suc n))"
| "spec_do (OpUnsubscribe key None) (S, n) = (S, n)"
| "spec_do (OpUnsubscribe key (Some f)) (S, n) = (S(key := filter (\<lambda>(i, g). fn_code g \<noteq> fn_code f) (S key)), n)"
| "spec_do (OpByID key gid) (S, n) = (S(key := filter (\<lambda>(i, g). i \<noteq> unat gid) (S key)), n)"
| "spec_do (OpAll key) (S, n) = (S(key := []), n)"

definition subs_of :: "('k, 'e) SpecEventManager \<Rightarrow> 'k \<Rightarrow> 'e subs" where
  "subs_of m key = map (\<lambda>l. (unat (li_gid l), li_callback l)) (listeners_of m key)"

definition spec_inv :: "('k \<Rightarrow> 'e subs) \<times> nat \<Rightarrow> bool" where
  "spec_inv = (\<lambda>(S, n). \<forall>key. distinct (map (fn_code \<circ> snd) (S key)) \<and> distinct (map fst (S key)) \<and>
     (\<forall>i \<in> fst ` set (S key). 0 < i \<and> i \<le> n))"

definition events_abs :: "('k, 'e) SpecEventManager \<Rightarrow> ('k \<Rightarrow> 'e subs) \<times> nat" where
  "events_abs m = (subs_of m, unat (em_autoID m))"

lemma IsSameFunc_simps [simp]: "IsSameFunc (Some f) (Some g) \<longleftrightarrow> fn_code f = fn_code g"
  by (simp add: IsSameFunc_def)

lemma remove_nth_filter:
  "distinct (map f xs) \<Longrightarrow> k < length xs \<Longrightarrow> take k xs @ drop (Suc k) xs = filter (\<lambda>x. f x \<noteq> f (xs ! k)) xs"
proof (induction xs arbitrary: k)
  case (Cons x xs)
  show ?case
  proof (cases k)
    case 0
    then have "filter (\<lambda>y. f y \<noteq> f x) xs = xs" using Cons.prems(1) by (intro filter_True) (auto simp: image_iff)
    then show ?thesis using 0 by simp
  next
    case (Suc j)
    then have "f x \<noteq> f (xs ! j)" using Cons.prems nth_mem [of j xs] by auto
    then show ?thesis using Cons Suc by simp
  qed
qed simp

lemma filter_absent: "v \<notin> f ` set xs \<Longrightarrow> filter (\<lambda>x. f x \<noteq> v) xs = xs"
  by (intro filter_True) auto

lemma handler_loop_spec:
  "handler_loop f i ls = None \<Longrightarrow> fn_code f \<notin> (\<lambda>l. fn_code (li_callback l)) ` set ls"
  "handler_loop f i ls = Some (g, k) \<Longrightarrow> i \<le> k \<and> k - i < length ls \<and> fn_code (li_callback (ls ! (k - i))) = fn_code f \<and> li_gid (ls ! (k - i)) = g"
proof (induction ls arbitrary: i)
  case (Cons l ls)
  { case 1 then show ?case using Cons.IH(1) [of "Suc i"] by (auto split: if_splits)
  next case 2 then show ?case using Cons.IH(2) [of "Suc i"] by (auto simp: nth_Cons' split: if_splits) }
qed simp_all

lemma gid_loop_spec:
  "gid_loop g i ls = None \<Longrightarrow> g \<notin> li_gid ` set ls"
  "gid_loop g i ls = Some k \<Longrightarrow> i \<le> k \<and> k - i < length ls \<and> li_gid (ls ! (k - i)) = g"
proof (induction ls arbitrary: i)
  case (Cons l ls)
  { case 1 then show ?case using Cons.IH(1) [of "Suc i"] by (auto split: if_splits)
  next case 2 then show ?case using Cons.IH(2) [of "Suc i"] by (auto simp: nth_Cons' split: if_splits) }
qed simp_all

lemma listeners_upd:
  "listeners_of (m\<lparr>em_listeners := (em_listeners m)(key \<mapsto> ls)\<rparr>) k = (if k = key then ls else listeners_of m k)"
  "listeners_of (m\<lparr>em_listeners := (em_listeners m)(key := None)\<rparr>) k = (if k = key then [] else listeners_of m k)"
  "listeners_of (m\<lparr>em_autoID := n\<rparr>) k = listeners_of m k"
  by (simp_all add: listeners_of_def)

lemma remove_at_spec:
  assumes "idx < length (listeners_of m key)"
  shows "listeners_of (remove_at m key idx) k =
      (if k = key then take idx (listeners_of m key) @ drop (Suc idx) (listeners_of m key) else listeners_of m k)"
    "em_autoID (remove_at m key idx) = em_autoID m"
  using assms by (auto simp: remove_at_def Let_def listeners_upd)

lemma subs_removed:
  assumes inv: "distinct (map f (listeners_of m key))" and idx: "idx < length (listeners_of m key)" "f (listeners_of m key ! idx) = v"
    and p: "\<And>l. P (unat (li_gid l), li_callback l) \<longleftrightarrow> f l \<noteq> v"
  shows "subs_of (remove_at m key idx) = (subs_of m)(key := filter P (subs_of m key))"
proof
  fix k
  have "filter P (subs_of m key) = map (\<lambda>l. (unat (li_gid l), li_callback l)) (filter (\<lambda>l. f l \<noteq> v) (listeners_of m key))"
    by (simp add: subs_of_def filter_map o_def p)
  then show "subs_of (remove_at m key idx) k = ((subs_of m)(key := filter P (subs_of m key))) k"
    using remove_nth_filter [OF inv idx(1)] idx(2) by (simp add: subs_of_def remove_at_spec(1) [OF idx(1)])
qed

lemma events_invD:
  assumes "spec_inv (events_abs m)"
  shows "distinct (map (\<lambda>l. fn_code (li_callback l)) (listeners_of m key))" "distinct (map li_gid (listeners_of m key))"
proof -
  have "distinct (map (fn_code \<circ> snd) (subs_of m key))" "distinct (map fst (subs_of m key))"
    using assms by (simp_all add: spec_inv_def events_abs_def)
  then show "distinct (map (\<lambda>l. fn_code (li_callback l)) (listeners_of m key))" "distinct (map li_gid (listeners_of m key))"
    by (simp_all add: subs_of_def o_def distinct_map inj_on_def)
qed

lemma removed_spec:
  assumes inv: "spec_inv (events_abs m)"
  shows "Unsubscribe m key (Some f) = m' \<Longrightarrow> subs_of m' = (subs_of m)(key := filter (\<lambda>(i, g). fn_code g \<noteq> fn_code f) (subs_of m key)) \<and> em_autoID m' = em_autoID m"
    "UnsubscribeByID m key gid = m' \<Longrightarrow> subs_of m' = (subs_of m)(key := filter (\<lambda>(i, g). i \<noteq> unat gid) (subs_of m key)) \<and> em_autoID m' = em_autoID m"
proof -
  have absent: "(subs_of m)(key := filter P (subs_of m key)) = subs_of m" if "\<And>x. x \<in> set (subs_of m key) \<Longrightarrow> P x" for P
    using that by (simp add: fun_upd_idem filter_True)
  assume u: "Unsubscribe m key (Some f) = m'"
  show "subs_of m' = (subs_of m)(key := filter (\<lambda>(i, g). fn_code g \<noteq> fn_code f) (subs_of m key)) \<and> em_autoID m' = em_autoID m"
  proof (cases "getHandlerIdx m key f")
    case None
    then have "fn_code f \<notin> (\<lambda>l. fn_code (li_callback l)) ` set (listeners_of m key)"
      using handler_loop_spec(1) unfolding getHandlerIdx_def by blast
    then have "(subs_of m)(key := filter (\<lambda>(i, g). fn_code g \<noteq> fn_code f) (subs_of m key)) = subs_of m"
      by (intro absent) (force simp: subs_of_def)
    with u None show ?thesis by (simp add: Unsubscribe_def)
  next
    case (Some gi)
    obtain g idx where gi: "gi = (g, idx)" by fastforce
    have b: "idx < length (listeners_of m key)" "fn_code (li_callback (listeners_of m key ! idx)) = fn_code f"
      using handler_loop_spec(2) [OF Some [unfolded gi getHandlerIdx_def]] by simp_all
    show ?thesis using u Some gi subs_removed [OF events_invD(1) [OF inv] b] remove_at_spec(2) [OF b(1)]
      by (auto simp: Unsubscribe_def)
  qed
next
  have absent: "(subs_of m)(key := filter P (subs_of m key)) = subs_of m" if "\<And>x. x \<in> set (subs_of m key) \<Longrightarrow> P x" for P
    using that by (simp add: fun_upd_idem filter_True)
  assume u: "UnsubscribeByID m key gid = m'"
  show "subs_of m' = (subs_of m)(key := filter (\<lambda>(i, g). i \<noteq> unat gid) (subs_of m key)) \<and> em_autoID m' = em_autoID m"
  proof (cases "gid_loop gid 0 (listeners_of m key)")
    case None
    have "gid \<notin> li_gid ` set (listeners_of m key)" using gid_loop_spec(1) [OF None] .
    then have "(subs_of m)(key := filter (\<lambda>(i, g). i \<noteq> unat gid) (subs_of m key)) = subs_of m"
      by (intro absent) (auto simp: subs_of_def image_iff word_unat_eq_iff)
    with u None show ?thesis by (simp add: UnsubscribeByID_def)
  next
    case (Some idx)
    have b: "idx < length (listeners_of m key)" "li_gid (listeners_of m key ! idx) = gid"
      using gid_loop_spec(2) [OF Some] by simp_all
    have "subs_of (remove_at m key idx) = (subs_of m)(key := filter (\<lambda>(i, g). i \<noteq> unat gid) (subs_of m key))"
      by (rule subs_removed [OF events_invD(2) [OF inv] b]) (simp add: word_unat_eq_iff)
    with u Some remove_at_spec(2) [OF b(1)] show ?thesis by (simp add: UnsubscribeByID_def)
  qed
qed

lemma subscribed_spec:
  assumes inv: "spec_inv (events_abs m)" and room: "unat (em_autoID m) < 2 ^ 64 - 1"
  shows "(subs_of (fst (Subscribe m key (Some f))), unat (em_autoID (fst (Subscribe m key (Some f))))) =
      spec_do (OpSubscribe key (Some f)) (subs_of m, unat (em_autoID m))"
proof -
  have n: "unat (em_autoID m + 1) = Suc (unat (em_autoID m))" using room by (simp add: unat_plus_simple word_le_nat_alt unat_arith_simps)
  have img: "(fn_code \<circ> snd) ` set (subs_of m key) = (\<lambda>l. fn_code (li_callback l)) ` set (listeners_of m key)"
    by (auto simp: subs_of_def image_iff)
  show ?thesis
  proof (cases "getHandlerIdx m key f")
    case None
    then have "fn_code f \<notin> (\<lambda>l. fn_code (li_callback l)) ` set (listeners_of m key)"
      using handler_loop_spec(1) unfolding getHandlerIdx_def by blast
    then show ?thesis using None n
      by (auto simp: Subscribe_def Let_def img subs_of_def listeners_upd fun_eq_iff)
  next
    case (Some gi)
    obtain g idx where gi: "gi = (g, idx)" by fastforce
    have b: "idx < length (listeners_of m key)" "fn_code (li_callback (listeners_of m key ! idx)) = fn_code f"
      using handler_loop_spec(2) [OF Some [unfolded gi getHandlerIdx_def]] by simp_all
    then have "fn_code f \<in> (\<lambda>l. fn_code (li_callback l)) ` set (listeners_of m key)" by (metis image_eqI nth_mem)
    then show ?thesis using Some gi by (simp add: Subscribe_def img [unfolded o_def])
  qed
qed

lemma event_do_spec:
  assumes "spec_inv (events_abs m)" "unat (em_autoID m) < 2 ^ 64 - 1"
  shows "(subs_of (event_do x m), unat (em_autoID (event_do x m))) = spec_do x (subs_of m, unat (em_autoID m))"
proof (cases x)
  case (OpSubscribe key f)
  then show ?thesis using subscribed_spec [OF assms] by (cases f) (simp_all add: Subscribe_def)
next
  case (OpUnsubscribe key f)
  then show ?thesis using removed_spec(1) [OF assms(1) refl, of key] by (cases f) (simp_all add: Unsubscribe_def)
next
  case (OpByID key g)
  then show ?thesis using removed_spec(2) [OF assms(1) refl] by simp
next
  case (OpAll key)
  then show ?thesis by (auto simp: UnsubscribeAll_def subs_of_def listeners_upd fun_eq_iff)
qed

lemma spec_inv_step:
  assumes "spec_inv (S, n)"
  shows "spec_inv (spec_do x (S, n))" "snd (spec_do x (S, n)) \<le> Suc n"
proof -
  have D: "distinct (map (fn_code \<circ> snd) (S key))" "distinct (map fst (S key))" "\<forall>i \<in> fst ` set (S key). 0 < i \<and> i \<le> n" for key
    using assms by (simp_all add: spec_inv_def)
  have F: "spec_inv (S(key := filter P (S key)), n)" for key P
    using D by (force simp: spec_inv_def distinct_map_filter)
  have A: "spec_inv (S(key := S key @ [(Suc n, f)]), Suc n)" if "fn_code f \<notin> (fn_code \<circ> snd) ` set (S key)" for key f
    unfolding spec_inv_def split_conv
  proof (intro allI)
    fix k
    show "distinct (map (fn_code \<circ> snd) ((S(key := S key @ [(Suc n, f)])) k)) \<and> distinct (map fst ((S(key := S key @ [(Suc n, f)])) k)) \<and>
       (\<forall>i \<in> fst ` set ((S(key := S key @ [(Suc n, f)])) k). 0 < i \<and> i \<le> Suc n)"
      using D [of k] that by (cases "k = key") (auto simp: le_Suc_eq, (meson Suc_n_not_le_n fst_conv)?)
  qed
  show "spec_inv (spec_do x (S, n))" using assms F A D
    by (induction x "(S, n)" rule: spec_do.induct) (auto simp: spec_inv_def)
  show "snd (spec_do x (S, n)) \<le> Suc n" by (induction x "(S, n)" rule: spec_do.induct) simp_all
qed

lemma NewEvents_abs: "events_abs NewSpecEventManager = (\<lambda>key. [], 0)"
  by (auto simp: events_abs_def NewSpecEventManager_def subs_of_def listeners_of_def)

lemma events_run:
  assumes "length ops < 2 ^ 64"
  shows "events_abs (fold event_do ops NewSpecEventManager) = fold spec_do ops (\<lambda>key. [], 0) \<and>
    spec_inv (fold spec_do ops (\<lambda>key. [], 0)) \<and> snd (fold spec_do ops (\<lambda>key. [], 0)) \<le> length ops"
  using assms
proof (induction ops rule: rev_induct)
  case Nil
  then show ?case by (simp add: NewEvents_abs spec_inv_def)
next
  case (snoc x ops)
  obtain S n where Sn: "fold spec_do ops (\<lambda>key. [], 0) = (S, n)" by fastforce
  with snoc have ih: "events_abs (fold event_do ops NewSpecEventManager) = (S, n)" "spec_inv (S, n)" "n \<le> length ops" by simp_all
  then have "unat (em_autoID (fold event_do ops NewSpecEventManager)) < 2 ^ 64 - 1" using snoc.prems by (simp add: events_abs_def)
  with ih event_do_spec [of "fold event_do ops NewSpecEventManager" x] spec_inv_step [of S n x] Sn show ?case
    by (simp add: events_abs_def)
qed

lemma publish_loop_fold:
  "publish_loop call data ls w = fold (\<lambda>f w. fst (call f data w)) (map li_callback ls) w"
  by (induction ls arbitrary: w) (simp_all add: SafeCall_def)

lemma unsafe_loop_fold:
  "\<exists>before after. map li_callback ls = before @ after \<and>
     fst (unsafe_loop call data ls w) = fold (\<lambda>f w. fst (call f data w)) before w \<and> (\<not> snd (unsafe_loop call data ls w) \<longrightarrow> after = [])"
proof (induction ls arbitrary: w)
  case (Cons l ls)
  obtain w' p where c: "call (li_callback l) data w = (w', p)" by fastforce
  show ?case
  proof (cases p)
    case True
    then have "map li_callback (l # ls) = [li_callback l] @ map li_callback ls \<and>
        fst (unsafe_loop call data (l # ls) w) = fold (\<lambda>f w. fst (call f data w)) [li_callback l] w \<and>
        (\<not> snd (unsafe_loop call data (l # ls) w) \<longrightarrow> map li_callback ls = [])" using c by simp
    then show ?thesis by blast
  next
    case False
    obtain b a where "map li_callback ls = b @ a \<and> fst (unsafe_loop call data ls w') = fold (\<lambda>f w. fst (call f data w)) b w' \<and>
        (\<not> snd (unsafe_loop call data ls w') \<longrightarrow> a = [])" using Cons.IH by blast
    then have "map li_callback (l # ls) = (li_callback l # b) @ a \<and>
        fst (unsafe_loop call data (l # ls) w) = fold (\<lambda>f w. fst (call f data w)) (li_callback l # b) w \<and>
        (\<not> snd (unsafe_loop call data (l # ls) w) \<longrightarrow> a = [])" using c False by simp
    then show ?thesis by blast
  qed
qed simp

subsection \<open>Properties\<close>

text \<open>
  C36: the event manager keeps, for each key, the subscriptions in the order they were made. After
  any operations, fewer than \<open>2\<^sup>6\<^sup>4\<close>, its table is the one the specification computes: a subscription
  is added with an id never used before, unless the key has a function with the same code, which
  keeps its id; \<open>Unsubscribe\<close> removes the function with that code, \<open>UnsubscribeByID\<close> that id, and
  nothing else changes. Publishing then calls the functions of the key once each in that order,
  also when some panic or subscribe and unsubscribe others meanwhile; the unsafe way stops at the
  first panic.
\<close>

theorem event_manager_refines:
  assumes "length ops < 2 ^ 64"
  shows "events_abs (fold event_do ops NewSpecEventManager) = fold spec_do ops (\<lambda>key. [], 0) \<and>
    (mgr w = fold event_do ops NewSpecEventManager \<longrightarrow>
      (let fs = map snd (fst (fold spec_do ops (\<lambda>key. [], 0)) key)
       in Publish mgr call key data w = fold (\<lambda>f w. fst (call f data w)) fs w \<and>
          (\<exists>before after. fs = before @ after \<and> fst (UnsafePublish mgr call key data w) = fold (\<lambda>f w. fst (call f data w)) before w \<and>
             (\<not> snd (UnsafePublish mgr call key data w) \<longrightarrow> after = []))))"
proof -
  have r: "events_abs (fold event_do ops NewSpecEventManager) = fold spec_do ops (\<lambda>key. [], 0)" using events_run [OF assms] by blast
  then have "map snd (fst (fold spec_do ops (\<lambda>key. [], 0)) key) = map li_callback (listeners_of (fold event_do ops NewSpecEventManager) key)"
    unfolding r [symmetric] by (simp add: events_abs_def subs_of_def)
  with r unsafe_loop_fold [of "listeners_of (fold event_do ops NewSpecEventManager) key" call data w] show ?thesis
    by (simp add: Publish_def UnsafePublish_def publish_loop_fold Let_def)
qed

text \<open>Two listeners; the first one unsubscribes itself while it is called.\<close>

definition sample_call :: "nat closure \<Rightarrow> nat \<Rightarrow> (string, nat) SpecEventManager \<times> nat list \<Rightarrow> ((string, nat) SpecEventManager \<times> nat list) \<times> bool" where
  "sample_call f d w = (if fn_code f = 1 then ((Unsubscribe (fst w) ''k'' (Some f), snd w @ [fn_env f + d]), True) else ((fst w, snd w @ [fn_env f + d]), False))"

definition sample_ops :: "(string, nat) event_op list" where
  "sample_ops = [OpSubscribe ''k'' (Some \<lparr>fn_code = 1, fn_env = 10\<rparr>), OpSubscribe ''k'' (Some \<lparr>fn_code = 2, fn_env = 20\<rparr>)]"

lemma event_manager_refines_witness:
  "length sample_ops < 2 ^ 64 \<and>
   snd (Publish fst sample_call ''k'' 5 (fold event_do sample_ops NewSpecEventManager, [])) = [15, 25]"
proof -
  have l: "length sample_ops < 2 ^ 64" by (simp add: sample_ops_def)
  have fs: "map snd (fst (fold spec_do sample_ops (\<lambda>key. [], 0)) ''k'') = [\<lparr>fn_code = 1, fn_env = 10\<rparr>, \<lparr>fn_code = 2, fn_env = 20\<rparr>]"
    by (simp add: sample_ops_def)
  show ?thesis
    using event_manager_refines [OF l, of fst "(fold event_do sample_ops NewSpecEventManager, [])" "''k''" sample_call 5] l
    unfolding Let_def fs by (simp add: sample_call_def)
qed

text \<open>
  Two functions with the same code are one subscription. When a function with the same code as
  a listener of the key is subscribed, such as another closure of one function literal, it gets
  that listener's id and is never called; unsubscribing it, by function or by the id it got, removes
  the other.
\<close>

theorem same_code_shared:
  assumes "length ops < 2 ^ 64" "(i, f) \<in> set (fst (fold spec_do ops (\<lambda>key. [], 0)) key)" "fn_code g = fn_code f"
  shows "let m = fold event_do ops NewSpecEventManager; (m', gid) = Subscribe m key (Some g)
    in m' = m \<and> unat gid = i \<and> (i, f) \<notin> set (subs_of (Unsubscribe m' key (Some g)) key) \<and> (i, f) \<notin> set (subs_of (UnsubscribeByID m' key gid) key)"
proof -
  define m where "m = fold event_do ops NewSpecEventManager"
  have a: "events_abs m = fold spec_do ops (\<lambda>key. [], 0)" "spec_inv (events_abs m)" using events_run [OF assms(1)] by (simp_all add: m_def)
  then have f: "(i, f) \<in> set (subs_of m key)" using assms(2) by (simp add: a(1) [symmetric] events_abs_def)
  then obtain l where l: "l \<in> set (listeners_of m key)" "unat (li_gid l) = i" "li_callback l = f" by (auto simp: subs_of_def)
  obtain gid idx where h: "getHandlerIdx m key g = Some (gid, idx)"
    using handler_loop_spec(1) [of g 0 "listeners_of m key"] l(1,3) assms(3) by (cases "getHandlerIdx m key g") (auto simp: getHandlerIdx_def)
  have b: "idx < length (listeners_of m key)" "fn_code (li_callback (listeners_of m key ! idx)) = fn_code g" "li_gid (listeners_of m key ! idx) = gid"
    using handler_loop_spec(2) [OF h [unfolded getHandlerIdx_def]] by simp_all
  then have "listeners_of m key ! idx = l"
    using inj_onD [of "\<lambda>l. fn_code (li_callback l)", OF _ _ nth_mem [OF b(1)] l(1)] events_invD(1) [OF a(2), of key] l(3) assms(3)
    by (simp add: distinct_map)
  then have g: "unat gid = i" using b(3) l(2) by simp
  have "Subscribe m key (Some g) = (m, gid)" using h by (simp add: Subscribe_def)
  then show ?thesis using g removed_spec [OF a(2) refl, of key] assms(3) by (simp add: m_def [symmetric] case_prod_unfold)
qed

lemma same_code_shared_witness:
  "let m = fold event_do sample_ops NewSpecEventManager
   in Subscribe m ''k'' (Some \<lparr>fn_code = 1, fn_env = 99\<rparr>) = (m, 1) \<and>
      (1, \<lparr>fn_code = 1, fn_env = 10\<rparr>) \<notin> set (subs_of (UnsubscribeByID m ''k'' 1) ''k'')"
proof -
  define m where "m = fold event_do sample_ops NewSpecEventManager"
  have "length sample_ops < 2 ^ 64" "(1, \<lparr>fn_code = 1, fn_env = 10\<rparr>) \<in> set (fst (fold spec_do sample_ops (\<lambda>key. [], 0)) ''k'')"
    by (simp_all add: sample_ops_def)
  from same_code_shared [OF this, of "\<lparr>fn_code = 1, fn_env = 99\<rparr>"]
  obtain gid where g: "Subscribe m ''k'' (Some \<lparr>fn_code = 1, fn_env = 99\<rparr>) = (m, gid)" "unat gid = 1"
      "(1, \<lparr>fn_code = 1, fn_env = 10\<rparr>) \<notin> set (subs_of (UnsubscribeByID m ''k'' gid) ''k'')"
    unfolding m_def [symmetric] Let_def by (auto split: prod.splits)
  then have "gid = 1" by (simp add: word_unat_eq_iff)
  with g show ?thesis by (simp add: m_def Let_def)
qed

end
