(* ===== verification/MemberMgr.thy ===== *)
theory MemberMgr
  imports EventMgr
begin

section \<open>The member manager of service discovery\<close>

text \<open>
  remotes/kkdiscovery: the members of the cluster by node id and, in a second map, by node type. The
  maps share the member objects: an object has an address in \<open>mb_objs\<close>, updating a member writes into the
  object, and a member handed out shows the update. What an operation does under the lock is one step;
  the listeners are called after the lock is released.
\<close>

record Member =
  nodeID :: string
  nodeType :: string
  address :: string
  rpcAddress :: string
  weight :: int
  status :: int

record MemberInfo =
  mi_NodeID :: string
  mi_NodeType :: string
  mi_Address :: string
  mi_RpcAddress :: string
  mi_Weight :: int
  mi_Status :: int

record 'e MemberMgr =
  mb_objs :: "Member list"
  mb_members :: "string \<rightharpoonup> nat"
  mb_typeMap :: "string \<rightharpoonup> nat list"
  mb_eventMgr :: "(string, 'e) SpecEventManager"

definition NewMemberMgr :: "'e MemberMgr" where
  "NewMemberMgr = \<lparr>mb_objs = [], mb_members = Map.empty, mb_typeMap = Map.empty, mb_eventMgr = NewSpecEventManager\<rparr>"

definition type_list :: "'e MemberMgr \<Rightarrow> string \<Rightarrow> nat list" where
  "type_list m t = (case mb_typeMap m t of None \<Rightarrow> [] | Some l \<Rightarrow> l)"

definition obj :: "'e MemberMgr \<Rightarrow> nat \<Rightarrow> Member" where
  "obj m a = mb_objs m ! a"

subsection \<open>Under the lock\<close>

text \<open>The loop that takes the first member with an id out of a list.\<close>

fun drop_node :: "'e MemberMgr \<Rightarrow> string \<Rightarrow> nat list \<Rightarrow> nat list" where
  "drop_node m i [] = []"
| "drop_node m i (a # as) = (if nodeID (obj m a) = i then as else a # drop_node m i as)"

definition AddMember_locked :: "MemberInfo \<Rightarrow> 'e MemberMgr \<Rightarrow> (nat \<times> bool) \<times> 'e MemberMgr" where
  "AddMember_locked info m =
     (case mb_members m (mi_NodeID info) of
        None \<Rightarrow>
          let member = length (mb_objs m);
              new = \<lparr>nodeID = mi_NodeID info, nodeType = mi_NodeType info, address = mi_Address info,
                     rpcAddress = mi_RpcAddress info, weight = mi_Weight info, status = mi_Status info\<rparr>
          in ((member, False),
              m\<lparr>mb_objs := mb_objs m @ [new], mb_members := (mb_members m)(mi_NodeID info \<mapsto> member),
                mb_typeMap := (mb_typeMap m)(mi_NodeType info \<mapsto> type_list m (mi_NodeType info) @ [member])\<rparr>)
      | Some member \<Rightarrow>
          let oldType = nodeType (obj m member);
              m1 = (if oldType \<noteq> mi_NodeType info then
                      let m1 = m\<lparr>mb_typeMap := (mb_typeMap m)(oldType \<mapsto> drop_node m (mi_NodeID info) (type_list m oldType))\<rparr>
                      in m1\<lparr>mb_typeMap := (mb_typeMap m1)(mi_NodeType info \<mapsto> type_list m1 (mi_NodeType info) @ [member])\<rparr>
                    else m);
              mb = (obj m1 member)\<lparr>nodeType := mi_NodeType info, address := mi_Address info,
                     rpcAddress := mi_RpcAddress info, weight := mi_Weight info, status := mi_Status info\<rparr>
          in ((member, True), m1\<lparr>mb_objs := (mb_objs m1)[member := mb]\<rparr>))"

definition RemoveMember_locked :: "string \<Rightarrow> 'e MemberMgr \<Rightarrow> nat option \<times> 'e MemberMgr" where
  "RemoveMember_locked i m =
     (case mb_members m i of
        None \<Rightarrow> (None, m)
      | Some member \<Rightarrow>
          let m1 = m\<lparr>mb_members := (mb_members m)(i := None)\<rparr>;
              oldType = nodeType (obj m1 member)
          in (Some member, m1\<lparr>mb_typeMap := (mb_typeMap m1)(oldType \<mapsto> drop_node m1 i (type_list m1 oldType))\<rparr>))"

definition GetMember :: "'e MemberMgr \<Rightarrow> string \<Rightarrow> nat option" where
  "GetMember m i = mb_members m i"

definition MemberCount :: "'e MemberMgr \<Rightarrow> nat" where
  "MemberCount m = card (dom (mb_members m))"

definition CountOfType :: "'e MemberMgr \<Rightarrow> string \<Rightarrow> nat" where
  "CountOfType m t = length (type_list m t)"

definition GetNodeType :: "'e MemberMgr \<Rightarrow> string \<Rightarrow> kkerror + string" where
  "GetNodeType m i = (case mb_members m i of None \<Rightarrow> Inl ErrClusterMemberNotFound | Some a \<Rightarrow> Inr (nodeType (obj m a)))"

text \<open>
  The two iterations, over the visitor's own state; the visitor says whether to go on. The order in
  which Go visits the keys of the map is the parameter \<open>order\<close>.
\<close>

fun visit_members :: "(string \<Rightarrow> nat \<Rightarrow> 's \<Rightarrow> 's \<times> bool) \<Rightarrow> (string \<times> nat) list \<Rightarrow> 's \<Rightarrow> 's" where
  "visit_members fn [] s = s"
| "visit_members fn ((i, a) # rest) s = (case fn i a s of (s', cont) \<Rightarrow> if cont then visit_members fn rest s' else s')"

definition mb_Range :: "'e MemberMgr \<Rightarrow> string list \<Rightarrow> (string \<Rightarrow> nat \<Rightarrow> 's \<Rightarrow> 's \<times> bool) \<Rightarrow> 's \<Rightarrow> 's" where
  "mb_Range m order fn = visit_members fn (map (\<lambda>i. (i, the (mb_members m i))) order)"

definition RangeType :: "'e MemberMgr \<Rightarrow> string \<Rightarrow> (string \<Rightarrow> nat \<Rightarrow> 's \<Rightarrow> 's \<times> bool) \<Rightarrow> 's \<Rightarrow> 's" where
  "RangeType m t fn = visit_members fn (map (\<lambda>a. (nodeID (obj m a), a)) (type_list m t))"

subsection \<open>Listeners\<close>

definition eventMemberAdd :: string where "eventMemberAdd = ''add''"
definition eventMemberRemove :: string where "eventMemberRemove = ''remove''"

definition ObserveAddMember :: "'e closure option \<Rightarrow> 'e MemberMgr \<Rightarrow> 'e MemberMgr" where
  "ObserveAddMember listener m =
     (if listener = None then m else m\<lparr>mb_eventMgr := fst (Subscribe (mb_eventMgr m) eventMemberAdd listener)\<rparr>)"

definition ObserveRemoveMember :: "'e closure option \<Rightarrow> 'e MemberMgr \<Rightarrow> 'e MemberMgr" where
  "ObserveRemoveMember listener m =
     (if listener = None then m else m\<lparr>mb_eventMgr := fst (Subscribe (mb_eventMgr m) eventMemberRemove listener)\<rparr>)"

definition mb_Stop :: "'e MemberMgr \<Rightarrow> 'e MemberMgr" where
  "mb_Stop m = m\<lparr>mb_eventMgr := UnsubscribeAll (UnsubscribeAll (mb_eventMgr m) eventMemberAdd) eventMemberRemove\<rparr>"

text \<open>The whole operations, over the manager and the rest \<open>'w\<close> of the program the listeners work on.\<close>

type_synonym ('e, 'w) listener_call = "'e closure \<Rightarrow> nat \<Rightarrow> ('e MemberMgr \<times> 'w) run"

definition notifyAddListeners :: "('e, 'w) listener_call \<Rightarrow> nat \<Rightarrow> 'e MemberMgr \<times> 'w \<Rightarrow> 'e MemberMgr \<times> 'w" where
  "notifyAddListeners call member = Publish (\<lambda>w. mb_eventMgr (fst w)) call eventMemberAdd member"

definition notifyRemoveListeners :: "('e, 'w) listener_call \<Rightarrow> nat \<Rightarrow> 'e MemberMgr \<times> 'w \<Rightarrow> 'e MemberMgr \<times> 'w" where
  "notifyRemoveListeners call member = Publish (\<lambda>w. mb_eventMgr (fst w)) call eventMemberRemove member"

definition AddMember :: "('e, 'w) listener_call \<Rightarrow> MemberInfo \<Rightarrow> 'e MemberMgr \<times> 'w \<Rightarrow> (nat \<times> bool) \<times> ('e MemberMgr \<times> 'w)" where
  "AddMember call info w =
     (case AddMember_locked info (fst w) of ((member, existed), m) \<Rightarrow>
        ((member, \<not> existed), if existed then (m, snd w) else notifyAddListeners call member (m, snd w)))"

definition RemoveMember :: "('e, 'w) listener_call \<Rightarrow> string \<Rightarrow> 'e MemberMgr \<times> 'w \<Rightarrow> bool \<times> ('e MemberMgr \<times> 'w)" where
  "RemoveMember call i w =
     (case RemoveMember_locked i (fst w) of
        (None, m) \<Rightarrow> (False, (m, snd w))
      | (Some member, m) \<Rightarrow> (True, notifyRemoveListeners call member (m, snd w)))"

subsection \<open>The invariant\<close>

text \<open>Every member object is in the list of its type, once, and in no other list.\<close>

definition members_inv :: "'e MemberMgr \<Rightarrow> bool" where
  "members_inv m \<longleftrightarrow>
     finite (dom (mb_members m)) \<and>
     (\<forall>i a. mb_members m i = Some a \<longrightarrow> a < length (mb_objs m) \<and> nodeID (obj m a) = i) \<and>
     (\<forall>t. distinct (type_list m t) \<and>
        set (type_list m t) = {a. \<exists>i. mb_members m i = Some a \<and> nodeType (obj m a) = t})"

text \<open>What the manager knows, as a map from node ids to the last information given.\<close>

definition info_of :: "Member \<Rightarrow> MemberInfo" where
  "info_of x = \<lparr>mi_NodeID = nodeID x, mi_NodeType = nodeType x, mi_Address = address x,
     mi_RpcAddress = rpcAddress x, mi_Weight = weight x, mi_Status = status x\<rparr>"

definition infos :: "'e MemberMgr \<Rightarrow> string \<rightharpoonup> MemberInfo" where
  "infos m i = map_option (\<lambda>a. info_of (obj m a)) (mb_members m i)"

lemma members_invD:
  assumes "members_inv m"
  shows "finite (dom (mb_members m))" "mb_members m i = Some a \<Longrightarrow> a < length (mb_objs m)"
    "mb_members m i = Some a \<Longrightarrow> nodeID (obj m a) = i" "distinct (type_list m t)"
    "a \<in> set (type_list m t) \<longleftrightarrow> (\<exists>i. mb_members m i = Some a) \<and> nodeType (obj m a) = t"
  using assms unfolding members_inv_def by blast+

lemma drop_node_remove:
  "\<lbrakk>distinct as; a \<in> set as; \<And>b. b \<in> set as \<Longrightarrow> nodeID (obj m b) = i \<longleftrightarrow> b = a\<rbrakk> \<Longrightarrow> drop_node m i as = remove1 a as"
  by (induction as) auto

lemma members_dropped:
  assumes inv: "members_inv m" and a: "mb_members m i = Some a"
  shows "drop_node m i (type_list m (nodeType (obj m a))) = remove1 a (type_list m (nodeType (obj m a)))"
proof (rule drop_node_remove)
  note D = members_invD [OF inv]
  show "distinct (type_list m (nodeType (obj m a)))" by (rule D(4))
  show "a \<in> set (type_list m (nodeType (obj m a)))" unfolding D(5) using a by blast
  fix b assume "b \<in> set (type_list m (nodeType (obj m a)))"
  then obtain j where j: "mb_members m j = Some b" unfolding D(5) by blast
  show "nodeID (obj m b) = i \<longleftrightarrow> b = a" using D(3) [OF j] D(3) [OF a] j a by (metis option.inject)
qed

lemma type_list_upd:
  "type_list (m\<lparr>mb_typeMap := tm\<rparr>) u = (case tm u of None \<Rightarrow> [] | Some l \<Rightarrow> l)"
  "(case mb_typeMap m u of None \<Rightarrow> [] | Some l \<Rightarrow> l) = type_list m u"
  "type_list (m\<lparr>mb_members := ms\<rparr>) u = type_list m u" "type_list (m\<lparr>mb_objs := os\<rparr>) u = type_list m u"
  by (simp_all add: type_list_def)

lemma obj_upd:
  "obj (m\<lparr>mb_typeMap := tm\<rparr>) a = obj m a" "obj (m\<lparr>mb_members := ms\<rparr>) a = obj m a"
  "a < length (mb_objs m) \<Longrightarrow> obj (m\<lparr>mb_objs := mb_objs m @ [x]\<rparr>) a = obj m a"
  "obj (m\<lparr>mb_objs := mb_objs m @ [x]\<rparr>) (length (mb_objs m)) = x"
  "b < length (mb_objs m) \<Longrightarrow> obj (m\<lparr>mb_objs := (mb_objs m)[b := x]\<rparr>) a = (if a = b then x else obj m a)"
  by (simp_all add: obj_def nth_append nth_list_update)

lemma members_invI:
  assumes "finite (dom (mb_members m))"
    and "\<And>i a. mb_members m i = Some a \<Longrightarrow> a < length (mb_objs m) \<and> nodeID (obj m a) = i"
    and "\<And>t. distinct (type_list m t)"
    and "\<And>t a. a \<in> set (type_list m t) \<longleftrightarrow> (\<exists>i. mb_members m i = Some a) \<and> nodeType (obj m a) = t"
  shows "members_inv m"
  using assms unfolding members_inv_def by blast

lemma New_members: "members_inv NewMemberMgr" "infos NewMemberMgr = Map.empty"
  by (simp_all add: members_inv_def NewMemberMgr_def type_list_def infos_def fun_eq_iff)

lemma add_new:
  assumes inv: "members_inv m" and new: "mb_members m (mi_NodeID info) = None"
    and r: "AddMember_locked info m = (r, m')"
  shows "r = (length (mb_objs m), False)" "mb_members m' = (mb_members m)(mi_NodeID info \<mapsto> length (mb_objs m))"
    "length (mb_objs m') = Suc (length (mb_objs m))" "info_of (obj m' (length (mb_objs m))) = info"
    "a < length (mb_objs m) \<Longrightarrow> obj m' a = obj m a" "mb_eventMgr m' = mb_eventMgr m"
    "type_list m' t = type_list m t @ (if t = mi_NodeType info then [length (mb_objs m)] else [])"
  using r new by (auto simp: AddMember_locked_def Let_def type_list_def obj_def nth_append info_of_def)

lemma add_known:
  assumes inv: "members_inv m" and known: "mb_members m (mi_NodeID info) = Some b"
    and r: "AddMember_locked info m = (r, m')"
  shows "r = (b, True)" "mb_members m' = mb_members m" "length (mb_objs m') = length (mb_objs m)" "info_of (obj m' b) = info"
    "a \<noteq> b \<Longrightarrow> obj m' a = obj m a" "mb_eventMgr m' = mb_eventMgr m"
    "type_list m' t = (if nodeType (obj m b) = mi_NodeType info then type_list m t
       else if t = mi_NodeType info then type_list m t @ [b]
       else if t = nodeType (obj m b) then remove1 b (type_list m t) else type_list m t)"
  using r known members_invD(2,3) [OF inv known] members_dropped [OF inv known]
  by (auto simp: AddMember_locked_def Let_def type_list_upd obj_def info_of_def)

lemma remove_known:
  assumes inv: "members_inv m" and known: "mb_members m i = Some b" and r: "RemoveMember_locked i m = (r, m')"
  shows "r = Some b" "mb_members m' = (mb_members m)(i := None)" "mb_objs m' = mb_objs m" "mb_eventMgr m' = mb_eventMgr m"
    "type_list m' t = (if t = nodeType (obj m b) then remove1 b (type_list m t) else type_list m t)"
proof -
  have d: "drop_node (m\<lparr>mb_members := (mb_members m)(i := None)\<rparr>) i as = drop_node m i as" for as
    by (induction as) (simp_all add: obj_upd)
  show "r = Some b" "mb_members m' = (mb_members m)(i := None)" "mb_objs m' = mb_objs m" "mb_eventMgr m' = mb_eventMgr m"
    "type_list m' t = (if t = nodeType (obj m b) then remove1 b (type_list m t) else type_list m t)"
    using r known members_dropped [OF inv known] d by (auto simp: RemoveMember_locked_def Let_def type_list_upd obj_upd)
qed

lemma info_fields: "info_of x = info \<Longrightarrow> nodeID x = mi_NodeID info \<and> nodeType x = mi_NodeType info"
  by (auto simp: info_of_def)

lemma add_members:
  assumes inv: "members_inv m" and r: "AddMember_locked info m = ((member, existed), m')"
  shows "members_inv m'" "infos m' = (infos m)(mi_NodeID info \<mapsto> info)" "existed \<longleftrightarrow> mi_NodeID info \<in> dom (infos m)"
    "mb_members m' (mi_NodeID info) = Some member" "existed \<Longrightarrow> mb_members m' = mb_members m"
proof -
  note D = members_invD [OF inv]
  have all: "members_inv m' \<and> infos m' = (infos m)(mi_NodeID info \<mapsto> info) \<and> (existed \<longleftrightarrow> mi_NodeID info \<in> dom (infos m)) \<and>
     mb_members m' (mi_NodeID info) = Some member \<and> (existed \<longrightarrow> mb_members m' = mb_members m)"
  proof (cases "mb_members m (mi_NodeID info)")
    case None
    note N = add_new [OF inv None r]
    note f = info_fields [OF N(4)]
    have fresh: "a \<noteq> length (mb_objs m)" if "mb_members m i = Some a" for i a using D(2) [OF that] by simp
    have "members_inv m'"
    proof (rule members_invI)
      show "finite (dom (mb_members m'))" using D(1) by (simp add: N(2))
      show "a < length (mb_objs m') \<and> nodeID (obj m' a) = i" if "mb_members m' i = Some a" for i a
        using that D(2,3) [of i a] f by (auto simp: N(2,3) N(5) less_Suc_eq split: if_splits)
      show "distinct (type_list m' t)" for t using D(4) [of t] D(5) fresh by (auto simp: N(7))
      show "a \<in> set (type_list m' t) \<longleftrightarrow> (\<exists>i. mb_members m' i = Some a) \<and> nodeType (obj m' a) = t" for t a
      proof (cases "a = length (mb_objs m)")
        case True
        then show ?thesis using f fresh by (auto simp: N(2,7) D(5))
      next
        case False
        have "obj m' a = obj m a" if "mb_members m i = Some a" for i using N(5) [OF D(2) [OF that]] .
        then show ?thesis using False None by (auto simp: N(2,7) D(5)) (metis option.distinct(1))
      qed
    qed
    moreover have "infos m' = (infos m)(mi_NodeID info \<mapsto> info)"
      using N(4) N(5) [OF D(2)] by (auto simp: infos_def N(2) fun_eq_iff option.map_comp intro!: option.map_cong)
    ultimately show ?thesis using None N(1,2) by (auto simp: infos_def)
  next
    case (Some b)
    note N = add_known [OF inv Some r]
    note f = info_fields [OF N(4)]
    have b: "b < length (mb_objs m)" "nodeID (obj m b) = mi_NodeID info" using D(2,3) [OF Some] by simp_all
    have other: "a \<noteq> b" if "mb_members m i = Some a" "i \<noteq> mi_NodeID info" for i a using D(3) [OF that(1)] b(2) that(2) by auto
    have "members_inv m'"
    proof (rule members_invI)
      show "finite (dom (mb_members m'))" using D(1) by (simp add: N(2))
      show "a < length (mb_objs m') \<and> nodeID (obj m' a) = i" if "mb_members m' i = Some a" for i a
        using that D(2,3) [of i a] f b by (cases "a = b") (auto simp: N(2,3,5))
      show "distinct (type_list m' t)" for t using D(4) [of t] D(5) by (auto simp: N(7))
      show "a \<in> set (type_list m' t) \<longleftrightarrow> (\<exists>i. mb_members m' i = Some a) \<and> nodeType (obj m' a) = t" for t a
        using f D(4) [of t] Some by (cases "a = b") (auto simp: N(2,5,7) D(5))
    qed
    moreover have "infos m' = (infos m)(mi_NodeID info \<mapsto> info)"
      using N(4,5) other Some by (auto simp: infos_def N(2) fun_eq_iff intro!: option.map_cong)
    ultimately show ?thesis using Some N(1,2) by (auto simp: infos_def)
  qed
  show "members_inv m'" "infos m' = (infos m)(mi_NodeID info \<mapsto> info)" "existed \<longleftrightarrow> mi_NodeID info \<in> dom (infos m)"
    "mb_members m' (mi_NodeID info) = Some member" "existed \<Longrightarrow> mb_members m' = mb_members m"
    using all by simp_all
qed

lemma remove_members:
  assumes inv: "members_inv m" and r: "RemoveMember_locked i m = (r, m')"
  shows "members_inv m'" "infos m' = (infos m)(i := None)" "r = mb_members m i"
proof -
  note D = members_invD [OF inv]
  have all: "members_inv m' \<and> infos m' = (infos m)(i := None) \<and> r = mb_members m i"
  proof (cases "mb_members m i")
    case None
    then show ?thesis using r inv by (auto simp: RemoveMember_locked_def infos_def fun_eq_iff)
  next
    case (Some b)
    note N = remove_known [OF inv Some r]
    have o: "obj m' a = obj m a" for a by (simp add: obj_def N(3))
    have other: "a \<noteq> b" if "mb_members m j = Some a" "j \<noteq> i" for j a using D(3) [OF that(1)] D(3) [OF Some] that(2) by auto
    have "members_inv m'"
    proof (rule members_invI)
      show "finite (dom (mb_members m'))" using D(1) by (simp add: N(2))
      show "a < length (mb_objs m') \<and> nodeID (obj m' a) = j" if "mb_members m' j = Some a" for j a
        using that D(2,3) [of j a] by (auto simp: N(2,3) o split: if_splits)
      show "distinct (type_list m' t)" for t using D(4) by (simp add: N(5) distinct_remove1)
      show "a \<in> set (type_list m' t) \<longleftrightarrow> (\<exists>j. mb_members m' j = Some a) \<and> nodeType (obj m' a) = t" for t a
      proof (cases "a = b")
        case True
        then show ?thesis using D(4) [of t] other by (auto simp: N(2,5) o D(5))
      next
        case False
        then have "(\<exists>j. mb_members m' j = Some a) \<longleftrightarrow> (\<exists>j. mb_members m j = Some a)" using Some by (auto simp: N(2)) (metis option.inject)
        then show ?thesis using False by (auto simp: N(5) o D(5))
      qed
    qed
    moreover have "infos m' = (infos m)(i := None)" by (auto simp: infos_def N(2) o fun_eq_iff)
    ultimately show ?thesis using Some N(1) by simp
  qed
  show "members_inv m'" "infos m' = (infos m)(i := None)" "r = mb_members m i" using all by simp_all
qed

lemma locked_eventMgr:
  "AddMember_locked info m = (r, m') \<Longrightarrow> mb_eventMgr m' = mb_eventMgr m"
  "RemoveMember_locked i m = (q, m') \<Longrightarrow> mb_eventMgr m' = mb_eventMgr m"
  by (auto simp: AddMember_locked_def RemoveMember_locked_def Let_def split: option.splits)

subsection \<open>Reachable managers\<close>

text \<open>
  Whatever goroutines and listeners do, the manager changes only by what the operations do under its
  lock; the table of listeners has a lock of its own.
\<close>

inductive members_reachable :: "'e MemberMgr \<Rightarrow> bool" where
  new: "members_reachable NewMemberMgr"
| add: "members_reachable m \<Longrightarrow> members_reachable (snd (AddMember_locked info m))"
| remove: "members_reachable m \<Longrightarrow> members_reachable (snd (RemoveMember_locked i m))"
| listeners: "members_reachable m \<Longrightarrow> members_reachable (m\<lparr>mb_eventMgr := e\<rparr>)"

lemma reachable_members_inv: "members_reachable m \<Longrightarrow> members_inv m"
proof (induction rule: members_reachable.induct)
  case new
  then show ?case by (rule New_members)
next
  case (add m info)
  then show ?case using add_members(1) [of m info] by (metis prod.collapse)
next
  case (remove m i)
  then show ?case using remove_members(1) [of m i] by (metis prod.collapse)
next
  case (listeners m e)
  then show ?case by (simp add: members_inv_def type_list_def obj_def)
qed

lemma GetNodeType_Inr: "GetNodeType m i = Inr t \<longleftrightarrow> (\<exists>a. mb_members m i = Some a \<and> nodeType (obj m a) = t)"
  by (simp add: GetNodeType_def split: option.split)

lemma visit_members_all: "visit_members (\<lambda>i a s. (s @ [(i, a)], True)) l s = s @ l"
  by (induction l arbitrary: s) auto

lemma visit_stops:
  "\<exists>seen rest. l = seen @ rest \<and> visit_members fn l s = fold (\<lambda>(i, a) s. fst (fn i a s)) seen s \<and>
     (rest \<noteq> [] \<longrightarrow> seen \<noteq> [] \<and> (\<exists>s'. \<not> snd (fn (fst (last seen)) (snd (last seen)) s')))"
proof (induction fn l s rule: visit_members.induct)
  case (1 fn s)
  show ?case by simp
next
  case (2 fn i a rest s)
  obtain s' c where f: "fn i a s = (s', c)" by fastforce
  show ?case
  proof (cases c)
    case True
    from 2 [OF f [symmetric] True] obtain seen r where h: "rest = seen @ r"
      "visit_members fn rest s' = fold (\<lambda>(i, a) s. fst (fn i a s)) seen s'"
      "r \<noteq> [] \<longrightarrow> seen \<noteq> [] \<and> (\<exists>s'. \<not> snd (fn (fst (last seen)) (snd (last seen)) s'))" by blast
    then have "(i, a) # rest = ((i, a) # seen) @ r \<and>
        visit_members fn ((i, a) # rest) s = fold (\<lambda>(i, a) s. fst (fn i a s)) ((i, a) # seen) s \<and>
        (r \<noteq> [] \<longrightarrow> (i, a) # seen \<noteq> [] \<and> (\<exists>s'. \<not> snd (fn (fst (last ((i, a) # seen))) (snd (last ((i, a) # seen))) s')))"
      using f True by auto
    then show ?thesis by blast
  next
    case False
    then have "(i, a) # rest = [(i, a)] @ rest \<and>
        visit_members fn ((i, a) # rest) s = fold (\<lambda>(i, a) s. fst (fn i a s)) [(i, a)] s \<and>
        (rest \<noteq> [] \<longrightarrow> [(i, a)] \<noteq> [] \<and> (\<exists>s'. \<not> snd (fn (fst (last [(i, a)])) (snd (last [(i, a)])) s')))"
      using f by (auto intro!: exI [of _ s])
    then show ?thesis by blast
  qed
qed

lemma type_visits:
  assumes inv: "members_inv m" and l: "l = map (\<lambda>a. (nodeID (obj m a), a)) (type_list m t)"
  shows "set l = {(i, a). GetMember m i = Some a \<and> nodeType (obj m a) = t}" "distinct (map fst l)" "length l = CountOfType m t"
proof -
  note D = members_invD [OF inv]
  have n: "i = nodeID (obj m a)" if "mb_members m i = Some a" for i a using D(3) [OF that] by simp
  show "set l = {(i, a). GetMember m i = Some a \<and> nodeType (obj m a) = t}"
    using n by (fastforce simp: l D(5) GetMember_def)
  have "inj_on (\<lambda>a. nodeID (obj m a)) (set (type_list m t))"
    using n unfolding D(5) inj_on_def by (metis (mono_tags, lifting) D(5) option.inject)
  then show "distinct (map fst l)" using D(4) by (simp add: l o_def distinct_map)
  show "length l = CountOfType m t" by (simp add: l CountOfType_def)
qed

subsection \<open>Properties\<close>

text \<open>
  C37: the two maps agree. In every reachable manager, \<open>RangeType\<close> with a visitor that never stops
  sees exactly the members whose current type that is, each once under its own id, and
  \<open>CountOfType\<close> is their number, which is the number of nodes for which \<open>GetNodeType\<close> gives that type.
\<close>

theorem member_types_agree:
  assumes "members_reachable m"
  shows "let l = RangeType m t (\<lambda>i a s. (s @ [(i, a)], True)) []
    in set l = {(i, a). GetMember m i = Some a \<and> nodeType (obj m a) = t} \<and> distinct (map fst l) \<and>
       CountOfType m t = length l \<and> CountOfType m t = card {i. GetNodeType m i = Inr t} \<and>
       (\<forall>(i, a) \<in> set l. nodeID (obj m a) = i)"
proof -
  have inv: "members_inv m" using assms by (rule reachable_members_inv)
  define l where "l = map (\<lambda>a. (nodeID (obj m a), a)) (type_list m t)"
  note V = type_visits [OF inv l_def]
  have r: "RangeType m t (\<lambda>i a s. (s @ [(i, a)], True)) [] = l" by (simp add: RangeType_def visit_members_all l_def)
  have "{i. GetNodeType m i = Inr t} = fst ` set l" by (auto simp: GetNodeType_Inr V(1) GetMember_def image_iff)
  then have "card {i. GetNodeType m i = Inr t} = length l" using distinct_card [OF V(2)] by simp
  moreover have "\<forall>(i, a) \<in> set l. nodeID (obj m a) = i" using members_invD(3) [OF inv] by (auto simp: V(1) GetMember_def)
  ultimately show ?thesis unfolding r using V by (simp add: Let_def)
qed

text \<open>Both operations, each on its own.\<close>

lemma member_mgr_ops:
  assumes "members_reachable (fst w)"
  shows "case AddMember call info w of ((a, isNew), w') \<Rightarrow> \<exists>m'. members_reachable m' \<and>
      infos m' = (infos (fst w))(mi_NodeID info \<mapsto> info) \<and> GetMember m' (mi_NodeID info) = Some a \<and> info_of (obj m' a) = info \<and>
      (isNew \<longleftrightarrow> mi_NodeID info \<notin> dom (infos (fst w))) \<and>
      w' = (if isNew then fold (\<lambda>f w. fst (call f a w)) (map snd (subs_of (mb_eventMgr (fst w)) eventMemberAdd)) (m', snd w) else (m', snd w))"
    and "case RemoveMember call i w of (existed, w') \<Rightarrow> \<exists>m'. members_reachable m' \<and>
      infos m' = (infos (fst w))(i := None) \<and> (existed \<longleftrightarrow> i \<in> dom (infos (fst w))) \<and>
      (existed \<longrightarrow> (\<exists>a. GetMember (fst w) i = Some a \<and>
        w' = fold (\<lambda>f w. fst (call f a w)) (map snd (subs_of (mb_eventMgr (fst w)) eventMemberRemove)) (m', snd w))) \<and>
      (\<not> existed \<longrightarrow> w' = (m', snd w))"
proof -
  have inv: "members_inv (fst w)" using assms by (rule reachable_members_inv)
  have fs: "map li_callback (listeners_of e k) = map snd (subs_of e k)" for e :: "(string, 'a) SpecEventManager" and k
    by (simp add: subs_of_def)
  obtain a ex m' where r: "AddMember_locked info (fst w) = ((a, ex), m')" by (metis prod.collapse)
  have reach: "members_reachable m'" using members_reachable.add [OF assms, of info] r by simp
  note A = add_members [OF inv r]
  have "info_of (obj m' a) = info" using A(2,4) by (auto simp: infos_def fun_eq_iff dest: spec [of _ "mi_NodeID info"])
  then show "case AddMember call info w of ((a, isNew), w') \<Rightarrow> \<exists>m'. members_reachable m' \<and>
      infos m' = (infos (fst w))(mi_NodeID info \<mapsto> info) \<and> GetMember m' (mi_NodeID info) = Some a \<and> info_of (obj m' a) = info \<and>
      (isNew \<longleftrightarrow> mi_NodeID info \<notin> dom (infos (fst w))) \<and>
      w' = (if isNew then fold (\<lambda>f w. fst (call f a w)) (map snd (subs_of (mb_eventMgr (fst w)) eventMemberAdd)) (m', snd w) else (m', snd w))"
    using A(1-4) reach locked_eventMgr(1) [OF r]
    by (auto simp: AddMember_def r GetMember_def notifyAddListeners_def Publish_def publish_loop_fold fs intro!: exI [of _ m'])
  obtain q m2 where s: "RemoveMember_locked i (fst w) = (q, m2)" by fastforce
  have reach2: "members_reachable m2" using members_reachable.remove [OF assms, of i] s by simp
  note R = remove_members [OF inv s]
  show "case RemoveMember call i w of (existed, w') \<Rightarrow> \<exists>m'. members_reachable m' \<and>
      infos m' = (infos (fst w))(i := None) \<and> (existed \<longleftrightarrow> i \<in> dom (infos (fst w))) \<and>
      (existed \<longrightarrow> (\<exists>a. GetMember (fst w) i = Some a \<and>
        w' = fold (\<lambda>f w. fst (call f a w)) (map snd (subs_of (mb_eventMgr (fst w)) eventMemberRemove)) (m', snd w))) \<and>
      (\<not> existed \<longrightarrow> w' = (m', snd w))"
    using R reach2 locked_eventMgr(2) [OF s]
    by (auto simp: RemoveMember_def s GetMember_def notifyRemoveListeners_def Publish_def publish_loop_fold fs infos_def
        intro!: exI [of _ m2] split: option.split)
qed

text \<open>
  C38: the manager is a map from node ids to the last information given. For a reachable manager,
  \<open>AddMember\<close> makes the information of the node the one given, whatever it was, leaves the other nodes
  alone, returns the member that shows it, and calls the listeners of additions, once each in order,
  exactly when the node was not there; \<open>RemoveMember\<close> forgets the node, says whether it was there,
  and calls the listeners of removals with the member exactly then.
\<close>

theorem member_mgr_refines:
  assumes "members_reachable (fst w)"
  shows "(case AddMember call info w of ((a, isNew), w') \<Rightarrow> \<exists>m'. members_reachable m' \<and>
      infos m' = (infos (fst w))(mi_NodeID info \<mapsto> info) \<and> GetMember m' (mi_NodeID info) = Some a \<and> info_of (obj m' a) = info \<and>
      (isNew \<longleftrightarrow> mi_NodeID info \<notin> dom (infos (fst w))) \<and>
      w' = (if isNew then fold (\<lambda>f w. fst (call f a w)) (map snd (subs_of (mb_eventMgr (fst w)) eventMemberAdd)) (m', snd w) else (m', snd w))) \<and>
    (case RemoveMember call i w of (existed, w') \<Rightarrow> \<exists>m'. members_reachable m' \<and>
      infos m' = (infos (fst w))(i := None) \<and> (existed \<longleftrightarrow> i \<in> dom (infos (fst w))) \<and>
      (existed \<longrightarrow> (\<exists>a. GetMember (fst w) i = Some a \<and>
        w' = fold (\<lambda>f w. fst (call f a w)) (map snd (subs_of (mb_eventMgr (fst w)) eventMemberRemove)) (m', snd w))) \<and>
      (\<not> existed \<longrightarrow> w' = (m', snd w)))"
  by (rule conjI [OF member_mgr_ops [OF assms]])

text \<open>A cluster of three nodes, one of which changes its type; the listener of additions keeps a log.\<close>

definition node_info :: "string \<Rightarrow> string \<Rightarrow> int \<Rightarrow> MemberInfo" where
  "node_info i t n = \<lparr>mi_NodeID = i, mi_NodeType = t, mi_Address = ''a'', mi_RpcAddress = ''r'', mi_Weight = n, mi_Status = 0\<rparr>"

definition three_nodes :: "nat MemberMgr" where
  "three_nodes = snd (AddMember_locked (node_info ''1'' ''gate'' 5) (snd (AddMember_locked (node_info ''3'' ''game'' 1)
     (snd (AddMember_locked (node_info ''2'' ''gate'' 1) (snd (AddMember_locked (node_info ''1'' ''game'' 1)
       (ObserveAddMember (Some \<lparr>fn_code = 1, fn_env = 7\<rparr>) NewMemberMgr))))))))"

definition log_call :: "(nat, nat list) listener_call" where
  "log_call f a w = ((fst w, snd w @ [fn_env f + a]), False)"

lemma three_nodes_reachable: "members_reachable three_nodes"
  unfolding three_nodes_def ObserveAddMember_def by (simp add: members_reachable.intros)

lemma three_nodes_view:
  "type_list three_nodes ''gate'' = [1, 0]" "mb_members three_nodes ''4'' = None" "mb_members three_nodes ''1'' = Some 0"
  "subs_of (mb_eventMgr three_nodes) eventMemberAdd = [(1, \<lparr>fn_code = 1, fn_env = 7\<rparr>)]"
  by code_simp+

lemma member_types_agree_witness:
  "members_reachable three_nodes \<and> CountOfType three_nodes ''gate'' = 2 \<and> card {i. GetNodeType three_nodes i = Inr ''gate''} = 2"
  using member_types_agree [OF three_nodes_reachable, of "''gate''"] three_nodes_reachable
  by (simp add: Let_def CountOfType_def three_nodes_view)

lemma member_mgr_refines_witness:
  "(\<exists>a m'. AddMember log_call (node_info ''4'' ''login'' 2) (three_nodes, []) = ((a, True), (m', [7 + a]))) \<and>
   (\<exists>w. RemoveMember log_call ''1'' (three_nodes, []) = (True, w))"
proof -
  have a: "members_reachable (fst (three_nodes, [] :: nat list))" using three_nodes_reachable by simp
  have "mi_NodeID (node_info ''4'' ''login'' 2) \<notin> dom (infos three_nodes)" by (simp add: node_info_def infos_def three_nodes_view domIff)
  moreover obtain a b w' where r: "AddMember log_call (node_info ''4'' ''login'' 2) (three_nodes, []) = ((a, b), w')" by (metis prod.collapse)
  ultimately have "\<exists>a m'. AddMember log_call (node_info ''4'' ''login'' 2) (three_nodes, []) = ((a, True), (m', [7 + a]))"
    using member_mgr_refines [OF a, where call = log_call and info = "node_info ''4'' ''login'' 2", THEN conjunct1]
    by (auto simp: r three_nodes_view log_call_def)
  moreover have "\<exists>w. RemoveMember log_call ''1'' (three_nodes, []) = (True, w)"
    using member_mgr_refines [OF a, where call = log_call and i = "''1''", THEN conjunct2] by (auto simp: infos_def three_nodes_view split: prod.splits)
  ultimately show ?thesis ..
qed

end
