(* ===== verification/Discovery.thy ===== *)
theory Discovery
  imports MemberMgr
begin

section \<open>Service discovery over NATS\<close>

text \<open>
  remotes/kkdiscovery: options and statistics, and the service of dnats that keeps the member manager up
  to date from the messages of the other nodes. NATS itself is a parameter: whether publishing, connecting
  and subscribing fail; the subscriptions the server holds are \<open>nd_active\<close>, what was published \<open>nd_sent\<close>.
  Times are in nanoseconds. Handlers that take the two locks one after the other are given by their two
  parts, so that other goroutines can be put in between.
\<close>

definition nd_Second :: int where "nd_Second = 1000000000"

subsection \<open>Options\<close>

text \<open>\<open>'c\<close> stands for codecs; \<open>json\<close> is the default codec.\<close>

record 'c DiscoveryOption =
  do_MsgCodec :: "'c option"
  do_OfflineTimeout :: int
  do_Url :: string

definition DefaultDiscoveryOption :: "'c \<Rightarrow> 'c DiscoveryOption" where
  "DefaultDiscoveryOption json = \<lparr>do_MsgCodec = Some json, do_OfflineTimeout = 3 * nd_Second, do_Url = []\<rparr>"

definition CheckDiscoveryOption :: "'c \<Rightarrow> 'c DiscoveryOption \<Rightarrow> 'c DiscoveryOption" where
  "CheckDiscoveryOption json opt =
     (let opt = (case do_MsgCodec opt of None \<Rightarrow> opt\<lparr>do_MsgCodec := Some json\<rparr> | Some _ \<Rightarrow> opt)
      in if do_OfflineTimeout opt \<le> 0 then opt\<lparr>do_OfflineTimeout := 3 * nd_Second\<rparr> else opt)"

fun disc_apply_loop :: "('o \<Rightarrow> 'o) option list \<Rightarrow> 'o \<Rightarrow> 'o" where
  "disc_apply_loop [] cfg = cfg"
| "disc_apply_loop (None # opts) cfg = disc_apply_loop opts cfg"
| "disc_apply_loop (Some opt # opts) cfg = disc_apply_loop opts (opt cfg)"

definition DiscoveryApplyOptions :: "'c \<Rightarrow> ('c DiscoveryOption \<Rightarrow> 'c DiscoveryOption) option list \<Rightarrow> 'c DiscoveryOption" where
  "DiscoveryApplyOptions json opts = CheckDiscoveryOption json (disc_apply_loop opts (DefaultDiscoveryOption json))"

definition WithMsgCodec :: "'c \<Rightarrow> 'c option \<Rightarrow> 'c DiscoveryOption \<Rightarrow> 'c DiscoveryOption" where
  "WithMsgCodec json codec opt = opt\<lparr>do_MsgCodec := (case codec of None \<Rightarrow> Some json | Some c \<Rightarrow> Some c)\<rparr>"

definition WithOfflineTimeout :: "int \<Rightarrow> 'c DiscoveryOption \<Rightarrow> 'c DiscoveryOption" where
  "WithOfflineTimeout timeout opt = (if timeout \<le> 0 then opt else opt\<lparr>do_OfflineTimeout := timeout\<rparr>)"

definition disc_WithUrl :: "string \<Rightarrow> 'c DiscoveryOption \<Rightarrow> 'c DiscoveryOption" where
  "disc_WithUrl url opt = opt\<lparr>do_Url := url\<rparr>"

lemma DiscoveryApplyOptions_ok:
  "do_MsgCodec (DiscoveryApplyOptions json opts) \<noteq> None \<and> do_OfflineTimeout (DiscoveryApplyOptions json opts) > 0"
  by (auto simp: DiscoveryApplyOptions_def CheckDiscoveryOption_def Let_def nd_Second_def split: option.split)

subsection \<open>Statistics\<close>

record DiscoveryStats =
  ds_memberCount :: int
  ds_membersAdded :: int
  ds_membersRemoved :: int
  ds_heartbeatsSent :: int
  ds_heartbeatsReceived :: int
  ds_errors :: int
  ds_reconnects :: int

record DiscoveryStatsSnapshot =
  dn_MemberCount :: int
  dn_MembersAdded :: int
  dn_MembersRemoved :: int
  dn_HeartbeatsSent :: int
  dn_HeartbeatsReceived :: int
  dn_Errors :: int
  dn_Reconnects :: int
  dn_IsConnected :: bool

definition ds_AddMember :: "DiscoveryStats \<Rightarrow> DiscoveryStats" where
  "ds_AddMember s = s\<lparr>ds_memberCount := ds_memberCount s + 1, ds_membersAdded := ds_membersAdded s + 1\<rparr>"

definition ds_RemoveMember :: "DiscoveryStats \<Rightarrow> DiscoveryStats" where
  "ds_RemoveMember s = s\<lparr>ds_memberCount := ds_memberCount s - 1, ds_membersRemoved := ds_membersRemoved s + 1\<rparr>"

definition AddHeartbeatSent :: "DiscoveryStats \<Rightarrow> DiscoveryStats" where
  "AddHeartbeatSent s = s\<lparr>ds_heartbeatsSent := ds_heartbeatsSent s + 1\<rparr>"

definition AddHeartbeatReceived :: "DiscoveryStats \<Rightarrow> DiscoveryStats" where
  "AddHeartbeatReceived s = s\<lparr>ds_heartbeatsReceived := ds_heartbeatsReceived s + 1\<rparr>"

definition ds_AddError :: "DiscoveryStats \<Rightarrow> DiscoveryStats" where
  "ds_AddError s = s\<lparr>ds_errors := ds_errors s + 1\<rparr>"

definition AddReconnect :: "DiscoveryStats \<Rightarrow> DiscoveryStats" where
  "AddReconnect s = s\<lparr>ds_reconnects := ds_reconnects s + 1\<rparr>"

definition ds_Snapshot :: "DiscoveryStats \<Rightarrow> int \<Rightarrow> bool \<Rightarrow> DiscoveryStatsSnapshot" where
  "ds_Snapshot s memberCount isConnected =
     \<lparr>dn_MemberCount = memberCount, dn_MembersAdded = ds_membersAdded s, dn_MembersRemoved = ds_membersRemoved s,
      dn_HeartbeatsSent = ds_heartbeatsSent s, dn_HeartbeatsReceived = ds_heartbeatsReceived s, dn_Errors = ds_errors s,
      dn_Reconnects = ds_reconnects s, dn_IsConnected = isConnected\<rparr>"

definition ds_Reset :: "DiscoveryStats \<Rightarrow> DiscoveryStats" where
  "ds_Reset s = s\<lparr>ds_memberCount := 0, ds_membersAdded := 0, ds_membersRemoved := 0, ds_heartbeatsSent := 0,
     ds_heartbeatsReceived := 0, ds_errors := 0, ds_reconnects := 0\<rparr>"

definition DiscoveryMetricsFromSnapshot :: "(int \<Rightarrow> 'f) \<Rightarrow> string \<Rightarrow> DiscoveryStatsSnapshot \<Rightarrow> string \<Rightarrow> 'f option" where
  "DiscoveryMetricsFromSnapshot float64 namespace snap =
     (let prefix = (if namespace \<noteq> [] then namespace @ ''.'' else [])
      in map_of
           [(prefix @ ''discovery_member_count'', float64 (dn_MemberCount snap)),
            (prefix @ ''discovery_members_added_total'', float64 (dn_MembersAdded snap)),
            (prefix @ ''discovery_members_removed_total'', float64 (dn_MembersRemoved snap)),
            (prefix @ ''discovery_heartbeats_sent_total'', float64 (dn_HeartbeatsSent snap)),
            (prefix @ ''discovery_heartbeats_received_total'', float64 (dn_HeartbeatsReceived snap)),
            (prefix @ ''discovery_errors_total'', float64 (dn_Errors snap)),
            (prefix @ ''discovery_reconnects_total'', float64 (dn_Reconnects snap)),
            (prefix @ ''discovery_is_connected'', float64 (if dn_IsConnected snap then 1 else 0))])"

subsection \<open>The service\<close>

definition NodeStatusOnline :: int where "NodeStatusOnline = 0"
definition NodeStatusOffline :: int where "NodeStatusOffline = 1"

definition subjectDiscovery :: string where "subjectDiscovery = ''kkdiscovery.discovery''"
definition subjectDiscoveryRequest :: string where "subjectDiscoveryRequest = ''kkdiscovery.discovery.request''"
definition subjectOffline :: string where "subjectOffline = ''kkdiscovery.offline''"

definition defaultMemberTimeout :: int where "defaultMemberTimeout = 15 * nd_Second"

record NodeInfo =
  ni_nodeId :: string
  ni_nodeType :: string
  ni_address :: string
  ni_rpcAddress :: string

record DiscoveryStatsEvent =
  se_OnlineCount :: int
  se_Status :: int

text \<open>The message codec, on the two types of messages.\<close>

record msg_codec =
  mc_MarshalInfo :: "MemberInfo \<Rightarrow> kkerror + byte list"
  mc_UnmarshalInfo :: "byte list \<Rightarrow> kkerror + MemberInfo"
  mc_MarshalRequest :: "string \<Rightarrow> kkerror + byte list"
  mc_UnmarshalRequest :: "byte list \<Rightarrow> kkerror + string"

text \<open>\<open>nd_conn\<close> is the connection, and whether it is up; \<open>nd_world\<close> what the listeners work on.\<close>

record ('e, 'w) NatsDiscovery =
  nd_nodeInfo :: NodeInfo
  nd_codec :: msg_codec
  nd_conn :: "bool option"
  nd_sub :: "nat option"
  nd_requestSub :: "nat option"
  nd_offlineSub :: "nat option"
  nd_memberMgr :: "'e MemberMgr"
  nd_memberTimes :: "string \<rightharpoonup> int"
  nd_stats :: DiscoveryStats
  nd_started :: bool
  nd_stopCh :: bool
  nd_doneCh :: bool
  nd_closing :: bool
  nd_closed :: bool
  nd_url :: string
  nd_active :: "(nat \<times> string) list"
  nd_next :: nat
  nd_sent :: "(string \<times> byte list) list"
  nd_world :: 'w

definition NewNatsDiscovery :: "NodeInfo \<Rightarrow> msg_codec \<Rightarrow> msg_codec DiscoveryOption \<Rightarrow> 'w \<Rightarrow> ('e, 'w) NatsDiscovery option" where
  "NewNatsDiscovery nodeInfo json discoveryOpt w =
     (let opt = CheckDiscoveryOption json discoveryOpt in
      if do_Url opt = [] then None
      else Some \<lparr>nd_nodeInfo = nodeInfo, nd_codec = the (do_MsgCodec opt), nd_conn = None, nd_sub = None, nd_requestSub = None,
        nd_offlineSub = None, nd_memberMgr = NewMemberMgr, nd_memberTimes = Map.empty,
        nd_stats = \<lparr>ds_memberCount = 0, ds_membersAdded = 0, ds_membersRemoved = 0, ds_heartbeatsSent = 0,
          ds_heartbeatsReceived = 0, ds_errors = 0, ds_reconnects = 0\<rparr>,
        nd_started = False, nd_stopCh = False, nd_doneCh = False, nd_closing = False, nd_closed = False, nd_url = do_Url opt,
        nd_active = [], nd_next = 0, nd_sent = [], nd_world = w\<rparr>)"

definition on_stats :: "(DiscoveryStats \<Rightarrow> DiscoveryStats) \<Rightarrow> ('e, 'w) NatsDiscovery \<Rightarrow> ('e, 'w) NatsDiscovery" where
  "on_stats f d = d\<lparr>nd_stats := f (nd_stats d)\<rparr>"

definition on_mgr ::
  "('e MemberMgr \<times> 'w \<Rightarrow> 'r \<times> ('e MemberMgr \<times> 'w)) \<Rightarrow> ('e, 'w) NatsDiscovery \<Rightarrow> 'r \<times> ('e, 'w) NatsDiscovery" where
  "on_mgr f d = (case f (nd_memberMgr d, nd_world d) of (r, (m, w)) \<Rightarrow> (r, d\<lparr>nd_memberMgr := m, nd_world := w\<rparr>))"

definition nd_IsRunning :: "('e, 'w) NatsDiscovery \<Rightarrow> bool" where
  "nd_IsRunning d \<longleftrightarrow> \<not> nd_closing d \<and> \<not> nd_closed d \<and> nd_conn d = Some True"

definition nd_Stats :: "('e, 'w) NatsDiscovery \<Rightarrow> DiscoveryStatsSnapshot" where
  "nd_Stats d = ds_Snapshot (nd_stats d) (int (MemberCount (nd_memberMgr d))) (nd_conn d = Some True)"

subsection \<open>Members\<close>

text \<open>The rest of \<open>addMemberInfo\<close> and \<open>removeMember\<close> after the call of the member manager.\<close>

definition noteMember :: "int \<Rightarrow> string \<Rightarrow> bool \<Rightarrow> ('e, 'w) NatsDiscovery \<Rightarrow> ('e, 'w) NatsDiscovery" where
  "noteMember now i isNew d =
     (let d = d\<lparr>nd_memberTimes := (nd_memberTimes d)(i \<mapsto> now)\<rparr> in if isNew then on_stats ds_AddMember d else d)"

definition forgetMember :: "string \<Rightarrow> ('e, 'w) NatsDiscovery \<Rightarrow> ('e, 'w) NatsDiscovery" where
  "forgetMember i d = on_stats ds_RemoveMember (d\<lparr>nd_memberTimes := (nd_memberTimes d)(i := None)\<rparr>)"

definition addMemberInfo :: "('e, 'w) listener_call \<Rightarrow> int \<Rightarrow> MemberInfo option \<Rightarrow> ('e, 'w) NatsDiscovery \<Rightarrow> ('e, 'w) NatsDiscovery" where
  "addMemberInfo call now info d =
     (case info of
        None \<Rightarrow> d
      | Some info \<Rightarrow> (case on_mgr (AddMember call info) d of ((a, isNew), d) \<Rightarrow> noteMember now (mi_NodeID info) isNew d))"

definition removeMember :: "('e, 'w) listener_call \<Rightarrow> string \<Rightarrow> ('e, 'w) NatsDiscovery \<Rightarrow> ('e, 'w) NatsDiscovery" where
  "removeMember call i d =
     (if i = [] then d
      else case on_mgr (RemoveMember call i) d of (existed, d) \<Rightarrow> if existed then forgetMember i d else d)"

definition handleDiscoveryMessage ::
  "('e, 'w) listener_call \<Rightarrow> int \<Rightarrow> byte list \<Rightarrow> ('e, 'w) NatsDiscovery \<Rightarrow> ('e, 'w) NatsDiscovery" where
  "handleDiscoveryMessage call now data d =
     (let d = on_stats AddHeartbeatReceived d in
      case mc_UnmarshalInfo (nd_codec d) data of
        Inl err \<Rightarrow> on_stats ds_AddError d
      | Inr memberInfo \<Rightarrow>
          if mi_NodeID memberInfo = ni_nodeId (nd_nodeInfo d) then d else addMemberInfo call now (Some memberInfo) d)"

text \<open>
  One tick of \<open>checkMemberTimeout\<close>; \<open>order\<close> is the order in which Go visits the keys of \<open>memberTimes\<close>.
\<close>

definition checkMemberTimeout ::
  "('e, 'w) listener_call \<Rightarrow> int \<Rightarrow> string list \<Rightarrow> ('e, 'w) NatsDiscovery \<Rightarrow> ('e, 'w) NatsDiscovery" where
  "checkMemberTimeout call now order d =
     (if nd_stopCh d then d
      else let toRemove = filter (\<lambda>i. case nd_memberTimes d i of None \<Rightarrow> False | Some lastTime \<Rightarrow> now - lastTime > defaultMemberTimeout) order
           in fold (removeMember call) toRemove d)"

subsection \<open>Publishing\<close>

text \<open>
  \<open>fill\<close> is what the listeners of the statistics event make of it; \<open>send\<close> the result of publishing.
\<close>

definition nd_publish :: "(string \<Rightarrow> byte list \<Rightarrow> kkerror option) \<Rightarrow> string \<Rightarrow> byte list \<Rightarrow> ('e, 'w) NatsDiscovery \<Rightarrow> kkerror option \<times> ('e, 'w) NatsDiscovery" where
  "nd_publish send subject data d =
     (case send subject data of Some err \<Rightarrow> (Some err, d) | None \<Rightarrow> (None, d\<lparr>nd_sent := nd_sent d @ [(subject, data)]\<rparr>))"

definition publishSelf ::
  "(DiscoveryStatsEvent \<Rightarrow> DiscoveryStatsEvent) \<Rightarrow> (string \<Rightarrow> byte list \<Rightarrow> kkerror option) \<Rightarrow> ('e, 'w) NatsDiscovery \<Rightarrow>
   kkerror option \<times> ('e, 'w) NatsDiscovery" where
  "publishSelf fill send d =
     (if nd_closed d then (None, d)
      else if nd_conn d = None then (None, d)
      else
        let evt = fill \<lparr>se_OnlineCount = 0, se_Status = NodeStatusOnline\<rparr>;
            evt = (if nd_closing d then evt\<lparr>se_Status := NodeStatusOffline\<rparr> else evt);
            ni = nd_nodeInfo d;
            memberInfo = \<lparr>mi_NodeID = ni_nodeId ni, mi_NodeType = ni_nodeType ni, mi_Address = ni_address ni,
              mi_RpcAddress = ni_rpcAddress ni, mi_Weight = se_OnlineCount evt, mi_Status = se_Status evt\<rparr>
        in case mc_MarshalInfo (nd_codec d) memberInfo of
             Inl err \<Rightarrow> (Some err, on_stats ds_AddError d)
           | Inr data \<Rightarrow>
               (case nd_publish send subjectDiscovery data d of
                  (Some err, d) \<Rightarrow> (Some err, on_stats ds_AddError d)
                | (None, d) \<Rightarrow> (None, on_stats AddHeartbeatSent d)))"

text \<open>One tick of the heartbeat; a failure counts twice.\<close>

definition heartbeatLoop ::
  "(DiscoveryStatsEvent \<Rightarrow> DiscoveryStatsEvent) \<Rightarrow> (string \<Rightarrow> byte list \<Rightarrow> kkerror option) \<Rightarrow> ('e, 'w) NatsDiscovery \<Rightarrow> ('e, 'w) NatsDiscovery" where
  "heartbeatLoop fill send d =
     (if nd_stopCh d \<or> nd_closed d then d
      else case publishSelf fill send d of (err, d) \<Rightarrow> if err \<noteq> None then on_stats ds_AddError d else d)"

text \<open>What \<open>requestAllMembers\<close> does after its pause.\<close>

definition requestAllMembers :: "(string \<Rightarrow> byte list \<Rightarrow> kkerror option) \<Rightarrow> ('e, 'w) NatsDiscovery \<Rightarrow> ('e, 'w) NatsDiscovery" where
  "requestAllMembers send d =
     (if nd_closing d then d
      else case mc_MarshalRequest (nd_codec d) (ni_nodeId (nd_nodeInfo d)) of
        Inl err \<Rightarrow> on_stats ds_AddError d
      | Inr data \<Rightarrow>
          if nd_conn d \<noteq> None \<and> \<not> nd_closed d then
            (case nd_publish send subjectDiscoveryRequest data d of
               (Some err, d) \<Rightarrow> on_stats ds_AddError d
             | (None, d) \<Rightarrow> d)
          else d)"

definition handleDiscoveryRequest ::
  "(DiscoveryStatsEvent \<Rightarrow> DiscoveryStatsEvent) \<Rightarrow> (string \<Rightarrow> byte list \<Rightarrow> kkerror option) \<Rightarrow> byte list \<Rightarrow>
   ('e, 'w) NatsDiscovery \<Rightarrow> ('e, 'w) NatsDiscovery" where
  "handleDiscoveryRequest fill send data d =
     (case mc_UnmarshalRequest (nd_codec d) data of
        Inl err \<Rightarrow> on_stats ds_AddError d
      | Inr requester \<Rightarrow> if requester = ni_nodeId (nd_nodeInfo d) then d else snd (publishSelf fill send d))"

subsection \<open>Subscriptions\<close>

definition unsubscribe :: "nat option \<Rightarrow> ('e, 'w) NatsDiscovery \<Rightarrow> ('e, 'w) NatsDiscovery" where
  "unsubscribe sub d = (case sub of None \<Rightarrow> d | Some n \<Rightarrow> d\<lparr>nd_active := filter (\<lambda>(k, s). k \<noteq> n) (nd_active d)\<rparr>)"

definition subscribe :: "(string \<Rightarrow> kkerror option) \<Rightarrow> string \<Rightarrow> ('e, 'w) NatsDiscovery \<Rightarrow> (kkerror + nat) \<times> ('e, 'w) NatsDiscovery" where
  "subscribe fails subject d =
     (case fails subject of
        Some err \<Rightarrow> (Inl err, d)
      | None \<Rightarrow> (Inr (nd_next d), d\<lparr>nd_active := nd_active d @ [(nd_next d, subject)], nd_next := Suc (nd_next d)\<rparr>))"

definition resubscribe :: "(string \<Rightarrow> kkerror option) \<Rightarrow> ('e, 'w) NatsDiscovery \<Rightarrow> kkerror option \<times> ('e, 'w) NatsDiscovery" where
  "resubscribe fails d =
     (if nd_conn d \<noteq> Some True then (None, d)
      else
        let d = (unsubscribe (nd_sub d) d)\<lparr>nd_sub := None\<rparr>;
            d = (unsubscribe (nd_requestSub d) d)\<lparr>nd_requestSub := None\<rparr>;
            d = (unsubscribe (nd_offlineSub d) d)\<lparr>nd_offlineSub := None\<rparr>
        in case subscribe fails subjectDiscovery d of
             (Inl err, d) \<Rightarrow> (Some err, d)
           | (Inr sub, d) \<Rightarrow>
               let d = d\<lparr>nd_sub := Some sub\<rparr> in
               (case subscribe fails subjectDiscoveryRequest d of
                  (Inl err, d) \<Rightarrow> (Some err, unsubscribe (Some sub) d)
                | (Inr requestSub, d) \<Rightarrow>
                    let d = d\<lparr>nd_requestSub := Some requestSub\<rparr> in
                    (case subscribe fails subjectOffline d of
                       (Inl err, d) \<Rightarrow> (Some err, unsubscribe (Some requestSub) (unsubscribe (Some sub) d))
                     | (Inr offlineSub, d) \<Rightarrow> (None, d\<lparr>nd_offlineSub := Some offlineSub\<rparr>))))"

text \<open>Closing a connection ends its subscriptions on the server.\<close>

definition close_conn :: "('e, 'w) NatsDiscovery \<Rightarrow> ('e, 'w) NatsDiscovery" where
  "close_conn d = d\<lparr>nd_conn := Some False, nd_active := []\<rparr>"

text \<open>\<open>connect\<close> is the result of connecting; with retries on, the connection returned may be still down.\<close>

definition connectAndSubscribe ::
  "kkerror + bool \<Rightarrow> (string \<Rightarrow> kkerror option) \<Rightarrow> (DiscoveryStatsEvent \<Rightarrow> DiscoveryStatsEvent) \<Rightarrow> (string \<Rightarrow> byte list \<Rightarrow> kkerror option) \<Rightarrow>
   ('e, 'w) NatsDiscovery \<Rightarrow> kkerror option \<times> ('e, 'w) NatsDiscovery" where
  "connectAndSubscribe connect fails fill send d =
     (case connect of
        Inl err \<Rightarrow> (Some err, d)
      | Inr up \<Rightarrow>
          (case resubscribe fails (d\<lparr>nd_conn := Some up\<rparr>) of
             (Some err, d) \<Rightarrow> (Some err, close_conn d)
           | (None, d) \<Rightarrow> (None, (snd (publishSelf fill send d))\<lparr>nd_started := True\<rparr>)))"

definition nd_Start ::
  "kkerror + bool \<Rightarrow> (string \<Rightarrow> kkerror option) \<Rightarrow> (DiscoveryStatsEvent \<Rightarrow> DiscoveryStatsEvent) \<Rightarrow> (string \<Rightarrow> byte list \<Rightarrow> kkerror option) \<Rightarrow>
   ('e, 'w) NatsDiscovery \<Rightarrow> kkerror option \<times> ('e, 'w) NatsDiscovery" where
  "nd_Start connect fails fill send d =
     (if nd_url d = [] then (Some (ErrText ''nats addr is empty''), d) else connectAndSubscribe connect fails fill send d)"

text \<open>The callback of a reconnection, up to the goroutine it starts.\<close>

definition ReconnectedCB ::
  "(string \<Rightarrow> kkerror option) \<Rightarrow> (DiscoveryStatsEvent \<Rightarrow> DiscoveryStatsEvent) \<Rightarrow> (string \<Rightarrow> byte list \<Rightarrow> kkerror option) \<Rightarrow>
   ('e, 'w) NatsDiscovery \<Rightarrow> ('e, 'w) NatsDiscovery" where
  "ReconnectedCB fails fill send d =
     (if nd_closing d then d
      else let d = on_stats AddReconnect d;
               d = (case resubscribe fails d of (err, d) \<Rightarrow> if err \<noteq> None then on_stats ds_AddError d else d)
           in case publishSelf fill send d of (err, d) \<Rightarrow> if err \<noteq> None then on_stats ds_AddError d else d)"

definition nd_Stop ::
  "(DiscoveryStatsEvent \<Rightarrow> DiscoveryStatsEvent) \<Rightarrow> (string \<Rightarrow> byte list \<Rightarrow> kkerror option) \<Rightarrow> ('e, 'w) NatsDiscovery \<Rightarrow> ('e, 'w) NatsDiscovery" where
  "nd_Stop fill send d =
     (let d = snd (publishSelf fill send (d\<lparr>nd_closing := True\<rparr>)) in
      if nd_stopCh d then d
      else
        let d = d\<lparr>nd_closed := True, nd_stopCh := True\<rparr>;
            d = unsubscribe (nd_sub d) d;
            d = unsubscribe (nd_requestSub d) d;
            d = unsubscribe (nd_offlineSub d) d;
            d = (if nd_conn d \<noteq> None then close_conn d else d)
        in d\<lparr>nd_doneCh := True\<rparr>)"

subsection \<open>Members and their times\<close>

text \<open>
  The interfaces given to listeners have no operation that changes the members: a listener works on its
  own data and on the table of listeners.
\<close>

definition observes :: "('e, 'w) listener_call \<Rightarrow> bool" where
  "observes call \<longleftrightarrow> (\<forall>f a m w. \<exists>e. fst (fst (call f a (m, w))) = m\<lparr>mb_eventMgr := e\<rparr>)"

lemma infos_eventMgr [simp]: "infos (m\<lparr>mb_eventMgr := e\<rparr>) = infos m"
  by (simp add: infos_def obj_def fun_eq_iff)

lemma observed:
  assumes "observes call" "members_reachable m"
  shows "members_reachable (fst (fold (\<lambda>f w. fst (call f a w)) fs (m, w))) \<and> infos (fst (fold (\<lambda>f w. fst (call f a w)) fs (m, w))) = infos m"
  using assms(2)
proof (induction fs arbitrary: m w)
  case (Cons f fs)
  obtain e where "fst (fst (call f a (m, w))) = m\<lparr>mb_eventMgr := e\<rparr>" using assms(1) unfolding observes_def by blast
  then obtain w' where c: "fst (call f a (m, w)) = (m\<lparr>mb_eventMgr := e\<rparr>, w')" by (metis prod.collapse)
  show ?case using Cons.IH [OF members_reachable.listeners [OF Cons.prems]] by (simp add: c)
qed simp

text \<open>The members by id, and the service between two handlers.\<close>

definition nd_infos :: "('e, 'w) NatsDiscovery \<Rightarrow> string \<rightharpoonup> MemberInfo" where
  "nd_infos d = infos (nd_memberMgr d)"

definition mgr_ok :: "('e, 'w) NatsDiscovery \<Rightarrow> bool" where
  "mgr_ok d \<longleftrightarrow> members_reachable (nd_memberMgr d)"

lemma mgr_added:
  assumes call: "observes call" and ok: "mgr_ok d" and r: "on_mgr (AddMember call info) d = ((a, isNew), d')"
  shows "mgr_ok d'" "nd_infos d' = (nd_infos d)(mi_NodeID info \<mapsto> info)" "isNew \<longleftrightarrow> mi_NodeID info \<notin> dom (nd_infos d)"
    "\<exists>m w. d' = d\<lparr>nd_memberMgr := m, nd_world := w\<rparr>"
proof -
  obtain w' where w: "AddMember call info (nd_memberMgr d, nd_world d) = ((a, isNew), w')" "d' = d\<lparr>nd_memberMgr := fst w', nd_world := snd w'\<rparr>"
    using r by (auto simp: on_mgr_def split: prod.splits)
  have reach: "members_reachable (fst (nd_memberMgr d, nd_world d))" using ok by (simp add: mgr_ok_def)
  from member_mgr_ops(1) [OF reach, where call = call and info = info, unfolded w(1) split_conv] obtain m' where
    m': "members_reachable m'" "infos m' = (infos (nd_memberMgr d))(mi_NodeID info \<mapsto> info)"
      "isNew \<longleftrightarrow> mi_NodeID info \<notin> dom (infos (nd_memberMgr d))"
      "w' = (if isNew then fold (\<lambda>f w. fst (call f a w)) (map snd (subs_of (mb_eventMgr (nd_memberMgr d)) eventMemberAdd)) (m', nd_world d)
         else (m', nd_world d))"
    unfolding fst_conv snd_conv by blast
  have o: "members_reachable (fst w')" "infos (fst w') = infos m'" unfolding m'(4) using observed [OF call m'(1)] m'(1) by simp_all
  show "mgr_ok d'" unfolding w(2) mgr_ok_def using o(1) by simp
  show "nd_infos d' = (nd_infos d)(mi_NodeID info \<mapsto> info)" unfolding w(2) nd_infos_def using o(2) m'(2) by simp
  show "isNew \<longleftrightarrow> mi_NodeID info \<notin> dom (nd_infos d)" unfolding nd_infos_def by (rule m'(3))
  show "\<exists>m w. d' = d\<lparr>nd_memberMgr := m, nd_world := w\<rparr>" using w(2) by blast
qed

lemma mgr_removed:
  assumes call: "observes call" and ok: "mgr_ok d" and r: "on_mgr (RemoveMember call i) d = (existed, d')"
  shows "mgr_ok d'" "nd_infos d' = (nd_infos d)(i := None)" "existed \<longleftrightarrow> i \<in> dom (nd_infos d)"
    "\<exists>m w. d' = d\<lparr>nd_memberMgr := m, nd_world := w\<rparr>"
proof -
  obtain w' where w: "RemoveMember call i (nd_memberMgr d, nd_world d) = (existed, w')" "d' = d\<lparr>nd_memberMgr := fst w', nd_world := snd w'\<rparr>"
    using r by (auto simp: on_mgr_def split: prod.splits)
  have reach: "members_reachable (fst (nd_memberMgr d, nd_world d))" using ok by (simp add: mgr_ok_def)
  from member_mgr_ops(2) [OF reach, where call = call and i = i, unfolded w(1) split_conv] obtain m' where
    m': "members_reachable m'" "infos m' = (infos (nd_memberMgr d))(i := None)" "existed \<longleftrightarrow> i \<in> dom (infos (nd_memberMgr d))"
      "existed \<longrightarrow> (\<exists>a. w' = fold (\<lambda>f w. fst (call f a w)) (map snd (subs_of (mb_eventMgr (nd_memberMgr d)) eventMemberRemove)) (m', nd_world d))"
      "\<not> existed \<longrightarrow> w' = (m', nd_world d)"
    unfolding fst_conv snd_conv by blast
  have "members_reachable (fst w') \<and> infos (fst w') = infos m'"
    using m'(4,5) observed [OF call m'(1)] m'(1) by (cases existed) auto
  then have o: "members_reachable (fst w')" "infos (fst w') = infos m'" by simp_all
  show "mgr_ok d'" unfolding w(2) mgr_ok_def using o(1) by simp
  show "nd_infos d' = (nd_infos d)(i := None)" unfolding w(2) nd_infos_def using o(2) m'(2) by simp
  show "existed \<longleftrightarrow> i \<in> dom (nd_infos d)" unfolding nd_infos_def by (rule m'(3))
  show "\<exists>m w. d' = d\<lparr>nd_memberMgr := m, nd_world := w\<rparr>" using w(2) by blast
qed

lemma stats_frame [simp]:
  "nd_infos (on_stats f d) = nd_infos d" "mgr_ok (on_stats f d) = mgr_ok d" "nd_memberTimes (on_stats f d) = nd_memberTimes d"
  "nd_nodeInfo (on_stats f d) = nd_nodeInfo d" "nd_codec (on_stats f d) = nd_codec d" "nd_stopCh (on_stats f d) = nd_stopCh d"
  "nd_infos (d\<lparr>nd_memberTimes := ts\<rparr>) = nd_infos d" "mgr_ok (d\<lparr>nd_memberTimes := ts\<rparr>) = mgr_ok d"
  by (simp_all add: on_stats_def nd_infos_def mgr_ok_def)

lemma add_spec:
  assumes "observes call" "mgr_ok d"
  shows "mgr_ok (addMemberInfo call now (Some info) d) \<and>
    nd_infos (addMemberInfo call now (Some info) d) = (nd_infos d)(mi_NodeID info \<mapsto> info) \<and>
    nd_memberTimes (addMemberInfo call now (Some info) d) = (nd_memberTimes d)(mi_NodeID info \<mapsto> now)"
proof -
  obtain a b d' where r: "on_mgr (AddMember call info) d = ((a, b), d')" by (metis prod.collapse)
  note A = mgr_added [OF assms r]
  from A(4) obtain m w where d': "d' = d\<lparr>nd_memberMgr := m, nd_world := w\<rparr>" by blast
  then have "nd_memberTimes d' = nd_memberTimes d" by simp
  with A show ?thesis by (simp add: addMemberInfo_def r noteMember_def Let_def)
qed

lemma remove_spec:
  assumes "observes call" "mgr_ok d" "i \<noteq> []"
  shows "mgr_ok (removeMember call i d) \<and> nd_infos (removeMember call i d) = (nd_infos d)(i := None) \<and>
    nd_memberTimes (removeMember call i d) = (if i \<in> dom (nd_infos d) then (nd_memberTimes d)(i := None) else nd_memberTimes d) \<and>
    nd_stopCh (removeMember call i d) = nd_stopCh d"
proof -
  obtain b d' where r: "on_mgr (RemoveMember call i) d = (b, d')" by fastforce
  note A = mgr_removed [OF assms(1,2) r]
  from A(4) obtain m w where d': "d' = d\<lparr>nd_memberMgr := m, nd_world := w\<rparr>" by blast
  then have "nd_memberTimes d' = nd_memberTimes d" "nd_stopCh d' = nd_stopCh d" by simp_all
  then show ?thesis
    using A(1-3) assms(3) by (cases b) (simp_all add: removeMember_def r forgetMember_def nd_infos_def mgr_ok_def on_stats_def)
qed

lemma expel_spec:
  assumes call: "observes call"
  shows "mgr_ok d \<Longrightarrow> mgr_ok (fold (removeMember call) is d) \<and>
    nd_infos (fold (removeMember call) is d) = (\<lambda>j. if j \<in> set is \<and> j \<noteq> [] then None else nd_infos d j) \<and>
    (dom (nd_memberTimes d) = dom (nd_infos d) \<longrightarrow>
      nd_memberTimes (fold (removeMember call) is d) = (\<lambda>j. if j \<in> set is \<and> j \<noteq> [] then None else nd_memberTimes d j))"
proof (induction "is" arbitrary: d)
  case (Cons i "is")
  show ?case
  proof (cases "i = []")
    case True
    then have "removeMember call i d = d" by (simp add: removeMember_def)
    with Cons.IH [OF Cons.prems] True show ?thesis by (auto simp: fun_eq_iff)
  next
    case False
    define e where "e = removeMember call i d"
    note R = remove_spec [OF call Cons.prems False, folded e_def]
    then have ok: "mgr_ok e" and ie: "nd_infos e = (nd_infos d)(i := None)" by simp_all
    note I = Cons.IH [OF ok]
    have f: "fold (removeMember call) (i # is) d = fold (removeMember call) is e" by (simp add: e_def)
    have "nd_infos (fold (removeMember call) is e) = (\<lambda>j. if j \<in> set (i # is) \<and> j \<noteq> [] then None else nd_infos d j)"
      using I False unfolding ie by (auto simp: fun_eq_iff)
    moreover have "nd_memberTimes (fold (removeMember call) is e) = (\<lambda>j. if j \<in> set (i # is) \<and> j \<noteq> [] then None else nd_memberTimes d j)"
      if D: "dom (nd_memberTimes d) = dom (nd_infos d)"
    proof -
      have te: "nd_memberTimes e = (nd_memberTimes d)(i := None)" using R D by (auto simp: fun_eq_iff domIff)
      then have "dom (nd_memberTimes e) = dom (nd_infos e)" using D by (simp add: ie)
      then have "nd_memberTimes (fold (removeMember call) is e) = (\<lambda>j. if j \<in> set is \<and> j \<noteq> [] then None else nd_memberTimes e j)" using I by blast
      then show ?thesis using False by (auto simp: fun_eq_iff te)
    qed
    ultimately show ?thesis unfolding f using I by blast
  qed
qed simp

text \<open>What does not touch the members.\<close>

definition same_members :: "('e, 'w) NatsDiscovery \<Rightarrow> ('e, 'w) NatsDiscovery \<Rightarrow> bool" where
  "same_members d d' \<longleftrightarrow> nd_memberMgr d' = nd_memberMgr d \<and> nd_memberTimes d' = nd_memberTimes d"

lemma publish_same: "same_members d (snd (nd_publish send subject data d))" "same_members d (snd (publishSelf fill send d))"
  by (auto simp: same_members_def nd_publish_def publishSelf_def Let_def on_stats_def split: option.splits sum.splits)

lemma unsubscribe_same: "nd_memberMgr (unsubscribe sub d) = nd_memberMgr d" "nd_memberTimes (unsubscribe sub d) = nd_memberTimes d"
  by (simp_all add: unsubscribe_def split: option.split)

lemma resubscribe_same: "same_members d (snd (resubscribe fails d))"
  by (auto simp: same_members_def resubscribe_def subscribe_def Let_def unsubscribe_same split: option.split)

lemma handlers_same:
  "same_members d (heartbeatLoop fill send d)" "same_members d (requestAllMembers send d)"
  "same_members d (handleDiscoveryRequest fill send data d)" "same_members d (ReconnectedCB fails fill send d)"
  "same_members d (snd (nd_Start connect fails fill send d))" "same_members d (nd_Stop fill send d)"
proof -
  note P = publish_same(2) [unfolded same_members_def, where d = d and fill = fill and send = send]
  show "same_members d (heartbeatLoop fill send d)"
    using P by (auto simp: same_members_def heartbeatLoop_def on_stats_def split: prod.splits)
  show "same_members d (requestAllMembers send d)"
    by (auto simp: same_members_def requestAllMembers_def on_stats_def nd_publish_def split: prod.splits sum.splits option.splits)
  show "same_members d (handleDiscoveryRequest fill send data d)"
    using P by (auto simp: same_members_def handleDiscoveryRequest_def on_stats_def split: sum.splits)
  show "same_members d (ReconnectedCB fails fill send d)"
  proof -
    obtain err d1 where r: "resubscribe fails (on_stats AddReconnect d) = (err, d1)" by fastforce
    define d2 where "d2 = (if err \<noteq> None then on_stats ds_AddError d1 else d1)"
    obtain err2 d3 where p: "publishSelf fill send d2 = (err2, d3)" by fastforce
    have "same_members d d1" using resubscribe_same [where d = "on_stats AddReconnect d" and fails = fails] r
      by (simp add: same_members_def on_stats_def)
    then have "same_members d d2" by (simp add: d2_def same_members_def on_stats_def)
    moreover have "same_members d2 d3" using publish_same(2) [where d = d2 and fill = fill and send = send] p by simp
    ultimately have "same_members d d3" by (simp add: same_members_def)
    moreover have "(case resubscribe fails (on_stats AddReconnect d) of (err, d) \<Rightarrow> if err \<noteq> None then on_stats ds_AddError d else d) = d2"
      by (simp add: r d2_def)
    ultimately show ?thesis by (simp add: ReconnectedCB_def Let_def p same_members_def on_stats_def)
  qed
  show "same_members d (snd (nd_Start connect fails fill send d))"
  proof (cases connect)
    case (Inr up)
    obtain err d1 where r: "resubscribe fails (d\<lparr>nd_conn := Some up\<rparr>) = (err, d1)" by fastforce
    have s: "same_members d d1" using resubscribe_same [where d = "d\<lparr>nd_conn := Some up\<rparr>" and fails = fails] r by (simp add: same_members_def)
    have "same_members d1 (snd (publishSelf fill send d1))" by (rule publish_same)
    with s Inr r show ?thesis
      by (cases err) (simp_all add: nd_Start_def connectAndSubscribe_def close_conn_def same_members_def)
  qed (simp add: nd_Start_def connectAndSubscribe_def same_members_def)
  show "same_members d (nd_Stop fill send d)"
    using publish_same(2) [where d = "d\<lparr>nd_closing := True\<rparr>" and fill = fill and send = send]
    by (simp add: same_members_def nd_Stop_def close_conn_def Let_def unsubscribe_same)
qed

lemma same_members_frame: "same_members d d' \<Longrightarrow> nd_infos d' = nd_infos d \<and> mgr_ok d' = mgr_ok d \<and> nd_memberTimes d' = nd_memberTimes d"
  by (simp add: same_members_def nd_infos_def mgr_ok_def)

text \<open>Runs of the service in which one handler at a time touches the members.\<close>

lemma message_frame:
  "nd_codec (handleDiscoveryMessage call now data d) = nd_codec d" "nd_nodeInfo (handleDiscoveryMessage call now data d) = nd_nodeInfo d"
  "nd_stopCh (handleDiscoveryMessage call now data d) = nd_stopCh d"
  by (auto simp: handleDiscoveryMessage_def addMemberInfo_def noteMember_def on_mgr_def on_stats_def Let_def split: sum.splits prod.splits)

inductive disc_reachable :: "('e, 'w) listener_call \<Rightarrow> ('e, 'w) NatsDiscovery \<Rightarrow> bool" for call where
  new: "NewNatsDiscovery ni json opt w = Some d \<Longrightarrow> disc_reachable call d"
| msg: "disc_reachable call d \<Longrightarrow> disc_reachable call (handleDiscoveryMessage call now data d)"
| check: "disc_reachable call d \<Longrightarrow> disc_reachable call (checkMemberTimeout call now order d)"
| heartbeat: "disc_reachable call d \<Longrightarrow> disc_reachable call (heartbeatLoop fill send d)"
| ask: "disc_reachable call d \<Longrightarrow> disc_reachable call (requestAllMembers send d)"
| asked: "disc_reachable call d \<Longrightarrow> disc_reachable call (handleDiscoveryRequest fill send data d)"
| start: "disc_reachable call d \<Longrightarrow> disc_reachable call (snd (nd_Start connect fails fill send d))"
| reconnected: "disc_reachable call d \<Longrightarrow> disc_reachable call (ReconnectedCB fails fill send d)"
| stop: "disc_reachable call d \<Longrightarrow> disc_reachable call (nd_Stop fill send d)"

lemma message_spec:
  assumes "observes call" "mgr_ok d"
  shows "case mc_UnmarshalInfo (nd_codec d) data of
      Inr info \<Rightarrow> (if mi_NodeID info = ni_nodeId (nd_nodeInfo d) then
          nd_infos (handleDiscoveryMessage call now data d) = nd_infos d \<and> nd_memberTimes (handleDiscoveryMessage call now data d) = nd_memberTimes d
        else nd_infos (handleDiscoveryMessage call now data d) = (nd_infos d)(mi_NodeID info \<mapsto> info) \<and>
          nd_memberTimes (handleDiscoveryMessage call now data d) = (nd_memberTimes d)(mi_NodeID info \<mapsto> now))
    | Inl err \<Rightarrow> nd_infos (handleDiscoveryMessage call now data d) = nd_infos d \<and> nd_memberTimes (handleDiscoveryMessage call now data d) = nd_memberTimes d"
    "mgr_ok (handleDiscoveryMessage call now data d)"
  using add_spec [OF assms(1), of "on_stats AddHeartbeatReceived d" now] assms(2)
  by (auto simp: handleDiscoveryMessage_def Let_def split: sum.split)

lemma dom_cut: "dom m = dom n \<Longrightarrow> dom (\<lambda>j. if P j then None else m j) = dom (\<lambda>j. if P j then None else n j)"
  by (auto simp: dom_def set_eq_iff)

lemma disc_inv:
  assumes "disc_reachable call d" "observes call"
  shows "mgr_ok d \<and> dom (nd_memberTimes d) = dom (nd_infos d)"
  using assms(1)
proof (induction rule: disc_reachable.induct)
  case (new ni json opt w d)
  then have "nd_memberMgr d = NewMemberMgr" "nd_memberTimes d = Map.empty"
    by (auto simp: NewNatsDiscovery_def Let_def split: if_splits)
  then show ?case by (simp add: mgr_ok_def nd_infos_def New_members members_reachable.new)
next
  case (msg d now data)
  then show ?case using message_spec [OF assms(2), where d = d and data = data and now = now] by (auto split: sum.splits if_splits)
next
  case (check d now order)
  then show ?case
    using expel_spec [OF assms(2), of d] dom_cut [of "nd_memberTimes d" "nd_infos d"]
    by (simp add: checkMemberTimeout_def Let_def)
qed (simp_all add: same_members_frame [OF handlers_same(1)] same_members_frame [OF handlers_same(2)]
    same_members_frame [OF handlers_same(3)] same_members_frame [OF handlers_same(4)]
    same_members_frame [OF handlers_same(5)] same_members_frame [OF handlers_same(6)])

subsection \<open>Properties\<close>

text \<open>
  C39: silent members are expelled, and no others. When one handler at a time touches the members and
  listeners only observe: a message of another node that decodes makes that node a member with the
  information and the time of the message, any other message changes nothing; and a check at the
  time \<open>now\<close> keeps exactly the members whose last message is at most 15 seconds old, besides one with
  the empty id, unchanged.
\<close>

theorem discovery_expels_silent:
  assumes "disc_reachable call d" "observes call" "set order = dom (nd_memberTimes d)" "\<not> nd_stopCh d"
  shows "nd_infos (handleDiscoveryMessage call now data d) = (case mc_UnmarshalInfo (nd_codec d) data of
      Inl err \<Rightarrow> nd_infos d
    | Inr info \<Rightarrow> if mi_NodeID info = ni_nodeId (nd_nodeInfo d) then nd_infos d else (nd_infos d)(mi_NodeID info \<mapsto> info)) \<and>
    (\<forall>info. mc_UnmarshalInfo (nd_codec d) data = Inr info \<and> mi_NodeID info \<noteq> ni_nodeId (nd_nodeInfo d) \<longrightarrow>
      nd_memberTimes (handleDiscoveryMessage call now data d) (mi_NodeID info) = Some now) \<and>
    dom (nd_memberTimes d) = dom (nd_infos d) \<and>
    nd_infos (checkMemberTimeout call now order d) = (\<lambda>i. case nd_memberTimes d i of
        None \<Rightarrow> None
      | Some seen \<Rightarrow> if now - seen \<le> defaultMemberTimeout \<or> i = [] then nd_infos d i else None)"
proof -
  note I = disc_inv [OF assms(1,2)]
  have "nd_infos (checkMemberTimeout call now order d) i = (case nd_memberTimes d i of
        None \<Rightarrow> None
      | Some seen \<Rightarrow> if now - seen \<le> defaultMemberTimeout \<or> i = [] then nd_infos d i else None)" for i
    using expel_spec [OF assms(2), of d] I assms(3,4)
    by (auto simp: checkMemberTimeout_def Let_def domIff split: option.split)
  then show ?thesis using message_spec(1) [OF assms(2), where d = d and data = data and now = now] I by (auto split: sum.splits if_splits)
qed

text \<open>
  C40: members that are never expelled. When the check that expels a member is between the member
  manager and the times as a new message of the node arrives, the node stays a member without a time;
  and a node with the empty id is a member once it sent a message. In both cases no number of checks
  at whatever times removes the member.
\<close>

theorem discovery_ghost_member:
  assumes "observes call" "mgr_ok d" "mi_NodeID info \<in> dom (nd_infos d)" "mi_NodeID info \<noteq> []" "mi_NodeID none = []"
  shows "let i = mi_NodeID info;
      (existed, d1) = on_mgr (RemoveMember call i) d;
      d2 = addMemberInfo call now (Some info) d1;
      d3 = forgetMember i d2;
      checks = fold (\<lambda>(now, order). checkMemberTimeout call now order)
    in existed \<and> (\<forall>ticks. nd_infos (checks ticks d3) i = Some info) \<and>
       (\<forall>ticks. nd_infos (checks ticks (addMemberInfo call now (Some none) d)) [] = Some none)"
proof -
  define i where "i = mi_NodeID info"
  obtain ex d1 where r: "on_mgr (RemoveMember call i) d = (ex, d1)" by fastforce
  note R = mgr_removed [OF assms(1,2) r]
  define d3 where "d3 = forgetMember i (addMemberInfo call now (Some info) d1)"
  have keep: "mgr_ok (checkMemberTimeout call n order e) \<and> nd_infos (checkMemberTimeout call n order e) j = nd_infos e j \<and>
      (nd_memberTimes e j = None \<longrightarrow> nd_memberTimes (checkMemberTimeout call n order e) j = None)"
    if e: "mgr_ok e" "j = [] \<or> nd_memberTimes e j = None" for e n order j
  proof -
    have t: "nd_memberTimes (fold (removeMember call) xs e') j = None" if "nd_memberTimes e' j = None" "mgr_ok e'" for xs e'
      using that
    proof (induction xs arbitrary: e')
      case (Cons x xs)
      then show ?case using remove_spec [OF assms(1) Cons.prems(2), of x] by (cases "x = []") (auto simp: removeMember_def)
    qed simp
    show ?thesis using expel_spec [OF assms(1) e(1)] e t by (auto simp: checkMemberTimeout_def Let_def)
  qed
  have all: "nd_infos (fold (\<lambda>(now, order). checkMemberTimeout call now order) ticks e) j = nd_infos e j"
    if "mgr_ok e" "j = [] \<or> nd_memberTimes e j = None" for ticks e j
    using that
  proof (induction ticks arbitrary: e)
    case (Cons x ticks)
    then show ?case using keep [OF Cons.prems, of "fst x" "snd x"] by (auto simp: case_prod_unfold)
  qed simp
  have "mgr_ok d3" "nd_infos d3 i = Some info" "nd_memberTimes d3 i = None"
    using add_spec [OF assms(1) R(1), of now info] by (simp_all add: d3_def forgetMember_def i_def)
  then have 1: "nd_infos (fold (\<lambda>(now, order). checkMemberTimeout call now order) ticks d3) i = Some info" for ticks
    using all [of d3 i ticks] by simp
  have 2: "nd_infos (fold (\<lambda>(now, order). checkMemberTimeout call now order) ticks (addMemberInfo call now (Some none) d)) [] = Some none" for ticks
    using all [of "addMemberInfo call now (Some none) d" "[]" ticks] add_spec [OF assms(1,2), of now none] assms(5) by simp
  have ex: ex using R(3) assms(3) by (simp add: i_def)
  show ?thesis unfolding Let_def i_def [symmetric] r split_conv d3_def [symmetric] using ex 1 2 by blast
qed

text \<open>A service with two other nodes: one sends at second 1, the other at second 10, and a check runs at second 20.\<close>

definition number_msgs :: msg_codec where
  "number_msgs = \<lparr>mc_MarshalInfo = (\<lambda>i. Inr []), mc_UnmarshalInfo = (\<lambda>b. if b = [] then Inl (ErrOther 1) else Inr (node_info [CHR ''n'', char_of (unat (hd b))] ''game'' 0)),
     mc_MarshalRequest = (\<lambda>i. Inr []), mc_UnmarshalRequest = (\<lambda>b. Inl (ErrOther 2))\<rparr>"

definition silent :: "(nat, nat) listener_call" where
  "silent f a w = (w, False)"

definition sample_service :: "(nat, nat) NatsDiscovery" where
  "sample_service = the (NewNatsDiscovery \<lparr>ni_nodeId = ''me'', ni_nodeType = ''gate'', ni_address = [], ni_rpcAddress = []\<rparr> number_msgs
     \<lparr>do_MsgCodec = Some number_msgs, do_OfflineTimeout = 1, do_Url = ''u''\<rparr> 0)"

definition two_heard :: "(nat, nat) NatsDiscovery" where
  "two_heard = handleDiscoveryMessage silent (10 * nd_Second) [2] (handleDiscoveryMessage silent (1 * nd_Second) [1] sample_service)"

lemma silent_observes: "observes silent"
  unfolding observes_def
proof (intro allI)
  fix f :: "nat closure" and a and m :: "nat MemberMgr" and w :: nat
  show "\<exists>e. fst (fst (silent f a (m, w))) = m\<lparr>mb_eventMgr := e\<rparr>"
    by (rule exI [of _ "mb_eventMgr m"]) (simp add: silent_def)
qed

lemma two_heard_reachable: "disc_reachable silent two_heard"
proof -
  have "disc_reachable silent sample_service"
    by (rule disc_reachable.new [of "\<lparr>ni_nodeId = ''me'', ni_nodeType = ''gate'', ni_address = [], ni_rpcAddress = []\<rparr>" number_msgs
          "\<lparr>do_MsgCodec = Some number_msgs, do_OfflineTimeout = 1, do_Url = ''u''\<rparr>" 0])
      (simp add: sample_service_def NewNatsDiscovery_def CheckDiscoveryOption_def Let_def)
  then show ?thesis unfolding two_heard_def by (intro disc_reachable.msg)
qed

definition peer :: "nat \<Rightarrow> string" where
  "peer n = [CHR ''n'', char_of n]"

lemma two_heard_times: "nd_memberTimes two_heard = [peer 1 \<mapsto> 1 * nd_Second, peer 2 \<mapsto> 10 * nd_Second]"
proof -
  have ok: "mgr_ok sample_service" "nd_memberTimes sample_service = Map.empty" "nd_codec sample_service = number_msgs"
    "ni_nodeId (nd_nodeInfo sample_service) = ''me''"
    by (simp_all add: sample_service_def NewNatsDiscovery_def CheckDiscoveryOption_def Let_def mgr_ok_def members_reachable.new)
  have u: "mc_UnmarshalInfo number_msgs [b] = Inr (node_info (peer (unat b)) ''game'' 0)" for b
    by (simp add: number_msgs_def peer_def)
  have n: "mi_NodeID (node_info i t n) = i" for i t n by (simp add: node_info_def)
  have p: "peer k \<noteq> ''me''" for k by (simp add: peer_def)
  define d1 where "d1 = handleDiscoveryMessage silent (1 * nd_Second) [1] sample_service"
  have 1: "mgr_ok d1" "nd_memberTimes d1 = [peer 1 \<mapsto> 1 * nd_Second]"
    using message_spec [OF silent_observes ok(1), where data = "[1]" and now = "1 * nd_Second"] p [of 1]
    by (simp_all add: d1_def ok u n)
  have c: "nd_codec d1 = number_msgs" "ni_nodeId (nd_nodeInfo d1) = ''me''" by (simp_all add: d1_def message_frame ok)
  show ?thesis
    using message_spec(1) [OF silent_observes 1(1), where data = "[2]" and now = "10 * nd_Second"] p [of 2]
    unfolding two_heard_def d1_def [symmetric] by (simp add: c u n 1(2))
qed

lemma discovery_expels_silent_witness:
  "nd_infos (checkMemberTimeout silent (20 * nd_Second) [peer 1, peer 2] two_heard) (peer 1) = None \<and>
   nd_infos (checkMemberTimeout silent (20 * nd_Second) [peer 1, peer 2] two_heard) (peer 2) = nd_infos two_heard (peer 2)"
proof -
  have p: "peer 1 \<noteq> peer 2" "peer 1 \<noteq> []" by (simp_all add: peer_def)
  have o: "set [peer 1, peer 2] = dom (nd_memberTimes two_heard)" by (simp add: two_heard_times insert_commute)
  have s: "\<not> nd_stopCh two_heard"
    by (simp add: two_heard_def message_frame sample_service_def NewNatsDiscovery_def CheckDiscoveryOption_def Let_def)
  from discovery_expels_silent [OF two_heard_reachable silent_observes o s, where now = "20 * nd_Second"] p
  show ?thesis by (simp add: two_heard_times defaultMemberTimeout_def nd_Second_def)
qed

lemma discovery_ghost_member_witness:
  "\<exists>d3. nd_memberTimes d3 (peer 1) = None \<and> (\<forall>ticks. nd_infos (fold (\<lambda>(now, order). checkMemberTimeout silent now order) ticks d3) (peer 1) \<noteq> None)"
proof -
  have inv: "mgr_ok two_heard" "peer 1 \<in> dom (nd_infos two_heard)"
    using disc_inv [OF two_heard_reachable silent_observes] by (auto simp: two_heard_times)
  define info where "info = node_info (peer 1) ''game'' 5"
  have i: "mi_NodeID info = peer 1" "mi_NodeID (node_info [] ''game'' 0) = []" by (simp_all add: info_def node_info_def)
  have a: "mi_NodeID info \<in> dom (nd_infos two_heard)" "mi_NodeID info \<noteq> []" using inv i by (auto simp: peer_def)
  obtain ex d1 where r: "on_mgr (RemoveMember silent (peer 1)) two_heard = (ex, d1)" by fastforce
  from discovery_ghost_member [OF silent_observes inv(1) a i(2), where now = 5, unfolded Let_def i(1) r split_conv]
  have "\<forall>ticks. nd_infos (fold (\<lambda>(now, order). checkMemberTimeout silent now order) ticks
      (forgetMember (peer 1) (addMemberInfo silent 5 (Some info) d1))) (peer 1) \<noteq> None" by simp
  moreover have "nd_memberTimes (forgetMember (peer 1) (addMemberInfo silent 5 (Some info) d1)) (peer 1) = None"
    by (simp add: forgetMember_def on_stats_def)
  ultimately show ?thesis by blast
qed

end
