(* ===== verification/Spec2Isabelle.thy ===== *)
theory Spec2Isabelle
  imports Codec PacketSpliter Ring RbQueue SendQueue Xvalue WriteProps WorkerWriteProps ReadProps DelayQueue TimingRuns
    RpcCall RpcCount Discovery
begin

text \<open>
  A verification library of the core of a distributed game server framework in Go: its packet formats,
  buffers and queues, timers, connection processors, remote calls, dynamic values and service discovery. The
  paths below are relative to src/. A Go panic is \<open>None\<close> of the option type \<open>go\<close> (theory \<open>Prelude\<close>), a
  normal return is \<open>Some\<close>, and an error result is an ordinary value next to it; \<open>int\<close> and the sized
  integers are words where the code can overflow or wrap, and integers where an invariant of the
  component keeps them small, which the theory in question says. Goroutines are steps of an inductive
  relation; a step is the code between two points where another goroutine can see a difference (the
  section under a lock, one atomic access, one channel operation, one callback), and a theorem about
  reachable states holds for every interleaving.

  Packets (kknet/kkpacket). A message is encoded by a codec, gets a head of typed parts and is framed by
  a length field:
  \<^item> \<open>ByteOrder\<close>, \<open>HeadPart\<close>, \<open>PacketHead\<close>: defaults.go, head_part.go, packet_head.go. Writing and reading a
    head are inverse; reading one part by its name agrees with reading them all.
  \<^item> \<open>Framing\<close> is the abstract cutting of a stream into frames, a locale over a decision function;
    \<open>LfStream\<close> (packet_lfstream.go) interprets it: packing and splitting lose nothing, whatever the limits.
  \<^item> \<open>Router\<close>, \<open>Codec\<close>: router.go, meta.go, packet_message.go, codec.go and the JSON and protobuf codecs
    of utils/kkcodec. The body codec is a
    parameter; the law that it writes the same bytes wherever it is told to is proved of both codecs.

  Buffers and queues (utils). Every one refines a list, stated by the locales of \<open>Fifo\<close> and \<open>FifoQueue\<close>
  which the theories of the implementations interpret:
  \<^item> \<open>BytePool\<close>: buffers/byteslice, over a store of arrays, since clients depend on which slices share one.
  \<^item> \<open>Ring\<close>: buffers/kkring. \<open>RbQueue\<close>: queues/rbqueue, with its unlocked emptiness test.
  \<^item> \<open>BBQueue\<close>, \<open>NNQueue\<close>, \<open>SendQueue\<close>: queues/bbqueue, the two send queues (array and linked nodes over an
    explicit heap) and the choice between them.
  \<^item> \<open>Deque\<close>: queues/dqueue, with element positions that stay valid. \<open>WorkerQueue\<close>: queues/taskqueue over it.

  Timers (utils/timingwheel). \<open>DelayHeap\<close>, \<open>DelayQueue\<close>: the priority queue on container/heap and the delay
  queue, whose poller and callers of \<open>Offer\<close> are interleaved steps: no wake-up is lost. \<open>TimingWheel\<close>: the
  hierarchical wheel over it, where a call of the wheel, the start of a task and the handling of a bucket are one
  step each; \<open>TimingInv\<close>, \<open>TimingProps\<close>: the windows of the levels and what holds in runs that handle a bucket before anything
  else happens; \<open>TimingAny\<close>, \<open>TimingRuns\<close>: what holds in every run. No sum of the code wraps for 2 to \<open>2^18\<close> buckets.

  Connections (kknet). \<open>NetOptions\<close>: options_net.go, options_wp.go, options_rp.go, stats.go, status.go,
  conn_mgr.go. \<open>PacketSpliter\<close>: kkprocessor/packet_spliter.go, from what a socket reads to whole packets,
  over any pool: which bytes a packet holds when the pool hands its buffer out again is part of the statement; \<open>ReadProc\<close>, \<open>ReadProps\<close>: read_thread.go, read_sync.go, read_worker.go, which hand these to the
  handlers. \<open>WriteCore\<close>, \<open>WriteProc\<close>, \<open>WriteProps\<close>: kkprocessor/write_thread.go, from senders through a send queue to
  the connection (\<open>Start\<close> is part of the constructor there); \<open>TlsConn\<close> (kktcptls/conn.go) provides the write callback, whose contract is the locale
  \<open>write_func\<close>; \<open>WorkerWrite\<close>, \<open>WorkerWriteProps\<close>: write_worker.go, the variant that writes from jobs of the modelled worker
  queue. What is accepted is sent in order, released after an error, or still there.

  Remote calls (remotes/kkrpc). \<open>RpcFrame\<close>: protocol.go, options.go, err.go, ctx.go, stats.go; \<open>RpcReceiver\<close>,
  \<open>RpcCall\<close>: registration, codec.go, receiver.go, the invokers of one-way calls; \<open>RpcPending\<close>, \<open>RpcChans\<close>, \<open>RpcIds\<close>, \<open>RpcCalm\<close>,
  \<open>RpcOnce\<close>, \<open>RpcPendingProps\<close>, \<open>RpcCount\<close>: the sharded table of pending calls, with callers, receivers,
  timeouts and closing as threads: the channels and their reuse, the ids in use, what holds when no
  call leaves its select in the middle of a delivery, what happens when one does, callbacks run once, and the
  count of pending calls.

  Dynamic values (utils/xconv, utils/xvalue). \<open>GoValue\<close> are the values an \<open>any\<close> can hold, \<open>Strconv\<close> the text
  of numbers, \<open>Xconv\<close>, \<open>XconvProps\<close> the conversions, \<open>XconvTables\<close> the slice conversions with one table of cases each,
  \<open>XconvSlice\<close> what they give, and \<open>Xvalue\<close> the value type that uses them.

  Discovery. \<open>EventMgr\<close>: utils/kkevent with the safe calls of utils/xcall; \<open>MemberMgr\<close>: the members of
  remotes/kkdiscovery, which tell the event manager what changes; \<open>Discovery\<close>: dnats, which feeds the members
  from the messages of other nodes and expels the silent ones. NATS, the codec and the clock are parameters.

  Parameters, bounds and fuel. Readers, writers, codecs, the clock, the network, the choice of a pool and
  of the scheduler are arguments of the definitions; what they must satisfy is a premise of the property
  and is shown satisfiable by its witness. The loops of the code are structural recursion or recursion
  with a measure, with these exceptions: runs of a component on its own take a list of scheduling choices
  or a number of rounds (\<open>wp_run\<close>, \<open>wq_drain\<close>, \<open>drain\<close>), and the properties state how many are enough (\<open>wp_left\<close>,
  the number of unfinished jobs, one round more than there are items).

  Not modelled. The transports over gnet, gorilla, gws and crypto/tls (kknet/kktcp, kkws, kkgws and the rest of kktcptls), the
  NATS cluster and event bus, the actor layer (kkapp/kkactor, over protoactor) and the gate and game transports are mostly calls
  of those libraries. Logging, metrics, file and process helpers are effects outside the program's state. Generated
  protocols, demos and the schema tools are not part of the running core. Object pools, named timers and the component life cycle could be
  modelled in the same way and have not been. Panics of handlers and callbacks are outside the models,
  except where the code recovers them (\<open>EventMgr\<close>). Floating-point arithmetic, the text of floats and of
  durations and JSON are parameters of \<open>conv_env\<close>.
\<close>

end
